(* ===== verification/Kernel_Base.thy ===== *)
theory Kernel_Base
  imports Main "HOL-Library.Word"
begin

text \<open>
  Prelude of the development: the machine types of the iAPX286 compiler, the error
  codes of \<open>uts/sys/errno.h\<close>, the part of the user structure every component reads,
  and the list and word lemmas the component theories share.

  On the 286 an \<open>int\<close> has 16 bits and a \<open>long\<close> 32. A quantity whose wrap-around can
  be observed is a word of its width; table indices, which the C code derives from
  pointers into fixed tables, are \<open>nat\<close>.
\<close>

unbundle bit_operations_syntax

type_synonym u16 = "16 word"
type_synonym u32 = "32 word"
type_synonym byte = "8 word"

named_theorems kernel_simps \<open>evaluation rules of the model's small accessors\<close>
named_theorems inv_intros \<open>introduction rules of the component invariants\<close>

section \<open>Error codes\<close>

text \<open>The values \<open>u.u_error\<close> can take, in the order of \<open>errno.h\<close>.\<close>

datatype (plugins only: code) errno =
    EPERM | ENOENT | ESRCH | EINTR | EIO | ENXIO | E2BIG | ENOEXEC | EBADF | ECHILD
  | EAGAIN | ENOMEM | EACCES | EFAULT | ENOTBLK | EBUSY | EEXIST | EXDEV | ENODEV
  | ENOTDIR | EISDIR | EINVAL | ENFILE | EMFILE | ENOTTY | ETXTBSY | EFBIG | ENOSPC
  | ESPIPE | EROFS | EMLINK | EPIPE | EDOM | ERANGE | ENOMSG | EIDRM | ECHRNG
  | EL2NSYNC | EL3HLT | EL3RST | ELNRNG | EUNATCH | ENOCSI | EL2HLT | EDEADLK | ENOLCK

section \<open>The calling process\<close>

text \<open>
  The credentials in the user structure (\<open>u_uid\<close>, \<open>u_gid\<close>, \<open>u_ruid\<close>, \<open>u_rgid\<close>), the
  process id behind \<open>u_procp\<close> and the index of \<open>u_procp\<close> in the table \<open>proc\<close>.
\<close>

record ucred =
  u_uid :: u16
  u_gid :: u16
  u_ruid :: u16
  u_rgid :: u16
  u_pid :: u16
  u_procx :: nat

text \<open>\<open>suser\<close> of \<open>os/fio.c\<close>, without the accounting flag it sets.\<close>

definition suser :: "ucred \<Rightarrow> bool" where
  "suser u \<longleftrightarrow> u_uid u = 0"

text \<open>
  The outcome of a system call or kernel routine: a value, the code left in \<open>u.u_error\<close>, or
  an access to memory outside the tables the code works on, a null pointer included.
\<close>

datatype 'a sysres = Ret 'a | Fail errno | Wild

section \<open>Lists\<close>

lemma map_option_eq_SomeD: "map_option f x = Some y \<Longrightarrow> \<exists>z. x = Some z \<and> y = f z"
  by (cases x) auto

lemma takeWhile_stop: "\<not> P x \<Longrightarrow> takeWhile P (xs @ x # ys) = takeWhile P xs"
  by (induction xs) auto

section \<open>Words as numbers\<close>

lemma unat_plus_small:
  fixes a b :: "'a::len word"
  assumes "unat a + unat b < 2 ^ LENGTH('a)"
  shows "unat (a + b) = unat a + unat b"
  using assms by (simp add: unat_word_ariths)

lemma unat_minus_small:
  fixes a b :: "'a::len word"
  assumes "b \<le> a"
  shows "unat (a - b) = unat a - unat b"
  using assms by (simp add: unat_sub)

lemma unat_eq_0_iff [simp]: "unat (x :: 'a::len word) = 0 \<longleftrightarrow> x = 0"
  by (fact unat_eq_zero)

lemma u16_lt: "unat (x :: u16) < 65536"
  using unsigned_less [of x] by simp

lemma sless_of_nat16: "n < 32768 \<Longrightarrow> 0 <s (of_nat n :: u16) \<longleftrightarrow> 0 < n"
  by (simp add: word_sless_alt signed_of_nat signed_take_bit_int_eq_self)

text \<open>The signed reading of a 16-bit and of a 32-bit quantity.\<close>

lemma sint16: "sint (w :: u16) = (if unat w < 32768 then int (unat w) else int (unat w) - 65536)"
proof -
  have u: "uint w < 65536" using uint_lt2p [of w] by simp
  have "sint w = (uint w + 32768) mod 65536 - 32768"
    by (simp add: sint_uint signed_take_bit_eq_take_bit_shift take_bit_eq_mod)
  also have "\<dots> = (if uint w < 32768 then uint w else uint w - 65536)"
  proof -
    have "(x + 32768) mod 65536 - 32768 = (if x < 32768 then x else x - 65536)"
      if "0 \<le> x" "x < 65536" for x :: int
    proof (cases "x < 32768")
      case False
      have "(x + 32768) mod 65536 = (x - 32768 + 65536) mod 65536" by (simp add: add.commute)
      also have "\<dots> = x - 32768" using that False by (simp only: mod_add_self2) simp
      finally show ?thesis using False by simp
    qed (use that in simp)
    then show ?thesis using u by simp
  qed
  finally show ?thesis by (simp add: uint_nat del: of_nat_unat)
qed

lemma sless0_u16: "(w :: u16) <s 0 \<longleftrightarrow> 32768 \<le> unat w"
proof -
  have "int (unat w) < 65536" using u16_lt [of w] by linarith
  then show ?thesis unfolding word_sless_alt sint16 by (auto simp del: of_nat_unat)
qed

lemma unat_of_nat16: "n < 65536 \<Longrightarrow> unat (of_nat n :: u16) = n"
  by (simp add: unat_of_nat)

text \<open>The signed comparison of small quantities.\<close>

lemma sless_small16: "unat (x :: u16) < 32768 \<Longrightarrow> unat y < 32768 \<Longrightarrow> x <s y \<longleftrightarrow> unat x < unat y"
  by (auto simp: word_sless_alt sint16 simp del: of_nat_unat)

end
