(* ===== verification/Chain.thy ===== *)
theory Chain
  imports Kernel_Base
begin

text \<open>
  Pointer chains. The tables of the kernel (character blocks, message headers, undo
  structures, record locks) are linked through index-valued fields; \<open>path nx p xs q\<close> says
  that following \<open>nx\<close> from the pointer \<open>p\<close> visits exactly \<open>xs\<close> and arrives at \<open>q\<close>.
\<close>

primrec path :: "('a \<Rightarrow> 'a option) \<Rightarrow> 'a option \<Rightarrow> 'a list \<Rightarrow> 'a option \<Rightarrow> bool" where
  "path nx p [] q \<longleftrightarrow> p = q"
| "path nx p (x # xs) q \<longleftrightarrow> p = Some x \<and> path nx (nx x) xs q"

abbreviation chain :: "('a \<Rightarrow> 'a option) \<Rightarrow> 'a option \<Rightarrow> 'a list \<Rightarrow> bool" where
  "chain nx p xs \<equiv> path nx p xs None"

text \<open>The same walk as a computation, cut off after \<open>n\<close> steps.\<close>

primrec walk :: "nat \<Rightarrow> ('a \<Rightarrow> 'a option) \<Rightarrow> 'a option \<Rightarrow> 'a list" where
  "walk 0 nx p = []"
| "walk (Suc n) nx p = (case p of None \<Rightarrow> [] | Some x \<Rightarrow> x # walk n nx (nx x))"

lemma path_append: "path nx p (xs @ ys) q \<longleftrightarrow> (\<exists>r. path nx p xs r \<and> path nx r ys q)"
  by (induction xs arbitrary: p) auto

lemma path_cong: "(\<And>x. x \<in> set xs \<Longrightarrow> nx x = nx' x) \<Longrightarrow> path nx p xs q \<longleftrightarrow> path nx' p xs q"
  by (induction xs arbitrary: p) auto

lemma path_upd [simp]: "x \<notin> set xs \<Longrightarrow> path (nx(x := v)) p xs q \<longleftrightarrow> path nx p xs q"
  by (rule path_cong) auto

lemma path_count: "(\<And>i. a \<le> i \<Longrightarrow> i < b \<Longrightarrow> nx i = Some (Suc i)) \<Longrightarrow> a \<le> b \<Longrightarrow> path nx (Some a) [a..<b] (Some b)"
proof (induction "b - a" arbitrary: a)
  case (Suc d)
  then have "path nx (Some (Suc a)) [Suc a..<b] (Some b)" by (intro Suc.hyps(1)) auto
  then show ?case using Suc by (simp add: upt_conv_Cons)
qed simp

lemma chain_None [simp]: "chain nx None xs \<longleftrightarrow> xs = []"
  by (cases xs) auto

lemma chain_Some: "chain nx (Some x) xs \<longleftrightarrow> (\<exists>ys. xs = x # ys \<and> chain nx (nx x) ys)"
  by (cases xs) auto

lemma chain_unique: "chain nx p xs \<Longrightarrow> chain nx p ys \<Longrightarrow> xs = ys"
proof (induction xs arbitrary: p ys)
  case (Cons x xs) then show ?case by (cases ys) auto
qed simp

lemma chain_distinct: "chain nx p xs \<Longrightarrow> distinct xs"
proof (induction xs arbitrary: p)
  case (Cons x xs)
  have "x \<notin> set xs"
  proof
    assume "x \<in> set xs"
    then obtain us vs where xs: "xs = us @ x # vs" by (meson split_list)
    from Cons.prems have "chain nx (nx x) (us @ x # vs)" by (simp add: xs)
    then have "chain nx (nx x) vs" "chain nx (nx x) (us @ x # vs)" by (auto simp: path_append)
    from chain_unique [OF this] have "length vs = length (us @ x # vs)" by simp
    then show False by simp
  qed
  with Cons show ?case by auto
qed simp

lemma chain_snoc:
  assumes "chain nx p xs" "y \<notin> set xs"
  shows "chain (nx(y := None)) (Some y) [y]"
    and "xs \<noteq> [] \<Longrightarrow> chain (nx(y := None, last xs := Some y)) p (xs @ [y])"
proof -
  show "chain (nx(y := None)) (Some y) [y]" by simp
  assume "xs \<noteq> []"
  then obtain zs z where xs: "xs = zs @ [z]" by (metis rev_exhaust)
  from assms have d: "distinct xs" by (auto dest: chain_distinct)
  from assms xs d show "chain (nx(y := None, last xs := Some y)) p (xs @ [y])"
    by (auto simp: path_append)
qed

lemma path_split: "x \<in> set xs \<Longrightarrow> path nx p xs q \<Longrightarrow>
    \<exists>us vs. xs = us @ x # vs \<and> path nx p us (Some x) \<and> path nx (nx x) vs q"
  by (fastforce simp: path_append dest!: split_list)

text \<open>Unlinking the element behind \<open>last us\<close>.\<close>

lemma chain_unlink:
  assumes "chain nx p (us @ x # vs)"
  shows "us = [] \<Longrightarrow> chain nx (nx x) vs"
    and "us \<noteq> [] \<Longrightarrow> chain (nx(last us := nx x)) p (us @ vs)"
proof -
  show "us = [] \<Longrightarrow> chain nx (nx x) vs" using assms by simp
  assume "us \<noteq> []"
  then obtain zs z where us: "us = zs @ [z]" by (metis rev_exhaust)
  from chain_distinct [OF assms] assms us
  show "chain (nx(last us := nx x)) p (us @ vs)" by (auto simp: path_append)
qed

lemma chain_length: "chain nx p xs \<Longrightarrow> set xs \<subseteq> {..<n} \<Longrightarrow> length xs \<le> n"
  using card_mono [of "{..<n}" "set xs"] by (simp add: distinct_card chain_distinct)

lemma walk_chain: "chain nx p xs \<Longrightarrow> length xs \<le> n \<Longrightarrow> walk n nx p = xs"
proof (induction xs arbitrary: p n)
  case Nil then show ?case by (cases n) auto
next
  case (Cons x xs) then show ?case by (cases n) auto
qed

lemma walk_chain_bounded: "chain nx p xs \<Longrightarrow> set xs \<subseteq> {..<n} \<Longrightarrow> walk n nx p = xs"
  by (rule walk_chain) (auto dest: chain_length)

text \<open>Where a walk ends is determined by where it starts and what it visits.\<close>

lemma path_end: "path nx p xs q \<Longrightarrow> path nx p xs q' \<Longrightarrow> q = q'"
  by (induction xs arbitrary: p) auto

end
