(* ===== verification/Ipc_Perm.thy ===== *)
theory Ipc_Perm
  imports Kernel_Base
begin

text \<open>
  The routines that message queues, semaphores and shared memory have in common
  (\<open>os/ipc.c\<close>, \<open>uts/sys/ipc.h\<close>): the permission check, the search for a key, and the
  identifiers, which join a slot number with the slot's usage count.
\<close>

section \<open>The common structure\<close>

record ipc_perm =
  uid :: u16
  gid :: u16
  cuid :: u16
  cgid :: u16
  mode :: u16
  seq :: u16
  key :: u32

definition IPC_ALLOC :: u16 where "IPC_ALLOC = 0x8000"
definition IPC_CREAT :: u16 where "IPC_CREAT = 0x200"
definition IPC_EXCL :: u16 where "IPC_EXCL = 0x400"
definition IPC_NOWAIT :: u16 where "IPC_NOWAIT = 0x800"
definition IPC_PRIVATE :: u32 where "IPC_PRIVATE = 0"

datatype ipc_cmd = IPC_RMID | IPC_SET | IPC_STAT

text \<open>The low nine permission bits, 0777.\<close>

abbreviation perm_bits :: u16 where "perm_bits \<equiv> 0x1FF"

abbreviation allocated :: "ipc_perm \<Rightarrow> bool" where
  "allocated p \<equiv> mode p AND IPC_ALLOC \<noteq> 0"

section \<open>Permission check\<close>

definition ipcaccess :: "ucred \<Rightarrow> ipc_perm \<Rightarrow> u16 \<Rightarrow> errno option" where
  "ipcaccess u p m =
     (if u_uid u = 0 then None
      else
        (let m = (if u_uid u \<noteq> uid p \<and> u_uid u \<noteq> cuid p
                  then (let m = drop_bit 3 m
                        in if u_gid u \<noteq> gid p \<and> u_gid u \<noteq> cgid p then drop_bit 3 m else m)
                  else m)
         in if m AND mode p \<noteq> 0 then None else Some EACCES))"

section \<open>The search for a key\<close>

text \<open>
  The facility's table is a function from slots to permission structures. A successful
  \<open>ipcget\<close> answers the slot, whether it is new, and the slot's structure, which is only
  written when it is new.
\<close>

fun scan_private :: "(nat \<Rightarrow> ipc_perm) \<Rightarrow> nat list \<Rightarrow> nat option" where
  "scan_private base [] = None"
| "scan_private base (i # is) = (if allocated (base i) then scan_private base is else Some i)"

datatype key_scan = Scan_error errno | Scan_found nat | Scan_done "nat option"

fun scan_key :: "u32 \<Rightarrow> u16 \<Rightarrow> (nat \<Rightarrow> ipc_perm) \<Rightarrow> nat list \<Rightarrow> nat option \<Rightarrow> key_scan" where
  "scan_key k flag base [] a = Scan_done a"
| "scan_key k flag base (i # is) a =
     (if allocated (base i) then
        (if key (base i) = k then
           (if flag AND (IPC_CREAT OR IPC_EXCL) = (IPC_CREAT OR IPC_EXCL) then Scan_error EEXIST
            else if (flag AND perm_bits) AND NOT (mode (base i)) \<noteq> 0 then Scan_error EACCES
            else Scan_found i)
         else scan_key k flag base is a)
      else scan_key k flag base is (if a = None then Some i else a))"

definition ipc_init :: "ucred \<Rightarrow> u32 \<Rightarrow> u16 \<Rightarrow> ipc_perm \<Rightarrow> ipc_perm" where
  "ipc_init u k flag p = p\<lparr>mode := IPC_ALLOC OR (flag AND perm_bits), key := k,
      cuid := u_uid u, uid := u_uid u, cgid := u_gid u, gid := u_gid u\<rparr>"

definition ipcget ::
  "ucred \<Rightarrow> u32 \<Rightarrow> u16 \<Rightarrow> (nat \<Rightarrow> ipc_perm) \<Rightarrow> nat \<Rightarrow> errno + nat \<times> bool \<times> ipc_perm" where
  "ipcget u k flag base cnt =
     (if k = IPC_PRIVATE then
        (case scan_private base [0..<cnt] of
           None \<Rightarrow> Inl ENOSPC
         | Some i \<Rightarrow> Inr (i, True, ipc_init u k flag (base i)))
      else
        (case scan_key k flag base [0..<cnt] None of
           Scan_error e \<Rightarrow> Inl e
         | Scan_found i \<Rightarrow> Inr (i, False, base i)
         | Scan_done a \<Rightarrow>
             if flag AND IPC_CREAT = 0 then Inl ENOENT
             else (case a of
                     None \<Rightarrow> Inl ENOSPC
                   | Some i \<Rightarrow> Inr (i, True, ipc_init u k flag (base i)))))"

section \<open>Identifiers\<close>

text \<open>
  \<open>seq * n + slot\<close>, and the conversions of \<open>semconv\<close>, \<open>msgconv\<close> and \<open>shmconv\<close>: the slot is
  \<open>id % n\<close>, where C's remainder takes the sign of \<open>id\<close>, so that a negative identifier
  addresses memory before the table (\<open>Wild\<close>).
\<close>

definition ipc_id :: "u16 \<Rightarrow> u16 \<Rightarrow> nat \<Rightarrow> u16" where
  "ipc_id n sq slot = sq * n + of_nat slot"

definition ipc_conv :: "u16 \<Rightarrow> (nat \<Rightarrow> ipc_perm) \<Rightarrow> u16 \<Rightarrow> u16 \<Rightarrow> nat sysres" where
  "ipc_conv n base bad s =
     (if s <s 0 \<and> sint s mod sint n \<noteq> 0 then Wild
      else
        (let p = base (nat (sint s mod sint n)); q = sgn (sint s) * (\<bar>sint s\<bar> div sint n)
         in if mode p AND IPC_ALLOC = 0 \<or> mode p AND bad \<noteq> 0 \<or> word_of_int q \<noteq> seq p
            then Fail EINVAL
            else Ret (nat (sint s mod sint n))))"

text \<open>The usage count after a removal, as the three facilities compute it.\<close>

definition ipc_bump :: "u16 \<Rightarrow> u16 \<Rightarrow> u16 \<Rightarrow> u16" where
  "ipc_bump n s sq = (if s + n <s 0 then 0 else sq + 1)"

section \<open>Keys\<close>

text \<open>The search in two passes: first for the key, then for a free slot.\<close>

definition key_slot :: "u32 \<Rightarrow> (nat \<Rightarrow> ipc_perm) \<Rightarrow> nat \<Rightarrow> nat option" where
  "key_slot k base cnt = List.find (\<lambda>i. allocated (base i) \<and> key (base i) = k) [0..<cnt]"

definition free_slot :: "(nat \<Rightarrow> ipc_perm) \<Rightarrow> nat \<Rightarrow> nat option" where
  "free_slot base cnt = List.find (\<lambda>i. \<not> allocated (base i)) [0..<cnt]"

definition keys_ok :: "(nat \<Rightarrow> ipc_perm) \<Rightarrow> nat \<Rightarrow> bool" where
  "keys_ok base cnt \<longleftrightarrow> (\<forall>i j. i < cnt \<and> j < cnt \<and> allocated (base i) \<and> allocated (base j) \<and>
     key (base i) = key (base j) \<and> key (base i) \<noteq> IPC_PRIVATE \<longrightarrow> i = j)"

lemma scan_private_find: "scan_private base is = List.find (\<lambda>i. \<not> allocated (base i)) is"
  by (induction "is") auto

lemma scan_key_find:
  "scan_key k flag base is a =
     (case List.find (\<lambda>i. allocated (base i) \<and> key (base i) = k) is of
        None \<Rightarrow> Scan_done (if a = None then List.find (\<lambda>i. \<not> allocated (base i)) is else a)
      | Some i \<Rightarrow>
          if flag AND (IPC_CREAT OR IPC_EXCL) = (IPC_CREAT OR IPC_EXCL) then Scan_error EEXIST
          else if (flag AND perm_bits) AND NOT (mode (base i)) \<noteq> 0 then Scan_error EACCES
          else Scan_found i)"
  by (induction "is" arbitrary: a) (auto split: option.splits)

lemma find_upt_Some: "List.find P [0..<n] = Some i \<Longrightarrow> i < n \<and> P i"
  by (auto simp: find_Some_iff)

lemma find_upt_None: "List.find P [0..<n] = None \<longleftrightarrow> (\<forall>i<n. \<not> P i)"
  by (auto simp: find_None_iff)

lemma ipc_init_fields [simp]:
  "key (ipc_init u k flag p) = k" "seq (ipc_init u k flag p) = seq p" "allocated (ipc_init u k flag p)"
  by (simp_all add: ipc_init_def bit.conj_disj_distrib2 IPC_ALLOC_def)

lemma ipcget_slot:
  assumes "ipcget u k flag base cnt = Inr (i, new, p)"
  shows "i < cnt" "allocated p" "key p = k"
    "new \<longleftrightarrow> \<not> allocated (base i)" "\<not> new \<Longrightarrow> p = base i" "seq p = seq (base i)"
    "new \<Longrightarrow> p = ipc_init u k flag (base i)"
    "new \<Longrightarrow> k \<noteq> IPC_PRIVATE \<Longrightarrow> j < cnt \<Longrightarrow> allocated (base j) \<Longrightarrow> key (base j) \<noteq> k"
  using assms
  by (auto simp: ipcget_def scan_private_find scan_key_find find_upt_None split: if_splits option.splits
      dest!: find_upt_Some)

lemma ipcget_keys_ok:
  assumes "keys_ok base cnt" "ipcget u k flag base cnt = Inr (i, new, p)"
  shows "keys_ok (base(i := p)) cnt"
proof (cases new)
  case True
  have other: "j < cnt \<Longrightarrow> allocated (base j) \<Longrightarrow> key (base j) = k \<Longrightarrow> k = IPC_PRIVATE" for j
    using ipcget_slot(8) [OF assms(2) True] by blast
  have kp: "key p = k" by (rule ipcget_slot(3) [OF assms(2)])
  show ?thesis unfolding keys_ok_def
  proof (intro allI impI, elim conjE)
    fix a b
    assume "a < cnt" "b < cnt" "allocated ((base(i := p)) a)" "allocated ((base(i := p)) b)"
      "key ((base(i := p)) a) = key ((base(i := p)) b)" "key ((base(i := p)) a) \<noteq> IPC_PRIVATE"
    then show "a = b" using other [of a] other [of b] kp assms(1) unfolding keys_ok_def
      by (cases "a = i"; cases "b = i") auto
  qed
next
  case False
  with ipcget_slot(5) [OF assms(2)] assms(1) show ?thesis by (simp add: fun_upd_idem)
qed

section \<open>Identifiers and slots\<close>

text \<open>Every slot's identifier is a nonnegative \<open>int\<close>.\<close>

definition seq_ok :: "nat \<Rightarrow> (nat \<Rightarrow> ipc_perm) \<Rightarrow> bool" where
  "seq_ok n base \<longleftrightarrow> 0 < n \<and> 2 * n < 32768 \<and> (\<forall>i<n. unat (seq (base i)) * n + i < 32768)"

lemma sint_of_nat16: "k < 32768 \<Longrightarrow> sint (of_nat k :: u16) = int k"
  by (simp add: signed_of_nat signed_take_bit_int_eq_self)

lemma u16_nonneg_cases:
  assumes "\<not> (s :: u16) <s 0" obtains k where "s = of_nat k" "k < 32768" "sint s = int k"
proof -
  have s: "0 \<le> sint s" using assms by (simp add: word_sless_alt)
  moreover have "sint s < 32768" using sint_lt [of s] by simp
  ultimately have "nat (sint s) < 32768" "of_nat (nat (sint s)) = s" by simp_all
  with that s show thesis by (metis nat_0_le)
qed

lemma ipc_id_nat: "ipc_id (of_nat n) sq i = of_nat (unat sq * n + i)"
  by (simp add: ipc_id_def)

lemma ipc_conv_nonneg:
  assumes "\<not> s <s 0" "s = of_nat k" "k < 32768" "0 < n" "n < 32768"
  shows "ipc_conv (of_nat n) base bad s =
     (if allocated (base (k mod n)) \<and> mode (base (k mod n)) AND bad = 0 \<and> unat (seq (base (k mod n))) = k div n
      then Ret (k mod n) else Fail EINVAL)"
proof -
  have k: "sint s = int k" "sint (of_nat n :: u16) = int n" using assms by (simp_all add: sint_of_nat16)
  have "sgn (int k) * (\<bar>int k\<bar> div int n) = int (k div n)" by (cases "k = 0") (simp_all add: zdiv_int)
  moreover have "(word_of_int (int (k div n)) :: u16) \<noteq> q \<longleftrightarrow> unat q \<noteq> k div n" for q :: u16
  proof -
    have "k div n < 65536" using assms(3) div_le_dividend [of k n] by linarith
    then have u: "unat (of_nat (k div n) :: u16) = k div n" by (simp add: unat_of_nat)
    have "q = of_nat (k div n)" if "unat q = k div n"
      by (subst that [symmetric]) simp
    with u show ?thesis by (auto simp del: unat_of_nat)
  qed
  moreover have "nat (int k mod int n) = k mod n" by (simp add: nat_mod_distrib)
  ultimately show ?thesis using assms(1) by (auto simp: ipc_conv_def k Let_def)
qed

lemma ipc_conv_id:
  assumes "seq_ok n base" "\<not> s <s 0"
  shows "ipc_conv (of_nat n) base bad s = Ret i \<longleftrightarrow>
     i < n \<and> allocated (base i) \<and> mode (base i) AND bad = 0 \<and> s = ipc_id (of_nat n) (seq (base i)) i"
proof -
  from assms(2) obtain k where k: "s = of_nat k" "k < 32768" by (rule u16_nonneg_cases)
  from assms(1) have n: "0 < n" "n < 32768" by (auto simp: seq_ok_def)
  have "s = ipc_id (of_nat n) (seq (base i)) i \<longleftrightarrow> k = unat (seq (base i)) * n + i" if "i < n"
  proof -
    have b: "unat (seq (base i)) * n + i < 32768" using assms(1) that by (auto simp: seq_ok_def)
    have "(of_nat k :: u16) = of_nat (unat (seq (base i)) * n + i) \<longleftrightarrow> k = unat (seq (base i)) * n + i"
      using k(2) b by (metis sint_of_nat16 of_nat_eq_iff)
    then show ?thesis by (simp only: ipc_id_nat k(1))
  qed
  moreover have "k = q * n + i \<longleftrightarrow> k div n = q \<and> k mod n = i" if "i < n" for q
    using that by (metis add.commute div_mult_mod_eq div_mult_self1 div_less mod_less mod_mult_self1 add_0 not_less_zero)
  ultimately show ?thesis using n ipc_conv_nonneg [OF assms(2) k n, of base bad]
    by (auto split: if_splits)
qed

lemma ipc_bump_ok:
  assumes "seq_ok n base" "i < n"
  defines "sq \<equiv> ipc_bump (of_nat n) (ipc_id (of_nat n) (seq (base i)) i) (seq (base i))"
  shows "unat sq * n + i < 32768" "ipc_id (of_nat n) sq i \<noteq> ipc_id (of_nat n) (seq (base i)) i"
proof -
  let ?k = "unat (seq (base i)) * n + i"
  have k: "?k < 32768" and n: "0 < n" "2 * n < 32768" using assms(1,2) by (auto simp: seq_ok_def)
  have "(of_nat (?k + n) :: u16) <s 0 \<longleftrightarrow> 32768 \<le> ?k + n"
    using k n by (simp only: sless0_u16 unat_of_nat16)
  then have s: "(of_nat ?k + of_nat n :: u16) <s 0 \<longleftrightarrow> 32768 \<le> ?k + n" unfolding of_nat_add .
  have sq: "sq = (if 32768 \<le> ?k + n then 0 else seq (base i) + 1)"
    by (simp only: sq_def ipc_bump_def ipc_id_nat s)
  have u: "unat (seq (base i) + 1) = unat (seq (base i)) + 1" if "?k + n < 32768"
  proof -
    have "unat (seq (base i)) \<le> unat (seq (base i)) * n" using n by simp
    then have "unat (seq (base i)) < 32768" using k by linarith
    then show ?thesis by (simp add: unat_plus_small)
  qed
  show "unat sq * n + i < 32768"
    using sq u k assms(2) n by (auto simp: algebra_simps)
  have "unat sq \<noteq> unat (seq (base i))"
  proof
    assume e: "unat sq = unat (seq (base i))"
    show False
    proof (cases "32768 \<le> ?k + n")
      case True
      then have "unat (seq (base i)) = 0" using e sq by simp
      then show False using True assms(2) n by simp
    next
      case False then show False using e sq u by simp
    qed
  qed
  then have "unat sq * n + i \<noteq> ?k" using n by simp
  then show "ipc_id (of_nat n) sq i \<noteq> ipc_id (of_nat n) (seq (base i)) i"
    using \<open>unat sq * n + i < 32768\<close> k unfolding ipc_id_nat by (metis sint_of_nat16 of_nat_eq_iff)
qed

text \<open>A negative identifier is converted to an address before the table.\<close>

lemma ipc_conv_negative:
  assumes "1 < n" "n < 32768" shows "ipc_conv (of_nat n) base bad (- 1) = Wild"
proof -
  have n: "sint (of_nat n :: u16) = int n" using assms by (simp add: sint_of_nat16)
  have "(- 1) mod int n = int n - 1" using assms zmod_minus1 [of "int n"] by simp
  then show ?thesis using assms by (simp add: ipc_conv_def n word_sless_alt)
qed

section \<open>Properties\<close>

text \<open>C39: the single scan of \<open>ipcget\<close> answers as a search for the key followed by a search for a
  free slot: an existing key is refused with \<open>EEXIST\<close> or \<open>EACCES\<close> or answered unchanged; a new
  structure goes to the first free slot and is fully initialised; without \<open>IPC_CREAT\<close> the answer
  is \<open>ENOENT\<close>, without a free slot \<open>ENOSPC\<close>.\<close>

theorem ipcget_two_pass:
  "ipcget u k flag base cnt =
     (case (if k = IPC_PRIVATE then None else key_slot k base cnt) of
        Some i \<Rightarrow>
          if flag AND (IPC_CREAT OR IPC_EXCL) = (IPC_CREAT OR IPC_EXCL) then Inl EEXIST
          else if (flag AND perm_bits) AND NOT (mode (base i)) \<noteq> 0 then Inl EACCES
          else Inr (i, False, base i)
      | None \<Rightarrow>
          if k \<noteq> IPC_PRIVATE \<and> flag AND IPC_CREAT = 0 then Inl ENOENT
          else (case free_slot base cnt of
                  None \<Rightarrow> Inl ENOSPC
                | Some i \<Rightarrow> Inr (i, True, ipc_init u k flag (base i))))"
  by (auto simp: ipcget_def scan_private_find scan_key_find key_slot_def free_slot_def split: option.splits)

text \<open>C40: \<open>ipcget\<close> never gives one public key to two slots, and the slot it answers is inside
  the table, allocated and carries the key asked for.\<close>

theorem ipcget_unique_key:
  assumes "keys_ok base cnt" "ipcget u k flag base cnt = Inr (i, new, p)"
  shows "keys_ok (base(i := p)) cnt \<and> i < cnt \<and> allocated p \<and> key p = k \<and>
     (if new then \<not> allocated (base i) else p = base i)"
  using ipcget_keys_ok [OF assms] ipcget_slot [OF assms(2)] by auto

definition demo_perm :: "u16 \<Rightarrow> u16 \<Rightarrow> u32 \<Rightarrow> ipc_perm" where
  "demo_perm m sq k = \<lparr>uid = 7, gid = 7, cuid = 7, cgid = 7, mode = m, seq = sq, key = k\<rparr>"

definition demo_cred :: ucred where
  "demo_cred = \<lparr>u_uid = 7, u_gid = 7, u_ruid = 7, u_rgid = 7, u_pid = 12, u_procx = 3\<rparr>"

theorem ipcget_unique_key_witness:
  "keys_ok ((\<lambda>i. demo_perm (if i = 0 then 0x8180 else 0) 0 5)
     (1 := ipc_init demo_cred 9 0x3B6 (demo_perm 0 0 5))) 2"
proof -
  let ?b = "\<lambda>i::nat. demo_perm (if i = 0 then 0x8180 else 0) 0 5"
  have "ipcget demo_cred 9 0x3B6 ?b 2 = Inr (1, True, ipc_init demo_cred 9 0x3B6 (?b 1))"
    by (simp add: ipcget_def IPC_PRIVATE_def demo_perm_def IPC_ALLOC_def IPC_CREAT_def upt_rec)
  note g = this
  have k: "keys_ok ?b 2" by (auto simp: keys_ok_def demo_perm_def IPC_ALLOC_def split: if_splits)
  from ipcget_unique_key [OF k g] show ?thesis by simp
qed

text \<open>an identifier the facility has handed out is converted to its slot while the slot is
  in use, and is refused once the slot's usage count has been advanced by a removal, however
  the slot is reused; the advanced count again gives only nonnegative identifiers.\<close>

lemma ipc_id_lifetime:
  assumes "seq_ok n base" "i < n" "allocated (base i)" "mode (base i) AND bad = 0"
    and "\<not> ipc_id (of_nat n) (seq (base i)) i <s 0"
    and "seq p = ipc_bump (of_nat n) (ipc_id (of_nat n) (seq (base i)) i) (seq (base i))"
  shows "ipc_conv (of_nat n) base bad (ipc_id (of_nat n) (seq (base i)) i) = Ret i \<and>
     ipc_conv (of_nat n) (base(i := p)) bad (ipc_id (of_nat n) (seq (base i)) i) = Fail EINVAL \<and>
     seq_ok n (base(i := p))"
proof -
  let ?id = "ipc_id (of_nat n) (seq (base i)) i"
  have ok: "seq_ok n (base(i := p))"
    using assms(1) ipc_bump_ok(1) [OF assms(1,2)] assms(6) by (auto simp: seq_ok_def)
  have 1: "ipc_conv (of_nat n) base bad ?id = Ret i" using assms ipc_conv_id [OF assms(1,5)] by simp
  have "ipc_conv (of_nat n) (base(i := p)) bad ?id \<noteq> Ret j" for j
  proof
    assume "ipc_conv (of_nat n) (base(i := p)) bad ?id = Ret j"
    then have j: "j < n" "?id = ipc_id (of_nat n) (seq ((base(i := p)) j)) j"
      using ipc_conv_id [OF ok assms(5)] by auto
    have "j = i"
    proof -
      have "unat (seq ((base(i := p)) j)) * n + j = unat (seq (base i)) * n + i"
        using j assms(1,2) ok unfolding ipc_id_nat seq_ok_def by (metis sint_of_nat16 of_nat_eq_iff)
      then show ?thesis using j(1) assms(2) by (metis mod_mult_self3 mod_less add.commute)
    qed
    then show False using j(2) ipc_bump_ok(2) [OF assms(1,2)] assms(6) by simp
  qed
  moreover have "ipc_conv (of_nat n) (base(i := p)) bad ?id \<noteq> Wild"
    using assms(5) by (simp add: ipc_conv_def Let_def)
  ultimately have "ipc_conv (of_nat n) (base(i := p)) bad ?id = Fail EINVAL"
    by (auto simp: ipc_conv_def Let_def split: if_splits)
  with 1 ok show ?thesis by simp
qed

end
