(* ===== verification/Resource_Map.thy ===== *)
theory Resource_Map
  imports Kernel_Base
begin

text \<open>
  The resource maps of \<open>uts/iAPX286/os/malloc.c\<close> with the accessors of
  \<open>sys/map.h\<close>: the allocator behind core memory, swap space, semaphores and message
  text. A map is an array whose slot 0 is a header and whose slots from 1 hold
  address-ordered free blocks, ended by a block of size 0.
\<close>

section \<open>The map array\<close>

record mapent =
  m_size :: u16
  m_addr :: u16

text \<open>
  \<open>mapsize\<close> (the slots still unused) and \<open>mapwant\<close> are the two fields of slot 0;
  \<open>mapents\<close> is the array from \<open>mapstart\<close> on, up to its physical end.
\<close>

record rmap =
  mapsize :: u16
  mapwant :: u16
  mapents :: "mapent list"

definition mapinit :: "rmap \<Rightarrow> u16 \<Rightarrow> rmap" where
  "mapinit mp n = mp\<lparr>mapsize := n - 2\<rparr>"

section \<open>Allocation\<close>

text \<open>
  The inner \<open>do ... while\<close> of \<open>malloc\<close>: every slot is overwritten by its successor until
  the terminator has been copied. \<open>None\<close>: the pointer ran past the end of the array.
\<close>

fun shift_down :: "mapent list \<Rightarrow> mapent list option" where
  "shift_down (e # f # r) =
     (if m_size f = 0 then Some (f # f # r) else map_option ((#) f) (shift_down (f # r)))"
| "shift_down _ = None"

text \<open>The \<open>for\<close> loop: the address returned, the new slots, and what \<open>mapsize\<close> gains.\<close>

fun malloc_ents :: "mapent list \<Rightarrow> u16 \<Rightarrow> (u16 \<times> mapent list \<times> u16) option" where
  "malloc_ents [] sz = None"
| "malloc_ents (e # r) sz =
     (if m_size e = 0 then Some (0, e # r, 0)
      else if sz \<le> m_size e then
        (let a = m_addr e;
             e' = e\<lparr>m_addr := m_addr e + sz, m_size := m_size e - sz\<rparr>
         in if m_size e' = 0 then map_option (\<lambda>es. (a, es, 1)) (shift_down (e' # r))
            else Some (a, e' # r, 0))
      else map_option (\<lambda>(a, es, k). (a, e # es, k)) (malloc_ents r sz))"

definition malloc :: "rmap \<Rightarrow> u16 \<Rightarrow> (u16 \<times> rmap) option" where
  "malloc mp sz =
     map_option (\<lambda>(a, es, k). (a, mp\<lparr>mapents := es, mapsize := mapsize mp + k\<rparr>))
       (malloc_ents (mapents mp) sz)"

section \<open>Release\<close>

datatype mfree_event = Quiet | Wakeup_waiters | Map_overflow

text \<open>The search loop: the slots before \<open>bp\<close> and those from \<open>bp\<close> on.\<close>

fun mfree_find :: "mapent list \<Rightarrow> mapent list \<Rightarrow> u16 \<Rightarrow> (mapent list \<times> mapent list) option" where
  "mfree_find pre [] a = None"
| "mfree_find pre (e # r) a =
     (if m_addr e \<le> a \<and> m_size e \<noteq> 0 then mfree_find (pre @ [e]) r a else Some (pre, e # r))"

text \<open>The loop that closes the gap after a block was merged with both neighbours.\<close>

fun close_gap :: "mapent list \<Rightarrow> mapent list option" where
  "close_gap [] = None"
| "close_gap (e # r) =
     (if m_size e = 0 then Some (e # r)
      else case r of [] \<Rightarrow> None | f # r' \<Rightarrow> map_option ((#) f) (close_gap (f # r')))"

text \<open>The loop that inserts a block and moves the rest of the list one slot up.\<close>

fun push_up :: "mapent list \<Rightarrow> u16 \<Rightarrow> u16 \<Rightarrow> mapent list option" where
  "push_up [] sz a = None"
| "push_up (e # r) sz a =
     (let e' = e\<lparr>m_addr := a, m_size := sz\<rparr>
      in if m_size e = 0 then Some (e' # r)
         else map_option ((#) e') (push_up r (m_size e) (m_addr e)))"

text \<open>The body of \<open>mfree\<close> up to the test of \<open>mapwant\<close>; \<open>None\<close> in the second component
  of the result is the early return of the overflow branch.\<close>

definition mfree_ents ::
  "u16 \<Rightarrow> mapent list \<Rightarrow> u16 \<Rightarrow> u16 \<Rightarrow> (mapent list \<times> u16 option) option" where
  "mfree_ents msz es sz a =
     (case mfree_find [] es a of
        None \<Rightarrow> None
      | Some (pre, []) \<Rightarrow> None
      | Some (pre, bp # r) \<Rightarrow>
          if pre \<noteq> [] \<and> m_addr (last pre) + m_size (last pre) = a then
            (let p = last pre; q = p\<lparr>m_size := m_size p + sz\<rparr>
             in if a + sz = m_addr bp then
                  map_option
                    (\<lambda>es'. (butlast pre @ q\<lparr>m_size := m_size q + m_size bp\<rparr> # es', Some (msz + 1)))
                    (close_gap (bp # r))
                else Some (butlast pre @ q # bp # r, Some msz))
          else if a + sz = m_addr bp \<and> m_size bp \<noteq> 0 then
            Some (pre @ bp\<lparr>m_addr := m_addr bp - sz, m_size := m_size bp + sz\<rparr> # r, Some msz)
          else if sz \<noteq> 0 then
            (if msz = 0 then Some (es, None)
             else map_option (\<lambda>es'. (pre @ es', Some (msz - 1))) (push_up (bp # r) sz a))
          else Some (es, Some msz))"

definition mfree :: "rmap \<Rightarrow> u16 \<Rightarrow> u16 \<Rightarrow> (rmap \<times> mfree_event) option" where
  "mfree mp sz a =
     (case mfree_ents (mapsize mp) (mapents mp) sz a of
        None \<Rightarrow> None
      | Some (es, None) \<Rightarrow> Some (mp, Map_overflow)
      | Some (es, Some msz) \<Rightarrow>
          (let mp' = mp\<lparr>mapents := es, mapsize := msz\<rparr>
           in if mapwant mp' \<noteq> 0 then Some (mp'\<lparr>mapwant := 0\<rparr>, Wakeup_waiters)
              else Some (mp', Quiet)))"

section \<open>Free space and the invariant\<close>

definition run :: "u16 \<Rightarrow> u16 \<Rightarrow> nat set" where
  "run a n = {unat a ..< unat a + unat n}"

definition ent_run :: "mapent \<Rightarrow> nat set" where
  "ent_run e = run (m_addr e) (m_size e)"

definition ent_end :: "mapent \<Rightarrow> nat" where
  "ent_end e = unat (m_addr e) + unat (m_size e)"

definition free_of :: "mapent list \<Rightarrow> nat set" where
  "free_of ls = (\<Union>e \<in> set ls. ent_run e)"

text \<open>The blocks of a map: nonempty, in increasing order, never adjacent to one another
  (\<open>mfree\<close> merges neighbours), never at address 0 (the failure value) and never reaching
  the top of the address range.\<close>

fun blocks :: "nat \<Rightarrow> mapent list \<Rightarrow> bool" where
  "blocks lo [] = True"
| "blocks lo (e # es) =
     (lo < unat (m_addr e) \<and> m_size e \<noteq> 0 \<and> ent_end e < 65536 \<and> blocks (ent_end e) es)"

definition term_ent :: mapent where
  "term_ent = \<lparr>m_size = 0, m_addr = 0\<rparr>"

definition live :: "rmap \<Rightarrow> mapent list" where
  "live mp = takeWhile (\<lambda>e. m_size e \<noteq> 0) (mapents mp)"

definition free_units :: "rmap \<Rightarrow> nat set" where
  "free_units mp = free_of (live mp)"

text \<open>A well-formed map: live blocks, then terminators, one more of them than \<open>mapsize\<close>
  says are unused.\<close>

definition map_shape :: "rmap \<Rightarrow> mapent list \<Rightarrow> bool" where
  "map_shape mp ls \<longleftrightarrow>
     mapents mp = ls @ replicate (Suc (unat (mapsize mp))) term_ent \<and> blocks 0 ls
     \<and> length (mapents mp) < 65536"

definition map_ok :: "rmap \<Rightarrow> bool" where
  "map_ok mp \<longleftrightarrow> map_shape mp (live mp)"

lemma term_ent_sel [simp]: "m_size term_ent = 0" "m_addr term_ent = 0"
  by (simp_all add: term_ent_def)

lemma blocks_nonempty: "blocks lo ls \<Longrightarrow> e \<in> set ls \<Longrightarrow> m_size e \<noteq> 0"
  by (induction ls arbitrary: lo) auto

lemma blocks_above: "blocks lo ls \<Longrightarrow> e \<in> set ls \<Longrightarrow> lo < unat (m_addr e) \<and> ent_end e < 65536"
proof (induction ls arbitrary: lo)
  case (Cons b ls)
  then show ?case by (fastforce simp: ent_end_def)
qed simp

lemma blocks_mono: "blocks lo ls \<Longrightarrow> lo' \<le> lo \<Longrightarrow> blocks lo' ls"
  by (cases ls) auto

lemma live_shape: "map_shape mp ls \<Longrightarrow> live mp = ls"
  unfolding live_def map_shape_def
  by (auto simp: takeWhile_append takeWhile_eq_all_conv dest: blocks_nonempty)

lemma map_okI: "map_shape mp ls \<Longrightarrow> map_ok mp"
  using live_shape [of mp ls] by (simp add: map_ok_def)

lemma map_okE:
  assumes "map_ok mp"
  obtains ls where "map_shape mp ls" and "live mp = ls" and "free_units mp = free_of ls"
  using assms by (auto simp: map_ok_def free_units_def)

lemma free_of_simps [simp]:
  "free_of [] = {}" "free_of (e # ls) = ent_run e \<union> free_of ls"
  "free_of (xs @ ys) = free_of xs \<union> free_of ys"
  by (auto simp: free_of_def)

lemma ent_run_alt: "ent_run e = {unat (m_addr e) ..< ent_end e}"
  by (simp add: ent_run_def run_def ent_end_def)

lemma free_of_above: "blocks lo ls \<Longrightarrow> x \<in> free_of ls \<Longrightarrow> lo < x \<and> x < 65536"
  by (auto simp: free_of_def ent_run_alt dest!: blocks_above)

lemma run_empty_iff [simp]: "run a n = {} \<longleftrightarrow> n = 0"
  by (simp add: run_def)

subsection \<open>A free run lies inside one block\<close>

lemma run_in_block:
  assumes "blocks lo ls" and "{x ..< x + n} \<subseteq> free_of ls" and "0 < n"
  shows "\<exists>e \<in> set ls. {x ..< x + n} \<subseteq> ent_run e"
  using assms
proof (induction ls arbitrary: lo)
  case (Cons e ls)
  have rest: "y \<in> free_of ls \<Longrightarrow> ent_end e < y" for y
    using Cons.prems(1) free_of_above [of "ent_end e" ls y] by simp
  show ?case
  proof (cases "x < ent_end e")
    case True
    have "x + n \<le> ent_end e"
    proof (rule ccontr)
      assume "\<not> x + n \<le> ent_end e"
      then have "ent_end e \<in> {x ..< x + n}" using True by simp
      with Cons.prems(2) have "ent_end e \<in> ent_run e \<union> free_of ls" by auto
      then show False using rest by (auto simp: ent_run_alt)
    qed
    moreover have "unat (m_addr e) \<le> x"
      using Cons.prems(2,3) True rest [of x] by (auto simp: ent_run_alt subset_iff)
    ultimately show ?thesis by (auto simp: ent_run_alt)
  next
    case False
    then have "{x ..< x + n} \<subseteq> free_of ls"
      using Cons.prems(2) by (fastforce simp: ent_run_alt)
    then show ?thesis using Cons.IH Cons.prems by auto
  qed
qed simp

section \<open>Allocation meets its contract\<close>

text \<open>First fit on the list of blocks alone, with neither terminators nor slot count.\<close>

fun take_first :: "mapent list \<Rightarrow> u16 \<Rightarrow> (u16 \<times> mapent list) option" where
  "take_first [] n = None"
| "take_first (e # r) n =
     (if n \<le> m_size e then
        Some (m_addr e, if m_size e = n then r
                        else e\<lparr>m_addr := m_addr e + n, m_size := m_size e - n\<rparr> # r)
      else map_option (\<lambda>(a, es). (a, e # es)) (take_first r n))"

lemma shift_down_terminated:
  "\<forall>f \<in> set ls. m_size f \<noteq> 0 \<Longrightarrow>
   shift_down (e # ls @ replicate (Suc k) term_ent) = Some (ls @ replicate (Suc (Suc k)) term_ent)"
  by (induction ls arbitrary: e) auto

lemma take_first_length:
  "take_first ls n = Some (a, ls') \<Longrightarrow> length ls' = length ls \<or> Suc (length ls') = length ls"
  by (induction ls arbitrary: ls') (auto split: if_splits)

lemma malloc_ents_take_first:
  assumes "\<forall>f \<in> set ls. m_size f \<noteq> 0"
  shows "malloc_ents (ls @ replicate (Suc k) term_ent) n =
    (case take_first ls n of
       None \<Rightarrow> Some (0, ls @ replicate (Suc k) term_ent, 0)
     | Some (a, ls') \<Rightarrow>
         if length ls' = length ls then Some (a, ls' @ replicate (Suc k) term_ent, 0)
         else Some (a, ls' @ replicate (Suc (Suc k)) term_ent, 1))"
  using assms
proof (induction ls)
  case (Cons e ls)
  show ?case
  proof (cases "n \<le> m_size e")
    case True
    then show ?thesis
      using Cons.prems shift_down_terminated [of ls "e\<lparr>m_addr := m_addr e + n, m_size := 0\<rparr>" k]
      by (auto simp: Let_def)
  next
    case False
    with Cons show ?thesis by (auto split: option.splits dest: take_first_length)
  qed
qed simp

lemma take_first_Some:
  assumes "blocks lo ls" and "take_first ls n = Some (a, ls')" and "n \<noteq> 0"
  shows "blocks lo ls' \<and> lo < unat a \<and> unat a + unat n < 65536
         \<and> run a n \<subseteq> free_of ls \<and> free_of ls' = free_of ls - run a n"
  using assms
proof (induction ls arbitrary: lo ls')
  case (Cons e ls)
  have above: "y \<in> free_of ls \<Longrightarrow> ent_end e < y" for y
    using Cons.prems(1) free_of_above [of "ent_end e" ls y] by simp
  show ?case
  proof (cases "n \<le> m_size e")
    case fits: True
    then have nle: "unat n \<le> unat (m_size e)" by (simp add: word_le_nat_alt)
    have a: "a = m_addr e" using fits Cons.prems(2) by simp
    have sub: "run a n \<subseteq> ent_run e" using nle a by (auto simp: run_def ent_run_def)
    show ?thesis
    proof (cases "m_size e = n")
      case True
      with fits Cons.prems have "ls' = ls" by simp
      moreover have "free_of ls \<inter> run a n = {}" using above sub by (fastforce simp: ent_run_alt)
      ultimately show ?thesis
        using Cons.prems(1) a True blocks_mono [of "ent_end e" ls lo]
        by (auto simp: ent_run_def ent_end_def)
    next
      case False
      let ?e = "e\<lparr>m_addr := m_addr e + n, m_size := m_size e - n\<rparr>"
      have lt: "unat n < unat (m_size e)"
        using nle False by (metis le_neq_implies_less word_unat_eq_iff)
      have "unat (m_addr e + n) = unat (m_addr e) + unat n"
        using Cons.prems(1) nle by (intro unat_plus_small) (auto simp: ent_end_def)
      moreover have "unat (m_size e - n) = unat (m_size e) - unat n"
        using fits by (rule unat_minus_small)
      ultimately have e': "unat (m_addr ?e) = unat (m_addr e) + unat n" "ent_end ?e = ent_end e"
          "m_size ?e \<noteq> 0"
        using lt False by (auto simp: ent_end_def)
      have "ls' = ?e # ls" using fits False Cons.prems(2) by auto
      moreover have "ent_run ?e = ent_run e - run a n"
        using e' a by (auto simp: ent_run_alt run_def)
      moreover have "free_of ls \<inter> run a n = {}" using above sub by (fastforce simp: ent_run_alt)
      moreover have "blocks lo (?e # ls)" using Cons.prems(1) e' by simp
      moreover have "lo < unat a" "unat a + unat n < 65536"
        using Cons.prems(1) a nle by (auto simp: ent_end_def)
      ultimately show ?thesis using sub a by auto
    qed
  next
    case False
    then obtain es where es: "take_first ls n = Some (a, es)" "ls' = e # es"
      using Cons.prems(2) by (auto dest!: map_option_eq_SomeD)
    then have IH: "blocks (ent_end e) es \<and> ent_end e < unat a \<and> unat a + unat n < 65536
         \<and> run a n \<subseteq> free_of ls \<and> free_of es = free_of ls - run a n"
      using Cons.IH [of "ent_end e" es] Cons.prems by auto
    then have "ent_run e \<inter> run a n = {}" by (auto simp: ent_run_alt run_def)
    then show ?thesis using IH es Cons.prems(1) by (auto simp: ent_end_def)
  qed
qed simp

lemma take_first_least:
  assumes "blocks lo ls" and "take_first ls n = Some (a, ls')" and "n \<noteq> 0"
    and "{x ..< x + unat n} \<subseteq> free_of ls"
  shows "unat a \<le> x"
  using assms
proof (induction ls arbitrary: lo ls')
  case (Cons e ls)
  show ?case
  proof (cases "n \<le> m_size e")
    case True
    have "x \<in> {x ..< x + unat n}" using Cons.prems(3) by (simp add: unat_gt_0)
    with Cons.prems(4) have "x \<in> free_of (e # ls)" by (rule subsetD)
    then have "x \<in> ent_run e \<union> free_of ls" by simp
    then show ?thesis
      using True Cons.prems free_of_above [of "ent_end e" ls x]
      by (auto simp: ent_run_alt ent_end_def)
  next
    case False
    then have big: "unat (m_size e) < unat n" by (simp add: word_le_nat_alt)
    then obtain es where es: "take_first ls n = Some (a, es)"
      using False Cons.prems(2) by (auto dest!: map_option_eq_SomeD)
    have "0 < unat n" using Cons.prems(3) by (simp add: unat_gt_0)
    then obtain f where f: "f \<in> set (e # ls)" "{x ..< x + unat n} \<subseteq> ent_run f"
      using run_in_block [OF Cons.prems(1,4)] by auto
    have "f \<noteq> e"
    proof
      assume "f = e"
      then have "{x ..< x + unat n} \<subseteq> {unat (m_addr e) ..< unat (m_addr e) + unat (m_size e)}"
        using f(2) by (simp add: ent_run_def run_def)
      then have "card {x ..< x + unat n} \<le> card {unat (m_addr e) ..< unat (m_addr e) + unat (m_size e)}"
        by (rule card_mono [rotated]) simp
      then show False using big by simp
    qed
    then have "{x ..< x + unat n} \<subseteq> free_of ls" using f by (auto simp: free_of_def)
    then show ?thesis using Cons.IH [of "ent_end e" es] Cons.prems es by auto
  qed
qed simp

lemma take_first_None:
  assumes "blocks lo ls" and "take_first ls n = None"
  shows "n \<noteq> 0 \<longrightarrow> \<not> {x ..< x + unat n} \<subseteq> free_of ls"
proof (intro impI notI)
  assume n: "n \<noteq> 0" and sub: "{x ..< x + unat n} \<subseteq> free_of ls"
  then obtain f where f: "f \<in> set ls" "{x ..< x + unat n} \<subseteq> ent_run f"
    using run_in_block [OF assms(1) sub] by (auto simp: unat_gt_0)
  then have "card {x ..< x + unat n} \<le> card (ent_run f)"
    by (intro card_mono) (auto simp: ent_run_def run_def)
  then have "n \<le> m_size f" by (simp add: ent_run_def run_def word_le_nat_alt)
  moreover have "f \<in> set ls \<Longrightarrow> m_size f < n"
    using assms(2) by (induction ls) (auto split: if_splits simp: not_le)
  ultimately show False using f(1) by simp
qed


lemma malloc_None_shape:
  assumes "map_shape mp ls" and "take_first ls n = None"
  shows "malloc mp n = Some (0, mp)"
proof -
  have "\<forall>f \<in> set ls. m_size f \<noteq> 0" using assms(1) by (auto simp: map_shape_def dest: blocks_nonempty)
  from malloc_ents_take_first [OF this, of "unat (mapsize mp)" n] assms show ?thesis
    by (auto simp: malloc_def map_shape_def)
qed

lemma mapsize_Suc:
  assumes "map_shape mp ls" and "ls \<noteq> []"
  shows "unat (mapsize mp + 1) = Suc (unat (mapsize mp))"
proof -
  have "length ls + unat (mapsize mp) < 65535" using assms(1) by (auto simp: map_shape_def)
  moreover have "0 < length ls" using assms(2) by simp
  ultimately have "unat (mapsize mp) + unat (1 :: u16) < 2 ^ LENGTH(16)" by simp
  then show ?thesis by (subst unat_plus_small) auto
qed

lemma malloc_Some_shape:
  assumes sh: "map_shape mp ls" and tf: "take_first ls n = Some (a, ls')" and n: "n \<noteq> 0"
  obtains mp' where "malloc mp n = Some (a, mp')" and "map_shape mp' ls'"
    and "length (mapents mp') = length (mapents mp)" and "mapwant mp' = mapwant mp"
proof -
  have ne: "\<forall>f \<in> set ls. m_size f \<noteq> 0" using sh by (auto simp: map_shape_def dest: blocks_nonempty)
  have b: "blocks 0 ls'" using take_first_Some [OF _ tf n, of 0] sh by (auto simp: map_shape_def)
  note m = malloc_ents_take_first [OF ne, of "unat (mapsize mp)" n]
  show thesis
  proof (cases "length ls' = length ls")
    case True
    let ?mp = "mp\<lparr>mapents := ls' @ replicate (Suc (unat (mapsize mp))) term_ent, mapsize := mapsize mp + 0\<rparr>"
    have "malloc mp n = Some (a, ?mp)" using sh m tf True by (simp add: malloc_def map_shape_def)
    moreover have "map_shape ?mp ls'" using sh b True by (auto simp: map_shape_def)
    ultimately show thesis using that [of ?mp] sh True by (auto simp: map_shape_def)
  next
    case False
    then have len: "Suc (length ls') = length ls" using take_first_length [OF tf] by simp
    let ?mp = "mp\<lparr>mapents := ls' @ replicate (Suc (Suc (unat (mapsize mp)))) term_ent, mapsize := mapsize mp + 1\<rparr>"
    have "malloc mp n = Some (a, ?mp)" using sh m tf False by (simp add: malloc_def map_shape_def)
    moreover have "unat (mapsize ?mp) = Suc (unat (mapsize mp))"
      using mapsize_Suc [OF sh] len by (cases ls) auto
    then have "map_shape ?mp ls'" using sh b len by (auto simp: map_shape_def)
    ultimately show thesis using that [of ?mp] sh len by (auto simp: map_shape_def)
  qed
qed

section \<open>Release meets its contract\<close>

fun last_end :: "nat \<Rightarrow> mapent list \<Rightarrow> nat" where
  "last_end lo [] = lo"
| "last_end lo (e # es) = last_end (ent_end e) es"

lemma last_end_snoc [simp]: "last_end lo (xs @ [e]) = ent_end e"
  by (induction xs arbitrary: lo) auto

lemma blocks_append: "blocks lo (xs @ ys) \<longleftrightarrow> blocks lo xs \<and> blocks (last_end lo xs) ys"
  by (induction xs arbitrary: lo) auto

lemma mfree_find_split:
  assumes "\<forall>e \<in> set pre. m_addr e \<le> a" and "\<forall>e \<in> set ls. m_size e \<noteq> 0"
  shows "\<exists>ps qs. ls = ps @ qs
    \<and> mfree_find pre (ls @ replicate (Suc k) term_ent) a = Some (pre @ ps, qs @ replicate (Suc k) term_ent)
    \<and> (\<forall>e \<in> set ps. m_addr e \<le> a) \<and> (qs \<noteq> [] \<longrightarrow> a < m_addr (hd qs))"
  using assms
proof (induction ls arbitrary: pre)
  case Nil
  then show ?case by auto
next
  case (Cons e ls)
  show ?case
  proof (cases "m_addr e \<le> a")
    case True
    then have "\<forall>e \<in> set (pre @ [e]). m_addr e \<le> a" "\<forall>e \<in> set ls. m_size e \<noteq> 0"
      using Cons.prems by auto
    from Cons.IH [OF this] obtain ps qs where "ls = ps @ qs"
      and "mfree_find (pre @ [e]) (ls @ replicate (Suc k) term_ent) a
           = Some ((pre @ [e]) @ ps, qs @ replicate (Suc k) term_ent)"
      and "\<forall>e \<in> set ps. m_addr e \<le> a" and "qs \<noteq> [] \<longrightarrow> a < m_addr (hd qs)"
      by blast
    then show ?thesis using True Cons.prems by (intro exI [of _ "e # ps"] exI [of _ qs]) auto
  next
    case False
    then show ?thesis by (intro exI [of _ "[]"] exI [of _ "e # ls"]) (auto simp: not_le)
  qed
qed

lemma close_gap_terminated:
  "\<forall>f \<in> set (e # ls). m_size f \<noteq> 0 \<Longrightarrow>
   close_gap (e # ls @ replicate (Suc k) term_ent) = Some (ls @ replicate (Suc (Suc k)) term_ent)"
  by (induction ls arbitrary: e) auto

lemma push_up_terminated:
  "\<forall>f \<in> set ls. m_size f \<noteq> 0 \<Longrightarrow>
   push_up (ls @ replicate (Suc k) term_ent) n a = Some (\<lparr>m_size = n, m_addr = a\<rparr> # ls @ replicate k term_ent)"
proof (induction ls arbitrary: n a)
  case Nil
  then show ?case by (simp add: term_ent_def)
next
  case (Cons e ls)
  then show ?case by (cases e) (auto simp: Let_def)
qed


lemma grow_up:
  assumes "ent_end e = unat a" and "unat a + unat n < 65536" and "m_size e \<noteq> 0"
  shows "ent_end (e\<lparr>m_size := m_size e + n\<rparr>) = unat a + unat n"
    and "ent_run (e\<lparr>m_size := m_size e + n\<rparr>) = ent_run e \<union> run a n"
    and "m_size e + n \<noteq> 0"
proof -
  have u: "unat (m_size e + n) = unat (m_size e) + unat n"
    using assms(1,2) by (intro unat_plus_small) (auto simp: ent_end_def)
  then show "ent_end (e\<lparr>m_size := m_size e + n\<rparr>) = unat a + unat n"
    using assms(1) by (simp add: ent_end_def)
  show "ent_run (e\<lparr>m_size := m_size e + n\<rparr>) = ent_run e \<union> run a n"
    using assms(1) u by (auto simp: ent_run_def run_def ent_end_def)
  show "m_size e + n \<noteq> 0" using u assms(3) by (metis add_eq_0_iff_both_eq_0 unat_eq_0_iff)
qed

lemma grow_down:
  assumes "a + n = m_addr e" and "unat a + unat n < 65536" and "m_size e \<noteq> 0" and "ent_end e < 65536"
  shows "ent_end (e\<lparr>m_addr := m_addr e - n, m_size := m_size e + n\<rparr>) = ent_end e"
    and "ent_run (e\<lparr>m_addr := m_addr e - n, m_size := m_size e + n\<rparr>) = ent_run e \<union> run a n"
    and "m_addr e - n = a" and "m_size e + n \<noteq> 0"
proof -
  have ad: "unat (m_addr e) = unat a + unat n"
    using assms(1,2) by (subst assms(1) [symmetric], intro unat_plus_small) simp
  have u: "unat (m_size e + n) = unat (m_size e) + unat n"
    using assms(4) ad by (intro unat_plus_small) (auto simp: ent_end_def)
  show a: "m_addr e - n = a" using assms(1) by (simp add: diff_eq_eq)
  show "ent_end (e\<lparr>m_addr := m_addr e - n, m_size := m_size e + n\<rparr>) = ent_end e"
    using ad u a by (simp add: ent_end_def)
  show "ent_run (e\<lparr>m_addr := m_addr e - n, m_size := m_size e + n\<rparr>) = ent_run e \<union> run a n"
    using ad u a by (auto simp: ent_run_def run_def)
  show "m_size e + n \<noteq> 0" using u assms(3) by (metis add_eq_0_iff_both_eq_0 unat_eq_0_iff)
qed

text \<open>What \<open>mfree\<close> may assume of the block it is given: it is not empty, it does not reach
  the top of the address range, and no unit of it is free already.\<close>

definition releasable :: "mapent list \<Rightarrow> u16 \<Rightarrow> u16 \<Rightarrow> bool" where
  "releasable ls n a \<longleftrightarrow>
     n \<noteq> 0 \<and> a \<noteq> 0 \<and> unat a + unat n < 65536 \<and> run a n \<inter> free_of ls = {}"

text \<open>The free list after a release, given its split at the block's address.\<close>

definition put_back :: "mapent list \<Rightarrow> mapent list \<Rightarrow> u16 \<Rightarrow> u16 \<Rightarrow> mapent list" where
  "put_back ps qs n a =
     (if ps \<noteq> [] \<and> m_addr (last ps) + m_size (last ps) = a then
        (if qs \<noteq> [] \<and> a + n = m_addr (hd qs) then
           butlast ps @ (last ps)\<lparr>m_size := m_size (last ps) + n + m_size (hd qs)\<rparr> # tl qs
         else butlast ps @ (last ps)\<lparr>m_size := m_size (last ps) + n\<rparr> # qs)
      else if qs \<noteq> [] \<and> a + n = m_addr (hd qs) then
        ps @ (hd qs)\<lparr>m_addr := m_addr (hd qs) - n, m_size := m_size (hd qs) + n\<rparr> # tl qs
      else ps @ \<lparr>m_size = n, m_addr = a\<rparr> # qs)"

definition split_at :: "mapent list \<Rightarrow> mapent list \<Rightarrow> mapent list \<Rightarrow> u16 \<Rightarrow> u16 \<Rightarrow> bool" where
  "split_at ls ps qs n a \<longleftrightarrow>
     blocks 0 ls \<and> ls = ps @ qs \<and> releasable ls n a
     \<and> (\<forall>e \<in> set ps. m_addr e \<le> a) \<and> (qs \<noteq> [] \<longrightarrow> a < m_addr (hd qs))"

lemma split_at_left:
  assumes "split_at ls (ps @ [p]) qs n a"
  shows "ent_end p \<le> unat a" and "m_size p \<noteq> 0"
    and "m_addr p + m_size p = a \<longleftrightarrow> ent_end p = unat a"
proof -
  have p: "p \<in> set ls" "m_addr p \<le> a" and n: "n \<noteq> 0" "run a n \<inter> free_of ls = {}"
    and b: "blocks 0 ls"
    using assms by (auto simp: split_at_def releasable_def)
  show "ent_end p \<le> unat a"
  proof (rule ccontr)
    assume "\<not> ent_end p \<le> unat a"
    then have "unat a \<in> ent_run p" using p(2) by (simp add: ent_run_alt word_le_nat_alt)
    then have "unat a \<in> free_of ls" using p(1) by (auto simp: free_of_def)
    moreover have "unat a \<in> run a n" using n(1) by (simp add: run_def unat_gt_0)
    ultimately show False using n(2) by auto
  qed
  show "m_size p \<noteq> 0" using b p(1) by (rule blocks_nonempty)
  have "unat (m_addr p + m_size p) = ent_end p"
    using blocks_above [OF b p(1)] by (subst unat_plus_small) (auto simp: ent_end_def)
  then show "m_addr p + m_size p = a \<longleftrightarrow> ent_end p = unat a"
    by (metis word_unat_eq_iff)
qed

lemma split_at_right:
  assumes "split_at ls ps (q # qs) n a"
  shows "unat a + unat n \<le> unat (m_addr q)" and "m_size q \<noteq> 0" and "ent_end q < 65536"
    and "a + n = m_addr q \<longleftrightarrow> unat a + unat n = unat (m_addr q)"
proof -
  have q: "q \<in> set ls" "a < m_addr q" and n: "run a n \<inter> free_of ls = {}"
    and sm: "unat a + unat n < 65536" and b: "blocks 0 ls"
    using assms by (auto simp: split_at_def releasable_def)
  show q0: "m_size q \<noteq> 0" using b q(1) by (rule blocks_nonempty)
  show "ent_end q < 65536" using blocks_above [OF b q(1)] by simp
  show "unat a + unat n \<le> unat (m_addr q)"
  proof (rule ccontr)
    assume "\<not> unat a + unat n \<le> unat (m_addr q)"
    then have "unat (m_addr q) \<in> run a n" using q(2) by (simp add: run_def word_less_nat_alt)
    moreover have "unat (m_addr q) \<in> ent_run q" using q0 by (simp add: ent_run_def run_def unat_gt_0)
    then have "unat (m_addr q) \<in> free_of ls" using q(1) by (auto simp: free_of_def)
    ultimately show False using n by auto
  qed
  have "unat (a + n) = unat a + unat n" using sm by (intro unat_plus_small) simp
  then show "a + n = m_addr q \<longleftrightarrow> unat a + unat n = unat (m_addr q)"
    by (metis word_unat_eq_iff)
qed

lemma put_back_joined:
  assumes sp: "split_at ls (ps @ [p]) qs n a" and left: "m_addr p + m_size p = a"
  shows "blocks 0 (put_back (ps @ [p]) qs n a)
         \<and> free_of (put_back (ps @ [p]) qs n a) = free_of ls \<union> run a n"
proof -
  have ls: "ls = ps @ p # qs" and b: "blocks 0 (ps @ p # qs)" and n: "unat a + unat n < 65536"
    using sp by (auto simp: split_at_def releasable_def)
  note l = split_at_left [OF sp]
  note g = grow_up [OF l(3) [THEN iffD1, OF left] n l(2)]
  show ?thesis
  proof (cases qs)
    case Nil
    then show ?thesis using b left g n by (auto simp: put_back_def ls blocks_append)
  next
    case (Cons q qs')
    note r = split_at_right [OF sp [unfolded Cons]]
    show ?thesis
    proof (cases "a + n = m_addr q")
      case True
      let ?p = "p\<lparr>m_size := m_size p + n\<rparr>"
      have "ent_end ?p = unat (m_addr q)" using g(1) r(4) True by simp
      moreover have "unat (m_addr q) + unat (m_size q) < 65536" using r(3) by (simp add: ent_end_def)
      ultimately have "ent_end (?p\<lparr>m_size := m_size ?p + m_size q\<rparr>) = ent_end q"
        "ent_run (?p\<lparr>m_size := m_size ?p + m_size q\<rparr>) = ent_run ?p \<union> ent_run q"
        "m_size ?p + m_size q \<noteq> 0"
        using grow_up [of ?p "m_addr q" "m_size q"] g(3) by (simp_all add: ent_end_def ent_run_def)
      then show ?thesis using b left Cons True g r
        by (auto simp: put_back_def ls blocks_append)
    next
      case False
      then show ?thesis using b left Cons g r n by (auto simp: put_back_def ls blocks_append)
    qed
  qed
qed

lemma put_back_apart:
  assumes sp: "split_at ls ps qs n a" and left: "\<not> (ps \<noteq> [] \<and> m_addr (last ps) + m_size (last ps) = a)"
  shows "blocks 0 (put_back ps qs n a) \<and> free_of (put_back ps qs n a) = free_of ls \<union> run a n"
proof -
  have ls: "ls = ps @ qs" and b: "blocks 0 (ps @ qs)" and n: "n \<noteq> 0" "a \<noteq> 0" "unat a + unat n < 65536"
    using sp by (auto simp: split_at_def releasable_def)
  have new: "ent_end \<lparr>m_size = n, m_addr = a\<rparr> = unat a + unat n"
    "ent_run \<lparr>m_size = n, m_addr = a\<rparr> = run a n"
    by (simp_all add: ent_end_def ent_run_def)
  have below: "last_end 0 ps < unat a"
  proof (cases ps rule: rev_cases)
    case Nil
    then show ?thesis using n(2) by (simp add: unat_gt_0)
  next
    case (snoc ps' p)
    with split_at_left [OF sp [unfolded snoc]] left show ?thesis by auto
  qed
  show ?thesis
  proof (cases qs)
    case Nil
    then show ?thesis using b left n new below by (auto simp: put_back_def ls blocks_append)
  next
    case (Cons q qs')
    note r = split_at_right [OF sp [unfolded Cons]]
    show ?thesis
    proof (cases "a + n = m_addr q")
      case True
      note g = grow_down [OF True n(3) r(2,3)]
      show ?thesis using b left Cons True g r below by (auto simp: put_back_def ls blocks_append)
    next
      case False
      then show ?thesis using b left Cons r new n below by (auto simp: put_back_def ls blocks_append)
    qed
  qed
qed

lemma put_back_spec:
  assumes "split_at ls ps qs n a"
  shows "blocks 0 (put_back ps qs n a) \<and> free_of (put_back ps qs n a) = free_of ls \<union> run a n"
  using put_back_apart [OF assms] put_back_joined [of ls _ _ qs n a] assms
  by (cases ps rule: rev_cases) auto

text \<open>The array operations of \<open>mfree\<close> compute \<open>put_back\<close>. The slot count moves the other
  way from the number of blocks, and only the insertion of a new block can overflow.\<close>

lemma split_at_ex:
  assumes sh: "map_shape mp ls" and rel: "releasable ls n a"
  obtains ps qs where "split_at ls ps qs n a"
    and "mfree_find [] (mapents mp) a
         = Some (ps, qs @ replicate (Suc (unat (mapsize mp))) term_ent)"
proof -
  have ne: "\<forall>f \<in> set ls. m_size f \<noteq> 0" and b: "blocks 0 ls"
    using sh by (auto simp: map_shape_def dest: blocks_nonempty)
  have "\<exists>ps qs. ls = ps @ qs
    \<and> mfree_find [] (ls @ replicate (Suc (unat (mapsize mp))) term_ent) a
         = Some (ps, qs @ replicate (Suc (unat (mapsize mp))) term_ent)
    \<and> (\<forall>e \<in> set ps. m_addr e \<le> a) \<and> (qs \<noteq> [] \<longrightarrow> a < m_addr (hd qs))"
    using mfree_find_split [OF _ ne, of "[]" a "unat (mapsize mp)"] by simp
  then obtain ps qs where "ls = ps @ qs"
    and "mfree_find [] (ls @ replicate (Suc (unat (mapsize mp))) term_ent) a
         = Some (ps, qs @ replicate (Suc (unat (mapsize mp))) term_ent)"
    and "\<forall>e \<in> set ps. m_addr e \<le> a" and "qs \<noteq> [] \<longrightarrow> a < m_addr (hd qs)"
    by blast
  then show thesis using that [of ps qs] b rel sh by (auto simp: split_at_def map_shape_def)
qed

lemma mfree_ents_put_back:
  assumes sp: "split_at ls ps qs n a"
    and fd: "mfree_find [] es a = Some (ps, qs @ replicate (Suc (unat k)) term_ent)"
  shows "mfree_ents k es n a =
    (let ls' = put_back ps qs n a
     in if length ls' < length ls then Some (ls' @ replicate (Suc (Suc (unat k))) term_ent, Some (k + 1))
        else if length ls' = length ls then Some (ls' @ replicate (Suc (unat k)) term_ent, Some k)
        else if k = 0 then Some (es, None)
        else Some (ls' @ replicate (unat k) term_ent, Some (k - 1)))"
proof -
  have n: "n \<noteq> 0" "a + n \<noteq> 0"
  proof -
    show "n \<noteq> 0" using sp by (simp add: split_at_def releasable_def)
    have "unat a + unat n < 65536" "a \<noteq> 0" using sp by (auto simp: split_at_def releasable_def)
    then have "unat (a + n) = unat a + unat n" by (intro unat_plus_small) simp
    with \<open>a \<noteq> 0\<close> show "a + n \<noteq> 0" by (metis add_eq_0_iff_both_eq_0 unat_eq_0_iff)
  qed
  have ls: "ls = ps @ qs" and ne: "\<forall>f \<in> set qs. m_size f \<noteq> 0"
    using sp by (auto simp: split_at_def dest: blocks_nonempty)
  show ?thesis
  proof (cases qs)
    case Nil
    then show ?thesis
      using n fd ls push_up_terminated [of "[]" "unat k" n a]
      by (auto simp: mfree_ents_def put_back_def Let_def)
  next
    case (Cons q qs')
    have cg: "close_gap (qs @ replicate (Suc (unat k)) term_ent)
              = Some (tl qs @ replicate (Suc (Suc (unat k))) term_ent)"
      using close_gap_terminated [of q qs' "unat k"] ne Cons by simp
    have "m_size q \<noteq> 0" using ne Cons by simp
    then show ?thesis
      using n fd ls cg Cons push_up_terminated [OF ne, of "unat k" n a]
      by (cases ps rule: rev_cases) (auto simp: mfree_ents_def put_back_def Let_def)
  qed
qed

lemma put_back_length:
  "length (put_back ps qs n a) \<le> Suc (length ps + length qs)
   \<and> length ps + length qs \<le> Suc (length (put_back ps qs n a))"
  by (cases ps rule: rev_cases; cases qs) (auto simp: put_back_def)

lemma mfree_shape [consumes 2]:
  assumes sh: "map_shape mp ls" and rel: "releasable ls n a"
  obtains (freed) mp' ev ls' where "mfree mp n a = Some (mp', ev)" and "ev \<noteq> Map_overflow"
      and "map_shape mp' ls'" and "free_of ls' = free_of ls \<union> run a n"
      and "length (mapents mp') = length (mapents mp)"
      and "mapwant mp' = 0" and "ev = Wakeup_waiters \<longleftrightarrow> mapwant mp \<noteq> 0"
  | (overflow) ls' where "mfree mp n a = Some (mp, Map_overflow)" and "mapsize mp = 0"
      and "blocks 0 ls'" and "free_of ls' = free_of ls \<union> run a n" and "length ls' = Suc (length ls)"
proof -
  obtain ps qs where sp: "split_at ls ps qs n a"
    and fd: "mfree_find [] (mapents mp) a = Some (ps, qs @ replicate (Suc (unat (mapsize mp))) term_ent)"
    using split_at_ex [OF sh rel] .
  define ls' where "ls' = put_back ps qs n a"
  have pb: "blocks 0 ls'" "free_of ls' = free_of ls \<union> run a n"
    using put_back_spec [OF sp] by (simp_all add: ls'_def)
  have len: "length ls = length ps + length qs" using sp by (simp add: split_at_def)
  have bound: "length ls + unat (mapsize mp) < 65535" and es: "length (mapents mp) = Suc (length ls + unat (mapsize mp))"
    using sh by (auto simp: map_shape_def)
  note m = mfree_ents_put_back [OF sp fd, folded ls'_def, unfolded Let_def]
  have wrap: "thesis" if "mfree_ents (mapsize mp) (mapents mp) n a = Some (ls' @ replicate (Suc (unat k)) term_ent, Some k)"
    and "length ls' + unat k = length ls + unat (mapsize mp)" for k
  proof -
    let ?mp = "mp\<lparr>mapents := ls' @ replicate (Suc (unat k)) term_ent, mapsize := k, mapwant := 0\<rparr>"
    have "mfree mp n a = Some (?mp, if mapwant mp = 0 then Quiet else Wakeup_waiters)"
      using that(1) by (auto simp: mfree_def)
    moreover have "map_shape ?mp ls'" using pb(1) that(2) bound by (auto simp: map_shape_def)
    ultimately show thesis
      using freed [of ?mp _ ls'] pb(2) that(2) es by (auto split: if_splits)
  qed
  consider "length ls' < length ls" | "length ls' = length ls" | "length ls < length ls'" by linarith
  then show thesis
  proof cases
    case 1
    then have "length ls = Suc (length ls')" using put_back_length [of ps qs n a] len by (simp add: ls'_def)
    moreover from this have "unat (mapsize mp + 1) = Suc (unat (mapsize mp))"
      by (intro mapsize_Suc [OF sh]) auto
    ultimately show thesis using m wrap [of "mapsize mp + 1"] by simp
  next
    case 2
    then show thesis using m wrap [of "mapsize mp"] by simp
  next
    case 3
    have len': "length ls' = Suc (length ls)"
      using 3 put_back_length [of ps qs n a] len by (simp add: ls'_def)
    show thesis
    proof (cases "mapsize mp = 0")
      case True
      with 3 m pb len' show thesis by (intro overflow [of ls']) (auto simp: mfree_def)
    next
      case False
      note len'
      moreover have "Suc (unat (mapsize mp - 1)) = unat (mapsize mp)"
        using False by (simp add: unat_minus_one unat_gt_0)
      ultimately show thesis using 3 m False wrap [of "mapsize mp - 1"] by simp
    qed
  qed
qed


section \<open>The free space determines the map\<close>

lemma free_of_gap: "blocks lo (e # ls) \<Longrightarrow> ent_end e \<notin> free_of (e # ls)"
  using free_of_above [of "ent_end e" ls "ent_end e"] by (auto simp: ent_run_alt)

lemma free_of_first: "blocks lo (e # ls) \<Longrightarrow> x \<in> free_of (e # ls) \<Longrightarrow> unat (m_addr e) \<le> x"
  using free_of_above [of "ent_end e" ls x] by (auto simp: ent_run_alt ent_end_def)

lemma free_of_hd: "blocks lo (e # ls) \<Longrightarrow> unat (m_addr e) \<in> free_of (e # ls)"
  by (auto simp: ent_run_def run_def unat_gt_0)

lemma first_block_unique:
  assumes "blocks lo (e # ls)" and "blocks lo' (e' # ls')" and "free_of (e # ls) = free_of (e' # ls')"
  shows "e = e'"
proof -
  have addr: "unat (m_addr e) = unat (m_addr e')"
    using free_of_first [OF assms(1)] free_of_first [OF assms(2)] free_of_hd [OF assms(1)]
      free_of_hd [OF assms(2)] assms(3) by (metis order_antisym)
  moreover have "ent_end e \<le> ent_end e'" "ent_end e' \<le> ent_end e"
    using free_of_gap [OF assms(1)] free_of_gap [OF assms(2)] assms(3) addr
    by (auto simp: ent_run_alt ent_end_def not_less)
  ultimately show "e = e'" by (auto simp: ent_end_def word_unat_eq_iff intro: mapent.equality)
qed

lemma blocks_unique:
  "blocks lo ls \<Longrightarrow> blocks lo' ls' \<Longrightarrow> free_of ls = free_of ls' \<Longrightarrow> ls = ls'"
proof (induction ls arbitrary: lo lo' ls')
  case Nil
  then show ?case by (cases ls') (auto simp: ent_run_def)
next
  case (Cons e ls)
  obtain e' r where ls': "ls' = e' # r"
    using Cons.prems free_of_hd [OF Cons.prems(1)] by (cases ls') auto
  then have e: "e' = e" using first_block_unique [of lo e ls lo' e' r] Cons.prems by simp
  have tail: "free_of t = free_of (e # t) - ent_run e" if "blocks l (e # t)" for l t
    using that free_of_above [of "ent_end e" t] by (fastforce simp: ent_run_alt)
  have "free_of ls = free_of r"
    using tail [OF Cons.prems(1)] tail [of lo' r] Cons.prems ls' e by simp
  then show ?case using Cons.IH [of "ent_end e" "ent_end e" r] Cons.prems ls' e by simp
qed

section \<open>The allocator contract\<close>

text \<open>
  What the clients of a map (\<open>sem.c\<close>, \<open>msg.c\<close>) rely on. \<open>runs_apart\<close> says that the
  blocks handed out are pairwise disjoint and that no unit of them is free.
\<close>

definition runs_apart :: "nat set \<Rightarrow> (u16 \<times> u16) list \<Rightarrow> bool" where
  "runs_apart av os \<longleftrightarrow>
     (\<forall>a n. (a, n) \<in> set os \<longrightarrow>
        a \<noteq> 0 \<and> n \<noteq> 0 \<and> unat a + unat n < 65536 \<and> run a n \<inter> av = {})
     \<and> sorted_wrt (\<lambda>(a, n) (b, m). run a n \<inter> run b m = {}) os"

lemma runs_apart_get:
  assumes "runs_apart av os" and "a \<noteq> 0" "n \<noteq> 0" "unat a + unat n < 65536" and "run a n \<subseteq> av"
  shows "runs_apart (av - run a n) ((a, n) # os)"
proof -
  have "run a n \<inter> run b m = {}" if "(b, m) \<in> set os" for b m
    using assms(1,5) that by (force simp: runs_apart_def)
  moreover have "run b m \<inter> (av - run a n) = {}" if "(b, m) \<in> set os" for b m
    using assms(1) that by (force simp: runs_apart_def)
  ultimately show ?thesis using assms by (auto simp: runs_apart_def)
qed

lemma runs_apart_put:
  assumes "runs_apart av (xs @ (a, n) # ys)" and "av' \<subseteq> av \<union> run a n"
  shows "runs_apart av' (xs @ ys)"
proof -
  have "run b m \<inter> av' = {}" if "(b, m) \<in> set (xs @ ys)" for b m
  proof -
    have "run b m \<inter> av = {}" using assms(1) that unfolding runs_apart_def by auto
    moreover have "run b m \<inter> run a n = {}"
      using assms(1) that by (fastforce simp: runs_apart_def sorted_wrt_append)
    ultimately show ?thesis using assms(2) by auto
  qed
  then show ?thesis using assms(1) by (auto simp: runs_apart_def sorted_wrt_append)
qed

locale space_map =
  fixes ok :: "'s \<Rightarrow> bool"
    and avail :: "'s \<Rightarrow> nat set"
    and get :: "'s \<Rightarrow> u16 \<Rightarrow> (u16 \<times> 's) option"
    and put :: "'s \<Rightarrow> u16 \<Rightarrow> u16 \<Rightarrow> ('s \<times> mfree_event) option"
  assumes avail_range: "ok s \<Longrightarrow> x \<in> avail s \<Longrightarrow> 0 < x \<and> x < 65536"
    and get_law: "ok s \<Longrightarrow> n \<noteq> 0 \<Longrightarrow> \<exists>a s'. get s n = Some (a, s') \<and> ok s' \<and>
          (if a = 0 then s' = s
           else unat a + unat n < 65536 \<and> run a n \<subseteq> avail s \<and> avail s' = avail s - run a n)"
    and put_law: "ok s \<Longrightarrow> n \<noteq> 0 \<Longrightarrow> a \<noteq> 0 \<Longrightarrow> unat a + unat n < 65536 \<Longrightarrow> run a n \<inter> avail s = {}
          \<Longrightarrow> \<exists>s' ev. put s n a = Some (s', ev) \<and> ok s' \<and>
                (if ev = Map_overflow then s' = s else avail s' = avail s \<union> run a n)"
begin

lemma get_apart:
  assumes "ok s" and "runs_apart (avail s) os" and "n \<noteq> 0" and "get s n = Some (a, s')"
  shows "ok s' \<and> runs_apart (avail s') (if a = 0 then os else (a, n) # os)"
proof (cases "a = 0")
  case True
  then show ?thesis using get_law [OF assms(1,3)] assms by auto
next
  case False
  then have s': "ok s'" "unat a + unat n < 65536" "run a n \<subseteq> avail s" "avail s' = avail s - run a n"
    using get_law [OF assms(1,3)] assms(4) by auto
  then show ?thesis using False runs_apart_get [OF assms(2) False assms(3)] by simp
qed

lemma put_apart:
  assumes "ok s" and "runs_apart (avail s) (xs @ (a, n) # ys)"
  shows "\<exists>s' ev. put s n a = Some (s', ev) \<and> ok s' \<and> runs_apart (avail s') (xs @ ys)"
proof -
  from assms(2) have "n \<noteq> 0" "a \<noteq> 0" "unat a + unat n < 65536" "run a n \<inter> avail s = {}"
    by (auto simp: runs_apart_def)
  from put_law [OF assms(1) this] obtain s' ev where
    "put s n a = Some (s', ev)" "ok s'" "avail s' \<subseteq> avail s \<union> run a n"
    by (auto split: if_splits)
  with runs_apart_put [OF assms(2)] show ?thesis by blast
qed

end

lemma malloc_law:
  assumes ok: "map_ok mp" and n: "n \<noteq> 0"
  shows "\<exists>a mp'. malloc mp n = Some (a, mp') \<and> map_ok mp' \<and> length (mapents mp') = length (mapents mp)
      \<and> mapwant mp' = mapwant mp
      \<and> (if a = 0 then mp' = mp \<and> (\<forall>x. \<not> {x ..< x + unat n} \<subseteq> free_units mp)
         else unat a + unat n < 65536 \<and> run a n \<subseteq> free_units mp
              \<and> free_units mp' = free_units mp - run a n
              \<and> (\<forall>x. {x ..< x + unat n} \<subseteq> free_units mp \<longrightarrow> unat a \<le> x))"
proof -
  obtain ls where sh: "map_shape mp ls" and fr: "free_units mp = free_of ls"
    using ok by (rule map_okE)
  then have b: "blocks 0 ls" by (simp add: map_shape_def)
  show ?thesis
  proof (cases "take_first ls n")
    case None
    with take_first_None [OF b] n fr malloc_None_shape [OF sh] ok show ?thesis by auto
  next
    case (Some r)
    obtain a ls' where tf: "take_first ls n = Some (a, ls')" using Some by (cases r) auto
    obtain mp' where m: "malloc mp n = Some (a, mp')" "map_shape mp' ls'"
      "length (mapents mp') = length (mapents mp)" "mapwant mp' = mapwant mp"
      using malloc_Some_shape [OF sh tf n] .
    have "a \<noteq> 0" using take_first_Some [OF b tf n] by auto
    moreover have "free_units mp' = free_of ls'" using live_shape [OF m(2)] by (simp add: free_units_def)
    ultimately show ?thesis
      using m take_first_Some [OF b tf n] take_first_least [OF b tf n] fr map_okI [OF m(2)] by auto
  qed
qed

lemma mfree_law:
  assumes ok: "map_ok mp" and rel: "releasable (live mp) n a"
  shows "\<exists>mp' ev. mfree mp n a = Some (mp', ev) \<and> map_ok mp' \<and> length (mapents mp') = length (mapents mp)
      \<and> (if ev = Map_overflow then mp' = mp \<and> mapsize mp = 0
         else free_units mp' = free_units mp \<union> run a n \<and> mapwant mp' = 0
              \<and> (ev = Wakeup_waiters \<longleftrightarrow> mapwant mp \<noteq> 0))"
proof -
  obtain ls where sh: "map_shape mp ls" "live mp = ls" and fr: "free_units mp = free_of ls"
    using ok by (rule map_okE)
  from sh(1) rel [unfolded sh(2)] show ?thesis
  proof (cases rule: mfree_shape)
    case (freed mp' ev ls')
    moreover have "free_units mp' = free_of ls'"
      using live_shape [OF freed(3)] by (simp add: free_units_def)
    ultimately show ?thesis using fr map_okI [OF freed(3)] by auto
  next
    case overflow
    then show ?thesis using ok by auto
  qed
qed

interpretation kmap: space_map map_ok free_units malloc mfree
proof unfold_locales
  fix mp :: rmap and x assume "map_ok mp" "x \<in> free_units mp"
  then show "0 < x \<and> x < 65536" by (elim map_okE) (auto simp: map_shape_def dest: free_of_above)
next
  fix mp :: rmap and n :: u16 assume "map_ok mp" "n \<noteq> 0"
  from malloc_law [OF this] show "\<exists>a s'. malloc mp n = Some (a, s') \<and> map_ok s' \<and>
      (if a = 0 then s' = mp
       else unat a + unat n < 65536 \<and> run a n \<subseteq> free_units mp \<and> free_units s' = free_units mp - run a n)"
    by (auto split: if_splits)
next
  fix mp :: rmap and n a :: u16 assume "map_ok mp" "n \<noteq> 0" "a \<noteq> 0" "unat a + unat n < 65536" "run a n \<inter> free_units mp = {}"
  then have "releasable (live mp) n a" by (simp add: releasable_def free_units_def)
  from mfree_law [OF \<open>map_ok mp\<close> this] show "\<exists>s' ev. mfree mp n a = Some (s', ev) \<and> map_ok s' \<and>
      (if ev = Map_overflow then s' = mp else free_units s' = free_units mp \<union> run a n)"
    by (metis (no_types, lifting))
qed


section \<open>Properties\<close>

text \<open>A client of the map: it takes blocks and gives back the i-th block it holds.\<close>

datatype map_call = Get u16 | Put nat

fun map_calls :: "rmap \<times> (u16 \<times> u16) list \<Rightarrow> map_call list \<Rightarrow> (rmap \<times> (u16 \<times> u16) list) option" where
  "map_calls (mp, os) [] = Some (mp, os)"
| "map_calls (mp, os) (Get n # cs) =
     (if n = 0 then map_calls (mp, os) cs
      else case malloc mp n of
             None \<Rightarrow> None
           | Some (a, mp') \<Rightarrow> map_calls (mp', if a = 0 then os else (a, n) # os) cs)"
| "map_calls (mp, os) (Put i # cs) =
     (if i < length os then
        (case mfree mp (snd (os ! i)) (fst (os ! i)) of
           None \<Rightarrow> None
         | Some (mp', _) \<Rightarrow> map_calls (mp', take i os @ drop (Suc i) os) cs)
      else map_calls (mp, os) cs)"

text \<open>on a well-formed map \<open>malloc\<close> returns the lowest address at which the requested
  number of units is free and removes exactly those units; it returns 0, and leaves the map
  alone, only if no such address exists.\<close>

lemma malloc_first_fit:
  assumes "map_ok mp" and "n \<noteq> 0"
  shows "\<exists>a mp'. malloc mp n = Some (a, mp') \<and> map_ok mp' \<and> length (mapents mp') = length (mapents mp)
      \<and> mapwant mp' = mapwant mp
      \<and> (if a = 0 then mp' = mp \<and> (\<forall>x. \<not> {x ..< x + unat n} \<subseteq> free_units mp)
         else unat a + unat n < 65536 \<and> run a n \<subseteq> free_units mp
              \<and> free_units mp' = free_units mp - run a n
              \<and> (\<forall>x. {x ..< x + unat n} \<subseteq> free_units mp \<longrightarrow> unat a \<le> x))"
  by (rule malloc_law [OF assms])

definition demo_map :: rmap where
  "demo_map = \<lparr>mapsize = 2, mapwant = 0,
     mapents = [\<lparr>m_size = 4, m_addr = 10\<rparr>, \<lparr>m_size = 8, m_addr = 20\<rparr>, term_ent, term_ent, term_ent]\<rparr>"

lemma demo_map_ok: "map_ok demo_map"
  by (rule map_okI [of _ "[\<lparr>m_size = 4, m_addr = 10\<rparr>, \<lparr>m_size = 8, m_addr = 20\<rparr>]"])
     (simp add: map_shape_def demo_map_def ent_end_def numeral_3_eq_3)

text \<open>C36: releasing a block of which no unit is free makes exactly its units free again,
  keeps the map well formed (sorted, nothing adjacent left unmerged) and wakes the processes
  waiting for space; the one exception is a full map, which drops the block and reports it.\<close>

theorem mfree_releases:
  assumes "map_ok mp" and "releasable (live mp) n a"
  shows "\<exists>mp' ev. mfree mp n a = Some (mp', ev) \<and> map_ok mp' \<and> length (mapents mp') = length (mapents mp)
      \<and> (if ev = Map_overflow then mp' = mp \<and> mapsize mp = 0
         else free_units mp' = free_units mp \<union> run a n \<and> mapwant mp' = 0
              \<and> (ev = Wakeup_waiters \<longleftrightarrow> mapwant mp \<noteq> 0))"
  by (rule mfree_law [OF assms])

theorem mfree_releases_witness:
  "releasable (live demo_map) 6 14 \<and> (\<exists>mp' ev. mfree demo_map 6 14 = Some (mp', ev) \<and> map_ok mp')"
proof -
  have "releasable (live demo_map) 6 14"
    by (auto simp: releasable_def live_def demo_map_def ent_run_def run_def)
  with mfree_releases [OF demo_map_ok this] show ?thesis by auto
qed

text \<open>giving back the block \<open>malloc\<close> has just returned restores the map slot by slot,
  whichever way the block was cut out, and never overflows it.\<close>

lemma malloc_mfree_restores:
  assumes ok: "map_ok mp" and n: "n \<noteq> 0" and al: "malloc mp n = Some (a, mp')" and a: "a \<noteq> 0"
  shows "\<exists>ev. mfree mp' n a = Some (mp\<lparr>mapwant := 0\<rparr>, ev) \<and> ev \<noteq> Map_overflow"
proof -
  obtain ls where sh: "map_shape mp ls" using ok by (rule map_okE)
  then have b: "blocks 0 ls" by (simp add: map_shape_def)
  have "take_first ls n \<noteq> None"
  proof
    assume "take_first ls n = None"
    from malloc_None_shape [OF sh this] al a show False by simp
  qed
  then obtain a' ls' where "take_first ls n = Some (a', ls')" by (metis not_None_eq surj_pair)
  moreover from malloc_Some_shape [OF sh this n] al have "a' = a" by auto
  ultimately have tf: "take_first ls n = Some (a, ls')" by simp
  have cut: "blocks 0 ls'" "run a n \<subseteq> free_of ls" "free_of ls' = free_of ls - run a n"
    "unat a + unat n < 65536"
    using take_first_Some [OF b tf n] by auto
  have sh': "map_shape mp' ls'" "length (mapents mp') = length (mapents mp)"
    using malloc_Some_shape [OF sh tf n] al by auto
  have "releasable ls' n a" using n a cut by (auto simp: releasable_def)
  with sh'(1) show ?thesis
  proof (cases rule: mfree_shape)
    case (freed mp'' ev ls'')
    have "ls'' = ls"
      using blocks_unique [of 0 ls'' 0 ls] freed(3,4) b cut by (auto simp: map_shape_def)
    then have "mapents mp'' = mapents mp" "unat (mapsize mp'') = unat (mapsize mp)"
      using freed(3,5) sh sh'(2) by (auto simp: map_shape_def)
    moreover from this have "mapsize mp'' = mapsize mp" by (simp only: word_unat_eq_iff)
    ultimately have "mp'' = mp\<lparr>mapwant := 0\<rparr>"
      using freed(6) by (intro rmap.equality) simp_all
    then show ?thesis using freed by auto
  next
    case (overflow ls'')
    have "ls'' = ls" using blocks_unique [of 0 ls'' 0 ls] overflow(3,4) b cut by auto
    then have False using overflow(2,5) sh sh' by (auto simp: map_shape_def)
    then show ?thesis ..
  qed
qed

text \<open>C37: whatever sequence of allocations and releases a client makes, no call runs off the
  map array, the map stays well formed, and the blocks held at the end are pairwise disjoint
  and disjoint from the free space: no unit is ever handed out twice.\<close>

theorem map_calls_apart:
  assumes "map_ok mp" and "runs_apart (free_units mp) os"
  shows "\<exists>mp' os'. map_calls (mp, os) cs = Some (mp', os') \<and> map_ok mp' \<and> runs_apart (free_units mp') os'"
  using assms
proof (induction cs arbitrary: mp os)
  case (Cons c cs)
  show ?case
  proof (cases c)
    case (Get n)
    show ?thesis
    proof (cases "n = 0")
      case False
      obtain a mp' where m: "malloc mp n = Some (a, mp')"
        using malloc_law [OF Cons.prems(1) False] by auto
      from kmap.get_apart [OF Cons.prems False m] Cons.IH show ?thesis using Get False m by auto
    qed (use Cons Get in auto)
  next
    case (Put i)
    show ?thesis
    proof (cases "i < length os")
      case True
      then have "os = take i os @ (fst (os ! i), snd (os ! i)) # drop (Suc i) os"
        by (simp add: id_take_nth_drop)
      with Cons.prems kmap.put_apart [of mp "take i os" "fst (os ! i)" "snd (os ! i)" "drop (Suc i) os"]
      obtain mp' ev where "mfree mp (snd (os ! i)) (fst (os ! i)) = Some (mp', ev)" "map_ok mp'"
        "runs_apart (free_units mp') (take i os @ drop (Suc i) os)" by auto
      with Cons.IH show ?thesis using Put True by auto
    qed (use Cons Put in auto)
  qed
qed simp

theorem map_calls_apart_witness:
  "\<exists>mp' os'. map_calls (demo_map, []) [Get 3, Get 8, Put 1, Get 2] = Some (mp', os')
     \<and> runs_apart (free_units mp') os'"
proof -
  have "runs_apart (free_units demo_map) []" by (simp add: runs_apart_def)
  from map_calls_apart [OF demo_map_ok this] show ?thesis by blast
qed

end
