(* ===== verification/Semaphore.thy ===== *)
theory Semaphore
  imports Chain Ipc_Perm Resource_Map
begin

text \<open>
  The semaphore facility of \<open>os/sem.c\<close>: sets of semaphores taken from one table through a
  resource map, operation lists executed all or nothing, and for every process a sorted list
  of adjustments that \<open>exit\<close> applies.
\<close>

section \<open>Data\<close>

definition SEM_A :: u16 where "SEM_A = 0x80"
definition SEM_R :: u16 where "SEM_R = 0x100"
definition SEM_UNDO :: u16 where "SEM_UNDO = 0x1000"

record semid_ds =
  sem_perm :: ipc_perm
  sem_base :: nat
  sem_nsems :: u16
  sem_otime :: u32
  sem_ctime :: u32

record semaphore =
  semval :: u16
  sempid :: u16
  semncnt :: u16
  semzcnt :: u16

record undo =
  un_aoe :: u16
  un_num :: u16
  un_id :: u16

text \<open>\<open>un_ent\<close> is the array of the first \<open>un_cnt\<close> entries.\<close>

record sem_undo =
  un_np :: "nat option"
  un_ent :: "undo list"

record seminfo =
  semmap_sz :: u16
  semmni :: u16
  semmns :: u16
  semmnu :: nat
  semmsl :: u16
  semopm :: nat
  semume :: nat
  semvmx :: u16
  semaem :: u16

record sembuf =
  sem_num :: u16
  sem_op :: u16
  sem_flg :: u16

text \<open>The channels \<open>&semncnt\<close> and \<open>&semzcnt\<close> of a semaphore, for \<open>sleep\<close> and \<open>wakeup\<close>.\<close>

datatype sem_chan = Chan_n nat | Chan_z nat

text \<open>
  The tables of the facility, with \<open>u.u_error\<close> and the calls of \<open>wakeup\<close> so far. Pointers into
  \<open>sem\<close> and \<open>semu\<close> are indices; \<open>sem_undo\<close> maps a process slot to its undo structure.
\<close>

record semst =
  sema :: "nat \<Rightarrow> semid_ds"
  sem :: "nat \<Rightarrow> semaphore"
  semmap :: rmap
  semu :: "nat \<Rightarrow> sem_undo"
  sem_undo_tab :: "nat \<Rightarrow> nat option"
  semunp :: "nat option"
  semfup :: "nat option"
  u_error :: "errno option"
  sem_wakes :: "sem_chan list"

definition upd_sema :: "nat \<Rightarrow> (semid_ds \<Rightarrow> semid_ds) \<Rightarrow> semst \<Rightarrow> semst" where
  "upd_sema i f s = s\<lparr>sema := (sema s)(i := f (sema s i))\<rparr>"

definition upd_sem :: "nat \<Rightarrow> (semaphore \<Rightarrow> semaphore) \<Rightarrow> semst \<Rightarrow> semst" where
  "upd_sem k f s = s\<lparr>sem := (sem s)(k := f (sem s k))\<rparr>"

definition upd_un :: "nat \<Rightarrow> (sem_undo \<Rightarrow> sem_undo) \<Rightarrow> semst \<Rightarrow> semst" where
  "upd_un x f s = s\<lparr>semu := (semu s)(x := f (semu s x))\<rparr>"

definition set_err :: "errno \<Rightarrow> semst \<Rightarrow> semst" where
  "set_err e s = s\<lparr>u_error := Some e\<rparr>"

definition sem_wakeup :: "sem_chan \<Rightarrow> semst \<Rightarrow> semst" where
  "sem_wakeup c s = s\<lparr>sem_wakes := sem_wakes s @ [c]\<rparr>"

text \<open>\<open>if(p->semncnt) { p->semncnt = 0; wakeup(&p->semncnt); }\<close> and the same for \<open>semzcnt\<close>.\<close>

definition wake_n :: "nat \<Rightarrow> semst \<Rightarrow> semst" where
  "wake_n k s = (if semncnt (sem s k) \<noteq> 0
     then sem_wakeup (Chan_n k) (upd_sem k (\<lambda>p. p\<lparr>semncnt := 0\<rparr>) s) else s)"

definition wake_z :: "nat \<Rightarrow> semst \<Rightarrow> semst" where
  "wake_z k s = (if semzcnt (sem s k) \<noteq> 0
     then sem_wakeup (Chan_z k) (upd_sem k (\<lambda>p. p\<lparr>semzcnt := 0\<rparr>) s) else s)"

definition un_next :: "semst \<Rightarrow> nat \<Rightarrow> nat option" where
  "un_next s = un_np \<circ> semu s"

section \<open>Adjust-on-exit entries\<close>

text \<open>The search of \<open>semaoe\<close>: entries come in the order of identifier and semaphore number.\<close>

fun undo_find :: "u16 \<Rightarrow> u16 \<Rightarrow> undo list \<Rightarrow> undo list \<times> undo list" where
  "undo_find sid num [] = ([], [])"
| "undo_find sid num (e # es) =
     (if un_id e <s sid \<or> un_id e = sid \<and> un_num e <s num
      then (let (b, r) = undo_find sid num es in (e # b, r)) else ([], e # es))"

text \<open>Removal of a process from the list of active undo structures. The loop over the list visits
  at most the \<open>semmnu\<close> structures there are.\<close>

definition undo_unlink :: "seminfo \<Rightarrow> nat \<Rightarrow> semst \<Rightarrow> semst" where
  "undo_unlink si up s =
     (if semunp s = Some up then s\<lparr>semunp := un_np (semu s up)\<rparr>
      else case List.find (\<lambda>x. un_np (semu s x) = Some up) (walk (semmnu si) (un_next s) (semunp s)) of
             None \<Rightarrow> s
           | Some x \<Rightarrow> upd_un x (\<lambda>y. y\<lparr>un_np := un_np (semu s up)\<rparr>) s)"

text \<open>The process's undo structure, taken from the free list at first use.\<close>

definition undo_struct :: "ucred \<Rightarrow> semst \<Rightarrow> (nat \<times> semst) option" where
  "undo_struct u s =
     (case sem_undo_tab s (u_procx u) of
        Some up \<Rightarrow> Some (up, s)
      | None \<Rightarrow>
          (case semfup s of
             None \<Rightarrow> None
           | Some up \<Rightarrow>
               (let s = s\<lparr>semfup := un_np (semu s up)\<rparr>;
                    s = upd_un up (\<lambda>y. y\<lparr>un_np := None\<rparr>) s
                in Some (up, s\<lparr>sem_undo_tab := (sem_undo_tab s)(u_procx u := Some up)\<rparr>))))"

text \<open>The entry itself. \<open>True\<close> is the return value 1, an error being left in \<open>u_error\<close>.\<close>

definition undo_enter :: "seminfo \<Rightarrow> nat \<Rightarrow> u16 \<Rightarrow> u16 \<Rightarrow> u16 \<Rightarrow> semst \<Rightarrow> bool \<times> semst" where
  "undo_enter si up val sid num s =
     (let ents = un_ent (semu s up); (b, r) = undo_find sid num ents
      in if r \<noteq> [] \<and> un_id (hd r) = sid \<and> un_num (hd r) = num then
           (let e = hd r; a = un_aoe e - val
            in if semaem si <s a \<or> a <s - semaem si then (True, set_err ERANGE s)
               else if a = 0 then
                 (let s = upd_un up (\<lambda>y. y\<lparr>un_ent := b @ tl r\<rparr>) s
                  in (False, if b @ tl r = []
                             then upd_un up (\<lambda>y. y\<lparr>un_np := None\<rparr>) (undo_unlink si up s) else s))
               else (False, upd_un up (\<lambda>y. y\<lparr>un_ent := b @ e\<lparr>un_aoe := a\<rparr> # tl r\<rparr>) s))
         else if semume si \<le> length ents then (True, set_err EINVAL s)
         else
           (let s = (if ents = []
                     then (upd_un up (\<lambda>y. y\<lparr>un_np := semunp s\<rparr>) s)\<lparr>semunp := Some up\<rparr> else s)
            in (False, upd_un up (\<lambda>y. y\<lparr>un_ent :=
                    b @ \<lparr>un_aoe = - val, un_num = num, un_id = sid\<rparr> # r\<rparr>) s)))"

definition semaoe :: "seminfo \<Rightarrow> ucred \<Rightarrow> u16 \<Rightarrow> u16 \<Rightarrow> u16 \<Rightarrow> semst \<Rightarrow> bool \<times> semst" where
  "semaoe si u val sid num s =
     (if val = 0 then (False, s)
      else if semaem si <s val \<or> val <s - semaem si then (True, set_err ERANGE s)
      else case undo_struct u s of
             None \<Rightarrow> (True, set_err ENOSPC s)
           | Some (up, s) \<Rightarrow> undo_enter si up val sid num s)"

text \<open>\<open>semunrm\<close>: the entries of one structure, then the walk over the active structures, cut off
  after as many steps as there are structures.\<close>

fun clear_ents :: "u16 \<Rightarrow> u16 \<Rightarrow> u16 \<Rightarrow> undo list \<Rightarrow> undo list" where
  "clear_ents sid low high [] = []"
| "clear_ents sid low high (e # es) =
     (if sid <s un_id e then e # es
      else if un_id e <s sid \<or> un_num e < low then e # clear_ents sid low high es
      else if high < un_num e then e # es
      else clear_ents sid low high es)"

primrec semunrm_loop ::
  "nat \<Rightarrow> u16 \<Rightarrow> u16 \<Rightarrow> u16 \<Rightarrow> nat option \<Rightarrow> nat option \<Rightarrow> semst \<Rightarrow> semst" where
  "semunrm_loop 0 sid low high pp p s = s"
| "semunrm_loop (Suc n) sid low high pp p s =
     (case p of
        None \<Rightarrow> s
      | Some x \<Rightarrow>
          (let s = upd_un x (\<lambda>y. y\<lparr>un_ent := clear_ents sid low high (un_ent y)\<rparr>) s;
               np = un_np (semu s x)
           in if un_ent (semu s x) = [] then
                (case pp of
                   None \<Rightarrow> semunrm_loop n sid low high None np
                             (upd_un x (\<lambda>y. y\<lparr>un_np := None\<rparr>) (s\<lparr>semunp := np\<rparr>))
                 | Some w \<Rightarrow> semunrm_loop n sid low high pp np
                             (upd_un x (\<lambda>y. y\<lparr>un_np := None\<rparr>) (upd_un w (\<lambda>y. y\<lparr>un_np := np\<rparr>) s)))
              else semunrm_loop n sid low high (Some x) np s))"

definition semunrm :: "seminfo \<Rightarrow> u16 \<Rightarrow> u16 \<Rightarrow> u16 \<Rightarrow> semst \<Rightarrow> semst" where
  "semunrm si sid low high s = semunrm_loop (semmnu si) sid low high None (semunp s) s"

section \<open>The system calls\<close>

definition semconv :: "seminfo \<Rightarrow> u16 \<Rightarrow> semst \<Rightarrow> nat sysres" where
  "semconv si sid s = ipc_conv (semmni si) (\<lambda>i. sem_perm (sema s i)) 0 sid"

text \<open>The initialisation of the map and of the free list of undo structures.\<close>

primrec link_undo :: "nat \<Rightarrow> (nat \<Rightarrow> sem_undo) \<Rightarrow> nat \<Rightarrow> sem_undo" where
  "link_undo 0 t = t"
| "link_undo (Suc n) t = (link_undo n t)(n := (t n)\<lparr>un_np := Some (Suc n)\<rparr>)"

definition seminit :: "seminfo \<Rightarrow> semst \<Rightarrow> semst option" where
  "seminit si s =
     (case mfree (mapinit (semmap s) (semmap_sz si)) (semmns si) 1 of
        None \<Rightarrow> None
      | Some (m, _) \<Rightarrow>
          (let n = semmnu si - 1; t = link_undo n (semu s)
           in Some (s\<lparr>semmap := m, semu := t(n := (t n)\<lparr>un_np := None\<rparr>), semfup := Some 0\<rparr>)))"

definition semget :: "seminfo \<Rightarrow> ucred \<Rightarrow> u32 \<Rightarrow> u32 \<Rightarrow> u16 \<Rightarrow> u16 \<Rightarrow> semst \<Rightarrow> u16 sysres \<times> semst" where
  "semget si u now k nsems flag s =
     (case ipcget u k flag (\<lambda>i. sem_perm (sema s i)) (unat (semmni si)) of
        Inl e \<Rightarrow> (Fail e, s)
      | Inr (i, new, p) \<Rightarrow>
          (let s = upd_sema i (\<lambda>d. d\<lparr>sem_perm := p\<rparr>) s;
               unset = upd_sema i (\<lambda>d. d\<lparr>sem_perm := (sem_perm d)\<lparr>mode := 0\<rparr>\<rparr>);
               sid = ipc_id (semmni si) (seq p) i
           in if new then
                (if nsems \<le>s 0 \<or> semmsl si <s nsems then (Fail EINVAL, unset s)
                 else case malloc (semmap s) nsems of
                        None \<Rightarrow> (Wild, s)
                      | Some (a, m) \<Rightarrow>
                          if a = 0 then (Fail ENOSPC, unset (s\<lparr>semmap := m\<rparr>))
                          else (Ret sid, upd_sema i (\<lambda>d. d\<lparr>sem_base := unat a - 1, sem_nsems := nsems,
                                                          sem_ctime := now\<rparr>) (s\<lparr>semmap := m\<rparr>)))
              else if nsems \<noteq> 0 \<and> sem_nsems (sema s i) < nsems then (Fail EINVAL, s)
              else (Ret sid, s)))"

text \<open>The loop of \<open>IPC_RMID\<close> over the semaphores of the set.\<close>

fun sem_clear :: "nat list \<Rightarrow> semst \<Rightarrow> semst" where
  "sem_clear [] s = s"
| "sem_clear (k # ks) s =
     sem_clear ks (wake_z k (wake_n k (upd_sem k (\<lambda>p. p\<lparr>semval := 0, sempid := 0\<rparr>) s)))"

text \<open>A new value and the wakeup that goes with it, in \<open>SETVAL\<close> and \<open>SETALL\<close>.\<close>

definition sem_set_val :: "nat \<Rightarrow> u16 \<Rightarrow> semst \<Rightarrow> semst" where
  "sem_set_val k v s =
     (let s = upd_sem k (\<lambda>p. p\<lparr>semval := v\<rparr>) s in if v \<noteq> 0 then wake_n k s else wake_z k s)"

fun sem_set_all :: "ucred \<Rightarrow> nat \<Rightarrow> u16 list \<Rightarrow> semst \<Rightarrow> semst" where
  "sem_set_all u k [] s = s"
| "sem_set_all u k (v # vs) s =
     sem_set_all u (k + 1) vs (upd_sem k (\<lambda>p. p\<lparr>sempid := u_pid u\<rparr>) (sem_set_val k v s))"

text \<open>
  The commands of \<open>semctl\<close>. What is copied from user space is an argument, \<open>None\<close> when the copy
  fails, and the flag of \<open>C_STAT\<close> and \<open>C_GETALL\<close> says whether the copy to user space succeeds.
\<close>

datatype sem_cmd = C_RMID | C_SET "semid_ds option" | C_STAT bool | C_GETNCNT u16 | C_GETPID u16
  | C_GETVAL u16 | C_GETALL bool | C_GETZCNT u16 | C_SETVAL u16 u16 | C_SETALL "u16 list option" | C_other

datatype sem_reply = R_val u16 | R_ds semid_ds | R_vals "u16 list"

definition may_change :: "ucred \<Rightarrow> ipc_perm \<Rightarrow> bool" where
  "may_change u p \<longleftrightarrow> u_uid u = uid p \<or> u_uid u = cuid p \<or> suser u"

definition sem_range :: "semid_ds \<Rightarrow> nat list" where
  "sem_range d = [sem_base d ..< sem_base d + unat (sem_nsems d)]"

text \<open>\<open>GETNCNT\<close>, \<open>GETPID\<close>, \<open>GETVAL\<close> and \<open>GETZCNT\<close>.\<close>

definition sem_get :: "ucred \<Rightarrow> semid_ds \<Rightarrow> u16 \<Rightarrow> (semaphore \<Rightarrow> u16) \<Rightarrow> semst \<Rightarrow> sem_reply sysres \<times> semst" where
  "sem_get u d num f s =
     (case ipcaccess u (sem_perm d) SEM_R of
        Some e \<Rightarrow> (Fail e, s)
      | None \<Rightarrow> if sem_nsems d \<le> num then (Fail EINVAL, s)
                else (Ret (R_val (f (sem s (sem_base d + unat num)))), s))"

definition sem_rmid :: "seminfo \<Rightarrow> ucred \<Rightarrow> u16 \<Rightarrow> nat \<Rightarrow> semst \<Rightarrow> sem_reply sysres \<times> semst" where
  "sem_rmid si u sid i s =
     (let d = sema s i
      in if \<not> may_change u (sem_perm d) then (Fail EPERM, s)
         else
           (let s = sem_clear (sem_range d) (semunrm si sid 0 (sem_nsems d) s)
            in case mfree (semmap s) (sem_nsems d) (of_nat (sem_base d) + 1) of
                 None \<Rightarrow> (Wild, s)
               | Some (m, _) \<Rightarrow>
                   (Ret (R_val 0), upd_sema i (\<lambda>d. d\<lparr>sem_perm := (sem_perm d)\<lparr>
                       seq := ipc_bump (semmni si) sid (seq (sem_perm d)), mode := 0\<rparr>\<rparr>) (s\<lparr>semmap := m\<rparr>))))"

definition sem_setval :: "seminfo \<Rightarrow> ucred \<Rightarrow> u16 \<Rightarrow> nat \<Rightarrow> u16 \<Rightarrow> u16 \<Rightarrow> semst \<Rightarrow> sem_reply sysres \<times> semst" where
  "sem_setval si u sid i num v s =
     (let d = sema s i; k = sem_base d + unat num
      in case ipcaccess u (sem_perm d) SEM_A of
           Some e \<Rightarrow> (Fail e, s)
         | None \<Rightarrow>
             if sem_nsems d \<le> num then (Fail EINVAL, s)
             else if semvmx si < v then (Fail ERANGE, s)
             else (Ret (R_val 0),
                   semunrm si sid num num (upd_sem k (\<lambda>p. p\<lparr>sempid := u_pid u\<rparr>) (sem_set_val k v s))))"

text \<open>In \<open>SETALL\<close> the values are \<open>short\<close>s and the test of the limit is signed.\<close>

definition sem_setall :: "seminfo \<Rightarrow> ucred \<Rightarrow> u16 \<Rightarrow> nat \<Rightarrow> u16 list option \<Rightarrow> semst \<Rightarrow> sem_reply sysres \<times> semst" where
  "sem_setall si u sid i vals s =
     (let d = sema s i
      in case ipcaccess u (sem_perm d) SEM_A of
           Some e \<Rightarrow> (Fail e, s)
         | None \<Rightarrow>
             (case vals of
                None \<Rightarrow> (Fail EFAULT, s)
              | Some vs \<Rightarrow>
                  (let vs = take (unat (sem_nsems d)) vs
                   in if \<exists>v \<in> set vs. semvmx si <s v then (Fail ERANGE, s)
                      else (Ret (R_val 0), sem_set_all u (sem_base d) vs (semunrm si sid 0 (sem_nsems d) s)))))"

definition semctl :: "seminfo \<Rightarrow> ucred \<Rightarrow> u32 \<Rightarrow> u16 \<Rightarrow> sem_cmd \<Rightarrow> semst \<Rightarrow> sem_reply sysres \<times> semst" where
  "semctl si u now sid cmd s =
     (case semconv si sid s of
        Wild \<Rightarrow> (Wild, s)
      | Fail e \<Rightarrow> (Fail e, s)
      | Ret i \<Rightarrow>
          (let d = sema s i
           in case cmd of
                C_RMID \<Rightarrow> sem_rmid si u sid i s
              | C_SET buf \<Rightarrow>
                  (if \<not> may_change u (sem_perm d) then (Fail EPERM, s)
                   else case buf of
                          None \<Rightarrow> (Fail EFAULT, s)
                        | Some ds \<Rightarrow>
                            (Ret (R_val 0), upd_sema i (\<lambda>d. d\<lparr>sem_perm := (sem_perm d)\<lparr>
                               uid := uid (sem_perm ds), gid := gid (sem_perm ds),
                               mode := mode (sem_perm ds) AND perm_bits OR IPC_ALLOC\<rparr>, sem_ctime := now\<rparr>) s))
              | C_STAT good \<Rightarrow>
                  (case ipcaccess u (sem_perm d) SEM_R of
                     Some e \<Rightarrow> (Fail e, s)
                   | None \<Rightarrow> if good then (Ret (R_ds d), s) else (Fail EFAULT, s))
              | C_GETNCNT num \<Rightarrow> sem_get u d num semncnt s
              | C_GETPID num \<Rightarrow> sem_get u d num sempid s
              | C_GETVAL num \<Rightarrow> sem_get u d num semval s
              | C_GETALL good \<Rightarrow>
                  (case ipcaccess u (sem_perm d) SEM_R of
                     Some e \<Rightarrow> (Fail e, s)
                   | None \<Rightarrow> if good then (Ret (R_vals (map (\<lambda>k. semval (sem s k)) (sem_range d))), s)
                             else (Fail EFAULT, s))
              | C_GETZCNT num \<Rightarrow> sem_get u d num semzcnt s
              | C_SETVAL num v \<Rightarrow> sem_setval si u sid i num v s
              | C_SETALL vals \<Rightarrow> sem_setall si u sid i vals s
              | C_other \<Rightarrow> (Fail EINVAL, s)))"

section \<open>Operation lists\<close>

text \<open>\<open>semundo\<close>, given the operations done, the last one first.\<close>

fun semundo :: "seminfo \<Rightarrow> ucred \<Rightarrow> u16 \<Rightarrow> nat \<Rightarrow> sembuf list \<Rightarrow> semst \<Rightarrow> semst" where
  "semundo si u sid base [] s = s"
| "semundo si u sid base (op # ops) s =
     (if sem_op op = 0 then semundo si u sid base ops s
      else
        (let s = upd_sem (base + unat (sem_num op)) (\<lambda>p. p\<lparr>semval := semval p - sem_op op\<rparr>) s;
             s = (if sem_flg op AND SEM_UNDO \<noteq> 0
                  then snd (semaoe si u (- sem_op op) sid (sem_num op) s) else s)
         in semundo si u sid base ops s))"

datatype sem_pass = Pass_done | Pass_error | Pass_sleep sem_chan

text \<open>The part common to both ways of having to wait.\<close>

definition sem_wait :: "sembuf \<Rightarrow> sem_chan \<Rightarrow> semst \<Rightarrow> sem_pass \<times> semst" where
  "sem_wait op c s =
     (if sem_flg op AND IPC_NOWAIT \<noteq> 0 then (Pass_error, set_err EAGAIN s)
      else (Pass_sleep c,
            (case c of Chan_n k \<Rightarrow> upd_sem k (\<lambda>p. p\<lparr>semncnt := semncnt p + 1\<rparr>) s
                     | Chan_z k \<Rightarrow> upd_sem k (\<lambda>p. p\<lparr>semzcnt := semzcnt p + 1\<rparr>) s)))"

text \<open>\<open>op->sem_flg & SEM_UNDO && semaoe(...)\<close>.\<close>

definition op_aoe :: "seminfo \<Rightarrow> ucred \<Rightarrow> u16 \<Rightarrow> sembuf \<Rightarrow> semst \<Rightarrow> bool \<times> semst" where
  "op_aoe si u sid op s =
     (if sem_flg op AND SEM_UNDO \<noteq> 0 then semaoe si u (sem_op op) sid (sem_num op) s else (False, s))"

text \<open>The loop over the operations; \<open>done\<close> are those already carried out, last one first.\<close>

fun sem_ops ::
  "seminfo \<Rightarrow> ucred \<Rightarrow> u16 \<Rightarrow> nat \<Rightarrow> sembuf list \<Rightarrow> sembuf list \<Rightarrow> semst \<Rightarrow> sem_pass \<times> semst" where
  "sem_ops si u sid base dn [] s = (Pass_done, s)"
| "sem_ops si u sid base dn (op # ops) s =
     (let k = base + unat (sem_num op)
      in if 0 <s sem_op op then
           (if sint (semvmx si) < sint (sem_op op) + int (unat (semval (sem s k)))
            then (Pass_error, semundo si u sid base dn
                    (if u_error s = None then set_err ERANGE s else s))
            else
              (let (bad, s) = op_aoe si u sid op s
               in if bad then (Pass_error, semundo si u sid base dn
                                 (if u_error s = None then set_err ERANGE s else s))
                  else sem_ops si u sid base (op # dn) ops
                         (wake_n k (upd_sem k (\<lambda>p. p\<lparr>semval := semval p + sem_op op\<rparr>) s))))
         else if sem_op op <s 0 then
           (if - sem_op op \<le> semval (sem s k)
            then
              (let (bad, s) = op_aoe si u sid op s
               in if bad then (Pass_error, semundo si u sid base dn s)
                  else
                    (let s = upd_sem k (\<lambda>p. p\<lparr>semval := semval p + sem_op op\<rparr>) s
                     in sem_ops si u sid base (op # dn) ops
                          (if semval (sem s k) = 0 then wake_z k s else s)))
            else sem_wait op (Chan_n k) (semundo si u sid base dn s))
         else if semval (sem s k) \<noteq> 0 then sem_wait op (Chan_z k) (semundo si u sid base dn s)
         else sem_ops si u sid base (op # dn) ops s)"

datatype sem_outcome = Sem_return | Sem_asleep sem_chan | Sem_wild

text \<open>From \<open>check\<close> on, with the operations in \<open>semtmp\<close>.\<close>

definition semop_pass ::
  "seminfo \<Rightarrow> ucred \<Rightarrow> u32 \<Rightarrow> u16 \<Rightarrow> nat \<Rightarrow> sembuf list \<Rightarrow> semst \<Rightarrow> sem_outcome \<times> semst" where
  "semop_pass si u now sid i ops s =
     (let base = sem_base (sema s i)
      in case sem_ops si u sid base [] ops s of
           (Pass_sleep c, s) \<Rightarrow> (Sem_asleep c, s)
         | (Pass_error, s) \<Rightarrow> (Sem_return, s)
         | (Pass_done, s) \<Rightarrow>
             (Sem_return, upd_sema i (\<lambda>d. d\<lparr>sem_otime := now\<rparr>)
                (foldl (\<lambda>s op. upd_sem (base + unat (sem_num op)) (\<lambda>p. p\<lparr>sempid := u_pid u\<rparr>) s) s ops)))"

fun sem_verify :: "ucred \<Rightarrow> semid_ds \<Rightarrow> sembuf list \<Rightarrow> errno option" where
  "sem_verify u d [] = None"
| "sem_verify u d (op # ops) =
     (case ipcaccess u (sem_perm d) (if sem_op op \<noteq> 0 then SEM_A else SEM_R) of
        Some e \<Rightarrow> Some e
      | None \<Rightarrow> if sem_nsems d \<le> sem_num op then Some EFBIG else sem_verify u d ops)"

text \<open>\<open>semop\<close> up to its first sleep, its resumption after a wakeup, when the operations are copied
  from user space again, and its end when a signal interrupts the sleep.\<close>

definition semop ::
  "seminfo \<Rightarrow> ucred \<Rightarrow> u32 \<Rightarrow> u16 \<Rightarrow> nat \<Rightarrow> sembuf list option \<Rightarrow> semst \<Rightarrow> sem_outcome \<times> semst" where
  "semop si u now sid nsops usr s =
     (case semconv si sid s of
        Wild \<Rightarrow> (Sem_wild, s)
      | Fail e \<Rightarrow> (Sem_return, set_err e s)
      | Ret i \<Rightarrow>
          if semopm si < nsops then (Sem_return, set_err E2BIG s)
          else case usr of
                 None \<Rightarrow> (Sem_return, set_err EFAULT s)
               | Some ops \<Rightarrow>
                   (case sem_verify u (sema s i) (take nsops ops) of
                      Some e \<Rightarrow> (Sem_return, set_err e s)
                    | None \<Rightarrow> semop_pass si u now sid i (take nsops ops) s))"

definition semop_again ::
  "seminfo \<Rightarrow> ucred \<Rightarrow> u32 \<Rightarrow> u16 \<Rightarrow> nat \<Rightarrow> sembuf list option \<Rightarrow> semst \<Rightarrow> sem_outcome \<times> semst" where
  "semop_again si u now sid nsops usr s =
     (case semconv si sid s of
        Wild \<Rightarrow> (Sem_wild, s)
      | Fail e \<Rightarrow> (Sem_return, set_err EIDRM s)
      | Ret i \<Rightarrow>
          (case usr of
             None \<Rightarrow> (Sem_return, set_err EFAULT s)
           | Some ops \<Rightarrow> if u_error s \<noteq> None then (Sem_return, s)
                         else semop_pass si u now sid i (take nsops ops) s))"

definition semop_intr :: "sem_chan \<Rightarrow> semst \<Rightarrow> semst" where
  "semop_intr c s = set_err EINTR
     (case c of
        Chan_n k \<Rightarrow> (if semncnt (sem s k) \<le> 1
                     then sem_wakeup c (upd_sem k (\<lambda>p. p\<lparr>semncnt := 0\<rparr>) s)
                     else upd_sem k (\<lambda>p. p\<lparr>semncnt := semncnt p - 1\<rparr>) s)
      | Chan_z k \<Rightarrow> (if semzcnt (sem s k) \<le> 1
                     then sem_wakeup c (upd_sem k (\<lambda>p. p\<lparr>semzcnt := 0\<rparr>) s)
                     else upd_sem k (\<lambda>p. p\<lparr>semzcnt := semzcnt p - 1\<rparr>) s))"

section \<open>Process exit\<close>

text \<open>The loop of \<open>semexit\<close> over the entries, the last one first; \<open>None\<close> is a wild access.\<close>

fun exit_ents :: "seminfo \<Rightarrow> undo list \<Rightarrow> semst \<Rightarrow> semst option" where
  "exit_ents si [] s = Some s"
| "exit_ents si (e # es) s =
     (case semconv si (un_id e) s of
        Wild \<Rightarrow> None
      | Fail _ \<Rightarrow> exit_ents si es (set_err EINVAL s)
      | Ret i \<Rightarrow>
          (let k = sem_base (sema s i) + unat (un_num e);
               v = int (unat (semval (sem s k))) + sint (un_aoe e)
           in if v < 0 \<or> sint (semvmx si) < v then exit_ents si es s
              else
                (let s = upd_sem k (\<lambda>p. p\<lparr>semval := word_of_int v\<rparr>) s;
                     s = (if v = 0 then wake_z k s else s);
                     s = (if 0 <s un_aoe e then wake_n k s else s)
                 in exit_ents si es s)))"

definition semexit :: "seminfo \<Rightarrow> ucred \<Rightarrow> semst \<Rightarrow> semst option" where
  "semexit si u s =
     (case sem_undo_tab s (u_procx u) of
        None \<Rightarrow> Some s
      | Some up \<Rightarrow>
          map_option (\<lambda>s.
              (let s = upd_un up (\<lambda>y. y\<lparr>un_np := semfup s\<rparr>) s
               in s\<lparr>semfup := Some up, sem_undo_tab := (sem_undo_tab s)(u_procx u := None)\<rparr>))
            (if un_ent (semu s up) = [] then Some s
             else map_option (\<lambda>s. undo_unlink si up (upd_un up (\<lambda>y. y\<lparr>un_ent := []\<rparr>) s))
                    (exit_ents si (rev (un_ent (semu s up))) s)))"

section \<open>Entries as a function\<close>

definition ent_less :: "undo \<Rightarrow> undo \<Rightarrow> bool" where
  "ent_less e f \<longleftrightarrow> un_id e <s un_id f \<or> un_id e = un_id f \<and> un_num e <s un_num f"

abbreviation ent_key :: "undo \<Rightarrow> u16 \<times> u16" where
  "ent_key e \<equiv> (un_id e, un_num e)"

fun aoe_fun :: "undo list \<Rightarrow> u16 \<times> u16 \<Rightarrow> u16" where
  "aoe_fun [] k = 0"
| "aoe_fun (e # es) k = (if k = ent_key e then un_aoe e else aoe_fun es k)"

definition aoe_in :: "seminfo \<Rightarrow> u16 \<Rightarrow> bool" where
  "aoe_in si a \<longleftrightarrow> \<not> semaem si <s a \<and> \<not> a <s - semaem si"

definition ents_ok :: "seminfo \<Rightarrow> undo list \<Rightarrow> bool" where
  "ents_ok si es \<longleftrightarrow> sorted_wrt ent_less es \<and> length es \<le> semume si \<and>
     (\<forall>e. e \<in> set es \<longrightarrow> un_aoe e \<noteq> 0 \<and> aoe_in si (un_aoe e))"

lemma ent_less_trans: "ent_less a b \<Longrightarrow> ent_less b c \<Longrightarrow> ent_less a c"
  by (auto simp: ent_less_def word_sless_alt)

lemma ent_less_key: "ent_less a b \<Longrightarrow> ent_key a \<noteq> ent_key b"
  by (auto simp: ent_less_def)

lemma sless_linear: "(a :: u16) <s b \<or> a = b \<or> b <s a"
  using linorder_less_linear [of "sint a" "sint b"] by (auto simp: word_sless_alt intro: signed_word_eqI)

lemma ent_less_linear: "ent_less a b \<or> ent_key a = ent_key b \<or> ent_less b a"
  using sless_linear [of "un_id a" "un_id b"] sless_linear [of "un_num a" "un_num b"]
  by (auto simp: ent_less_def)

lemma undo_find_split:
  assumes "undo_find sid num es = (b, r)"
  shows "es = b @ r" "\<forall>e. e \<in> set b \<longrightarrow> ent_less e \<lparr>un_aoe = v, un_num = num, un_id = sid\<rparr>"
    "r \<noteq> [] \<Longrightarrow> \<not> ent_less (hd r) \<lparr>un_aoe = v, un_num = num, un_id = sid\<rparr>"
  using assms
  by (induction es arbitrary: b r) (auto simp: ent_less_def split: if_splits prod.splits)

lemma aoe_fun_append: "aoe_fun (b @ r) k = (if k \<in> ent_key ` set b then aoe_fun b k else aoe_fun r k)"
  by (induction b) auto

lemma aoe_fun_none: "k \<notin> ent_key ` set es \<Longrightarrow> aoe_fun es k = 0"
  by (induction es) auto

lemma aoe_fun_some: "ents_ok si es \<Longrightarrow> k \<in> ent_key ` set es \<Longrightarrow> aoe_fun es k \<noteq> 0 \<and> aoe_in si (aoe_fun es k)"
  by (induction es) (auto simp: ents_ok_def)

lemma sorted_keys_distinct: "sorted_wrt ent_less es \<Longrightarrow> distinct (map ent_key es)"
  by (induction es) (auto dest!: ent_less_key)

lemma ents_ok_length: "ents_ok si es \<Longrightarrow> length es = card {k. aoe_fun es k \<noteq> 0}"
proof -
  assume ok: "ents_ok si es"
  have "aoe_fun es k \<noteq> 0 \<longleftrightarrow> k \<in> ent_key ` set es" for k
    using aoe_fun_some [OF ok, of k] aoe_fun_none [of k es] by blast
  then have "{k. aoe_fun es k \<noteq> 0} = set (map ent_key es)" by simp
  moreover have "distinct (map ent_key es)" using ok sorted_keys_distinct by (auto simp: ents_ok_def)
  ultimately show ?thesis using distinct_card [of "map ent_key es"] by simp
qed

text \<open>Where the entry for a key goes, and what it is worth there.\<close>

lemma find_place:
  assumes ok: "ents_ok si es" and f: "undo_find sid num es = (b, r)"
  defines "x v \<equiv> \<lparr>un_aoe = v, un_num = num, un_id = sid\<rparr>"
  shows "es = b @ r" "(sid, num) \<notin> ent_key ` set b" "\<forall>e. e \<in> set b \<longrightarrow> ent_less e (x v)"
    "r \<noteq> [] \<and> un_id (hd r) = sid \<and> un_num (hd r) = num \<longleftrightarrow> aoe_fun es (sid, num) \<noteq> 0"
    "aoe_fun es (sid, num) \<noteq> 0 \<Longrightarrow> aoe_fun es (sid, num) = un_aoe (hd r)"
    "aoe_fun es (sid, num) = 0 \<Longrightarrow> \<forall>e. e \<in> set r \<longrightarrow> ent_less (x v) e"
    "aoe_fun es (sid, num) \<noteq> 0 \<Longrightarrow> \<forall>e. e \<in> set (tl r) \<longrightarrow> ent_less (x v) e"
proof -
  note F = undo_find_split [OF f]
  show es: "es = b @ r" by (rule F(1))
  show b: "\<forall>e. e \<in> set b \<longrightarrow> ent_less e (x v)" for v unfolding x_def by (rule F(2))
  show nb: "(sid, num) \<notin> ent_key ` set b"
    using b ent_less_key by (fastforce simp: x_def)
  have so: "sorted_wrt ent_less r" using ok es by (simp add: ents_ok_def sorted_wrt_append)
  have hd: "r \<noteq> [] \<and> \<not> (un_id (hd r) = sid \<and> un_num (hd r) = num) \<Longrightarrow> ent_less (x v) (hd r)" for v
    using F(3) [of v] ent_less_linear [of "hd r" "x v"] by (auto simp: x_def)
  have gt: "\<forall>e. e \<in> set r \<longrightarrow> ent_less (x v) e"
    if "\<not> (r \<noteq> [] \<and> un_id (hd r) = sid \<and> un_num (hd r) = num)" for v
    using hd that so by (cases r) (auto intro: ent_less_trans)
  then have miss: "(sid, num) \<notin> ent_key ` set r"
    if "\<not> (r \<noteq> [] \<and> un_id (hd r) = sid \<and> un_num (hd r) = num)"
    using that ent_less_key by (fastforce simp: x_def)
  have val: "r \<noteq> [] \<and> un_id (hd r) = sid \<and> un_num (hd r) = num \<Longrightarrow> aoe_fun es (sid, num) = un_aoe (hd r)"
    using nb es by (cases r) (auto simp: aoe_fun_append)
  show iff: "r \<noteq> [] \<and> un_id (hd r) = sid \<and> un_num (hd r) = num \<longleftrightarrow> aoe_fun es (sid, num) \<noteq> 0"
  proof
    assume h: "r \<noteq> [] \<and> un_id (hd r) = sid \<and> un_num (hd r) = num"
    then have "hd r \<in> set es" using es by simp
    then show "aoe_fun es (sid, num) \<noteq> 0" using val [OF h] ok by (simp add: ents_ok_def)
  next
    assume "aoe_fun es (sid, num) \<noteq> 0"
    then show "r \<noteq> [] \<and> un_id (hd r) = sid \<and> un_num (hd r) = num"
      using miss nb aoe_fun_none [of "(sid, num)" es] es by auto
  qed
  show "aoe_fun es (sid, num) \<noteq> 0 \<Longrightarrow> aoe_fun es (sid, num) = un_aoe (hd r)" using val iff by blast
  show "aoe_fun es (sid, num) = 0 \<Longrightarrow> \<forall>e. e \<in> set r \<longrightarrow> ent_less (x v) e" for v using gt iff by blast
  show "\<forall>e. e \<in> set (tl r) \<longrightarrow> ent_less (x v) e" if "aoe_fun es (sid, num) \<noteq> 0" for v
    using that so iff by (cases r) (auto simp: ent_less_def x_def)
qed

text \<open>The three ways \<open>undo_enter\<close> changes a list of entries.\<close>

lemma enter_list:
  assumes ok: "ents_ok si es" and f: "undo_find sid num es = (b, r)"
  shows "aoe_fun es (sid, num) = 0 \<Longrightarrow> length es < semume si \<Longrightarrow> v \<noteq> 0 \<Longrightarrow> aoe_in si v \<Longrightarrow>
      ents_ok si (b @ \<lparr>un_aoe = v, un_num = num, un_id = sid\<rparr> # r) \<and>
      aoe_fun (b @ \<lparr>un_aoe = v, un_num = num, un_id = sid\<rparr> # r) = (aoe_fun es)((sid, num) := v)"
    and "aoe_fun es (sid, num) \<noteq> 0 \<Longrightarrow> v \<noteq> 0 \<Longrightarrow> aoe_in si v \<Longrightarrow>
      ents_ok si (b @ (hd r)\<lparr>un_aoe := v\<rparr> # tl r) \<and>
      aoe_fun (b @ (hd r)\<lparr>un_aoe := v\<rparr> # tl r) = (aoe_fun es)((sid, num) := v)"
    and "aoe_fun es (sid, num) \<noteq> 0 \<Longrightarrow>
      ents_ok si (b @ tl r) \<and> aoe_fun (b @ tl r) = (aoe_fun es)((sid, num) := 0)"
proof -
  note P = find_place [OF ok f]
  have so: "sorted_wrt ent_less b" "sorted_wrt ent_less r" "\<forall>e. e \<in> set b \<longrightarrow> (\<forall>g. g \<in> set r \<longrightarrow> ent_less e g)"
    using ok P(1) by (auto simp: ents_ok_def sorted_wrt_append)
  have el: "un_aoe e \<noteq> 0 \<and> aoe_in si (un_aoe e)" if "e \<in> set b \<or> e \<in> set r" for e
    using ok P(1) that by (auto simp: ents_ok_def)
  show "ents_ok si (b @ \<lparr>un_aoe = v, un_num = num, un_id = sid\<rparr> # r) \<and>
      aoe_fun (b @ \<lparr>un_aoe = v, un_num = num, un_id = sid\<rparr> # r) = (aoe_fun es)((sid, num) := v)"
    if "aoe_fun es (sid, num) = 0" "length es < semume si" "v \<noteq> 0" "aoe_in si v"
    using that so el P(2) P(3) [of v] P(6) [OF that(1), of v] P(1)
    by (auto simp: ents_ok_def sorted_wrt_append aoe_fun_append fun_eq_iff)
  assume hit: "aoe_fun es (sid, num) \<noteq> 0"
  then obtain h t where r: "r = h # t" "un_id h = sid" "un_num h = num" using P(4) by (cases r) auto
  have same: "ent_less e (h\<lparr>un_aoe := v\<rparr>) = ent_less e h" "ent_less (h\<lparr>un_aoe := v\<rparr>) e = ent_less h e" for e v
    by (simp_all add: ent_less_def)
  have "(sid, num) \<notin> ent_key ` set t"
    using so(2) r ent_less_key by fastforce
  then show "ents_ok si (b @ tl r) \<and> aoe_fun (b @ tl r) = (aoe_fun es)((sid, num) := 0)"
    using so el ok P(1,2) r
    by (auto simp: ents_ok_def sorted_wrt_append aoe_fun_append fun_eq_iff aoe_fun_none)
  assume "v \<noteq> 0" "aoe_in si v"
  then show "ents_ok si (b @ (hd r)\<lparr>un_aoe := v\<rparr> # tl r) \<and>
      aoe_fun (b @ (hd r)\<lparr>un_aoe := v\<rparr> # tl r) = (aoe_fun es)((sid, num) := v)"
    using so el ok P(1,2) r
    by (auto simp: ents_ok_def sorted_wrt_append aoe_fun_append fun_eq_iff same)
qed

section \<open>The undo structures\<close>

definition undo_shape :: "seminfo \<Rightarrow> semst \<Rightarrow> nat list \<Rightarrow> nat list \<Rightarrow> bool" where
  "undo_shape si s act fr \<longleftrightarrow>
     chain (un_next s) (semunp s) act \<and> chain (un_next s) (semfup s) fr \<and>
     set act \<inter> set fr = {} \<and> set act \<union> set fr \<subseteq> {..<semmnu si} \<and>
     (\<forall>p x. sem_undo_tab s p = Some x \<longrightarrow>
        x < semmnu si \<and> x \<notin> set fr \<and> (x \<in> set act \<longleftrightarrow> un_ent (semu s x) \<noteq> [])) \<and>
     set act \<subseteq> ran (sem_undo_tab s) \<and>
     (\<forall>p q x. sem_undo_tab s p = Some x \<and> sem_undo_tab s q = Some x \<longrightarrow> p = q) \<and>
     (\<forall>x. ents_ok si (un_ent (semu s x))) \<and> (\<forall>x. x \<in> set fr \<longrightarrow> un_ent (semu s x) = [])"

definition undo_ok :: "seminfo \<Rightarrow> semst \<Rightarrow> bool" where
  "undo_ok si s \<longleftrightarrow> (\<exists>act fr. undo_shape si s act fr)"

text \<open>What \<open>exit\<close> will add, for each process and semaphore.\<close>

definition adjust :: "semst \<Rightarrow> nat \<Rightarrow> u16 \<times> u16 \<Rightarrow> u16" where
  "adjust s p = (case sem_undo_tab s p of None \<Rightarrow> (\<lambda>_. 0) | Some x \<Rightarrow> aoe_fun (un_ent (semu s x)))"

text \<open>The parts of the state the undo routines leave alone.\<close>

definition same_rest :: "semst \<Rightarrow> semst \<Rightarrow> bool" where
  "same_rest s t \<longleftrightarrow> sem t = sem s \<and> sema t = sema s \<and> semmap t = semmap s \<and> sem_wakes t = sem_wakes s"

lemma same_rest_refl [simp]: "same_rest s s"
  by (simp add: same_rest_def)

lemma same_rest_trans: "same_rest s t \<Longrightarrow> same_rest t v \<Longrightarrow> same_rest s v"
  by (simp add: same_rest_def)

named_theorems sem_simps \<open>fields of an updated semaphore state\<close>

lemma upd_un_fields [sem_simps]:
  "semu (upd_un x f s) = (semu s)(x := f (semu s x))" "sem (upd_un x f s) = sem s"
  "sema (upd_un x f s) = sema s" "semmap (upd_un x f s) = semmap s" "semunp (upd_un x f s) = semunp s"
  "semfup (upd_un x f s) = semfup s" "sem_undo_tab (upd_un x f s) = sem_undo_tab s"
  "u_error (upd_un x f s) = u_error s" "sem_wakes (upd_un x f s) = sem_wakes s"
  "un_next (upd_un x f s) = (un_next s)(x := un_np (f (semu s x)))"
  by (auto simp: upd_un_def un_next_def)

lemma set_err_fields [sem_simps]:
  "semu (set_err e s) = semu s" "sem (set_err e s) = sem s" "sema (set_err e s) = sema s"
  "semmap (set_err e s) = semmap s" "semunp (set_err e s) = semunp s" "semfup (set_err e s) = semfup s"
  "sem_undo_tab (set_err e s) = sem_undo_tab s" "u_error (set_err e s) = Some e"
  "sem_wakes (set_err e s) = sem_wakes s" "un_next (set_err e s) = un_next s"
  by (auto simp: set_err_def un_next_def)

lemma un_next_record [sem_simps]:
  "un_next (s\<lparr>semunp := a\<rparr>) = un_next s" "un_next (s\<lparr>semfup := b\<rparr>) = un_next s"
  "un_next (s\<lparr>sem_undo_tab := t\<rparr>) = un_next s"
  by (simp_all add: un_next_def)

lemma un_next_eq: "un_next s x = un_np (semu s x)"
  by (simp add: un_next_def)

lemma undo_shape_cong:
  assumes "semu t = semu s" "sem_undo_tab t = sem_undo_tab s" "semunp t = semunp s" "semfup t = semfup s"
  shows "undo_shape si t act fr = undo_shape si s act fr" "adjust t = adjust s"
proof -
  have "un_next t = un_next s" using assms by (simp add: un_next_def)
  then show "undo_shape si t act fr = undo_shape si s act fr" using assms by (simp add: undo_shape_def)
  show "adjust t = adjust s" by (rule ext)+ (simp add: adjust_def assms split: option.split)
qed

lemma undo_ok_cong:
  "semu t = semu s \<Longrightarrow> sem_undo_tab t = sem_undo_tab s \<Longrightarrow> semunp t = semunp s \<Longrightarrow> semfup t = semfup s \<Longrightarrow>
   undo_ok si t = undo_ok si s \<and> adjust t = adjust s"
proof -
  assume "semu t = semu s" "sem_undo_tab t = sem_undo_tab s" "semunp t = semunp s" "semfup t = semfup s"
  note C = undo_shape_cong [OF this]
  have "undo_shape si t = undo_shape si s" by (rule ext)+ (rule C(1))
  then show ?thesis using C(2) by (simp add: undo_ok_def)
qed

lemma undo_struct_ok:
  assumes sh: "undo_shape si s act fr"
  shows "undo_struct u s = None \<Longrightarrow> sem_undo_tab s (u_procx u) = None \<and> semfup s = None"
    and "undo_struct u s = Some (up, t) \<Longrightarrow> \<exists>fr'. undo_shape si t act fr' \<and> adjust t = adjust s \<and>
      sem_undo_tab t (u_procx u) = Some up \<and> same_rest s t \<and> u_error t = u_error s \<and>
      (\<forall>p. sem_undo_tab s p \<noteq> None \<longrightarrow> sem_undo_tab t p = sem_undo_tab s p) \<and>
      (sem_undo_tab s (u_procx u) \<noteq> None \<or> semfup s \<noteq> None)"
proof -
  show "undo_struct u s = None \<Longrightarrow> sem_undo_tab s (u_procx u) = None \<and> semfup s = None"
    by (cases "sem_undo_tab s (u_procx u)"; cases "semfup s") (simp_all add: undo_struct_def Let_def)
  assume st: "undo_struct u s = Some (up, t)"
  show "\<exists>fr'. undo_shape si t act fr' \<and> adjust t = adjust s \<and>
      sem_undo_tab t (u_procx u) = Some up \<and> same_rest s t \<and> u_error t = u_error s \<and>
      (\<forall>p. sem_undo_tab s p \<noteq> None \<longrightarrow> sem_undo_tab t p = sem_undo_tab s p) \<and>
      (sem_undo_tab s (u_procx u) \<noteq> None \<or> semfup s \<noteq> None)"
  proof (cases "sem_undo_tab s (u_procx u)")
    case (Some x) then show ?thesis using st sh by (auto simp: undo_struct_def)
  next
    case None
    then obtain x where fu: "semfup s = Some x" and x: "x = up"
      and t: "t = (upd_un x (\<lambda>y. y\<lparr>un_np := None\<rparr>) (s\<lparr>semfup := un_np (semu s x)\<rparr>))
                 \<lparr>sem_undo_tab := (sem_undo_tab s)(u_procx u := Some x)\<rparr>"
      using st by (auto simp: undo_struct_def Let_def upd_un_def split: option.splits)
    from sh fu obtain fr' where fr: "fr = x # fr'" "chain (un_next s) (un_next s x) fr'"
      by (auto simp: undo_shape_def chain_Some)
    have "distinct fr" using sh chain_distinct [of "un_next s" "semfup s" fr] by (simp add: undo_shape_def)
    then have d: "x \<notin> set fr'" by (simp add: fr)
    from sh fr have xe: "un_ent (semu s x) = []" "x < semmnu si" "x \<notin> set act"
      by (auto simp: undo_shape_def)
    from sh fr have free: "sem_undo_tab s p \<noteq> Some x" for p by (auto simp: undo_shape_def)
    have ents: "un_ent (semu t y) = un_ent (semu s y)" for y by (simp add: t sem_simps)
    have nxt: "un_next t = (un_next s)(x := None)" by (simp add: t sem_simps)
    have tab: "sem_undo_tab t = (sem_undo_tab s)(u_procx u := Some x)" by (simp add: t)
    have ptr: "semunp t = semunp s" "semfup t = un_next s x" by (simp_all add: t sem_simps un_next_eq)
    have "undo_shape si t act fr'"
      using sh fr d xe free None unfolding undo_shape_def ents nxt tab ptr
      by (auto split: if_splits)
    moreover have "adjust t = adjust s"
      using None xe by (auto simp: adjust_def fun_eq_iff tab ents split: option.splits)
    moreover have "same_rest s t" "u_error t = u_error s" by (simp_all add: t same_rest_def sem_simps)
    ultimately show ?thesis using None fu tab x by auto
  qed
qed

lemma undo_unlink_ok:
  assumes sh: "chain (un_next s) (semunp s) act" "chain (un_next s) (semfup s) fr"
    "set act \<inter> set fr = {}" "set act \<union> set fr \<subseteq> {..<semmnu si}" and x: "x \<in> set act"
  defines "t \<equiv> upd_un x (\<lambda>y. y\<lparr>un_np := None\<rparr>) (undo_unlink si x s)"
  shows "chain (un_next t) (semunp t) (remove1 x act)" "chain (un_next t) (semfup t) fr"
    "un_ent (semu t y) = un_ent (semu s y)" "sem_undo_tab t = sem_undo_tab s" "same_rest s t"
    "u_error t = u_error s" "semfup t = semfup s"
proof -
  obtain us vs where a: "act = us @ x # vs" "path (un_next s) (semunp s) us (Some x)"
      "chain (un_next s) (un_next s x) vs"
    using path_split [OF x sh(1)] by blast
  have d: "x \<notin> set us" "x \<notin> set vs" "distinct us" "set us \<inter> set vs = {}" "distinct vs"
    using chain_distinct [OF sh(1)] a by auto
  have r: "remove1 x act = us @ vs" using d a by (simp add: remove1_append)
  have xfr: "x \<notin> set fr" using sh(3) x by blast
  have frame: "un_ent (semu t y) = un_ent (semu s y) \<and> sem_undo_tab t = sem_undo_tab s \<and> same_rest s t \<and>
      u_error t = u_error s \<and> semfup t = semfup s" for y
    by (auto simp: t_def undo_unlink_def sem_simps same_rest_def split: option.splits)
  then show "un_ent (semu t y) = un_ent (semu s y)" "sem_undo_tab t = sem_undo_tab s" "same_rest s t"
    "u_error t = u_error s" "semfup t = semfup s" by auto
  show "chain (un_next t) (semunp t) (remove1 x act)" "chain (un_next t) (semfup t) fr"
  proof -
    have "chain (un_next t) (semunp t) (us @ vs) \<and> chain (un_next t) (semfup t) fr"
    proof (cases us rule: rev_cases)
      case Nil
      then have "t = upd_un x (\<lambda>y. y\<lparr>un_np := None\<rparr>) (s\<lparr>semunp := un_np (semu s x)\<rparr>)"
        using a by (simp add: t_def undo_unlink_def)
      then show ?thesis using Nil a d xfr sh(2) by (simp add: sem_simps un_next_eq)
    next
      case (snoc ws w)
      have "set act \<subseteq> {..<semmnu si}" using sh(4) by simp
      then have wk: "walk (semmnu si) (un_next s) (semunp s) = act"
        using walk_chain_bounded [OF sh(1)] by simp
      have pw: "path (un_next s) (semunp s) ws (Some w)" "un_next s w = Some x"
        using a(2) snoc by (auto simp: path_append)
      have first: "semunp s \<noteq> Some x"
        using a(2) d snoc by (cases ws) auto
      have uniq: "y = w" if "y \<in> set act" "un_next s y = Some x" for y
      proof -
        note y0 = that
        obtain p q where y: "act = p @ y # q" "chain (un_next s) (un_next s y) q"
          using path_split [OF y0(1) sh(1)] by blast
        with y0(2) obtain q' where "q = x # q'" by (auto simp: chain_Some)
        with y(1) a(1) snoc have e: "(p @ [y]) @ x # q' = (ws @ [w]) @ x # vs" by simp
        have "distinct ((p @ [y]) @ x # q')"
          using chain_distinct [OF sh(1)] y(1) \<open>q = x # q'\<close> by simp
        then have "x \<notin> set (p @ [y])" "x \<notin> set q'" by auto
        moreover have "x \<notin> set (ws @ [w])" "x \<notin> set vs" using d snoc by auto
        ultimately have "p @ [y] = ws @ [w]" using append_Cons_eq_iff [of x "p @ [y]" q' "ws @ [w]" vs] e by simp
        then show ?thesis by simp
      qed
      have "w \<in> set act" using a snoc by simp
      then have fd: "List.find (\<lambda>y. un_np (semu s y) = Some x) act = Some w"
      proof -
        have "List.find (\<lambda>y. un_np (semu s y) = Some x) act \<noteq> None"
          using \<open>w \<in> set act\<close> pw(2) by (auto simp: find_None_iff un_next_eq)
        then obtain z where z: "List.find (\<lambda>y. un_np (semu s y) = Some x) act = Some z" by auto
        then have "z \<in> set act" "un_next s z = Some x"
          by (auto simp: find_Some_iff un_next_eq)
        with uniq z show ?thesis by simp
      qed
      have t: "t = upd_un x (\<lambda>y. y\<lparr>un_np := None\<rparr>) (upd_un w (\<lambda>y. y\<lparr>un_np := un_np (semu s x)\<rparr>) s)"
        using first fd wk by (simp add: t_def undo_unlink_def)
      have wx: "w \<noteq> x" "w \<notin> set ws" "w \<notin> set vs" "w \<notin> set fr" "x \<notin> set ws"
        using d snoc sh(3) a(1) by auto
      have "un_next t = (un_next s)(w := un_next s x, x := None)" "semunp t = semunp s" "semfup t = semfup s"
        using wx by (auto simp: t sem_simps un_next_eq fun_eq_iff)
      then show ?thesis using a(3) pw wx snoc sh(2) xfr d by (auto simp: path_append)
    qed
    then show "chain (un_next t) (semunp t) (remove1 x act)" "chain (un_next t) (semfup t) fr"
      using r by auto
  qed
qed

lemma adjust_set:
  assumes "undo_shape si s act fr" "sem_undo_tab s p = Some up" "sem_undo_tab t = sem_undo_tab s"
    and "\<And>y. un_ent (semu t y) = (if y = up then es' else un_ent (semu s y))"
  shows "adjust t = (adjust s)(p := aoe_fun es')"
proof
  fix q show "adjust t q = ((adjust s)(p := aoe_fun es')) q"
  proof (cases "sem_undo_tab s q")
    case None then show ?thesis using assms(2,3) by (auto simp: adjust_def)
  next
    case (Some x)
    have "x = up \<longleftrightarrow> q = p" using assms(1,2) Some by (auto simp: undo_shape_def)
    then show ?thesis using Some assms(2-4) by (auto simp: adjust_def)
  qed
qed

lemma shape_set:
  assumes sh: "undo_shape si s act fr" and p: "sem_undo_tab s p = Some up" "sem_undo_tab t = sem_undo_tab s"
    and ent: "\<And>y. un_ent (semu t y) = (if y = up then es' else un_ent (semu s y))"
    and es': "ents_ok si es'"
    and ch: "chain (un_next t) (semunp t) act'" "chain (un_next t) (semfup t) fr"
    and act': "set act' = (if es' = [] then set act - {up} else insert up (set act))"
  shows "undo_shape si t act' fr"
proof -
  have up: "up \<notin> set fr" "up < semmnu si" "up \<in> ran (sem_undo_tab s)"
    using sh p(1) by (auto simp: undo_shape_def intro: ranI)
  show ?thesis using sh up ch es' unfolding undo_shape_def p(2) ent act'
    by (auto split: if_splits)
qed

lemma undo_enter_ok:
  assumes sh: "undo_shape si s act fr" and p: "sem_undo_tab s p = Some up"
    and val: "val \<noteq> 0" "aoe_in si (- val)" and en: "undo_enter si up val sid num s = (bad, t)"
  shows "undo_ok si t \<and> same_rest s t \<and> sem_undo_tab t = sem_undo_tab s \<and>
     (bad \<longleftrightarrow> \<not> (aoe_in si (adjust s p (sid, num) - val) \<and>
        (adjust s p (sid, num) \<noteq> 0 \<or> card {k. adjust s p k \<noteq> 0} < semume si))) \<and>
     (if bad then adjust t = adjust s \<and> u_error t \<noteq> None
      else u_error t = u_error s \<and>
        adjust t = (adjust s)(p := (adjust s p)((sid, num) := adjust s p (sid, num) - val)))"
proof -
  let ?es = "un_ent (semu s up)"
  obtain b r where f: "undo_find sid num ?es = (b, r)" by fastforce
  have ok: "ents_ok si ?es" using sh by (simp add: undo_shape_def)
  have adj: "adjust s p = aoe_fun ?es" using p by (simp add: adjust_def)
  have len: "length ?es = card {k. adjust s p k \<noteq> 0}" using ents_ok_length [OF ok] adj by simp
  have ch: "chain (un_next s) (semunp s) act" "chain (un_next s) (semfup s) fr" "set act \<inter> set fr = {}"
    "set act \<union> set fr \<subseteq> {..<semmnu si}" "up \<notin> set fr" "up \<in> set act \<longleftrightarrow> ?es \<noteq> []"
    using sh p by (auto simp: undo_shape_def)
  note P = find_place [OF ok f] and L = enter_list [OF ok f]
  have err: "undo_ok si (set_err e s) \<and> adjust (set_err e s) = adjust s" for e
    using undo_ok_cong [of "set_err e s" s si] sh by (auto simp: undo_ok_def set_err_def)
  let ?a = "aoe_fun ?es (sid, num) - val"
  show ?thesis
  proof (cases "aoe_fun ?es (sid, num) = 0")
    case miss: True
    show ?thesis
    proof (cases "semume si \<le> length ?es")
      case True
      then have "bad" "t = set_err EINVAL s"
        using en f P(4) miss by (auto simp: undo_enter_def Let_def)
      then show ?thesis using err True len miss adj by (auto simp: same_rest_def sem_simps)
    next
      case False
      let ?es' = "b @ \<lparr>un_aoe = - val, un_num = num, un_id = sid\<rparr> # r"
      let ?s1 = "if ?es = [] then (upd_un up (\<lambda>y. y\<lparr>un_np := semunp s\<rparr>) s)\<lparr>semunp := Some up\<rparr> else s"
      have t: "\<not> bad" "t = upd_un up (\<lambda>y. y\<lparr>un_ent := ?es'\<rparr>) ?s1"
        using en f P(4) miss False by (auto simp: undo_enter_def Let_def)
      have e: "un_ent (semu t y) = (if y = up then ?es' else un_ent (semu s y))" for y
        by (simp add: t sem_simps)
      have tab: "sem_undo_tab t = sem_undo_tab s" by (simp add: t sem_simps)
      from L(1) [OF miss _ _ val(2)] False val(1)
      have n: "ents_ok si ?es'" "aoe_fun ?es' = (aoe_fun ?es)((sid, num) := - val)" by auto
      have nxt: "un_next t = (if ?es = [] then (un_next s)(up := semunp s) else un_next s)"
        "semunp t = (if ?es = [] then Some up else semunp s)" "semfup t = semfup s"
        by (auto simp: t sem_simps un_next_eq fun_eq_iff)
      have "undo_shape si t (if ?es = [] then up # act else act) fr"
        by (rule shape_set [OF sh p tab e n(1)])
          (use ch nxt chain_distinct [OF ch(1)] in \<open>auto split: if_splits\<close>)
      then have "undo_ok si t" by (auto simp: undo_ok_def)
      moreover have "adjust t = (adjust s)(p := aoe_fun ?es')" by (rule adjust_set [OF sh p tab e])
      moreover have "same_rest s t \<and> u_error t = u_error s" by (simp add: t same_rest_def sem_simps)
      ultimately show ?thesis using t(1) tab n miss adj len False val by auto
    qed
  next
    case hit: False
    then have r: "r \<noteq> []" "un_id (hd r) = sid" "un_num (hd r) = num" "aoe_fun ?es (sid, num) = un_aoe (hd r)"
      using P(4,5) by auto
    have upact: "up \<in> set act" using ch(6) P(1) r by auto
    show ?thesis
    proof (cases "aoe_in si ?a")
      case False
      then have "bad" "t = set_err ERANGE s"
        using en f r by (auto simp: undo_enter_def Let_def aoe_in_def)
      then show ?thesis using err False hit adj by (auto simp: same_rest_def sem_simps)
    next
      case inr: True
      define es' where "es' = (if ?a = 0 then b @ tl r else b @ (hd r)\<lparr>un_aoe := ?a\<rparr> # tl r)"
      let ?s1 = "upd_un up (\<lambda>y. y\<lparr>un_ent := es'\<rparr>) s"
      have n: "ents_ok si es'" "aoe_fun es' = (aoe_fun ?es)((sid, num) := ?a)"
        using L(2) [OF hit _ inr] L(3) [OF hit] by (auto simp: es'_def)
      have t: "\<not> bad" "t = (if es' = [] then upd_un up (\<lambda>y. y\<lparr>un_np := None\<rparr>) (undo_unlink si up ?s1) else ?s1)"
        using en f r inr by (auto simp: undo_enter_def Let_def aoe_in_def es'_def split: if_splits)
      have s1: "un_next ?s1 = un_next s" "semunp ?s1 = semunp s" "semfup ?s1 = semfup s"
        "sem_undo_tab ?s1 = sem_undo_tab s" "same_rest s ?s1" "u_error ?s1 = u_error s"
        "un_ent (semu ?s1 y) = (if y = up then es' else un_ent (semu s y))" for y
        by (auto simp: sem_simps same_rest_def un_next_eq fun_eq_iff)
      note U = undo_unlink_ok [of ?s1 act fr si up, unfolded s1(1-4,6), OF ch(1-4) upact]
      have fr: "sem_undo_tab t = sem_undo_tab s" "same_rest s t" "u_error t = u_error s"
        "un_ent (semu t y) = (if y = up then es' else un_ent (semu s y))" for y
        using U(3-6) s1(4-7) by (auto simp: t(2) intro: same_rest_trans)
      have "undo_shape si t (if es' = [] then remove1 up act else act) fr"
        by (rule shape_set [OF sh p fr(1) fr(4) n(1)])
          (use U ch s1 upact chain_distinct [OF ch(1)] in \<open>auto simp: t(2) split: if_splits\<close>)
      then have "undo_ok si t" by (auto simp: undo_ok_def)
      moreover have "adjust t = (adjust s)(p := aoe_fun es')" by (rule adjust_set [OF sh p fr(1) fr(4)])
      ultimately show ?thesis using t(1) fr n hit adj inr by auto
    qed
  qed
qed

text \<open>\<open>semaoe\<close> on the level of adjustments: when it succeeds, and what it does.\<close>

definition aoe_accepts :: "seminfo \<Rightarrow> ucred \<Rightarrow> u16 \<Rightarrow> u16 \<times> u16 \<Rightarrow> semst \<Rightarrow> bool" where
  "aoe_accepts si u val k s \<longleftrightarrow> val = 0 \<or>
     aoe_in si val \<and> (sem_undo_tab s (u_procx u) \<noteq> None \<or> semfup s \<noteq> None) \<and>
     aoe_in si (adjust s (u_procx u) k - val) \<and>
     (adjust s (u_procx u) k \<noteq> 0 \<or> card {k. adjust s (u_procx u) k \<noteq> 0} < semume si)"

definition aem_ok :: "seminfo \<Rightarrow> bool" where
  "aem_ok si \<longleftrightarrow> unat (semaem si) \<le> 16384"

lemma sint_minus16: "sint (- x) = (if unat x = 32768 then - 32768 else - sint x)" for x :: u16
proof -
  have u: "unat (- x) = (if x = 0 then 0 else 65536 - unat x)"
    using unat_sub_if' [of 0 x] by auto
  then show ?thesis using u16_lt [of x] by (auto simp: sint16 simp del: of_nat_unat)
qed

lemma aem_sint: "aem_ok si \<Longrightarrow> sint (semaem si) = int (unat (semaem si)) \<and> sint (- semaem si) = - int (unat (semaem si))"
proof -
  assume A: "aem_ok si"
  then have "sint (semaem si) = int (unat (semaem si))" by (simp add: aem_ok_def sint16 del: of_nat_unat)
  then show ?thesis using A sint_minus16 [of "semaem si"] by (auto simp: aem_ok_def simp del: of_nat_unat)
qed

lemma aoe_in_minus: "aem_ok si \<Longrightarrow> aoe_in si (- v) = aoe_in si v"
  using aem_sint [of si] sint_minus16 [of v] u16_lt [of v]
  by (auto simp: aoe_in_def word_sless_alt aem_ok_def sint16 simp del: of_nat_unat split: if_splits)

lemma aoe_in_0: "aem_ok si \<Longrightarrow> aoe_in si 0"
  using aem_sint [of si] by (auto simp: aoe_in_def word_sless_alt simp del: of_nat_unat)

lemma semaoe_ok:
  assumes ok: "undo_ok si s" and A: "aem_ok si" and run: "semaoe si u val sid num s = (bad, t)"
  defines "p \<equiv> u_procx u" and "k \<equiv> (sid, num)"
  shows "undo_ok si t \<and> same_rest s t \<and> (bad \<longleftrightarrow> \<not> aoe_accepts si u val k s) \<and>
     (sem_undo_tab s p \<noteq> None \<longrightarrow> sem_undo_tab t p \<noteq> None) \<and>
     (if bad then adjust t = adjust s \<and> u_error t \<noteq> None
      else u_error t = u_error s \<and> (val = 0 \<or> sem_undo_tab t p \<noteq> None) \<and>
        adjust t = (adjust s)(p := (adjust s p)(k := adjust s p k - val)))"
proof -
  from ok obtain act fr where sh: "undo_shape si s act fr" by (auto simp: undo_ok_def)
  have err: "undo_ok si (set_err e s) \<and> adjust (set_err e s) = adjust s" for e
    using undo_ok_cong [of "set_err e s" s si] ok by (auto simp: set_err_def)
  consider "val = 0" | "val \<noteq> 0" "\<not> aoe_in si val" | "val \<noteq> 0" "aoe_in si val" by blast
  then show ?thesis
  proof cases
    case 1 then show ?thesis using run ok by (auto simp: semaoe_def aoe_accepts_def)
  next
    case 2
    then have "bad" "t = set_err ERANGE s" using run by (auto simp: semaoe_def aoe_in_def)
    then show ?thesis using 2 err by (auto simp: same_rest_def sem_simps aoe_accepts_def)
  next
    case 3
    show ?thesis
    proof (cases "undo_struct u s")
      case None
      then have "bad" "t = set_err ENOSPC s" using run 3 by (auto simp: semaoe_def aoe_in_def)
      then show ?thesis using undo_struct_ok(1) [OF sh None] 3 err
        by (auto simp: same_rest_def sem_simps aoe_accepts_def)
    next
      case (Some ut)
      obtain up s1 where us: "undo_struct u s = Some (up, s1)" using Some by (cases ut) auto
      then have en: "undo_enter si up val sid num s1 = (bad, t)"
        using run 3 by (auto simp: semaoe_def aoe_in_def)
      from undo_struct_ok(2) [OF sh us] obtain fr' where
        s1: "undo_shape si s1 act fr'" "adjust s1 = adjust s" "sem_undo_tab s1 p = Some up" "same_rest s s1"
          "u_error s1 = u_error s" "sem_undo_tab s p \<noteq> None \<or> semfup s \<noteq> None"
        by (auto simp: p_def)
      have "aoe_in si (- val)" using aoe_in_minus [OF A] 3 by simp
      from undo_enter_ok [OF s1(1,3) 3(1) this en] s1 3 show ?thesis
        by (auto simp: aoe_accepts_def k_def p_def intro: same_rest_trans split: if_splits)
    qed
  qed
qed

section \<open>Operation lists and their undoing\<close>

lemma upd_sem_fields [sem_simps]:
  "sem (upd_sem k f s) = (sem s)(k := f (sem s k))" "sema (upd_sem k f s) = sema s"
  "semmap (upd_sem k f s) = semmap s" "semu (upd_sem k f s) = semu s" "semunp (upd_sem k f s) = semunp s"
  "semfup (upd_sem k f s) = semfup s" "sem_undo_tab (upd_sem k f s) = sem_undo_tab s"
  "u_error (upd_sem k f s) = u_error s"
  by (auto simp: upd_sem_def)

lemma wake_fields [sem_simps]:
  "semval (sem (wake_n k s) j) = semval (sem s j)" "semval (sem (wake_z k s) j) = semval (sem s j)"
  "sema (wake_n k s) = sema s" "sema (wake_z k s) = sema s" "semmap (wake_n k s) = semmap s"
  "semmap (wake_z k s) = semmap s" "semu (wake_n k s) = semu s" "semu (wake_z k s) = semu s"
  "semunp (wake_n k s) = semunp s" "semunp (wake_z k s) = semunp s" "semfup (wake_n k s) = semfup s"
  "semfup (wake_z k s) = semfup s" "sem_undo_tab (wake_n k s) = sem_undo_tab s"
  "sem_undo_tab (wake_z k s) = sem_undo_tab s" "u_error (wake_n k s) = u_error s"
  "u_error (wake_z k s) = u_error s"
  by (auto simp: wake_n_def wake_z_def sem_wakeup_def upd_sem_def)

text \<open>Two states with the same semaphore values and adjustments.\<close>

definition like :: "semst \<Rightarrow> semst \<Rightarrow> bool" where
  "like s t \<longleftrightarrow> (\<forall>k. semval (sem s k) = semval (sem t k)) \<and> adjust s = adjust t \<and> sema s = sema t \<and>
     semmap s = semmap t"

definition has_undo :: "ucred \<Rightarrow> semst \<Rightarrow> bool" where
  "has_undo u s \<longleftrightarrow> sem_undo_tab s (u_procx u) \<noteq> None"

definition flagged :: "sembuf list \<Rightarrow> bool" where
  "flagged ops \<longleftrightarrow> (\<exists>op \<in> set ops. sem_op op \<noteq> 0 \<and> sem_flg op AND SEM_UNDO \<noteq> 0)"

lemma like_refl [simp]: "like s s"
  by (simp add: like_def)

lemma like_trans: "like s t \<Longrightarrow> like t v \<Longrightarrow> like s v"
  by (simp add: like_def)

text \<open>Updates of semaphores leave the undo structures alone.\<close>

lemma undo_upd_sem [simp]:
  "undo_ok si (upd_sem k f s) = undo_ok si s" "adjust (upd_sem k f s) = adjust s"
  "has_undo u (upd_sem k f s) = has_undo u s"
  using undo_ok_cong [of "upd_sem k f s" s] by (simp_all add: sem_simps has_undo_def)

lemma undo_wake [simp]:
  "undo_ok si (wake_n k s) = undo_ok si s" "adjust (wake_n k s) = adjust s"
  "has_undo u (wake_n k s) = has_undo u s"
  "undo_ok si (wake_z k s) = undo_ok si s" "adjust (wake_z k s) = adjust s"
  "has_undo u (wake_z k s) = has_undo u s"
  using undo_ok_cong [of "wake_n k s" s] undo_ok_cong [of "wake_z k s" s]
  by (simp_all add: sem_simps has_undo_def)

lemma undo_set_err [simp]:
  "undo_ok si (set_err e s) = undo_ok si s" "adjust (set_err e s) = adjust s"
  "has_undo u (set_err e s) = has_undo u s"
  using undo_ok_cong [of "set_err e s" s] by (simp_all add: sem_simps has_undo_def)

lemma adjust_bounds:
  assumes "undo_ok si s" "aem_ok si"
  shows "aoe_in si (adjust s p k)" "card {k. adjust s p k \<noteq> 0} \<le> semume si"
proof -
  from assms(1) obtain act fr where sh: "undo_shape si s act fr" by (auto simp: undo_ok_def)
  note z = aoe_in_0 [OF assms(2)]
  show "aoe_in si (adjust s p k)" "card {k. adjust s p k \<noteq> 0} \<le> semume si"
  proof -
    have "aoe_in si (adjust s p k) \<and> card {k. adjust s p k \<noteq> 0} \<le> semume si"
    proof (cases "sem_undo_tab s p")
      case None then show ?thesis using z by (simp add: adjust_def)
    next
      case (Some x)
      then have ok: "ents_ok si (un_ent (semu s x))" using sh by (auto simp: undo_shape_def)
      have "aoe_in si (aoe_fun (un_ent (semu s x)) k)"
        using aoe_fun_some [OF ok, of k] aoe_fun_none [of k "un_ent (semu s x)"] z
        by (cases "k \<in> ent_key ` set (un_ent (semu s x))") simp_all
      then show ?thesis using ents_ok_length [OF ok] ok Some by (simp add: adjust_def ents_ok_def)
    qed
    then show "aoe_in si (adjust s p k)" "card {k. adjust s p k \<noteq> 0} \<le> semume si" by auto
  qed
qed

lemma aoe_accepts_like:
  "like s t \<Longrightarrow> has_undo u s \<Longrightarrow> has_undo u t \<Longrightarrow> aoe_accepts si u v k s = aoe_accepts si u v k t"
  by (simp add: aoe_accepts_def like_def has_undo_def)

text \<open>One step of \<open>semundo\<close>.\<close>

definition undo_op :: "seminfo \<Rightarrow> ucred \<Rightarrow> u16 \<Rightarrow> nat \<Rightarrow> sembuf \<Rightarrow> semst \<Rightarrow> semst" where
  "undo_op si u sid base op s =
     (if sem_op op = 0 then s
      else (let s = upd_sem (base + unat (sem_num op)) (\<lambda>p. p\<lparr>semval := semval p - sem_op op\<rparr>) s
            in if sem_flg op AND SEM_UNDO \<noteq> 0
               then snd (semaoe si u (- sem_op op) sid (sem_num op) s) else s))"

lemma semundo_Cons: "semundo si u sid base (op # dn) s = semundo si u sid base dn (undo_op si u sid base op s)"
  by (simp add: undo_op_def Let_def)

lemma undo_op_like:
  fixes sid :: u16 and base :: nat
  assumes "undo_ok si s" "undo_ok si t" "aem_ok si" "like s t" "flagged [op] \<Longrightarrow> has_undo u s \<and> has_undo u t"
  defines "f \<equiv> undo_op si u sid base op"
  shows "undo_ok si (f s)" "like (f s) (f t)" "has_undo u s \<Longrightarrow> has_undo u (f s)"
    "u_error s = u_error t \<Longrightarrow> u_error (f s) = None \<longleftrightarrow> u_error (f t) = None"
    "u_error s \<noteq> None \<Longrightarrow> u_error (f s) \<noteq> None"
    "u_error s = None \<longleftrightarrow> u_error t = None \<Longrightarrow> u_error (f s) = None \<longleftrightarrow> u_error (f t) = None"
proof -
  let ?g = "upd_sem (base + unat (sem_num op)) (\<lambda>p. p\<lparr>semval := semval p - sem_op op\<rparr>)"
  have "undo_ok si (f s) \<and> like (f s) (f t) \<and> (has_undo u s \<longrightarrow> has_undo u (f s)) \<and>
      ((u_error s = None \<longleftrightarrow> u_error t = None) \<longrightarrow> (u_error (f s) = None \<longleftrightarrow> u_error (f t) = None)) \<and>
      (u_error s \<noteq> None \<longrightarrow> u_error (f s) \<noteq> None)"
  proof (cases "flagged [op]")
    case False
    then show ?thesis using assms(1-4)
      by (auto simp: f_def undo_op_def flagged_def like_def sem_simps Let_def)
  next
    case True
    obtain b1 s1 where s1: "semaoe si u (- sem_op op) sid (sem_num op) (?g s) = (b1, s1)" by fastforce
    obtain b2 t1 where t1: "semaoe si u (- sem_op op) sid (sem_num op) (?g t) = (b2, t1)" by fastforce
    have lk: "like (?g s) (?g t)" using assms(4) by (auto simp: like_def sem_simps)
    have f: "f s = s1" "f t = t1" using True s1 t1 by (auto simp: f_def undo_op_def flagged_def)
    note S = semaoe_ok [OF _ assms(3) s1] and T = semaoe_ok [OF _ assms(3) t1]
    have "b1 = b2" using S T aoe_accepts_like [OF lk] assms(1,2,5) True by auto
    then show ?thesis using S T assms(1,2,4,5) True lk
      by (auto simp: f like_def same_rest_def sem_simps has_undo_def split: if_splits)
  qed
  then show "undo_ok si (f s)" "like (f s) (f t)" "has_undo u s \<Longrightarrow> has_undo u (f s)"
    "u_error s = u_error t \<Longrightarrow> u_error (f s) = None \<longleftrightarrow> u_error (f t) = None"
    "u_error s \<noteq> None \<Longrightarrow> u_error (f s) \<noteq> None"
    "u_error s = None \<longleftrightarrow> u_error t = None \<Longrightarrow> u_error (f s) = None \<longleftrightarrow> u_error (f t) = None" by auto
qed

lemma semundo_like:
  assumes "aem_ok si"
  shows "undo_ok si s \<Longrightarrow> undo_ok si t \<Longrightarrow> like s t \<Longrightarrow> (flagged dn \<Longrightarrow> has_undo u s \<and> has_undo u t) \<Longrightarrow>
     undo_ok si (semundo si u sid base dn s) \<and>
     like (semundo si u sid base dn s) (semundo si u sid base dn t) \<and>
     (u_error s \<noteq> None \<longrightarrow> u_error (semundo si u sid base dn s) \<noteq> None) \<and>
     ((u_error s = None \<longleftrightarrow> u_error t = None) \<longrightarrow>
        (u_error (semundo si u sid base dn s) = None \<longleftrightarrow> u_error (semundo si u sid base dn t) = None))"
proof (induction dn arbitrary: s t)
  case Nil then show ?case by simp
next
  case (Cons op dn)
  have fl: "flagged [op] \<Longrightarrow> flagged (op # dn)" "flagged dn \<Longrightarrow> flagged (op # dn)" by (auto simp: flagged_def)
  have h: "flagged [op] \<Longrightarrow> has_undo u s \<and> has_undo u t" using Cons.prems(4) fl(1) by blast
  have h': "flagged [op] \<Longrightarrow> has_undo u t \<and> has_undo u s" using h by blast
  have l': "like t s" using Cons.prems(3) by (auto simp: like_def)
  note P = undo_op_like [where op = op and sid = sid and base = base, OF Cons.prems(1,2) assms Cons.prems(3) h]
  note Q = undo_op_like [where op = op and sid = sid and base = base, OF Cons.prems(2,1) assms l' h']
  let ?f = "undo_op si u sid base op"
  have ih: "undo_ok si (semundo si u sid base dn (?f s)) \<and>
     like (semundo si u sid base dn (?f s)) (semundo si u sid base dn (?f t)) \<and>
     (u_error (?f s) \<noteq> None \<longrightarrow> u_error (semundo si u sid base dn (?f s)) \<noteq> None) \<and>
     ((u_error (?f s) = None \<longleftrightarrow> u_error (?f t) = None) \<longrightarrow>
        (u_error (semundo si u sid base dn (?f s)) = None \<longleftrightarrow> u_error (semundo si u sid base dn (?f t)) = None))"
    by (rule Cons.IH [OF P(1) Q(1) P(2)]) (use P(3) Q(3) Cons.prems(4) fl(2) in blast)+
  moreover have "u_error s \<noteq> None \<Longrightarrow> u_error (?f s) \<noteq> None"
    "u_error s = None \<longleftrightarrow> u_error t = None \<Longrightarrow> u_error (?f s) = None \<longleftrightarrow> u_error (?f t) = None"
    using P(5,6) by simp_all
  ultimately show ?case unfolding semundo_Cons by auto
qed

text \<open>Undoing the operation just done leads back to where it started.\<close>

lemma undo_op_reverses:
  assumes "undo_ok si s" "aem_ok si" and run: "op_aoe si u sid op s = (False, s1)"
    and nz: "sem_op op \<noteq> 0"
    and t: "\<And>k. semval (sem t k) =
              (if k = base + unat (sem_num op) then semval (sem s k) + sem_op op else semval (sem s k))"
    and un: "semu t = semu s1" "sem_undo_tab t = sem_undo_tab s1" "semunp t = semunp s1"
      "semfup t = semfup s1" "sema t = sema s" "semmap t = semmap s" "u_error t = u_error s1"
  shows "undo_ok si s1" "undo_ok si t" "like (undo_op si u sid base op t) s"
    "undo_ok si (undo_op si u sid base op t)" "u_error (undo_op si u sid base op t) = u_error s"
    "has_undo u s \<Longrightarrow> has_undo u t" "flagged [op] \<Longrightarrow> has_undo u t"
    "has_undo u t \<Longrightarrow> has_undo u (undo_op si u sid base op t)" "u_error s1 = u_error s"
proof -
  let ?p = "u_procx u" and ?k = "(sid, sem_num op)"
  let ?g = "upd_sem (base + unat (sem_num op)) (\<lambda>p. p\<lparr>semval := semval p - sem_op op\<rparr>)"
  have tc: "undo_ok si t = undo_ok si s1" "adjust t = adjust s1" "has_undo u t = has_undo u s1"
    using undo_ok_cong [OF un(1-4)] un(2) by (auto simp: has_undo_def)
  have v: "semval (sem (?g t) k) = semval (sem s k)" for k using t by (simp add: sem_simps)
  have "undo_ok si s1 \<and> like (undo_op si u sid base op t) s \<and> undo_ok si (undo_op si u sid base op t) \<and>
    u_error (undo_op si u sid base op t) = u_error s \<and> (has_undo u s \<longrightarrow> has_undo u t) \<and>
    (flagged [op] \<longrightarrow> has_undo u t) \<and> (has_undo u t \<longrightarrow> has_undo u (undo_op si u sid base op t)) \<and>
    u_error s1 = u_error s"
  proof (cases "flagged [op]")
    case False
    then have "s1 = s" "undo_op si u sid base op t = ?g t"
      using run nz by (auto simp: op_aoe_def undo_op_def flagged_def split: if_splits)
    then show ?thesis using assms(1) tc v un False by (auto simp: like_def sem_simps)
  next
    case True
    then have sa: "semaoe si u (sem_op op) sid (sem_num op) s = (False, s1)"
      using run by (auto simp: op_aoe_def flagged_def split: if_splits)
    note S = semaoe_ok [OF assms(1,2) sa]
    have adj: "adjust s1 = (adjust s)(?p := (adjust s ?p)(?k := adjust s ?p ?k - sem_op op))"
      and has: "has_undo u s1" and ok1: "undo_ok si s1" and e1: "u_error s1 = u_error s"
      using S nz by (auto simp: has_undo_def)
    obtain b r where r: "semaoe si u (- sem_op op) sid (sem_num op) (?g t) = (b, r)" by fastforce
    have rr: "undo_op si u sid base op t = r" using True r by (auto simp: undo_op_def flagged_def)
    have okg: "undo_ok si (?g t)" "adjust (?g t) = adjust s1" "has_undo u (?g t)" using tc ok1 has by auto
    note R = semaoe_ok [OF okg(1) assms(2) r]
    have "aoe_accepts si u (- sem_op op) ?k (?g t)"
    proof -
      have "aoe_in si (- sem_op op)" using S nz aoe_in_minus [OF assms(2)] by (auto simp: aoe_accepts_def)
      moreover have "adjust s1 ?p ?k - (- sem_op op) = adjust s ?p ?k" using adj by simp
      moreover have "adjust s1 ?p ?k \<noteq> 0 \<or> card {k. adjust s1 ?p k \<noteq> 0} < semume si"
      proof (cases "adjust s1 ?p ?k = 0")
        case True
        then have "adjust s ?p ?k \<noteq> 0" using adj nz by auto
        moreover have "adjust s1 ?p k \<noteq> 0 \<Longrightarrow> adjust s ?p k \<noteq> 0" for k
          using True adj by (cases "k = ?k") simp_all
        ultimately have "{k. adjust s1 ?p k \<noteq> 0} \<subset> {k. adjust s ?p k \<noteq> 0}" using True by blast
        then have "card {k. adjust s1 ?p k \<noteq> 0} < card {k. adjust s ?p k \<noteq> 0}"
          by (rule psubset_card_mono [OF finite])
        then show ?thesis using adjust_bounds(2) [OF assms(1,2), of ?p] by simp
      qed simp
      ultimately show ?thesis
        using okg adjust_bounds(1) [OF assms(1,2), of ?p ?k] by (auto simp: aoe_accepts_def has_undo_def)
    qed
    then have "\<not> b" using R by blast
    then have R': "adjust r = (adjust s1)(?p := (adjust s1 ?p)(?k := adjust s1 ?p ?k - (- sem_op op)))"
      "u_error r = u_error t" "undo_ok si r" "same_rest (?g t) r" "has_undo u r"
      using R okg(2,3) nz by (auto simp: sem_simps has_undo_def)
    have "adjust r = adjust s" unfolding R'(1) adj by (simp add: fun_upd_idem)
    moreover have "semval (sem r k) = semval (sem s k)" for k using R'(4) v by (simp add: same_rest_def)
    ultimately show ?thesis using R' un ok1 e1 has tc rr by (auto simp: like_def same_rest_def sem_simps)
  qed
  then show "undo_ok si s1" "undo_ok si t" "like (undo_op si u sid base op t) s"
    "undo_ok si (undo_op si u sid base op t)" "u_error (undo_op si u sid base op t) = u_error s"
    "has_undo u s \<Longrightarrow> has_undo u t" "flagged [op] \<Longrightarrow> has_undo u t"
    "has_undo u t \<Longrightarrow> has_undo u (undo_op si u sid base op t)" "u_error s1 = u_error s"
    using tc(1) by auto
qed

text \<open>What holds between two operations of a list: undoing all that was done leads back to \<open>s0\<close>.\<close>

definition undoable :: "seminfo \<Rightarrow> ucred \<Rightarrow> u16 \<Rightarrow> nat \<Rightarrow> sembuf list \<Rightarrow> semst \<Rightarrow> semst \<Rightarrow> bool" where
  "undoable si u sid base dn s s0 \<longleftrightarrow>
     undo_ok si s \<and> u_error s = None \<and> (flagged dn \<longrightarrow> has_undo u s) \<and>
     undo_ok si (semundo si u sid base dn s) \<and> like (semundo si u sid base dn s) s0 \<and>
     u_error (semundo si u sid base dn s) = None"

lemma undoable_err:
  assumes "aem_ok si" "undoable si u sid base dn s s0" "undo_ok si t" "like t s" "has_undo u s \<Longrightarrow> has_undo u t"
    "u_error t \<noteq> None"
  shows "undo_ok si (semundo si u sid base dn t) \<and> like (semundo si u sid base dn t) s0 \<and>
    u_error (semundo si u sid base dn t) \<noteq> None"
  using semundo_like [OF assms(1,3) _ assms(4), of dn u sid base] assms(2,5,6)
  unfolding undoable_def by (blast intro: like_trans)

lemma undoable_step:
  assumes A: "aem_ok si" and un: "undoable si u sid base dn s s0"
    and run: "op_aoe si u sid op s = (False, s1)" and nz: "sem_op op \<noteq> 0"
    and t: "\<And>k. semval (sem t k) =
              (if k = base + unat (sem_num op) then semval (sem s k) + sem_op op else semval (sem s k))"
    and same: "semu t = semu s1" "sem_undo_tab t = sem_undo_tab s1" "semunp t = semunp s1"
      "semfup t = semfup s1" "sema t = sema s" "semmap t = semmap s" "u_error t = u_error s1"
  shows "undoable si u sid base (op # dn) t s0"
proof -
  have s: "undo_ok si s" "u_error s = None" "flagged dn \<Longrightarrow> has_undo u s" using un by (auto simp: undoable_def)
  note R = undo_op_reverses [OF s(1) A run nz t same]
  let ?r = "undo_op si u sid base op t"
  have fd: "flagged (op # dn) \<longleftrightarrow> flagged [op] \<or> flagged dn" by (auto simp: flagged_def)
  have "flagged dn \<Longrightarrow> has_undo u ?r \<and> has_undo u s" using s(3) R(6,8) by blast
  from semundo_like [where dn = dn and sid = sid and base = base, OF A R(4) s(1) R(3) this] un R(5) s(2)
  have "undo_ok si (semundo si u sid base dn ?r)" "like (semundo si u sid base dn ?r) (semundo si u sid base dn s)"
    "u_error (semundo si u sid base dn ?r) = None"
    by (auto simp: undoable_def)
  then show ?thesis using un R(2,6,7,9) same(7) s fd unfolding undoable_def semundo_Cons
    by (auto intro: like_trans)
qed

lemma sem_wait_like:
  assumes "sem_wait op c s = (r, t)"
  shows "like t s" "undo_ok si t = undo_ok si s" "r \<noteq> Pass_done"
    "u_error t = (if r = Pass_error then Some EAGAIN else u_error s)"
  using assms by (auto simp: sem_wait_def like_def sem_simps split: if_splits sem_chan.splits)

lemma op_aoe_bad:
  assumes "undo_ok si s" "aem_ok si" "op_aoe si u sid op s = (True, s1)"
  shows "undo_ok si s1" "like s1 s" "has_undo u s \<Longrightarrow> has_undo u s1" "u_error s1 \<noteq> None"
proof -
  have sa: "semaoe si u (sem_op op) sid (sem_num op) s = (True, s1)"
    using assms(3) by (auto simp: op_aoe_def split: if_splits)
  show "undo_ok si s1" "like s1 s" "has_undo u s \<Longrightarrow> has_undo u s1" "u_error s1 \<noteq> None"
    using semaoe_ok [OF assms(1,2) sa] by (auto simp: like_def same_rest_def has_undo_def)
qed

text \<open>Fields after the accounting of one operation.\<close>

lemma op_aoe_rest:
  assumes "undo_ok si s" "aem_ok si" "op_aoe si u sid op s = (b, s1)"
  shows "sem s1 = sem s" "sema s1 = sema s" "semmap s1 = semmap s"
proof -
  have "same_rest s s1"
    using semaoe_ok [OF assms(1,2)] assms(3) by (cases "sem_flg op AND SEM_UNDO = 0") (auto simp: op_aoe_def)
  then show "sem s1 = sem s" "sema s1 = sema s" "semmap s1 = semmap s" by (auto simp: same_rest_def)
qed

lemma sem_ops_undoable:
  assumes A: "aem_ok si"
  shows "undoable si u sid base dn s s0 \<Longrightarrow> sem_ops si u sid base dn ops s = (r, t) \<Longrightarrow>
     undo_ok si t \<and> (r = Pass_done \<or> like t s0) \<and> (r = Pass_error \<longleftrightarrow> u_error t \<noteq> None)"
proof (induction ops arbitrary: dn s)
  case Nil then show ?case by (auto simp: undoable_def)
next
  case (Cons op ops)
  note un = Cons.prems(1)
  let ?k = "base + unat (sem_num op)"
  have s: "undo_ok si s" "u_error s = None" using un by (auto simp: undoable_def)
  obtain b s1 where aoe: "op_aoe si u sid op s = (b, s1)" by fastforce
  note S = op_aoe_rest [OF s(1) A aoe]
  have wait: ?case if "sem_wait op c (semundo si u sid base dn s) = (r, t)" for c
    using sem_wait_like [OF that] un
    by (cases "r = Pass_error") (auto simp: undoable_def intro: like_trans)
  have bad: ?case if "b" "r = Pass_error" "t = semundo si u sid base dn s1"
    using undoable_err [OF A un] op_aoe_bad [OF s(1) A] aoe that by auto
  consider (pos) "0 <s sem_op op" | (neg) "sem_op op <s 0" "\<not> 0 <s sem_op op" | (zero) "sem_op op = 0"
    using sless_linear [of 0 "sem_op op"] by (auto simp: word_sless_alt)
  then show ?case
  proof cases
    case pos
    let ?t = "wake_n ?k (upd_sem ?k (\<lambda>p. p\<lparr>semval := semval p + sem_op op\<rparr>) s1)"
    show ?thesis
    proof (cases "sint (semvmx si) < sint (sem_op op) + int (unat (semval (sem s ?k)))")
      case True
      then have "r = Pass_error" "t = semundo si u sid base dn (set_err ERANGE s)"
        using Cons.prems(2) pos s by (auto simp: Let_def)
      then show ?thesis using undoable_err [OF A un, of "set_err ERANGE s"] s
        by (auto simp: like_def sem_simps)
    next
      case False
      show ?thesis
      proof (cases b)
        case True
        then have "u_error s1 \<noteq> None" using op_aoe_bad(4) [OF s(1) A] aoe by auto
        then show ?thesis using bad Cons.prems(2) pos False True aoe by (auto simp: Let_def)
      next
        case nb: False
        then have nb': "op_aoe si u sid op s = (False, s1)" using aoe by simp
        have nz: "sem_op op \<noteq> 0" using pos by auto
        have "undoable si u sid base (op # dn) ?t s0"
          by (rule undoable_step [OF A un nb' nz]) (use S in \<open>auto simp: sem_simps\<close>)
        moreover have "sem_ops si u sid base (op # dn) ops ?t = (r, t)"
          using Cons.prems(2) pos False nb aoe by (auto simp: Let_def)
        ultimately show ?thesis by (rule Cons.IH)
      qed
    qed
  next
    case neg
    let ?v = "upd_sem ?k (\<lambda>p. p\<lparr>semval := semval p + sem_op op\<rparr>) s1"
    let ?t = "if semval (sem ?v ?k) = 0 then wake_z ?k ?v else ?v"
    show ?thesis
    proof (cases "- sem_op op \<le> semval (sem s ?k)")
      case False
      then show ?thesis using wait Cons.prems(2) neg by (auto simp: Let_def)
    next
      case True
      show ?thesis
      proof (cases b)
        case True': True
        then show ?thesis using bad Cons.prems(2) neg True aoe by (auto simp: Let_def)
      next
        case nb: False
        then have nb': "op_aoe si u sid op s = (False, s1)" using aoe by simp
        have nz: "sem_op op \<noteq> 0" using neg by auto
        have "undoable si u sid base (op # dn) ?t s0"
          by (rule undoable_step [OF A un nb' nz]) (use S in \<open>auto simp: sem_simps\<close>)
        moreover have "sem_ops si u sid base (op # dn) ops ?t = (r, t)"
          using Cons.prems(2) neg True nb aoe by (auto simp: Let_def)
        ultimately show ?thesis by (rule Cons.IH)
      qed
    qed
  next
    case zero
    show ?thesis
    proof (cases "semval (sem s ?k) = 0")
      case True
      have "undoable si u sid base (op # dn) s s0"
        using un zero by (auto simp: undoable_def flagged_def)
      moreover have "sem_ops si u sid base (op # dn) ops s = (r, t)"
        using Cons.prems(2) zero True by (auto simp: Let_def)
      ultimately show ?thesis by (rule Cons.IH)
    next
      case False
      then show ?thesis using wait Cons.prems(2) zero by (auto simp: Let_def)
    qed
  qed
qed

text \<open>What a list that succeeds does to a semaphore and to the adjustments.\<close>

definition ops_delta :: "nat \<Rightarrow> sembuf list \<Rightarrow> nat \<Rightarrow> u16" where
  "ops_delta base ops k = sum_list (map sem_op (filter (\<lambda>op. base + unat (sem_num op) = k) ops))"

definition undo_delta :: "sembuf list \<Rightarrow> u16 \<Rightarrow> u16" where
  "undo_delta ops num = sum_list (map sem_op
     (filter (\<lambda>op. sem_flg op AND SEM_UNDO \<noteq> 0 \<and> sem_num op = num) ops))"

definition vals_ok :: "seminfo \<Rightarrow> semst \<Rightarrow> bool" where
  "vals_ok si s \<longleftrightarrow> (\<forall>k. int (unat (semval (sem s k))) \<le> sint (semvmx si))"

lemma sem_op_step:
  assumes A: "aem_ok si" and ok: "undo_ok si s" and aoe: "op_aoe si u sid op s = (False, s1)"
    and t: "\<And>k. semval (sem t k) =
              (if k = base + unat (sem_num op) then semval (sem s k) + sem_op op else semval (sem s k))"
    and un: "semu t = semu s1" "sem_undo_tab t = sem_undo_tab s1" "semunp t = semunp s1" "semfup t = semfup s1"
  shows "undo_ok si t" "semval (sem t k) = semval (sem s k) + ops_delta base [op] k"
    "adjust t q (i, n) = (if q = u_procx u \<and> i = sid then adjust s q (i, n) - undo_delta [op] n else adjust s q (i, n))"
proof -
  have tc: "undo_ok si t = undo_ok si s1" "adjust t = adjust s1" using undo_ok_cong [OF un] by auto
  show "semval (sem t k) = semval (sem s k) + ops_delta base [op] k" using t by (simp add: ops_delta_def)
  have "undo_ok si s1 \<and> adjust s1 q (i, n) =
      (if q = u_procx u \<and> i = sid then adjust s q (i, n) - undo_delta [op] n else adjust s q (i, n))"
  proof (cases "sem_flg op AND SEM_UNDO = 0")
    case True then show ?thesis using aoe ok by (simp add: op_aoe_def undo_delta_def)
  next
    case False
    then have "semaoe si u (sem_op op) sid (sem_num op) s = (False, s1)" using aoe by (simp add: op_aoe_def)
    from semaoe_ok [OF ok A this] False show ?thesis by (simp add: undo_delta_def)
  qed
  then show "undo_ok si t"
    "adjust t q (i, n) = (if q = u_procx u \<and> i = sid then adjust s q (i, n) - undo_delta [op] n else adjust s q (i, n))"
    using tc by auto
qed

lemma delta_Cons:
  "ops_delta base (op # ops) k = ops_delta base [op] k + ops_delta base ops k"
  "undo_delta (op # ops) n = undo_delta [op] n + undo_delta ops n"
  by (simp_all add: ops_delta_def undo_delta_def)

lemma delta_zero: "sem_op op = 0 \<Longrightarrow> ops_delta base [op] k = 0 \<and> undo_delta [op] n = 0"
  by (simp add: ops_delta_def undo_delta_def)

lemma unat_add_sint:
  assumes "0 <s b" "int (unat a) + sint b < 32768" shows "unat (a + b) = unat a + unat (b :: u16)"
proof -
  have "sint b = int (unat b)" using assms(1) u16_lt [of b]
    by (auto simp: word_sless_alt sint16 simp del: of_nat_unat split: if_splits)
  then have "unat a + unat b < 65536" using assms(2) by (simp del: of_nat_unat)
  then show ?thesis by (simp add: unat_plus_small)
qed

lemma unat_sub_neg: "- b \<le> a \<Longrightarrow> unat (a + (b :: u16)) \<le> unat a"
  using unat_sub [of "- b" a] by simp

lemma sem_ops_effect:
  assumes A: "aem_ok si"
  shows "undo_ok si s \<Longrightarrow> sem_ops si u sid base dn ops s = (Pass_done, t) \<Longrightarrow>
     (\<forall>k. semval (sem t k) = semval (sem s k) + ops_delta base ops k) \<and>
     (\<forall>q i n. adjust t q (i, n) =
        (if q = u_procx u \<and> i = sid then adjust s q (i, n) - undo_delta ops n else adjust s q (i, n))) \<and>
     sema t = sema s \<and> semmap t = semmap s \<and> (vals_ok si s \<longrightarrow> vals_ok si t)"
proof (induction ops arbitrary: dn s)
  case Nil then show ?case by (auto simp: ops_delta_def undo_delta_def)
next
  case (Cons op ops)
  let ?k = "base + unat (sem_num op)"
  obtain b s1 where aoe: "op_aoe si u sid op s = (b, s1)" by fastforce
  note S = op_aoe_rest [OF Cons.prems(1) A aoe]
  have go: ?case if r: "sem_ops si u sid base (op # dn) ops v = (Pass_done, t)" and aoe': "\<not> b"
    and v: "\<And>k. semval (sem v k) = (if k = ?k then semval (sem s k) + sem_op op else semval (sem s k))"
    and un: "semu v = semu s1" "sem_undo_tab v = sem_undo_tab s1" "semunp v = semunp s1" "semfup v = semfup s1"
    and same: "sema v = sema s" "semmap v = semmap s" and vv: "vals_ok si s \<Longrightarrow> vals_ok si v" for v
  proof -
    have "op_aoe si u sid op s = (False, s1)" using aoe aoe' by simp
    note E = sem_op_step [OF A Cons.prems(1) this v un]
    from Cons.IH [OF E(1) r] E(2,3) same vv show ?thesis
      unfolding delta_Cons(1) [of base op ops] delta_Cons(2) [of op ops]
      by (auto simp: algebra_simps)
  qed
  consider (pos) "0 <s sem_op op" | (neg) "sem_op op <s 0" "\<not> 0 <s sem_op op" | (zero) "sem_op op = 0"
    using sless_linear [of 0 "sem_op op"] by (auto simp: word_sless_alt)
  then show ?case
  proof cases
    case pos
    let ?v = "wake_n ?k (upd_sem ?k (\<lambda>p. p\<lparr>semval := semval p + sem_op op\<rparr>) s1)"
    have c: "\<not> b" "sint (sem_op op) + int (unat (semval (sem s ?k))) \<le> sint (semvmx si)"
      "sem_ops si u sid base (op # dn) ops ?v = (Pass_done, t)"
      using Cons.prems(2) pos aoe by (auto simp: Let_def split: if_splits)
    have "sint (semvmx si) < 32768" using sint_lt [of "semvmx si"] by simp
    then have "unat (semval (sem s ?k) + sem_op op) = unat (semval (sem s ?k)) + unat (sem_op op)"
      using c(2) by (intro unat_add_sint [OF pos]) linarith
    moreover have "sint (sem_op op) = int (unat (sem_op op))"
      using pos u16_lt [of "sem_op op"] by (auto simp: word_sless_alt sint16 simp del: of_nat_unat split: if_splits)
    ultimately have "int (unat (semval (sem s ?k) + sem_op op)) \<le> sint (semvmx si)" using c(2) by linarith
    then have "vals_ok si s \<Longrightarrow> vals_ok si ?v" using S by (auto simp: vals_ok_def sem_simps simp del: of_nat_unat)
    then show ?thesis using S by (intro go [OF c(3,1)]) (auto simp: sem_simps)
  next
    case neg
    let ?w = "upd_sem ?k (\<lambda>p. p\<lparr>semval := semval p + sem_op op\<rparr>) s1"
    let ?v = "if semval (sem ?w ?k) = 0 then wake_z ?k ?w else ?w"
    have c: "- sem_op op \<le> semval (sem s ?k)" "\<not> b" "sem_ops si u sid base (op # dn) ops ?v = (Pass_done, t)"
      using Cons.prems(2) neg aoe sem_wait_like(3) [of op _ _ Pass_done] by (auto simp: Let_def split: if_splits)
    have "int (unat (semval (sem s ?k) + sem_op op)) \<le> int (unat (semval (sem s ?k)))"
      using unat_sub_neg [OF c(1)] by (simp del: of_nat_unat)
    then have "vals_ok si s \<Longrightarrow> int (unat (semval (sem s ?k) + sem_op op)) \<le> sint (semvmx si)"
      unfolding vals_ok_def by (rule order_trans) blast
    then have "vals_ok si s \<Longrightarrow> vals_ok si ?v" using S
      by (auto simp: vals_ok_def sem_simps simp del: of_nat_unat)
    then show ?thesis using S by (intro go [OF c(3,2)]) (auto simp: sem_simps)
  next
    case zero
    have c: "sem_ops si u sid base (op # dn) ops s = (Pass_done, t)"
      using Cons.prems(2) zero sem_wait_like(3) [of op _ _ Pass_done] by (auto simp: Let_def split: if_splits)
    from Cons.IH [OF Cons.prems(1) c] show ?thesis
      unfolding delta_Cons(1) [of base op ops] delta_Cons(2) [of op ops] by (simp add: delta_zero [OF zero])
  qed
qed

lemma foldl_pid:
  "semval (sem (foldl (\<lambda>s op. upd_sem (f op) (\<lambda>p. p\<lparr>sempid := v\<rparr>) s) s ops) k) = semval (sem s k)"
  "semu (foldl (\<lambda>s op. upd_sem (f op) (\<lambda>p. p\<lparr>sempid := v\<rparr>) s) s ops) = semu s"
  "sem_undo_tab (foldl (\<lambda>s op. upd_sem (f op) (\<lambda>p. p\<lparr>sempid := v\<rparr>) s) s ops) = sem_undo_tab s"
  "semunp (foldl (\<lambda>s op. upd_sem (f op) (\<lambda>p. p\<lparr>sempid := v\<rparr>) s) s ops) = semunp s"
  "semfup (foldl (\<lambda>s op. upd_sem (f op) (\<lambda>p. p\<lparr>sempid := v\<rparr>) s) s ops) = semfup s"
  "u_error (foldl (\<lambda>s op. upd_sem (f op) (\<lambda>p. p\<lparr>sempid := v\<rparr>) s) s ops) = u_error s"
  "sema (foldl (\<lambda>s op. upd_sem (f op) (\<lambda>p. p\<lparr>sempid := v\<rparr>) s) s ops) = sema s"
  by (induction ops arbitrary: s) (simp_all add: sem_simps)

lemma upd_sema_fields [sem_simps]:
  "sema (upd_sema i f s) = (sema s)(i := f (sema s i))" "sem (upd_sema i f s) = sem s"
  "semmap (upd_sema i f s) = semmap s" "semu (upd_sema i f s) = semu s" "semunp (upd_sema i f s) = semunp s"
  "semfup (upd_sema i f s) = semfup s" "sem_undo_tab (upd_sema i f s) = sem_undo_tab s"
  "u_error (upd_sema i f s) = u_error s"
  by (auto simp: upd_sema_def)

lemma undo_upd_sema [simp]: "undo_ok si (upd_sema i f s) = undo_ok si s" "adjust (upd_sema i f s) = adjust s"
  using undo_ok_cong [of "upd_sema i f s" s] by (simp_all add: sem_simps)

text \<open>One pass over the operations: all of them or none.\<close>

definition all_done :: "ucred \<Rightarrow> u16 \<Rightarrow> nat \<Rightarrow> sembuf list \<Rightarrow> semst \<Rightarrow> semst \<Rightarrow> bool" where
  "all_done u sid base ops s t \<longleftrightarrow>
     (\<forall>k. semval (sem t k) = semval (sem s k) + ops_delta base ops k) \<and>
     (\<forall>q i n. adjust t q (i, n) =
        (if q = u_procx u \<and> i = sid then adjust s q (i, n) - undo_delta ops n else adjust s q (i, n)))"

definition none_done :: "semst \<Rightarrow> semst \<Rightarrow> bool" where
  "none_done s t \<longleftrightarrow> (\<forall>k. semval (sem t k) = semval (sem s k)) \<and> adjust t = adjust s"

lemma semop_pass_atomic:
  assumes "aem_ok si" "undo_ok si s" "u_error s = None" and run: "semop_pass si u now sid i ops s = (res, t)"
  shows "undo_ok si t \<and> res \<noteq> Sem_wild \<and> (res \<noteq> Sem_return \<longrightarrow> u_error t = None) \<and>
     (if res = Sem_return \<and> u_error t = None then all_done u sid (sem_base (sema s i)) ops s t else none_done s t) \<and>
     (vals_ok si s \<longrightarrow> vals_ok si t)"
proof -
  obtain r v where o: "sem_ops si u sid (sem_base (sema s i)) [] ops s = (r, v)" by fastforce
  have "undoable si u sid (sem_base (sema s i)) [] s s"
    using assms by (simp add: undoable_def flagged_def)
  note U = sem_ops_undoable [OF assms(1) this o]
  show ?thesis
  proof (cases r)
    case Pass_done
    let ?p = "foldl (\<lambda>s op. upd_sem (sem_base (sema v i) + unat (sem_num op)) (\<lambda>p. p\<lparr>sempid := u_pid u\<rparr>) s) v ops"
    note E = sem_ops_effect [OF assms(1,2) o [unfolded Pass_done]]
    have sv: "sem_base (sema v i) = sem_base (sema s i)" using E by simp
    have t: "res = Sem_return" "t = upd_sema i (\<lambda>d. d\<lparr>sem_otime := now\<rparr>) ?p"
      using run o Pass_done sv by (auto simp: semop_pass_def Let_def)
    have p: "undo_ok si ?p = undo_ok si v \<and> adjust ?p = adjust v"
      by (rule undo_ok_cong) (simp_all add: foldl_pid)
    have "vals_ok si v \<Longrightarrow> vals_ok si t" unfolding vals_ok_def t(2) by (simp add: sem_simps foldl_pid)
    with t U E p Pass_done show ?thesis by (auto simp: all_done_def sem_simps foldl_pid)
  next
    case Pass_error
    then have "res = Sem_return" "t = v" using run o by (auto simp: semop_pass_def)
    then show ?thesis using U Pass_error by (auto simp: none_done_def like_def vals_ok_def)
  next
    case (Pass_sleep c)
    then have "res = Sem_asleep c" "t = v" using run o by (auto simp: semop_pass_def)
    then show ?thesis using U Pass_sleep by (auto simp: none_done_def like_def vals_ok_def)
  qed
qed

section \<open>Removing and applying adjustments\<close>

definition nums_ok :: "semst \<Rightarrow> bool" where
  "nums_ok s \<longleftrightarrow> (\<forall>x e. e \<in> set (un_ent (semu s x)) \<longrightarrow> \<not> un_num e <s 0)"

text \<open>\<open>clear_ents\<close> stops early, but on a sorted list it removes exactly what it should.\<close>

lemma sless_ult: "\<not> a <s 0 \<Longrightarrow> \<not> b <s 0 \<Longrightarrow> (a :: u16) <s b \<longleftrightarrow> a < b"
proof -
  assume "\<not> a <s 0" "\<not> b <s 0"
  then have "unat a < 32768" "unat b < 32768" by (simp_all add: sless0_u16)
  then show ?thesis by (simp add: word_sless_alt sint16 word_less_nat_alt del: of_nat_unat)
qed

lemma clear_ents_filter:
  assumes "sorted_wrt ent_less es" "\<forall>e. e \<in> set es \<longrightarrow> \<not> un_num e <s 0" "\<not> high <s 0"
  shows "clear_ents sid low high es =
     filter (\<lambda>e. \<not> (un_id e = sid \<and> low \<le> un_num e \<and> un_num e \<le> high)) es"
  using assms(1,2)
proof (induction es)
  case Nil then show ?case by simp
next
  case (Cons e es)
  have tail: "filter (\<lambda>e. \<not> (un_id e = sid \<and> low \<le> un_num e \<and> un_num e \<le> high)) es = es"
    if "\<And>f. f \<in> set es \<Longrightarrow> \<not> (un_id f = sid \<and> un_num f \<le> high)"
    using that by (auto simp: filter_id_conv)
  show ?case
  proof (cases "sid <s un_id e")
    case True
    have "un_id f \<noteq> sid" if "f \<in> set es" for f
      using Cons.prems(1) that True by (auto simp: ent_less_def word_sless_alt)
    then show ?thesis using True tail by auto
  next
    case False
    show ?thesis
    proof (cases "\<not> (un_id e <s sid \<or> un_num e < low) \<and> high < un_num e")
      case True
      then have ie: "un_id e = sid" using False sless_linear by blast
      have "\<not> (un_id f = sid \<and> un_num f \<le> high)" if f: "f \<in> set es" for f
      proof
        assume h: "un_id f = sid \<and> un_num f \<le> high"
        then have "un_num e <s un_num f" using Cons.prems(1) f ie by (auto simp: ent_less_def)
        then have "un_num e < un_num f" using Cons.prems(2) f sless_ult [of "un_num e" "un_num f"] by simp
        then show False using h True by (simp add: word_less_nat_alt word_le_nat_alt)
      qed
      then show ?thesis using False True tail ie by auto
    next
      case go: False
      then show ?thesis using False Cons sless_linear [of sid "un_id e"] by (auto simp: word_sless_alt)
    qed
  qed
qed

lemma aoe_fun_filter:
  "sorted_wrt ent_less es \<Longrightarrow>
   aoe_fun (filter (\<lambda>e. \<not> P (ent_key e)) es) k = (if P k then 0 else aoe_fun es k)"
  by (induction es) (auto simp: aoe_fun_none dest: ent_less_key)

lemma ents_ok_filter: "ents_ok si es \<Longrightarrow> ents_ok si (filter P es)"
  unfolding ents_ok_def by (auto simp: sorted_wrt_filter intro: order_trans [OF length_filter_le])

text \<open>The walk of \<open>semunrm\<close>: \<open>kp\<close> are the structures visited and kept.\<close>

lemma semunrm_loop_ok:
  "chain (un_next s) (semunp s) (kp @ xs) \<Longrightarrow> pp = (if kp = [] then None else Some (last kp)) \<Longrightarrow>
   path (un_next s) (semunp s) kp p \<Longrightarrow> length xs \<le> n \<Longrightarrow>
   t = semunrm_loop n sid low high pp p s \<Longrightarrow>
   (\<And>x. x \<in> set xs \<Longrightarrow> clear_ents sid low high (un_ent (semu s x)) = f x) \<Longrightarrow>
   chain (un_next t) (semunp t) (kp @ filter (\<lambda>x. f x \<noteq> []) xs) \<and>
   (\<forall>x. un_ent (semu t x) = (if x \<in> set xs then f x else un_ent (semu s x))) \<and>
   (\<forall>x. x \<notin> set (kp @ xs) \<longrightarrow> un_next t x = un_next s x) \<and>
   semfup t = semfup s \<and> sem_undo_tab t = sem_undo_tab s \<and> same_rest s t \<and> u_error t = u_error s"
proof (induction xs arbitrary: kp pp p s n)
  case Nil
  then have "p = None" by (metis append_Nil2 path_append path_end)
  then have "t = s" using Nil.prems(5) by (cases n) auto
  then show ?case using Nil.prems(1) by simp
next
  case (Cons x xs)
  note ch = Cons.prems(1)
  obtain m where n: "n = Suc m" "length xs \<le> m" using Cons.prems(4) by (cases n) auto
  have d: "x \<notin> set kp" "x \<notin> set xs" "set kp \<inter> set xs = {}" "distinct kp" using chain_distinct [OF ch] by auto
  have p: "p = Some x" using ch Cons.prems(3) by (metis path_append path.simps(2) path_end)
  let ?s1 = "upd_un x (\<lambda>y. y\<lparr>un_ent := f x\<rparr>) s"
  have s1: "upd_un x (\<lambda>y. y\<lparr>un_ent := clear_ents sid low high (un_ent y)\<rparr>) s = ?s1"
    using Cons.prems(6) [of x] by (simp add: upd_un_def)
  have n1: "un_next ?s1 = un_next s" by (auto simp: sem_simps un_next_eq fun_eq_iff)
  have np: "un_np (semu ?s1 x) = un_next s x" by (simp add: sem_simps un_next_eq)
  show ?case
  proof (cases "f x = []")
    case empty: True
    define s2 where "s2 = (if kp = [] then upd_un x (\<lambda>y. y\<lparr>un_np := None\<rparr>) (?s1\<lparr>semunp := un_next s x\<rparr>)
      else upd_un x (\<lambda>y. y\<lparr>un_np := None\<rparr>) (upd_un (last kp) (\<lambda>y. y\<lparr>un_np := un_next s x\<rparr>) ?s1))"
    have t: "t = semunrm_loop m sid low high pp (un_next s x) s2"
      using Cons.prems(2,5) n(1) p s1 np empty by (auto simp: s2_def Let_def sem_simps)
    have lk: "last kp \<noteq> x" if "kp \<noteq> []" using that d(1) by auto
    have nx2: "un_next s2 = (if kp = [] then (un_next s)(x := None) else (un_next s)(last kp := un_next s x, x := None))"
      using lk by (auto simp: s2_def sem_simps un_next_eq fun_eq_iff)
    have st2: "semunp s2 = (if kp = [] then un_next s x else semunp s)" "semfup s2 = semfup s"
      "sem_undo_tab s2 = sem_undo_tab s" "same_rest s s2" "u_error s2 = u_error s"
      "un_ent (semu s2 y) = (if y = x then [] else un_ent (semu s y))" for y
      using empty by (auto simp: s2_def sem_simps same_rest_def)
    have ch2: "chain (un_next s2) (semunp s2) (kp @ xs)"
      using chain_unlink [OF ch] d unfolding nx2 st2(1) by (cases "kp = []") auto
    have pa2: "path (un_next s2) (semunp s2) kp (un_next s x)"
    proof (cases kp rule: rev_cases)
      case (snoc ks k)
      then have "path (un_next s) (semunp s) ks (Some k)" using Cons.prems(3) by (auto simp: path_append)
      then show ?thesis using snoc d by (auto simp: nx2 st2(1) path_append)
    qed (simp add: st2)
    have "chain (un_next t) (semunp t) (kp @ filter (\<lambda>x. f x \<noteq> []) xs) \<and>
       (\<forall>x. un_ent (semu t x) = (if x \<in> set xs then f x else un_ent (semu s2 x))) \<and>
       (\<forall>x. x \<notin> set (kp @ xs) \<longrightarrow> un_next t x = un_next s2 x) \<and>
       semfup t = semfup s2 \<and> sem_undo_tab t = sem_undo_tab s2 \<and> same_rest s2 t \<and> u_error t = u_error s2"
      by (rule Cons.IH [OF ch2 Cons.prems(2) pa2 n(2) t])
        (use Cons.prems(6) d(2) in \<open>auto simp: st2(6)\<close>)
    moreover have "un_next s2 y = un_next s y" if "y \<notin> set (kp @ x # xs)" for y
      using that by (auto simp: nx2)
    ultimately show ?thesis using empty d(2) st2 by (auto intro: same_rest_trans)
  next
    case False
    have t: "t = semunrm_loop m sid low high (Some x) (un_next s x) ?s1"
      using Cons.prems(2,5) n(1) p s1 np False by (simp add: Let_def sem_simps un_next_eq)
    have "chain (un_next t) (semunp t) ((kp @ [x]) @ filter (\<lambda>x. f x \<noteq> []) xs) \<and>
       (\<forall>y. un_ent (semu t y) = (if y \<in> set xs then f y else un_ent (semu ?s1 y))) \<and>
       (\<forall>y. y \<notin> set ((kp @ [x]) @ xs) \<longrightarrow> un_next t y = un_next ?s1 y) \<and>
       semfup t = semfup ?s1 \<and> sem_undo_tab t = sem_undo_tab ?s1 \<and> same_rest ?s1 t \<and> u_error t = u_error ?s1"
    proof (rule Cons.IH [OF _ _ _ n(2) t])
      show "chain (un_next ?s1) (semunp ?s1) ((kp @ [x]) @ xs)" unfolding n1 using ch by (simp add: sem_simps)
      show "path (un_next ?s1) (semunp ?s1) (kp @ [x]) (un_next s x)"
        unfolding n1 using Cons.prems(3) p by (simp add: sem_simps path_append)
    qed (use Cons.prems(6) d(2) in \<open>auto simp: sem_simps\<close>)
    then show ?thesis using False d(2) n1
      by (auto simp: sem_simps same_rest_def)
  qed
qed

text \<open>\<open>semunrm\<close> on the level of adjustments.\<close>

lemma semunrm_ok:
  fixes sid low high :: u16
  assumes ok: "undo_ok si s" and nn: "nums_ok s" "\<not> high <s 0"
  defines "t \<equiv> semunrm si sid low high s"
  shows "undo_ok si t \<and> same_rest s t \<and> u_error t = u_error s \<and> nums_ok t \<and> sem_undo_tab t = sem_undo_tab s \<and>
     (\<forall>p i n. adjust t p (i, n) = (if i = sid \<and> low \<le> n \<and> n \<le> high then 0 else adjust s p (i, n)))"
proof -
  from ok obtain act fr where sh: "undo_shape si s act fr" by (auto simp: undo_ok_def)
  let ?P = "\<lambda>k. fst k = sid \<and> low \<le> snd k \<and> snd k \<le> high"
  define f where "f x = filter (\<lambda>e. \<not> ?P (ent_key e)) (un_ent (semu s x))" for x
  have eo: "ents_ok si (un_ent (semu s x))" for x using sh by (simp add: undo_shape_def)
  have cl: "clear_ents sid low high (un_ent (semu s x)) = f x" for x
    using clear_ents_filter [of "un_ent (semu s x)" high sid low] eo [of x] nn
    by (auto simp: f_def ents_ok_def nums_ok_def)
  have ch: "chain (un_next s) (semunp s) act" "set act \<subseteq> {..<semmnu si}" using sh by (auto simp: undo_shape_def)
  have L: "chain (un_next t) (semunp t) ([] @ filter (\<lambda>x. f x \<noteq> []) act) \<and>
     (\<forall>x. un_ent (semu t x) = (if x \<in> set act then f x else un_ent (semu s x))) \<and>
     (\<forall>x. x \<notin> set ([] @ act) \<longrightarrow> un_next t x = un_next s x) \<and>
     semfup t = semfup s \<and> sem_undo_tab t = sem_undo_tab s \<and> same_rest s t \<and> u_error t = u_error s"
    by (rule semunrm_loop_ok [where n = "semmnu si" and sid = sid and low = low and high = high and pp = None and p = "semunp s"])
      (use ch cl chain_length [OF ch] in \<open>auto simp: t_def semunrm_def\<close>)
  have fe: "f x = []" if "un_ent (semu s x) = []" for x using that by (simp add: f_def)
  have frc: "chain (un_next t) (semfup t) fr"
  proof -
    have "chain (un_next t) (semfup s) fr = chain (un_next s) (semfup s) fr"
      by (rule path_cong) (use L sh in \<open>auto simp: undo_shape_def\<close>)
    then show ?thesis using L sh by (simp add: undo_shape_def)
  qed
  have off: "un_ent (semu s x) = []" if "sem_undo_tab s p = Some x" "x \<notin> set act" for p x
    using sh that by (auto simp: undo_shape_def)
  have "undo_shape si t (filter (\<lambda>x. f x \<noteq> []) act) fr"
    using sh L frc eo fe off ents_ok_filter [OF eo] unfolding undo_shape_def
    by (auto simp: f_def [symmetric]) (auto simp: f_def)
  then have "undo_ok si t" by (auto simp: undo_ok_def)
  moreover have "adjust t p (i, n) = (if i = sid \<and> low \<le> n \<and> n \<le> high then 0 else adjust s p (i, n))" for p i n
  proof (cases "sem_undo_tab s p")
    case None then show ?thesis using L by (simp add: adjust_def)
  next
    case (Some x)
    have "un_ent (semu t x) = f x" using L off [OF Some] fe [of x] by auto
    then show ?thesis using Some L aoe_fun_filter [of "un_ent (semu s x)" ?P "(i, n)"] eo [of x]
      by (auto simp: adjust_def f_def ents_ok_def)
  qed
  moreover have "nums_ok t" using nn(1) L by (auto simp: nums_ok_def f_def split: if_splits)
  ultimately show ?thesis using L by simp
qed

text \<open>The semaphore an entry is about, when its set still exists.\<close>

definition target :: "seminfo \<Rightarrow> semst \<Rightarrow> undo \<Rightarrow> nat option" where
  "target si s e = (case semconv si (un_id e) s of
     Ret i \<Rightarrow> Some (sem_base (sema s i) + unat (un_num e)) | _ \<Rightarrow> None)"

definition adjusted :: "seminfo \<Rightarrow> u16 \<Rightarrow> u16 \<Rightarrow> u16" where
  "adjusted si v a = (let w = int (unat v) + sint a in
     if 0 \<le> w \<and> w \<le> sint (semvmx si) then word_of_int w else v)"

lemma wake_same [sem_simps]:
  "sem_undo_tab (wake_n k s) = sem_undo_tab s" "semval (sem (wake_n k s) j) = semval (sem s j)"
  by (simp_all add: sem_simps)

lemma target_cong: "sema t = sema s \<Longrightarrow> target si t = target si s"
  by (rule ext) (simp add: target_def semconv_def split: sysres.split)

lemma exit_ents_ok:
  "(\<And>e. e \<in> set es \<Longrightarrow> semconv si (un_id e) s \<noteq> Wild) \<Longrightarrow>
   \<exists>t. exit_ents si es s = Some t \<and> semu t = semu s \<and> sem_undo_tab t = sem_undo_tab s \<and>
     semunp t = semunp s \<and> semfup t = semfup s \<and> sema t = sema s \<and> semmap t = semmap s \<and>
     (vals_ok si s \<longrightarrow> vals_ok si t) \<and>
     (\<forall>k. (\<forall>e. e \<in> set es \<longrightarrow> target si s e \<noteq> Some k) \<longrightarrow> semval (sem t k) = semval (sem s k)) \<and>
     (distinct (map (target si s) (filter (\<lambda>e. target si s e \<noteq> None) es)) \<longrightarrow>
        (\<forall>e k. e \<in> set es \<and> target si s e = Some k \<longrightarrow>
           semval (sem t k) = adjusted si (semval (sem s k)) (un_aoe e)))"
proof (induction es arbitrary: s)
  case Nil then show ?case by simp
next
  case (Cons e es)
  have nw: "semconv si (un_id e) s \<noteq> Wild" using Cons.prems by simp
  show ?case
  proof (cases "target si s e")
    case None
    then obtain er where f: "semconv si (un_id e) s = Fail er"
      using nw by (auto simp: target_def split: sysres.splits)
    let ?s = "set_err EINVAL s"
    have tg: "target si ?s = target si s" by (rule target_cong) (simp add: sem_simps)
    have nw': "semconv si (un_id g) ?s \<noteq> Wild" if "g \<in> set es" for g
      using Cons.prems that by (simp add: semconv_def sem_simps)
    from Cons.IH [OF nw'] obtain t where t: "exit_ents si es ?s = Some t" "semu t = semu ?s" "sem_undo_tab t = sem_undo_tab ?s"
      "semunp t = semunp ?s" "semfup t = semfup ?s" "sema t = sema ?s" "semmap t = semmap ?s"
      "vals_ok si ?s \<longrightarrow> vals_ok si t"
      "\<forall>k. (\<forall>e. e \<in> set es \<longrightarrow> target si ?s e \<noteq> Some k) \<longrightarrow> semval (sem t k) = semval (sem ?s k)"
      "distinct (map (target si ?s) (filter (\<lambda>e. target si ?s e \<noteq> None) es)) \<longrightarrow>
        (\<forall>e k. e \<in> set es \<and> target si ?s e = Some k \<longrightarrow>
           semval (sem t k) = adjusted si (semval (sem ?s k)) (un_aoe e))"
      by blast
    have "exit_ents si (e # es) s = Some t" using f t(1) by simp
    then show ?thesis using t(2-) None unfolding tg by (intro exI [of _ t]) (auto simp: sem_simps vals_ok_def)
  next
    case (Some k)
    then obtain i where i: "semconv si (un_id e) s = Ret i" "k = sem_base (sema s i) + unat (un_num e)"
      by (auto simp: target_def split: sysres.splits)
    let ?v = "int (unat (semval (sem s k))) + sint (un_aoe e)"
    define s1 where "s1 = (if ?v < 0 \<or> sint (semvmx si) < ?v then s
      else (let s = upd_sem k (\<lambda>p. p\<lparr>semval := word_of_int ?v\<rparr>) s;
                s = (if ?v = 0 then wake_z k s else s)
            in if 0 <s un_aoe e then wake_n k s else s))"
    have run: "exit_ents si (e # es) s = exit_ents si es s1"
      using i by (auto simp: s1_def Let_def)
    have val: "semval (sem s1 j) = (if j = k then adjusted si (semval (sem s k)) (un_aoe e) else semval (sem s j))" for j
      by (auto simp: s1_def adjusted_def Let_def sem_simps)
    have fr: "semu s1 = semu s" "sem_undo_tab s1 = sem_undo_tab s" "semunp s1 = semunp s" "semfup s1 = semfup s"
      "sema s1 = sema s" "semmap s1 = semmap s"
      by (auto simp: s1_def Let_def sem_simps)
    have "int (unat (adjusted si w a)) \<le> sint (semvmx si)" if "int (unat w) \<le> sint (semvmx si)" for w a
    proof -
      have "sint (semvmx si) < 32768" using sint_lt [of "semvmx si"] by simp
      then have wi: "uint (word_of_int x :: u16) = x" if "0 \<le> x" "x \<le> sint (semvmx si)" for x
        using that by (simp add: unsigned_of_int take_bit_int_eq_self)
      show ?thesis
      proof (cases "0 \<le> int (unat w) + sint a \<and> int (unat w) + sint a \<le> sint (semvmx si)")
        case True
        then have "adjusted si w a = word_of_int (int (unat w) + sint a)"
          unfolding adjusted_def Let_def by (simp only: if_True simp_thms)
        then have "uint (adjusted si w a) = int (unat w) + sint a" using wi True by (simp only:)
        then show ?thesis using True by simp
      next
        case False
        then have "adjusted si w a = w" unfolding adjusted_def Let_def by (simp only: if_False simp_thms)
        then show ?thesis using that by simp
      qed
    qed
    then have vo: "vals_ok si s \<longrightarrow> vals_ok si s1" using val by (simp add: vals_ok_def)
    have tg: "target si s1 = target si s" by (rule target_cong) (rule fr(5))
    have nw': "semconv si (un_id g) s1 \<noteq> Wild" if "g \<in> set es" for g
      using Cons.prems that by (simp add: semconv_def fr)
    from Cons.IH [OF nw'] obtain t where t: "exit_ents si es s1 = Some t" "semu t = semu s1" "sem_undo_tab t = sem_undo_tab s1"
      "semunp t = semunp s1" "semfup t = semfup s1" "sema t = sema s1" "semmap t = semmap s1"
      "vals_ok si s1 \<longrightarrow> vals_ok si t"
      "\<forall>k. (\<forall>e. e \<in> set es \<longrightarrow> target si s1 e \<noteq> Some k) \<longrightarrow> semval (sem t k) = semval (sem s1 k)"
      "distinct (map (target si s1) (filter (\<lambda>e. target si s1 e \<noteq> None) es)) \<longrightarrow>
        (\<forall>e k. e \<in> set es \<and> target si s1 e = Some k \<longrightarrow>
           semval (sem t k) = adjusted si (semval (sem s1 k)) (un_aoe e))"
      by blast
    have far: "\<forall>j. (\<forall>g. g \<in> set (e # es) \<longrightarrow> target si s g \<noteq> Some j) \<longrightarrow> semval (sem t j) = semval (sem s j)"
      using t(9) val Some unfolding tg by auto
    have "semval (sem t j) = adjusted si (semval (sem s j)) (un_aoe g)"
      if ds: "distinct (map (target si s) (filter (\<lambda>e. target si s e \<noteq> None) (e # es)))"
        and g: "g \<in> set (e # es)" "target si s g = Some j" for g j
    proof (cases "g = e")
      case True
      then have "j = k" using g Some by simp
      moreover have "target si s h \<noteq> Some k" if "h \<in> set es" for h
        using ds that Some by (force simp: image_iff)
      ultimately show ?thesis using t(9) val True unfolding tg by auto
    next
      case False
      then have "g \<in> set es" using g by simp
      moreover have "j \<noteq> k" using ds \<open>g \<in> set es\<close> g(2) Some by (force simp: image_iff)
      ultimately show ?thesis using t(10) ds Some val g(2) unfolding tg by auto
    qed
    then show ?thesis using run t(1-8) far vo fr by (intro exI [of _ t]) simp
  qed
qed

lemma semexit_ok:
  assumes ok: "undo_ok si s" and up: "sem_undo_tab s (u_procx u) = Some up"
    and nw: "\<And>e. e \<in> set (un_ent (semu s up)) \<Longrightarrow> semconv si (un_id e) s \<noteq> Wild"
  shows "\<exists>t. semexit si u s = Some t \<and> undo_ok si t \<and> adjust t = (adjust s)(u_procx u := (\<lambda>_. 0)) \<and>
     sem_undo_tab t (u_procx u) = None \<and> sema t = sema s \<and> semmap t = semmap s \<and>
     (vals_ok si s \<longrightarrow> vals_ok si t) \<and>
     (\<forall>k. (\<forall>e. e \<in> set (un_ent (semu s up)) \<longrightarrow> target si s e \<noteq> Some k) \<longrightarrow> semval (sem t k) = semval (sem s k)) \<and>
     (distinct (map (target si s) (filter (\<lambda>e. target si s e \<noteq> None) (un_ent (semu s up)))) \<longrightarrow>
        (\<forall>e k. e \<in> set (un_ent (semu s up)) \<and> target si s e = Some k \<longrightarrow>
           semval (sem t k) = adjusted si (semval (sem s k)) (un_aoe e)))"
proof -
  let ?es = "un_ent (semu s up)" and ?p = "u_procx u"
  from ok obtain act fr where sh: "undo_shape si s act fr" by (auto simp: undo_ok_def)
  have upx: "up < semmnu si" "up \<notin> set fr" "up \<in> set act \<longleftrightarrow> ?es \<noteq> []"
    "\<And>q. sem_undo_tab s q = Some up \<Longrightarrow> q = ?p"
    using sh up by (auto simp: undo_shape_def)
  from exit_ents_ok [of "rev ?es" si s] nw obtain v where
    v: "exit_ents si (rev ?es) s = Some v" "semu v = semu s" "sem_undo_tab v = sem_undo_tab s"
      "semunp v = semunp s" "semfup v = semfup s" "sema v = sema s" "semmap v = semmap s"
      "vals_ok si s \<longrightarrow> vals_ok si v"
      "\<forall>k. (\<forall>e. e \<in> set ?es \<longrightarrow> target si s e \<noteq> Some k) \<longrightarrow> semval (sem v k) = semval (sem s k)"
      "distinct (map (target si s) (filter (\<lambda>e. target si s e \<noteq> None) (rev ?es))) \<longrightarrow>
        (\<forall>e k. e \<in> set ?es \<and> target si s e = Some k \<longrightarrow>
           semval (sem v k) = adjusted si (semval (sem s k)) (un_aoe e))"
    by auto
  define w where "w = (if ?es = [] then v else undo_unlink si up (upd_un up (\<lambda>y. y\<lparr>un_ent := []\<rparr>) v))"
  have v0: "?es = [] \<Longrightarrow> v = s" using v(1) by simp
  define z where "z = (upd_un up (\<lambda>y. y\<lparr>un_np := semfup w\<rparr>) w)
      \<lparr>semfup := Some up, sem_undo_tab := (sem_undo_tab w)(?p := None)\<rparr>"
  have run: "semexit si u s = Some z"
    using up v(1) v0 by (auto simp: z_def semexit_def w_def Let_def sem_simps upd_un_def)
  define x where "x = upd_un up (\<lambda>y. y\<lparr>un_np := None\<rparr>) w"
  let ?act = "remove1 up act"
  have chs: "chain (un_next s) (semunp s) act" "chain (un_next s) (semfup s) fr" "set act \<inter> set fr = {}"
    "set act \<union> set fr \<subseteq> {..<semmnu si}" using sh by (auto simp: undo_shape_def)
  have nv: "un_next v = un_next s" by (simp add: un_next_def v)
  have X: "chain (un_next x) (semunp x) ?act \<and> chain (un_next x) (semfup x) fr \<and>
      (\<forall>y. un_ent (semu x y) = (if y = up then [] else un_ent (semu s y))) \<and> sem_undo_tab x = sem_undo_tab s \<and>
      sem x = sem v \<and> sema x = sema s \<and> semmap x = semmap s \<and> semfup x = semfup s"
  proof (cases "?es = []")
    case True
    then have "up \<notin> set act" using upx by simp
    then show ?thesis using True v0 chs upx(2) by (auto simp: x_def w_def sem_simps remove1_idem)
  next
    case False
    let ?y = "upd_un up (\<lambda>y. y\<lparr>un_ent := []\<rparr>) v"
    have y: "un_next ?y = un_next s" "semunp ?y = semunp s" "semfup ?y = semfup s"
      using nv v by (auto simp: sem_simps un_next_eq fun_eq_iff)
    have "up \<in> set act" using upx False by simp
    note U = undo_unlink_ok [of ?y act fr si up, unfolded y, OF chs this]
    have "x = upd_un up (\<lambda>y. y\<lparr>un_np := None\<rparr>) (undo_unlink si up ?y)" using False by (simp add: x_def w_def)
    then show ?thesis using U v by (simp add: sem_simps same_rest_def)
  qed
  have tx: "un_next z = (un_next x)(up := semfup x)" "semunp z = semunp x" "semfup z = Some up"
    "sem_undo_tab z = (sem_undo_tab s)(?p := None)"
    "sem z = sem v" "sema z = sema s" "semmap z = semmap s"
    using X by (auto simp: z_def x_def sem_simps fun_eq_iff un_next_eq)
  have te: "un_ent (semu z y) = un_ent (semu x y)" for y by (simp add: z_def x_def sem_simps)
  have da: "up \<notin> set ?act" "set ?act = set act - {up}" using chain_distinct [OF chs(1)] by auto
  have rn: "set ?act \<subseteq> ran ((sem_undo_tab s)(?p := None))"
  proof
    fix y assume "y \<in> set ?act"
    then have "y \<in> set act" "y \<noteq> up" using da by auto
    then obtain q where "sem_undo_tab s q = Some y" using sh by (auto simp: undo_shape_def ran_def)
    then show "y \<in> ran ((sem_undo_tab s)(?p := None))" using \<open>y \<noteq> up\<close> up by (intro ranI [of _ q]) auto
  qed
  have c1: "chain (un_next z) (semunp z) ?act" unfolding tx using X da by simp
  have c2: "chain (un_next z) (semfup z) (up # fr)" unfolding tx using X upx(2) by auto
  have e0: "ents_ok si []" by (simp add: ents_ok_def)
  have "undo_shape si z ?act (up # fr)"
    unfolding undo_shape_def
  proof (intro conjI)
    show "set ?act \<inter> set (up # fr) = {}" "set ?act \<union> set (up # fr) \<subseteq> {..<semmnu si}"
      using chs(3,4) da upx(1) by auto
    show "set ?act \<subseteq> ran (sem_undo_tab z)" using rn tx by simp
    show "\<forall>x. ents_ok si (un_ent (semu z x))" "\<forall>x. x \<in> set (up # fr) \<longrightarrow> un_ent (semu z x) = []"
      using sh X e0 by (auto simp: undo_shape_def te)
    show "\<forall>p q x. sem_undo_tab z p = Some x \<and> sem_undo_tab z q = Some x \<longrightarrow> p = q"
      using sh by (auto simp: undo_shape_def tx)
    show "\<forall>p x. sem_undo_tab z p = Some x \<longrightarrow> x < semmnu si \<and> x \<notin> set (up # fr) \<and>
        (x \<in> set ?act) = (un_ent (semu z x) \<noteq> [])"
      using sh X da upx(4) by (auto simp: undo_shape_def tx te)
  qed (rule c1, rule c2)
  then have "undo_ok si z" by (auto simp: undo_ok_def)
  moreover have "adjust z = (adjust s)(?p := (\<lambda>_. 0))"
  proof
    fix q show "adjust z q = ((adjust s)(?p := (\<lambda>_. 0))) q"
      using X upx(4) [of q] by (cases "sem_undo_tab s q") (auto simp: adjust_def tx te)
  qed
  moreover have "vals_ok si s \<longrightarrow> vals_ok si z" using v(8) by (simp add: vals_ok_def tx)
  moreover have "distinct (map (target si s) (filter (\<lambda>e. target si s e \<noteq> None) (rev ?es))) =
      distinct (map (target si s) (filter (\<lambda>e. target si s e \<noteq> None) ?es))"
    by (simp add: rev_filter [symmetric] rev_map [symmetric])
  ultimately show ?thesis using run v(9,10) tx by (intro exI [of _ z]) simp
qed

section \<open>The sets and their map\<close>

definition set_units :: "semid_ds \<Rightarrow> nat set" where
  "set_units d = {sem_base d + 1 ..< sem_base d + 1 + unat (sem_nsems d)}"

abbreviation live_set :: "semst \<Rightarrow> nat \<Rightarrow> bool" where
  "live_set s i \<equiv> allocated (sem_perm (sema s i))"

text \<open>The sets in use have semaphores, of which none is free and none belongs to another set.\<close>

definition sets_ok :: "seminfo \<Rightarrow> semst \<Rightarrow> bool" where
  "sets_ok si s \<longleftrightarrow> map_ok (semmap s) \<and>
     (\<forall>i. i < unat (semmni si) \<and> live_set s i \<longrightarrow>
        sem_nsems (sema s i) \<noteq> 0 \<and> sem_base (sema s i) + 1 + unat (sem_nsems (sema s i)) < 65536 \<and>
        set_units (sema s i) \<inter> free_units (semmap s) = {}) \<and>
     (\<forall>i j. i < unat (semmni si) \<and> j < unat (semmni si) \<and> i \<noteq> j \<and> live_set s i \<and> live_set s j \<longrightarrow>
        set_units (sema s i) \<inter> set_units (sema s j) = {})"

lemma run_set_units:
  "sem_base d + 1 + unat (sem_nsems d) < 65536 \<Longrightarrow> run (of_nat (sem_base d) + 1) (sem_nsems d) = set_units d"
proof -
  assume "sem_base d + 1 + unat (sem_nsems d) < 65536"
  then have "unat (of_nat (sem_base d + 1) :: u16) = sem_base d + 1" by (simp only: unat_of_nat16)
  then show ?thesis by (simp add: run_def set_units_def add.commute)
qed

lemma sets_ok_cong:
  assumes "semmap t = semmap s"
    and "\<And>i. i < unat (semmni si) \<Longrightarrow> live_set t i = live_set s i \<and>
           sem_base (sema t i) = sem_base (sema s i) \<and> sem_nsems (sema t i) = sem_nsems (sema s i)"
  shows "sets_ok si t = sets_ok si s"
proof -
  have "i < unat (semmni si) \<Longrightarrow> set_units (sema t i) = set_units (sema s i)" for i
    using assms(2) by (simp add: set_units_def)
  then show ?thesis using assms unfolding sets_ok_def by (simp cong: conj_cong imp_cong)
qed

text \<open>A slot that stops being in use, or never was.\<close>

lemma sets_ok_drop:
  assumes "sets_ok si s" "map_ok (semmap t)" "free_units (semmap t) \<subseteq> free_units (semmap s) \<union> U"
    and "\<And>j. j \<noteq> i \<Longrightarrow> sema t j = sema s j" "\<not> live_set t i"
    and "\<And>j. j < unat (semmni si) \<Longrightarrow> j \<noteq> i \<Longrightarrow> live_set s j \<Longrightarrow> set_units (sema s j) \<inter> U = {}"
  shows "sets_ok si t"
  unfolding sets_ok_def
proof (intro conjI allI impI)
  fix j assume j: "j < unat (semmni si) \<and> live_set t j"
  then have "j \<noteq> i" using assms(5) by auto
  then have e: "sema t j = sema s j" "live_set s j" using assms(4) j by auto
  show "sem_nsems (sema t j) \<noteq> 0" "sem_base (sema t j) + 1 + unat (sem_nsems (sema t j)) < 65536"
    using e j assms(1) by (auto simp: sets_ok_def)
  have "set_units (sema s j) \<inter> free_units (semmap s) = {}" "set_units (sema s j) \<inter> U = {}"
    using e j assms(1,6) \<open>j \<noteq> i\<close> by (auto simp: sets_ok_def)
  then show "set_units (sema t j) \<inter> free_units (semmap t) = {}" using e assms(3) by auto
next
  fix j k assume jk: "j < unat (semmni si) \<and> k < unat (semmni si) \<and> j \<noteq> k \<and> live_set t j \<and> live_set t k"
  then have "j \<noteq> i" "k \<noteq> i" using assms(5) by auto
  then show "set_units (sema t j) \<inter> set_units (sema t k) = {}"
    using jk assms(1,4) by (auto simp: sets_ok_def)
qed (rule assms(2))

lemma semget_sets:
  assumes ok: "sets_ok si s" and run: "semget si u now k nsems flag s = (r, t)"
  shows "r \<noteq> Wild \<and> sets_ok si t \<and>
     (\<forall>x. r = Ret x \<longrightarrow> (\<exists>i. i < unat (semmni si) \<and> live_set t i \<and> key (sem_perm (sema t i)) = k \<and>
        x = ipc_id (semmni si) (seq (sem_perm (sema t i))) i \<and> nsems \<le> sem_nsems (sema t i)))"
proof -
  let ?base = "\<lambda>i. sem_perm (sema s i)"
  show ?thesis
  proof (cases "ipcget u k flag ?base (unat (semmni si))")
    case (Inl e) then show ?thesis using run ok by (auto simp: semget_def)
  next
    case (Inr inp)
    obtain i new p where g: "ipcget u k flag ?base (unat (semmni si)) = Inr (i, new, p)"
      using Inr by (cases inp) auto
    note G = ipcget_slot [OF g]
    let ?s1 = "upd_sema i (\<lambda>d. d\<lparr>sem_perm := p\<rparr>) s"
    show ?thesis
    proof (cases new)
      case False
      then have p: "p = ?base i" "live_set s i" using G by auto
      have "sema ?s1 = sema s" using p by (simp add: sem_simps fun_eq_iff)
      then have "sets_ok si ?s1" using ok sets_ok_cong [of ?s1 s si] by (simp add: sem_simps)
      moreover have "(r, t) = (if nsems \<noteq> 0 \<and> sem_nsems (sema s i) < nsems then Fail EINVAL
          else Ret (ipc_id (semmni si) (seq p) i), ?s1)"
        using run g False by (auto simp: semget_def Let_def sem_simps)
      ultimately show ?thesis using G p by (auto simp: sem_simps split: if_splits intro!: exI [of _ i])
    next
      case True
      then have nl: "\<not> live_set s i" using G by auto
      have unset: "sets_ok si v" if "sema v = (sema s)(i := d)" "\<not> allocated (sem_perm d)" "semmap v = semmap s" for v d
        by (rule sets_ok_drop [OF ok, where i = i and U = "{}"]) (use ok that in \<open>auto simp: sets_ok_def\<close>)
      show ?thesis
      proof (cases "nsems \<le>s 0 \<or> semmsl si <s nsems")
        case True
        then have "r = Fail EINVAL" "t = upd_sema i (\<lambda>d. d\<lparr>sem_perm := (sem_perm d)\<lparr>mode := 0\<rparr>\<rparr>) ?s1"
          using run g \<open>new\<close> by (auto simp: semget_def Let_def)
        then show ?thesis using unset [of t] by (simp add: sem_simps)
      next
        case False
        then have n0: "nsems \<noteq> 0" by (auto simp: word_sle_eq)
        have mo: "map_ok (semmap s)" using ok by (simp add: sets_ok_def)
        from kmap.get_law [OF mo n0] obtain a m where m: "malloc (semmap s) nsems = Some (a, m)" "map_ok m"
          "if a = 0 then m = semmap s else unat a + unat nsems < 65536 \<and> run a nsems \<subseteq> free_units (semmap s) \<and>
             free_units m = free_units (semmap s) - run a nsems" by blast
        show ?thesis
        proof (cases "a = 0")
          case True
          then have "r = Fail ENOSPC" "t = upd_sema i (\<lambda>d. d\<lparr>sem_perm := (sem_perm d)\<lparr>mode := 0\<rparr>\<rparr>) (?s1\<lparr>semmap := m\<rparr>)"
            using run g \<open>new\<close> False m by (auto simp: semget_def Let_def sem_simps)
          then show ?thesis using unset [of t] True m by (simp add: sem_simps)
        next
          case a0: False
          let ?d = "(sema s i)\<lparr>sem_perm := p, sem_base := unat a - 1, sem_nsems := nsems, sem_ctime := now\<rparr>"
          have t: "r = Ret (ipc_id (semmni si) (seq p) i)" "sema t = (sema s)(i := ?d)" "semmap t = m"
            using run g \<open>new\<close> False m a0 by (auto simp: semget_def Let_def sem_simps)
          have "0 < unat a" using a0 by (simp add: unat_gt_0)
          then have su: "set_units ?d = run a nsems" by (simp add: set_units_def run_def)
          have fresh: "set_units (sema s j) \<inter> run a nsems = {}" if "j < unat (semmni si)" "live_set s j" for j
          proof -
            have "set_units (sema s j) \<inter> free_units (semmap s) = {}" using ok that by (auto simp: sets_ok_def)
            then show ?thesis using m(3) a0 by auto
          qed
          have "sets_ok si t"
            using ok m a0 su fresh \<open>0 < unat a\<close> n0 unfolding sets_ok_def t by (auto split: if_splits)
          then show ?thesis using G t by (auto intro!: exI [of _ i])
        qed
      qed
    qed
  qed
qed

lemma sem_clear_fields:
  "semmap (sem_clear ks s) = semmap s \<and> sema (sem_clear ks s) = sema s \<and> semu (sem_clear ks s) = semu s \<and>
   sem_undo_tab (sem_clear ks s) = sem_undo_tab s \<and> semunp (sem_clear ks s) = semunp s \<and>
   semfup (sem_clear ks s) = semfup s \<and>
   (\<forall>k. k \<notin> set ks \<longrightarrow> sem (sem_clear ks s) k = sem s k) \<and>
   (\<forall>k. k \<in> set ks \<longrightarrow> sem (sem_clear ks s) k = \<lparr>semval = 0, sempid = 0, semncnt = 0, semzcnt = 0\<rparr>)"
proof (induction ks arbitrary: s)
  case Nil then show ?case by simp
next
  case (Cons k ks)
  let ?s = "wake_z k (wake_n k (upd_sem k (\<lambda>p. p\<lparr>semval := 0, sempid := 0\<rparr>) s))"
  have k: "sem ?s k = \<lparr>semval = 0, sempid = 0, semncnt = 0, semzcnt = 0\<rparr>" "j \<noteq> k \<Longrightarrow> sem ?s j = sem s j" for j
    by (auto simp: wake_z_def wake_n_def sem_wakeup_def upd_sem_def)
  show ?case using Cons.IH [of ?s] k by (auto simp: sem_simps)
qed

lemma semconv_iff:
  assumes "seq_ok (unat (semmni si)) (\<lambda>i. sem_perm (sema s i))" "\<not> sid <s 0"
  shows "semconv si sid s = Ret i \<longleftrightarrow> i < unat (semmni si) \<and> live_set s i \<and>
     sid = ipc_id (semmni si) (seq (sem_perm (sema s i))) i"
  using ipc_conv_id [OF assms, of 0 i] by (simp add: semconv_def)

lemma sem_rmid_ok:
  assumes ok: "undo_ok si s" "nums_ok s" "sets_ok si s" "seq_ok (unat (semmni si)) (\<lambda>i. sem_perm (sema s i))"
    and id: "\<not> sid <s 0" "semconv si sid s = Ret i" and own: "may_change u (sem_perm (sema s i))"
    and nn: "\<not> sem_nsems (sema s i) <s 0" and run: "sem_rmid si u sid i s = (r, t)"
  shows "r = Ret (R_val 0) \<and> semconv si sid t = Fail EINVAL \<and> undo_ok si t \<and> sets_ok si t \<and>
     seq_ok (unat (semmni si)) (\<lambda>i. sem_perm (sema t i)) \<and>
     (\<forall>p n. n \<le> sem_nsems (sema s i) \<longrightarrow> adjust t p (sid, n) = 0) \<and>
     (\<forall>k \<in> set (sem_range (sema s i)). sem t k = \<lparr>semval = 0, sempid = 0, semncnt = 0, semzcnt = 0\<rparr>)"
proof -
  let ?n = "unat (semmni si)" and ?d = "sema s i"
  have c: "i < ?n" "live_set s i" "sid = ipc_id (semmni si) (seq (sem_perm ?d)) i"
    using semconv_iff [OF ok(4) id(1), of i] id(2) by auto
  have d: "sem_nsems ?d \<noteq> 0" "sem_base ?d + 1 + unat (sem_nsems ?d) < 65536"
    "set_units ?d \<inter> free_units (semmap s) = {}" "map_ok (semmap s)" using ok(3) c by (auto simp: sets_ok_def)
  define v where "v = sem_clear (sem_range ?d) (semunrm si sid 0 (sem_nsems ?d) s)"
  note R = semunrm_ok [OF ok(1,2) nn, of sid 0]
  note C = sem_clear_fields [of "sem_range ?d" "semunrm si sid 0 (sem_nsems ?d) s", folded v_def]
  have v: "semmap v = semmap s" "sema v = sema s" using C R by (auto simp: same_rest_def)
  have ov: "undo_ok si v" "adjust v = adjust (semunrm si sid 0 (sem_nsems ?d) s)"
    using undo_ok_cong [of v "semunrm si sid 0 (sem_nsems ?d) s" si] C R by auto
  have rs: "run (of_nat (sem_base ?d) + 1) (sem_nsems ?d) = set_units ?d" by (rule run_set_units [OF d(2)])
  have u: "unat (of_nat (sem_base ?d + 1) :: u16) = sem_base ?d + 1" using d(2) by (simp only: unat_of_nat16)
  then have e: "unat (of_nat (sem_base ?d) + 1 :: u16) = sem_base ?d + 1" by (simp add: add.commute)
  have a: "(of_nat (sem_base ?d) + 1 :: u16) \<noteq> 0" "unat (of_nat (sem_base ?d) + 1 :: u16) + unat (sem_nsems ?d) < 65536"
  proof
    assume "(of_nat (sem_base ?d) + 1 :: u16) = 0"
    with e show False by (simp only: unat_0)
  qed (simp only: e d(2))
  have "run (of_nat (sem_base ?d) + 1) (sem_nsems ?d) \<inter> free_units (semmap s) = {}" using rs d(3) by (simp only:)
  from kmap.put_law [OF d(4,1) a this] obtain m ev where
    m: "mfree (semmap s) (sem_nsems ?d) (of_nat (sem_base ?d) + 1) = Some (m, ev)" "map_ok m"
      "if ev = Map_overflow then m = semmap s else free_units m = free_units (semmap s) \<union> set_units ?d"
    unfolding rs by blast
  let ?q = "ipc_bump (semmni si) sid (seq (sem_perm ?d))"
  have t: "r = Ret (R_val 0)" "t = upd_sema i (\<lambda>d. d\<lparr>sem_perm := (sem_perm d)\<lparr>
      seq := ipc_bump (semmni si) sid (seq (sem_perm d)), mode := 0\<rparr>\<rparr>) (v\<lparr>semmap := m\<rparr>)"
    using run own m(1) v by (auto simp: sem_rmid_def Let_def v_def [symmetric])
  have td: "sema t = (sema s)(i := ?d\<lparr>sem_perm := (sem_perm ?d)\<lparr>seq := ?q, mode := 0\<rparr>\<rparr>)"
    using v by (simp add: t sem_simps)
  have sq: "seq_ok ?n (\<lambda>i. sem_perm (sema t i))"
    using ok(4) ipc_bump_ok(1) [OF ok(4) c(1)] c(3) unfolding seq_ok_def td by auto
  have "sets_ok si t"
  proof (rule sets_ok_drop [OF ok(3), where i = i and U = "set_units ?d"])
    show "map_ok (semmap t)" "free_units (semmap t) \<subseteq> free_units (semmap s) \<union> set_units ?d"
      using m(2,3) by (auto simp: t sem_simps split: if_splits)
    show "set_units (sema s j) \<inter> set_units ?d = {}" if "j < ?n" "j \<noteq> i" "live_set s j" for j
      using ok(3) that c by (auto simp: sets_ok_def)
  qed (simp_all add: td)
  moreover have "semconv si sid t = Fail EINVAL"
  proof -
    have "semconv si sid t \<noteq> Ret j" for j
    proof
      assume "semconv si sid t = Ret j"
      then have j: "j < ?n" "live_set t j" "sid = ipc_id (semmni si) (seq (sem_perm (sema t j))) j"
        using semconv_iff [OF sq id(1), of j] by auto
      have "\<not> live_set t i" by (simp add: td)
      then have "j \<noteq> i" using j(2) by metis
      then have "sema t j = sema s j" by (simp add: td)
      then have "semconv si sid s = Ret j"
        unfolding semconv_iff [OF ok(4) id(1)] using j by (simp only:) simp
      then show False using id(2) \<open>j \<noteq> i\<close> by (simp only: sysres.inject)
    qed
    moreover have "semconv si sid t \<noteq> Wild" using id(1) by (simp add: semconv_def ipc_conv_def Let_def)
    ultimately show ?thesis by (auto simp: semconv_def ipc_conv_def Let_def split: if_splits)
  qed
  moreover have ot: "undo_ok si t \<and> adjust t = adjust v"
    using undo_ok_cong [of t v si] ov by (simp add: t sem_simps)
  moreover have "sem t k = \<lparr>semval = 0, sempid = 0, semncnt = 0, semzcnt = 0\<rparr>" if "k \<in> set (sem_range ?d)" for k
    using C that by (simp add: t sem_simps)
  ultimately show ?thesis using t(1) sq R ov by auto
qed

section \<open>Properties\<close>

text \<open>An example: two semaphores in slot 0, owned by user 7, and four free undo structures.\<close>

definition demo_si :: seminfo where
  "demo_si = \<lparr>semmap_sz = 10, semmni = 10, semmns = 20, semmnu = 4, semmsl = 10, semopm = 10,
     semume = 5, semvmx = 32767, semaem = 16384\<rparr>"

definition demo_sem :: semst where
  "demo_sem = \<lparr>sema = (\<lambda>i. \<lparr>sem_perm = demo_perm (if i = 0 then 0x81B6 else 0) 0 9, sem_base = 0,
       sem_nsems = 2, sem_otime = 0, sem_ctime = 0\<rparr>),
     sem = (\<lambda>k. \<lparr>semval = 3, sempid = 0, semncnt = 0, semzcnt = 0\<rparr>), semmap = demo_map,
     semu = (\<lambda>x. \<lparr>un_np = (if x < 3 then Some (x + 1) else None), un_ent = []\<rparr>),
     sem_undo_tab = (\<lambda>_. None), semunp = None, semfup = Some 0, u_error = None, sem_wakes = []\<rparr>"

lemma demo_sem_ok:
  "aem_ok demo_si" "undo_ok demo_si demo_sem" "u_error demo_sem = None" "vals_ok demo_si demo_sem"
  "nums_ok demo_sem"
proof -
  have "undo_shape demo_si demo_sem [] [0, 1, 2, 3]"
    by (auto simp: undo_shape_def demo_si_def demo_sem_def un_next_def ents_ok_def)
  then show "undo_ok demo_si demo_sem" by (auto simp: undo_ok_def)
qed (simp_all add: aem_ok_def vals_ok_def nums_ok_def demo_si_def demo_sem_def)

text \<open>C6: a \<open>semop\<close> call either carries out its whole list or none of it: unless it returns
  without an error, in particular when it goes to sleep, every semaphore value and every
  adjustment of every process is as before; when it succeeds each semaphore has changed by the
  sum of its operations and the caller's adjustments by the operations flagged \<open>SEM_UNDO\<close>. A
  process goes to sleep with no error pending.\<close>

theorem semop_all_or_nothing:
  assumes "aem_ok si" "undo_ok si s" "u_error s = None"
    and "semop si u now sid nsops usr s = (res, t)" "res \<noteq> Sem_wild"
  shows "undo_ok si t \<and> (res \<noteq> Sem_return \<longrightarrow> u_error t = None) \<and>
     (if res = Sem_return \<and> u_error t = None
      then \<exists>i ops. semconv si sid s = Ret i \<and> usr = Some ops \<and>
             all_done u sid (sem_base (sema s i)) (take nsops ops) s t
      else none_done s t)"
proof -
  have err: ?thesis if "res = Sem_return" "t = set_err e s" for e
    using that assms(2) by (auto simp: none_done_def sem_simps)
  show ?thesis
  proof (cases "semconv si sid s")
    case (Ret i)
    show ?thesis
    proof (cases "semopm si < nsops")
      case False
      show ?thesis
      proof (cases usr)
        case None then show ?thesis using assms(4) Ret False err by (auto simp: semop_def sem_simps)
      next
        case (Some ops)
        show ?thesis
        proof (cases "sem_verify u (sema s i) (take nsops ops)")
          case None
          then have "semop_pass si u now sid i (take nsops ops) s = (res, t)"
            using assms(4) Ret False Some by (auto simp: semop_def)
          from semop_pass_atomic [OF assms(1-3) this] show ?thesis using Ret Some by auto
        next
          case (Some e) then show ?thesis using assms(4) Ret False \<open>usr = Some ops\<close> err by (auto simp: semop_def sem_simps)
        qed
      qed
    qed (use assms(4) Ret err in \<open>auto simp: semop_def sem_simps\<close>)
  qed (use assms(4,5) err in \<open>auto simp: semop_def sem_simps\<close>)
qed

abbreviation demo_ops :: "sembuf list" where
  "demo_ops \<equiv> [\<lparr>sem_num = 0, sem_op = 2, sem_flg = 0x1000\<rparr>, \<lparr>sem_num = 1, sem_op = - 5, sem_flg = 0\<rparr>]"

lemma demo_semop: "fst (semop demo_si demo_cred 0 0 2 (Some demo_ops) demo_sem) = Sem_asleep (Chan_n 1)"
  by (simp add: semop_def semconv_def ipc_conv_def demo_si_def demo_sem_def demo_cred_def demo_perm_def
      IPC_ALLOC_def ipcaccess_def SEM_A_def semop_pass_def word_sless_alt op_aoe_def SEM_UNDO_def
      semaoe_def undo_struct_def undo_enter_def upd_un_def upd_sem_def wake_n_def sem_wait_def IPC_NOWAIT_def word_le_nat_alt Let_def)

theorem semop_all_or_nothing_witness:
  "none_done demo_sem (snd (semop demo_si demo_cred 0 0 2 (Some demo_ops) demo_sem)) \<and>
   u_error (snd (semop demo_si demo_cred 0 0 2 (Some demo_ops) demo_sem)) = None"
  using semop_all_or_nothing [OF demo_sem_ok(1-3), of demo_cred 0 0 2 "Some demo_ops" "Sem_asleep (Chan_n 1)"
      "snd (semop demo_si demo_cred 0 0 2 (Some demo_ops) demo_sem)"] demo_semop
  by (simp add: prod_eq_iff)

text \<open>C33: \<open>semop\<close> never takes a semaphore above \<open>semvmx\<close> or below zero: when all values are within
  the limit before the call they are after it, on every branch.\<close>

theorem semop_keeps_limit:
  assumes "aem_ok si" "undo_ok si s" "u_error s = None" "vals_ok si s"
    and "semop si u now sid nsops usr s = (res, t)"
  shows "vals_ok si t"
proof -
  have err: "vals_ok si (set_err e s)" for e using assms(4) by (simp add: vals_ok_def sem_simps)
  show ?thesis
    using assms(4,5) err semop_pass_atomic [OF assms(1-3), of u now sid]
    by (auto simp: semop_def split: sysres.splits if_splits option.splits)
qed

theorem semop_keeps_limit_witness:
  "vals_ok demo_si (snd (semop demo_si demo_cred 0 0 2 (Some demo_ops) demo_sem))"
  using semop_keeps_limit [OF demo_sem_ok(1-4)] by (metis prod.collapse)

text \<open>\<open>SETALL\<close> is another matter: it compares \<open>short\<close>s, and lets any value above 32767 pass.\<close>

lemma semunrm_idle: "semunp s = None \<Longrightarrow> semunrm si sid low high s = s"
  by (cases "semmnu si") (simp_all add: semunrm_def)

lemma setall_exceeds_limit:
  "fst (semctl demo_si demo_cred 0 0 (C_SETALL (Some [0xFFFF, 0])) demo_sem) = Ret (R_val 0) \<and>
   semval (sem (snd (semctl demo_si demo_cred 0 0 (C_SETALL (Some [0xFFFF, 0])) demo_sem)) 0) = 0xFFFF \<and>
   fst (semctl demo_si demo_cred 0 0 (C_SETVAL 0 0xFFFF) demo_sem) = Fail ERANGE"
  by (simp add: semctl_def semconv_def ipc_conv_def demo_si_def demo_sem_def demo_cred_def demo_perm_def
      IPC_ALLOC_def ipcaccess_def SEM_A_def sem_setall_def sem_setval_def word_sless_alt semunrm_idle
      sem_set_val_def wake_n_def wake_z_def upd_sem_def word_le_nat_alt word_less_nat_alt Let_def)

text \<open>C25: \<open>semaoe\<close> keeps the undo structures well-formed (each process's entries sorted, without
  zero adjustments and within \<open>semaem\<close>; active structures on one list, unused ones on the other)
  and implements subtraction on the adjustment of one semaphore; it fails exactly when the value
  or the result is out of range or there is no room, and then changes no adjustment.\<close>

theorem semaoe_accounts:
  assumes "undo_ok si s" "aem_ok si" "semaoe si u val sid num s = (bad, t)"
  shows "undo_ok si t \<and> same_rest s t \<and> (bad \<longleftrightarrow> \<not> aoe_accepts si u val (sid, num) s) \<and>
     adjust t = (if bad then adjust s
       else (adjust s)(u_procx u := (adjust s (u_procx u))((sid, num) := adjust s (u_procx u) (sid, num) - val)))"
  using semaoe_ok [OF assms] by simp

theorem semaoe_accounts_witness:
  "adjust (snd (semaoe demo_si demo_cred 2 0 1 demo_sem)) 3 (0, 1) = - 2"
proof -
  have r: "semaoe demo_si demo_cred 2 0 1 demo_sem = (False, snd (semaoe demo_si demo_cred 2 0 1 demo_sem))"
    by (simp add: semaoe_def undo_struct_def undo_enter_def demo_si_def demo_sem_def demo_cred_def word_sless_alt
        upd_un_def Let_def)
  have "adjust demo_sem 3 (0, 1) = 0" by (simp add: adjust_def demo_sem_def)
  then show ?thesis using semaoe_accounts [OF demo_sem_ok(2,1) r] by (simp add: demo_cred_def)
qed

text \<open>\<open>semunrm\<close> removes exactly the adjustments, of all processes, for the semaphores
  \<open>low..high\<close> of one set, although it stops at the first entry beyond them.\<close>

lemma semunrm_removes:
  assumes "undo_ok si s" "nums_ok s" "\<not> high <s 0"
  shows "undo_ok si (semunrm si sid low high s) \<and> same_rest s (semunrm si sid low high s) \<and>
     adjust (semunrm si sid low high s) p (i, n) = (if i = sid \<and> low \<le> n \<and> n \<le> high then 0 else adjust s p (i, n))"
  using semunrm_ok [OF assms] by simp

text \<open>C34: \<open>semexit\<close> applies to each semaphore the adjustment the process has for it, except where
  the value would leave 0..\<open>semvmx\<close>, leaves every other semaphore alone, and gives the
  process's undo structure back to the free list, the structures staying well-formed.\<close>

theorem semexit_applies:
  assumes "undo_ok si s" "sem_undo_tab s (u_procx u) = Some up"
    and "\<And>e. e \<in> set (un_ent (semu s up)) \<Longrightarrow> semconv si (un_id e) s \<noteq> Wild"
  shows "\<exists>t. semexit si u s = Some t \<and> undo_ok si t \<and> adjust t = (adjust s)(u_procx u := (\<lambda>_. 0)) \<and>
     sem_undo_tab t (u_procx u) = None \<and> (vals_ok si s \<longrightarrow> vals_ok si t) \<and>
     (\<forall>k. (\<forall>e. e \<in> set (un_ent (semu s up)) \<longrightarrow> target si s e \<noteq> Some k) \<longrightarrow> semval (sem t k) = semval (sem s k)) \<and>
     (distinct (map (target si s) (filter (\<lambda>e. target si s e \<noteq> None) (un_ent (semu s up)))) \<longrightarrow>
        (\<forall>e k. e \<in> set (un_ent (semu s up)) \<and> target si s e = Some k \<longrightarrow>
           semval (sem t k) = adjusted si (semval (sem s k)) (un_aoe e)))"
  using semexit_ok [OF assms] by blast

definition demo_undo :: semst where
  "demo_undo = demo_sem\<lparr>semu := (\<lambda>x. \<lparr>un_np = (if 0 < x \<and> x < 3 then Some (x + 1) else None),
       un_ent = (if x = 0 then [\<lparr>un_aoe = 4, un_num = 1, un_id = 0\<rparr>] else [])\<rparr>),
     sem_undo_tab := [3 \<mapsto> 0], semunp := Some 0, semfup := Some 1\<rparr>"

lemma demo_undo_ok: "undo_ok demo_si demo_undo"
proof -
  have "undo_shape demo_si demo_undo [0] [1, 2, 3]"
    by (auto simp: undo_shape_def demo_si_def demo_undo_def demo_sem_def un_next_def ents_ok_def aoe_in_def
        word_sless_alt split: if_splits)
  then show ?thesis by (auto simp: undo_ok_def)
qed

theorem semexit_applies_witness:
  "\<exists>t. semexit demo_si demo_cred demo_undo = Some t \<and> semval (sem t 1) = 7 \<and> semval (sem t 0) = 3"
proof -
  have c: "semconv demo_si 0 demo_undo = Ret 0"
    by (simp add: semconv_def ipc_conv_def demo_si_def demo_undo_def demo_sem_def demo_perm_def IPC_ALLOC_def
        word_sless_alt)
  have e: "un_ent (semu demo_undo 0) = [\<lparr>un_aoe = 4, un_num = 1, un_id = 0\<rparr>]"
    and v: "semval (sem demo_undo k) = 3" and tab: "sem_undo_tab demo_undo (u_procx demo_cred) = Some 0" for k
    by (simp_all add: demo_undo_def demo_sem_def demo_cred_def)
  have tg: "target demo_si demo_undo \<lparr>un_aoe = 4, un_num = 1, un_id = 0\<rparr> = Some 1"
    by (simp add: target_def c) (simp add: demo_undo_def demo_sem_def)
  have a: "adjusted demo_si 3 4 = 7" by (simp add: adjusted_def demo_si_def)
  from semexit_applies [OF demo_undo_ok tab] c tg show ?thesis by (auto simp: e v a)
qed

text \<open>C35: \<open>semget\<close> keeps the sets in use pairwise disjoint and away from the free semaphores,
  on its failures too, and every identifier it answers is that of a slot in use that carries
  the key and has at least as many semaphores as asked for.\<close>

theorem semget_sets_apart:
  assumes "sets_ok si s" "semget si u now k nsems flag s = (r, t)"
  shows "r \<noteq> Wild \<and> sets_ok si t \<and>
     (\<forall>x. r = Ret x \<longrightarrow> (\<exists>i. i < unat (semmni si) \<and> live_set t i \<and> key (sem_perm (sema t i)) = k \<and>
        x = ipc_id (semmni si) (seq (sem_perm (sema t i))) i \<and> nsems \<le> sem_nsems (sema t i)))"
  by (rule semget_sets [OF assms])

lemma demo_sem_sets: "sets_ok demo_si demo_sem"
proof -
  have "free_units demo_map = {10..<14} \<union> {20..<28}"
    by (auto simp: free_units_def live_def demo_map_def free_of_def ent_run_def run_def)
  then show ?thesis using demo_map_ok
    by (auto simp: sets_ok_def demo_si_def demo_sem_def demo_perm_def IPC_ALLOC_def set_units_def split: if_splits)
qed

theorem semget_sets_apart_witness:
  "sets_ok demo_si (snd (semget demo_si demo_cred 0 77 4 0x3B6 demo_sem))"
  using semget_sets_apart [OF demo_sem_sets] by (metis prod.collapse)

text \<open>\<open>IPC_RMID\<close> makes the identifier invalid, returns the semaphores to the map, zeroes them
  and wakes whoever sleeps on them, and removes every process's adjustments for the set.\<close>

lemma sem_rmid_removes:
  assumes "undo_ok si s" "nums_ok s" "sets_ok si s" "seq_ok (unat (semmni si)) (\<lambda>i. sem_perm (sema s i))"
    and "\<not> sid <s 0" "semconv si sid s = Ret i" "may_change u (sem_perm (sema s i))"
    and "\<not> sem_nsems (sema s i) <s 0"
  shows "\<exists>t. semctl si u now sid C_RMID s = (Ret (R_val 0), t) \<and> semconv si sid t = Fail EINVAL \<and>
     undo_ok si t \<and> sets_ok si t \<and> (\<forall>p n. n \<le> sem_nsems (sema s i) \<longrightarrow> adjust t p (sid, n) = 0) \<and>
     (\<forall>k \<in> set (sem_range (sema s i)). sem t k = \<lparr>semval = 0, sempid = 0, semncnt = 0, semzcnt = 0\<rparr>)"
proof -
  obtain r t where rt: "sem_rmid si u sid i s = (r, t)" by fastforce
  moreover have "semctl si u now sid C_RMID s = sem_rmid si u sid i s" using assms(6) by (simp add: semctl_def Let_def)
  ultimately show ?thesis using sem_rmid_ok [OF assms rt] by auto
qed

end
