(* ===== verification/Message_Queue.thy ===== *)
theory Message_Queue
  imports Chain Ipc_Perm Resource_Map
begin

text \<open>
  The message facility of \<open>os/msg.c\<close>: queues of typed messages whose headers come from one free
  list and whose text lies in segments of one buffer, allocated through a resource map.
\<close>

section \<open>Data\<close>

definition MSG_R :: u16 where "MSG_R = 0x100"
definition MSG_W :: u16 where "MSG_W = 0x80"
definition MSG_RWAIT :: u16 where "MSG_RWAIT = 0x200"
definition MSG_WWAIT :: u16 where "MSG_WWAIT = 0x400"
definition MSG_NOERROR :: u16 where "MSG_NOERROR = 0x1000"

record msqid_ds =
  msg_perm :: ipc_perm
  msg_first :: "nat option"
  msg_last :: "nat option"
  msg_cbytes :: u16
  msg_qnum :: u16
  msg_qbytes :: u16
  msg_lspid :: u16
  msg_lrpid :: u16
  msg_stime :: u32
  msg_rtime :: u32
  msg_ctime :: u32

record msghdr =
  msg_next :: "nat option"
  msg_type :: u32
  msg_ts :: u16
  msg_spot :: u16

record msginfo =
  msgmap_sz :: u16
  msgmax :: u16
  msgmnb :: u16
  msgmni :: u16
  msgssz :: u16
  msgtql :: nat
  msgseg :: u16

text \<open>The channels processes sleep on: \<open>qp\<close>, \<open>&qp->msg_qnum\<close>, \<open>&msgfp\<close> and \<open>msgmap\<close>.\<close>

datatype msg_chan = Ch_queue nat | Ch_qnum nat | Ch_header | Ch_map

text \<open>\<open>msgh\<close> are the headers, a header pointer their index, and \<open>mbuf\<close> the text buffer.\<close>

record msgst =
  msgque :: "nat \<Rightarrow> msqid_ds"
  msgh :: "nat \<Rightarrow> msghdr"
  msgmap :: rmap
  msgfp :: "nat option"
  mbuf :: "nat \<Rightarrow> byte"
  msg_wakes :: "msg_chan list"

definition upd_q :: "nat \<Rightarrow> (msqid_ds \<Rightarrow> msqid_ds) \<Rightarrow> msgst \<Rightarrow> msgst" where
  "upd_q q f s = s\<lparr>msgque := (msgque s)(q := f (msgque s q))\<rparr>"

definition upd_h :: "nat \<Rightarrow> (msghdr \<Rightarrow> msghdr) \<Rightarrow> msgst \<Rightarrow> msgst" where
  "upd_h m f s = s\<lparr>msgh := (msgh s)(m := f (msgh s m))\<rparr>"

definition upd_mode :: "nat \<Rightarrow> (u16 \<Rightarrow> u16) \<Rightarrow> msgst \<Rightarrow> msgst" where
  "upd_mode q f = upd_q q (\<lambda>d. d\<lparr>msg_perm := (msg_perm d)\<lparr>mode := f (mode (msg_perm d))\<rparr>\<rparr>)"

definition msg_wakeup :: "msg_chan \<Rightarrow> msgst \<Rightarrow> msgst" where
  "msg_wakeup c s = s\<lparr>msg_wakes := msg_wakes s @ [c]\<rparr>"

definition qmode :: "msgst \<Rightarrow> nat \<Rightarrow> u16" where
  "qmode s q = mode (msg_perm (msgque s q))"

definition m_nx :: "msgst \<Rightarrow> nat \<Rightarrow> nat option" where
  "m_nx s = msg_next \<circ> msgh s"

text \<open>The division is one of signed 16-bit quantities.\<close>

definition btoq :: "msginfo \<Rightarrow> u16 \<Rightarrow> u16" where
  "btoq mi x = (let a = sint (x + msgssz mi - 1); b = sint (msgssz mi)
                in word_of_int (sgn a * sgn b * (\<bar>a\<bar> div \<bar>b\<bar>)))"

section \<open>Routines\<close>

definition msgconv :: "msginfo \<Rightarrow> u16 \<Rightarrow> msgst \<Rightarrow> nat sysres" where
  "msgconv mi mid s = ipc_conv (msgmni mi) (\<lambda>q. msg_perm (msgque s q)) 0 mid"

text \<open>\<open>msgfree\<close>, in the order of its statements; \<open>None\<close> when \<open>mfree\<close> runs off its map.\<close>

definition msgfree :: "msginfo \<Rightarrow> nat \<Rightarrow> nat option \<Rightarrow> nat \<Rightarrow> msgst \<Rightarrow> msgst option" where
  "msgfree mi q pmp mp s =
     (let nxt = msg_next (msgh s mp);
          s = (case pmp of None \<Rightarrow> upd_q q (\<lambda>d. d\<lparr>msg_first := nxt\<rparr>) s
                         | Some p \<Rightarrow> upd_h p (\<lambda>h. h\<lparr>msg_next := nxt\<rparr>) s);
          s = (if nxt = None then upd_q q (\<lambda>d. d\<lparr>msg_last := pmp\<rparr>) s else s);
          s = upd_q q (\<lambda>d. d\<lparr>msg_qnum := msg_qnum d - 1\<rparr>) s;
          s = (if qmode s q AND MSG_WWAIT \<noteq> 0
               then msg_wakeup (Ch_queue q) (upd_mode q (\<lambda>m. m AND NOT MSG_WWAIT) s) else s)
      in map_option
           (\<lambda>s. (let s = upd_h mp (\<lambda>h. h\<lparr>msg_next := msgfp s\<rparr>) s;
                     s = (if msgfp s = None then msg_wakeup Ch_header s else s)
                 in s\<lparr>msgfp := Some mp\<rparr>))
           (if msg_ts (msgh s mp) \<noteq> 0
            then map_option (\<lambda>(m, _). s\<lparr>msgmap := m\<rparr>)
                   (mfree (msgmap s) (btoq mi (msg_ts (msgh s mp))) (msg_spot (msgh s mp) + 1))
            else Some s))"

text \<open>The loop of \<open>IPC_RMID\<close>.\<close>

partial_function (option) msg_purge :: "msginfo \<Rightarrow> nat \<Rightarrow> msgst \<Rightarrow> msgst option" where
  "msg_purge mi q s =
     (case msg_first (msgque s q) of
        None \<Rightarrow> Some s
      | Some m \<Rightarrow> Option.bind (msgfree mi q None m s) (msg_purge mi q))"

definition msg_owner :: "ucred \<Rightarrow> ipc_perm \<Rightarrow> bool" where
  "msg_owner u p \<longleftrightarrow> u_uid u = uid p \<or> u_uid u = cuid p \<or> suser u"

datatype msg_cmd = M_RMID | M_SET "msqid_ds option" | M_STAT bool | M_other

definition msgctl ::
  "msginfo \<Rightarrow> ucred \<Rightarrow> u32 \<Rightarrow> u16 \<Rightarrow> msg_cmd \<Rightarrow> msgst \<Rightarrow> msqid_ds option sysres \<times> msgst" where
  "msgctl mi u now mid cmd s =
     (case msgconv mi mid s of
        Wild \<Rightarrow> (Wild, s)
      | Fail e \<Rightarrow> (Fail e, s)
      | Ret q \<Rightarrow>
          (let d = msgque s q; p = msg_perm d
           in case cmd of
                M_RMID \<Rightarrow>
                  (if \<not> msg_owner u p then (Fail EPERM, s)
                   else case msg_purge mi q s of
                          None \<Rightarrow> (Wild, s)
                        | Some s \<Rightarrow>
                            (let s = upd_q q (\<lambda>d. d\<lparr>msg_cbytes := 0, msg_perm := (msg_perm d)\<lparr>
                                       seq := ipc_bump (msgmni mi) mid (seq (msg_perm d))\<rparr>\<rparr>) s;
                                 s = (if qmode s q AND MSG_RWAIT \<noteq> 0 then msg_wakeup (Ch_qnum q) s else s);
                                 s = (if qmode s q AND MSG_WWAIT \<noteq> 0 then msg_wakeup (Ch_queue q) s else s)
                             in (Ret None, upd_mode q (\<lambda>_. 0) s)))
              | M_SET buf \<Rightarrow>
                  (if \<not> msg_owner u p then (Fail EPERM, s)
                   else case buf of
                          None \<Rightarrow> (Fail EFAULT, s)
                        | Some ds \<Rightarrow>
                            if msg_qbytes d < msg_qbytes ds \<and> \<not> suser u then (Fail EPERM, s)
                            else (Ret None, upd_q q (\<lambda>d. d\<lparr>msg_perm := (msg_perm d)\<lparr>
                                    uid := uid (msg_perm ds), gid := gid (msg_perm ds),
                                    mode := (mode (msg_perm d) AND NOT perm_bits) OR
                                            (mode (msg_perm ds) AND perm_bits)\<rparr>,
                                    msg_qbytes := msg_qbytes ds, msg_ctime := now\<rparr>) s))
              | M_STAT good \<Rightarrow>
                  (case ipcaccess u p MSG_R of
                     Some e \<Rightarrow> (Fail e, s)
                   | None \<Rightarrow> if good then (Ret (Some d), s) else (Fail EFAULT, s))
              | M_other \<Rightarrow> (Fail EINVAL, s)))"

definition msgget :: "msginfo \<Rightarrow> ucred \<Rightarrow> u32 \<Rightarrow> u32 \<Rightarrow> u16 \<Rightarrow> msgst \<Rightarrow> u16 sysres \<times> msgst" where
  "msgget mi u now k flag s =
     (case ipcget u k flag (\<lambda>q. msg_perm (msgque s q)) (unat (msgmni mi)) of
        Inl e \<Rightarrow> (Fail e, s)
      | Inr (q, new, p) \<Rightarrow>
          (let s = upd_q q (\<lambda>d. d\<lparr>msg_perm := p\<rparr>) s;
               s = (if new then upd_q q (\<lambda>d. d\<lparr>msg_first := None, msg_last := None, msg_qnum := 0,
                       msg_qbytes := msgmnb mi, msg_lspid := 0, msg_lrpid := 0, msg_stime := 0,
                       msg_rtime := 0, msg_ctime := now\<rparr>) s else s)
           in (Ret (ipc_id (msgmni mi) (seq p) q), s)))"

text \<open>The part of \<open>msginit\<close> after the buffer was allocated, or \<open>msgseg\<close> set to 0.\<close>

primrec link_msgs :: "nat \<Rightarrow> (nat \<Rightarrow> msghdr) \<Rightarrow> nat \<Rightarrow> msghdr" where
  "link_msgs 0 t = t"
| "link_msgs (Suc n) t = (link_msgs n t)(n := (t n)\<lparr>msg_next := Some (Suc n)\<rparr>)"

definition msginit :: "msginfo \<Rightarrow> msgst \<Rightarrow> msgst option" where
  "msginit mi s =
     map_option (\<lambda>(m, _). s\<lparr>msgmap := m, msgfp := Some 0, msgh := link_msgs (msgtql mi - 1) (msgh s)\<rparr>)
       (mfree (mapinit (msgmap s) (msgmap_sz mi)) (msgseg mi) 1)"

section \<open>Receiving\<close>

text \<open>The choice of a message: the loop over the queue, with the best message so far and its
  predecessor. The result is a message and its predecessor.\<close>

fun msg_scan ::
  "(nat \<Rightarrow> msghdr) \<Rightarrow> u32 \<Rightarrow> nat option \<Rightarrow> nat list \<Rightarrow> (nat \<times> nat option) option \<Rightarrow> (nat \<times> nat option) option" where
  "msg_scan h typ pmp [] best = best"
| "msg_scan h typ pmp (m # ms) best =
     (if 0 <s typ then
        (if typ \<noteq> msg_type (h m) then msg_scan h typ (Some m) ms best else Some (m, pmp))
      else if msg_type (h m) \<le>s - typ then
        (case best of
           Some (b, _) \<Rightarrow> if msg_type (h b) \<le>s msg_type (h m) then msg_scan h typ (Some m) ms best
                          else msg_scan h typ (Some m) ms (Some (m, pmp))
         | None \<Rightarrow> msg_scan h typ (Some m) ms (Some (m, pmp)))
      else msg_scan h typ (Some m) ms best)"

text \<open>The queue is followed for at most as many steps as there are headers.\<close>

definition msg_find :: "msginfo \<Rightarrow> u32 \<Rightarrow> nat \<Rightarrow> msgst \<Rightarrow> (nat \<times> nat option) option" where
  "msg_find mi typ q s =
     (let first = msg_first (msgque s q)
      in if typ = 0 then map_option (\<lambda>m. (m, None)) first
         else msg_scan (msgh s) typ None (walk (msgtql mi) (m_nx s) first) None)"

text \<open>The offset of a segment in the buffer, one iAPX 286 segment: it is computed in 16 bits.\<close>

definition msg_addr :: "msginfo \<Rightarrow> u16 \<Rightarrow> nat" where
  "msg_addr mi spot = unat (msgssz mi * spot)"

definition msg_text :: "msginfo \<Rightarrow> u16 \<Rightarrow> nat \<Rightarrow> msgst \<Rightarrow> byte list" where
  "msg_text mi spot n s = map (mbuf s) [msg_addr mi spot ..< msg_addr mi spot + n]"

text \<open>What a call comes to. A receive hands over a type and a text; the type is \<open>None\<close> when its copy to
  user space failed, which the code does not notice.\<close>

datatype msg_outcome = Msg_got "u32 option" "byte list" | Msg_sent | Msg_fail errno | Msg_asleep msg_chan | Msg_wild

text \<open>From \<open>findmsg\<close> to the end or to the sleep; \<open>ok1\<close> and \<open>ok2\<close> say whether the two copies to
  user space, of the type and of the text, succeed. \<open>copyout\<close> only returns -1 and does not set
  \<open>u.u_error\<close>, the value the code tests: a failure to store the type goes unnoticed, and the message is
  taken from the queue. \<open>MOVE\<close>, which copies the text, does set it.\<close>

definition msgrcv_pass ::
  "msginfo \<Rightarrow> ucred \<Rightarrow> u32 \<Rightarrow> nat \<Rightarrow> u16 \<Rightarrow> u32 \<Rightarrow> u16 \<Rightarrow> bool \<Rightarrow> bool \<Rightarrow> msgst \<Rightarrow> msg_outcome \<times> msgst" where
  "msgrcv_pass mi u now q msgsz typ flg ok1 ok2 s =
     (case msg_find mi typ q s of
        Some (m, pmp) \<Rightarrow>
          (let h = msgh s m
           in if msgsz <s msg_ts h \<and> flg AND MSG_NOERROR = 0 then (Msg_fail E2BIG, s)
              else
                (let sz = (if msgsz <s msg_ts h then msgsz else msg_ts h)
                 in if sz \<noteq> 0 \<and> \<not> ok2 then (Msg_fail EFAULT, s)
                    else
                      (case msgfree mi q pmp m
                              (upd_q q (\<lambda>d. d\<lparr>msg_cbytes := msg_cbytes d - msg_ts h, msg_lrpid := u_pid u,
                                              msg_rtime := now\<rparr>) s) of
                         None \<Rightarrow> (Msg_wild, s)
                       | Some t \<Rightarrow> (Msg_got (if ok1 then Some (msg_type h) else None)
                                            (msg_text mi (msg_spot h) (unat sz) s), t))))
      | None \<Rightarrow>
          if flg AND IPC_NOWAIT \<noteq> 0 then (Msg_fail ENOMSG, s)
          else (Msg_asleep (Ch_qnum q), upd_mode q (\<lambda>m. m OR MSG_RWAIT) s))"

definition msgrcv ::
  "msginfo \<Rightarrow> ucred \<Rightarrow> u32 \<Rightarrow> u16 \<Rightarrow> u16 \<Rightarrow> u32 \<Rightarrow> u16 \<Rightarrow> bool \<Rightarrow> bool \<Rightarrow> msgst \<Rightarrow> msg_outcome \<times> msgst" where
  "msgrcv mi u now mid msgsz typ flg ok1 ok2 s =
     (case msgconv mi mid s of
        Wild \<Rightarrow> (Msg_wild, s)
      | Fail e \<Rightarrow> (Msg_fail e, s)
      | Ret q \<Rightarrow>
          (case ipcaccess u (msg_perm (msgque s q)) MSG_R of
             Some e \<Rightarrow> (Msg_fail e, s)
           | None \<Rightarrow> if msgsz <s 0 then (Msg_fail EINVAL, s)
                     else msgrcv_pass mi u now q msgsz typ flg ok1 ok2 s))"

text \<open>After a wakeup.\<close>

definition msgrcv_again ::
  "msginfo \<Rightarrow> ucred \<Rightarrow> u32 \<Rightarrow> u16 \<Rightarrow> u16 \<Rightarrow> u32 \<Rightarrow> u16 \<Rightarrow> bool \<Rightarrow> bool \<Rightarrow> msgst \<Rightarrow> msg_outcome \<times> msgst" where
  "msgrcv_again mi u now mid msgsz typ flg ok1 ok2 s =
     (case msgconv mi mid s of
        Wild \<Rightarrow> (Msg_wild, s)
      | Fail e \<Rightarrow> (Msg_fail EIDRM, s)
      | Ret q \<Rightarrow> msgrcv_pass mi u now q msgsz typ flg ok1 ok2 s)"

section \<open>Sending\<close>

text \<open>From \<open>getres\<close> on, once \<open>msgconv\<close> has found the queue; \<open>txt\<close> is the text \<open>MOVE\<close> copies in,
  \<open>None\<close> when the copy fails.\<close>

definition msg_put :: "msginfo \<Rightarrow> ucred \<Rightarrow> u32 \<Rightarrow> nat \<Rightarrow> u32 \<Rightarrow> u16 \<Rightarrow> u16 \<Rightarrow> nat \<Rightarrow> msgst \<Rightarrow> msgst" where
  "msg_put mi u now q typ cnt spot mp s =
     (let s = upd_q q (\<lambda>d. d\<lparr>msg_qnum := msg_qnum d + 1, msg_cbytes := msg_cbytes d + cnt,
                              msg_lspid := u_pid u, msg_stime := now\<rparr>) s;
          s = s\<lparr>msgfp := msg_next (msgh s mp)\<rparr>;
          s = upd_h mp (\<lambda>h. h\<lparr>msg_next := None, msg_type := typ, msg_ts := cnt,
                               msg_spot := (if cnt \<noteq> 0 then spot else - 1)\<rparr>) s;
          s = (case msg_last (msgque s q) of
                 None \<Rightarrow> upd_q q (\<lambda>d. d\<lparr>msg_first := Some mp, msg_last := Some mp\<rparr>) s
               | Some l \<Rightarrow> upd_q q (\<lambda>d. d\<lparr>msg_last := Some mp\<rparr>) (upd_h l (\<lambda>h. h\<lparr>msg_next := Some mp\<rparr>) s))
      in if qmode s q AND MSG_RWAIT \<noteq> 0
         then msg_wakeup (Ch_qnum q) (upd_mode q (\<lambda>m. m AND NOT MSG_RWAIT) s) else s)"

definition put_text :: "nat \<Rightarrow> byte list \<Rightarrow> (nat \<Rightarrow> byte) \<Rightarrow> nat \<Rightarrow> byte" where
  "put_text a xs b i = (if a \<le> i \<and> i < a + length xs then xs ! (i - a) else b i)"

definition msgsnd_pass ::
  "msginfo \<Rightarrow> ucred \<Rightarrow> u32 \<Rightarrow> nat \<Rightarrow> u16 \<Rightarrow> u32 \<Rightarrow> byte list option \<Rightarrow> u16 \<Rightarrow> msgst \<Rightarrow> msg_outcome \<times> msgst" where
  "msgsnd_pass mi u now q cnt typ txt flg s =
     (let nowait = flg AND IPC_NOWAIT \<noteq> 0
      in if msg_qbytes (msgque s q) < cnt + msg_cbytes (msgque s q) then
           (if nowait then (Msg_fail EAGAIN, s)
            else (Msg_asleep (Ch_queue q), upd_mode q (\<lambda>m. m OR MSG_WWAIT) s))
         else case msgfp s of
           None \<Rightarrow> if nowait then (Msg_fail EAGAIN, s) else (Msg_asleep Ch_header, s)
         | Some mp \<Rightarrow>
             if cnt = 0 then (Msg_sent, msg_put mi u now q typ 0 0 mp s)
             else
               (case malloc (msgmap s) (btoq mi cnt) of
                  None \<Rightarrow> (Msg_wild, s)
                | Some (a, m) \<Rightarrow>
                    if a = 0 then
                      (if nowait then (Msg_fail EAGAIN, s\<lparr>msgmap := m\<rparr>)
                       else (Msg_asleep Ch_map, s\<lparr>msgmap := m\<lparr>mapwant := mapwant m + 1\<rparr>\<rparr>))
                    else
                      (case txt of
                         None \<Rightarrow>
                           (case mfree m (btoq mi cnt) (a - 1 + 1) of
                              None \<Rightarrow> (Msg_wild, s)
                            | Some (m', _) \<Rightarrow> (Msg_fail EFAULT, s\<lparr>msgmap := m'\<rparr>))
                       | Some xs \<Rightarrow>
                           (Msg_sent, msg_put mi u now q typ cnt (a - 1) mp
                              (s\<lparr>msgmap := m, mbuf := put_text (msg_addr mi (a - 1)) xs (mbuf s)\<rparr>)))))"

text \<open>The type is copied in first, into a local variable without a value: \<open>junk\<close> is what the stack
  happens to hold there. \<open>copyin\<close> only returns -1 when the address is bad (\<open>typ\<close> is \<open>None\<close>) and does
  not set \<open>u.u_error\<close>, the value the code tests: the call goes on with whatever the variable held.\<close>

definition type_read :: "u32 option \<Rightarrow> u32 \<Rightarrow> u32" where
  "type_read typ junk = (case typ of None \<Rightarrow> junk | Some t \<Rightarrow> t)"

lemma type_read_simps [simp]: "type_read (Some t) junk = t" "type_read None junk = junk"
  by (simp_all add: type_read_def)

definition msgsnd ::
  "msginfo \<Rightarrow> ucred \<Rightarrow> u32 \<Rightarrow> u16 \<Rightarrow> u16 \<Rightarrow> u32 option \<Rightarrow> u32 \<Rightarrow> byte list option \<Rightarrow> u16 \<Rightarrow> msgst \<Rightarrow>
   msg_outcome \<times> msgst" where
  "msgsnd mi u now mid cnt typ junk txt flg s =
     (case msgconv mi mid s of
        Wild \<Rightarrow> (Msg_wild, s)
      | Fail e \<Rightarrow> (Msg_fail e, s)
      | Ret q \<Rightarrow>
          (case ipcaccess u (msg_perm (msgque s q)) MSG_W of
             Some e \<Rightarrow> (Msg_fail e, s)
           | None \<Rightarrow>
               if cnt <s 0 \<or> msgmax mi <s cnt then (Msg_fail EINVAL, s)
               else if type_read typ junk <s 1 then (Msg_fail EINVAL, s)
               else msgsnd_pass mi u now q cnt (type_read typ junk) txt flg s))"

text \<open>After a wakeup, and when a signal ends the sleep on the queue.\<close>

definition msgsnd_again ::
  "msginfo \<Rightarrow> ucred \<Rightarrow> u32 \<Rightarrow> u16 \<Rightarrow> u16 \<Rightarrow> u32 \<Rightarrow> byte list option \<Rightarrow> u16 \<Rightarrow> msgst \<Rightarrow> msg_outcome \<times> msgst" where
  "msgsnd_again mi u now mid cnt typ txt flg s =
     (case msgconv mi mid s of
        Wild \<Rightarrow> (Msg_wild, s)
      | Fail e \<Rightarrow> (Msg_fail EIDRM, s)
      | Ret q \<Rightarrow> msgsnd_pass mi u now q cnt typ txt flg s)"

definition msgsnd_intr :: "msg_chan \<Rightarrow> msgst \<Rightarrow> msg_outcome \<times> msgst" where
  "msgsnd_intr c s =
     (Msg_fail EINTR,
      (case c of Ch_queue q \<Rightarrow> msg_wakeup c (upd_mode q (\<lambda>m. m AND NOT MSG_WWAIT) s) | _ \<Rightarrow> s))"

section \<open>The invariant\<close>

named_theorems msg_simps \<open>fields of an updated message state\<close>

lemma upd_q_fields [msg_simps]:
  "msgque (upd_q q f s) = (msgque s)(q := f (msgque s q))" "msgh (upd_q q f s) = msgh s"
  "msgmap (upd_q q f s) = msgmap s" "msgfp (upd_q q f s) = msgfp s" "mbuf (upd_q q f s) = mbuf s"
  "m_nx (upd_q q f s) = m_nx s"
  by (auto simp: upd_q_def m_nx_def)

lemma upd_h_fields [msg_simps]:
  "msgque (upd_h m g s) = msgque s" "msgh (upd_h m g s) = (msgh s)(m := g (msgh s m))"
  "msgmap (upd_h m g s) = msgmap s" "msgfp (upd_h m g s) = msgfp s" "mbuf (upd_h m g s) = mbuf s"
  "m_nx (upd_h m g s) = (m_nx s)(m := msg_next (g (msgh s m)))"
  by (auto simp: upd_h_def m_nx_def)

lemma msg_wakeup_fields [msg_simps]:
  "msgque (msg_wakeup c s) = msgque s" "msgh (msg_wakeup c s) = msgh s" "msgmap (msg_wakeup c s) = msgmap s"
  "msgfp (msg_wakeup c s) = msgfp s" "mbuf (msg_wakeup c s) = mbuf s" "m_nx (msg_wakeup c s) = m_nx s"
  by (auto simp: msg_wakeup_def m_nx_def)

lemma upd_mode_fields [msg_simps]:
  "msgque (upd_mode q f s) = (msgque s)(q := (msgque s q)\<lparr>msg_perm := (msg_perm (msgque s q))\<lparr>
     mode := f (mode (msg_perm (msgque s q)))\<rparr>\<rparr>)" "msgh (upd_mode q f s) = msgh s"
  "msgmap (upd_mode q f s) = msgmap s" "msgfp (upd_mode q f s) = msgfp s" "mbuf (upd_mode q f s) = mbuf s"
  "m_nx (upd_mode q f s) = m_nx s"
  by (auto simp: upd_mode_def msg_simps)

lemma m_nx_eq: "m_nx s m = msg_next (msgh s m)"
  by (simp add: m_nx_def)

text \<open>The segments of the text buffer a message occupies.\<close>

definition seg :: "msginfo \<Rightarrow> msghdr \<Rightarrow> nat set" where
  "seg mi h = (if msg_ts h = 0 then {} else run (msg_spot h + 1) (btoq mi (msg_ts h)))"

definition hdr_ok :: "msginfo \<Rightarrow> msghdr \<Rightarrow> bool" where
  "hdr_ok mi h \<longleftrightarrow> unat (msg_ts h) \<le> unat (msgmax mi) \<and>
     (msg_ts h \<noteq> 0 \<longrightarrow> msg_spot h + 1 \<noteq> 0 \<and> unat (msg_spot h) + unat (btoq mi (msg_ts h)) \<le> unat (msgseg mi))"

text \<open>The parameters: a segment has at least one byte, and the buffer less than 64 KB.\<close>

definition msg_conf :: "msginfo \<Rightarrow> bool" where
  "msg_conf mi \<longleftrightarrow> 0 < unat (msgssz mi) \<and> unat (msgmax mi) + unat (msgssz mi) \<le> 32768 \<and> unat (msgseg mi) < 32768 \<and>
     unat (msgssz mi) * unat (msgseg mi) < 65536"

definition que_ok :: "msgst \<Rightarrow> nat \<Rightarrow> nat list \<Rightarrow> bool" where
  "que_ok s q ms \<longleftrightarrow>
     chain (m_nx s) (msg_first (msgque s q)) ms \<and>
     msg_last (msgque s q) = (if ms = [] then None else Some (last ms)) \<and>
     msg_qnum (msgque s q) = of_nat (length ms)"

definition segs :: "msginfo \<Rightarrow> msgst \<Rightarrow> nat list \<Rightarrow> nat set" where
  "segs mi s ms = (\<Union>m \<in> set ms. seg mi (msgh s m))"

definition segs_ok :: "msginfo \<Rightarrow> msgst \<Rightarrow> nat list \<Rightarrow> bool" where
  "segs_ok mi s ms \<longleftrightarrow>
     (\<forall>m. m \<in> set ms \<longrightarrow> hdr_ok mi (msgh s m) \<and> seg mi (msgh s m) \<inter> free_units (msgmap s) = {}) \<and>
     (\<forall>m n. m \<in> set ms \<and> n \<in> set ms \<and> m \<noteq> n \<longrightarrow> seg mi (msgh s m) \<inter> seg mi (msgh s n) = {})"

text \<open>\<open>fr\<close> are the free headers and \<open>qs q\<close> the messages of queue \<open>q\<close>: every header is in exactly
  one place, and no segment is free or belongs to two messages.\<close>

definition msg_shape :: "msginfo \<Rightarrow> msgst \<Rightarrow> nat list \<Rightarrow> (nat \<Rightarrow> nat list) \<Rightarrow> bool" where
  "msg_shape mi s fr qs \<longleftrightarrow>
     msg_conf mi \<and> map_ok (msgmap s) \<and> (\<forall>x. x \<in> free_units (msgmap s) \<longrightarrow> x \<le> unat (msgseg mi)) \<and> chain (m_nx s) (msgfp s) fr \<and> (\<forall>q. que_ok s q (qs q)) \<and>
     set fr \<union> (\<Union>q. set (qs q)) = {..<msgtql mi} \<and> (\<forall>q. set fr \<inter> set (qs q) = {}) \<and>
     (\<forall>p q. p \<noteq> q \<longrightarrow> set (qs p) \<inter> set (qs q) = {}) \<and>
     (\<forall>q. segs_ok mi s (qs q)) \<and> (\<forall>p q. p \<noteq> q \<longrightarrow> segs mi s (qs p) \<inter> segs mi s (qs q) = {})"

definition cbytes_ok :: "msgst \<Rightarrow> (nat \<Rightarrow> nat list) \<Rightarrow> bool" where
  "cbytes_ok s qs \<longleftrightarrow> (\<forall>q. msg_cbytes (msgque s q) = sum_list (map (\<lambda>m. msg_ts (msgh s m)) (qs q)))"

definition msg_ok :: "msginfo \<Rightarrow> msgst \<Rightarrow> bool" where
  "msg_ok mi s \<longleftrightarrow> (\<exists>fr qs. msg_shape mi s fr qs \<and> cbytes_ok s qs)"

text \<open>A queue as its users see it: types and texts, oldest first.\<close>

definition msg_of :: "msginfo \<Rightarrow> msgst \<Rightarrow> nat \<Rightarrow> u32 \<times> byte list" where
  "msg_of mi s m = (msg_type (msgh s m), msg_text mi (msg_spot (msgh s m)) (unat (msg_ts (msgh s m))) s)"

definition qmsgs :: "msginfo \<Rightarrow> msgst \<Rightarrow> nat \<Rightarrow> (u32 \<times> byte list) list" where
  "qmsgs mi s q = map (msg_of mi s) (walk (msgtql mi) (m_nx s) (msg_first (msgque s q)))"

lemma shape_walk: "msg_shape mi s fr qs \<Longrightarrow> walk (msgtql mi) (m_nx s) (msg_first (msgque s q)) = qs q"
  by (rule walk_chain_bounded) (auto simp: msg_shape_def que_ok_def)

lemma shape_qmsgs: "msg_shape mi s fr qs \<Longrightarrow> qmsgs mi s q = map (msg_of mi s) (qs q)"
  by (simp add: qmsgs_def shape_walk)

text \<open>Rounding up to segments.\<close>

lemma round_up_covers: "0 < z \<Longrightarrow> x \<le> z * ((x + z - 1) div z)" for x z :: nat
proof -
  assume "0 < z"
  then have "(x + z - 1) mod z < z" by simp
  moreover have "z * ((x + z - 1) div z) + (x + z - 1) mod z = x + z - 1" by simp
  ultimately show ?thesis using \<open>0 < z\<close> by linarith
qed

lemma sint_small16: "unat (x :: u16) < 32768 \<Longrightarrow> sint x = int (unat x)"
  by (simp add: sint16 del: of_nat_unat)

lemma btoq_nat:
  assumes "0 < unat (msgssz mi)" "x \<noteq> 0" "unat x + unat (msgssz mi) \<le> 32768"
  shows "unat (btoq mi x) = (unat x + unat (msgssz mi) - 1) div unat (msgssz mi)"
    "unat x \<le> unat (msgssz mi) * unat (btoq mi x)" "btoq mi x \<noteq> 0"
proof -
  let ?z = "unat (msgssz mi)"
  have x: "0 < unat x" using assms(2) by (simp add: unat_gt_0)
  have "unat (x + (msgssz mi - 1)) = unat x + (?z - 1)"
  proof -
    have m: "unat (msgssz mi - 1) = ?z - 1" using assms(1)
      by (subst unat_minus_small) (auto simp: word_le_nat_alt)
    then show ?thesis using assms x by (subst unat_plus_small) (auto simp: m)
  qed
  then have u: "unat (x + msgssz mi - 1) = unat x + ?z - 1"
    using assms(1) by (metis add_diff_eq Nat.add_diff_assoc Suc_leI One_nat_def)
  have sa: "sint (x + msgssz mi - 1) = int (unat x + ?z - 1)" using u assms(3) x by (subst sint_small16) auto
  have sb: "sint (msgssz mi) = int ?z" using assms(3) x by (intro sint_small16) linarith
  have d: "(unat x + ?z - 1) div ?z < 65536"
    using div_le_dividend [of "unat x + ?z - 1" ?z] assms(3) by linarith
  have "btoq mi x = word_of_int (int ((unat x + ?z - 1) div ?z))"
    unfolding btoq_def sa sb Let_def using x assms(1) by (simp add: zdiv_int del: of_nat_unat of_nat_diff)
  then have "btoq mi x = of_nat ((unat x + ?z - 1) div ?z)" by (simp only: of_int_of_nat_eq)
  then show e: "unat (btoq mi x) = (unat x + ?z - 1) div ?z" using d by (simp only: unat_of_nat16)
  show "unat x \<le> ?z * unat (btoq mi x)" unfolding e using round_up_covers assms(1) by blast
  then show "btoq mi x \<noteq> 0" using x by auto
qed

text \<open>Bytes of a text lie in its segments, so disjoint segments hold disjoint texts.\<close>

lemma msg_addr_nat:
  assumes "msg_conf mi" "unat spot \<le> unat (msgseg mi)"
  shows "msg_addr mi spot = unat (msgssz mi) * unat spot"
proof -
  have "unat (msgssz mi) * unat spot \<le> unat (msgssz mi) * unat (msgseg mi)" using assms(2) by simp
  also have "\<dots> < 65536" using assms(1) by (simp add: msg_conf_def)
  finally show ?thesis unfolding msg_addr_def unat_word_ariths by simp
qed

lemma text_in_seg:
  assumes "msg_conf mi" "x \<noteq> 0" "unat x \<le> unat (msgmax mi)" "unat spot + unat (btoq mi x) \<le> unat (msgseg mi)"
    "unat (spot + 1) = unat spot + 1" and "msg_addr mi spot \<le> i" "i < msg_addr mi spot + unat x"
  shows "i div unat (msgssz mi) + 1 \<in> run (spot + 1) (btoq mi x)"
proof -
  let ?z = "unat (msgssz mi)"
  have z: "0 < ?z" "unat x + ?z \<le> 32768" using assms(1,3) by (auto simp: msg_conf_def)
  have i: "?z * unat spot \<le> i" "i < ?z * unat spot + unat x"
    using assms(4,6,7) by (auto simp: msg_addr_nat [OF assms(1)])
  have "unat spot \<le> i div ?z" using z i(1) by (simp add: less_eq_div_iff_mult_less_eq mult.commute)
  moreover have "i < ?z * (unat spot + unat (btoq mi x))"
    using i(2) btoq_nat(2) [OF z(1) assms(2) z(2)] by (simp add: distrib_left)
  then have "i div ?z < unat spot + unat (btoq mi x)" using z by (simp add: div_less_iff_less_mult mult.commute)
  ultimately show ?thesis using assms(5) by (simp add: run_def)
qed

lemma spot_plus: "(spot :: u16) + 1 \<noteq> 0 \<Longrightarrow> unat (spot + 1) = unat spot + 1"
  by (metis Suc_eq_plus1 unatSuc add.commute)


lemma shapeD:
  assumes "msg_shape mi s fr qs"
  shows "0 < unat (msgssz mi)" "map_ok (msgmap s)" "chain (m_nx s) (msgfp s) fr" "que_ok s q (qs q)"
    "set fr \<union> (\<Union>q. set (qs q)) = {..<msgtql mi}" "set fr \<inter> set (qs q) = {}"
    "p \<noteq> q \<Longrightarrow> set (qs p) \<inter> set (qs q) = {}" "segs_ok mi s (qs q)"
    "p \<noteq> q \<Longrightarrow> segs mi s (qs p) \<inter> segs mi s (qs q) = {}" "msg_conf mi" "x \<in> free_units (msgmap s) \<Longrightarrow> x \<le> unat (msgseg mi)" "unat (msgmax mi) + unat (msgssz mi) \<le> 32768"
  using assms by (auto simp: msg_shape_def msg_conf_def)

lemma segs_cong: "(\<And>m. m \<in> set ms \<Longrightarrow> msgh t m = msgh s m) \<Longrightarrow> segs mi t ms = segs mi s ms"
  by (simp add: segs_def)

lemma segs_ok_cong:
  assumes "\<And>m. m \<in> set ms \<Longrightarrow> msgh t m = msgh s m" "segs_ok mi s ms" "free_units (msgmap t) \<inter> segs mi s ms = {}"
  shows "segs_ok mi t ms"
  using assms by (auto simp: segs_ok_def segs_def)

lemma segs_free: "segs_ok mi s ms \<Longrightarrow> free_units (msgmap s) \<inter> segs mi s ms = {}"
  by (auto simp: segs_ok_def segs_def)

lemma que_ok_cong:
  assumes "\<And>m. m \<in> set ms \<Longrightarrow> msgh t m = msgh s m" "msgque t q = msgque s q" "que_ok s q ms"
  shows "que_ok t q ms"
proof -
  have "chain (m_nx t) (msg_first (msgque s q)) ms \<longleftrightarrow> chain (m_nx s) (msg_first (msgque s q)) ms"
    by (rule path_cong) (simp add: m_nx_eq assms(1))
  then show ?thesis using assms(2,3) by (simp add: que_ok_def)
qed

lemma hdr_fits:
  assumes "msg_conf mi" "hdr_ok mi h" "msg_ts h \<noteq> 0"
  shows "btoq mi (msg_ts h) \<noteq> 0" "unat (msg_spot h + 1) + unat (btoq mi (msg_ts h)) \<le> unat (msgseg mi) + 1"
    "unat (msg_spot h + 1) + unat (btoq mi (msg_ts h)) < 65536"
proof -
  have h: "unat (msg_ts h) \<le> unat (msgmax mi)" "msg_spot h + 1 \<noteq> 0" "unat (msg_spot h) + unat (btoq mi (msg_ts h)) \<le> unat (msgseg mi)"
    using assms(2,3) by (auto simp: hdr_ok_def)
  show "btoq mi (msg_ts h) \<noteq> 0" using assms(1,3) h(1) by (intro btoq_nat(3)) (auto simp: msg_conf_def)
  show 1: "unat (msg_spot h + 1) + unat (btoq mi (msg_ts h)) \<le> unat (msgseg mi) + 1"
    using h(3) by (simp add: spot_plus [OF h(2)])
  then show "unat (msg_spot h + 1) + unat (btoq mi (msg_ts h)) < 65536" using assms(1) by (simp add: msg_conf_def)
qed

lemma seg_range: "msg_conf mi \<Longrightarrow> hdr_ok mi h \<Longrightarrow> x \<in> seg mi h \<Longrightarrow> x \<le> unat (msgseg mi)"
  using hdr_fits(2) [of mi h] by (auto simp: seg_def run_def split: if_splits)

text \<open>The bytes of a message lie in its segments.\<close>

lemma msg_text_cong:
  assumes "msg_conf mi" "hdr_ok mi h"
    and "\<And>i. i div unat (msgssz mi) + 1 \<in> seg mi h \<Longrightarrow> mbuf t i = mbuf s i"
  shows "msg_text mi (msg_spot h) (unat (msg_ts h)) t = msg_text mi (msg_spot h) (unat (msg_ts h)) s"
proof (cases "msg_ts h = 0")
  case False
  with assms(2) have h: "unat (msg_ts h) \<le> unat (msgmax mi)" "msg_spot h + 1 \<noteq> 0"
    "unat (msg_spot h) + unat (btoq mi (msg_ts h)) \<le> unat (msgseg mi)" by (auto simp: hdr_ok_def)
  have "mbuf t i = mbuf s i"
    if "msg_addr mi (msg_spot h) \<le> i" "i < msg_addr mi (msg_spot h) + unat (msg_ts h)" for i
    using text_in_seg [OF assms(1) False h(1,3) spot_plus [OF h(2)] that] assms(3) False by (simp add: seg_def)
  then show ?thesis by (simp add: msg_text_def)
qed (simp add: msg_text_def)

lemma msg_of_cong:
  assumes "msg_shape mi s fr qs" "m \<in> set (qs p)" "msgh t m = msgh s m"
    and "\<And>i. i div unat (msgssz mi) + 1 \<in> segs mi s (qs p) \<Longrightarrow> mbuf t i = mbuf s i"
  shows "msg_of mi t m = msg_of mi s m"
proof -
  have h: "hdr_ok mi (msgh s m)" using shapeD(8) [OF assms(1), of p] assms(2) by (auto simp: segs_ok_def)
  have "mbuf t i = mbuf s i" if "i div unat (msgssz mi) + 1 \<in> seg mi (msgh s m)" for i
    using that assms(2,4) by (auto simp: segs_def)
  from msg_text_cong [OF shapeD(10) [OF assms(1)] h this] show ?thesis by (simp add: msg_of_def assms(3))
qed

text \<open>Every operation works on one queue, the free headers and the free segments.\<close>

lemma msg_step:
  assumes sh: "msg_shape mi s fr qs"
    and q: "que_ok t q ms" "chain (m_nx t) (msgfp t) fr'" "set fr' \<union> set ms = set fr \<union> set (qs q)" "set fr' \<inter> set ms = {}"
    and same: "\<And>m. m \<notin> set fr \<union> set (qs q) \<Longrightarrow> msgh t m = msgh s m" "\<And>p. p \<noteq> q \<Longrightarrow> msgque t p = msgque s p"
    and seg: "map_ok (msgmap t)" "segs_ok mi t ms"
      "free_units (msgmap t) \<union> segs mi t ms \<subseteq> free_units (msgmap s) \<union> segs mi s (qs q)"
    and buf: "\<And>i. mbuf t i \<noteq> mbuf s i \<Longrightarrow> i div unat (msgssz mi) + 1 \<in> free_units (msgmap s)"
  shows "msg_shape mi t fr' (qs(q := ms)) \<and> qmsgs mi t = (qmsgs mi s)(q := map (msg_of mi t) ms)"
proof -
  note S = shapeD [OF sh]
  have out: "m \<notin> set fr \<union> set (qs q)" if "m \<in> set (qs p)" "p \<noteq> q" for m p
    using that S(6) [of p] S(7) [of p q] by blast
  have h: "msgh t m = msgh s m" if "m \<in> set (qs p)" "p \<noteq> q" for m p using same(1) out [OF that] by blast
  have sg: "segs mi t (qs p) = segs mi s (qs p)" if "p \<noteq> q" for p using h that by (intro segs_cong) blast
  have away: "segs mi s (qs p) \<inter> (free_units (msgmap s) \<union> segs mi s (qs q)) = {}" if "p \<noteq> q" for p
    using segs_free [OF S(8)] S(9) [OF that] by blast
  have 1: "que_ok t p ((qs(q := ms)) p)" for p
    using q(1) que_ok_cong [OF _ _ S(4), of p t] h [of _ p] same(2) by auto
  have 2: "segs_ok mi t ((qs(q := ms)) p)" for p
  proof (cases "p = q")
    case False
    have "free_units (msgmap t) \<inter> segs mi s (qs p) = {}" using away [OF False] seg(3) by blast
    with False segs_ok_cong [OF _ S(8), of p t] h [of _ p] show ?thesis by simp
  qed (simp add: seg(2))
  have d: "segs mi t (qs p) \<inter> segs mi t ms = {}" if "p \<noteq> q" for p
    using away [OF that] seg(3) sg [OF that] by blast
  have 3: "segs mi t ((qs(q := ms)) p) \<inter> segs mi t ((qs(q := ms)) r) = {}" if "p \<noteq> r" for p r
    using d [of p] d [of r] S(9) [OF that] sg [of p] sg [of r] that by auto
  have 4: "set ((qs(q := ms)) p) \<inter> set ((qs(q := ms)) r) = {}" if "p \<noteq> r" for p r
    using out [of _ p] out [of _ r] q(3) S(7) [OF that] that by (cases "p = q"; cases "r = q") auto
  have 5: "set fr' \<inter> set ((qs(q := ms)) p) = {}" for p
    using q(3,4) out [of _ p] by (cases "p = q") auto
  have "(\<Union>p. set ((qs(q := ms)) p)) = set ms \<union> (\<Union>p \<in> - {q}. set (qs p))" by (auto split: if_splits)
  moreover have "(\<Union>p. set (qs p)) = set (qs q) \<union> (\<Union>p \<in> - {q}. set (qs p))" by blast
  ultimately have 6: "set fr' \<union> (\<Union>p. set ((qs(q := ms)) p)) = {..<msgtql mi}"
    using q(3) S(5) by (metis sup_assoc)
  have 7: "x \<le> unat (msgseg mi)" if "x \<in> free_units (msgmap t)" for x
  proof -
    from that seg(3) consider "x \<in> free_units (msgmap s)" | "x \<in> segs mi s (qs q)" by blast
    then show ?thesis using S(11) seg_range [OF S(10)] S(8) [of q] by cases (auto simp: segs_def segs_ok_def)
  qed
  have sh': "msg_shape mi t fr' (qs(q := ms))"
    unfolding msg_shape_def using S(10) 7 seg(1) q(2) 1 2 3 4 5 6 by blast
  moreover have "qmsgs mi t = (qmsgs mi s)(q := map (msg_of mi t) ms)"
  proof (rule ext)
    fix p show "qmsgs mi t p = ((qmsgs mi s)(q := map (msg_of mi t) ms)) p"
    proof (cases "p = q")
      case False
      have "mbuf t i = mbuf s i" if "i div unat (msgssz mi) + 1 \<in> segs mi s (qs p)" for i
        using away [OF False] buf [of i] that by blast
      then have "msg_of mi t m = msg_of mi s m" if "m \<in> set (qs p)" for m
        using msg_of_cong [OF sh that h [OF that False]] by blast
      with False show ?thesis by (simp add: shape_qmsgs [OF sh'] shape_qmsgs [OF sh])
    qed (simp add: shape_qmsgs [OF sh'])
  qed
  ultimately show ?thesis by simp
qed


section \<open>Freeing a message\<close>

text \<open>What \<open>msgfree\<close> does before it turns to the resource map, and after.\<close>

definition msg_unlink :: "nat \<Rightarrow> nat option \<Rightarrow> nat \<Rightarrow> msgst \<Rightarrow> msgst" where
  "msg_unlink q pmp mp s =
     (let nxt = msg_next (msgh s mp);
          s = (case pmp of None \<Rightarrow> upd_q q (\<lambda>d. d\<lparr>msg_first := nxt\<rparr>) s
                         | Some p \<Rightarrow> upd_h p (\<lambda>h. h\<lparr>msg_next := nxt\<rparr>) s);
          s = (if nxt = None then upd_q q (\<lambda>d. d\<lparr>msg_last := pmp\<rparr>) s else s);
          s = upd_q q (\<lambda>d. d\<lparr>msg_qnum := msg_qnum d - 1\<rparr>) s
      in if qmode s q AND MSG_WWAIT \<noteq> 0
         then msg_wakeup (Ch_queue q) (upd_mode q (\<lambda>m. m AND NOT MSG_WWAIT) s) else s)"

definition hdr_push :: "nat \<Rightarrow> msgst \<Rightarrow> msgst" where
  "hdr_push mp s =
     (let s = upd_h mp (\<lambda>h. h\<lparr>msg_next := msgfp s\<rparr>) s;
          s = (if msgfp s = None then msg_wakeup Ch_header s else s)
      in s\<lparr>msgfp := Some mp\<rparr>)"

lemma msgfree_alt:
  "msgfree mi q pmp mp s =
     (let s = msg_unlink q pmp mp s
      in map_option (hdr_push mp)
           (if msg_ts (msgh s mp) \<noteq> 0
            then map_option (\<lambda>(m, _). s\<lparr>msgmap := m\<rparr>)
                   (mfree (msgmap s) (btoq mi (msg_ts (msgh s mp))) (msg_spot (msgh s mp) + 1))
            else Some s))"
  by (simp only: msgfree_def msg_unlink_def hdr_push_def [abs_def] Let_def)

lemma hdr_push_fields [msg_simps]:
  "msgque (hdr_push m s) = msgque s" "msgh (hdr_push m s) = (msgh s)(m := (msgh s m)\<lparr>msg_next := msgfp s\<rparr>)"
  "msgmap (hdr_push m s) = msgmap s" "msgfp (hdr_push m s) = Some m" "mbuf (hdr_push m s) = mbuf s"
  by (auto simp: hdr_push_def msg_simps Let_def)

lemma msg_unlink_fields [msg_simps]:
  "msgmap (msg_unlink q pmp m s) = msgmap s" "msgfp (msg_unlink q pmp m s) = msgfp s"
  "mbuf (msg_unlink q pmp m s) = mbuf s"
  "msgh (msg_unlink q pmp m s) = (case pmp of None \<Rightarrow> msgh s
     | Some p \<Rightarrow> (msgh s)(p := (msgh s p)\<lparr>msg_next := msg_next (msgh s m)\<rparr>))"
  by (auto simp: msg_unlink_def msg_simps Let_def split: option.split)

text \<open>Permissions up to the two bits that note sleeping processes.\<close>

definition same_perm :: "ipc_perm \<Rightarrow> ipc_perm \<Rightarrow> bool" where
  "same_perm p p' \<longleftrightarrow> p' = p\<lparr>mode := mode p'\<rparr> \<and> mode p' AND 0xF9FF = mode p AND 0xF9FF"

lemma same_permI [simp]:
  "same_perm p p"
  "same_perm p (p\<lparr>mode := mode p AND NOT MSG_WWAIT\<rparr>)" "same_perm p (p\<lparr>mode := mode p AND NOT MSG_RWAIT\<rparr>)"
  "same_perm p (p\<lparr>mode := mode p OR MSG_WWAIT\<rparr>)" "same_perm p (p\<lparr>mode := mode p OR MSG_RWAIT\<rparr>)"
  by (simp_all add: same_perm_def MSG_WWAIT_def MSG_RWAIT_def word_bw_assocs word_bw_comms bit.conj_disj_distrib2)

lemma same_permD:
  assumes "same_perm p p'"
  shows "uid p' = uid p" "gid p' = gid p" "cuid p' = cuid p" "cgid p' = cgid p" "seq p' = seq p" "key p' = key p"
    "m AND 0xF9FF = m \<Longrightarrow> mode p' AND m = mode p AND m"
proof -
  from assms show "uid p' = uid p" "gid p' = gid p" "cuid p' = cuid p" "cgid p' = cgid p" "seq p' = seq p" "key p' = key p"
    by (cases p; cases p'; simp add: same_perm_def)+
  assume m: "m AND 0xF9FF = m"
  have "x AND m = (x AND 0xF9FF) AND m" for x by (metis m and.assoc and.commute)
  with assms show "mode p' AND m = mode p AND m" by (metis same_perm_def)
qed

lemma same_perm_ipc:
  assumes "\<And>q. same_perm (f q) (g q)"
  shows "ipc_conv n g 0 k = ipc_conv n f 0 k"
    "ipcaccess u (g q) MSG_R = ipcaccess u (f q) MSG_R" "ipcaccess u (g q) MSG_W = ipcaccess u (f q) MSG_W"
proof -
  have al: "mode (g q) AND IPC_ALLOC = mode (f q) AND IPC_ALLOC" for q
    by (rule same_permD(7) [OF assms]) (simp add: IPC_ALLOC_def)
  show "ipc_conv n g 0 k = ipc_conv n f 0 k"
    by (simp add: ipc_conv_def al same_permD(5) [OF assms] Let_def)
  have a: "mode (g q) AND m = mode (f q) AND m" if "m AND 0xF9FF = m" for m q
    using that by (rule same_permD(7) [OF assms])
  show "ipcaccess u (g q) MSG_R = ipcaccess u (f q) MSG_R" "ipcaccess u (g q) MSG_W = ipcaccess u (f q) MSG_W"
    by (simp_all add: ipcaccess_def MSG_R_def MSG_W_def drop_bit_eq_div word_div_def
        same_permD(1-4) [OF assms] a and.commute [of _ "mode x" for x] Let_def)
qed

lemma msg_unlink_queue:
  "\<exists>p. same_perm (msg_perm (msgque s q)) p \<and>
     msgque (msg_unlink q pmp m s) = (msgque s)(q := (msgque s q)\<lparr>msg_perm := p, msg_qnum := msg_qnum (msgque s q) - 1,
       msg_first := (if pmp = None then msg_next (msgh s m) else msg_first (msgque s q)),
       msg_last := (if msg_next (msgh s m) = None then pmp else msg_last (msgque s q))\<rparr>)"
proof -
  have e: "d\<lparr>msg_perm := msg_perm d\<rparr> = d" for d :: msqid_ds by simp
  show ?thesis
  proof (cases "qmode s q AND MSG_WWAIT = 0")
    case True
    then show ?thesis
      by (intro exI [of _ "msg_perm (msgque s q)"])
        (cases pmp, auto simp: msg_unlink_def msg_simps qmode_def Let_def)
  next
    case False
    then show ?thesis
      by (intro exI [of _ "(msg_perm (msgque s q))\<lparr>mode := mode (msg_perm (msgque s q)) AND NOT MSG_WWAIT\<rparr>"])
        (cases pmp, auto simp: msg_unlink_def msg_simps qmode_def Let_def)
  qed
qed


lemma next_irrelevant [simp]: "seg mi (h\<lparr>msg_next := n\<rparr>) = seg mi h" "hdr_ok mi (h\<lparr>msg_next := n\<rparr>) = hdr_ok mi h"
  by (simp_all add: seg_def hdr_ok_def)

lemma seg_taken:
  assumes "msg_shape mi s fr qs" "m \<in> set (qs q)" "msg_ts (msgh s m) \<noteq> 0"
  shows "\<exists>mp ev. mfree (msgmap s) (btoq mi (msg_ts (msgh s m))) (msg_spot (msgh s m) + 1) = Some (mp, ev) \<and> map_ok mp \<and>
     free_units mp \<subseteq> free_units (msgmap s) \<union> seg mi (msgh s m)"
proof -
  have h: "hdr_ok mi (msgh s m)" "seg mi (msgh s m) \<inter> free_units (msgmap s) = {}"
    using shapeD(8) [OF assms(1), of q] assms(2) by (auto simp: segs_ok_def)
  then have sp: "msg_spot (msgh s m) + 1 \<noteq> 0" using assms(3) by (simp add: hdr_ok_def)
  note f = hdr_fits [OF shapeD(10) [OF assms(1)] h(1) assms(3)]
  have r: "seg mi (msgh s m) = run (msg_spot (msgh s m) + 1) (btoq mi (msg_ts (msgh s m)))"
    using assms(3) by (simp add: seg_def)
  from kmap.put_law [OF shapeD(2) [OF assms(1)] f(1) sp f(3) h(2) [unfolded r]] show ?thesis
    unfolding r by (auto split: if_splits)
qed

text \<open>A change of next pointers and lists alone moves messages but does not alter them.\<close>

lemma msgfree_ok:
  assumes sh: "msg_shape mi s fr qs" and ms: "qs q = us @ mp # vs"
    and pmp: "pmp = (if us = [] then None else Some (last us))"
  shows "\<exists>t. msgfree mi q pmp mp s = Some t \<and> msg_shape mi t (mp # fr) (qs(q := us @ vs)) \<and>
     qmsgs mi t = (qmsgs mi s)(q := map (msg_of mi s) (us @ vs)) \<and>
     (\<forall>m. msg_ts (msgh t m) = msg_ts (msgh s m)) \<and> (\<forall>p. msg_cbytes (msgque t p) = msg_cbytes (msgque s p)) \<and>
     (\<forall>p. same_perm (msg_perm (msgque s p)) (msg_perm (msgque t p)))"
proof -
  note S = shapeD [OF sh]
  define s1 where "s1 = msg_unlink q pmp mp s"
  have h1: "msgh s1 mp = msgh s mp" and b1: "msg_ts (msgh s1 m) = msg_ts (msgh s m)"
    "msg_type (msgh s1 m) = msg_type (msgh s m)" "msg_spot (msgh s1 m) = msg_spot (msgh s m)" for m
    using chain_distinct [of "m_nx s" _ "qs q"] S(4) [of q] ms pmp
    by (auto simp: s1_def msg_simps que_ok_def split: option.split)
  have k: "\<exists>m. msgfree mi q pmp mp s = Some (hdr_push mp (s1\<lparr>msgmap := m\<rparr>)) \<and> map_ok m \<and>
      free_units m \<subseteq> free_units (msgmap s) \<union> seg mi (msgh s mp)"
  proof (cases "msg_ts (msgh s mp) = 0")
    case True
    moreover have "s1\<lparr>msgmap := msgmap s\<rparr> = s1" by (simp add: s1_def msg_simps [symmetric])
    ultimately show ?thesis using S(2) by (intro exI [of _ "msgmap s"]) (simp add: msgfree_alt s1_def [symmetric] h1 Let_def)
  next
    case False
    have m1: "msgmap s1 = msgmap s" by (simp add: s1_def msg_simps)
    from seg_taken [OF sh, of mp q] False ms show ?thesis
      by (auto simp: msgfree_alt s1_def [symmetric] h1 m1 Let_def)
  qed
  then obtain m where m: "msgfree mi q pmp mp s = Some (hdr_push mp (s1\<lparr>msgmap := m\<rparr>))" "map_ok m"
    "free_units m \<subseteq> free_units (msgmap s) \<union> seg mi (msgh s mp)" by blast
  define t where "t = hdr_push mp (s1\<lparr>msgmap := m\<rparr>)"
  obtain p where p: "same_perm (msg_perm (msgque s q)) p"
    "msgque s1 = (msgque s)(q := (msgque s q)\<lparr>msg_perm := p, msg_qnum := msg_qnum (msgque s q) - 1,
       msg_first := (if pmp = None then msg_next (msgh s mp) else msg_first (msgque s q)),
       msg_last := (if msg_next (msgh s mp) = None then pmp else msg_last (msgque s q))\<rparr>)"
    using msg_unlink_queue [of s q pmp mp] unfolding s1_def by blast
  have Q: "msgque t = msgque s1" "msgmap t = m" "mbuf t = mbuf s" "msgfp t = Some mp"
    by (simp_all add: t_def s1_def msg_simps)
  have H: "msgh t = (if us = [] then msgh s else (msgh s)(last us := (msgh s (last us))\<lparr>msg_next := msg_next (msgh s mp)\<rparr>))
      (mp := (msgh s mp)\<lparr>msg_next := msgfp s\<rparr>)"
    using h1 by (auto simp: t_def s1_def msg_simps pmp)
  have d: "distinct (us @ mp # vs)" using S(4) [of q] ms chain_distinct by (metis que_ok_def)
  have c: "chain (m_nx s) (msg_first (msgque s q)) (us @ mp # vs)" using S(4) [of q] ms by (simp add: que_ok_def)
  then have nx: "msg_next (msgh s mp) = None \<longleftrightarrow> vs = []" by (cases vs) (auto simp: path_append m_nx_eq)
  have N: "m_nx t = (if us = [] then m_nx s else (m_nx s)(last us := m_nx s mp))(mp := msgfp s)"
    by (auto simp: m_nx_def H)
  have q: "que_ok t q (us @ vs)"
    using chain_unlink [OF c] d S(4) [of q] ms by (auto simp: que_ok_def N Q p pmp nx m_nx_eq)
  have same: "seg mi (msgh t n) = seg mi (msgh s n)" "hdr_ok mi (msgh t n) = hdr_ok mi (msgh s n)"
    "msg_of mi t n = msg_of mi s n" for n
    by (auto simp: H msg_of_def msg_text_def Q)
  have sgs: "segs mi t ns = segs mi s ns" for ns by (simp add: segs_def same)
  have so: "segs_ok mi s (us @ mp # vs)" using S(8) [of q] ms by simp
  have o: "hdr_ok mi (msgh s n)" "seg mi (msgh s n) \<inter> free_units (msgmap s) = {}" "seg mi (msgh s n) \<inter> seg mi (msgh s mp) = {}"
    if "n \<in> set (us @ vs)" for n
  proof -
    from that d have "n \<in> set (us @ mp # vs)" "n \<noteq> mp" "mp \<in> set (us @ mp # vs)" by auto
    then show "hdr_ok mi (msgh s n)" "seg mi (msgh s n) \<inter> free_units (msgmap s) = {}" "seg mi (msgh s n) \<inter> seg mi (msgh s mp) = {}"
      using so unfolding segs_ok_def by blast+
  qed
  have sg: "segs_ok mi t (us @ vs)"
    unfolding segs_ok_def same Q
  proof (intro conjI allI impI)
    fix n assume n: "n \<in> set (us @ vs)"
    show "hdr_ok mi (msgh s n)" "seg mi (msgh s n) \<inter> free_units m = {}" using o [OF n] m(3) by blast+
  next
    fix n n' assume "n \<in> set (us @ vs) \<and> n' \<in> set (us @ vs) \<and> n \<noteq> n'"
    moreover have "set (us @ vs) \<subseteq> set (us @ mp # vs)" by auto
    ultimately show "seg mi (msgh s n) \<inter> seg mi (msgh s n') = {}" using so unfolding segs_ok_def by blast
  qed
  have st: "msg_shape mi t (mp # fr) (qs(q := us @ vs)) \<and> qmsgs mi t = (qmsgs mi s)(q := map (msg_of mi t) (us @ vs))"
  proof (rule msg_step [OF sh q])
    have "us \<noteq> [] \<Longrightarrow> last us \<notin> set fr" using S(6) [of q] ms last_in_set [of us] by auto
    then show "chain (m_nx t) (msgfp t) (mp # fr)" using S(3) S(6) [of q] ms by (auto simp: N Q)
    show "set (mp # fr) \<union> set (us @ vs) = set fr \<union> set (qs q)" "set (mp # fr) \<inter> set (us @ vs) = {}"
      using S(6) [of q] d by (auto simp: ms)
    show "msgh t n = msgh s n" if "n \<notin> set fr \<union> set (qs q)" for n using that by (auto simp: H ms)
    show "msgque t r = msgque s r" if "r \<noteq> q" for r using that by (simp add: Q p)
    show "map_ok (msgmap t)" using m(2) by (simp add: Q)
    show "free_units (msgmap t) \<union> segs mi t (us @ vs) \<subseteq> free_units (msgmap s) \<union> segs mi s (qs q)"
      using m(3) unfolding sgs Q ms by (auto simp: segs_def)
  qed (use sg Q in auto)
  moreover have "msg_ts (msgh t n) = msg_ts (msgh s n)" for n by (auto simp: H)
  moreover have "msg_cbytes (msgque t r) = msg_cbytes (msgque s r)"
    "same_perm (msg_perm (msgque s r)) (msg_perm (msgque t r))" for r
    using p by (auto simp: Q)
  ultimately show ?thesis using m(1) same by (auto simp: t_def)
qed


lemma same_perm_trans: "same_perm p q \<Longrightarrow> same_perm q r \<Longrightarrow> same_perm p r"
  by (cases p; cases q; cases r) (auto simp: same_perm_def)

text \<open>The loop of \<open>IPC_RMID\<close> ends with the queue empty and its headers free.\<close>

lemma msg_purge_ok:
  assumes "msg_shape mi s fr qs"
  shows "\<exists>t fr'. msg_purge mi q s = Some t \<and> msg_shape mi t fr' (qs(q := [])) \<and> qmsgs mi t = (qmsgs mi s)(q := []) \<and>
     (\<forall>m. msg_ts (msgh t m) = msg_ts (msgh s m)) \<and> (\<forall>p. msg_cbytes (msgque t p) = msg_cbytes (msgque s p)) \<and>
     (\<forall>p. same_perm (msg_perm (msgque s p)) (msg_perm (msgque t p)))"
  using assms
proof (induction "qs q" arbitrary: s fr qs)
  case Nil
  then have "msg_first (msgque s q) = None" using shapeD(4) [of mi s fr qs q] by (simp add: que_ok_def)
  moreover have "qs(q := []) = qs" using Nil by auto
  moreover have "(qmsgs mi s)(q := []) = qmsgs mi s" using Nil by (auto simp: shape_qmsgs)
  ultimately show ?case using Nil by (subst msg_purge.simps) auto
next
  case (Cons m ms)
  have first: "msg_first (msgque s q) = Some m"
    using shapeD(4) [OF Cons.prems, of q] by (simp add: que_ok_def Cons.hyps(2) [symmetric])
  from msgfree_ok [OF Cons.prems, of q "[]" m ms None] Cons.hyps(2) obtain s1 where s1:
    "msgfree mi q None m s = Some s1" "msg_shape mi s1 (m # fr) (qs(q := ms))"
    "qmsgs mi s1 = (qmsgs mi s)(q := map (msg_of mi s) ms)" "\<forall>m. msg_ts (msgh s1 m) = msg_ts (msgh s m)"
    "\<forall>p. msg_cbytes (msgque s1 p) = msg_cbytes (msgque s p)"
    "\<forall>p. same_perm (msg_perm (msgque s p)) (msg_perm (msgque s1 p))" by auto
  from Cons.hyps(1) [of "qs(q := ms)" s1 "m # fr"] s1(2) obtain t fr' where t:
    "msg_purge mi q s1 = Some t" "msg_shape mi t fr' (qs(q := []))" "qmsgs mi t = (qmsgs mi s1)(q := [])"
    "\<forall>m. msg_ts (msgh t m) = msg_ts (msgh s1 m)" "\<forall>p. msg_cbytes (msgque t p) = msg_cbytes (msgque s1 p)"
    "\<forall>p. same_perm (msg_perm (msgque s1 p)) (msg_perm (msgque t p))" by auto
  have "msg_purge mi q s = Some t" using first s1(1) t(1) by (subst msg_purge.simps) simp
  moreover have "qmsgs mi t = (qmsgs mi s)(q := [])" by (simp add: t(3) s1(3))
  moreover have "same_perm (msg_perm (msgque s r)) (msg_perm (msgque t r))" for r
    using s1(6) t(6) by (blast intro: same_perm_trans)
  ultimately show ?case using s1(4,5) t(2,4,5) by auto
qed

section \<open>The choice of a message\<close>

definition eligible :: "u32 \<Rightarrow> u32 \<Rightarrow> bool" where
  "eligible typ ty \<longleftrightarrow> typ = 0 \<or> (0 <s typ \<and> ty = typ) \<or> (typ <s 0 \<and> ty \<le>s - typ)"

text \<open>Which element of \<open>us @ m # vs\<close> is to be received: the first eligible one, or, for a negative
  type, the first of the least type among the eligible ones.\<close>

definition chosen :: "u32 \<Rightarrow> u32 list \<Rightarrow> u32 \<Rightarrow> u32 list \<Rightarrow> bool" where
  "chosen typ us m vs \<longleftrightarrow> eligible typ m \<and>
     (\<forall>x \<in> set us. eligible typ x \<longrightarrow> typ <s 0 \<and> m <s x) \<and>
     (\<forall>x \<in> set vs. eligible typ x \<and> typ <s 0 \<longrightarrow> m \<le>s x)"

definition prd :: "nat list \<Rightarrow> nat option" where
  "prd us = (if us = [] then None else Some (last us))"

definition best_ok :: "(nat \<Rightarrow> u32) \<Rightarrow> u32 \<Rightarrow> nat list \<Rightarrow> (nat \<times> nat option) option \<Rightarrow> bool" where
  "best_ok ty typ pre best \<longleftrightarrow> (case best of
      None \<Rightarrow> \<forall>x \<in> set pre. \<not> eligible typ (ty x)
    | Some (b, pb) \<Rightarrow> \<exists>us vs. pre = us @ b # vs \<and> pb = prd us \<and> chosen typ (map ty us) (ty b) (map ty vs))"

lemma prd_snoc [simp]: "prd (xs @ [x]) = Some x" "prd [] = None"
  by (simp_all add: prd_def)

lemma prd_None [simp]: "prd xs = None \<longleftrightarrow> xs = []"
  by (simp add: prd_def)

lemma word_sle_trans: "(a :: 'a::len word) \<le>s b \<Longrightarrow> b \<le>s c \<Longrightarrow> a \<le>s c"
  by (simp add: word_sle_eq)

lemma word_not_sle: "\<not> (a :: 'a::len word) \<le>s b \<longleftrightarrow> b <s a"
  by (auto simp: word_sle_eq word_sless_alt)

lemma best_ok_keep:
  assumes "best_ok ty typ pre best"
    and "case best of None \<Rightarrow> \<not> eligible typ (ty m) | Some (b, _) \<Rightarrow> eligible typ (ty m) \<and> typ <s 0 \<longrightarrow> ty b \<le>s ty m"
  shows "best_ok ty typ (pre @ [m]) best"
proof (cases best)
  case (Some bp)
  obtain b pb where bp: "bp = (b, pb)" by fastforce
  from assms(1) obtain us vs where "pre = us @ b # vs" "pb = prd us" "chosen typ (map ty us) (ty b) (map ty vs)"
    by (auto simp: best_ok_def Some bp)
  then have "pre @ [m] = us @ b # (vs @ [m]) \<and> pb = prd us \<and> chosen typ (map ty us) (ty b) (map ty (vs @ [m]))"
    using assms(2) by (auto simp: Some bp chosen_def)
  then show ?thesis unfolding best_ok_def Some bp option.case prod.case by blast
qed (use assms in \<open>auto simp: best_ok_def\<close>)

lemma best_ok_new:
  assumes "eligible typ (ty m)" "\<And>x. x \<in> set pre \<Longrightarrow> eligible typ (ty x) \<Longrightarrow> typ <s 0 \<and> ty m <s ty x"
    and "0 <s typ \<or> ms = []"
  shows "best_ok ty typ (pre @ m # ms) (Some (m, prd pre))"
proof -
  have "\<not> (0 <s typ \<and> typ <s 0)" by (simp add: word_sless_alt)
  then have "chosen typ (map ty pre) (ty m) (map ty ms)" using assms by (auto simp: chosen_def)
  then show ?thesis unfolding best_ok_def by auto
qed

lemma msg_scan_ok:
  assumes "typ \<noteq> 0" "best_ok (\<lambda>m. msg_type (h m)) typ pre best" "0 <s typ \<longrightarrow> best = None"
  shows "best_ok (\<lambda>m. msg_type (h m)) typ (pre @ ms) (msg_scan h typ (prd pre) ms best)"
  using assms
proof (induction ms arbitrary: pre best)
  case (Cons m ms)
  have IH: "best_ok (\<lambda>m. msg_type (h m)) typ (pre @ m # ms) (msg_scan h typ (Some m) ms b)"
    if "best_ok (\<lambda>m. msg_type (h m)) typ (pre @ [m]) b" "0 <s typ \<longrightarrow> b = None" for b
    using Cons.IH [of "pre @ [m]" b] that Cons.prems(1) by simp
  have sg: "typ <s 0 \<longleftrightarrow> \<not> 0 <s typ" using Cons.prems(1)
    by (metis signed.less_le signed.not_less)
  show ?case
  proof (cases "0 <s typ")
    case True
    then have el: "eligible typ x \<longleftrightarrow> x = typ" for x using Cons.prems(1) sg by (auto simp: eligible_def)
    show ?thesis
    proof (cases "typ = msg_type (h m)")
      case True
      with \<open>0 <s typ\<close> Cons.prems(2,3) have "best_ok (\<lambda>m. msg_type (h m)) typ (pre @ m # ms) (Some (m, prd pre))"
        by (intro best_ok_new) (auto simp: best_ok_def eligible_def)
      then show ?thesis using True \<open>0 <s typ\<close> by simp
    next
      case False
      then show ?thesis using IH [of best] best_ok_keep [OF Cons.prems(2), of m] \<open>0 <s typ\<close> Cons.prems(3)
        by (auto simp: el)
    qed
  next
    case False
    then have el: "eligible typ x \<longleftrightarrow> x \<le>s - typ" for x using Cons.prems(1) sg by (auto simp: eligible_def)
    show ?thesis
    proof (cases "msg_type (h m) \<le>s - typ")
      case True
      show ?thesis
      proof (cases best)
        case None
        then have "best_ok (\<lambda>m. msg_type (h m)) typ (pre @ [m]) (Some (m, prd pre))"
          using Cons.prems(2) True by (intro best_ok_new) (auto simp: el best_ok_def)
        from IH [OF this] None True False show ?thesis by simp
      next
        case (Some bp)
        obtain b pb where bp: "bp = (b, pb)" by fastforce
        show ?thesis
        proof (cases "msg_type (h b) \<le>s msg_type (h m)")
          case le: True
          then show ?thesis using IH [of best] best_ok_keep [OF Cons.prems(2), of m] False True
            by (auto simp: Some bp)
        next
          case gt: False
          from Cons.prems(2) have old: "x \<in> set pre \<Longrightarrow> x \<noteq> b \<Longrightarrow> eligible typ (msg_type (h x)) \<Longrightarrow> msg_type (h b) \<le>s msg_type (h x)" for x
            using False sg by (auto simp: best_ok_def Some bp chosen_def signed.less_imp_le)
          have "best_ok (\<lambda>m. msg_type (h m)) typ (pre @ [m]) (Some (m, prd pre))"
          proof (rule best_ok_new)
            fix x assume x: "x \<in> set pre" "eligible typ (msg_type (h x))"
            have "msg_type (h b) \<le>s msg_type (h x)" using old [OF x(1) _ x(2)] by (cases "x = b") auto
            with gt sg False show "typ <s 0 \<and> msg_type (h m) <s msg_type (h x)"
              by (auto simp: word_sle_eq word_sless_alt)
          qed (use True el in auto)
          from IH [OF this] gt False True show ?thesis by (simp add: Some bp)
        qed
      qed
    next
      case ne: False
      then have "best_ok (\<lambda>m. msg_type (h m)) typ (pre @ [m]) best"
        using best_ok_keep [OF Cons.prems(2), of m] by (auto simp: el split: option.splits)
      from IH [OF this] False ne show ?thesis by simp
    qed
  qed
qed simp


lemma msg_find_ok:
  assumes "msg_shape mi s fr qs"
  shows "best_ok (\<lambda>m. msg_type (msgh s m)) typ (qs q) (msg_find mi typ q s)"
proof (cases "typ = 0")
  case True
  have "chain (m_nx s) (msg_first (msgque s q)) (qs q)" using shapeD(4) [OF assms] by (simp add: que_ok_def)
  then have "msg_first (msgque s q) = (case qs q of [] \<Rightarrow> None | m # _ \<Rightarrow> Some m)" by (cases "qs q") auto
  moreover have "best_ok ty 0 (m # ms) (Some (m, None))" for ty m ms
    using best_ok_new [of 0 ty m "[]" ms] by (simp add: best_ok_def chosen_def eligible_def)
  ultimately show ?thesis using True by (auto simp: msg_find_def best_ok_def split: list.split)
next
  case False
  with msg_scan_ok [of "typ" "msgh s" "[]" None "qs q"] show ?thesis
    by (simp add: msg_find_def shape_walk [OF assms] best_ok_def)
qed

text \<open>Changes that touch no list.\<close>

lemma shape_cong:
  assumes "msgh t = msgh s" "msgmap t = msgmap s" "msgfp t = msgfp s" "mbuf t = mbuf s"
    "\<And>q. msg_first (msgque t q) = msg_first (msgque s q)" "\<And>q. msg_last (msgque t q) = msg_last (msgque s q)"
    "\<And>q. msg_qnum (msgque t q) = msg_qnum (msgque s q)"
  shows "msg_shape mi t fr qs \<longleftrightarrow> msg_shape mi s fr qs" "qmsgs mi t = qmsgs mi s" "msg_of mi t = msg_of mi s"
proof -
  have n: "m_nx t = m_nx s" by (simp add: m_nx_def assms(1))
  show "msg_of mi t = msg_of mi s" by (rule ext) (simp add: msg_of_def msg_text_def assms)
  then show "qmsgs mi t = qmsgs mi s" by (auto simp: qmsgs_def n assms)
  show "msg_shape mi t fr qs \<longleftrightarrow> msg_shape mi s fr qs"
    by (simp add: msg_shape_def que_ok_def segs_ok_def segs_def n assms)
qed

lemma shape_upd_mode:
  "msg_shape mi (upd_mode q f s) fr qs \<longleftrightarrow> msg_shape mi s fr qs" "qmsgs mi (upd_mode q f s) = qmsgs mi s"
  "cbytes_ok (upd_mode q f s) qs \<longleftrightarrow> cbytes_ok s qs"
  by (rule shape_cong; simp add: msg_simps)+ (auto simp: cbytes_ok_def msg_simps)

lemma shape_wakeup:
  "msg_shape mi (msg_wakeup c s) fr qs \<longleftrightarrow> msg_shape mi s fr qs" "qmsgs mi (msg_wakeup c s) = qmsgs mi s"
  "cbytes_ok (msg_wakeup c s) qs \<longleftrightarrow> cbytes_ok s qs"
  by (rule shape_cong; simp add: msg_simps)+ (auto simp: cbytes_ok_def msg_simps)

lemma msg_ok_upd_mode: "msg_ok mi (upd_mode q f s) \<longleftrightarrow> msg_ok mi s"
  by (simp add: msg_ok_def shape_upd_mode)

section \<open>Receiving a message\<close>

text \<open>What a receive does to the queues.\<close>

definition received :: "u32 \<Rightarrow> u16 \<Rightarrow> nat \<Rightarrow> u32 \<Rightarrow> byte list \<Rightarrow> (nat \<Rightarrow> (u32 \<times> byte list) list) \<Rightarrow>
    (nat \<Rightarrow> (u32 \<times> byte list) list) \<Rightarrow> bool" where
  "received typ msgsz q ty xs Q Q' \<longleftrightarrow> (\<exists>us ys vs. Q q = us @ (ty, ys) # vs \<and> Q' = Q(q := us @ vs) \<and>
     chosen typ (map fst us) ty (map fst vs) \<and> xs = take (unat msgsz) ys)"

lemma msgrcv_pass_ok:
  assumes "msg_ok mi s" "\<not> msgsz <s 0" "msgrcv_pass mi u now q msgsz typ flg ok1 ok2 s = (r, t)"
  shows "msg_ok mi t \<and> (\<forall>p. same_perm (msg_perm (msgque s p)) (msg_perm (msgque t p))) \<and> r \<noteq> Msg_wild \<and> r \<noteq> Msg_sent \<and>
    (case r of Msg_got w xs \<Rightarrow>
        \<exists>ty. w = (if ok1 then Some ty else None) \<and> received typ msgsz q ty xs (qmsgs mi s) (qmsgs mi t)
     | _ \<Rightarrow> qmsgs mi t = qmsgs mi s) \<and>
    ((\<exists>x \<in> set (qmsgs mi s q). eligible typ (fst x)) \<longleftrightarrow> (case r of Msg_asleep c \<Rightarrow> False | Msg_fail e \<Rightarrow> e \<noteq> ENOMSG | _ \<Rightarrow> True)) \<and>
    (\<forall>e. r = Msg_fail e \<longrightarrow> e = ENOMSG \<or> (e = EFAULT \<and> \<not> ok2) \<or>
       (e = E2BIG \<and> flg AND MSG_NOERROR = 0 \<and> (\<exists>us x vs. qmsgs mi s q = us @ x # vs \<and>
          chosen typ (map fst us) (fst x) (map fst vs) \<and> unat msgsz < length (snd x))))"
proof -
  obtain fr qs where sh: "msg_shape mi s fr qs" and cb: "cbytes_ok s qs" using assms(1) by (auto simp: msg_ok_def)
  note B = msg_find_ok [OF sh, of "typ" q]
  have Q: "qmsgs mi s q = map (msg_of mi s) (qs q)" by (rule shape_qmsgs [OF sh])
  have ty: "fst (msg_of mi s m) = msg_type (msgh s m)" for m by (simp add: msg_of_def)
  show ?thesis
  proof (cases "msg_find mi typ q s")
    case None
    then have "\<forall>x \<in> set (qmsgs mi s q). \<not> eligible typ (fst x)" using B by (simp add: Q ty best_ok_def)
    with None assms(1,3) show ?thesis
      by (auto simp: msgrcv_pass_def msg_ok_upd_mode shape_upd_mode msg_simps split: if_splits)
  next
    case (Some mp)
    obtain m pmp where mp: "mp = (m, pmp)" by fastforce
    from B obtain us vs where m: "qs q = us @ m # vs" "pmp = prd us"
      "chosen typ (map (\<lambda>m. msg_type (msgh s m)) us) (msg_type (msgh s m)) (map (\<lambda>m. msg_type (msgh s m)) vs)"
      by (auto simp: best_ok_def Some mp)
    then have el: "\<exists>x \<in> set (qmsgs mi s q). eligible typ (fst x)"
      by (auto simp: Q ty chosen_def)
    define s1 where "s1 = upd_q q (\<lambda>d. d\<lparr>msg_cbytes := msg_cbytes d - msg_ts (msgh s m), msg_lrpid := u_pid u, msg_rtime := now\<rparr>) s"
    have s1: "msg_shape mi s1 fr qs" "qmsgs mi s1 = qmsgs mi s" "msg_of mi s1 = msg_of mi s"
      using shape_cong [of s1 s] sh by (auto simp: s1_def msg_simps)
    have hs1: "msgh s1 = msgh s" by (simp add: s1_def msg_simps)
    from msgfree_ok [OF s1(1), of q us m vs pmp] m(1,2) obtain t' where t':
      "msgfree mi q pmp m s1 = Some t'" "msg_shape mi t' (m # fr) (qs(q := us @ vs))"
      "qmsgs mi t' = (qmsgs mi s)(q := map (msg_of mi s) (us @ vs))"
      "\<And>n. msg_ts (msgh t' n) = msg_ts (msgh s n)" "\<And>p. msg_cbytes (msgque t' p) = msg_cbytes (msgque s1 p)"
      "\<And>p. same_perm (msg_perm (msgque s1 p)) (msg_perm (msgque t' p))"
      by (auto simp: prd_def s1(2,3) hs1)
    have sp: "same_perm (msg_perm (msgque s p)) (msg_perm (msgque t' p))" for p
      using t'(6) [of p] by (cases "p = q") (auto simp: s1_def msg_simps)
    have "cbytes_ok t' (qs(q := us @ vs))"
      using cb m(1) by (auto simp: cbytes_ok_def t'(4,5) s1_def msg_simps)
    then have ok: "msg_ok mi t'" using t'(2) by (auto simp: msg_ok_def)
    have "unat (msg_ts (msgh s m)) \<le> unat (msgmax mi)"
      using shapeD(8) [OF sh, of q] m(1) by (auto simp: segs_ok_def hdr_ok_def)
    then have h: "unat (msg_ts (msgh s m)) < 32768" using shapeD(1,12) [OF sh] by linarith
    define sz where "sz = (if msgsz <s msg_ts (msgh s m) then msgsz else msg_ts (msgh s m))"
    have "unat msgsz < 32768" using assms(2) by (simp add: sless0_u16)
    then have big: "msgsz <s msg_ts (msgh s m) \<longleftrightarrow> unat msgsz < length (snd (msg_of mi s m))"
      using sless_small16 [OF _ h] by (simp add: msg_of_def msg_text_def)
    from \<open>unat msgsz < 32768\<close> have sz: "unat sz = min (unat msgsz) (unat (msg_ts (msgh s m)))"
      using sless_small16 [OF _ h] by (auto simp: sz_def)
    have "msg_text mi (msg_spot (msgh s m)) (unat sz) s = take (unat msgsz) (snd (msg_of mi s m))"
      by (simp add: msg_of_def msg_text_def take_map take_upt sz min.commute add.commute)
        (simp add: min_def add.commute)
    then have rc: "received typ msgsz q (msg_type (msgh s m)) (msg_text mi (msg_spot (msgh s m)) (unat sz) s)
        (qmsgs mi s) (qmsgs mi t')"
      unfolding received_def
      by (intro exI [of _ "map (msg_of mi s) us"] exI [of _ "snd (msg_of mi s m)"] exI [of _ "map (msg_of mi s) vs"])
        (use m in \<open>auto simp: Q t'(3) msg_of_def comp_def\<close>)
    have ch: "\<exists>us x vs. qmsgs mi s q = us @ x # vs \<and> chosen typ (map fst us) (fst x) (map fst vs) \<and>
        unat msgsz < length (snd x)" if "msgsz <s msg_ts (msgh s m)"
      using that m unfolding big
      by (intro exI [of _ "map (msg_of mi s) us"] exI [of _ "msg_of mi s m"] exI [of _ "map (msg_of mi s) vs"])
        (auto simp: Q ty comp_def)
    have "msgrcv_pass mi u now q msgsz typ flg ok1 ok2 s =
        (if msgsz <s msg_ts (msgh s m) \<and> flg AND MSG_NOERROR = 0 then (Msg_fail E2BIG, s)
         else if sz \<noteq> 0 \<and> \<not> ok2 then (Msg_fail EFAULT, s)
         else (Msg_got (if ok1 then Some (msg_type (msgh s m)) else None) (msg_text mi (msg_spot (msgh s m)) (unat sz) s), t'))"
      using t'(1) by (simp add: msgrcv_pass_def Some mp s1_def [symmetric] sz_def [symmetric] Let_def)
    with assms(1,3) el rc ok sp ch show ?thesis by (auto split: if_splits)
  qed
qed


section \<open>Sending a message\<close>

lemma msg_put_fields [msg_simps]:
  "msgmap (msg_put mi u now q ty cnt spot m s) = msgmap s" "mbuf (msg_put mi u now q ty cnt spot m s) = mbuf s"
  "msgfp (msg_put mi u now q ty cnt spot m s) = msg_next (msgh s m)"
  "msgh (msg_put mi u now q ty cnt spot m s) =
     (let h = (msgh s)(m := \<lparr>msg_next = None, msg_type = ty, msg_ts = cnt, msg_spot = (if cnt \<noteq> 0 then spot else - 1)\<rparr>)
      in case msg_last (msgque s q) of None \<Rightarrow> h | Some l \<Rightarrow> h(l := (h l)\<lparr>msg_next := Some m\<rparr>))"
  by (auto simp: msg_put_def msg_simps Let_def split: option.split)

lemma msg_put_queue:
  "\<exists>p. same_perm (msg_perm (msgque s q)) p \<and>
     msgque (msg_put mi u now q ty cnt spot m s) = (msgque s)(q := (msgque s q)\<lparr>msg_perm := p,
       msg_qnum := msg_qnum (msgque s q) + 1, msg_cbytes := msg_cbytes (msgque s q) + cnt,
       msg_lspid := u_pid u, msg_stime := now,
       msg_first := (if msg_last (msgque s q) = None then Some m else msg_first (msgque s q)), msg_last := Some m\<rparr>)"
proof (cases "qmode s q AND MSG_RWAIT = 0")
  case True
  then show ?thesis
    by (intro exI [of _ "msg_perm (msgque s q)"])
      (cases "msg_last (msgque s q)", auto simp: msg_put_def msg_simps qmode_def Let_def)
next
  case False
  then show ?thesis
    by (intro exI [of _ "(msg_perm (msgque s q))\<lparr>mode := mode (msg_perm (msgque s q)) AND NOT MSG_RWAIT\<rparr>"])
      (cases "msg_last (msgque s q)", auto simp: msg_put_def msg_simps qmode_def Let_def)
qed

lemma msg_put_ok:
  assumes sh: "msg_shape mi s (mp # fr) qs" and m: "map_ok m"
    and cnt: "unat cnt \<le> unat (msgmax mi)" "cnt \<noteq> 0 \<Longrightarrow> spot + 1 \<noteq> 0 \<and> unat spot + unat (btoq mi cnt) \<le> unat (msgseg mi)"
    and free: "free_units m \<inter> (if cnt = 0 then {} else run (spot + 1) (btoq mi cnt)) = {}"
      "free_units m \<union> (if cnt = 0 then {} else run (spot + 1) (btoq mi cnt)) \<subseteq> free_units (msgmap s)"
    and b: "\<And>i. b i \<noteq> mbuf s i \<Longrightarrow> i div unat (msgssz mi) + 1 \<in> free_units (msgmap s)"
    and t: "t = msg_put mi u now q ty cnt spot mp (s\<lparr>msgmap := m, mbuf := b\<rparr>)"
  shows "msg_shape mi t fr (qs(q := qs q @ [mp])) \<and>
     qmsgs mi t = (qmsgs mi s)(q := qmsgs mi s q @ [(ty, map b [msg_addr mi spot ..< msg_addr mi spot + unat cnt])])"
proof -
  note S = shapeD [OF sh]
  have d: "mp \<notin> set fr" "\<And>p. mp \<notin> set (qs p)" "distinct (qs q)"
    using chain_distinct [OF S(3)] S(6) chain_distinct [of "m_nx s" _ "qs q"] S(4) [of q] by (auto simp: que_ok_def)
  define h where "h = \<lparr>msg_next = None, msg_type = ty, msg_ts = cnt, msg_spot = (if cnt \<noteq> 0 then spot else - 1)\<rparr>"
  have last: "msg_last (msgque s q) = prd (qs q)" using S(4) [of q] by (simp add: que_ok_def prd_def)
  obtain p where p: "msgque t = (msgque s)(q := (msgque s q)\<lparr>msg_perm := p,
       msg_qnum := msg_qnum (msgque s q) + 1, msg_cbytes := msg_cbytes (msgque s q) + cnt,
       msg_lspid := u_pid u, msg_stime := now,
       msg_first := (if qs q = [] then Some mp else msg_first (msgque s q)), msg_last := Some mp\<rparr>)"
    using msg_put_queue [of "s\<lparr>msgmap := m, mbuf := b\<rparr>" q mi u now ty cnt spot mp]
    by (auto simp: t last prd_None cong: if_cong)
  have T: "msgmap t = m" "mbuf t = b" "msgfp t = msg_next (msgh s mp)"
    by (simp_all add: t msg_simps)
  have H: "msgh t = (if qs q = [] then (msgh s)(mp := h)
      else (msgh s)(mp := h, last (qs q) := (msgh s (last (qs q)))\<lparr>msg_next := Some mp\<rparr>))"
    using d(2) [of q] by (auto simp: t msg_simps last prd_def h_def Let_def)
  have N: "m_nx t = (if qs q = [] then (m_nx s)(mp := None) else (m_nx s)(mp := None, last (qs q) := Some mp))"
    by (auto simp: m_nx_def H h_def)
  have c: "chain (m_nx s) (msg_first (msgque s q)) (qs q)" using S(4) [of q] by (simp add: que_ok_def)
  have q: "que_ok t q (qs q @ [mp])"
    using chain_snoc(2) [OF c d(2) [of q]] S(4) [of q] by (auto simp: que_ok_def N p)
  have hm: "msgh t mp = h" using d(2) [of q] by (auto simp: H)
  have same: "seg mi (msgh t n) = seg mi (msgh s n)" "hdr_ok mi (msgh t n) = hdr_ok mi (msgh s n)"
    if "n \<noteq> mp" for n using that by (auto simp: H)
  let ?new = "if cnt = 0 then {} else run (spot + 1) (btoq mi cnt)"
  have new: "seg mi (msgh t mp) = ?new" "hdr_ok mi (msgh t mp)"
    using cnt by (auto simp: hm h_def seg_def hdr_ok_def)
  have so: "segs_ok mi s (qs q)" by (rule S(8))
  have old: "n \<in> set (qs q) \<Longrightarrow> n \<noteq> mp \<and> hdr_ok mi (msgh s n) \<and> seg mi (msgh s n) \<inter> free_units (msgmap s) = {}" for n
    using so d(2) [of q] by (auto simp: segs_ok_def)
  have sg: "segs_ok mi t (qs q @ [mp])"
    unfolding segs_ok_def
  proof (intro conjI allI impI)
    fix n assume n: "n \<in> set (qs q @ [mp])"
    show "hdr_ok mi (msgh t n)" using n old [of n] same(2) [of n] new(2) by (cases "n = mp") auto
    show "seg mi (msgh t n) \<inter> free_units (msgmap t) = {}"
    proof (cases "n = mp")
      case True then show ?thesis using free(1) unfolding T(1) True new(1) by blast
    next
      case False
      then show ?thesis using n old [of n] free(2) unfolding T(1) same(1) [OF False] by auto
    qed
  next
    fix n n' assume n: "n \<in> set (qs q @ [mp]) \<and> n' \<in> set (qs q @ [mp]) \<and> n \<noteq> n'"
    have away: "seg mi (msgh t k) \<inter> ?new = {}" if "k \<in> set (qs q)" for k
      using old [OF that] free(2) same(1) [of k] by blast
    show "seg mi (msgh t n) \<inter> seg mi (msgh t n') = {}"
    proof (cases "n = mp \<or> n' = mp")
      case True then show ?thesis using n away new(1) by auto
    next
      case False
      with n have "n \<in> set (qs q)" "n' \<in> set (qs q)" "n \<noteq> n'" by auto
      then show ?thesis using so False same(1) unfolding segs_ok_def by auto
    qed
  qed
  have sgs: "segs mi t (qs q @ [mp]) = segs mi s (qs q) \<union> ?new"
    using old new(1) same(1) by (auto simp: segs_def split: if_splits)
  have st: "msg_shape mi t fr (qs(q := qs q @ [mp])) \<and> qmsgs mi t = (qmsgs mi s)(q := map (msg_of mi t) (qs q @ [mp]))"
  proof (rule msg_step [OF sh q])
    have "qs q \<noteq> [] \<Longrightarrow> last (qs q) \<notin> set fr" using S(6) [of q] last_in_set [of "qs q"] by auto
    then show "chain (m_nx t) (msgfp t) fr" using S(3) d(1) by (auto simp: N T m_nx_eq)
    show "set fr \<union> set (qs q @ [mp]) = set (mp # fr) \<union> set (qs q)" "set fr \<inter> set (qs q @ [mp]) = {}"
      using S(6) [of q] d by auto
    show "msgh t n = msgh s n" if "n \<notin> set (mp # fr) \<union> set (qs q)" for n using that by (auto simp: H)
    show "msgque t r = msgque s r" if "r \<noteq> q" for r using that by (simp add: p)
    show "map_ok (msgmap t)" using m by (simp add: T)
    show "free_units (msgmap t) \<union> segs mi t (qs q @ [mp]) \<subseteq> free_units (msgmap s) \<union> segs mi s (qs q)"
      using free(2) unfolding sgs T(1) by blast
  qed (use sg T b in auto)
  have "msg_of mi t n = msg_of mi s n" if n: "n \<in> set (qs q)" for n
  proof -
    have n': "n \<noteq> mp" "hdr_ok mi (msgh s n)" "seg mi (msgh s n) \<inter> free_units (msgmap s) = {}" using old [OF n] by auto
    have "mbuf t i = mbuf s i" if "i div unat (msgssz mi) + 1 \<in> seg mi (msgh s n)" for i
      using b [of i] n'(3) that T(2) by blast
    from msg_text_cong [OF S(10) n'(2) this] show ?thesis using n'(1) by (auto simp: msg_of_def H)
  qed
  moreover have "msg_of mi t mp = (ty, map b [msg_addr mi spot ..< msg_addr mi spot + unat cnt])"
    by (auto simp: msg_of_def hm h_def msg_text_def T)
  ultimately show ?thesis using st by (simp add: shape_qmsgs [OF sh] cong: map_cong)
qed


lemma shape_map:
  assumes "msg_shape mi s fr qs" "map_ok m" "free_units m \<subseteq> free_units (msgmap s)"
  shows "msg_shape mi (s\<lparr>msgmap := m\<rparr>) fr qs" "qmsgs mi (s\<lparr>msgmap := m\<rparr>) = qmsgs mi s"
proof -
  have n: "m_nx (s\<lparr>msgmap := m\<rparr>) = m_nx s" by (simp add: m_nx_def)
  show "msg_shape mi (s\<lparr>msgmap := m\<rparr>) fr qs"
  proof -
    have "segs_ok mi (s\<lparr>msgmap := m\<rparr>) (qs q)" for q
      using segs_free [OF shapeD(8) [OF assms(1)], of q] assms(3)
      by (intro segs_ok_cong [OF _ shapeD(8) [OF assms(1)]]) auto
    moreover have "x \<le> unat (msgseg mi)" if "x \<in> free_units m" for x
      using shapeD(11) [OF assms(1)] that assms(3) by blast
    ultimately show ?thesis using assms(1,2) unfolding msg_shape_def que_ok_def segs_def n by simp
  qed
  have "msg_of mi (s\<lparr>msgmap := m\<rparr>) = msg_of mi s" by (rule ext) (simp add: msg_of_def msg_text_def)
  then show "qmsgs mi (s\<lparr>msgmap := m\<rparr>) = qmsgs mi s" by (auto simp: qmsgs_def n)
qed

lemma mapwant_irrelevant [simp]:
  "map_ok (m\<lparr>mapwant := x\<rparr>) = map_ok m" "free_units (m\<lparr>mapwant := x\<rparr>) = free_units m"
  by (simp_all add: map_ok_def map_shape_def free_units_def live_def)

lemma put_text_at: "map (put_text a xs b) [a ..< a + length xs] = xs"
  by (rule nth_equalityI) (simp_all add: put_text_def)

definition sent :: "u16 \<Rightarrow> byte list option \<Rightarrow> byte list" where
  "sent cnt txt = (if cnt = 0 then [] else case txt of None \<Rightarrow> [] | Some xs \<Rightarrow> xs)"

lemma cbytes_put:
  assumes "msg_shape mi s (mp # fr) qs" "cbytes_ok s qs"
  shows "cbytes_ok (msg_put mi u now q ty cnt spot mp (s\<lparr>msgmap := m, mbuf := b\<rparr>)) (qs(q := qs q @ [mp]))"
proof -
  have mp: "mp \<notin> set (qs p)" for p using shapeD(6) [OF assms(1), of p] by auto
  let ?t = "msg_put mi u now q ty cnt spot mp (s\<lparr>msgmap := m, mbuf := b\<rparr>)"
  have last: "msg_last (msgque s q) = prd (qs q)" using shapeD(4) [OF assms(1), of q] by (simp add: que_ok_def prd_def)
  have "msg_ts (msgh ?t n) = (if n = mp then cnt else msg_ts (msgh s n))" for n
    using mp [of q] by (auto simp: msg_simps last prd_def Let_def split: option.split)
  moreover have "msg_cbytes (msgque ?t p) = msg_cbytes (msgque s p) + (if p = q then cnt else 0)" for p
    using msg_put_queue [of "s\<lparr>msgmap := m, mbuf := b\<rparr>" q mi u now ty cnt spot mp] by auto
  moreover have "(\<Sum>m\<leftarrow>qs p. if m = mp then cnt else msg_ts (msgh s m)) = (\<Sum>m\<leftarrow>qs p. msg_ts (msgh s m))" for p
    using mp [of p] by (intro arg_cong [where f = sum_list] map_cong) auto
  ultimately show ?thesis using assms(2) by (auto simp: cbytes_ok_def)
qed

lemma msgsnd_pass_ok:
  assumes "msg_ok mi s" "\<not> cnt <s 0 \<and> \<not> msgmax mi <s cnt" "\<And>xs. txt = Some xs \<Longrightarrow> length xs = unat cnt"
    and "msgsnd_pass mi u now q cnt ty txt flg s = (r, t)"
  shows "msg_ok mi t \<and> (\<forall>p. same_perm (msg_perm (msgque s p)) (msg_perm (msgque t p))) \<and> r \<noteq> Msg_wild \<and>
    qmsgs mi t = (if r = Msg_sent then (qmsgs mi s)(q := qmsgs mi s q @ [(ty, sent cnt txt)]) else qmsgs mi s) \<and>
    (r = Msg_sent \<longrightarrow> cnt + msg_cbytes (msgque s q) \<le> msg_qbytes (msgque s q) \<and> (cnt = 0 \<or> txt \<noteq> None)) \<and>
    (\<forall>p. msg_qbytes (msgque t p) = msg_qbytes (msgque s p))"
proof -
  obtain fr qs where sh: "msg_shape mi s fr qs" and cb: "cbytes_ok s qs" using assms(1) by (auto simp: msg_ok_def)
  note S = shapeD [OF sh]
  have c: "unat cnt \<le> unat (msgmax mi)"
    using assms(2) sless_small16 [of "msgmax mi" cnt] S(1,12) by (simp add: sless0_u16)
  show ?thesis
  proof (cases "msg_qbytes (msgque s q) < cnt + msg_cbytes (msgque s q)")
    case True
    with assms(1,4) show ?thesis
      by (auto simp: msgsnd_pass_def msg_ok_upd_mode shape_upd_mode msg_simps split: if_splits)
  next
    case room: False
    show ?thesis
    proof (cases "msgfp s")
      case None
      with assms(1,4) room show ?thesis by (auto simp: msgsnd_pass_def split: if_splits)
    next
      case (Some mp)
      then obtain fr' where fr: "fr = mp # fr'" using S(3) by (auto simp: chain_Some)
      have perms: "same_perm (msg_perm (msgque s p)) (msg_perm (msgque (msg_put mi u now q ty cnt spot mp (s\<lparr>msgmap := m, mbuf := b\<rparr>)) p))"
        "msg_qbytes (msgque (msg_put mi u now q ty cnt spot mp (s\<lparr>msgmap := m, mbuf := b\<rparr>)) p) = msg_qbytes (msgque s p)"
        for p spot m b
        using msg_put_queue [of "s\<lparr>msgmap := m, mbuf := b\<rparr>" q mi u now ty cnt spot mp] by auto
      show ?thesis
      proof (cases "cnt = 0")
        case True
        have e: "s\<lparr>msgmap := msgmap s, mbuf := mbuf s\<rparr> = s" by simp
        have "t = msg_put mi u now q ty cnt 0 mp (s\<lparr>msgmap := msgmap s, mbuf := mbuf s\<rparr>)" "r = Msg_sent"
          using assms(4) room Some True unfolding e by (auto simp: msgsnd_pass_def)
        note t = this
        from msg_put_ok [OF sh [unfolded fr] S(2) c _ _ _ _ t(1)] True
        have "msg_shape mi t fr' (qs(q := qs q @ [mp]))" "qmsgs mi t = (qmsgs mi s)(q := qmsgs mi s q @ [(ty, [])])"
          by auto
        with cbytes_put [OF sh [unfolded fr] cb, of u now q ty cnt 0 "mbuf s" "msgmap s"] t perms [where m = "msgmap s" and b = "mbuf s"] room True
        show ?thesis by (auto simp: msg_ok_def sent_def)
      next
        case False
        let ?n = "btoq mi cnt"
        have n: "?n \<noteq> 0" using S(1,12) c False by (intro btoq_nat(3)) (auto)
        from kmap.get_law [OF S(2) n] obtain a m where am: "malloc (msgmap s) ?n = Some (a, m)" "map_ok m"
          "if a = 0 then m = msgmap s else unat a + unat ?n < 65536 \<and> run a ?n \<subseteq> free_units (msgmap s) \<and>
             free_units m = free_units (msgmap s) - run a ?n" by blast
        show ?thesis
        proof (cases "a = 0")
          case True
          with am have m: "m = msgmap s" by simp
          have "msg_ok mi (s\<lparr>msgmap := m\<lparr>mapwant := x\<rparr>\<rparr>)" "qmsgs mi (s\<lparr>msgmap := m\<lparr>mapwant := x\<rparr>\<rparr>) = qmsgs mi s" for x
            using shape_map [OF sh, of "m\<lparr>mapwant := x\<rparr>"] am(2) m cb by (auto simp: msg_ok_def cbytes_ok_def)
          then show ?thesis using assms(1,4) room Some False am(1) True m
            by (auto simp: msgsnd_pass_def split: if_splits)
        next
          case a: False
          with am have A: "unat a + unat ?n < 65536" "run a ?n \<subseteq> free_units (msgmap s)"
            "free_units m = free_units (msgmap s) - run a ?n" by auto
          show ?thesis
          proof (cases "txt")
            case None
            have "run a ?n \<inter> free_units m = {}" using A(3) by blast
            from kmap.put_law [OF am(2) n a A(1) this] obtain m' ev where m': "mfree m ?n a = Some (m', ev)" "map_ok m'"
              "if ev = Map_overflow then m' = m else free_units m' = free_units m \<union> run a ?n" by blast
            have "free_units m' \<subseteq> free_units (msgmap s)" using m'(3) A(2,3) by (auto split: if_splits)
            from shape_map [OF sh m'(2) this] cb
            have "msg_ok mi (s\<lparr>msgmap := m'\<rparr>)" "qmsgs mi (s\<lparr>msgmap := m'\<rparr>) = qmsgs mi s"
              by (auto simp: msg_ok_def cbytes_ok_def)
            then show ?thesis using assms(4) room Some False am(1) a None m'(1)
              by (auto simp: msgsnd_pass_def split: if_splits)
          next
            case xs: (Some xs)
            let ?b = "put_text (msg_addr mi (a - 1)) xs (mbuf s)"
            have t: "t = msg_put mi u now q ty cnt (a - 1) mp (s\<lparr>msgmap := m, mbuf := ?b\<rparr>)" "r = Msg_sent"
              using assms(4) room Some False am(1) a xs by (auto simp: msgsnd_pass_def)
            have ua: "unat (a - 1) = unat a - 1" "0 < unat a"
              using a by (auto simp: unat_minus_small word_le_nat_alt unat_gt_0 Suc_leI)
            have "0 < unat ?n" using n by (simp add: unat_gt_0)
            then have "unat a + unat ?n - 1 \<in> run a ?n" by (auto simp: run_def)
            then have seg: "unat (a - 1) + unat ?n \<le> unat (msgseg mi)" using A(2) S(11) ua by fastforce
            have len: "length xs = unat cnt" using assms(3) xs by simp
            have fit: "a - 1 + 1 \<noteq> 0 \<and> unat (a - 1) + unat ?n \<le> unat (msgseg mi)" using a seg by simp
            have buf: "i div unat (msgssz mi) + 1 \<in> free_units (msgmap s)" if "?b i \<noteq> mbuf s i" for i
            proof -
              have "msg_addr mi (a - 1) \<le> i" "i < msg_addr mi (a - 1) + unat cnt"
                using that len by (auto simp: put_text_def split: if_splits)
              from text_in_seg [OF S(10) False c seg _ this] ua A(2) show ?thesis by auto
            qed
            have "free_units m \<inter> run (a - 1 + 1) ?n = {}" "free_units m \<union> run (a - 1 + 1) ?n \<subseteq> free_units (msgmap s)"
              using A(2,3) by auto
            with msg_put_ok [OF sh [unfolded fr] am(2) c fit _ _ buf t(1)] False
            have "msg_shape mi t fr' (qs(q := qs q @ [mp]))" "qmsgs mi t = (qmsgs mi s)(q := qmsgs mi s q @ [(ty, xs)])"
              using put_text_at [of "msg_addr mi (a - 1)" xs "mbuf s"] len by auto
            with cbytes_put [OF sh [unfolded fr] cb, of u now q ty cnt "a - 1" ?b m] t perms room xs False
            show ?thesis by (auto simp: msg_ok_def sent_def)
          qed
        qed
      qed
    qed
  qed
qed


section \<open>Removal, creation and start-up\<close>

text \<open>The invariant of the facility: a slot that is not allocated has no messages.\<close>

definition msg_inv :: "msginfo \<Rightarrow> msgst \<Rightarrow> bool" where
  "msg_inv mi s \<longleftrightarrow> msg_ok mi s \<and> (\<forall>q. \<not> allocated (msg_perm (msgque s q)) \<longrightarrow> qmsgs mi s q = [])"

lemma same_perm_allocated: "same_perm p p' \<Longrightarrow> allocated p' \<longleftrightarrow> allocated p"
  by (subst same_permD(7)) (simp_all add: IPC_ALLOC_def)

lemma msgconv_allocated: "msgconv mi mid s = Ret q \<Longrightarrow> allocated (msg_perm (msgque s q))"
  by (auto simp: msgconv_def ipc_conv_def Let_def split: if_splits)

text \<open>A change of one queue's record that leaves its list alone.\<close>

lemma upd_q_list_ok:
  assumes "\<And>d. msg_first (f d) = msg_first d" "\<And>d. msg_last (f d) = msg_last d" "\<And>d. msg_qnum (f d) = msg_qnum d"
    and "msg_cbytes (f (msgque s q)) = msg_cbytes (msgque s q)"
  shows "msg_ok mi (upd_q q f s) \<longleftrightarrow> msg_ok mi s" "qmsgs mi (upd_q q f s) = qmsgs mi s"
proof -
  have "cbytes_ok (upd_q q f s) qs \<longleftrightarrow> cbytes_ok s qs" for qs
    using assms(4) by (auto simp: cbytes_ok_def msg_simps)
  moreover have "msg_shape mi (upd_q q f s) fr qs \<longleftrightarrow> msg_shape mi s fr qs" "qmsgs mi (upd_q q f s) = qmsgs mi s" for fr qs
    by (rule shape_cong; simp add: msg_simps assms(1-3))+
  ultimately show "msg_ok mi (upd_q q f s) \<longleftrightarrow> msg_ok mi s" "qmsgs mi (upd_q q f s) = qmsgs mi s"
    by (simp_all add: msg_ok_def)
qed

lemma msg_ok_wakeup [simp]: "msg_ok mi (msg_wakeup c s) \<longleftrightarrow> msg_ok mi s" "qmsgs mi (msg_wakeup c s) = qmsgs mi s"
  by (simp_all add: msg_ok_def shape_wakeup)

lemma rmid_ok:
  assumes "msg_ok mi s" "msgconv mi mid s = Ret q" "msg_owner u (msg_perm (msgque s q))"
  shows "\<exists>t. msgctl mi u now mid M_RMID s = (Ret None, t) \<and> msg_ok mi t \<and> qmsgs mi t = (qmsgs mi s)(q := []) \<and>
     mode (msg_perm (msgque t q)) = 0 \<and>
     seq (msg_perm (msgque t q)) = ipc_bump (msgmni mi) mid (seq (msg_perm (msgque s q))) \<and>
     (\<forall>p. p \<noteq> q \<longrightarrow> same_perm (msg_perm (msgque s p)) (msg_perm (msgque t p)))"
proof -
  obtain fr qs where sh: "msg_shape mi s fr qs" and cb: "cbytes_ok s qs" using assms(1) by (auto simp: msg_ok_def)
  from msg_purge_ok [OF sh, of q] obtain s1 fr' where s1: "msg_purge mi q s = Some s1" "msg_shape mi s1 fr' (qs(q := []))"
    "qmsgs mi s1 = (qmsgs mi s)(q := [])" "\<And>m. msg_ts (msgh s1 m) = msg_ts (msgh s m)"
    "\<And>p. msg_cbytes (msgque s1 p) = msg_cbytes (msgque s p)"
    "\<And>p. same_perm (msg_perm (msgque s p)) (msg_perm (msgque s1 p))" by blast
  define s2 where "s2 = upd_q q (\<lambda>d. d\<lparr>msg_cbytes := 0, msg_perm := (msg_perm d)\<lparr>
     seq := ipc_bump (msgmni mi) mid (seq (msg_perm d))\<rparr>\<rparr>) s1"
  have "msg_shape mi s2 fr' (qs(q := []))" "qmsgs mi s2 = qmsgs mi s1"
    using shape_cong [of s2 s1] s1(2) by (auto simp: s2_def msg_simps)
  moreover have "cbytes_ok s2 (qs(q := []))" using cb by (auto simp: cbytes_ok_def s2_def msg_simps s1(4,5))
  ultimately have ok: "msg_ok mi s2" "qmsgs mi s2 = (qmsgs mi s)(q := [])" using s1(3) by (auto simp: msg_ok_def)
  define s3 where "s3 = (if qmode s2 q AND MSG_RWAIT \<noteq> 0 then msg_wakeup (Ch_qnum q) s2 else s2)"
  define s4 where "s4 = (if qmode s3 q AND MSG_WWAIT \<noteq> 0 then msg_wakeup (Ch_queue q) s3 else s3)"
  have "msgctl mi u now mid M_RMID s = (Ret None, upd_mode q (\<lambda>_. 0) s4)"
    using assms(2,3) s1(1) by (simp add: msgctl_def s2_def s3_def s4_def Let_def)
  moreover have "msg_ok mi (upd_mode q (\<lambda>_. 0) s4)" "qmsgs mi (upd_mode q (\<lambda>_. 0) s4) = (qmsgs mi s)(q := [])"
    using ok by (simp_all add: msg_ok_upd_mode shape_upd_mode s4_def s3_def)
  moreover have "msgque s4 = msgque s2" by (simp add: s4_def s3_def msg_simps)
  ultimately show ?thesis using s1(6) same_permD(5) [OF s1(6) [of q]] by (auto simp: msg_simps s2_def)
qed

lemma msgget_inv:
  assumes "msg_inv mi s" "msgget mi u now k flag s = (r, t)"
  shows "msg_inv mi t \<and> qmsgs mi t = qmsgs mi s"
proof (cases "ipcget u k flag (\<lambda>q. msg_perm (msgque s q)) (unat (msgmni mi))")
  case (Inl e)
  then show ?thesis using assms by (simp add: msgget_def)
next
  case (Inr x)
  obtain q new p where x: "x = (q, new, p)" by (cases x)
  note g = ipcget_slot [OF Inr [unfolded x]]
  define s1 where "s1 = upd_q q (\<lambda>d. d\<lparr>msg_perm := p\<rparr>) s"
  have s1: "msg_ok mi s1" "qmsgs mi s1 = qmsgs mi s"
    unfolding s1_def using assms(1) by (subst upd_q_list_ok; simp add: msg_inv_def)+
  show ?thesis
  proof (cases new)
    case False
    then have "t = s1" using assms(2) Inr x by (simp add: msgget_def s1_def)
    moreover have "allocated (msg_perm (msgque s1 r)) \<longleftrightarrow> allocated (msg_perm (msgque s r))" for r
      using g(5) False by (auto simp: s1_def msg_simps)
    ultimately show ?thesis using s1 assms(1) by (auto simp: msg_inv_def)
  next
    case True
    then have t: "t = upd_q q (\<lambda>d. d\<lparr>msg_first := None, msg_last := None, msg_qnum := 0,
        msg_qbytes := msgmnb mi, msg_lspid := 0, msg_lrpid := 0, msg_stime := 0, msg_rtime := 0, msg_ctime := now\<rparr>) s1"
      using assms(2) Inr x by (simp add: msgget_def s1_def)
    have "qmsgs mi s q = []" using assms(1) g(4) True by (auto simp: msg_inv_def)
    obtain fr qs where sh: "msg_shape mi s1 fr qs" and cb: "cbytes_ok s1 qs" using s1(1) by (auto simp: msg_ok_def)
    have "qs q = []" using shape_qmsgs [OF sh, of q] s1(2) \<open>qmsgs mi s q = []\<close> by simp
    then have q: "msg_first (msgque s1 q) = None \<and> msg_last (msgque s1 q) = None \<and> msg_qnum (msgque s1 q) = 0"
      using shapeD(4) [OF sh, of q] by (simp add: que_ok_def)
    have "msg_shape mi t fr qs" "qmsgs mi t = qmsgs mi s1"
      using shape_cong [of t s1] sh q by (auto simp: t msg_simps)
    moreover have "cbytes_ok t qs" using cb by (auto simp: cbytes_ok_def t msg_simps)
    moreover have "allocated (msg_perm (msgque t r)) \<longleftrightarrow> r = q \<or> allocated (msg_perm (msgque s r))" for r
      using g(2) by (auto simp: t s1_def msg_simps)
    ultimately show ?thesis using assms(1) s1(2) by (auto simp: msg_inv_def msg_ok_def)
  qed
qed

lemma msgctl_inv:
  assumes "msg_inv mi s" "msgctl mi u now mid cmd s = (r, t)"
  shows "msg_inv mi t"
proof (cases "msgconv mi mid s")
  case (Ret q)
  let ?p = "msg_perm (msgque s q)"
  show ?thesis
  proof (cases cmd)
    case M_RMID
    show ?thesis
    proof (cases "msg_owner u ?p")
      case True
      from rmid_ok [OF _ Ret this, of now] assms(1) obtain t' where t': "msgctl mi u now mid M_RMID s = (Ret None, t')"
        "msg_ok mi t'" "qmsgs mi t' = (qmsgs mi s)(q := [])" "\<forall>p. p \<noteq> q \<longrightarrow> same_perm (msg_perm (msgque s p)) (msg_perm (msgque t' p))"
        by (auto simp: msg_inv_def)
      then have "t = t'" using assms(2) M_RMID by simp
      then show ?thesis using t' assms(1) same_perm_allocated by (auto simp: msg_inv_def)
    qed (use assms Ret M_RMID in \<open>simp add: msgctl_def\<close>)
  next
    case (M_SET buf)
    have al: "((m AND - 512) OR (m' AND perm_bits)) AND IPC_ALLOC = m AND IPC_ALLOC" for m m' :: u16
      by (simp add: bit.conj_disj_distrib2 word_bw_assocs IPC_ALLOC_def)
    have "msg_inv mi (upd_q q (\<lambda>d. d\<lparr>msg_perm := (msg_perm d)\<lparr>
        uid := uid (msg_perm ds), gid := gid (msg_perm ds),
        mode := (mode (msg_perm d) AND NOT perm_bits) OR (mode (msg_perm ds) AND perm_bits)\<rparr>,
        msg_qbytes := msg_qbytes ds, msg_ctime := now\<rparr>) s)" (is "msg_inv mi (upd_q q ?f s)") for ds
    proof -
      have "msg_ok mi (upd_q q ?f s) \<longleftrightarrow> msg_ok mi s" "qmsgs mi (upd_q q ?f s) = qmsgs mi s"
        by (rule upd_q_list_ok; simp)+
      then show ?thesis using assms(1) by (auto simp: msg_inv_def msg_simps al)
    qed
    then show ?thesis using assms Ret M_SET by (auto simp: msgctl_def Let_def split: if_splits option.splits)
  qed (use assms Ret in \<open>auto simp: msgctl_def Let_def split: option.splits if_splits\<close>)
qed (use assms in \<open>auto simp: msgctl_def\<close>)

lemma link_msgs_at: "link_msgs n t m = (if m < n then (t m)\<lparr>msg_next := Some (Suc m)\<rparr> else t m)"
  by (induction n) (auto simp: less_Suc_eq)

lemma msginit_inv:
  assumes "msg_conf mi" "msgseg mi \<noteq> 0" "0 < msgtql mi" "map_ok (mapinit (msgmap s) (msgmap_sz mi))"
    "free_units (mapinit (msgmap s) (msgmap_sz mi)) = {}" "msg_next (msgh s (msgtql mi - 1)) = None"
    "\<And>q. msg_first (msgque s q) = None \<and> msg_last (msgque s q) = None \<and> msg_qnum (msgque s q) = 0 \<and> msg_cbytes (msgque s q) = 0"
  shows "\<exists>t. msginit mi s = Some t \<and> msg_inv mi t \<and> msgque t = msgque s \<and> walk (msgtql mi) (m_nx t) (msgfp t) = [0..<msgtql mi]"
proof -
  have b: "unat (1 :: u16) + unat (msgseg mi) < 65536" using assms(1) by (simp add: msg_conf_def)
  from kmap.put_law [OF assms(4,2) _ b] assms(5) obtain m ev where m:
    "mfree (mapinit (msgmap s) (msgmap_sz mi)) (msgseg mi) 1 = Some (m, ev)" "map_ok m"
    "if ev = Map_overflow then m = mapinit (msgmap s) (msgmap_sz mi) else free_units m = {} \<union> run 1 (msgseg mi)"
    by auto
  define t where "t = s\<lparr>msgmap := m, msgfp := Some 0, msgh := link_msgs (msgtql mi - 1) (msgh s)\<rparr>"
  have N: "m_nx t i = (if i < msgtql mi - 1 then Some (Suc i) else m_nx s i)" for i
    by (simp add: m_nx_def t_def link_msgs_at)
  have "path (m_nx t) (Some 0) [0..<msgtql mi - 1] (Some (msgtql mi - 1))" by (rule path_count) (auto simp: N)
  then have "path (m_nx t) (Some 0) ([0..<msgtql mi - 1] @ [msgtql mi - 1]) None"
    unfolding path_append using assms(6) N [of "msgtql mi - 1"] by (auto simp: m_nx_eq [of s])
  moreover have "[0..<msgtql mi] = [0..<msgtql mi - 1] @ [msgtql mi - 1]"
    using assms(3) by (metis Suc_diff_1 le0 upt_Suc_append)
  ultimately have c: "chain (m_nx t) (msgfp t) [0..<msgtql mi]" by (simp add: t_def)
  have fm: "x \<le> unat (msgseg mi)" if "x \<in> free_units m" for x
    using that m(3) assms(5) by (auto simp: run_def split: if_splits)
  have sh: "msg_shape mi t [0..<msgtql mi] (\<lambda>_. [])"
    unfolding msg_shape_def using assms(1) m(2) c fm assms(7)
    by (auto simp: t_def que_ok_def segs_ok_def segs_def)
  moreover have "cbytes_ok t (\<lambda>_. [])" using assms(7) by (simp add: cbytes_ok_def t_def)
  ultimately have "msg_inv mi t" using shape_qmsgs [OF sh] by (auto simp: msg_inv_def msg_ok_def)
  moreover have "walk (msgtql mi) (m_nx t) (msgfp t) = [0..<msgtql mi]" by (rule walk_chain [OF c]) simp
  ultimately show ?thesis using m(1) by (intro exI [of _ t]) (simp add: msginit_def t_def)
qed


section \<open>Properties\<close>

definition demo_mi :: msginfo where
  "demo_mi = \<lparr>msgmap_sz = 6, msgmax = 64, msgmnb = 64, msgmni = 2, msgssz = 8, msgtql = 2, msgseg = 30\<rparr>"

definition demo_msg :: msgst where
  "demo_msg = \<lparr>msgque = (\<lambda>q. \<lparr>msg_perm = demo_perm (if q = 0 then 0x8180 else 0) 0 5, msg_first = None, msg_last = None,
       msg_cbytes = 0, msg_qnum = 0, msg_qbytes = 64, msg_lspid = 0, msg_lrpid = 0, msg_stime = 0, msg_rtime = 0, msg_ctime = 0\<rparr>),
     msgh = (\<lambda>m. \<lparr>msg_next = (if m = 0 then Some 1 else None), msg_type = 0, msg_ts = 0, msg_spot = 0\<rparr>),
     msgmap = demo_map, msgfp = Some 0, mbuf = (\<lambda>_. 0), msg_wakes = []\<rparr>"

lemma demo_conf: "msg_conf demo_mi"
  by (simp add: msg_conf_def demo_mi_def)

lemma demo_msg_ok: "msg_ok demo_mi demo_msg" "qmsgs demo_mi demo_msg q = []"
proof -
  have f: "x \<le> 30" if "x \<in> free_units demo_map" for x
    using that by (auto simp: free_units_def live_def demo_map_def free_of_def ent_run_def run_def)
  have sh: "msg_shape demo_mi demo_msg [0, 1] (\<lambda>_. [])"
    unfolding msg_shape_def
  proof (intro conjI allI impI demo_conf)
    show "map_ok (msgmap demo_msg)" using demo_map_ok by (simp add: demo_msg_def)
    show "x \<le> unat (msgseg demo_mi)" if "x \<in> free_units (msgmap demo_msg)" for x
      using f that by (simp add: demo_msg_def demo_mi_def)
    show "chain (m_nx demo_msg) (msgfp demo_msg) [0, 1]" by (simp add: demo_msg_def m_nx_def)
    show "set [0, 1] \<union> (\<Union>q. set []) = {..<msgtql demo_mi}" by (auto simp: demo_mi_def)
  qed (simp_all add: que_ok_def segs_ok_def segs_def demo_msg_def)
  moreover have "cbytes_ok demo_msg (\<lambda>_. [])" by (simp add: cbytes_ok_def demo_msg_def)
  ultimately show "msg_ok demo_mi demo_msg" by (auto simp: msg_ok_def)
  show "qmsgs demo_mi demo_msg q = []" using shape_qmsgs [OF sh] by simp
qed

lemma demo_msgconv: "msgconv demo_mi 0 demo_msg = Ret 0"
  by (simp add: msgconv_def ipc_conv_def demo_mi_def demo_msg_def demo_perm_def IPC_ALLOC_def word_sless_alt)

lemma demo_fields [simp]:
  "msgssz demo_mi = 8" "msgmax demo_mi = 64" "msgfp demo_msg = Some 0" "msgmap demo_msg = demo_map"
  "msg_qbytes (msgque demo_msg 0) = 64" "msg_cbytes (msgque demo_msg 0) = 0" "msg_first (msgque demo_msg 0) = None"
  "ipcaccess demo_cred (msg_perm (msgque demo_msg 0)) MSG_W = None"
  "ipcaccess demo_cred (msg_perm (msgque demo_msg 0)) MSG_R = None"
  by (simp_all add: demo_mi_def demo_msg_def ipcaccess_def demo_perm_def demo_cred_def MSG_W_def MSG_R_def)

lemma demo_send: "fst (msgsnd demo_mi demo_cred 0 0 3 (Some 5) 0 (Some [1, 2, 3]) 0 demo_msg) = Msg_sent"
proof -
  obtain m where "malloc demo_map 1 = Some (10, m)"
    by (simp add: malloc_def demo_map_def word_le_nat_alt)
  moreover have "btoq demo_mi 3 = 1" by (simp add: btoq_def)
  moreover have "\<not> (3 :: u16) <s 0" "\<not> (64 :: u16) <s 3" "\<not> (5 :: u32) <s 1" "\<not> (64 :: u16) < 3"
    by (simp_all add: word_sless_alt word_less_nat_alt)
  ultimately show ?thesis by (simp add: msgsnd_def demo_msgconv msgsnd_pass_def)
qed

lemma msgsnd_ok:
  assumes "msg_ok mi s" "\<And>xs. txt = Some xs \<Longrightarrow> length xs = unat cnt"
    and "msgsnd mi u now mid cnt ty junk txt flg s = (r, t)" "r \<noteq> Msg_wild"
  shows "msg_ok mi t \<and> (\<forall>p. same_perm (msg_perm (msgque s p)) (msg_perm (msgque t p))) \<and>
     (\<forall>p. msg_qbytes (msgque t p) = msg_qbytes (msgque s p)) \<and>
     (if r = Msg_sent
      then \<exists>q a. msgconv mi mid s = Ret q \<and> ipcaccess u (msg_perm (msgque s q)) MSG_W = None \<and> a = type_read ty junk \<and> \<not> a <s 1 \<and>
             \<not> cnt <s 0 \<and> \<not> msgmax mi <s cnt \<and> cnt + msg_cbytes (msgque s q) \<le> msg_qbytes (msgque s q) \<and>
             (cnt = 0 \<or> txt \<noteq> None) \<and> qmsgs mi t = (qmsgs mi s)(q := qmsgs mi s q @ [(a, sent cnt txt)])
      else qmsgs mi t = qmsgs mi s)"
proof (cases "\<exists>q a. msgconv mi mid s = Ret q \<and> ipcaccess u (msg_perm (msgque s q)) MSG_W = None \<and> a = type_read ty junk \<and> \<not> a <s 1 \<and>
             \<not> cnt <s 0 \<and> \<not> msgmax mi <s cnt")
  case True
  then obtain q a where q: "msgconv mi mid s = Ret q" "ipcaccess u (msg_perm (msgque s q)) MSG_W = None" "a = type_read ty junk" "\<not> a <s 1"
    "\<not> cnt <s 0" "\<not> msgmax mi <s cnt" by blast
  then have "msgsnd_pass mi u now q cnt a txt flg s = (r, t)" using assms(3) by (simp add: msgsnd_def)
  from msgsnd_pass_ok [OF assms(1) conjI [OF q(5,6)] assms(2) this] q show ?thesis by simp
next
  case False
  then have "t = s \<and> r \<noteq> Msg_sent" using assms(3,4)
    by (auto simp: msgsnd_def split: sysres.splits option.splits if_splits)
  then show ?thesis using assms(1) by auto
qed

lemma msgrcv_ok:
  assumes "msg_ok mi s" "msgrcv mi u now mid msgsz typ flg ok1 ok2 s = (r, t)" "r \<noteq> Msg_wild"
  shows "msg_ok mi t \<and> (\<forall>p. same_perm (msg_perm (msgque s p)) (msg_perm (msgque t p))) \<and> r \<noteq> Msg_sent \<and>
    (case r of
       Msg_got w xs \<Rightarrow> \<exists>q a. msgconv mi mid s = Ret q \<and> ipcaccess u (msg_perm (msgque s q)) MSG_R = None \<and>
          w = (if ok1 then Some a else None) \<and> received typ msgsz q a xs (qmsgs mi s) (qmsgs mi t)
     | Msg_asleep c \<Rightarrow> qmsgs mi t = qmsgs mi s \<and>
          (\<exists>q. msgconv mi mid s = Ret q \<and> c = Ch_qnum q \<and> (\<forall>x \<in> set (qmsgs mi s q). \<not> eligible typ (fst x)))
     | _ \<Rightarrow> qmsgs mi t = qmsgs mi s)"
proof (cases "\<exists>q. msgconv mi mid s = Ret q \<and> ipcaccess u (msg_perm (msgque s q)) MSG_R = None \<and> \<not> msgsz <s 0")
  case True
  then obtain q where q: "msgconv mi mid s = Ret q" "ipcaccess u (msg_perm (msgque s q)) MSG_R = None" "\<not> msgsz <s 0" by blast
  then have p: "msgrcv_pass mi u now q msgsz typ flg ok1 ok2 s = (r, t)" using assms(2) by (simp add: msgrcv_def)
  have "r = Msg_asleep c \<Longrightarrow> c = Ch_qnum q" for c
    using p by (auto simp: msgrcv_pass_def Let_def split: option.splits if_splits)
  with msgrcv_pass_ok [OF assms(1) q(3) p] q show ?thesis by (cases r) auto
next
  case False
  then have "t = s \<and> (\<exists>e. r = Msg_fail e)" using assms(2,3)
    by (auto simp: msgrcv_def split: sysres.splits option.splits if_splits)
  then show ?thesis using assms(1) by auto
qed

text \<open>C29: a \<open>msgsnd\<close> that returns successfully has appended its message, type and text, to the end of
  the queue it names and changed no other queue; on every error and when it goes to sleep all
  queues are as before; the headers, segments and counts stay consistent. The type is the one copied
  in, and when that copy fails, what the local variable held: the code does not see the failure. A
  non-negative identifier keeps the call inside the tables (it is \<open>Msg_wild\<close> otherwise).\<close>

theorem msgsnd_appends:
  assumes "msg_ok mi s" "\<And>xs. txt = Some xs \<Longrightarrow> length xs = unat cnt"
    and "msgsnd mi u now mid cnt ty junk txt flg s = (r, t)" "r \<noteq> Msg_wild"
  shows "msg_ok mi t \<and>
     (if r = Msg_sent
      then \<exists>q a. msgconv mi mid s = Ret q \<and> ipcaccess u (msg_perm (msgque s q)) MSG_W = None \<and> a = type_read ty junk \<and>
             \<not> a <s 1 \<and> qmsgs mi t = (qmsgs mi s)(q := qmsgs mi s q @ [(a, sent cnt txt)])
      else qmsgs mi t = qmsgs mi s)"
  using msgsnd_ok [OF assms] by (auto split: if_splits)

theorem msgsnd_appends_witness:
  "qmsgs demo_mi (snd (msgsnd demo_mi demo_cred 0 0 3 (Some 5) 0 (Some [1, 2, 3]) 0 demo_msg)) 0 = [(5, [1, 2, 3])]"
proof -
  obtain t where t: "msgsnd demo_mi demo_cred 0 0 3 (Some 5) 0 (Some [1, 2, 3]) 0 demo_msg = (Msg_sent, t)"
    using demo_send by (metis prod.collapse)
  from msgsnd_appends [OF demo_msg_ok(1) _ t] show ?thesis
    by (auto simp: t demo_msg_ok(2) demo_msgconv sent_def)
qed

text \<open>C30: a \<open>msgrcv\<close> that delivers a message delivers the one its type argument calls for (the first
  one, the first of that type, or the first of the least type not above the absolute value),
  cut to the size asked for, and removes exactly that message; it sleeps only when no message
  qualifies, and errors leave the queues alone. A failure to store the type in user space is not an
  error to the code: the message is then delivered without its type, and removed. A non-negative
  identifier keeps the call inside the tables (it is \<open>Msg_wild\<close> otherwise).\<close>

theorem msgrcv_selects:
  assumes "msg_ok mi s" "msgrcv mi u now mid msgsz typ flg ok1 ok2 s = (r, t)" "r \<noteq> Msg_wild"
  shows "msg_ok mi t \<and>
    (case r of
       Msg_got w xs \<Rightarrow> \<exists>q us a ys vs. msgconv mi mid s = Ret q \<and> qmsgs mi s q = us @ (a, ys) # vs \<and>
          ipcaccess u (msg_perm (msgque s q)) MSG_R = None \<and> w = (if ok1 then Some a else None) \<and>
          chosen typ (map fst us) a (map fst vs) \<and> xs = take (unat msgsz) ys \<and> qmsgs mi t = (qmsgs mi s)(q := us @ vs)
     | Msg_asleep c \<Rightarrow> qmsgs mi t = qmsgs mi s \<and>
          (\<exists>q. c = Ch_qnum q \<and> (\<forall>x \<in> set (qmsgs mi s q). \<not> eligible typ (fst x)))
     | _ \<Rightarrow> qmsgs mi t = qmsgs mi s)"
  using msgrcv_ok [OF assms] unfolding received_def by (cases r; cases ok1) (simp_all, blast+)

text \<open>In a queue without another message of the type, the last one is the one received.\<close>

lemma received_last:
  assumes "0 <s ty" "\<forall>x \<in> set old. fst x \<noteq> ty" "old @ [(ty, xs)] = us @ (a, ys) # vs"
    "chosen ty (map fst us) a (map fst vs)"
  shows "us = old \<and> a = ty \<and> ys = xs \<and> vs = []"
proof -
  have "\<not> ty <s 0" using assms(1) by (simp add: word_sless_alt)
  with assms(1,4) have "a = ty" by (auto simp: chosen_def eligible_def)
  show ?thesis
  proof (cases vs rule: rev_cases)
    case (snoc ws w)
    with assms(3) have "old = us @ (a, ys) # ws" by simp
    with assms(2) \<open>a = ty\<close> show ?thesis by auto
  qed (use assms(3) in auto)
qed

text \<open>what was sent is received: after a successful \<open>msgsnd\<close> a \<open>msgrcv\<close> on the same identifier,
  asking for the type sent with room for the text, delivers exactly that text and restores the
  queues, provided no older message has the type and the reader has permission.\<close>

lemma msg_roundtrip:
  assumes "msg_ok mi s" "length xs = unat cnt" "msgsnd mi u now mid cnt (Some ty) junk (Some xs) flg s = (Msg_sent, t)"
    and "msgconv mi mid s = Ret q" "\<forall>x \<in> set (qmsgs mi s q). fst x \<noteq> ty"
    and "ipcaccess v (msg_perm (msgque s q)) MSG_R = None" "\<not> sz <s 0" "cnt \<le> sz"
  shows "\<exists>t'. msgrcv mi v now' mid sz ty flg' True True t = (Msg_got (Some ty) xs, t') \<and> msg_ok mi t' \<and> qmsgs mi t' = qmsgs mi s"
proof -
  have sx: "sent cnt (Some xs) = xs" using assms(2) by (auto simp: sent_def)
  from msgsnd_ok [OF assms(1) _ assms(3)] assms(2,4) sx have t: "msg_ok mi t" "\<not> ty <s 1"
    "\<And>p. same_perm (msg_perm (msgque s p)) (msg_perm (msgque t p))"
    "qmsgs mi t = (qmsgs mi s)(q := qmsgs mi s q @ [(ty, xs)])"
    by auto
  have pos: "0 <s ty" using t(2) by (simp add: word_sless_alt)
  have m: "msgconv mi mid t = Ret q" "ipcaccess v (msg_perm (msgque t q)) MSG_R = None"
    using assms(4,6) same_perm_ipc(1,2) [of "\<lambda>q. msg_perm (msgque s q)" "\<lambda>q. msg_perm (msgque t q)", OF t(3)]
    by (simp_all add: msgconv_def)
  obtain r t' where rt: "msgrcv_pass mi v now' q sz ty flg' True True t = (r, t')" by fastforce
  note R = msgrcv_pass_ok [OF t(1) assms(7) rt]
  have el: "eligible ty ty" using pos by (simp add: eligible_def)
  then have ex: "\<exists>x \<in> set (qmsgs mi t q). eligible ty (fst x)" by (simp add: t(4))
  have last: "us = qmsgs mi s q \<and> a = ty \<and> ys = xs \<and> vs = []"
    if "qmsgs mi t q = us @ (a, ys) # vs" "chosen ty (map fst us) a (map fst vs)" for us a ys vs
    by (rule received_last [OF pos assms(5)]) (use that t(4) in auto)
  have fit: "length xs \<le> unat sz" using assms(2,8) by (simp add: word_le_nat_alt)
  have "r \<noteq> Msg_fail e" for e
  proof
    assume "r = Msg_fail e"
    with R ex last fit show False by fastforce
  qed
  then obtain a ys where r: "r = Msg_got (Some a) ys" using R ex by (cases r) auto
  with R obtain us zs vs where rec: "qmsgs mi t q = us @ (a, zs) # vs" "qmsgs mi t' = (qmsgs mi t)(q := us @ vs)"
    "chosen ty (map fst us) a (map fst vs)" "ys = take (unat sz) zs" by (auto simp: received_def)
  from last [OF rec(1,3)] fit rec(2,4) have "a = ty" "ys = xs" "qmsgs mi t' = qmsgs mi s" by (auto simp: t(4))
  then show ?thesis using R rt r m assms(7) by (auto simp: msgrcv_def)
qed

text \<open>A receive from the queue of the send above.\<close>

theorem msgrcv_selects_witness:
  "\<exists>t. msgrcv demo_mi demo_cred 0 0 10 5 0 True True
       (snd (msgsnd demo_mi demo_cred 0 0 3 (Some 5) 0 (Some [1, 2, 3]) 0 demo_msg)) = (Msg_got (Some 5) [1, 2, 3], t) \<and>
     qmsgs demo_mi t 0 = []"
proof -
  obtain s where s: "msgsnd demo_mi demo_cred 0 0 3 (Some 5) 0 (Some [1, 2, 3]) 0 demo_msg = (Msg_sent, s)"
    using demo_send by (metis prod.collapse)
  have q: "msg_ok demo_mi s" "qmsgs demo_mi s 0 = [(5, [1, 2, 3])]"
    using msgsnd_ok [OF demo_msg_ok(1) _ s] by (auto simp: demo_msg_ok(2) demo_msgconv sent_def)
  have "\<not> (10 :: u16) <s 0" "(3 :: u16) \<le> 10" by (simp_all add: word_sless_alt word_le_nat_alt)
  from msg_roundtrip [OF demo_msg_ok(1) _ s demo_msgconv _ _ this(1) this(2), of demo_cred 0 0]
  obtain t where t: "msgrcv demo_mi demo_cred 0 0 10 5 0 True True s = (Msg_got (Some 5) [1, 2, 3], t)"
    by (auto simp: demo_msg_ok(2))
  have "q = 0" if "msgconv demo_mi 0 s = Ret q" for q
    using that by (auto simp: msgconv_def ipc_conv_def Let_def split: if_splits)
  with msgrcv_selects [OF q(1) t] show ?thesis
    by (auto simp: s t q(2) append_eq_Cons_conv Cons_eq_append_conv)
qed

text \<open>Bounds on the text of a queue.\<close>

definition queue_len :: "msginfo \<Rightarrow> msgst \<Rightarrow> nat \<Rightarrow> nat" where
  "queue_len mi s q = (\<Sum>x\<leftarrow>qmsgs mi s q. length (snd x))"

definition limit_ok :: "msginfo \<Rightarrow> msgst \<Rightarrow> bool" where
  "limit_ok mi s \<longleftrightarrow> (\<forall>q. unat (msg_qbytes (msgque s q)) < 32768 \<and> queue_len mi s q \<le> unat (msg_qbytes (msgque s q)))"

lemma msg_ok_cbytes:
  assumes "msg_ok mi s" shows "msg_cbytes (msgque s q) = of_nat (queue_len mi s q)"
proof -
  from assms obtain fr qs where sh: "msg_shape mi s fr qs" and cb: "cbytes_ok s qs" by (auto simp: msg_ok_def)
  have "(\<Sum>m\<leftarrow>ms. msg_ts (msgh s m)) = of_nat (\<Sum>m\<leftarrow>ms. length (snd (msg_of mi s m)))" for ms
    by (induction ms) (simp_all add: msg_of_def msg_text_def)
  then show ?thesis using cb by (simp add: queue_len_def shape_qmsgs [OF sh] cbytes_ok_def comp_def)
qed

text \<open>as long as the limits are below 32768 the text on a queue never exceeds \<open>msg_qbytes\<close>: no
  \<open>msgsnd\<close>, whatever it returns, takes a queue above its limit.\<close>

lemma msgsnd_limit:
  assumes "msg_ok mi s" "limit_ok mi s" "\<And>xs. txt = Some xs \<Longrightarrow> length xs = unat cnt"
    and "msgsnd mi u now mid cnt ty junk txt flg s = (r, t)" "r \<noteq> Msg_wild"
  shows "limit_ok mi t"
proof (cases "r = Msg_sent")
  case False
  then show ?thesis using msgsnd_ok [OF assms(1,3,4,5)] assms(2) by (auto simp: limit_ok_def queue_len_def)
next
  case True
  from msgsnd_ok [OF assms(1,3,4,5)] True obtain q a where q: "\<not> cnt <s 0"
    "cnt + msg_cbytes (msgque s q) \<le> msg_qbytes (msgque s q)" "cnt = 0 \<or> txt \<noteq> None"
    "qmsgs mi t = (qmsgs mi s)(q := qmsgs mi s q @ [(a, sent cnt txt)])"
    "\<And>p. msg_qbytes (msgque t p) = msg_qbytes (msgque s p)" by auto
  have l: "queue_len mi s q < 32768" "\<And>p. queue_len mi s p \<le> unat (msg_qbytes (msgque s p))"
    "\<And>p. unat (msg_qbytes (msgque s p)) < 32768"
    using assms(2) by (auto simp: limit_ok_def intro: le_less_trans)
  have "unat cnt < 32768" using q(1) by (simp add: sless0_u16)
  then have "unat (cnt + msg_cbytes (msgque s q)) = unat cnt + queue_len mi s q"
    using l(1) by (subst unat_plus_small) (simp_all add: msg_ok_cbytes [OF assms(1)] unat_of_nat16)
  then have "unat cnt + queue_len mi s q \<le> unat (msg_qbytes (msgque s q))" using q(2) by (simp add: word_le_nat_alt)
  moreover have "length (sent cnt txt) = unat cnt" using q(3) assms(3) by (auto simp: sent_def)
  ultimately show ?thesis using l(2,3) by (simp add: limit_ok_def q(5)) (simp add: queue_len_def q(4))
qed

text \<open>\<open>IPC_RMID\<close> always finishes: it frees every message of the queue, header and text, leaves the
  other queues alone, and makes the identifier invalid; its slot stays so until it is given out
  again, with another usage count.\<close>

lemma msg_rmid_purges:
  assumes "msg_ok mi s" "\<not> mid <s 0" "seq_ok (unat (msgmni mi)) (\<lambda>q. msg_perm (msgque s q))"
    and "msgconv mi mid s = Ret q" "msg_owner u (msg_perm (msgque s q))"
  shows "\<exists>t. msgctl mi u now mid M_RMID s = (Ret None, t) \<and> msg_ok mi t \<and> qmsgs mi t = (qmsgs mi s)(q := []) \<and>
     msgconv mi mid t = Fail EINVAL \<and> \<not> allocated (msg_perm (msgque t q)) \<and>
     ipc_id (msgmni mi) (seq (msg_perm (msgque t q))) q \<noteq> mid"
proof -
  from rmid_ok [OF assms(1,4,5), of now] obtain t where t: "msgctl mi u now mid M_RMID s = (Ret None, t)" "msg_ok mi t"
    "qmsgs mi t = (qmsgs mi s)(q := [])" "mode (msg_perm (msgque t q)) = 0"
    "seq (msg_perm (msgque t q)) = ipc_bump (msgmni mi) mid (seq (msg_perm (msgque s q)))" by blast
  have id: "q < unat (msgmni mi)" "mid = ipc_id (msgmni mi) (seq (msg_perm (msgque s q))) q"
    using assms(4) ipc_conv_id [OF assms(3,2), of 0 q] by (auto simp: msgconv_def)
  have q: "q = nat (sint mid mod sint (msgmni mi))" using assms(4)
    by (auto simp: msgconv_def ipc_conv_def Let_def split: if_splits)
  have "msgconv mi mid t = Fail EINVAL"
    using assms(2) t(4) by (simp add: msgconv_def ipc_conv_def Let_def q [symmetric])
  moreover have "ipc_id (msgmni mi) (seq (msg_perm (msgque t q))) q \<noteq> mid"
    using ipc_bump_ok(2) [OF assms(3) id(1)] id(2) t(5) by simp
  ultimately show ?thesis using t by auto
qed

text \<open>The states the facility can reach: any calls, of any processes, in any order. A call that would
  leave the tables (a negative identifier) is excluded.\<close>

inductive msg_reach :: "msginfo \<Rightarrow> msgst \<Rightarrow> msgst \<Rightarrow> bool" for mi s where
  msg_start: "msg_reach mi s s"
| msg_get: "msg_reach mi s t \<Longrightarrow> msgget mi u now k flag t = (r, t') \<Longrightarrow> msg_reach mi s t'"
| msg_ctl: "msg_reach mi s t \<Longrightarrow> msgctl mi u now mid cmd t = (c, t') \<Longrightarrow> msg_reach mi s t'"
| msg_snd: "msg_reach mi s t \<Longrightarrow> (\<And>xs. body = Some xs \<Longrightarrow> length xs = unat cnt) \<Longrightarrow>
    msgsnd mi u now mid cnt ty junk body flg t = (oc, t') \<Longrightarrow> oc \<noteq> Msg_wild \<Longrightarrow> msg_reach mi s t'"
| msg_snd_again: "msg_reach mi s t \<Longrightarrow> (\<And>xs. body = Some xs \<Longrightarrow> length xs = unat cnt) \<Longrightarrow>
    \<not> cnt <s 0 \<and> \<not> msgmax mi <s cnt \<Longrightarrow>
    msgsnd_again mi u now mid cnt a body flg t = (oc, t') \<Longrightarrow> oc \<noteq> Msg_wild \<Longrightarrow> msg_reach mi s t'"
| msg_snd_intr: "msg_reach mi s t \<Longrightarrow> msgsnd_intr ch t = (oc, t') \<Longrightarrow> msg_reach mi s t'"
| msg_rcv: "msg_reach mi s t \<Longrightarrow> msgrcv mi u now mid sz a flg ok1 ok2 t = (oc, t') \<Longrightarrow> oc \<noteq> Msg_wild \<Longrightarrow> msg_reach mi s t'"
| msg_rcv_again: "msg_reach mi s t \<Longrightarrow> \<not> sz <s 0 \<Longrightarrow> msgrcv_again mi u now mid sz a flg ok1 ok2 t = (oc, t') \<Longrightarrow>
    oc \<noteq> Msg_wild \<Longrightarrow> msg_reach mi s t'"

lemma msg_inv_same:
  assumes "msg_inv mi s" "msg_ok mi t" "\<And>p. same_perm (msg_perm (msgque s p)) (msg_perm (msgque t p))"
    and "\<And>p. \<not> allocated (msg_perm (msgque s p)) \<Longrightarrow> qmsgs mi t p = qmsgs mi s p"
  shows "msg_inv mi t"
  using assms same_perm_allocated [OF assms(3)] by (simp add: msg_inv_def)

lemma msgsnd_inv: "msg_inv mi s \<Longrightarrow> (\<And>xs. body = Some xs \<Longrightarrow> length xs = unat cnt) \<Longrightarrow>
    msgsnd mi u now mid cnt ty junk body flg s = (r, t) \<Longrightarrow> r \<noteq> Msg_wild \<Longrightarrow> msg_inv mi t"
  using msgsnd_ok [of mi s body cnt u now mid ty junk flg r t] msgconv_allocated [of mi mid s]
  by (intro msg_inv_same [of mi s t]) (auto simp: msg_inv_def split: if_splits)

lemma msgrcv_inv:
  assumes "msg_inv mi s" "msgrcv mi u now mid sz a flg ok1 ok2 s = (r, t)" "r \<noteq> Msg_wild"
  shows "msg_inv mi t"
proof -
  have "msg_ok mi s" using assms(1) by (simp add: msg_inv_def)
  note R = msgrcv_ok [OF this assms(2,3)]
  show ?thesis
  proof (rule msg_inv_same [OF assms(1)])
    fix p assume "\<not> allocated (msg_perm (msgque s p))"
    then show "qmsgs mi t p = qmsgs mi s p" using R msgconv_allocated [of mi mid s]
      by (cases r) (auto simp: received_def)
  qed (use R in auto)
qed

lemma msgsnd_again_inv:
  assumes "msg_inv mi s" "\<And>xs. body = Some xs \<Longrightarrow> length xs = unat cnt" "\<not> cnt <s 0 \<and> \<not> msgmax mi <s cnt"
    and "msgsnd_again mi u now mid cnt a body flg s = (r, t)" "r \<noteq> Msg_wild"
  shows "msg_inv mi t"
proof (cases "msgconv mi mid s")
  case (Ret q)
  have "msg_ok mi s" using assms(1) by (simp add: msg_inv_def)
  moreover have p: "msgsnd_pass mi u now q cnt a body flg s = (r, t)" using assms(4) Ret by (simp add: msgsnd_again_def)
  ultimately show ?thesis using msgsnd_pass_ok [OF _ assms(3,2) p] msgconv_allocated [OF Ret]
    by (intro msg_inv_same [OF assms(1)]) (auto split: if_splits)
qed (use assms in \<open>auto simp: msgsnd_again_def\<close>)

lemma msgrcv_again_inv:
  assumes "msg_inv mi s" "\<not> sz <s 0" "msgrcv_again mi u now mid sz a flg ok1 ok2 s = (r, t)" "r \<noteq> Msg_wild"
  shows "msg_inv mi t"
proof (cases "msgconv mi mid s")
  case (Ret q)
  have "msg_ok mi s" using assms(1) by (simp add: msg_inv_def)
  note R = msgrcv_pass_ok [OF this assms(2), of u now q a flg ok1 ok2 r t]
  have p: "msgrcv_pass mi u now q sz a flg ok1 ok2 s = (r, t)" using assms(3) Ret by (simp add: msgrcv_again_def)
  show ?thesis
  proof (rule msg_inv_same [OF assms(1)])
    fix x assume "\<not> allocated (msg_perm (msgque s x))"
    then show "qmsgs mi t x = qmsgs mi s x" using R [OF p] msgconv_allocated [OF Ret]
      by (cases r) (auto simp: received_def)
  qed (use R [OF p] in auto)
qed (use assms in \<open>auto simp: msgrcv_again_def\<close>)

lemma msgsnd_intr_inv: "msg_inv mi s \<Longrightarrow> msgsnd_intr c s = (r, t) \<Longrightarrow> msg_inv mi t"
  by (rule msg_inv_same [of mi s])
    (auto simp: msgsnd_intr_def msg_inv_def msg_simps msg_ok_upd_mode shape_upd_mode split: msg_chan.splits)

text \<open>C7: after start-up, whatever calls are made in whatever order, sleeps, wakeups, interrupts and
  removals included, every header is on the free list or on exactly one queue, no segment of the
  buffer is free or shared, and queues without an identifier are empty: no message is lost or
  handed out twice.\<close>

theorem msg_reach_inv:
  assumes "msg_conf mi" "msgseg mi \<noteq> 0" "0 < msgtql mi" "2 < unat (msgmap_sz mi)"
    and "mapents (msgmap s) = replicate (unat (msgmap_sz mi) - 1) term_ent" "msg_next (msgh s (msgtql mi - 1)) = None"
    and "\<And>q. msg_first (msgque s q) = None \<and> msg_last (msgque s q) = None \<and> msg_qnum (msgque s q) = 0 \<and> msg_cbytes (msgque s q) = 0"
  shows "\<exists>t. msginit mi s = Some t \<and> (\<forall>t'. msg_reach mi t t' \<longrightarrow> msg_inv mi t')"
proof -
  have n: "unat (msgmap_sz mi - 2) = unat (msgmap_sz mi) - 2" using assms(4) by (intro unat_minus_small [THEN trans]) (auto simp: word_le_nat_alt)
  have "map_shape (mapinit (msgmap s) (msgmap_sz mi)) []"
    using assms(4,5) u16_lt [of "msgmap_sz mi"] by (simp add: map_shape_def mapinit_def n Suc_diff_Suc numeral_2_eq_2)
  then have "map_ok (mapinit (msgmap s) (msgmap_sz mi))" "free_units (mapinit (msgmap s) (msgmap_sz mi)) = {}"
    by (auto simp: free_units_def live_shape free_of_def intro: map_okI)
  from msginit_inv [OF assms(1-3) this assms(6,7)] obtain t where t: "msginit mi s = Some t" "msg_inv mi t" by blast
  have "msg_inv mi t'" if "msg_reach mi t t'" for t'
    using that
  proof induction
    case (msg_get t u now k flag r t') then show ?case using msgget_inv by blast
  next
    case (msg_snd t body cnt u now mid ty junk flg oc t')
    from msgsnd_inv [OF msg_snd.IH msg_snd.hyps(2-4)] show ?case .
  next
    case (msg_snd_again t body cnt u now mid a flg oc t')
    from msgsnd_again_inv [OF msg_snd_again.IH msg_snd_again.hyps(2-5)] show ?case .
  qed (rule t(2), erule (1) msgctl_inv, erule (1) msgsnd_intr_inv, erule (2) msgrcv_inv, erule (3) msgrcv_again_inv)
  with t(1) show ?thesis by blast
qed


theorem msg_reach_inv_witness:
  "\<exists>t. msginit demo_mi (demo_msg\<lparr>msgmap := \<lparr>mapsize = 0, mapwant = 0, mapents = replicate 5 term_ent\<rparr>\<rparr>) = Some t \<and> msg_inv demo_mi t"
proof -
  let ?s = "demo_msg\<lparr>msgmap := \<lparr>mapsize = 0, mapwant = 0, mapents = replicate 5 term_ent\<rparr>\<rparr>"
  have "msgseg demo_mi \<noteq> 0" "0 < msgtql demo_mi" "2 < unat (msgmap_sz demo_mi)"
    "mapents (msgmap ?s) = replicate (unat (msgmap_sz demo_mi) - 1) term_ent" "msg_next (msgh ?s (msgtql demo_mi - 1)) = None"
    by (simp_all add: demo_mi_def demo_msg_def)
  moreover have "msg_first (msgque ?s q) = None \<and> msg_last (msgque ?s q) = None \<and> msg_qnum (msgque ?s q) = 0 \<and>
      msg_cbytes (msgque ?s q) = 0" for q
    by (simp add: demo_msg_def)
  ultimately show ?thesis using msg_reach_inv [OF demo_conf, of ?s] msg_start by blast
qed

end
