(* ===== verification/Shared_Memory.thy ===== *)
theory Shared_Memory
  imports Ipc_Perm Resource_Map
begin

text \<open>
  Shared memory, \<open>os/shm.c\<close>: the headers, the table of segments attached by each process, the
  selectors of their local descriptor tables, and the memory, taken from \<open>coremap\<close>. The copying of
  the process image when the descriptor table grows and the contents of the segments are not modelled.
\<close>

section \<open>Data\<close>

definition SHM_R :: u16 where "SHM_R = 0x100"
definition SHM_W :: u16 where "SHM_W = 0x80"
definition SHM_CLEAR :: u16 where "SHM_CLEAR = 0x200"
definition SHM_DEST :: u16 where "SHM_DEST = 0x400"
definition SHM_RDONLY :: u16 where "SHM_RDONLY = 0x1000"
definition SHM_RND :: u16 where "SHM_RND = 0x2000"

record shmid_ds =
  shm_perm :: ipc_perm
  shm_segsz :: u16
  shm_segpcc :: u16
  shm_lpid :: u16
  shm_cpid :: u16
  shm_nattch :: u16
  shm_cnattch :: u16
  shm_atime :: u32
  shm_dtime :: u32
  shm_ctime :: u32

record shminfo =
  shmmax :: u16
  shmmin :: u16
  shmmni :: u16
  shmseg :: nat
  shmbrk :: nat
  shmall :: u16

record seg_desc =
  sd_limit :: u16
  sd_lowbase :: u16
  sd_hibase :: byte
  sd_access :: byte

text \<open>\<open>ldt\<close> and \<open>u_lsize\<close> are of the user structure of each process, \<open>p_smbeg\<close> and \<open>p_smend\<close> of the process
  table; \<open>image\<close> is the size of the process beside its descriptor table, in clicks.\<close>

record shmst =
  shmem :: "nat \<Rightarrow> shmid_ds"
  shm_shmem :: "nat \<Rightarrow> nat option"
  shm_seln :: "nat \<Rightarrow> u16"
  p_smbeg :: "nat \<Rightarrow> u16"
  p_smend :: "nat \<Rightarrow> u16"
  ldt :: "nat \<Rightarrow> u16 \<Rightarrow> seg_desc"
  u_lsize :: "nat \<Rightarrow> u16"
  image :: "nat \<Rightarrow> nat"
  coremap :: rmap
  maxmem :: u16
  shmtot :: u16

definition upd_shm :: "nat \<Rightarrow> (shmid_ds \<Rightarrow> shmid_ds) \<Rightarrow> shmst \<Rightarrow> shmst" where
  "upd_shm i f s = s\<lparr>shmem := (shmem s)(i := f (shmem s i))\<rparr>"

definition upd_mode :: "nat \<Rightarrow> (u16 \<Rightarrow> u16) \<Rightarrow> shmst \<Rightarrow> shmst" where
  "upd_mode i f = upd_shm i (\<lambda>d. d\<lparr>shm_perm := (shm_perm d)\<lparr>mode := f (mode (shm_perm d))\<rparr>\<rparr>)"

text \<open>\<open>sd_reserved\<close> of a descriptor is left out: no code here sets or reads it.\<close>

text \<open>\<open>btoc\<close> of a segment size, and of the bytes before a selector; \<open>lstouv\<close>.\<close>

definition seg_clicks :: "u16 \<Rightarrow> u16" where
  "seg_clicks n = of_nat ((unat n + 511) div 512)"

definition ldt_clicks :: "u16 \<Rightarrow> u16" where
  "ldt_clicks seln = word_of_int ((sint seln * 8 + 511) div 512)"

definition lstouv :: "u16 \<Rightarrow> u32" where
  "lstouv x = push_bit 16 (ucast (push_bit 3 x OR 7))"

section \<open>Headers\<close>

definition shmconv :: "shminfo \<Rightarrow> u16 \<Rightarrow> u16 \<Rightarrow> shmst \<Rightarrow> nat sysres" where
  "shmconv si bad sid s = ipc_conv (shmmni si) (\<lambda>i. shm_perm (shmem s i)) bad sid"

text \<open>\<open>None\<close>: the map is corrupt.\<close>

definition shmfree :: "shminfo \<Rightarrow> nat option \<Rightarrow> shmst \<Rightarrow> shmst option" where
  "shmfree si sp s =
     (case sp of
        None \<Rightarrow> Some s
      | Some i \<Rightarrow>
          (let s = upd_shm i (\<lambda>d. d\<lparr>shm_nattch := shm_nattch d - 1, shm_cnattch := shm_cnattch d - 1\<rparr>) s;
               d = shmem s i
           in if shm_cnattch d = 0 \<and> mode (shm_perm d) AND SHM_DEST \<noteq> 0 then
                (let n = seg_clicks (shm_segsz d)
                 in case mfree (coremap s) n (shm_segpcc d) of
                      None \<Rightarrow> None
                    | Some (m, _) \<Rightarrow>
                        Some (upd_shm i (\<lambda>d. d\<lparr>shm_perm := (shm_perm d)\<lparr>mode := 0,
                                seq := ipc_bump (shmmni si) (ipc_id (shmmni si) (seq (shm_perm d)) i) (seq (shm_perm d))\<rparr>\<rparr>)
                              (s\<lparr>coremap := m, maxmem := maxmem s + n, shmtot := shmtot s - n\<rparr>)))
              else Some s))"

definition shmget :: "shminfo \<Rightarrow> ucred \<Rightarrow> u32 \<Rightarrow> u32 \<Rightarrow> u16 \<Rightarrow> u16 \<Rightarrow> shmst \<Rightarrow> u16 sysres \<times> shmst" where
  "shmget si u now k sz flag s =
     (case ipcget u k flag (\<lambda>i. shm_perm (shmem s i)) (unat (shmmni si)) of
        Inl e \<Rightarrow> (Fail e, s)
      | Inr (i, new, p) \<Rightarrow>
          (let s = upd_shm i (\<lambda>d. d\<lparr>shm_perm := p\<rparr>) s;
               sid = ipc_id (shmmni si) (seq p) i
           in if new then
                (if sz < shmmin si \<or> shmmax si < sz then (Fail EINVAL, upd_mode i (\<lambda>_. 0) s)
                 else
                   (let n = seg_clicks sz
                    in if shmall si <s shmtot s + n then (Fail ENOMEM, upd_mode i (\<lambda>_. 0) s)
                       else
                         (let s = upd_shm i (\<lambda>d. d\<lparr>shm_segsz := sz\<rparr>) s
                          in case malloc (coremap s) n of
                               None \<Rightarrow> (Wild, s)
                             | Some (a, m) \<Rightarrow>
                                 (let s = upd_shm i (\<lambda>d. d\<lparr>shm_segpcc := a\<rparr>) (s\<lparr>coremap := m\<rparr>)
                                  in if a = 0 then (Fail ENOMEM, upd_mode i (\<lambda>_. 0) s)
                                     else
                                       (Ret sid,
                                        upd_shm i (\<lambda>d. d\<lparr>shm_nattch := 0, shm_cnattch := 0, shm_atime := 0, shm_dtime := 0,
                                                        shm_ctime := now, shm_lpid := 0, shm_cpid := u_pid u\<rparr>)
                                          (upd_mode i (\<lambda>m. m OR SHM_CLEAR)
                                             (s\<lparr>maxmem := maxmem s - n, shmtot := shmtot s + n\<rparr>)))))))
              else if sz \<noteq> 0 \<and> shm_segsz (shmem s i) < sz then (Fail EINVAL, s)
              else (Ret sid, s)))"

datatype shm_cmd = M_RMID | M_SET "shmid_ds option" | M_STAT bool | M_other

datatype shm_reply = M_val u16 | M_ds shmid_ds

definition shm_change :: "ucred \<Rightarrow> ipc_perm \<Rightarrow> bool" where
  "shm_change u p \<longleftrightarrow> u_uid u = uid p \<or> u_uid u = cuid p \<or> suser u"

definition shmctl :: "shminfo \<Rightarrow> ucred \<Rightarrow> u32 \<Rightarrow> u16 \<Rightarrow> shm_cmd \<Rightarrow> shmst \<Rightarrow> shm_reply sysres \<times> shmst" where
  "shmctl si u now sid cmd s =
     (case shmconv si (case cmd of M_STAT _ \<Rightarrow> 0 | _ \<Rightarrow> SHM_DEST) sid s of
        Wild \<Rightarrow> (Wild, s)
      | Fail e \<Rightarrow> (Fail e, s)
      | Ret i \<Rightarrow>
          (let d = shmem s i
           in case cmd of
                M_RMID \<Rightarrow>
                  (if \<not> shm_change u (shm_perm d) then (Fail EPERM, s)
                   else
                     (let s = upd_shm i (\<lambda>d. d\<lparr>shm_ctime := now\<rparr>) s;
                          s = upd_mode i (\<lambda>m. m OR SHM_DEST) s;
                          s = upd_shm i (\<lambda>d. d\<lparr>shm_perm := (shm_perm d)\<lparr>key := IPC_PRIVATE\<rparr>,
                                              shm_nattch := shm_nattch d + 1, shm_cnattch := shm_cnattch d + 1\<rparr>) s
                      in case shmfree si (Some i) s of None \<Rightarrow> (Wild, s) | Some s \<Rightarrow> (Ret (M_val 0), s)))
              | M_SET buf \<Rightarrow>
                  (if \<not> shm_change u (shm_perm d) then (Fail EPERM, s)
                   else case buf of
                          None \<Rightarrow> (Fail EFAULT, s)
                        | Some ds \<Rightarrow>
                            (Ret (M_val 0), upd_shm i (\<lambda>d. d\<lparr>shm_perm := (shm_perm d)\<lparr>uid := uid (shm_perm ds), gid := gid (shm_perm ds),
                               mode := (mode (shm_perm ds) AND perm_bits) OR (mode (shm_perm d) AND NOT perm_bits)\<rparr>, shm_ctime := now\<rparr>) s))
              | M_STAT good \<Rightarrow>
                  (case ipcaccess u (shm_perm d) SHM_R of
                     Some e \<Rightarrow> (Fail e, s)
                   | None \<Rightarrow> if good then (Ret (M_ds d), s) else (Fail EFAULT, s))
              | M_other \<Rightarrow> (Fail EINVAL, s)))"

section \<open>Attaching\<close>

definition CODE1_SEL :: u16 where "CODE1_SEL = 10"
definition ACC_UCODE :: byte where "ACC_UCODE = 0xFA"
definition ACC_UDATA :: byte where "ACC_UDATA = 0xF2"

text \<open>The entries of \<open>shm_shmem\<close> and \<open>shm_seln\<close> of a process.\<close>

definition shm_slots :: "shminfo \<Rightarrow> nat \<Rightarrow> nat list" where
  "shm_slots si p = [p * shmseg si ..< p * shmseg si + shmseg si]"

text \<open>The address the caller asks for, rounded, and the check of it.\<close>

definition shm_addr :: "u32 \<Rightarrow> u16 \<Rightarrow> u32" where
  "shm_addr addr flag = (if flag AND SHM_RND \<noteq> 0 then addr AND NOT 0xFFFF else addr)"

definition shm_addr_seln :: "u32 \<Rightarrow> u16" where
  "shm_addr_seln addr = drop_bit 3 (ucast (drop_bit 16 addr))"

definition shm_addr_ok :: "u32 \<Rightarrow> bool" where
  "shm_addr_ok addr \<longleftrightarrow> addr = 0 \<or>
     \<not> (shm_addr_seln addr \<le>s CODE1_SEL + 1 \<or> addr \<noteq> lstouv (shm_addr_seln addr AND 0xFF))"

text \<open>The choice of a selector when the address is 0: a free entry from \<open>p_smend\<close> on, the place for
  the next descriptors behind the table when segments are attached, or, the first time, a place
  behind what is in use. The second component is the new \<open>p_smend\<close>.\<close>

definition free_seln :: "(u16 \<Rightarrow> seg_desc) \<Rightarrow> u16 \<Rightarrow> u16 \<Rightarrow> u16" where
  "free_seln t seln i =
     (case List.find (\<lambda>x. sd_access (t (word_of_int x)) = 0) [sint seln .. sint i - 1] of
        None \<Rightarrow> 0 | Some x \<Rightarrow> word_of_int x)"

definition used_seln :: "(u16 \<Rightarrow> seg_desc) \<Rightarrow> nat \<Rightarrow> nat" where
  "used_seln t n = (case List.find (\<lambda>j. sd_access (t (of_nat j)) \<noteq> 0) (rev [1 ..< n + 1]) of None \<Rightarrow> 0 | Some j \<Rightarrow> j)"

definition pick_seln :: "shminfo \<Rightarrow> nat \<Rightarrow> shmst \<Rightarrow> u16 \<times> u16" where
  "pick_seln si p s =
     (let i = u_lsize s p * 64;
          seln = (if p_smend s p \<noteq> 0 then free_seln (ldt s p) (p_smend s p) i else 0)
      in if seln \<noteq> 0 then (seln, p_smend s p)
         else
           (let seln = (if p_smbeg s p \<noteq> 0 then i - of_nat (shmseg si) + 64 else 0)
            in if seln \<noteq> 0 then (seln, seln)
               else
                 (let j = used_seln (ldt s p) (shmseg si + shmbrk si);
                      seln = i + 64 * of_nat ((j + 63) div 64) - of_nat (shmseg si)
                  in (seln, seln))))"

text \<open>Growing the descriptor table to hold the selector; \<open>None\<close> when \<open>chksize\<close> refuses. The new
  entries are cleared.\<close>

definition grow_ldt :: "nat \<Rightarrow> u16 \<Rightarrow> shmst \<Rightarrow> shmst option" where
  "grow_ldt p seln s =
     (let i = ldt_clicks seln - u_lsize s p
      in if \<not> 0 <s i then Some s
         else
           (let n = 4 + image s p + unat (u_lsize s p + i)
            in if 2048 < n \<or> unat (maxmem s) < n then None
               else
                 Some (s\<lparr>u_lsize := (u_lsize s)(p := u_lsize s p + i),
                         ldt := (ldt s)(p := (\<lambda>x. if u_lsize s p * 64 \<le> x \<and> x < (u_lsize s p + i) * 64
                           then \<lparr>sd_limit = 0, sd_lowbase = 0, sd_hibase = 0, sd_access = 0\<rparr> else ldt s p x))\<rparr>)))"

text \<open>The last part: the descriptor and the tables.\<close>

definition shm_attach :: "ucred \<Rightarrow> u32 \<Rightarrow> u16 \<Rightarrow> nat \<Rightarrow> nat \<Rightarrow> u16 \<Rightarrow> shmst \<Rightarrow> shmst" where
  "shm_attach u now flag i k seln s =
     (let p = u_procx u; d = shmem s i;
          paddr = push_bit 9 (ucast (shm_segpcc d)) :: u32;
          e = \<lparr>sd_limit = shm_segsz d - 1, sd_lowbase = ucast paddr, sd_hibase = ucast (drop_bit 16 paddr),
               sd_access = (if flag AND SHM_RDONLY \<noteq> 0 then ACC_UCODE else ACC_UDATA)\<rparr>;
          s = s\<lparr>ldt := (ldt s)(p := (ldt s p)(seln := e))\<rparr>;
          s = upd_mode i (\<lambda>m. m AND NOT SHM_CLEAR) s;
          s = s\<lparr>shm_shmem := (shm_shmem s)(k := Some i), shm_seln := (shm_seln s)(k := seln)\<rparr>;
          s = (if p_smbeg s p = 0 \<or> seln <s p_smbeg s p then s\<lparr>p_smbeg := (p_smbeg s)(p := seln)\<rparr> else s)
      in upd_shm i (\<lambda>d. d\<lparr>shm_nattch := shm_nattch d + 1, shm_cnattch := shm_cnattch d + 1, shm_atime := now,
                          shm_lpid := u_pid u\<rparr>) s)"

definition shmat :: "shminfo \<Rightarrow> ucred \<Rightarrow> u32 \<Rightarrow> u16 \<Rightarrow> u32 \<Rightarrow> u16 \<Rightarrow> shmst \<Rightarrow> u32 sysres \<times> shmst" where
  "shmat si u now sid addr flag s =
     (case shmconv si SHM_DEST sid s of
        Wild \<Rightarrow> (Wild, s)
      | Fail e \<Rightarrow> (Fail e, s)
      | Ret i \<Rightarrow>
          (case ipcaccess u (shm_perm (shmem s i)) SHM_R of
             Some e \<Rightarrow> (Fail e, s)
           | None \<Rightarrow>
               (case (if flag AND SHM_RDONLY = 0 then ipcaccess u (shm_perm (shmem s i)) SHM_W else None) of
                  Some e \<Rightarrow> (Fail e, s)
                | None \<Rightarrow>
                    (case List.find (\<lambda>k. shm_shmem s k = None) (shm_slots si (u_procx u)) of
                       None \<Rightarrow> (Fail EMFILE, s)
                     | Some k \<Rightarrow>
                         (let p = u_procx u; addr = shm_addr addr flag
                          in if \<not> shm_addr_ok addr then (Fail EINVAL, s)
                             else if addr \<noteq> 0 \<and> ldt_clicks (shm_addr_seln addr) \<le> u_lsize s p \<and>
                                     sd_access (ldt s p (shm_addr_seln addr)) \<noteq> 0 then (Fail ENOMEM, s)
                             else
                               (let (seln, smend) = (if addr = 0 then pick_seln si p s else (shm_addr_seln addr, p_smend s p));
                                    s = s\<lparr>p_smend := (p_smend s)(p := smend)\<rparr>
                                in case grow_ldt p seln s of
                                     None \<Rightarrow> (Fail ENOMEM, s)
                                   | Some s \<Rightarrow> (Ret (lstouv seln), shm_attach u now flag i k seln s)))))))"

section \<open>Detaching\<close>

text \<open>The new \<open>p_smbeg\<close>: the smallest selector in use.\<close>

definition smbeg_of :: "u16 list \<Rightarrow> u16" where
  "smbeg_of sels = foldl (\<lambda>b i. if i \<noteq> 0 then (if b \<noteq> 0 then (if i <s b then i else b) else i) else b) 0 sels"

text \<open>\<open>Wild\<close>: the time and process are written through a null pointer.\<close>

definition shmdt :: "shminfo \<Rightarrow> ucred \<Rightarrow> u32 \<Rightarrow> u32 \<Rightarrow> shmst \<Rightarrow> u16 sysres \<times> shmst" where
  "shmdt si u now addr s =
     (let p = u_procx u
      in case List.find (\<lambda>k. addr = lstouv (shm_seln s k)) (shm_slots si p) of
           None \<Rightarrow> (Fail EINVAL, s)
         | Some k \<Rightarrow>
             (let s = s\<lparr>ldt := (ldt s)(p := (ldt s p)(shm_seln s k := \<lparr>sd_limit = 0, sd_lowbase = 0, sd_hibase = 0, sd_access = 0\<rparr>))\<rparr>
              in case shm_shmem s k of
                   None \<Rightarrow> (Wild, s)
                 | Some i \<Rightarrow>
                     (case shmfree si (Some i) s of
                        None \<Rightarrow> (Wild, s)
                      | Some s \<Rightarrow>
                          (let s = upd_shm i (\<lambda>d. d\<lparr>shm_dtime := now, shm_lpid := u_pid u\<rparr>) s;
                               s = s\<lparr>shm_shmem := (shm_shmem s)(k := None), shm_seln := (shm_seln s)(k := 0)\<rparr>
                           in (Ret 0, s\<lparr>p_smbeg := (p_smbeg s)(p := smbeg_of (map (shm_seln s) (shm_slots si p)))\<rparr>)))))"

text \<open>The loop of \<open>shmexec\<close>.\<close>

fun shm_drop_all :: "shminfo \<Rightarrow> nat list \<Rightarrow> shmst \<Rightarrow> shmst option" where
  "shm_drop_all si [] s = Some s"
| "shm_drop_all si (k # ks) s =
     (case shm_shmem s k of
        None \<Rightarrow> shm_drop_all si ks s
      | Some i \<Rightarrow>
          (case shmfree si (Some i) s of
             None \<Rightarrow> None
           | Some s \<Rightarrow> shm_drop_all si ks (s\<lparr>shm_shmem := (shm_shmem s)(k := None), shm_seln := (shm_seln s)(k := 0)\<rparr>)))"

definition shmexec :: "shminfo \<Rightarrow> nat \<Rightarrow> shmst \<Rightarrow> shmst option" where
  "shmexec si p s =
     (if p_smbeg s p = 0 then Some s
      else shm_drop_all si (shm_slots si p) (s\<lparr>p_smbeg := (p_smbeg s)(p := 0), p_smend := (p_smend s)(p := 0)\<rparr>))"

definition shmexit :: "shminfo \<Rightarrow> nat \<Rightarrow> shmst \<Rightarrow> shmst option" where
  "shmexit = shmexec"

text \<open>The loop of \<open>shmfork\<close> over the offsets in the tables.\<close>

fun shm_copy :: "nat \<Rightarrow> nat \<Rightarrow> nat list \<Rightarrow> shmst \<Rightarrow> shmst" where
  "shm_copy c p [] s = s"
| "shm_copy c p (j # js) s =
     (let s = s\<lparr>shm_shmem := (shm_shmem s)(c + j := shm_shmem s (p + j))\<rparr>
      in case shm_shmem s (c + j) of
           None \<Rightarrow> shm_copy c p js s
         | Some i \<Rightarrow>
             shm_copy c p js
               (upd_shm i (\<lambda>d. d\<lparr>shm_nattch := shm_nattch d + 1, shm_cnattch := shm_cnattch d + 1\<rparr>)
                 (s\<lparr>shm_seln := (shm_seln s)(c + j := shm_seln s (p + j))\<rparr>)))"

definition shmfork :: "shminfo \<Rightarrow> nat \<Rightarrow> nat \<Rightarrow> shmst \<Rightarrow> shmst" where
  "shmfork si c p s =
     (if p_smbeg s p = 0 then s
      else shm_copy (c * shmseg si) (p * shmseg si) [0..<shmseg si]
        (s\<lparr>p_smbeg := (p_smbeg s)(c := p_smbeg s p), p_smend := (p_smend s)(c := p_smend s p)\<rparr>))"

section \<open>The invariant\<close>

text \<open>How often a segment is attached, in a table of \<open>N\<close> entries.\<close>

definition att :: "nat \<Rightarrow> (nat \<Rightarrow> nat option) \<Rightarrow> nat \<Rightarrow> nat" where
  "att N A i = (\<Sum>k<N. if A k = Some i then 1 else 0)"

lemma att_upd: "k < N \<Longrightarrow> att N (A(k := v)) i + (if A k = Some i then 1 else 0) = att N A i + (if v = Some i then 1 else 0)"
proof -
  assume k: "k < N"
  have "(\<Sum>j \<in> {..<N} - {k}. if (A(k := v)) j = Some i then 1 else 0) = (\<Sum>j \<in> {..<N} - {k}. if A j = Some i then 1 else (0 :: nat))"
    by (rule sum.cong) auto
  then show ?thesis using k by (simp add: att_def sum.remove [of "{..<N}" k])
qed

lemma att_0: "att N A i = 0 \<longleftrightarrow> (\<forall>k<N. A k \<noteq> Some i)"
  by (auto simp: att_def)

lemma att_le: "att N A i \<le> N"
proof -
  have "att N A i \<le> (\<Sum>k<N. 1)" unfolding att_def by (rule sum_mono) simp
  then show ?thesis by simp
qed

abbreviation shm_used :: "shmst \<Rightarrow> nat \<Rightarrow> bool" where "shm_used s i \<equiv> allocated (shm_perm (shmem s i))"

definition shm_runs :: "nat \<Rightarrow> shmst \<Rightarrow> (u16 \<times> u16) list" where
  "shm_runs m s = map (\<lambda>i. (shm_segpcc (shmem s i), seg_clicks (shm_segsz (shmem s i)))) (filter (shm_used s) [0..<m])"

text \<open>\<open>x\<close> is a segment with one reference more than the table shows.\<close>

definition shm_inv :: "shminfo \<Rightarrow> nat \<Rightarrow> nat option \<Rightarrow> shmst \<Rightarrow> bool" where
  "shm_inv si N x s \<longleftrightarrow>
     (let m = unat (shmmni si); P = (\<lambda>i. shm_perm (shmem s i));
          n = (\<lambda>i. att N (shm_shmem s) i + (if x = Some i then 1 else 0))
      in seq_ok m P \<and> keys_ok P m \<and> map_ok (coremap s) \<and> runs_apart (free_units (coremap s)) (shm_runs m s) \<and> N + 1 < 65536 \<and>
         (\<forall>k<N. \<forall>i. shm_shmem s k = Some i \<longrightarrow> i < m \<and> shm_used s i) \<and> (\<forall>i. x = Some i \<longrightarrow> i < m \<and> shm_used s i) \<and>
         (\<forall>i<m. shm_used s i \<longrightarrow> unat (shm_nattch (shmem s i)) = n i \<and> unat (shm_cnattch (shmem s i)) = n i \<and>
            (mode (P i) AND SHM_DEST \<noteq> 0 \<longrightarrow> n i \<noteq> 0)))"

lemma shm_invD:
  assumes "shm_inv si N x s"
  shows "seq_ok (unat (shmmni si)) (\<lambda>i. shm_perm (shmem s i))" "keys_ok (\<lambda>i. shm_perm (shmem s i)) (unat (shmmni si))"
    "map_ok (coremap s)" "runs_apart (free_units (coremap s)) (shm_runs (unat (shmmni si)) s)" "N + 1 < 65536"
    "k < N \<Longrightarrow> shm_shmem s k = Some i \<Longrightarrow> i < unat (shmmni si) \<and> shm_used s i"
    "x = Some i \<Longrightarrow> i < unat (shmmni si) \<and> shm_used s i"
    "i < unat (shmmni si) \<Longrightarrow> shm_used s i \<Longrightarrow> unat (shm_nattch (shmem s i)) = att N (shm_shmem s) i + (if x = Some i then 1 else 0)"
    "i < unat (shmmni si) \<Longrightarrow> shm_used s i \<Longrightarrow> unat (shm_cnattch (shmem s i)) = att N (shm_shmem s) i + (if x = Some i then 1 else 0)"
    "i < unat (shmmni si) \<Longrightarrow> shm_used s i \<Longrightarrow> mode (shm_perm (shmem s i)) AND SHM_DEST \<noteq> 0 \<Longrightarrow>
       att N (shm_shmem s) i + (if x = Some i then 1 else 0) \<noteq> 0"
  using assms unfolding shm_inv_def Let_def by (elim conjE; simp only: simp_thms; blast)+

lemma shm_invI:
  assumes "seq_ok (unat (shmmni si)) (\<lambda>i. shm_perm (shmem s i))" "keys_ok (\<lambda>i. shm_perm (shmem s i)) (unat (shmmni si))"
    "map_ok (coremap s)" "runs_apart (free_units (coremap s)) (shm_runs (unat (shmmni si)) s)" "N + 1 < 65536"
    "\<And>k i. k < N \<Longrightarrow> shm_shmem s k = Some i \<Longrightarrow> i < unat (shmmni si) \<and> shm_used s i"
    "\<And>i. x = Some i \<Longrightarrow> i < unat (shmmni si) \<and> shm_used s i"
    "\<And>i. i < unat (shmmni si) \<Longrightarrow> shm_used s i \<Longrightarrow> unat (shm_nattch (shmem s i)) = att N (shm_shmem s) i + (if x = Some i then 1 else 0)"
    "\<And>i. i < unat (shmmni si) \<Longrightarrow> shm_used s i \<Longrightarrow> unat (shm_cnattch (shmem s i)) = att N (shm_shmem s) i + (if x = Some i then 1 else 0)"
    "\<And>i. i < unat (shmmni si) \<Longrightarrow> shm_used s i \<Longrightarrow> mode (shm_perm (shmem s i)) AND SHM_DEST \<noteq> 0 \<Longrightarrow>
       att N (shm_shmem s) i + (if x = Some i then 1 else 0) \<noteq> 0"
  shows "shm_inv si N x s"
  using assms unfolding shm_inv_def Let_def by simp

text \<open>Changing fields of a header that do not matter to the table of attachments.\<close>

named_theorems shm_simps \<open>fields of an updated state of shared memory\<close>

lemma upd_shm_fields [shm_simps]:
  "shmem (upd_shm i f s) = (shmem s)(i := f (shmem s i))" "shm_shmem (upd_shm i f s) = shm_shmem s" "shm_seln (upd_shm i f s) = shm_seln s"
  "p_smbeg (upd_shm i f s) = p_smbeg s" "p_smend (upd_shm i f s) = p_smend s" "ldt (upd_shm i f s) = ldt s"
  "u_lsize (upd_shm i f s) = u_lsize s" "image (upd_shm i f s) = image s" "coremap (upd_shm i f s) = coremap s"
  "maxmem (upd_shm i f s) = maxmem s" "shmtot (upd_shm i f s) = shmtot s"
  by (simp_all add: upd_shm_def)

lemma shm_runs_upd:
  assumes "i < m" "shm_used s i" "\<not> shm_used t i" "\<And>j. j \<noteq> i \<Longrightarrow> shmem t j = shmem s j"
  shows "\<exists>xs ys. shm_runs m s = xs @ (shm_segpcc (shmem s i), seg_clicks (shm_segsz (shmem s i))) # ys \<and> shm_runs m t = xs @ ys"
proof -
  have u: "[0..<m] = [0..<i] @ i # [Suc i..<m]" using assms(1) upt_add_eq_append [of 0 i "m - i"] by (simp add: upt_conv_Cons)
  let ?R = "\<lambda>s xs. map (\<lambda>i. (shm_segpcc (shmem s i), seg_clicks (shm_segsz (shmem s i)))) (filter (shm_used s) xs)"
  have f: "?R t xs = ?R s xs" if "i \<notin> set xs" for xs
    using that assms(4) by (induction xs) auto
  have "shm_runs m t = ?R s [0..<i] @ ?R s [Suc i..<m]"
    unfolding shm_runs_def u using assms(3) f [of "[0..<i]"] f [of "[Suc i..<m]"] by simp
  moreover have "shm_runs m s = ?R s [0..<i] @ (shm_segpcc (shmem s i), seg_clicks (shm_segsz (shmem s i))) # ?R s [Suc i..<m]"
    unfolding shm_runs_def u using assms(2) by simp
  ultimately show ?thesis by blast
qed

text \<open>A run of the map is given back, unless the map has no room for it.\<close>

lemma mfree_run:
  assumes "map_ok mp" and "runs_apart (free_units mp) (xs @ (a, n) # ys)"
  shows "\<exists>m ev. mfree mp n a = Some (m, ev) \<and> map_ok m \<and> runs_apart (free_units m) (xs @ ys) \<and>
     (if mapsize mp = 0 \<and> m = mp then True else free_units m = free_units mp \<union> run a n)"
proof -
  from assms(2) have "n \<noteq> 0" "a \<noteq> 0" "unat a + unat n < 65536" "run a n \<inter> free_units mp = {}"
    by (auto simp: runs_apart_def)
  then have "releasable (live mp) n a" by (simp add: releasable_def free_units_def)
  from mfree_law [OF assms(1) this] kmap.put_apart [OF assms] show ?thesis by (auto split: if_splits)
qed

definition shm_freed :: "shmid_ds \<Rightarrow> rmap \<Rightarrow> rmap \<Rightarrow> bool" where
  "shm_freed d m m' \<longleftrightarrow> mapsize m = 0 \<or> free_units m' = free_units m \<union> run (shm_segpcc d) (seg_clicks (shm_segsz d))"

lemma shmfree_ok:
  assumes I: "shm_inv si N (Some i) s"
  shows "\<exists>t. shmfree si (Some i) s = Some t \<and> shm_inv si N None t \<and> shm_shmem t = shm_shmem s \<and> shm_seln t = shm_seln s \<and>
     p_smbeg t = p_smbeg s \<and> p_smend t = p_smend s \<and> ldt t = ldt s \<and> u_lsize t = u_lsize s \<and> image t = image s \<and>
     (\<forall>j. j \<noteq> i \<longrightarrow> shmem t j = shmem s j) \<and>
     (if att N (shm_shmem s) i = 0 \<and> mode (shm_perm (shmem s i)) AND SHM_DEST \<noteq> 0 then \<not> shm_used t i \<and> shm_freed (shmem s i) (coremap s) (coremap t)
      else shmem t i = (shmem s i)\<lparr>shm_nattch := shm_nattch (shmem s i) - 1, shm_cnattch := shm_cnattch (shmem s i) - 1\<rparr> \<and>
        coremap t = coremap s)"
proof -
  note D = shm_invD [OF I]
  let ?m = "unat (shmmni si)" let ?d = "shmem s i"
  let ?s = "upd_shm i (\<lambda>d. d\<lparr>shm_nattch := shm_nattch d - 1, shm_cnattch := shm_cnattch d - 1\<rparr>) s"
  have i: "i < ?m" "shm_used s i" using D(7) by auto
  have n: "unat (shm_nattch ?d - 1) = att N (shm_shmem s) i" "unat (shm_cnattch ?d - 1) = att N (shm_shmem s) i"
    using D(8,9) [OF i] by (simp_all add: unat_minus_small word_le_nat_alt)
  have z: "shm_cnattch ?d - 1 = 0 \<longleftrightarrow> att N (shm_shmem s) i = 0" using n(2) by (metis unat_eq_0_iff)
  show ?thesis
  proof (cases "att N (shm_shmem s) i = 0 \<and> mode (shm_perm ?d) AND SHM_DEST \<noteq> 0")
    case False
    then have "shmfree si (Some i) s = Some ?s" using z by (auto simp: shmfree_def Let_def shm_simps)
    moreover have "shm_inv si N None ?s"
    proof (rule shm_invI)
      have p: "(\<lambda>j. shm_perm (shmem ?s j)) = (\<lambda>j. shm_perm (shmem s j))" by (auto simp: shm_simps)
      show "seq_ok ?m (\<lambda>j. shm_perm (shmem ?s j))" "keys_ok (\<lambda>j. shm_perm (shmem ?s j)) ?m" unfolding p by (rule D)+
      have "shm_runs ?m ?s = shm_runs ?m s" unfolding shm_runs_def by (auto simp: shm_simps intro!: map_cong filter_cong)
      then show "runs_apart (free_units (coremap ?s)) (shm_runs ?m ?s)" using D(4) by (simp add: shm_simps)
      show "map_ok (coremap ?s)" "N + 1 < 65536" using D(3,5) by (simp_all add: shm_simps)
      show "k < N \<Longrightarrow> shm_shmem ?s k = Some j \<Longrightarrow> j < ?m \<and> shm_used ?s j" for k j using D(6) [of k j] by (auto simp: shm_simps)
      fix j assume "j < ?m" "shm_used ?s j"
      then have j: "j < ?m" "shm_used s j" by (simp_all add: shm_simps split: if_splits)
      show "unat (shm_nattch (shmem ?s j)) = att N (shm_shmem ?s) j + (if None = Some j then 1 else 0)"
        "unat (shm_cnattch (shmem ?s j)) = att N (shm_shmem ?s) j + (if None = Some j then 1 else 0)"
        using n D(8,9) [OF j] by (auto simp: shm_simps)
      show "mode (shm_perm (shmem ?s j)) AND SHM_DEST \<noteq> 0 \<Longrightarrow> att N (shm_shmem ?s) j + (if None = Some j then 1 else 0) \<noteq> 0"
        using D(10) [OF j] False by (auto simp: shm_simps split: if_splits)
    qed simp
    ultimately show ?thesis unfolding if_not_P [OF False] by (simp add: shm_simps)
  next
    case True
    let ?n = "seg_clicks (shm_segsz ?d)"
    let ?g = "\<lambda>d. d\<lparr>shm_perm := (shm_perm d)\<lparr>mode := 0,
       seq := ipc_bump (shmmni si) (ipc_id (shmmni si) (seq (shm_perm d)) i) (seq (shm_perm d))\<rparr>\<rparr>"
    obtain xs ys where r: "shm_runs ?m s = xs @ (shm_segpcc ?d, ?n) # ys" "shm_runs ?m (upd_shm i ?g ?s) = xs @ ys"
      using shm_runs_upd [OF i, of "upd_shm i ?g ?s"] by (auto simp: shm_simps)
    obtain mp ev where mp: "mfree (coremap s) ?n (shm_segpcc ?d) = Some (mp, ev)" "map_ok mp" "runs_apart (free_units mp) (xs @ ys)"
      "if mapsize (coremap s) = 0 \<and> mp = coremap s then True else free_units mp = free_units (coremap s) \<union> run (shm_segpcc ?d) ?n"
      using mfree_run [OF D(3) D(4) [unfolded r(1)]] by blast
    let ?t = "upd_shm i ?g (?s\<lparr>coremap := mp, maxmem := maxmem s + ?n, shmtot := shmtot s - ?n\<rparr>)"
    have t: "shmfree si (Some i) s = Some ?t" using True z mp(1) by (simp add: shmfree_def Let_def shm_simps)
    have nu: "\<not> shm_used ?t i" by (simp add: shm_simps)
    have "shm_inv si N None ?t"
    proof (rule shm_invI)
      have sq: "unat (ipc_bump (shmmni si) (ipc_id (shmmni si) (seq (shm_perm ?d)) i) (seq (shm_perm ?d))) * ?m + i < 32768"
        using ipc_bump_ok(1) [OF D(1) i(1)] by simp
      then show "seq_ok ?m (\<lambda>j. shm_perm (shmem ?t j))" using D(1) by (auto simp: seq_ok_def shm_simps)
      show "keys_ok (\<lambda>j. shm_perm (shmem ?t j)) ?m" using D(2) by (auto simp: keys_ok_def shm_simps)
      show "map_ok (coremap ?t)" "N + 1 < 65536" using mp(2) D(5) by (simp_all add: shm_simps)
      have "shm_runs ?m ?t = shm_runs ?m (upd_shm i ?g ?s)" by (simp add: shm_runs_def shm_simps)
      then show "runs_apart (free_units (coremap ?t)) (shm_runs ?m ?t)" using mp(3) r(2) by (simp add: shm_simps)
      show "k < N \<Longrightarrow> shm_shmem ?t k = Some j \<Longrightarrow> j < ?m \<and> shm_used ?t j" for k j
        using D(6) [of k j] True att_0 [of N "shm_shmem s" i] by (auto simp: shm_simps)
      fix j assume j: "j < ?m" "shm_used ?t j"
      then have "j \<noteq> i" "shm_used s j" using nu by (auto simp: shm_simps split: if_splits)
      then show "unat (shm_nattch (shmem ?t j)) = att N (shm_shmem ?t) j + (if None = Some j then 1 else 0)"
        "unat (shm_cnattch (shmem ?t j)) = att N (shm_shmem ?t) j + (if None = Some j then 1 else 0)"
        "mode (shm_perm (shmem ?t j)) AND SHM_DEST \<noteq> 0 \<Longrightarrow> att N (shm_shmem ?t) j + (if None = Some j then 1 else 0) \<noteq> 0"
        using D(8-10) [OF j(1)] by (auto simp: shm_simps)
    qed simp
    moreover have "shm_freed ?d (coremap s) (coremap ?t)" using mp(4) by (auto simp: shm_freed_def shm_simps split: if_splits)
    ultimately show ?thesis using t nu True by (simp add: shm_simps)
  qed
qed

lemma runs_apart_move: "runs_apart av (x # xs @ ys) \<Longrightarrow> runs_apart av (xs @ x # ys)"
  by (cases x) (fastforce simp: runs_apart_def sorted_wrt_append)

section \<open>The calls keep the invariant\<close>

lemma keys_okD:
  "keys_ok base cnt \<Longrightarrow> i < cnt \<Longrightarrow> j < cnt \<Longrightarrow> allocated (base i) \<Longrightarrow> allocated (base j) \<Longrightarrow> key (base i) = key (base j) \<Longrightarrow>
   key (base i) \<noteq> IPC_PRIVATE \<Longrightarrow> i = j"
  by (simp add: keys_ok_def)

text \<open>A header that is not in use may change, as long as its usage count stays.\<close>

lemma shm_inv_unused:
  assumes I: "shm_inv si N None s" and i: "i < unat (shmmni si)" "\<not> shm_used s i" "\<not> shm_used t i"
    and q: "seq (shm_perm (shmem t i)) = seq (shm_perm (shmem s i))" "\<And>j. j \<noteq> i \<Longrightarrow> shmem t j = shmem s j"
    and c: "coremap t = coremap s" "shm_shmem t = shm_shmem s"
  shows "shm_inv si N None t"
proof -
  note D = shm_invD [OF I]
  have u: "shm_used t j \<longleftrightarrow> shm_used s j" for j using i q(2) by (cases "j = i") auto
  have p: "shm_used t j \<Longrightarrow> shmem t j = shmem s j" for j using i(3) q(2) by (cases "j = i") auto
  have r: "shm_runs (unat (shmmni si)) t = shm_runs (unat (shmmni si)) s"
    unfolding shm_runs_def using u p by (intro map_cong filter_cong) auto
  have sq: "seq (shm_perm (shmem t j)) = seq (shm_perm (shmem s j))" for j using q by (cases "j = i") auto
  show ?thesis
  proof (rule shm_invI)
    show "seq_ok (unat (shmmni si)) (\<lambda>i. shm_perm (shmem t i))" using D(1) sq by (simp add: seq_ok_def)
    show "keys_ok (\<lambda>i. shm_perm (shmem t i)) (unat (shmmni si))"
      unfolding keys_ok_def
    proof (intro allI impI, elim conjE)
      fix a b assume e: "a < unat (shmmni si)" "b < unat (shmmni si)" "shm_used t a" "shm_used t b"
        "key (shm_perm (shmem t a)) = key (shm_perm (shmem t b))" "key (shm_perm (shmem t a)) \<noteq> IPC_PRIVATE"
      have "shm_used s a" "shm_used s b" using e(3,4) u [of a] u [of b] by simp_all
      moreover have "key (shm_perm (shmem s a)) = key (shm_perm (shmem s b))" "key (shm_perm (shmem s a)) \<noteq> IPC_PRIVATE"
        using e(5,6) unfolding p [OF e(3)] p [OF e(4)] by this+
      ultimately show "a = b" by (rule keys_okD [OF D(2) e(1,2)])
    qed
    show "map_ok (coremap t)" "N + 1 < 65536" "runs_apart (free_units (coremap t)) (shm_runs (unat (shmmni si)) t)"
      using D(3-5) by (simp_all add: c r)
    show "k < N \<Longrightarrow> shm_shmem t k = Some j \<Longrightarrow> j < unat (shmmni si) \<and> shm_used t j" for k j using D(6) u by (simp add: c)
    fix j assume j: "j < unat (shmmni si)" "shm_used t j"
    have uj: "shm_used s j" using j(2) u [of j] by simp
    show "unat (shm_nattch (shmem t j)) = att N (shm_shmem t) j + (if None = Some j then 1 else 0)"
      "unat (shm_cnattch (shmem t j)) = att N (shm_shmem t) j + (if None = Some j then 1 else 0)"
      "mode (shm_perm (shmem t j)) AND SHM_DEST \<noteq> 0 \<Longrightarrow> att N (shm_shmem t) j + (if None = Some j then 1 else 0) \<noteq> 0"
      unfolding p [OF j(2)] c(2) by (rule D(8-10) [OF j(1) uj], assumption?)+
  qed simp
qed

text \<open>Only the counts of attachments and the modes of the headers in use may change otherwise.\<close>

lemma shm_inv_change:
  assumes I: "shm_inv si N x s" and c: "coremap t = coremap s"
    and h: "\<And>i. seq (shm_perm (shmem t i)) = seq (shm_perm (shmem s i)) \<and> (shm_used t i \<longleftrightarrow> shm_used s i) \<and>
      (key (shm_perm (shmem t i)) = key (shm_perm (shmem s i)) \<or> key (shm_perm (shmem t i)) = IPC_PRIVATE) \<and>
      shm_segpcc (shmem t i) = shm_segpcc (shmem s i) \<and> shm_segsz (shmem t i) = shm_segsz (shmem s i)"
    and a: "\<And>k i. k < N \<Longrightarrow> shm_shmem t k = Some i \<Longrightarrow> i < unat (shmmni si) \<and> shm_used s i"
    and y: "\<And>i. y = Some i \<Longrightarrow> i < unat (shmmni si) \<and> shm_used s i"
    and n: "\<And>i. i < unat (shmmni si) \<Longrightarrow> shm_used s i \<Longrightarrow>
      unat (shm_nattch (shmem t i)) = att N (shm_shmem t) i + (if y = Some i then 1 else 0) \<and>
      unat (shm_cnattch (shmem t i)) = att N (shm_shmem t) i + (if y = Some i then 1 else 0) \<and>
      (mode (shm_perm (shmem t i)) AND SHM_DEST \<noteq> 0 \<longrightarrow> att N (shm_shmem t) i + (if y = Some i then 1 else 0) \<noteq> 0)"
  shows "shm_inv si N y t"
proof -
  note D = shm_invD [OF I]
  have r: "shm_runs (unat (shmmni si)) t = shm_runs (unat (shmmni si)) s"
    unfolding shm_runs_def using h by (intro map_cong filter_cong) auto
  show ?thesis
  proof (rule shm_invI)
    show "seq_ok (unat (shmmni si)) (\<lambda>i. shm_perm (shmem t i))" using D(1) h by (simp add: seq_ok_def)
    show "keys_ok (\<lambda>i. shm_perm (shmem t i)) (unat (shmmni si))"
      unfolding keys_ok_def
    proof (intro allI impI, elim conjE)
      fix i j assume e: "i < unat (shmmni si)" "j < unat (shmmni si)" "shm_used t i" "shm_used t j"
        "key (shm_perm (shmem t i)) = key (shm_perm (shmem t j))" "key (shm_perm (shmem t i)) \<noteq> IPC_PRIVATE"
      then have "key (shm_perm (shmem s i)) = key (shm_perm (shmem s j))" "key (shm_perm (shmem s i)) \<noteq> IPC_PRIVATE"
        using h [of i] h [of j] by auto
      then show "i = j" using D(2) h e(1-4) unfolding keys_ok_def by metis
    qed
    show "map_ok (coremap t)" "N + 1 < 65536" "runs_apart (free_units (coremap t)) (shm_runs (unat (shmmni si)) t)"
      using D(3-5) by (simp_all add: c r)
  qed (use a y n h in auto)
qed

lemma shmget_inv:
  assumes I: "shm_inv si N None s" and mn: "shmmin si \<noteq> 0" and g: "shmget si u now k sz flag s = (r, t)"
  shows "shm_inv si N None t \<and> r \<noteq> Wild \<and> shm_shmem t = shm_shmem s \<and> shm_seln t = shm_seln s \<and> p_smbeg t = p_smbeg s"
proof (cases "ipcget u k flag (\<lambda>i. shm_perm (shmem s i)) (unat (shmmni si))")
  case (Inl e)
  then show ?thesis using g I by (auto simp: shmget_def)
next
  case (Inr q)
  obtain i new p where q: "ipcget u k flag (\<lambda>i. shm_perm (shmem s i)) (unat (shmmni si)) = Inr (i, new, p)"
    using Inr by (cases q) auto
  note S = ipcget_slot [OF q] and D = shm_invD [OF I]
  let ?m = "unat (shmmni si)"
  show ?thesis
  proof (cases new)
    case False
    then have "p = shm_perm (shmem s i)" using S(5) by simp
    then have "upd_shm i (\<lambda>d. d\<lparr>shm_perm := p\<rparr>) s = s" by (simp add: upd_shm_def)
    then show ?thesis using g q False I by (auto simp: shmget_def Let_def split: if_splits)
  next
    case True
    then have nu: "\<not> shm_used s i" and sp: "seq p = seq (shm_perm (shmem s i))" using S by auto
    have fail: "shm_inv si N None (upd_mode i (\<lambda>_. 0) t')"
      if "coremap t' = coremap s" "shm_shmem t' = shm_shmem s" "shm_perm (shmem t' i) = p" "\<And>j. j \<noteq> i \<Longrightarrow> shmem t' j = shmem s j" for t'
      by (rule shm_inv_unused [OF I S(1) nu]) (use that sp in \<open>simp_all add: upd_mode_def shm_simps\<close>)
    let ?s1 = "upd_shm i (\<lambda>d. d\<lparr>shm_perm := p\<rparr>) s" let ?n = "seg_clicks sz"
    consider (bad) e where "t = upd_mode i (\<lambda>_. 0) ?s1" "r = Fail e"
      | (go) "\<not> (sz < shmmin si \<or> shmmax si < sz)" "\<not> shmall si <s shmtot s + ?n"
      using g q True by (auto simp: shmget_def Let_def shm_simps split: if_splits)
    then show ?thesis
    proof cases
      case bad
      then show ?thesis using fail [of ?s1] by (simp add: shm_simps upd_mode_def)
    next
      case go
      have "0 < unat (shmmin si)" using mn by (simp add: unat_gt_0)
      then have "0 < unat sz" using go(1) by (simp add: word_less_nat_alt)
      moreover have "unat sz < 65536" by (rule u16_lt)
      ultimately have n: "?n \<noteq> 0" "unat ?n = (unat sz + 511) div 512"
        unfolding seg_clicks_def by (simp_all add: unat_of_nat word_unat_eq_iff del: unat_eq_0_iff)
      obtain a m where m: "malloc (coremap s) ?n = Some (a, m)" "map_ok m"
        "if a = 0 then m = coremap s else unat a + unat ?n < 65536 \<and> run a ?n \<subseteq> free_units (coremap s) \<and> free_units m = free_units (coremap s) - run a ?n"
        using kmap.get_law [OF D(3) n(1)] by blast
      let ?s2 = "upd_shm i (\<lambda>d. d\<lparr>shm_segpcc := a\<rparr>) ((upd_shm i (\<lambda>d. d\<lparr>shm_segsz := sz\<rparr>) ?s1)\<lparr>coremap := m\<rparr>)"
      show ?thesis
      proof (cases "a = 0")
        case True
        then have "t = upd_mode i (\<lambda>_. 0) ?s2" "r = Fail ENOMEM"
          using g q \<open>new\<close> go m(1) by (auto simp: shmget_def Let_def shm_simps split: if_splits)
        then show ?thesis using fail [of ?s2] m(3) True by (simp add: shm_simps upd_mode_def)
      next
        case False
        let ?t = "upd_shm i (\<lambda>d. d\<lparr>shm_nattch := 0, shm_cnattch := 0, shm_atime := 0, shm_dtime := 0, shm_ctime := now, shm_lpid := 0, shm_cpid := u_pid u\<rparr>)
            (upd_mode i (\<lambda>m. m OR SHM_CLEAR) (?s2\<lparr>maxmem := maxmem ?s2 - ?n, shmtot := shmtot ?s2 + ?n\<rparr>))"
        have t: "t = ?t" "r = Ret (ipc_id (shmmni si) (seq p) i)"
          using g q \<open>new\<close> go m(1) False by (auto simp: shmget_def Let_def shm_simps split: if_splits)
        have di: "shmem t i = (shmem s i)\<lparr>shm_perm := p\<lparr>mode := mode p OR SHM_CLEAR\<rparr>, shm_segsz := sz, shm_segpcc := a,
            shm_nattch := 0, shm_cnattch := 0, shm_atime := 0, shm_dtime := 0, shm_ctime := now, shm_lpid := 0, shm_cpid := u_pid u\<rparr>"
          "\<And>j. j \<noteq> i \<Longrightarrow> shmem t j = shmem s j" "coremap t = m" "shm_shmem t = shm_shmem s" "shm_seln t = shm_seln s" "p_smbeg t = p_smbeg s"
          by (simp_all add: t shm_simps upd_mode_def)
        have al: "(mode p OR SHM_CLEAR) AND IPC_ALLOC \<noteq> 0"
          using S(2) by (simp add: bit.conj_disj_distrib2 SHM_CLEAR_def IPC_ALLOC_def)
        have ut: "shm_used t i" using al by (simp add: di(1))
        have u: "shm_used t j \<longleftrightarrow> shm_used s j \<or> j = i" for j using ut di(2) [of j] by (cases "j = i") auto
        have noatt: "att N (shm_shmem s) i = 0" using att_0 D(6) nu by blast
        have md: "mode p AND SHM_DEST = 0"
          using S(7) [OF True] by (simp add: ipc_init_def SHM_DEST_def IPC_ALLOC_def bit.conj_disj_distrib2 and.assoc)
        have "shm_inv si N None t"
        proof (rule shm_invI)
          have base: "(\<lambda>j. shm_perm (shmem t j)) = (\<lambda>j. shm_perm (shmem s j))(i := p\<lparr>mode := mode p OR SHM_CLEAR\<rparr>)"
            using di(1,2) by (auto simp: fun_eq_iff)
          show "seq_ok ?m (\<lambda>j. shm_perm (shmem t j))" unfolding base using D(1) sp by (auto simp: seq_ok_def)
          have K: "keys_ok ((\<lambda>j. shm_perm (shmem s j))(i := p)) ?m" by (rule ipcget_keys_ok [OF D(2) q])
          show "keys_ok (\<lambda>j. shm_perm (shmem t j)) ?m" unfolding keys_ok_def
          proof (intro allI impI, elim conjE)
            fix a b assume e: "a < ?m" "b < ?m" "shm_used t a" "shm_used t b"
              "key (shm_perm (shmem t a)) = key (shm_perm (shmem t b))" "key (shm_perm (shmem t a)) \<noteq> IPC_PRIVATE"
            have k: "allocated (((\<lambda>j. shm_perm (shmem s j))(i := p)) c) \<and> key (((\<lambda>j. shm_perm (shmem s j))(i := p)) c) = key (shm_perm (shmem t c))"
              if "shm_used t c" for c using that di(1,2) S(2) by (cases "c = i") auto
            show "a = b" using K [unfolded keys_ok_def, rule_format, of a b] k [OF e(3)] k [OF e(4)] e by simp
          qed
          show "map_ok (coremap t)" "N + 1 < 65536" using m(2) D(5) by (simp_all add: di)
          obtain xs ys where r: "shm_runs ?m t = xs @ (a, ?n) # ys" "shm_runs ?m s = xs @ ys"
            using shm_runs_upd [of i ?m t s] S(1) ut nu di by auto
          have "runs_apart (free_units m) ((a, ?n) # xs @ ys)"
            using runs_apart_get [OF D(4) False n(1)] m(3) False r(2) by simp
          then show "runs_apart (free_units (coremap t)) (shm_runs ?m t)" using runs_apart_move r(1) di(3) by simp
          show "k < N \<Longrightarrow> shm_shmem t k = Some j \<Longrightarrow> j < ?m \<and> shm_used t j" for k j using D(6) u by (simp add: di(4))
          fix j assume j: "j < ?m" "shm_used t j"
          show "unat (shm_nattch (shmem t j)) = att N (shm_shmem t) j + (if None = Some j then 1 else 0)"
            "unat (shm_cnattch (shmem t j)) = att N (shm_shmem t) j + (if None = Some j then 1 else 0)"
            "mode (shm_perm (shmem t j)) AND SHM_DEST \<noteq> 0 \<Longrightarrow> att N (shm_shmem t) j + (if None = Some j then 1 else 0) \<noteq> 0"
            using D(8-10) [OF j(1)] u [of j] j(2) di(1,2) noatt md
            by (cases "j = i"; simp add: di(4) bit.conj_disj_distrib2 SHM_CLEAR_def SHM_DEST_def)+
        qed simp
        then show ?thesis using t(2) di by simp
      qed
    qed
  qed
qed

lemma shmfree_tables:
  "shmfree si x (s\<lparr>shm_shmem := A, shm_seln := B\<rparr>) = map_option (\<lambda>t. t\<lparr>shm_shmem := A, shm_seln := B\<rparr>) (shmfree si x s)"
  by (auto simp: shmfree_def Let_def upd_shm_def split: option.splits)

text \<open>One reference goes: an entry of the table is cleared and its segment freed.\<close>

lemma shm_drop:
  assumes I: "shm_inv si N None s" and k: "k < N" "shm_shmem s k = Some i"
  obtains t where "shmfree si (Some i) s = Some t" "shm_inv si N None (t\<lparr>shm_shmem := (shm_shmem t)(k := None), shm_seln := (shm_seln t)(k := 0)\<rparr>)"
    "shm_shmem t = shm_shmem s" "shm_seln t = shm_seln s" "p_smbeg t = p_smbeg s" "\<And>j. j \<noteq> i \<Longrightarrow> shmem t j = shmem s j"
    "if att N (shm_shmem s) i = 1 \<and> mode (shm_perm (shmem s i)) AND SHM_DEST \<noteq> 0 then \<not> shm_used t i \<and> shm_freed (shmem s i) (coremap s) (coremap t)
     else shmem t i = (shmem s i)\<lparr>shm_nattch := shm_nattch (shmem s i) - 1, shm_cnattch := shm_cnattch (shmem s i) - 1\<rparr> \<and>
       coremap t = coremap s"
proof -
  note D = shm_invD [OF I]
  let ?A = "(shm_shmem s)(k := None)" let ?s = "s\<lparr>shm_shmem := ?A, shm_seln := (shm_seln s)(k := 0)\<rparr>"
  have i: "i < unat (shmmni si)" "shm_used s i" using D(6) [OF k] by auto
  have c: "att N ?A j + (if Some i = Some j then 1 else 0) = att N (shm_shmem s) j" for j
    using att_upd [OF k(1), of "shm_shmem s" None j] k(2) by simp
  have "shm_inv si N (Some i) ?s"
  proof (rule shm_inv_change [OF I])
    fix j assume j: "j < unat (shmmni si)" "shm_used s j"
    show "unat (shm_nattch (shmem ?s j)) = att N (shm_shmem ?s) j + (if Some i = Some j then 1 else 0) \<and>
      unat (shm_cnattch (shmem ?s j)) = att N (shm_shmem ?s) j + (if Some i = Some j then 1 else 0) \<and>
      (mode (shm_perm (shmem ?s j)) AND SHM_DEST \<noteq> 0 \<longrightarrow> att N (shm_shmem ?s) j + (if Some i = Some j then 1 else 0) \<noteq> 0)"
      using D(8-10) [OF j] c [of j] by auto
  qed (use D(6) i in \<open>auto split: if_splits\<close>)
  moreover have f: "shmem ?s = shmem s" "coremap ?s = coremap s" "shm_shmem ?s = ?A" "shm_seln ?s = (shm_seln s)(k := 0)" "p_smbeg ?s = p_smbeg s"
    by simp_all
  ultimately obtain u where u: "shmfree si (Some i) ?s = Some u" "shm_inv si N None u" "shm_shmem u = ?A"
    "shm_seln u = (shm_seln s)(k := 0)" "p_smbeg u = p_smbeg s" "\<forall>j. j \<noteq> i \<longrightarrow> shmem u j = shmem s j"
    "if att N ?A i = 0 \<and> mode (shm_perm (shmem s i)) AND SHM_DEST \<noteq> 0 then \<not> shm_used u i \<and> shm_freed (shmem s i) (coremap s) (coremap u)
     else shmem u i = (shmem s i)\<lparr>shm_nattch := shm_nattch (shmem s i) - 1, shm_cnattch := shm_cnattch (shmem s i) - 1\<rparr> \<and>
       coremap u = coremap s"
    using shmfree_ok [of si N i ?s, unfolded f] by blast
  from u(1) obtain t where t: "shmfree si (Some i) s = Some t" "u = t\<lparr>shm_shmem := ?A, shm_seln := (shm_seln s)(k := 0)\<rparr>"
    unfolding shmfree_tables by auto
  have f: "shm_shmem t = shm_shmem s \<and> shm_seln t = shm_seln s"
    using t(1) by (auto simp: shmfree_def Let_def shm_simps split: if_splits option.splits)
  show thesis
  proof (rule that [OF t(1)])
    show "shm_inv si N None (t\<lparr>shm_shmem := (shm_shmem t)(k := None), shm_seln := (shm_seln t)(k := 0)\<rparr>)" using u(2) t(2) f by simp
    show "if att N (shm_shmem s) i = 1 \<and> mode (shm_perm (shmem s i)) AND SHM_DEST \<noteq> 0 then \<not> shm_used t i \<and> shm_freed (shmem s i) (coremap s) (coremap t)
     else shmem t i = (shmem s i)\<lparr>shm_nattch := shm_nattch (shmem s i) - 1, shm_cnattch := shm_cnattch (shmem s i) - 1\<rparr> \<and>
       coremap t = coremap s" using u(7) c [of i] t(2) by (auto simp: shm_freed_def split: if_splits)
  qed (use f u(5,6) t(2) in auto)
qed

text \<open>The selectors: an attached segment has one, and its process a nonzero \<open>p_smbeg\<close>.\<close>

definition shm_sels :: "shminfo \<Rightarrow> nat \<Rightarrow> shmst \<Rightarrow> bool" where
  "shm_sels si np s \<longleftrightarrow> (\<forall>p<np. \<forall>k \<in> set (shm_slots si p). shm_shmem s k \<noteq> None \<longrightarrow> shm_seln s k \<noteq> 0 \<and> p_smbeg s p \<noteq> 0)"

lemma smbeg_of_0: "smbeg_of xs = 0 \<longleftrightarrow> (\<forall>x \<in> set xs. x = 0)"
proof -
  have "foldl (\<lambda>b i. if i \<noteq> 0 then (if b \<noteq> 0 then (if i <s b then i else b) else i) else b) a xs = 0 \<longleftrightarrow> a = 0 \<and> (\<forall>x \<in> set xs. x = 0)" for a :: u16
    by (induction xs arbitrary: a) auto
  then show ?thesis by (simp add: smbeg_of_def)
qed

lemma shm_slots_apart: "k \<in> set (shm_slots si p) \<Longrightarrow> k \<in> set (shm_slots si q) \<Longrightarrow> p = q"
proof -
  assume h: "k \<in> set (shm_slots si p)" "k \<in> set (shm_slots si q)"
  have "k div shmseg si = r" if "k \<in> set (shm_slots si r)" for r
    using that by (intro div_nat_eqI) (auto simp: shm_slots_def mult.commute)
  then show "p = q" using h by metis
qed

lemma shm_slots_bound: "k \<in> set (shm_slots si p) \<Longrightarrow> p < np \<Longrightarrow> k < np * shmseg si"
proof -
  assume "k \<in> set (shm_slots si p)" "p < np"
  then have "k < (p + 1) * shmseg si" "(p + 1) * shmseg si \<le> np * shmseg si" 
    by (auto simp: shm_slots_def simp del: mult_Suc intro!: mult_le_mono1) (simp add: algebra_simps)
  then show ?thesis by linarith
qed

definition shm_ok :: "shminfo \<Rightarrow> nat \<Rightarrow> shmst \<Rightarrow> bool" where
  "shm_ok si np s \<longleftrightarrow> shm_inv si (np * shmseg si) None s \<and> shm_sels si np s"

lemma shmdt_ok:
  assumes ok: "shm_ok si np s" and p: "u_procx u < np" and d: "shmdt si u now addr s = (r, t)" "r \<noteq> Wild"
  shows "shm_ok si np t \<and> (\<forall>k. k \<notin> set (shm_slots si (u_procx u)) \<longrightarrow> shm_shmem t k = shm_shmem s k)"
proof (cases "List.find (\<lambda>k. addr = lstouv (shm_seln s k)) (shm_slots si (u_procx u))")
  case None
  then show ?thesis using ok d by (auto simp: shmdt_def Let_def)
next
  case (Some k)
  let ?p = "u_procx u" let ?N = "np * shmseg si"
  let ?s = "s\<lparr>ldt := (ldt s)(?p := (ldt s ?p)(shm_seln s k := \<lparr>sd_limit = 0, sd_lowbase = 0, sd_hibase = 0, sd_access = 0\<rparr>))\<rparr>"
  have k: "k \<in> set (shm_slots si ?p)" using Some by (metis find_Some_iff nth_mem)
  then have kN: "k < ?N" using shm_slots_bound p by blast
  obtain i where i: "shm_shmem s k = Some i" using d Some by (auto simp: shmdt_def Let_def split: option.splits)
  have I: "shm_inv si ?N None s" and S: "shm_sels si np s" using ok by (simp_all add: shm_ok_def)
  have I': "shm_inv si ?N None ?s" by (rule shm_inv_change [OF I]) (use shm_invD(6,8-10) [OF I] in auto)
  obtain v where v: "shmfree si (Some i) ?s = Some v" "shm_inv si ?N None (v\<lparr>shm_shmem := (shm_shmem v)(k := None), shm_seln := (shm_seln v)(k := 0)\<rparr>)"
    "shm_shmem v = shm_shmem s" "shm_seln v = shm_seln s" "p_smbeg v = p_smbeg s"
    using shm_drop [OF I' kN, of i] i by auto
  let ?w = "v\<lparr>shm_shmem := (shm_shmem v)(k := None), shm_seln := (shm_seln v)(k := 0)\<rparr>"
  let ?x = "(upd_shm i (\<lambda>d. d\<lparr>shm_dtime := now, shm_lpid := u_pid u\<rparr>) v)
     \<lparr>shm_shmem := (shm_shmem v)(k := None), shm_seln := (shm_seln v)(k := 0)\<rparr>"
  have t: "t = ?x\<lparr>p_smbeg := (p_smbeg ?x)(?p := smbeg_of (map (shm_seln ?x) (shm_slots si ?p)))\<rparr>"
    using d Some i v(1) by (auto simp: shmdt_def Let_def shm_simps)
  have "shm_inv si ?N None t"
    by (rule shm_inv_change [OF v(2)]) (use shm_invD(6,8-10) [OF v(2)] in \<open>auto simp: t shm_simps split: if_splits\<close>)
  moreover have "shm_sels si np t"
    unfolding shm_sels_def
  proof (intro allI ballI impI)
    fix q j assume q: "q < np" "j \<in> set (shm_slots si q)" "shm_shmem t j \<noteq> None"
    then have j: "j \<noteq> k" "shm_shmem s j \<noteq> None" by (auto simp: t v(3) shm_simps split: if_splits)
    then have s: "shm_seln s j \<noteq> 0" "p_smbeg s q \<noteq> 0" using S q unfolding shm_sels_def by blast+
    have sj: "shm_seln t j = shm_seln s j" using j(1) by (simp add: t v(4) shm_simps)
    have "p_smbeg t q \<noteq> 0"
    proof (cases "q = ?p")
      case True
      have "shm_seln ?x j \<in> set (map (shm_seln ?x) (shm_slots si ?p))" using q(2) True unfolding set_map by blast
      moreover have "shm_seln ?x j \<noteq> 0" using s(1) j(1) by (simp add: v(4) shm_simps)
      ultimately have "smbeg_of (map (shm_seln ?x) (shm_slots si ?p)) \<noteq> 0" unfolding smbeg_of_0 by blast
      then show ?thesis unfolding t using True by simp
    qed (use s(2) in \<open>simp add: t v(5) shm_simps\<close>)
    then show "shm_seln t j \<noteq> 0 \<and> p_smbeg t q \<noteq> 0" using s(1) sj by simp
  qed
  moreover have "shm_shmem t j = shm_shmem s j" if "j \<notin> set (shm_slots si ?p)" for j
  proof -
    have "j \<noteq> k" using that k by blast
    then show ?thesis by (simp add: t v(3) shm_simps)
  qed
  ultimately show ?thesis unfolding shm_ok_def by blast
qed

lemma ipc_conv_slot:
  assumes "seq_ok (unat n) base" "ipc_conv n base bad sid = Ret i" shows "i < unat n \<and> allocated (base i)"
proof -
  have n: "0 < unat n" "unat n < 32768" using assms(1) by (auto simp: seq_ok_def)
  have "sint (of_nat (unat n) :: u16) = int (unat n)" by (rule sint_of_nat16 [OF n(2)])
  then have sn: "sint n = int (unat n)" by simp
  have "0 \<le> sint sid mod sint n" "sint sid mod sint n < int (unat n)" using n unfolding sn by (simp_all del: of_nat_unat)
  then have "nat (sint sid mod sint n) < unat n" by linarith
  then show ?thesis using assms(2) by (auto simp: ipc_conv_def Let_def split: if_splits)
qed

lemma shm_set_bits:
  "((a AND perm_bits) OR (m AND - 512)) AND IPC_ALLOC = m AND (IPC_ALLOC :: u16)"
  "((a AND perm_bits) OR (m AND - 512)) AND SHM_DEST = m AND (SHM_DEST :: u16)"
  "(m OR SHM_DEST) AND IPC_ALLOC = m AND IPC_ALLOC" "(m AND NOT SHM_CLEAR) AND IPC_ALLOC = m AND IPC_ALLOC"
  "(m AND NOT SHM_CLEAR) AND SHM_DEST = m AND SHM_DEST"
  by (simp_all add: bit.conj_disj_distrib2 and.assoc IPC_ALLOC_def SHM_DEST_def SHM_CLEAR_def)

lemma att_inc:
  assumes "shm_inv si N x s" "unat w = att N A i" shows "unat (w + 1 :: u16) = att N A i + 1"
  using assms(2) att_le [of N A i] shm_invD(5) [OF assms(1)] by (simp add: unat_plus_small)

lemma shmctl_ok:
  assumes ok: "shm_ok si np s" and c: "shmctl si u now sid cmd s = (r, t)" "r \<noteq> Wild"
  shows "shm_ok si np t \<and> shm_shmem t = shm_shmem s \<and> shm_seln t = shm_seln s"
proof (cases "shmconv si (case cmd of M_STAT _ \<Rightarrow> 0 | _ \<Rightarrow> SHM_DEST) sid s")
  case (Ret i)
  let ?N = "np * shmseg si"
  have I: "shm_inv si ?N None s" and S: "shm_sels si np s" using ok by (simp_all add: shm_ok_def)
  note D = shm_invD [OF I]
  have i: "i < unat (shmmni si)" "shm_used s i" using Ret D(1) unfolding shmconv_def by (auto dest!: ipc_conv_slot)
  consider (same) "t = s"
    | (rm) "cmd = M_RMID" "shmfree si (Some i) (upd_shm i (\<lambda>d. d\<lparr>shm_perm := (shm_perm d)\<lparr>key := IPC_PRIVATE\<rparr>,
          shm_nattch := shm_nattch d + 1, shm_cnattch := shm_cnattch d + 1\<rparr>)
          (upd_mode i (\<lambda>m. m OR SHM_DEST) (upd_shm i (\<lambda>d. d\<lparr>shm_ctime := now\<rparr>) s))) = Some t"
    | (st) ds where "cmd = M_SET (Some ds)" "t = upd_shm i (\<lambda>d. d\<lparr>shm_perm := (shm_perm d)\<lparr>uid := uid (shm_perm ds), gid := gid (shm_perm ds),
          mode := (mode (shm_perm ds) AND perm_bits) OR (mode (shm_perm d) AND NOT perm_bits)\<rparr>, shm_ctime := now\<rparr>) s"
    using c Ret by (cases cmd) (auto simp: shmctl_def Let_def split: if_splits option.splits)
  then show ?thesis
  proof cases
    case same then show ?thesis using ok by simp
  next
    case st
    have "shm_inv si ?N None t"
      by (rule shm_inv_change [OF I]) (use D(6,8-10) in \<open>auto simp: st(2) shm_simps shm_set_bits split: if_splits\<close>)
    then show ?thesis using S by (simp add: shm_ok_def shm_sels_def st(2) shm_simps)
  next
    case rm
    let ?s = "upd_shm i (\<lambda>d. d\<lparr>shm_perm := (shm_perm d)\<lparr>key := IPC_PRIVATE\<rparr>,
          shm_nattch := shm_nattch d + 1, shm_cnattch := shm_cnattch d + 1\<rparr>)
          (upd_mode i (\<lambda>m. m OR SHM_DEST) (upd_shm i (\<lambda>d. d\<lparr>shm_ctime := now\<rparr>) s))"
    have "shm_inv si ?N (Some i) ?s"
    proof (rule shm_inv_change [OF I])
      fix j assume j: "j < unat (shmmni si)" "shm_used s j"
      show "unat (shm_nattch (shmem ?s j)) = att ?N (shm_shmem ?s) j + (if Some i = Some j then 1 else 0) \<and>
        unat (shm_cnattch (shmem ?s j)) = att ?N (shm_shmem ?s) j + (if Some i = Some j then 1 else 0) \<and>
        (mode (shm_perm (shmem ?s j)) AND SHM_DEST \<noteq> 0 \<longrightarrow> att ?N (shm_shmem ?s) j + (if Some i = Some j then 1 else 0) \<noteq> 0)"
        using D(8-10) [OF j] att_inc [OF I] by (simp add: shm_simps upd_mode_def)
    qed (use D(6) i in \<open>auto simp: shm_simps upd_mode_def shm_set_bits split: if_splits\<close>)
    from shmfree_ok [OF this] rm(2) have v: "shm_inv si ?N None t" "shm_shmem t = shm_shmem s" "shm_seln t = shm_seln s" "p_smbeg t = p_smbeg s"
      by (auto simp: shm_simps upd_mode_def)
    then show ?thesis using S by (simp add: shm_ok_def shm_sels_def)
  qed
qed (use assms in \<open>auto simp: shmctl_def\<close>)

lemma drop_all_ok:
  assumes "shm_inv si N None s" "set ks \<subseteq> {..<N}"
  shows "\<exists>t. shm_drop_all si ks s = Some t \<and> shm_inv si N None t \<and> p_smbeg t = p_smbeg s \<and> p_smend t = p_smend s \<and>
     (\<forall>k. shm_shmem t k = (if k \<in> set ks then None else shm_shmem s k)) \<and> (\<forall>k. k \<notin> set ks \<longrightarrow> shm_seln t k = shm_seln s k)"
  using assms
proof (induction ks arbitrary: s)
  case (Cons k ks)
  show ?case
  proof (cases "shm_shmem s k")
    case None
    then show ?thesis using Cons.IH [OF Cons.prems(1)] Cons.prems(2) by auto
  next
    case (Some i)
    obtain v where v: "shmfree si (Some i) s = Some v" "shm_inv si N None (v\<lparr>shm_shmem := (shm_shmem v)(k := None), shm_seln := (shm_seln v)(k := 0)\<rparr>)"
      "shm_shmem v = shm_shmem s" "shm_seln v = shm_seln s" "p_smbeg v = p_smbeg s"
    proof -
      have "k < N" using Cons.prems(2) by simp
      then show thesis by (rule shm_drop [OF Cons.prems(1) _ Some]) (rule that)
    qed
    have e: "p_smend v = p_smend s" using v(1) by (auto simp: shmfree_def Let_def shm_simps split: if_splits option.splits)
    show ?thesis using Cons.IH [OF v(2)] Cons.prems(2) Some v(1,3-5) e by auto
  qed
qed simp

lemma shmexec_ok:
  assumes ok: "shm_ok si np s" and p: "p < np"
  shows "\<exists>t. shmexec si p s = Some t \<and> shm_ok si np t \<and> (\<forall>k \<in> set (shm_slots si p). shm_shmem t k = None) \<and>
     (\<forall>k. k \<notin> set (shm_slots si p) \<longrightarrow> shm_shmem t k = shm_shmem s k)"
proof -
  let ?N = "np * shmseg si"
  have I: "shm_inv si ?N None s" and S: "shm_sels si np s" using ok by (simp_all add: shm_ok_def)
  show ?thesis
  proof (cases "p_smbeg s p = 0")
    case True
    then have "\<forall>k \<in> set (shm_slots si p). shm_shmem s k = None" using S p unfolding shm_sels_def by blast
    then show ?thesis using True ok by (simp add: shmexec_def)
  next
    case False
    let ?s = "s\<lparr>p_smbeg := (p_smbeg s)(p := 0), p_smend := (p_smend s)(p := 0)\<rparr>"
    have "shm_inv si ?N None ?s" by (rule shm_inv_change [OF I]) (use shm_invD(6,8-10) [OF I] in auto)
    moreover have "set (shm_slots si p) \<subseteq> {..<?N}" using shm_slots_bound p by blast
    ultimately obtain t where t: "shm_drop_all si (shm_slots si p) ?s = Some t" "shm_inv si ?N None t" "p_smbeg t = (p_smbeg s)(p := 0)"
      "\<forall>k. shm_shmem t k = (if k \<in> set (shm_slots si p) then None else shm_shmem s k)"
      "\<forall>k. k \<notin> set (shm_slots si p) \<longrightarrow> shm_seln t k = shm_seln s k"
      using drop_all_ok [of si ?N ?s "shm_slots si p"] by auto
    have "shm_sels si np t" unfolding shm_sels_def
    proof (intro allI ballI impI)
      fix q k assume q: "q < np" "k \<in> set (shm_slots si q)" "shm_shmem t k \<noteq> None"
      then have n: "k \<notin> set (shm_slots si p)" "shm_shmem s k \<noteq> None" using t(4) by (metis)+
      then have "q \<noteq> p" using q(2) by blast
      then show "shm_seln t k \<noteq> 0 \<and> p_smbeg t q \<noteq> 0" using S q(1,2) n t(3,5) unfolding shm_sels_def by simp
    qed
    then show ?thesis using t False by (simp add: shmexec_def shm_ok_def)
  qed
qed

text \<open>Attaching. The table of the process has room for the selectors, which the size of an address
  space sees to.\<close>

definition shm_room :: "shminfo \<Rightarrow> u16 \<Rightarrow> bool" where
  "shm_room si l \<longleftrightarrow> 0 < shmseg si \<and> shmseg si < 64 \<and> shmseg si + shmbrk si < 256 \<and> 0 < unat l \<and> unat l < 256"

lemma pick_seln_nonzero:
  assumes "shm_room si (u_lsize s p)" shows "fst (pick_seln si p s) \<noteq> 0"
proof -
  let ?n = "shmseg si + shmbrk si" let ?j = "used_seln (ldt s p) ?n" let ?l = "unat (u_lsize s p)"
  have j: "?j \<le> ?n"
  proof (cases "List.find (\<lambda>j. sd_access (ldt s p (of_nat j)) \<noteq> 0) (rev [1 ..< ?n + 1])")
    case (Some k)
    then have "k \<in> set (rev [1 ..< ?n + 1])" by (metis find_Some_iff nth_mem)
    then show ?thesis using Some by (auto simp: used_seln_def)
  qed (simp add: used_seln_def)
  let ?c = "?l * 64 + 64 * ((?j + 63) div 64) - shmseg si"
  have r: "shmseg si < 64" "?n < 256" "0 < ?l" "?l < 256" using assms by (auto simp: shm_room_def)
  have "(?j + 63) div 64 \<le> 318 div 64" by (rule div_le_mono) (use j r in simp)
  then have "64 * ((?j + 63) div 64) \<le> 256" by simp
  then have "0 < ?c" "?c < 65536" using r by linarith+
  then have "(of_nat ?c :: u16) \<noteq> 0" by (metis less_irrefl unat_0 unat_of_nat16)
  moreover have "(of_nat ?c :: u16) = u_lsize s p * 64 + 64 * of_nat ((?j + 63) div 64) - of_nat (shmseg si)"
    using r by (subst of_nat_diff) simp_all
  ultimately show ?thesis by (auto simp: pick_seln_def Let_def)
qed

lemma grow_ldt_fields:
  "grow_ldt p n s = Some t \<Longrightarrow> t = s\<lparr>u_lsize := u_lsize t, ldt := ldt t\<rparr>"
  by (auto simp: grow_ldt_def Let_def split: if_splits)

lemma shm_attach_ok:
  assumes ok: "shm_ok si np s" and i: "i < unat (shmmni si)" "shm_used s i" and p: "u_procx u < np"
    and k: "k \<in> set (shm_slots si (u_procx u))" "shm_shmem s k = None" and n: "seln \<noteq> 0"
  shows "shm_ok si np (shm_attach u now flag i k seln s) \<and>
     shm_shmem (shm_attach u now flag i k seln s) = (shm_shmem s)(k := Some i)"
proof -
  let ?N = "np * shmseg si" let ?p = "u_procx u"
  define t where "t = shm_attach u now flag i k seln s"
  have I: "shm_inv si ?N None s" and S: "shm_sels si np s" using ok by (simp_all add: shm_ok_def)
  note D = shm_invD [OF I]
  have kN: "k < ?N" using k(1) p shm_slots_bound by blast
  have a: "att ?N ((shm_shmem s)(k := Some i)) j = att ?N (shm_shmem s) j + (if j = i then 1 else 0)" for j
    using att_upd [OF kN, of "shm_shmem s" "Some i" j] k(2) by auto
  have T: "shm_shmem t = (shm_shmem s)(k := Some i)" "shm_seln t = (shm_seln s)(k := seln)" "coremap t = coremap s"
    "\<And>q. p_smbeg t q = (if q = ?p then (if p_smbeg s ?p = 0 \<or> seln <s p_smbeg s ?p then seln else p_smbeg s ?p) else p_smbeg s q)"
    by (auto simp: t_def shm_attach_def Let_def shm_simps upd_mode_def)
  have d: "\<And>j. j \<noteq> i \<Longrightarrow> shmem t j = shmem s j" "shm_perm (shmem t i) = (shm_perm (shmem s i))\<lparr>mode := mode (shm_perm (shmem s i)) AND NOT SHM_CLEAR\<rparr>"
    "shm_nattch (shmem t i) = shm_nattch (shmem s i) + 1" "shm_cnattch (shmem t i) = shm_cnattch (shmem s i) + 1"
    "shm_segpcc (shmem t i) = shm_segpcc (shmem s i)" "shm_segsz (shmem t i) = shm_segsz (shmem s i)"
    by (simp_all add: t_def shm_attach_def Let_def shm_simps upd_mode_def)
  have "shm_inv si ?N None t"
  proof (rule shm_inv_change [OF I T(3)])
    fix j assume j: "j < unat (shmmni si)" "shm_used s j"
    show "unat (shm_nattch (shmem t j)) = att ?N (shm_shmem t) j + (if None = Some j then 1 else 0) \<and>
      unat (shm_cnattch (shmem t j)) = att ?N (shm_shmem t) j + (if None = Some j then 1 else 0) \<and>
      (mode (shm_perm (shmem t j)) AND SHM_DEST \<noteq> 0 \<longrightarrow> att ?N (shm_shmem t) j + (if None = Some j then 1 else 0) \<noteq> 0)"
      using D(8-10) [OF j] att_inc [OF I, of _ "shm_shmem s" j] d by (cases "j = i") (auto simp: T(1) a)
  next
    fix j
    show "seq (shm_perm (shmem t j)) = seq (shm_perm (shmem s j)) \<and> (shm_used t j \<longleftrightarrow> shm_used s j) \<and>
      (key (shm_perm (shmem t j)) = key (shm_perm (shmem s j)) \<or> key (shm_perm (shmem t j)) = IPC_PRIVATE) \<and>
      shm_segpcc (shmem t j) = shm_segpcc (shmem s j) \<and> shm_segsz (shmem t j) = shm_segsz (shmem s j)"
      using d shm_set_bits(4) by (cases "j = i") auto
  qed (use D(6) i in \<open>auto simp: T(1) split: if_splits\<close>)
  moreover have "shm_sels si np t" unfolding shm_sels_def
  proof (intro allI ballI impI)
    fix q j assume q: "q < np" "j \<in> set (shm_slots si q)" "shm_shmem t j \<noteq> None"
    show "shm_seln t j \<noteq> 0 \<and> p_smbeg t q \<noteq> 0"
    proof (cases "j = k")
      case True
      then have "q = ?p" using q(2) k(1) shm_slots_apart by blast
      then show ?thesis using n True T(2,4) by simp
    next
      case False
      then have "shm_seln s j \<noteq> 0 \<and> p_smbeg s q \<noteq> 0" using S q T(1) unfolding shm_sels_def by simp
      then show ?thesis using False n T(2,4) by simp
    qed
  qed
  ultimately show ?thesis unfolding t_def [symmetric] shm_ok_def using T(1) by simp
qed

lemma shmat_ok:
  assumes ok: "shm_ok si np s" and p: "u_procx u < np" and room: "shm_room si (u_lsize s (u_procx u))"
    and a: "shmat si u now sid addr flag s = (r, t)"
  shows "shm_ok si np t \<and> (\<forall>k. k \<notin> set (shm_slots si (u_procx u)) \<longrightarrow> shm_shmem t k = shm_shmem s k)"
proof -
  let ?p = "u_procx u" let ?a = "shm_addr addr flag"
  let ?c = "if ?a = 0 then pick_seln si ?p s else (shm_addr_seln ?a, p_smend s ?p)"
  have I: "shm_inv si (np * shmseg si) None s" using ok by (simp add: shm_ok_def)
  consider (same) "t = s" | (smend) e where "t = s\<lparr>p_smend := e\<rparr>"
    | (att) i k v where "shmconv si SHM_DEST sid s = Ret i" "List.find (\<lambda>k. shm_shmem s k = None) (shm_slots si ?p) = Some k"
        "shm_addr_ok ?a" "grow_ldt ?p (fst ?c) (s\<lparr>p_smend := (p_smend s)(?p := snd ?c)\<rparr>) = Some v" "t = shm_attach u now flag i k (fst ?c) v"
    using a by (auto simp: shmat_def Let_def split: sysres.splits option.splits if_splits prod.splits)
  then show ?thesis
  proof cases
    case smend
    have "shm_inv si (np * shmseg si) None t" by (rule shm_inv_change [OF I]) (use shm_invD(6,8-10) [OF I] in \<open>auto simp: smend\<close>)
    then show ?thesis using ok by (simp add: smend shm_ok_def shm_sels_def)
  next
    case att
    have v: "v = s\<lparr>p_smend := (p_smend s)(?p := snd ?c), u_lsize := u_lsize v, ldt := ldt v\<rparr>" using grow_ldt_fields [OF att(4)] by simp
    have f: "shmem v = shmem s" "shm_shmem v = shm_shmem s" "shm_seln v = shm_seln s" "p_smbeg v = p_smbeg s" "coremap v = coremap s"
      by (subst v, simp)+
    have "shm_inv si (np * shmseg si) None v" by (rule shm_inv_change [OF I]) (use shm_invD(6,8-10) [OF I] in \<open>auto simp: f\<close>)
    then have okv: "shm_ok si np v" using ok by (simp add: shm_ok_def shm_sels_def f)
    have i: "i < unat (shmmni si)" "shm_used v i"
      using att(1) shm_invD(1) [OF I] f(1) unfolding shmconv_def by (auto dest!: ipc_conv_slot)
    have k: "k \<in> set (shm_slots si ?p)" "shm_shmem v k = None" using att(2) f(2) by (auto simp: find_Some_iff)
    have "fst ?c \<noteq> 0"
    proof (cases "?a = 0")
      case True then show ?thesis using pick_seln_nonzero [OF room] by simp
    next
      case False
      then have "\<not> shm_addr_seln ?a \<le>s CODE1_SEL + 1" using att(3) by (simp add: shm_addr_ok_def)
      then have "shm_addr_seln ?a \<noteq> 0" by (auto simp: CODE1_SEL_def word_sle_eq)
      with False show ?thesis by simp
    qed
    from shm_attach_ok [OF okv i p k this] k(1) f(2) show ?thesis by (auto simp: att(5))
  qed (use ok in simp)
qed

lemma copy_ok:
  assumes "shm_inv si N None s" "\<forall>j \<in> set js. c + j < N \<and> shm_shmem s (c + j) = None \<and> p + j < N" "distinct js"
    and "\<forall>i \<in> set js. \<forall>j \<in> set js. p + i \<noteq> c + j"
  shows "shm_inv si N None (shm_copy c p js s) \<and> p_smbeg (shm_copy c p js s) = p_smbeg s \<and>
     (\<forall>j \<in> set js. shm_shmem (shm_copy c p js s) (c + j) = shm_shmem s (p + j) \<and>
        (shm_shmem s (p + j) \<noteq> None \<longrightarrow> shm_seln (shm_copy c p js s) (c + j) = shm_seln s (p + j))) \<and>
     (\<forall>k. (\<forall>j \<in> set js. k \<noteq> c + j) \<longrightarrow> shm_shmem (shm_copy c p js s) k = shm_shmem s k \<and> shm_seln (shm_copy c p js s) k = shm_seln s k)"
  using assms
proof (induction js arbitrary: s)
  case (Cons j js)
  note D = shm_invD [OF Cons.prems(1)]
  have j: "c + j < N" "shm_shmem s (c + j) = None" "p + j < N" "p + j \<noteq> c + j" using Cons.prems(2,4) by auto
  let ?A = "(shm_shmem s)(c + j := shm_shmem s (p + j))"
  define t where "t = (case shm_shmem s (p + j) of None \<Rightarrow> s\<lparr>shm_shmem := ?A\<rparr>
    | Some i \<Rightarrow> upd_shm i (\<lambda>d. d\<lparr>shm_nattch := shm_nattch d + 1, shm_cnattch := shm_cnattch d + 1\<rparr>)
        (s\<lparr>shm_shmem := ?A, shm_seln := (shm_seln s)(c + j := shm_seln s (p + j))\<rparr>))"
  have step: "shm_copy c p (j # js) s = shm_copy c p js t"
    by (auto simp: t_def Let_def split: option.splits)
  have a: "att N ?A i = att N (shm_shmem s) i + (if shm_shmem s (p + j) = Some i then 1 else 0)" for i
    using att_upd [OF j(1), of "shm_shmem s" "shm_shmem s (p + j)" i] j(2) by simp
  have ts: "shm_shmem t = ?A" "p_smbeg t = p_smbeg s" "coremap t = coremap s" "k \<noteq> c + j \<Longrightarrow> shm_seln t k = shm_seln s k"
    "shm_shmem s (p + j) \<noteq> None \<Longrightarrow> shm_seln t (c + j) = shm_seln s (p + j)" for k
    by (auto simp: t_def shm_simps split: option.splits)
  have "shm_inv si N None t"
  proof (rule shm_inv_change [OF Cons.prems(1) ts(3)])
    fix i assume i: "i < unat (shmmni si)" "shm_used s i"
    note E = D(8-10) [OF i]
    show "unat (shm_nattch (shmem t i)) = att N (shm_shmem t) i + (if None = Some i then 1 else 0) \<and>
      unat (shm_cnattch (shmem t i)) = att N (shm_shmem t) i + (if None = Some i then 1 else 0) \<and>
      (mode (shm_perm (shmem t i)) AND SHM_DEST \<noteq> 0 \<longrightarrow> att N (shm_shmem t) i + (if None = Some i then 1 else 0) \<noteq> 0)"
      using E att_inc [OF Cons.prems(1) E(1) [simplified]] att_inc [OF Cons.prems(1) E(2) [simplified]] a [of i]
      unfolding ts(1) by (cases "shm_shmem s (p + j)") (auto simp: t_def shm_simps split: if_splits)
  next
    fix k i assume "k < N" "shm_shmem t k = Some i"
    then show "i < unat (shmmni si) \<and> shm_used s i" using D(6) [of k i] D(6) [of "p + j" i] j(3) by (auto simp: ts(1) split: if_splits)
  qed (auto simp: t_def shm_simps split: option.splits)
  moreover have "\<forall>j' \<in> set js. c + j' < N \<and> shm_shmem t (c + j') = None \<and> p + j' < N"
    using Cons.prems(2,3) by (auto simp: ts(1))
  ultimately have ih: "shm_inv si N None (shm_copy c p js t) \<and> p_smbeg (shm_copy c p js t) = p_smbeg t \<and>
     (\<forall>j \<in> set js. shm_shmem (shm_copy c p js t) (c + j) = shm_shmem t (p + j) \<and>
        (shm_shmem t (p + j) \<noteq> None \<longrightarrow> shm_seln (shm_copy c p js t) (c + j) = shm_seln t (p + j))) \<and>
     (\<forall>k. (\<forall>j \<in> set js. k \<noteq> c + j) \<longrightarrow> shm_shmem (shm_copy c p js t) k = shm_shmem t k \<and> shm_seln (shm_copy c p js t) k = shm_seln t k)"
    using Cons.IH [of t] Cons.prems(3,4) by simp
  have out: "\<forall>j' \<in> set js. c + j \<noteq> c + j'" using Cons.prems(3) by auto
  have pj: "shm_shmem t (p + j') = shm_shmem s (p + j') \<and> shm_seln t (p + j') = shm_seln s (p + j')" if "j' \<in> set js" for j'
    using Cons.prems(4) that by (simp add: ts)
  show ?case unfolding step
  proof (intro conjI ballI allI impI)
    show "shm_inv si N None (shm_copy c p js t)" "p_smbeg (shm_copy c p js t) = p_smbeg s" using ih ts(2) by auto
    fix i assume i: "i \<in> set (j # js)"
    show "shm_shmem (shm_copy c p js t) (c + i) = shm_shmem s (p + i)"
      using ih i out pj [of i] ts(1) by (cases "i = j") auto
    assume "shm_shmem s (p + i) \<noteq> None"
    then show "shm_seln (shm_copy c p js t) (c + i) = shm_seln s (p + i)"
      using ih i out pj [of i] ts(5) by (cases "i = j") auto
  next
    fix k assume k: "\<forall>j \<in> set (j # js). k \<noteq> c + j"
    then show "shm_shmem (shm_copy c p js t) k = shm_shmem s k" "shm_seln (shm_copy c p js t) k = shm_seln s k"
      using ih ts(1,4) by auto
  qed
qed simp

lemma shmfork_ok:
  assumes ok: "shm_ok si np s" and cp: "c < np" "p < np" "c \<noteq> p" and fresh: "\<forall>k \<in> set (shm_slots si c). shm_shmem s k = None"
  shows "shm_ok si np (shmfork si c p s) \<and>
     (\<forall>k. k \<notin> set (shm_slots si c) \<longrightarrow> shm_shmem (shmfork si c p s) k = shm_shmem s k)"
proof (cases "p_smbeg s p = 0")
  case False
  let ?N = "np * shmseg si" let ?c = "c * shmseg si" let ?p = "p * shmseg si"
  let ?s = "s\<lparr>p_smbeg := (p_smbeg s)(c := p_smbeg s p), p_smend := (p_smend s)(c := p_smend s p)\<rparr>"
  let ?t = "shm_copy ?c ?p [0..<shmseg si] ?s"
  have I: "shm_inv si ?N None s" and S: "shm_sels si np s" using ok by (simp_all add: shm_ok_def)
  have I': "shm_inv si ?N None ?s" by (rule shm_inv_change [OF I]) (use shm_invD(6,8-10) [OF I] in auto)
  have slot: "k \<in> set (shm_slots si q) \<longleftrightarrow> (\<exists>j \<in> set [0..<shmseg si]. k = q * shmseg si + j)" for k q
    by (auto simp: shm_slots_def le_iff_add)
  have 1: "\<forall>j \<in> set [0..<shmseg si]. ?c + j < ?N \<and> shm_shmem ?s (?c + j) = None \<and> ?p + j < ?N"
    using shm_slots_bound [OF _ cp(1)] shm_slots_bound [OF _ cp(2)] fresh slot by auto
  have 2: "\<forall>i \<in> set [0..<shmseg si]. \<forall>j \<in> set [0..<shmseg si]. ?p + i \<noteq> ?c + j"
    using shm_slots_apart [of _ si c p] cp(3) slot by metis
  note C = copy_ok [OF I' 1 _ 2]
  have c: "shm_inv si ?N None ?t" "p_smbeg ?t = (p_smbeg s)(c := p_smbeg s p)"
    "\<And>k. k \<notin> set (shm_slots si c) \<Longrightarrow> shm_shmem ?t k = shm_shmem s k \<and> shm_seln ?t k = shm_seln s k"
    "\<And>j. j < shmseg si \<Longrightarrow> shm_shmem ?t (?c + j) = shm_shmem s (?p + j) \<and> (shm_shmem s (?p + j) \<noteq> None \<longrightarrow> shm_seln ?t (?c + j) = shm_seln s (?p + j))"
    using C slot [of _ c] by auto
  have "shm_sels si np ?t" unfolding shm_sels_def
  proof (intro allI ballI impI)
    fix q k assume q: "q < np" "k \<in> set (shm_slots si q)" "shm_shmem ?t k \<noteq> None"
    show "shm_seln ?t k \<noteq> 0 \<and> p_smbeg ?t q \<noteq> 0"
    proof (cases "q = c")
      case True
      then obtain j where j: "j < shmseg si" "k = ?c + j" using q(2) slot by auto
      then have "shm_shmem s (?p + j) \<noteq> None" using c(4) q(3) by simp
      moreover have "?p + j \<in> set (shm_slots si p)" using j slot by auto
      ultimately have "shm_seln s (?p + j) \<noteq> 0" using S cp(2) unfolding shm_sels_def by blast
      then show ?thesis using c(2) c(4) [OF j(1)] \<open>shm_shmem s (?p + j) \<noteq> None\<close> j(2) True False by simp
    next
      case False
      then have "k \<notin> set (shm_slots si c)" using q(2) shm_slots_apart by blast
      then show ?thesis using c(2,3) S q False unfolding shm_sels_def by simp
    qed
  qed
  then show ?thesis using c(1,3) False by (simp add: shmfork_def shm_ok_def)
qed (use ok in \<open>simp add: shmfork_def\<close>)

section \<open>Reachable states\<close>

text \<open>At boot no header is in use and nothing is attached. \<open>live\<close> are the slots of the process table
  in use.\<close>

definition shm_boot :: "shminfo \<Rightarrow> nat \<Rightarrow> shmst \<Rightarrow> bool" where
  "shm_boot si np s \<longleftrightarrow> shmmin si \<noteq> 0 \<and> 0 < unat (shmmni si) \<and> 2 * unat (shmmni si) < 32768 \<and> np * shmseg si + 1 < 65536 \<and>
     map_ok (coremap s) \<and> (\<forall>i. mode (shm_perm (shmem s i)) = 0 \<and> seq (shm_perm (shmem s i)) = 0) \<and>
     (\<forall>k. shm_shmem s k = None)"

text \<open>The rest of the kernel: it changes the size and the tables of a process and the map, which it
  leaves apart from the segments.\<close>

definition shm_others :: "shminfo \<Rightarrow> shmst \<Rightarrow> shmst \<Rightarrow> bool" where
  "shm_others si s t \<longleftrightarrow> shmem t = shmem s \<and> shm_shmem t = shm_shmem s \<and> shm_seln t = shm_seln s \<and> p_smbeg t = p_smbeg s \<and>
     map_ok (coremap t) \<and> runs_apart (free_units (coremap t)) (shm_runs (unat (shmmni si)) t)"

inductive shm_reach :: "shminfo \<Rightarrow> nat \<Rightarrow> shmst \<Rightarrow> nat set \<Rightarrow> bool" for si np where
  boot: "shm_boot si np s \<Longrightarrow> shm_reach si np s L"
| get: "shm_reach si np s L \<Longrightarrow> shmget si u now k sz flag s = (r, t) \<Longrightarrow> shm_reach si np t L"
| at: "shm_reach si np s L \<Longrightarrow> u_procx u \<in> L \<Longrightarrow> u_procx u < np \<Longrightarrow> shm_room si (u_lsize s (u_procx u)) \<Longrightarrow>
    shmat si u now sid addr flag s = (r, t) \<Longrightarrow> shm_reach si np t L"
| ctl: "shm_reach si np s L \<Longrightarrow> shmctl si u now sid cmd s = (r, t) \<Longrightarrow> r \<noteq> Wild \<Longrightarrow> shm_reach si np t L"
| dt: "shm_reach si np s L \<Longrightarrow> u_procx u \<in> L \<Longrightarrow> u_procx u < np \<Longrightarrow> shmdt si u now addr s = (r, t) \<Longrightarrow> r \<noteq> Wild \<Longrightarrow>
    shm_reach si np t L"
| exec: "shm_reach si np s L \<Longrightarrow> p \<in> L \<Longrightarrow> p < np \<Longrightarrow> shmexec si p s = Some t \<Longrightarrow> shm_reach si np t L"
| fork: "shm_reach si np s L \<Longrightarrow> p \<in> L \<Longrightarrow> p < np \<Longrightarrow> c \<notin> L \<Longrightarrow> c < np \<Longrightarrow>
    shm_reach si np (shmfork si c p s) (insert c L)"
| exit: "shm_reach si np s L \<Longrightarrow> p \<in> L \<Longrightarrow> p < np \<Longrightarrow> shmexit si p s = Some t \<Longrightarrow> shm_reach si np t (L - {p})"
| others: "shm_reach si np s L \<Longrightarrow> shm_others si s t \<Longrightarrow> shm_reach si np t L"

definition shm_dead :: "shminfo \<Rightarrow> nat \<Rightarrow> nat set \<Rightarrow> shmst \<Rightarrow> bool" where
  "shm_dead si np L s \<longleftrightarrow> (\<forall>p<np. p \<notin> L \<longrightarrow> (\<forall>k \<in> set (shm_slots si p). shm_shmem s k = None))"

lemma shm_dead_other:
  assumes "shm_dead si np L s" "p \<in> L" "\<forall>k. k \<notin> set (shm_slots si p) \<longrightarrow> shm_shmem t k = shm_shmem s k"
  shows "shm_dead si np L t"
  unfolding shm_dead_def
proof (intro allI impI ballI)
  fix q k assume q: "q < np" "q \<notin> L" "k \<in> set (shm_slots si q)"
  then have "k \<notin> set (shm_slots si p)" using shm_slots_apart assms(2) by blast
  then show "shm_shmem t k = None" using assms(1,3) q unfolding shm_dead_def by simp
qed

lemma shm_boot_ok:
  assumes b: "shm_boot si np s" shows "shm_ok si np s \<and> shm_dead si np L s"
proof -
  have "shm_runs (unat (shmmni si)) s = []" using b by (simp add: shm_runs_def shm_boot_def)
  then have "shm_inv si (np * shmseg si) None s"
    using b by (intro shm_invI) (auto simp: shm_boot_def seq_ok_def keys_ok_def runs_apart_def)
  then show ?thesis using b by (simp add: shm_ok_def shm_sels_def shm_dead_def shm_boot_def)
qed

lemma shm_reach_ok: "shm_reach si np s L \<Longrightarrow> shmmin si \<noteq> 0 \<and> shm_ok si np s \<and> shm_dead si np L s"
proof (induction rule: shm_reach.induct)
  case (boot s L)
  then show ?case using shm_boot_ok by (simp add: shm_boot_def)
next
  case (get s L u now k sz flag r t)
  then show ?case using shmget_inv [of si _ s u now k sz flag r t] by (auto simp: shm_ok_def shm_sels_def shm_dead_def)
next
  case (at s L u now sid addr flag r t)
  then show ?case using shmat_ok [OF _ at(3-5)] shm_dead_other [OF _ at(2)] by blast
next
  case (ctl s L u now sid cmd r t)
  then show ?case using shmctl_ok [OF _ ctl(2,3)] by (auto simp: shm_dead_def)
next
  case (dt s L u now addr r t)
  then show ?case using shmdt_ok [OF _ dt(3-5)] shm_dead_other [OF _ dt(2)] by blast
next
  case (exec s L p t)
  then show ?case using shmexec_ok [of si np s p] shm_dead_other [OF _ exec(2), of si np s t] by auto
next
  case (fork s L p c)
  have cp: "c \<noteq> p" using fork(2,4) by blast
  have f: "\<forall>k \<in> set (shm_slots si c). shm_shmem s k = None" using fork unfolding shm_dead_def by blast
  have d: "shm_dead si np (insert c L) s" using fork unfolding shm_dead_def by simp
  show ?case using fork shmfork_ok [OF _ fork(5,3) cp f] shm_dead_other [OF d, of c "shmfork si c p s"] by blast
next
  case (exit s L p t)
  have e: "shm_ok si np t" "\<forall>k \<in> set (shm_slots si p). shm_shmem t k = None" "\<forall>k. k \<notin> set (shm_slots si p) \<longrightarrow> shm_shmem t k = shm_shmem s k"
    using exit shmexec_ok [of si np s p] by (auto simp: shmexit_def)
  have "shm_dead si np L t" using shm_dead_other [OF _ exit(2) e(3)] exit by blast
  then show ?case using exit e(1,2) unfolding shm_dead_def by blast
next
  case (others s L t)
  then have I: "shm_inv si (np * shmseg si) None s" and o: "shm_others si s t" by (simp_all add: shm_ok_def)
  note D = shm_invD [OF I]
  have "shm_inv si (np * shmseg si) None t"
    by (rule shm_invI) (use D(1,2,5,6,8-10) o in \<open>auto simp: shm_others_def\<close>)
  then show ?case using others by (simp add: shm_ok_def shm_sels_def shm_dead_def shm_others_def)
qed

text \<open>What a detach does when the address is that of an attached segment.\<close>

lemma shmdt_Some:
  assumes "List.find (\<lambda>k. addr = lstouv (shm_seln s k)) (shm_slots si (u_procx u)) = Some k" "shm_shmem s k = Some i"
    and "shmfree si (Some i) s = Some v"
  shows "\<exists>t. shmdt si u now addr s = (Ret 0, t) \<and> shm_shmem t = (shm_shmem v)(k := None) \<and> coremap t = coremap v \<and>
     shm_perm (shmem t i) = shm_perm (shmem v i) \<and> shm_nattch (shmem t i) = shm_nattch (shmem v i)"
proof -
  let ?l = "(ldt s)(u_procx u := (ldt s (u_procx u))(shm_seln s k := \<lparr>sd_limit = 0, sd_lowbase = 0, sd_hibase = 0, sd_access = 0\<rparr>))"
  have "shmfree si (Some i) (s\<lparr>ldt := ?l\<rparr>) = Some (v\<lparr>ldt := ?l\<rparr>)"
    using assms(3) by (auto simp: shmfree_def Let_def upd_shm_def split: option.splits if_splits)
  then show ?thesis using assms(1,2) by (simp add: shmdt_def Let_def upd_shm_def)
qed

text \<open>A process with an entry of the table free that detaches at the address of selector 0 makes
  the kernel write through a null pointer: the entry matches, as its selector is 0, and its segment
  is used without a test.\<close>

lemma shmdt_empty_entry:
  assumes "List.find (\<lambda>k. lstouv 0 = lstouv (shm_seln s k)) (shm_slots si (u_procx u)) = Some k" and "shm_shmem s k = None"
  shows "fst (shmdt si u now (lstouv 0) s) = Wild"
  using assms by (simp add: shmdt_def Let_def)

text \<open>The table is grown to the clicks in front of a selector, which do not hold its descriptor when
  it is the first of a click.\<close>

lemma ldt_clicks_boundary: "ldt_clicks 64 = 1" "unat (ldt_clicks 64) * 64 \<le> unat (64 :: u16)"
  by (simp_all add: ldt_clicks_def)

section \<open>Properties\<close>

text \<open>C12: whatever the processes do - get, attach, detach, remove, execute, fork, exit - the count of
  attachments in the header of a segment is how often the table of attachments names it; every
  attached segment exists; a removed segment is kept only while it is attached; the segments share
  no memory with each other or with the free memory of the map; and a process can always exit.\<close>

theorem shm_reach_counts:
  assumes "shm_reach si np s L"
  shows "(\<forall>i < unat (shmmni si). shm_used s i \<longrightarrow>
       unat (shm_nattch (shmem s i)) = card {k. k < np * shmseg si \<and> shm_shmem s k = Some i} \<and>
       shm_cnattch (shmem s i) = shm_nattch (shmem s i) \<and>
       (mode (shm_perm (shmem s i)) AND SHM_DEST \<noteq> 0 \<longrightarrow> shm_nattch (shmem s i) \<noteq> 0)) \<and>
     (\<forall>k < np * shmseg si. \<forall>i. shm_shmem s k = Some i \<longrightarrow> i < unat (shmmni si) \<and> shm_used s i) \<and>
     runs_apart (free_units (coremap s)) (shm_runs (unat (shmmni si)) s) \<and>
     (\<forall>p<np. \<exists>t. shmexit si p s = Some t)"
proof -
  have ok: "shm_ok si np s" using shm_reach_ok [OF assms] by blast
  then have I: "shm_inv si (np * shmseg si) None s" by (simp add: shm_ok_def)
  note D = shm_invD [OF I]
  have c: "card {k. k < np * shmseg si \<and> shm_shmem s k = Some i} = att (np * shmseg si) (shm_shmem s) i" for i
    unfolding att_def by (subst sum.inter_filter [symmetric]) simp_all
  have n: "unat (shm_nattch (shmem s i)) = att (np * shmseg si) (shm_shmem s) i \<and> shm_cnattch (shmem s i) = shm_nattch (shmem s i) \<and>
       (mode (shm_perm (shmem s i)) AND SHM_DEST \<noteq> 0 \<longrightarrow> shm_nattch (shmem s i) \<noteq> 0)"
    if i: "i < unat (shmmni si)" "shm_used s i" for i
  proof -
    have e: "unat (shm_nattch (shmem s i)) = att (np * shmseg si) (shm_shmem s) i" "unat (shm_cnattch (shmem s i)) = att (np * shmseg si) (shm_shmem s) i"
      using D(8,9) [OF i] by simp_all
    then have "shm_cnattch (shmem s i) = shm_nattch (shmem s i)" by (intro word_unat_eq_iff [THEN iffD2]) simp
    moreover have "shm_nattch (shmem s i) \<noteq> 0" if "mode (shm_perm (shmem s i)) AND SHM_DEST \<noteq> 0"
      using D(10) [OF i that] e(1) by auto
    ultimately show ?thesis using e(1) by blast
  qed
  have e: "\<exists>t. shmexit si p s = Some t" if "p < np" for p using shmexec_ok [OF ok that] unfolding shmexit_def by blast
  show ?thesis unfolding c using n D(6) D(4) e by blast
qed

text \<open>A table of two segments and one of two entries for each of three processes.\<close>

definition demo_shminfo :: shminfo where
  "demo_shminfo = \<lparr>shmmax = 1000, shmmin = 1, shmmni = 2, shmseg = 2, shmbrk = 4, shmall = 100\<rparr>"

definition demo_shm :: shmst where
  "demo_shm = \<lparr>shmem = (\<lambda>_. \<lparr>shm_perm = demo_perm 0 0 0, shm_segsz = 0, shm_segpcc = 0, shm_lpid = 0, shm_cpid = 0, shm_nattch = 0,
       shm_cnattch = 0, shm_atime = 0, shm_dtime = 0, shm_ctime = 0\<rparr>),
     shm_shmem = (\<lambda>_. None), shm_seln = (\<lambda>_. 0), p_smbeg = (\<lambda>_. 0), p_smend = (\<lambda>_. 0),
     ldt = (\<lambda>_ _. \<lparr>sd_limit = 0, sd_lowbase = 0, sd_hibase = 0, sd_access = 0\<rparr>), u_lsize = (\<lambda>_. 1), image = (\<lambda>_. 20),
     coremap = demo_map, maxmem = 200, shmtot = 0\<rparr>"

definition demo_shm1 :: shmst where "demo_shm1 = snd (shmget demo_shminfo demo_cred 1 0 600 0x3FF demo_shm)"
definition demo_shm2 :: shmst where "demo_shm2 = snd (shmat demo_shminfo demo_cred 2 0 0 0 demo_shm1)"
definition demo_shm3 :: shmst where "demo_shm3 = snd (shmctl demo_shminfo demo_cred 3 0 M_RMID demo_shm2)"

lemma demo_shm_calls:
  "fst (shmget demo_shminfo demo_cred 1 0 600 0x3FF demo_shm) = Ret 0"
  "fst (shmat demo_shminfo demo_cred 2 0 0 0 demo_shm1) = Ret (lstouv 62)"
  "fst (shmctl demo_shminfo demo_cred 3 0 M_RMID demo_shm2) = Ret (M_val 0)"
  "shm_shmem demo_shm3 (u_procx demo_cred * 2) = Some 0" "shm_seln demo_shm3 (u_procx demo_cred * 2) = 62"
  "shm_nattch (shmem demo_shm3 0) = 1" "mode (shm_perm (shmem demo_shm3 0)) AND SHM_DEST \<noteq> 0"
  by code_simp+

lemma demo_shm_reach: "shm_reach demo_shminfo 9 demo_shm3 {u_procx demo_cred}"
proof -
  have "shm_boot demo_shminfo 9 demo_shm"
    using demo_map_ok by (simp add: shm_boot_def demo_shminfo_def demo_shm_def demo_perm_def)
  from shm_reach.get [OF shm_reach.boot [OF this, of "{u_procx demo_cred}"], of demo_cred 1 0 600 "0x3FF" _ demo_shm1]
  have 1: "shm_reach demo_shminfo 9 demo_shm1 {u_procx demo_cred}" unfolding demo_shm1_def by (metis prod.collapse)
  have "u_procx demo_cred < 9" by (simp add: demo_cred_def)
  moreover have "shm_room demo_shminfo (u_lsize demo_shm1 (u_procx demo_cred))" by code_simp
  ultimately have 2: "shm_reach demo_shminfo 9 demo_shm2 {u_procx demo_cred}"
    using shm_reach.at [OF 1, of demo_cred 2 0 0 0 _ demo_shm2] unfolding demo_shm2_def by (metis insertI1 prod.collapse)
  have "shmctl demo_shminfo demo_cred 3 0 M_RMID demo_shm2 = (Ret (M_val 0), demo_shm3)"
    using demo_shm_calls(3) unfolding demo_shm3_def by (metis prod.collapse)
  from shm_reach.ctl [OF 2 this] show ?thesis by simp
qed

theorem shm_reach_counts_witness:
  "card {k. k < 18 \<and> shm_shmem demo_shm3 k = Some 0} = 1 \<and> (\<exists>t. shmexit demo_shminfo 1 demo_shm3 = Some t)"
proof -
  have "0 < unat (shmmni demo_shminfo)" "shmseg demo_shminfo = 2" "shm_used demo_shm3 0" by code_simp+
  then show ?thesis using shm_reach_counts [OF demo_shm_reach] demo_shm_calls(6) by auto
qed

text \<open>detaching at the address of an attached segment always succeeds and clears that entry. If
  the segment was removed and this was its last attachment, the header becomes free and the memory
  returns to the map, if the map has room for it; otherwise the segment stays, with one attachment
  less, and the map is unchanged.\<close>

lemma shm_last_detach:
  assumes "shm_reach si np s L" and "u_procx u < np"
    and "List.find (\<lambda>k. addr = lstouv (shm_seln s k)) (shm_slots si (u_procx u)) = Some k" and "shm_shmem s k = Some i"
  shows "\<exists>t. shmdt si u now addr s = (Ret 0, t) \<and> shm_shmem t = (shm_shmem s)(k := None) \<and>
     (if shm_nattch (shmem s i) = 1 \<and> mode (shm_perm (shmem s i)) AND SHM_DEST \<noteq> 0
      then \<not> shm_used t i \<and> shm_freed (shmem s i) (coremap s) (coremap t)
      else shm_used t i \<and> shm_nattch (shmem t i) = shm_nattch (shmem s i) - 1 \<and> coremap t = coremap s)"
proof -
  have I: "shm_inv si (np * shmseg si) None s" using shm_reach_ok [OF assms(1)] by (simp add: shm_ok_def)
  have "k \<in> set (shm_slots si (u_procx u))" using assms(3) by (auto simp: find_Some_iff)
  then have k: "k < np * shmseg si" using assms(2) shm_slots_bound by blast
  have i: "i < unat (shmmni si)" "shm_used s i" using shm_invD(6) [OF I k assms(4)] by auto
  have n: "shm_nattch (shmem s i) = 1 \<longleftrightarrow> att (np * shmseg si) (shm_shmem s) i = 1"
    using shm_invD(8) [OF I i] word_unat_eq_iff [of "shm_nattch (shmem s i)" 1] by simp
  show ?thesis
  proof (rule shm_drop [OF I k assms(4)])
    fix v assume v: "shmfree si (Some i) s = Some v" "shm_shmem v = shm_shmem s"
      "if att (np * shmseg si) (shm_shmem s) i = 1 \<and> mode (shm_perm (shmem s i)) AND SHM_DEST \<noteq> 0
       then \<not> shm_used v i \<and> shm_freed (shmem s i) (coremap s) (coremap v)
       else shmem v i = (shmem s i)\<lparr>shm_nattch := shm_nattch (shmem s i) - 1, shm_cnattch := shm_cnattch (shmem s i) - 1\<rparr> \<and>
         coremap v = coremap s"
    obtain t where t: "shmdt si u now addr s = (Ret 0, t)" "shm_shmem t = (shm_shmem v)(k := None)" "coremap t = coremap v"
      "shm_perm (shmem t i) = shm_perm (shmem v i)" "shm_nattch (shmem t i) = shm_nattch (shmem v i)"
      using shmdt_Some [OF assms(3,4) v(1)] by blast
    show ?thesis
      by (rule exI [of _ t], unfold n) (use t v(2,3) i(2) in \<open>simp split: if_split_asm\<close>)
  qed
qed

end
