(* ===== verification/Clist.thy ===== *)
theory Clist
  imports Chain
begin

text \<open>
  The character lists of \<open>uts/iAPX286/io/clist.c\<close>: byte queues kept as chains of 64-byte
  blocks that all queues draw from one free list (\<open>sys/tty.h\<close>, \<open>cinit\<close> in \<open>os/main.c\<close>).
\<close>

section \<open>Blocks, queues and the free list\<close>

definition CLSIZE :: nat where "CLSIZE = 64"

record cblock =
  c_next :: "nat option"
  c_first :: nat
  c_last :: nat
  c_data :: "byte list"

record clist =
  c_cc :: u16
  c_cf :: "nat option"
  c_cl :: "nat option"

record chead =
  cf_next :: "nat option"
  cf_size :: nat
  cf_flag :: bool

text \<open>
  \<open>cfree\<close> is the table of blocks, a block pointer its index. The queues are numbered;
  \<open>cl_wakes\<close> counts the calls \<open>wakeup(&cfreelist)\<close>. A result \<open>None\<close> is the use of a null
  pointer or an access outside \<open>c_data\<close>.
\<close>

record clstate =
  v_clist :: nat
  cfree :: "nat \<Rightarrow> cblock"
  cfreelist :: chead
  clists :: "nat \<Rightarrow> clist"
  cl_wakes :: nat

definition upd_cb :: "nat \<Rightarrow> (cblock \<Rightarrow> cblock) \<Rightarrow> clstate \<Rightarrow> clstate" where
  "upd_cb b f s = s\<lparr>cfree := (cfree s)(b := f (cfree s b))\<rparr>"

definition upd_cl :: "nat \<Rightarrow> (clist \<Rightarrow> clist) \<Rightarrow> clstate \<Rightarrow> clstate" where
  "upd_cl q f s = s\<lparr>clists := (clists s)(q := f (clists s q))\<rparr>"

definition upd_hd :: "(chead \<Rightarrow> chead) \<Rightarrow> clstate \<Rightarrow> clstate" where
  "upd_hd f s = s\<lparr>cfreelist := f (cfreelist s)\<rparr>"

section \<open>The operations\<close>

text \<open>\<open>bp->c_next = cfreelist.c_next; cfreelist.c_next = bp\<close>.\<close>

definition cpush :: "nat \<Rightarrow> clstate \<Rightarrow> clstate" where
  "cpush b s = upd_hd (\<lambda>h. h\<lparr>cf_next := Some b\<rparr>)
                 (upd_cb b (\<lambda>c. c\<lparr>c_next := cf_next (cfreelist s)\<rparr>) s)"

definition cwake :: "clstate \<Rightarrow> clstate" where
  "cwake s = (if cf_flag (cfreelist s)
              then upd_hd (\<lambda>h. h\<lparr>cf_flag := False\<rparr>) s\<lparr>cl_wakes := cl_wakes s + 1\<rparr> else s)"

text \<open>\<open>if ((p->c_cf = bp->c_next) == NULL) p->c_cl = NULL\<close>.\<close>

definition cnext_first :: "nat \<Rightarrow> nat \<Rightarrow> clstate \<Rightarrow> clstate" where
  "cnext_first q b s =
     upd_cl q (\<lambda>p. p\<lparr>c_cf := c_next (cfree s b),
                     c_cl := if c_next (cfree s b) = None then None else c_cl p\<rparr>) s"

definition getc :: "nat \<Rightarrow> clstate \<Rightarrow> (int \<times> clstate) option" where
  "getc q s =
     (if 0 <s c_cc (clists s q) then
        (let s = upd_cl q (\<lambda>p. p\<lparr>c_cc := c_cc p - 1\<rparr>) s
         in case c_cf (clists s q) of
              None \<Rightarrow> None
            | Some b \<Rightarrow>
                (let bp = cfree s b
                 in if length (c_data bp) \<le> c_first bp then None
                    else
                      (let c = uint (c_data bp ! c_first bp);
                           s = upd_cb b (\<lambda>bp. bp\<lparr>c_first := c_first bp + 1\<rparr>) s
                       in if c_first (cfree s b) = c_last (cfree s b)
                          then Some (c, cwake (cpush b (cnext_first q b s)))
                          else Some (c, s))))
      else Some (- 1, s))"

text \<open>The body of the conditional of \<open>putc\<close> and \<open>putcbp\<close> that takes a block from the free list
  and hangs it behind the last block \<open>obp\<close> of the queue.\<close>

definition cgrow :: "nat \<Rightarrow> nat option \<Rightarrow> nat \<Rightarrow> clstate \<Rightarrow> clstate" where
  "cgrow q obp b s =
     (let s = upd_hd (\<lambda>h. h\<lparr>cf_next := c_next (cfree s b)\<rparr>) s;
          s = upd_cb b (\<lambda>bp. bp\<lparr>c_next := None, c_first := 0, c_last := 0\<rparr>) s;
          s = (case obp of
                 None \<Rightarrow> upd_cl q (\<lambda>p. p\<lparr>c_cf := Some b\<rparr>) s
               | Some ob \<Rightarrow> upd_cb ob (\<lambda>bp. bp\<lparr>c_next := Some b\<rparr>) s)
      in upd_cl q (\<lambda>p. p\<lparr>c_cl := Some b\<rparr>) s)"

text \<open>The block the next byte goes to, \<open>None\<close> when the free list is empty.\<close>

definition ctail :: "nat \<Rightarrow> clstate \<Rightarrow> (nat \<times> clstate) option" where
  "ctail q s =
     (let tl = c_cl (clists s q);
          need = (case tl of None \<Rightarrow> True | Some b \<Rightarrow> c_last (cfree s b) = cf_size (cfreelist s))
      in if need
         then (case cf_next (cfreelist s) of None \<Rightarrow> None | Some b \<Rightarrow> Some (b, cgrow q tl b s))
         else map_option (\<lambda>b. (b, s)) tl)"

definition putc :: "byte \<Rightarrow> nat \<Rightarrow> clstate \<Rightarrow> (int \<times> clstate) option" where
  "putc c q s =
     (case ctail q s of
        None \<Rightarrow> Some (- 1, s)
      | Some (b, s) \<Rightarrow>
          (let bp = cfree s b
           in if length (c_data bp) \<le> c_last bp then None
              else Some (0, upd_cl q (\<lambda>p. p\<lparr>c_cc := c_cc p + 1\<rparr>)
                              (upd_cb b (\<lambda>bp. bp\<lparr>c_data := (c_data bp)[c_last bp := c],
                                                 c_last := c_last bp + 1\<rparr>) s))))"

definition getcf :: "clstate \<Rightarrow> nat option \<times> clstate" where
  "getcf s =
     (case cf_next (cfreelist s) of
        None \<Rightarrow> (None, s)
      | Some b \<Rightarrow>
          (Some b, upd_cb b (\<lambda>bp. bp\<lparr>c_next := None, c_first := 0, c_last := cf_size (cfreelist s)\<rparr>)
                     (upd_hd (\<lambda>h. h\<lparr>cf_next := c_next (cfree s b)\<rparr>) s)))"

definition putcf :: "nat \<Rightarrow> clstate \<Rightarrow> clstate" where
  "putcf b s = cwake (cpush b s)"

definition getcb :: "nat \<Rightarrow> clstate \<Rightarrow> nat option \<times> clstate" where
  "getcb q s =
     (case c_cf (clists s q) of
        None \<Rightarrow> (None, s)
      | Some b \<Rightarrow>
          (Some b,
           cnext_first q b
             (upd_cl q (\<lambda>p. p\<lparr>c_cc := c_cc p - (of_nat (c_last (cfree s b)) - of_nat (c_first (cfree s b)))\<rparr>) s)))"

definition putcb :: "nat \<Rightarrow> nat \<Rightarrow> clstate \<Rightarrow> int \<times> clstate" where
  "putcb b q s =
     (let s1 = (case c_cl (clists s q) of
                  None \<Rightarrow> upd_cl q (\<lambda>p. p\<lparr>c_cf := Some b\<rparr>) s
                | Some ob \<Rightarrow> upd_cb ob (\<lambda>bp. bp\<lparr>c_next := Some b\<rparr>) s);
          s2 = upd_cl q (\<lambda>p. p\<lparr>c_cl := Some b\<rparr>) s1;
          s3 = upd_cb b (\<lambda>bp. bp\<lparr>c_next := None\<rparr>) s2
      in (0, upd_cl q (\<lambda>p. p\<lparr>c_cc := c_cc p + (of_nat (c_last (cfree s3 b)) - of_nat (c_first (cfree s3 b)))\<rparr>) s3))"

text \<open>The bytes between \<open>c_first\<close> and \<open>c_last\<close>.\<close>

definition blk_bytes :: "cblock \<Rightarrow> byte list" where
  "blk_bytes bp = take (c_last bp - c_first bp) (drop (c_first bp) (c_data bp))"

text \<open>The loop of \<open>getcbp\<close>; \<open>acc\<close> are the bytes copied so far.\<close>

partial_function (option) getcbp_loop ::
  "nat \<Rightarrow> nat \<Rightarrow> byte list \<Rightarrow> clstate \<Rightarrow> (byte list \<times> clstate) option" where
  "getcbp_loop q n acc s =
     (if n = 0 then Some (acc, s)
      else case c_cf (clists s q) of
        None \<Rightarrow> Some (acc, s)
      | Some b \<Rightarrow>
          (let bp = cfree s b; on = c_last bp - c_first bp
           in if c_last bp < c_first bp \<or> length (c_data bp) < c_last bp then None
              else if on \<le> n
              then getcbp_loop q (n - on) (acc @ blk_bytes bp) (cpush b (cnext_first q b s))
              else Some (acc @ take n (blk_bytes bp),
                         upd_cb b (\<lambda>bp. bp\<lparr>c_first := c_first bp + n\<rparr>) s)))"

definition getcbp :: "nat \<Rightarrow> nat \<Rightarrow> clstate \<Rightarrow> (byte list \<times> clstate) option" where
  "getcbp q n s =
     map_option (\<lambda>(bs, s). (bs, upd_cl q (\<lambda>p. p\<lparr>c_cc := c_cc p - of_nat (length bs)\<rparr>) s))
       (getcbp_loop q n [] s)"

text \<open>\<open>bcopy\<close> of \<open>xs\<close> to the array \<open>ys\<close> from index \<open>i\<close> on.\<close>

definition copy_at :: "nat \<Rightarrow> 'a list \<Rightarrow> 'a list \<Rightarrow> 'a list" where
  "copy_at i xs ys = take i ys @ xs @ drop (i + length xs) ys"

text \<open>The loop of \<open>putcbp\<close>, returning the bytes that did not fit.\<close>

partial_function (option) putcbp_loop ::
  "nat \<Rightarrow> byte list \<Rightarrow> clstate \<Rightarrow> (byte list \<times> clstate) option" where
  "putcbp_loop q xs s =
     (if xs = [] then Some ([], s)
      else case ctail q s of
        None \<Rightarrow> Some (xs, s)
      | Some (b, s) \<Rightarrow>
          (let bp = cfree s b; on = cf_size (cfreelist s) - c_last bp
           in if length (c_data bp) < cf_size (cfreelist s) \<or> cf_size (cfreelist s) < c_last bp then None
              else if on \<le> length xs
              then putcbp_loop q (drop on xs)
                     (upd_cb b (\<lambda>bp. bp\<lparr>c_data := copy_at (c_last bp) (take on xs) (c_data bp),
                                        c_last := c_last bp + on\<rparr>) s)
              else Some ([], upd_cb b (\<lambda>bp. bp\<lparr>c_data := copy_at (c_last bp) xs (c_data bp),
                                        c_last := c_last bp + length xs\<rparr>) s)))"

definition putcbp :: "nat \<Rightarrow> byte list \<Rightarrow> clstate \<Rightarrow> (nat \<times> clstate) option" where
  "putcbp q xs s =
     map_option (\<lambda>(rest, s). (length xs - length rest,
         upd_cl q (\<lambda>p. p\<lparr>c_cc := c_cc p + of_nat (length xs - length rest)\<rparr>) s))
       (putcbp_loop q xs s)"

text \<open>\<open>cinit\<close>: every block goes on the free list.\<close>

primrec cinit_loop :: "nat \<Rightarrow> clstate \<Rightarrow> clstate" where
  "cinit_loop 0 s = s"
| "cinit_loop (Suc n) s = cpush n (cinit_loop n s)"

definition cinit :: "clstate \<Rightarrow> clstate" where
  "cinit s = upd_hd (\<lambda>h. h\<lparr>cf_size := CLSIZE\<rparr>) (cinit_loop (v_clist s) s)"

section \<open>What the operations do to each field\<close>

named_theorems cl_simps \<open>fields of an updated character-list state\<close>

definition nx :: "clstate \<Rightarrow> nat \<Rightarrow> nat option" where
  "nx s = c_next \<circ> cfree s"

lemma upd_cb_fields [cl_simps]:
  "cfree (upd_cb b f s) = (cfree s)(b := f (cfree s b))" "cfreelist (upd_cb b f s) = cfreelist s"
  "clists (upd_cb b f s) = clists s" "v_clist (upd_cb b f s) = v_clist s"
  "nx (upd_cb b f s) = (nx s)(b := c_next (f (cfree s b)))"
  by (auto simp: upd_cb_def nx_def)

lemma upd_cl_fields [cl_simps]:
  "cfree (upd_cl q g s) = cfree s" "cfreelist (upd_cl q g s) = cfreelist s"
  "clists (upd_cl q g s) = (clists s)(q := g (clists s q))" "v_clist (upd_cl q g s) = v_clist s"
  "nx (upd_cl q g s) = nx s"
  by (auto simp: upd_cl_def nx_def)

lemma upd_hd_fields [cl_simps]:
  "cfree (upd_hd h s) = cfree s" "cfreelist (upd_hd h s) = h (cfreelist s)"
  "clists (upd_hd h s) = clists s" "v_clist (upd_hd h s) = v_clist s" "nx (upd_hd h s) = nx s"
  by (auto simp: upd_hd_def nx_def)

lemma cwake_fields [cl_simps]:
  "cfree (cwake s) = cfree s" "clists (cwake s) = clists s" "v_clist (cwake s) = v_clist s"
  "nx (cwake s) = nx s" "cf_next (cfreelist (cwake s)) = cf_next (cfreelist s)"
  "cf_size (cfreelist (cwake s)) = cf_size (cfreelist s)" "\<not> cf_flag (cfreelist (cwake s))"
  by (auto simp: cwake_def upd_hd_def nx_def)

lemma cpush_fields [cl_simps]:
  "cfree (cpush b s) = (cfree s)(b := (cfree s b)\<lparr>c_next := cf_next (cfreelist s)\<rparr>)"
  "nx (cpush b s) = (nx s)(b := cf_next (cfreelist s))"
  "cfreelist (cpush b s) = (cfreelist s)\<lparr>cf_next := Some b\<rparr>"
  "clists (cpush b s) = clists s" "v_clist (cpush b s) = v_clist s"
  by (simp_all add: cpush_def cl_simps)

lemma cnext_first_fields [cl_simps]:
  "cfree (cnext_first q b s) = cfree s" "nx (cnext_first q b s) = nx s"
  "cfreelist (cnext_first q b s) = cfreelist s" "v_clist (cnext_first q b s) = v_clist s"
  "clists (cnext_first q b s) = (clists s)(q := (clists s q)\<lparr>c_cf := nx s b,
      c_cl := if nx s b = None then None else c_cl (clists s q)\<rparr>)"
  by (simp_all add: cnext_first_def cl_simps nx_def)

section \<open>The invariant and the queues it represents\<close>

definition blk_ok :: "cblock \<Rightarrow> bool" where
  "blk_ok bp \<longleftrightarrow> c_first bp < c_last bp \<and> c_last bp \<le> CLSIZE"

definition bytes :: "clstate \<Rightarrow> nat list \<Rightarrow> byte list" where
  "bytes s bs = concat (map (blk_bytes \<circ> cfree s) bs)"

definition q_shape :: "clstate \<Rightarrow> nat \<Rightarrow> nat list \<Rightarrow> bool" where
  "q_shape s q bs \<longleftrightarrow>
     chain (nx s) (c_cf (clists s q)) bs \<and>
     c_cl (clists s q) = (if bs = [] then None else Some (last bs)) \<and>
     (\<forall>b. b \<in> set bs \<longrightarrow> blk_ok (cfree s b)) \<and>
     c_cc (clists s q) = of_nat (length (bytes s bs))"

text \<open>
  \<open>fl\<close> is the free list, \<open>bs q\<close> the chain of queue \<open>q\<close>, and \<open>H\<close> the blocks a driver holds
  after \<open>getcf\<close> or \<open>getcb\<close>: together they are all the blocks, and no block is in two places.
  A queue that owned every block would still have a count that fits a signed \<open>int\<close>.
\<close>

definition cl_shape :: "nat set \<Rightarrow> clstate \<Rightarrow> nat list \<Rightarrow> (nat \<Rightarrow> nat list) \<Rightarrow> bool" where
  "cl_shape H s fl bs \<longleftrightarrow>
     CLSIZE * v_clist s < 32768 \<and> cf_size (cfreelist s) = CLSIZE \<and>
     (\<forall>b. length (c_data (cfree s b)) = CLSIZE) \<and>
     chain (nx s) (cf_next (cfreelist s)) fl \<and> (\<forall>q. q_shape s q (bs q)) \<and>
     set fl \<union> (\<Union>q. set (bs q)) \<union> H = {..<v_clist s} \<and>
     set fl \<inter> H = {} \<and> (\<forall>q. set (bs q) \<inter> (set fl \<union> H) = {}) \<and>
     (\<forall>p q. p \<noteq> q \<longrightarrow> set (bs p) \<inter> set (bs q) = {})"

definition cl_ok :: "nat set \<Rightarrow> clstate \<Rightarrow> bool" where
  "cl_ok H s \<longleftrightarrow> (\<exists>fl bs. cl_shape H s fl bs)"

definition queue_bytes :: "clstate \<Rightarrow> nat \<Rightarrow> byte list" where
  "queue_bytes s q = bytes s (walk (v_clist s) (nx s) (c_cf (clists s q)))"

definition free_blocks :: "clstate \<Rightarrow> nat list" where
  "free_blocks s = walk (v_clist s) (nx s) (cf_next (cfreelist s))"

lemma cl_okI: "cl_shape H s fl bs \<Longrightarrow> cl_ok H s"
  by (auto simp: cl_ok_def)

lemma bytes_simps [simp]:
  "bytes s [] = []" "bytes s (b # bs) = blk_bytes (cfree s b) @ bytes s bs"
  "bytes s (as @ bs) = bytes s as @ bytes s bs"
  by (simp_all add: bytes_def)

lemma bytes_cong: "(\<And>b. b \<in> set bs \<Longrightarrow> blk_bytes (cfree s' b) = blk_bytes (cfree s b)) \<Longrightarrow> bytes s' bs = bytes s bs"
  by (induction bs) (auto simp: bytes_def)

lemma blk_bytes_next [simp]: "blk_bytes (bp\<lparr>c_next := p\<rparr>) = blk_bytes bp"
  by (simp add: blk_bytes_def)

lemma blk_ok_next [simp]: "blk_ok (bp\<lparr>c_next := p\<rparr>) = blk_ok bp"
  by (simp add: blk_ok_def)

lemma length_blk_bytes:
  "length (c_data bp) = CLSIZE \<Longrightarrow> c_last bp \<le> CLSIZE \<Longrightarrow> length (blk_bytes bp) = c_last bp - c_first bp"
  by (simp add: blk_bytes_def)

lemma q_shape_cong:
  assumes "\<And>b. b \<in> set bs \<Longrightarrow> cfree s' b = cfree s b" "clists s' q = clists s q"
  shows "q_shape s' q bs \<longleftrightarrow> q_shape s q bs"
proof -
  have "bytes s' bs = bytes s bs" by (rule bytes_cong) (simp add: assms)
  moreover have "chain (nx s') p bs = chain (nx s) p bs" for p
    by (rule path_cong) (simp add: nx_def assms)
  ultimately show ?thesis using assms by (auto simp: q_shape_def)
qed

lemma shape_queue: "cl_shape H s fl bs \<Longrightarrow> q_shape s q (bs q)"
  by (simp add: cl_shape_def)

lemma shape_queue_bytes:
  assumes "cl_shape H s fl bs" shows "queue_bytes s q = bytes s (bs q)"
proof -
  from assms have "set (bs q) \<subseteq> {..<v_clist s}" by (auto simp: cl_shape_def)
  with shape_queue [OF assms, of q] show ?thesis
    by (auto simp: queue_bytes_def q_shape_def walk_chain_bounded)
qed

lemma shape_free_blocks:
  assumes "cl_shape H s fl bs" shows "free_blocks s = fl"
proof -
  from assms have "set fl \<subseteq> {..<v_clist s}" by (auto simp: cl_shape_def)
  with assms show ?thesis by (auto simp: free_blocks_def cl_shape_def walk_chain_bounded)
qed

text \<open>Every operation touches one queue, the free list and the held blocks.\<close>

lemma cl_shape_step:
  assumes "cl_shape H s fl bs"
    and "q_shape s' q bq" "chain (nx s') (cf_next (cfreelist s')) fl'"
    and "set fl' \<union> set bq \<union> H' = set fl \<union> set (bs q) \<union> H"
    and "set fl' \<inter> H' = {}" "set bq \<inter> (set fl' \<union> H') = {}"
    and same: "\<And>b. b \<notin> set fl \<union> set (bs q) \<union> H \<Longrightarrow> cfree s' b = cfree s b"
    and cls: "\<And>q'. q' \<noteq> q \<Longrightarrow> clists s' q' = clists s q'"
    and "v_clist s' = v_clist s" "cf_size (cfreelist s') = cf_size (cfreelist s)"
    and "\<And>b. length (c_data (cfree s' b)) = CLSIZE"
  shows "cl_shape H' s' fl' (bs(q := bq)) \<and>
    queue_bytes s' = (queue_bytes s)(q := bytes s' bq) \<and> free_blocks s' = fl'"
proof -
  have old: "set fl \<union> (\<Union>q. set (bs q)) \<union> H = {..<v_clist s}"
    "\<And>p. set (bs p) \<inter> (set fl \<union> H) = {}" "\<And>p r. p \<noteq> r \<Longrightarrow> set (bs p) \<inter> set (bs r) = {}"
    using assms(1) by (auto simp: cl_shape_def)
  have away: "set (bs p) \<inter> (set fl \<union> set (bs q) \<union> H) = {}" if "p \<noteq> q" for p
    using old(2) [of p] old(3) [of p q] that by blast
  have "q_shape s' p ((bs(q := bq)) p)" for p
  proof (cases "p = q")
    case False
    have "q_shape s' p (bs p) \<longleftrightarrow> q_shape s p (bs p)"
      using away [OF False] by (intro q_shape_cong same cls [OF False]) blast
    with False shape_queue [OF assms(1), of p] show ?thesis by simp
  qed (simp add: assms(2))
  moreover have "set fl' \<union> (\<Union>p. set ((bs(q := bq)) p)) \<union> H' = {..<v_clist s'}"
  proof -
    have "(\<Union>p. set ((bs(q := bq)) p)) = set bq \<union> (\<Union>p \<in> - {q}. set (bs p))"
      by (auto split: if_splits)
    moreover have "(\<Union>p. set (bs p)) = set (bs q) \<union> (\<Union>p \<in> - {q}. set (bs p))" by blast
    moreover have "A \<union> (B \<union> R) \<union> C = A \<union> B \<union> C \<union> R" for A B C R :: "nat set" by blast
    ultimately show ?thesis using assms(4,9) old(1) by simp
  qed
  moreover have "set ((bs(q := bq)) p) \<inter> (set fl' \<union> H') = {}" for p
    using assms(4,6) away [of p] by (cases "p = q") auto
  moreover have "set ((bs(q := bq)) p) \<inter> set ((bs(q := bq)) r) = {}" if "p \<noteq> r" for p r
    using assms(4) away [of p] away [of r] old(3) [OF that] that
    by (cases "p = q"; cases "r = q") auto
  ultimately have sh: "cl_shape H' s' fl' (bs(q := bq))"
    using assms(1,3,5,9-11) unfolding cl_shape_def by simp
  have "bytes s' (bs p) = bytes s (bs p)" if "p \<noteq> q" for p
    using away [OF that] by (intro bytes_cong) (metis disjoint_iff same)
  then have "queue_bytes s' = (queue_bytes s)(q := bytes s' bq)"
    by (auto simp: fun_eq_iff shape_queue_bytes [OF sh] shape_queue_bytes [OF assms(1)])
  with sh show ?thesis by (simp add: shape_free_blocks)
qed

lemma bytes_bound:
  assumes "cl_shape H s fl bs" "set xs \<subseteq> {..<v_clist s}" "distinct xs"
    "\<And>b. b \<in> set xs \<Longrightarrow> c_last (cfree s b) \<le> CLSIZE"
  shows "length (bytes s xs) < 32768"
proof -
  have one: "c_last bp \<le> CLSIZE \<Longrightarrow> length (blk_bytes bp) \<le> CLSIZE" for bp
    by (auto simp: blk_bytes_def)
  have "length (bytes s xs) \<le> CLSIZE * length xs" using assms(4)
    by (induction xs) (auto intro!: add_mono one)
  also have "length xs \<le> v_clist s"
    using assms(2,3) card_mono [of "{..<v_clist s}" "set xs"] by (simp add: distinct_card)
  finally show ?thesis using assms(1) by (simp add: cl_shape_def)
qed

lemma shape_sets:
  assumes "cl_shape H s fl bs"
  shows "set fl \<inter> H = {}" "set (bs q) \<inter> set fl = {}" "set (bs q) \<inter> H = {}"
    "distinct fl" "distinct (bs q)" "chain (nx s) (cf_next (cfreelist s)) fl"
    "length (c_data (cfree s b)) = CLSIZE" "cf_size (cfreelist s) = CLSIZE"
  using assms by (auto simp: cl_shape_def q_shape_def intro: chain_distinct)

lemma shape_pool: "cl_shape H s fl bs \<Longrightarrow> set (bs q) \<subseteq> {..<v_clist s}"
  by (auto simp: cl_shape_def)

lemma shape_bytes_bound: "cl_shape H s fl bs \<Longrightarrow> length (bytes s (bs q)) < 32768"
  using shape_queue [of H s fl bs q] shape_sets(5) [of H s fl bs q] shape_pool [of H s fl bs q]
  by (intro bytes_bound) (auto simp: q_shape_def blk_ok_def)

lemma blk_bytes_Cons:
  "c_first bp < c_last bp \<Longrightarrow> c_last bp \<le> length (c_data bp) \<Longrightarrow>
   blk_bytes bp = c_data bp ! c_first bp # blk_bytes (bp\<lparr>c_first := c_first bp + 1\<rparr>)"
  by (simp add: blk_bytes_def Cons_nth_drop_Suc [symmetric] Suc_diff_Suc [symmetric])

lemma getc_empty:
  assumes "cl_shape H s fl bs" "bytes s (bs q) = []" shows "getc q s = Some (- 1, s)"
  using shape_queue [OF assms(1), of q] assms(2) by (simp add: getc_def q_shape_def)

lemma getc_shape:
  assumes sh: "cl_shape H s fl bs" and cont: "bytes s (bs q) = c # cs"
  shows "\<exists>s' fl' bq. getc q s = Some (uint c, s') \<and> cl_shape H s' fl' (bs(q := bq)) \<and>
           queue_bytes s' = (queue_bytes s)(q := cs)"
proof -
  note Q = shape_queue [OF sh, of q, unfolded q_shape_def] and S = shape_sets [OF sh]
  obtain b r where bs: "bs q = b # r" using cont by (cases "bs q") auto
  let ?bp = "cfree s b"
  from Q bs have bp: "c_first ?bp < c_last ?bp" "c_last ?bp \<le> CLSIZE" "nx s b = c_next ?bp"
    and br: "b \<notin> set r" using S(5) [of q] by (auto simp: blk_ok_def nx_def)
  from cont bs blk_bytes_Cons [OF bp(1)] S(7) [of b] bp(2)
  have c: "c = c_data ?bp ! c_first ?bp"
    and cs: "cs = blk_bytes (?bp\<lparr>c_first := c_first ?bp + 1\<rparr>) @ bytes s r" by auto
  have pos: "0 <s c_cc (clists s q)" using Q cont shape_bytes_bound [OF sh, of q]
    by (simp add: sless_of_nat16 del: of_nat_Suc)
  have cc: "c_cc (clists s q) - 1 = of_nat (length cs)" using Q cont by simp
  have rest: "bytes s' r = bytes s r" if "\<And>x. x \<noteq> b \<Longrightarrow> cfree s' x = cfree s x" for s'
    using that br by (intro bytes_cong) metis
  let ?s1 = "upd_cl q (\<lambda>p. p\<lparr>c_cc := c_cc p - 1\<rparr>) s"
  let ?s2 = "upd_cb b (\<lambda>bp. bp\<lparr>c_first := c_first bp + 1\<rparr>) ?s1"
  show ?thesis
  proof (cases "c_first ?bp + 1 = c_last ?bp")
    case True
    let ?s' = "cwake (cpush b (cnext_first q b ?s2))"
    have b0: "bytes ?s' r = cs" using True cs rest [of ?s'] by (simp add: cl_simps blk_bytes_def)
    have "cl_shape H ?s' (b # fl) (bs(q := r)) \<and>
        queue_bytes ?s' = (queue_bytes s)(q := bytes ?s' r) \<and> free_blocks ?s' = b # fl"
    proof (rule cl_shape_step [OF sh])
      show "q_shape ?s' q r"
        unfolding q_shape_def b0 using Q bs br bp cc by (auto simp: cl_simps)
      show "chain (nx ?s') (cf_next (cfreelist ?s')) (b # fl)"
        using S(2) [of q] S(6) bs by (auto simp: cl_simps)
    qed (use S(1,7,8) S(2,3,5) [of q] bs br in \<open>auto simp: cl_simps\<close>)
    moreover have "getc q s = Some (uint c, ?s')"
      using True pos Q bs bp S(7) [of b] c by (simp add: getc_def cl_simps Let_def)
    ultimately show ?thesis using b0 by auto
  next
    case False
    have b0: "bytes ?s2 (b # r) = cs" using cs rest [of ?s2] by (simp add: cl_simps)
    have "cl_shape H ?s2 fl (bs(q := b # r)) \<and>
        queue_bytes ?s2 = (queue_bytes s)(q := bytes ?s2 (b # r)) \<and> free_blocks ?s2 = fl"
    proof (rule cl_shape_step [OF sh])
      have "nx ?s2 = nx s" by (auto simp: cl_simps bp)
      then show "q_shape ?s2 q (b # r)"
        unfolding q_shape_def b0 using False Q bs br bp cc by (auto simp: cl_simps blk_ok_def)
      show "chain (nx ?s2) (cf_next (cfreelist ?s2)) fl"
        using S(2) [of q] S(6) bs by (auto simp: cl_simps)
    qed (use S(1,7,8) S(2,3,5) [of q] bs br in \<open>auto simp: cl_simps\<close>)
    moreover have "getc q s = Some (uint c, ?s2)"
      using False pos Q bs bp S(7) [of b] c by (simp add: getc_def cl_simps Let_def)
    ultimately show ?thesis using b0 by auto
  qed
qed

text \<open>Room for more bytes on a queue: the free blocks and the tail of its last block.\<close>

definition tail_room :: "clstate \<Rightarrow> nat \<Rightarrow> nat" where
  "tail_room s q = (case c_cl (clists s q) of None \<Rightarrow> 0 | Some b \<Rightarrow> CLSIZE - c_last (cfree s b))"

definition room :: "clstate \<Rightarrow> nat \<Rightarrow> nat" where
  "room s q = CLSIZE * length (free_blocks s) + tail_room s q"

abbreviation bump :: "nat \<Rightarrow> u16 \<Rightarrow> clstate \<Rightarrow> clstate" where
  "bump q d s \<equiv> upd_cl q (\<lambda>p. p\<lparr>c_cc := c_cc p + d\<rparr>) s"

abbreviation fill :: "nat \<Rightarrow> byte list \<Rightarrow> clstate \<Rightarrow> clstate" where
  "fill b xs s \<equiv> upd_cb b (\<lambda>bp. bp\<lparr>c_data := copy_at (c_last bp) xs (c_data bp),
                                    c_last := c_last bp + length xs\<rparr>) s"

lemma length_copy_at [simp]: "i + length xs \<le> length ys \<Longrightarrow> length (copy_at i xs ys) = length ys"
  by (simp add: copy_at_def)

lemma copy_at_single: "i < length ys \<Longrightarrow> copy_at i [x] ys = ys[i := x]"
  by (simp add: copy_at_def upd_conv_take_nth_drop)

lemma blk_bytes_fill:
  assumes "c_first bp \<le> c_last bp" "c_last bp + length xs \<le> length (c_data bp)"
  shows "blk_bytes (bp\<lparr>c_data := copy_at (c_last bp) xs (c_data bp), c_last := c_last bp + length xs\<rparr>)
         = blk_bytes bp @ xs"
proof -
  have "min (length (c_data bp)) (c_last bp) = c_last bp"
    "min (length (c_data bp) - c_first bp) (c_last bp - c_first bp) = c_last bp - c_first bp"
    "c_last bp + length xs - c_first bp - (c_last bp - c_first bp) = length xs"
    using assms by auto
  then show ?thesis using assms by (simp add: blk_bytes_def copy_at_def drop_take)
qed

lemma cgrow_fields [cl_simps]:
  "cfreelist (cgrow q obp b s) = (cfreelist s)\<lparr>cf_next := nx s b\<rparr>"
  "v_clist (cgrow q obp b s) = v_clist s"
  "q' \<noteq> q \<Longrightarrow> clists (cgrow q obp b s) q' = clists s q'"
  "c_cl (clists (cgrow q obp b s) q) = Some b"
  "c_cc (clists (cgrow q obp b s) q) = c_cc (clists s q)"
  "c_cf (clists (cgrow q obp b s) q) = (if obp = None then Some b else c_cf (clists s q))"
  "obp \<noteq> Some b \<Longrightarrow> cfree (cgrow q obp b s) b = (cfree s b)\<lparr>c_next := None, c_first := 0, c_last := 0\<rparr>"
  "x \<noteq> b \<Longrightarrow> cfree (cgrow q obp b s) x =
     (if obp = Some x then (cfree s x)\<lparr>c_next := Some b\<rparr> else cfree s x)"
  by (auto simp: cgrow_def cl_simps nx_def Let_def split: option.splits)

lemma nx_eq: "nx s b = c_next (cfree s b)"
  by (simp add: nx_def)

lemma ctail_cases [consumes 1, case_names full there grown]:
  assumes sh: "cl_shape H s fl bs"
  obtains "ctail q s = None" "room s q = 0"
  | pre b where "ctail q s = Some (b, s)" "bs q = pre @ [b]" "c_last (cfree s b) < CLSIZE"
  | b fl' where "ctail q s = Some (b, cgrow q (c_cl (clists s q)) b s)" "fl = b # fl'" "tail_room s q = 0"
proof -
  note Q = shape_queue [OF sh, of q, unfolded q_shape_def] and S = shape_sets [OF sh]
  show thesis
  proof (cases "bs q = [] \<or> c_last (cfree s (last (bs q))) = CLSIZE")
    case True
    then have need: "(case c_cl (clists s q) of None \<Rightarrow> True
        | Some b \<Rightarrow> c_last (cfree s b) = cf_size (cfreelist s))" and tr: "tail_room s q = 0"
      using Q S(8) by (auto simp: tail_room_def)
    show ?thesis
    proof (cases fl)
      case Nil
      with S(6) need tr sh have "ctail q s = None" "room s q = 0"
        by (simp_all add: ctail_def room_def shape_free_blocks)
      then show ?thesis by (rule that(1))
    next
      case (Cons b fl')
      with S(6) need have "ctail q s = Some (b, cgrow q (c_cl (clists s q)) b s)"
        by (simp add: ctail_def)
      from that(3) [OF this Cons tr] show ?thesis .
    qed
  next
    case False
    then obtain pre b where bs: "bs q = pre @ [b]" by (metis rev_exhaust)
    with False Q have "c_last (cfree s b) < CLSIZE" by (auto simp: blk_ok_def le_less)
    moreover have "ctail q s = Some (b, s)" using False bs Q S(8) by (auto simp: ctail_def)
    ultimately show ?thesis using bs by (intro that(2)) auto
  qed
qed

lemma ctail_fill:
  assumes sh: "cl_shape H s fl bs" and ct: "ctail q s = Some (b, s1)"
    and xs: "xs \<noteq> []" "c_last (cfree s1 b) + length xs \<le> CLSIZE"
  shows "\<exists>fl' bq. cl_shape H (bump q (of_nat (length xs)) (fill b xs s1)) fl' (bs(q := bq)) \<and>
     queue_bytes (bump q (of_nat (length xs)) (fill b xs s1)) = (queue_bytes s)(q := queue_bytes s q @ xs) \<and>
     room (bump q (of_nat (length xs)) (fill b xs s1)) q + length xs = room s q"
    (is "\<exists>fl' bq. cl_shape H ?s' fl' _ \<and> _ \<and> _")
proof -
  note Q = shape_queue [OF sh, of q, unfolded q_shape_def] and S = shape_sets [OF sh]
  show ?thesis using sh
  proof (cases rule: ctail_cases [where q = q])
    case full with ct show ?thesis by simp
  next
    case (there pre c)
    then have s1: "s1 = s" "c = b" using ct by auto
    have bp: "c_first (cfree s b) < c_last (cfree s b)" using Q there s1 by (auto simp: blk_ok_def)
    have pre: "b \<notin> set pre" using S(5) [of q] there s1 by auto
    have "bytes ?s' pre = bytes s pre" using pre by (intro bytes_cong) (auto simp: cl_simps s1)
    then have b0: "bytes ?s' (pre @ [b]) = bytes s (bs q) @ xs"
      using there s1 bp xs S(7) [of b] blk_bytes_fill [of "cfree s b" xs] by (simp add: cl_simps)
    have "cl_shape H ?s' fl (bs(q := pre @ [b])) \<and>
        queue_bytes ?s' = (queue_bytes s)(q := bytes ?s' (pre @ [b])) \<and> free_blocks ?s' = fl"
    proof (rule cl_shape_step [OF sh])
      have "nx ?s' = nx s" by (auto simp: cl_simps s1 nx_eq)
      then show "q_shape ?s' q (pre @ [b])"
        unfolding q_shape_def b0 using Q there s1 bp xs by (auto simp: cl_simps blk_ok_def)
      show "chain (nx ?s') (cf_next (cfreelist ?s')) fl"
        using S(2) [of q] S(6) there s1 by (auto simp: cl_simps)
    qed (use S(1,7,8) S(2,3,5) [of q] there s1 xs in \<open>auto simp: cl_simps\<close>)
    moreover from this have "room ?s' q + length xs = room s q"
      using there s1 xs Q by (simp add: room_def tail_room_def cl_simps shape_free_blocks [OF sh])
    ultimately show ?thesis using b0 shape_queue_bytes [OF sh] by auto
  next
    case (grown c fl')
    let ?pre = "bs q" and ?ob = "c_cl (clists s q)"
    have s1: "s1 = cgrow q ?ob b s" "c = b" using ct grown by auto
    have pre: "b \<notin> set ?pre" and d: "distinct fl" using S(2) [of q] S(4) grown s1 by auto
    have ob: "?ob \<noteq> Some b" using Q pre by auto
    have "bytes ?s' ?pre = bytes s ?pre"
      using pre ob by (intro bytes_cong) (auto simp: cl_simps s1)
    then have b0: "bytes ?s' (?pre @ [b]) = bytes s (bs q) @ xs"
      using s1 xs ob S(7) [of b] blk_bytes_fill [of "cfree s1 b" xs]
      by (simp add: cl_simps) (simp add: blk_bytes_def)
    have "cl_shape H ?s' fl' (bs(q := ?pre @ [b])) \<and>
        queue_bytes ?s' = (queue_bytes s)(q := bytes ?s' (?pre @ [b])) \<and> free_blocks ?s' = fl'"
    proof (rule cl_shape_step [OF sh])
      have nx': "nx ?s' = (if ?pre = [] then (nx s)(b := None) else (nx s)(b := None, last ?pre := Some b))"
        using Q ob pre by (auto simp: fun_eq_iff nx_eq cl_simps s1)
      have "chain (nx ?s') (c_cf (clists ?s' q)) (?pre @ [b])"
      proof -
        have "c_cf (clists ?s' q) = (if ?pre = [] then Some b else c_cf (clists s q))"
          using Q by (auto simp: cl_simps s1)
        then show ?thesis
          using chain_snoc [of "nx s" "c_cf (clists s q)" ?pre b] Q pre unfolding nx' by auto
      qed
      moreover have "blk_ok (cfree ?s' x)" if "x \<in> set (?pre @ [b])" for x
        using that Q ob pre xs by (auto simp: cl_simps s1 blk_ok_def)
      ultimately show "q_shape ?s' q (?pre @ [b])"
        unfolding q_shape_def b0 using Q by (auto simp: cl_simps s1)
      have "last ?pre \<notin> set fl" if "?pre \<noteq> []" using last_in_set [OF that] S(2) [of q] by blast
      then have "b \<notin> set fl'" "?pre \<noteq> [] \<Longrightarrow> last ?pre \<notin> set fl'" using d grown s1 by auto
      then have "chain (nx ?s') (nx s b) fl'" unfolding nx' using S(6) d grown s1 by auto
      then show "chain (nx ?s') (cf_next (cfreelist ?s')) fl'" by (simp add: cl_simps s1)
    next
      fix x assume "x \<notin> set fl \<union> set (bs q) \<union> H"
      then show "cfree ?s' x = cfree s x" using Q grown s1 by (auto simp: cl_simps split: if_splits)
    next
      fix x show "length (c_data (cfree ?s' x)) = CLSIZE"
        using S(7) ob xs s1 by (auto simp: cl_simps)
    qed (use S(1) S(2,3) [of q] d grown s1 pre in \<open>auto simp: cl_simps\<close>)
    moreover from this have "room ?s' q + length xs = room s q"
      using grown s1 xs ob by (simp add: room_def tail_room_def cl_simps shape_free_blocks [OF sh])
    ultimately show ?thesis using b0 shape_queue_bytes [OF sh] by auto
  qed
qed

section \<open>Results of the operations\<close>

lemma upd_cb_cong: "f (cfree s b) = g (cfree s b) \<Longrightarrow> upd_cb b f s = upd_cb b g s"
  by (simp add: upd_cb_def)

lemma ctail_Some:
  assumes sh: "cl_shape H s fl bs" and ct: "ctail q s = Some (b, s1)"
  shows "c_last (cfree s1 b) < CLSIZE" "length (c_data (cfree s1 b)) = CLSIZE"
    "cf_size (cfreelist s1) = CLSIZE" "0 < room s q"
proof -
  note Q = shape_queue [OF sh, of q, unfolded q_shape_def] and S = shape_sets [OF sh]
  have *: "c_last (cfree s1 b) < CLSIZE \<and> length (c_data (cfree s1 b)) = CLSIZE \<and>
      cf_size (cfreelist s1) = CLSIZE" using sh
  proof (cases rule: ctail_cases [where q = q])
    case (grown c fl')
    then have "c_cl (clists s q) \<noteq> Some c" using Q S(2) [of q] by auto
    then show ?thesis using grown ct S by (auto simp: cl_simps CLSIZE_def)
  qed (use ct S in auto)
  then show "c_last (cfree s1 b) < CLSIZE" "length (c_data (cfree s1 b)) = CLSIZE"
    "cf_size (cfreelist s1) = CLSIZE" by auto
  show "0 < room s q" using ctail_fill [OF sh ct, of "[undefined]"] * by auto
qed

lemma putc_shape:
  assumes sh: "cl_shape H s fl bs"
  shows "room s q = 0 \<Longrightarrow> putc c q s = Some (- 1, s)"
    and "0 < room s q \<Longrightarrow> \<exists>s'. putc c q s = Some (0, s') \<and> cl_ok H s' \<and>
       queue_bytes s' = (queue_bytes s)(q := queue_bytes s q @ [c]) \<and> room s' q + 1 = room s q"
proof -
  show "putc c q s = Some (- 1, s)" if "room s q = 0"
    using ctail_Some(4) [OF sh, of q] that by (cases "ctail q s") (auto simp: putc_def)
  assume r: "0 < room s q"
  obtain b s1 where ct: "ctail q s = Some (b, s1)"
    using r by (cases rule: ctail_cases [OF sh, where q = q]) auto
  note T = ctail_Some [OF sh ct]
  have "putc c q s = Some (0, bump q 1 (fill b [c] s1))"
    using ct T by (auto simp: putc_def copy_at_single intro!: arg_cong [where f = "bump q 1"] upd_cb_cong)
  then show "\<exists>s'. putc c q s = Some (0, s') \<and> cl_ok H s' \<and>
       queue_bytes s' = (queue_bytes s)(q := queue_bytes s q @ [c]) \<and> room s' q + 1 = room s q"
    using ctail_fill [OF sh ct, of "[c]"] T(1) by (auto simp: cl_ok_def)
qed

text \<open>The counts of \<open>getcbp\<close> and \<open>putcbp\<close> are adjusted after their loops; until then the queue
  satisfies the invariant up to the bytes moved so far.\<close>

lemma bump_same [simp]:
  "queue_bytes (upd_cl q (\<lambda>p. p\<lparr>c_cc := f p\<rparr>) s) = queue_bytes s"
  "room (upd_cl q (\<lambda>p. p\<lparr>c_cc := f p\<rparr>) s) p = room s p"
  "bump q d (bump q e s) = bump q (e + d) s"
  "upd_cl q (\<lambda>p. p\<lparr>c_cc := c_cc p - d\<rparr>) (bump q e s) = bump q (e - d) s" "upd_cl q (\<lambda>p. p) s = s"
proof -
  show "room (upd_cl q (\<lambda>p. p\<lparr>c_cc := f p\<rparr>) s) p = room s p"
    by (cases "p = q") (simp_all add: room_def tail_room_def free_blocks_def cl_simps split: option.split)
qed (simp_all add: queue_bytes_def cl_simps fun_eq_iff bytes_def,
     simp_all add: upd_cl_def fun_upd_idem algebra_simps)

lemma bump_commute:
  "cgrow q obp b (bump q d s) = bump q d (cgrow q obp b s)"
  "cpush b (bump q d s) = bump q d (cpush b s)"
  "cnext_first q b (bump q d s) = bump q d (cnext_first q b s)"
  "upd_cb b f (bump q d s) = bump q d (upd_cb b f s)"
  by (rule clstate.equality; cases obp; auto simp: cgrow_def cpush_def cnext_first_def upd_cl_def
      upd_cb_def upd_hd_def Let_def fun_eq_iff intro!: clist.equality)+

lemma ctail_bump: "ctail q (bump q d s) = map_option (\<lambda>(b, t). (b, bump q d t)) (ctail q s)"
  by (auto simp: ctail_def cl_simps Let_def bump_commute split: option.splits)

lemma min_step: "r + k = (m :: nat) \<Longrightarrow> k \<le> n \<Longrightarrow> k + min (n - k) r = min n m"
  by auto

lemma putcbp_loop_shape:
  "cl_shape H (bump q d s) fl bs \<Longrightarrow> \<exists>s'. putcbp_loop q xs s = Some (drop (room s q) xs, s') \<and>
     cl_ok H (bump q (d + of_nat (min (length xs) (room s q))) s') \<and>
     queue_bytes s' = (queue_bytes s)(q := queue_bytes s q @ take (room s q) xs)"
proof (induction "length xs" arbitrary: xs s d fl bs rule: less_induct)
  case less
  show ?case
  proof (cases "xs = [] \<or> room s q = 0")
    case True
    then have "putcbp_loop q xs s = Some (xs, s)"
      using ctail_Some(4) [OF less.prems, of q] by (subst putcbp_loop.simps)
        (cases "ctail q s", auto simp: ctail_bump)
    moreover have "queue_bytes s = (queue_bytes s)(q := queue_bytes s q @ take (room s q) xs)"
      using True by auto
    ultimately show ?thesis using True less.prems cl_okI [OF less.prems] by auto
  next
    case False
    then obtain b t1 where "ctail q (bump q d s) = Some (b, t1)"
      by (cases rule: ctail_cases [OF less.prems, where q = q]) auto
    then obtain s1 where ct: "ctail q (bump q d s) = Some (b, bump q d s1)" "ctail q s = Some (b, s1)"
      by (auto simp: ctail_bump)
    note T = ctail_Some [OF less.prems ct(1), simplified cl_simps]
    let ?on = "CLSIZE - c_last (cfree s1 b)"
    show ?thesis
    proof (cases "?on \<le> length xs")
      case True
      let ?c = "take ?on xs"
      let ?s2 = "fill b ?c s1"
      have len: "length ?c = ?on" using True by simp
      have c: "?c \<noteq> []" using False T(1) by auto
      have s2: "?s2 = upd_cb b (\<lambda>bp. bp\<lparr>c_data := copy_at (c_last bp) (take ?on xs) (c_data bp),
                          c_last := c_last bp + ?on\<rparr>) s1"
        unfolding len ..
      from ctail_fill [OF less.prems ct(1) c] T(1) len
      obtain fl' bq where st: "cl_shape H (bump q (d + of_nat ?on) ?s2) fl' (bs(q := bq))"
        "queue_bytes ?s2 = (queue_bytes s)(q := queue_bytes s q @ ?c)" "room ?s2 q + ?on = room s q"
        by (auto simp: bump_commute cl_simps)
      have "length (drop ?on xs) < length xs" using len True T(1) by simp
      from less.hyps [OF this st(1)] obtain s' where
        ih: "putcbp_loop q (drop ?on xs) ?s2 = Some (drop (room ?s2 q) (drop ?on xs), s')"
        "cl_ok H (bump q (d + of_nat ?on + of_nat (min (length (drop ?on xs)) (room ?s2 q))) s')"
        "queue_bytes s' = (queue_bytes ?s2)(q := queue_bytes ?s2 q @ take (room ?s2 q) (drop ?on xs))"
        by blast
      have "putcbp_loop q xs s = putcbp_loop q (drop ?on xs) ?s2"
        using False ct(2) T True unfolding s2 by (subst putcbp_loop.simps) (auto simp: Let_def)
      moreover have cnt: "?on + min (length (drop ?on xs)) (room ?s2 q) = min (length xs) (room s q)"
        unfolding length_drop by (rule min_step [OF st(3) True])
      have "cl_ok H (bump q (d + of_nat (min (length xs) (room s q))) s')"
        using ih(2) unfolding add.assoc of_nat_add [symmetric] cnt .
      moreover have "take ?on xs @ take (room ?s2 q) (drop ?on xs) = take (room s q) xs"
        by (simp only: take_add [symmetric] add.commute [of ?on] st(3))
      ultimately show ?thesis using ih(1,3) st(2,3) by (auto simp: add.commute)
    next
      case False': False
      have "c_last (cfree s1 b) + length xs \<le> CLSIZE" using False' by simp
      with ctail_fill [OF less.prems ct(1), of xs] False
      obtain fl' bq where st: "cl_shape H (bump q (d + of_nat (length xs)) (fill b xs s1)) fl' (bs(q := bq))"
        "queue_bytes (fill b xs s1) = (queue_bytes s)(q := queue_bytes s q @ xs)"
        "room (fill b xs s1) q + length xs = room s q"
        by (auto simp: bump_commute cl_simps)
      moreover have "putcbp_loop q xs s = Some ([], fill b xs s1)"
        using False ct(2) T False' by (subst putcbp_loop.simps) (auto simp: Let_def)
      ultimately show ?thesis by (auto simp: cl_ok_def)
    qed
  qed
qed

lemma putcbp_shape:
  assumes "cl_shape H s fl bs"
  shows "\<exists>s'. putcbp q xs s = Some (min (length xs) (room s q), s') \<and> cl_ok H s' \<and>
     queue_bytes s' = (queue_bytes s)(q := queue_bytes s q @ take (room s q) xs)"
proof -
  from putcbp_loop_shape [of H q 0 s fl bs xs] assms obtain s' where
    "putcbp_loop q xs s = Some (drop (room s q) xs, s')"
    "cl_ok H (bump q (of_nat (min (length xs) (room s q))) s')"
    "queue_bytes s' = (queue_bytes s)(q := queue_bytes s q @ take (room s q) xs)" by auto
  moreover have "length xs - length (drop (room s q) xs) = min (length xs) (room s q)" by auto
  ultimately show ?thesis by (simp add: putcbp_def)
qed

text \<open>Taking a part or all of the first block off a queue.\<close>

lemma trim_block:
  assumes sh: "cl_shape H s fl bs" and bs: "bs q = b # r" and n: "n < c_last (cfree s b) - c_first (cfree s b)"
  defines "s' \<equiv> bump q (- of_nat n) (upd_cb b (\<lambda>bp. bp\<lparr>c_first := c_first bp + n\<rparr>) s)"
  shows "cl_shape H s' fl bs" "queue_bytes s' = (queue_bytes s)(q := drop n (queue_bytes s q))"
proof -
  note Q = shape_queue [OF sh, of q, unfolded q_shape_def] and S = shape_sets [OF sh]
  have nx': "nx s' = nx s" by (auto simp: s'_def cl_simps nx_eq)
  have br: "b \<notin> set r" using S(5) [of q] bs by simp
  have bp: "c_last (cfree s b) \<le> CLSIZE" using Q bs by (auto simp: blk_ok_def)
  have "bytes s' r = bytes s r" using br by (intro bytes_cong) (auto simp: s'_def cl_simps)
  moreover have "blk_bytes ((cfree s b)\<lparr>c_first := c_first (cfree s b) + n\<rparr>) = drop n (blk_bytes (cfree s b))"
    by (simp add: blk_bytes_def drop_take add.commute diff_diff_add)
  ultimately have b0: "bytes s' (bs q) = drop n (bytes s (bs q))"
    using n bp S(7) [of b] by (simp add: bs length_blk_bytes s'_def cl_simps)
  have "n \<le> length (bytes s (bs q))" using n bp S(7) [of b] by (simp add: bs length_blk_bytes)
  then have cc: "c_cc (clists s' q) = of_nat (length (drop n (bytes s (bs q))))"
    using Q by (simp add: s'_def cl_simps of_nat_diff)
  have "cl_shape H s' fl (bs(q := bs q)) \<and>
      queue_bytes s' = (queue_bytes s)(q := bytes s' (bs q)) \<and> free_blocks s' = fl"
  proof (rule cl_shape_step [OF sh])
    show "q_shape s' q (bs q)"
      unfolding q_shape_def b0 nx' cc using Q bs n by (auto simp: s'_def cl_simps blk_ok_def)
    show "chain (nx s') (cf_next (cfreelist s')) fl" unfolding nx' using S(6) by (simp add: s'_def cl_simps)
  qed (use S(1,7) S(2,3) [of q] bs in \<open>auto simp: s'_def cl_simps\<close>)
  then show "cl_shape H s' fl bs" "queue_bytes s' = (queue_bytes s)(q := drop n (queue_bytes s q))"
    by (simp_all add: b0 shape_queue_bytes [OF sh])
qed

lemma drop_block:
  assumes sh: "cl_shape H s fl bs" and bs: "bs q = b # r"
  defines "t \<equiv> cnext_first q b (bump q (- of_nat (length (blk_bytes (cfree s b)))) s)"
  shows "cl_shape (insert b H) t fl (bs(q := r))" "cl_shape H (cpush b t) (b # fl) (bs(q := r))"
    "queue_bytes t = (queue_bytes s)(q := bytes s r)" "queue_bytes (cpush b t) = (queue_bytes s)(q := bytes s r)"
proof -
  note Q = shape_queue [OF sh, of q, unfolded q_shape_def] and S = shape_sets [OF sh]
  have br: "b \<notin> set r" using S(5) [of q] bs by simp
  have bfl: "b \<notin> set fl" using S(2) [of q] bs by auto
  have b0: "bytes t r = bytes s r" "bytes (cpush b t) r = bytes s r"
    using br by (auto intro!: bytes_cong simp: t_def cl_simps)
  have q1: "q_shape t q r" unfolding q_shape_def b0 using Q bs by (auto simp: t_def cl_simps)
  then have q2: "q_shape (cpush b t) q r"
    using br b0 by (simp add: q_shape_def cl_simps)
  have 1: "cl_shape (insert b H) t fl (bs(q := r)) \<and>
      queue_bytes t = (queue_bytes s)(q := bytes t r) \<and> free_blocks t = fl"
  proof (rule cl_shape_step [OF sh])
    show "chain (nx t) (cf_next (cfreelist t)) fl" using S(6) by (simp add: t_def cl_simps)
  qed (use q1 S(1,7) S(2,3) [of q] bs br bfl in \<open>auto simp: t_def cl_simps\<close>)
  have 2: "cl_shape H (cpush b t) (b # fl) (bs(q := r)) \<and>
      queue_bytes (cpush b t) = (queue_bytes s)(q := bytes (cpush b t) r) \<and> free_blocks (cpush b t) = b # fl"
  proof (rule cl_shape_step [OF sh])
    show "chain (nx (cpush b t)) (cf_next (cfreelist (cpush b t))) (b # fl)"
      using S(6) bfl by (simp add: t_def cl_simps)
  qed (use q2 S(1,7) S(2,3) [of q] bs br bfl in \<open>auto simp: t_def cl_simps\<close>)
  from 1 2 b0 show "cl_shape (insert b H) t fl (bs(q := r))" "cl_shape H (cpush b t) (b # fl) (bs(q := r))"
    "queue_bytes t = (queue_bytes s)(q := bytes s r)" "queue_bytes (cpush b t) = (queue_bytes s)(q := bytes s r)"
    by auto
qed

lemma getcb_shape:
  assumes sh: "cl_shape H s fl bs"
  shows "bs q = [] \<Longrightarrow> getcb q s = (None, s)"
    and "bs q = b # r \<Longrightarrow> \<exists>s'. getcb q s = (Some b, s') \<and> b \<notin> H \<and> cl_ok (insert b H) s' \<and>
       cfree s' b = cfree s b \<and> queue_bytes s q = blk_bytes (cfree s b) @ queue_bytes s' q \<and>
       (\<forall>p. p \<noteq> q \<longrightarrow> queue_bytes s' p = queue_bytes s p)"
proof -
  note Q = shape_queue [OF sh, of q, unfolded q_shape_def] and S = shape_sets [OF sh]
  show "bs q = [] \<Longrightarrow> getcb q s = (None, s)" using Q by (simp add: getcb_def)
  assume bs: "bs q = b # r"
  then have bp: "c_first (cfree s b) < c_last (cfree s b)" "c_last (cfree s b) \<le> CLSIZE"
    using Q by (auto simp: blk_ok_def)
  let ?t = "cnext_first q b (bump q (- of_nat (length (blk_bytes (cfree s b)))) s)"
  have "(of_nat (c_last (cfree s b)) - of_nat (c_first (cfree s b)) :: u16) =
      of_nat (length (blk_bytes (cfree s b)))"
    using bp S(7) [of b] by (simp add: length_blk_bytes of_nat_diff)
  then have "getcb q s = (Some b, ?t)" using Q bs by (simp add: getcb_def)
  then show "\<exists>s'. getcb q s = (Some b, s') \<and> b \<notin> H \<and> cl_ok (insert b H) s' \<and>
       cfree s' b = cfree s b \<and> queue_bytes s q = blk_bytes (cfree s b) @ queue_bytes s' q \<and>
       (\<forall>p. p \<noteq> q \<longrightarrow> queue_bytes s' p = queue_bytes s p)"
    using drop_block(1,3) [of H s fl bs q b r] sh bs S(3) [of q]
    by (auto simp: cl_simps shape_queue_bytes [OF sh] intro: cl_okI)
qed

lemma getcbp_loop_shape:
  "cl_shape H (bump q d s) fl bs \<Longrightarrow> \<exists>s'. getcbp_loop q n acc s = Some (acc @ take n (queue_bytes s q), s') \<and>
     cl_ok H (bump q (d - of_nat (length (take n (queue_bytes s q)))) s') \<and>
     queue_bytes s' = (queue_bytes s)(q := drop n (queue_bytes s q))"
proof (induction "bs q" arbitrary: s d fl bs n acc)
  case Nil
  then have "queue_bytes s q = []" using shape_queue_bytes [OF Nil.prems, of q] by simp
  moreover have "getcbp_loop q n acc s = Some (acc, s)"
    using shape_queue [OF Nil.prems, of q] Nil.hyps
    by (subst getcbp_loop.simps) (auto simp: q_shape_def cl_simps)
  ultimately show ?case using cl_okI [OF Nil.prems] by (auto simp: fun_upd_idem)
next
  case (Cons b r)
  note sh = Cons.prems
  note bs = Cons.hyps(2) [symmetric]
  note Q = shape_queue [OF sh, of q, unfolded q_shape_def] and S = shape_sets [OF sh]
  let ?bp = "cfree s b" and ?n = "length (blk_bytes (cfree s b))"
  have bp: "c_first ?bp < c_last ?bp" "c_last ?bp \<le> CLSIZE" "length (c_data ?bp) = CLSIZE"
    using Q bs S(7) [of b] by (auto simp: blk_ok_def cl_simps)
  have len: "c_last ?bp - c_first ?bp = ?n" using bp by (simp add: length_blk_bytes)
  have cf: "c_cf (clists s q) = Some b" using Q bs by (simp add: cl_simps)
  have qb: "queue_bytes s q = blk_bytes ?bp @ bytes s r"
    using shape_queue_bytes [OF sh, of q] bs by (simp add: cl_simps bytes_def)
  consider "n = 0" | "0 < n" "n < ?n" | "?n \<le> n" "0 < n" by linarith
  then show ?case
  proof cases
    case 1
    then have "getcbp_loop q n acc s = Some (acc, s)" by (subst getcbp_loop.simps) simp
    with 1 cl_okI [OF sh] show ?thesis by (auto simp: fun_upd_idem)
  next
    case 2
    let ?s' = "upd_cb b (\<lambda>bp. bp\<lparr>c_first := c_first bp + n\<rparr>) s"
    have "getcbp_loop q n acc s = Some (acc @ take n (blk_bytes ?bp), ?s')"
      using 2 cf bp len by (subst getcbp_loop.simps) (auto simp: Let_def)
    moreover have "take n (queue_bytes s q) = take n (blk_bytes ?bp)" using 2 qb by simp
    ultimately show ?thesis using trim_block [OF sh bs, of n] 2 len
      by (auto simp: cl_simps bump_commute intro: cl_okI)
  next
    case 3
    let ?t = "cpush b (cnext_first q b s)"
    have st: "cl_shape H (bump q (d - of_nat ?n) ?t) (b # fl) (bs(q := r))"
      "queue_bytes ?t = (queue_bytes s)(q := bytes s r)"
      using drop_block(2,4) [OF sh bs] by (auto simp: cl_simps bump_commute bytes_def)
    from Cons.hyps(1) [OF _ st(1), of "n - ?n" "acc @ blk_bytes ?bp"] obtain s' where
      ih: "getcbp_loop q (n - ?n) (acc @ blk_bytes ?bp) ?t =
             Some ((acc @ blk_bytes ?bp) @ take (n - ?n) (bytes s r), s')"
        "cl_ok H (bump q (d - of_nat ?n - of_nat (length (take (n - ?n) (bytes s r)))) s')"
        "queue_bytes s' = (queue_bytes ?t)(q := drop (n - ?n) (bytes s r))"
      by (auto simp: st(2))
    have "getcbp_loop q n acc s = getcbp_loop q (n - ?n) (acc @ blk_bytes ?bp) ?t"
      using 3 cf bp len by (subst getcbp_loop.simps) (auto simp: Let_def)
    moreover have "take n (queue_bytes s q) = blk_bytes ?bp @ take (n - ?n) (bytes s r)"
      "drop n (queue_bytes s q) = drop (n - ?n) (bytes s r)" using 3 qb by auto
    ultimately show ?thesis using ih st(2) by (auto simp: algebra_simps)
  qed
qed

lemma getcbp_shape:
  assumes "cl_shape H s fl bs"
  shows "\<exists>s'. getcbp q n s = Some (take n (queue_bytes s q), s') \<and> cl_ok H s' \<and>
     queue_bytes s' = (queue_bytes s)(q := drop n (queue_bytes s q))"
  using getcbp_loop_shape [of H q 0 s fl bs n "[]"] assms by (auto simp: getcbp_def)

lemma putcb_shape:
  assumes sh: "cl_shape H s fl bs" and b: "b \<in> H" "blk_ok (cfree s b)"
  shows "\<exists>s'. putcb b q s = (0, s') \<and> cl_ok (H - {b}) s' \<and>
     queue_bytes s' = (queue_bytes s)(q := queue_bytes s q @ blk_bytes (cfree s b))"
proof -
  note Q = shape_queue [OF sh, of q, unfolded q_shape_def] and S = shape_sets [OF sh]
  let ?pre = "bs q"
  define s1 where "s1 = (case c_cl (clists s q) of None \<Rightarrow> upd_cl q (\<lambda>p. p\<lparr>c_cf := Some b\<rparr>) s
      | Some ob \<Rightarrow> upd_cb ob (\<lambda>bp. bp\<lparr>c_next := Some b\<rparr>) s)"
  define t where "t = upd_cb b (\<lambda>bp. bp\<lparr>c_next := None\<rparr>) (upd_cl q (\<lambda>p. p\<lparr>c_cl := Some b\<rparr>) s1)"
  define s' where "s' = bump q (of_nat (length (blk_bytes (cfree s b)))) t"
  have pre: "b \<notin> set ?pre" and bfl: "b \<notin> set fl" using S(1) S(3) [of q] b by auto
  have ob: "c_cl (clists s q) \<noteq> Some b" using Q pre by auto
  have t: "cfree t b = (cfree s b)\<lparr>c_next := None\<rparr>"
    "x \<noteq> b \<Longrightarrow> cfree t x = (if c_cl (clists s q) = Some x then (cfree s x)\<lparr>c_next := Some b\<rparr> else cfree s x)"
    "cfreelist t = cfreelist s" "v_clist t = v_clist s" "q' \<noteq> q \<Longrightarrow> clists t q' = clists s q'"
    "c_cl (clists t q) = Some b" "c_cc (clists t q) = c_cc (clists s q)"
    "c_cf (clists t q) = (if ?pre = [] then Some b else c_cf (clists s q))" for x q'
    using Q ob by (auto simp: t_def s1_def cl_simps split: option.split)
  have "(of_nat (c_last (cfree s b)) - of_nat (c_first (cfree s b)) :: u16) =
      of_nat (length (blk_bytes (cfree s b)))"
    using b S(7) [of b] by (simp add: length_blk_bytes of_nat_diff blk_ok_def)
  then have run: "putcb b q s = (0, s')"
    using t(1) by (simp add: putcb_def Let_def s'_def) (simp add: t_def s1_def)
  have fr: "cfree s' = cfree t" "cfreelist s' = cfreelist s" "v_clist s' = v_clist s"
    by (simp_all add: s'_def cl_simps t)
  have nx': "nx s' = (if ?pre = [] then (nx s)(b := None) else (nx s)(b := None, last ?pre := Some b))"
    using Q ob pre by (auto simp: fun_eq_iff nx_eq fr t)
  have "blk_bytes (cfree t x) = blk_bytes (cfree s x)" if "x \<noteq> b" for x using t(2) [OF that] by simp
  then have "bytes s' ?pre = bytes s ?pre" using pre by (intro bytes_cong) (metis fr(1))
  then have b0: "bytes s' (?pre @ [b]) = bytes s (bs q) @ blk_bytes (cfree s b)"
    by (simp add: fr t)
  have "cl_shape (H - {b}) s' fl (bs(q := ?pre @ [b])) \<and>
      queue_bytes s' = (queue_bytes s)(q := bytes s' (?pre @ [b])) \<and> free_blocks s' = fl"
  proof (rule cl_shape_step [OF sh])
    have "chain (nx s') (c_cf (clists s' q)) (?pre @ [b])"
    proof -
      have "c_cf (clists s' q) = (if ?pre = [] then Some b else c_cf (clists s q))"
        by (simp add: s'_def cl_simps t)
      then show ?thesis
        using chain_snoc [of "nx s" "c_cf (clists s q)" ?pre b] Q pre unfolding nx' by auto
    qed
    moreover have "blk_ok (cfree s' x)" if "x \<in> set (?pre @ [b])" for x
      using that Q b(2) by (cases "x = b") (auto simp: fr t)
    moreover have "c_cl (clists s' q) = Some b"
      "c_cc (clists s' q) = of_nat (length (bytes s' (?pre @ [b])))"
      unfolding b0 using Q by (simp_all add: s'_def cl_simps t)
    ultimately show "q_shape s' q (?pre @ [b])" by (auto simp: q_shape_def)
    have "last ?pre \<notin> set fl" if "?pre \<noteq> []" using last_in_set [OF that] S(2) [of q] by blast
    then show "chain (nx s') (cf_next (cfreelist s')) fl"
      unfolding nx' fr using S(6) bfl by auto
  next
    fix x assume x: "x \<notin> set fl \<union> set (bs q) \<union> H"
    then have "x \<noteq> b" using b by auto
    from t(2) [OF this] x show "cfree s' x = cfree s x" using Q by (auto simp: fr split: if_splits)
  next
    fix x show "length (c_data (cfree s' x)) = CLSIZE"
      using S(7) t(2) [of x] by (cases "x = b") (auto simp: fr t(1))
  next
    fix p assume "p \<noteq> q" then show "clists s' p = clists s p" by (simp add: s'_def cl_simps t)
  qed (use S(1) S(2,3) [of q] b bfl pre in \<open>auto simp: fr\<close>)
  with run b0 show ?thesis by (auto simp: shape_queue_bytes [OF sh] intro: cl_okI)
qed

lemma bytes_untouched:
  assumes sh: "cl_shape H s fl bs" and "b \<notin> set (bs q)" "\<And>x. x \<noteq> b \<Longrightarrow> cfree s' x = cfree s x"
    and "clists s' = clists s"
  shows "q_shape s' q (bs q) \<and> bytes s' (bs q) = bytes s (bs q)"
proof -
  have same: "x \<in> set (bs q) \<Longrightarrow> cfree s' x = cfree s x" for x using assms(2,3) by metis
  then have "q_shape s' q (bs q) \<longleftrightarrow> q_shape s q (bs q)" using assms(4) by (intro q_shape_cong) auto
  moreover have "bytes s' (bs q) = bytes s (bs q)" using same by (intro bytes_cong) simp
  ultimately show ?thesis using shape_queue [OF sh] by simp
qed

lemma putcf_shape:
  assumes sh: "cl_shape H s fl bs" and b: "b \<in> H"
  shows "cl_ok (H - {b}) (putcf b s) \<and> queue_bytes (putcf b s) = queue_bytes s \<and>
     free_blocks (putcf b s) = b # free_blocks s"
proof -
  note S = shape_sets [OF sh]
  have bb: "b \<notin> set fl" "b \<notin> set (bs q)" for q using S(1) S(3) [of q] b by auto
  have q: "q_shape (putcf b s) q (bs q) \<and> bytes (putcf b s) (bs q) = bytes s (bs q)" for q
    by (rule bytes_untouched [OF sh bb(2)]) (auto simp: putcf_def cl_simps)
  have "cl_shape (H - {b}) (putcf b s) (b # fl) (bs(0 := bs 0)) \<and>
      queue_bytes (putcf b s) = (queue_bytes s)(0 := bytes (putcf b s) (bs 0)) \<and>
      free_blocks (putcf b s) = b # fl"
  proof (rule cl_shape_step [OF sh])
    show "chain (nx (putcf b s)) (cf_next (cfreelist (putcf b s))) (b # fl)"
      using S(6) bb by (simp add: putcf_def cl_simps)
  qed (use q S(1,7) S(2,3) [of 0] b bb in \<open>auto simp: putcf_def cl_simps\<close>)
  then show ?thesis using q shape_queue_bytes [OF sh, of 0] shape_free_blocks [OF sh]
    by (auto simp: fun_upd_idem intro: cl_okI)
qed

lemma getcf_shape:
  assumes sh: "cl_shape H s fl bs"
  shows "fl = [] \<Longrightarrow> getcf s = (None, s)"
    and "fl = b # fl' \<Longrightarrow> \<exists>s'. getcf s = (Some b, s') \<and> b \<notin> H \<and> cl_ok (insert b H) s' \<and>
       queue_bytes s' = queue_bytes s \<and> free_blocks s' = fl' \<and> blk_ok (cfree s' b)"
proof -
  note S = shape_sets [OF sh]
  show "fl = [] \<Longrightarrow> getcf s = (None, s)" using S(6) by (simp add: getcf_def)
  assume fl: "fl = b # fl'"
  let ?s' = "upd_cb b (\<lambda>bp. bp\<lparr>c_next := None, c_first := 0, c_last := cf_size (cfreelist s)\<rparr>)
               (upd_hd (\<lambda>h. h\<lparr>cf_next := c_next (cfree s b)\<rparr>) s)"
  have run: "getcf s = (Some b, ?s')" using S(6) fl by (simp add: getcf_def)
  have bb: "b \<notin> set fl'" "b \<notin> H" "b \<notin> set (bs q)" for q using S(1,4) S(2) [of q] fl by auto
  have q: "q_shape ?s' q (bs q) \<and> bytes ?s' (bs q) = bytes s (bs q)" for q
    by (rule bytes_untouched [OF sh bb(3)]) (auto simp: cl_simps)
  have "cl_shape (insert b H) ?s' fl' (bs(0 := bs 0)) \<and>
      queue_bytes ?s' = (queue_bytes s)(0 := bytes ?s' (bs 0)) \<and> free_blocks ?s' = fl'"
  proof (rule cl_shape_step [OF sh])
    show "chain (nx ?s') (cf_next (cfreelist ?s')) fl'" using S(6) bb fl by (simp add: cl_simps nx_eq)
  qed (use q S(1,7) S(2,3) [of 0] bb fl in \<open>auto simp: cl_simps\<close>)
  with run bb(2) q show "\<exists>s'. getcf s = (Some b, s') \<and> b \<notin> H \<and> cl_ok (insert b H) s' \<and>
       queue_bytes s' = queue_bytes s \<and> free_blocks s' = fl' \<and> blk_ok (cfree s' b)"
    using shape_queue_bytes [OF sh, of 0] S(8)
    by (auto simp: fun_upd_idem cl_simps blk_ok_def CLSIZE_def intro: cl_okI)
qed

text \<open>The state \<open>cinit\<close> starts from: queues without blocks and an empty free list.\<close>

definition cl_boot :: "clstate \<Rightarrow> bool" where
  "cl_boot s \<longleftrightarrow> CLSIZE * v_clist s < 32768 \<and> cf_next (cfreelist s) = None \<and>
     (\<forall>b. length (c_data (cfree s b)) = CLSIZE) \<and>
     (\<forall>q. clists s q = \<lparr>c_cc = 0, c_cf = None, c_cl = None\<rparr>)"

lemma cinit_loop_chain:
  "cf_next (cfreelist s) = None \<Longrightarrow>
   chain (nx (cinit_loop n s)) (cf_next (cfreelist (cinit_loop n s))) (rev [0..<n]) \<and>
   clists (cinit_loop n s) = clists s \<and> v_clist (cinit_loop n s) = v_clist s \<and>
   (\<forall>b. c_data (cfree (cinit_loop n s) b) = c_data (cfree s b))"
  by (induction n) (auto simp: cl_simps)

lemma cinit_shape: "cl_boot s \<Longrightarrow> cl_shape {} (cinit s) (rev [0..<v_clist s]) (\<lambda>_. [])"
  using cinit_loop_chain [of s "v_clist s"]
  by (auto simp: cl_boot_def cl_shape_def cinit_def q_shape_def cl_simps)

section \<open>Byte queues as an interface\<close>

text \<open>
  What a driver relies on: \<open>getb\<close> delivers the first byte or \<open>-1\<close>, \<open>putb\<close> appends a byte or
  answers \<open>-1\<close> and changes nothing, and neither touches another queue.
\<close>

locale byte_queues =
  fixes ok :: "'s \<Rightarrow> bool"
    and content :: "'s \<Rightarrow> nat \<Rightarrow> byte list"
    and getb :: "nat \<Rightarrow> 's \<Rightarrow> (int \<times> 's) option"
    and putb :: "byte \<Rightarrow> nat \<Rightarrow> 's \<Rightarrow> (int \<times> 's) option"
  assumes get_empty: "ok s \<Longrightarrow> content s q = [] \<Longrightarrow> getb q s = Some (- 1, s)"
    and get_first: "ok s \<Longrightarrow> content s q = c # cs \<Longrightarrow>
          \<exists>s'. getb q s = Some (uint c, s') \<and> ok s' \<and> content s' = (content s)(q := cs)"
    and put_last: "ok s \<Longrightarrow> putb c q s = Some (- 1, s) \<or>
          (\<exists>s'. putb c q s = Some (0, s') \<and> ok s' \<and> content s' = (content s)(q := content s q @ [c]))"

text \<open>A history of calls on many queues: the bytes accepted and the bytes delivered, per queue.\<close>

datatype cl_call = Getc nat | Putc byte nat

fun cl_history ::
  "(nat \<Rightarrow> 's \<Rightarrow> (int \<times> 's) option) \<Rightarrow> (byte \<Rightarrow> nat \<Rightarrow> 's \<Rightarrow> (int \<times> 's) option) \<Rightarrow> cl_call list \<Rightarrow> 's
    \<Rightarrow> ((nat \<Rightarrow> byte list) \<times> (nat \<Rightarrow> byte list) \<times> 's) option" where
  "cl_history getb putb [] s = Some (\<lambda>_. [], \<lambda>_. [], s)"
| "cl_history getb putb (Getc q # cs) s =
     (case getb q s of
        None \<Rightarrow> None
      | Some (r, s) \<Rightarrow> map_option (\<lambda>(i, ot, s).
          (i, if 0 \<le> r then ot(q := word_of_int r # ot q) else ot, s)) (cl_history getb putb cs s))"
| "cl_history getb putb (Putc c q # cs) s =
     (case putb c q s of
        None \<Rightarrow> None
      | Some (r, s) \<Rightarrow> map_option (\<lambda>(i, ot, s).
          (if r = 0 then i(q := c # i q) else i, ot, s)) (cl_history getb putb cs s))"

context byte_queues
begin

lemma history_fifo:
  "ok s \<Longrightarrow> \<exists>i ot s'. cl_history getb putb calls s = Some (i, ot, s') \<and> ok s' \<and>
     (\<forall>q. content s q @ i q = ot q @ content s' q)"
proof (induction calls arbitrary: s)
  case Nil then show ?case by simp
next
  case (Cons call calls)
  show ?case
  proof (cases call)
    case (Getc q)
    show ?thesis
    proof (cases "content s q")
      case Nil
      from Cons.IH [OF Cons.prems] get_empty [OF Cons.prems Nil] show ?thesis by (auto simp: Getc)
    next
      case (Cons c cs)
      from get_first [OF Cons.prems Cons] obtain t where
        t: "getb q s = Some (uint c, t)" "ok t" "content t = (content s)(q := cs)" by blast
      from Cons.IH [OF t(2)] obtain i ot s' where
        "cl_history getb putb calls t = Some (i, ot, s')" "ok s'" "\<forall>q. content t q @ i q = ot q @ content s' q"
        by blast
      moreover from this have "content s p @ i p = (ot(q := c # ot q)) p @ content s' p" for p
        using t(3) Cons by (cases "p = q") (auto dest: spec [of _ p])
      ultimately show ?thesis using t by (simp add: Getc)
    qed
  next
    case (Putc c q)
    from put_last [OF Cons.prems, of c q] show ?thesis
    proof (elim disjE exE conjE)
      assume "putb c q s = Some (- 1, s)"
      with Cons.IH [OF Cons.prems] show ?thesis by (auto simp: Putc)
    next
      fix t assume t: "putb c q s = Some (0, t)" "ok t" "content t = (content s)(q := content s q @ [c])"
      from Cons.IH [OF t(2)] obtain i ot s' where
        "cl_history getb putb calls t = Some (i, ot, s')" "ok s'" "\<forall>q. content t q @ i q = ot q @ content s' q"
        by blast
      with t show ?thesis by (auto simp: Putc split: if_splits)
    qed
  qed
qed

end

interpretation clq: byte_queues "cl_ok H" queue_bytes getc putc
proof
  fix s :: clstate and q c cs
  assume "cl_ok H s"
  then obtain fl bs where sh: "cl_shape H s fl bs" by (auto simp: cl_ok_def)
  show "queue_bytes s q = [] \<Longrightarrow> getc q s = Some (- 1, s)"
    using getc_empty [OF sh] shape_queue_bytes [OF sh] by simp
  show "queue_bytes s q = c # cs \<Longrightarrow>
      \<exists>s'. getc q s = Some (uint c, s') \<and> cl_ok H s' \<and> queue_bytes s' = (queue_bytes s)(q := cs)"
    using getc_shape [OF sh] shape_queue_bytes [OF sh] by (metis cl_okI)
  show "putc c q s = Some (- 1, s) \<or>
      (\<exists>s'. putc c q s = Some (0, s') \<and> cl_ok H s' \<and> queue_bytes s' = (queue_bytes s)(q := queue_bytes s q @ [c]))"
    using putc_shape [OF sh] by (cases "room s q = 0") blast+
qed

section \<open>Properties\<close>

text \<open>C38: on a well-formed pool any interleaving of \<open>getc\<close> and \<open>putc\<close> calls on any queues runs
  without touching memory outside the blocks, keeps the pool well-formed, and is first-in
  first-out on every queue: what was queued before, followed by what was accepted, is what
  was delivered, followed by what is queued after.\<close>

theorem clist_fifo:
  assumes "cl_ok H s"
  shows "\<exists>i ot s'. cl_history getc putc calls s = Some (i, ot, s') \<and> cl_ok H s' \<and>
     (\<forall>q. queue_bytes s q @ i q = ot q @ queue_bytes s' q)"
  by (rule clq.history_fifo [OF assms])

definition demo_pool :: clstate where
  "demo_pool = cinit \<lparr>v_clist = 3, cfree = (\<lambda>_. \<lparr>c_next = None, c_first = 0, c_last = 0,
       c_data = replicate 64 0\<rparr>), cfreelist = \<lparr>cf_next = None, cf_size = 0, cf_flag = False\<rparr>,
     clists = (\<lambda>_. \<lparr>c_cc = 0, c_cf = None, c_cl = None\<rparr>), cl_wakes = 0\<rparr>"

lemma demo_pool_ok: "cl_ok {} demo_pool"
  unfolding demo_pool_def by (rule cl_okI [OF cinit_shape]) (simp add: cl_boot_def CLSIZE_def)

lemma demo_pool_empty: "queue_bytes demo_pool q = []" "free_blocks demo_pool = [2, 1, 0]"
  "tail_room demo_pool q = 0"
  by (simp_all add: demo_pool_def cinit_def cpush_def upd_hd_def upd_cb_def queue_bytes_def
      free_blocks_def tail_room_def nx_def numeral_eq_Suc)

theorem clist_fifo_witness:
  "\<exists>i ot s'. cl_history getc putc [Putc 65 0, Putc 66 1, Getc 0, Getc 0] demo_pool = Some (i, ot, s') \<and>
     cl_ok {} s' \<and> (\<forall>q. i q = ot q @ queue_bytes s' q)"
  using clist_fifo [OF demo_pool_ok, of "[Putc 65 0, Putc 66 1, Getc 0, Getc 0]"]
  by (simp only: demo_pool_empty append_Nil)

text \<open>\<open>putc\<close> refuses a byte exactly when no free block is left and the last block of the
  queue is full; otherwise the byte is appended, the room shrinks by one and no other queue
  changes.\<close>

lemma putc_accepts:
  assumes "cl_ok H s"
  shows "if room s q = 0 then putc c q s = Some (- 1, s)
         else \<exists>s'. putc c q s = Some (0, s') \<and> cl_ok H s' \<and>
           queue_bytes s' = (queue_bytes s)(q := queue_bytes s q @ [c]) \<and> room s' q + 1 = room s q"
  using assms putc_shape [of H s _ _ q c] unfolding cl_ok_def by (metis (no_types, lifting) cl_ok_def gr0I)

text \<open>\<open>putcbp\<close> stores as many bytes as there is room for and returns that number, and
  \<open>getcbp\<close> delivers the first \<open>n\<close> bytes of a queue or all of them; both loops end.\<close>

lemma block_transfer:
  assumes "cl_ok H s"
  shows "\<exists>s' s''. putcbp q xs s = Some (min (length xs) (room s q), s') \<and> cl_ok H s' \<and>
           queue_bytes s' = (queue_bytes s)(q := queue_bytes s q @ take (room s q) xs) \<and>
         getcbp q n s = Some (take n (queue_bytes s q), s'') \<and> cl_ok H s'' \<and>
           queue_bytes s'' = (queue_bytes s)(q := drop n (queue_bytes s q))"
  using assms putcbp_shape [of H s _ _ q xs] getcbp_shape [of H s _ _ q n] by (auto simp: cl_ok_def)

text \<open>moving a block from one queue to another with \<open>getcb\<close> and \<open>putcb\<close> moves the bytes it
  holds from the front of the one to the end of the other and no byte besides; \<open>getcb\<close> finds no
  block only on an empty queue.\<close>

lemma block_moves:
  assumes "cl_ok H s" "p \<noteq> q"
  shows "if queue_bytes s q = [] then getcb q s = (None, s)
         else \<exists>b s1 s2 chunk rest. getcb q s = (Some b, s1) \<and> cl_ok (insert b H) s1 \<and>
           putcb b p s1 = (0, s2) \<and> cl_ok H s2 \<and> chunk \<noteq> [] \<and> queue_bytes s q = chunk @ rest \<and>
           queue_bytes s2 = (queue_bytes s)(q := rest, p := queue_bytes s p @ chunk)"
proof -
  from assms obtain fl bs where sh: "cl_shape H s fl bs" by (auto simp: cl_ok_def)
  note Q = shape_queue [OF sh, of q, unfolded q_shape_def]
  show ?thesis
  proof (cases "bs q")
    case Nil then show ?thesis using getcb_shape(1) [OF sh] shape_queue_bytes [OF sh] by simp
  next
    case (Cons b r)
    from getcb_shape(2) [OF sh Cons] obtain s1 where
      g: "getcb q s = (Some b, s1)" "b \<notin> H" "cl_ok (insert b H) s1" "cfree s1 b = cfree s b"
        "queue_bytes s q = blk_bytes (cfree s b) @ queue_bytes s1 q"
        "\<forall>p. p \<noteq> q \<longrightarrow> queue_bytes s1 p = queue_bytes s p" by blast
    have bp: "blk_ok (cfree s b)" using Q Cons by simp
    then have ne: "blk_bytes (cfree s b) \<noteq> []"
      using length_blk_bytes [of "cfree s b"] shape_sets(7) [OF sh] by (auto simp: blk_ok_def)
    from g(3) obtain fl' bs' where "cl_shape (insert b H) s1 fl' bs'" by (auto simp: cl_ok_def)
    from putcb_shape [OF this, of b p] bp g(2,4) obtain s2 where
      "putcb b p s1 = (0, s2)" "cl_ok H s2"
      "queue_bytes s2 = (queue_bytes s1)(p := queue_bytes s1 p @ blk_bytes (cfree s b))" by auto
    moreover have "(queue_bytes s1)(p := queue_bytes s1 p @ blk_bytes (cfree s b)) =
        (queue_bytes s)(q := queue_bytes s1 q, p := queue_bytes s p @ blk_bytes (cfree s b))"
      using g(6) assms(2) by (auto simp: fun_eq_iff)
    ultimately show ?thesis using g ne by auto
  qed
qed

definition demo_queue :: clstate where
  "demo_queue = snd (the (putc 65 0 demo_pool))"

text \<open>\<open>cinit\<close> makes a well-formed pool in which every block is free and every queue empty.\<close>

lemma cinit_pool:
  assumes "cl_boot s"
  shows "cl_ok {} (cinit s) \<and> queue_bytes (cinit s) q = [] \<and> room (cinit s) q = CLSIZE * v_clist s"
proof -
  note sh = cinit_shape [OF assms]
  have "tail_room (cinit s) q = 0" using shape_queue [OF sh, of q] by (simp add: q_shape_def tail_room_def)
  with sh show ?thesis
    by (simp add: cl_okI shape_queue_bytes [OF sh] shape_free_blocks [OF sh] room_def)
qed

end
