(* ===== verification/Lock_Table.thy ===== *)
theory Lock_Table
  imports Chain
begin

text \<open>
  The tables of record locking, \<open>os/flock.c\<close> and \<open>sys/flock.h\<close>: file identifiers, the doubly linked
  lists of locks that hang off them, the free lists, and the routines that move entries between
  them. \<open>Record_Lock\<close> holds the locking itself.
\<close>

section \<open>Data\<close>

definition F_RDLCK :: u16 where "F_RDLCK = 1"
definition F_WRLCK :: u16 where "F_WRLCK = 2"
definition F_UNLCK :: u16 where "F_UNLCK = 3"

record flock =
  l_type :: u16
  l_whence :: u16
  l_start :: u32
  l_len :: u32
  l_pid :: u16

text \<open>\<open>l_end\<close> is another name of the field \<open>l_len\<close>.\<close>

abbreviation l_end :: "flock \<Rightarrow> u32" where "l_end \<equiv> l_len"

text \<open>\<open>stat\<close> is the union of \<open>wakeflg\<close> and \<open>blkpid\<close>.\<close>

record filock =
  set_of :: flock
  stat :: u16
  f_prev :: "nat option"
  f_next :: "nat option"

record flino =
  fl_dev :: u16
  fl_number :: u16
  fl_refcnt :: u16
  fl_flck :: "nat option"
  i_prev :: "nat option"
  i_next :: "nat option"

text \<open>A pointer to a \<open>struct flino\<close>: an entry of \<open>flinotab\<close>, or \<open>sleeplcks\<close>.\<close>

datatype flref = Fid nat | Sleeplcks

record flckinfo =
  recs :: nat
  fils :: nat
  reccnt :: u32
  filcnt :: u32
  rectot :: u32
  filtot :: u32

record lkst =
  flox :: "nat \<Rightarrow> filock"
  flinos :: "flref \<Rightarrow> flino"
  frlock :: "nat option"
  frfid :: "nat option"
  fids :: "nat option"
  flckinfo :: flckinfo
  lk_wakes :: "nat list"

definition upd_lk :: "nat \<Rightarrow> (filock \<Rightarrow> filock) \<Rightarrow> lkst \<Rightarrow> lkst" where
  "upd_lk n f s = s\<lparr>flox := (flox s)(n := f (flox s n))\<rparr>"

definition upd_fl :: "flref \<Rightarrow> (flino \<Rightarrow> flino) \<Rightarrow> lkst \<Rightarrow> lkst" where
  "upd_fl r f s = s\<lparr>flinos := (flinos s)(r := f (flinos s r))\<rparr>"

definition upd_info :: "(flckinfo \<Rightarrow> flckinfo) \<Rightarrow> lkst \<Rightarrow> lkst" where
  "upd_info f s = s\<lparr>flckinfo := f (flckinfo s)\<rparr>"

text \<open>An assignment through a pointer that may be null.\<close>

definition opt_lk :: "nat option \<Rightarrow> (filock \<Rightarrow> filock) \<Rightarrow> lkst \<Rightarrow> lkst" where
  "opt_lk p f s = (case p of None \<Rightarrow> s | Some n \<Rightarrow> upd_lk n f s)"

definition opt_fl :: "nat option \<Rightarrow> (flino \<Rightarrow> flino) \<Rightarrow> lkst \<Rightarrow> lkst" where
  "opt_fl p f s = (case p of None \<Rightarrow> s | Some i \<Rightarrow> upd_fl (Fid i) f s)"

definition lk_next :: "lkst \<Rightarrow> nat \<Rightarrow> nat option" where
  "lk_next s = f_next \<circ> flox s"

definition id_next :: "lkst \<Rightarrow> nat \<Rightarrow> nat option" where
  "id_next s i = i_next (flinos s (Fid i))"

text \<open>What the routines read of a \<open>struct file\<close> and its inode.\<close>

record lfile =
  f_rd :: bool
  f_wr :: bool
  f_offset :: u32
  i_dev :: u16
  i_number :: u16
  i_size :: u32

section \<open>File identifiers\<close>

fun find_id :: "u16 \<Rightarrow> u16 \<Rightarrow> nat list \<Rightarrow> lkst \<Rightarrow> nat option \<times> lkst" where
  "find_id d n [] s = (None, s)"
| "find_id d n (i # is) s =
     (if fl_dev (flinos s (Fid i)) = d \<and> fl_number (flinos s (Fid i)) = n
      then (Some i, upd_fl (Fid i) (\<lambda>x. x\<lparr>fl_refcnt := fl_refcnt x + 1\<rparr>) s)
      else find_id d n is s)"

definition findfid :: "lfile \<Rightarrow> lkst \<Rightarrow> nat option \<times> lkst" where
  "findfid fp s = find_id (i_dev fp) (i_number fp) (walk (fils (flckinfo s)) (id_next s) (fids s)) s"

definition allocfid :: "lfile \<Rightarrow> lkst \<Rightarrow> nat option \<times> lkst" where
  "allocfid fp s =
     (case frfid s of
        None \<Rightarrow> (None, s)
      | Some i \<Rightarrow>
          (let s = upd_info (\<lambda>c. c\<lparr>filcnt := filcnt c + 1, filtot := filtot c + 1\<rparr>) s;
               s = s\<lparr>frfid := id_next s i\<rparr>;
               s = opt_fl (frfid s) (\<lambda>x. x\<lparr>i_prev := None\<rparr>) s;
               s = opt_fl (fids s) (\<lambda>x. x\<lparr>i_prev := Some i\<rparr>) s;
               s = upd_fl (Fid i) (\<lambda>x. x\<lparr>i_next := fids s\<rparr>) s;
               s = s\<lparr>fids := Some i\<rparr>
           in (Some i, upd_fl (Fid i) (\<lambda>x. x\<lparr>fl_refcnt := fl_refcnt x + 1, fl_dev := i_dev fp,
                                           fl_number := i_number fp\<rparr>) s)))"

definition freefid :: "nat \<Rightarrow> lkst \<Rightarrow> lkst" where
  "freefid i s =
     (let s = upd_fl (Fid i) (\<lambda>x. x\<lparr>fl_refcnt := fl_refcnt x - 1\<rparr>) s
      in if fl_refcnt (flinos s (Fid i)) \<le>s 0 \<and> fl_flck (flinos s (Fid i)) = None then
           (let s = upd_info (\<lambda>c. c\<lparr>filcnt := filcnt c - 1\<rparr>) s;
                p = i_prev (flinos s (Fid i));
                n = id_next s i;
                s = (case p of None \<Rightarrow> s\<lparr>fids := n\<rparr> | Some j \<Rightarrow> upd_fl (Fid j) (\<lambda>x. x\<lparr>i_next := n\<rparr>) s);
                s = opt_fl n (\<lambda>x. x\<lparr>i_prev := p\<rparr>) s;
                s = upd_fl (Fid i) (\<lambda>x. x\<lparr>fl_dev := 0, fl_number := 0, fl_refcnt := 0\<rparr>) s;
                s = opt_fl (frfid s) (\<lambda>x. x\<lparr>i_prev := Some i\<rparr>) s;
                s = upd_fl (Fid i) (\<lambda>x. x\<lparr>i_next := frfid s, i_prev := None\<rparr>) s
            in s\<lparr>frfid := Some i\<rparr>)
         else s)"

section \<open>Lock entries\<close>

text \<open>Putting an entry on the free list, in \<open>flckinit\<close> and \<open>delflck\<close>.\<close>

definition push_free :: "nat \<Rightarrow> lkst \<Rightarrow> lkst" where
  "push_free n s =
     (case frlock s of
        None \<Rightarrow> (upd_lk n (\<lambda>f. f\<lparr>f_next := None, f_prev := None\<rparr>) s)\<lparr>frlock := Some n\<rparr>
      | Some m \<Rightarrow> (upd_lk m (\<lambda>f. f\<lparr>f_prev := Some n\<rparr>) (upd_lk n (\<lambda>f. f\<lparr>f_next := Some m, f_prev := None\<rparr>) s))
                    \<lparr>frlock := Some n\<rparr>)"

definition flckinit :: "lkst \<Rightarrow> lkst" where
  "flckinit s =
     (let s = upd_info (\<lambda>c. c\<lparr>filcnt := 0\<rparr>) (foldl (\<lambda>s i. freefid i s) s [0..<fils (flckinfo s)])
      in upd_info (\<lambda>c. c\<lparr>reccnt := 0\<rparr>) (foldl (\<lambda>s n. push_free n s) s [0..<recs (flckinfo s)]))"

text \<open>The two halves of \<open>insflck\<close>: an entry leaves the free list and takes the data, and is linked
  behind \<open>fl\<close>, or at the head of the list when \<open>fl\<close> is null.\<close>

definition new_lock :: "u16 \<Rightarrow> flock \<Rightarrow> nat \<Rightarrow> lkst \<Rightarrow> lkst" where
  "new_lock me lckdat new s =
     (let s = upd_info (\<lambda>c. c\<lparr>reccnt := reccnt c + 1, rectot := rectot c + 1\<rparr>) s;
          s = s\<lparr>frlock := lk_next s new\<rparr>;
          s = opt_lk (frlock s) (\<lambda>f. f\<lparr>f_prev := None\<rparr>) s
      in upd_lk new (\<lambda>f. f\<lparr>set_of := lckdat\<lparr>l_pid := me\<rparr>, stat := 0\<rparr>) s)"

definition link_lock :: "flref \<Rightarrow> nat option \<Rightarrow> nat \<Rightarrow> lkst \<Rightarrow> lkst" where
  "link_lock flip fl new s =
     (let s = (case fl of
                 None \<Rightarrow>
                   (let h = fl_flck (flinos s flip);
                        s = upd_lk new (\<lambda>f. f\<lparr>f_next := h\<rparr>) s;
                        s = opt_lk h (\<lambda>f. f\<lparr>f_prev := Some new\<rparr>) s
                    in upd_fl flip (\<lambda>x. x\<lparr>fl_flck := Some new\<rparr>) s)
               | Some a \<Rightarrow>
                   (let h = lk_next s a;
                        s = upd_lk new (\<lambda>f. f\<lparr>f_next := h\<rparr>) s;
                        s = opt_lk h (\<lambda>f. f\<lparr>f_prev := Some new\<rparr>) s
                    in upd_lk a (\<lambda>f. f\<lparr>f_next := Some new\<rparr>) s))
      in upd_lk new (\<lambda>f. f\<lparr>f_prev := fl\<rparr>) s)"

definition insflck :: "u16 \<Rightarrow> flref \<Rightarrow> flock \<Rightarrow> nat option \<Rightarrow> lkst \<Rightarrow> nat option \<times> lkst" where
  "insflck me flip lckdat fl s =
     (case frlock s of
        None \<Rightarrow> (None, s)
      | Some new \<Rightarrow> (Some new, link_lock flip fl new (new_lock me lckdat new s)))"

text \<open>The macro \<open>WAKEUP\<close>.\<close>

definition wake_lk :: "nat \<Rightarrow> lkst \<Rightarrow> lkst" where
  "wake_lk n s = (if stat (flox s n) \<noteq> 0
     then (upd_lk n (\<lambda>f. f\<lparr>stat := 0\<rparr>) s)\<lparr>lk_wakes := lk_wakes s @ [n]\<rparr> else s)"

definition delflck :: "flref \<Rightarrow> nat \<Rightarrow> lkst \<Rightarrow> lkst" where
  "delflck flip fl s =
     (let p = f_prev (flox s fl);
          n = f_next (flox s fl);
          s = (case p of None \<Rightarrow> upd_fl flip (\<lambda>x. x\<lparr>fl_flck := n\<rparr>) s
                       | Some a \<Rightarrow> upd_lk a (\<lambda>f. f\<lparr>f_next := n\<rparr>) s);
          s = opt_lk n (\<lambda>f. f\<lparr>f_prev := p\<rparr>) s;
          s = wake_lk fl s;
          s = upd_info (\<lambda>c. c\<lparr>reccnt := reccnt c - 1\<rparr>) s
      in push_free fl s)"

section \<open>Lists and the invariant\<close>

text \<open>The backward pointers of a list whose first element has the predecessor \<open>q\<close>.\<close>

primrec backs :: "(nat \<Rightarrow> nat option) \<Rightarrow> nat option \<Rightarrow> nat list \<Rightarrow> bool" where
  "backs pv q [] \<longleftrightarrow> True"
| "backs pv q (x # xs) \<longleftrightarrow> pv x = q \<and> backs pv (Some x) xs"

definition lk_prev :: "lkst \<Rightarrow> nat \<Rightarrow> nat option" where
  "lk_prev s = f_prev \<circ> flox s"

definition lk_list :: "lkst \<Rightarrow> flref \<Rightarrow> nat list \<Rightarrow> bool" where
  "lk_list s r xs \<longleftrightarrow> chain (lk_next s) (fl_flck (flinos s r)) xs \<and> backs (lk_prev s) None xs"

text \<open>\<open>fr\<close> are the free entries and \<open>ls r\<close> those of one list; every entry is in one place.\<close>

definition lk_shape :: "lkst \<Rightarrow> nat list \<Rightarrow> (flref \<Rightarrow> nat list) \<Rightarrow> bool" where
  "lk_shape s fr ls \<longleftrightarrow>
     chain (lk_next s) (frlock s) fr \<and> (\<forall>r. lk_list s r (ls r)) \<and>
     set fr \<union> (\<Union>r. set (ls r)) = {..<recs (flckinfo s)} \<and> (\<forall>r. set fr \<inter> set (ls r) = {}) \<and>
     (\<forall>p r. p \<noteq> r \<longrightarrow> set (ls p) \<inter> set (ls r) = {})"

definition before :: "nat list \<Rightarrow> nat option" where
  "before xs = (if xs = [] then None else Some (last xs))"


named_theorems lk_simps \<open>fields of an updated lock state\<close>

lemma upd_lk_fields [lk_simps]:
  "flox (upd_lk n f s) = (flox s)(n := f (flox s n))" "flinos (upd_lk n f s) = flinos s" "frlock (upd_lk n f s) = frlock s"
  "frfid (upd_lk n f s) = frfid s" "fids (upd_lk n f s) = fids s" "flckinfo (upd_lk n f s) = flckinfo s"
  by (simp_all add: upd_lk_def)

lemma upd_fl_fields [lk_simps]:
  "flox (upd_fl r g s) = flox s" "flinos (upd_fl r g s) = (flinos s)(r := g (flinos s r))" "frlock (upd_fl r g s) = frlock s"
  "frfid (upd_fl r g s) = frfid s" "fids (upd_fl r g s) = fids s" "flckinfo (upd_fl r g s) = flckinfo s"
  by (simp_all add: upd_fl_def)

lemma upd_info_fields [lk_simps]:
  "flox (upd_info h s) = flox s" "flinos (upd_info h s) = flinos s" "frlock (upd_info h s) = frlock s"
  "frfid (upd_info h s) = frfid s" "fids (upd_info h s) = fids s" "flckinfo (upd_info h s) = h (flckinfo s)"
  by (simp_all add: upd_info_def)

lemma flox_opt_lk: "flox (opt_lk p f s) = (case p of None \<Rightarrow> flox s | Some n \<Rightarrow> (flox s)(n := f (flox s n)))"
  by (simp add: opt_lk_def lk_simps split: option.split)

lemma opt_lk_fields [lk_simps]:
  "flinos (opt_lk p f s) = flinos s" "frlock (opt_lk p f s) = frlock s"
  "frfid (opt_lk p f s) = frfid s" "fids (opt_lk p f s) = fids s" "flckinfo (opt_lk p f s) = flckinfo s"
  by (simp_all add: opt_lk_def lk_simps split: option.split)

lemma wake_lk_fields [lk_simps]:
  "flox (wake_lk n s) = (flox s)(n := (flox s n)\<lparr>stat := 0\<rparr>)"
  "flinos (wake_lk n s) = flinos s" "frlock (wake_lk n s) = frlock s"
  "frfid (wake_lk n s) = frfid s" "fids (wake_lk n s) = fids s" "flckinfo (wake_lk n s) = flckinfo s"
  by (auto simp: wake_lk_def lk_simps)

lemma push_free_fields [lk_simps]:
  "flinos (push_free n s) = flinos s" "frlock (push_free n s) = Some n"
  "frfid (push_free n s) = frfid s" "fids (push_free n s) = fids s" "flckinfo (push_free n s) = flckinfo s"
  "flox (push_free n s) = (let t = (flox s)(n := (flox s n)\<lparr>f_next := frlock s, f_prev := None\<rparr>)
     in case frlock s of None \<Rightarrow> t | Some m \<Rightarrow> t(m := (t m)\<lparr>f_prev := Some n\<rparr>))"
  by (auto simp: push_free_def lk_simps Let_def split: option.split)

lemma backs_upd [simp]: "x \<notin> set xs \<Longrightarrow> backs (pv(x := v)) q xs \<longleftrightarrow> backs pv q xs"
  by (induction xs arbitrary: q) auto

lemma backs_cong: "(\<And>x. x \<in> set xs \<Longrightarrow> pv x = pv' x) \<Longrightarrow> backs pv q xs \<longleftrightarrow> backs pv' q xs"
  by (induction xs arbitrary: q) auto

lemma backs_append: "backs pv q (xs @ ys) \<longleftrightarrow> backs pv q xs \<and> backs pv (if xs = [] then q else Some (last xs)) ys"
  by (induction xs arbitrary: q) auto

lemma before_simps [simp]: "before [] = None" "before (xs @ [x]) = Some x" "before xs = None \<longleftrightarrow> xs = []"
  by (simp_all add: before_def)

lemma lk_shapeD:
  assumes "lk_shape s fr ls"
  shows "chain (lk_next s) (frlock s) fr" "lk_list s r (ls r)" "set fr \<union> (\<Union>r. set (ls r)) = {..<recs (flckinfo s)}"
    "set fr \<inter> set (ls r) = {}" "p \<noteq> r \<Longrightarrow> set (ls p) \<inter> set (ls r) = {}" "distinct (ls r)" "distinct fr"
    "set (ls r) \<subseteq> {..<recs (flckinfo s)}"
  using assms by (auto simp: lk_shape_def lk_list_def intro: chain_distinct)

lemma lk_list_cong:
  assumes "\<And>n. n \<in> set xs \<Longrightarrow> lk_next t n = lk_next s n \<and> lk_prev t n = lk_prev s n" "fl_flck (flinos t r) = fl_flck (flinos s r)"
  shows "lk_list t r xs \<longleftrightarrow> lk_list s r xs"
proof -
  have "chain (lk_next t) p xs \<longleftrightarrow> chain (lk_next s) p xs" for p by (rule path_cong) (simp add: assms(1))
  moreover have "backs (lk_prev t) q xs \<longleftrightarrow> backs (lk_prev s) q xs" for q by (rule backs_cong) (simp add: assms(1))
  ultimately show ?thesis by (simp add: lk_list_def assms(2))
qed

text \<open>Every routine moves entries between the free list and one lock list.\<close>

lemma lk_step:
  assumes sh: "lk_shape s fr ls"
    and "chain (lk_next t) (frlock t) fr'" "lk_list t r xs" "set fr' \<union> set xs = set fr \<union> set (ls r)" "set fr' \<inter> set xs = {}"
    and same: "\<And>n. n \<notin> set fr \<union> set (ls r) \<Longrightarrow> lk_next t n = lk_next s n \<and> lk_prev t n = lk_prev s n"
      "\<And>p. p \<noteq> r \<Longrightarrow> fl_flck (flinos t p) = fl_flck (flinos s p)" "recs (flckinfo t) = recs (flckinfo s)"
  shows "lk_shape t fr' (ls(r := xs))"
proof -
  note S = lk_shapeD [OF sh]
  have out: "n \<notin> set fr \<union> set (ls r)" if "n \<in> set (ls p)" "p \<noteq> r" for n p
    using that S(4) [of p] S(5) [of p r] by blast
  have 1: "lk_list t p ((ls(r := xs)) p)" for p
    using assms(3) lk_list_cong [of "ls p" t s p] S(2) [of p] out [of _ p] same by auto
  have 2: "set fr' \<inter> set ((ls(r := xs)) p) = {}" for p
    using assms(4,5) out [of _ p] by (cases "p = r") auto
  have 3: "set ((ls(r := xs)) p) \<inter> set ((ls(r := xs)) q) = {}" if "p \<noteq> q" for p q
    using out [of _ p] out [of _ q] assms(4) S(5) [OF that] that by (cases "p = r"; cases "q = r") auto
  have "(\<Union>p. set ((ls(r := xs)) p)) = set xs \<union> (\<Union>p \<in> - {r}. set (ls p))" by (auto split: if_splits)
  moreover have "(\<Union>p. set (ls p)) = set (ls r) \<union> (\<Union>p \<in> - {r}. set (ls p))" by blast
  ultimately have 4: "set fr' \<union> (\<Union>p. set ((ls(r := xs)) p)) = {..<recs (flckinfo t)}"
    using assms(4) S(3) same(3) by (metis sup_assoc)
  show ?thesis unfolding lk_shape_def using assms(2) 1 2 3 4 by blast
qed


lemma lk_ptr_fields [lk_simps]:
  "lk_next (upd_lk n f s) = (lk_next s)(n := f_next (f (flox s n)))" "lk_prev (upd_lk n f s) = (lk_prev s)(n := f_prev (f (flox s n)))"
  "lk_next (upd_fl r g s) = lk_next s" "lk_prev (upd_fl r g s) = lk_prev s"
  "lk_next (upd_info h s) = lk_next s" "lk_prev (upd_info h s) = lk_prev s"
  "lk_next (opt_lk p (\<lambda>f. f\<lparr>f_prev := v\<rparr>) s) = lk_next s"
  "lk_prev (opt_lk p (\<lambda>f. f\<lparr>f_prev := v\<rparr>) s) = (case p of None \<Rightarrow> lk_prev s | Some m \<Rightarrow> (lk_prev s)(m := v))"
  "lk_next (wake_lk n s) = lk_next s" "lk_prev (wake_lk n s) = lk_prev s"
  "f_next (flox (opt_lk p (\<lambda>f. f\<lparr>f_prev := v\<rparr>) s) k) = f_next (flox s k)"
  "lk_next (s\<lparr>frlock := x\<rparr>) = lk_next s" "lk_prev (s\<lparr>frlock := x\<rparr>) = lk_prev s"
  by (auto simp: lk_next_def lk_prev_def lk_simps flox_opt_lk split: option.split)

lemma lk_ptr_push [lk_simps]:
  "lk_next (push_free n s) = (lk_next s)(n := frlock s)"
  "lk_prev (push_free n s) = (case frlock s of None \<Rightarrow> (lk_prev s)(n := None) | Some m \<Rightarrow> (lk_prev s)(n := None, m := Some n))"
  by (auto simp: lk_next_def lk_prev_def lk_simps Let_def split: option.split)

lemma lk_next_eq: "f_next (flox s n) = lk_next s n" and lk_prev_eq: "f_prev (flox s n) = lk_prev s n"
  by (simp_all add: lk_next_def lk_prev_def)

text \<open>The data of the entries, and what the file identifiers hold but their lists.\<close>

definition same_ids :: "lkst \<Rightarrow> lkst \<Rightarrow> bool" where
  "same_ids s t \<longleftrightarrow> fids t = fids s \<and> frfid t = frfid s \<and> fils (flckinfo t) = fils (flckinfo s) \<and>
     recs (flckinfo t) = recs (flckinfo s) \<and> (\<forall>r. flinos t r = (flinos s r)\<lparr>fl_flck := fl_flck (flinos t r)\<rparr>)"

lemma same_ids_refl [simp]: "same_ids s s"
  by (simp add: same_ids_def)

lemma same_ids_trans: "same_ids s t \<Longrightarrow> same_ids t u \<Longrightarrow> same_ids s u"
proof -
  have e: "x = y\<lparr>fl_flck := a\<rparr> \<Longrightarrow> z = x\<lparr>fl_flck := b\<rparr> \<Longrightarrow> z = y\<lparr>fl_flck := b\<rparr>" for x y z :: flino and a b by simp
  show "same_ids s t \<Longrightarrow> same_ids t u \<Longrightarrow> same_ids s u" using e unfolding same_ids_def by metis
qed

lemma insflck_none: "frlock s = None \<Longrightarrow> insflck me r d fl s = (None, s)"
  by (simp add: insflck_def)

lemma opt_lk_data [lk_simps]:
  "set_of (flox (opt_lk p (\<lambda>f. f\<lparr>f_prev := v\<rparr>) s) m) = set_of (flox s m)"
  "stat (flox (opt_lk p (\<lambda>f. f\<lparr>f_prev := v\<rparr>) s) m) = stat (flox s m)"
  "lk_wakes (opt_lk p g s) = lk_wakes s" "lk_wakes (upd_lk n f s) = lk_wakes s" "lk_wakes (upd_fl r k s) = lk_wakes s"
  "lk_wakes (upd_info c s) = lk_wakes s"
  by (auto simp: opt_lk_def upd_lk_def upd_fl_def upd_info_def split: option.split)

lemma new_lock_fields:
  "lk_next (new_lock me d n s) = lk_next s" "frlock (new_lock me d n s) = lk_next s n" "flinos (new_lock me d n s) = flinos s"
  "lk_prev (new_lock me d n s) = (case lk_next s n of None \<Rightarrow> lk_prev s | Some m \<Rightarrow> (lk_prev s)(m := None))"
  "set_of (flox (new_lock me d n s) m) = (if m = n then d\<lparr>l_pid := me\<rparr> else set_of (flox s m))"
  "stat (flox (new_lock me d n s) m) = (if m = n then 0 else stat (flox s m))"
  "fids (new_lock me d n s) = fids s" "frfid (new_lock me d n s) = frfid s" "lk_wakes (new_lock me d n s) = lk_wakes s"
  "recs (flckinfo (new_lock me d n s)) = recs (flckinfo s)" "fils (flckinfo (new_lock me d n s)) = fils (flckinfo s)"
  by (cases "lk_next s n"; simp add: new_lock_def lk_simps Let_def; auto simp: lk_next_eq lk_prev_eq fun_eq_iff)+

lemma link_lock_fields:
  "a \<noteq> n \<Longrightarrow> lk_next (link_lock r (Some a) n s) = (lk_next s)(n := lk_next s a, a := Some n)"
  "lk_next (link_lock r None n s) = (lk_next s)(n := fl_flck (flinos s r))"
  "lk_prev (link_lock r (Some a) n s) = (case lk_next s a of None \<Rightarrow> lk_prev s | Some m \<Rightarrow> (lk_prev s)(m := Some n))(n := Some a)"
  "lk_prev (link_lock r None n s) = (case fl_flck (flinos s r) of None \<Rightarrow> lk_prev s | Some m \<Rightarrow> (lk_prev s)(m := Some n))(n := None)"
proof -
  show "a \<noteq> n \<Longrightarrow> lk_next (link_lock r (Some a) n s) = (lk_next s)(n := lk_next s a, a := Some n)"
    by (simp add: link_lock_def lk_simps Let_def lk_next_eq fun_eq_iff)
  show "lk_next (link_lock r None n s) = (lk_next s)(n := fl_flck (flinos s r))"
    by (simp add: link_lock_def lk_simps Let_def lk_next_eq fun_eq_iff)
  show "lk_prev (link_lock r (Some a) n s) = (case lk_next s a of None \<Rightarrow> lk_prev s | Some m \<Rightarrow> (lk_prev s)(m := Some n))(n := Some a)"
    by (cases "lk_next s a") (auto simp: link_lock_def lk_simps lk_next_eq lk_prev_eq Let_def fun_eq_iff)
  show "lk_prev (link_lock r None n s) = (case fl_flck (flinos s r) of None \<Rightarrow> lk_prev s | Some m \<Rightarrow> (lk_prev s)(m := Some n))(n := None)"
    by (cases "fl_flck (flinos s r)") (auto simp: link_lock_def lk_simps lk_next_eq lk_prev_eq Let_def fun_eq_iff)
qed

lemma link_lock_rest:
  "frlock (link_lock r fl n s) = frlock s"
  "flinos (link_lock r fl n s) = (if fl = None then (flinos s)(r := (flinos s r)\<lparr>fl_flck := Some n\<rparr>) else flinos s)"
  "set_of (flox (link_lock r fl n s) m) = set_of (flox s m)" "stat (flox (link_lock r fl n s) m) = stat (flox s m)"
  "fids (link_lock r fl n s) = fids s" "frfid (link_lock r fl n s) = frfid s" "lk_wakes (link_lock r fl n s) = lk_wakes s"
  "flckinfo (link_lock r fl n s) = flckinfo s"
  by (cases fl; auto simp: link_lock_def lk_simps Let_def)+

lemma insflck_ok:
  assumes sh: "lk_shape s (n # fr) ls" and r: "ls r = us @ vs" and fl: "fl = before us"
  shows "\<exists>t. insflck me r d fl s = (Some n, t) \<and> lk_shape t fr (ls(r := us @ n # vs)) \<and> same_ids s t \<and>
     set_of (flox t n) = d\<lparr>l_pid := me\<rparr> \<and> stat (flox t n) = 0 \<and>
     (\<forall>m. m \<noteq> n \<longrightarrow> set_of (flox t m) = set_of (flox s m) \<and> stat (flox t m) = stat (flox s m)) \<and> lk_wakes t = lk_wakes s"
proof -
  note S = lk_shapeD [OF sh]
  have f: "frlock s = Some n" using S(1) by simp
  define h where "h = (if us = [] then fl_flck (flinos s r) else lk_next s (last us))"
  have c: "chain (lk_next s) (fl_flck (flinos s r)) (us @ vs)" "backs (lk_prev s) None (us @ vs)"
    using S(2) [of r] r by (auto simp: lk_list_def)
  have h: "chain (lk_next s) h vs" using c(1) by (cases us rule: rev_cases) (auto simp: h_def path_append)
  then have hv: "h = (case vs of [] \<Rightarrow> None | v # _ \<Rightarrow> Some v)" by (cases vs) auto
  have d: "n \<notin> set fr" "n \<notin> set us" "n \<notin> set vs" "distinct (us @ vs)" "set fr \<inter> set us = {}" "set fr \<inter> set vs = {}"
    using S(4) [of r] S(6) [of r] S(7) r by auto
  have ln: "us \<noteq> [] \<Longrightarrow> last us \<noteq> n" "us \<noteq> [] \<Longrightarrow> last us \<notin> set vs" using d(2,4) by (metis last_in_set, metis disjoint_iff distinct_append last_in_set)
  define s1 where "s1 = new_lock me d n s"
  define t where "t = link_lock r fl n s1"
  have t: "insflck me r d fl s = (Some n, t)" by (simp add: insflck_def f t_def s1_def)
  have S1: "lk_next s1 = lk_next s" "frlock s1 = lk_next s n" "flinos s1 = flinos s"
    "lk_prev s1 = (case lk_next s n of None \<Rightarrow> lk_prev s | Some m \<Rightarrow> (lk_prev s)(m := None))"
    "set_of (flox s1 m) = (if m = n then d\<lparr>l_pid := me\<rparr> else set_of (flox s m))"
    "stat (flox s1 m) = (if m = n then 0 else stat (flox s m))" for m
    by (auto simp: s1_def new_lock_fields)
  have T: "lk_next t = (if us = [] then (lk_next s)(n := h) else (lk_next s)(n := h, last us := Some n))"
    "lk_prev t = (case h of None \<Rightarrow> lk_prev s1 | Some m \<Rightarrow> (lk_prev s1)(m := Some n))(n := fl)"
    "frlock t = lk_next s n" "fl_flck (flinos t p) = (if us = [] \<and> p = r then Some n else fl_flck (flinos s p))" for p
    using d(2) ln by (auto simp: t_def link_lock_fields link_lock_rest fl before_def S1 h_def)
  have q: "lk_list t r (us @ n # vs)"
    unfolding lk_list_def
  proof
    have nv: "chain (lk_next t) h vs" using h d ln by (auto simp: T)
    show "chain (lk_next t) (fl_flck (flinos t r)) (us @ n # vs)"
    proof (cases us rule: rev_cases)
      case Nil then show ?thesis using nv by (simp add: T)
    next
      case (snoc ws w)
      with c(1) have "path (lk_next s) (fl_flck (flinos s r)) ws (Some w)" by (auto simp: path_append)
      with d snoc nv show ?thesis by (auto simp: path_append T)
    qed
    have pn: "lk_prev t n = fl" by (simp add: T S1)
    have old: "lk_prev t x = lk_prev s x" if "x \<in> set us \<or> x \<in> set (tl vs)" for x
    proof -
      have nh: "lk_next s n = Some y \<Longrightarrow> y \<in> set fr" for y using S(1) by (cases fr) auto
      have "h = Some y \<Longrightarrow> y \<noteq> x" for y using that d hv by (cases vs) auto
      moreover have "lk_next s n \<noteq> Some x" using nh that d by (cases vs) auto
      moreover have "x \<noteq> n" using that d by (cases vs) auto
      ultimately show ?thesis by (auto simp: T S1 split: option.split)
    qed
    have "backs (lk_prev t) None us" using c(2) backs_cong [of us "lk_prev t" "lk_prev s"] old by (simp add: backs_append)
    moreover have "backs (lk_prev t) (Some n) vs"
    proof (cases vs)
      case (Cons v ws)
      have "backs (lk_prev s) (Some v) ws" using c(2) Cons by (simp add: backs_append)
      then have "backs (lk_prev t) (Some v) ws" using backs_cong [of ws "lk_prev t" "lk_prev s"] old Cons by simp
      moreover have "v \<noteq> n" using d Cons by auto
      then have "lk_prev t v = Some n" using hv Cons by (simp add: T S1)
      ultimately show ?thesis by (simp add: Cons)
    qed simp
    ultimately show "backs (lk_prev t) None (us @ n # vs)" by (simp add: backs_append pn fl before_def)
  qed
  have "lk_shape t fr (ls(r := us @ n # vs))"
  proof (rule lk_step [OF sh _ q])
    have "us \<noteq> [] \<Longrightarrow> last us \<notin> set fr" using d last_in_set [of us] by auto
    then show "chain (lk_next t) (frlock t) fr" using S(1) d by (auto simp: T)
    show "set fr \<union> set (us @ n # vs) = set (n # fr) \<union> set (ls r)" "set fr \<inter> set (us @ n # vs) = {}" using d r by auto
    show "fl_flck (flinos t p) = fl_flck (flinos s p)" if "p \<noteq> r" for p using that by (simp add: T)
    show "recs (flckinfo t) = recs (flckinfo s)"
      by (simp add: t_def s1_def link_lock_rest new_lock_fields)
    show "lk_next t x = lk_next s x \<and> lk_prev t x = lk_prev s x" if "x \<notin> set (n # fr) \<union> set (ls r)" for x
    proof -
      have x: "x \<noteq> n" "x \<notin> set fr" "x \<notin> set us" "x \<notin> set vs" using that r by auto
      have 1: "lk_next s n \<noteq> Some x" using S(1) x(2) by (cases fr) auto
      have 2: "h \<noteq> Some x" using hv x(4) by (cases vs) auto
      have 3: "us \<noteq> [] \<Longrightarrow> last us \<noteq> x" using x(3) by (metis last_in_set)
      have "lk_next t x = lk_next s x" using x(1) 3 by (cases "us = []") (simp_all add: T(1) fun_upd_other)
      moreover have "lk_prev s1 x = lk_prev s x" using 1 by (cases "lk_next s n") (auto simp: S1(4))
      then have "lk_prev t x = lk_prev s x" using x(1) 2 by (cases h) (auto simp: T(2))
      ultimately show ?thesis ..
    qed
  qed
  moreover have "same_ids s t" "lk_wakes t = lk_wakes s"
    by (simp_all add: same_ids_def t_def s1_def link_lock_rest new_lock_fields)
  moreover have "set_of (flox t m) = (if m = n then d\<lparr>l_pid := me\<rparr> else set_of (flox s m))"
    "stat (flox t m) = (if m = n then 0 else stat (flox s m))" for m
    by (simp_all add: t_def link_lock_rest S1)
  ultimately show ?thesis using t by simp
qed


lemma delflck_fields:
  assumes "lk_prev s n \<noteq> Some n" "lk_next s n \<noteq> Some n" "frlock s \<noteq> Some n"
  shows "lk_next (delflck r n s) = (case lk_prev s n of None \<Rightarrow> lk_next s | Some a \<Rightarrow> (lk_next s)(a := lk_next s n))(n := frlock s)"
    "k \<noteq> n \<Longrightarrow> frlock s \<noteq> Some k \<Longrightarrow> lk_prev (delflck r n s) k = (if lk_next s n = Some k then lk_prev s n else lk_prev s k)"
    "frlock (delflck r n s) = Some n" "fl_flck (flinos (delflck r n s) p) =
       (if p = r \<and> lk_prev s n = None then lk_next s n else fl_flck (flinos s p))"
    "set_of (flox (delflck r n s) k) = set_of (flox s k)"
    "stat (flox (delflck r n s) k) = (if k = n then 0 else stat (flox s k))"
    "fids (delflck r n s) = fids s" "frfid (delflck r n s) = frfid s" "recs (flckinfo (delflck r n s)) = recs (flckinfo s)"
    "fils (flckinfo (delflck r n s)) = fils (flckinfo s)" "flinos (delflck r n s) p = (flinos s p)\<lparr>fl_flck := fl_flck (flinos (delflck r n s) p)\<rparr>"
proof -
  have w: "frlock (wake_lk n (opt_lk x f (upd_fl r g s))) = frlock s" "frlock (wake_lk n (opt_lk x f (upd_lk a h s))) = frlock s"
    for x f g a h by (simp_all add: lk_simps)
  show "lk_next (delflck r n s) = (case lk_prev s n of None \<Rightarrow> lk_next s | Some a \<Rightarrow> (lk_next s)(a := lk_next s n))(n := frlock s)"
    using assms by (cases "lk_prev s n") (simp_all add: delflck_def lk_simps Let_def lk_next_eq lk_prev_eq)
  show "k \<noteq> n \<Longrightarrow> frlock s \<noteq> Some k \<Longrightarrow> lk_prev (delflck r n s) k = (if lk_next s n = Some k then lk_prev s n else lk_prev s k)"
  proof -
    assume k: "k \<noteq> n" "frlock s \<noteq> Some k"
    have push: "frlock u \<noteq> Some k \<Longrightarrow> lk_prev (push_free n u) k = lk_prev u k" for u
      using k(1) by (simp add: lk_ptr_push split: option.split)
    show ?thesis
    proof (cases "lk_prev s n")
      case None
      then show ?thesis using k unfolding delflck_def Let_def
        by (subst push) (simp_all add: lk_simps lk_next_eq lk_prev_eq split: option.split)
    next
      case (Some a)
      then show ?thesis using k unfolding delflck_def Let_def
        by (subst push) (simp_all add: lk_simps lk_next_eq lk_prev_eq split: option.split)
    qed
  qed
  show "frlock (delflck r n s) = Some n" "fids (delflck r n s) = fids s" "frfid (delflck r n s) = frfid s"
    "recs (flckinfo (delflck r n s)) = recs (flckinfo s)" "fils (flckinfo (delflck r n s)) = fils (flckinfo s)"
    by (cases "lk_prev s n"; simp add: delflck_def lk_simps Let_def lk_next_eq lk_prev_eq)+
  show "fl_flck (flinos (delflck r n s) p) = (if p = r \<and> lk_prev s n = None then lk_next s n else fl_flck (flinos s p))"
    "flinos (delflck r n s) p = (flinos s p)\<lparr>fl_flck := fl_flck (flinos (delflck r n s) p)\<rparr>"
    by (cases "lk_prev s n"; simp add: delflck_def lk_simps Let_def lk_next_eq lk_prev_eq)+
  have pf: "set_of (flox (push_free n u) k) = set_of (flox u k)" "stat (flox (push_free n u) k) = stat (flox u k)" for u
    by (auto simp: push_free_def lk_simps split: option.split)
  show "set_of (flox (delflck r n s) k) = set_of (flox s k)" "stat (flox (delflck r n s) k) = (if k = n then 0 else stat (flox s k))"
    unfolding delflck_def Let_def pf
    by (cases "lk_prev s n"; simp add: wake_lk_fields(1) upd_lk_fields(1) upd_fl_fields(1) upd_info_fields(1) opt_lk_data lk_prev_eq; fail)+
qed

lemma delflck_ok:
  assumes sh: "lk_shape s fr ls" and r: "ls r = us @ n # vs"
  defines "t \<equiv> delflck r n s"
  shows "lk_shape t (n # fr) (ls(r := us @ vs))" "same_ids s t" "set_of (flox t m) = set_of (flox s m)"
    "stat (flox t m) = (if m = n then 0 else stat (flox s m))"
proof -
  note S = lk_shapeD [OF sh]
  have d: "n \<notin> set fr" "n \<notin> set us" "n \<notin> set vs" "distinct (us @ vs)" "set fr \<inter> set us = {}" "set fr \<inter> set vs = {}"
    using S(4) [of r] S(6) [of r] S(7) r by auto
  have c: "chain (lk_next s) (fl_flck (flinos s r)) (us @ n # vs)" "backs (lk_prev s) None (us @ n # vs)"
    using S(2) [of r] r by (auto simp: lk_list_def)
  have pn: "lk_prev s n = before us" using c(2) by (simp add: backs_append before_def)
  have nn: "chain (lk_next s) (lk_next s n) vs" using c(1) by (auto simp: path_append)
  then have nv: "lk_next s n = (case vs of [] \<Rightarrow> None | v # _ \<Rightarrow> Some v)" by (cases vs) auto
  have lu: "us \<noteq> [] \<Longrightarrow> last us \<in> set us" by simp
  have fh: "frlock s = Some y \<Longrightarrow> y \<in> set fr" for y using S(1) by (cases fr) auto
  have ne: "lk_prev s n \<noteq> Some n" "lk_next s n \<noteq> Some n" "frlock s \<noteq> Some n"
    using pn nv d fh lu by (auto simp: before_def split: list.splits)
  note D = delflck_fields [OF ne, where r = r, folded t_def]
  have N: "lk_next t = (if us = [] then lk_next s else (lk_next s)(last us := lk_next s n))(n := frlock s)"
    by (simp add: D(1) pn before_def)
  have q: "lk_list t r (us @ vs)"
    unfolding lk_list_def
  proof
    show "chain (lk_next t) (fl_flck (flinos t r)) (us @ vs)"
      using chain_unlink [OF c(1)] c(1) d by (cases "us = []") (auto simp: N D(4) pn before_def)
    have old: "lk_prev t x = lk_prev s x" if "x \<in> set us \<or> x \<in> set (tl vs)" for x
    proof -
      have "x \<noteq> n" "frlock s \<noteq> Some x" using that d fh by (cases vs; auto)+
      moreover have "lk_next s n \<noteq> Some x" using that d nv by (cases vs) auto
      ultimately show ?thesis by (simp add: D(2))
    qed
    have "backs (lk_prev t) None us" using c(2) backs_cong [of us "lk_prev t" "lk_prev s"] old by (simp add: backs_append)
    moreover have "backs (lk_prev t) (before us) vs"
    proof (cases vs)
      case (Cons v ws)
      have "backs (lk_prev s) (Some v) ws" using c(2) Cons by (simp add: backs_append)
      then have "backs (lk_prev t) (Some v) ws" using backs_cong [of ws "lk_prev t" "lk_prev s"] old Cons by simp
      moreover have "v \<noteq> n" "frlock s \<noteq> Some v" using d Cons fh by auto
      then have "lk_prev t v = before us" using nv Cons pn by (simp add: D(2))
      ultimately show ?thesis by (simp add: Cons)
    qed simp
    ultimately show "backs (lk_prev t) None (us @ vs)" by (simp add: backs_append before_def)
  qed
  show "lk_shape t (n # fr) (ls(r := us @ vs))"
  proof (rule lk_step [OF sh _ q])
    have "us \<noteq> [] \<Longrightarrow> last us \<notin> set fr" using d lu by auto
    then show "chain (lk_next t) (frlock t) (n # fr)" using S(1) d by (auto simp: N D(3))
    show "set (n # fr) \<union> set (us @ vs) = set fr \<union> set (ls r)" "set (n # fr) \<inter> set (us @ vs) = {}" using d r by auto
    show "fl_flck (flinos t p) = fl_flck (flinos s p)" if "p \<noteq> r" for p using that by (simp add: D(4))
    show "recs (flckinfo t) = recs (flckinfo s)" by (rule D(9))
    show "lk_next t x = lk_next s x \<and> lk_prev t x = lk_prev s x" if "x \<notin> set fr \<union> set (ls r)" for x
    proof -
      have "x \<noteq> n" "frlock s \<noteq> Some x" "us \<noteq> [] \<Longrightarrow> last us \<noteq> x" using that r fh lu by auto
      moreover have "lk_next s n \<noteq> Some x" using that r nv by (cases vs) auto
      ultimately show ?thesis by (auto simp: N D(2))
    qed
  qed
  show "same_ids s t" using D(7-11) by (simp add: same_ids_def)
  show "set_of (flox t m) = set_of (flox s m)" "stat (flox t m) = (if m = n then 0 else stat (flox s m))" by (simp_all add: D)
qed

text \<open>Changing the data of an entry.\<close>

lemma lk_shape_data:
  assumes "lk_next t = lk_next s" "lk_prev t = lk_prev s" "frlock t = frlock s" "flinos t = flinos s" "flckinfo t = flckinfo s"
  shows "lk_shape t fr ls \<longleftrightarrow> lk_shape s fr ls"
  by (simp add: lk_shape_def lk_list_def assms)

end
