(* ===== verification/Lock_Regions.thy ===== *)
theory Lock_Regions
  imports Lock_Table
begin

text \<open>
  Record locks as regions of a file: the comparisons of \<open>os/flock.c\<close> that do not touch the lists, and
  what the locks of a file, taken as a list of regions, give each process. \<open>Record_Lock\<close> uses
  these lemmas for the lists of the lock table.
\<close>

section \<open>The position of a region relative to a lock\<close>

datatype spart = S_BEFORE | S_START | S_MIDDLE | S_END | S_AFTER
datatype epart = E_BEFORE | E_START | E_MIDDLE | E_END | E_AFTER

definition regflck :: "flock \<Rightarrow> flock \<Rightarrow> spart \<times> epart" where
  "regflck ld fs =
     (if l_start fs <s l_start ld \<and> l_end fs <s l_start ld then (S_AFTER, E_AFTER)
      else if l_start fs <s l_start ld \<and> l_start ld = l_end fs then (S_END, E_AFTER)
      else
        (if l_start fs <s l_start ld then S_MIDDLE else if l_start ld = l_start fs then S_START else S_BEFORE,
         if l_start fs <s l_end ld
         then (if l_end fs <s l_end ld then E_AFTER else if l_end ld = l_end fs then E_END else E_MIDDLE)
         else if l_end ld = l_start fs then E_START else E_BEFORE))"

section \<open>Conflicts\<close>

definition lk_conflict :: "u16 \<Rightarrow> flock \<Rightarrow> flock \<Rightarrow> bool" where
  "lk_conflict me ld f \<longleftrightarrow> l_start ld <s l_end f \<and> l_start f <s l_end ld \<and> l_pid f \<noteq> me \<and>
     (l_type f = F_WRLCK \<or> (l_type f = F_RDLCK \<and> l_type ld = F_WRLCK))"

text \<open>The first loop answers the lock found, \<open>*insrt\<close>, and where the second loop starts.\<close>

fun blocked_find :: "u16 \<Rightarrow> (nat \<Rightarrow> flock) \<Rightarrow> flock \<Rightarrow> nat option \<Rightarrow> nat list \<Rightarrow> nat option \<times> nat option \<times> nat list" where
  "blocked_find me d ld ins [] = (None, ins, [])"
| "blocked_find me d ld ins (f # fs) =
     (if l_start (d f) <s l_start ld then
        (if l_pid (d f) = me then
           (if l_start ld \<le>s l_end (d f) \<and> l_start (d f) \<le>s l_end ld then (None, Some f, f # fs)
            else blocked_find me d ld (Some f) fs)
         else if lk_conflict me ld (d f) then (Some f, Some f, fs)
         else blocked_find me d ld (Some f) fs)
      else (None, ins, f # fs))"

fun blocked_rest :: "u16 \<Rightarrow> (nat \<Rightarrow> flock) \<Rightarrow> flock \<Rightarrow> nat list \<Rightarrow> nat option" where
  "blocked_rest me d ld [] = None"
| "blocked_rest me d ld (f # fs) =
     (if lk_conflict me ld (d f) then Some f
      else if l_end ld <s l_start (d f) then None
      else blocked_rest me d ld fs)"

section \<open>Regions\<close>

abbreviation st :: "flock \<Rightarrow> int" where "st f \<equiv> sint (l_start f)"
abbreviation en :: "flock \<Rightarrow> int" where "en f \<equiv> sint (l_end f)"

lemma word_order_int:
  "(a :: u32) <s b \<longleftrightarrow> sint a < sint b" "(a :: u32) \<le>s b \<longleftrightarrow> sint a \<le> sint b" "(a :: u32) = b \<longleftrightarrow> sint a = sint b"
  by (simp_all add: word_sless_alt word_sle_eq word_eq_iff_signed)

definition rng :: "flock \<Rightarrow> int set" where
  "rng f = {st f ..< en f}"

text \<open>The bytes a process holds, with the type of lock.\<close>

definition held :: "u16 \<Rightarrow> flock list \<Rightarrow> (int \<times> u16) set" where
  "held p fs = (\<Union>f \<in> {f \<in> set fs. l_pid f = p}. rng f \<times> {l_type f})"

definition foreign :: "u16 \<Rightarrow> flock list \<Rightarrow> flock list" where
  "foreign p fs = filter (\<lambda>f. l_pid f \<noteq> p) fs"

definition by_start :: "flock list \<Rightarrow> bool" where
  "by_start fs \<longleftrightarrow> sorted_wrt (\<lambda>f g. st f \<le> st g) fs"

text \<open>The locks of one process are not empty and follow one another.\<close>

definition in_line :: "u16 \<Rightarrow> flock list \<Rightarrow> bool" where
  "in_line p fs \<longleftrightarrow> (\<forall>f \<in> set fs. l_pid f = p \<longrightarrow> st f < en f) \<and>
     sorted_wrt (\<lambda>f g. en f \<le> st g) (filter (\<lambda>f. l_pid f = p) fs)"

lemma held_simps [simp]:
  "held p [] = {}" "held p (fs @ gs) = held p fs \<union> held p gs"
  "held p (f # fs) = (if l_pid f = p then rng f \<times> {l_type f} else {}) \<union> held p fs"
  by (auto simp: held_def)

lemma foreign_simps [simp]:
  "foreign p [] = []" "foreign p (fs @ gs) = foreign p fs @ foreign p gs"
  "foreign p (f # fs) = (if l_pid f \<noteq> p then f # foreign p fs else foreign p fs)"
  by (simp_all add: foreign_def)

lemma held_foreign: "q \<noteq> p \<Longrightarrow> held q (foreign p fs) = held q fs"
  by (auto simp: held_def foreign_def)

lemma by_start_append [simp]:
  "by_start (fs @ gs) \<longleftrightarrow> by_start fs \<and> by_start gs \<and> (\<forall>f \<in> set fs. \<forall>g \<in> set gs. st f \<le> st g)"
  "by_start (f # fs) \<longleftrightarrow> (\<forall>g \<in> set fs. st f \<le> st g) \<and> by_start fs" "by_start []"
  by (auto simp: by_start_def sorted_wrt_append)

lemma in_line_append [simp]:
  "in_line p (fs @ gs) \<longleftrightarrow> in_line p fs \<and> in_line p gs \<and>
     (\<forall>f \<in> set fs. \<forall>g \<in> set gs. l_pid f = p \<and> l_pid g = p \<longrightarrow> en f \<le> st g)"
  "in_line p (f # fs) \<longleftrightarrow> (l_pid f = p \<longrightarrow> st f < en f \<and> (\<forall>g \<in> set fs. l_pid g = p \<longrightarrow> en f \<le> st g)) \<and> in_line p fs"
  "in_line p []"
  by (auto simp: in_line_def sorted_wrt_append)


lemma held_type: "(x, a) \<in> held p fs \<longleftrightarrow> (\<exists>f \<in> set fs. l_pid f = p \<and> l_type f = a \<and> st f \<le> x \<and> x < en f)"
  by (auto simp: held_def rng_def)

lemma foreign_own: "filter (\<lambda>f. l_pid f = q) (foreign p fs) = (if q = p then [] else filter (\<lambda>f. l_pid f = q) fs)"
  by (induction fs) auto

lemma in_line_foreign:
  assumes "foreign p gs = foreign p fs" "q \<noteq> p" shows "in_line q gs \<longleftrightarrow> in_line q fs"
proof -
  have "filter (\<lambda>f. l_pid f = q) gs = filter (\<lambda>f. l_pid f = q) fs" using foreign_own [of q p] assms by metis
  moreover have "(\<forall>f \<in> set hs. l_pid f = q \<longrightarrow> st f < en f) \<longleftrightarrow> (\<forall>f \<in> set (filter (\<lambda>f. l_pid f = q) hs). st f < en f)" for hs
    by auto
  ultimately show ?thesis unfolding in_line_def by metis
qed

lemma held_foreign_eq: "foreign p gs = foreign p fs \<Longrightarrow> q \<noteq> p \<Longrightarrow> held q gs = held q fs"
  by (metis held_foreign)

text \<open>Of a list in order, the locks of a process that are disjoint are in line.\<close>

lemma in_line_insert:
  assumes "by_start (us @ n # vs)" "in_line p (us @ vs)" "l_pid n = p" "st n < en n"
    and "\<And>f. f \<in> set (us @ vs) \<Longrightarrow> l_pid f = p \<Longrightarrow> rng f \<inter> rng n = {}"
  shows "in_line p (us @ n # vs)"
proof -
  have "en f \<le> st n" if "f \<in> set us" "l_pid f = p" for f
  proof -
    from assms(2) that have "st f < en f" by (auto simp: in_line_def)
    with assms(1,4) assms(5) [of f] that have "st f \<le> st n" "rng f \<inter> rng n = {}" by auto
    then show ?thesis using \<open>st f < en f\<close> assms(4) by (cases "en f \<le> st n") (auto simp: rng_def)
  qed
  moreover have "en n \<le> st g" if "g \<in> set vs" "l_pid g = p" for g
  proof -
    from assms(2) that have "st g < en g" by (auto simp: in_line_def)
    with assms(1,4) assms(5) [of g] that have "st n \<le> st g" "rng g \<inter> rng n = {}" by auto
    then show ?thesis using \<open>st g < en g\<close> assms(4) by (cases "en n \<le> st g") (auto simp: rng_def)
  qed
  ultimately show ?thesis using assms(2,3,4) by auto
qed

section \<open>Giving a region to a process\<close>

text \<open>The region asked for, \<open>ld0\<close>, may have grown to \<open>ld\<close> by merging with locks of the same type.\<close>

definition grown :: "u16 \<Rightarrow> flock list \<Rightarrow> flock \<Rightarrow> flock \<Rightarrow> bool" where
  "grown me fs0 ld0 ld \<longleftrightarrow> st ld < en ld \<and> l_type ld = l_type ld0 \<and> rng ld0 \<subseteq> rng ld \<and>
     held me fs0 \<inter> (rng ld - rng ld0) \<times> UNIV = (rng ld - rng ld0) \<times> {l_type ld0}"

definition assigned :: "u16 \<Rightarrow> flock list \<Rightarrow> flock \<Rightarrow> flock list \<Rightarrow> bool" where
  "assigned me fs0 ld0 fs \<longleftrightarrow> foreign me fs = foreign me fs0 \<and>
     held me fs = held me fs0 - rng ld0 \<times> UNIV \<union> (if l_type ld0 = F_UNLCK then {} else rng ld0 \<times> {l_type ld0})"

text \<open>Splitting a lock of the caller keeps the list in order unless a lock of another process starts
  within the part taken out.\<close>

definition tidy :: "u16 \<Rightarrow> flock list \<Rightarrow> flock \<Rightarrow> bool" where
  "tidy me fs ld \<longleftrightarrow> (\<forall>f \<in> set fs. \<forall>g \<in> set fs. l_pid f = me \<and> l_pid g \<noteq> me \<and> l_type f \<noteq> l_type ld \<longrightarrow>
     \<not> (st f \<le> st g \<and> st ld \<le> st g \<and> st g < en ld \<and> st g < en f))"

text \<open>After the loop: the region is free of locks of the caller.\<close>

definition adj_exit :: "u16 \<Rightarrow> flock list \<Rightarrow> flock \<Rightarrow> flock \<Rightarrow> flock list \<Rightarrow> bool" where
  "adj_exit me fs0 ld0 ld fs \<longleftrightarrow> grown me fs0 ld0 ld \<and> foreign me fs = foreign me fs0 \<and>
     held me fs = held me fs0 - rng ld \<times> UNIV \<and> (tidy me fs0 ld0 \<longrightarrow> by_start fs \<and> in_line me fs)"

text \<open>In the loop: \<open>P\<close> has been dealt with, \<open>Q\<close> not yet.\<close>

definition adj_inv :: "u16 \<Rightarrow> flock list \<Rightarrow> flock \<Rightarrow> flock \<Rightarrow> flock list \<Rightarrow> flock list \<Rightarrow> bool" where
  "adj_inv me fs0 ld0 ld P Q \<longleftrightarrow> grown me fs0 ld0 ld \<and> foreign me (P @ Q) = foreign me fs0 \<and>
     by_start (P @ Q) \<and> in_line me (P @ Q) \<and> set Q \<subseteq> set fs0 \<and> en ld = en ld0 \<and>
     held me (P @ Q) - rng ld \<times> UNIV = held me fs0 - rng ld \<times> UNIV \<and> held me P \<inter> rng ld \<times> UNIV = {} \<and>
     ((ld = ld0 \<and> P @ Q = fs0) \<or> (\<forall>g \<in> set Q. l_pid g = me \<longrightarrow> st ld < st g \<and> st ld0 \<le> st g))"

lemma adj_inv_start:
  assumes "by_start (P @ Q)" "in_line me (P @ Q)" "st ld < en ld" "held me P \<inter> rng ld \<times> UNIV = {}"
  shows "adj_inv me (P @ Q) ld ld P Q"
  using assms by (auto simp: adj_inv_def grown_def)

lemma adj_inv_exit:
  assumes "adj_inv me fs0 ld0 ld P Q" "\<And>g. g \<in> set Q \<Longrightarrow> l_pid g = me \<Longrightarrow> en ld \<le> st g"
  shows "adj_exit me fs0 ld0 ld (P @ Q)"
proof -
  have "held me Q \<inter> rng ld \<times> UNIV = {}" using assms(2) by (fastforce simp: held_type rng_def)
  then have "held me (P @ Q) - rng ld \<times> UNIV = held me (P @ Q)" using assms(1) by (auto simp: adj_inv_def)
  with assms(1) show ?thesis by (simp add: adj_inv_def adj_exit_def)
qed

lemma adj_exit_unlock:
  assumes "adj_exit me fs0 ld0 ld fs" "l_type ld0 = F_UNLCK" "\<And>f. f \<in> set fs0 \<Longrightarrow> l_type f \<noteq> F_UNLCK"
  shows "assigned me fs0 ld0 fs"
proof -
  have "rng ld - rng ld0 = {}"
  proof (rule ccontr)
    assume "rng ld - rng ld0 \<noteq> {}"
    then obtain x where "x \<in> rng ld - rng ld0" by blast
    then have "(x, F_UNLCK) \<in> held me fs0" using assms(1,2) by (auto simp: adj_exit_def grown_def)
    with assms(3) show False by (auto simp: held_type)
  qed
  then have "rng ld = rng ld0" using assms(1) by (auto simp: adj_exit_def grown_def)
  with assms(1,2) show ?thesis by (simp add: adj_exit_def assigned_def)
qed

lemma adj_exit_insert:
  assumes "adj_exit me fs0 ld0 ld (us @ vs)" "l_type ld0 \<noteq> F_UNLCK"
  shows "assigned me fs0 ld0 (us @ ld\<lparr>l_pid := me\<rparr> # vs)"
proof -
  have g: "rng ld0 \<subseteq> rng ld" "held me fs0 \<inter> (rng ld - rng ld0) \<times> UNIV = (rng ld - rng ld0) \<times> {l_type ld0}"
    "l_type ld = l_type ld0" "held me (us @ vs) = held me fs0 - rng ld \<times> UNIV"
    using assms(1) by (auto simp: adj_exit_def grown_def)
  have "held me fs0 - rng ld \<times> UNIV \<union> rng ld \<times> {l_type ld0} = held me fs0 - rng ld0 \<times> UNIV \<union> rng ld0 \<times> {l_type ld0}"
    using g(1,2) by blast
  moreover have "held me (us @ ld\<lparr>l_pid := me\<rparr> # vs) = held me (us @ vs) \<union> rng ld \<times> {l_type ld0}"
    using g(3) by (auto simp: rng_def)
  ultimately show ?thesis using assms g(4) by (auto simp: assigned_def adj_exit_def)
qed


lemma adj_inv_parts:
  assumes "adj_inv me fs0 ld0 ld P Q"
  shows "grown me fs0 ld0 ld" "foreign me (P @ Q) = foreign me fs0" "by_start (P @ Q)" "in_line me (P @ Q)"
    "set Q \<subseteq> set fs0" "en ld = en ld0" "held me (P @ Q) - rng ld \<times> UNIV = held me fs0 - rng ld \<times> UNIV"
    "held me P \<inter> rng ld \<times> UNIV = {}"
  using assms unfolding adj_inv_def by blast+

lemma adj_invI:
  assumes "grown me fs0 ld0 ld" "foreign me (P @ Q) = foreign me fs0" "by_start (P @ Q)" "in_line me (P @ Q)"
    "set Q \<subseteq> set fs0" "en ld = en ld0" "held me (P @ Q) - rng ld \<times> UNIV = held me fs0 - rng ld \<times> UNIV"
    "held me P \<inter> rng ld \<times> UNIV = {}" "\<And>g. g \<in> set Q \<Longrightarrow> l_pid g = me \<Longrightarrow> st ld < st g \<and> st ld0 \<le> st g"
  shows "adj_inv me fs0 ld0 ld P Q"
  using assms unfolding adj_inv_def by simp

lemma adj_invD:
  assumes "adj_inv me fs0 ld0 ld P (f # Q)" "l_pid f = me"
  shows "st f < en f" "f \<in> set fs0" "\<And>g. g \<in> set Q \<Longrightarrow> l_pid g = me \<Longrightarrow> en f \<le> st g" "\<And>g. g \<in> set Q \<Longrightarrow> st f \<le> st g"
    "\<And>x a. (x, a) \<in> held me (P @ Q) \<Longrightarrow> x \<notin> rng f" "st ld < en ld"
    "st f \<le> st ld \<Longrightarrow> ld = ld0 \<and> P @ f # Q = fs0" "st ld < st f \<Longrightarrow> st ld0 \<le> st f"
proof -
  show "x \<notin> rng f" if "(x, a) \<in> held me (P @ Q)" for x a
    using that assms by (fastforce simp: adj_inv_def held_type rng_def)
qed (use assms in \<open>auto simp: adj_inv_def grown_def\<close>)

lemma adj_inv_skip:
  assumes "adj_inv me fs0 ld0 ld P (f # Q)" "l_pid f = me \<Longrightarrow> en f \<le> st ld"
  shows "adj_inv me fs0 ld0 ld (P @ [f]) Q"
  using assms by (auto simp: adj_inv_def rng_def)

lemma adj_inv_del:
  assumes I: "adj_inv me fs0 ld0 ld P (f # Q)" and f: "l_pid f = me" "st ld \<le> st f" "en f \<le> en ld"
  shows "adj_inv me fs0 ld0 ld P Q"
proof -
  note D = adj_invD [OF I f(1)]
  have "rng f \<subseteq> rng ld" using f by (auto simp: rng_def)
  then have "held me (P @ Q) - rng ld \<times> UNIV = held me fs0 - rng ld \<times> UNIV" using I f(1) by (auto simp: adj_inv_def)
  moreover have "st ld < st g \<and> st ld0 \<le> st g" if "g \<in> set Q" "l_pid g = me" for g
  proof -
    have "st ld0 \<le> st f" using D(7,8) f(2) by (cases "st f \<le> st ld") auto
    then show ?thesis using D(1) D(3) [OF that] f(2) by simp
  qed
  ultimately show ?thesis using I f(1) by (auto simp: adj_inv_def)
qed

lemma adj_inv_merge_low:
  assumes I: "adj_inv me fs0 ld0 ld P (f # Q)" and f: "l_pid f = me" "st f < st ld" "st ld \<le> en f" "en f \<le> en ld"
    and ty: "l_type ld = l_type f"
  shows "adj_inv me fs0 ld0 (ld\<lparr>l_start := l_start f\<rparr>) P Q"
proof -
  let ?l = "ld\<lparr>l_start := l_start f\<rparr>"
  note D = adj_invD [OF I f(1)]
  have e: "ld = ld0" "P @ f # Q = fs0" using D(7) f(2) by auto
  have r: "rng ?l = rng ld \<union> rng f" using f D(6) by (auto simp: rng_def)
  have h: "held me fs0 = held me (P @ Q) \<union> rng f \<times> {l_type ld}" using f(1) ty by (auto simp: e(2) [symmetric])
  have "held me fs0 \<inter> (rng ?l - rng ld0) \<times> UNIV = (rng ?l - rng ld0) \<times> {l_type ld0}"
    using D(5) unfolding r h e(1) [symmetric] by blast
  then have g: "grown me fs0 ld0 ?l" using D(6) f r by (auto simp: grown_def e(1) rng_def)
  moreover have "held me (P @ Q) - rng ?l \<times> UNIV = held me fs0 - rng ?l \<times> UNIV" unfolding h r by blast
  moreover have "held me P \<inter> rng ?l \<times> UNIV = {}" using I D(5) unfolding r adj_inv_def held_simps by blast
  moreover have "st ?l < st g \<and> st ld0 \<le> st g" if "g \<in> set Q" "l_pid g = me" for g
    using D(1) D(3) [OF that] f(3) by (simp add: e(1))
  ultimately show ?thesis using I f(1) by (auto simp: adj_inv_def)
qed

lemma adj_inv_merge_high:
  assumes I: "adj_inv me fs0 ld0 ld P (f # Q)" and f: "l_pid f = me" "st ld < st f" "st f \<le> en ld" "en ld < en f"
    and ty: "l_type ld = l_type f"
  shows "adj_exit me fs0 ld0 (ld\<lparr>l_len := l_end f\<rparr>) (P @ Q)"
proof -
  let ?l = "ld\<lparr>l_len := l_end f\<rparr>"
  note D = adj_invD [OF I f(1)]
  have r: "rng ?l = rng ld \<union> rng f" using f D(6) by (auto simp: rng_def)
  have now: "held me (P @ f # Q) = held me (P @ Q) \<union> rng f \<times> {l_type ld}" using f(1) ty by auto
  have out: "held me (P @ Q) \<inter> rng f \<times> UNIV = {}" using D(5) by blast
  have old: "held me (P @ f # Q) - rng ld \<times> UNIV = held me fs0 - rng ld \<times> UNIV" using I by (simp add: adj_inv_def)
  have G: "rng ld0 \<subseteq> rng ld" "held me fs0 \<inter> (rng ld - rng ld0) \<times> UNIV = (rng ld - rng ld0) \<times> {l_type ld}" "l_type ld = l_type ld0"
    using I by (auto simp: adj_inv_def grown_def)
  have new: "held me fs0 \<inter> (rng f - rng ld) \<times> UNIV = (rng f - rng ld) \<times> {l_type ld}"
    using old out unfolding now by blast
  have "held me fs0 \<inter> (rng ?l - rng ld0) \<times> UNIV = (rng ?l - rng ld0) \<times> {l_type ld0}"
    using G new unfolding r G(3) [symmetric] by blast
  then have "grown me fs0 ld0 ?l" using D(6) f r G by (auto simp: grown_def)
  moreover have "held me (P @ Q) = held me fs0 - rng ?l \<times> UNIV"
  proof -
    have "held me Q \<inter> rng ld \<times> UNIV = {}" using D(3) f(4) by (fastforce simp: held_type rng_def)
    then have "held me (P @ Q) \<inter> rng ld \<times> UNIV = {}" using adj_inv_parts(8) [OF I] by auto
    then have "held me (P @ Q) = (held me (P @ f # Q) - rng ld \<times> UNIV) - rng f \<times> UNIV" using out unfolding now by blast
    also have "\<dots> = held me fs0 - rng ?l \<times> UNIV" unfolding old r by blast
    finally show ?thesis .
  qed
  moreover have "foreign me (P @ Q) = foreign me fs0" "by_start (P @ Q)" "in_line me (P @ Q)"
    using adj_inv_parts(2-4) [OF I] f(1) by simp_all
  ultimately show ?thesis by (simp add: adj_exit_def)
qed

lemma adj_inv_cut:
  assumes I: "adj_inv me fs0 ld0 ld P (f # Q)" and f: "l_pid f = me" "st f < st ld" "st ld < en f" "en f \<le> en ld"
  shows "adj_inv me fs0 ld0 ld (P @ [f\<lparr>l_len := l_start ld\<rparr>]) Q"
proof (rule adj_invI)
  let ?f = "f\<lparr>l_len := l_start ld\<rparr>"
  note D = adj_invD [OF I f(1)] and A = adj_inv_parts [OF I]
  have r: "rng ?f = rng f - rng ld" "rng ?f \<inter> rng ld = {}" using f by (auto simp: rng_def)
  have "held me ((P @ [?f]) @ Q) - rng ld \<times> UNIV = held me (P @ f # Q) - rng ld \<times> UNIV" using f(1) r by auto
  then show "held me ((P @ [?f]) @ Q) - rng ld \<times> UNIV = held me fs0 - rng ld \<times> UNIV" using A(7) by simp
  show "st ld < st g \<and> st ld0 \<le> st g" if "g \<in> set Q" "l_pid g = me" for g
    using D(3) [OF that] D(7) f by simp
  show "foreign me ((P @ [?f]) @ Q) = foreign me fs0" "by_start ((P @ [?f]) @ Q)" using A(2,3) f(1) by simp_all
  show "in_line me ((P @ [?f]) @ Q)" using A(4) f D(3) by fastforce
  show "held me (P @ [?f]) \<inter> rng ld \<times> UNIV = {}" using A(8) f(1) r(2) by auto
  show "grown me fs0 ld0 ld" "set Q \<subseteq> set fs0" "en ld = en ld0" using A(1,5,6) by simp_all
qed

lemma adj_inv_inside:
  assumes I: "adj_inv me fs0 ld0 ld P (f # Q)" and f: "l_pid f = me" "st f \<le> st ld" "en ld \<le> en f"
    and ty: "l_type ld = l_type f" "l_type f \<noteq> F_UNLCK"
  shows "assigned me fs0 ld0 (P @ f # Q)" "by_start (P @ f # Q)" "in_line me (P @ f # Q)"
proof -
  note D = adj_invD [OF I f(1)]
  have e: "ld = ld0" "P @ f # Q = fs0" using D(7) f(2) by auto
  have "rng ld \<subseteq> rng f" using f by (auto simp: rng_def)
  moreover have "held me fs0 = held me (P @ Q) \<union> rng f \<times> {l_type ld}" using f(1) ty by (auto simp: e(2) [symmetric])
  moreover have "held me (P @ Q) \<inter> rng f \<times> UNIV = {}" using D(5) by blast
  ultimately have "held me fs0 = held me fs0 - rng ld \<times> UNIV \<union> rng ld \<times> {l_type ld}" by blast
  then show "assigned me fs0 ld0 (P @ f # Q)" using ty e by (simp add: assigned_def)
  show "by_start (P @ f # Q)" "in_line me (P @ f # Q)" using I by (simp_all add: adj_inv_def)
qed

text \<open>The region ends inside a lock of another type: its tail \<open>td\<close> becomes a lock of its own, and its
  front, if there is one, stays.\<close>

lemma adj_inv_split:
  assumes I: "adj_inv me fs0 ld0 ld P (f # Q)" and f: "l_pid f = me" "st f < en ld" "en ld < en f"
    and ty: "l_type f \<noteq> l_type ld" and Q: "Q = us @ vs" "\<And>g. g \<in> set us \<Longrightarrow> st g < st ld" "\<And>g. g \<in> set vs \<Longrightarrow> st ld \<le> st g"
    and td: "td = f\<lparr>l_start := l_end ld\<rparr>"
    and front: "if st f < st ld then fr = [f\<lparr>l_len := l_start ld\<rparr>] else fr = []"
  shows "adj_exit me fs0 ld0 ld (P @ fr @ us @ td # vs)"
proof -
  note D = adj_invD [OF I f(1)]
  have Is: "foreign me (P @ f # Q) = foreign me fs0" "by_start (P @ f # Q)" "in_line me (P @ f # Q)" "set (f # Q) \<subseteq> set fs0"
    "en ld = en ld0" "held me (P @ f # Q) - rng ld \<times> UNIV = held me fs0 - rng ld \<times> UNIV" "held me P \<inter> rng ld \<times> UNIV = {}"
    "grown me fs0 ld0 ld" using I by (auto simp: adj_inv_def)
  have r: "rng f - rng ld = rng td \<union> (if st f < st ld then rng (f\<lparr>l_len := l_start ld\<rparr>) else {})"
    "rng td \<inter> rng ld = {}" "rng (f\<lparr>l_len := l_start ld\<rparr>) \<inter> rng ld = {}"
    using f D(6) by (auto simp: rng_def td)
  have fr: "held me fr = (if st f < st ld then rng (f\<lparr>l_len := l_start ld\<rparr>) else {}) \<times> {l_type f}" "foreign me fr = []"
    using front f(1) by (auto split: if_splits)
  have hq: "held me Q \<inter> rng ld \<times> UNIV = {}" using D(3) f(3) by (fastforce simp: held_type rng_def)
  have "held me (P @ fr @ us @ td # vs) = held me (P @ Q) \<union> (rng f - rng ld) \<times> {l_type f}"
    using f(1) fr(1) unfolding r(1) Q(1) by (auto simp: td)
  also have "\<dots> = held me (P @ f # Q) - rng ld \<times> UNIV" using f(1) hq Is(7) by auto
  finally have h: "held me (P @ fr @ us @ td # vs) = held me fs0 - rng ld \<times> UNIV" using Is(6) by simp
  have fo: "foreign me (P @ fr @ us @ td # vs) = foreign me fs0" using Is(1) fr(2) f(1) by (simp add: td Q(1))
  have "by_start (P @ fr @ us @ td # vs) \<and> in_line me (P @ fr @ us @ td # vs)" if "tidy me fs0 ld0"
  proof -
    have v: "en ld \<le> st g" if g: "g \<in> set vs" for g
    proof (cases "l_pid g = me")
      case True then show ?thesis using D(3) [of g] g f(3) Q(1) by auto
    next
      case False
      have "st ld0 \<le> st g" using D(7,8) D(4) [of g] Q(3) [OF g] g Q(1) by (cases "st f \<le> st ld") auto
      moreover have "g \<in> set fs0" "st f \<le> st g" using Is(4) D(4) [of g] g Q(1) by auto
      ultimately have "\<not> (st g < en ld0 \<and> st g < en f)"
        using \<open>tidy me fs0 ld0\<close> False f(1) D(2) ty Is(8) by (auto simp: tidy_def grown_def)
      then show ?thesis using Is(5) f(3) by auto
    qed
    have u: "st g \<le> en ld" if "g \<in> set us" for g using Q(2) [OF that] D(6) by simp
    have s: "st td = en ld" "en td = en f" "l_pid td = me" by (simp_all add: td f(1))
    have b: "by_start (P @ fr @ us @ td # vs)"
    proof -
      have "by_start fr" "\<forall>x \<in> set fr. st x = st f" using front by (auto split: if_splits)
      moreover have "\<forall>p \<in> set P. st p \<le> st f" "by_start P" "by_start us" "by_start vs" "\<forall>p \<in> set P. \<forall>g \<in> set us \<union> set vs. st p \<le> st g"
        "\<forall>g \<in> set us \<union> set vs. st f \<le> st g" "\<forall>g \<in> set us. \<forall>h \<in> set vs. st g \<le> st h"
        using Is(2) by (auto simp: Q(1))
      moreover have "\<forall>p \<in> set P. st p \<le> st td" using calculation(3) f(2) s(1) by fastforce
      ultimately show ?thesis using v u f(2) s(1) by auto
    qed
    have "in_line me ((P @ fr @ us) @ vs)"
      using Is(3) f D(6) front unfolding Q(1) by (auto split: if_splits; fastforce)
    moreover have "rng g \<inter> rng td = {}" if "g \<in> set ((P @ fr @ us) @ vs)" "l_pid g = me" for g
    proof -
      have "g \<in> set fr \<Longrightarrow> en g \<le> st ld" using front by (auto split: if_splits)
      moreover have "g \<in> set P \<Longrightarrow> en g \<le> st f" using Is(3) that(2) f(1) by auto
      moreover have "g \<in> set us \<union> set vs \<Longrightarrow> en f \<le> st g" using D(3) [of g] that(2) Q(1) by auto
      ultimately show ?thesis using that(1) s f(2) D(6) by (fastforce simp: rng_def)
    qed
    ultimately have "in_line me ((P @ fr @ us) @ td # vs)"
      using b s f(3) by (intro in_line_insert) auto
    with b show ?thesis by simp
  qed
  with h fo Is(8) show ?thesis by (simp add: adj_exit_def)
qed

end
