(* ===== verification/Record_Lock.thy ===== *)
theory Record_Lock
  imports Lock_Regions
begin

text \<open>
  Record locking, \<open>os/flock.c\<close>: the search for a conflicting lock, the adjustment of the caller's
  locks to a new region, sleeping with deadlock detection, and the calls of \<open>fcntl\<close>.
\<close>

text \<open>The walks over a list, from an entry to its end.\<close>

definition lk_walk :: "lkst \<Rightarrow> nat option \<Rightarrow> nat list" where
  "lk_walk s p = walk (recs (flckinfo s)) (lk_next s) p"

text \<open>The loop that looks for the entry to insert behind: the last one of a run of entries that
  start before \<open>x\<close>.\<close>

fun last_before :: "(nat \<Rightarrow> flock) \<Rightarrow> u32 \<Rightarrow> nat option \<Rightarrow> nat list \<Rightarrow> nat option" where
  "last_before d x ins [] = ins"
| "last_before d x ins (n # ns) = (if l_start (d n) <s x then last_before d x (Some n) ns else ins)"

abbreviation lk_data :: "lkst \<Rightarrow> nat \<Rightarrow> flock" where "lk_data s \<equiv> set_of \<circ> flox s"

section \<open>Adjusting the locks of the caller\<close>

text \<open>What becomes of the loop of \<open>flckadj\<close> at one lock of the caller: it returns, or goes on with
  the insertion point and the region it has now, at the next entry or (\<open>nflp = NULL\<close>) not at all.\<close>

datatype adj_step = Adj_return "errno option" lkst | Adj_go bool "nat option" flock lkst

text \<open>The piece of a severed lock behind the region.\<close>

definition split_tail :: "u16 \<Rightarrow> flref \<Rightarrow> nat \<Rightarrow> flock \<Rightarrow> lkst \<Rightarrow> nat option \<times> lkst" where
  "split_tail me flip flp ld s =
     (let td = (lk_data s flp)\<lparr>l_start := l_end ld\<rparr>;
          tdi = last_before (lk_data s) (l_start ld) (Some flp) (lk_walk s (Some flp))
      in insflck me flip td tdi s)"

definition cut_end :: "nat \<Rightarrow> flock \<Rightarrow> lkst \<Rightarrow> lkst" where
  "cut_end flp ld s = wake_lk flp (upd_lk flp (\<lambda>f. f\<lparr>set_of := (set_of f)\<lparr>l_len := l_start ld\<rparr>\<rparr>) s)"

definition adj_case :: "u16 \<Rightarrow> flref \<Rightarrow> nat \<Rightarrow> nat option \<Rightarrow> flock \<Rightarrow> lkst \<Rightarrow> adj_step" where
  "adj_case me flip flp ins ld s =
     (let f = lk_data s flp;
          same = (l_type ld = l_type f);
          pv = f_prev (flox s flp);
          ins' = (if ins = Some flp then pv else ins);
          del = delflck flip flp
      in case regflck ld f of
           (S_BEFORE, E_BEFORE) \<Rightarrow> Adj_go False ins ld s
         | (S_BEFORE, E_START) \<Rightarrow>
             (if same then Adj_go False ins' (ld\<lparr>l_len := l_end f\<rparr>) (del s) else Adj_go False ins ld s)
         | (S_START, E_END) \<Rightarrow> (if same then Adj_return None s else Adj_go True pv ld (del s))
         | (S_START, E_AFTER) \<Rightarrow> Adj_go True pv ld (del s)
         | (S_BEFORE, E_END) \<Rightarrow> Adj_go (\<not> same) ins' ld (del s)
         | (S_BEFORE, E_AFTER) \<Rightarrow> Adj_go True ins' ld (del s)
         | (S_BEFORE, E_MIDDLE) \<Rightarrow>
             (if same then Adj_go False ins' (ld\<lparr>l_len := l_end f\<rparr>) (del s)
              else (case split_tail me flip flp ld s of
                      (None, s) \<Rightarrow> Adj_return (Some ENOLCK) s
                    | (Some _, s) \<Rightarrow> Adj_go False (if ins = Some flp then f_prev (flox s flp) else ins) ld (del s)))
         | (S_START, E_MIDDLE) \<Rightarrow>
             (if same then Adj_return None s
              else (case split_tail me flip flp ld s of
                      (None, s) \<Rightarrow> Adj_return (Some ENOLCK) s
                    | (Some _, s) \<Rightarrow> Adj_go False (f_prev (flox s flp)) ld (del s)))
         | (S_MIDDLE, E_MIDDLE) \<Rightarrow>
             (if same then Adj_return None s
              else (case split_tail me flip flp ld s of
                      (None, s) \<Rightarrow> Adj_return (Some ENOLCK) s
                    | (Some _, s) \<Rightarrow> Adj_go False (Some flp) ld (cut_end flp ld s)))
         | (S_MIDDLE, E_END) \<Rightarrow>
             (if same then Adj_return None s else Adj_go True (Some flp) ld (cut_end flp ld s))
         | (S_MIDDLE, E_AFTER) \<Rightarrow>
             (if same then Adj_go True pv (ld\<lparr>l_start := l_start f\<rparr>) (del s)
              else Adj_go True (Some flp) ld (cut_end flp ld s))
         | (S_END, E_AFTER) \<Rightarrow>
             (if same then Adj_go True pv (ld\<lparr>l_start := l_start f\<rparr>) (del s)
              else Adj_go True (Some flp) ld (cut_end flp ld s))
         | (S_AFTER, E_AFTER) \<Rightarrow> Adj_go True (Some flp) ld s
         | _ \<Rightarrow> Adj_go True ins ld s)"

text \<open>The loop, with \<open>nflp\<close>; it ends by an early return or with the insertion point and the region.\<close>

partial_function (option) adj_loop ::
  "u16 \<Rightarrow> flref \<Rightarrow> nat option \<Rightarrow> nat option \<Rightarrow> flock \<Rightarrow> lkst \<Rightarrow> (errno option \<times> lkst + nat option \<times> flock \<times> lkst) option" where
  "adj_loop me flip nflp ins ld s =
     (case nflp of
        None \<Rightarrow> Some (Inr (ins, ld, s))
      | Some flp \<Rightarrow>
          (let nx = f_next (flox s flp); f = set_of (flox s flp)
           in if l_pid f = me then
                (case adj_case me flip flp ins ld s of
                   Adj_return rv s \<Rightarrow> Some (Inl (rv, s))
                 | Adj_go go ins ld s \<Rightarrow> adj_loop me flip (if go then nx else None) ins ld s)
              else adj_loop me flip (if l_end ld <s l_start f then None else nx) ins ld s))"

definition flckadj :: "u16 \<Rightarrow> flref \<Rightarrow> nat option \<Rightarrow> flock \<Rightarrow> lkst \<Rightarrow> (errno option \<times> lkst) option" where
  "flckadj me flip insrtp ld s =
     map_option (\<lambda>r. case r of
         Inl (rv, s) \<Rightarrow> (rv, s)
       | Inr (ins, ld', s) \<Rightarrow>
           if l_type ld \<noteq> F_UNLCK then
             (let ins = last_before (lk_data s) (l_start ld') ins (lk_walk s ins)
              in case insflck me flip ld' ins s of
                   (None, s) \<Rightarrow> (Some ENOLCK, s)
                 | (Some _, s) \<Rightarrow> (None, s))
           else (None, s))
       (adj_loop me flip (if insrtp = None then fl_flck (flinos s flip) else insrtp) insrtp ld s)"

section \<open>The search for a conflicting lock\<close>

definition blocked :: "u16 \<Rightarrow> nat option \<Rightarrow> flock \<Rightarrow> lkst \<Rightarrow> nat option \<times> nat option" where
  "blocked me flp ld s =
     (case blocked_find me (lk_data s) ld None (lk_walk s flp) of
        (Some f, ins, _) \<Rightarrow> (Some f, ins)
      | (None, ins, fs) \<Rightarrow> (blocked_rest me (lk_data s) ld fs, ins))"

section \<open>Deadlock detection\<close>

text \<open>The sleeping locks as pairs of the sleeping process and the process it waits for.\<close>

definition sleepers :: "lkst \<Rightarrow> (u16 \<times> u16) list" where
  "sleepers s = map (\<lambda>n. (l_pid (set_of (flox s n)), stat (flox s n))) (lk_walk s (fl_flck (flinos s Sleeplcks)))"

partial_function (option) dead_loop :: "u16 \<Rightarrow> (u16 \<times> u16) list \<Rightarrow> u16 \<Rightarrow> bool option" where
  "dead_loop me sl blckpid =
     (if blckpid = me then Some True
      else (case map_of sl blckpid of
              None \<Rightarrow> Some False
            | Some p \<Rightarrow> dead_loop me sl p))"

declare adj_loop.simps [code] dead_loop.simps [code]

definition deadflck :: "u16 \<Rightarrow> nat \<Rightarrow> lkst \<Rightarrow> bool option" where
  "deadflck me flp s = dead_loop me (sleepers s) (l_pid (set_of (flox s flp)))"

section \<open>Setting and testing locks\<close>

definition MAXEND :: u32 where "MAXEND = 0x7FFFFFFF"

definition convoff :: "lfile \<Rightarrow> flock \<Rightarrow> u16 \<Rightarrow> errno option \<times> flock" where
  "convoff fp ld whence =
     (if l_whence ld \<noteq> 0 \<and> l_whence ld \<noteq> 1 \<and> l_whence ld \<noteq> 2 then (Some EINVAL, ld)
      else
        (let ld = (if l_whence ld = 1 then ld\<lparr>l_start := l_start ld + f_offset fp\<rparr>
                   else if l_whence ld = 2 then ld\<lparr>l_start := l_start ld + i_size fp\<rparr> else ld)
         in if l_start ld <s 0 then (Some EINVAL, ld)
            else if whence = 1 then (None, ld\<lparr>l_start := l_start ld - f_offset fp, l_whence := whence\<rparr>)
            else if whence = 2 then (None, ld\<lparr>l_start := l_start ld - i_size fp, l_whence := whence\<rparr>)
            else if whence \<noteq> 0 then (Some EINVAL, ld)
            else (None, ld\<lparr>l_whence := whence\<rparr>)))"

definition set_end :: "flock \<Rightarrow> flock" where
  "set_end ld = (if l_len ld = 0 then ld\<lparr>l_len := MAXEND\<rparr> else ld\<lparr>l_len := l_len ld + l_start ld\<rparr>)"

definition getflck :: "u16 \<Rightarrow> lfile \<Rightarrow> flock \<Rightarrow> lkst \<Rightarrow> errno option \<times> flock \<times> lkst" where
  "getflck me fp ld s =
     (case findfid fp s of
        (None, s) \<Rightarrow> (None, ld\<lparr>l_type := F_UNLCK\<rparr>, s)
      | (Some i, s) \<Rightarrow>
          (let inwhence = l_whence ld
           in case convoff fp ld 0 of
                (Some e, ld) \<Rightarrow> (Some e, ld, s)
              | (None, ld) \<Rightarrow>
                  (let ld = set_end ld;
                       ld = (case fst (blocked me (fl_flck (flinos s (Fid i))) ld s) of
                               Some f \<Rightarrow> set_of (flox s f)
                             | None \<Rightarrow> ld\<lparr>l_type := F_UNLCK\<rparr>);
                       s = freefid i s;
                       ld = (if l_end ld = MAXEND then ld\<lparr>l_len := 0\<rparr> else ld\<lparr>l_len := l_len ld - l_start ld\<rparr>)
                   in case convoff fp ld inwhence of (e, ld) \<Rightarrow> (e, ld, s))))"

text \<open>A call of \<open>setflck\<close> returns, or is asleep on a lock with its own entry among the sleeping locks.
  Outside the tables (\<open>Lk_wild\<close>) stands for a loop that does not end.\<close>

datatype lk_outcome = Lk_ret "errno option" | Lk_asleep nat nat | Lk_wild

text \<open>The body of the \<open>do\<close> loop.\<close>

definition setflck_pass :: "u16 \<Rightarrow> nat \<Rightarrow> flock \<Rightarrow> bool \<Rightarrow> lkst \<Rightarrow> lk_outcome \<times> lkst" where
  "setflck_pass me i ld slpflg s =
     (let head = fl_flck (flinos s (Fid i)); ret = (\<lambda>rv s. (Lk_ret rv, freefid i s))
      in if l_type ld = F_RDLCK \<or> l_type ld = F_WRLCK then
           (case blocked me head ld s of
              (None, insrt) \<Rightarrow>
                (case flckadj me (Fid i) insrt ld s of None \<Rightarrow> (Lk_wild, s) | Some (rv, s) \<Rightarrow> ret rv s)
            | (Some found, insrt) \<Rightarrow>
                if slpflg then
                  (case deadflck me found s of
                     None \<Rightarrow> (Lk_wild, s)
                   | Some True \<Rightarrow> ret (Some EDEADLK) s
                   | Some False \<Rightarrow>
                       (case insflck me Sleeplcks ld None s of
                          (None, s) \<Rightarrow> ret (Some ENOLCK) s
                        | (Some sf, s) \<Rightarrow>
                            (let s = upd_lk found (\<lambda>f. f\<lparr>stat := stat f + 1\<rparr>) s
                             in (Lk_asleep found sf,
                                 upd_lk sf (\<lambda>f. f\<lparr>stat := l_pid (set_of (flox s found))\<rparr>) s))))
                else ret (Some EACCES) s)
         else if l_type ld = F_UNLCK then
           (case flckadj me (Fid i) head ld s of None \<Rightarrow> (Lk_wild, s) | Some (rv, s) \<Rightarrow> ret rv s)
         else ret (Some EINVAL) s)"

definition setflck :: "u16 \<Rightarrow> lfile \<Rightarrow> flock \<Rightarrow> bool \<Rightarrow> lkst \<Rightarrow> lk_outcome \<times> lkst" where
  "setflck me fp ld slpflg s =
     (if (l_type ld = F_RDLCK \<and> \<not> f_rd fp) \<or> (l_type ld = F_WRLCK \<and> \<not> f_wr fp) then (Lk_ret (Some EBADF), s)
      else (case convoff fp ld 0 of
              (Some e, _) \<Rightarrow> (Lk_ret (Some e), s)
            | (None, ld) \<Rightarrow>
                (let ld = set_end ld
                 in case findfid fp s of
                      (Some i, s) \<Rightarrow> setflck_pass me i ld slpflg s
                    | (None, s) \<Rightarrow>
                        if l_type ld = F_UNLCK then (Lk_ret None, s)
                        else (case allocfid fp s of
                                (None, s) \<Rightarrow> (Lk_ret (Some EMFILE), s)
                              | (Some i, s) \<Rightarrow> setflck_pass me i ld slpflg s))))"

text \<open>After the sleep, by a wakeup or by a signal.\<close>

definition setflck_again :: "u16 \<Rightarrow> nat \<Rightarrow> flock \<Rightarrow> bool \<Rightarrow> bool \<Rightarrow> nat \<Rightarrow> lkst \<Rightarrow> lk_outcome \<times> lkst" where
  "setflck_again me i ld slpflg signalled sf s =
     (let s = delflck Sleeplcks sf (upd_lk sf (\<lambda>f. f\<lparr>stat := 0\<rparr>) s)
      in if signalled then (Lk_ret (Some EINTR), freefid i s) else setflck_pass me i ld slpflg s)"

definition cleanlocks :: "u16 \<Rightarrow> lfile \<Rightarrow> lkst \<Rightarrow> lkst" where
  "cleanlocks me fp s =
     (case findfid fp s of
        (None, s) \<Rightarrow> s
      | (Some i, s) \<Rightarrow>
          freefid i (foldl (\<lambda>s n. if l_pid (set_of (flox s n)) = me then delflck (Fid i) n s else s) s
            (lk_walk s (fl_flck (flinos s (Fid i))))))"


section \<open>The loop of \<open>flckadj\<close>\<close>

lemma lk_walk_list:
  assumes "lk_shape s fr ls" "ls r = pre @ rest"
  shows "lk_walk s (case rest of [] \<Rightarrow> None | n # _ \<Rightarrow> Some n) = rest" "pre = [] \<Longrightarrow> lk_walk s (fl_flck (flinos s r)) = rest"
    "rest = n # ns \<Longrightarrow> f_next (flox s n) = (case ns of [] \<Rightarrow> None | m # _ \<Rightarrow> Some m)"
    "rest = n # ns \<Longrightarrow> f_prev (flox s n) = before pre"
proof -
  note S = lk_shapeD [OF assms(1)]
  have c: "chain (lk_next s) (fl_flck (flinos s r)) (pre @ rest)" "backs (lk_prev s) None (pre @ rest)"
    using S(2) [of r] assms(2) by (auto simp: lk_list_def)
  then obtain p where p: "chain (lk_next s) p rest" by (auto simp: path_append)
  then have h: "p = (case rest of [] \<Rightarrow> None | n # _ \<Rightarrow> Some n)" by (cases rest) auto
  have b: "set rest \<subseteq> {..<recs (flckinfo s)}" using S(8) [of r] assms(2) by auto
  show "lk_walk s (case rest of [] \<Rightarrow> None | n # _ \<Rightarrow> Some n) = rest"
    unfolding lk_walk_def h [symmetric] by (rule walk_chain_bounded [OF p b])
  show "pre = [] \<Longrightarrow> lk_walk s (fl_flck (flinos s r)) = rest"
    unfolding lk_walk_def using c b by (intro walk_chain_bounded) auto
  show "rest = n # ns \<Longrightarrow> f_next (flox s n) = (case ns of [] \<Rightarrow> None | m # _ \<Rightarrow> Some m)"
    using p by (cases ns) (auto simp: lk_next_eq)
  show "rest = n # ns \<Longrightarrow> f_prev (flox s n) = before pre"
    using c(2) by (auto simp: backs_append before_def lk_prev_eq)
qed

lemma last_before_eq:
  "last_before d x ins ns = (let ys = takeWhile (\<lambda>n. l_start (d n) <s x) ns in if ys = [] then ins else Some (last ys))"
  by (induction ns arbitrary: ins) (auto simp: Let_def)

text \<open>What is outside the list worked on stays as it is.\<close>

definition lk_frame :: "nat set \<Rightarrow> lkst \<Rightarrow> lkst \<Rightarrow> bool" where
  "lk_frame A s t \<longleftrightarrow> same_ids s t \<and> (\<forall>n. n \<notin> A \<longrightarrow> set_of (flox t n) = set_of (flox s n) \<and> stat (flox t n) = stat (flox s n))"

lemma lk_frame_refl [simp]: "lk_frame A s s"
  by (simp add: lk_frame_def)

lemma lk_frame_trans: "lk_frame A s t \<Longrightarrow> lk_frame A t u \<Longrightarrow> lk_frame A s u"
  by (auto simp: lk_frame_def intro: same_ids_trans)

lemma del_list:
  assumes "lk_shape s fr ls" "ls r = pre @ n # post"
  shows "lk_shape (delflck r n s) (n # fr) (ls(r := pre @ post))" "lk_data (delflck r n s) = lk_data s"
    "lk_frame (set fr \<union> set (ls r)) s (delflck r n s)"
  using delflck_ok [OF assms] assms(2) by (auto simp: lk_frame_def fun_eq_iff)

lemma cut_end_list:
  assumes "lk_shape s fr ls" "n \<in> set (ls r)"
  shows "lk_shape (cut_end n ld s) fr ls" "lk_data (cut_end n ld s) = (lk_data s)(n := (lk_data s n)\<lparr>l_len := l_start ld\<rparr>)"
    "lk_frame (set fr \<union> set (ls r)) s (cut_end n ld s)"
proof -
  have "lk_next (cut_end n ld s) = lk_next s" "lk_prev (cut_end n ld s) = lk_prev s" "frlock (cut_end n ld s) = frlock s"
    "flinos (cut_end n ld s) = flinos s" "flckinfo (cut_end n ld s) = flckinfo s"
    by (simp_all add: cut_end_def lk_simps lk_next_eq lk_prev_eq)
  then show "lk_shape (cut_end n ld s) fr ls" using lk_shape_data assms(1) by blast
  show "lk_data (cut_end n ld s) = (lk_data s)(n := (lk_data s n)\<lparr>l_len := l_start ld\<rparr>)"
    by (auto simp: cut_end_def lk_simps fun_eq_iff)
  show "lk_frame (set fr \<union> set (ls r)) s (cut_end n ld s)"
    using assms(2) by (auto simp: lk_frame_def cut_end_def lk_simps same_ids_def)
qed

lemma split_tail_list:
  assumes sh: "lk_shape s fr ls" and r: "ls r = pre @ n # post" and me: "l_pid (lk_data s n) = me"
    and "split_tail me r n ld s = (res, t)" and st: "by_start (map (lk_data s) (n # post))"
  shows "if res = None then t = s else \<exists>m fr' us vs. fr = m # fr' \<and> post = us @ vs \<and> (st ld \<le> st (lk_data s n) \<longrightarrow> us = []) \<and>
      (\<forall>g \<in> set us. st (lk_data s g) < st ld) \<and> (\<forall>g \<in> set vs. st ld \<le> st (lk_data s g)) \<and>
      lk_shape t fr' (ls(r := pre @ n # us @ m # vs)) \<and> m \<notin> set (ls r) \<and>
      lk_data t = (lk_data s)(m := (lk_data s n)\<lparr>l_start := l_end ld\<rparr>) \<and> lk_frame (set fr \<union> set (ls r)) s t"
proof -
  define us where "us = (if st (lk_data s n) < st ld then takeWhile (\<lambda>g. l_start (lk_data s g) <s l_start ld) post else [])"
  define vs where "vs = (if st (lk_data s n) < st ld then dropWhile (\<lambda>g. l_start (lk_data s g) <s l_start ld) post else post)"
  have post: "post = us @ vs" by (simp add: us_def vs_def)
  have usst: "\<forall>g \<in> set us. st (lk_data s g) < st ld"
    by (auto simp: us_def word_order_int dest: set_takeWhileD)
  have vsst: "\<forall>g \<in> set vs. st ld \<le> st (lk_data s g)"
  proof (cases "st (lk_data s n) < st ld")
    case True
    show ?thesis
    proof (cases vs)
      case (Cons v ws)
      then have "\<not> l_start (lk_data s v) <s l_start ld" using True by (auto simp: vs_def dropWhile_eq_Cons_conv)
      moreover have "by_start (map (lk_data s) (v # ws))" using st post Cons by simp
      ultimately show ?thesis using Cons by (fastforce simp: word_order_int)
    qed simp
  next
    case False
    moreover have "\<forall>g \<in> set post. st (lk_data s n) \<le> st (lk_data s g)" using st by simp
    ultimately show ?thesis using post by (intro ballI) (drule_tac x = g in bspec, auto)
  qed
  have "lk_walk s (Some n) = n # post" using lk_walk_list(1) [OF sh r] by simp
  then have fl: "last_before (lk_data s) (l_start ld) (Some n) (lk_walk s (Some n)) = before (pre @ n # us)"
    by (simp add: last_before_eq us_def word_order_int before_def Let_def)
  have spl: "split_tail me r n ld s = insflck me r ((lk_data s n)\<lparr>l_start := l_end ld\<rparr>) (before (pre @ n # us)) s"
    by (simp add: split_tail_def fl Let_def)
  show ?thesis
  proof (cases fr)
    case Nil
    then have "frlock s = None" using lk_shapeD(1) [OF sh] by simp
    then show ?thesis using assms(4) by (simp add: spl insflck_none)
  next
    case (Cons m fr')
    from insflck_ok [OF sh [unfolded Cons], of r "pre @ n # us" vs "before (pre @ n # us)" me "(lk_data s n)\<lparr>l_start := l_end ld\<rparr>"]
    obtain t' where t': "split_tail me r n ld s = (Some m, t')" "lk_shape t' fr' (ls(r := pre @ n # us @ m # vs))" "same_ids s t'"
      "set_of (flox t' m) = (lk_data s n)\<lparr>l_start := l_end ld, l_pid := me\<rparr>"
      "\<And>k. k \<noteq> m \<Longrightarrow> set_of (flox t' k) = set_of (flox s k) \<and> stat (flox t' k) = stat (flox s k)"
      by (auto simp: spl r post)
    have "lk_data t' = (lk_data s)(m := (lk_data s n)\<lparr>l_start := l_end ld\<rparr>)"
      using t'(4,5) me by (auto simp: fun_eq_iff)
    moreover have "m \<notin> set (ls r)" using lk_shapeD(4) [OF sh, of r] Cons by auto
    moreover have "lk_frame (set fr \<union> set (ls r)) s t'" using t'(3,5) Cons by (auto simp: lk_frame_def)
    moreover have "st ld \<le> st (lk_data s n) \<longrightarrow> us = []" by (simp add: us_def)
    ultimately show ?thesis using assms(4) t'(1,2) Cons post usst vsst by auto
  qed
qed


text \<open>Where the new lock may be inserted.\<close>

definition ins_ok :: "flock \<Rightarrow> lkst \<Rightarrow> nat set \<Rightarrow> nat set \<Rightarrow> flock \<Rightarrow> nat option \<Rightarrow> bool" where
  "ins_ok ld0 s A B ld ins \<longleftrightarrow> (case ins of
     Some n \<Rightarrow> n \<in> A \<and> (l_type ld0 \<noteq> F_UNLCK \<longrightarrow> st (lk_data s n) \<le> st ld)
   | None \<Rightarrow> l_type ld0 \<noteq> F_UNLCK \<longrightarrow> (\<forall>m \<in> B. st ld \<le> st (lk_data s m)))"

definition step_ok ::
  "u16 \<Rightarrow> flref \<Rightarrow> flock list \<Rightarrow> flock \<Rightarrow> nat list \<Rightarrow> (flref \<Rightarrow> nat list) \<Rightarrow> lkst \<Rightarrow> nat list \<Rightarrow> adj_step \<Rightarrow> bool" where
  "step_ok me r fs0 ld0 fr ls s rest R \<longleftrightarrow> (case R of
     Adj_return None t \<Rightarrow> t = s \<and> assigned me fs0 ld0 (map (lk_data s) (ls r)) \<and>
        by_start (map (lk_data s) (ls r)) \<and> in_line me (map (lk_data s) (ls r))
   | Adj_return (Some e) t \<Rightarrow> e = ENOLCK \<and> t = s
   | Adj_go go ins ld t \<Rightarrow> lk_frame (set fr \<union> set (ls r)) s t \<and> (\<exists>fr' pre post. lk_shape t fr' (ls(r := pre @ post)) \<and>
        set fr' \<union> set (pre @ post) = set fr \<union> set (ls r) \<and>
        (if go then post = rest \<and> ins_ok ld0 t (set pre) (set (pre @ post)) ld ins \<and>
           adj_inv me fs0 ld0 ld (map (lk_data t) pre) (map (lk_data t) post)
         else ins_ok ld0 t (set (pre @ post)) (set (pre @ post)) ld ins \<and> adj_exit me fs0 ld0 ld (map (lk_data t) (pre @ post)))))"

lemma step_go:
  assumes "lk_shape t fr' (ls(r := pre @ rest))" "set fr' \<union> set (pre @ rest) = set fr \<union> set (ls r)"
    "lk_frame (set fr \<union> set (ls r)) s t" "ins_ok ld0 t (set pre) (set (pre @ rest)) ld ins"
    "adj_inv me fs0 ld0 ld (map (lk_data t) pre) (map (lk_data t) rest)"
  shows "step_ok me r fs0 ld0 fr ls s rest (Adj_go True ins ld t)"
  unfolding step_ok_def adj_step.case using assms by auto

lemma step_stop:
  assumes "lk_shape t fr' (ls(r := xs))" "set fr' \<union> set xs = set fr \<union> set (ls r)"
    "lk_frame (set fr \<union> set (ls r)) s t" "ins_ok ld0 t (set xs) (set xs) ld ins" "adj_exit me fs0 ld0 ld (map (lk_data t) xs)"
  shows "step_ok me r fs0 ld0 fr ls s rest (Adj_go False ins ld t)"
proof -
  have "ls(r := xs) = ls(r := [] @ xs)" by simp
  then show ?thesis unfolding step_ok_def adj_step.case using assms by (metis append_Nil)
qed

lemma regflck_int:
  "regflck ld f =
     (if st f < st ld \<and> en f < st ld then (S_AFTER, E_AFTER)
      else if st f < st ld \<and> st ld = en f then (S_END, E_AFTER)
      else (if st f < st ld then S_MIDDLE else if st ld = st f then S_START else S_BEFORE,
         if st f < en ld then (if en f < en ld then E_AFTER else if en ld = en f then E_END else E_MIDDLE)
         else if en ld = st f then E_START else E_BEFORE))"
  unfolding regflck_def word_order_int ..

definition adj_at ::
  "u16 \<Rightarrow> flref \<Rightarrow> flock list \<Rightarrow> flock \<Rightarrow> nat list \<Rightarrow> (flref \<Rightarrow> nat list) \<Rightarrow> lkst \<Rightarrow> nat list \<Rightarrow> nat \<Rightarrow> nat list \<Rightarrow>
    nat option \<Rightarrow> flock \<Rightarrow> bool" where
  "adj_at me r fs0 ld0 fr ls s pre n rest ins ld \<longleftrightarrow> lk_shape s fr ls \<and> ls r = pre @ n # rest \<and> l_pid (lk_data s n) = me \<and>
     adj_inv me fs0 ld0 ld (map (lk_data s) pre) (lk_data s n # map (lk_data s) rest) \<and>
     ins_ok ld0 s (insert n (set pre)) (set (ls r)) ld ins \<and> (\<forall>f \<in> set fs0. l_type f \<noteq> F_UNLCK)"

lemma adj_atD:
  assumes "adj_at me r fs0 ld0 fr ls s pre n rest ins ld"
  shows "lk_shape s fr ls" "ls r = pre @ n # rest" "l_pid (lk_data s n) = me"
    "adj_inv me fs0 ld0 ld (map (lk_data s) pre) (lk_data s n # map (lk_data s) rest)"
    "ins_ok ld0 s (insert n (set pre)) (set (ls r)) ld ins" "l_type (lk_data s n) \<noteq> F_UNLCK"
    "\<And>m. m \<in> set pre \<Longrightarrow> st (lk_data s m) \<le> st (lk_data s n)" "by_start (map (lk_data s) (n # rest))"
    "n \<notin> set pre" "n \<notin> set rest" "f_prev (flox s n) = before pre"
proof -
  have A: "lk_shape s fr ls" "ls r = pre @ n # rest" "l_pid (lk_data s n) = me"
    "adj_inv me fs0 ld0 ld (map (lk_data s) pre) (lk_data s n # map (lk_data s) rest)"
    "ins_ok ld0 s (insert n (set pre)) (set (ls r)) ld ins" "\<forall>f \<in> set fs0. l_type f \<noteq> F_UNLCK"
    using assms unfolding adj_at_def by blast+
  show "lk_shape s fr ls" "ls r = pre @ n # rest" "l_pid (lk_data s n) = me"
    "adj_inv me fs0 ld0 ld (map (lk_data s) pre) (lk_data s n # map (lk_data s) rest)"
    "ins_ok ld0 s (insert n (set pre)) (set (ls r)) ld ins" by (rule A)+
  show "l_type (lk_data s n) \<noteq> F_UNLCK" using A(6) adj_invD(2) [OF A(4,3)] by blast
  have b: "by_start (map (lk_data s) pre @ lk_data s n # map (lk_data s) rest)" by (rule adj_inv_parts(3) [OF A(4)])
  then show "by_start (map (lk_data s) (n # rest))" by simp
  show "st (lk_data s m) \<le> st (lk_data s n)" if "m \<in> set pre" for m using b that by simp
  have "distinct (pre @ n # rest)" using lk_shapeD(6) [OF A(1), of r] A(2) by simp
  then show "n \<notin> set pre" "n \<notin> set rest" by auto
  show "f_prev (flox s n) = before pre" by (rule lk_walk_list(4) [OF A(1,2) refl])
qed

text \<open>The insertion point after the lock at hand is deleted.\<close>

lemma before_mem: "before pre = Some m \<Longrightarrow> m \<in> set pre"
  by (auto simp: before_def split: if_splits)

lemma ins_ok_before:
  assumes "adj_at me r fs0 ld0 fr ls s pre n rest ins ld" "lk_data t = lk_data s" "set pre \<subseteq> A" "B \<subseteq> set pre \<union> set rest"
    "l_type ld0 = F_UNLCK \<or> st (lk_data s n) = st l"
  shows "ins_ok ld0 t A B l (before pre)"
proof (cases "before pre")
  case None
  then have "pre = []" by (simp add: before_def split: if_splits)
  moreover have "\<forall>m \<in> set rest. st (lk_data s n) \<le> st (lk_data s m)" using adj_atD(8) [OF assms(1)] by simp
  ultimately show ?thesis using None assms(4,5) unfolding ins_ok_def assms(2) by auto
next
  case (Some m)
  with before_mem [OF Some] show ?thesis using assms(3,5) adj_atD(7) [OF assms(1), of m] unfolding ins_ok_def assms(2) by auto
qed

lemma ins_ok_moved:
  assumes at: "adj_at me r fs0 ld0 fr ls s pre n rest ins ld" and t: "lk_data t = lk_data s" "set pre \<subseteq> A" "B \<subseteq> set pre \<union> set rest"
    and l: "st l = st ld" and f: "st ld < st (lk_data s n)"
  shows "ins_ok ld0 t A B l (if ins = Some n then before pre else ins)"
proof (cases "ins = Some n")
  case True
  with adj_atD(5) [OF at] f have "l_type ld0 = F_UNLCK" by (auto simp: ins_ok_def)
  with ins_ok_before [OF at t] True show ?thesis by simp
next
  case False
  with adj_atD(2,5) [OF at] t l show ?thesis by (auto simp: ins_ok_def split: option.splits)
qed

lemma step_del_go:
  assumes at: "adj_at me r fs0 ld0 fr ls s pre n rest ins ld"
    and "ins_ok ld0 (delflck r n s) (set pre) (set (pre @ rest)) l i" "adj_inv me fs0 ld0 l (map (lk_data s) pre) (map (lk_data s) rest)"
  shows "step_ok me r fs0 ld0 fr ls s rest (Adj_go True i l (delflck r n s))"
proof (rule step_go)
  note D = adj_atD [OF at] and del = del_list [OF D(1,2)]
  show "lk_shape (delflck r n s) (n # fr) (ls(r := pre @ rest))" by (rule del)
  show "set (n # fr) \<union> set (pre @ rest) = set fr \<union> set (ls r)" using D(2) by auto
  show "lk_frame (set fr \<union> set (ls r)) s (delflck r n s)" by (rule del)
  show "adj_inv me fs0 ld0 l (map (lk_data (delflck r n s)) pre) (map (lk_data (delflck r n s)) rest)"
    unfolding del(2) by (rule assms(3))
qed (rule assms(2))

lemma step_del_stop:
  assumes at: "adj_at me r fs0 ld0 fr ls s pre n rest ins ld"
    and "ins_ok ld0 (delflck r n s) (set (pre @ rest)) (set (pre @ rest)) l i" "adj_exit me fs0 ld0 l (map (lk_data s) pre @ map (lk_data s) rest)"
  shows "step_ok me r fs0 ld0 fr ls s rest (Adj_go False i l (delflck r n s))"
proof (rule step_stop)
  note D = adj_atD [OF at] and del = del_list [OF D(1,2)]
  show "lk_shape (delflck r n s) (n # fr) (ls(r := pre @ rest))" by (rule del)
  show "set (n # fr) \<union> set (pre @ rest) = set fr \<union> set (ls r)" using D(2) by auto
  show "lk_frame (set fr \<union> set (ls r)) s (delflck r n s)" by (rule del)
  show "adj_exit me fs0 ld0 l (map (lk_data (delflck r n s)) (pre @ rest))"
    unfolding del(2) map_append by (rule assms(3))
qed (rule assms(2))

lemma step_cut_go:
  assumes at: "adj_at me r fs0 ld0 fr ls s pre n rest ins ld"
    and f: "st (lk_data s n) < st ld" "st ld \<le> en (lk_data s n)" "en (lk_data s n) \<le> en ld"
  shows "step_ok me r fs0 ld0 fr ls s rest (Adj_go True (Some n) ld (cut_end n ld s))"
proof (rule step_go)
  note D = adj_atD [OF at]
  have n: "n \<in> set (ls r)" using D(2) by simp
  note cut = cut_end_list [OF D(1) n]
  show "lk_shape (cut_end n ld s) fr (ls(r := (pre @ [n]) @ rest))" using cut(1) D(2) by (simp add: fun_upd_idem)
  show "lk_frame (set fr \<union> set (ls r)) s (cut_end n ld s)" by (rule cut)
  show "set fr \<union> set ((pre @ [n]) @ rest) = set fr \<union> set (ls r)" using D(2) by simp
  show "ins_ok ld0 (cut_end n ld s) (set (pre @ [n])) (set ((pre @ [n]) @ rest)) ld (Some n)" unfolding ins_ok_def cut(2) using f(1) by simp
  have "adj_inv me fs0 ld0 ld (map (lk_data s) pre @ [(lk_data s n)\<lparr>l_len := l_start ld\<rparr>]) (map (lk_data s) rest)"
  proof (cases "st ld = en (lk_data s n)")
    case True
    then have "(lk_data s n)\<lparr>l_len := l_start ld\<rparr> = lk_data s n" by (simp add: word_order_int(3) [symmetric])
    then show ?thesis using adj_inv_skip [OF D(4)] True by simp
  next
    case False
    then show ?thesis using f by (intro adj_inv_cut [OF D(4,3)]) auto
  qed
  then show "adj_inv me fs0 ld0 ld (map (lk_data (cut_end n ld s)) (pre @ [n])) (map (lk_data (cut_end n ld s)) rest)"
    using D(9,10) unfolding cut(2) by simp
qed

text \<open>A lock of another type that the region ends in: its tail becomes a lock of its own.\<close>

lemma step_split:
  assumes at: "adj_at me r fs0 ld0 fr ls s pre n rest ins ld"
    and f: "st (lk_data s n) < en ld" "en ld < en (lk_data s n)" "l_type ld \<noteq> l_type (lk_data s n)"
    and sp: "split_tail me r n ld s = (res, t)"
  shows "res = None \<Longrightarrow> step_ok me r fs0 ld0 fr ls s rest (Adj_return (Some ENOLCK) t)"
    "res \<noteq> None \<Longrightarrow> st (lk_data s n) < st ld \<Longrightarrow> step_ok me r fs0 ld0 fr ls s rest (Adj_go False (Some n) ld (cut_end n ld t))"
    "res \<noteq> None \<Longrightarrow> st ld \<le> st (lk_data s n) \<Longrightarrow> f_prev (flox t n) = before pre \<and>
       ((\<forall>A. set pre \<subseteq> A \<longrightarrow> ins_ok ld0 s A (set pre \<union> set rest) ld i) \<longrightarrow> step_ok me r fs0 ld0 fr ls s rest (Adj_go False i ld (delflck r n t)))"
proof -
  note D = adj_atD [OF at]
  let ?f = "lk_data s n" let ?td = "?f\<lparr>l_start := l_end ld\<rparr>"
  note S = split_tail_list [OF D(1,2,3) sp D(8)]
  show "res = None \<Longrightarrow> step_ok me r fs0 ld0 fr ls s rest (Adj_return (Some ENOLCK) t)"
    using S by (simp add: step_ok_def)
  assume "res \<noteq> None"
  with S obtain m fr' us vs where m: "fr = m # fr'" "rest = us @ vs" "st ld \<le> st ?f \<longrightarrow> us = []"
      "\<forall>g \<in> set us. st (lk_data s g) < st ld" "\<forall>g \<in> set vs. st ld \<le> st (lk_data s g)"
      "lk_shape t fr' (ls(r := pre @ n # us @ m # vs))" "m \<notin> set (ls r)"
      "lk_data t = (lk_data s)(m := ?td)" "lk_frame (set fr \<union> set (ls r)) s t"
    unfolding if_not_P [OF \<open>res \<noteq> None\<close>] by blast
  have mn: "m \<notin> set pre" "m \<notin> set us" "m \<notin> set vs" "m \<noteq> n" "n \<notin> set us" "n \<notin> set vs"
    using m(2,7) D(2,10) by auto
  have sets: "insert m (set fr') = set fr" "set (ls r) = set pre \<union> insert n (set us \<union> set vs)" using m(1,2) D(2) by auto
  note exit = adj_inv_split [OF D(4,3) f(1,2) f(3) [symmetric] _ _ _ refl, of "map (lk_data s) us" "map (lk_data s) vs"]
  have r': "(ls(r := pre @ n # us @ m # vs)) r = pre @ n # (us @ m # vs)" by simp
  show "step_ok me r fs0 ld0 fr ls s rest (Adj_go False (Some n) ld (cut_end n ld t))" if front: "st ?f < st ld"
  proof (rule step_stop)
    have n: "n \<in> set ((ls(r := pre @ n # us @ m # vs)) r)" by simp
    note cut = cut_end_list [OF m(6) n]
    show "lk_shape (cut_end n ld t) fr' (ls(r := pre @ n # us @ m # vs))" by (rule cut)
    show "set fr' \<union> set (pre @ n # us @ m # vs) = set fr \<union> set (ls r)" unfolding sets(1) [symmetric] sets(2) by auto
    have "set fr' \<union> set ((ls(r := pre @ n # us @ m # vs)) r) = set fr \<union> set (ls r)" unfolding sets(1) [symmetric] sets(2) by auto
    then show "lk_frame (set fr \<union> set (ls r)) s (cut_end n ld t)" using lk_frame_trans [OF m(9)] cut(3) by simp
    show "ins_ok ld0 (cut_end n ld t) (set (pre @ n # us @ m # vs)) (set (pre @ n # us @ m # vs)) ld (Some n)"
      unfolding ins_ok_def cut(2) m(8) using front mn(4) by simp
    have "adj_exit me fs0 ld0 ld (map (lk_data s) pre @ [?f\<lparr>l_len := l_start ld\<rparr>] @ map (lk_data s) us @ ?td # map (lk_data s) vs)"
      using m(2,4,5) front by (intro exit) auto
    then show "adj_exit me fs0 ld0 ld (map (lk_data (cut_end n ld t)) (pre @ n # us @ m # vs))"
      unfolding cut(2) m(8) using mn D(9) by simp
  qed
  assume behind: "st ld \<le> st ?f"
  then have us: "us = []" using m(3) by simp
  show "f_prev (flox t n) = before pre \<and>
     ((\<forall>A. set pre \<subseteq> A \<longrightarrow> ins_ok ld0 s A (set pre \<union> set rest) ld i) \<longrightarrow> step_ok me r fs0 ld0 fr ls s rest (Adj_go False i ld (delflck r n t)))"
  proof (intro conjI impI)
    show "f_prev (flox t n) = before pre" by (rule lk_walk_list(4) [OF m(6) r' refl])
    assume i: "\<forall>A. set pre \<subseteq> A \<longrightarrow> ins_ok ld0 s A (set pre \<union> set rest) ld i"
    note del = del_list [OF m(6) r']
    show "step_ok me r fs0 ld0 fr ls s rest (Adj_go False i ld (delflck r n t))"
    proof (rule step_stop)
      show "lk_shape (delflck r n t) (n # fr') (ls(r := pre @ us @ m # vs))" using del(1) by (simp only: fun_upd_upd)
      show "set (n # fr') \<union> set (pre @ us @ m # vs) = set fr \<union> set (ls r)" unfolding sets(1) [symmetric] sets(2) by auto
      have "set fr' \<union> set ((ls(r := pre @ n # us @ m # vs)) r) = set fr \<union> set (ls r)" unfolding sets(1) [symmetric] sets(2) by auto
      then show "lk_frame (set fr \<union> set (ls r)) s (delflck r n t)" using lk_frame_trans [OF m(9)] del(3) by simp
      have "ins_ok ld0 s (set pre) (set pre \<union> set rest) ld i" using i by blast
      then show "ins_ok ld0 (delflck r n t) (set (pre @ us @ m # vs)) (set (pre @ us @ m # vs)) ld i"
        unfolding ins_ok_def del(2) m(2,8) using mn(1) adj_invD(6) [OF D(4,3)] by (auto split: option.splits)
      have "adj_exit me fs0 ld0 ld (map (lk_data s) pre @ [] @ map (lk_data s) us @ ?td # map (lk_data s) vs)"
        using m(2,4,5) behind by (intro exit) auto
      then show "adj_exit me fs0 ld0 ld (map (lk_data (delflck r n t)) (pre @ us @ m # vs))"
        unfolding del(2) m(8) using mn by simp
    qed
  qed
qed

lemma step_skip_go:
  assumes at: "adj_at me r fs0 ld0 fr ls s pre n rest ins ld" and f: "st (lk_data s n) < st ld" "en (lk_data s n) \<le> st ld"
  shows "step_ok me r fs0 ld0 fr ls s rest (Adj_go True (Some n) ld s)"
proof (rule step_go)
  note D = adj_atD [OF at]
  show "lk_shape s fr (ls(r := (pre @ [n]) @ rest))" using D(1,2) by (simp add: fun_upd_idem)
  show "set fr \<union> set ((pre @ [n]) @ rest) = set fr \<union> set (ls r)" using D(2) by simp
  show "ins_ok ld0 s (set (pre @ [n])) (set ((pre @ [n]) @ rest)) ld (Some n)" using f(1) by (simp add: ins_ok_def)
  show "adj_inv me fs0 ld0 ld (map (lk_data s) (pre @ [n])) (map (lk_data s) rest)" using adj_inv_skip [OF D(4)] f(2) by simp
qed simp

lemma step_past_stop:
  assumes at: "adj_at me r fs0 ld0 fr ls s pre n rest ins ld" and f: "en ld \<le> st (lk_data s n)"
  shows "step_ok me r fs0 ld0 fr ls s rest (Adj_go False ins ld s)"
proof (rule step_stop)
  note D = adj_atD [OF at]
  show "lk_shape s fr (ls(r := ls r))" "set fr \<union> set (ls r) = set fr \<union> set (ls r)" "lk_frame (set fr \<union> set (ls r)) s s"
    using D(1) by simp_all
  show "ins_ok ld0 s (set (ls r)) (set (ls r)) ld ins" using D(2,5) by (auto simp: ins_ok_def split: option.splits)
  have "en ld \<le> st g" if "g \<in> set (lk_data s n # map (lk_data s) rest)" "l_pid g = me" for g
    using adj_invD(1,3) [OF D(4,3)] that f by fastforce
  from adj_inv_exit [OF D(4) this] show "adj_exit me fs0 ld0 ld (map (lk_data s) (ls r))" by (simp add: D(2))
qed

lemma step_inside:
  assumes at: "adj_at me r fs0 ld0 fr ls s pre n rest ins ld"
    and f: "st (lk_data s n) \<le> st ld" "en ld \<le> en (lk_data s n)" "l_type ld = l_type (lk_data s n)"
  shows "step_ok me r fs0 ld0 fr ls s rest (Adj_return None s)"
  using adj_inv_inside [OF adj_atD(4,3) [OF at] f adj_atD(6) [OF at]] adj_atD(2) [OF at] by (simp add: step_ok_def)

text \<open>The cases of the switch, by where the region and the lock meet.\<close>

lemma regflck_cases:
  assumes "st ld < en ld" "st f < en f"
  obtains (clear) "regflck ld f = (S_BEFORE, E_BEFORE)" "en ld < st f"
    | (touch) "regflck ld f = (S_BEFORE, E_START)" "en ld = st f"
    | (exact) "regflck ld f = (S_START, E_END)" "st ld = st f" "en ld = en f"
    | (covers) "regflck ld f = (S_START, E_AFTER)" "st ld = st f" "en f < en ld"
    | (to_end) "regflck ld f = (S_BEFORE, E_END)" "st ld < st f" "en ld = en f"
    | (beyond) "regflck ld f = (S_BEFORE, E_AFTER)" "st ld < st f" "en f < en ld"
    | (low) "regflck ld f = (S_BEFORE, E_MIDDLE)" "st ld < st f" "st f < en ld" "en ld < en f"
    | (front) "regflck ld f = (S_START, E_MIDDLE)" "st ld = st f" "en ld < en f"
    | (mid) "regflck ld f = (S_MIDDLE, E_MIDDLE)" "st f < st ld" "en ld < en f"
    | (tail) "regflck ld f = (S_MIDDLE, E_END)" "st f < st ld" "en ld = en f"
    | (high) "regflck ld f = (S_MIDDLE, E_AFTER)" "st f < st ld" "st ld < en f" "en f < en ld"
    | (after) "regflck ld f = (S_END, E_AFTER)" "st f < st ld" "st ld = en f"
    | (past) "regflck ld f = (S_AFTER, E_AFTER)" "st f < st ld" "en f < st ld"
proof (cases "st ld" "st f" rule: linorder_cases)
  case less
  then show thesis using assms that(1,2,5-7) unfolding regflck_int
    by (cases "en ld" "st f" rule: linorder_cases; cases "en ld" "en f" rule: linorder_cases) simp_all
next
  case equal
  then show thesis using assms that(3,4,8) unfolding regflck_int
    by (cases "en ld" "en f" rule: linorder_cases) simp_all
next
  case greater
  then show thesis using assms that(9-13) unfolding regflck_int
    by (cases "st ld" "en f" rule: linorder_cases; cases "en ld" "en f" rule: linorder_cases) simp_all
qed

lemma adj_inv_del_last:
  assumes I: "adj_inv me fs0 ld0 ld P (f # Q)" and f: "l_pid f = me" "st ld \<le> st f" "en f = en ld"
  shows "adj_exit me fs0 ld0 ld (P @ Q)"
  using adj_invD(3) [OF I f(1)] f by (intro adj_inv_exit adj_inv_del [OF I f(1)]) auto

lemma adj_case_ok:
  assumes at: "adj_at me r fs0 ld0 fr ls s pre n rest ins ld"
  shows "step_ok me r fs0 ld0 fr ls s rest (adj_case me r n ins ld s)"
proof -
  note D = adj_atD [OF at] and del = del_list(2) [OF adj_atD(1,2) [OF at]]
  let ?f = "lk_data s n"
  note moved = ins_ok_moved [OF at del] and bef = ins_ok_before [OF at del]
  note E = adj_invD(6) [OF D(4,3)] adj_invD(1) [OF D(4,3)]
  obtain res t where sp: "split_tail me r n ld s = (res, t)" by (cases "split_tail me r n ld s")
  note split = step_split [OF at _ _ _ sp]
  from E show ?thesis
  proof (cases rule: regflck_cases)
    case clear then show ?thesis using step_past_stop [OF at] by (simp add: adj_case_def Let_def)
  next
    case touch then show ?thesis
      using step_past_stop [OF at] step_del_stop [OF at moved adj_inv_merge_high [OF D(4,3)]] E D(11)
      by (simp add: adj_case_def Let_def)
  next
    case exact then show ?thesis
      using step_inside [OF at] step_del_go [OF at bef adj_inv_del [OF D(4,3)]] D(11) by (simp add: adj_case_def Let_def)
  next
    case covers then show ?thesis
      using step_del_go [OF at bef adj_inv_del [OF D(4,3)]] D(11) by (simp add: adj_case_def Let_def)
  next
    case beyond then show ?thesis
      using step_del_go [OF at moved adj_inv_del [OF D(4,3)]] D(11) by (simp add: adj_case_def Let_def)
  next
    case tail then show ?thesis
      using step_inside [OF at] step_cut_go [OF at] E by (simp add: adj_case_def Let_def)
  next
    case past then show ?thesis using step_skip_go [OF at] by (simp add: adj_case_def Let_def)
  next
    case high then show ?thesis
      using step_cut_go [OF at] step_del_go [OF at bef adj_inv_merge_low [OF D(4,3)]] D(11) by (simp add: adj_case_def Let_def)
  next
    case after then show ?thesis
      using step_cut_go [OF at] step_del_go [OF at bef adj_inv_merge_low [OF D(4,3)]] D(11) E by (simp add: adj_case_def Let_def)
  next
    case to_end then show ?thesis
      using step_del_go [OF at moved adj_inv_del [OF D(4,3)]] step_del_stop [OF at moved adj_inv_del_last [OF D(4,3)]] D(11)
      by (cases "l_type ld = l_type ?f") (simp_all add: adj_case_def Let_def)
  next
    case low then show ?thesis
      using step_del_stop [OF at moved adj_inv_merge_high [OF D(4,3)]] split(1) split(3) [where i = "before pre"]
        split(3) [where i = ins] ins_ok_moved [OF at refl _ subset_refl refl] sp D(11)
      by (cases res; cases "ins = Some n"; cases "l_type ld = l_type ?f") (simp_all add: adj_case_def Let_def)
  next
    case front then show ?thesis
      using step_inside [OF at] split(1) split(3) [where i = "before pre"] ins_ok_before [OF at refl _ subset_refl] E sp
      by (cases res; cases "l_type ld = l_type ?f") (simp_all add: adj_case_def Let_def)
  next
    case mid then show ?thesis
      using step_inside [OF at] split(1,2) E sp by (cases res) (simp_all add: adj_case_def Let_def)
  qed
qed

section \<open>The whole of \<open>flckadj\<close>\<close>

text \<open>What the loop answers, and what the whole function leaves, for a list that used the entries
  \<open>A\<close> of the table, free ones included.\<close>

definition lk_list_to :: "nat set \<Rightarrow> flref \<Rightarrow> (flref \<Rightarrow> nat list) \<Rightarrow> lkst \<Rightarrow> lkst \<Rightarrow> nat list \<Rightarrow> bool" where
  "lk_list_to A r ls s t xs \<longleftrightarrow> lk_frame A s t \<and> (\<exists>fr'. lk_shape t fr' (ls(r := xs)) \<and> set fr' \<union> set xs = A)"

definition adj_fail :: "u16 \<Rightarrow> flock list \<Rightarrow> flock \<Rightarrow> errno \<Rightarrow> flock list \<Rightarrow> bool" where
  "adj_fail me fs0 ld e fs \<longleftrightarrow> e = ENOLCK \<and> foreign me fs = foreign me fs0 \<and> held me fs \<subseteq> held me fs0 \<and>
     (tidy me fs0 ld \<longrightarrow> by_start fs \<and> in_line me fs)"

definition adj_result ::
  "u16 \<Rightarrow> flref \<Rightarrow> flock list \<Rightarrow> flock \<Rightarrow> nat set \<Rightarrow> (flref \<Rightarrow> nat list) \<Rightarrow> lkst \<Rightarrow>
    (errno option \<times> lkst + nat option \<times> flock \<times> lkst) \<Rightarrow> bool" where
  "adj_result me r fs0 ld0 A ls s R \<longleftrightarrow> (case R of
     Inl (rv, t) \<Rightarrow> \<exists>xs. lk_list_to A r ls s t xs \<and> (case rv of
         None \<Rightarrow> assigned me fs0 ld0 (map (lk_data t) xs) \<and> by_start (map (lk_data t) xs) \<and> in_line me (map (lk_data t) xs)
       | Some e \<Rightarrow> adj_fail me fs0 ld0 e (map (lk_data t) xs))
   | Inr (ins, ld, t) \<Rightarrow> \<exists>xs. lk_list_to A r ls s t xs \<and> ins_ok ld0 t (set xs) (set xs) ld ins \<and>
        adj_exit me fs0 ld0 ld (map (lk_data t) xs))"

lemma adj_result_mono:
  "lk_frame A s t \<Longrightarrow> adj_result me r fs0 ld0 A ls t R \<Longrightarrow> adj_result me r fs0 ld0 A ls s R"
  unfolding adj_result_def lk_list_to_def by (auto split: sum.splits intro: lk_frame_trans)

lemma adj_inv_held_sub:
  assumes "adj_inv me fs0 ld0 ld P Q" shows "held me (P @ Q) \<subseteq> held me fs0"
proof -
  have "held me Q \<subseteq> held me fs0" using adj_inv_parts(5) [OF assms] by (auto simp: held_def)
  then show ?thesis using adj_inv_parts(7,8) [OF assms] by auto
qed

lemma ins_ok_wider: "ins_ok ld0 s A B ld ins \<Longrightarrow> A \<subseteq> A' \<Longrightarrow> ins_ok ld0 s A' B ld ins"
  by (auto simp: ins_ok_def split: option.splits)

lemma lk_list_to_refl: "lk_shape s fr (ls(r := xs)) \<Longrightarrow> lk_list_to (set fr \<union> set xs) r ls s s xs"
  unfolding lk_list_to_def by auto

lemma adj_loop_ok:
  assumes "lk_shape s fr (ls(r := pre @ rest))" "A = set fr \<union> set (pre @ rest)"
    and "adj_inv me fs0 ld0 ld (map (lk_data s) pre) (map (lk_data s) rest)"
    and "ins_ok ld0 s (set pre \<union> set (take 1 rest)) (set (pre @ rest)) ld ins"
    and ty: "\<forall>f \<in> set fs0. l_type f \<noteq> F_UNLCK"
  shows "\<exists>R. adj_loop me r (case rest of [] \<Rightarrow> None | n # _ \<Rightarrow> Some n) ins ld s = Some R \<and> adj_result me r fs0 ld0 A ls s R"
  using assms(1-4)
proof (induction rest arbitrary: pre s fr ins ld)
  case Nil
  have "adj_exit me fs0 ld0 ld (map (lk_data s) pre)" using adj_inv_exit [OF Nil.prems(3)] by (simp add: comp_def)
  moreover have "lk_list_to A r ls s s pre" using lk_list_to_refl [OF Nil.prems(1)] Nil.prems(2) by simp
  moreover have "ins_ok ld0 s (set pre) (set pre) ld ins" using Nil.prems(4) by simp
  ultimately have "adj_result me r fs0 ld0 A ls s (Inr (ins, ld, s))" unfolding adj_result_def sum.case prod.case by blast
  then show ?case by (simp add: adj_loop.simps [of me r None])
next
  case (Cons n rest)
  let ?ls = "ls(r := pre @ n # rest)" let ?f = "lk_data s n"
  have P: "lk_shape s fr (ls(r := pre @ n # rest))" "A = set fr \<union> set (pre @ n # rest)"
    "adj_inv me fs0 ld0 ld (map (lk_data s) pre) (map (lk_data s) (n # rest))"
    "ins_ok ld0 s (set pre \<union> set (take 1 (n # rest))) (set (pre @ n # rest)) ld ins" by (rule Cons.prems)+
  have r: "?ls r = pre @ n # rest" by simp
  have nx: "f_next (flox s n) = (case rest of [] \<Rightarrow> None | m # _ \<Rightarrow> Some m)" by (rule lk_walk_list(3) [OF P(1) r refl])
  have up: "?ls(r := xs) = ls(r := xs)" for xs by simp
  have here: "lk_list_to A r ls s s (pre @ n # rest)" using lk_list_to_refl [OF P(1)] by (simp add: P(2))
  have failed: "adj_fail me fs0 ld0 ENOLCK (map (lk_data s) (pre @ n # rest))"
    unfolding adj_fail_def map_append using adj_inv_held_sub [OF P(3)] adj_inv_parts(2-4) [OF P(3)] by (simp del: by_start_append in_line_append)
  show ?case
  proof (cases "l_pid ?f = me")
    case True
    have "adj_at me r fs0 ld0 fr ?ls s pre n rest ins ld"
      unfolding adj_at_def using P ty True by simp
    from adj_case_ok [OF this] have ok: "step_ok me r fs0 ld0 fr ?ls s rest (adj_case me r n ins ld s)" .
    have A: "A = set fr \<union> set (?ls r)" unfolding r P(2) ..
    show ?thesis
    proof (cases "adj_case me r n ins ld s")
      case (Adj_return rv t)
      have "adj_result me r fs0 ld0 A ls s (Inl (rv, t))"
        using ok here failed unfolding Adj_return step_ok_def adj_step.case r adj_result_def sum.case prod.case
        by (cases rv) (simp_all only: option.case, blast+)
      then show ?thesis using True Adj_return by (simp add: adj_loop.simps [of me r "Some n"] Let_def)
    next
      case (Adj_go go i l t)
      from ok [unfolded Adj_go step_ok_def adj_step.case up A [symmetric]]
      obtain fr' pre' post where t: "lk_frame A s t" "lk_shape t fr' (ls(r := pre' @ post))" "set fr' \<union> set (pre' @ post) = A"
        "if go then post = rest \<and> ins_ok ld0 t (set pre') (set (pre' @ post)) l i \<and>
           adj_inv me fs0 ld0 l (map (lk_data t) pre') (map (lk_data t) post)
         else ins_ok ld0 t (set (pre' @ post)) (set (pre' @ post)) l i \<and> adj_exit me fs0 ld0 l (map (lk_data t) (pre' @ post))"
        by blast
      show ?thesis
      proof (cases go)
        case True
        then have p: "post = rest" "ins_ok ld0 t (set pre') (set (pre' @ rest)) l i"
          "adj_inv me fs0 ld0 l (map (lk_data t) pre') (map (lk_data t) rest)" using t(4) by auto
        have A': "A = set fr' \<union> set (pre' @ rest)" using t(3) p(1) by simp
        have ins': "ins_ok ld0 t (set pre' \<union> set (take 1 rest)) (set (pre' @ rest)) l i" by (rule ins_ok_wider [OF p(2)]) simp
        from Cons.IH [OF t(2) [unfolded p(1)] A' p(3) ins']
        obtain R where "adj_loop me r (case rest of [] \<Rightarrow> None | n # _ \<Rightarrow> Some n) i l t = Some R" "adj_result me r fs0 ld0 A ls t R"
          by blast
        then show ?thesis using adj_result_mono [OF t(1)] \<open>l_pid ?f = me\<close> Adj_go True nx
          by (simp add: adj_loop.simps [of me r "Some n"] Let_def)
      next
        case False
        have "lk_list_to A r ls s t (pre' @ post)" using t unfolding lk_list_to_def by blast
        then have "adj_result me r fs0 ld0 A ls s (Inr (i, l, t))" using t(4) False by (auto simp: adj_result_def)
        then show ?thesis using \<open>l_pid ?f = me\<close> Adj_go False
          by (simp add: adj_loop.simps [of me r "Some n"] adj_loop.simps [of me r None] Let_def)
      qed
    qed
  next
    case other: False
    show ?thesis
    proof (cases "en ld < st ?f")
      case True
      have "en ld \<le> st g" if "g \<in> set (map (lk_data s) (n # rest))" "l_pid g = me" for g
        using that True adj_inv_parts(3) [OF P(3)] by fastforce
      from adj_inv_exit [OF P(3) this]
      have "adj_exit me fs0 ld0 ld (map (lk_data s) (pre @ n # rest))" by simp
      moreover have "ins_ok ld0 s (set (pre @ n # rest)) (set (pre @ n # rest)) ld ins" by (rule ins_ok_wider [OF P(4)]) auto
      ultimately have "adj_result me r fs0 ld0 A ls s (Inr (ins, ld, s))"
        unfolding adj_result_def sum.case prod.case using here by blast
      then show ?thesis using other True
        by (simp add: adj_loop.simps [of me r "Some n"] adj_loop.simps [of me r None] Let_def word_order_int)
    next
      case False
      have "adj_inv me fs0 ld0 ld (map (lk_data s) (pre @ [n])) (map (lk_data s) rest)"
        using adj_inv_skip [of me fs0 ld0 ld "map (lk_data s) pre" ?f] P(3) other by simp
      moreover have "ins_ok ld0 s (set (pre @ [n]) \<union> set (take 1 rest)) (set ((pre @ [n]) @ rest)) ld ins"
        using ins_ok_wider [OF P(4), of "set (pre @ [n]) \<union> set (take 1 rest)"] by fastforce
      moreover have "lk_shape s fr (ls(r := (pre @ [n]) @ rest))" "A = set fr \<union> set ((pre @ [n]) @ rest)" using P(1,2) by simp_all
      ultimately obtain R where "adj_loop me r (case rest of [] \<Rightarrow> None | n # _ \<Rightarrow> Some n) ins ld s = Some R"
          "adj_result me r fs0 ld0 A ls s R"
        using Cons.IH [of s fr "pre @ [n]" ld ins] by blast
      then show ?thesis using other False nx by (simp add: adj_loop.simps [of me r "Some n"] Let_def word_order_int)
    qed
  qed
qed

text \<open>The insertion of the new lock at the end.\<close>

lemma last_before_split:
  assumes sh: "lk_shape s fr ls" and ins: "ins_ok ld0 s (set (ls r)) (set (ls r)) ld ins" and ty: "l_type ld0 \<noteq> F_UNLCK"
  obtains us vs where "ls r = us @ vs" "last_before (lk_data s) (l_start ld) ins (lk_walk s ins) = before us"
    "by_start (map (lk_data s) (ls r)) \<longrightarrow> (\<forall>m \<in> set us. st (lk_data s m) \<le> st ld) \<and> (\<forall>m \<in> set vs. st ld \<le> st (lk_data s m))"
proof (cases ins)
  case None
  then have "last_before (lk_data s) (l_start ld) ins (lk_walk s ins) = before []"
    by (simp add: lk_walk_def walk_chain [of _ None "[]"])
  moreover have "\<forall>m \<in> set (ls r). st ld \<le> st (lk_data s m)" using ins None ty by (simp add: ins_ok_def)
  ultimately show thesis using that [of "[]" "ls r"] by simp
next
  case (Some n)
  then have n: "n \<in> set (ls r)" "st (lk_data s n) \<le> st ld" using ins ty by (auto simp: ins_ok_def)
  then obtain pre post where r: "ls r = pre @ n # post" by (meson split_list)
  define ys where "ys = takeWhile (\<lambda>m. l_start (lk_data s m) <s l_start ld) (n # post)"
  define zs where "zs = dropWhile (\<lambda>m. l_start (lk_data s m) <s l_start ld) (n # post)"
  have yz: "n # post = ys @ zs" by (simp add: ys_def zs_def)
  have lb: "last_before (lk_data s) (l_start ld) ins (lk_walk s ins) = (if ys = [] then Some n else Some (last ys))"
    using lk_walk_list(1) [OF sh r] by (simp add: Some last_before_eq ys_def Let_def)
  have yst: "\<forall>m \<in> set ys. st (lk_data s m) < st ld" by (auto simp: ys_def word_order_int dest: set_takeWhileD)
  have zst: "\<forall>m \<in> set zs. st ld \<le> st (lk_data s m)" if "by_start (map (lk_data s) (ls r))"
  proof (cases zs)
    case (Cons z ws)
    then have "\<not> l_start (lk_data s z) <s l_start ld"
      using hd_dropWhile [of "\<lambda>m. l_start (lk_data s m) <s l_start ld" "n # post"] unfolding zs_def [symmetric] by simp
    moreover have "by_start (map (lk_data s) (z # ws))" using that r yz Cons by simp
    ultimately show ?thesis using Cons by (fastforce simp: word_order_int)
  qed simp
  show thesis
  proof (cases "ys = []")
    case False
    have "\<forall>m \<in> set (pre @ ys). st (lk_data s m) \<le> st ld" if "by_start (map (lk_data s) (ls r))"
      using that n(2) yst unfolding r by fastforce
    then show thesis using that [of "pre @ ys" zs] lb False zst r yz by (simp add: before_def)
  next
    case True
    then have "\<forall>m \<in> set (pre @ [n]). st (lk_data s m) \<le> st ld" if "by_start (map (lk_data s) (ls r))"
      using that n(2) unfolding r by fastforce
    moreover have "\<forall>m \<in> set post. st ld \<le> st (lk_data s m)" if "by_start (map (lk_data s) (ls r))"
      using zst [OF that] yz True by (metis append_Nil list.set_intros(2))
    ultimately show thesis using that [of "pre @ [n]" post] lb True r by simp
  qed
qed

text \<open>\<open>flckadj\<close> called from \<open>insrtp\<close>, or from the head of the list: everything before is away from
  the region.\<close>

definition adj_call :: "u16 \<Rightarrow> flref \<Rightarrow> (flref \<Rightarrow> nat list) \<Rightarrow> lkst \<Rightarrow> nat list \<Rightarrow> nat list \<Rightarrow> flock \<Rightarrow> nat option \<Rightarrow> bool" where
  "adj_call me r ls s pre rest ld ins \<longleftrightarrow> ls r = pre @ rest \<and> st ld < en ld \<and>
     by_start (map (lk_data s) (ls r)) \<and> in_line me (map (lk_data s) (ls r)) \<and>
     (\<forall>n \<in> set (ls r). l_type (lk_data s n) \<noteq> F_UNLCK) \<and> held me (map (lk_data s) pre) \<inter> rng ld \<times> UNIV = {} \<and>
     (case ins of None \<Rightarrow> pre = [] \<and> (l_type ld \<noteq> F_UNLCK \<longrightarrow> (\<forall>n \<in> set rest. st ld \<le> st (lk_data s n)))
      | Some n \<Rightarrow> rest \<noteq> [] \<and> n = hd rest \<and> (l_type ld \<noteq> F_UNLCK \<longrightarrow> st (lk_data s n) \<le> st ld))"

lemma flckadj_ok:
  assumes sh: "lk_shape s fr ls" and c: "adj_call me r ls s pre rest ld ins"
  shows "\<exists>rv t xs. flckadj me r ins ld s = Some (rv, t) \<and> lk_list_to (set fr \<union> set (ls r)) r ls s t xs \<and>
     (case rv of
        None \<Rightarrow> assigned me (map (lk_data s) (ls r)) ld (map (lk_data t) xs) \<and>
          (tidy me (map (lk_data s) (ls r)) ld \<longrightarrow> by_start (map (lk_data t) xs) \<and> in_line me (map (lk_data t) xs))
      | Some e \<Rightarrow> adj_fail me (map (lk_data s) (ls r)) ld e (map (lk_data t) xs))"
proof -
  let ?fs = "map (lk_data s) (ls r)" and ?A = "set fr \<union> set (ls r)"
  have C: "ls r = pre @ rest" "by_start ?fs" "in_line me ?fs" "st ld < en ld" "\<forall>n \<in> set (ls r). l_type (lk_data s n) \<noteq> F_UNLCK"
    "held me (map (lk_data s) pre) \<inter> rng ld \<times> UNIV = {}" using c by (auto simp: adj_call_def)
  have start: "(if ins = None then fl_flck (flinos s r) else ins) = (case rest of [] \<Rightarrow> None | n # _ \<Rightarrow> Some n)"
  proof (cases ins)
    case None
    then have "ls r = rest" using c by (auto simp: adj_call_def)
    then show ?thesis using None lk_shapeD(2) [OF sh, of r] by (cases rest) (auto simp: lk_list_def)
  next
    case (Some n) then show ?thesis using c by (cases rest) (auto simp: adj_call_def)
  qed
  have ins: "ins_ok ld s (set pre \<union> set (take 1 rest)) (set (pre @ rest)) ld ins"
    using c by (cases rest) (auto simp: adj_call_def ins_ok_def split: option.splits)
  have inv: "adj_inv me ?fs ld ld (map (lk_data s) pre) (map (lk_data s) rest)"
    using adj_inv_start [of "map (lk_data s) pre" "map (lk_data s) rest" me ld] C by simp
  have sh': "lk_shape s fr (ls(r := pre @ rest))" using sh C(1) by (simp add: fun_upd_idem)
  have ty: "\<forall>f \<in> set ?fs. l_type f \<noteq> F_UNLCK" using C(5) by simp
  from adj_loop_ok [OF sh' refl inv ins ty] C(1)
  obtain R where R: "adj_loop me r (if ins = None then fl_flck (flinos s r) else ins) ins ld s = Some R"
    "adj_result me r ?fs ld ?A ls s R" unfolding start by auto
  show ?thesis
  proof (cases R)
    case (Inl q)
    obtain rv t where q: "q = (rv, t)" by (cases q)
    then have "flckadj me r ins ld s = Some (rv, t)" using R(1) Inl by (simp add: flckadj_def)
    moreover obtain xs where "lk_list_to ?A r ls s t xs" "case rv of
         None \<Rightarrow> assigned me ?fs ld (map (lk_data t) xs) \<and> by_start (map (lk_data t) xs) \<and> in_line me (map (lk_data t) xs)
       | Some e \<Rightarrow> adj_fail me ?fs ld e (map (lk_data t) xs)"
      using R(2) unfolding Inl q adj_result_def sum.case prod.case by blast
    ultimately show ?thesis by (intro exI [of _ rv] exI [of _ t] exI [of _ xs]) (auto split: option.splits)
  next
    case (Inr q)
    obtain i l t where q: "q = (i, l, t)" by (cases q)
    obtain xs where t: "lk_list_to ?A r ls s t xs" "ins_ok ld t (set xs) (set xs) l i" "adj_exit me ?fs ld l (map (lk_data t) xs)"
      using R(2) unfolding Inr q adj_result_def sum.case prod.case by blast
    obtain fr' where fr': "lk_shape t fr' (ls(r := xs))" "set fr' \<union> set xs = ?A" "lk_frame ?A s t"
      using t(1) unfolding lk_list_to_def by blast
    have E: "foreign me (map (lk_data t) xs) = foreign me ?fs" "held me (map (lk_data t) xs) \<subseteq> held me ?fs"
      "tidy me ?fs ld \<longrightarrow> by_start (map (lk_data t) xs) \<and> in_line me (map (lk_data t) xs)"
      using t(3) unfolding adj_exit_def by blast+
    show ?thesis
    proof (cases "l_type ld = F_UNLCK")
      case True
      have "flckadj me r ins ld s = Some (None, t)" using R(1) Inr q True by (simp add: flckadj_def)
      moreover have "assigned me ?fs ld (map (lk_data t) xs)" using adj_exit_unlock [OF t(3) True] ty by blast
      moreover have "tidy me ?fs ld \<longrightarrow> by_start (map (lk_data t) xs) \<and> in_line me (map (lk_data t) xs)"
        using t(3) unfolding adj_exit_def by blast
      ultimately show ?thesis using t(1) by (intro exI [of _ None] exI [of _ t] exI [of _ xs]) simp
    next
      case False
      have rx: "(ls(r := xs)) r = xs" by simp
      have t2: "ins_ok ld t (set ((ls(r := xs)) r)) (set ((ls(r := xs)) r)) l i" unfolding rx by (rule t(2))
      obtain us vs where x: "xs = us @ vs" "last_before (lk_data t) (l_start l) i (lk_walk t i) = before us"
          "by_start (map (lk_data t) xs) \<longrightarrow> (\<forall>m \<in> set us. st (lk_data t m) \<le> st l) \<and> (\<forall>m \<in> set vs. st l \<le> st (lk_data t m))"
        by (rule last_before_split [OF fr'(1) t2 False, unfolded rx]) blast
      have F: "flckadj me r ins ld s = Some (case insflck me r l (before us) t of (None, u) \<Rightarrow> (Some ENOLCK, u) | (Some _, u) \<Rightarrow> (None, u))"
        unfolding flckadj_def R(1) Inr q option.map sum.case prod.case if_P [OF False] Let_def x(2) by (rule refl)
      show ?thesis
      proof (cases fr')
        case Nil
        then have "insflck me r l (before us) t = (None, t)" using lk_shapeD(1) [OF fr'(1)] by (simp add: insflck_none)
        then show ?thesis using F t(1) E by (intro exI [of _ "Some ENOLCK"] exI [of _ t] exI [of _ xs]) (simp add: adj_fail_def)
      next
        case (Cons m fr2)
        let ?l = "l\<lparr>l_pid := me\<rparr>"
        from insflck_ok [OF fr'(1) [unfolded Cons] _ refl, of r us vs me l] x(1)
        obtain u where u: "insflck me r l (before us) t = (Some m, u)" "lk_shape u fr2 (ls(r := us @ m # vs))" "same_ids t u"
            "set_of (flox u m) = ?l" "\<And>k. k \<noteq> m \<Longrightarrow> set_of (flox u k) = set_of (flox t k) \<and> stat (flox u k) = stat (flox t k)"
          by auto
        have m: "m \<notin> set us" "m \<notin> set vs" using lk_shapeD(4) [OF fr'(1), of r] Cons x(1) by auto
        have du: "lk_data u = (lk_data t)(m := ?l)" using u(4,5) by (auto simp: fun_eq_iff)
        have d: "map (lk_data u) (us @ m # vs) = map (lk_data t) us @ ?l # map (lk_data t) vs"
          unfolding du using m by simp
        have "m \<in> ?A" using Cons fr'(2) by auto
        then have "lk_frame ?A t u" unfolding lk_frame_def using u(3,5) by metis
        then have L: "lk_list_to ?A r ls s u (us @ m # vs)"
          using lk_frame_trans [OF fr'(3)] u(2) fr'(2) Cons x(1) unfolding lk_list_to_def by auto
        have X: "adj_exit me ?fs ld l (map (lk_data t) us @ map (lk_data t) vs)" using t(3) x(1) by simp
        have "by_start (map (lk_data t) us @ ?l # map (lk_data t) vs) \<and> in_line me (map (lk_data t) us @ ?l # map (lk_data t) vs)"
          if "tidy me ?fs ld"
        proof -
          have b: "by_start (map (lk_data t) us @ map (lk_data t) vs)" "in_line me (map (lk_data t) us @ map (lk_data t) vs)"
            using X that unfolding adj_exit_def by blast+
          then have b': "by_start (map (lk_data t) us @ ?l # map (lk_data t) vs)" using x(1,3) by auto
          have "rng f \<inter> rng ?l = {}" if "f \<in> set (map (lk_data t) us @ map (lk_data t) vs)" "l_pid f = me" for f
          proof -
            have "rng f \<times> {l_type f} \<subseteq> held me (map (lk_data t) us @ map (lk_data t) vs)" using that unfolding held_def by blast
            then have "rng f \<times> {l_type f} \<inter> rng l \<times> UNIV = {}" using X unfolding adj_exit_def by blast
            then have "rng f \<inter> rng l = {}" by blast
            then show ?thesis by (simp add: rng_def)
          qed
          then show ?thesis using b' X by (intro conjI in_line_insert b) (auto simp: adj_exit_def grown_def)
        qed
        then have T: "tidy me ?fs ld \<longrightarrow> by_start (map (lk_data u) (us @ m # vs)) \<and> in_line me (map (lk_data u) (us @ m # vs))"
          unfolding d by blast
        have G: "assigned me ?fs ld (map (lk_data u) (us @ m # vs))" unfolding d by (rule adj_exit_insert [OF X False])
        have "flckadj me r ins ld s = Some (None, u)" using F u(1) by simp
        then show ?thesis using L T G
          by (intro exI [of _ None] exI [of _ u] exI [of _ "us @ m # vs"]) (simp only: option.case simp_thms)
      qed
    qed
  qed
qed

section \<open>The search finds every conflict\<close>

lemma lk_conflict_int:
  "lk_conflict me ld f \<longleftrightarrow> st ld < en f \<and> st f < en ld \<and> l_pid f \<noteq> me \<and> (l_type f = F_WRLCK \<or> (l_type f = F_RDLCK \<and> l_type ld = F_WRLCK))"
  by (simp add: lk_conflict_def word_order_int)

definition lk_passed :: "u16 \<Rightarrow> flock \<Rightarrow> flock \<Rightarrow> bool" where
  "lk_passed me ld f \<longleftrightarrow> st f < st ld \<and> (l_pid f = me \<longrightarrow> en f < st ld \<or> en ld < st f) \<and> \<not> lk_conflict me ld f"

lemma blocked_find_ok:
  assumes "blocked_find me d ld ins fs = (res, ins', rest)"
  shows "case res of
      Some f \<Rightarrow> f \<in> set fs \<and> lk_conflict me ld (d f)
    | None \<Rightarrow> \<exists>us. fs = us @ rest \<and> (\<forall>f \<in> set us. lk_passed me ld (d f)) \<and>
        ((ins' = (if us = [] then ins else Some (last us)) \<and> (rest = [] \<or> st ld \<le> st (d (hd rest)))) \<or>
         (\<exists>f fs'. rest = f # fs' \<and> ins' = Some f \<and> l_pid (d f) = me \<and> st (d f) < st ld))"
  using assms
proof (induction me d ld ins fs rule: blocked_find.induct)
  case (1 me d ld ins)
  then show ?case by auto
next
  case (2 me d ld ins f fs)
  let ?c = "l_start (d f) <s l_start ld"
  consider (stop) "\<not> ?c" | (own) "?c" "l_pid (d f) = me" "l_start ld \<le>s l_end (d f) \<and> l_start (d f) \<le>s l_end ld"
    | (hit) "?c" "l_pid (d f) \<noteq> me" "lk_conflict me ld (d f)"
    | (go) "?c" "blocked_find me d ld (Some f) fs = (res, ins', rest)" "lk_passed me ld (d f)"
    using "2.prems" by (auto simp: lk_passed_def word_order_int lk_conflict_int split: if_splits)
  then show ?case
  proof cases
    case stop then show ?thesis using "2.prems" by (auto simp: word_order_int intro!: exI [of _ "[]"])
  next
    case own then show ?thesis using "2.prems" by (auto simp: word_order_int intro!: exI [of _ "[]"])
  next
    case hit then show ?thesis using "2.prems" by auto
  next
    case go
    have ih: "case res of Some f \<Rightarrow> f \<in> set fs \<and> lk_conflict me ld (d f)
      | None \<Rightarrow> \<exists>us. fs = us @ rest \<and> (\<forall>f \<in> set us. lk_passed me ld (d f)) \<and>
        ((ins' = (if us = [] then Some f else Some (last us)) \<and> (rest = [] \<or> st ld \<le> st (d (hd rest)))) \<or>
         (\<exists>f fs'. rest = f # fs' \<and> ins' = Some f \<and> l_pid (d f) = me \<and> st (d f) < st ld))"
    proof (cases "l_pid (d f) = me")
      case True
      then show ?thesis using go "2.prems" by (intro "2.IH"(1)) (auto simp: lk_passed_def word_order_int)
    next
      case False
      then show ?thesis using go "2.prems" by (intro "2.IH"(2)) (auto simp: lk_passed_def word_order_int)
    qed
    show ?thesis
    proof (cases res)
      case None
      with ih obtain us where "fs = us @ rest" "\<forall>f \<in> set us. lk_passed me ld (d f)"
        "(ins' = (if us = [] then Some f else Some (last us)) \<and> (rest = [] \<or> st ld \<le> st (d (hd rest)))) \<or>
         (\<exists>f fs'. rest = f # fs' \<and> ins' = Some f \<and> l_pid (d f) = me \<and> st (d f) < st ld)" by auto
      then show ?thesis using None go(3) by (auto intro!: exI [of _ "f # us"])
    qed (use ih in auto)
  qed
qed

lemma blocked_rest_ok:
  assumes "by_start (map d fs)" "st ld < en ld"
  shows "case blocked_rest me d ld fs of Some f \<Rightarrow> f \<in> set fs \<and> lk_conflict me ld (d f) | None \<Rightarrow> \<forall>f \<in> set fs. \<not> lk_conflict me ld (d f)"
  using assms
proof (induction fs)
  case (Cons f fs)
  then show ?case by (fastforce simp: word_order_int lk_conflict_int split: option.splits)
qed simp

theorem blocked_ok:
  assumes sh: "lk_shape s fr ls" and so: "by_start (map (lk_data s) (ls r))" "in_line me (map (lk_data s) (ls r))"
    and ld: "st ld < en ld" "l_type ld \<noteq> F_UNLCK" "\<forall>n \<in> set (ls r). l_type (lk_data s n) \<noteq> F_UNLCK"
    and b: "blocked me (fl_flck (flinos s r)) ld s = (res, ins)"
  shows "case res of
      Some f \<Rightarrow> f \<in> set (ls r) \<and> lk_conflict me ld (lk_data s f)
    | None \<Rightarrow> (\<forall>f \<in> set (ls r). \<not> lk_conflict me ld (lk_data s f)) \<and> (\<exists>pre rest. adj_call me r ls s pre rest ld ins)"
proof -
  let ?d = "lk_data s"
  have w: "lk_walk s (fl_flck (flinos s r)) = ls r" using lk_walk_list(2) [OF sh, of r "[]" "ls r"] by simp
  obtain q i rest where f: "blocked_find me ?d ld None (ls r) = (q, i, rest)" by (cases "blocked_find me ?d ld None (ls r)")
  note F = blocked_find_ok [OF f]
  show ?thesis
  proof (cases q)
    case (Some g)
    then show ?thesis using F b f by (auto simp: blocked_def w)
  next
    case None
    from F [unfolded None option.case] obtain us where us: "ls r = us @ rest" "\<forall>f \<in> set us. lk_passed me ld (?d f)"
      and c: "(i = (if us = [] then None else Some (last us)) \<and> (rest = [] \<or> st ld \<le> st (?d (hd rest)))) \<or>
         (\<exists>f fs'. rest = f # fs' \<and> i = Some f \<and> l_pid (?d f) = me \<and> st (?d f) < st ld)" by blast
    have bi: "res = blocked_rest me ?d ld rest" "ins = i" using b f None by (simp_all add: blocked_def w)
    have R: "case res of Some f \<Rightarrow> f \<in> set rest \<and> lk_conflict me ld (?d f) | None \<Rightarrow> \<forall>f \<in> set rest. \<not> lk_conflict me ld (?d f)"
      unfolding bi by (rule blocked_rest_ok) (use so(1) us(1) ld in \<open>auto simp: comp_def\<close>)
    have passed: "held me (map ?d xs) \<inter> rng ld \<times> UNIV = {}" if "set xs \<subseteq> set us" for xs
      using that us(2) by (fastforce simp: held_type rng_def lk_passed_def)
    show ?thesis
    proof (cases res)
      case None
      have "\<exists>pre rest. adj_call me r ls s pre rest ld ins"
      proof (cases "us = []")
        case True
        then have "adj_call me r ls s [] rest ld ins"
          using c us(1) so ld by (cases rest) (fastforce simp: adj_call_def bi(2))+
        then show ?thesis by blast
      next
        case False
        then obtain vs l where u: "us = vs @ [l]" by (cases us rule: rev_cases) auto
        have vs: "set vs \<subseteq> set us" by (auto simp: u)
        show ?thesis
        proof (cases "i = Some l")
          case True
          then have "adj_call me r ls s vs (l # rest) ld ins"
            using us so ld passed [OF vs] unfolding adj_call_def bi(2) by (simp add: u lk_passed_def)
          then show ?thesis by blast
        next
          case False
          then have "adj_call me r ls s us rest ld ins"
            using c us so ld passed [of us] unfolding adj_call_def bi(2) by (auto simp: u)
          then show ?thesis by blast
        qed
      qed
      then show ?thesis using None R us by (auto simp: lk_passed_def)
    qed (use R us(1) in auto)
  qed
qed

section \<open>What the processes hold\<close>

text \<open>No byte is write-locked by one process and locked by another.\<close>

definition lk_excl :: "flock list \<Rightarrow> bool" where
  "lk_excl fs \<longleftrightarrow> (\<forall>p q x a b. p \<noteq> q \<and> (x, a) \<in> held p fs \<and> (x, b) \<in> held q fs \<longrightarrow> a = F_RDLCK \<and> b = F_RDLCK)"

lemma lk_exclD: "lk_excl fs \<Longrightarrow> p \<noteq> q \<Longrightarrow> (x, a) \<in> held p fs \<Longrightarrow> (x, b) \<in> held q fs \<Longrightarrow> a = F_RDLCK \<and> b = F_RDLCK"
  unfolding lk_excl_def by blast

text \<open>The list of a file: in order, the locks of each process apart from one another, of the two types.\<close>

definition lk_orderly :: "flock list \<Rightarrow> bool" where
  "lk_orderly fs \<longleftrightarrow> by_start fs \<and> (\<forall>p. in_line p fs) \<and> (\<forall>f \<in> set fs. l_type f = F_RDLCK \<or> l_type f = F_WRLCK)"

lemma lk_types: "F_RDLCK \<noteq> F_WRLCK" "F_RDLCK \<noteq> F_UNLCK" "F_WRLCK \<noteq> F_UNLCK"
  by (simp_all add: F_RDLCK_def F_WRLCK_def F_UNLCK_def)

lemma lk_orderly_type: "lk_orderly fs \<Longrightarrow> f \<in> set fs \<Longrightarrow> l_type f \<noteq> F_UNLCK"
  unfolding lk_orderly_def using lk_types by metis

text \<open>Giving a region for which there is no conflict, or taking one away, keeps the exclusion.\<close>

lemma assigned_excl:
  assumes a: "assigned me fs ld gs" and e: "lk_excl fs" and ty: "l_type ld \<in> {F_RDLCK, F_WRLCK, F_UNLCK}"
    and n: "l_type ld \<noteq> F_UNLCK \<Longrightarrow> \<forall>f \<in> set fs. \<not> lk_conflict me ld f" and o: "lk_orderly fs"
  shows "lk_excl gs"
proof -
  have me: "held me gs = held me fs - rng ld \<times> UNIV \<union> (if l_type ld = F_UNLCK then {} else rng ld \<times> {l_type ld})"
    and other: "q \<noteq> me \<Longrightarrow> held q gs = held q fs" for q
    using a held_foreign_eq unfolding assigned_def by blast+
  have new: "a = F_RDLCK \<and> b = F_RDLCK" if h: "q \<noteq> me" "(x, a) \<in> held me gs" "(x, b) \<in> held q fs" for q x a b
  proof (cases "(x, a) \<in> held me fs")
    case True
    then show ?thesis using e h unfolding lk_excl_def by metis
  next
    case False
    then have x: "l_type ld \<noteq> F_UNLCK" "x \<in> rng ld" "a = l_type ld" using h(2) unfolding me by (auto split: if_splits)
    obtain f where f: "f \<in> set fs" "l_pid f = q" "l_type f = b" "x \<in> rng f" using h(3) by (auto simp: held_type rng_def)
    with n x(1) h(1) x(2) have "l_type f \<noteq> F_WRLCK" "\<not> (l_type f = F_RDLCK \<and> l_type ld = F_WRLCK)"
      by (auto simp: lk_conflict_int rng_def)
    then show ?thesis using o f(1,3) x ty unfolding lk_orderly_def by auto
  qed
  show ?thesis unfolding lk_excl_def
  proof (intro allI impI)
    fix p q x a b
    assume h: "p \<noteq> q \<and> (x, a) \<in> held p gs \<and> (x, b) \<in> held q gs"
    consider "p = me" "q \<noteq> me" | "q = me" "p \<noteq> me" | "p \<noteq> me" "q \<noteq> me" using h by blast
    then show "a = F_RDLCK \<and> b = F_RDLCK"
    proof cases
      case 1 then show ?thesis using new [of q x a b] h other by simp
    next
      case 2 then show ?thesis using new [of p x b a] h other by simp
    next
      case 3 then show ?thesis using e h other unfolding lk_excl_def by metis
    qed
  qed
qed

text \<open>The lists of locks do not change when the use counts of the file identifiers do.\<close>

lemma lk_shape_ids:
  assumes "flox t = flox s" "frlock t = frlock s" "\<And>r. fl_flck (flinos t r) = fl_flck (flinos s r)"
    "recs (flckinfo t) = recs (flckinfo s)"
  shows "lk_shape t fr ls \<longleftrightarrow> lk_shape s fr ls"
proof -
  have "lk_next t = lk_next s" "lk_prev t = lk_prev s" using assms(1) by (simp_all add: lk_next_def lk_prev_def)
  then show ?thesis using assms by (simp add: lk_shape_def lk_list_def)
qed

lemma freefid_lists:
  "flox (freefid i s) = flox s" "frlock (freefid i s) = frlock s" "fl_flck (flinos (freefid i s) r) = fl_flck (flinos s r)"
  "recs (flckinfo (freefid i s)) = recs (flckinfo s)"
  by (auto simp: freefid_def Let_def upd_fl_def upd_info_def opt_fl_def split: option.splits)

lemma lk_shape_freefid [simp]: "lk_shape (freefid i s) fr ls \<longleftrightarrow> lk_shape s fr ls"
  by (rule lk_shape_ids) (simp_all add: freefid_lists)

lemma lk_data_freefid [simp]: "lk_data (freefid i s) = lk_data s"
  by (simp add: freefid_lists)

text \<open>The locks of a file, in the order of its list.\<close>

definition file_locks :: "lkst \<Rightarrow> nat \<Rightarrow> flock list" where
  "file_locks s i = map (lk_data s) (lk_walk s (fl_flck (flinos s (Fid i))))"

lemma file_locks_shape: "lk_shape s fr ls \<Longrightarrow> file_locks s i = map (lk_data s) (ls (Fid i))"
  using lk_walk_list(2) [of s fr ls "Fid i" "[]" "ls (Fid i)"] by (simp add: file_locks_def)

lemma sleepers_shape:
  "lk_shape s fr ls \<Longrightarrow> sleepers s = map (\<lambda>n. (l_pid (lk_data s n), stat (flox s n))) (ls Sleeplcks)"
  using lk_walk_list(2) [of s fr ls Sleeplcks "[]" "ls Sleeplcks"] by (simp add: sleepers_def)

lemma freefid_views [simp]: "file_locks (freefid i s) j = file_locks s j" "sleepers (freefid i s) = sleepers s"
proof -
  have "lk_walk (freefid i s) p = lk_walk s p" for p
    by (simp add: lk_walk_def freefid_lists lk_next_def)
  then show "file_locks (freefid i s) j = file_locks s j" "sleepers (freefid i s) = sleepers s"
    by (simp_all add: file_locks_def sleepers_def freefid_lists)
qed

text \<open>What \<open>lk_list_to\<close> leaves of the other lists.\<close>

lemma lk_list_to_others:
  assumes sh: "lk_shape s fr ls" and t: "lk_list_to (set fr \<union> set (ls r)) r ls s t xs" and q: "q \<noteq> r"
  shows "map (\<lambda>n. (lk_data t n, stat (flox t n))) (ls q) = map (\<lambda>n. (lk_data s n, stat (flox s n))) (ls q)"
proof -
  have "set (ls q) \<inter> (set fr \<union> set (ls r)) = {}" using lk_shapeD(4) [OF sh, of q] lk_shapeD(5) [OF sh q] by auto
  then show ?thesis using t by (auto simp: lk_list_to_def lk_frame_def)
qed

lemma lk_list_to_views:
  assumes sh: "lk_shape s fr ls" and t: "lk_list_to (set fr \<union> set (ls (Fid i))) (Fid i) ls s t xs"
  shows "file_locks t i = map (lk_data t) xs" "j \<noteq> i \<Longrightarrow> file_locks t j = file_locks s j" "sleepers t = sleepers s"
    "\<exists>fr' ls'. lk_shape t fr' ls'"
proof -
  obtain fr' where t': "lk_shape t fr' (ls(Fid i := xs))" using t unfolding lk_list_to_def by blast
  then show "\<exists>fr' ls'. lk_shape t fr' ls'" by blast
  show "file_locks t i = map (lk_data t) xs" using file_locks_shape [OF t'] by simp
  show "file_locks t j = file_locks s j" if "j \<noteq> i"
    using that lk_list_to_others [OF sh t, of "Fid j"] by (auto simp: file_locks_shape [OF t'] file_locks_shape [OF sh])
  show "sleepers t = sleepers s"
    using lk_list_to_others [OF sh t, of Sleeplcks] by (auto simp: sleepers_shape [OF t'] sleepers_shape [OF sh])
qed

lemma orderly_from:
  assumes fo: "foreign me gs = foreign me fs" and o: "lk_orderly fs" and so: "by_start gs" "in_line me gs"
    and new: "\<And>x a. (x, a) \<in> held me gs \<Longrightarrow> (x, a) \<in> held me fs \<or> a \<in> {F_RDLCK, F_WRLCK}"
  shows "lk_orderly gs"
  unfolding lk_orderly_def
proof (intro conjI allI ballI)
  show "by_start gs" by (rule so)
  show "in_line p gs" for p using so(2) in_line_foreign [OF fo, of p] o unfolding lk_orderly_def by (cases "p = me") auto
  fix f assume f: "f \<in> set gs"
  show "l_type f = F_RDLCK \<or> l_type f = F_WRLCK"
  proof (cases "l_pid f = me")
    case False
    then have "f \<in> set (foreign me fs)" unfolding fo [symmetric] using f by (simp add: foreign_def)
    then show ?thesis using o by (auto simp: foreign_def lk_orderly_def)
  next
    case True
    then have "st f < en f" using so(2) f by (auto simp: in_line_def)
    then have "(st f, l_type f) \<in> held me gs" using f True by (auto simp: held_type)
    from new [OF this] show ?thesis using o by (auto simp: held_type lk_orderly_def)
  qed
qed

lemma assigned_orderly:
  assumes a: "assigned me fs ld gs" and o: "lk_orderly fs" and so: "by_start gs" "in_line me gs"
    and ty: "l_type ld \<in> {F_RDLCK, F_WRLCK, F_UNLCK}"
  shows "lk_orderly gs"
proof (rule orderly_from [OF _ o so])
  show "foreign me gs = foreign me fs" using a unfolding assigned_def by blast
  show "(x, a) \<in> held me fs \<or> a \<in> {F_RDLCK, F_WRLCK}" if "(x, a) \<in> held me gs" for x a
    using that a ty unfolding assigned_def by (auto split: if_splits)
qed

text \<open>A call that runs out of entries on the way leaves the list in order too, and no new lock.\<close>

lemma adj_fail_orderly:
  assumes "adj_fail me fs ld e gs" "lk_orderly fs" "tidy me fs ld" shows "lk_orderly gs"
  using assms by (intro orderly_from [of me gs fs]) (auto simp: adj_fail_def)

lemma adj_fail_excl:
  assumes "adj_fail me fs ld e gs" "lk_excl fs" shows "lk_excl gs"
proof -
  have "held p gs \<subseteq> held p fs" for p
    using assms(1) held_foreign_eq [of me gs fs p] by (cases "p = me") (auto simp: adj_fail_def)
  then show ?thesis using assms(2) unfolding lk_excl_def by (meson subsetD)
qed

text \<open>\<open>flckadj\<close> as \<open>setflck\<close> calls it: behind the search, or from the head for an unlock.\<close>

definition adj_ready :: "u16 \<Rightarrow> nat \<Rightarrow> flock \<Rightarrow> nat option \<Rightarrow> lkst \<Rightarrow> bool" where
  "adj_ready me i ld ins s \<longleftrightarrow>
     (l_type ld \<in> {F_RDLCK, F_WRLCK} \<and> blocked me (fl_flck (flinos s (Fid i))) ld s = (None, ins)) \<or>
     (l_type ld = F_UNLCK \<and> ins = fl_flck (flinos s (Fid i)))"

lemma adj_ready_call:
  assumes sh: "lk_shape s fr ls" and o: "lk_orderly (file_locks s i)" and ld: "st ld < en ld" and r: "adj_ready me i ld ins s"
  shows "\<exists>pre rest. adj_call me (Fid i) ls s pre rest ld ins"
    "l_type ld \<noteq> F_UNLCK \<Longrightarrow> \<forall>f \<in> set (file_locks s i). \<not> lk_conflict me ld f"
proof -
  note F = file_locks_shape [OF sh, of i]
  have O: "by_start (map (lk_data s) (ls (Fid i)))" "in_line me (map (lk_data s) (ls (Fid i)))"
    "\<forall>n \<in> set (ls (Fid i)). l_type (lk_data s n) \<noteq> F_UNLCK"
    using o lk_orderly_type [OF o] unfolding lk_orderly_def F by auto
  have B: "(\<forall>f \<in> set (ls (Fid i)). \<not> lk_conflict me ld (lk_data s f)) \<and> (\<exists>pre rest. adj_call me (Fid i) ls s pre rest ld ins)"
    if "l_type ld \<noteq> F_UNLCK"
    using blocked_ok [OF sh O(1,2) ld that O(3), of None ins] r that by (auto simp: adj_ready_def)
  then show "l_type ld \<noteq> F_UNLCK \<Longrightarrow> \<forall>f \<in> set (file_locks s i). \<not> lk_conflict me ld f" by (auto simp: F)
  show "\<exists>pre rest. adj_call me (Fid i) ls s pre rest ld ins"
  proof (cases "l_type ld = F_UNLCK")
    case True
    then have "ins = fl_flck (flinos s (Fid i))" using r lk_types by (auto simp: adj_ready_def)
    also have "\<dots> = (case ls (Fid i) of [] \<Rightarrow> None | n # _ \<Rightarrow> Some n)"
      using lk_shapeD(2) [OF sh, of "Fid i"] by (cases "ls (Fid i)") (auto simp: lk_list_def)
    finally have "adj_call me (Fid i) ls s [] (ls (Fid i)) ld ins"
      using True O ld by (cases "ls (Fid i)") (auto simp: adj_call_def)
    then show ?thesis by blast
  qed (use B in blast)
qed

lemma flckadj_locks:
  assumes sh: "lk_shape s fr ls" and o: "lk_orderly (file_locks s i)" and ld: "st ld < en ld" and r: "adj_ready me i ld ins s"
  obtains rv t where "flckadj me (Fid i) ins ld s = Some (rv, t)" "\<forall>j. j \<noteq> i \<longrightarrow> file_locks t j = file_locks s j"
    "sleepers t = sleepers s" "\<exists>fr' ls'. lk_shape t fr' ls'"
    "case rv of None \<Rightarrow> assigned me (file_locks s i) ld (file_locks t i) \<and>
         (tidy me (file_locks s i) ld \<longrightarrow> lk_orderly (file_locks t i))
       | Some e \<Rightarrow> adj_fail me (file_locks s i) ld e (file_locks t i)"
proof -
  obtain pre rest where c: "adj_call me (Fid i) ls s pre rest ld ins" using adj_ready_call(1) [OF assms] by blast
  note F = file_locks_shape [OF sh, of i]
  from flckadj_ok [OF sh c] obtain rv t xs where t: "flckadj me (Fid i) ins ld s = Some (rv, t)"
    "lk_list_to (set fr \<union> set (ls (Fid i))) (Fid i) ls s t xs"
    and q: "case rv of None \<Rightarrow> assigned me (file_locks s i) ld (map (lk_data t) xs) \<and>
         (tidy me (file_locks s i) ld \<longrightarrow> by_start (map (lk_data t) xs) \<and> in_line me (map (lk_data t) xs))
       | Some e \<Rightarrow> adj_fail me (file_locks s i) ld e (map (lk_data t) xs)"
    unfolding F by blast
  note V = lk_list_to_views [OF sh t(2)]
  have ty: "l_type ld \<in> {F_RDLCK, F_WRLCK, F_UNLCK}" using r unfolding adj_ready_def by blast
  have "\<forall>j. j \<noteq> i \<longrightarrow> file_locks t j = file_locks s j" using V(2) by blast
  show thesis
  proof (rule that [OF t(1) \<open>\<forall>j. j \<noteq> i \<longrightarrow> file_locks t j = file_locks s j\<close> V(3,4)])
    show "case rv of None \<Rightarrow> assigned me (file_locks s i) ld (file_locks t i) \<and>
         (tidy me (file_locks s i) ld \<longrightarrow> lk_orderly (file_locks t i))
       | Some e \<Rightarrow> adj_fail me (file_locks s i) ld e (file_locks t i)"
      unfolding V(1) using q assigned_orderly [OF _ o _ _ ty] by (cases rv) (auto simp del: in_line_append by_start_append)
  qed
qed

section \<open>Waiting processes\<close>

definition waits :: "lkst \<Rightarrow> (u16 \<times> u16) set" where
  "waits s = {(p, q). map_of (sleepers s) p = Some q}"

text \<open>The loop follows the only edge that leaves each process.\<close>

lemma map_of_graph: "((p, q) \<in> {(p, q). map_of sl p = Some q}) = (map_of sl p = Some q)"
  by simp

lemma finite_map_graph: "finite {(p, q). map_of sl p = Some q}"
proof (rule finite_subset)
  show "{(p, q). map_of sl p = Some q} \<subseteq> set sl" by (auto dest: map_of_SomeD)
qed simp

lemma dead_loop_ok:
  fixes sl :: "(u16 \<times> u16) list"
  defines "W \<equiv> {(p, q). map_of sl p = Some q}"
  assumes "acyclic W"
  shows "dead_loop me sl p = Some ((p, me) \<in> W\<^sup>*)"
proof -
  have "finite W" unfolding W_def by (rule finite_map_graph)
  then have "wf (W\<inverse>)" using assms(2) by (rule finite_acyclic_wf_converse)
  then show ?thesis
  proof (induction p rule: wf_induct_rule)
    case (less p)
    show ?case
    proof (cases "p = me")
      case True then show ?thesis by (simp add: dead_loop.simps [of me sl me])
    next
      case False
      show ?thesis
      proof (cases "map_of sl p")
        case None
        then have "(p, me) \<notin> W\<^sup>*" using False by (auto simp: W_def elim: converse_rtranclE)
        then show ?thesis using None False by (simp add: dead_loop.simps [of me sl p])
      next
        case (Some q)
        then have e: "(p, q) \<in> W" by (simp add: W_def)
        have "(p, me) \<in> W\<^sup>* \<longleftrightarrow> (q, me) \<in> W\<^sup>*"
        proof
          assume "(p, me) \<in> W\<^sup>*"
          then obtain r where "(p, r) \<in> W" "(r, me) \<in> W\<^sup>*" using False by (meson converse_rtranclE)
          then show "(q, me) \<in> W\<^sup>*" using Some by (simp add: W_def)
        qed (use e in \<open>rule converse_rtrancl_into_rtrancl\<close>)
        then show ?thesis using less [of q] e Some False by (simp add: dead_loop.simps [of me sl p])
      qed
    qed
  qed
qed

lemma deadflck_ok: "acyclic (waits s) \<Longrightarrow> deadflck me f s = Some ((l_pid (lk_data s f), me) \<in> (waits s)\<^sup>*)"
  using dead_loop_ok [of "sleepers s" me "l_pid (lk_data s f)"] by (simp add: deadflck_def waits_def)

section \<open>The calls\<close>

lemma setflck_pass_case:
  assumes ty: "l_type ld \<in> {F_RDLCK, F_WRLCK}" and b: "blocked me (fl_flck (flinos s (Fid i))) ld s = (res, ins)"
  shows "setflck_pass me i ld slpflg s = (case res of
      None \<Rightarrow> (case flckadj me (Fid i) ins ld s of None \<Rightarrow> (Lk_wild, s) | Some (rv, s) \<Rightarrow> (Lk_ret rv, freefid i s))
    | Some found \<Rightarrow>
        if slpflg then
          (case deadflck me found s of
             None \<Rightarrow> (Lk_wild, s)
           | Some True \<Rightarrow> (Lk_ret (Some EDEADLK), freefid i s)
           | Some False \<Rightarrow>
               (case insflck me Sleeplcks ld None s of
                  (None, s) \<Rightarrow> (Lk_ret (Some ENOLCK), freefid i s)
                | (Some sf, s) \<Rightarrow>
                    (let s = upd_lk found (\<lambda>f. f\<lparr>stat := stat f + 1\<rparr>) s
                     in (Lk_asleep found sf, upd_lk sf (\<lambda>f. f\<lparr>stat := l_pid (set_of (flox s found))\<rparr>) s))))
        else (Lk_ret (Some EACCES), freefid i s))"
proof -
  have "l_type ld = F_RDLCK \<or> l_type ld = F_WRLCK" using ty by auto
  then show ?thesis unfolding setflck_pass_def Let_def b if_P [OF \<open>l_type ld = F_RDLCK \<or> l_type ld = F_WRLCK\<close>]
    by (cases res) simp_all
qed

lemma setflck_pass_unlock:
  "l_type ld = F_UNLCK \<Longrightarrow> setflck_pass me i ld slpflg s =
     (case flckadj me (Fid i) (fl_flck (flinos s (Fid i))) ld s of None \<Rightarrow> (Lk_wild, s) | Some (rv, s) \<Rightarrow> (Lk_ret rv, freefid i s))"
  using lk_types by (simp add: setflck_pass_def Let_def)

text \<open>Going to sleep puts an entry with the process waited for at the head of the sleeping locks.\<close>

lemma lk_asleep_views:
  assumes sh: "lk_shape s fr ls" and f: "found \<in> set (ls (Fid i))" and n: "insflck me Sleeplcks ld None s = (Some sf, t)"
  defines "u \<equiv> upd_lk sf (\<lambda>f. f\<lparr>stat := l_pid (lk_data t found)\<rparr>) (upd_lk found (\<lambda>f. f\<lparr>stat := stat f + 1\<rparr>) t)"
  shows "file_locks u j = file_locks s j" "sleepers u = (me, l_pid (lk_data s found)) # sleepers s" "\<exists>fr' ls'. lk_shape u fr' ls'"
proof -
  have "fr \<noteq> []"
  proof
    assume "fr = []"
    then have "frlock s = None" using lk_shapeD(1) [OF sh] by simp
    then show False using n by (simp add: insflck_none)
  qed
  then obtain m fr' where fr: "fr = m # fr'" by (cases fr) auto
  from insflck_ok [OF sh [unfolded fr], of Sleeplcks "[]" "ls Sleeplcks" None me ld] n
  have t: "sf = m" "lk_shape t fr' (ls(Sleeplcks := m # ls Sleeplcks))" "set_of (flox t m) = ld\<lparr>l_pid := me\<rparr>"
    "\<And>k. k \<noteq> m \<Longrightarrow> set_of (flox t k) = set_of (flox s k) \<and> stat (flox t k) = stat (flox s k)"
    by auto
  have out: "m \<notin> set (ls r)" for r using lk_shapeD(4) [OF sh, of r] fr by auto
  have nf: "found \<noteq> m" "found \<notin> set (ls Sleeplcks)" using f out lk_shapeD(5) [OF sh, of "Fid i" Sleeplcks] by auto
  have "lk_next u = lk_next t" "lk_prev u = lk_prev t" "frlock u = frlock t" "flinos u = flinos t" "flckinfo u = flckinfo t"
    by (simp_all add: u_def lk_simps lk_next_eq lk_prev_eq)
  then have u: "lk_shape u fr' (ls(Sleeplcks := m # ls Sleeplcks))" using lk_shape_data t(2) by blast
  then show "\<exists>fr' ls'. lk_shape u fr' ls'" by blast
  have d: "set_of (flox u k) = set_of (flox t k)" for k by (simp add: u_def upd_lk_def)
  have du: "lk_data u k = lk_data s k" if "k \<in> set (ls r)" for k r 
  proof -
    have "k \<noteq> m" using out [of r] that by auto
    then show ?thesis using t(4) [of k] d [of k] by simp
  qed
  show "file_locks u j = file_locks s j"
    using du [of _ "Fid j"] by (simp add: file_locks_shape [OF u] file_locks_shape [OF sh])
  have "stat (flox u k) = stat (flox s k)" if "k \<in> set (ls Sleeplcks)" for k
    using that nf out [of Sleeplcks] t(1,4) by (auto simp: u_def upd_lk_def)
  moreover have "stat (flox u m) = l_pid (lk_data s found)" "l_pid (lk_data u m) = me"
    using t nf d by (auto simp: u_def upd_lk_def)
  ultimately show "sleepers u = (me, l_pid (lk_data s found)) # sleepers s"
    using du [of _ Sleeplcks] by (simp add: sleepers_shape [OF u] sleepers_shape [OF sh])
qed

text \<open>The lists of the tables are well formed.\<close>

definition lk_tables :: "lkst \<Rightarrow> bool" where
  "lk_tables s \<longleftrightarrow> (\<exists>fr ls. lk_shape s fr ls)"

lemma lk_tables_freefid [simp]: "lk_tables (freefid i s) \<longleftrightarrow> lk_tables s"
  by (simp add: lk_tables_def)

lemma setflck_ready:
  assumes "lk_tables s" "lk_orderly (file_locks s i)" "st ld < en ld" "adj_ready me i ld ins s"
  obtains rv t where "setflck_pass me i ld slpflg s = (Lk_ret rv, freefid i t)"
    "\<forall>j. j \<noteq> i \<longrightarrow> file_locks t j = file_locks s j" "sleepers t = sleepers s" "lk_tables t"
    "case rv of None \<Rightarrow> assigned me (file_locks s i) ld (file_locks t i) \<and>
         (tidy me (file_locks s i) ld \<longrightarrow> lk_orderly (file_locks t i))
       | Some e \<Rightarrow> adj_fail me (file_locks s i) ld e (file_locks t i)"
proof -
  obtain fr ls where sh: "lk_shape s fr ls" using assms(1) by (auto simp: lk_tables_def)
  obtain rv t where t: "flckadj me (Fid i) ins ld s = Some (rv, t)" "\<forall>j. j \<noteq> i \<longrightarrow> file_locks t j = file_locks s j"
    "sleepers t = sleepers s" "\<exists>fr' ls'. lk_shape t fr' ls'"
    "case rv of None \<Rightarrow> assigned me (file_locks s i) ld (file_locks t i) \<and>
         (tidy me (file_locks s i) ld \<longrightarrow> lk_orderly (file_locks t i))
       | Some e \<Rightarrow> adj_fail me (file_locks s i) ld e (file_locks t i)"
    by (rule flckadj_locks [OF sh assms(2-4)]) blast
  have "setflck_pass me i ld slpflg s = (Lk_ret rv, freefid i t)"
  proof (cases "l_type ld = F_UNLCK")
    case True
    then show ?thesis using t(1) assms(4) lk_types by (simp add: setflck_pass_unlock adj_ready_def)
  next
    case False
    then have "l_type ld \<in> {F_RDLCK, F_WRLCK}" "blocked me (fl_flck (flinos s (Fid i))) ld s = (None, ins)"
      using assms(4) unfolding adj_ready_def by blast+
    then show ?thesis using t(1) setflck_pass_case by simp
  qed
  then show thesis using that t unfolding lk_tables_def by blast
qed

lemma setflck_blocked:
  assumes "lk_tables s" "lk_orderly (file_locks s i)" "st ld < en ld" "l_type ld \<in> {F_RDLCK, F_WRLCK}"
  obtains (free) ins where "adj_ready me i ld ins s" "\<forall>f \<in> set (file_locks s i). \<not> lk_conflict me ld f"
    | (busy) found ins where "blocked me (fl_flck (flinos s (Fid i))) ld s = (Some found, ins)"
        "lk_data s found \<in> set (file_locks s i)" "lk_conflict me ld (lk_data s found)"
        "\<And>fr ls. lk_shape s fr ls \<Longrightarrow> found \<in> set (ls (Fid i))"
proof -
  obtain fr ls where sh: "lk_shape s fr ls" using assms(1) by (auto simp: lk_tables_def)
  note F = file_locks_shape [OF sh, of i]
  have O: "by_start (map (lk_data s) (ls (Fid i)))" "in_line me (map (lk_data s) (ls (Fid i)))"
    "\<forall>n \<in> set (ls (Fid i)). l_type (lk_data s n) \<noteq> F_UNLCK" "l_type ld \<noteq> F_UNLCK"
    using assms(2,4) lk_orderly_type [OF assms(2)] lk_types unfolding lk_orderly_def F by auto
  obtain res ins where b: "blocked me (fl_flck (flinos s (Fid i))) ld s = (res, ins)"
    by (cases "blocked me (fl_flck (flinos s (Fid i))) ld s")
  note B = blocked_ok [OF sh O(1,2) assms(3) O(4,3) b]
  show thesis
  proof (cases res)
    case None
    show thesis using free [of ins] B b assms(4) unfolding None by (auto simp: adj_ready_def F)
  next
    case (Some found)
    have "found \<in> set (ls' (Fid i))" if "lk_shape s fr' ls'" for fr' ls'
    proof -
      have "ls' (Fid i) = ls (Fid i)"
        using lk_walk_list(2) [OF sh, of "Fid i" "[]" "ls (Fid i)"] lk_walk_list(2) [OF that, of "Fid i" "[]" "ls' (Fid i)"] by simp
      then show ?thesis using B Some by simp
    qed
    then show thesis using busy [of found ins] B b unfolding Some by (auto simp: F)
  qed
qed

text \<open>One pass of \<open>setflck\<close> that returns with success, on a list in order.\<close>

lemma pass_exclusion:
  assumes "lk_tables s" "lk_orderly (file_locks s i)" "lk_excl (file_locks s i)" "st ld < en ld"
    and "l_type ld \<in> {F_RDLCK, F_WRLCK, F_UNLCK}" "setflck_pass me i ld slpflg s = (Lk_ret None, t)"
  shows "assigned me (file_locks s i) ld (file_locks t i) \<and> lk_excl (file_locks t i) \<and> lk_tables t \<and>
     (\<forall>j. j \<noteq> i \<longrightarrow> file_locks t j = file_locks s j) \<and>
     (tidy me (file_locks s i) ld \<longrightarrow> lk_orderly (file_locks t i))"
proof -
  have "\<exists>ins. adj_ready me i ld ins s \<and> (l_type ld \<noteq> F_UNLCK \<longrightarrow> (\<forall>f \<in> set (file_locks s i). \<not> lk_conflict me ld f))"
  proof (cases "l_type ld = F_UNLCK")
    case False
    then have ty: "l_type ld \<in> {F_RDLCK, F_WRLCK}" using assms(5) by blast
    show ?thesis
    proof (rule setflck_blocked [OF assms(1,2,4) ty, of me])
      fix found ins assume b: "blocked me (fl_flck (flinos s (Fid i))) ld s = (Some found, ins)"
      then show ?thesis using assms(6) by (auto simp: setflck_pass_case [OF ty b] Let_def split: if_splits option.splits bool.splits prod.splits)
    qed blast
  next
    case True
    then have "adj_ready me i ld (fl_flck (flinos s (Fid i))) s" by (simp add: adj_ready_def)
    then show ?thesis using True by blast
  qed
  then obtain ins where r: "adj_ready me i ld ins s"
    and n: "l_type ld \<noteq> F_UNLCK \<Longrightarrow> \<forall>f \<in> set (file_locks s i). \<not> lk_conflict me ld f" by blast
  show ?thesis
    by (rule setflck_ready [OF assms(1,2,4) r, of slpflg])
       (use assms(6) assigned_excl [OF _ assms(3,5) n assms(2)] in \<open>auto split: option.splits\<close>)
qed

text \<open>A conflict is found wherever it is in the list; without one the pass succeeds or runs out of entries.\<close>

lemma pass_refuses:
  assumes "lk_tables s" "lk_orderly (file_locks s i)" "st ld < en ld" "l_type ld \<in> {F_RDLCK, F_WRLCK}"
  shows "if \<exists>f \<in> set (file_locks s i). lk_conflict me ld f
    then setflck_pass me i ld False s = (Lk_ret (Some EACCES), freefid i s) \<and> file_locks (freefid i s) = file_locks s
    else \<exists>rv t. setflck_pass me i ld slpflg s = (Lk_ret rv, t) \<and>
      (\<forall>j. j \<noteq> i \<longrightarrow> file_locks t j = file_locks s j) \<and>
      (case rv of None \<Rightarrow> assigned me (file_locks s i) ld (file_locks t i)
       | Some e \<Rightarrow> e = ENOLCK \<and> held me (file_locks t i) \<subseteq> held me (file_locks s i) \<and>
           (\<forall>q. q \<noteq> me \<longrightarrow> held q (file_locks t i) = held q (file_locks s i)))"
proof (cases rule: setflck_blocked [OF assms, of me, case_names free busy])
  case (free ins)
  then have none: "\<not> (\<exists>f \<in> set (file_locks s i). lk_conflict me ld f)" by blast
  show ?thesis
  proof (rule setflck_ready [OF assms(1-3) free(1), of slpflg])
    fix rv t
    assume r: "setflck_pass me i ld slpflg s = (Lk_ret rv, freefid i t)" "\<forall>j. j \<noteq> i \<longrightarrow> file_locks t j = file_locks s j"
      "case rv of None \<Rightarrow> assigned me (file_locks s i) ld (file_locks t i) \<and> (tidy me (file_locks s i) ld \<longrightarrow> lk_orderly (file_locks t i))
       | Some e \<Rightarrow> adj_fail me (file_locks s i) ld e (file_locks t i)"
    have "case rv of None \<Rightarrow> assigned me (file_locks s i) ld (file_locks (freefid i t) i)
       | Some e \<Rightarrow> e = ENOLCK \<and> held me (file_locks (freefid i t) i) \<subseteq> held me (file_locks s i) \<and>
           (\<forall>q. q \<noteq> me \<longrightarrow> held q (file_locks (freefid i t) i) = held q (file_locks s i))"
      using r(3) held_foreign_eq [of me "file_locks t i" "file_locks s i"] by (auto simp: adj_fail_def split: option.splits)
    then show ?thesis unfolding if_not_P [OF none] using r(1,2) by (intro exI [of _ rv] exI [of _ "freefid i t"]) simp
  qed
next
  case (busy found ins)
  then have "\<exists>f \<in> set (file_locks s i). lk_conflict me ld f" by blast
  moreover have "file_locks (freefid i s) = file_locks s" by (rule ext) simp
  ultimately show ?thesis by (simp add: setflck_pass_case [OF assms(4) busy(1)])
qed

lemma map_graph_cons:
  assumes "p \<notin> Domain {(p, q). map_of sl p = Some q}"
  shows "{(p', q'). map_of ((p, q) # sl) p' = Some q'} = insert (p, q) {(p', q'). map_of sl p' = Some q'}"
  using assms by (auto simp: Domain_unfold split: if_splits)

text \<open>A pass that may sleep: no circle of waiting processes comes about.\<close>

lemma pass_no_deadlock:
  assumes "lk_tables s" "lk_orderly (file_locks s i)" "st ld < en ld" "l_type ld \<in> {F_RDLCK, F_WRLCK}"
    and "acyclic (waits s)" "me \<notin> Domain (waits s)" "setflck_pass me i ld True s = (out, t)"
  shows "acyclic (waits t) \<and> out \<noteq> Lk_wild \<and> lk_tables t \<and>
    (out = Lk_ret (Some EDEADLK) \<longrightarrow> (\<exists>f \<in> set (file_locks s i). lk_conflict me ld f \<and> (l_pid f, me) \<in> (waits s)\<^sup>*)) \<and>
    (\<forall>found sf. out = Lk_asleep found sf \<longrightarrow> lk_conflict me ld (lk_data s found) \<and> lk_data s found \<in> set (file_locks s i) \<and>
       waits t = insert (me, l_pid (lk_data s found)) (waits s) \<and> file_locks t = file_locks s \<and>
       sleepers t = (me, l_pid (lk_data s found)) # sleepers s)"
proof (cases rule: setflck_blocked [OF assms(1-4), of me, case_names free busy])
  case (free ins)
  show ?thesis
  proof (rule setflck_ready [OF assms(1-3) free(1), of True])
    fix rv u assume u: "setflck_pass me i ld True s = (Lk_ret rv, freefid i u)" "sleepers u = sleepers s" "lk_tables u"
      "case rv of None \<Rightarrow> assigned me (file_locks s i) ld (file_locks u i) \<and> (tidy me (file_locks s i) ld \<longrightarrow> lk_orderly (file_locks u i))
       | Some e \<Rightarrow> adj_fail me (file_locks s i) ld e (file_locks u i)"
    then have o: "out = Lk_ret rv" "t = freefid i u" using assms(7) by auto
    have "rv \<noteq> Some EDEADLK" using u(4) by (auto simp: adj_fail_def)
    then show ?thesis using assms(5) u(2,3) by (simp add: o waits_def)
  qed
next
  case (busy found ins)
  obtain fr ls where sh: "lk_shape s fr ls" using assms(1) by (auto simp: lk_tables_def)
  have f: "found \<in> set (ls (Fid i))" by (rule busy(4) [OF sh])
  note D = deadflck_ok [OF assms(5), of me found] and P = assms(7) [unfolded setflck_pass_case [OF assms(4) busy(1)] option.case if_True]
  have ft: "waits (freefid i s) = waits s" by (simp add: waits_def)
  consider (dead) "out = Lk_ret (Some EDEADLK)" "t = freefid i s" "(l_pid (lk_data s found), me) \<in> (waits s)\<^sup>*"
    | (full) "out = Lk_ret (Some ENOLCK)" "t = freefid i s"
    | (sleep) sf u where "(l_pid (lk_data s found), me) \<notin> (waits s)\<^sup>*" "insflck me Sleeplcks ld None s = (Some sf, u)"
        "out = Lk_asleep found sf" "t = upd_lk sf (\<lambda>f. f\<lparr>stat := l_pid (lk_data u found)\<rparr>) (upd_lk found (\<lambda>f. f\<lparr>stat := stat f + 1\<rparr>) u)"
  proof (cases "(l_pid (lk_data s found), me) \<in> (waits s)\<^sup>*")
    case True
    then show thesis using P D dead by simp
  next
    case False
    then have P': "(case insflck me Sleeplcks ld None s of (None, s) \<Rightarrow> (Lk_ret (Some ENOLCK), freefid i s)
       | (Some sf, s) \<Rightarrow> (let s = upd_lk found (\<lambda>f. f\<lparr>stat := stat f + 1\<rparr>) s
            in (Lk_asleep found sf, upd_lk sf (\<lambda>f. f\<lparr>stat := l_pid (set_of (flox s found))\<rparr>) s))) = (out, t)"
      using P D by simp
    show thesis
    proof (cases "frlock s")
      case None then show thesis using P' full by (simp add: insflck_none)
    next
      case (Some n)
      then obtain u where u: "insflck me Sleeplcks ld None s = (Some n, u)" by (simp add: insflck_def)
      then show thesis using P' sleep [OF False u] by (simp add: Let_def upd_lk_def)
    qed
  qed
  then show ?thesis
  proof cases
    case dead then show ?thesis using assms(1,5) busy(2,3) ft by auto
  next
    case full then show ?thesis using assms(1,5) ft by simp
  next
    case sleep
    note V = lk_asleep_views [OF sh f sleep(2), folded sleep(4)]
    have w: "waits t = insert (me, l_pid (lk_data s found)) (waits s)"
      unfolding waits_def V(2) using assms(6) by (intro map_graph_cons) (simp add: waits_def)
    then have "acyclic (waits t)" using assms(5) sleep(1) by (simp add: acyclic_insert)
    moreover have "file_locks t = file_locks s" by (rule ext) (rule V(1))
    moreover have "lk_tables t" using V(3) by (simp add: lk_tables_def)
    ultimately show ?thesis using w V(2) busy(2,3) sleep(3) by auto
  qed
qed

lemma clean_fold:
  assumes "lk_shape s fr ls" "ls r = pre @ rest"
  shows "\<exists>fr'. lk_shape (foldl (\<lambda>s n. if l_pid (set_of (flox s n)) = me then delflck r n s else s) s rest) fr'
           (ls(r := pre @ filter (\<lambda>n. l_pid (lk_data s n) \<noteq> me) rest)) \<and>
         lk_data (foldl (\<lambda>s n. if l_pid (set_of (flox s n)) = me then delflck r n s else s) s rest) = lk_data s \<and>
         (\<forall>k. k \<notin> set rest \<longrightarrow>
            stat (flox (foldl (\<lambda>s n. if l_pid (set_of (flox s n)) = me then delflck r n s else s) s rest) k) = stat (flox s k))"
  using assms
proof (induction rest arbitrary: s fr ls pre)
  case Nil
  then show ?case by (auto simp: fun_upd_idem)
next
  case (Cons n rest)
  show ?case
  proof (cases "l_pid (lk_data s n) = me")
    case True
    note del = del_list [OF Cons.prems] and sta = delflck_ok(4) [OF Cons.prems]
    have r: "(ls(r := pre @ rest)) r = pre @ rest" by simp
    show ?thesis using Cons.IH [OF del(1) r] True unfolding del(2) fun_upd_upd by (simp add: sta)
  next
    case False
    have r: "ls r = (pre @ [n]) @ rest" using Cons.prems(2) by simp
    show ?thesis using Cons.IH [OF Cons.prems(1) r] False by simp
  qed
qed

lemma find_id_found:
  "find_id d n ks s = (Some i, t) \<Longrightarrow> t = upd_fl (Fid i) (\<lambda>x. x\<lparr>fl_refcnt := fl_refcnt x + 1\<rparr>) s"
  by (induction ks) (auto split: if_splits)

lemma find_id_none: "find_id d n ks s = (None, t) \<Longrightarrow> t = s"
  by (induction ks) (auto split: if_splits)

lemma insflck_fails: "insflck me r d fl s = (None, t) \<Longrightarrow> t = s"
  by (auto simp: insflck_def split: option.splits)

lemma findfid_views:
  assumes "findfid fp s = (Some i, t)"
  shows "lk_shape t fr ls \<longleftrightarrow> lk_shape s fr ls" "lk_data t = lk_data s" "file_locks t j = file_locks s j"
proof -
  note t = find_id_found [OF assms [unfolded findfid_def]]
  show "lk_shape t fr ls \<longleftrightarrow> lk_shape s fr ls" by (rule lk_shape_ids) (auto simp: t upd_fl_def)
  show "lk_data t = lk_data s" by (simp add: t upd_fl_def)
  show "file_locks t j = file_locks s j" by (simp add: file_locks_def lk_walk_def lk_next_def t upd_fl_def)
qed

text \<open>When a process closes a file its locks on that file, and no others, go.\<close>

lemma cleanlocks_own:
  assumes "lk_tables s" "findfid fp s = (Some i, s')"
  shows "lk_tables (cleanlocks me fp s)" "file_locks (cleanlocks me fp s) i = foreign me (file_locks s i)"
    "j \<noteq> i \<Longrightarrow> file_locks (cleanlocks me fp s) j = file_locks s j" "sleepers (cleanlocks me fp s) = sleepers s"
proof -
  obtain fr ls where sh: "lk_shape s fr ls" using assms(1) by (auto simp: lk_tables_def)
  note V = findfid_views [OF assms(2)]
  have s': "lk_shape s' fr ls" using V(1) sh by blast
  have w: "lk_walk s' (fl_flck (flinos s' (Fid i))) = ls (Fid i)" using lk_walk_list(2) [OF s', of "Fid i" "[]"] by simp
  define u where "u = foldl (\<lambda>s n. if l_pid (set_of (flox s n)) = me then delflck (Fid i) n s else s) s' (ls (Fid i))"
  have c: "cleanlocks me fp s = freefid i u" by (simp add: cleanlocks_def assms(2) w u_def)
  from clean_fold [OF s', of "Fid i" "[]" "ls (Fid i)" me]
  obtain fr' where u: "lk_shape u fr' (ls(Fid i := filter (\<lambda>n. l_pid (lk_data s' n) \<noteq> me) (ls (Fid i))))" "lk_data u = lk_data s'"
    "\<And>k. k \<notin> set (ls (Fid i)) \<Longrightarrow> stat (flox u k) = stat (flox s' k)"
    unfolding u_def by auto
  show "file_locks (cleanlocks me fp s) i = foreign me (file_locks s i)"
    unfolding c freefid_views file_locks_shape [OF u(1)] file_locks_shape [OF sh] u(2) V(2) by (simp add: foreign_def filter_map comp_def)
  show "file_locks (cleanlocks me fp s) j = file_locks s j" if "j \<noteq> i"
    unfolding c freefid_views file_locks_shape [OF u(1)] file_locks_shape [OF sh] u(2) V(2) using that by simp
  show "lk_tables (cleanlocks me fp s)" using u(1) by (auto simp: c lk_tables_def)
  have "k \<notin> set (ls (Fid i))" if "k \<in> set (ls Sleeplcks)" for k using that lk_shapeD(5) [OF sh, of "Fid i" Sleeplcks] by auto
  moreover have "flox s' = flox s" using find_id_found [OF assms(2) [unfolded findfid_def]] by (simp add: upd_fl_def)
  ultimately show "sleepers (cleanlocks me fp s) = sleepers s"
    unfolding c freefid_views sleepers_shape [OF u(1)] sleepers_shape [OF sh] u(2) V(2) using u(3) by simp
qed

text \<open>Turning the start of a region into an offset from the beginning of the file and back gives
  the caller's start and origin again, also where the additions wrap around.\<close>

lemma convoff_roundtrip:
  assumes "convoff fp ld 0 = (None, ld')" shows "convoff fp ld' (l_whence ld) = (None, ld)"
  using assms by (auto simp: convoff_def Let_def split: if_splits)

end
