(* ===== verification/Lock_Calls.thy ===== *)
theory Lock_Calls
  imports Record_Lock
begin

text \<open>
  The calls of record locking in sequence: the states reached from start-up by any calls of \<open>setflck\<close>,
  \<open>getflck\<close> and \<open>cleanlocks\<close> and by processes that go on after a sleep, the invariant that the lists are in order and
  exclude conflicting locks, and what the calls then do. Two counterexamples at the end show what the code does
  outside the conditions, and with the records of processes that are woken but have not run.
\<close>

section \<open>Sequences of calls\<close>

text \<open>Two states with the same lists: they differ in the file identifiers only.\<close>

definition same_lists :: "lkst \<Rightarrow> lkst \<Rightarrow> bool" where
  "same_lists s t \<longleftrightarrow> flox t = flox s \<and> frlock t = frlock s \<and> (\<forall>r. fl_flck (flinos t r) = fl_flck (flinos s r)) \<and>
     recs (flckinfo t) = recs (flckinfo s)"

lemma same_lists_refl [simp]: "same_lists s s"
  by (simp add: same_lists_def)

lemma same_lists_trans: "same_lists s t \<Longrightarrow> same_lists t u \<Longrightarrow> same_lists s u"
  by (simp add: same_lists_def)

lemma same_lists_views:
  assumes "same_lists s t"
  shows "file_locks t = file_locks s" "sleepers t = sleepers s" "lk_tables t \<longleftrightarrow> lk_tables s" "waits t = waits s"
proof -
  have "lk_walk t p = lk_walk s p" for p using assms by (simp add: lk_walk_def same_lists_def lk_next_def)
  then show "file_locks t = file_locks s" "sleepers t = sleepers s"
    using assms by (auto simp: file_locks_def sleepers_def same_lists_def fun_eq_iff)
  then show "waits t = waits s" by (simp add: waits_def)
  have "lk_shape t fr ls \<longleftrightarrow> lk_shape s fr ls" for fr ls
    by (rule lk_shape_ids) (use assms in \<open>simp_all add: same_lists_def\<close>)
  then show "lk_tables t \<longleftrightarrow> lk_tables s" by (simp add: lk_tables_def)
qed

lemma freefid_same: "same_lists s (freefid i s)"
  by (simp add: same_lists_def freefid_lists)

lemma findfid_same: "findfid fp s = (i, t) \<Longrightarrow> same_lists s t"
proof -
  have "find_id d n ks s = (i, t) \<Longrightarrow> same_lists s t" for d n ks
    by (induction ks) (auto simp: same_lists_def upd_fl_def split: if_splits)
  then show "findfid fp s = (i, t) \<Longrightarrow> same_lists s t" unfolding findfid_def .
qed

lemma allocfid_same: "allocfid fp s = (i, t) \<Longrightarrow> same_lists s t"
  by (auto simp: allocfid_def same_lists_def Let_def upd_fl_def upd_info_def opt_fl_def split: option.splits)

lemma allocfid_head: "allocfid fp s = (Some i, t) \<Longrightarrow> frfid s = Some i"
  by (auto simp: allocfid_def Let_def split: option.splits)

text \<open>The region a request means, and the identifier its file has or will get.\<close>

definition lk_region :: "lfile \<Rightarrow> flock \<Rightarrow> flock option" where
  "lk_region fp ld = (case convoff fp ld 0 of (None, r) \<Rightarrow> Some (set_end r) | _ \<Rightarrow> None)"

definition lk_id :: "lfile \<Rightarrow> lkst \<Rightarrow> nat option" where
  "lk_id fp s = (case fst (findfid fp s) of Some i \<Rightarrow> Some i | None \<Rightarrow> frfid s)"

lemma lk_region_type: "lk_region fp ld = Some r \<Longrightarrow> l_type r = l_type ld"
  by (auto simp: lk_region_def set_end_def convoff_def Let_def split: option.splits if_splits)

text \<open>A call of \<open>setflck\<close> is refused before it looks at locks, has nothing to unlock, or makes a pass over the
  list of its file.\<close>

lemma setflck_cases:
  assumes "setflck me fp ld slpflg s = (out, t)"
  shows "(\<exists>e. out = Lk_ret (Some e) \<and> e \<in> {EBADF, EINVAL, EMFILE}) \<and> same_lists s t \<or>
    out = Lk_ret None \<and> l_type ld = F_UNLCK \<and> fst (findfid fp s) = None \<and> lk_region fp ld \<noteq> None \<and> same_lists s t \<or>
    (\<exists>i r s'. lk_region fp ld = Some r \<and> lk_id fp s = Some i \<and> same_lists s s' \<and> setflck_pass me i r slpflg s' = (out, t))"
proof (cases "l_type ld = F_RDLCK \<and> \<not> f_rd fp \<or> l_type ld = F_WRLCK \<and> \<not> f_wr fp")
  case True
  then show ?thesis using assms by (auto simp: setflck_def)
next
  case mode: False
  obtain e r where c: "convoff fp ld 0 = (e, r)" by fastforce
  show ?thesis
  proof (cases e)
    case (Some x)
    then have "x = EINVAL" using c by (auto simp: convoff_def Let_def split: if_splits)
    then show ?thesis using assms mode c Some by (auto simp: setflck_def)
  next
    case None
    then have rg: "lk_region fp ld = Some (set_end r)" using c by (simp add: lk_region_def)
    obtain k s1 where f: "findfid fp s = (k, s1)" by fastforce
    note S1 = findfid_same [OF f]
    have go: "setflck me fp ld slpflg s = (case k of Some i \<Rightarrow> setflck_pass me i (set_end r) slpflg s1
       | None \<Rightarrow> if l_type (set_end r) = F_UNLCK then (Lk_ret None, s1)
          else (case allocfid fp s1 of (None, s) \<Rightarrow> (Lk_ret (Some EMFILE), s) | (Some i, s) \<Rightarrow> setflck_pass me i (set_end r) slpflg s))"
      unfolding setflck_def if_not_P [OF mode] c None f prod.case option.case Let_def by (cases k) simp_all
    show ?thesis
    proof (cases k)
      case (Some i)
      then have "lk_id fp s = Some i" using f by (simp add: lk_id_def)
      then show ?thesis using assms rg S1 unfolding go Some by auto
    next
      case none: None
      show ?thesis
      proof (cases "l_type (set_end r) = F_UNLCK")
        case True
        then show ?thesis using assms rg S1 f lk_region_type [OF rg] unfolding go none by auto
      next
        case False
        obtain j s2 where a: "allocfid fp s1 = (j, s2)" by fastforce
        note S2 = same_lists_trans [OF S1 allocfid_same [OF a]]
        show ?thesis
        proof (cases j)
          case None
          then show ?thesis using assms S2 False a unfolding go none by auto
        next
          case (Some i)
          have "s1 = s" using f none unfolding findfid_def by (auto dest: find_id_none)
          then have "lk_id fp s = Some i" using f none allocfid_head [OF a [unfolded Some]] by (simp add: lk_id_def)
          then show ?thesis using assms rg S2 False a Some unfolding go none by auto
        qed
      qed
    qed
  qed
qed

text \<open>The conditions the reachable states satisfy.\<close>

definition lk_good :: "lkst \<Rightarrow> bool" where
  "lk_good s \<longleftrightarrow> lk_tables s \<and> (\<forall>i. lk_orderly (file_locks s i) \<and> lk_excl (file_locks s i)) \<and>
     distinct (map fst (sleepers s)) \<and> acyclic (waits s)"

lemma lk_good_same: "same_lists s t \<Longrightarrow> lk_good t \<longleftrightarrow> lk_good s"
  by (simp add: lk_good_def same_lists_views)

lemma waits_domain: "Domain (waits s) = fst ` set (sleepers s)"
proof -
  have "Domain (waits s) = dom (map_of (sleepers s))" by (auto simp: waits_def dom_def)
  then show ?thesis by (simp add: dom_map_of_conv_image_fst)
qed

lemma waits_set: "distinct (map fst (sleepers s)) \<Longrightarrow> waits s = set (sleepers s)"
  by (auto simp: waits_def)

lemma pass_unlock_types:
  assumes "l_type ld \<notin> {F_RDLCK, F_WRLCK, F_UNLCK}"
  shows "setflck_pass me i ld slpflg s = (Lk_ret (Some EINVAL), freefid i s)"
  using assms by (simp add: setflck_pass_def Let_def)

lemma ready_good:
  assumes g: "lk_good s" and st: "st ld < en ld" and td: "tidy me (file_locks s i) ld" and rd: "adj_ready me i ld ins s"
    and n: "l_type ld \<noteq> F_UNLCK \<Longrightarrow> \<forall>f \<in> set (file_locks s i). \<not> lk_conflict me ld f"
  shows "\<exists>rv t. setflck_pass me i ld slpflg s = (Lk_ret rv, t) \<and> rv \<noteq> Some EDEADLK \<and> sleepers t = sleepers s \<and> lk_good t"
proof -
  have G: "lk_tables s" "lk_orderly (file_locks s i)" "lk_excl (file_locks s i)"
    "\<And>j. lk_orderly (file_locks s j) \<and> lk_excl (file_locks s j)" "distinct (map fst (sleepers s))" "acyclic (waits s)"
    using g by (simp_all add: lk_good_def)
  have ty: "l_type ld \<in> {F_RDLCK, F_WRLCK, F_UNLCK}" using rd unfolding adj_ready_def by blast
  obtain rv t where t: "setflck_pass me i ld slpflg s = (Lk_ret rv, freefid i t)"
    "\<forall>j. j \<noteq> i \<longrightarrow> file_locks t j = file_locks s j" "sleepers t = sleepers s" "lk_tables t"
    "case rv of None \<Rightarrow> assigned me (file_locks s i) ld (file_locks t i) \<and>
         (tidy me (file_locks s i) ld \<longrightarrow> lk_orderly (file_locks t i))
       | Some e \<Rightarrow> adj_fail me (file_locks s i) ld e (file_locks t i)"
    by (rule setflck_ready [OF G(1,2) st rd, of slpflg]) blast
  have "lk_orderly (file_locks t i) \<and> lk_excl (file_locks t i)"
  proof (cases rv)
    case None
    then show ?thesis using t(5) td assigned_excl [OF _ G(3) ty n G(2)] by simp
  next
    case (Some e)
    then show ?thesis using t(5) adj_fail_orderly [OF _ G(2) td] adj_fail_excl [OF _ G(3)] by auto
  qed
  then have "lk_orderly (file_locks t j) \<and> lk_excl (file_locks t j)" for j using t(2) G(4) by (cases "j = i") auto
  then have "lk_good t" using t(3,4) G(5,6) by (simp add: lk_good_def waits_def)
  then have "lk_good (freefid i t)" using lk_good_same [OF freefid_same] by blast
  moreover have "rv \<noteq> Some EDEADLK" using t(5) by (auto simp: adj_fail_def)
  ultimately show ?thesis using t(1,3) by auto
qed

lemma pass_good:
  assumes g: "lk_good s" and st: "st ld < en ld" and td: "tidy me (file_locks s i) ld" and me: "me \<notin> fst ` set (sleepers s)"
    and p: "setflck_pass me i ld slpflg s = (out, t)"
  shows "lk_good t \<and> out \<noteq> Lk_wild"
proof -
  have G: "lk_tables s" "lk_orderly (file_locks s i)" "acyclic (waits s)" using g by (simp_all add: lk_good_def)
  have fr: "lk_good (freefid i s)" using g lk_good_same [OF freefid_same] by blast
  consider (rw) "l_type ld \<in> {F_RDLCK, F_WRLCK}" | (un) "l_type ld = F_UNLCK" | (bad) "l_type ld \<notin> {F_RDLCK, F_WRLCK, F_UNLCK}" by blast
  then show ?thesis
  proof cases
    case bad then show ?thesis using p fr by (auto simp: pass_unlock_types)
  next
    case un
    then have "adj_ready me i ld (fl_flck (flinos s (Fid i))) s" by (simp add: adj_ready_def)
    from ready_good [OF g st td this, of slpflg] un p show ?thesis by auto
  next
    case rw
    show ?thesis
    proof (cases rule: setflck_blocked [OF G(1,2) st rw, of me, case_names free busy])
      case (free ins)
      from ready_good [OF g st td free(1), of slpflg] free(2) p show ?thesis by auto
    next
      case (busy found ins)
      show ?thesis
      proof (cases slpflg)
        case False
        then have "out = Lk_ret (Some EACCES)" "t = freefid i s" using p by (simp_all add: setflck_pass_case [OF rw busy(1)])
        then show ?thesis using fr by simp
      next
        case True
        have "me \<notin> Domain (waits s)" using me by (simp add: waits_domain)
        have "setflck_pass me i ld True s = (out, t)" using p True by simp
        note N = pass_no_deadlock [OF G(1,2) st rw G(3) \<open>me \<notin> Domain (waits s)\<close> this]
        show ?thesis
        proof (cases out)
          case (Lk_asleep fd sf)
          then have "file_locks t = file_locks s" "sleepers t = (me, l_pid (lk_data s fd)) # sleepers s" using N by auto
          then show ?thesis using N g me by (auto simp: lk_good_def)
        next
          case (Lk_ret rv)
          then have "t = freefid i s" using p True
            by (auto simp: setflck_pass_case [OF rw busy(1)] Let_def split: option.splits bool.splits prod.splits dest: insflck_fails)
          then show ?thesis using N fr by simp
        qed (use N in simp)
      qed
    qed
  qed
qed

text \<open>After the sleep the entry leaves the list of sleeping locks, and the pass is made again.\<close>

lemma again_good:
  assumes g: "lk_good s" and sf: "sf \<in> set (lk_walk s (fl_flck (flinos s Sleeplcks)))" "l_pid (lk_data s sf) = me"
    and st: "st ld < en ld" and td: "tidy me (file_locks s i) ld"
    and p: "setflck_again me i ld slpflg signalled sf s = (out, t)"
  shows "lk_good t \<and> out \<noteq> Lk_wild"
proof -
  obtain fr ls where sh: "lk_shape s fr ls" using g by (auto simp: lk_good_def lk_tables_def)
  have w: "lk_walk s (fl_flck (flinos s Sleeplcks)) = ls Sleeplcks" using lk_walk_list(2) [OF sh, of Sleeplcks "[]"] by simp
  with sf(1) obtain us vs where ls: "ls Sleeplcks = us @ sf # vs" by (metis split_list)
  define s1 where "s1 = upd_lk sf (\<lambda>f. f\<lparr>stat := 0\<rparr>) s"
  have "lk_next s1 = lk_next s" "lk_prev s1 = lk_prev s" "frlock s1 = frlock s" "flinos s1 = flinos s" "flckinfo s1 = flckinfo s"
    by (simp_all add: s1_def lk_simps lk_next_eq lk_prev_eq)
  then have sh1: "lk_shape s1 fr ls" using lk_shape_data sh by blast
  have d1: "set_of (flox s1 k) = set_of (flox s k)" "k \<noteq> sf \<Longrightarrow> stat (flox s1 k) = stat (flox s k)" for k
    by (simp_all add: s1_def upd_lk_def)
  define s2 where "s2 = delflck Sleeplcks sf s1"
  note D = delflck_ok [OF sh1 ls, folded s2_def]
  have data: "lk_data s2 k = lk_data s k" for k using D(3) [of k] d1(1) [of k] by simp
  have F: "file_locks s2 j = file_locks s j" for j
    using data by (simp add: file_locks_shape [OF D(1)] file_locks_shape [OF sh])
  have ds: "distinct (us @ sf # vs)" using lk_shapeD(6) [OF sh, of Sleeplcks] ls by simp
  let ?e = "\<lambda>n. (l_pid (lk_data s n), stat (flox s n))"
  have S: "sleepers s = map ?e us @ ?e sf # map ?e vs" by (simp add: sleepers_shape [OF sh] ls)
  have "(l_pid (lk_data s2 n), stat (flox s2 n)) = ?e n" if "n \<in> set (us @ vs)" for n
    using that ds data [of n] D(4) [of n] d1(2) [of n] by auto
  then have S2: "sleepers s2 = map ?e us @ map ?e vs" by (simp add: sleepers_shape [OF D(1)])
  have G: "distinct (map fst (sleepers s))" "acyclic (waits s)" using g by (simp_all add: lk_good_def)
  have me: "me \<notin> fst ` set (sleepers s2)" using G(1) sf(2) unfolding S S2 by auto
  have dd: "distinct (map fst (sleepers s2))" using G(1) unfolding S S2 by auto
  have "waits s2 \<subseteq> waits s"
    unfolding waits_set [OF G(1)] waits_set [OF dd] S S2 by auto
  then have "acyclic (waits s2)" using G(2) acyclic_subset by blast
  then have g2: "lk_good s2" using g dd D(1) F by (auto simp: lk_good_def lk_tables_def)
  show ?thesis
  proof (cases signalled)
    case True
    then have "out = Lk_ret (Some EINTR)" "t = freefid i s2" using p by (simp_all add: setflck_again_def Let_def s1_def s2_def)
    then show ?thesis using g2 lk_good_same [OF freefid_same] by auto
  next
    case False
    then have "setflck_pass me i ld slpflg s2 = (out, t)" using p by (simp add: setflck_again_def Let_def s1_def s2_def)
    then show ?thesis using pass_good [OF g2 st _ me] td F by simp
  qed
qed

lemma foreign_good: "lk_orderly fs \<Longrightarrow> lk_excl fs \<Longrightarrow> lk_orderly (foreign me fs) \<and> lk_excl (foreign me fs)"
proof -
  assume o: "lk_orderly fs" and e: "lk_excl fs"
  have "filter (\<lambda>f. l_pid f = p) (foreign me fs) = (if p = me then [] else filter (\<lambda>f. l_pid f = p) fs)" for p by (rule foreign_own)
  then have "in_line p (foreign me fs)" for p using o by (auto simp: lk_orderly_def in_line_def foreign_def)
  moreover have "by_start (foreign me fs)" using o by (simp add: lk_orderly_def by_start_def foreign_def sorted_wrt_filter)
  moreover have "held p (foreign me fs) \<subseteq> held p fs" for p by (auto simp: held_def foreign_def)
  moreover have "\<forall>f \<in> set (foreign me fs). l_type f = F_RDLCK \<or> l_type f = F_WRLCK" using o by (auto simp: lk_orderly_def foreign_def)
  ultimately show ?thesis using e unfolding lk_orderly_def lk_excl_def by (meson subsetD)
qed

lemma cleanlocks_good:
  assumes g: "lk_good s" shows "lk_good (cleanlocks me fp s)"
proof (cases "fst (findfid fp s)")
  case None
  then obtain t where "findfid fp s = (None, t)" by (metis prod.collapse)
  then show ?thesis using g lk_good_same [OF findfid_same] by (simp add: cleanlocks_def)
next
  case (Some i)
  then obtain s' where f: "findfid fp s = (Some i, s')" by (metis prod.collapse)
  have T: "lk_tables s" using g by (simp add: lk_good_def)
  note C = cleanlocks_own [OF T f, where me = me]
  have "lk_orderly (file_locks (cleanlocks me fp s) j) \<and> lk_excl (file_locks (cleanlocks me fp s) j)" for j
    using C(2) C(3) [of j] g foreign_good by (cases "j = i") (auto simp: lk_good_def)
  moreover have "waits (cleanlocks me fp s) = waits s" using C(4) by (simp add: waits_def)
  ultimately show ?thesis using C(1,4) g by (simp add: lk_good_def)
qed

lemma getflck_same: "same_lists s (snd (snd (getflck me fp ld s)))"
proof -
  obtain k t where f: "findfid fp s = (k, t)" by fastforce
  note T = findfid_same [OF f]
  show ?thesis
  proof (cases k)
    case None then show ?thesis using T f by (simp add: getflck_def)
  next
    case (Some i)
    show ?thesis using T same_lists_trans [OF T freefid_same] unfolding getflck_def f Some
      by (auto simp: Let_def split: prod.splits option.splits)
  qed
qed

text \<open>At start-up.\<close>

lemma push_all:
  assumes "frlock s = None" "t = foldl (\<lambda>s n. push_free n s) s [0..<n]"
  shows "chain (lk_next t) (frlock t) (rev [0..<n]) \<and> flinos t = flinos s \<and> flckinfo t = flckinfo s"
  using assms(2)
proof (induction n arbitrary: t)
  case 0
  then show ?case using assms(1) by simp
next
  case (Suc n)
  define u where "u = foldl (\<lambda>s n. push_free n s) s [0..<n]"
  have "chain (lk_next u) (frlock u) (rev [0..<n]) \<and> flinos u = flinos s \<and> flckinfo u = flckinfo s" by (rule Suc.IH [OF u_def])
  moreover have "t = push_free n u" using Suc.prems by (simp add: u_def)
  ultimately show ?case by (simp add: lk_simps fun_upd_def [symmetric])
qed

lemma flckinit_good:
  assumes "frlock s = None" "\<And>r. fl_flck (flinos s r) = None"
  shows "lk_good (flckinit s)"
proof -
  have F: "same_lists s (foldl (\<lambda>s i. freefid i s) s ks)" for ks
    by (induction ks rule: rev_induct) (auto intro: same_lists_trans freefid_same)
  define u where "u = upd_info (\<lambda>c. c\<lparr>filcnt := 0\<rparr>) (foldl (\<lambda>s i. freefid i s) s [0..<fils (flckinfo s)])"
  have u: "frlock u = None" "fl_flck (flinos u r) = None" for r
    using F [of "[0..<fils (flckinfo s)]"] assms by (simp_all add: u_def lk_simps same_lists_def)
  define v where "v = foldl (\<lambda>s n. push_free n s) u [0..<recs (flckinfo u)]"
  note P = push_all [OF u(1) v_def]
  have i: "flckinit s = upd_info (\<lambda>c. c\<lparr>reccnt := 0\<rparr>) v" by (simp add: flckinit_def Let_def u_def v_def)
  have sh: "lk_shape (flckinit s) (rev [0..<recs (flckinfo u)]) (\<lambda>_. [])"
    unfolding i lk_shape_def lk_list_def using P u(2) by (auto simp: lk_simps)
  show ?thesis
    by (auto simp: lk_good_def lk_tables_def file_locks_shape [OF sh] sleepers_shape [OF sh] waits_def lk_orderly_def lk_excl_def acyclic_def
        intro: sh)
qed

text \<open>The requests considered. The caller is not asleep on a lock, the region is not empty, and an unlock or
  a change of type takes no part out of a lock of the caller in which a lock of another process starts:
  that is where the list gets out of order, below.\<close>

definition lk_sound :: "u16 \<Rightarrow> lfile \<Rightarrow> flock \<Rightarrow> lkst \<Rightarrow> bool" where
  "lk_sound me fp ld s \<longleftrightarrow> me \<notin> fst ` set (sleepers s) \<and>
     (case lk_region fp ld of None \<Rightarrow> True | Some r \<Rightarrow> st r < en r \<and>
        (case lk_id fp s of None \<Rightarrow> True | Some i \<Rightarrow> tidy me (file_locks s i) r))"

lemma lk_soundD:
  assumes "lk_sound me fp ld s"
  shows "me \<notin> fst ` set (sleepers s)" "lk_region fp ld = Some r \<Longrightarrow> st r < en r"
    "lk_region fp ld = Some r \<Longrightarrow> lk_id fp s = Some i \<Longrightarrow> tidy me (file_locks s i) r"
  using assms by (simp_all add: lk_sound_def)

text \<open>The states reached from start-up by calls of any processes on any files, in any order. A process that
  slept goes on when it runs again, woken or signalled, with the request it made.\<close>

inductive lk_reach :: "lkst \<Rightarrow> bool" where
  lk_start: "frlock s = None \<Longrightarrow> (\<And>r. fl_flck (flinos s r) = None) \<Longrightarrow> lk_reach (flckinit s)"
| lk_set: "lk_reach s \<Longrightarrow> lk_sound me fp ld s \<Longrightarrow> setflck me fp ld slpflg s = (out, t) \<Longrightarrow> lk_reach t"
| lk_again: "lk_reach s \<Longrightarrow> sf \<in> set (lk_walk s (fl_flck (flinos s Sleeplcks))) \<Longrightarrow> l_pid (lk_data s sf) = me \<Longrightarrow>
    st ld < en ld \<Longrightarrow> tidy me (file_locks s i) ld \<Longrightarrow> setflck_again me i ld True signalled sf s = (out, t) \<Longrightarrow> lk_reach t"
| lk_get: "lk_reach s \<Longrightarrow> getflck me fp ld s = (e, ld', t) \<Longrightarrow> lk_reach t"
| lk_clean: "lk_reach s \<Longrightarrow> lk_reach (cleanlocks me fp s)"

lemma lk_reach_good: "lk_reach s \<Longrightarrow> lk_good s"
proof (induction rule: lk_reach.induct)
  case (lk_start s)
  then show ?case by (intro flckinit_good)
next
  case (lk_set s me fp ld slpflg out t)
  from setflck_cases [OF lk_set.hyps(3)] consider (same) "same_lists s t"
    | (pass) i r s' where "lk_region fp ld = Some r" "lk_id fp s = Some i" "same_lists s s'" "setflck_pass me i r slpflg s' = (out, t)" by blast
  then show ?case
  proof cases
    case same then show ?thesis using lk_set.IH lk_good_same by blast
  next
    case pass
    have "lk_good s'" using lk_set.IH lk_good_same [OF pass(3)] by blast
    then show ?thesis
      using pass_good [OF _ lk_soundD(2) [OF lk_set.hyps(2) pass(1)] _ _ pass(4)] lk_soundD(1,3) [OF lk_set.hyps(2)] pass(1,2)
        same_lists_views [OF pass(3)] by simp
  qed
next
  case (lk_again s sf me ld i signalled out t)
  then show ?case using again_good by blast
next
  case (lk_get s me fp ld e ld' t)
  then show ?case using lk_good_same [OF getflck_same [of s me fp ld]] by simp
next
  case (lk_clean s me fp)
  then show ?case by (intro cleanlocks_good)
qed

section \<open>Tables reached by a few calls\<close>

definition ex_flock :: "u16 \<Rightarrow> u32 \<Rightarrow> u32 \<Rightarrow> u16 \<Rightarrow> flock" where
  "ex_flock ty a n p = \<lparr>l_type = ty, l_whence = 0, l_start = a, l_len = n, l_pid = p\<rparr>"

definition ex_file :: lfile where
  "ex_file = \<lparr>f_rd = True, f_wr = True, f_offset = 7, i_dev = 1, i_number = 2, i_size = 100\<rparr>"

text \<open>Tables of five locks and one file, as the system starts with them.\<close>

definition ex_zero :: lkst where
  "ex_zero = \<lparr>flox = (\<lambda>n. \<lparr>set_of = ex_flock 0 0 0 0, stat = 0, f_prev = None, f_next = None\<rparr>),
     flinos = (\<lambda>r. \<lparr>fl_dev = 0, fl_number = 0, fl_refcnt = 0, fl_flck = None, i_prev = None, i_next = None\<rparr>),
     frlock = None, frfid = None, fids = None,
     flckinfo = \<lparr>recs = 5, fils = 1, reccnt = 0, filcnt = 0, rectot = 0, filtot = 0\<rparr>, lk_wakes = []\<rparr>"

definition ex_call :: "u16 \<Rightarrow> u16 \<Rightarrow> u32 \<Rightarrow> u32 \<Rightarrow> lkst \<Rightarrow> lk_outcome \<times> lkst" where
  "ex_call me ty a n = setflck me ex_file (ex_flock ty a n 0) True"

text \<open>Process 1 locks the bytes 0 to 10 for writing, process 2 the bytes 20 to 30 for reading; then process 2
  waits for process 1.\<close>

definition ex_one :: lkst where "ex_one = snd (ex_call 1 F_WRLCK 0 10 (flckinit ex_zero))"
definition ex_two :: lkst where "ex_two = snd (ex_call 2 F_RDLCK 20 10 ex_one)"
definition ex_lkst :: lkst where "ex_lkst = snd (ex_call 2 F_WRLCK 5 1 ex_two)"

lemma ex_step: "lk_reach s \<Longrightarrow> lk_sound me ex_file (ex_flock ty a n 0) s \<Longrightarrow> lk_reach (snd (ex_call me ty a n s))"
  unfolding ex_call_def using lk_set by (metis prod.collapse)

lemma ex_sound:
  "lk_sound 1 ex_file (ex_flock F_WRLCK 0 10 0) (flckinit ex_zero)" "lk_sound 1 ex_file (ex_flock F_UNLCK 3 4 0) ex_one"
  "lk_sound 2 ex_file (ex_flock F_RDLCK 20 10 0) ex_one" "lk_sound 2 ex_file (ex_flock F_WRLCK 5 1 0) ex_two"
  by code_simp+

lemma ex_reach: "lk_reach ex_one" "lk_reach ex_two" "lk_reach ex_lkst"
proof -
  have "lk_reach (flckinit ex_zero)" by (rule lk_start) (simp_all add: ex_zero_def)
  from ex_step [OF this ex_sound(1)] show 1: "lk_reach ex_one" by (simp add: ex_one_def)
  from ex_step [OF this ex_sound(3)] show 2: "lk_reach ex_two" by (simp add: ex_two_def)
  from ex_step [OF this ex_sound(4)] show 3: "lk_reach ex_lkst" by (simp add: ex_lkst_def)
qed


section \<open>Properties\<close>


text \<open>C1: No two processes come to hold conflicting locks, in any state reached from start-up by the calls of any
  processes. And when \<open>setflck\<close> returns with success the caller holds the region asked for with the type asked for
  (or no longer, for an unlock) and otherwise what it held before, and every other process and file keeps its locks.
  The calls are those whose region is not empty and that do not take, out of a lock of the caller, a part in which a
  lock of another process starts (\<open>lk_sound\<close>): after such a call the code puts the severed piece in the wrong
  place, and \<open>unlock_middle_breaks_exclusion\<close> shows the exclusion fail.\<close>

theorem setflck_exclusion:
  assumes "lk_reach s" "lk_sound me fp ld s" "setflck me fp ld slpflg s = (Lk_ret None, t)"
  shows "lk_reach t \<and> (\<forall>i. lk_excl (file_locks s i) \<and> lk_excl (file_locks t i)) \<and>
    (l_type ld = F_UNLCK \<and> fst (findfid fp s) = None \<and> file_locks t = file_locks s \<or>
     (\<exists>i r. lk_id fp s = Some i \<and> lk_region fp ld = Some r \<and> assigned me (file_locks s i) r (file_locks t i) \<and>
        (\<forall>j. j \<noteq> i \<longrightarrow> file_locks t j = file_locks s j)))"
proof -
  have R: "lk_reach t" by (rule lk_set [OF assms])
  have G: "lk_good s" "lk_good t" using lk_reach_good assms(1) R by blast+
  from setflck_cases [OF assms(3)] consider (none) "l_type ld = F_UNLCK" "fst (findfid fp s) = None" "same_lists s t"
    | (pass) i r s' where "lk_region fp ld = Some r" "lk_id fp s = Some i" "same_lists s s'" "setflck_pass me i r slpflg s' = (Lk_ret None, t)" by auto
  then have "l_type ld = F_UNLCK \<and> fst (findfid fp s) = None \<and> file_locks t = file_locks s \<or>
     (\<exists>i r. lk_id fp s = Some i \<and> lk_region fp ld = Some r \<and> assigned me (file_locks s i) r (file_locks t i) \<and>
        (\<forall>j. j \<noteq> i \<longrightarrow> file_locks t j = file_locks s j))"
  proof cases
    case none then show ?thesis using same_lists_views by blast
  next
    case pass
    have "lk_good s'" using G(1) lk_good_same [OF pass(3)] by blast
    then have T: "lk_tables s'" "lk_orderly (file_locks s' i)" "lk_excl (file_locks s' i)" by (simp_all add: lk_good_def)
    have ty: "l_type r \<in> {F_RDLCK, F_WRLCK, F_UNLCK}" using pass(4) pass_unlock_types [of r] by fastforce
    from pass_exclusion [OF T lk_soundD(2) [OF assms(2) pass(1)] ty pass(4)] pass(1,2) show ?thesis
      by (auto simp: same_lists_views [OF pass(3)])
  qed
  then show ?thesis using R G by (auto simp: lk_good_def)
qed

theorem setflck_exclusion_witness:
  "\<exists>t. ex_call 1 F_UNLCK 3 4 ex_one = (Lk_ret None, t) \<and> lk_excl (file_locks t 0) \<and>
     held 1 (file_locks t 0) = held 1 (file_locks ex_one 0) - {3..<7} \<times> UNIV"
proof -
  have "fst (ex_call 1 F_UNLCK 3 4 ex_one) = Lk_ret None" by code_simp
  then obtain t where t: "ex_call 1 F_UNLCK 3 4 ex_one = (Lk_ret None, t)" by (metis prod.collapse)
  have i: "lk_id ex_file ex_one = Some 0" "fst (findfid ex_file ex_one) = Some 0"
    "lk_region ex_file (ex_flock F_UNLCK 3 4 0) = Some \<lparr>l_type = F_UNLCK, l_whence = 0, l_start = 3, l_len = 7, l_pid = 0\<rparr>"
    by code_simp+
  from setflck_exclusion [OF ex_reach(1) ex_sound(2) t [unfolded ex_call_def]] i t show ?thesis
    by (auto simp: assigned_def rng_def)
qed



text \<open>C11: Waiting never becomes a deadlock. The kernel records for every process asleep on a lock the process it
  waits for, from its going to sleep until it runs again. In every state reached from start-up by calls that keep the
  lists in order (\<open>lk_sound\<close>) these records have no circle, the search for one ends, and a call that goes to sleep
  does so on a conflicting lock and leaves no circle. It is refused with \<open>EDEADLK\<close> only if by these records the
  owner of a conflicting lock waits, directly or through others, for the caller. A process that has been woken and
  has not run yet is still recorded, so that the refusal may come too soon (\<open>woken_still_waits\<close>).\<close>

theorem setflck_no_deadlock:
  assumes "lk_reach s" "lk_sound me fp ld s" "setflck me fp ld True s = (out, t)"
  shows "acyclic (waits s) \<and> acyclic (waits t) \<and> out \<noteq> Lk_wild \<and>
    (out = Lk_ret (Some EDEADLK) \<longrightarrow> (\<exists>i r. lk_id fp s = Some i \<and> lk_region fp ld = Some r \<and>
       (\<exists>f \<in> set (file_locks s i). lk_conflict me r f \<and> (l_pid f, me) \<in> (waits s)\<^sup>*))) \<and>
    (\<forall>found sf. out = Lk_asleep found sf \<longrightarrow> (\<exists>i r. lk_id fp s = Some i \<and> lk_region fp ld = Some r \<and>
         lk_conflict me r (lk_data s found) \<and> lk_data s found \<in> set (file_locks s i)) \<and>
       waits t = insert (me, l_pid (lk_data s found)) (waits s) \<and> file_locks t = file_locks s)"
proof -
  have G: "lk_good s" "lk_good t" using lk_reach_good assms(1) lk_set [OF assms] by blast+
  then have A: "acyclic (waits s)" "acyclic (waits t)" by (simp_all add: lk_good_def)
  from setflck_cases [OF assms(3)] consider (none) rv where "out = Lk_ret rv" "rv \<noteq> Some EDEADLK"
    | (pass) i r s' where "lk_region fp ld = Some r" "lk_id fp s = Some i" "same_lists s s'" "setflck_pass me i r True s' = (out, t)" by auto
  then show ?thesis
  proof cases
    case none then show ?thesis using A by simp
  next
    case pass
    note V = same_lists_views [OF pass(3)]
    have g: "lk_good s'" using G(1) lk_good_same [OF pass(3)] by blast
    then have T: "lk_tables s'" "lk_orderly (file_locks s' i)" "acyclic (waits s')" by (simp_all add: lk_good_def)
    have D: "lk_data s' = lk_data s" using pass(3) by (simp add: same_lists_def)
    note st = lk_soundD(2) [OF assms(2) pass(1)] and td = lk_soundD(3) [OF assms(2) pass(1,2)]
    have me: "me \<notin> Domain (waits s')" using lk_soundD(1) [OF assms(2)] by (simp add: waits_domain V)
    consider (rw) "l_type r \<in> {F_RDLCK, F_WRLCK}" | (un) "l_type r = F_UNLCK" | (bad) "l_type r \<notin> {F_RDLCK, F_WRLCK, F_UNLCK}" by blast
    then show ?thesis
    proof cases
      case bad then show ?thesis using pass(4) A by (auto simp: pass_unlock_types)
    next
      case un
      then have "adj_ready me i r (fl_flck (flinos s' (Fid i))) s'" by (simp add: adj_ready_def)
      from ready_good [OF g st _ this, of True] un td pass(4) A show ?thesis by (auto simp: V)
    next
      case rw
      from pass_no_deadlock [OF T(1,2) st rw T(3) me pass(4)] A pass(1,2) show ?thesis unfolding V D by blast
    qed
  qed
qed

theorem setflck_no_deadlock_witness:
  "\<exists>found sf. fst (ex_call 2 F_WRLCK 5 1 ex_two) = Lk_asleep found sf \<and> acyclic (waits ex_lkst) \<and>
     (\<exists>i. lk_data ex_two found \<in> set (file_locks ex_two i)) \<and> (2, l_pid (lk_data ex_two found)) \<in> waits ex_lkst"
proof -
  have "case fst (ex_call 2 F_WRLCK 5 1 ex_two) of Lk_asleep found sf \<Rightarrow> True | _ \<Rightarrow> False" by code_simp
  then obtain found sf where "fst (ex_call 2 F_WRLCK 5 1 ex_two) = Lk_asleep found sf" by (auto split: lk_outcome.splits)
  then have c: "ex_call 2 F_WRLCK 5 1 ex_two = (Lk_asleep found sf, ex_lkst)" by (metis ex_lkst_def prod.collapse)
  from setflck_no_deadlock [OF ex_reach(2) ex_sound(4) c [unfolded ex_call_def]] c show ?thesis by auto
qed

section \<open>Unlocking the middle of a lock\<close>

text \<open>A lock in the table, with its end.\<close>

definition lk_at :: "u16 \<Rightarrow> u32 \<Rightarrow> u32 \<Rightarrow> u16 \<Rightarrow> flock" where
  "lk_at ty a b p = \<lparr>l_type = ty, l_whence = 0, l_start = a, l_len = b, l_pid = p\<rparr>"

text \<open>The loop that looks for the place of the severed piece compares with the start of the region
  taken out, not with the start of the piece, so the piece goes in front of a lock of another process that
  starts in between.\<close>

definition bug_lkst :: lkst where
  "bug_lkst = \<lparr>flox = (\<lambda>n. if n = 0 then \<lparr>set_of = lk_at F_RDLCK 0 100 1, stat = 0, f_prev = None, f_next = Some 1\<rparr>
       else if n = 1 then \<lparr>set_of = lk_at F_RDLCK 40 60 2, stat = 0, f_prev = Some 0, f_next = None\<rparr>
       else if n = 2 then \<lparr>set_of = lk_at 0 0 0 0, stat = 0, f_prev = None, f_next = Some 3\<rparr>
       else \<lparr>set_of = lk_at 0 0 0 0, stat = 0, f_prev = Some 2, f_next = None\<rparr>),
     flinos = (\<lambda>r. case r of
         Fid i \<Rightarrow> \<lparr>fl_dev = 1, fl_number = 2, fl_refcnt = 0, fl_flck = if i = 0 then Some 0 else None, i_prev = None, i_next = None\<rparr>
       | Sleeplcks \<Rightarrow> \<lparr>fl_dev = 0, fl_number = 0, fl_refcnt = 0, fl_flck = None, i_prev = None, i_next = None\<rparr>),
     frlock = Some 2, frfid = None, fids = Some 0,
     flckinfo = \<lparr>recs = 4, fils = 1, reccnt = 2, filcnt = 1, rectot = 2, filtot = 1\<rparr>, lk_wakes = []\<rparr>"

text \<open>The exclusion fails after such an unlock: processes 1 and 2 share 40 to 60 for reading, process
  1 unlocks 30 to 70, which puts its severed piece in front of the lock of process 2, and then process 3,
  asking for a write lock on 45 to 50, is granted it while process 2 still has its read lock.\<close>

lemma unlock_middle_breaks_exclusion:
  "lk_orderly (file_locks bug_lkst 0) \<and> lk_excl (file_locks bug_lkst 0) \<and>
   fst (setflck_pass 1 0 (lk_at F_UNLCK 30 70 0) False bug_lkst) = Lk_ret None \<and>
   fst (setflck_pass 3 0 (lk_at F_WRLCK 45 50 0) False (snd (setflck_pass 1 0 (lk_at F_UNLCK 30 70 0) False bug_lkst))) =
     Lk_ret None \<and>
   \<not> lk_excl (file_locks (snd (setflck_pass 3 0 (lk_at F_WRLCK 45 50 0) False
       (snd (setflck_pass 1 0 (lk_at F_UNLCK 30 70 0) False bug_lkst)))) 0)"
proof (intro conjI)
  have b: "file_locks bug_lkst 0 = [lk_at F_RDLCK 0 100 1, lk_at F_RDLCK 40 60 2]" by code_simp
  show "lk_orderly (file_locks bug_lkst 0)" "lk_excl (file_locks bug_lkst 0)"
    unfolding b by (auto simp: lk_orderly_def lk_excl_def in_line_def held_type rng_def lk_at_def)
  show "fst (setflck_pass 1 0 (lk_at F_UNLCK 30 70 0) False bug_lkst) = Lk_ret None" by code_simp
  show "fst (setflck_pass 3 0 (lk_at F_WRLCK 45 50 0) False (snd (setflck_pass 1 0 (lk_at F_UNLCK 30 70 0) False bug_lkst))) =
     Lk_ret None" by code_simp
  have e: "file_locks (snd (setflck_pass 3 0 (lk_at F_WRLCK 45 50 0) False
       (snd (setflck_pass 1 0 (lk_at F_UNLCK 30 70 0) False bug_lkst)))) 0 =
     [lk_at F_RDLCK 0 30 1, lk_at F_WRLCK 45 50 3, lk_at F_RDLCK 70 100 1, lk_at F_RDLCK 40 60 2]" by code_simp
  have n: "(3 :: u16) \<noteq> 2" by simp
  have "(46, F_WRLCK) \<in> held 3 [lk_at F_RDLCK 0 30 1, lk_at F_WRLCK 45 50 3, lk_at F_RDLCK 70 100 1, lk_at F_RDLCK 40 60 2]"
    "(46, F_RDLCK) \<in> held 2 [lk_at F_RDLCK 0 30 1, lk_at F_WRLCK 45 50 3, lk_at F_RDLCK 70 100 1, lk_at F_RDLCK 40 60 2]"
    by (simp_all add: lk_at_def rng_def)
  then have "\<not> lk_excl [lk_at F_RDLCK 0 30 1, lk_at F_WRLCK 45 50 3, lk_at F_RDLCK 70 100 1, lk_at F_RDLCK 40 60 2]"
    using lk_exclD [OF _ n, of _ 46 F_WRLCK F_RDLCK] lk_types(1) by metis
  then show "\<not> lk_excl (file_locks (snd (setflck_pass 3 0 (lk_at F_WRLCK 45 50 0) False
       (snd (setflck_pass 1 0 (lk_at F_UNLCK 30 70 0) False bug_lkst)))) 0)" unfolding e .
qed

section \<open>A refusal that comes too soon\<close>

text \<open>\<open>WAKEUP\<close> leaves the record of the sleeper as it is until the sleeper runs. Process 2 reads the bytes 20 to 30 and
  waits for process 1, which writes 0 to 10. Process 1 unlocks, so that process 2 is woken, and then asks for the
  bytes of process 2: it gets \<open>EDEADLK\<close> although it holds nothing and process 2 waits for nobody.\<close>

definition wait_lkst :: lkst where
  "wait_lkst = \<lparr>flox = (\<lambda>n. if n = 0 then \<lparr>set_of = lk_at F_WRLCK 0 10 1, stat = 1, f_prev = None, f_next = Some 1\<rparr>
       else if n = 1 then \<lparr>set_of = lk_at F_RDLCK 20 30 2, stat = 0, f_prev = Some 0, f_next = None\<rparr>
       else if n = 2 then \<lparr>set_of = lk_at F_WRLCK 5 6 2, stat = 1, f_prev = None, f_next = None\<rparr>
       else if n = 3 then \<lparr>set_of = lk_at 0 0 0 0, stat = 0, f_prev = None, f_next = Some 4\<rparr>
       else \<lparr>set_of = lk_at 0 0 0 0, stat = 0, f_prev = Some 3, f_next = None\<rparr>),
     flinos = (\<lambda>r. case r of
         Fid i \<Rightarrow> \<lparr>fl_dev = 1, fl_number = 2, fl_refcnt = 1, fl_flck = if i = 0 then Some 0 else None, i_prev = None, i_next = None\<rparr>
       | Sleeplcks \<Rightarrow> \<lparr>fl_dev = 0, fl_number = 0, fl_refcnt = 0, fl_flck = Some 2, i_prev = None, i_next = None\<rparr>),
     frlock = Some 3, frfid = None, fids = Some 0,
     flckinfo = \<lparr>recs = 5, fils = 1, reccnt = 3, filcnt = 1, rectot = 3, filtot = 1\<rparr>, lk_wakes = []\<rparr>"

lemma woken_still_waits:
  "case setflck_pass 1 0 (lk_at F_UNLCK 0 10 0) False wait_lkst of
     (r, s) \<Rightarrow> r = Lk_ret None \<and> lk_wakes s = [0] \<and> file_locks s 0 = [lk_at F_RDLCK 20 30 2] \<and>
       fst (setflck_pass 1 0 (lk_at F_WRLCK 20 30 0) True s) = Lk_ret (Some EDEADLK)"
  by code_simp

end
