(* ===== verification/Callout.thy ===== *)
theory Callout
  imports Kernel_Base
begin

text \<open>
  The callout table of \<open>os/clock.c\<close>: \<open>timeout\<close> enters a function to be called after a number of
  clock ticks, \<open>clock\<close> counts down, \<open>timein\<close> calls what is due. The functions called are those of
  the drivers; what they do to the table, further calls of \<open>timeout\<close>, is the parameter \<open>run\<close>.
\<close>

section \<open>The table\<close>

record callo =
  c_time :: u16
  c_arg :: u32
  c_func :: nat

text \<open>A function is a number, 0 for \<open>NULL\<close>. A request is a function, its argument and a time.\<close>

type_synonym request = "nat \<times> u32 \<times> u16"

text \<open>The first loop of \<open>timeout\<close>: the entry to insert before, and what is left of the time there.\<close>

function callo_scan :: "callo list \<Rightarrow> nat \<Rightarrow> u16 \<Rightarrow> nat \<times> u16" where
  "callo_scan tb p1 t =
     (if p1 < length tb \<and> c_func (tb ! p1) \<noteq> 0 \<and> c_time (tb ! p1) \<le>s t
      then callo_scan tb (p1 + 1) (t - c_time (tb ! p1)) else (p1, t))"
  by pat_completeness auto
termination by (relation "measure (\<lambda>(tb, p1, t). length tb - p1)") auto

function callo_end :: "callo list \<Rightarrow> nat \<Rightarrow> nat" where
  "callo_end tb p2 = (if p2 < length tb \<and> c_func (tb ! p2) \<noteq> 0 then callo_end tb (p2 + 1) else p2)"
  by pat_completeness auto
termination by (relation "measure (\<lambda>(tb, p2). length tb - p2)") auto

declare callo_scan.simps [simp del] callo_end.simps [simp del]

text \<open>The loop that moves the entries from \<open>p1\<close> on up by one, starting with the last, \<open>n\<close> of them.\<close>

fun callo_up :: "callo list \<Rightarrow> nat \<Rightarrow> nat \<Rightarrow> callo list" where
  "callo_up tb p1 0 = tb"
| "callo_up tb p1 (Suc n) = callo_up (tb[p1 + n + 1 := tb ! (p1 + n)]) p1 n"

text \<open>\<open>None\<close> is the panic.\<close>

definition timeout :: "nat \<Rightarrow> u32 \<Rightarrow> u16 \<Rightarrow> callo list \<Rightarrow> callo list option" where
  "timeout fn arg tim tb =
     (if c_func (tb ! (length tb - 2)) \<noteq> 0 then None
      else (case callo_scan tb 0 tim of
              (p1, t) \<Rightarrow>
                let tb = tb[p1 := (tb ! p1)\<lparr>c_time := c_time (tb ! p1) - t\<rparr>];
                    p2 = callo_end tb p1;
                    tb = callo_up tb p1 (p2 + 1 - p1)
                in Some (tb[p1 := \<lparr>c_time = t, c_arg = arg, c_func = fn\<rparr>])))"

fun timeouts :: "request list \<Rightarrow> callo list \<Rightarrow> callo list option" where
  "timeouts [] tb = Some tb"
| "timeouts ((fn, arg, tim) # rs) tb = Option.bind (timeout fn arg tim tb) (timeouts rs)"

text \<open>The loop of \<open>timein\<close> that calls what is due; the table cannot hold more entries than its length.\<close>

fun timein_calls ::
  "(nat \<Rightarrow> u32 \<Rightarrow> request list) \<Rightarrow> nat \<Rightarrow> nat \<Rightarrow> callo list \<Rightarrow> ((nat \<times> u32) list \<times> nat \<times> callo list) option" where
  "timein_calls run 0 p1 tb = Some ([], p1, tb)"
| "timein_calls run (Suc n) p1 tb =
     (let e = tb ! p1
      in if c_func e \<noteq> 0 \<and> c_time e \<le>s 0 then
           Option.bind (timeouts (run (c_func e) (c_arg e)) tb) (\<lambda>tb.
           map_option (\<lambda>(cs, p, tb). ((c_func e, c_arg e) # cs, p, tb)) (timein_calls run n (p1 + 1) tb))
         else Some ([], p1, tb))"

text \<open>The loop that closes the gap. The end mark takes only the function.\<close>

function timein_close :: "callo list \<Rightarrow> nat \<Rightarrow> nat \<Rightarrow> callo list" where
  "timein_close tb p1 p2 =
     (if p1 < length tb then
        (if c_func (tb ! p1) = 0 then tb[p2 := (tb ! p2)\<lparr>c_func := 0\<rparr>]
         else timein_close (tb[p2 := tb ! p1]) (p1 + 1) (p2 + 1))
      else tb)"
  by pat_completeness auto
termination by (relation "measure (\<lambda>(tb, p1, p2). length tb - p1)") auto

declare timein_close.simps [simp del]

definition timein :: "(nat \<Rightarrow> u32 \<Rightarrow> request list) \<Rightarrow> callo list \<Rightarrow> ((nat \<times> u32) list \<times> callo list) option" where
  "timein run tb =
     (if c_func (tb ! 0) = 0 then Some ([], tb)
      else if c_time (tb ! 0) \<le>s 0 then
        map_option (\<lambda>(cs, p1, tb). (cs, timein_close tb p1 0)) (timein_calls run (length tb) 0 tb)
      else Some ([], tb))"

text \<open>The part of \<open>clock\<close> that counts down.\<close>

function callo_first :: "callo list \<Rightarrow> nat \<Rightarrow> nat" where
  "callo_first tb cp = (if cp < length tb \<and> c_time (tb ! cp) \<le>s 0 \<and> c_func (tb ! cp) \<noteq> 0 then callo_first tb (cp + 1) else cp)"
  by pat_completeness auto
termination by (relation "measure (\<lambda>(tb, cp). length tb - cp)") auto

declare callo_first.simps [simp del]

definition clock_count :: "callo list \<Rightarrow> callo list" where
  "clock_count tb =
     (if c_func (tb ! 0) \<noteq> 0 then
        (let cp = callo_first tb 0 in tb[cp := (tb ! cp)\<lparr>c_time := c_time (tb ! cp) - 1\<rparr>])
      else tb)"

text \<open>The callouts of one tick, when the clock has not interrupted itself (\<open>inclock = 1\<close>).\<close>

definition clock_tick :: "(nat \<Rightarrow> u32 \<Rightarrow> request list) \<Rightarrow> callo list \<Rightarrow> ((nat \<times> u32) list \<times> callo list) option" where
  "clock_tick run tb =
     (let tb = clock_count tb in if c_time (tb ! 0) \<le>s 0 then timein run tb else Some ([], tb))"

section \<open>What the table says\<close>

definition active :: "callo list \<Rightarrow> callo list" where
  "active tb = takeWhile (\<lambda>e. c_func e \<noteq> 0) tb"

text \<open>Each entry holds the time after the one before it.\<close>

fun due :: "int \<Rightarrow> callo list \<Rightarrow> (int \<times> nat \<times> u32) list" where
  "due b [] = []"
| "due b (e # es) = (b + sint (c_time e), c_func e, c_arg e) # due (b + sint (c_time e)) es"

definition pending :: "callo list \<Rightarrow> (int \<times> nat \<times> u32) list" where
  "pending tb = due 0 (active tb)"

text \<open>The table ends with a mark and its times are not negative.\<close>

definition callo_ok :: "callo list \<Rightarrow> bool" where
  "callo_ok tb \<longleftrightarrow> length (active tb) < length tb \<and> (\<forall>e \<in> set (active tb). 0 \<le> sint (c_time e))"

definition insert_due :: "int \<times> nat \<times> u32 \<Rightarrow> (int \<times> nat \<times> u32) list \<Rightarrow> (int \<times> nat \<times> u32) list" where
  "insert_due x ds = takeWhile (\<lambda>d. fst d \<le> fst x) ds @ x # dropWhile (\<lambda>d. fst d \<le> fst x) ds"

lemma callo_split:
  assumes "length (active tb) < length tb"
  obtains z ws where "tb = active tb @ z # ws" "c_func z = 0" "\<forall>e \<in> set (active tb). c_func e \<noteq> 0"
proof -
  have e: "tb = active tb @ dropWhile (\<lambda>e. c_func e \<noteq> 0) tb" by (simp add: active_def)
  with assms have "dropWhile (\<lambda>e. c_func e \<noteq> 0) tb \<noteq> []" by (metis append.right_neutral less_irrefl)
  then obtain z ws where d: "dropWhile (\<lambda>e. c_func e \<noteq> 0) tb = z # ws" by (meson neq_Nil_conv)
  then have "c_func z = 0" by (metis (mono_tags, lifting) hd_dropWhile list.distinct(1) list.sel(1))
  moreover have "\<forall>e \<in> set (active tb). c_func e \<noteq> 0" unfolding active_def by (auto dest: set_takeWhileD)
  ultimately show thesis using that e d by metis
qed

lemma active_append: "\<forall>e \<in> set es. c_func e \<noteq> 0 \<Longrightarrow> c_func z = 0 \<Longrightarrow> active (es @ z # ws) = es"
  by (simp add: active_def)

section \<open>Entering a request\<close>

lemma sint_diff16: "0 \<le> sint (a :: u16) \<Longrightarrow> sint a \<le> sint b \<Longrightarrow> sint (b - a) = sint b - sint a"
proof -
  assume h: "0 \<le> sint a" "sint a \<le> sint b"
  then have u: "unat a \<le> unat b" "unat b < 32768" unfolding sint16 using u16_lt [of a] u16_lt [of b] by (auto simp del: of_nat_unat split: if_splits)
  then have "unat (b - a) = unat b - unat a" by (simp add: unat_minus_small word_le_nat_alt)
  then show "sint (b - a) = sint b - sint a" using u unfolding sint16 by (simp add: of_nat_diff del: of_nat_unat)
qed

text \<open>Inserting on the list of the entries in use.\<close>

fun ins_callo :: "u16 \<Rightarrow> u32 \<Rightarrow> nat \<Rightarrow> callo list \<Rightarrow> callo list" where
  "ins_callo t arg fn [] = [\<lparr>c_time = t, c_arg = arg, c_func = fn\<rparr>]"
| "ins_callo t arg fn (e # es) =
     (if c_time e \<le>s t then e # ins_callo (t - c_time e) arg fn es
      else \<lparr>c_time = t, c_arg = arg, c_func = fn\<rparr> # e\<lparr>c_time := c_time e - t\<rparr> # es)"

lemma scan_list:
  assumes "\<forall>e \<in> set es. c_func e \<noteq> 0" "c_func z = 0"
  shows "\<exists>us vs t'. es = us @ vs \<and> callo_scan (pre @ es @ z # ws) (length pre) t = (length pre + length us, t') \<and>
     ins_callo t arg fn es = us @ (case vs of [] \<Rightarrow> [\<lparr>c_time = t', c_arg = arg, c_func = fn\<rparr>]
       | v # vs \<Rightarrow> \<lparr>c_time = t', c_arg = arg, c_func = fn\<rparr> # v\<lparr>c_time := c_time v - t'\<rparr> # vs)"
  using assms
proof (induction es arbitrary: pre t)
  case Nil
  then show ?case by (simp add: callo_scan.simps)
next
  case (Cons e es)
  show ?case
  proof (cases "c_time e \<le>s t")
    case True
    from Cons.IH [of "pre @ [e]" "t - c_time e"] Cons.prems
    obtain us vs t' where "es = us @ vs" "callo_scan (pre @ (e # es) @ z # ws) (Suc (length pre)) (t - c_time e) = (Suc (length pre + length us), t')"
      "ins_callo (t - c_time e) arg fn es = us @ (case vs of [] \<Rightarrow> [\<lparr>c_time = t', c_arg = arg, c_func = fn\<rparr>]
       | v # vs \<Rightarrow> \<lparr>c_time = t', c_arg = arg, c_func = fn\<rparr> # v\<lparr>c_time := c_time v - t'\<rparr> # vs)" by auto
    then show ?thesis using True Cons.prems
      by (intro exI [of _ "e # us"] exI [of _ vs] exI [of _ t']) (simp add: callo_scan.simps [of _ "length pre"])
  next
    case False
    then show ?thesis by (intro exI [of _ "[]"] exI [of _ "e # es"] exI [of _ t]) (simp add: callo_scan.simps)
  qed
qed

lemma end_list:
  "\<forall>e \<in> set es. c_func e \<noteq> 0 \<Longrightarrow> c_func z = 0 \<Longrightarrow> callo_end (pre @ es @ z # ws) (length pre) = length pre + length es"
proof (induction es arbitrary: pre)
  case Nil then show ?case by (simp add: callo_end.simps)
next
  case (Cons e es)
  from Cons.IH [of "pre @ [e]"] Cons.prems show ?case by (simp add: callo_end.simps [of _ "length pre"])
qed

lemma up_list:
  "(callo_up (pre @ mid @ w # ws) (length pre) (length mid))[length pre := x] = pre @ x # mid @ ws"
proof (induction mid arbitrary: w ws rule: rev_induct)
  case (snoc m mid)
  have "callo_up (pre @ (mid @ [m]) @ w # ws) (length pre) (length (mid @ [m])) = callo_up (pre @ mid @ m # m # ws) (length pre) (length mid)"
    by (simp add: list_update_append nth_append)
  then show ?case using snoc [of m "m # ws"] by simp
qed simp

text \<open>The test for overflow looks at the entry before the last.\<close>

lemma active_func: "\<forall>e \<in> set (active tb). c_func e \<noteq> 0"
  unfolding active_def by (auto dest: set_takeWhileD)

lemma timeout_room:
  assumes "length (active tb) < length tb" "timeout fn arg tim tb = Some tb'" "2 \<le> length tb"
  shows "length (active tb) + 2 \<le> length tb"
proof (rule ccontr)
  assume "\<not> length (active tb) + 2 \<le> length tb"
  then have l: "length tb - 2 < length (active tb)" using assms(1,3) by simp
  then have "tb ! (length tb - 2) = active tb ! (length tb - 2)" by (simp add: active_def takeWhile_nth)
  moreover have "c_func (active tb ! (length tb - 2)) \<noteq> 0" using active_func nth_mem [OF l] by blast
  ultimately show False using assms(2) by (simp add: timeout_def)
qed

lemma ins_callo_funcs: "\<forall>e \<in> set es. c_func e \<noteq> 0 \<Longrightarrow> fn \<noteq> 0 \<Longrightarrow> \<forall>e \<in> set (ins_callo t arg fn es). c_func e \<noteq> 0"
  by (induction es arbitrary: t) auto

lemma timeout_ins:
  assumes ok: "length (active tb) < length tb" "2 \<le> length tb" and t: "timeout fn arg tim tb = Some tb'" and fn: "fn \<noteq> 0"
  shows "active tb' = ins_callo tim arg fn (active tb)" "length tb' = length tb" "length (active tb') < length tb'"
proof -
  obtain es z ws where ea: "active tb = es" and tb: "tb = es @ z # ws" and z: "c_func z = 0" and es: "\<forall>e \<in> set es. c_func e \<noteq> 0"
    by (rule callo_split [OF ok(1)]) blast
  have "ws \<noteq> []" using timeout_room [OF ok(1) t ok(2)] unfolding ea by (auto simp: tb)
  then obtain w ws' where ws: "ws = w # ws'" by (cases ws) auto
  have "\<exists>us vs t'. es = us @ vs \<and> callo_scan tb 0 tim = (length us, t') \<and>
     ins_callo tim arg fn es = us @ (case vs of [] \<Rightarrow> [\<lparr>c_time = t', c_arg = arg, c_func = fn\<rparr>]
       | v # vs \<Rightarrow> \<lparr>c_time = t', c_arg = arg, c_func = fn\<rparr> # v\<lparr>c_time := c_time v - t'\<rparr> # vs)"
    using scan_list [OF es z, of "[]" ws tim arg fn] by (simp add: tb)
  then obtain us vs t' where sc: "es = us @ vs" "callo_scan tb 0 tim = (length us, t')"
    and ins: "ins_callo tim arg fn es = us @ (case vs of [] \<Rightarrow> [\<lparr>c_time = t', c_arg = arg, c_func = fn\<rparr>]
       | v # vs \<Rightarrow> \<lparr>c_time = t', c_arg = arg, c_func = fn\<rparr> # v\<lparr>c_time := c_time v - t'\<rparr> # vs)" by blast
  define xs where "xs = (case vs of [] \<Rightarrow> [] | v # vs \<Rightarrow> v\<lparr>c_time := c_time v - t'\<rparr> # vs)"
  define z' where "z' = (if vs = [] then z\<lparr>c_time := c_time z - t'\<rparr> else z)"
  have z': "c_func z' = 0" using z by (simp add: z'_def)
  have tb2: "tb = us @ vs @ z # w # ws'" using tb sc(1) ws by simp
  have u: "tb[length us := (tb ! length us)\<lparr>c_time := c_time (tb ! length us) - t'\<rparr>] = us @ xs @ z' # w # ws'"
    by (cases vs) (simp_all add: tb2 xs_def z'_def nth_append list_update_append)
  have fx: "\<forall>e \<in> set xs. c_func e \<noteq> 0" using es sc(1) by (cases vs) (auto simp: xs_def)
  have en: "callo_end (us @ xs @ z' # w # ws') (length us) = length us + length xs" by (rule end_list [OF fx z'])
  have "timeout fn arg tim tb = Some ((callo_up (us @ (xs @ [z']) @ w # ws') (length us) (length (xs @ [z'])))
     [length us := \<lparr>c_time = t', c_arg = arg, c_func = fn\<rparr>])"
    using t unfolding timeout_def sc(2) prod.case Let_def u en by (simp split: if_splits)
  then have "tb' = us @ \<lparr>c_time = t', c_arg = arg, c_func = fn\<rparr> # xs @ z' # ws'" using t unfolding up_list by simp
  also have "\<dots> = ins_callo tim arg fn es @ z' # ws'" unfolding ins by (cases vs) (simp_all add: xs_def)
  finally have tb': "tb' = ins_callo tim arg fn es @ z' # ws'" .
  have a: "active tb' = ins_callo tim arg fn es" unfolding tb' by (rule active_append [OF ins_callo_funcs [OF es fn] z'])
  then show "active tb' = ins_callo tim arg fn (active tb)" by (simp only: ea)
  have "length (ins_callo tim arg fn es) = Suc (length es)" unfolding ins using sc(1) by (cases vs) simp_all
  then show "length tb' = length tb" by (simp add: tb' tb ws)
  show "length (active tb') < length tb'" unfolding a by (simp add: tb')
qed

lemma due_shift: "due (b + c) es = map (\<lambda>(t, x). (t + c, x)) (due b es)"
proof (induction es arbitrary: b)
  case (Cons e es)
  have "b + c + sint (c_time e) = b + sint (c_time e) + c" by simp
  then show ?case using Cons [of "b + sint (c_time e)"] by (simp only: due.simps list.map prod.case)
qed simp

lemma due_ge: "\<forall>e \<in> set es. 0 \<le> sint (c_time e) \<Longrightarrow> d \<in> set (due b es) \<Longrightarrow> b \<le> fst d"
  by (induction es arbitrary: b) fastforce+

lemma ins_callo_due:
  assumes "\<forall>e \<in> set es. 0 \<le> sint (c_time e)" "0 \<le> sint t"
  shows "due b (ins_callo t arg fn es) = insert_due (b + sint t, fn, arg) (due b es)"
    "\<forall>e \<in> set (ins_callo t arg fn es). 0 \<le> sint (c_time e)"
  using assms
proof (induction es arbitrary: b t)
  case Nil
  {
    case 1 then show ?case by (simp add: insert_due_def)
  next
    case 2 then show ?case by simp
  }
next
  case (Cons e es)
  {
    case 1
    show ?case
    proof (cases "c_time e \<le>s t")
      case True
      then have s: "sint (t - c_time e) = sint t - sint (c_time e)" "0 \<le> sint (t - c_time e)"
        using 1 by (simp_all add: word_sle_eq sint_diff16)
      then show ?thesis using Cons.IH(1) [of "t - c_time e" "b + sint (c_time e)"] 1 True
        by (simp add: insert_due_def word_sle_eq)
    next
      case False
      then have s: "sint (c_time e - t) = sint (c_time e) - sint t" using 1 by (simp add: word_sle_eq sint_diff16)
      then show ?thesis using False 1 by (simp add: insert_due_def word_sle_eq)
    qed
  next
    case 2
    show ?case
    proof (cases "c_time e \<le>s t")
      case True
      then have "0 \<le> sint (t - c_time e)" using 2 by (simp add: word_sle_eq sint_diff16)
      then show ?thesis using Cons.IH(2) [of "t - c_time e"] 2 True by simp
    next
      case False
      then show ?thesis using 2 by (auto simp: word_sle_eq sint_diff16)
    qed
  }
qed

lemma timeout_steps:
  assumes "callo_ok tb" "2 \<le> length tb" "fn \<noteq> 0" "0 \<le> sint tim" "timeout fn arg tim tb = Some tb'"
  shows "pending tb' = insert_due (sint tim, fn, arg) (pending tb) \<and> callo_ok tb' \<and> length tb' = length tb"
proof -
  have ok: "length (active tb) < length tb" "\<forall>e \<in> set (active tb). 0 \<le> sint (c_time e)" using assms(1) by (simp_all add: callo_ok_def)
  note T = timeout_ins [OF ok(1) assms(2,5,3)] and I = ins_callo_due [OF ok(2) assms(4)]
  show ?thesis using T I(2) I(1) [of 0] by (simp add: pending_def callo_ok_def)
qed

section \<open>Counting down\<close>

lemma first_list:
  "\<forall>e \<in> set es. c_func e \<noteq> 0 \<Longrightarrow> c_func z = 0 \<Longrightarrow>
   callo_first (pre @ es @ z # ws) (length pre) = length pre + length (takeWhile (\<lambda>e. sint (c_time e) \<le> 0) es)"
proof (induction es arbitrary: pre)
  case Nil then show ?case by (simp add: callo_first.simps)
next
  case (Cons e es)
  from Cons.IH [of "pre @ [e]"] Cons.prems show ?case by (simp add: callo_first.simps [of _ "length pre"] word_sle_eq)
qed

definition tick_due :: "(int \<times> nat \<times> u32) list \<Rightarrow> (int \<times> nat \<times> u32) list" where
  "tick_due ds = map (\<lambda>(t, x). (if 0 < t then t - 1 else t, x)) ds"

text \<open>Entries that are due hold the time 0.\<close>

lemma due_zero: "\<forall>e \<in> set zs. sint (c_time e) = 0 \<Longrightarrow> due b (zs @ es) = map (\<lambda>e. (b, c_func e, c_arg e)) zs @ due b es"
  by (induction zs) auto

lemma tick_due_first:
  assumes "\<forall>e \<in> set es. 0 \<le> sint (c_time e)" "0 < sint (c_time e)" "\<forall>e \<in> set zs. sint (c_time e) = 0"
  shows "due 0 (zs @ e\<lparr>c_time := c_time e - 1\<rparr> # es) = tick_due (due 0 (zs @ e # es))"
proof -
  have m: "sint (c_time e - 1) = sint (c_time e) - 1" using sint_diff16 [of 1 "c_time e"] assms(2) by simp
  have "due (sint (c_time e) - 1) es = map (\<lambda>(t, x). (t - 1, x)) (due (sint (c_time e)) es)"
    using due_shift [of "sint (c_time e)" "- 1" es] by simp
  also have "\<dots> = tick_due (due (sint (c_time e)) es)"
    unfolding tick_due_def using due_ge [OF assms(1)] assms(2) by (intro map_cong) fastforce+
  finally have "due (sint (c_time e) - 1) es = tick_due (due (sint (c_time e)) es)" .
  then show ?thesis using assms(2) by (simp add: due_zero [OF assms(3)] m tick_due_def)
qed

lemma clock_count_ok:
  assumes ok: "callo_ok tb"
  shows "pending (clock_count tb) = tick_due (pending tb) \<and> callo_ok (clock_count tb) \<and> length (clock_count tb) = length tb"
proof -
  have l: "length (active tb) < length tb" using ok by (simp add: callo_ok_def)
  obtain es z ws where ea: "active tb = es" and tb: "tb = es @ z # ws" and z: "c_func z = 0" and es: "\<forall>e \<in> set es. c_func e \<noteq> 0"
    by (rule callo_split [OF l]) blast
  have nn: "\<forall>e \<in> set es. 0 \<le> sint (c_time e)" using ok ea by (simp add: callo_ok_def)
  define zs where "zs = takeWhile (\<lambda>e. sint (c_time e) \<le> 0) es"
  have zs: "\<forall>e \<in> set zs. sint (c_time e) = 0" using nn unfolding zs_def by (fastforce dest: set_takeWhileD)
  have cp: "callo_first tb 0 = length zs" using first_list [OF es z, of "[]" ws] by (simp add: tb zs_def)
  show ?thesis
  proof (cases "es = []")
    case True
    then show ?thesis using ok z by (simp add: clock_count_def tb pending_def tick_due_def active_def)
  next
    case False
    then have "c_func (tb ! 0) \<noteq> 0" using es by (cases es) (auto simp: tb)
    then have c: "clock_count tb = tb[length zs := (tb ! length zs)\<lparr>c_time := c_time (tb ! length zs) - 1\<rparr>]"
      by (simp add: clock_count_def cp Let_def)
    then have lc: "length (clock_count tb) = length tb" by simp
    show ?thesis
    proof (cases "dropWhile (\<lambda>e. sint (c_time e) \<le> 0) es")
      case Nil
      then have e: "es = zs" unfolding zs_def by (metis append_Nil2 takeWhile_dropWhile_id)
      then have el: "length zs = length es" by (rule arg_cong [OF sym])
      have ct: "clock_count tb = es @ z\<lparr>c_time := c_time z - 1\<rparr> # ws" unfolding c el by (simp add: tb)
      have "active (clock_count tb) = es" unfolding ct by (rule active_append [OF es]) (simp add: z)
      moreover have "tick_due (due 0 es) = due 0 es" using due_zero [OF zs, of 0 "[]"] by (simp add: e tick_due_def)
      ultimately show ?thesis using nn ea lc l by (simp add: pending_def callo_ok_def)
    next
      case (Cons e rs)
      then have p: "es = zs @ e # rs" unfolding zs_def by (metis takeWhile_dropWhile_id)
      have "0 < sint (c_time e)"
        using hd_dropWhile [of "\<lambda>e. sint (c_time e) \<le> 0" es] unfolding Cons by simp
      then have e: "0 < sint (c_time e)" "0 \<le> sint (c_time e - 1)" using sint_diff16 [of 1 "c_time e"] by simp_all
      have tz: "tb = zs @ e # rs @ z # ws" by (simp add: tb p)
      let ?es = "zs @ e\<lparr>c_time := c_time e - 1\<rparr> # rs"
      have ct: "clock_count tb = ?es @ z # ws" unfolding c by (simp add: tz)
      have "active (clock_count tb) = ?es" unfolding ct by (rule active_append) (use es z p in auto)
      moreover have "due 0 ?es = tick_due (due 0 es)" unfolding p by (rule tick_due_first) (use nn e zs p in auto)
      moreover have "length ?es = length es" by (simp add: p)
      ultimately show ?thesis using nn ea e(2) lc l by (auto simp: pending_def callo_ok_def p)
    qed
  qed
qed

section \<open>Calling what is due\<close>

text \<open>What the calls ask for: functions that are not null, after no negative time.\<close>

definition run_ok :: "(nat \<Rightarrow> u32 \<Rightarrow> request list) \<Rightarrow> bool" where
  "run_ok run \<longleftrightarrow> (\<forall>f a. \<forall>(fn, arg, tim) \<in> set (run f a). fn \<noteq> 0 \<and> 0 \<le> sint tim)"

definition ask :: "(int \<times> nat \<times> u32) list \<Rightarrow> request list \<Rightarrow> (int \<times> nat \<times> u32) list" where
  "ask = foldl (\<lambda>ds (fn, arg, tim). insert_due (sint tim, fn, arg) ds)"

text \<open>The calls of a tick on the list of pending calls.\<close>

fun due_run :: "(nat \<Rightarrow> u32 \<Rightarrow> request list) \<Rightarrow> nat \<Rightarrow> (int \<times> nat \<times> u32) list \<Rightarrow> (nat \<times> u32) list \<times> (int \<times> nat \<times> u32) list" where
  "due_run run 0 ds = ([], ds)"
| "due_run run (Suc n) ds =
     (case ds of
        [] \<Rightarrow> ([], ds)
      | (t, f, a) # es \<Rightarrow> if t \<le> 0 then (case due_run run n (ask es (run f a)) of (cs, ds) \<Rightarrow> ((f, a) # cs, ds)) else ([], ds))"

lemma ins_callo_zero:
  "\<forall>e \<in> set zs. sint (c_time e) = 0 \<Longrightarrow> 0 \<le> sint t \<Longrightarrow> ins_callo t arg fn (zs @ es) = zs @ ins_callo t arg fn es"
proof (induction zs)
  case (Cons e zs)
  have "sint (c_time e) = sint (0 :: u16)" using Cons.prems(1) by simp
  then have "c_time e = 0" by (rule signed_word_eqI)
  then show ?case using Cons by (simp add: word_sle_eq)
qed simp

lemma timeouts_active:
  assumes "timeouts rs tb = Some tb'" "\<forall>(fn, arg, tim) \<in> set rs. fn \<noteq> 0 \<and> 0 \<le> sint tim"
    and "active tb = zs @ es" "\<forall>e \<in> set zs. sint (c_time e) = 0" "\<forall>e \<in> set es. 0 \<le> sint (c_time e)"
    and "length (active tb) < length tb" "2 \<le> length tb"
  shows "\<exists>es'. active tb' = zs @ es' \<and> due 0 es' = ask (due 0 es) rs \<and> (\<forall>e \<in> set es'. 0 \<le> sint (c_time e)) \<and>
     length tb' = length tb \<and> length (active tb') < length tb'"
  using assms
proof (induction rs arbitrary: tb es)
  case Nil then show ?case by (simp add: ask_def)
next
  case (Cons r rs)
  obtain fn arg tim where r: "r = (fn, arg, tim)" by (cases r)
  obtain tb1 where t1: "timeout fn arg tim tb = Some tb1" "timeouts rs tb1 = Some tb'"
    using Cons.prems(1) by (auto simp: r Option.bind_eq_Some_conv)
  have q: "fn \<noteq> 0" "0 \<le> sint tim" using Cons.prems(2) by (auto simp: r)
  note T = timeout_ins [OF Cons.prems(6,7) t1(1) q(1)] and I = ins_callo_due [OF Cons.prems(5) q(2)]
  have a1: "active tb1 = zs @ ins_callo tim arg fn es"
    using T(1) ins_callo_zero [OF Cons.prems(4) q(2)] Cons.prems(3) by simp
  have "\<exists>es'. active tb' = zs @ es' \<and> due 0 es' = ask (due 0 (ins_callo tim arg fn es)) rs \<and>
     (\<forall>e \<in> set es'. 0 \<le> sint (c_time e)) \<and> length tb' = length tb1 \<and> length (active tb') < length tb'"
    by (rule Cons.IH [OF t1(2) _ a1 Cons.prems(4) I(2) T(3)]) (use Cons.prems(2,7) T(2) in auto)
  then show ?case unfolding T(2) I(1) by (simp add: ask_def r)
qed

lemma active_nth:
  assumes "active tb = zs @ es" "length (active tb) < length tb"
  shows "c_func (tb ! length zs) \<noteq> 0 \<longleftrightarrow> es \<noteq> []" "es = e # es' \<Longrightarrow> tb ! length zs = e"
proof -
  obtain z ws where tb: "tb = (zs @ es) @ z # ws" "c_func z = 0" "\<forall>e \<in> set (zs @ es). c_func e \<noteq> 0"
    using callo_split [OF assms(2)] assms(1) by metis
  show "es = e # es' \<Longrightarrow> tb ! length zs = e" by (simp add: tb(1))
  show "c_func (tb ! length zs) \<noteq> 0 \<longleftrightarrow> es \<noteq> []" using tb(2,3) by (cases es) (simp_all add: tb(1))
qed

lemma calls_active:
  assumes "timein_calls run n p1 tb = Some (cs, p, tb')" "run_ok run" "2 \<le> length tb" "p1 = length zs" "n + p1 = length tb"
    and "active tb = zs @ es" "\<forall>e \<in> set zs. sint (c_time e) = 0" "\<forall>e \<in> set es. 0 \<le> sint (c_time e)" "length (active tb) < length tb"
  shows "\<exists>zs' es'. active tb' = zs' @ es' \<and> p = length zs' \<and> p1 \<le> p \<and> length tb' = length tb \<and> length (active tb') < length tb' \<and>
     (\<forall>e \<in> set es'. 0 \<le> sint (c_time e)) \<and> (es' = [] \<or> 0 < sint (c_time (hd es'))) \<and>
     due_run run n (due 0 es) = (cs, due 0 es')"
  using assms
proof (induction n arbitrary: p1 tb zs es cs)
  case 0
  then show ?case by simp
next
  case (Suc n)
  note N = active_nth [OF Suc.prems(6,9)]
  show ?case
  proof (cases "es \<noteq> [] \<and> sint (c_time (hd es)) \<le> 0")
    case False
    then have stop: "\<not> (c_func (tb ! p1) \<noteq> 0 \<and> c_time (tb ! p1) \<le>s 0)"
      using N by (cases es) (auto simp: Suc.prems(4) word_sle_eq)
    have r: "cs = []" "p = p1" "tb' = tb" using Suc.prems(1) stop by (auto simp: Let_def)
    have "due_run run (Suc n) (due 0 es) = ([], due 0 es)" using False by (cases es) auto
    then show ?thesis using False Suc.prems r by (intro exI [of _ zs] exI [of _ es]) auto
  next
    case True
    then obtain e es1 where es: "es = e # es1" by (cases es) auto
    have e0: "sint (c_time e) = 0" using True Suc.prems(8) es by simp
    have e: "tb ! p1 = e" "c_func e \<noteq> 0" using N(2) [OF es] N(1) es by (simp_all add: Suc.prems(4))
    obtain tb1 where t1: "timeouts (run (c_func e) (c_arg e)) tb = Some tb1"
      and c: "map_option (\<lambda>(cs, p, tb). ((c_func e, c_arg e) # cs, p, tb)) (timein_calls run n (p1 + 1) tb1) = Some (cs, p, tb')"
      using Suc.prems(1) e e0 by (auto simp: Let_def word_sle_eq Option.bind_eq_Some_conv)
    then obtain cs1 where cs: "timein_calls run n (p1 + 1) tb1 = Some (cs1, p, tb')" "cs = (c_func e, c_arg e) # cs1" by auto
    have ro: "\<forall>(fn, arg, tim) \<in> set (run (c_func e) (c_arg e)). fn \<noteq> 0 \<and> 0 \<le> sint tim" using Suc.prems(2) unfolding run_ok_def by blast
    have a: "active tb = (zs @ [e]) @ es1" using Suc.prems(6) es by simp
    have z: "\<forall>e \<in> set (zs @ [e]). sint (c_time e) = 0" using Suc.prems(7) e0 by simp
    obtain es2 where t: "active tb1 = (zs @ [e]) @ es2" "due 0 es2 = ask (due 0 es1) (run (c_func e) (c_arg e))"
      "\<forall>e \<in> set es2. 0 \<le> sint (c_time e)" "length tb1 = length tb" "length (active tb1) < length tb1"
      using timeouts_active [OF t1 ro a z _ Suc.prems(9,3)] Suc.prems(8) es by auto
    have "\<exists>zs' es'. active tb' = zs' @ es' \<and> p = length zs' \<and> p1 + 1 \<le> p \<and> length tb' = length tb1 \<and> length (active tb') < length tb' \<and>
       (\<forall>e \<in> set es'. 0 \<le> sint (c_time e)) \<and> (es' = [] \<or> 0 < sint (c_time (hd es'))) \<and> due_run run n (due 0 es2) = (cs1, due 0 es')"
      by (rule Suc.IH [OF cs(1) Suc.prems(2) _ _ _ t(1) z t(3,5)]) (use Suc.prems(3-5) t(4) in auto)
    then obtain zs' es' where r: "active tb' = zs' @ es'" "p = length zs'" "p1 + 1 \<le> p" "length tb' = length tb1" "length (active tb') < length tb'"
      "\<forall>e \<in> set es'. 0 \<le> sint (c_time e)" "es' = [] \<or> 0 < sint (c_time (hd es'))" "due_run run n (due 0 es2) = (cs1, due 0 es')" by blast
    have "due_run run (Suc n) (due 0 es) = (cs, due 0 es')" using r(8) t(2) e0 by (simp add: es cs(2))
    then show ?thesis using r(1-7) t(4) by (intro exI [of _ zs'] exI [of _ es']) auto
  qed
qed

lemma close_list:
  assumes "\<forall>e \<in> set es. c_func e \<noteq> 0" "c_func z = 0" "mid \<noteq> []"
  shows "\<exists>y ys. timein_close (pre @ mid @ es @ z # ws) (length pre + length mid) (length pre) = pre @ es @ y # ys \<and> c_func y = 0 \<and>
     length (y # ys) = length (mid @ z # ws)"
  using assms
proof (induction es arbitrary: pre mid)
  case Nil
  then obtain m mid' where "mid = m # mid'" by (cases mid) auto
  then show ?case using Nil by (simp add: timein_close.simps nth_append)
next
  case (Cons e es)
  then obtain m mid' where mid: "mid = m # mid'" by (cases mid) auto
  from Cons.IH [of "mid' @ [e]" "pre @ [e]"] Cons.prems
  obtain y ys where "timein_close ((pre @ [e]) @ (mid' @ [e]) @ es @ z # ws) (length (pre @ [e]) + length (mid' @ [e])) (length (pre @ [e])) =
      (pre @ [e]) @ es @ y # ys" "c_func y = 0" "length (y # ys) = length ((mid' @ [e]) @ z # ws)" by auto
  moreover have "timein_close (pre @ mid @ (e # es) @ z # ws) (length pre + length mid) (length pre) =
    timein_close ((pre @ [e]) @ (mid' @ [e]) @ es @ z # ws) (length (pre @ [e]) + length (mid' @ [e])) (length (pre @ [e]))"
    using Cons.prems(1) by (simp add: timein_close.simps [of _ "Suc (length pre + length mid')"] mid nth_append nth_Cons')
  ultimately show ?case by (intro exI [of _ y] exI [of _ ys]) (simp add: mid)
qed

lemma calls_progress:
  assumes "timein_calls run n p1 tb = Some (cs, p, tb')" shows "p1 + (if 0 < n \<and> c_func (tb ! p1) \<noteq> 0 \<and> c_time (tb ! p1) \<le>s 0 then 1 else 0) \<le> p"
  using assms
proof (induction n arbitrary: p1 tb cs)
  case (Suc n)
  show ?case
  proof (cases "c_func (tb ! p1) \<noteq> 0 \<and> c_time (tb ! p1) \<le>s 0")
    case True
    then obtain tb1 cs1 where "timein_calls run n (p1 + 1) tb1 = Some (cs1, p, tb')"
      using Suc.prems by (auto simp: Let_def Option.bind_eq_Some_conv)
    from Suc.IH [OF this] show ?thesis by (auto split: if_splits)
  qed (use Suc.prems in \<open>auto simp: Let_def\<close>)
qed simp

lemma timein_ok:
  assumes "callo_ok tb" "run_ok run" "2 \<le> length tb" "timein run tb = Some (cs, tb')"
  shows "due_run run (length tb) (pending tb) = (cs, pending tb') \<and> callo_ok tb' \<and> length tb' = length tb \<and>
     (\<forall>d \<in> set (pending tb'). 0 < fst d)"
proof -
  have ok: "length (active tb) < length tb" "\<forall>e \<in> set (active tb). 0 \<le> sint (c_time e)" using assms(1) by (simp_all add: callo_ok_def)
  note N = active_nth [of tb "[]" "active tb", simplified, OF ok(1)]
  have late: "\<forall>d \<in> set (due 0 es). 0 < fst d" if "\<forall>e \<in> set es. 0 \<le> sint (c_time e)" "es = [] \<or> 0 < sint (c_time (hd es))" for es
  proof (cases es)
    case (Cons e rs)
    then have "\<forall>d \<in> set (due (sint (c_time e)) rs). sint (c_time e) \<le> fst d" using due_ge that(1) by auto
    then show ?thesis using Cons that(2) by auto
  qed simp
  show ?thesis
  proof (cases "active tb \<noteq> [] \<and> sint (c_time (hd (active tb))) \<le> 0")
    case False
    then have r: "cs = []" "tb' = tb"
      using assms(4) N by (cases "active tb"; auto simp: timein_def word_sle_eq split: if_splits)+
    have "due_run run (length tb) (pending tb) = ([], pending tb)"
      using False assms(3) by (cases "length tb"; cases "active tb") (auto simp: pending_def)
    moreover have "\<forall>d \<in> set (pending tb). 0 < fst d" unfolding pending_def using late [OF ok(2)] False by linarith
    ultimately show ?thesis using r assms(1) by simp
  next
    case True
    then obtain e es where e: "active tb = e # es" by (cases "active tb") auto
    have "c_func (tb ! 0) \<noteq> 0" "c_time (tb ! 0) \<le>s 0" using True N(1) N(2) [OF e] e by (auto simp: word_sle_eq)
    then obtain p tb1 where c: "timein_calls run (length tb) 0 tb = Some (cs, p, tb1)" "tb' = timein_close tb1 p 0"
      using assms(4) by (auto simp: timein_def)
    from calls_active [OF c(1) assms(2,3), of "[]" "active tb"] ok
    obtain zs es' where r: "active tb1 = zs @ es'" "p = length zs" "length tb1 = length tb" "length (active tb1) < length tb1"
      "\<forall>e \<in> set es'. 0 \<le> sint (c_time e)" "es' = [] \<or> 0 < sint (c_time (hd es'))"
      "due_run run (length tb) (pending tb) = (cs, due 0 es')" by (auto simp: pending_def)
    obtain z ws where t: "tb1 = (zs @ es') @ z # ws" "c_func z = 0" "\<forall>e \<in> set (zs @ es'). c_func e \<noteq> 0"
      using callo_split [OF r(4)] r(1) by metis
    have "zs \<noteq> []"
    proof
      assume "zs = []"
      then have "p = 0" using r(2) by simp
      moreover have "0 < p"
        using calls_progress [OF c(1)] assms(3) \<open>c_func (tb ! 0) \<noteq> 0\<close> \<open>c_time (tb ! 0) \<le>s 0\<close> by (auto split: if_splits)
      ultimately show False by simp
    qed
    from close_list [OF _ t(2) this, of es' "[]" ws] t(3) c(2) r(2)
    obtain y ys where tb': "tb' = es' @ y # ys" "c_func y = 0" "length (y # ys) = length (zs @ z # ws)" by (auto simp: t(1))
    have a: "active tb' = es'" unfolding tb'(1) by (rule active_append) (use t(3) tb'(2) in auto)
    have "length tb' = length tb" using r(3) tb'(1,3) by (simp add: t(1))
    moreover have "length es' < length tb'" by (simp add: tb'(1))
    ultimately show ?thesis using r(7) late [OF r(5,6)] r(5) by (simp add: pending_def a callo_ok_def)
  qed
qed

lemma clock_tick_steps:
  assumes "callo_ok tb" "run_ok run" "2 \<le> length tb" "clock_tick run tb = Some (cs, tb')"
  shows "due_run run (length tb) (tick_due (pending tb)) = (cs, pending tb') \<and> callo_ok tb' \<and> length tb' = length tb \<and>
    (\<forall>d \<in> set (pending tb'). 0 < fst d)"
proof -
  note C = clock_count_ok [OF assms(1)]
  have ok: "callo_ok (clock_count tb)" "2 \<le> length (clock_count tb)" using C assms(3) by simp_all
  have "timein run (clock_count tb) = Some (cs, tb')"
    using assms(4) by (auto simp: clock_tick_def Let_def timein_def split: if_splits)
  from timein_ok [OF ok(1) assms(2) ok(2) this] show ?thesis using C by simp
qed

section \<open>A timer service\<close>

text \<open>What the clients of a table of timers rely on. Before every tick other requests may come in (the
  input \<open>'i\<close>). A tick makes the calls that have at most one tick to go, and brings all others a tick
  nearer; a call nobody asks for anew is made once for every request that is due, and not otherwise.\<close>

primrec ticks :: "('i \<Rightarrow> 's \<Rightarrow> ('c list \<times> 's) option) \<Rightarrow> 'i list \<Rightarrow> 's \<Rightarrow> ('c list list \<times> 's) option" where
  "ticks tick [] s = Some ([], s)"
| "ticks tick (i # is) s =
     Option.bind (tick i s) (\<lambda>(cs, s). map_option (\<lambda>(css, s). (cs # css, s)) (ticks tick is s))"

locale timer_service =
  fixes tok :: "'s \<Rightarrow> bool" and iok :: "'i \<Rightarrow> bool" and to_go :: "'s \<Rightarrow> 'c \<Rightarrow> int list"
    and tick :: "'i \<Rightarrow> 's \<Rightarrow> ('c list \<times> 's) option" and asks :: "'i \<Rightarrow> 'c \<Rightarrow> bool" and lone :: "'s \<Rightarrow> 'c \<Rightarrow> bool"
  assumes tick_tok: "tok s \<Longrightarrow> iok i \<Longrightarrow> tick i s = Some (cs, s') \<Longrightarrow> tok s'"
    and tick_calls: "tok s \<Longrightarrow> iok i \<Longrightarrow> tick i s = Some (cs, s') \<Longrightarrow> t \<in> set (to_go s c) \<Longrightarrow> t \<le> 1 \<Longrightarrow> c \<in> set cs"
    and tick_nearer: "tok s \<Longrightarrow> iok i \<Longrightarrow> tick i s = Some (cs, s') \<Longrightarrow> t \<in> set (to_go s c) \<Longrightarrow> 1 < t \<Longrightarrow>
      t - 1 \<in> set (to_go s' c)"
    and tick_lone: "tok s \<Longrightarrow> iok i \<Longrightarrow> tick i s = Some (cs, s') \<Longrightarrow> lone s c \<Longrightarrow> lone s' c"
    and tick_exact: "tok s \<Longrightarrow> iok i \<Longrightarrow> tick i s = Some (cs, s') \<Longrightarrow> lone s c \<Longrightarrow> \<not> asks i c \<Longrightarrow>
      count_list cs c = length (filter (\<lambda>t. t \<le> 1) (to_go s c)) \<and>
      to_go s' c = map (\<lambda>t. t - 1) (filter (\<lambda>t. 1 < t) (to_go s c))"
begin

lemma on_time:
  assumes "tok s" "\<forall>i \<in> set is. iok i" "t \<in> set (to_go s c)" "ticks tick is s = Some (css, s')"
    and "int k = max 1 t" "k \<le> length is"
  shows "c \<in> set (css ! (k - 1))"
  using assms
proof (induction "is" arbitrary: s t css k)
  case (Cons i "is")
  then obtain cs s1 css1 where 1: "tick i s = Some (cs, s1)" "ticks tick is s1 = Some (css1, s')" "css = cs # css1"
    by (auto simp: Option.bind_eq_Some_conv)
  have i: "iok i" "\<forall>i \<in> set is. iok i" using Cons.prems(2) by simp_all
  show ?case
  proof (cases "t \<le> 1")
    case True
    then have "k = 1" using Cons.prems(5) by simp
    then show ?thesis using tick_calls [OF Cons.prems(1) i(1) 1(1) Cons.prems(3) True] 1(3) by simp
  next
    case False
    then have k: "int (k - 1) = max 1 (t - 1)" "k - 1 \<noteq> 0" "k - 1 \<le> length is" using Cons.prems(5,6) by auto
    have "c \<in> set (css1 ! (k - 1 - 1))"
      by (rule Cons.IH [OF tick_tok [OF Cons.prems(1) i(1) 1(1)] i(2) tick_nearer [OF Cons.prems(1) i(1) 1(1) Cons.prems(3)] 1(2) k(1,3)])
        (use False in simp)
    then show ?thesis using k(2) 1(3) by (simp add: nth_Cons')
  qed
qed simp

lemma not_again:
  assumes "tok s" "\<forall>i \<in> set is. iok i \<and> \<not> asks i c" "lone s c" "to_go s c = []" "ticks tick is s = Some (css, s')"
  shows "(\<forall>j < length is. count_list (css ! j) c = 0) \<and> to_go s' c = []"
  using assms
proof (induction "is" arbitrary: s css)
  case (Cons i "is")
  then obtain cs s1 css1 where 1: "tick i s = Some (cs, s1)" "ticks tick is s1 = Some (css1, s')" "css = cs # css1"
    by (auto simp: Option.bind_eq_Some_conv)
  have i: "iok i" "\<not> asks i c" "\<forall>i \<in> set is. iok i \<and> \<not> asks i c" using Cons.prems(2) by simp_all
  from tick_exact [OF Cons.prems(1) i(1) 1(1) Cons.prems(3) i(2)] Cons.prems(4)
  have "count_list cs c = 0" "to_go s1 c = []" by simp_all
  moreover from this Cons.IH [OF tick_tok [OF Cons.prems(1) i(1) 1(1)] i(3) tick_lone [OF Cons.prems(1) i(1) 1(1) Cons.prems(3)] _ 1(2)]
  have "(\<forall>j < length is. count_list (css1 ! j) c = 0) \<and> to_go s' c = []" by simp
  ultimately show ?case unfolding 1(3) by (auto simp: nth_Cons split: nat.split)
qed simp

lemma exactly_once:
  assumes "tok s" "\<forall>i \<in> set is. iok i \<and> \<not> asks i c" "lone s c" "to_go s c = [t]" "ticks tick is s = Some (css, s')"
  shows "(\<forall>j < length is. count_list (css ! j) c = (if int j + 1 = max 1 t then 1 else 0)) \<and>
    (to_go s' c = [] \<longleftrightarrow> max 1 t \<le> int (length is))"
  using assms
proof (induction "is" arbitrary: s css t)
  case (Cons i "is")
  then obtain cs s1 css1 where 1: "tick i s = Some (cs, s1)" "ticks tick is s1 = Some (css1, s')" "css = cs # css1"
    by (auto simp: Option.bind_eq_Some_conv)
  have i: "iok i" "\<not> asks i c" "\<forall>i \<in> set is. iok i \<and> \<not> asks i c" using Cons.prems(2) by simp_all
  note E = tick_exact [OF Cons.prems(1) i(1) 1(1) Cons.prems(3) i(2)]
  note ok = tick_tok [OF Cons.prems(1) i(1) 1(1)] and own = tick_lone [OF Cons.prems(1) i(1) 1(1) Cons.prems(3)]
  show ?case
  proof (cases "t \<le> 1")
    case True
    then have "count_list cs c = 1" "to_go s1 c = []" using E Cons.prems(4) by simp_all
    with not_again [OF ok i(3) own _ 1(2)] True show ?thesis unfolding 1(3) by (auto simp: nth_Cons split: nat.split)
  next
    case False
    then have "count_list cs c = 0" "to_go s1 c = [t - 1]" using E Cons.prems(4) by simp_all
    with Cons.IH [OF ok i(3) own _ 1(2), of "t - 1"] False show ?thesis
      unfolding 1(3) by (auto simp: nth_Cons split: nat.split)
  qed
qed simp

end

lemma insert_due_set: "set (insert_due x ds) = insert x (set ds)"
proof -
  have "set (takeWhile P ds) \<union> set (dropWhile P ds) = set ds" for P by (metis set_append takeWhile_dropWhile_id)
  then show ?thesis unfolding insert_due_def by auto
qed

lemma ask_keeps: "set ds \<subseteq> set (ask ds rs)"
proof (induction rs arbitrary: ds)
  case (Cons r rs)
  obtain fn arg tim where r: "r = (fn, arg, tim)" by (cases r)
  show ?case using Cons [of "insert_due (sint tim, fn, arg) ds"] by (simp add: ask_def r insert_due_set)
qed (simp add: ask_def)

lemma due_run_calls:
  assumes "due_run run n ds = (cs, ds')" "(t, f, a) \<in> set ds" "\<forall>d \<in> set ds'. 0 < fst d"
  shows "if t \<le> 0 then (f, a) \<in> set cs else (t, f, a) \<in> set ds'"
  using assms
proof (induction run n ds arbitrary: cs rule: due_run.induct)
  case (1 run ds)
  then show ?case by force
next
  case (2 run n ds)
  show ?case
  proof (cases ds)
    case Nil then show ?thesis using 2 by simp
  next
    case (Cons d es)
    obtain u g b where d: "d = (u, g, b)" by (cases d)
    show ?thesis
    proof (cases "u \<le> 0")
      case False
      then have "cs = []" "ds' = ds" using 2(2) Cons d by simp_all
      then show ?thesis using 2(3,4) by force
    next
      case True
      obtain cs1 where r: "due_run run n (ask es (run g b)) = (cs1, ds')" "cs = (g, b) # cs1"
        using 2(2) Cons d True by (auto split: prod.splits)
      show ?thesis
      proof (cases "(t, f, a) \<in> set es")
        case False
        then show ?thesis using 2(3) Cons d r(2) True by auto
      next
        case t: True
        have "if t \<le> 0 then (f, a) \<in> set cs1 else (t, f, a) \<in> set ds'"
          using "2.IH" [OF Cons d [symmetric] refl True r(1)] ask_keeps [of es "run g b"] t 2(4) by auto
        then show ?thesis using r(2) by (auto split: if_splits)
      qed
    qed
  qed
qed

text \<open>The times of the requests for one call.\<close>

definition times :: "(int \<times> nat \<times> u32) list \<Rightarrow> nat \<times> u32 \<Rightarrow> int list" where
  "times ds c = map fst (filter (\<lambda>d. snd d = c) ds)"

definition asks_for :: "request list \<Rightarrow> nat \<times> u32 \<Rightarrow> bool" where
  "asks_for rs c \<longleftrightarrow> (\<exists>t. (fst c, snd c, t) \<in> set rs)"

lemma times_insert: "d \<noteq> c \<Longrightarrow> times (insert_due (t, c) ds) d = times ds d"
  by (simp add: times_def insert_due_def) (metis filter_append map_append takeWhile_dropWhile_id)

lemma times_ask: "\<not> asks_for rs c \<Longrightarrow> times (ask ds rs) c = times ds c"
proof (induction rs arbitrary: ds)
  case (Cons r rs)
  obtain fn arg tim where r: "r = (fn, arg, tim)" by (cases r)
  have "c \<noteq> (fn, arg)" "\<not> asks_for rs c" using Cons.prems by (auto simp: r asks_for_def)
  with Cons.IH [of "insert_due (sint tim, fn, arg) ds"] show ?case by (simp add: ask_def r times_insert)
qed (simp add: ask_def)

lemma set_times: "t \<in> set (times ds c) \<longleftrightarrow> (t, c) \<in> set ds"
  by (force simp: times_def)

lemma due_run_times:
  assumes "due_run run n ds = (cs, ds')" "\<And>f a. \<not> asks_for (run f a) c" "\<forall>d \<in> set ds'. 0 < fst d"
  shows "count_list cs c = length (filter (\<lambda>t. t \<le> 0) (times ds c)) \<and> times ds' c = filter (\<lambda>t. 0 < t) (times ds c)"
  using assms
proof (induction run n ds arbitrary: cs rule: due_run.induct)
  case (1 run ds)
  then have "\<forall>t \<in> set (times ds c). 0 < t" by (force simp: set_times)
  then have "filter (\<lambda>t. t \<le> 0) (times ds c) = []" "filter (\<lambda>t. 0 < t) (times ds c) = times ds c"
    by (auto simp: filter_empty_conv filter_id_conv)
  with 1 show ?case by simp
next
  case (2 run n ds)
  show ?case
  proof (cases "ds \<noteq> [] \<and> fst (hd ds) \<le> 0")
    case False
    then have e: "cs = []" "ds' = ds" using 2(2) by (auto split: list.splits)
    then have "\<forall>t \<in> set (times ds c). 0 < t" using 2(4) by (force simp: set_times)
    then have "filter (\<lambda>t. t \<le> 0) (times ds c) = []" "filter (\<lambda>t. 0 < t) (times ds c) = times ds c"
      by (auto simp: filter_empty_conv filter_id_conv)
    with e show ?thesis by simp
  next
    case True
    then obtain u g b es where ds: "ds = (u, g, b) # es" "u \<le> 0" by (cases ds) auto
    obtain cs1 where r: "due_run run n (ask es (run g b)) = (cs1, ds')" "cs = (g, b) # cs1"
      using 2(2) ds by (auto split: prod.splits)
    have "count_list cs1 c = length (filter (\<lambda>t. t \<le> 0) (times es c)) \<and> times ds' c = filter (\<lambda>t. 0 < t) (times es c)"
      using "2.IH" [OF ds(1) refl refl ds(2) r(1) 2(3,4)] times_ask [OF 2(3)] by simp
    then show ?thesis using ds(2) by (auto simp: r(2) ds(1) times_def)
  qed
qed

lemma times_tick:
  "filter (\<lambda>t. t \<le> 0) (times (tick_due ds) c) = map (\<lambda>t. if 0 < t then t - 1 else t) (filter (\<lambda>t. t \<le> 1) (times ds c))"
  "filter (\<lambda>t. 0 < t) (times (tick_due ds) c) = map (\<lambda>t. t - 1) (filter (\<lambda>t. 1 < t) (times ds c))"
proof (induction ds)
  case (Cons d ds)
  obtain t x where d: "d = (t, x)" by (cases d)
  { case 1 show ?case using Cons.IH(1) by (cases "0 < t"; cases "x = c") (auto simp: times_def tick_due_def d) }
  { case 2 show ?case using Cons.IH(2) by (cases "0 < t"; cases "x = c") (auto simp: times_def tick_due_def d) }
qed (simp_all add: times_def tick_due_def)

text \<open>A tick with the requests that came in before it, from processes and interrupts.\<close>

definition clock_step :: "(nat \<Rightarrow> u32 \<Rightarrow> request list) \<Rightarrow> request list \<Rightarrow> callo list \<Rightarrow> ((nat \<times> u32) list \<times> callo list) option" where
  "clock_step run rs tb = Option.bind (timeouts rs tb) (clock_tick run)"

definition reqs_ok :: "request list \<Rightarrow> bool" where
  "reqs_ok rs \<longleftrightarrow> (\<forall>(fn, arg, tim) \<in> set rs. fn \<noteq> 0 \<and> 0 \<le> sint tim)"

text \<open>The same on the list of pending calls with their times: the calls tick by tick, in order, and what
  is left.\<close>

primrec due_ticks :: "(nat \<Rightarrow> u32 \<Rightarrow> request list) \<Rightarrow> nat \<Rightarrow> request list list \<Rightarrow> (int \<times> nat \<times> u32) list \<Rightarrow>
    (nat \<times> u32) list list \<times> (int \<times> nat \<times> u32) list" where
  "due_ticks run n [] ds = ([], ds)"
| "due_ticks run n (rs # rss) ds =
     (case due_run run n (tick_due (ask ds rs)) of
        (cs, ds) \<Rightarrow> (case due_ticks run n rss ds of (css, ds) \<Rightarrow> (cs # css, ds)))"

lemma clock_step_ok:
  assumes "callo_ok tb" "run_ok run" "2 \<le> length tb" "reqs_ok rs" "clock_step run rs tb = Some (cs, tb')"
  shows "due_run run (length tb) (tick_due (ask (pending tb) rs)) = (cs, pending tb') \<and> callo_ok tb' \<and> length tb' = length tb \<and>
    (\<forall>d \<in> set (pending tb'). 0 < fst d)"
proof -
  obtain tb1 where t: "timeouts rs tb = Some tb1" "clock_tick run tb1 = Some (cs, tb')"
    using assms(5) by (auto simp: clock_step_def Option.bind_eq_Some_conv)
  from timeouts_active [OF t(1), of "[]" "active tb"] assms(1,3,4)
  have "pending tb1 = ask (pending tb) rs" "callo_ok tb1" "length tb1 = length tb"
    by (auto simp: pending_def callo_ok_def reqs_ok_def)
  with clock_tick_steps [OF _ assms(2) _ t(2)] assms(3) show ?thesis by simp
qed

lemma ticks_refine:
  assumes "callo_ok tb" "run_ok run" "2 \<le> length tb" "\<forall>rs \<in> set rss. reqs_ok rs" "ticks (clock_step run) rss tb = Some (css, tb')"
  shows "due_ticks run (length tb) rss (pending tb) = (css, pending tb') \<and> callo_ok tb' \<and> length tb' = length tb"
  using assms
proof (induction rss arbitrary: tb css)
  case (Cons rs rss)
  then obtain cs tb1 css1 where 1: "clock_step run rs tb = Some (cs, tb1)" "ticks (clock_step run) rss tb1 = Some (css1, tb')" "css = cs # css1"
    by (auto simp: Option.bind_eq_Some_conv)
  have "reqs_ok rs" using Cons.prems(4) by simp
  note S = clock_step_ok [OF Cons.prems(1-3) this 1(1)]
  from Cons.IH [OF _ Cons.prems(2) _ _ 1(2)] S Cons.prems(3,4) show ?case by (simp add: 1(3))
qed simp

text \<open>The clock with the functions it calls, as a timer service.\<close>

type_synonym clockst = "(nat \<Rightarrow> u32 \<Rightarrow> request list) \<times> callo list"

definition clock_ok :: "clockst \<Rightarrow> bool" where
  "clock_ok s \<longleftrightarrow> run_ok (fst s) \<and> callo_ok (snd s) \<and> 2 \<le> length (snd s)"

definition clock_go :: "request list \<Rightarrow> clockst \<Rightarrow> ((nat \<times> u32) list \<times> clockst) option" where
  "clock_go rs s = map_option (\<lambda>(cs, tb). (cs, fst s, tb)) (clock_step (fst s) rs (snd s))"

definition clock_lone :: "clockst \<Rightarrow> nat \<times> u32 \<Rightarrow> bool" where
  "clock_lone s c \<longleftrightarrow> (\<forall>f a. \<not> asks_for (fst s f a) c)"

lemma clock_go_tick:
  assumes "clock_ok s" "reqs_ok rs" "clock_go rs s = Some (cs, s')"
  shows "clock_ok s' \<and> fst s' = fst s \<and>
    (\<forall>(t, f, a) \<in> set (pending (snd s)). if t \<le> 1 then (f, a) \<in> set cs else (t - 1, f, a) \<in> set (pending (snd s'))) \<and>
    (clock_lone s c \<longrightarrow> \<not> asks_for rs c \<longrightarrow> count_list cs c = length (filter (\<lambda>t. t \<le> 1) (times (pending (snd s)) c)) \<and>
       times (pending (snd s')) c = map (\<lambda>t. t - 1) (filter (\<lambda>t. 1 < t) (times (pending (snd s)) c)))"
proof -
  obtain tb' where t: "clock_step (fst s) rs (snd s) = Some (cs, tb')" "s' = (fst s, tb')" using assms(3) by (auto simp: clock_go_def)
  have ok: "callo_ok (snd s)" "run_ok (fst s)" "2 \<le> length (snd s)" using assms(1) by (simp_all add: clock_ok_def)
  note R = clock_step_ok [OF ok assms(2) t(1)]
  have "if u \<le> 1 then (f, a) \<in> set cs else (u - 1, f, a) \<in> set (pending tb')" if "(u, f, a) \<in> set (pending (snd s))" for u f a
  proof -
    have "(if 0 < u then u - 1 else u, f, a) \<in> set (tick_due (ask (pending (snd s)) rs))"
      using that ask_keeps by (force simp: tick_due_def)
    from due_run_calls [OF _ this, of "fst s" "length (snd s)" cs "pending tb'"] R show ?thesis by (auto split: if_splits)
  qed
  moreover have "count_list cs c = length (filter (\<lambda>t. t \<le> 1) (times (pending (snd s)) c)) \<and>
       times (pending tb') c = map (\<lambda>t. t - 1) (filter (\<lambda>t. 1 < t) (times (pending (snd s)) c))"
    if "clock_lone s c" "\<not> asks_for rs c"
    using due_run_times [of "fst s" "length (snd s)" "tick_due (ask (pending (snd s)) rs)" cs "pending tb'" c] R that
    by (simp add: times_tick times_ask clock_lone_def)
  ultimately show ?thesis using R ok by (auto simp: clock_ok_def t(2))
qed

interpretation clk: timer_service clock_ok reqs_ok "\<lambda>s. times (pending (snd s))" clock_go asks_for clock_lone
proof unfold_locales
  fix s rs cs s' assume h: "clock_ok s" "reqs_ok rs" "clock_go rs s = Some (cs, s')"
  note G = clock_go_tick [OF h]
  show "clock_ok s'" using G by blast
  fix t and c :: "nat \<times> u32"
  obtain f a where c: "c = (f, a)" by (cases c)
  have K: "if t \<le> 1 then (f, a) \<in> set cs else (t - 1, f, a) \<in> set (pending (snd s'))" if "(t, f, a) \<in> set (pending (snd s))"
    using G that by blast
  show "t \<in> set (times (pending (snd s)) c) \<Longrightarrow> t \<le> 1 \<Longrightarrow> c \<in> set cs"
    "t \<in> set (times (pending (snd s)) c) \<Longrightarrow> 1 < t \<Longrightarrow> t - 1 \<in> set (times (pending (snd s')) c)"
    using K by (simp_all add: set_times c)
  show "clock_lone s c \<Longrightarrow> clock_lone s' c" using G by (auto simp: clock_lone_def)
  show "clock_lone s c \<Longrightarrow> \<not> asks_for rs c \<Longrightarrow> count_list cs c = length (filter (\<lambda>t. t \<le> 1) (times (pending (snd s)) c)) \<and>
      times (pending (snd s')) c = map (\<lambda>t. t - 1) (filter (\<lambda>t. 1 < t) (times (pending (snd s)) c))"
    using G [of c] by blast
qed

lemma clock_ticks: "ticks clock_go rss (run, tb) = map_option (\<lambda>(css, tb). (css, run, tb)) (ticks (clock_step run) rss tb)"
proof (induction rss arbitrary: tb)
  case (Cons rs rss)
  show ?case by (cases "clock_step run rs tb") (auto simp: clock_go_def [of rs "(run, tb)"] Cons option.map_comp comp_def split_def)
qed simp

text \<open>A call nobody else asks for: not pending, not requested between ticks, nor by the functions called.\<close>

definition only_here :: "(nat \<Rightarrow> u32 \<Rightarrow> request list) \<Rightarrow> request list list \<Rightarrow> callo list \<Rightarrow> nat \<times> u32 \<Rightarrow> bool" where
  "only_here run rss tb c \<longleftrightarrow> c \<notin> snd ` set (pending tb) \<and> (\<forall>rs \<in> set rss. \<not> asks_for rs c) \<and> (\<forall>f a. \<not> asks_for (run f a) c)"

lemma times_lone: "c \<notin> snd ` set ds \<Longrightarrow> times (insert_due (t, c) ds) c = [t]"
proof -
  assume n: "c \<notin> snd ` set ds"
  have "filter (\<lambda>d. snd d = c) (takeWhile P ds) = []" "filter (\<lambda>d. snd d = c) (dropWhile P ds) = []" for P
    using n by (auto simp: filter_empty_conv dest!: set_takeWhileD set_dropWhileD)
  then show ?thesis by (simp add: times_def insert_due_def)
qed

lemma times_none: "times ds c = [] \<longleftrightarrow> c \<notin> snd ` set ds"
  by (auto simp: times_def filter_empty_conv)

text \<open>C15: What \<open>timeout\<close> enters, the clock calls, and only that. After \<open>timeout\<close> and any number of ticks, with
  requests of others before each tick and from the functions called, the calls made in each tick, in
  their order, and the calls left in the table are exactly those of a list of pending calls with times
  on which a request is an insertion behind the calls due no later, and a tick brings every time one
  nearer and takes off what is due. The function is called in the tick of the number it was entered
  for (the first, for 0). When nobody else asks for the same function with the same argument, it is
  called exactly once in that tick, in no other, and is in the table until then and not after. That
  the table does not overflow, where \<open>timeout\<close> panics, is the premise that the ticks have a result.\<close>

theorem timeout_fires:
  assumes "callo_ok tb" "2 \<le> length tb" "run_ok run" "fn \<noteq> 0" "0 \<le> sint tim" "timeout fn arg tim tb = Some tb1"
    and "\<forall>rs \<in> set rss. reqs_ok rs" "ticks (clock_step run) rss tb1 = Some (css, tb2)"
  shows "due_ticks run (length tb) rss (insert_due (sint tim, fn, arg) (pending tb)) = (css, pending tb2) \<and>
    callo_ok tb2 \<and> length tb2 = length tb \<and>
    (\<forall>k \<le> length rss. int k = max 1 (sint tim) \<longrightarrow> (fn, arg) \<in> set (css ! (k - 1))) \<and>
    (only_here run rss tb (fn, arg) \<longrightarrow>
       (\<forall>j < length rss. count_list (css ! j) (fn, arg) = (if int j + 1 = max 1 (sint tim) then 1 else 0)) \<and>
       ((fn, arg) \<in> snd ` set (pending tb2) \<longleftrightarrow> int (length rss) < max 1 (sint tim)))"
proof -
  note T = timeout_steps [OF assms(1,2,4-6)]
  have ok: "clock_ok (run, tb1)" and len: "length tb1 = length tb" using assms(2,3) T by (simp_all add: clock_ok_def)
  have go: "ticks clock_go rss (run, tb1) = Some (css, run, tb2)" using assms(8) by (simp add: clock_ticks)
  have "callo_ok tb1" "2 \<le> length tb1" using T assms(2) by simp_all
  note R = ticks_refine [OF this(1) assms(3) this(2) assms(7,8)]
  have "(fn, arg) \<in> set (css ! (k - 1))" if "k \<le> length rss" "int k = max 1 (sint tim)" for k
    by (rule clk.on_time [OF ok assms(7) _ go that(2,1)]) (use T in \<open>simp add: set_times insert_due_set\<close>)
  moreover have "(\<forall>j < length rss. count_list (css ! j) (fn, arg) = (if int j + 1 = max 1 (sint tim) then 1 else 0)) \<and>
       ((fn, arg) \<in> snd ` set (pending tb2) \<longleftrightarrow> int (length rss) < max 1 (sint tim))"
    if "only_here run rss tb (fn, arg)"
    using clk.exactly_once [OF ok _ _ _ go, of "(fn, arg)" "sint tim"] that assms(7) T times_lone [of "(fn, arg)" "pending tb" "sint tim"]
    by (auto simp: only_here_def clock_lone_def times_none)
  ultimately show ?thesis using R T len by simp
qed

section \<open>Putting a process to sleep for a time\<close>

text \<open>\<open>delay\<close>: the channel is the address behind the process, and the function is \<open>wakeup\<close>.\<close>

definition delay :: "nat \<Rightarrow> u32 \<Rightarrow> u16 \<Rightarrow> callo list \<Rightarrow> (u32 option \<times> callo list) option" where
  "delay wakeup procp tks tb =
     (if tks \<le>s 0 then Some (None, tb)
      else map_option (\<lambda>tb. (Some (procp + 1), tb)) (timeout wakeup (procp + 1) tks tb))"

section \<open>The properties\<close>

text \<open>\<open>timeout\<close> implements insertion into the list of pending calls in the order of their times,
  behind the calls due at the same time, although the table holds differences of 16 bits.\<close>

lemma timeout_inserts:
  assumes "callo_ok tb" "2 \<le> length tb" "fn \<noteq> 0" "0 \<le> sint tim" "timeout fn arg tim tb = Some tb'"
  shows "pending tb' = insert_due (sint tim, fn, arg) (pending tb) \<and> callo_ok tb' \<and> length tb' = length tb"
  by (rule timeout_steps [OF assms])

text \<open>A tick of the clock implements a tick of the list of pending calls: every time goes down by
  one, the calls that are due are made in order, whatever they request is entered at its place (and made
  at once if it is due), and afterwards nothing due is left.\<close>

lemma clock_tick_refines:
  assumes "callo_ok tb" "run_ok run" "2 \<le> length tb" "clock_tick run tb = Some (cs, tb')"
  shows "due_run run (length tb) (tick_due (pending tb)) = (cs, pending tb') \<and> callo_ok tb' \<and> length tb' = length tb \<and>
    (\<forall>d \<in> set (pending tb'). 0 < fst d)"
  by (rule clock_tick_steps [OF assms])

text \<open>A table of seven entries with calls after 2, 2 and 5 ticks; function 7 asks for function 8 after 3.\<close>

definition ex_callo :: "u16 \<Rightarrow> u32 \<Rightarrow> nat \<Rightarrow> callo" where
  "ex_callo t a f = \<lparr>c_time = t, c_arg = a, c_func = f\<rparr>"

definition ex_table :: "callo list" where
  "ex_table = [ex_callo 2 10 7, ex_callo 0 11 9, ex_callo 3 12 9, ex_callo 0 0 0, ex_callo 0 0 0, ex_callo 0 0 0, ex_callo 0 0 0]"

definition ex_run :: "nat \<Rightarrow> u32 \<Rightarrow> request list" where
  "ex_run f a = (if f = 7 then [(8, a, 3)] else [])"

lemma ex_table_ok: "callo_ok ex_table" "2 \<le> length ex_table" "run_ok ex_run"
  by (auto simp: callo_ok_def ex_table_def ex_callo_def active_def run_ok_def ex_run_def)

lemma ex_only: "only_here ex_run [[], [(9, 14, 1)]] ex_table (9, 13)"
  by (auto simp: only_here_def asks_for_def ex_run_def ex_table_def ex_callo_def pending_def active_def)

theorem timeout_fires_witness:
  "\<exists>tb1 css tb2. timeout 9 13 2 ex_table = Some tb1 \<and> ticks (clock_step ex_run) [[], [(9, 14, 1)]] tb1 = Some (css, tb2) \<and>
     count_list (css ! 0) (9, 13) = 0 \<and> count_list (css ! 1) (9, 13) = 1 \<and> (9, 13) \<notin> snd ` set (pending tb2)"
proof -
  let ?es = "[ex_callo 2 10 7, ex_callo 0 11 9, ex_callo 0 13 9, ex_callo 3 12 9, ex_callo 0 0 0, ex_callo 0 0 0, ex_callo 0 0 0]"
  have "timeout 9 13 2 ex_table = Some ?es" by code_simp
  then obtain tb1 where t: "tb1 = ?es" "timeout 9 13 2 ex_table = Some tb1" by blast
  have "map_option fst (ticks (clock_step ex_run) [[], [(9, 14, 1)]] tb1) = Some [[], [(7, 10), (9, 11), (9, 13), (9, 14)]]"
    unfolding t(1) by code_simp
  then obtain css tb2 where k: "ticks (clock_step ex_run) [[], [(9, 14, 1)]] tb1 = Some (css, tb2)"
    by (auto simp: map_option_eq_Some)
  have "\<forall>rs \<in> set [[], [(9, 14, 1)]]. reqs_ok rs" by (simp add: reqs_ok_def)
  from timeout_fires [OF ex_table_ok(1,2,3) _ _ t(2) this k] ex_only
  have "count_list (css ! 0) (9, 13) = 0" "count_list (css ! 1) (9, 13) = 1" "(9, 13) \<notin> snd ` set (pending tb2)" by auto
  with t(2) k show ?thesis by blast
qed

text \<open>The mark that is moved down leaves the entries behind it as they were. When all calls of a full
  table are made in one tick, the entry that \<open>timeout\<close> tests for overflow still holds a function, and the
  next \<open>timeout\<close> panics although the table is empty.\<close>

lemma drained_table_panics:
  "case clock_tick (\<lambda>_ _. []) [ex_callo 1 1 9, ex_callo 0 2 9, ex_callo 0 3 9, ex_callo 0 0 0] of
     Some (cs, tb) \<Rightarrow> cs = [(9, 1), (9, 2), (9, 3)] \<and> active tb = [] \<and> timeout 9 4 1 tb = None
   | None \<Rightarrow> False"
  by code_simp

end
