(* ===== verification/Disk_Blocks.thy ===== *)
theory Disk_Blocks
  imports Kernel_Base
begin

text \<open>
  The free blocks of a file system, \<open>os/alloc.c\<close>: the super block with its list of up to 50 free
  blocks, the first of which holds the next 50, and \<open>alloc\<close> and \<open>free\<close>. A disk block is the function
  of its bytes; the buffer cache between the kernel and the disk is transparent here, except that
  reading a block can fail. One mounted device is modelled; an operation starts when \<open>s_flock\<close>, for
  which it sleeps, is clear.
\<close>

section \<open>Bytes of a block\<close>

type_synonym block = "nat \<Rightarrow> byte"

definition rd16 :: "block \<Rightarrow> nat \<Rightarrow> u16" where
  "rd16 b k = ucast (b k) OR push_bit 8 (ucast (b (k + 1)))"

definition rd32 :: "block \<Rightarrow> nat \<Rightarrow> u32" where
  "rd32 b k = ucast (rd16 b k) OR push_bit 16 (ucast (rd16 b (k + 2)))"

definition wr16 :: "block \<Rightarrow> nat \<Rightarrow> u16 \<Rightarrow> block" where
  "wr16 b k x = b(k := ucast x, k + 1 := ucast (drop_bit 8 x))"

definition wr32 :: "block \<Rightarrow> nat \<Rightarrow> u32 \<Rightarrow> block" where
  "wr32 b k x = wr16 (wr16 b k (ucast x)) (k + 2) (ucast (drop_bit 16 x))"

text \<open>An array of addresses.\<close>

definition rd_addrs :: "block \<Rightarrow> nat \<Rightarrow> nat \<Rightarrow> u32 list" where
  "rd_addrs b k n = map (\<lambda>i. rd32 b (k + 4 * i)) [0..<n]"

fun wr_addrs :: "block \<Rightarrow> nat \<Rightarrow> u32 list \<Rightarrow> block" where
  "wr_addrs b k [] = b"
| "wr_addrs b k (x # xs) = wr_addrs (wr32 b k x) (k + 4) xs"

lemma rd16_wr16: "rd16 (wr16 b k x) k = x"
  unfolding rd16_def wr16_def
  by (rule bit_word_eqI) (auto simp: bit_simps)

lemma rd32_join: "ucast (ucast x :: u16) OR push_bit 16 (ucast (ucast (drop_bit 16 x) :: u16)) = (x :: u32)"
  by (rule bit_word_eqI) (auto simp: bit_simps)

lemma wr16_other: "j < k \<or> k + 1 < j \<Longrightarrow> wr16 b k x j = b j"
  by (auto simp: wr16_def)

lemma rd16_other: "j + 1 < k \<or> k + 1 < j \<Longrightarrow> rd16 (wr16 b k x) j = rd16 b j"
  by (auto simp: rd16_def wr16_other)

lemma rd32_wr32: "rd32 (wr32 b k x) k = x"
  by (simp add: rd32_def wr32_def rd16_wr16 rd16_other rd32_join)

lemma rd32_other: "j + 3 < k \<or> k + 3 < j \<Longrightarrow> rd32 (wr32 b k x) j = rd32 b j"
  by (auto simp: rd32_def wr32_def rd16_other)

lemma rd16_wr32: "j + 1 < k \<or> k + 3 < j \<Longrightarrow> rd16 (wr32 b k x) j = rd16 b j"
  by (auto simp: wr32_def rd16_other)

lemma rd_wr_addrs_before:
  "j + 3 < k \<Longrightarrow> rd32 (wr_addrs b k xs) j = rd32 b j" "j + 1 < k \<Longrightarrow> rd16 (wr_addrs b k xs) j = rd16 b j"
  by (induction xs arbitrary: b k) (simp_all add: rd32_other rd16_wr32)

lemma rd_wr_addrs: "i < length xs \<Longrightarrow> rd32 (wr_addrs b k xs) (k + 4 * i) = xs ! i"
proof (induction xs arbitrary: b k i)
  case (Cons x xs)
  then show ?case using Cons.IH [of "i - 1" _ "k + 4"]
    by (cases i) (simp_all add: rd_wr_addrs_before(1) rd32_wr32 add.assoc)
qed simp

lemma rd_addrs_wr: "length xs = n \<Longrightarrow> rd_addrs (wr_addrs b k xs) k n = xs"
  by (auto simp: rd_addrs_def rd_wr_addrs intro: nth_equalityI)

section \<open>The super block\<close>

abbreviation NICFREE :: nat where "NICFREE \<equiv> 50"
abbreviation NICINOD :: nat where "NICINOD \<equiv> 100"

text \<open>The fields the allocation reads and writes.\<close>

record filsys =
  s_isize :: u16
  s_fsize :: u32
  s_nfree :: u16
  s_free :: "u32 list"
  s_ninode :: u16
  s_inode :: "u16 list"
  s_flock :: byte
  s_ilock :: byte
  s_fmod :: byte
  s_ronly :: byte
  s_time :: u32
  s_tfree :: u32
  s_tinode :: u16

text \<open>A mounted device: its super block and its blocks; \<open>io_err\<close> are those that cannot be read.\<close>

record fs =
  sb :: filsys
  disk :: "u32 \<Rightarrow> block"
  io_err :: "u32 \<Rightarrow> bool"

text \<open>The consistency check of \<open>getfs\<close>.\<close>

definition getfs :: "fs \<Rightarrow> fs" where
  "getfs f =
     (if of_nat NICFREE <s s_nfree (sb f) \<or> of_nat NICINOD <s s_ninode (sb f)
      then f\<lparr>sb := (sb f)\<lparr>s_nfree := 0, s_ninode := 0\<rparr>\<rparr> else f)"

definition badblock :: "filsys \<Rightarrow> u32 \<Rightarrow> bool" where
  "badblock fp bn \<longleftrightarrow> bn <s ucast (s_isize fp) \<or> s_fsize fp \<le>s bn"

text \<open>The loop that takes a block from the list, with \<open>n\<close> left in it.\<close>

fun alloc_pick :: "filsys \<Rightarrow> nat \<Rightarrow> (u32 \<times> nat) option" where
  "alloc_pick fp 0 = None"
| "alloc_pick fp (Suc n) =
     (let bno = s_free fp ! n
      in if bno = 0 then None else if badblock fp bno then alloc_pick fp n else Some (bno, n))"

definition nospace :: "fs \<Rightarrow> u32 sysres \<times> fs" where
  "nospace f = (Fail ENOSPC, f\<lparr>sb := (sb f)\<lparr>s_nfree := 0, s_tfree := 0\<rparr>\<rparr>)"

definition alloc :: "fs \<Rightarrow> u32 sysres \<times> fs" where
  "alloc f =
     (let f = getfs f; fp = sb f
      in case alloc_pick fp (nat (sint (s_nfree fp))) of
           None \<Rightarrow> nospace f
         | Some (bno, n) \<Rightarrow>
             (let fp = fp\<lparr>s_nfree := of_nat n\<rparr>;
                  fp = (if n = 0 then
                          (if io_err f bno then fp
                           else fp\<lparr>s_nfree := rd16 (disk f bno) 0, s_free := rd_addrs (disk f bno) 2 NICFREE\<rparr>)\<lparr>s_flock := 0\<rparr>
                        else fp)
              in if s_nfree fp \<le>s 0 \<or> of_nat NICFREE <s s_nfree fp then nospace (f\<lparr>sb := fp\<rparr>)
                 else
                   (Ret bno,
                    f\<lparr>sb := fp\<lparr>s_tfree := (if s_tfree fp \<noteq> 0 then s_tfree fp - 1 else s_tfree fp), s_fmod := 1\<rparr>,
                      disk := (disk f)(bno := (\<lambda>_. 0))\<rparr>)))"

definition free :: "u32 \<Rightarrow> fs \<Rightarrow> fs" where
  "free bno f =
     (let f = getfs f; fp = (sb f)\<lparr>s_fmod := 1\<rparr>
      in if badblock fp bno then f\<lparr>sb := fp\<rparr>
         else
           (let fp = (if s_nfree fp \<le>s 0 then fp\<lparr>s_nfree := 1, s_free := (s_free fp)[0 := 0]\<rparr> else fp);
                full = (of_nat NICFREE \<le>s s_nfree fp);
                d = (if full then (disk f)(bno := wr_addrs (wr16 (disk f bno) 0 (s_nfree fp)) 2 (s_free fp)) else disk f);
                fp = (if full then fp\<lparr>s_nfree := 0, s_flock := 0\<rparr> else fp)
            in f\<lparr>sb := fp\<lparr>s_free := (s_free fp)[unat (s_nfree fp) := bno], s_nfree := s_nfree fp + 1,
                          s_tfree := s_tfree fp + 1, s_fmod := 1\<rparr>,
                 disk := d\<rparr>))"

section \<open>The list of free blocks\<close>

text \<open>The blocks in the order \<open>alloc\<close> gives them out.\<close>

inductive flist :: "(u32 \<Rightarrow> block) \<Rightarrow> u32 list \<Rightarrow> nat \<Rightarrow> u32 list \<Rightarrow> bool" for d where
  none: "flist d fr 0 []"
| ends: "n < NICFREE \<Longrightarrow> length fr = NICFREE \<Longrightarrow> fr ! 0 = 0 \<Longrightarrow> flist d fr (Suc n) (rev (take n (tl fr)))"
| more: "n < NICFREE \<Longrightarrow> length fr = NICFREE \<Longrightarrow> b = fr ! 0 \<Longrightarrow> b \<noteq> 0 \<Longrightarrow> m = unat (rd16 (d b) 0) \<Longrightarrow> 0 < m \<Longrightarrow> m \<le> NICFREE \<Longrightarrow>
    flist d (rd_addrs (d b) 2 NICFREE) m ys \<Longrightarrow> flist d fr (Suc n) (rev (take n (tl fr)) @ b # ys)"

definition usable :: "fs \<Rightarrow> u32 \<Rightarrow> bool" where
  "usable f b \<longleftrightarrow> b \<noteq> 0 \<and> \<not> badblock (sb f) b \<and> \<not> io_err f b"

definition fs_free :: "fs \<Rightarrow> u32 list \<Rightarrow> bool" where
  "fs_free f xs \<longleftrightarrow> length (s_free (sb f)) = NICFREE \<and> unat (s_nfree (sb f)) \<le> NICFREE \<and> unat (s_ninode (sb f)) \<le> NICINOD \<and>
     flist (disk f) (s_free (sb f)) (unat (s_nfree (sb f))) xs \<and> distinct xs \<and> (\<forall>b \<in> set xs. usable f b)"

locale block_pool =
  fixes ok :: "'s \<Rightarrow> u32 list \<Rightarrow> bool"
    and usbl :: "'s \<Rightarrow> u32 \<Rightarrow> bool"
    and cont :: "'s \<Rightarrow> u32 \<Rightarrow> block"
    and get :: "'s \<Rightarrow> u32 sysres \<times> 's"
    and put :: "u32 \<Rightarrow> 's \<Rightarrow> 's"
  assumes ok_list: "ok s xs \<Longrightarrow> distinct xs \<and> (\<forall>b \<in> set xs. usbl s b)"
    and get_law: "ok s (b # xs) \<Longrightarrow> \<exists>t. get s = (Ret b, t) \<and> ok t xs \<and> usbl t = usbl s \<and> cont t = (cont s)(b := (\<lambda>_. 0))"
    and get_none: "ok s [] \<Longrightarrow> \<exists>t. get s = (Fail ENOSPC, t) \<and> ok t [] \<and> usbl t = usbl s \<and> cont t = cont s"
    and put_law: "ok s xs \<Longrightarrow> usbl s b \<Longrightarrow> b \<notin> set xs \<Longrightarrow>
      ok (put b s) (b # xs) \<and> usbl (put b s) = usbl s \<and> (\<forall>c. c \<noteq> b \<longrightarrow> cont (put b s) c = cont s c)"
begin

lemma put_get: "ok s xs \<Longrightarrow> usbl s b \<Longrightarrow> b \<notin> set xs \<Longrightarrow> \<exists>t. get (put b s) = (Ret b, t) \<and> ok t xs"
  using put_law get_law by metis

lemma put_all:
  "ok s xs \<Longrightarrow> distinct bs \<Longrightarrow> set bs \<inter> set xs = {} \<Longrightarrow> \<forall>b \<in> set bs. usbl s b \<Longrightarrow>
   ok (fold put bs s) (rev bs @ xs) \<and> usbl (fold put bs s) = usbl s \<and> (\<forall>c. c \<notin> set bs \<longrightarrow> cont (fold put bs s) c = cont s c)"
proof (induction bs arbitrary: s xs)
  case (Cons b bs)
  have p: "ok (put b s) (b # xs)" "usbl (put b s) = usbl s" "\<forall>c. c \<noteq> b \<longrightarrow> cont (put b s) c = cont s c"
    using put_law [OF Cons.prems(1), of b] Cons.prems by auto
  from Cons.IH [OF p(1)] Cons.prems show ?case by (simp add: p(2,3))
qed simp

end

lemma flist_cong: "flist d fr n xs \<Longrightarrow> \<forall>b \<in> set xs. d' b = d b \<Longrightarrow> flist d' fr n xs"
proof (induction rule: flist.induct)
  case (more n fr b m ys)
  then show ?case using flist.more [of n fr b m d' ys] by simp
qed (auto intro: flist.intros)

lemma rev_take_tl: "Suc n < length fr \<Longrightarrow> rev (take (Suc n) (tl fr)) = fr ! Suc n # rev (take n (tl fr))"
  by (simp add: take_Suc_conv_app_nth nth_tl)

lemma flist_pop:
  "flist d fr (Suc n) (b # xs) \<Longrightarrow> fr ! n = b \<and>
     (if n = 0 then 0 < unat (rd16 (d b) 0) \<and> unat (rd16 (d b) 0) \<le> NICFREE \<and> flist d (rd_addrs (d b) 2 NICFREE) (unat (rd16 (d b) 0)) xs
      else flist d fr n xs)"
proof (erule flist.cases)
  fix m fr' assume h: "fr = fr'" "Suc n = Suc m" "b # xs = rev (take m (tl fr'))" "m < NICFREE" "length fr' = NICFREE" "fr' ! 0 = 0"
  show ?thesis
  proof (cases n)
    case (Suc k)
    then have "rev (take k (tl fr)) = xs" "fr ! n = b" using h rev_take_tl [of k fr] by simp_all
    then show ?thesis using h Suc flist.ends [of k fr d] by auto
  qed (use h in simp)
next
  fix m fr' c q ys
  assume h: "fr = fr'" "Suc n = Suc m" "b # xs = rev (take m (tl fr')) @ c # ys" "m < NICFREE" "length fr' = NICFREE" "c = fr' ! 0" "c \<noteq> 0"
    "q = unat (rd16 (d c) 0)" "0 < q" "q \<le> NICFREE" "flist d (rd_addrs (d c) 2 NICFREE) q ys"
  show ?thesis
  proof (cases n)
    case (Suc k)
    then have "xs = rev (take k (tl fr)) @ c # ys" "fr ! n = b" using h rev_take_tl [of k fr] by simp_all
    then show ?thesis using h Suc flist.more [of k fr c q d ys] by auto
  qed (use h in auto)
qed simp

lemma flist_none: "flist d fr n [] \<Longrightarrow> n = 0 \<or> n = 1 \<and> fr ! 0 = 0"
  by (erule flist.cases) (auto simp flip: length_0_conv)

lemma tl_update_swap: "0 < n \<Longrightarrow> tl (xs[n := x]) = (tl xs)[n - 1 := x]"
  by (cases xs; cases n) simp_all

lemma flist_push:
  assumes "flist d fr n xs" "0 < n" "n < NICFREE" shows "flist d (fr[n := b]) (Suc n) (b # xs)"
  using assms
proof (cases rule: flist.cases)
  case (ends m)
  have "rev (take n (tl (fr[n := b]))) = b # rev (take m (tl fr))"
    using rev_take_tl [of m "fr[n := b]"] ends assms(3) by (simp add: tl_update_swap)
  then show ?thesis using flist.ends [of n "fr[n := b]" d] ends assms(3) by simp
next
  case (more m c q ys)
  have "rev (take n (tl (fr[n := b]))) = b # rev (take m (tl fr))"
    using rev_take_tl [of m "fr[n := b]"] more assms(3) by (simp add: tl_update_swap)
  then show ?thesis using flist.more [of n "fr[n := b]" c q d ys] more assms(3) by simp
qed simp

lemma unat_small_sint: "unat (w :: u16) < 32768 \<Longrightarrow> nat (sint w) = unat w"
  by (simp add: sint16)

lemma getfs_ok: "unat (s_nfree (sb f)) \<le> NICFREE \<Longrightarrow> unat (s_ninode (sb f)) \<le> NICINOD \<Longrightarrow> getfs f = f"
  by (simp add: getfs_def sless_small16)

lemma sle_small16: "unat (x :: u16) < 32768 \<Longrightarrow> unat y < 32768 \<Longrightarrow> x \<le>s y \<longleftrightarrow> unat x \<le> unat y"
  by (simp add: word_sle_eq sint16 del: of_nat_unat)

lemma usable_cong:
  "s_isize (sb t) = s_isize (sb f) \<Longrightarrow> s_fsize (sb t) = s_fsize (sb f) \<Longrightarrow> io_err t = io_err f \<Longrightarrow> usable t = usable f"
  by (simp add: usable_def badblock_def fun_eq_iff)

lemma alloc_some:
  assumes ok: "fs_free f (b # xs)"
  shows "\<exists>t. alloc f = (Ret b, t) \<and> fs_free t xs \<and> usable t = usable f \<and> disk t = (disk f)(b := (\<lambda>_. 0)) \<and>
    s_tfree (sb t) = (if s_tfree (sb f) \<noteq> 0 then s_tfree (sb f) - 1 else 0)"
proof -
  let ?fp = "sb f" let ?d = "(disk f)(b := (\<lambda>_. 0))"
  have f: "length (s_free ?fp) = NICFREE" "unat (s_nfree ?fp) \<le> NICFREE" "unat (s_ninode ?fp) \<le> NICINOD"
    "flist (disk f) (s_free ?fp) (unat (s_nfree ?fp)) (b # xs)" "b \<notin> set xs" "distinct xs" "usable f b" "\<forall>c \<in> set xs. usable f c"
    using ok by (auto simp: fs_free_def)
  have g: "getfs f = f" by (rule getfs_ok [OF f(2,3)])
  from f(4) obtain n where n: "unat (s_nfree ?fp) = Suc n" by (cases rule: flist.cases) auto
  note P = flist_pop [OF f(4) [unfolded n]]
  have u: "b \<noteq> 0" "\<not> badblock ?fp b" "\<not> io_err f b" using f(7) by (simp_all add: usable_def)
  have pk: "alloc_pick ?fp (nat (sint (s_nfree ?fp))) = Some (b, n)"
    using P u f(2) by (simp add: unat_small_sint n)
  have c: "\<forall>c \<in> set xs. ?d c = disk f c" using f(5) by auto
  show ?thesis
  proof (cases "n = 0")
    case True
    let ?w = "rd16 (disk f b) 0" let ?l = "rd_addrs (disk f b) 2 NICFREE"
    have w: "0 < unat ?w" "unat ?w \<le> NICFREE" "flist (disk f) ?l (unat ?w) xs" using P True by auto
    have "\<not> ?w \<le>s 0" "\<not> of_nat NICFREE <s ?w" using w(1,2) by (simp_all add: sle_small16 sless_small16 unat_gt_0)
    then have "alloc f = (Ret b, f\<lparr>sb := ?fp\<lparr>s_nfree := ?w, s_free := ?l, s_flock := 0,
        s_tfree := (if s_tfree ?fp \<noteq> 0 then s_tfree ?fp - 1 else s_tfree ?fp), s_fmod := 1\<rparr>, disk := ?d\<rparr>)"
      using True u(3) by (simp add: alloc_def g pk Let_def)
    moreover have "flist ?d ?l (unat ?w) xs" by (rule flist_cong [OF w(3) c])
    ultimately show ?thesis using w(2) f(3,6,8) by (auto simp: fs_free_def usable_def badblock_def rd_addrs_def fun_eq_iff)
  next
    case False
    have k: "unat (of_nat n :: u16) = n" "n \<le> NICFREE" using n f(2) by (simp_all add: unat_of_nat)
    have "\<not> (of_nat n :: u16) \<le>s 0" "\<not> of_nat NICFREE <s (of_nat n :: u16)" using k False by (simp_all add: sle_small16 sless_small16)
    then have "alloc f = (Ret b, f\<lparr>sb := ?fp\<lparr>s_nfree := of_nat n,
        s_tfree := (if s_tfree ?fp \<noteq> 0 then s_tfree ?fp - 1 else s_tfree ?fp), s_fmod := 1\<rparr>, disk := ?d\<rparr>)"
      using False by (simp add: alloc_def g pk Let_def)
    moreover have "flist ?d (s_free ?fp) n xs" using P False by (intro flist_cong [OF _ c]) simp
    ultimately show ?thesis using k f(1,3,6,8) by (auto simp: fs_free_def usable_def badblock_def fun_eq_iff)
  qed
qed

lemma alloc_none:
  assumes ok: "fs_free f []"
  shows "\<exists>t. alloc f = (Fail ENOSPC, t) \<and> fs_free t [] \<and> usable t = usable f \<and> disk t = disk f"
proof -
  have f: "length (s_free (sb f)) = NICFREE" "unat (s_nfree (sb f)) \<le> NICFREE" "unat (s_ninode (sb f)) \<le> NICINOD"
    "flist (disk f) (s_free (sb f)) (unat (s_nfree (sb f))) []" using ok by (auto simp: fs_free_def)
  have "alloc_pick (sb f) (nat (sint (s_nfree (sb f)))) = None"
    using flist_none [OF f(4)] f(2) by (auto simp: unat_small_sint)
  then have "alloc f = nospace f" by (simp add: alloc_def getfs_ok [OF f(2,3)] Let_def)
  then show ?thesis using f(1,3) by (auto simp: nospace_def fs_free_def usable_def badblock_def fun_eq_iff intro: flist.none)
qed

lemma free_ok:
  assumes ok: "fs_free f xs" and b: "usable f b" "b \<notin> set xs"
  shows "fs_free (free b f) (b # xs) \<and> usable (free b f) = usable f \<and> (\<forall>c. c \<noteq> b \<longrightarrow> disk (free b f) c = disk f c) \<and>
    s_tfree (sb (free b f)) = s_tfree (sb f) + 1"
proof -
  let ?fp = "sb f" let ?n = "unat (s_nfree ?fp)"
  have f: "length (s_free ?fp) = NICFREE" "?n \<le> NICFREE" "unat (s_ninode ?fp) \<le> NICINOD"
    "flist (disk f) (s_free ?fp) ?n xs" "distinct xs" "\<forall>c \<in> set xs. usable f c"
    using ok by (auto simp: fs_free_def)
  have g: "getfs f = f" by (rule getfs_ok [OF f(2,3)])
  have u: "\<not> badblock ?fp b" "\<not> badblock (?fp\<lparr>s_fmod := 1\<rparr>) b" "b \<noteq> 0" using b(1) by (simp_all add: usable_def badblock_def)
  have us: "usable (free b f) = usable f" by (rule usable_cong) (simp_all add: free_def g Let_def)
  consider (empty) "?n = 0" | (room) "0 < ?n" "?n < NICFREE" | (full) "?n = NICFREE" using f(2) by linarith
  then show ?thesis
  proof cases
    case empty
    then have "xs = []" using f(4) by (auto elim: flist.cases)
    let ?l = "(s_free ?fp)[0 := 0, 1 := b]"
    have e: "free b f = f\<lparr>sb := ?fp\<lparr>s_free := ?l, s_nfree := 2, s_tfree := s_tfree ?fp + 1, s_fmod := 1\<rparr>, disk := disk f\<rparr>"
      using empty u by (simp add: free_def g Let_def sle_small16)
    have "flist (disk f) ?l (Suc 1) (rev (take 1 (tl ?l)))" by (rule flist.ends) (use f(1) in simp_all)
    moreover have "rev (take 1 (tl ?l)) = [b]" using f(1) by (cases "s_free ?fp"; cases "tl (s_free ?fp)") auto
    ultimately have "flist (disk f) ?l 2 [b]" by (simp add: numeral_2_eq_2)
    then show ?thesis using f(1,3) b(1) us \<open>xs = []\<close> unfolding us fs_free_def by (simp add: e)
  next
    case room
    then have z: "\<not> s_nfree ?fp \<le>s 0" "\<not> of_nat NICFREE \<le>s s_nfree ?fp" by (simp_all add: sle_small16 unat_gt_0)
    then have e: "free b f = f\<lparr>sb := ?fp\<lparr>s_free := (s_free ?fp)[?n := b], s_nfree := s_nfree ?fp + 1, s_tfree := s_tfree ?fp + 1, s_fmod := 1\<rparr>, disk := disk f\<rparr>"
      using u by (simp add: free_def g Let_def)
    have n: "unat (s_nfree ?fp + 1) = Suc ?n" using room by (simp add: unat_plus_small)
    show ?thesis using flist_push [OF f(4) room] f b us room n unfolding us fs_free_def by (simp add: e)
  next
    case full
    then have z: "\<not> s_nfree ?fp \<le>s 0" "of_nat NICFREE \<le>s s_nfree ?fp" by (simp_all add: sle_small16)
    let ?b = "wr_addrs (wr16 (disk f b) 0 (s_nfree ?fp)) 2 (s_free ?fp)"
    let ?d = "(disk f)(b := ?b)" let ?l = "(s_free ?fp)[0 := b]"
    have e: "free b f = f\<lparr>sb := ?fp\<lparr>s_free := ?l, s_nfree := 1, s_tfree := s_tfree ?fp + 1, s_flock := 0, s_fmod := 1\<rparr>, disk := ?d\<rparr>"
      using z u by (simp add: free_def g Let_def)
    have r: "rd16 ?b 0 = s_nfree ?fp" "rd_addrs ?b 2 NICFREE = s_free ?fp"
      using f(1) by (simp_all add: rd_wr_addrs_before(2) rd16_wr16 rd_addrs_wr)
    have c: "flist ?d (s_free ?fp) ?n xs" by (rule flist_cong [OF f(4)]) (use b(2) in auto)
    have "flist ?d ?l (Suc 0) (rev (take 0 (tl ?l)) @ b # xs)"
      by (rule flist.more [where m = NICFREE]) (use f(1) u(3) r full c in simp_all)
    then show ?thesis using f b us unfolding us fs_free_def by (simp add: e)
  qed
qed

interpretation blk: block_pool fs_free usable disk alloc free
proof unfold_locales
  fix s xs assume "fs_free s xs" then show "distinct xs \<and> (\<forall>b \<in> set xs. usable s b)" by (simp add: fs_free_def)
next
  fix s b xs assume "fs_free s (b # xs)"
  then show "\<exists>t. alloc s = (Ret b, t) \<and> fs_free t xs \<and> usable t = usable s \<and> disk t = (disk s)(b := (\<lambda>_. 0))"
    using alloc_some by blast
next
  fix s assume "fs_free s []"
  then show "\<exists>t. alloc s = (Fail ENOSPC, t) \<and> fs_free t [] \<and> usable t = usable s \<and> disk t = disk s"
    using alloc_none by blast
next
  fix s xs b assume "fs_free s xs" "usable s b" "b \<notin> set xs"
  then show "fs_free (free b s) (b # xs) \<and> usable (free b s) = usable s \<and> (\<forall>c. c \<noteq> b \<longrightarrow> disk (free b s) c = disk s c)"
    using free_ok by blast
qed

lemma fs_free_length: "fs_free f xs \<Longrightarrow> length xs < 2 ^ 32"
proof -
  assume "fs_free f xs"
  then have x: "distinct xs" "0 \<notin> set xs" by (auto simp: fs_free_def usable_def)
  have "set xs \<subseteq> UNIV - {0}" using x(2) by auto
  then have "card (set xs) \<le> card (UNIV - {0 :: u32})" by (intro card_mono) auto
  also have "\<dots> = 2 ^ 32 - 1" by (simp add: card_word)
  finally show ?thesis using distinct_card [OF x(1)] by simp
qed

section \<open>Properties\<close>

text \<open>C18: the free blocks are a stack. \<open>alloc\<close> gives out the first of them, cleared, and leaves the
  rest, across the blocks that hold the continuation of the list; it answers \<open>ENOSPC\<close> exactly when
  there is none. \<open>free\<close> puts a block of the device back on top and changes no other block. The count
  \<open>s_tfree\<close> stays the number of free blocks.\<close>

theorem free_list_stack:
  assumes "fs_free f xs" and "s_tfree (sb f) = of_nat (length xs)"
  shows "(case xs of
       [] \<Rightarrow> fst (alloc f) = Fail ENOSPC \<and> fs_free (snd (alloc f)) [] \<and> disk (snd (alloc f)) = disk f
     | b # ys \<Rightarrow> fst (alloc f) = Ret b \<and> fs_free (snd (alloc f)) ys \<and> disk (snd (alloc f)) = (disk f)(b := (\<lambda>_. 0)) \<and>
         s_tfree (sb (snd (alloc f))) = of_nat (length ys)) \<and>
     (\<forall>b. usable f b \<and> b \<notin> set xs \<longrightarrow> fs_free (free b f) (b # xs) \<and> (\<forall>c. c \<noteq> b \<longrightarrow> disk (free b f) c = disk f c) \<and>
        s_tfree (sb (free b f)) = of_nat (length (b # xs)))"
proof -
  have z: "(of_nat (Suc n) :: u32) \<noteq> 0" if "Suc n < 2 ^ 32" for n
  proof -
    have "unat (of_nat (Suc n) :: u32) = Suc n" using that by (simp add: unat_of_nat take_bit_nat_eq_self del: of_nat_Suc)
    then show ?thesis by auto
  qed
  have F: "\<forall>b. usable f b \<and> b \<notin> set xs \<longrightarrow> fs_free (free b f) (b # xs) \<and> (\<forall>c. c \<noteq> b \<longrightarrow> disk (free b f) c = disk f c) \<and>
        s_tfree (sb (free b f)) = of_nat (length (b # xs))"
    using free_ok [OF assms(1)] assms(2) by simp
  show ?thesis
  proof (cases xs)
    case Nil
    then show ?thesis using alloc_none [of f] assms(1) F by auto
  next
    case (Cons b ys)
    obtain t where t: "alloc f = (Ret b, t)" "fs_free t ys" "disk t = (disk f)(b := (\<lambda>_. 0))"
      "s_tfree (sb t) = (if s_tfree (sb f) \<noteq> 0 then s_tfree (sb f) - 1 else 0)"
      using alloc_some [of f b ys] assms(1) Cons by blast
    have "s_tfree (sb f) = of_nat (Suc (length ys))" "s_tfree (sb f) \<noteq> 0"
      using assms(2) Cons z [of "length ys"] fs_free_length [OF assms(1)] by simp_all
    then have "s_tfree (sb t) = of_nat (length ys)" using t(4) by simp
    with t(1-3) F Cons show ?thesis by simp
  qed
qed

text \<open>A device of 40 blocks, 4 of them for inodes, with two free blocks.\<close>

definition demo_fs :: fs where
  "demo_fs = \<lparr>sb = \<lparr>s_isize = 4, s_fsize = 40, s_nfree = 3, s_free = [0, 21, 20] @ replicate 47 0, s_ninode = 0, s_inode = replicate 100 0,
     s_flock = 0, s_ilock = 0, s_fmod = 0, s_ronly = 0, s_time = 0, s_tfree = 2, s_tinode = 0\<rparr>, disk = (\<lambda>_ _. 0), io_err = (\<lambda>_. False)\<rparr>"

lemma demo_fs_free: "fs_free demo_fs [20, 21]"
proof -
  have "flist (disk demo_fs) (s_free (sb demo_fs)) 3 [20, 21]"
    using flist.ends [of 2 "s_free (sb demo_fs)" "disk demo_fs"] by (simp add: demo_fs_def)
  then show ?thesis by (simp add: fs_free_def usable_def badblock_def word_sless_alt word_sle_eq) (simp add: demo_fs_def)
qed

theorem free_list_stack_witness: "fst (alloc demo_fs) = Ret 20 \<and> fs_free (free 30 demo_fs) [30, 20, 21]"
proof -
  have "usable demo_fs 30" by (simp add: usable_def badblock_def demo_fs_def word_sless_alt word_sle_eq)
  then show ?thesis using free_list_stack [OF demo_fs_free] by (simp add: demo_fs_def)
qed

end
