(* ===== verification/Block_Map.thy ===== *)
theory Block_Map
  imports Disk_Blocks
begin

text \<open>
  The blocks of a file: \<open>bmap\<close> of \<open>os/subr.c\<close>, which finds or allocates the block of a file offset
  through up to three levels of indirect blocks, \<open>itrunc\<close> and \<open>tloop\<close> of \<open>os/iget.c\<close>, which free
  them, and the copies \<open>iread\<close> and \<open>iupdat\<close> make of an inode from and to its place on the disk.
\<close>

section \<open>Inodes\<close>

abbreviation NADDR :: nat where "NADDR \<equiv> 13"
abbreviation NFADDR :: nat where "NFADDR \<equiv> 10"

definition ILOCK :: byte where "ILOCK = 1"
definition IUPD :: byte where "IUPD = 2"
definition IACC :: byte where "IACC = 4"
definition IMOUNT :: byte where "IMOUNT = 8"
definition IWANT :: byte where "IWANT = 0x10"
definition ITEXT :: byte where "ITEXT = 0x20"
definition ICHG :: byte where "ICHG = 0x40"
definition ISYN :: byte where "ISYN = 0x80"

definition IFMT :: u16 where "IFMT = 0xF000"
definition IFDIR :: u16 where "IFDIR = 0x4000"
definition IFCHR :: u16 where "IFCHR = 0x2000"
definition IFBLK :: u16 where "IFBLK = 0x6000"
definition IFREG :: u16 where "IFREG = 0x8000"
definition IFIFO :: u16 where "IFIFO = 0x1000"

text \<open>The entry of the inode table, without the links of its lists.\<close>

record inode =
  i_flag :: byte
  i_count :: u16
  i_dev :: u16
  i_number :: u16
  i_mode :: u16
  i_nlink :: u16
  i_uid :: u16
  i_gid :: u16
  i_size :: u32
  i_addr :: "u32 list"
  i_lastr :: u32

section \<open>The inode on the disk\<close>

text \<open>\<open>itod\<close> and \<open>itoo\<close>: the block of an inode and its place there. A disk inode has 64 bytes.\<close>

definition itod :: "u16 \<Rightarrow> u32" where "itod x = ucast (drop_bit 4 (x + 31))"
definition itoo :: "u16 \<Rightarrow> nat" where "itoo x = unat ((x + 31) AND 15)"

text \<open>The sum is of 16 bits: the last inode numbers lead to block 0.\<close>

lemma itod_wraps: "itod 65504 = 4095" "itod 65505 = 0"
  by (simp_all add: itod_def)

definition rd24 :: "block \<Rightarrow> nat \<Rightarrow> u32" where
  "rd24 b k = ucast (b k) OR push_bit 8 (ucast (b (k + 1))) OR push_bit 16 (ucast (b (k + 2)))"

definition wr24 :: "block \<Rightarrow> nat \<Rightarrow> u32 \<Rightarrow> block" where
  "wr24 b k x = b(k := ucast x, k + 1 := ucast (drop_bit 8 x), k + 2 := ucast (drop_bit 16 x))"

fun put_addrs :: "block \<Rightarrow> nat \<Rightarrow> u32 list \<Rightarrow> block" where
  "put_addrs b k [] = b"
| "put_addrs b k (x # xs) = put_addrs (wr24 b k x) (k + 3) xs"

definition get_dinode :: "block \<Rightarrow> nat \<Rightarrow> inode \<Rightarrow> inode" where
  "get_dinode b n ip = ip\<lparr>i_mode := rd16 b n, i_nlink := rd16 b (n + 2), i_uid := rd16 b (n + 4), i_gid := rd16 b (n + 6),
     i_size := rd32 b (n + 8), i_addr := map (\<lambda>i. rd24 b (n + 12 + 3 * i)) [0..<NADDR]\<rparr>"

definition put_dinode :: "u32 \<Rightarrow> inode \<Rightarrow> block \<Rightarrow> nat \<Rightarrow> block" where
  "put_dinode now ip b n =
     (let b = wr16 b n (i_mode ip);
          b = wr16 b (n + 2) (i_nlink ip);
          b = wr16 b (n + 4) (i_uid ip);
          b = wr16 b (n + 6) (i_gid ip);
          b = wr32 b (n + 8) (i_size ip);
          b = put_addrs b (n + 12)
                (if i_mode ip AND IFMT = IFIFO then take NFADDR (i_addr ip) @ replicate (NADDR - NFADDR) 0 else i_addr ip);
          b = (if i_flag ip AND IACC \<noteq> 0 then wr32 b (n + 52) now else b);
          b = (if i_flag ip AND IUPD \<noteq> 0 then wr32 b (n + 56) now else b)
      in if i_flag ip AND ICHG \<noteq> 0 then wr32 b (n + 60) now else b)"

text \<open>\<open>iread\<close> without the \<open>iput\<close> of its error exit, \<open>None\<close>.\<close>

definition iread :: "inode \<Rightarrow> fs \<Rightarrow> inode option" where
  "iread ip f =
     (if io_err f (itod (i_number ip)) then None
      else Some (get_dinode (disk f (itod (i_number ip))) (64 * itoo (i_number ip)) ip))"

definition iupdat :: "u32 \<Rightarrow> inode \<Rightarrow> fs \<Rightarrow> errno option \<times> inode \<times> fs" where
  "iupdat now ip f =
     (let f = getfs f; clear = i_flag ip AND NOT (IACC OR IUPD OR ICHG OR ISYN); bno = itod (i_number ip)
      in if s_ronly (sb f) \<noteq> 0 then
           ((if i_flag ip AND (IUPD OR ICHG) \<noteq> 0 then Some EROFS else None), ip\<lparr>i_flag := clear\<rparr>, f)
         else if io_err f bno then (Some EIO, ip, f)
         else
           (None, ip\<lparr>i_flag := clear\<rparr>,
            f\<lparr>disk := (disk f)(bno := put_dinode now ip (disk f bno) (64 * itoo (i_number ip)))\<rparr>))"

section \<open>bmap\<close>

text \<open>The fields of the user structure it uses: the position and length of the transfer, the limit on
  file sizes, and its answers beside the block.\<close>

record uio =
  u_offset :: u32
  u_count :: u16
  u_limit :: u32
  u_pbdev :: u16
  u_pboff :: u16
  u_pbsize :: u16
  u_rablock :: u32

text \<open>\<open>Hole\<close> is the answer \<open>-1\<close> without an error.\<close>

datatype bmap_reply = Blk u32 | Hole | Bad errno

text \<open>Logical and physical block numbers: \<open>FsLTOP\<close>, \<open>FsPTOL\<close>. The block \<open>alloc\<close> returns is in a buffer
  with its physical number.\<close>

definition ltop :: "u32 \<Rightarrow> u32" where "ltop b = push_bit 1 b"
definition ptol :: "u32 \<Rightarrow> u32" where "ptol b = signed_drop_bit 1 b"

definition new_block :: "fs \<Rightarrow> bmap_reply \<times> fs" where
  "new_block f = (case alloc f of (Ret b, f) \<Rightarrow> (Blk (ptol (ltop b)), f) | (Fail e, f) \<Rightarrow> (Bad e, f) | (Wild, f) \<Rightarrow> (Hole, f))"

text \<open>The first part: the block within the file and how much of it. \<open>mnt\<close> is the mount table, with
  the status and the device of each entry.\<close>

definition bmap_dev :: "(u16 \<times> u16) list \<Rightarrow> u16 \<Rightarrow> u16" where
  "bmap_dev mnt dev =
     (case List.find (\<lambda>(fl, d). fl = 1 \<and> d AND 0x1fff = dev AND 0x1fff) mnt of None \<Rightarrow> dev | Some (_, d) \<Rightarrow> d)"

definition bmap_off :: "uio \<Rightarrow> u16" where "bmap_off u = ucast (u_offset u AND 1023)"

text \<open>What is left of the file, when reading.\<close>

definition bmap_rest :: "inode \<Rightarrow> uio \<Rightarrow> u16 \<Rightarrow> u16" where
  "bmap_rest ip u sz =
     (let rem = (if i_mode ip AND IFMT = IFIFO then i_size ip else i_size ip - u_offset u);
          rem = (if rem <s 0 then 0 else rem)
      in if rem <s ucast sz then ucast rem else sz)"

definition bmap_part :: "(u16 \<times> u16) list \<Rightarrow> bool \<Rightarrow> inode \<Rightarrow> uio \<Rightarrow> bmap_reply option \<times> u32 \<times> bool \<times> inode \<times> uio" where
  "bmap_part mnt readflg ip u =
     (let ty = i_mode ip AND IFMT;
          dev = (if ty = IFBLK then bmap_dev mnt (ucast (i_addr ip ! 0)) else i_dev ip);
          bn = signed_drop_bit 10 (u_offset u);
          u = u\<lparr>u_rablock := 0, u_pbdev := dev\<rparr>
      in if bn <s 0 then (Some (Bad EFBIG), bn, False, ip, u)
         else
           (let sz = 1024 - bmap_off u;
                less = (u_count u < sz);
                ra = (i_lastr ip + 1 = bn \<and> \<not> less);
                ip = (if less then ip else ip\<lparr>i_lastr := bn\<rparr>);
                sz = (if less then u_count u else sz);
                u = u\<lparr>u_pboff := bmap_off u, u_pbsize := sz\<rparr>
            in if ty = IFBLK then (Some (Blk bn), bn, ra, ip, if ra then u\<lparr>u_rablock := bn + 1\<rparr> else u)
               else if readflg then
                 (let sz = bmap_rest ip u sz
                  in (if sz = 0 then Some Hole else None, bn, ra \<and> ty \<noteq> IFIFO, ip, u\<lparr>u_pbsize := sz\<rparr>))
               else if ptol (u_limit u) \<le>s bn then (Some (Bad EFBIG), bn, ra, ip, u)
               else (None, bn, ra, ip, u)))"

text \<open>How many levels of indirection: the loop for \<open>j = 3, 2, 1\<close>.\<close>

fun bmap_level :: "nat \<Rightarrow> u32 \<Rightarrow> u32 \<Rightarrow> (nat \<times> u32) option" where
  "bmap_level 0 nb bn = None"
| "bmap_level (Suc j) nb bn =
     (let nb = push_bit 8 nb in if bn <s nb then Some (Suc j, bn) else bmap_level j nb (bn - nb))"

text \<open>Through \<open>k\<close> levels of indirect blocks from block \<open>nb\<close>. The last indirect block and the index in it
  are for the read-ahead.\<close>

fun bmap_walk :: "bool \<Rightarrow> u32 \<Rightarrow> nat \<Rightarrow> u32 \<Rightarrow> u32 \<times> nat \<Rightarrow> fs \<Rightarrow> bmap_reply \<times> (u32 \<times> nat) \<times> fs" where
  "bmap_walk readflg bn 0 nb ap f = (Blk nb, ap, f)"
| "bmap_walk readflg bn (Suc k) nb ap f =
     (if io_err f nb then (Bad EIO, ap, f)
      else
        (let i = unat (drop_bit (8 * k) bn AND 255); x = rd32 (disk f nb) (4 * i)
         in if x \<noteq> 0 then bmap_walk readflg bn k x (nb, i) f
            else if readflg then (Hole, ap, f)
            else (case new_block f of
                    (Blk x, f) \<Rightarrow> bmap_walk readflg bn k x (nb, i) (f\<lparr>disk := (disk f)(nb := wr32 (disk f nb) (4 * i) x)\<rparr>)
                  | (r, f) \<Rightarrow> (r, ap, f))))"

text \<open>Fetching the address from the inode, direct or indirect.\<close>

definition bmap_top :: "bool \<Rightarrow> nat \<Rightarrow> inode \<Rightarrow> fs \<Rightarrow> bmap_reply \<times> inode \<times> fs" where
  "bmap_top readflg i ip f =
     (let nb = i_addr ip ! i
      in if nb \<noteq> 0 then (Blk nb, ip, f)
         else if readflg then (Hole, ip, f)
         else (case new_block f of
                 (Blk nb, f) \<Rightarrow> (Blk nb, ip\<lparr>i_addr := (i_addr ip)[i := nb], i_flag := i_flag ip OR (IUPD OR ICHG)\<rparr>, f)
               | (r, f) \<Rightarrow> (r, ip, f)))"

definition bmap_direct :: "bool \<Rightarrow> bool \<Rightarrow> nat \<Rightarrow> inode \<Rightarrow> uio \<Rightarrow> fs \<Rightarrow> bmap_reply \<times> inode \<times> uio \<times> fs" where
  "bmap_direct readflg ra i ip u f =
     (case bmap_top readflg i ip f of
        (Blk nb, ip, f) \<Rightarrow> (Blk nb, ip, if i < NADDR - 4 \<and> ra then u\<lparr>u_rablock := i_addr ip ! (i + 1)\<rparr> else u, f)
      | (r, ip, f) \<Rightarrow> (r, ip, u, f))"

definition bmap_indirect :: "bool \<Rightarrow> bool \<Rightarrow> nat \<Rightarrow> u32 \<Rightarrow> inode \<Rightarrow> uio \<Rightarrow> fs \<Rightarrow> bmap_reply \<times> inode \<times> uio \<times> fs" where
  "bmap_indirect readflg ra j bn ip u f =
     (case bmap_top readflg (NADDR - j) ip f of
        (Blk nb, ip, f) \<Rightarrow>
          (case bmap_walk readflg bn (4 - j) nb (0, 0) f of
             (Blk nb, (ap, i), f) \<Rightarrow> (Blk nb, ip, if i < 255 \<and> ra then u\<lparr>u_rablock := rd32 (disk f ap) (4 * (i + 1))\<rparr> else u, f)
           | (r, _, f) \<Rightarrow> (r, ip, u, f))
      | (r, ip, f) \<Rightarrow> (r, ip, u, f))"

definition bmap :: "(u16 \<times> u16) list \<Rightarrow> bool \<Rightarrow> inode \<Rightarrow> uio \<Rightarrow> fs \<Rightarrow> bmap_reply \<times> inode \<times> uio \<times> fs" where
  "bmap mnt readflg ip u f =
     (case bmap_part mnt readflg ip u of
        (Some r, bn, ra, ip, u) \<Rightarrow> (r, ip, u, f)
      | (None, bn, ra, ip, u) \<Rightarrow>
          if bn <s of_nat (NADDR - 3) then bmap_direct readflg ra (unat bn) ip u f
          else
            (case bmap_level 3 1 (bn - of_nat (NADDR - 3)) of
               None \<Rightarrow> (Bad EFBIG, ip, u, f)
             | Some (j, bn) \<Rightarrow> bmap_indirect readflg ra j bn ip u f))"

section \<open>Truncation\<close>

text \<open>\<open>tloop\<close> with the \<open>i\<close> entries of the indirect block \<open>bn\<close> that are left; the buffer of \<open>bn\<close> it holds
  or gets again has the contents of the block.\<close>

function tloop :: "u32 \<Rightarrow> bool \<Rightarrow> bool \<Rightarrow> nat \<Rightarrow> fs \<Rightarrow> fs" where
  "tloop bn f1 f2 0 f = free bn f"
| "tloop bn f1 f2 (Suc i) f =
     (if io_err f bn then f
      else
        (let nb = rd32 (disk f bn) (4 * i)
         in if nb = 0 then tloop bn f1 f2 i f
            else if f1 then tloop bn f1 f2 i (tloop nb f2 False 256 f)
            else tloop bn f1 f2 i (free nb f)))"
  by pat_completeness auto
termination
  by (relation "measures [\<lambda>(bn, f1, f2, i, f). if f1 then if f2 then 2 else 1 else 0, \<lambda>(bn, f1, f2, i, f). i]") auto

text \<open>The loop over the saved addresses, from the last.\<close>

fun itrunc_blocks :: "u32 list \<Rightarrow> nat \<Rightarrow> fs \<Rightarrow> fs" where
  "itrunc_blocks save 0 f = f"
| "itrunc_blocks save (Suc i) f =
     (let bn = save ! i
      in itrunc_blocks save i
           (if bn = 0 then f
            else if i = NADDR - 3 then tloop bn False False 256 f
            else if i = NADDR - 2 then tloop bn True False 256 f
            else if i = NADDR - 1 then tloop bn True True 256 f
            else free bn f))"

definition itrunc :: "u32 \<Rightarrow> inode \<Rightarrow> fs \<Rightarrow> inode \<times> fs" where
  "itrunc now ip f =
     (if i_mode ip AND IFMT \<noteq> IFREG \<and> i_mode ip AND IFMT \<noteq> IFDIR then (ip, f)
      else
        (let save = i_addr ip;
             ip = ip\<lparr>i_size := 0, i_addr := replicate NADDR 0, i_flag := i_flag ip OR (IUPD OR ICHG OR ISYN)\<rparr>
         in case iupdat now ip f of (_, ip, f) \<Rightarrow> (ip, itrunc_blocks save NADDR f)))"

section \<open>The tree of a file\<close>

text \<open>Following indices from a block, and the block at a position of the tree: one of the addresses in
  the inode and indices below it. 0 is no block.\<close>

fun walk :: "(u32 \<Rightarrow> block) \<Rightarrow> u32 \<Rightarrow> nat list \<Rightarrow> u32" where
  "walk d a [] = a"
| "walk d a (i # is) = (if a = 0 then 0 else walk d (rd32 (d a) (4 * i)) is)"

fun node :: "u32 list \<Rightarrow> (u32 \<Rightarrow> block) \<Rightarrow> nat \<times> nat list \<Rightarrow> u32" where
  "node as d (s, p) = walk d (as ! s) p"

definition places :: "(nat \<times> nat list) set" where
  "places = {(s, p). s < NADDR \<and> length p \<le> s - 9 \<and> (\<forall>i \<in> set p. i < 256)}"

definition leaf :: "nat \<times> nat list \<Rightarrow> bool" where "leaf P \<longleftrightarrow> length (snd P) = fst P - 9"

text \<open>Where logical block \<open>n\<close> of a file is.\<close>

definition place :: "nat \<Rightarrow> (nat \<times> nat list) option" where
  "place n =
     (if n < 10 then Some (n, [])
      else if n - 10 < 256 then Some (10, [n - 10])
      else if n - 266 < 65536 then Some (11, [(n - 266) div 256, (n - 266) mod 256])
      else if n - 65802 < 16777216 then Some (12, [(n - 65802) div 65536, (n - 65802) div 256 mod 256, (n - 65802) mod 256])
      else None)"

definition file_block :: "u32 list \<Rightarrow> (u32 \<Rightarrow> block) \<Rightarrow> nat \<Rightarrow> u32" where
  "file_block as d n = (case place n of None \<Rightarrow> 0 | Some P \<Rightarrow> node as d P)"

text \<open>The blocks of a file are usable, all different and none of them free.\<close>

definition tree_ok :: "u32 list \<Rightarrow> fs \<Rightarrow> u32 list \<Rightarrow> bool" where
  "tree_ok as f xs \<longleftrightarrow> length as = NADDR \<and>
     (\<forall>P \<in> places. node as (disk f) P \<noteq> 0 \<longrightarrow> usable f (node as (disk f) P) \<and> node as (disk f) P \<notin> set xs \<and>
        (\<forall>Q \<in> places. node as (disk f) Q = node as (disk f) P \<longrightarrow> Q = P))"

lemma walk_0 [simp]: "walk d 0 p = 0"
  by (cases p) simp_all

lemma walk_append: "walk d a (p @ q) = walk d (walk d a p) q"
  by (induction p arbitrary: a) simp_all

lemma walk_snoc: "walk d a (p @ [i]) = (if walk d a p = 0 then 0 else rd32 (d (walk d a p)) (4 * i))"
  by (simp add: walk_append)

lemma walk_cong:
  "(\<And>r j t. q = r @ j # t \<Longrightarrow> walk d a r \<noteq> 0 \<Longrightarrow> rd32 (d' (walk d a r)) (4 * j) = rd32 (d (walk d a r)) (4 * j)) \<Longrightarrow> walk d' a q = walk d a q"
proof (induction q arbitrary: a)
  case (Cons i q)
  show ?case
  proof (cases "a = 0")
    case False
    then have e: "rd32 (d' a) (4 * i) = rd32 (d a) (4 * i)" using Cons.prems [of "[]" i q] by simp
    have "walk d' (rd32 (d a) (4 * i)) q = walk d (rd32 (d a) (4 * i)) q"
      by (rule Cons.IH) (use Cons.prems [of "i # _"] False in simp)
    then show ?thesis using False e by simp
  qed simp
qed simp

lemma rd32_zero [simp]: "rd32 (\<lambda>_. 0) k = 0"
  by (simp add: rd32_def rd16_def)

lemma walk_zero: "d b = (\<lambda>_. 0) \<Longrightarrow> walk d b t = (if t = [] then b else 0)"
  by (cases t) simp_all

lemma tree_okD:
  assumes "tree_ok as f xs" "P \<in> places" "node as (disk f) P \<noteq> 0"
  shows "usable f (node as (disk f) P)" "node as (disk f) P \<notin> set xs"
    "Q \<in> places \<Longrightarrow> node as (disk f) Q = node as (disk f) P \<Longrightarrow> Q = P"
  using assms by (auto simp: tree_ok_def)

lemma places_prefix: "(s, p @ q) \<in> places \<Longrightarrow> (s, p) \<in> places"
  by (auto simp: places_def)

text \<open>A new block, cleared, is entered at a place of the inode or at an index of one of the blocks of the tree.\<close>

lemma tree_ok_add:
  assumes T: "tree_ok as f (b # xs)" and b: "usable f b" "b \<notin> set xs" and u: "usable g = usable f" and l: "length as' = NADDR"
    and N: "\<And>Q. Q \<in> places \<Longrightarrow> node as' (disk g) Q = (if Q = X then b else node as (disk f) Q)"
  shows "tree_ok as' g xs"
  unfolding tree_ok_def u
proof (intro conjI ballI impI l)
  have nb: "node as (disk f) P \<noteq> b" if "P \<in> places" for P
    using tree_okD(2) [OF T that] b(1) by (auto simp: usable_def)
  fix P assume P: "P \<in> places" "node as' (disk g) P \<noteq> 0"
  have "usable f (node as' (disk g) P) \<and> node as' (disk g) P \<notin> set xs"
  proof (cases "P = X")
    case False
    then have "node as' (disk g) P = node as (disk f) P" using N [OF P(1)] by simp
    then show ?thesis using tree_okD(1,2) [OF T P(1)] P(2) by simp
  qed (use N [OF P(1)] b in simp)
  then show "usable f (node as' (disk g) P)" "node as' (disk g) P \<notin> set xs" by simp_all
  fix Q assume Q: "Q \<in> places" "node as' (disk g) Q = node as' (disk g) P"
  consider "P = X" "Q = X" | "P = X" "Q \<noteq> X" | "P \<noteq> X" "Q = X" | "P \<noteq> X" "Q \<noteq> X" by blast
  then show "Q = P"
  proof cases
    case 2
    then have "node as (disk f) Q = b" using N [OF P(1)] N [OF Q(1)] Q(2) by simp
    then show ?thesis using nb [OF Q(1)] by simp
  next
    case 3
    then have "node as (disk f) P = b" using N [OF P(1)] N [OF Q(1)] Q(2) by simp
    then show ?thesis using nb [OF P(1)] by simp
  next
    case 4
    then have e: "node as (disk f) Q = node as (disk f) P" "node as (disk f) P \<noteq> 0" using N [OF P(1)] N [OF Q(1)] Q(2) P(2) by simp_all
    show ?thesis by (rule tree_okD(3) [OF T P(1) e(2) Q(1) e(1)])
  qed simp
qed

lemma enter_top:
  assumes T: "tree_ok as f (b # xs)" and s: "s < NADDR" "as ! s = 0" and b: "usable f b" "b \<notin> set xs"
    and d: "disk g = (disk f)(b := (\<lambda>_. 0))" and u: "usable g = usable f"
  defines "as' \<equiv> as[s := b]"
  shows "Q \<in> places \<Longrightarrow> node as' (disk g) Q = (if Q = (s, []) then b else node as (disk f) Q)" "tree_ok as' g xs"
proof -
  have nb: "node as (disk f) P \<noteq> b" if "P \<in> places" for P
  proof
    assume h: "node as (disk f) P = b"
    moreover have "b \<noteq> 0" using b(1) by (simp add: usable_def)
    ultimately show False using tree_okD(2) [OF T that] by simp
  qed
  have len: "length as = NADDR" using T by (simp add: tree_ok_def)
  have N: "node as' (disk g) Q = (if Q = (s, []) then b else node as (disk f) Q)" if Q: "Q \<in> places" for Q
  proof (cases Q)
    case (Pair t q)
    show ?thesis
    proof (cases "t = s")
      case True
      then have "node as' (disk g) Q = walk (disk g) b q" using Pair s len by (simp add: as'_def)
      then show ?thesis using walk_zero [of "disk g" b q] d s(2) True Pair by simp
    next
      case False
      have "walk (disk g) (as ! t) q = walk (disk f) (as ! t) q"
      proof (rule walk_cong)
        fix r j v assume "q = r @ j # v"
        then have "(t, r) \<in> places" using Q Pair places_prefix by blast
        then have "walk (disk f) (as ! t) r \<noteq> b" using nb [of "(t, r)"] by simp
        then show "rd32 (disk g (walk (disk f) (as ! t) r)) (4 * j) = rd32 (disk f (walk (disk f) (as ! t) r)) (4 * j)" by (simp add: d)
      qed
      then show ?thesis using False Pair by (simp add: as'_def)
    qed
  qed
  show "Q \<in> places \<Longrightarrow> node as' (disk g) Q = (if Q = (s, []) then b else node as (disk f) Q)" using N by blast
  show "tree_ok as' g xs" by (rule tree_ok_add [OF T b u _ N]) (simp add: as'_def len)
qed

lemma enter_below:
  assumes T: "tree_ok as f (b # xs)" and P: "(s, p @ [i]) \<in> places" "node as (disk f) (s, p) = a" "a \<noteq> 0" "node as (disk f) (s, p @ [i]) = 0"
    and b: "usable f b" "b \<notin> set xs"
    and d: "disk g = (disk f)(b := (\<lambda>_. 0), a := wr32 (disk f a) (4 * i) b)" and u: "usable g = usable f"
  shows "Q \<in> places \<Longrightarrow> node as (disk g) Q = (if Q = (s, p @ [i]) then b else node as (disk f) Q)" "tree_ok as g xs"
proof -
  have b0: "b \<noteq> 0" using b(1) by (simp add: usable_def)
  have nb: "node as (disk f) P \<noteq> b" if "P \<in> places" for P
    using tree_okD(2) [OF T that] b0 by (cases "node as (disk f) P = 0") auto
  have sp: "(s, p) \<in> places" using P(1) places_prefix by blast
  then have ab: "a \<noteq> b" using nb P(2) by blast
  have only: "Q = (s, p)" if "Q \<in> places" "node as (disk f) Q = a" for Q
  proof (rule tree_okD(3) [OF T sp _ that(1)])
    show "node as (disk f) (s, p) \<noteq> 0" "node as (disk f) Q = node as (disk f) (s, p)" unfolding P(2) by (rule P(3), rule that(2))
  qed
  have rd: "rd32 (disk g c) (4 * j) = (if c = a \<and> j = i then b else rd32 (disk f c) (4 * j))" if "c \<noteq> b" for c j
  proof (cases "c = a")
    case True
    have "4 * j + 3 < 4 * i \<or> 4 * i + 3 < 4 * j" if "j \<noteq> i" using that by arith
    then show ?thesis using True by (auto simp: d rd32_wr32 rd32_other)
  qed (use that in \<open>simp add: d\<close>)
  have N: "node as (disk g) Q = (if Q = (s, p @ [i]) then b else node as (disk f) Q)" if Q: "Q \<in> places" for Q
  proof (cases Q)
    case (Pair t q)
    have same: "walk (disk g) (as ! t) q' = walk (disk f) (as ! t) q'"
      if "(t, q') \<in> places" "\<And>v. \<not> (t = s \<and> q' = p @ i # v)" for q'
    proof (rule walk_cong)
      fix r j v assume r: "q' = r @ j # v" "walk (disk f) (as ! t) r \<noteq> 0"
      then have tr: "(t, r) \<in> places" using that(1) places_prefix by blast
      let ?c = "walk (disk f) (as ! t) r"
      have "\<not> (?c = a \<and> j = i)" using only [OF tr] that(2) r(1) by auto
      moreover have "?c \<noteq> b" using nb [OF tr] by simp
      ultimately show "rd32 (disk g ?c) (4 * j) = rd32 (disk f ?c) (4 * j)" using rd by auto
    qed
    show ?thesis
    proof (cases "t = s \<and> (\<exists>v. q = p @ i # v)")
      case True
      then obtain v where v: "t = s" "q = p @ [i] @ v" by auto
      have "walk (disk g) (as ! s) p = a" using same [of p] v sp P(2) by simp
      then have w: "walk (disk g) (as ! s) (p @ [i]) = b" using P(3) rd [OF ab] by (simp add: walk_snoc)
      have "disk g b = (\<lambda>_. 0)" using ab by (simp add: d)
      then have "walk (disk g) (as ! s) q = (if v = [] then b else 0)"
        unfolding v(2) append_assoc [symmetric] walk_append [of _ _ "p @ [i]"] w by (rule walk_zero)
      moreover have "walk (disk f) (as ! s) q = 0"
        using P(4) unfolding v(2) append_assoc [symmetric] walk_append [of _ _ "p @ [i]"] by simp
      ultimately show ?thesis using v Pair by simp
    next
      case False
      then show ?thesis using same [of q] Q Pair by auto
    qed
  qed
  show "Q \<in> places \<Longrightarrow> node as (disk g) Q = (if Q = (s, p @ [i]) then b else node as (disk f) Q)" using N by blast
  show "tree_ok as g xs" by (rule tree_ok_add [OF T b u _ N]) (use T in \<open>simp add: tree_ok_def\<close>)
qed

text \<open>The path of indices \<open>bmap\<close> follows.\<close>

fun bpath :: "u32 \<Rightarrow> nat \<Rightarrow> nat list" where
  "bpath bn 0 = []"
| "bpath bn (Suc k) = unat (drop_bit (8 * k) bn AND 255) # bpath bn k"

lemma index_256: "unat (w AND 255 :: u32) < 256"
proof -
  have "w AND 255 = take_bit 8 w" by (simp add: take_bit_eq_mask mask_eq_exp_minus_1)
  then show ?thesis by (simp add: unsigned_take_bit_eq take_bit_nat_less_exp [of 8, simplified])
qed

lemma fs_free_disk:
  assumes "fs_free f xs" "c \<notin> set xs" shows "fs_free (f\<lparr>disk := (disk f)(c := v)\<rparr>) xs"
proof -
  have "flist ((disk f)(c := v)) (s_free (sb f)) (unat (s_nfree (sb f))) xs"
    by (rule flist_cong [of "disk f"]) (use assms in \<open>auto simp: fs_free_def\<close>)
  then show ?thesis using assms(1) by (auto simp: fs_free_def usable_def)
qed

lemma usable_disk [simp]: "usable (f\<lparr>disk := d\<rparr>) = usable f"
  by (rule usable_cong) simp_all

lemma tree_ok_cong: "tree_ok as f xs \<Longrightarrow> disk g = disk f \<Longrightarrow> usable g = usable f \<Longrightarrow> tree_ok as g xs"
  by (simp add: tree_ok_def)

text \<open>Block numbers survive the conversion to those of the disk driver.\<close>

definition small_dev :: "fs \<Rightarrow> bool" where
  "small_dev f \<longleftrightarrow> (\<forall>b. usable f b \<longrightarrow> ptol (ltop b) = b)"

lemma new_block_some:
  assumes "fs_free f (b # xs)" "small_dev f"
  obtains t where "new_block f = (Blk b, t)" "fs_free t xs" "usable t = usable f" "disk t = (disk f)(b := (\<lambda>_. 0))"
proof -
  have "usable f b" using assms(1) by (simp add: fs_free_def)
  then have "ptol (ltop b) = b" using assms(2) by (simp add: small_dev_def)
  with blk.get_law [OF assms(1)] that show thesis by (auto simp: new_block_def)
qed

lemma new_block_none:
  assumes "fs_free f []"
  obtains t where "new_block f = (Bad ENOSPC, t)" "fs_free t []" "usable t = usable f" "disk t = disk f"
  using blk.get_none [OF assms] that by (auto simp: new_block_def)

text \<open>What a call may change: places on the path to \<open>P\<close> that had no block, and the contents of the
  blocks allocated and of the blocks of indices.\<close>

definition grown :: "u32 list \<Rightarrow> fs \<Rightarrow> u32 list \<Rightarrow> nat \<times> nat list \<Rightarrow> u32 list \<Rightarrow> fs \<Rightarrow> u32 list \<Rightarrow> bool" where
  "grown as f xs P as' f' xs' \<longleftrightarrow> tree_ok as' f' xs' \<and> fs_free f' xs' \<and> usable f' = usable f \<and> set xs' \<subseteq> set xs \<and>
     (\<forall>Q \<in> places. node as' (disk f') Q \<noteq> node as (disk f) Q \<longrightarrow> node as (disk f) Q = 0 \<and> fst Q = fst P \<and> (\<exists>t. snd P = snd Q @ t) \<and>
        node as' (disk f') Q \<in> set xs) \<and>
     (\<forall>c. c \<notin> set xs \<and> (\<forall>Q \<in> places. \<not> leaf Q \<longrightarrow> node as (disk f) Q \<noteq> c) \<longrightarrow> disk f' c = disk f c) \<and>
     (\<forall>c. c \<in> set xs \<and> c \<notin> set xs' \<and> (\<forall>Q \<in> places. \<not> leaf Q \<longrightarrow> node as' (disk f') Q \<noteq> c) \<longrightarrow> disk f' c = (\<lambda>_. 0))"

lemma grown_refl: "tree_ok as f xs \<Longrightarrow> fs_free f xs \<Longrightarrow> disk g = disk f \<Longrightarrow> usable g = usable f \<Longrightarrow> fs_free g xs \<Longrightarrow> grown as f xs P as g xs"
  by (simp add: grown_def tree_ok_cong) blast

lemma grownD:
  assumes "grown as f xs P as' f' xs'"
  shows "tree_ok as' f' xs'" "fs_free f' xs'" "usable f' = usable f" "set xs' \<subseteq> set xs"
    "Q \<in> places \<Longrightarrow> node as' (disk f') Q \<noteq> node as (disk f) Q \<Longrightarrow> node as (disk f) Q = 0 \<and> fst Q = fst P \<and> (\<exists>t. snd P = snd Q @ t) \<and>
        node as' (disk f') Q \<in> set xs"
    "c \<notin> set xs \<Longrightarrow> (\<And>Q. Q \<in> places \<Longrightarrow> \<not> leaf Q \<Longrightarrow> node as (disk f) Q \<noteq> c) \<Longrightarrow> disk f' c = disk f c"
    "c \<in> set xs \<Longrightarrow> c \<notin> set xs' \<Longrightarrow> (\<And>Q. Q \<in> places \<Longrightarrow> \<not> leaf Q \<Longrightarrow> node as' (disk f') Q \<noteq> c) \<Longrightarrow> disk f' c = (\<lambda>_. 0)"
  using assms unfolding grown_def by blast+

lemma fs_free_0: "fs_free f xs \<Longrightarrow> 0 \<notin> set xs"
  by (auto simp: fs_free_def usable_def)

lemma grown_trans:
  assumes 1: "grown as f xs X as1 g ys" and 2: "grown as1 g ys P as' h zs" and X: "fst X = fst P" "snd P = snd X @ t" and f0: "0 \<notin> set xs"
  shows "grown as f xs P as' h zs"
proof -
  note A = grownD [OF 1] and B = grownD [OF 2]
  have N: "node as (disk f) Q = 0 \<and> fst Q = fst P \<and> (\<exists>t. snd P = snd Q @ t) \<and> node as' (disk h) Q \<in> set xs"
    if Q: "Q \<in> places" "node as' (disk h) Q \<noteq> node as (disk f) Q" for Q
  proof (cases "node as' (disk h) Q = node as1 (disk g) Q")
    case True
    then have "node as1 (disk g) Q \<noteq> node as (disk f) Q" using Q(2) by simp
    from A(5) [OF Q(1) this] show ?thesis using X True by auto
  next
    case False
    have b: "node as1 (disk g) Q = 0 \<and> fst Q = fst P \<and> (\<exists>t. snd P = snd Q @ t) \<and> node as' (disk h) Q \<in> set ys"
      by (rule B(5) [OF Q(1) False])
    have "node as (disk f) Q = 0"
    proof (rule ccontr)
      assume "node as (disk f) Q \<noteq> 0"
      then have "node as1 (disk g) Q \<noteq> node as (disk f) Q" using b by simp
      from A(5) [OF Q(1) this] show False using \<open>node as (disk f) Q \<noteq> 0\<close> by simp
    qed
    then show ?thesis using b A(4) by blast
  qed
  have D: "disk h c = disk f c" if c: "c \<notin> set xs" "\<And>Q. Q \<in> places \<Longrightarrow> \<not> leaf Q \<Longrightarrow> node as (disk f) Q \<noteq> c" for c
  proof -
    have "node as1 (disk g) Q \<noteq> c" if Q: "Q \<in> places" "\<not> leaf Q" for Q
    proof (cases "node as1 (disk g) Q = node as (disk f) Q")
      case False
      then show ?thesis using A(5) [OF Q(1) False] c(1) by auto
    qed (use c(2) [OF Q] in simp)
    moreover have "c \<notin> set ys" using c(1) A(4) by blast
    ultimately have "disk h c = disk g c" by (intro B(6)) auto
    then show ?thesis using A(6) [OF c] by simp
  qed
  have Z: "disk h c = (\<lambda>_. 0)" if c: "c \<in> set xs" "c \<notin> set zs" "\<And>Q. Q \<in> places \<Longrightarrow> \<not> leaf Q \<Longrightarrow> node as' (disk h) Q \<noteq> c" for c
  proof (cases "c \<in> set ys")
    case True
    then show ?thesis using B(7) [OF _ c(2,3)] by simp
  next
    case False
    have g: "node as1 (disk g) Q \<noteq> c" if Q: "Q \<in> places" "\<not> leaf Q" for Q
    proof (cases "node as' (disk h) Q = node as1 (disk g) Q")
      case ne: False
      have "c \<noteq> 0" using c(1) f0 by auto
      then show ?thesis using B(5) [OF Q(1) ne] by auto
    qed (use c(3) [OF Q] in simp)
    have "disk h c = disk g c" by (rule B(6) [OF False g])
    then show ?thesis using A(7) [OF c(1) False g] by simp
  qed
  show ?thesis unfolding grown_def
  proof (intro conjI ballI allI impI)
    show "tree_ok as' h zs" "fs_free h zs" by (fact B)+
    show "usable h = usable f" "set zs \<subseteq> set xs" using A(3,4) B(3,4) by auto
  qed (use N D Z in blast)+
qed

lemma bmap_walk_read:
  assumes "tree_ok as f xs" "(s, p) \<in> places" "node as (disk f) (s, p) = nb" "nb \<noteq> 0" "length p + k \<le> s - 9"
  shows "\<exists>ap'. bmap_walk True bn k nb ap f =
    (if node as (disk f) (s, p @ bpath bn k) = 0 then Hole else Blk (node as (disk f) (s, p @ bpath bn k)), ap', f)"
  using assms
proof (induction k arbitrary: p nb ap)
  case (Suc k)
  let ?i = "unat (drop_bit (8 * k) bn AND 255)"
  have u: "\<not> io_err f nb" using tree_okD(1) [OF Suc.prems(1,2)] Suc.prems(3,4) by (auto simp: usable_def)
  have X: "(s, p @ [?i]) \<in> places" using Suc.prems(2,5) index_256 by (auto simp: places_def)
  have x: "node as (disk f) (s, p @ [?i]) = rd32 (disk f nb) (4 * ?i)" using Suc.prems(3,4) by (simp add: walk_snoc)
  show ?case
  proof (cases "rd32 (disk f nb) (4 * ?i) = 0")
    case True
    then have "node as (disk f) (s, p @ bpath bn (Suc k)) = 0" using Suc.prems(3,4) by (simp add: walk_append)
    then show ?thesis using True u by (simp add: Let_def)
  next
    case False
    have "length (p @ [?i]) + k \<le> s - 9" using Suc.prems(5) by simp
    from Suc.IH [OF Suc.prems(1) X x False this, of "(nb, ?i)"] obtain ap' where
      "bmap_walk True bn k (rd32 (disk f nb) (4 * ?i)) (nb, ?i) f =
        (if node as (disk f) (s, (p @ [?i]) @ bpath bn k) = 0 then Hole else Blk (node as (disk f) (s, (p @ [?i]) @ bpath bn k)), ap', f)" by blast
    then show ?thesis using u False by (simp add: Let_def del: node.simps)
  qed
qed auto

text \<open>Below a missing block everything is missing.\<close>

lemma node_none: "node as d (s, p) = 0 \<Longrightarrow> node as d (s, p @ q) = 0"
  by (simp add: walk_append walk_0)

lemma bmap_walk_write:
  assumes "tree_ok as f xs" "fs_free f xs" "small_dev f" "(s, p) \<in> places" "node as (disk f) (s, p) = nb" "nb \<noteq> 0" "length p + k \<le> s - 9"
  shows "\<exists>r ap' f' ys. bmap_walk False bn k nb ap f = (r, ap', f') \<and> grown as f xs (s, p @ bpath bn k) as f' ys \<and>
    (case r of Blk b \<Rightarrow> b \<noteq> 0 \<and> node as (disk f') (s, p @ bpath bn k) = b
     | Bad e \<Rightarrow> e = ENOSPC \<and> ys = [] \<and> node as (disk f') (s, p @ bpath bn k) = 0 | Hole \<Rightarrow> False)"
  using assms
proof (induction k arbitrary: p nb ap f xs)
  case 0
  then show ?case using grown_refl [OF 0(1,2), of f "(s, p)"] by auto
next
  case (Suc k)
  let ?i = "unat (drop_bit (8 * k) bn AND 255)" and ?P = "(s, p @ bpath bn (Suc k))"
  have P: "?P = (s, (p @ [?i]) @ bpath bn k)" by simp
  have u: "\<not> io_err f nb" using tree_okD(1) [OF Suc.prems(1,4)] Suc.prems(5,6) by (auto simp: usable_def)
  have X: "(s, p @ [?i]) \<in> places" using Suc.prems(4,7) index_256 by (auto simp: places_def)
  have x: "node as (disk f) (s, p @ [?i]) = rd32 (disk f nb) (4 * ?i)" using Suc.prems(5,6) by (simp add: walk_snoc)
  have l: "length (p @ [?i]) + k \<le> s - 9" using Suc.prems(7) by simp
  have nl: "\<not> leaf (s, p)" using Suc.prems(7) by (simp add: leaf_def)
  show ?case
  proof (cases "rd32 (disk f nb) (4 * ?i) = 0")
    case False
    have e: "bmap_walk False bn (Suc k) nb ap f = bmap_walk False bn k (rd32 (disk f nb) (4 * ?i)) (nb, ?i) f"
      using False u by (simp add: Let_def)
    show ?thesis unfolding e P by (rule Suc.IH [OF Suc.prems(1-3) X x False l])
  next
    case zero: True
    show ?thesis
    proof (cases xs)
      case Nil
      obtain t where t: "new_block f = (Bad ENOSPC, t)" "fs_free t []" "usable t = usable f" "disk t = disk f"
        using new_block_none Suc.prems(2) Nil by blast
      have "bmap_walk False bn (Suc k) nb ap f = (Bad ENOSPC, ap, t)" using zero u t(1) by (simp add: Let_def)
      moreover have "grown as f xs ?P as t []" using grown_refl [OF Suc.prems(1,2) t(4,3), of ?P] t(2) Nil by simp
      moreover have "node as (disk t) ?P = 0" unfolding P by (rule node_none) (use x zero t(4) in simp)
      ultimately show ?thesis by auto
    next
      case (Cons b ys)
      obtain t where t: "new_block f = (Blk b, t)" "fs_free t ys" "usable t = usable f" "disk t = (disk f)(b := (\<lambda>_. 0))"
        using new_block_some [of f b ys] Suc.prems(2,3) Cons by blast
      have b: "usable f b" "b \<notin> set ys" "b \<noteq> 0" using Suc.prems(2) Cons by (auto simp: fs_free_def usable_def)
      have nbb: "nb \<noteq> b" "nb \<notin> set ys" using tree_okD(2) [OF Suc.prems(1,4)] Suc.prems(5,6) Cons by auto
      let ?g = "t\<lparr>disk := (disk t)(nb := wr32 (disk t nb) (4 * ?i) b)\<rparr>"
      have dg: "disk ?g = (disk f)(b := (\<lambda>_. 0), nb := wr32 (disk f nb) (4 * ?i) b)" using t(4) nbb by simp
      have ug: "usable ?g = usable f" using t(3) by simp
      have z: "node as (disk f) (s, p @ [?i]) = 0" using x zero by simp
      note E = enter_below [OF Suc.prems(1) [unfolded Cons] X Suc.prems(5,6) z b(1,2) dg ug]
      have G: "grown as f xs (s, p @ [?i]) as ?g ys" unfolding grown_def
      proof (intro conjI ballI impI allI)
        show "tree_ok as ?g ys" by (rule E(2))
        show "fs_free ?g ys" by (rule fs_free_disk [OF t(2) nbb(2)])
        show "usable ?g = usable f" by (rule ug)
        show "set ys \<subseteq> set xs" using Cons by auto
        fix Q assume Q: "Q \<in> places" "node as (disk ?g) Q \<noteq> node as (disk f) Q"
        then have q: "Q = (s, p @ [?i])" "node as (disk ?g) Q = b" using E(1) [OF Q(1)] by (auto simp del: node.simps split: if_splits)
        show "node as (disk f) Q = 0" unfolding q(1) by (rule z)
        show "node as (disk ?g) Q \<in> set xs" unfolding q(2) using Cons by simp
        show "fst Q = fst (s, p @ [?i])" "\<exists>t. snd (s, p @ [?i]) = snd Q @ t" using q(1) by simp_all
      next
        fix c assume c: "c \<notin> set xs \<and> (\<forall>Q \<in> places. \<not> leaf Q \<longrightarrow> node as (disk f) Q \<noteq> c)"
        then have "c \<noteq> nb" "c \<noteq> b" using nl Suc.prems(4,5) Cons by auto
        then show "disk ?g c = disk f c" by (simp add: dg)
      next
        fix c assume "c \<in> set xs \<and> c \<notin> set ys \<and> (\<forall>Q \<in> places. \<not> leaf Q \<longrightarrow> node as (disk ?g) Q \<noteq> c)"
        then have "c = b" using Cons by auto
        then show "disk ?g c = (\<lambda>_. 0)" unfolding dg using nbb(1) by simp
      qed
      have sd: "small_dev ?g" using Suc.prems(3) ug by (simp add: small_dev_def)
      have xb: "node as (disk ?g) (s, p @ [?i]) = b" using E(1) [OF X] by simp
      have e: "bmap_walk False bn (Suc k) nb ap f = bmap_walk False bn k b (nb, ?i) ?g"
        using zero u t(1) by (simp add: Let_def)
      from Suc.IH [OF E(2) grownD(2) [OF G] sd X xb b(3) l, of "(nb, ?i)"] obtain r ap' f' zs where
        R: "bmap_walk False bn k b (nb, ?i) ?g = (r, ap', f')" "grown as ?g ys (s, (p @ [?i]) @ bpath bn k) as f' zs"
          "case r of Blk b \<Rightarrow> b \<noteq> 0 \<and> node as (disk f') (s, (p @ [?i]) @ bpath bn k) = b
           | Bad e \<Rightarrow> e = ENOSPC \<and> zs = [] \<and> node as (disk f') (s, (p @ [?i]) @ bpath bn k) = 0 | Hole \<Rightarrow> False"
        by blast
      have "grown as f xs (s, (p @ [?i]) @ bpath bn k) as f' zs"
        by (rule grown_trans [OF G R(2), of "bpath bn k"]) (use fs_free_0 [OF Suc.prems(2)] in simp_all)
      then show ?thesis unfolding e P using R(1,3) by blast
    qed
  qed
qed

text \<open>The inode's own addresses.\<close>

lemma bmap_top_read: "bmap_top True i ip f = (if i_addr ip ! i = 0 then Hole else Blk (i_addr ip ! i), ip, f)"
  by (simp add: bmap_top_def Let_def)

lemma bmap_top_write:
  assumes "tree_ok (i_addr ip) f xs" "fs_free f xs" "small_dev f" "s < NADDR"
  shows "\<exists>r ip' f' ys. bmap_top False s ip f = (r, ip', f') \<and> grown (i_addr ip) f xs (s, p) (i_addr ip') f' ys \<and> i_mode ip' = i_mode ip \<and>
    (case r of Blk b \<Rightarrow> b \<noteq> 0 \<and> i_addr ip' ! s = b | Bad e \<Rightarrow> e = ENOSPC \<and> ys = [] \<and> i_addr ip' ! s = 0 | Hole \<Rightarrow> False)"
proof (cases "i_addr ip ! s = 0")
  case False
  then show ?thesis using grown_refl [OF assms(1,2), of f "(s, p)"] assms(2) by (auto simp: bmap_top_def Let_def)
next
  case zero: True
  show ?thesis
  proof (cases xs)
    case Nil
    obtain t where t: "new_block f = (Bad ENOSPC, t)" "fs_free t []" "usable t = usable f" "disk t = disk f"
      using new_block_none assms(2) Nil by blast
    have "grown (i_addr ip) f xs (s, p) (i_addr ip) t []" using grown_refl [OF assms(1,2) t(4,3), of "(s, p)"] t(2) Nil by simp
    then show ?thesis using zero t(1) by (auto simp: bmap_top_def Let_def)
  next
    case (Cons b ys)
    obtain t where t: "new_block f = (Blk b, t)" "fs_free t ys" "usable t = usable f" "disk t = (disk f)(b := (\<lambda>_. 0))"
      using new_block_some [of f b ys] assms(2,3) Cons by blast
    have b: "usable f b" "b \<notin> set ys" "b \<noteq> 0" using assms(2) Cons by (auto simp: fs_free_def usable_def)
    let ?as = "(i_addr ip)[s := b]"
    note E = enter_top [OF assms(1) [unfolded Cons] assms(4) zero b(1,2) t(4,3)]
    have len: "length (i_addr ip) = NADDR" using assms(1) by (simp add: tree_ok_def)
    have "grown (i_addr ip) f xs (s, p) ?as t ys" unfolding grown_def
    proof (intro conjI ballI impI allI)
      show "tree_ok ?as t ys" "fs_free t ys" "usable t = usable f" by (fact E(2) t(2,3))+
      show "set ys \<subseteq> set xs" using Cons by auto
      fix Q assume Q: "Q \<in> places" "node ?as (disk t) Q \<noteq> node (i_addr ip) (disk f) Q"
      then have q: "Q = (s, [])" "node ?as (disk t) Q = b" using E(1) [OF Q(1)] by (auto simp del: node.simps split: if_splits)
      show "node (i_addr ip) (disk f) Q = 0" unfolding q(1) using zero by simp
      show "node ?as (disk t) Q \<in> set xs" unfolding q(2) using Cons by simp
      show "fst Q = fst (s, p)" "\<exists>t. snd (s, p) = snd Q @ t" using q(1) by simp_all
    next
      fix c assume "c \<notin> set xs \<and> (\<forall>Q \<in> places. \<not> leaf Q \<longrightarrow> node (i_addr ip) (disk f) Q \<noteq> c)"
      then show "disk t c = disk f c" using Cons by (auto simp: t(4))
    next
      fix c assume "c \<in> set xs \<and> c \<notin> set ys \<and> (\<forall>Q \<in> places. \<not> leaf Q \<longrightarrow> node ?as (disk t) Q \<noteq> c)"
      then show "disk t c = (\<lambda>_. 0)" using Cons by (auto simp: t(4))
    qed
    then show ?thesis using zero t(1) b(3) assms(4) len by (auto simp: bmap_top_def Let_def)
  qed
qed

section \<open>Offsets and places\<close>

lemma sint32: "unat (w :: u32) < 2 ^ 31 \<Longrightarrow> sint w = int (unat w)"
  by (simp add: sint_uint signed_take_bit_int_eq_self uint_nat del: of_nat_unat)

lemma sless_small32: "unat (x :: u32) < 2 ^ 31 \<Longrightarrow> unat y < 2 ^ 31 \<Longrightarrow> x <s y \<longleftrightarrow> unat x < unat y"
  by (simp only: word_sless_alt sint32 of_nat_less_iff)

lemma sless0_u32: "(w :: u32) <s 0 \<longleftrightarrow> 2 ^ 31 \<le> unat w"
proof (cases "unat w < 2 ^ 31")
  case True
  then show ?thesis using sless_small32 [OF True, of 0] by simp
next
  case False
  have "sint w = uint w - 2 ^ 32"
  proof -
    have u: "2 ^ 31 \<le> uint w" "uint w < 2 ^ 32" using False uint_lt2p [of w] by (simp_all add: uint_nat del: of_nat_unat)
    have "(uint w - 2147483648 + 4294967296) mod 4294967296 = (uint w - 2147483648) mod 4294967296" by (rule mod_add_self2)
    then have "sint w = signed_take_bit 31 (uint w - 2 ^ 32)"
      by (simp add: sint_uint signed_take_bit_eq_take_bit_shift take_bit_eq_mod add.commute)
    then show ?thesis using u by (simp add: signed_take_bit_int_eq_self)
  qed
  then show ?thesis using False uint_lt2p [of w] by (simp add: word_sless_alt)
qed

lemma unat_byte_at: "unat (drop_bit k w AND 255 :: u32) = unat w div 2 ^ k mod 256"
proof -
  have "drop_bit k w AND 255 = take_bit 8 (drop_bit k w)" by (simp add: take_bit_eq_mask mask_eq_exp_minus_1)
  then have "unat (drop_bit k w AND 255 :: u32) = take_bit 8 (drop_bit k (unat w))"
    by (simp only: unsigned_take_bit_eq unat_drop_bit_eq)
  then show ?thesis by (simp add: take_bit_eq_mod drop_bit_eq_div)
qed

lemma bpath_levels:
  "bpath w 1 = [unat (w AND 255)]" "bpath w 2 = [unat (drop_bit 8 w AND 255), unat (w AND 255)]"
  "bpath w 3 = [unat (drop_bit 16 w AND 255), unat (drop_bit 8 w AND 255), unat (w AND 255)]"
  by (simp_all add: numeral_3_eq_3 numeral_2_eq_2)

lemma unat_off_block: "\<not> off <s (0 :: u32) \<Longrightarrow> unat (signed_drop_bit 10 off) = unat off div 1024"
proof -
  assume "\<not> off <s 0"
  then have u: "unat off < 2 ^ 31" by (simp add: sless0_u32)
  then have "sint (signed_drop_bit 10 off) = int (unat off div 1024)"
    by (simp only: sint_signed_drop_bit_eq sint32 drop_bit_eq_div zdiv_int) simp
  then have "word_of_int (sint (signed_drop_bit 10 off)) = (word_of_int (int (unat off div 1024)) :: u32)" by (rule arg_cong)
  then have "signed_drop_bit 10 off = word_of_int (int (unat off div 1024))" by simp
  then show ?thesis using u by (simp add: unat_of_nat take_bit_nat_eq_self)
qed

lemma bmap_level_place:
  assumes "10 \<le> unat bn" "unat bn < 2097152"
  obtains j b where "bmap_level 3 1 (bn - 10) = Some (j, b)" "place (unat bn) = Some (13 - j, bpath b (4 - j))" "0 < j" "j \<le> 3"
proof -
  let ?m = "unat bn - 10"
  have m: "unat (bn - 10) = ?m" using assms by (simp add: unat_minus_small word_le_nat_alt)
  have d: "bmap_level 3 1 (bn - 10) = (if bn - 10 <s 256 then Some (3, bn - 10)
      else if bn - 10 - 256 <s 65536 then Some (2, bn - 10 - 256)
      else if bn - 10 - 256 - 65536 <s 16777216 then Some (1, bn - 10 - 256 - 65536) else None)"
    by (simp add: numeral_3_eq_3)
  have c1: "bn - 10 <s 256 \<longleftrightarrow> ?m < 256" using assms m by (subst sless_small32) simp_all
  show thesis
  proof (cases "?m < 256")
    case True
    then have "place (unat bn) = Some (13 - 3, bpath (bn - 10) (4 - 3))"
      using assms m unat_byte_at [of 0 "bn - 10"] by (simp add: place_def)
    with d c1 True that [of 3 "bn - 10"] show thesis by simp
  next
    case F1: False
    have m2: "unat (bn - 10 - 256) = ?m - 256" using F1 m by (simp add: unat_minus_small word_le_nat_alt)
    have c2: "bn - 10 - 256 <s 65536 \<longleftrightarrow> ?m - 256 < 65536" using assms m2 by (subst sless_small32) simp_all
    show thesis
    proof (cases "?m - 256 < 65536")
      case True
      have "bpath (bn - 10 - 256) (4 - 2) = [(?m - 256) div 256, (?m - 256) mod 256]"
        using True m2 unat_byte_at [of 8 "bn - 10 - 256"] unat_byte_at [of 0 "bn - 10 - 256"] by (simp add: bpath_levels)
      then have "place (unat bn) = Some (13 - 2, bpath (bn - 10 - 256) (4 - 2))" using assms F1 True by (simp add: place_def)
      with d c1 c2 F1 True that [of 2 "bn - 10 - 256"] show thesis by simp
    next
      case F2: False
      have m3: "unat (bn - 10 - 256 - 65536) = ?m - 256 - 65536" using F2 m2 by (simp add: unat_minus_small word_le_nat_alt)
      have c3: "bn - 10 - 256 - 65536 <s 16777216" using assms m3 by (subst sless_small32) simp_all
      have "bpath (bn - 10 - 256 - 65536) (4 - 1) = [(?m - 65792) div 65536, (?m - 65792) div 256 mod 256, (?m - 65792) mod 256]"
        using assms m3 unat_byte_at [of 16 "bn - 10 - 256 - 65536"] unat_byte_at [of 8 "bn - 10 - 256 - 65536"]
          unat_byte_at [of 0 "bn - 10 - 256 - 65536"] by (simp add: bpath_levels)
      then have "place (unat bn) = Some (13 - 1, bpath (bn - 10 - 256 - 65536) (4 - 1))" using assms F1 F2 by (simp add: place_def)
      with d c1 c2 c3 F1 F2 that [of 1 "bn - 10 - 256 - 65536"] show thesis by simp
    qed
  qed
qed

lemma place_leaf: "place n = Some P \<Longrightarrow> P \<in> places \<and> leaf P"
  by (auto simp: place_def places_def leaf_def split: if_splits)

lemma place_inj: "place m = Some P \<Longrightarrow> place n = Some P \<Longrightarrow> m = n"
proof -
  have a: "x = y" if "x div 256 = y div 256" "x mod 256 = y mod 256" for x y :: nat
    using that by (metis div_mult_mod_eq)
  have b: "x = y" if "x div 65536 = y div 65536" "x div 256 mod 256 = y div 256 mod 256" "x mod 256 = y mod 256" for x y :: nat
  proof -
    have "x div 256 div 256 = y div 256 div 256" using that(1) by (simp add: div_mult2_eq [symmetric])
    then show ?thesis using that(2,3) a by metis
  qed
  assume "place m = Some P" "place n = Some P"
  then show ?thesis by (auto simp: place_def split: if_splits dest!: a b)
qed

section \<open>The whole of bmap\<close>

definition file_ok :: "inode \<Rightarrow> fs \<Rightarrow> u32 list \<Rightarrow> bool" where
  "file_ok ip f xs \<longleftrightarrow> tree_ok (i_addr ip) f xs \<and> fs_free f xs \<and> small_dev f \<and> i_mode ip AND IFMT \<noteq> IFBLK"

lemma off_block_bound: "\<not> off <s (0 :: u32) \<Longrightarrow> unat off div 1024 < 2097152"
  by (simp add: sless0_u32)

lemma bmap_part_write:
  assumes "\<not> u_offset u <s 0" "i_mode ip AND IFMT \<noteq> IFBLK" "\<not> ptol (u_limit u) \<le>s signed_drop_bit 10 (u_offset u)"
  obtains ra ip1 u1 where "bmap_part mnt False ip u = (None, signed_drop_bit 10 (u_offset u), ra, ip1, u1)" "i_addr ip1 = i_addr ip" "i_mode ip1 = i_mode ip"
proof -
  have "\<not> signed_drop_bit 10 (u_offset u) <s 0"
    using unat_off_block [OF assms(1)] off_block_bound [OF assms(1)] by (simp add: sless0_u32)
  then have "\<exists>ra ip1 u1. bmap_part mnt False ip u = (None, signed_drop_bit 10 (u_offset u), ra, ip1, u1) \<and> i_addr ip1 = i_addr ip \<and> i_mode ip1 = i_mode ip"
    using assms(2,3) by (simp add: bmap_part_def Let_def)
  then show thesis using that by blast
qed

text \<open>The walk to a place, by level.\<close>

lemma grown_leaf:
  assumes g: "grown as f xs P as' f' ys" and f: "fs_free f xs" and T: "tree_ok as f xs" and P: "place n = Some P"
  shows "m \<noteq> n \<Longrightarrow> file_block as' (disk f') m = file_block as (disk f) m"
    "file_block as (disk f) m \<noteq> 0 \<Longrightarrow> file_block as' (disk f') m = file_block as (disk f) m \<and> disk f' (file_block as (disk f) m) = disk f (file_block as (disk f) m)"
    "file_block as (disk f) n = 0 \<Longrightarrow> file_block as' (disk f') n \<noteq> 0 \<Longrightarrow> disk f' (file_block as' (disk f') n) = (\<lambda>_. 0)"
proof -
  note G = grownD [OF g]
  show "file_block as' (disk f') m = file_block as (disk f) m" if "m \<noteq> n"
  proof (cases "place m")
    case (Some Q)
    have q: "Q \<in> places" "leaf Q" "leaf P" using place_leaf Some P by auto
    have "node as' (disk f') Q = node as (disk f) Q"
    proof (rule ccontr)
      assume "node as' (disk f') Q \<noteq> node as (disk f) Q"
      from G(5) [OF q(1) this] obtain t where t: "fst Q = fst P" "snd P = snd Q @ t" by blast
      then have "Q = P" using q(2,3) by (cases Q; cases P) (simp add: leaf_def)
      then show False using place_inj Some P that by blast
    qed
    then show ?thesis using Some by (simp add: file_block_def)
  qed (simp add: file_block_def)
  show "file_block as' (disk f') m = file_block as (disk f) m \<and> disk f' (file_block as (disk f) m) = disk f (file_block as (disk f) m)"
    if nz: "file_block as (disk f) m \<noteq> 0"
  proof -
    obtain Q where Q: "place m = Some Q" using nz by (auto simp: file_block_def split: option.splits)
    then have q: "Q \<in> places" "leaf Q" "node as (disk f) Q \<noteq> 0" using place_leaf nz by (auto simp: file_block_def)
    have "node as' (disk f') Q = node as (disk f) Q" using G(5) [OF q(1)] q(3) by blast
    moreover have "disk f' (node as (disk f) Q) = disk f (node as (disk f) Q)"
    proof (rule G(6))
      show "node as (disk f) Q \<notin> set xs" by (rule tree_okD(2) [OF T q(1,3)])
      fix R assume "R \<in> places" "\<not> leaf R"
      then show "node as (disk f) R \<noteq> node as (disk f) Q" using tree_okD(3) [OF T q(1,3), of R] q(2) by blast
    qed
    ultimately show ?thesis using Q by (simp add: file_block_def)
  qed
  assume z: "file_block as (disk f) n = 0" and nz: "file_block as' (disk f') n \<noteq> 0"
  have p: "P \<in> places" "leaf P" using place_leaf P by auto
  have n: "node as (disk f) P = 0" "node as' (disk f') P \<noteq> 0" using z nz P by (simp_all add: file_block_def)
  have "disk f' (node as' (disk f') P) = (\<lambda>_. 0)"
  proof (rule G(7))
    show "node as' (disk f') P \<in> set xs" using G(5) [OF p(1)] n by simp
    show "node as' (disk f') P \<notin> set ys" by (rule tree_okD(2) [OF G(1) p(1) n(2)])
    fix R assume "R \<in> places" "\<not> leaf R"
    then show "node as' (disk f') R \<noteq> node as' (disk f') P" using tree_okD(3) [OF G(1) p(1) n(2), of R] p(2) by blast
  qed
  then show "disk f' (file_block as' (disk f') n) = (\<lambda>_. 0)" using P by (simp add: file_block_def)
qed

lemma bmap_write_grown:
  assumes F: "file_ok ip f xs" and off: "\<not> u_offset u <s 0" "\<not> ptol (u_limit u) \<le>s signed_drop_bit 10 (u_offset u)"
  shows "\<exists>r ip' u' f' ys P. bmap mnt False ip u f = (r, ip', u', f') \<and> i_mode ip' = i_mode ip \<and> place (unat (u_offset u) div 1024) = Some P \<and>
    grown (i_addr ip) f xs P (i_addr ip') f' ys \<and>
    (case r of Blk b \<Rightarrow> b \<noteq> 0 \<and> node (i_addr ip') (disk f') P = b
     | Bad e \<Rightarrow> e = ENOSPC \<and> ys = [] \<and> node (i_addr ip') (disk f') P = 0 | Hole \<Rightarrow> False)"
proof -
  have T: "tree_ok (i_addr ip) f xs" and f: "fs_free f xs" and sd: "small_dev f" and ty: "i_mode ip AND IFMT \<noteq> IFBLK"
    using F by (simp_all add: file_ok_def)
  obtain ra ip1 u1 where p: "bmap_part mnt False ip u = (None, signed_drop_bit 10 (u_offset u), ra, ip1, u1)"
    "i_addr ip1 = i_addr ip" "i_mode ip1 = i_mode ip"
    using bmap_part_write [OF off(1) ty off(2)] .
  let ?bn = "signed_drop_bit 10 (u_offset u)"
  have n: "unat ?bn = unat (u_offset u) div 1024" "unat ?bn < 2097152"
    using unat_off_block [OF off(1)] off_block_bound [OF off(1)] by simp_all
  have lt: "?bn <s of_nat (NADDR - 3) \<longleftrightarrow> unat ?bn < 10" using n(2) by (subst sless_small32) simp_all
  show ?thesis
  proof (cases "unat ?bn < 10")
    case True
    have pl: "place (unat (u_offset u) div 1024) = Some (unat ?bn, [])" using True n(1) by (simp add: place_def)
    have s: "unat ?bn < NADDR" using True by simp
    from bmap_top_write [of ip1, unfolded p(2), OF T f sd s, of "[]"] obtain r ip' f' ys where
      B: "bmap_top False (unat ?bn) ip1 f = (r, ip', f')" "grown (i_addr ip) f xs (unat ?bn, []) (i_addr ip') f' ys" "i_mode ip' = i_mode ip1"
      "case r of Blk b \<Rightarrow> b \<noteq> 0 \<and> i_addr ip' ! unat ?bn = b | Bad e \<Rightarrow> e = ENOSPC \<and> ys = [] \<and> i_addr ip' ! unat ?bn = 0 | Hole \<Rightarrow> False" by blast
    have "\<exists>u'. bmap mnt False ip u f = (r, ip', u', f')"
      using p(1) True lt B(1,4) by (cases r) (simp_all add: bmap_def bmap_direct_def)
    then show ?thesis using pl B(2-4) p(3) by (cases r) auto
  next
    case False
    then have ge: "10 \<le> unat ?bn" by simp
    obtain j b where j: "bmap_level 3 1 (?bn - 10) = Some (j, b)" "place (unat ?bn) = Some (13 - j, bpath b (4 - j))" "0 < j" "j \<le> 3"
      using bmap_level_place [OF ge n(2)] .
    let ?s = "13 - j" let ?P = "(?s, bpath b (4 - j))"
    have s: "?s < NADDR" using j(3) by simp
    from bmap_top_write [of ip1, unfolded p(2), OF T f sd s, of "bpath b (4 - j)"] obtain r ip' f1 ys where
      B: "bmap_top False ?s ip1 f = (r, ip', f1)" "grown (i_addr ip) f xs ?P (i_addr ip') f1 ys" "i_mode ip' = i_mode ip1"
      "case r of Blk b \<Rightarrow> b \<noteq> 0 \<and> i_addr ip' ! ?s = b | Bad e \<Rightarrow> e = ENOSPC \<and> ys = [] \<and> i_addr ip' ! ?s = 0 | Hole \<Rightarrow> False" by blast
    show ?thesis
    proof (cases r)
      case (Bad e)
      then have "bmap mnt False ip u f = (r, ip', u1, f1)" using p(1) False lt B(1) j(1) by (simp add: bmap_def bmap_indirect_def)
      moreover have "node (i_addr ip') (disk f1) ?P = 0"
        using node_none [of "i_addr ip'" "disk f1" ?s "[]" "bpath b (4 - j)"] B(4) Bad by simp
      ultimately show ?thesis using j(2) n(1) B(2-4) p(3) Bad by auto
    next
      case (Blk nb)
      have pl: "(?s, []) \<in> places" using s by (simp add: places_def)
      have nb: "node (i_addr ip') (disk f1) (?s, []) = nb" "nb \<noteq> 0" using B(4) Blk by simp_all
      have sd1: "small_dev f1" using sd grownD(3) [OF B(2)] by (simp add: small_dev_def)
      have l: "length [] + (4 - j) \<le> ?s - 9" using j(3,4) by simp
      from bmap_walk_write [OF grownD(1,2) [OF B(2)] sd1 pl nb l, of b "(0, 0)", unfolded append_Nil] obtain r2 ap f2 zs where
        W: "bmap_walk False b (4 - j) nb (0, 0) f1 = (r2, ap, f2)" "grown (i_addr ip') f1 ys ?P (i_addr ip') f2 zs"
          "case r2 of Blk c \<Rightarrow> c \<noteq> 0 \<and> node (i_addr ip') (disk f2) ?P = c
           | Bad e \<Rightarrow> e = ENOSPC \<and> zs = [] \<and> node (i_addr ip') (disk f2) ?P = 0 | Hole \<Rightarrow> False"
        by blast
      have "grown (i_addr ip) f xs ?P (i_addr ip') f2 zs"
        by (rule grown_trans [OF B(2) W(2), of "[]"]) (use fs_free_0 [OF f] in simp_all)
      moreover have "\<exists>u'. bmap mnt False ip u f = (r2, ip', u', f2)"
        using p(1) False lt B(1) j(1) W(1,3) Blk by (cases r2; cases ap) (simp_all add: bmap_def bmap_indirect_def)
      ultimately show ?thesis using j(2) n(1) W(3) p(3) B(3) by auto
    qed (use B(4) in simp)
  qed
qed

definition read_rest :: "inode \<Rightarrow> uio \<Rightarrow> nat" where
  "read_rest ip u =
     (let rem = (if i_mode ip AND IFMT = IFIFO then i_size ip else i_size ip - u_offset u) in if rem <s 0 then 0 else unat rem)"

lemma unat_mask10: "unat (w AND 1023 :: u32) = unat w mod 1024"
proof -
  have "w AND 1023 = take_bit 10 w" by (simp add: take_bit_eq_mask mask_eq_exp_minus_1)
  then have "unat (w AND 1023) = take_bit 10 (unat w)" by (simp only: unsigned_take_bit_eq)
  then show ?thesis by (simp add: take_bit_eq_mod)
qed

lemma bmap_sizes:
  "unat (1024 - bmap_off u) = 1024 - unat (u_offset u) mod 1024"
  "unat sz \<le> 1024 \<Longrightarrow> unat (bmap_rest ip u sz) = min (read_rest ip u) (unat sz)"
proof -
  have o16: "unat (bmap_off u) = unat (u_offset u) mod 1024"
    by (simp add: bmap_off_def unsigned_ucast_eq unat_mask10 take_bit_nat_eq_self)
  have "bmap_off u \<le> 1024" unfolding word_le_nat_alt o16 by (simp add: less_imp_le)
  then show "unat (1024 - bmap_off u) = 1024 - unat (u_offset u) mod 1024" by (simp add: unat_minus_small o16)
  assume sz: "unat sz \<le> 1024"
  define rem where "rem = (if i_mode ip AND IFMT = IFIFO then i_size ip else i_size ip - u_offset u)"
  define rem0 where "rem0 = (if rem <s 0 then 0 else rem)"
  have r0: "unat rem0 = read_rest ip u" by (simp add: rem0_def rem_def read_rest_def Let_def)
  have rb: "unat rem0 < 2 ^ 31" by (simp add: rem0_def sless0_u32 not_le)
  have us: "unat (ucast sz :: u32) = unat sz" using u16_lt [of sz] by (simp add: unsigned_ucast_eq take_bit_nat_eq_self)
  have cmp: "rem0 <s ucast sz \<longleftrightarrow> unat rem0 < unat sz"
    using sless_small32 [OF rb, of "ucast sz"] sz unfolding us by simp
  have e: "bmap_rest ip u sz = (if rem0 <s ucast sz then ucast rem0 else sz)" by (simp add: bmap_rest_def rem0_def rem_def Let_def)
  show "unat (bmap_rest ip u sz) = min (read_rest ip u) (unat sz)"
  proof (cases "unat rem0 < unat sz")
    case True
    then have "unat rem0 < 65536" using sz by simp
    then show ?thesis using True cmp unfolding r0 [symmetric] e by (simp add: unsigned_ucast_eq take_bit_nat_eq_self)
  qed (use cmp in \<open>simp add: e r0 [symmetric]\<close>)
qed

lemma bmap_part_read:
  assumes "\<not> u_offset u <s 0" "i_mode ip AND IFMT \<noteq> IFBLK"
  obtains ra ip1 u1 where "bmap_part mnt True ip u = (if u_pbsize u1 = 0 then Some Hole else None, signed_drop_bit 10 (u_offset u), ra, ip1, u1)"
    "i_addr ip1 = i_addr ip" "unat (u_pbsize u1) = min (read_rest ip u) (min (unat (u_count u)) (1024 - unat (u_offset u) mod 1024))"
proof -
  let ?sz = "if u_count u < 1024 - bmap_off u then u_count u else 1024 - bmap_off u"
  have sz: "unat ?sz = min (unat (u_count u)) (1024 - unat (u_offset u) mod 1024)" by (simp add: word_less_nat_alt bmap_sizes(1))
  then have "unat ?sz \<le> 1024" by simp
  note R = bmap_sizes(2) [OF this, of ip u, unfolded sz]
  have nn: "\<not> signed_drop_bit 10 (u_offset u) <s 0"
    using unat_off_block [OF assms(1)] off_block_bound [OF assms(1)] by (simp add: sless0_u32)
  have cong: "bmap_off (u\<lparr>u_rablock := a, u_pbdev := d\<rparr>) = bmap_off u" for a d by (simp add: bmap_off_def)
  have cong2: "bmap_rest ip' (u\<lparr>u_rablock := a, u_pbdev := d, u_pboff := o', u_pbsize := z'\<rparr>) z = bmap_rest ip u z"
    if "i_mode ip' = i_mode ip" "i_size ip' = i_size ip" for ip' a d o' z' z using that by (simp add: bmap_rest_def Let_def)
  let ?u1 = "u\<lparr>u_rablock := 0, u_pbdev := i_dev ip, u_pboff := bmap_off u, u_pbsize := bmap_rest ip u ?sz\<rparr>"
  have "\<exists>ra ip1. bmap_part mnt True ip u = (if bmap_rest ip u ?sz = 0 then Some Hole else None, signed_drop_bit 10 (u_offset u), ra, ip1, ?u1) \<and> i_addr ip1 = i_addr ip"
    using nn assms(2) by (simp add: bmap_part_def Let_def cong cong2)
  then show thesis using that [of ?u1] R by auto
qed

lemma bmap_read_block:
  assumes F: "file_ok ip f xs" and off: "\<not> u_offset u <s 0"
  shows "\<exists>r ip' u'. bmap mnt True ip u f = (r, ip', u', f) \<and> i_addr ip' = i_addr ip \<and>
    unat (u_pbsize u') = min (read_rest ip u) (min (unat (u_count u)) (1024 - unat (u_offset u) mod 1024)) \<and>
    r = (if u_pbsize u' = 0 \<or> file_block (i_addr ip) (disk f) (unat (u_offset u) div 1024) = 0 then Hole
         else Blk (file_block (i_addr ip) (disk f) (unat (u_offset u) div 1024)))"
proof -
  have T: "tree_ok (i_addr ip) f xs" and ty: "i_mode ip AND IFMT \<noteq> IFBLK" using F by (simp_all add: file_ok_def)
  obtain ra ip1 u1 where p: "bmap_part mnt True ip u = (if u_pbsize u1 = 0 then Some Hole else None, signed_drop_bit 10 (u_offset u), ra, ip1, u1)"
    "i_addr ip1 = i_addr ip" "unat (u_pbsize u1) = min (read_rest ip u) (min (unat (u_count u)) (1024 - unat (u_offset u) mod 1024))"
    using bmap_part_read [OF off ty] .
  let ?bn = "signed_drop_bit 10 (u_offset u)"
  have n: "unat ?bn = unat (u_offset u) div 1024" "unat ?bn < 2097152"
    using unat_off_block [OF off(1)] off_block_bound [OF off(1)] by simp_all
  have lt: "?bn <s of_nat (NADDR - 3) \<longleftrightarrow> unat ?bn < 10" using n(2) by (subst sless_small32) simp_all
  define B where "B = file_block (i_addr ip) (disk f) (unat ?bn)"
  have "\<exists>u'. bmap mnt True ip u f = (if u_pbsize u1 = 0 \<or> B = 0 then Hole else Blk B, ip1, u', f) \<and> u_pbsize u' = u_pbsize u1"
  proof (cases "u_pbsize u1 = 0")
    case True
    then show ?thesis using p(1) by (simp add: bmap_def)
  next
    case nz: False
    show ?thesis
    proof (cases "unat ?bn < 10")
      case True
      then have b: "B = i_addr ip1 ! unat ?bn" by (simp add: B_def file_block_def place_def p(2))
      have "bmap mnt True ip u f = bmap_direct True ra (unat ?bn) ip1 u1 f" using p(1) True lt nz by (simp add: bmap_def)
      then show ?thesis using nz b by (cases "B = 0") (simp_all add: bmap_direct_def bmap_top_read)
    next
      case False
      then have ge: "10 \<le> unat ?bn" by simp
      obtain j b where j: "bmap_level 3 1 (?bn - 10) = Some (j, b)" "place (unat ?bn) = Some (13 - j, bpath b (4 - j))" "0 < j" "j \<le> 3"
        using bmap_level_place [OF ge n(2)] .
      have e: "bmap mnt True ip u f = bmap_indirect True ra j b ip1 u1 f" using p(1) False lt nz j(1) by (simp add: bmap_def)
      define s where "s = 13 - j"
      define a where "a = i_addr ip ! s"
      have pl: "(s, []) \<in> places" using j(3) by (simp add: places_def s_def)
      have fb: "B = walk (disk f) a (bpath b (4 - j))" by (simp add: B_def file_block_def j(2) s_def a_def)
      have top: "bmap_top True (NADDR - j) ip1 f = (if a = 0 then Hole else Blk a, ip1, f)"
        by (simp add: bmap_top_read p(2) a_def s_def)
      show ?thesis
      proof (cases "a = 0")
        case True
        then show ?thesis unfolding e bmap_indirect_def top using fb nz by simp
      next
        case nz2: False
        have l: "length [] + (4 - j) \<le> s - 9" using j(3,4) by (simp add: s_def)
        have "node (i_addr ip) (disk f) (s, []) = a" by (simp add: a_def)
        from bmap_walk_read [OF T pl this nz2 l, of b "(0, 0)"] obtain ap i where
          W: "bmap_walk True b (4 - j) a (0, 0) f = (if B = 0 then Hole else Blk B, (ap, i), f)" by (auto simp: fb a_def)
        show ?thesis unfolding e bmap_indirect_def top using W nz nz2 by (cases "B = 0") simp_all
      qed
    qed
  qed
  then obtain u' where u': "bmap mnt True ip u f = (if u_pbsize u1 = 0 \<or> B = 0 then Hole else Blk B, ip1, u', f)" "u_pbsize u' = u_pbsize u1"
    by blast
  have b: "file_block (i_addr ip) (disk f) (unat (u_offset u) div 1024) = B" by (simp only: B_def n(1))
  show ?thesis
    by (rule exI [of _ "if u_pbsize u1 = 0 \<or> B = 0 then Hole else Blk B"], rule exI [of _ ip1], rule exI [of _ u'], unfold b u'(2))
      (intro conjI u'(1) p(2,3) refl)
qed

end
