(* ===== verification/File_Blocks.thy ===== *)
theory File_Blocks
  imports Block_Map
begin

text \<open>
  What \<open>itrunc\<close> does to the list of free blocks, and the properties of the blocks of a file.
\<close>

section \<open>What is freed\<close>

text \<open>The blocks below an indirect block in the order \<open>tloop\<close> frees them, with \<open>i\<close> entries left;
  \<open>lv\<close> more levels of indirect blocks.\<close>

function below :: "(u32 \<Rightarrow> block) \<Rightarrow> nat \<Rightarrow> nat \<Rightarrow> u32 \<Rightarrow> u32 list" where
  "below d lv 0 bn = [bn]"
| "below d lv (Suc i) bn =
     (let nb = rd32 (d bn) (4 * i)
      in (if nb = 0 then [] else if lv = 0 then [nb] else below d (lv - 1) 256 nb) @ below d lv i bn)"
  by pat_completeness auto
termination
  by (relation "measures [\<lambda>(d, lv, i, bn). lv, \<lambda>(d, lv, i, bn). i]") auto

definition levels :: "bool \<Rightarrow> bool \<Rightarrow> nat" where "levels f1 f2 = (if f1 then if f2 then 2 else 1 else 0)"

lemma below_last: "bn \<in> set (below d lv i bn)"
  by (induction i) (simp_all add: Let_def)

lemma below_cong:
  "(\<And>c. c \<in> set (below d lv i bn) \<Longrightarrow> d' c = d c) \<Longrightarrow> below d' lv i bn = below d lv i bn"
proof (induction d lv i bn rule: below.induct)
  case (2 d lv i bn)
  let ?nb = "rd32 (d bn) (4 * i)"
  have bn: "d' bn = d bn" by (rule 2(3)) (rule below_last)
  have r: "below d' lv i bn = below d lv i bn" by (rule 2(2) [OF refl]) (use 2(3) in \<open>simp add: Let_def\<close>)
  have "below d' (lv - 1) 256 ?nb = below d (lv - 1) 256 ?nb" if "?nb \<noteq> 0" "lv \<noteq> 0"
    by (rule 2(1) [OF refl that]) (use 2(3) that in \<open>simp add: Let_def\<close>)
  then show ?case using bn r by (simp add: Let_def)
qed simp

lemma tloop_frees:
  assumes "fs_free f xs" "distinct (below (disk f) (levels f1 f2) i bn)" "set (below (disk f) (levels f1 f2) i bn) \<inter> set xs = {}"
    "\<forall>b \<in> set (below (disk f) (levels f1 f2) i bn). usable f b"
  shows "tloop bn f1 f2 i f = fold free (below (disk f) (levels f1 f2) i bn) f"
  using assms
proof (induction bn f1 f2 i f arbitrary: xs rule: tloop.induct)
  case (2 bn f1 f2 i f)
  let ?lv = "levels f1 f2" let ?nb = "rd32 (disk f bn) (4 * i)" let ?A = "below (disk f) ?lv i bn"
  let ?B = "if ?nb = 0 then [] else if ?lv = 0 then [?nb] else below (disk f) (?lv - 1) 256 ?nb"
  have e: "below (disk f) ?lv (Suc i) bn = ?B @ ?A" by (simp add: Let_def)
  have D: "distinct ?A" "distinct ?B" "set ?A \<inter> set ?B = {}" "set ?A \<inter> set xs = {}" "set ?B \<inter> set xs = {}"
    "\<forall>b \<in> set ?A. usable f b" "\<forall>b \<in> set ?B. usable f b"
    using 2(6-8) unfolding e by auto
  have io: "\<not> io_err f bn" using D(6) below_last [of bn "disk f" ?lv i] by (auto simp: usable_def)
  note P = blk.put_all [OF 2(5) D(2) D(5) D(7)]
  let ?g = "fold free ?B f"
  have A: "below (disk ?g) ?lv i bn = ?A" by (rule below_cong) (use P D(3) in blast)
  have ready: "fs_free ?g (rev ?B @ xs)" "distinct (below (disk ?g) ?lv i bn)" "set (below (disk ?g) ?lv i bn) \<inter> set (rev ?B @ xs) = {}"
    "\<forall>b \<in> set (below (disk ?g) ?lv i bn). usable ?g b"
    unfolding A using P D by auto
  show ?case
  proof (cases "?nb = 0")
    case True
    then show ?thesis using 2(1) [OF io refl True 2(5)] D io by (simp add: Let_def)
  next
    case nz: False
    show ?thesis
    proof (cases f1)
      case False
      then have "?B = [?nb]" using nz by (simp add: levels_def)
      then have g: "?g = free ?nb f" by simp
      then have "tloop bn f1 f2 (Suc i) f = tloop bn f1 f2 i ?g" using io nz False by (simp add: Let_def)
      also have "\<dots> = fold free ?A ?g"
        using 2(4) [OF io refl nz False, folded g, OF ready] unfolding A .
      finally show ?thesis unfolding e by simp
    next
      case True
      then have lv: "?lv \<noteq> 0" "?lv - 1 = levels f2 False" by (simp_all add: levels_def)
      then have B: "?B = below (disk f) (levels f2 False) 256 ?nb" using nz by simp
      have "tloop ?nb f2 False 256 f = fold free (below (disk f) (levels f2 False) 256 ?nb) f"
        by (rule 2(2) [OF io refl nz True 2(5)]) (use D(2,5,7) in \<open>simp_all only: B [symmetric]\<close>)
      then have t: "tloop ?nb f2 False 256 f = ?g" by (simp only: B)
      have "tloop bn f1 f2 (Suc i) f = tloop bn f1 f2 i ?g" using io nz True t by (simp add: Let_def)
      also have "\<dots> = fold free ?A ?g"
        using 2(3) [OF io refl nz True, unfolded t, OF ready] unfolding A .
      finally show ?thesis unfolding e by simp
    qed
  qed
qed simp

text \<open>The blocks below a block are those its paths lead to.\<close>

definition paths :: "nat \<Rightarrow> nat list set" where "paths lv = {p. length p \<le> lv \<and> (\<forall>x \<in> set p. x < 256)}"

definition reached :: "(u32 \<Rightarrow> block) \<Rightarrow> nat \<Rightarrow> u32 \<Rightarrow> u32 set" where "reached d lv b = walk d b ` paths lv - {0}"

lemma paths_0 [simp]: "paths 0 = {[]}"
  by (auto simp: paths_def)

lemma paths_Suc: "paths (Suc lv) = insert [] {j # p | j p. j < 256 \<and> p \<in> paths lv}"
proof (intro set_eqI)
  fix q show "q \<in> paths (Suc lv) \<longleftrightarrow> q \<in> insert [] {j # p | j p. j < 256 \<and> p \<in> paths lv}"
    by (cases q) (auto simp: paths_def)
qed

lemma reached_iff: "x \<in> reached d lv b \<longleftrightarrow> x \<noteq> 0 \<and> (\<exists>p \<in> paths lv. x = walk d b p)"
  by (auto simp: reached_def)

lemma reached_0 [simp]: "reached d lv 0 = {}"
  by (auto simp: reached_def)

lemma reached_Suc: "b \<noteq> 0 \<Longrightarrow> reached d (Suc lv) b = insert b (\<Union>j<256. reached d lv (rd32 (d b) (4 * j)))"
proof (intro set_eqI)
  fix x assume b: "b \<noteq> 0"
  have "x \<in> reached d (Suc lv) b \<longleftrightarrow> x \<noteq> 0 \<and> (x = b \<or> (\<exists>j<256. \<exists>p \<in> paths lv. x = walk d (rd32 (d b) (4 * j)) p))"
    unfolding reached_iff paths_Suc using b by force
  also have "\<dots> \<longleftrightarrow> x \<in> insert b (\<Union>j<256. reached d lv (rd32 (d b) (4 * j)))" using b by (auto simp: reached_iff)
  finally show "x \<in> reached d (Suc lv) b \<longleftrightarrow> x \<in> insert b (\<Union>j<256. reached d lv (rd32 (d b) (4 * j)))" .
qed

lemma set_below:
  "b \<noteq> 0 \<Longrightarrow> set (below d lv i b) = insert b (\<Union>j<i. reached d lv (rd32 (d b) (4 * j)))"
proof (induction d lv i b rule: below.induct)
  case (2 d lv i bn)
  let ?nb = "rd32 (d bn) (4 * i)"
  have r: "set (below d lv i bn) = insert bn (\<Union>j<i. reached d lv (rd32 (d bn) (4 * j)))" by (rule 2(2) [OF refl 2(3)])
  have "set (if ?nb = 0 then [] else if lv = 0 then [?nb] else below d (lv - 1) 256 ?nb) = reached d lv ?nb"
  proof (cases "?nb = 0")
    case False
    show ?thesis
    proof (cases lv)
      case (Suc l)
      then show ?thesis using 2(1) [OF refl False _ False] False by (simp add: reached_Suc)
    qed (use False in \<open>simp add: reached_def\<close>)
  qed simp
  then show ?case using r by (simp add: Let_def lessThan_Suc)
qed simp

definition apart :: "(u32 \<Rightarrow> block) \<Rightarrow> nat \<Rightarrow> u32 \<Rightarrow> bool" where
  "apart d lv b \<longleftrightarrow> (\<forall>p \<in> paths lv. \<forall>q \<in> paths lv. walk d b p = walk d b q \<longrightarrow> walk d b p \<noteq> 0 \<longrightarrow> p = q)"

lemma apart_below:
  assumes "apart d (Suc lv) b" "b \<noteq> 0" "j < 256"
  shows "apart d lv (rd32 (d b) (4 * j))" "b \<notin> reached d lv (rd32 (d b) (4 * j))"
    "k < 256 \<Longrightarrow> k \<noteq> j \<Longrightarrow> reached d lv (rd32 (d b) (4 * j)) \<inter> reached d lv (rd32 (d b) (4 * k)) = {}"
proof -
  have w: "walk d (rd32 (d b) (4 * i)) p = walk d b (i # p)" for i p using assms(2) by simp
  have m: "p \<in> paths lv \<Longrightarrow> i < 256 \<Longrightarrow> i # p \<in> paths (Suc lv)" "[] \<in> paths (Suc lv)" for i p by (auto simp: paths_def)
  have A: "p = q" if "p \<in> paths (Suc lv)" "q \<in> paths (Suc lv)" "walk d b p = walk d b q" "walk d b p \<noteq> 0" for p q
    using assms(1) that unfolding apart_def by blast
  show "apart d lv (rd32 (d b) (4 * j))" unfolding apart_def w
  proof (intro ballI impI)
    fix p q assume h: "p \<in> paths lv" "q \<in> paths lv" "walk d b (j # p) = walk d b (j # q)" "walk d b (j # p) \<noteq> 0"
    have "j # p = j # q" by (rule A [OF m(1) [OF h(1) assms(3)] m(1) [OF h(2) assms(3)] h(3,4)])
    then show "p = q" by simp
  qed
  show "b \<notin> reached d lv (rd32 (d b) (4 * j))"
  proof
    assume "b \<in> reached d lv (rd32 (d b) (4 * j))"
    then obtain p where p: "p \<in> paths lv" "b = walk d b (j # p)" unfolding reached_def w by blast
    have "[] = j # p" by (rule A [OF m(2) m(1) [OF p(1) assms(3)]]) (use p(2) assms(2) in simp_all)
    then show False by simp
  qed
  show "reached d lv (rd32 (d b) (4 * j)) \<inter> reached d lv (rd32 (d b) (4 * k)) = {}" if k: "k < 256" "k \<noteq> j"
  proof (rule ccontr)
    assume "\<not> ?thesis"
    then obtain c where "c \<in> reached d lv (rd32 (d b) (4 * j))" "c \<in> reached d lv (rd32 (d b) (4 * k))" by blast
    then obtain p q where h: "p \<in> paths lv" "q \<in> paths lv" "walk d b (j # p) = walk d b (k # q)" "walk d b (j # p) \<noteq> 0"
      unfolding reached_iff w by auto
    have "j # p = k # q" by (rule A [OF m(1) [OF h(1) assms(3)] m(1) [OF h(2) k(1)] h(3,4)])
    then show False using k(2) by simp
  qed
qed

lemma distinct_below: "b \<noteq> 0 \<Longrightarrow> i \<le> 256 \<Longrightarrow> apart d (Suc lv) b \<Longrightarrow> distinct (below d lv i b)"
proof (induction d lv i b rule: below.induct)
  case (2 d lv i bn)
  let ?nb = "rd32 (d bn) (4 * i)" let ?B = "if ?nb = 0 then [] else if lv = 0 then [?nb] else below d (lv - 1) 256 ?nb"
  have i: "i < 256" "i \<le> 256" using 2(4) by simp_all
  note A = apart_below [OF 2(5,3) i(1)]
  have r: "distinct (below d lv i bn)" by (rule 2(2) [OF refl 2(3) i(2) 2(5)])
  have B: "distinct ?B \<and> set ?B = reached d lv ?nb"
  proof (cases "?nb = 0")
    case False
    show ?thesis
    proof (cases lv)
      case (Suc l)
      have "distinct (below d (lv - 1) 256 ?nb)" by (rule 2(1) [OF refl False _ False]) (use Suc A(1) in simp_all)
      then show ?thesis using Suc False set_below [OF False, of d l 256] by (simp add: reached_Suc)
    qed (use False in \<open>simp add: reached_def\<close>)
  qed simp
  have "set ?B \<inter> set (below d lv i bn) = {}"
  proof (rule ccontr)
    assume "\<not> ?thesis"
    then obtain c where c: "c \<in> reached d lv ?nb" "c \<in> set (below d lv i bn)" using B by blast
    from c(2) consider "c = bn" | j where "j < i" "c \<in> reached d lv (rd32 (d bn) (4 * j))" unfolding set_below [OF 2(3)] by blast
    then show False
    proof cases
      case 1 then show ?thesis using A(2) c(1) by simp
    next
      case (2 j)
      then have "reached d lv ?nb \<inter> reached d lv (rd32 (d bn) (4 * j)) = {}" using i by (intro A(3)) auto
      then show ?thesis using c(1) 2(2) by blast
    qed
  qed
  then show ?case using B r by (simp add: Let_def)
qed simp

text \<open>All the blocks of a file, in the order \<open>itrunc\<close> frees them, with \<open>n\<close> addresses left.\<close>

fun file_list :: "u32 list \<Rightarrow> (u32 \<Rightarrow> block) \<Rightarrow> nat \<Rightarrow> u32 list" where
  "file_list as d 0 = []"
| "file_list as d (Suc i) = (if as ! i = 0 then [] else if i < 10 then [as ! i] else below d (i - 10) 256 (as ! i)) @ file_list as d i"

lemma set_slot:
  assumes "as ! i \<noteq> 0"
  shows "set (if i < 10 then [as ! i] else below d (i - 10) 256 (as ! i)) = reached d (i - 9) (as ! i)"
proof (cases "i < 10")
  case False
  then have "i - 9 = Suc (i - 10)" by simp
  then show ?thesis using False set_below [OF assms, of d "i - 10" 256] reached_Suc [OF assms, of d "i - 10"] by simp
qed (use assms in \<open>simp add: reached_def\<close>)

lemma set_file_list: "set (file_list as d n) = (\<Union>i<n. reached d (i - 9) (as ! i))"
proof (induction n)
  case (Suc i)
  show ?case
  proof (cases "as ! i = 0")
    case False
    then show ?thesis using Suc set_slot [OF False, of d] by (simp add: lessThan_Suc)
  qed (use Suc in \<open>simp add: lessThan_Suc\<close>)
qed simp

lemma file_list_nodes: "set (file_list as d NADDR) = node as d ` places - {0}"
proof -
  have w: "x \<in> node as d ` places - {0} \<longleftrightarrow> x \<noteq> 0 \<and> (\<exists>i<NADDR. \<exists>p \<in> paths (i - 9). x = walk d (as ! i) p)" for x
    by (auto simp: places_def paths_def image_iff)
  show ?thesis
  proof (rule set_eqI)
    fix x show "x \<in> set (file_list as d NADDR) \<longleftrightarrow> x \<in> node as d ` places - {0}"
      unfolding set_file_list w UN_iff reached_iff lessThan_iff by blast
  qed
qed

lemma distinct_file_list:
  assumes T: "tree_ok as f xs" and n: "n \<le> NADDR"
  shows "distinct (file_list as (disk f) n)"
  using n
proof (induction n)
  case (Suc i)
  let ?d = "disk f" let ?B = "if i < 10 then [as ! i] else below ?d (i - 10) 256 (as ! i)"
  have inj: "s = t \<and> p = q" if "s < NADDR" "t < NADDR" "p \<in> paths (s - 9)" "q \<in> paths (t - 9)" "walk ?d (as ! s) p = walk ?d (as ! t) q"
    "walk ?d (as ! s) p \<noteq> 0" for s t p q
  proof -
    have "(s, p) \<in> places" "(t, q) \<in> places" using that(1-4) by (auto simp: places_def paths_def)
    moreover have "node as ?d (t, q) = node as ?d (s, p)" "node as ?d (s, p) \<noteq> 0" using that(5,6) by simp_all
    ultimately have "(t, q) = (s, p)" using tree_okD(3) [OF T] by blast
    then show ?thesis by simp
  qed
  have i: "i < NADDR" using Suc.prems by simp
  show ?case
  proof (cases "as ! i = 0")
    case False
    have "distinct ?B"
    proof (cases "i < 10")
      case F: False
      then have e: "Suc (i - 10) = i - 9" by simp
      have "apart ?d (Suc (i - 10)) (as ! i)" unfolding apart_def e using inj [OF i i] by blast
      then show ?thesis using distinct_below [OF False, of 256] F by simp
    qed simp
    moreover have "set ?B \<inter> set (file_list as ?d i) = {}"
    proof (rule ccontr)
      assume "\<not> ?thesis"
      then obtain c j where c: "c \<in> reached ?d (i - 9) (as ! i)" "j < i" "c \<in> reached ?d (j - 9) (as ! j)"
        unfolding set_slot [OF False] set_file_list by blast
      then obtain p q where "p \<in> paths (i - 9)" "q \<in> paths (j - 9)" "walk ?d (as ! i) p = walk ?d (as ! j) q" "walk ?d (as ! i) p \<noteq> 0"
        unfolding reached_iff by auto
      then have "i = j" using inj [of i j p q] i c(2) by simp
      then show False using c(2) by simp
    qed
    ultimately show ?thesis using Suc False by simp
  qed (use Suc in simp)
qed simp

lemma file_list_cong:
  "(\<And>c. c \<in> set (file_list as d n) \<Longrightarrow> d' c = d c) \<Longrightarrow> file_list as d' n = file_list as d n"
proof (induction n)
  case (Suc i)
  have "below d' (i - 10) 256 (as ! i) = below d (i - 10) 256 (as ! i)" if "as ! i \<noteq> 0" "\<not> i < 10"
    by (rule below_cong) (use Suc.prems that in simp)
  then show ?case using Suc by simp
qed simp

lemma itrunc_blocks_free:
  assumes "fs_free f xs" "n \<le> NADDR" "distinct (file_list as (disk f) n)" "set (file_list as (disk f) n) \<inter> set xs = {}"
    "\<forall>b \<in> set (file_list as (disk f) n). usable f b"
  shows "itrunc_blocks as n f = fold free (file_list as (disk f) n) f"
  using assms
proof (induction n arbitrary: f xs)
  case (Suc i)
  let ?B = "if as ! i = 0 then [] else if i < 10 then [as ! i] else below (disk f) (i - 10) 256 (as ! i)"
  let ?A = "file_list as (disk f) i" let ?g = "fold free ?B f"
  have e: "file_list as (disk f) (Suc i) = ?B @ ?A" by simp
  have D: "distinct ?A" "distinct ?B" "set ?A \<inter> set ?B = {}" "set ?A \<inter> set xs = {}" "set ?B \<inter> set xs = {}"
    "\<forall>b \<in> set ?A. usable f b" "\<forall>b \<in> set ?B. usable f b" using Suc.prems(3-5) unfolding e by auto
  note P = blk.put_all [OF Suc.prems(1) D(2,5,7)]
  have A: "file_list as (disk ?g) i = ?A" by (rule file_list_cong) (use P D(3) in blast)
  have first: "(if as ! i = 0 then f
            else if i = NADDR - 3 then tloop (as ! i) False False 256 f
            else if i = NADDR - 2 then tloop (as ! i) True False 256 f
            else if i = NADDR - 1 then tloop (as ! i) True True 256 f
            else free (as ! i) f) = ?g"
  proof (cases "as ! i = 0 \<or> i < 10")
    case True
    then show ?thesis by (cases "as ! i = 0") auto
  next
    case False
    have t: "tloop (as ! i) f1 f2 256 f = ?g" if "levels f1 f2 = i - 10" for f1 f2
    proof -
      have "below (disk f) (levels f1 f2) 256 (as ! i) = ?B" using False that by simp
      then show ?thesis using tloop_frees [OF Suc.prems(1), of f1 f2 256 "as ! i"] D(2,5,7) by simp
    qed
    consider "i = 10" | "i = 11" | "i = 12" using False Suc.prems(2) by linarith
    then show ?thesis using t [of False False] t [of True False] t [of True True] False by cases (simp_all add: levels_def)
  qed
  have "itrunc_blocks as (Suc i) f = itrunc_blocks as i ?g" using first by (simp add: Let_def)
  also have "\<dots> = fold free (file_list as (disk ?g) i) ?g"
  proof (rule Suc.IH [OF conjunct1 [OF P]])
    show "i \<le> NADDR" using Suc.prems(2) by simp
    show "distinct (file_list as (disk ?g) i)" unfolding A by (rule D(1))
    show "set (file_list as (disk ?g) i) \<inter> set (rev ?B @ xs) = {}"
      unfolding A set_append set_rev Int_Un_distrib D(3) D(4) by simp
    have ug: "usable ?g = usable f" by (rule conjunct1 [OF conjunct2 [OF P]])
    show "\<forall>b \<in> set (file_list as (disk ?g) i). usable ?g b" unfolding A ug by (rule D(6))
  qed
  also have "\<dots> = fold free ?A ?g" unfolding A ..
  finally show ?case unfolding e by simp
qed simp

lemma iupdat_frame:
  assumes "fs_free f xs" "\<not> usable f (itod (i_number ip))" "iupdat now ip f = (e, ip', g)"
  shows "fs_free g xs \<and> usable g = usable f \<and> (\<forall>c. c \<noteq> itod (i_number ip) \<longrightarrow> disk g c = disk f c) \<and> i_addr ip' = i_addr ip \<and> i_size ip' = i_size ip"
proof -
  have g: "getfs f = f" using assms(1) by (intro getfs_ok) (simp_all add: fs_free_def)
  have "itod (i_number ip) \<notin> set xs" using assms(1,2) by (auto simp: fs_free_def)
  then show ?thesis using assms(3) fs_free_disk [OF assms(1)] assms(1) unfolding iupdat_def g Let_def by (auto split: if_splits)
qed

lemma itrunc_fold:
  assumes "tree_ok (i_addr ip) f xs" "fs_free f xs" "\<not> usable f (itod (i_number ip))"
    and "i_mode ip AND IFMT = IFREG \<or> i_mode ip AND IFMT = IFDIR" and "itrunc now ip f = (ip', f')"
  shows "\<exists>bs e g. iupdat now (ip\<lparr>i_size := 0, i_addr := replicate NADDR 0, i_flag := i_flag ip OR (IUPD OR ICHG OR ISYN)\<rparr>) f = (e, ip', g) \<and>
     f' = fold free bs g \<and> fs_free g xs \<and> distinct bs \<and> set bs \<inter> set xs = {} \<and> (\<forall>b \<in> set bs. usable g b) \<and>
     set bs = node (i_addr ip) (disk f) ` places - {0} \<and> (\<forall>c. c \<noteq> itod (i_number ip) \<longrightarrow> disk g c = disk f c)"
proof -
  let ?ip = "ip\<lparr>i_size := 0, i_addr := replicate NADDR 0, i_flag := i_flag ip OR (IUPD OR ICHG OR ISYN)\<rparr>"
  obtain e ip1 g where u: "iupdat now ?ip f = (e, ip1, g)" by (cases "iupdat now ?ip f") auto
  have nu: "\<not> usable f (itod (i_number ?ip))" using assms(3) by simp
  have G: "fs_free g xs" "usable g = usable f" "\<forall>c. c \<noteq> itod (i_number ip) \<longrightarrow> disk g c = disk f c" "i_addr ip1 = replicate NADDR 0" "i_size ip1 = 0"
    using iupdat_frame [OF assms(2) nu u] by simp_all
  have r: "ip' = ip1" "f' = itrunc_blocks (i_addr ip) NADDR g" using assms(4,5) u by (auto simp: itrunc_def Let_def)
  let ?L = "file_list (i_addr ip) (disk f) NADDR"
  have L: "\<forall>b \<in> set ?L. usable f b \<and> b \<notin> set xs" using tree_okD(1,2) [OF assms(1)] unfolding file_list_nodes by blast
  have c: "file_list (i_addr ip) (disk g) NADDR = ?L" by (rule file_list_cong) (use L G(3) assms(3) in metis)
  have d: "distinct ?L" by (rule distinct_file_list [OF assms(1)]) simp
  have f': "f' = fold free ?L g"
    unfolding r using itrunc_blocks_free [OF G(1), of NADDR "i_addr ip", unfolded c] L d G(2) by auto
  have "set ?L \<inter> set xs = {}" "\<forall>b \<in> set ?L. usable g b" using L G(2) by auto
  then show ?thesis using f' d r(1) u G(1,3) file_list_nodes by blast
qed

section \<open>Properties\<close>

text \<open>C22: for a write, \<open>bmap\<close> answers a block for the offset, or \<open>ENOSPC\<close> when nothing is free. The
  file then has that block at the offset, cleared if it is new; every other block of the file stays
  where it is with its contents; and the blocks of the file remain different from each other and
  from the free ones, through all levels of indirect blocks.\<close>

theorem bmap_allocates:
  assumes "file_ok ip f xs" "\<not> u_offset u <s 0" "\<not> ptol (u_limit u) \<le>s signed_drop_bit 10 (u_offset u)"
  shows "\<exists>r ip' u' f' ys. bmap mnt False ip u f = (r, ip', u', f') \<and> file_ok ip' f' ys \<and>
    (let n = unat (u_offset u) div 1024; old = file_block (i_addr ip) (disk f); new = file_block (i_addr ip') (disk f')
     in (case r of Blk b \<Rightarrow> b \<noteq> 0 \<and> new n = b \<and> (old n = 0 \<longrightarrow> disk f' b = (\<lambda>_. 0)) | Bad e \<Rightarrow> e = ENOSPC \<and> ys = [] | Hole \<Rightarrow> False) \<and>
        (\<forall>m. m \<noteq> n \<longrightarrow> new m = old m) \<and> (\<forall>m. old m \<noteq> 0 \<longrightarrow> new m = old m \<and> disk f' (old m) = disk f (old m)))"
proof -
  have F: "tree_ok (i_addr ip) f xs" "fs_free f xs" "small_dev f" "i_mode ip AND IFMT \<noteq> IFBLK" using assms(1) by (simp_all add: file_ok_def)
  obtain r ip' u' f' ys P where B: "bmap mnt False ip u f = (r, ip', u', f')" "i_mode ip' = i_mode ip" "place (unat (u_offset u) div 1024) = Some P"
    "grown (i_addr ip) f xs P (i_addr ip') f' ys"
    "case r of Blk b \<Rightarrow> b \<noteq> 0 \<and> node (i_addr ip') (disk f') P = b
     | Bad e \<Rightarrow> e = ENOSPC \<and> ys = [] \<and> node (i_addr ip') (disk f') P = 0 | Hole \<Rightarrow> False"
    using bmap_write_grown [OF assms] by blast
  note L = grown_leaf [OF B(4) F(2,1) B(3)]
  have "file_ok ip' f' ys" using grownD(1-3) [OF B(4)] F(3,4) B(2) by (simp add: file_ok_def small_dev_def)
  moreover have "file_block (i_addr ip') (disk f') (unat (u_offset u) div 1024) = node (i_addr ip') (disk f') P"
    using B(3) by (simp add: file_block_def)
  ultimately show ?thesis using B(1,5) L by (intro exI [of _ r] exI [of _ ip'] exI [of _ u'] exI [of _ f'] exI [of _ ys]) (auto simp: Let_def split: bmap_reply.splits)
qed

text \<open>A file with one block on the device of two free blocks, and a transfer at offset 20000.\<close>

lemma ptol_ltop: "unat b < 2 ^ 30 \<Longrightarrow> ptol (ltop b) = b"
proof -
  assume b: "unat b < 2 ^ 30"
  have u: "unat (push_bit 1 b) = 2 * unat b"
  proof -
    have "unat (push_bit 1 b) = take_bit 32 (push_bit 1 (unat b))" by (simp only: unsigned_push_bit_eq) simp
    then show ?thesis using b by (simp add: take_bit_nat_eq_self push_bit_eq_mult)
  qed
  then have "sint (signed_drop_bit 1 (push_bit 1 b)) = int (unat b)"
    using b by (simp only: sint_signed_drop_bit_eq) (subst sint32, simp, simp only: u, simp add: drop_bit_eq_div)
  then have "word_of_int (sint (signed_drop_bit 1 (push_bit 1 b))) = (word_of_int (int (unat b)) :: u32)" by (rule arg_cong)
  then show ?thesis by (simp add: ptol_def ltop_def)
qed

lemma small_devI: "unat (s_fsize (sb f)) \<le> 2 ^ 30 \<Longrightarrow> small_dev f"
  unfolding small_dev_def
proof (intro allI impI)
  fix b assume s: "unat (s_fsize (sb f)) \<le> 2 ^ 30" and u: "usable f b"
  have i: "unat (ucast (s_isize (sb f)) :: u32) < 2 ^ 31"
    using u16_lt [of "s_isize (sb f)"] by (simp add: unsigned_ucast_eq take_bit_nat_eq_self)
  have "\<not> b <s 0"
  proof
    assume "b <s 0"
    then have "sint b < 0" by (simp add: word_sless_alt)
    moreover have "0 \<le> sint (ucast (s_isize (sb f)) :: u32)" using sint32 [OF i] by simp
    ultimately have "b <s ucast (s_isize (sb f))" by (simp add: word_sless_alt)
    then show False using u by (simp add: usable_def badblock_def)
  qed
  then have b: "unat b < 2 ^ 31" by (simp add: sless0_u32)
  have "\<not> s_fsize (sb f) \<le>s b" using u by (simp add: usable_def badblock_def)
  moreover have "unat (s_fsize (sb f)) < 2 ^ 31" using s by simp
  ultimately have "unat b < unat (s_fsize (sb f))" using sint32 [OF b] sint32 [of "s_fsize (sb f)"] by (simp add: word_sle_eq del: of_nat_unat)
  then show "ptol (ltop b) = b" using s by (intro ptol_ltop) simp
qed

definition demo_ip :: inode where
  "demo_ip = \<lparr>i_flag = 0, i_count = 1, i_dev = 0, i_number = 5, i_mode = 0x81A4, i_nlink = 1, i_uid = 7, i_gid = 7, i_size = 900,
     i_addr = 30 # replicate 12 0, i_lastr = 0\<rparr>"

definition demo_uio :: uio where
  "demo_uio = \<lparr>u_offset = 20000, u_count = 100, u_limit = 4096, u_pbdev = 0, u_pboff = 0, u_pbsize = 0, u_rablock = 0\<rparr>"

lemma demo_file_ok: "file_ok demo_ip demo_fs [20, 21]"
proof -
  have n: "node (i_addr demo_ip) (disk demo_fs) P = (if P = (0, []) then 30 else 0)" if "P \<in> places" for P
  proof (cases P)
    case (Pair s p)
    then have sp: "s < NADDR" "s = 0 \<longrightarrow> p = []" using that by (auto simp: places_def)
    show ?thesis
    proof (cases s)
      case (Suc k)
      then have "i_addr demo_ip ! s = 0" using sp(1) by (simp add: demo_ip_def)
      then show ?thesis using Pair Suc by simp
    qed (use Pair sp in \<open>simp add: demo_ip_def\<close>)
  qed
  have u: "usable demo_fs 30" by (simp add: usable_def badblock_def demo_fs_def word_sless_alt word_sle_eq)
  have "tree_ok (i_addr demo_ip) demo_fs [20, 21]"
    unfolding tree_ok_def
  proof (intro conjI ballI impI)
    show "length (i_addr demo_ip) = NADDR" by (simp add: demo_ip_def)
    fix P assume P: "P \<in> places" "node (i_addr demo_ip) (disk demo_fs) P \<noteq> 0"
    then have e: "P = (0, [])" "node (i_addr demo_ip) (disk demo_fs) P = 30" using n [OF P(1)] by (simp_all split: if_splits)
    show "usable demo_fs (node (i_addr demo_ip) (disk demo_fs) P)" "node (i_addr demo_ip) (disk demo_fs) P \<notin> set [20, 21]"
      unfolding e(2) using u by simp_all
    fix Q assume Q: "Q \<in> places" "node (i_addr demo_ip) (disk demo_fs) Q = node (i_addr demo_ip) (disk demo_fs) P"
    then show "Q = P" using n [OF Q(1)] e by (simp split: if_splits)
  qed
  moreover have "small_dev demo_fs" by (rule small_devI) (simp add: demo_fs_def)
  moreover have "i_mode demo_ip AND IFMT \<noteq> IFBLK" by (simp add: demo_ip_def IFMT_def IFBLK_def)
  ultimately show ?thesis using demo_fs_free by (simp add: file_ok_def)
qed

lemma demo_uio_off: "\<not> u_offset demo_uio <s 0" "\<not> ptol (u_limit demo_uio) \<le>s signed_drop_bit 10 (u_offset demo_uio)"
  by (simp add: demo_uio_def word_sless_alt) code_simp

theorem bmap_allocates_witness:
  "\<exists>r ip' u' f' ys. bmap [] False demo_ip demo_uio demo_fs = (r, ip', u', f') \<and> file_ok ip' f' ys"
  using bmap_allocates [OF demo_file_ok demo_uio_off] by blast

text \<open>for a read, \<open>bmap\<close> changes nothing but the read-ahead and answers the block of the file at the
  offset, or \<open>-1\<close> for a hole or when nothing is left to read; the length of the transfer is the
  least of the bytes asked for, the rest of the block and the rest of the file.\<close>

lemma bmap_reads:
  assumes "file_ok ip f xs" "\<not> u_offset u <s 0"
  shows "\<exists>r ip' u'. bmap mnt True ip u f = (r, ip', u', f) \<and> i_addr ip' = i_addr ip \<and>
    unat (u_pbsize u') = min (read_rest ip u) (min (unat (u_count u)) (1024 - unat (u_offset u) mod 1024)) \<and>
    r = (let b = file_block (i_addr ip) (disk f) (unat (u_offset u) div 1024) in if u_pbsize u' = 0 \<or> b = 0 then Hole else Blk b)"
  using bmap_read_block [OF assms] unfolding Let_def .

text \<open>C26: \<open>itrunc\<close> gives back exactly the blocks of the file, data and indirect blocks of all three
  levels, each once; it leaves the file empty and touches no other block but that of the inode.\<close>

theorem itrunc_frees:
  assumes "tree_ok (i_addr ip) f xs" "fs_free f xs" "\<not> usable f (itod (i_number ip))"
    and "i_mode ip AND IFMT = IFREG \<or> i_mode ip AND IFMT = IFDIR" and "itrunc now ip f = (ip', f')"
  shows "\<exists>bs. set bs = node (i_addr ip) (disk f) ` places - {0} \<and> distinct bs \<and> fs_free f' (rev bs @ xs) \<and>
     i_size ip' = 0 \<and> i_addr ip' = replicate NADDR 0 \<and>
     (\<forall>c. c \<notin> set bs \<and> c \<noteq> itod (i_number ip) \<longrightarrow> disk f' c = disk f c)"
proof -
  from itrunc_fold [OF assms] obtain bs e g where
    B: "iupdat now (ip\<lparr>i_size := 0, i_addr := replicate NADDR 0, i_flag := i_flag ip OR (IUPD OR ICHG OR ISYN)\<rparr>) f = (e, ip', g)"
      "f' = fold free bs g" "fs_free g xs" "distinct bs" "set bs \<inter> set xs = {}" "\<forall>b \<in> set bs. usable g b"
      "set bs = node (i_addr ip) (disk f) ` places - {0}" "\<forall>c. c \<noteq> itod (i_number ip) \<longrightarrow> disk g c = disk f c"
    by (elim exE conjE) (rule that)
  have nu: "\<not> usable f (itod (i_number (ip\<lparr>i_size := 0, i_addr := replicate NADDR 0, i_flag := i_flag ip OR (IUPD OR ICHG OR ISYN)\<rparr>)))"
    using assms(3) by simp
  have k: "i_addr ip' = replicate NADDR 0" "i_size ip' = 0" using iupdat_frame [OF assms(2) nu B(1)] by simp_all
  note P = blk.put_all [OF B(3,4,5,6), folded B(2)]
  have "disk f' c = disk f c" if "c \<notin> set bs \<and> c \<noteq> itod (i_number ip)" for c using P B(8) that by simp
  then show ?thesis using conjunct1 [OF P] B(4,7) k by blast
qed

theorem itrunc_frees_witness:
  "\<exists>bs. distinct bs \<and> fs_free (snd (itrunc 9 demo_ip demo_fs)) (rev bs @ [20, 21]) \<and> i_size (fst (itrunc 9 demo_ip demo_fs)) = 0"
proof -
  have T: "tree_ok (i_addr demo_ip) demo_fs [20, 21]" using demo_file_ok by (simp add: file_ok_def)
  have n: "\<not> usable demo_fs (itod (i_number demo_ip))" by code_simp
  have m: "i_mode demo_ip AND IFMT = IFREG \<or> i_mode demo_ip AND IFMT = IFDIR" by (simp add: demo_ip_def IFMT_def IFREG_def)
  from itrunc_frees [OF T demo_fs_free n m, of 9] show ?thesis by (metis prod.collapse)
qed

end
