(* ===== verification/Ring.thy ===== *)
theory Ring
  imports Kernel_Base
begin

text \<open>
  Doubly linked rings with a header node, as the buffer cache keeps its buffers: \<open>ring f b h xs\<close>
  says that the forward links \<open>f\<close> and the backward links \<open>b\<close> join the header \<open>h\<close> and the nodes
  \<open>xs\<close> into a circle. Unlinking a node and linking one at either end are the pointer
  assignments of the code.
\<close>

fun dlinks :: "('a \<Rightarrow> 'a) \<Rightarrow> ('a \<Rightarrow> 'a) \<Rightarrow> 'a list \<Rightarrow> bool" where
  "dlinks f b (x # y # zs) \<longleftrightarrow> f x = y \<and> b y = x \<and> dlinks f b (y # zs)"
| "dlinks f b _ \<longleftrightarrow> True"

definition ring :: "('a \<Rightarrow> 'a) \<Rightarrow> ('a \<Rightarrow> 'a) \<Rightarrow> 'a \<Rightarrow> 'a list \<Rightarrow> bool" where
  "ring f b h xs \<longleftrightarrow> distinct (h # xs) \<and> dlinks f b (h # xs @ [h])"

text \<open>The search along a ring from \<open>p\<close>; \<open>None\<close> when it has not come back to the header after \<open>n\<close> nodes.\<close>

fun ring_find :: "nat \<Rightarrow> ('a \<Rightarrow> 'a) \<Rightarrow> 'a \<Rightarrow> ('a \<Rightarrow> bool) \<Rightarrow> 'a \<Rightarrow> 'a option option" where
  "ring_find 0 f h P p = None"
| "ring_find (Suc n) f h P p = (if p = h then Some None else if P p then Some (Some p) else ring_find n f h P (f p))"

lemma dlinks_append: "dlinks f b (us @ x # vs) \<longleftrightarrow> dlinks f b (us @ [x]) \<and> dlinks f b (x # vs)"
  by (induction us rule: induct_list012) auto

lemma dlinks_cong:
  "(\<And>x. x \<in> set (butlast xs) \<Longrightarrow> f' x = f x) \<Longrightarrow> (\<And>x. x \<in> set (tl xs) \<Longrightarrow> b' x = b x) \<Longrightarrow> dlinks f' b' xs = dlinks f b xs"
  by (induction f b xs rule: dlinks.induct) auto

lemma dlinks_butlast: "dlinks f b (x # us @ [y]) \<Longrightarrow> f (last (x # us)) = y \<and> b y = last (x # us)"
proof (induction us arbitrary: x)
  case (Cons a us) then show ?case by (cases us) auto
qed simp

lemma ring_distinct: "ring f b h xs \<Longrightarrow> distinct xs \<and> h \<notin> set xs"
  by (simp add: ring_def)

lemma ring_cong:
  "(\<And>x. x \<in> set (h # xs) \<Longrightarrow> f' x = f x \<and> b' x = b x) \<Longrightarrow> ring f' b' h xs = ring f b h xs"
  using dlinks_cong [of "h # xs @ [h]" f' f b' b] by (auto simp: ring_def butlast_append)

lemma ring_first: "ring f b h xs \<Longrightarrow> f h = (if xs = [] then h else hd xs) \<and> b h = (if xs = [] then h else last xs)"
  using dlinks_butlast [of f b h xs h] by (cases xs) (auto simp: ring_def)

lemma ring_empty: "ring f b h xs \<Longrightarrow> f h = h \<longleftrightarrow> xs = []"
proof -
  assume R: "ring f b h xs"
  have "f h = (if xs = [] then h else hd xs)" using ring_first [OF R] by (rule conjunct1)
  then show ?thesis using ring_distinct [OF R] hd_in_set [of xs] by (auto simp del: hd_in_set)
qed

lemma ring_seq: "ring f b h (us @ x # vs) \<Longrightarrow> dlinks f b (h # us @ [x]) \<and> dlinks f b (x # vs @ [h])"
  using dlinks_append [of f b "h # us" x "vs @ [h]"] by (simp add: ring_def)

lemma ring_at:
  assumes "ring f b h (us @ x # vs)"
  shows "b x = last (h # us)" "f x = hd (vs @ [h])"
proof -
  show "b x = last (h # us)" using dlinks_butlast [of f b h us x] ring_seq [OF assms] by simp
  show "f x = hd (vs @ [h])" using ring_seq [OF assms] by (cases vs) auto
qed

lemma dlinks_join:
  assumes "dlinks f b (us @ [p])" "dlinks f b (n # vs)"
    "p \<notin> set us" "p \<notin> set (butlast (n # vs))" "n \<notin> set (tl (us @ [p]))" "n \<notin> set vs"
  shows "dlinks (f(p := n)) (b(n := p)) (us @ p # n # vs)"
proof -
  have "dlinks (f(p := n)) (b(n := p)) (us @ [p]) = dlinks f b (us @ [p])"
    by (rule dlinks_cong) (use assms(3,5) in auto)
  moreover have "dlinks (f(p := n)) (b(n := p)) (n # vs) = dlinks f b (n # vs)"
    by (rule dlinks_cong) (use assms(4,6) in auto)
  ultimately show ?thesis using assms(1,2) dlinks_append [of "f(p := n)" "b(n := p)" us p "n # vs"] by simp
qed

text \<open>Unlinking: \<open>x->back->forw = x->forw; x->forw->back = x->back\<close>.\<close>

lemma ring_unlink:
  assumes R: "ring f b h (us @ x # vs)"
  shows "ring (f(b x := f x)) (b(f x := b x)) h (us @ vs)"
proof -
  obtain us' where u: "h # us = us' @ [b x]" using ring_at(1) [OF R] append_butlast_last_id [of "h # us"] by (metis list.distinct(1))
  obtain vs' where v: "vs @ [h] = f x # vs'" using ring_at(2) [OF R] by (cases vs) auto
  have d: "distinct (h # us @ x # vs)" using R by (simp add: ring_def)
  have A: "dlinks f b (us' @ [b x])" using ring_seq [OF R] dlinks_append [of f b us' "b x" "[x]"] u
    by (metis append_Cons append_assoc append_Nil)
  have B: "dlinks f b (f x # vs')" using ring_seq [OF R] v by simp
  have n1: "b x \<notin> set us'" "b x \<in> set (h # us)" using d u by (metis distinct.simps(2) distinct_append not_distinct_conv_prefix append_Cons) (simp add: u)
  have bl: "butlast (f x # vs') = vs" "tl (us' @ [b x]) = us" by (simp_all flip: u v)
  have n2: "b x \<notin> set vs" "f x \<notin> set us" "f x \<notin> set vs'" using d n1(2) v by (cases vs; auto)+
  have "dlinks (f(b x := f x)) (b(f x := b x)) (us' @ b x # f x # vs')"
    by (rule dlinks_join [OF A B]) (use n1(1) n2 in \<open>simp_all only: bl not_False_eq_True\<close>)
  moreover have "us' @ b x # f x # vs' = h # (us @ vs) @ [h]" using u v by (metis append_Cons append_assoc append_Nil)
  ultimately show ?thesis using d by (auto simp: ring_def)
qed

lemma ring_front:
  assumes R: "ring f b h xs" and x: "x \<notin> set (h # xs)"
  shows "ring (f(x := f h, h := x)) ((b(f h := x))(x := h)) h (x # xs)"
proof -
  let ?f = "f(x := f h, h := x)" let ?b = "(b(f h := x))(x := h)"
  obtain vs where v: "xs @ [h] = f h # vs" using ring_first [OF R] by (cases xs) auto
  have d: "distinct (h # xs)" using R by (simp add: ring_def)
  have "dlinks ?f ?b (f h # vs) = dlinks f b (f h # vs)"
  proof (rule dlinks_cong)
    fix y assume "y \<in> set (butlast (f h # vs))"
    then have "y \<in> set xs" by (simp flip: v)
    then show "?f y = f y" using d x by auto
  next
    fix y assume "y \<in> set (tl (f h # vs))"
    then have "y \<noteq> f h" "y \<noteq> x" using d x v by (cases xs; auto)+
    then show "?b y = b y" by simp
  qed
  moreover have "dlinks f b (f h # vs)" using R v dlinks_append [of f b "[h]" "f h" vs] by (simp add: ring_def)
  moreover have "f h \<in> set (h # xs)" using v by (cases xs) auto
  then have "f h \<noteq> x" "h \<noteq> x" using x by auto
  ultimately have "dlinks ?f ?b (h # x # f h # vs)" by simp
  then show ?thesis using d x v by (auto simp: ring_def)
qed

lemma ring_back:
  assumes R: "ring f b h xs" and x: "x \<notin> set (h # xs)"
  shows "ring ((f(b h := x))(x := h)) (b(x := b h, h := x)) h (xs @ [x])"
proof -
  let ?f = "(f(b h := x))(x := h)" let ?b = "b(x := b h, h := x)"
  have d: "distinct (h # xs)" using R by (simp add: ring_def)
  obtain us where u: "h # xs = us @ [b h]" using ring_first [OF R] append_butlast_last_id [of "h # xs"]
    by (metis last.simps list.distinct(1))
  have m: "b h \<in> set (h # xs)" "b h \<notin> set us" using d u by (simp_all del: distinct.simps)
  have "dlinks ?f ?b (us @ [b h]) = dlinks f b (us @ [b h])"
  proof (rule dlinks_cong)
    fix y assume "y \<in> set (butlast (us @ [b h]))"
    then have "y \<in> set us" by simp
    moreover have "x \<notin> set us" using x u by simp
    ultimately have "y \<noteq> b h" "y \<noteq> x" using m(2) by auto
    then show "?f y = f y" by simp
  next
    fix y assume "y \<in> set (tl (us @ [b h]))"
    then have "y \<in> set xs" by (simp flip: u)
    then show "?b y = b y" using d x by auto
  qed
  moreover have "dlinks f b (us @ [b h])" using R u dlinks_append [of f b us "b h" "[h]"] by (simp add: ring_def) (metis append_Cons append_assoc append_Nil)
  moreover have "b h \<noteq> x" "h \<noteq> x" using m(1) x by auto
  ultimately have "dlinks ?f ?b (us @ b h # [x, h])" using dlinks_append [of ?f ?b us "b h" "[x, h]"] by simp
  moreover have "us @ b h # [x, h] = h # (xs @ [x]) @ [h]" using u by (metis append_Cons append_assoc append_Nil)
  ultimately show ?thesis using d x by (auto simp: ring_def)
qed

lemma ring_find_seq:
  "dlinks f b (p # xs @ [h]) \<Longrightarrow> h \<notin> set (p # xs) \<Longrightarrow> length xs + 1 < n \<Longrightarrow>
   ring_find n f h P p = Some (List.find P (p # xs))"
proof (induction xs arbitrary: p n)
  case Nil then show ?case by (cases n; cases "n - 1") auto
next
  case (Cons y ys) then show ?case by (cases n) auto
qed

lemma ring_find_ok: "ring f b h xs \<Longrightarrow> length xs < n \<Longrightarrow> ring_find n f h P (f h) = Some (List.find P xs)"
  using ring_find_seq [of f b "hd xs" "tl xs" h n P] by (cases xs; cases n) (auto simp: ring_def)

section \<open>Several rings through the same links\<close>

definition rings :: "('a \<Rightarrow> 'a) \<Rightarrow> ('a \<Rightarrow> 'a) \<Rightarrow> 'a set \<Rightarrow> ('a \<Rightarrow> 'a list) \<Rightarrow> bool" where
  "rings f b H L \<longleftrightarrow> (\<forall>h \<in> H. ring f b h (L h)) \<and> (\<forall>h \<in> H. \<forall>k \<in> H. h \<noteq> k \<longrightarrow> set (h # L h) \<inter> set (k # L k) = {})"

lemma rings_ring: "rings f b H L \<Longrightarrow> h \<in> H \<Longrightarrow> ring f b h (L h)"
  by (simp add: rings_def)

lemma rings_one:
  assumes "rings f b H L" "h \<in> H" "ring f' b' h xs" "\<And>y. y \<notin> set (h # L h) \<Longrightarrow> y \<notin> set xs \<Longrightarrow> f' y = f y \<and> b' y = b y"
    "\<And>k. k \<in> H \<Longrightarrow> h \<noteq> k \<Longrightarrow> set xs \<inter> set (k # L k) = {}"
  shows "rings f' b' H (L(h := xs))"
proof -
  have dj: "set (h # L h) \<inter> set (k # L k) = {}" if "k \<in> H" "h \<noteq> k" for k
    using assms(1,2) that unfolding rings_def by blast
  have "ring f' b' k (L k)" if "k \<in> H" "h \<noteq> k" for k
  proof -
    have "ring f' b' k (L k) = ring f b k (L k)"
      by (rule ring_cong, rule assms(4)) (use dj [OF that] assms(5) [OF that] in blast)+
    then show ?thesis using rings_ring [OF assms(1) that(1)] by simp
  qed
  moreover have "set (h # xs) \<inter> set (k # L k) = {}" if "k \<in> H" "h \<noteq> k" for k
    using dj [OF that] assms(5) [OF that] by auto
  ultimately show ?thesis using assms(1,3) by (auto simp: rings_def)
qed

lemma rings_unlink:
  assumes "rings f b H L" "h \<in> H" "L h = us @ x # vs"
  shows "rings (f(b x := f x)) (b(f x := b x)) H (L(h := us @ vs))"
proof (rule rings_one [OF assms(1,2)])
  have R: "ring f b h (us @ x # vs)" using rings_ring [OF assms(1,2)] assms(3) by simp
  show "ring (f(b x := f x)) (b(f x := b x)) h (us @ vs)" by (rule ring_unlink [OF R])
  fix y assume "y \<notin> set (h # L h)" "y \<notin> set (us @ vs)"
  then show "(f(b x := f x)) y = f y \<and> (b(f x := b x)) y = b y"
    using ring_at [OF R] assms(3) by (cases us; cases vs) auto
next
  fix k assume "k \<in> H" "h \<noteq> k"
  then have "set (h # L h) \<inter> set (k # L k) = {}" using assms(1,2) unfolding rings_def by blast
  then show "set (us @ vs) \<inter> set (k # L k) = {}" using assms(3) by auto
qed

lemma rings_front:
  assumes "rings f b H L" "h \<in> H" "x \<notin> H" "\<And>k. k \<in> H \<Longrightarrow> x \<notin> set (L k)"
  shows "rings (f(x := f h, h := x)) ((b(f h := x))(x := h)) H (L(h := x # L h))"
proof (rule rings_one [OF assms(1,2)])
  have R: "ring f b h (L h)" by (rule rings_ring [OF assms(1,2)])
  have x: "x \<notin> set (h # L h)" using assms(2,3) assms(4) [OF assms(2)] by auto
  show "ring (f(x := f h, h := x)) ((b(f h := x))(x := h)) h (x # L h)" by (rule ring_front [OF R x])
  fix y assume "y \<notin> set (h # L h)" "y \<notin> set (x # L h)"
  then show "(f(x := f h, h := x)) y = f y \<and> ((b(f h := x))(x := h)) y = b y"
    using ring_first [OF R] by (cases "L h") auto
next
  fix k assume "k \<in> H" "h \<noteq> k"
  then have "set (h # L h) \<inter> set (k # L k) = {}" "x \<noteq> k" "x \<notin> set (L k)" using assms unfolding rings_def by blast+
  then show "set (x # L h) \<inter> set (k # L k) = {}" by auto
qed

end
