(* ===== verification/Buffer_Cache.thy ===== *)
theory Buffer_Cache
  imports Ring Block_Map
begin

text \<open>
  The buffer cache, \<open>io/bio.c\<close>: the buffer headers with their links, the hash chains and the
  available list, and the routines that get, fill, write and release a buffer. An operation is
  modelled up to the point where it sleeps or returns; a caller that slept resumes at the label it
  jumps to or at the loop it waits in. The drivers behind \<open>bdevsw\<close> are the list of the requests
  handed to them: one of these at a time completes, successfully or not, and calls \<open>iodone\<close>. The
  statistics of \<open>sysinfo\<close> and \<open>syswait\<close> are left out, and so are \<open>swap\<close> and \<open>physio\<close>, which
  work on headers of their own.
\<close>

section \<open>Buffers and lists\<close>

datatype (plugins only: code) bflag =
  B_READ | B_DONE | B_ERROR | B_BUSY | B_PHYS | B_MAP | B_WANTED | B_AGE | B_ASYNC | B_DELWRI | B_OPEN | B_STALE | B_FORMAT

text \<open>The nodes of the lists: the header \<open>bfreelist\<close>, the headers \<open>hbuf\<close> and the buffers \<open>buf\<close>.\<close>

datatype (plugins only: code) node = Avail | Hd nat | Buf nat

record buf =
  b_flags :: "bflag set"
  b_dev :: u16
  b_bcount :: u16
  b_data :: block
  b_blkno :: u32
  b_error :: "errno option"
  b_resid :: u16
  b_start :: u32

text \<open>What a process sleeps on: a buffer in \<open>getblk\<close>, the completion of a request in \<open>iowait\<close>,
  an available buffer, or the end of the asynchronous writes.\<close>

datatype (plugins only: code) bwait = W_buf nat | W_io nat | W_free | W_async

datatype (plugins only: code) chan = C_buf nat | C_free | C_async

fun chan_of :: "bwait \<Rightarrow> chan" where
  "chan_of (W_buf i) = C_buf i"
| "chan_of (W_io i) = C_buf i"
| "chan_of W_free = C_free"
| "chan_of W_async = C_async"

record bcache =
  v_buf :: nat
  v_hbuf :: nat
  v_hmask :: u16
  v_autoup :: u16
  bufs :: "nat \<Rightarrow> buf"
  b_forw :: "node \<Rightarrow> node"
  b_back :: "node \<Rightarrow> node"
  av_forw :: "node \<Rightarrow> node"
  av_back :: "node \<Rightarrow> node"
  av_count :: u16
  av_wanted :: bool
  basyncnt :: int
  basywait :: bool
  blbolt :: u32
  io_queue :: "nat list"
  media :: "u16 \<Rightarrow> u32 \<Rightarrow> block"
  sleepers :: "bwait list"
  u_error :: "errno option"

abbreviation NODEV :: u16 where "NODEV \<equiv> - 1"
abbreviation BSIZE :: u16 where "BSIZE \<equiv> 1024"
abbreviation SBUFSIZE :: u16 where "SBUFSIZE \<equiv> 1024"

text \<open>The outcome of a routine that may sleep; \<open>Stuck\<close> is a walk that never comes back to its header.\<close>

datatype (plugins only: code) 'a bresult = Got 'a | Sleeps | Stuck

definition bhash :: "bcache \<Rightarrow> u16 \<Rightarrow> u32 \<Rightarrow> node" where
  "bhash c d b = Hd (unat ((d + ucast b) AND v_hmask c))"

definition upd :: "nat \<Rightarrow> (buf \<Rightarrow> buf) \<Rightarrow> bcache \<Rightarrow> bcache" where
  "upd i g c = c\<lparr>bufs := (bufs c)(i := g (bufs c i))\<rparr>"

abbreviation bflags :: "bcache \<Rightarrow> nat \<Rightarrow> bflag set" where
  "bflags c i \<equiv> b_flags (bufs c i)"

abbreviation bset :: "bflag set \<Rightarrow> buf \<Rightarrow> buf" where "bset F b \<equiv> b\<lparr>b_flags := b_flags b \<union> F\<rparr>"
abbreviation bclr :: "bflag set \<Rightarrow> buf \<Rightarrow> buf" where "bclr F b \<equiv> b\<lparr>b_flags := b_flags b - F\<rparr>"

definition bsleep :: "bwait \<Rightarrow> bcache \<Rightarrow> bcache" where
  "bsleep w c = c\<lparr>sleepers := w # sleepers c\<rparr>"

definition bwakeup :: "chan \<Rightarrow> bcache \<Rightarrow> bcache" where
  "bwakeup ch c = c\<lparr>sleepers := filter (\<lambda>w. chan_of w \<noteq> ch) (sleepers c)\<rparr>"

text \<open>Taking a buffer off the available list, and linking it at its front or its end.\<close>

definition notavail :: "nat \<Rightarrow> bcache \<Rightarrow> bcache" where
  "notavail i c =
     (let fw = (av_forw c)(av_back c (Buf i) := av_forw c (Buf i));
          bk = (av_back c)(fw (Buf i) := av_back c (Buf i))
      in (upd i (bset {B_BUSY}) c)\<lparr>av_forw := fw, av_back := bk, av_count := av_count c - 1\<rparr>)"

definition av_first :: "nat \<Rightarrow> bcache \<Rightarrow> bcache" where
  "av_first i c =
     (let n = av_forw c Avail
      in c\<lparr>av_back := (av_back c)(n := Buf i, Buf i := Avail), av_forw := (av_forw c)(Buf i := n, Avail := Buf i)\<rparr>)"

definition av_last :: "nat \<Rightarrow> bcache \<Rightarrow> bcache" where
  "av_last i c =
     (let n = av_back c Avail
      in c\<lparr>av_forw := (av_forw c)(n := Buf i, Buf i := Avail), av_back := (av_back c)(Buf i := n, Avail := Buf i)\<rparr>)"

text \<open>Moving a buffer to the front of the hash chain of \<open>dp\<close>.\<close>

definition rechain :: "nat \<Rightarrow> node \<Rightarrow> bcache \<Rightarrow> bcache" where
  "rechain i dp c =
     (let f = (b_forw c)(b_back c (Buf i) := b_forw c (Buf i));
          b = (b_back c)(f (Buf i) := b_back c (Buf i));
          n = f dp
      in c\<lparr>b_forw := f(Buf i := n, dp := Buf i), b_back := b(Buf i := dp, n := Buf i)\<rparr>)"

definition geterror :: "nat \<Rightarrow> bcache \<Rightarrow> bcache" where
  "geterror i c = (if B_ERROR \<in> bflags c i then c\<lparr>u_error := Some (case b_error (bufs c i) of None \<Rightarrow> EIO | Some e \<Rightarrow> e)\<rparr> else c)"

text \<open>Calling the strategy routine of the device.\<close>

definition strategy :: "nat \<Rightarrow> bcache \<Rightarrow> bcache" where
  "strategy i c = c\<lparr>io_queue := io_queue c @ [i]\<rparr>"

section \<open>Releasing, waiting and writing\<close>

definition brelse :: "nat \<Rightarrow> bcache \<Rightarrow> bcache" where
  "brelse i c =
     (let c = (if B_WANTED \<in> bflags c i then bwakeup (C_buf i) c else c);
          c = (if av_wanted c then bwakeup C_free (c\<lparr>av_wanted := False\<rparr>) else c);
          c = (if B_ERROR \<in> bflags c i
               then upd i (\<lambda>b. b\<lparr>b_flags := b_flags b \<union> {B_STALE, B_AGE} - {B_ERROR, B_DELWRI}, b_error := None\<rparr>) c else c);
          c = (if B_AGE \<in> bflags c i then av_first i c else av_last i c);
          c = upd i (bclr {B_WANTED, B_BUSY, B_ASYNC, B_AGE}) c
      in c\<lparr>av_count := av_count c + 1\<rparr>)"

definition iowait :: "nat \<Rightarrow> bcache \<Rightarrow> unit bresult \<times> bcache" where
  "iowait i c = (if B_DONE \<notin> bflags c i then (Sleeps, bsleep (W_io i) c) else (Got (), geterror i c))"

definition iodone :: "nat \<Rightarrow> bcache \<Rightarrow> bcache" where
  "iodone i c =
     (let c = upd i (bset {B_DONE}) c
      in if B_ASYNC \<in> bflags c i then
           (let c = (if B_READ \<notin> bflags c i then c\<lparr>basyncnt := basyncnt c - 1\<rparr> else c);
                c = (if basyncnt c = 0 \<and> basywait c then bwakeup C_async (c\<lparr>basywait := False\<rparr>) else c)
            in brelse i c)
         else bwakeup (C_buf i) (upd i (bclr {B_WANTED}) c))"

text \<open>\<open>bwrite\<close> up to the call of the strategy routine, with the branch of the asynchronous write.\<close>

definition bwrite_start :: "nat \<Rightarrow> bcache \<Rightarrow> bcache" where
  "bwrite_start i c =
     (let flag = bflags c i;
          c = strategy i (upd i (bclr {B_READ, B_DONE, B_ERROR, B_DELWRI}) c)
      in if B_ASYNC \<notin> flag then c
         else (let c = c\<lparr>basyncnt := basyncnt c + 1\<rparr> in if B_DELWRI \<notin> flag then geterror i c else c))"

definition bwrite_wait :: "nat \<Rightarrow> bcache \<Rightarrow> unit bresult \<times> bcache" where
  "bwrite_wait i c = (case iowait i c of (Got u, c) \<Rightarrow> (Got u, brelse i c) | r \<Rightarrow> r)"

definition bwrite :: "nat \<Rightarrow> bcache \<Rightarrow> unit bresult \<times> bcache" where
  "bwrite i c = (let flag = bflags c i; c = bwrite_start i c in if B_ASYNC \<notin> flag then bwrite_wait i c else (Got (), c))"

definition bdwrite :: "nat \<Rightarrow> bcache \<Rightarrow> bcache" where
  "bdwrite i c =
     (let c = (if B_DELWRI \<notin> bflags c i then upd i (\<lambda>b. b\<lparr>b_start := blbolt c\<rparr>) c else c)
      in brelse i (upd i (\<lambda>b. b\<lparr>b_flags := b_flags b \<union> {B_DELWRI, B_DONE}, b_resid := 0\<rparr>) c))"

definition bawrite :: "nat \<Rightarrow> bcache \<Rightarrow> unit bresult \<times> bcache" where
  "bawrite i c = bwrite i (if 4 < av_count c then upd i (bset {B_ASYNC}) c else c)"

definition clrbuf :: "nat \<Rightarrow> bcache \<Rightarrow> bcache" where
  "clrbuf i c = upd i (\<lambda>b. b\<lparr>b_data := (\<lambda>k. if k < unat (b_bcount b) then 0 else b_data b k), b_resid := 0\<rparr>) c"

section \<open>Getting a buffer\<close>

definition is_block :: "bcache \<Rightarrow> u16 \<Rightarrow> u32 \<Rightarrow> node \<Rightarrow> bool" where
  "is_block c dev blk p \<longleftrightarrow>
     (case p of Buf i \<Rightarrow> b_blkno (bufs c i) = blk \<and> b_dev (bufs c i) = dev \<and> B_STALE \<notin> bflags c i | _ \<Rightarrow> False)"

text \<open>The walk along a hash chain.\<close>

definition in_chain :: "bcache \<Rightarrow> u16 \<Rightarrow> u32 \<Rightarrow> node option option" where
  "in_chain c dev blk =
     (let dp = bhash c dev blk in ring_find (v_buf c + 1) (b_forw c) dp (is_block c dev blk) (b_forw c dp))"

definition incore :: "u16 \<Rightarrow> u32 \<Rightarrow> bcache \<Rightarrow> bool bresult" where
  "incore dev blkno c = (case in_chain c dev (ltop blkno) of None \<Rightarrow> Stuck | Some r \<Rightarrow> Got (r \<noteq> None))"

text \<open>A buffer marked for a delayed write is written out, and the search starts again.\<close>

definition evict :: "nat \<Rightarrow> bcache \<Rightarrow> bcache" where
  "evict i c = bwrite_start i (upd i (bset {B_ASYNC}) (notavail i c))"

definition assign :: "nat \<Rightarrow> u16 \<Rightarrow> u32 \<Rightarrow> bcache \<Rightarrow> bcache" where
  "assign i dev blk c =
     (let c = notavail i c; dp = bhash c dev blk
      in upd i (\<lambda>b. b\<lparr>b_dev := dev, b_blkno := blk, b_bcount := BSIZE\<rparr>) (rechain i dp (upd i (\<lambda>b. b\<lparr>b_flags := {B_BUSY}\<rparr>) c)))"

fun getblk_loop :: "nat \<Rightarrow> u16 \<Rightarrow> u32 \<Rightarrow> bcache \<Rightarrow> nat bresult \<times> bcache" where
  "getblk_loop 0 dev blk c = (Stuck, c)"
| "getblk_loop (Suc n) dev blk c =
     (case in_chain c dev blk of
        Some (Some (Buf i)) \<Rightarrow>
          if B_BUSY \<in> bflags c i then (Sleeps, bsleep (W_buf i) (upd i (bset {B_WANTED}) c)) else (Got i, notavail i c)
      | Some None \<Rightarrow>
          (case av_forw c Avail of
             Buf i \<Rightarrow> if B_DELWRI \<in> bflags c i then getblk_loop n dev blk (evict i c) else (Got i, assign i dev blk c)
           | Avail \<Rightarrow> (Sleeps, bsleep W_free (c\<lparr>av_wanted := True\<rparr>))
           | Hd h \<Rightarrow> (Stuck, c))
      | _ \<Rightarrow> (Stuck, c))"

definition getblk :: "u16 \<Rightarrow> u32 \<Rightarrow> bcache \<Rightarrow> nat bresult \<times> bcache" where
  "getblk dev blkno c = getblk_loop (v_buf c + 1) dev (ltop blkno) c"

definition unassign :: "nat \<Rightarrow> bcache \<Rightarrow> bcache" where
  "unassign i c =
     upd i (\<lambda>b. b\<lparr>b_dev := NODEV, b_bcount := SBUFSIZE\<rparr>)
       (rechain i Avail (upd i (\<lambda>b. b\<lparr>b_flags := {B_BUSY, B_AGE}\<rparr>) (notavail i c)))"

fun geteblk_loop :: "nat \<Rightarrow> bcache \<Rightarrow> nat bresult \<times> bcache" where
  "geteblk_loop 0 c = (Stuck, c)"
| "geteblk_loop (Suc n) c =
     (case av_forw c Avail of
        Buf i \<Rightarrow> if B_DELWRI \<in> bflags c i then geteblk_loop n (evict i c) else (Got i, unassign i c)
      | Avail \<Rightarrow> (Sleeps, bsleep W_free (c\<lparr>av_wanted := True\<rparr>))
      | Hd h \<Rightarrow> (Stuck, c))"

definition geteblk :: "bcache \<Rightarrow> nat bresult \<times> bcache" where
  "geteblk c = geteblk_loop (v_buf c + 1) c"

text \<open>Starting a read, and \<open>bread\<close> up to \<open>iowait\<close>: with a buffer that is done it returns at once.\<close>

definition start_read :: "bflag set \<Rightarrow> nat \<Rightarrow> bcache \<Rightarrow> bcache" where
  "start_read F i c = strategy i (upd i (\<lambda>b. b\<lparr>b_flags := b_flags b \<union> F, b_bcount := BSIZE\<rparr>) c)"

definition bread_start :: "u16 \<Rightarrow> u32 \<Rightarrow> bcache \<Rightarrow> nat bresult \<times> bcache" where
  "bread_start dev blkno c =
     (case getblk dev blkno c of
        (Got i, c) \<Rightarrow> (Got i, if B_DONE \<in> bflags c i then c else start_read {B_READ} i c)
      | r \<Rightarrow> r)"

definition bread :: "u16 \<Rightarrow> u32 \<Rightarrow> bcache \<Rightarrow> nat bresult \<times> bcache" where
  "bread dev blkno c =
     (case getblk dev blkno c of
        (Got i, c) \<Rightarrow>
          if B_DONE \<in> bflags c i then (Got i, c)
          else (case iowait i (start_read {B_READ} i c) of (Got u, c) \<Rightarrow> (Got i, c) | (r, c) \<Rightarrow> (Sleeps, c))
      | r \<Rightarrow> r)"

text \<open>The read-ahead of \<open>breada\<close>.\<close>

definition read_ahead :: "u16 \<Rightarrow> u32 \<Rightarrow> bcache \<Rightarrow> unit bresult \<times> bcache" where
  "read_ahead dev rablkno c =
     (if rablkno \<noteq> 0 \<and> 1 < av_count c \<and> incore dev rablkno c = Got False then
        (case getblk dev rablkno c of
           (Got i, c) \<Rightarrow> (Got (), if B_DONE \<in> bflags c i then brelse i c else start_read {B_READ, B_ASYNC} i c)
         | (Sleeps, c) \<Rightarrow> (Sleeps, c) | (Stuck, c) \<Rightarrow> (Stuck, c))
      else (Got (), c))"

text \<open>\<open>breada\<close> when neither \<open>getblk\<close> has to sleep.\<close>

definition breada :: "u16 \<Rightarrow> u32 \<Rightarrow> u32 \<Rightarrow> bcache \<Rightarrow> nat bresult \<times> bcache" where
  "breada dev blkno rablkno c =
     (case (if incore dev blkno c = Got False
            then (case bread_start dev blkno c of (Got i, c) \<Rightarrow> (Got (Some i), c) | (Sleeps, c) \<Rightarrow> (Sleeps, c) | (Stuck, c) \<Rightarrow> (Stuck, c))
            else (Got None, c)) of
        (Got bp, c) \<Rightarrow>
          (case read_ahead dev rablkno c of
             (Got _, c) \<Rightarrow>
               (case bp of None \<Rightarrow> bread dev blkno c
                | Some i \<Rightarrow> (case iowait i c of (Got _, c) \<Rightarrow> (Got i, c) | (r, c) \<Rightarrow> (Sleeps, c)))
           | (Sleeps, c) \<Rightarrow> (Sleeps, c) | (Stuck, c) \<Rightarrow> (Stuck, c))
      | (Sleeps, c) \<Rightarrow> (Sleeps, c) | (Stuck, c) \<Rightarrow> (Stuck, c))"

section \<open>Flushing\<close>

text \<open>The scans of \<open>bflush\<close> and \<open>bdflush\<close>, which start again after a write.\<close>

fun flush_loop :: "nat \<Rightarrow> (buf \<Rightarrow> bool) \<Rightarrow> node \<Rightarrow> bcache \<Rightarrow> bcache option" where
  "flush_loop 0 P p c = None"
| "flush_loop (Suc n) P p c =
     (case p of
        Buf i \<Rightarrow> if B_DELWRI \<in> bflags c i \<and> P (bufs c i) then (let c = evict i c in flush_loop n P (av_forw c Avail) c)
                 else flush_loop n P (av_forw c p) c
      | Avail \<Rightarrow> Some c
      | Hd h \<Rightarrow> None)"

definition flush_fuel :: "bcache \<Rightarrow> nat" where
  "flush_fuel c = v_buf c * v_buf c + v_buf c + 1"

definition bflush :: "u16 \<Rightarrow> bcache \<Rightarrow> bcache option" where
  "bflush dev c = flush_loop (flush_fuel c) (\<lambda>b. dev = NODEV \<or> dev = b_dev b) (av_forw c Avail) c"

abbreviation HZ :: u16 where "HZ \<equiv> 60"

definition bdflush :: "bcache \<Rightarrow> bcache option" where
  "bdflush c = flush_loop (flush_fuel c) (\<lambda>b. scast (v_autoup c * HZ) \<le>s blbolt c - b_start b) (av_forw c Avail) c"

definition bdwait :: "bcache \<Rightarrow> unit bresult \<times> bcache" where
  "bdwait c = (if basyncnt c \<noteq> 0 then (Sleeps, bsleep W_async (c\<lparr>basywait := True\<rparr>)) else (Got (), c))"

text \<open>Marking the buffers of a device after its last close.\<close>

fun mark_chain :: "nat \<Rightarrow> u16 \<Rightarrow> node \<Rightarrow> node \<Rightarrow> bcache \<Rightarrow> bcache option" where
  "mark_chain 0 dev dp p c = None"
| "mark_chain (Suc n) dev dp p c =
     (if p = dp then Some c
      else (let c = (case p of Buf i \<Rightarrow> if b_dev (bufs c i) = dev then upd i (bset {B_STALE, B_AGE}) c else c | _ \<Rightarrow> c)
            in mark_chain n dev dp (b_forw c p) c))"

fun binval_from :: "nat \<Rightarrow> u16 \<Rightarrow> bcache \<Rightarrow> bcache option" where
  "binval_from 0 dev c = Some c"
| "binval_from (Suc n) dev c =
     (let dp = Hd (v_hbuf c - Suc n)
      in case mark_chain (v_buf c + 1) dev dp (b_forw c dp) c of None \<Rightarrow> None | Some c \<Rightarrow> binval_from n dev c)"

definition binval :: "u16 \<Rightarrow> bcache \<Rightarrow> bcache option" where
  "binval dev c = binval_from (v_hbuf c) dev c"

section \<open>Initialisation\<close>

definition binit_one :: "nat \<Rightarrow> bcache \<Rightarrow> bcache" where
  "binit_one i c =
     (let c = upd i (\<lambda>b. b\<lparr>b_dev := NODEV\<rparr>) c;
          n = b_forw c Avail;
          c = c\<lparr>b_back := (b_back c)(Buf i := Avail, n := Buf i), b_forw := (b_forw c)(Buf i := n, Avail := Buf i)\<rparr>
      in brelse i (upd i (\<lambda>b. b\<lparr>b_flags := {B_BUSY}, b_bcount := 0\<rparr>) c))"

definition binit_head :: "nat \<Rightarrow> bcache \<Rightarrow> bcache" where
  "binit_head h c = c\<lparr>b_forw := (b_forw c)(Hd h := Hd h), b_back := (b_back c)(Hd h := Hd h)\<rparr>"

definition binit :: "bcache \<Rightarrow> bcache" where
  "binit c =
     (let c = c\<lparr>b_forw := (b_forw c)(Avail := Avail), b_back := (b_back c)(Avail := Avail),
                av_forw := (av_forw c)(Avail := Avail), av_back := (av_back c)(Avail := Avail)\<rparr>
      in fold binit_head [0..<v_hbuf c] (fold binit_one [0..<v_buf c] c))"

section \<open>The devices\<close>

text \<open>
  A request completes: a read fills the buffer from the device, a write leaves its contents there;
  a failed request is marked in the buffer and leaves \<open>x\<close> in the buffer or on the device.
\<close>

definition transfer :: "nat \<Rightarrow> block \<Rightarrow> bcache \<Rightarrow> bcache" where
  "transfer i x c =
     (let b = bufs c i
      in if B_READ \<in> b_flags b then upd i (\<lambda>b. b\<lparr>b_data := x\<rparr>) c
         else c\<lparr>media := (media c)(b_dev b := (media c (b_dev b))(b_blkno b := x))\<rparr>)"

definition io_ok :: "nat \<Rightarrow> bcache \<Rightarrow> bcache" where
  "io_ok i c =
     (let b = bufs c i
      in iodone i (transfer i (if B_READ \<in> b_flags b then media c (b_dev b) (b_blkno b) else b_data b)
                    (c\<lparr>io_queue := remove1 i (io_queue c)\<rparr>)))"

definition io_fail :: "nat \<Rightarrow> errno option \<Rightarrow> block \<Rightarrow> bcache \<Rightarrow> bcache" where
  "io_fail i e x c =
     iodone i (upd i (\<lambda>b. b\<lparr>b_flags := b_flags b \<union> {B_ERROR}, b_error := e\<rparr>)
                (transfer i x (c\<lparr>io_queue := remove1 i (io_queue c)\<rparr>)))"

end
