(* ===== verification/Cache_Invariant.thy ===== *)
theory Cache_Invariant
  imports Buffer_Cache
begin

text \<open>
  The invariant of the buffer cache. The hash chains and the available list are rings that hold
  the right buffers; the flags of a buffer agree with whether a request for it is at a driver; no
  two buffers hold the same block; a buffer that is done and not marked for a delayed write agrees
  with the device; and whoever sleeps sleeps on something that is going to happen.
\<close>

section \<open>The links\<close>

definition heads :: "bcache \<Rightarrow> node set" where
  "heads c = insert Avail (Hd ` {..<v_hbuf c})"

definition home :: "bcache \<Rightarrow> nat \<Rightarrow> node" where
  "home c i = (if b_dev (bufs c i) = NODEV then Avail else bhash c (b_dev (bufs c i)) (b_blkno (bufs c i)))"

definition chained :: "bcache \<Rightarrow> (node \<Rightarrow> node list) \<Rightarrow> bool" where
  "chained c L \<longleftrightarrow> unat (v_hmask c) < v_hbuf c \<and> rings (b_forw c) (b_back c) (heads c) L \<and>
     (\<forall>h \<in> heads c. set (L h) \<subseteq> Buf ` {..<v_buf c}) \<and> (\<forall>i < v_buf c. Buf i \<in> set (L (home c i)))"

definition avail :: "bcache \<Rightarrow> nat list \<Rightarrow> bool" where
  "avail c F \<longleftrightarrow> v_buf c < 65536 \<and> ring (av_forw c) (av_back c) Avail (map Buf F) \<and>
     set F = {i. i < v_buf c \<and> B_BUSY \<notin> bflags c i} \<and> unat (av_count c) = length F"

lemma bhash_head: "unat (v_hmask c) < v_hbuf c \<Longrightarrow> bhash c d b \<in> heads c"
proof -
  assume "unat (v_hmask c) < v_hbuf c"
  moreover have "unat ((d + ucast b) AND v_hmask c) \<le> unat (v_hmask c)"
    using word_and_le1 [of "d + ucast b" "v_hmask c"] by (simp add: word_le_nat_alt)
  ultimately show ?thesis by (simp add: heads_def bhash_def)
qed

lemma home_head: "chained c L \<Longrightarrow> home c i \<in> heads c"
  by (simp add: home_def bhash_head chained_def) (simp add: heads_def)

lemma chained_buf:
  assumes "chained c L" "h \<in> heads c" "Buf i \<in> set (L h)" shows "i < v_buf c \<and> h = home c i"
proof -
  have i: "i < v_buf c" using assms unfolding chained_def by auto
  then have "Buf i \<in> set (L (home c i))" using assms(1) by (simp add: chained_def)
  moreover have "h \<noteq> home c i \<longrightarrow> set (h # L h) \<inter> set (home c i # L (home c i)) = {}"
    using assms(1,2) home_head [OF assms(1), of i] unfolding chained_def rings_def by blast
  ultimately show ?thesis using assms(3) i by auto
qed

lemma chained_length:
  assumes "chained c L" "h \<in> heads c" shows "length (L h) \<le> v_buf c"
proof -
  have "distinct (L h)" "set (L h) \<subseteq> Buf ` {..<v_buf c}"
    using assms ring_distinct [OF rings_ring, of "b_forw c" "b_back c" "heads c" L h] unfolding chained_def by blast+
  then have "length (L h) \<le> card (Buf ` {..<v_buf c})" by (metis card_mono distinct_card finite_imageI finite_lessThan)
  also have "\<dots> \<le> v_buf c" using card_image_le [of "{..<v_buf c}" Buf] by simp
  finally show ?thesis .
qed

text \<open>The search of a chain finds the buffer of a block, or there is none.\<close>

lemma in_chain_ok:
  assumes C: "chained c L" and d: "dev \<noteq> NODEV"
  shows "(\<exists>i < v_buf c. in_chain c dev blk = Some (Some (Buf i)) \<and> is_block c dev blk (Buf i)) \<or>
    in_chain c dev blk = Some None \<and> (\<forall>i < v_buf c. \<not> is_block c dev blk (Buf i))"
proof -
  let ?h = "bhash c dev blk"
  have h: "?h \<in> heads c" using C by (simp add: chained_def bhash_head)
  have R: "ring (b_forw c) (b_back c) ?h (L ?h)" using C by (intro rings_ring [OF _ h]) (simp add: chained_def)
  have f: "in_chain c dev blk = Some (List.find (is_block c dev blk) (L ?h))"
    using ring_find_ok [OF R, of "v_buf c + 1"] chained_length [OF C h] by (simp add: in_chain_def)
  show ?thesis
  proof (cases "List.find (is_block c dev blk) (L ?h)")
    case None
    have "\<not> is_block c dev blk (Buf i)" if "i < v_buf c" for i
    proof
      assume b: "is_block c dev blk (Buf i)"
      then have "home c i = ?h" using d by (simp add: is_block_def home_def)
      then have "Buf i \<in> set (L ?h)" using C that unfolding chained_def by (metis (no_types))
      then show False using None b by (auto simp: find_None_iff)
    qed
    then show ?thesis using f None by simp
  next
    case (Some p)
    then have p: "p \<in> set (L ?h)" "is_block c dev blk p" by (auto simp: find_Some_iff)
    then obtain i where "p = Buf i" "i < v_buf c" using C h unfolding chained_def by blast
    then show ?thesis using f Some p by auto
  qed
qed

lemma chained_cong:
  assumes "b_forw c' = b_forw c" "b_back c' = b_back c" "v_buf c' = v_buf c" "v_hbuf c' = v_hbuf c" "v_hmask c' = v_hmask c"
    "\<And>i. i < v_buf c \<Longrightarrow> b_dev (bufs c' i) = b_dev (bufs c i) \<and> b_blkno (bufs c' i) = b_blkno (bufs c i)"
  shows "chained c' L = chained c L"
proof -
  have "home c' i = home c i" if "i < v_buf c" for i using assms(5) assms(6) [OF that] by (simp add: home_def bhash_def)
  moreover have "heads c' = heads c" using assms(4) by (simp add: heads_def)
  ultimately show ?thesis using assms(1-5) unfolding chained_def by auto
qed

text \<open>Moving a buffer to the chain of its new home.\<close>

lemma moved_keeps:
  assumes "p \<in> set (L k)" "p \<noteq> x" "L h = us @ x # vs"
  shows "p \<in> set ((L(h := us @ vs, dp := x # (L(h := us @ vs)) dp)) k)"
proof -
  have "p \<in> set ((L(h := us @ vs)) k)"
  proof (cases "k = h")
    case True then show ?thesis using assms by auto
  qed (use assms(1) in simp)
  then show ?thesis by (cases "k = dp") simp_all
qed

lemma chained_rechain:
  assumes C: "chained c L" and i: "i < v_buf c" and dp: "dp \<in> heads c"
    and c': "b_forw c' = b_forw (rechain i dp c)" "b_back c' = b_back (rechain i dp c)" "v_buf c' = v_buf c" "v_hbuf c' = v_hbuf c"
      "v_hmask c' = v_hmask c" "home c' i = dp" "\<And>j. j < v_buf c \<Longrightarrow> j \<noteq> i \<Longrightarrow> home c' j = home c j"
  shows "\<exists>L'. chained c' L'"
proof -
  let ?h = "home c i"
  obtain us vs where l: "L ?h = us @ Buf i # vs" using C i unfolding chained_def by (meson split_list)
  have h: "?h \<in> heads c" by (rule home_head [OF C])
  have R: "rings (b_forw c) (b_back c) (heads c) L" using C by (simp add: chained_def)
  define f where "f = (b_forw c)(b_back c (Buf i) := b_forw c (Buf i))"
  define b where "b = (b_back c)(b_forw c (Buf i) := b_back c (Buf i))"
  let ?M = "L(?h := us @ vs)"
  have M: "rings f b (heads c) ?M" unfolding f_def b_def by (rule rings_unlink [OF R h l])
  have ring: "ring (b_forw c) (b_back c) ?h (us @ Buf i # vs)" using rings_ring [OF R h] l by simp
  have at: "b_back c (Buf i) = last (?h # us)" by (rule ring_at(1) [OF ring])
  have dis: "distinct (?h # us @ Buf i # vs)" using ring by (simp add: ring_def)
  then have ne: "b_back c (Buf i) \<noteq> Buf i" unfolding at by (cases us rule: rev_cases) auto
  then have fi: "f (Buf i) = b_forw c (Buf i)" by (simp add: f_def)
  have no: "Buf i \<notin> heads c" by (auto simp: heads_def)
  have nk: "Buf i \<notin> set (?M k)" if "k \<in> heads c" for k
    using that dis chained_buf [OF C that, of i] by auto
  have "rings (f(Buf i := f dp, dp := Buf i)) ((b(f dp := Buf i))(Buf i := dp)) (heads c) (?M(dp := Buf i # ?M dp))"
    by (rule rings_front [OF M dp no nk])
  moreover have "f dp \<noteq> Buf i"
    using ring_first [OF rings_ring [OF M dp]] nk [OF dp] no dp by (cases "?M dp") auto
  ultimately have r: "rings (b_forw c') (b_back c') (heads c) (?M(dp := Buf i # ?M dp))"
    using fi by (simp add: c' rechain_def Let_def f_def [symmetric] b_def [symmetric] fun_upd_twist)
  have hd: "heads c' = heads c" by (simp add: heads_def c')
  have sub: "set ((?M(dp := Buf i # ?M dp)) k) \<subseteq> Buf ` {..<v_buf c}" if k: "k \<in> heads c" for k
  proof -
    have L: "set (L k) \<subseteq> Buf ` {..<v_buf c}" if "k \<in> heads c" for k using C that unfolding chained_def by blast
    have M: "set (?M k) \<subseteq> set (L k)" for k
    proof (cases "k = ?h")
      case True
      have "set (us @ vs) \<subseteq> set (us @ Buf i # vs)" by auto
      then show ?thesis by (simp only: True fun_upd_same l)
    qed simp
    show ?thesis
    proof (cases "k = dp")
      case True
      have "set (Buf i # ?M dp) \<subseteq> Buf ` {..<v_buf c}" using M [of dp] L [OF dp] i by (auto simp del: fun_upd_apply)
      then show ?thesis by (simp only: True fun_upd_same)
    next
      case False
      then show ?thesis using subset_trans [OF M L [OF k]] by (simp only: fun_upd_other not_False_eq_True)
    qed
  qed
  have mem: "Buf j \<in> set ((?M(dp := Buf i # ?M dp)) (home c' j))" if "j < v_buf c" for j
  proof (cases "j = i")
    case False
    have "Buf j \<in> set (L (home c j))" using C that unfolding chained_def by blast
    from moved_keeps [where L = L and k = "home c j" and h = "home c i" and dp = dp, OF this _ l] False
    show ?thesis unfolding c'(7) [OF that False] by blast
  qed (simp add: c'(6))
  have "unat (v_hmask c') < v_hbuf c'" using C by (simp add: chained_def c')
  then have "chained c' (?M(dp := Buf i # ?M dp))"
    unfolding chained_def hd c'(3) using r sub mem by (intro conjI ballI allI impI)
  then show ?thesis by (rule exI [of "chained c'"])
qed

section \<open>The available list\<close>

lemma avail_cong:
  assumes "av_forw c' = av_forw c" "av_back c' = av_back c" "v_buf c' = v_buf c" "av_count c' = av_count c"
    "\<And>i. i < v_buf c \<Longrightarrow> B_BUSY \<in> bflags c' i \<longleftrightarrow> B_BUSY \<in> bflags c i"
  shows "avail c' F = avail c F"
  using assms unfolding avail_def by auto

lemma avail_first: "avail c F \<Longrightarrow> av_forw c Avail = (case F of [] \<Rightarrow> Avail | i # _ \<Rightarrow> Buf i)"
  using ring_first [of "av_forw c" "av_back c" Avail "map Buf F"] by (auto simp: avail_def split: list.split)

lemma avail_in: "avail c F \<Longrightarrow> i \<in> set F \<longleftrightarrow> i < v_buf c \<and> B_BUSY \<notin> bflags c i"
  by (auto simp: avail_def)

lemma avail_length: "avail c F \<Longrightarrow> length F \<le> v_buf c"
proof -
  assume A: "avail c F"
  have "distinct F" using A ring_distinct [of "av_forw c" "av_back c" Avail "map Buf F"] by (simp add: avail_def distinct_map)
  moreover have "set F \<subseteq> {..<v_buf c}" using A by (auto simp: avail_def)
  ultimately show ?thesis using card_mono [of "{..<v_buf c}" "set F"] by (simp add: distinct_card)
qed

lemma avail_take:
  assumes A: "avail c F" and F: "F = us @ i # vs"
  shows "avail (notavail i c) (us @ vs)"
proof -
  have R: "ring (av_forw c) (av_back c) Avail (map Buf us @ Buf i # map Buf vs)" using A F by (simp add: avail_def)
  have d: "distinct (us @ i # vs)" using ring_distinct [OF R] by (auto simp: distinct_map)
  have "av_back c (Buf i) = last (Avail # map Buf us)" by (rule ring_at(1) [OF R])
  then have ne: "av_back c (Buf i) \<noteq> Buf i" using d by (cases us rule: rev_cases) auto
  have r: "ring (av_forw (notavail i c)) (av_back (notavail i c)) Avail (map Buf (us @ vs))"
    using ring_unlink [OF R] ne by (simp add: notavail_def Let_def)
  have s: "set (us @ vs) = {j. j < v_buf c \<and> B_BUSY \<notin> bflags (notavail i c) j}"
    using A d by (auto simp: avail_def F notavail_def upd_def Let_def)
  have "unat (av_count c) = Suc (length (us @ vs))" using A by (simp add: avail_def F)
  then have "unat (av_count c - 1) = length (us @ vs)" by (simp add: unat_minus_one unat_gt_0 [symmetric] del: unat_gt_0)
  then show ?thesis using A r s by (simp add: avail_def notavail_def upd_def Let_def)
qed

lemma avail_give:
  assumes A: "avail c F" and i: "i < v_buf c" "B_BUSY \<in> bflags c i"
    and c': "v_buf c' = v_buf c" "B_BUSY \<notin> bflags c' i" "\<And>j. j < v_buf c \<Longrightarrow> j \<noteq> i \<Longrightarrow> B_BUSY \<in> bflags c' j \<longleftrightarrow> B_BUSY \<in> bflags c j"
      "av_count c' = av_count c + 1"
      "av_forw c' = av_forw (av_first i c) \<and> av_back c' = av_back (av_first i c) \<or> av_forw c' = av_forw (av_last i c) \<and> av_back c' = av_back (av_last i c)"
  shows "avail c' (i # F) \<or> avail c' (F @ [i])"
proof -
  have R: "ring (av_forw c) (av_back c) Avail (map Buf F)" and n: "i \<notin> set F" "Buf i \<notin> set (Avail # map Buf F)"
    using A i by (auto simp: avail_def)
  have d: "distinct (i # F)" using ring_distinct [OF R] n by (simp add: distinct_map)
  have "set F \<union> {i} \<subseteq> {..<v_buf c}" using A i by (auto simp: avail_def)
  then have "card (set (i # F)) \<le> v_buf c" using card_mono [of "{..<v_buf c}" "set (i # F)"] by simp
  then have "length F + 1 < 65536" using d A distinct_card [of "i # F"] by (simp add: avail_def)
  then have k: "unat (av_count c + 1) = length F + 1" using A by (simp add: avail_def unat_word_ariths)
  have s: "insert i (set F) = {j. j < v_buf c \<and> B_BUSY \<notin> bflags c' j}"
    using A i c' by (auto simp: avail_def)
  have one: "ring (av_forw (av_first i c)) (av_back (av_first i c)) Avail (Buf i # map Buf F)"
    using ring_front [OF R n(2)] by (simp add: av_first_def Let_def)
  have two: "ring (av_forw (av_last i c)) (av_back (av_last i c)) Avail (map Buf F @ [Buf i])"
    using ring_back [OF R n(2)] by (simp add: av_last_def Let_def)
  show ?thesis using c'(5)
  proof (elim disjE)
    assume "av_forw c' = av_forw (av_first i c) \<and> av_back c' = av_back (av_first i c)"
    then have "avail c' (i # F)" using one A s k c' by (auto simp: avail_def)
    then show ?thesis ..
  next
    assume "av_forw c' = av_forw (av_last i c) \<and> av_back c' = av_back (av_last i c)"
    then have "avail c' (F @ [i])" using two A s k c' by (auto simp: avail_def)
    then show ?thesis ..
  qed
qed

end
