(* ===== verification/Cache_Core.thy ===== *)
theory Cache_Core
  imports Cache_Invariant
begin

text \<open>
  The invariant on flags, contents, requests and sleepers of the buffer cache, and what the cache
  holds of a block: the contents of the buffer with a write outstanding, otherwise those on the device.
\<close>

section \<open>The invariant\<close>

definition buf_ok :: "bool \<Rightarrow> buf \<Rightarrow> bool" where
  "buf_ok q b \<longleftrightarrow>
     (q \<longrightarrow> B_BUSY \<in> b_flags b \<and> B_DONE \<notin> b_flags b \<and> B_ERROR \<notin> b_flags b \<and> B_DELWRI \<notin> b_flags b \<and> b_dev b \<noteq> NODEV) \<and>
     (B_STALE \<in> b_flags b \<longrightarrow> B_BUSY \<notin> b_flags b) \<and>
     (B_DELWRI \<in> b_flags b \<longrightarrow> B_DONE \<in> b_flags b \<and> B_ERROR \<notin> b_flags b \<and> B_STALE \<notin> b_flags b \<and> b_dev b \<noteq> NODEV) \<and>
     (B_BUSY \<notin> b_flags b \<longrightarrow> B_ERROR \<notin> b_flags b \<and> B_WANTED \<notin> b_flags b) \<and>
     (B_ASYNC \<in> b_flags b \<longrightarrow> q) \<and> (B_ERROR \<in> b_flags b \<longrightarrow> B_DONE \<in> b_flags b)"

definition clean :: "buf \<Rightarrow> bool" where
  "clean b \<longleftrightarrow> b_dev b \<noteq> NODEV \<and> {B_STALE, B_ERROR, B_DELWRI} \<inter> b_flags b = {} \<and> B_DONE \<in> b_flags b"

definition same_block :: "buf \<Rightarrow> buf \<Rightarrow> bool" where
  "same_block a b \<longleftrightarrow> b_dev a = b_dev b \<and> b_blkno a = b_blkno b"

definition named :: "buf \<Rightarrow> bool" where
  "named b \<longleftrightarrow> b_dev b \<noteq> NODEV \<and> B_STALE \<notin> b_flags b"

text \<open>The asynchronous writes at the drivers.\<close>

definition awrites :: "bcache \<Rightarrow> nat set" where
  "awrites c = {i \<in> set (io_queue c). B_ASYNC \<in> bflags c i \<and> B_READ \<notin> bflags c i}"

fun wait_ok :: "bcache \<Rightarrow> bwait \<Rightarrow> bool" where
  "wait_ok c (W_buf i) \<longleftrightarrow> i < v_buf c \<and> B_BUSY \<in> bflags c i \<and> B_WANTED \<in> bflags c i"
| "wait_ok c (W_io i) \<longleftrightarrow> i \<in> set (io_queue c) \<and> B_ASYNC \<notin> bflags c i"
| "wait_ok c W_free \<longleftrightarrow> av_wanted c \<and> (\<forall>i < v_buf c. B_BUSY \<in> bflags c i)"
| "wait_ok c W_async \<longleftrightarrow> basywait c \<and> basyncnt c \<noteq> 0"

definition core :: "bcache \<Rightarrow> bool" where
  "core c \<longleftrightarrow>
     distinct (io_queue c) \<and> set (io_queue c) \<subseteq> {..<v_buf c} \<and>
     (\<forall>i < v_buf c. buf_ok (i \<in> set (io_queue c)) (bufs c i)) \<and>
     (\<forall>i < v_buf c. \<forall>j < v_buf c. i \<noteq> j \<longrightarrow> named (bufs c i) \<longrightarrow> named (bufs c j) \<longrightarrow> \<not> same_block (bufs c i) (bufs c j)) \<and>
     (\<forall>i < v_buf c. clean (bufs c i) \<longrightarrow> b_data (bufs c i) = media c (b_dev (bufs c i)) (b_blkno (bufs c i))) \<and>
     basyncnt c = int (card (awrites c)) \<and>
     (\<forall>w \<in> set (sleepers c). wait_ok c w)"

lemma core_queue: "core c \<Longrightarrow> distinct (io_queue c)" "core c \<Longrightarrow> i \<in> set (io_queue c) \<Longrightarrow> i < v_buf c"
  and core_buf: "core c \<Longrightarrow> i < v_buf c \<Longrightarrow> buf_ok (i \<in> set (io_queue c)) (bufs c i)"
  and core_unique: "core c \<Longrightarrow> i < v_buf c \<Longrightarrow> j < v_buf c \<Longrightarrow> i \<noteq> j \<Longrightarrow> named (bufs c i) \<Longrightarrow> named (bufs c j) \<Longrightarrow>
    \<not> same_block (bufs c i) (bufs c j)"
  and core_clean: "core c \<Longrightarrow> i < v_buf c \<Longrightarrow> clean (bufs c i) \<Longrightarrow> b_data (bufs c i) = media c (b_dev (bufs c i)) (b_blkno (bufs c i))"
  and core_async: "core c \<Longrightarrow> basyncnt c = int (card (awrites c))"
  and core_wait: "core c \<Longrightarrow> w \<in> set (sleepers c) \<Longrightarrow> wait_ok c w"
  unfolding core_def by blast+

lemma card_one: "finite A \<Longrightarrow> int (card A) = int (card (A - {i})) + of_bool (i \<in> A)"
proof (cases "i \<in> A")
  case True
  assume "finite A"
  then have "card A = Suc (card (A - {i}))" using True by (rule card.remove)
  then show ?thesis using True by (simp only: of_nat_Suc) simp
qed simp

text \<open>A step that changes one buffer and what is about it.\<close>

lemma core_upd:
  assumes C: "core c" and i: "i < v_buf c" "v_buf c' = v_buf c" "bufs c' = (bufs c)(i := b)"
    and q: "distinct (io_queue c')" "set (io_queue c') \<subseteq> {..<v_buf c}" "\<And>j. j \<noteq> i \<Longrightarrow> j \<in> set (io_queue c') \<longleftrightarrow> j \<in> set (io_queue c)"
    and b: "buf_ok (i \<in> set (io_queue c')) b"
    and u: "\<And>j. named b \<Longrightarrow> j < v_buf c \<Longrightarrow> j \<noteq> i \<Longrightarrow> named (bufs c j) \<Longrightarrow> \<not> same_block (bufs c j) b"
    and m: "\<And>d k. media c' d k = media c d k \<or> (\<exists>a \<in> {b, bufs c i}. named a \<and> d = b_dev a \<and> k = b_blkno a)"
    and d: "clean b \<Longrightarrow> b_data b = media c' (b_dev b) (b_blkno b)"
    and a: "basyncnt c' = basyncnt c - of_bool (i \<in> awrites c) + of_bool (i \<in> awrites c')"
    and w: "\<And>w. w \<in> set (sleepers c') \<Longrightarrow> wait_ok c' w"
  shows "core c'"
proof -
  have "buf_ok (j \<in> set (io_queue c')) (bufs c' j)" if "j < v_buf c" for j
    using b core_buf [OF C that] q(3) by (cases "j = i") (simp_all add: i)
  moreover have "\<not> same_block (bufs c' j) (bufs c' k)"
    if "j < v_buf c" "k < v_buf c" "j \<noteq> k" "named (bufs c' j)" "named (bufs c' k)" for j k
    using core_unique [OF C that(1,2,3)] u [of j] u [of k] that by (cases "j = i"; cases "k = i") (auto simp: i same_block_def)
  moreover have "b_data (bufs c' j) = media c' (b_dev (bufs c' j)) (b_blkno (bufs c' j))" if j: "j < v_buf c" "clean (bufs c' j)" for j
  proof (cases "j = i")
    case False
    then have c: "clean (bufs c j)" using j by (simp add: i)
    then have n: "named (bufs c j)" by (auto simp: clean_def named_def)
    have "media c' (b_dev (bufs c j)) (b_blkno (bufs c j)) = media c (b_dev (bufs c j)) (b_blkno (bufs c j))"
      using m [of "b_dev (bufs c j)" "b_blkno (bufs c j)"] u [OF _ j(1) False n] core_unique [OF C j(1) i(1) False n]
      by (auto simp: same_block_def)
    then show ?thesis using core_clean [OF C j(1) c] False by (simp add: i)
  qed (use d j in \<open>simp add: i\<close>)
  moreover have "basyncnt c' = int (card (awrites c'))"
  proof -
    have "awrites c' - {i} = awrites c - {i}" using q(3) by (auto simp: awrites_def i)
    moreover have "finite (awrites c)" "finite (awrites c')" by (simp_all add: awrites_def)
    ultimately have "int (card (awrites c')) - of_bool (i \<in> awrites c') = int (card (awrites c)) - of_bool (i \<in> awrites c)"
      using card_one [of "awrites c" i] card_one [of "awrites c'" i] by simp
    then show ?thesis using a core_async [OF C] by linarith
  qed
  ultimately show ?thesis using q(1,2) w by (simp add: core_def i(2))
qed

section \<open>What the cache holds of a block\<close>

definition dirty :: "bcache \<Rightarrow> nat \<Rightarrow> bool" where
  "dirty c i \<longleftrightarrow> B_DELWRI \<in> bflags c i \<or> i \<in> set (io_queue c) \<and> B_READ \<notin> bflags c i"

definition view :: "bcache \<Rightarrow> u16 \<Rightarrow> u32 \<Rightarrow> block" where
  "view c d k =
     (case List.find (\<lambda>i. dirty c i \<and> b_dev (bufs c i) = d \<and> b_blkno (bufs c i) = k) [0..<v_buf c] of
        None \<Rightarrow> media c d k | Some i \<Rightarrow> b_data (bufs c i))"

lemma dirty_named: "core c \<Longrightarrow> i < v_buf c \<Longrightarrow> dirty c i \<Longrightarrow> named (bufs c i)"
  using core_buf [of c i] by (auto simp: dirty_def buf_ok_def named_def)

lemma view_media: "(\<And>i. i < v_buf c \<Longrightarrow> dirty c i \<Longrightarrow> \<not> (b_dev (bufs c i) = d \<and> b_blkno (bufs c i) = k)) \<Longrightarrow> view c d k = media c d k"
proof -
  assume "\<And>i. i < v_buf c \<Longrightarrow> dirty c i \<Longrightarrow> \<not> (b_dev (bufs c i) = d \<and> b_blkno (bufs c i) = k)"
  then have "List.find (\<lambda>i. dirty c i \<and> b_dev (bufs c i) = d \<and> b_blkno (bufs c i) = k) [0..<v_buf c] = None"
    by (auto simp: find_None_iff)
  then show ?thesis by (simp add: view_def)
qed

lemma view_dirty:
  assumes C: "core c" and i: "i < v_buf c" "dirty c i" shows "view c (b_dev (bufs c i)) (b_blkno (bufs c i)) = b_data (bufs c i)"
proof -
  let ?P = "\<lambda>j. dirty c j \<and> b_dev (bufs c j) = b_dev (bufs c i) \<and> b_blkno (bufs c j) = b_blkno (bufs c i)"
  have "j = i" if "j < v_buf c" "?P j" for j
    using core_unique [OF C that(1) i(1)] dirty_named [OF C] i that by (auto simp: same_block_def)
  moreover obtain j where "List.find ?P [0..<v_buf c] = Some j"
    using i by (cases "List.find ?P [0..<v_buf c]") (auto simp: find_None_iff)
  ultimately have "List.find ?P [0..<v_buf c] = Some i" by (auto dest!: find_Some_iff [THEN iffD1])
  then show ?thesis by (simp add: view_def)
qed

text \<open>The view of a block after a step that changes one buffer.\<close>

lemma view_rest:
  assumes C: "core c" "core c'" and i: "v_buf c' = v_buf c" "bufs c' = (bufs c)(i := b)"
    and q: "\<And>j. j \<noteq> i \<Longrightarrow> j \<in> set (io_queue c') \<longleftrightarrow> j \<in> set (io_queue c)"
    and m: "media c' d k = media c d k"
    and o: "dirty c i \<Longrightarrow> b_dev (bufs c i) = d \<Longrightarrow> b_blkno (bufs c i) = k \<Longrightarrow> dirty c' i \<and> b_dev b = d \<and> b_blkno b = k \<and> b_data b = b_data (bufs c i)"
    and n: "dirty c' i \<Longrightarrow> b_dev b = d \<Longrightarrow> b_blkno b = k \<Longrightarrow> dirty c i \<and> b_dev (bufs c i) = d \<and> b_blkno (bufs c i) = k"
  shows "view c' d k = view c d k"
proof (cases "\<exists>j < v_buf c. dirty c j \<and> b_dev (bufs c j) = d \<and> b_blkno (bufs c j) = k")
  case True
  then obtain j where j: "j < v_buf c" "dirty c j" "b_dev (bufs c j) = d" "b_blkno (bufs c j) = k" by blast
  have "dirty c' j \<and> b_dev (bufs c' j) = d \<and> b_blkno (bufs c' j) = k \<and> b_data (bufs c' j) = b_data (bufs c j)"
    using o j q [of j] by (cases "j = i") (auto simp: i dirty_def)
  then show ?thesis using view_dirty [OF C(1) j(1,2)] view_dirty [OF C(2), of j] j i(1) by simp
next
  case False
  have "\<not> (b_dev (bufs c' j) = d \<and> b_blkno (bufs c' j) = k)" if "j < v_buf c'" "dirty c' j" for j
    using that False n q [of j] by (cases "j = i") (auto simp: i dirty_def)
  then show ?thesis using view_media [of c d k] view_media [of c' d k] False m by metis
qed

end
