(* ===== verification/Cache_Steps.thy ===== *)
theory Cache_Steps
  imports Cache_Core
begin

text \<open>
  What each step of the buffer cache changes, that it preserves the invariant, and what it does to
  the contents the cache holds of the blocks.
\<close>

section \<open>Effects\<close>

definition released :: "buf \<Rightarrow> buf" where
  "released b =
     (let F = b_flags b; F = (if B_ERROR \<in> F then F \<union> {B_STALE, B_AGE} - {B_ERROR, B_DELWRI} else F)
      in b\<lparr>b_flags := F - {B_WANTED, B_BUSY, B_ASYNC, B_AGE}, b_error := (if B_ERROR \<in> b_flags b then None else b_error b)\<rparr>)"

lemma brelse_fields [simp]:
  "bufs (brelse i c) = (bufs c)(i := released (bufs c i))"
  "v_buf (brelse i c) = v_buf c" "v_hbuf (brelse i c) = v_hbuf c" "v_hmask (brelse i c) = v_hmask c"
  "b_forw (brelse i c) = b_forw c" "b_back (brelse i c) = b_back c" "av_count (brelse i c) = av_count c + 1"
  "av_wanted (brelse i c) = False" "basyncnt (brelse i c) = basyncnt c" "basywait (brelse i c) = basywait c"
  "io_queue (brelse i c) = io_queue c" "media (brelse i c) = media c"
  by (auto simp: brelse_def Let_def upd_def bwakeup_def av_first_def av_last_def released_def fun_eq_iff)

lemma brelse_sleepers:
  "set (sleepers (brelse i c)) \<subseteq>
     {w \<in> set (sleepers c). \<not> (B_WANTED \<in> bflags c i \<and> w = W_buf i) \<and> \<not> (av_wanted c \<and> w = W_free)}"
  by (auto simp: brelse_def Let_def upd_def bwakeup_def av_first_def av_last_def)

lemma brelse_links:
  "av_forw (brelse i c) = av_forw (av_first i c) \<and> av_back (brelse i c) = av_back (av_first i c) \<or>
   av_forw (brelse i c) = av_forw (av_last i c) \<and> av_back (brelse i c) = av_back (av_last i c)"
  by (auto simp: brelse_def Let_def upd_def bwakeup_def av_first_def av_last_def)

lemma released_simps [simp]:
  "b_dev (released b) = b_dev b" "b_blkno (released b) = b_blkno b" "b_data (released b) = b_data b"
  "b_flags (released b) = (if B_ERROR \<in> b_flags b then insert B_STALE (b_flags b - {B_ERROR, B_DELWRI}) else b_flags b) - {B_WANTED, B_BUSY, B_ASYNC, B_AGE}"
  by (auto simp: released_def Let_def)

lemma notavail_fields [simp]:
  "bufs (notavail i c) = (bufs c)(i := bset {B_BUSY} (bufs c i))"
  "v_buf (notavail i c) = v_buf c" "v_hbuf (notavail i c) = v_hbuf c" "v_hmask (notavail i c) = v_hmask c"
  "b_forw (notavail i c) = b_forw c" "b_back (notavail i c) = b_back c"
  "av_wanted (notavail i c) = av_wanted c" "basyncnt (notavail i c) = basyncnt c" "basywait (notavail i c) = basywait c"
  "io_queue (notavail i c) = io_queue c" "media (notavail i c) = media c" "sleepers (notavail i c) = sleepers c"
  by (simp_all add: notavail_def upd_def Let_def)

text \<open>The fields the links are made of.\<close>

definition same_links :: "bcache \<Rightarrow> bcache \<Rightarrow> bool" where
  "same_links c c' \<longleftrightarrow> b_forw c' = b_forw c \<and> b_back c' = b_back c \<and> v_buf c' = v_buf c \<and> v_hbuf c' = v_hbuf c \<and> v_hmask c' = v_hmask c \<and>
     (\<forall>i. b_dev (bufs c' i) = b_dev (bufs c i) \<and> b_blkno (bufs c' i) = b_blkno (bufs c i))"

definition same_avail :: "bcache \<Rightarrow> bcache \<Rightarrow> bool" where
  "same_avail c c' \<longleftrightarrow> av_forw c' = av_forw c \<and> av_back c' = av_back c \<and> av_count c' = av_count c \<and> v_buf c' = v_buf c \<and>
     (\<forall>i. B_BUSY \<in> bflags c' i \<longleftrightarrow> B_BUSY \<in> bflags c i)"

lemma chained_same: "same_links c c' \<Longrightarrow> chained c' L = chained c L"
  by (rule chained_cong) (simp_all add: same_links_def)

lemma avail_same: "same_avail c c' \<Longrightarrow> avail c' F = avail c F"
  by (rule avail_cong) (simp_all add: same_avail_def)

section \<open>Taking a buffer\<close>

text \<open>A sleeper that a step on the buffer \<open>i\<close> leaves alone.\<close>

lemma wait_other:
  assumes "wait_ok c w" "v_buf c' = v_buf c" "bufs c' = (bufs c)(i := b)" "\<And>j. j \<noteq> i \<Longrightarrow> j \<in> set (io_queue c') \<longleftrightarrow> j \<in> set (io_queue c)"
    "w = W_buf i \<Longrightarrow> B_BUSY \<in> b_flags b \<and> B_WANTED \<in> b_flags b"
    "w = W_io i \<Longrightarrow> i \<in> set (io_queue c') \<and> B_ASYNC \<notin> b_flags b"
    "w = W_free \<Longrightarrow> av_wanted c' \<and> B_BUSY \<in> b_flags b"
    "w = W_async \<Longrightarrow> basywait c \<Longrightarrow> basyncnt c \<noteq> 0 \<Longrightarrow> basywait c' \<and> basyncnt c' \<noteq> 0"
  shows "wait_ok c' w"
  using assms by (cases w) auto

lemma core_free: "core c \<Longrightarrow> i < v_buf c \<Longrightarrow> B_BUSY \<notin> bflags c i \<Longrightarrow>
    i \<notin> set (io_queue c) \<and> W_buf i \<notin> set (sleepers c) \<and> W_io i \<notin> set (sleepers c) \<and> W_free \<notin> set (sleepers c) \<and> i \<notin> awrites c \<and>
    B_ERROR \<notin> bflags c i \<and> B_WANTED \<notin> bflags c i \<and> B_ASYNC \<notin> bflags c i"
  using core_buf [of c i] core_wait [of c "W_buf i"] core_wait [of c "W_io i"] core_wait [of c W_free] by (auto simp: buf_ok_def awrites_def)

text \<open>A step that changes one buffer and leaves it its block.\<close>

lemma core_keep:
  assumes C: "core c" and i: "i < v_buf c" "v_buf c' = v_buf c" "bufs c' = (bufs c)(i := b)"
    and k: "b_dev b = b_dev (bufs c i)" "b_blkno b = b_blkno (bufs c i)" "named b \<Longrightarrow> named (bufs c i)"
    and q: "distinct (io_queue c')" "set (io_queue c') \<subseteq> {..<v_buf c}" "\<And>j. j \<noteq> i \<Longrightarrow> j \<in> set (io_queue c') \<longleftrightarrow> j \<in> set (io_queue c)"
    and b: "buf_ok (i \<in> set (io_queue c')) b"
    and m: "\<And>d k. media c' d k = media c d k \<or> (\<exists>a \<in> {b, bufs c i}. named a \<and> d = b_dev a \<and> k = b_blkno a)"
    and d: "clean b \<Longrightarrow> b_data b = media c' (b_dev b) (b_blkno b)"
    and a: "basyncnt c' = basyncnt c - of_bool (i \<in> awrites c) + of_bool (i \<in> awrites c')"
    and w: "\<And>w. w \<in> set (sleepers c') \<Longrightarrow> wait_ok c' w"
  shows "core c'"
proof (rule core_upd [OF C i q b _ m d a w])
  show "\<not> same_block (bufs c j) b" if "named b" "j < v_buf c" "j \<noteq> i" "named (bufs c j)" for j
    using core_unique [OF C that(2) i(1) that(3,4) k(3) [OF that(1)]] k(1,2) by (simp add: same_block_def)
qed

lemma grab_core:
  assumes C: "core c" and i: "i < v_buf c" "B_BUSY \<notin> bflags c i" "B_STALE \<notin> bflags c i"
  shows "core (notavail i c)" "view (notavail i c) d k = view c d k"
proof -
  let ?b = "bset {B_BUSY} (bufs c i)"
  note f = core_free [OF C i(1,2)] and b = core_buf [OF C i(1)]
  show core: "core (notavail i c)"
  proof (rule core_keep [OF C i(1), where b = ?b])
    show "buf_ok (i \<in> set (io_queue (notavail i c))) ?b" using b i f by (auto simp: buf_ok_def)
    show "b_data ?b = media (notavail i c) (b_dev ?b) (b_blkno ?b)" if "clean ?b"
      using core_clean [OF C i(1)] that by (auto simp: clean_def)
    show "wait_ok (notavail i c) w" if "w \<in> set (sleepers (notavail i c))" for w
      by (rule wait_other [OF core_wait [OF C], where i = i]) (use that f in auto)
  qed (use C f core_queue [OF C] in \<open>auto simp: awrites_def named_def\<close>)
  show "view (notavail i c) d k = view c d k"
    by (rule view_rest [OF C core, where i = i and b = ?b]) (auto simp: dirty_def)
qed

lemma evict_fields [simp]:
  "B_DELWRI \<in> bflags c i \<Longrightarrow>
   bufs (evict i c) = (bufs c)(i := bclr {B_READ, B_DONE, B_ERROR, B_DELWRI} (bset {B_BUSY, B_ASYNC} (bufs c i)))"
  "v_buf (evict i c) = v_buf c" "v_hbuf (evict i c) = v_hbuf c" "v_hmask (evict i c) = v_hmask c"
  "b_forw (evict i c) = b_forw c" "b_back (evict i c) = b_back c"
  "av_wanted (evict i c) = av_wanted c" "basyncnt (evict i c) = basyncnt c + 1" "basywait (evict i c) = basywait c"
  "io_queue (evict i c) = io_queue c @ [i]" "media (evict i c) = media c" "sleepers (evict i c) = sleepers c"
  by (auto simp: evict_def bwrite_start_def strategy_def geterror_def upd_def Let_def fun_eq_iff insert_commute)

lemma evict_core:
  assumes C: "core c" and i: "i < v_buf c" "B_BUSY \<notin> bflags c i" "B_DELWRI \<in> bflags c i"
  shows "core (evict i c)" "view (evict i c) d k = view c d k"
proof -
  let ?b = "bclr {B_READ, B_DONE, B_ERROR, B_DELWRI} (bset {B_BUSY, B_ASYNC} (bufs c i))"
  note f = core_free [OF C i(1,2)] and b = core_buf [OF C i(1)]
  show core: "core (evict i c)"
  proof (rule core_keep [OF C i(1), where b = ?b])
    show "buf_ok (i \<in> set (io_queue (evict i c))) ?b" using b i f by (auto simp: buf_ok_def)
    show "wait_ok (evict i c) w" if "w \<in> set (sleepers (evict i c))" for w
      by (rule wait_other [OF core_wait [OF C], where i = i and b = ?b]) (use that f i in \<open>auto simp: core_async [OF C]\<close>)
  qed (use C i f core_queue [OF C] in \<open>auto simp: awrites_def named_def clean_def\<close>)
  show "view (evict i c) d k = view c d k"
    by (rule view_rest [OF C core, where i = i and b = ?b]) (use i in \<open>auto simp: dirty_def\<close>)
qed

lemma rechain_fields [simp]:
  "bufs (rechain i dp c) = bufs c" "v_buf (rechain i dp c) = v_buf c" "v_hbuf (rechain i dp c) = v_hbuf c"
  "v_hmask (rechain i dp c) = v_hmask c" "av_forw (rechain i dp c) = av_forw c" "av_back (rechain i dp c) = av_back c"
  "av_count (rechain i dp c) = av_count c" "av_wanted (rechain i dp c) = av_wanted c" "basyncnt (rechain i dp c) = basyncnt c"
  "basywait (rechain i dp c) = basywait c" "io_queue (rechain i dp c) = io_queue c" "media (rechain i dp c) = media c"
  "sleepers (rechain i dp c) = sleepers c"
  by (simp_all add: rechain_def Let_def)

text \<open>A buffer that is given another block.\<close>

lemma given_core:
  assumes C: "core c" and i: "i < v_buf c" "B_BUSY \<notin> bflags c i" "B_DELWRI \<notin> bflags c i"
    and c': "v_buf c' = v_buf c" "bufs c' = (bufs c)(i := b)" "io_queue c' = io_queue c" "media c' = media c" "sleepers c' = sleepers c"
      "av_wanted c' = av_wanted c" "basyncnt c' = basyncnt c" "basywait c' = basywait c"
    and b: "b_flags b = insert B_BUSY F" "F \<subseteq> {B_AGE}"
    and n: "\<And>j. j < v_buf c \<Longrightarrow> j \<noteq> i \<Longrightarrow> named b \<Longrightarrow> named (bufs c j) \<Longrightarrow> \<not> same_block (bufs c j) b"
  shows "core c'" "view c' d k = view c d k"
proof -
  note f = core_free [OF C i(1,2)]
  have F: "x \<notin> F" if "x \<noteq> B_AGE" for x using that b(2) by auto
  show core: "core c'"
  proof (rule core_upd [OF C i(1), where b = b])
    show "buf_ok (i \<in> set (io_queue c')) b" using f by (auto simp: buf_ok_def c' b F)
    show "wait_ok c' w" if "w \<in> set (sleepers c')" for w
      by (rule wait_other [OF core_wait [OF C], where i = i and b = b]) (use that f in \<open>auto simp: c'\<close>)
    show "\<not> same_block (bufs c j) b" if "named b" "j < v_buf c" "j \<noteq> i" "named (bufs c j)" for j by (rule n) (use that in auto)
  qed (use C i f core_queue [OF C] in \<open>auto simp: awrites_def clean_def c' b F\<close>)
  show "view c' d k = view c d k"
    by (rule view_rest [OF C core c'(1,2)]) (use i f in \<open>auto simp: dirty_def c' b F\<close>)
qed

lemma assign_fields [simp]:
  "bufs (assign i dev blk c) = (bufs c)(i := (bufs c i)\<lparr>b_flags := {B_BUSY}, b_dev := dev, b_blkno := blk, b_bcount := BSIZE\<rparr>)"
  "v_buf (assign i dev blk c) = v_buf c" "v_hbuf (assign i dev blk c) = v_hbuf c" "v_hmask (assign i dev blk c) = v_hmask c"
  "av_wanted (assign i dev blk c) = av_wanted c" "basyncnt (assign i dev blk c) = basyncnt c" "basywait (assign i dev blk c) = basywait c"
  "io_queue (assign i dev blk c) = io_queue c" "media (assign i dev blk c) = media c" "sleepers (assign i dev blk c) = sleepers c"
  by (simp_all add: assign_def upd_def Let_def)

lemma unassign_fields [simp]:
  "bufs (unassign i c) = (bufs c)(i := (bufs c i)\<lparr>b_flags := {B_BUSY, B_AGE}, b_dev := NODEV, b_bcount := SBUFSIZE\<rparr>)"
  "v_buf (unassign i c) = v_buf c" "v_hbuf (unassign i c) = v_hbuf c" "v_hmask (unassign i c) = v_hmask c"
  "av_wanted (unassign i c) = av_wanted c" "basyncnt (unassign i c) = basyncnt c" "basywait (unassign i c) = basywait c"
  "io_queue (unassign i c) = io_queue c" "media (unassign i c) = media c" "sleepers (unassign i c) = sleepers c"
  by (simp_all add: unassign_def upd_def Let_def)

lemma assign_core:
  assumes C: "core c" and i: "i < v_buf c" "B_BUSY \<notin> bflags c i" "B_DELWRI \<notin> bflags c i"
    and n: "\<forall>j < v_buf c. \<not> is_block c dev blk (Buf j)"
  shows "core (assign i dev blk c)" "view (assign i dev blk c) d k = view c d k"
  by (rule given_core [OF C i, where F = "{}" and b = "(bufs c i)\<lparr>b_flags := {B_BUSY}, b_dev := dev, b_blkno := blk, b_bcount := BSIZE\<rparr>"]; use n in \<open>auto simp: same_block_def is_block_def named_def\<close>)+

lemma unassign_core:
  assumes C: "core c" and i: "i < v_buf c" "B_BUSY \<notin> bflags c i" "B_DELWRI \<notin> bflags c i"
  shows "core (unassign i c)" "view (unassign i c) d k = view c d k"
  by (rule given_core [OF C i, where F = "{B_AGE}" and b = "(bufs c i)\<lparr>b_flags := {B_BUSY, B_AGE}, b_dev := NODEV, b_bcount := SBUFSIZE\<rparr>"]; auto simp: same_block_def named_def)+

section \<open>Sleeping\<close>

lemma core_sleepers:
  assumes C: "core c" and c': "v_buf c' = v_buf c" "bufs c' = bufs c" "io_queue c' = io_queue c" "media c' = media c" "basyncnt c' = basyncnt c"
    and w: "\<And>w. w \<in> set (sleepers c') \<Longrightarrow> wait_ok c' w"
  shows "core c'" "view c' d k = view c d k"
proof -
  have "awrites c' = awrites c" by (simp add: awrites_def c')
  then show "core c'" using C w by (simp add: core_def c')
  have "dirty c' = dirty c" by (simp add: dirty_def c' fun_eq_iff)
  then show "view c' d k = view c d k" by (simp only: view_def c')
qed

lemma wait_same: "wait_ok c w \<Longrightarrow> v_buf c' = v_buf c \<Longrightarrow> bufs c' = bufs c \<Longrightarrow> io_queue c' = io_queue c \<Longrightarrow> basyncnt c' = basyncnt c \<Longrightarrow>
    (av_wanted c \<Longrightarrow> av_wanted c') \<Longrightarrow> (basywait c \<Longrightarrow> basywait c') \<Longrightarrow> wait_ok c' w"
  by (cases w) auto

lemma bsleep_core:
  assumes C: "core c" and c': "v_buf c' = v_buf c" "bufs c' = bufs c" "io_queue c' = io_queue c" "media c' = media c" "basyncnt c' = basyncnt c"
    "av_wanted c \<Longrightarrow> av_wanted c'" "basywait c \<Longrightarrow> basywait c'" "sleepers c' = sleepers c" and w: "wait_ok c' w"
  shows "core (bsleep w c')" "view (bsleep w c') d k = view c d k"
proof -
  have "wait_ok (bsleep w c') v" if "v \<in> set (sleepers (bsleep w c'))" for v
  proof (cases "v = w")
    case True show ?thesis by (rule wait_same [OF w [folded True]]) (simp_all add: bsleep_def)
  next
    case False
    then have "wait_ok c v" using core_wait [OF C] that c' by (simp add: bsleep_def)
    then show ?thesis by (rule wait_same) (use c' in \<open>simp_all add: bsleep_def\<close>)
  qed
  then show "core (bsleep w c')" "view (bsleep w c') d k = view c d k"
    using core_sleepers [OF C, of "bsleep w c'"] c' by (simp_all add: bsleep_def)
qed

text \<open>Asking for a buffer that is busy.\<close>

lemma wanted_core:
  assumes C: "core c" and i: "i < v_buf c" "B_BUSY \<in> bflags c i"
  shows "core (bsleep (W_buf i) (upd i (bset {B_WANTED}) c))" "view (bsleep (W_buf i) (upd i (bset {B_WANTED}) c)) d k = view c d k"
proof -
  let ?c = "upd i (bset {B_WANTED}) c" let ?b = "bset {B_WANTED} (bufs c i)"
  have b: "buf_ok (i \<in> set (io_queue c)) (bufs c i)" by (rule core_buf [OF C i(1)])
  have C1: "core ?c"
  proof (rule core_keep [OF C i(1), where b = ?b])
    show "buf_ok (i \<in> set (io_queue ?c)) ?b" using b i by (auto simp: buf_ok_def upd_def)
    show "b_data ?b = media ?c (b_dev ?b) (b_blkno ?b)" if "clean ?b"
      using core_clean [OF C i(1)] that by (auto simp: clean_def upd_def)
    show "wait_ok ?c w" if "w \<in> set (sleepers ?c)" for w
      using core_wait [OF C, of w] that i by (cases w) (auto simp: upd_def)
  qed (use core_queue [OF C] in \<open>auto simp: awrites_def named_def upd_def\<close>)
  have "view ?c d k = view c d k"
    by (rule view_rest [OF C C1, where i = i and b = ?b]) (auto simp: dirty_def upd_def)
  then show "core (bsleep (W_buf i) ?c)" "view (bsleep (W_buf i) ?c) d k = view c d k"
    using bsleep_core(1) [OF C1, of ?c "W_buf i"] bsleep_core(2) [OF C1, of ?c "W_buf i" d k] i by (simp_all add: upd_def)
qed

lemma no_buffer_core:
  assumes C: "core c" and f: "\<forall>i < v_buf c. B_BUSY \<in> bflags c i"
  shows "core (bsleep W_free (c\<lparr>av_wanted := True\<rparr>))" "view (bsleep W_free (c\<lparr>av_wanted := True\<rparr>)) d k = view c d k"
  using bsleep_core [OF C, of "c\<lparr>av_wanted := True\<rparr>" W_free] f by simp_all

lemma io_sleep_core:
  assumes C: "core c" and i: "i \<in> set (io_queue c)" "B_ASYNC \<notin> bflags c i"
  shows "core (bsleep (W_io i) c)" "view (bsleep (W_io i) c) d k = view c d k"
  using bsleep_core [OF C, of c "W_io i"] i by simp_all

lemma async_sleep_core:
  assumes C: "core c" and n: "basyncnt c \<noteq> 0"
  shows "core (bsleep W_async (c\<lparr>basywait := True\<rparr>))" "view (bsleep W_async (c\<lparr>basywait := True\<rparr>)) d k = view c d k"
  using bsleep_core [OF C, of "c\<lparr>basywait := True\<rparr>" W_async] n by simp_all

lemma geterror_fields [simp]:
  "v_buf (geterror i c) = v_buf c" "v_hbuf (geterror i c) = v_hbuf c" "v_hmask (geterror i c) = v_hmask c" "bufs (geterror i c) = bufs c"
  "b_forw (geterror i c) = b_forw c" "b_back (geterror i c) = b_back c" "av_forw (geterror i c) = av_forw c" "av_back (geterror i c) = av_back c"
  "av_count (geterror i c) = av_count c" "av_wanted (geterror i c) = av_wanted c" "basyncnt (geterror i c) = basyncnt c"
  "basywait (geterror i c) = basywait c" "io_queue (geterror i c) = io_queue c" "media (geterror i c) = media c" "sleepers (geterror i c) = sleepers c"
  by (simp_all add: geterror_def)

lemma geterror_core: "core c \<Longrightarrow> core (geterror i c)" "core c \<Longrightarrow> view (geterror i c) d k = view c d k"
  using core_sleepers [of c "geterror i c"] wait_same [OF core_wait [of c], of _ "geterror i c"] by simp_all

section \<open>Reading and releasing\<close>

text \<open>A buffer in the hands of a process: busy, and not with a driver.\<close>

definition owned :: "bcache \<Rightarrow> nat \<Rightarrow> bool" where
  "owned c i \<longleftrightarrow> i < v_buf c \<and> B_BUSY \<in> bflags c i \<and> i \<notin> set (io_queue c)"

lemma owned_facts:
  assumes "core c" "owned c i"
  shows "i < v_buf c" "B_BUSY \<in> bflags c i" "i \<notin> set (io_queue c)" "B_STALE \<notin> bflags c i" "B_ASYNC \<notin> bflags c i"
    "W_io i \<notin> set (sleepers c)" "i \<notin> awrites c" "B_DELWRI \<in> bflags c i \<Longrightarrow> B_DONE \<in> bflags c i \<and> B_ERROR \<notin> bflags c i \<and> b_dev (bufs c i) \<noteq> NODEV"
    "B_ERROR \<in> bflags c i \<Longrightarrow> B_DONE \<in> bflags c i"
  using assms core_buf [of c i] core_wait [of c "W_io i"] by (auto simp: owned_def buf_ok_def awrites_def)

lemma start_read_fields [simp]:
  "bufs (start_read F i c) = (bufs c)(i := (bufs c i)\<lparr>b_flags := b_flags (bufs c i) \<union> F, b_bcount := BSIZE\<rparr>)"
  "v_buf (start_read F i c) = v_buf c" "v_hbuf (start_read F i c) = v_hbuf c" "v_hmask (start_read F i c) = v_hmask c"
  "b_forw (start_read F i c) = b_forw c" "b_back (start_read F i c) = b_back c" "av_forw (start_read F i c) = av_forw c"
  "av_back (start_read F i c) = av_back c" "av_count (start_read F i c) = av_count c" "av_wanted (start_read F i c) = av_wanted c"
  "basyncnt (start_read F i c) = basyncnt c" "basywait (start_read F i c) = basywait c"
  "io_queue (start_read F i c) = io_queue c @ [i]" "media (start_read F i c) = media c" "sleepers (start_read F i c) = sleepers c"
  by (simp_all add: start_read_def strategy_def upd_def)

lemma start_read_core:
  assumes C: "core c" and o: "owned c i" "B_DONE \<notin> bflags c i" "b_dev (bufs c i) \<noteq> NODEV" and F: "B_READ \<in> F" "F \<subseteq> {B_READ, B_ASYNC}"
  shows "core (start_read F i c)" "view (start_read F i c) d k = view c d k"
proof -
  let ?b = "(bufs c i)\<lparr>b_flags := b_flags (bufs c i) \<union> F, b_bcount := BSIZE\<rparr>"
  note f = owned_facts [OF C o(1)] and b = core_buf [OF C owned_facts(1) [OF C o(1)]]
  have n: "x \<notin> F" if "x \<noteq> B_READ" "x \<noteq> B_ASYNC" for x using that F by auto
  show core: "core (start_read F i c)"
  proof (rule core_keep [OF C f(1), where b = ?b])
    show "buf_ok (i \<in> set (io_queue (start_read F i c))) ?b" using b o f F n by (auto simp: buf_ok_def)
    show "wait_ok (start_read F i c) w" if "w \<in> set (sleepers (start_read F i c))" for w
      by (rule wait_other [OF core_wait [OF C], where i = i and b = ?b]) (use that f core_wait [OF C, of w] in auto)
  qed (use f o n F core_queue [OF C] in \<open>auto simp: awrites_def named_def clean_def\<close>)
  show "view (start_read F i c) d k = view c d k"
    by (rule view_rest [OF C core, where i = i and b = ?b]) (use o f n F in \<open>auto simp: dirty_def\<close>)
qed

lemma release_core:
  assumes C: "core c" and o: "owned c i"
  shows "core (brelse i c)" "view (brelse i c) d k = view c d k"
proof -
  let ?b = "released (bufs c i)"
  note f = owned_facts [OF C o(1)] and b = core_buf [OF C owned_facts(1) [OF C o(1)]]
  show core: "core (brelse i c)"
  proof (rule core_keep [OF C f(1), where b = ?b])
    show "buf_ok (i \<in> set (io_queue (brelse i c))) ?b" using b f by (auto simp: buf_ok_def)
    show "b_data ?b = media (brelse i c) (b_dev ?b) (b_blkno ?b)" if "clean ?b"
      using core_clean [OF C f(1)] that by (auto simp: clean_def split: if_splits)
    show "wait_ok (brelse i c) w" if "w \<in> set (sleepers (brelse i c))" for w
      by (rule wait_other [OF core_wait [OF C], where i = i and b = ?b])
        (use that brelse_sleepers [of i c] f core_wait [OF C, of w] in auto)
  qed (use f core_queue [OF C] in \<open>auto simp: awrites_def named_def\<close>)
  show "view (brelse i c) d k = view c d k"
    by (rule view_rest [OF C core, where i = i and b = ?b]) (use f in \<open>auto simp: dirty_def split: if_splits\<close>)
qed

section \<open>Writing\<close>

text \<open>A process fills the buffer it has and hands it to one of the three routines that write.\<close>

definition fill :: "nat \<Rightarrow> block \<Rightarrow> bcache \<Rightarrow> bcache" where
  "fill i x c = upd i (\<lambda>b. b\<lparr>b_data := x\<rparr>) c"

definition to_delay :: "u32 \<Rightarrow> block \<Rightarrow> buf \<Rightarrow> buf" where
  "to_delay t x b =
     (if B_DELWRI \<notin> b_flags b then b\<lparr>b_data := x, b_start := t\<rparr> else b\<lparr>b_data := x\<rparr>)\<lparr>b_flags := b_flags b \<union> {B_DELWRI, B_DONE}, b_resid := 0\<rparr>"

lemma to_delay_simps [simp]:
  "b_dev (to_delay t x b) = b_dev b" "b_blkno (to_delay t x b) = b_blkno b" "b_data (to_delay t x b) = x"
  "b_flags (to_delay t x b) = b_flags b \<union> {B_DELWRI, B_DONE}"
  by (simp_all add: to_delay_def)

lemma bdwrite_fields:
  "bufs (bdwrite i (fill i x c)) = (bufs c)(i := released (to_delay (blbolt c) x (bufs c i)))"
  "v_buf (bdwrite i (fill i x c)) = v_buf c" "v_hbuf (bdwrite i (fill i x c)) = v_hbuf c" "v_hmask (bdwrite i (fill i x c)) = v_hmask c"
  "b_forw (bdwrite i (fill i x c)) = b_forw c" "b_back (bdwrite i (fill i x c)) = b_back c" "av_count (bdwrite i (fill i x c)) = av_count c + 1"
  "av_wanted (bdwrite i (fill i x c)) = False" "basyncnt (bdwrite i (fill i x c)) = basyncnt c" "basywait (bdwrite i (fill i x c)) = basywait c"
  "io_queue (bdwrite i (fill i x c)) = io_queue c" "media (bdwrite i (fill i x c)) = media c"
  by (auto simp: bdwrite_def fill_def upd_def to_delay_def fun_eq_iff)

lemma bdwrite_sleepers:
  "set (sleepers (bdwrite i (fill i x c))) \<subseteq>
     {w \<in> set (sleepers c). \<not> (B_WANTED \<in> bflags c i \<and> w = W_buf i) \<and> \<not> (av_wanted c \<and> w = W_free)}"
  unfolding bdwrite_def Let_def by (rule subset_trans [OF brelse_sleepers]) (auto simp: upd_def fill_def)

lemma bdwrite_core:
  assumes C: "core c" and o: "owned c i" "b_dev (bufs c i) \<noteq> NODEV" "B_ERROR \<notin> bflags c i"
  shows "core (bdwrite i (fill i x c))"
    "view (bdwrite i (fill i x c)) d k = (if d = b_dev (bufs c i) \<and> k = b_blkno (bufs c i) then x else view c d k)"
proof -
  let ?c = "bdwrite i (fill i x c)" let ?b = "released (to_delay (blbolt c) x (bufs c i))"
  note f = owned_facts [OF C o(1)] and b = core_buf [OF C owned_facts(1) [OF C o(1)]] and eff = bdwrite_fields [of i x c]
  show core: "core ?c"
  proof (rule core_keep [OF C f(1), where b = ?b])
    show "buf_ok (i \<in> set (io_queue ?c)) ?b" using b f o by (auto simp: buf_ok_def eff)
    show "wait_ok ?c w" if "w \<in> set (sleepers ?c)" for w
      by (rule wait_other [OF core_wait [OF C], where i = i and b = ?b])
        (use that bdwrite_sleepers [of i x c] f core_wait [OF C, of w] in \<open>auto simp: eff\<close>)
  qed (use f o core_queue [OF C] in \<open>auto simp: awrites_def named_def clean_def eff\<close>)
  have dr: "dirty ?c i" using o by (simp add: dirty_def eff)
  have at: "b_dev ?b = b_dev (bufs c i)" "b_blkno ?b = b_blkno (bufs c i)" "b_data ?b = x" by simp_all
  show "view ?c d k = (if d = b_dev (bufs c i) \<and> k = b_blkno (bufs c i) then x else view c d k)"
  proof (cases "d = b_dev (bufs c i) \<and> k = b_blkno (bufs c i)")
    case True
    then show ?thesis using view_dirty [OF core _ dr] f(1) at by (simp add: eff)
  next
    case False
    then have "view ?c d k = view c d k"
      by (intro view_rest [OF C core, where i = i and b = ?b]) (auto simp: eff at)
    then show ?thesis using False by (simp split: if_splits) blast
  qed
qed

text \<open>The two writes that go to the driver at once.\<close>

definition store_start :: "bflag set \<Rightarrow> nat \<Rightarrow> block \<Rightarrow> bcache \<Rightarrow> bcache" where
  "store_start A i x c = bwrite_start i (upd i (bset A) (fill i x c))"

definition to_write :: "bflag set \<Rightarrow> block \<Rightarrow> buf \<Rightarrow> buf" where
  "to_write A x b = b\<lparr>b_data := x, b_flags := (b_flags b \<union> A) - {B_READ, B_DONE, B_ERROR, B_DELWRI}\<rparr>"

lemma to_write_simps [simp]:
  "b_dev (to_write A x b) = b_dev b" "b_blkno (to_write A x b) = b_blkno b" "b_data (to_write A x b) = x"
  "b_flags (to_write A x b) = (b_flags b \<union> A) - {B_READ, B_DONE, B_ERROR, B_DELWRI}"
  by (simp_all add: to_write_def)

lemma store_fields:
  "bufs (store_start A i x c) = (bufs c)(i := to_write A x (bufs c i))"
  "v_buf (store_start A i x c) = v_buf c" "v_hbuf (store_start A i x c) = v_hbuf c" "v_hmask (store_start A i x c) = v_hmask c"
  "b_forw (store_start A i x c) = b_forw c" "b_back (store_start A i x c) = b_back c" "av_forw (store_start A i x c) = av_forw c"
  "av_back (store_start A i x c) = av_back c" "av_count (store_start A i x c) = av_count c"
  "av_wanted (store_start A i x c) = av_wanted c" "basywait (store_start A i x c) = basywait c"
  "basyncnt (store_start A i x c) = basyncnt c + of_bool (B_ASYNC \<in> bflags c i \<union> A)"
  "io_queue (store_start A i x c) = io_queue c @ [i]" "media (store_start A i x c) = media c" "sleepers (store_start A i x c) = sleepers c"
  by (auto simp: store_start_def bwrite_start_def strategy_def fill_def upd_def to_write_def Let_def fun_eq_iff)

lemma store_core:
  assumes C: "core c" and o: "owned c i" "b_dev (bufs c i) \<noteq> NODEV" and A: "A \<subseteq> {B_ASYNC}"
  shows "core (store_start A i x c)"
    "view (store_start A i x c) d k = (if d = b_dev (bufs c i) \<and> k = b_blkno (bufs c i) then x else view c d k)"
proof -
  let ?c = "store_start A i x c" let ?b = "to_write A x (bufs c i)"
  note f = owned_facts [OF C o(1)] and b = core_buf [OF C owned_facts(1) [OF C o(1)]] and eff = store_fields [of A i x c]
  have n: "y \<notin> A" if "y \<noteq> B_ASYNC" for y using that A by auto
  show core: "core ?c"
  proof (rule core_keep [OF C f(1), where b = ?b])
    show "buf_ok (i \<in> set (io_queue ?c)) ?b" using b f o n by (auto simp: buf_ok_def eff)
    show "wait_ok ?c w" if "w \<in> set (sleepers ?c)" for w
      by (rule wait_other [OF core_wait [OF C], where i = i and b = ?b])
        (use that f core_wait [OF C, of w] core_async [OF C] in \<open>auto simp: eff\<close>)
  qed (use f o n core_queue [OF C] in \<open>auto simp: awrites_def named_def clean_def eff\<close>)
  have dr: "dirty ?c i" by (simp add: dirty_def eff)
  have at: "b_dev ?b = b_dev (bufs c i)" "b_blkno ?b = b_blkno (bufs c i)" "b_data ?b = x" by simp_all
  show "view ?c d k = (if d = b_dev (bufs c i) \<and> k = b_blkno (bufs c i) then x else view c d k)"
  proof (cases "d = b_dev (bufs c i) \<and> k = b_blkno (bufs c i)")
    case True
    then show ?thesis using view_dirty [OF core _ dr] f(1) at by (simp add: eff)
  next
    case False
    then have "view ?c d k = view c d k"
      by (intro view_rest [OF C core, where i = i and b = ?b]) (auto simp: eff at)
    then show ?thesis using False by (simp split: if_splits) blast
  qed
qed

section \<open>Completion\<close>

definition done_buf :: "buf \<Rightarrow> buf" where
  "done_buf b = (let b = bset {B_DONE} b in if B_ASYNC \<in> b_flags b then released b else bclr {B_WANTED} b)"

lemma iodone_fields [simp]:
  "bufs (iodone i c) = (bufs c)(i := done_buf (bufs c i))"
  "v_buf (iodone i c) = v_buf c" "v_hbuf (iodone i c) = v_hbuf c" "v_hmask (iodone i c) = v_hmask c"
  "b_forw (iodone i c) = b_forw c" "b_back (iodone i c) = b_back c" "io_queue (iodone i c) = io_queue c" "media (iodone i c) = media c"
  "av_wanted (iodone i c) = (if B_ASYNC \<in> bflags c i then False else av_wanted c)"
  "basyncnt (iodone i c) = basyncnt c - of_bool (B_ASYNC \<in> bflags c i \<and> B_READ \<notin> bflags c i)"
  by (auto simp: iodone_def Let_def upd_def bwakeup_def done_buf_def fun_eq_iff)

lemma iodone_waits:
  "w \<in> set (sleepers (iodone i c)) \<Longrightarrow> w \<in> set (sleepers c) \<and>
     (if B_ASYNC \<in> bflags c i then \<not> (B_WANTED \<in> bflags c i \<and> w = W_buf i) \<and> \<not> (av_wanted c \<and> w = W_free) else w \<noteq> W_buf i \<and> w \<noteq> W_io i) \<and>
     (w = W_async \<longrightarrow> basywait c \<longrightarrow> basyncnt c \<noteq> 0 \<longrightarrow> basywait (iodone i c) \<and> basyncnt (iodone i c) \<noteq> 0)"
  by (auto simp: iodone_def Let_def upd_def bwakeup_def split: if_splits dest: brelse_sleepers [THEN subsetD])

lemma done_buf_simps [simp]:
  "b_dev (done_buf b) = b_dev b" "b_blkno (done_buf b) = b_blkno b" "b_data (done_buf b) = b_data b"
  "b_flags (done_buf b) = (if B_ASYNC \<in> b_flags b then b_flags (released (bset {B_DONE} b)) else insert B_DONE (b_flags b) - {B_WANTED})"
  by (auto simp: done_buf_def Let_def)

lemma queued_facts:
  assumes "core c" "i \<in> set (io_queue c)"
  shows "i < v_buf c" "B_BUSY \<in> bflags c i" "B_DONE \<notin> bflags c i" "B_ERROR \<notin> bflags c i" "B_DELWRI \<notin> bflags c i"
    "B_STALE \<notin> bflags c i" "b_dev (bufs c i) \<noteq> NODEV"
  using core_queue(2) [OF assms] core_buf [OF assms(1) core_queue(2) [OF assms]] assms(2) by (auto simp: buf_ok_def)

lemma iodone_core:
  assumes C: "core c" and i: "i \<in> set (io_queue c)"
    and c1: "v_buf c1 = v_buf c" "bufs c1 = (bufs c)(i := b1)" "io_queue c1 = remove1 i (io_queue c)" "basyncnt c1 = basyncnt c"
      "basywait c1 = basywait c" "av_wanted c1 = av_wanted c" "sleepers c1 = sleepers c"
    and b1: "b_dev b1 = b_dev (bufs c i)" "b_blkno b1 = b_blkno (bufs c i)" "b_flags b1 = bflags c i \<union> E" "E \<subseteq> {B_ERROR}"
    and m: "\<And>d k. media c1 d k = media c d k \<or> d = b_dev b1 \<and> k = b_blkno b1"
    and d: "E = {} \<Longrightarrow> b_data b1 = media c1 (b_dev b1) (b_blkno b1)"
  shows "core (iodone i c1)"
proof -
  let ?b = "done_buf b1"
  note f = queued_facts [OF C i] and b = core_buf [OF C queued_facts(1) [OF C i]] and q = core_queue [OF C]
  have n: "y \<notin> E" if "y \<noteq> B_ERROR" for y using that b1(4) by auto
  have e: "E = {} \<or> E = {B_ERROR}" using b1(4) by auto
  show ?thesis
  proof (rule core_keep [OF C f(1), where b = ?b])
    show "buf_ok (i \<in> set (io_queue (iodone i c1))) ?b" using f n q(1) by (auto simp: buf_ok_def b1 c1 set_remove1_eq)
    show "wait_ok (iodone i c1) w" if "w \<in> set (sleepers (iodone i c1))" for w
    proof (rule wait_other [OF core_wait [OF C], where i = i and b = ?b])
      note W = iodone_waits [OF that]
      show "w \<in> set (sleepers c)" using W by (simp add: c1)
      then have w: "wait_ok c w" by (rule core_wait [OF C])
      show "B_BUSY \<in> b_flags ?b \<and> B_WANTED \<in> b_flags ?b" if "w = W_buf i"
        using W w that n by (auto simp: c1 b1 split: if_splits)
      show "i \<in> set (io_queue (iodone i c1)) \<and> B_ASYNC \<notin> b_flags ?b" if "w = W_io i"
        using W w that n by (auto simp: c1 b1 split: if_splits)
      show "av_wanted (iodone i c1) \<and> B_BUSY \<in> b_flags ?b" if "w = W_free"
        using W w that n f by (auto simp: c1 b1 split: if_splits)
    qed (use iodone_waits [OF that] q(1) in \<open>auto simp: c1 set_remove1_eq\<close>)
    show "named (bufs c i)" if "named ?b" using f by (simp add: named_def)
    show "media (iodone i c1) d k = media c d k \<or> (\<exists>a \<in> {?b, bufs c i}. named a \<and> d = b_dev a \<and> k = b_blkno a)" for d k
      using m [of d k] f by (auto simp: named_def b1)
    show "b_data ?b = media (iodone i c1) (b_dev ?b) (b_blkno ?b)" if "clean ?b"
      using that d e by (auto simp: clean_def b1 split: if_splits)
  qed (use f q n i in \<open>auto simp: awrites_def c1 b1 set_remove1_eq\<close>)
qed

lemma completed_view:
  assumes C: "core c" "core c'" and i: "i \<in> set (io_queue c)"
    and c': "v_buf c' = v_buf c" "bufs c' = (bufs c)(i := b)" "io_queue c' = remove1 i (io_queue c)"
      "media c' d k = (if B_READ \<notin> bflags c i \<and> d = b_dev (bufs c i) \<and> k = b_blkno (bufs c i) then y else media c d k)"
    and b: "b_dev b = b_dev (bufs c i)" "b_blkno b = b_blkno (bufs c i)" "B_DELWRI \<notin> b_flags b"
  shows "view c' d k = (if B_READ \<notin> bflags c i \<and> d = b_dev (bufs c i) \<and> k = b_blkno (bufs c i) then y else view c d k)"
proof -
  note f = queued_facts [OF C(1) i] and q = core_queue [OF C(1)]
  have nd: "\<not> dirty c' i" using b q by (simp add: dirty_def c')
  have di: "dirty c i \<longleftrightarrow> B_READ \<notin> bflags c i" using f i by (simp add: dirty_def)
  show ?thesis
  proof (cases "B_READ \<notin> bflags c i \<and> d = b_dev (bufs c i) \<and> k = b_blkno (bufs c i)")
    case True
    have "view c' d k = media c' d k"
    proof (rule view_media)
      fix j assume j: "j < v_buf c'" "dirty c' j"
      then have ne: "j \<noteq> i" using nd by auto
      then have "dirty c j" using j by (simp add: dirty_def c')
      then have "\<not> same_block (bufs c j) (bufs c i)"
        using core_unique [OF C(1), of j i] dirty_named [OF C(1)] j ne f True di by (simp add: c')
      then show "\<not> (b_dev (bufs c' j) = d \<and> b_blkno (bufs c' j) = k)" using True ne by (simp add: same_block_def c')
    qed
    then show ?thesis using c' True by simp
  next
    case False
    have "view c' d k = view c d k"
      by (rule view_rest [OF C c'(1,2)]) (use False nd q di in \<open>auto simp: c' set_remove1_eq\<close>)
    then show ?thesis using False by (simp split: if_splits) blast
  qed
qed

lemma transfer_fields [simp]:
  "bufs (transfer i x c) = (if B_READ \<in> bflags c i then (bufs c)(i := (bufs c i)\<lparr>b_data := x\<rparr>) else bufs c)"
  "media (transfer i x c) = (if B_READ \<in> bflags c i then media c
     else (media c)(b_dev (bufs c i) := (media c (b_dev (bufs c i)))(b_blkno (bufs c i) := x)))"
  "v_buf (transfer i x c) = v_buf c" "v_hbuf (transfer i x c) = v_hbuf c" "v_hmask (transfer i x c) = v_hmask c"
  "b_forw (transfer i x c) = b_forw c" "b_back (transfer i x c) = b_back c" "av_forw (transfer i x c) = av_forw c"
  "av_back (transfer i x c) = av_back c" "av_count (transfer i x c) = av_count c" "av_wanted (transfer i x c) = av_wanted c"
  "basyncnt (transfer i x c) = basyncnt c" "basywait (transfer i x c) = basywait c"
  "io_queue (transfer i x c) = io_queue c" "sleepers (transfer i x c) = sleepers c"
  by (auto simp: transfer_def Let_def upd_def)

lemma io_ok_core:
  assumes C: "core c" and i: "i \<in> set (io_queue c)"
  shows "core (io_ok i c)" "view (io_ok i c) d k = view c d k"
proof -
  let ?x = "if B_READ \<in> bflags c i then media c (b_dev (bufs c i)) (b_blkno (bufs c i)) else b_data (bufs c i)"
  let ?c1 = "transfer i ?x (c\<lparr>io_queue := remove1 i (io_queue c)\<rparr>)"
  let ?b1 = "(bufs c i)\<lparr>b_data := ?x\<rparr>"
  have eq: "io_ok i c = iodone i ?c1" by (simp add: io_ok_def Let_def)
  have bu: "bufs ?c1 = (bufs c)(i := ?b1)" by (auto simp: fun_eq_iff)
  show core: "core (io_ok i c)" unfolding eq
    by (rule iodone_core [OF C i _ bu, where E = "{}"]) auto
  note f = queued_facts [OF C i]
  have b': "bufs (io_ok i c) = (bufs c)(i := done_buf ?b1)" unfolding eq by (simp only: iodone_fields(1) bu) simp
  have "view (io_ok i c) d k =
      (if B_READ \<notin> bflags c i \<and> d = b_dev (bufs c i) \<and> k = b_blkno (bufs c i) then b_data (bufs c i) else view c d k)"
    by (rule completed_view [OF C core i _ b']) (use f in \<open>auto simp: eq\<close>)
  moreover have "view c (b_dev (bufs c i)) (b_blkno (bufs c i)) = b_data (bufs c i)" if "B_READ \<notin> bflags c i"
    using view_dirty [OF C f(1)] i that by (simp add: dirty_def)
  ultimately show "view (io_ok i c) d k = view c d k" by (simp split: if_splits)
qed

lemma io_fail_core:
  assumes C: "core c" and i: "i \<in> set (io_queue c)"
  shows "core (io_fail i e x c)"
    "view (io_fail i e x c) d k = (if B_READ \<notin> bflags c i \<and> d = b_dev (bufs c i) \<and> k = b_blkno (bufs c i) then x else view c d k)"
proof -
  let ?c1 = "upd i (\<lambda>b. b\<lparr>b_flags := b_flags b \<union> {B_ERROR}, b_error := e\<rparr>) (transfer i x (c\<lparr>io_queue := remove1 i (io_queue c)\<rparr>))"
  let ?b1 = "(if B_READ \<in> bflags c i then (bufs c i)\<lparr>b_data := x\<rparr> else bufs c i)\<lparr>b_flags := insert B_ERROR (bflags c i), b_error := e\<rparr>"
  have eq: "io_fail i e x c = iodone i ?c1" by (simp add: io_fail_def Let_def)
  have bu: "bufs ?c1 = (bufs c)(i := ?b1)" by (auto simp: upd_def fun_eq_iff)
  show core: "core (io_fail i e x c)" unfolding eq
    by (rule iodone_core [OF C i _ bu, where E = "{B_ERROR}"]) (auto simp: upd_def)
  note f = queued_facts [OF C i]
  have b': "bufs (io_fail i e x c) = (bufs c)(i := done_buf ?b1)" unfolding eq by (simp only: iodone_fields(1) bu) simp
  show "view (io_fail i e x c) d k = (if B_READ \<notin> bflags c i \<and> d = b_dev (bufs c i) \<and> k = b_blkno (bufs c i) then x else view c d k)"
    by (rule completed_view [OF C core i _ b']) (use f in \<open>auto simp: eq upd_def\<close>)
qed

end
