(* ===== verification/Cache_Run.thy ===== *)
theory Cache_Run
  imports Cache_Steps
begin

text \<open>
  The routines of the buffer cache as a whole: \<open>getblk\<close>, \<open>bread\<close> and the flushes on every state that
  meets the invariant, and the runs of the cache under any interleaving of its callers and of the
  completions of the drivers.
\<close>

definition binv :: "bcache \<Rightarrow> bool" where
  "binv c \<longleftrightarrow> core c \<and> (\<exists>L. chained c L) \<and> (\<exists>F. avail c F)"

lemma binvI: "core c \<Longrightarrow> chained c L \<Longrightarrow> avail c F \<Longrightarrow> binv c"
  by (auto simp: binv_def)

lemma binvE:
  assumes "binv c" obtains L F where "core c" "chained c L" "avail c F"
  using assms by (auto simp: binv_def)

section \<open>Links\<close>

lemma avail_split: "avail c F \<Longrightarrow> i < v_buf c \<Longrightarrow> B_BUSY \<notin> bflags c i \<Longrightarrow> \<exists>us vs. F = us @ i # vs"
  using avail_in [of c F i] split_list [of i F] by simp

lemma same_steps [simp]:
  "same_links c (notavail i c)" "same_links c (brelse i c)" "same_links c (start_read F i c)" "same_links c (store_start A i x c)"
  "same_links c (bdwrite i (fill i x c))" "same_links c (geterror i c)" "same_links c (bsleep w c)"
  by (auto simp: same_links_def store_fields bdwrite_fields bsleep_def)

lemma same_evict: "B_DELWRI \<in> bflags c i \<Longrightarrow> same_links c (evict i c)"
  by (auto simp: same_links_def)

lemma same_avail_steps [simp]:
  "same_avail c (start_read F i c) \<longleftrightarrow> (B_BUSY \<in> F \<longrightarrow> B_BUSY \<in> bflags c i)" "same_avail c (geterror i c)" "same_avail c (bsleep w c)"
  "A \<subseteq> {B_ASYNC} \<Longrightarrow> same_avail c (store_start A i x c)"
  by (auto simp: same_avail_def store_fields bsleep_def)

lemma evict_avail:
  assumes "avail c F" "F = us @ i # vs" "B_DELWRI \<in> bflags c i" shows "avail (evict i c) (us @ vs)"
proof -
  have "same_avail (notavail i c) (evict i c)"
    using assms(3) by (auto simp: same_avail_def evict_def bwrite_start_def strategy_def geterror_def upd_def Let_def)
  then show ?thesis using avail_take [OF assms(1,2)] avail_same by blast
qed

lemma given_links:
  assumes C: "chained c L" and A: "avail c F" and i: "F = us @ i # vs" and dp: "dp \<in> heads c"
    and c': "b_forw c' = b_forw (rechain i dp c)" "b_back c' = b_back (rechain i dp c)" "v_buf c' = v_buf c" "v_hbuf c' = v_hbuf c"
      "v_hmask c' = v_hmask c" "home c' i = dp" "bufs c' = (bufs c)(i := b)" "B_BUSY \<in> b_flags b"
      "av_forw c' = av_forw (notavail i c)" "av_back c' = av_back (notavail i c)" "av_count c' = av_count (notavail i c)"
  shows "(\<exists>L. chained c' L) \<and> avail c' (us @ vs)"
proof
  have "i < v_buf c" using avail_in [OF A, of i] i by simp
  then show "\<exists>L. chained c' L"
    by (rule chained_rechain [OF C _ dp c'(1-6)]) (simp add: c' home_def bhash_def)
  have "avail c' (us @ vs) = avail (notavail i c) (us @ vs)" by (rule avail_cong) (use c' in auto)
  then show "avail c' (us @ vs)" using avail_take [OF A i] by simp
qed

lemma rechain_congs: "b_forw c' = b_forw c \<Longrightarrow> b_back c' = b_back c \<Longrightarrow>
    b_forw (rechain i dp c') = b_forw (rechain i dp c) \<and> b_back (rechain i dp c') = b_back (rechain i dp c)"
  by (simp add: rechain_def Let_def)

lemma assign_links:
  assumes C: "chained c L" and A: "avail c F" and i: "F = us @ i # vs" and d: "dev \<noteq> NODEV"
  shows "(\<exists>L. chained (assign i dev blk c) L) \<and> avail (assign i dev blk c) (us @ vs)"
proof (rule given_links [OF C A i, where dp = "bhash c dev blk" and b = "(bufs c i)\<lparr>b_flags := {B_BUSY}, b_dev := dev, b_blkno := blk, b_bcount := BSIZE\<rparr>"])
  show "bhash c dev blk \<in> heads c" using C by (simp add: chained_def bhash_head)
  have h: "bhash (notavail i c) dev blk = bhash c dev blk" by (simp add: bhash_def)
  show "b_forw (assign i dev blk c) = b_forw (rechain i (bhash c dev blk) c)" "b_back (assign i dev blk c) = b_back (rechain i (bhash c dev blk) c)"
    by (simp_all add: assign_def upd_def Let_def h rechain_def)
  show "home (assign i dev blk c) i = bhash c dev blk" using d by (simp add: home_def bhash_def)
qed (simp_all add: assign_def upd_def Let_def)

lemma unassign_links:
  assumes C: "chained c L" and A: "avail c F" and i: "F = us @ i # vs"
  shows "(\<exists>L. chained (unassign i c) L) \<and> avail (unassign i c) (us @ vs)"
proof (rule given_links [OF C A i, where dp = Avail and b = "(bufs c i)\<lparr>b_flags := {B_BUSY, B_AGE}, b_dev := NODEV, b_bcount := SBUFSIZE\<rparr>"])
  show "Avail \<in> heads c" by (simp add: heads_def)
  show "b_forw (unassign i c) = b_forw (rechain i Avail c)" "b_back (unassign i c) = b_back (rechain i Avail c)"
    by (simp_all add: unassign_def upd_def Let_def rechain_def)
  show "home (unassign i c) i = Avail" by (simp add: home_def)
qed (simp_all add: unassign_def upd_def Let_def)

section \<open>Each step on the invariant\<close>

lemma grab_inv:
  assumes B: "binv c" and i: "i < v_buf c" "B_BUSY \<notin> bflags c i" "B_STALE \<notin> bflags c i"
  shows "binv (notavail i c)"
proof -
  from B obtain L F where C: "core c" "chained c L" "avail c F" by (rule binvE)
  then obtain us vs where "F = us @ i # vs" using avail_split [OF C(3) i(1,2)] by blast
  then show ?thesis using grab_core(1) [OF C(1) i] chained_same [of c "notavail i c" L] C(2) avail_take [OF C(3)] by (auto intro: binvI)
qed

lemma evict_inv:
  assumes B: "binv c" and i: "i < v_buf c" "B_BUSY \<notin> bflags c i" "B_DELWRI \<in> bflags c i"
  shows "binv (evict i c)"
proof -
  from B obtain L F where C: "core c" "chained c L" "avail c F" by (rule binvE)
  then obtain us vs where F: "F = us @ i # vs" using avail_split [OF C(3) i(1,2)] by blast
  show ?thesis
    using evict_core(1) [OF C(1) i] chained_same [OF same_evict [OF i(3)], of L] C(2) evict_avail [OF C(3) F i(3)] by (auto intro: binvI)
qed

lemma assign_inv:
  assumes B: "binv c" and i: "i < v_buf c" "B_BUSY \<notin> bflags c i" "B_DELWRI \<notin> bflags c i"
    and n: "\<forall>j < v_buf c. \<not> is_block c dev blk (Buf j)" "dev \<noteq> NODEV"
  shows "binv (assign i dev blk c)"
proof -
  from B obtain L F where C: "core c" "chained c L" "avail c F" by (rule binvE)
  then obtain us vs where F: "F = us @ i # vs" using avail_split [OF C(3) i(1,2)] by blast
  show ?thesis using assign_core(1) [OF C(1) i n(1)] assign_links [OF C(2,3) F n(2), of blk] by (auto intro: binvI)
qed

lemma unassign_inv:
  assumes B: "binv c" and i: "i < v_buf c" "B_BUSY \<notin> bflags c i" "B_DELWRI \<notin> bflags c i"
  shows "binv (unassign i c)"
proof -
  from B obtain L F where C: "core c" "chained c L" "avail c F" by (rule binvE)
  then obtain us vs where F: "F = us @ i # vs" using avail_split [OF C(3) i(1,2)] by blast
  show ?thesis using unassign_core(1) [OF C(1) i] unassign_links [OF C(2,3) F] by (auto intro: binvI)
qed

text \<open>Steps that leave the links, and steps that give a buffer back.\<close>

lemma same_inv: "binv c \<Longrightarrow> core c' \<Longrightarrow> same_links c c' \<Longrightarrow> same_avail c c' \<Longrightarrow> binv c'"
  using chained_same avail_same by (fastforce simp: binv_def)

lemma give_inv:
  assumes B: "binv c" and C': "core c'" and s: "same_links c c'" and i: "i < v_buf c" "B_BUSY \<in> bflags c i"
    and c': "bufs c' = (bufs c)(i := b)" "B_BUSY \<notin> b_flags b" "av_count c' = av_count c + 1"
      "av_forw c' = av_forw (av_first i c) \<and> av_back c' = av_back (av_first i c) \<or> av_forw c' = av_forw (av_last i c) \<and> av_back c' = av_back (av_last i c)"
  shows "binv c'"
proof -
  from B obtain L F where C: "core c" "chained c L" "avail c F" by (rule binvE)
  have "avail c' (i # F) \<or> avail c' (F @ [i])"
    by (rule avail_give [OF C(3) i]) (use s c' in \<open>auto simp: same_links_def\<close>)
  then show ?thesis using C' chained_same [OF s] C(2) by (auto intro: binvI)
qed

lemma release_inv:
  assumes B: "binv c" and o: "owned c i" shows "binv (brelse i c)"
proof (rule give_inv [OF B, where i = i and b = "released (bufs c i)"])
  show "core (brelse i c)" using B o release_core by (auto simp: binv_def)
qed (use o brelse_links [of i c] in \<open>auto simp: owned_def\<close>)

lemma delay_inv:
  assumes B: "binv c" and o: "owned c i" "b_dev (bufs c i) \<noteq> NODEV" "B_ERROR \<notin> bflags c i" shows "binv (bdwrite i (fill i x c))"
proof (rule give_inv [OF B, where i = i and b = "released (to_delay (blbolt c) x (bufs c i))"])
  show "core (bdwrite i (fill i x c))" using B o bdwrite_core(1) by (auto simp: binv_def)
  let ?f = "upd i (\<lambda>b. b\<lparr>b_flags := b_flags b \<union> {B_DELWRI, B_DONE}, b_resid := 0\<rparr>)
    (if B_DELWRI \<notin> bflags (fill i x c) i then upd i (\<lambda>b. b\<lparr>b_start := blbolt (fill i x c)\<rparr>) (fill i x c) else fill i x c)"
  have "av_first i ?f = ?f\<lparr>av_forw := av_forw (av_first i c), av_back := av_back (av_first i c)\<rparr>"
    "av_last i ?f = ?f\<lparr>av_forw := av_forw (av_last i c), av_back := av_back (av_last i c)\<rparr>"
    by (simp_all add: av_first_def av_last_def Let_def upd_def fill_def)
  then show "av_forw (bdwrite i (fill i x c)) = av_forw (av_first i c) \<and> av_back (bdwrite i (fill i x c)) = av_back (av_first i c) \<or>
      av_forw (bdwrite i (fill i x c)) = av_forw (av_last i c) \<and> av_back (bdwrite i (fill i x c)) = av_back (av_last i c)"
    using brelse_links [of i ?f] by (auto simp: bdwrite_def Let_def)
qed (use o in \<open>auto simp: owned_def bdwrite_fields\<close>)

lemma brelse_links_of:
  "av_forw c2 = av_forw c \<Longrightarrow> av_back c2 = av_back c \<Longrightarrow>
   av_forw (brelse i c2) = av_forw (av_first i c) \<and> av_back (brelse i c2) = av_back (av_first i c) \<or>
   av_forw (brelse i c2) = av_forw (av_last i c) \<and> av_back (brelse i c2) = av_back (av_last i c)"
  using brelse_links [of i c2] by (simp add: av_first_def av_last_def Let_def)

lemma iodone_links:
  "B_ASYNC \<in> bflags c i \<Longrightarrow>
     (av_forw (iodone i c) = av_forw (av_first i c) \<and> av_back (iodone i c) = av_back (av_first i c) \<or>
      av_forw (iodone i c) = av_forw (av_last i c) \<and> av_back (iodone i c) = av_back (av_last i c)) \<and> av_count (iodone i c) = av_count c + 1"
  "B_ASYNC \<notin> bflags c i \<Longrightarrow> av_forw (iodone i c) = av_forw c \<and> av_back (iodone i c) = av_back c \<and> av_count (iodone i c) = av_count c"
proof -
  assume a: "B_ASYNC \<in> bflags c i"
  let ?c1 = "upd i (bset {B_DONE}) c"
  let ?c2 = "if B_READ \<notin> bflags ?c1 i then ?c1\<lparr>basyncnt := basyncnt ?c1 - 1\<rparr> else ?c1"
  let ?c3 = "if basyncnt ?c2 = 0 \<and> basywait ?c2 then bwakeup C_async (?c2\<lparr>basywait := False\<rparr>) else ?c2"
  have e: "iodone i c = brelse i ?c3" using a by (simp add: iodone_def Let_def upd_def)
  have "av_forw ?c3 = av_forw c" "av_back ?c3 = av_back c" "av_count ?c3 = av_count c" by (simp_all add: upd_def bwakeup_def)
  then show "(av_forw (iodone i c) = av_forw (av_first i c) \<and> av_back (iodone i c) = av_back (av_first i c) \<or>
      av_forw (iodone i c) = av_forw (av_last i c) \<and> av_back (iodone i c) = av_back (av_last i c)) \<and> av_count (iodone i c) = av_count c + 1"
    unfolding e by (intro conjI brelse_links_of) (simp_all only: brelse_fields)
qed (simp add: iodone_def Let_def upd_def bwakeup_def)

lemma iodone_inv:
  assumes B: "binv c" and C: "core (iodone i c1)" and s: "same_links c c1" "same_avail c c1" and i: "i \<in> set (io_queue c)"
    and b: "bufs c1 = (bufs c)(i := bb)"
  shows "binv (iodone i c1)"
proof -
  have co: "core c" using B by (simp add: binv_def)
  have sl: "same_links c (iodone i c1)" using s(1) by (auto simp: same_links_def)
  have bu: "B_BUSY \<in> b_flags bb" using queued_facts(2) [OF co i] s(2) unfolding same_avail_def b by (metis fun_upd_same)
  show ?thesis
  proof (cases "B_ASYNC \<in> b_flags bb")
    case True
    have k: "av_forw (av_first i c1) = av_forw (av_first i c)" "av_back (av_first i c1) = av_back (av_first i c)"
      "av_forw (av_last i c1) = av_forw (av_last i c)" "av_back (av_last i c1) = av_back (av_last i c)"
      using s(2) by (simp_all add: av_first_def av_last_def Let_def same_avail_def)
    have lk: "B_ASYNC \<in> bflags c1 i" using True by (simp add: b)
    show ?thesis
    proof (rule give_inv [OF B C sl, where i = i and b = "done_buf bb"])
      show "av_forw (iodone i c1) = av_forw (av_first i c) \<and> av_back (iodone i c1) = av_back (av_first i c) \<or>
          av_forw (iodone i c1) = av_forw (av_last i c) \<and> av_back (iodone i c1) = av_back (av_last i c)"
        using iodone_links(1) [OF lk] unfolding k by blast
      show "av_count (iodone i c1) = av_count c + 1" using iodone_links(1) [OF lk] s(2) by (simp add: same_avail_def)
    qed (use queued_facts [OF co i] True in \<open>auto simp: b\<close>)
  next
    case False
    have lk: "B_ASYNC \<notin> bflags c1 i" using False by (simp add: b)
    have "B_BUSY \<in> bflags (iodone i c1) j \<longleftrightarrow> B_BUSY \<in> bflags c1 j" for j using False bu by (simp add: b)
    then have "same_avail c (iodone i c1)" using iodone_links(2) [OF lk] s(2) by (simp add: same_avail_def)
    then show ?thesis using same_inv [OF B C sl] by simp
  qed
qed

lemma io_inv:
  assumes B: "binv c" and i: "i \<in> set (io_queue c)"
  shows "binv (io_ok i c)" "binv (io_fail i e x c)"
proof -
  have co: "core c" using B by (simp add: binv_def)
  let ?q = "c\<lparr>io_queue := remove1 i (io_queue c)\<rparr>"
  have "binv (iodone i c1)" if "core (iodone i c1)" "c1 = transfer i x ?q \<or> c1 = upd i (\<lambda>b. b\<lparr>b_flags := b_flags b \<union> {B_ERROR}, b_error := e\<rparr>) (transfer i x ?q)" for c1 x
    by (rule iodone_inv [OF B that(1) _ _ i, where bb = "bufs c1 i"])
      (use that(2) in \<open>auto simp: same_links_def same_avail_def upd_def fun_eq_iff split: if_splits\<close>)
  then show "binv (io_ok i c)" "binv (io_fail i e x c)"
    using io_ok_core(1) [OF co i] io_fail_core(1) [OF co i] unfolding io_ok_def io_fail_def Let_def by blast+
qed

section \<open>Getting a buffer\<close>

text \<open>What a routine that asks for the block \<open>blk\<close> of \<open>dev\<close> leaves.\<close>

definition got :: "u16 \<Rightarrow> u32 \<Rightarrow> bcache \<Rightarrow> nat \<Rightarrow> bool" where
  "got dev blk c i \<longleftrightarrow> owned c i \<and> b_dev (bufs c i) = dev \<and> b_blkno (bufs c i) = blk \<and> B_ERROR \<notin> bflags c i"

lemma same_sleeps [simp]:
  "same_links c (bsleep (W_buf i) (upd i (bset {B_WANTED}) c))" "same_avail c (bsleep (W_buf i) (upd i (bset {B_WANTED}) c))"
  "same_links c (bsleep w (c\<lparr>av_wanted := True\<rparr>))" "same_avail c (bsleep w (c\<lparr>av_wanted := True\<rparr>))"
  "same_links c (bsleep w (c\<lparr>basywait := True\<rparr>))" "same_avail c (bsleep w (c\<lparr>basywait := True\<rparr>))"
  by (auto simp: same_links_def same_avail_def bsleep_def upd_def)

lemma getblk_loop_ok:
  "binv c \<Longrightarrow> unat (av_count c) < n \<Longrightarrow> dev \<noteq> NODEV \<Longrightarrow> getblk_loop n dev blk c = (r, c') \<Longrightarrow>
   binv c' \<and> view c' = view c \<and> (case r of Got i \<Rightarrow> got dev blk c' i | Sleeps \<Rightarrow> True | Stuck \<Rightarrow> False)"
proof (induction n arbitrary: c)
  case (Suc n)
  from Suc.prems(1) obtain L F where C: "core c" "chained c L" "avail c F" by (rule binvE)
  from in_chain_ok [OF C(2) Suc.prems(3), of blk] consider
    (hit) i where "i < v_buf c" "in_chain c dev blk = Some (Some (Buf i))" "is_block c dev blk (Buf i)"
    | (miss) "in_chain c dev blk = Some None" "\<forall>i < v_buf c. \<not> is_block c dev blk (Buf i)" by blast
  then show ?case
  proof cases
    case hit
    show ?thesis
    proof (cases "B_BUSY \<in> bflags c i")
      case True
      then have e: "r = Sleeps" "c' = bsleep (W_buf i) (upd i (bset {B_WANTED}) c)" using Suc.prems(4) hit by simp_all
      show ?thesis using same_inv [OF Suc.prems(1) wanted_core(1) [OF C(1) hit(1) True] same_sleeps(1,2)] wanted_core(2) [OF C(1) hit(1) True]
        by (simp add: e fun_eq_iff)
    next
      case False
      then have e: "r = Got i" "c' = notavail i c" using Suc.prems(4) hit by simp_all
      have s: "B_STALE \<notin> bflags c i" using hit(3) by (simp add: is_block_def)
      show ?thesis
        using grab_inv [OF Suc.prems(1) hit(1) False s] grab_core(2) [OF C(1) hit(1) False s] hit core_free [OF C(1) hit(1) False]
        by (simp add: e fun_eq_iff got_def owned_def is_block_def)
    qed
  next
    case miss
    show ?thesis
    proof (cases F)
      case Nil
      then have e: "r = Sleeps" "c' = bsleep W_free (c\<lparr>av_wanted := True\<rparr>)" using Suc.prems(4) miss avail_first [OF C(3)] by simp_all
      have b: "\<forall>i < v_buf c. B_BUSY \<in> bflags c i" using avail_in [OF C(3)] Nil by auto
      show ?thesis using same_inv [OF Suc.prems(1) no_buffer_core(1) [OF C(1) b]] no_buffer_core(2) [OF C(1) b]
        by (simp add: e fun_eq_iff)
    next
      case (Cons i G)
      then have a: "av_forw c Avail = Buf i" using avail_first [OF C(3)] by simp
      have i: "i < v_buf c" "B_BUSY \<notin> bflags c i" using avail_in [OF C(3), of i] Cons by simp_all
      show ?thesis
      proof (cases "B_DELWRI \<in> bflags c i")
        case True
        have "avail (evict i c) G" using evict_avail [OF C(3), of "[]" i G] Cons True by simp
        then have n: "unat (av_count (evict i c)) < n" using C(3) Suc.prems(2) Cons by (simp add: avail_def)
        have "getblk_loop n dev blk (evict i c) = (r, c')" using Suc.prems(4) miss a True by simp
        from Suc.IH [OF evict_inv [OF Suc.prems(1) i True] n Suc.prems(3) this]
        show ?thesis using evict_core(2) [OF C(1) i True] by (simp add: fun_eq_iff)
      next
        case False
        then have e: "r = Got i" "c' = assign i dev blk c" using Suc.prems(4) miss a by simp_all
        show ?thesis using assign_inv [OF Suc.prems(1) i False miss(2) Suc.prems(3)] assign_core(2) [OF C(1) i False miss(2)]
            core_free [OF C(1) i] i by (simp add: e fun_eq_iff got_def owned_def)
      qed
    qed
  qed
qed simp

lemma av_count_le: "binv c \<Longrightarrow> unat (av_count c) \<le> v_buf c"
  using avail_length by (fastforce simp: binv_def avail_def)

lemma getblk_ok:
  "binv c \<Longrightarrow> dev \<noteq> NODEV \<Longrightarrow> getblk dev blkno c = (r, c') \<Longrightarrow>
   binv c' \<and> view c' = view c \<and> (case r of Got i \<Rightarrow> got dev (ltop blkno) c' i | Sleeps \<Rightarrow> True | Stuck \<Rightarrow> False)"
  using getblk_loop_ok [of c "v_buf c + 1" dev "ltop blkno" r c'] av_count_le [of c] by (simp add: getblk_def)

lemma geteblk_loop_ok:
  "binv c \<Longrightarrow> unat (av_count c) < n \<Longrightarrow> geteblk_loop n c = (r, c') \<Longrightarrow>
   binv c' \<and> view c' = view c \<and> (case r of Got i \<Rightarrow> got NODEV (b_blkno (bufs c' i)) c' i | Sleeps \<Rightarrow> True | Stuck \<Rightarrow> False)"
proof (induction n arbitrary: c)
  case (Suc n)
  from Suc.prems(1) obtain L F where C: "core c" "chained c L" "avail c F" by (rule binvE)
  show ?case
  proof (cases F)
    case Nil
    then have e: "r = Sleeps" "c' = bsleep W_free (c\<lparr>av_wanted := True\<rparr>)" using Suc.prems(3) avail_first [OF C(3)] by simp_all
    have b: "\<forall>i < v_buf c. B_BUSY \<in> bflags c i" using avail_in [OF C(3)] Nil by auto
    show ?thesis using same_inv [OF Suc.prems(1) no_buffer_core(1) [OF C(1) b]] no_buffer_core(2) [OF C(1) b]
      by (simp add: e fun_eq_iff)
  next
    case (Cons i G)
    then have a: "av_forw c Avail = Buf i" using avail_first [OF C(3)] by simp
    have i: "i < v_buf c" "B_BUSY \<notin> bflags c i" using avail_in [OF C(3), of i] Cons by simp_all
    show ?thesis
    proof (cases "B_DELWRI \<in> bflags c i")
      case True
      have "avail (evict i c) G" using evict_avail [OF C(3), of "[]" i G] Cons True by simp
      then have n: "unat (av_count (evict i c)) < n" using C(3) Suc.prems(2) Cons by (simp add: avail_def)
      have "geteblk_loop n (evict i c) = (r, c')" using Suc.prems(3) a True by simp
      from Suc.IH [OF evict_inv [OF Suc.prems(1) i True] n this]
      show ?thesis using evict_core(2) [OF C(1) i True] by (simp add: fun_eq_iff)
    next
      case False
      then have e: "r = Got i" "c' = unassign i c" using Suc.prems(3) a by simp_all
      show ?thesis using unassign_inv [OF Suc.prems(1) i False] unassign_core(2) [OF C(1) i False]
          core_free [OF C(1) i] i by (simp add: e fun_eq_iff got_def owned_def)
    qed
  qed
qed simp

lemma geteblk_ok:
  "binv c \<Longrightarrow> geteblk c = (r, c') \<Longrightarrow>
   binv c' \<and> view c' = view c \<and> (case r of Got i \<Rightarrow> got NODEV (b_blkno (bufs c' i)) c' i | Sleeps \<Rightarrow> True | Stuck \<Rightarrow> False)"
  using geteblk_loop_ok [of c "v_buf c + 1" r c'] av_count_le [of c] by (simp add: geteblk_def)

section \<open>Reading\<close>

text \<open>A buffer that is done and without an error holds what the cache holds of its block.\<close>

lemma done_view:
  assumes C: "core c" and i: "i < v_buf c" "named (bufs c i)" "B_DONE \<in> bflags c i" "B_ERROR \<notin> bflags c i"
  shows "view c (b_dev (bufs c i)) (b_blkno (bufs c i)) = b_data (bufs c i)"
proof (cases "B_DELWRI \<in> bflags c i")
  case True
  then show ?thesis using view_dirty [OF C i(1)] by (simp add: dirty_def)
next
  case False
  then have "clean (bufs c i)" using i by (auto simp: clean_def named_def)
  then have d: "b_data (bufs c i) = media c (b_dev (bufs c i)) (b_blkno (bufs c i))" by (rule core_clean [OF C i(1)])
  have "view c (b_dev (bufs c i)) (b_blkno (bufs c i)) = media c (b_dev (bufs c i)) (b_blkno (bufs c i))"
  proof (rule view_media)
    fix j assume j: "j < v_buf c" "dirty c j"
    have "j \<noteq> i" using j(2) False i(3) queued_facts(3) [OF C, of i] by (auto simp: dirty_def)
    then show "\<not> (b_dev (bufs c j) = b_dev (bufs c i) \<and> b_blkno (bufs c j) = b_blkno (bufs c i))"
      using core_unique [OF C j(1) i(1) _ dirty_named [OF C j] i(2)] by (simp add: same_block_def)
  qed
  then show ?thesis by (simp add: d)
qed

lemma got_view: "binv c \<Longrightarrow> got dev blk c i \<Longrightarrow> dev \<noteq> NODEV \<Longrightarrow> B_DONE \<in> bflags c i \<Longrightarrow> b_data (bufs c i) = view c dev blk"
  using done_view [of c i] owned_facts(1,4) [of c i] by (auto simp: binv_def got_def named_def)

lemma start_read_inv:
  assumes B: "binv c" and g: "got dev blk c i" "dev \<noteq> NODEV" "B_DONE \<notin> bflags c i" and F: "B_READ \<in> F" "F \<subseteq> {B_READ, B_ASYNC}"
  shows "binv (start_read F i c)" "view (start_read F i c) = view c"
proof -
  have C: "core c" using B by (simp add: binv_def)
  have o: "owned c i" "b_dev (bufs c i) \<noteq> NODEV" using g by (simp_all add: got_def)
  have "B_BUSY \<notin> F" using F by auto
  then show "binv (start_read F i c)" using same_inv [OF B start_read_core(1) [OF C o(1) g(3) o(2) F]] by simp
  show "view (start_read F i c) = view c" by (simp add: fun_eq_iff start_read_core(2) [OF C o(1) g(3) o(2) F])
qed

lemma bread_start_ok:
  assumes B: "binv c" and d: "dev \<noteq> NODEV" and r: "bread_start dev blkno c = (r, c')"
  shows "binv c' \<and> view c' = view c \<and> r \<noteq> Stuck"
proof -
  obtain r1 c1 where g: "getblk dev blkno c = (r1, c1)" by fastforce
  note G = getblk_ok [OF B d g]
  show ?thesis
  proof (cases r1)
    case (Got i)
    then show ?thesis using G r g start_read_inv [of c1 dev "ltop blkno" i "{B_READ}"] d
      by (auto simp: bread_start_def split: if_splits)
  qed (use G r g in \<open>auto simp: bread_start_def\<close>)
qed

lemma io_sleep_inv:
  assumes "binv c" "i \<in> set (io_queue c)" "B_ASYNC \<notin> bflags c i"
  shows "binv (bsleep (W_io i) c)" "view (bsleep (W_io i) c) = view c"
  using assms same_inv [of c "bsleep (W_io i) c"] io_sleep_core [of c i] by (auto simp: binv_def fun_eq_iff)

lemma geterror_inv: "binv c \<Longrightarrow> binv (geterror i c)" "binv c \<Longrightarrow> view (geterror i c) = view c"
  using same_inv [of c "geterror i c"] geterror_core [of c i] by (auto simp: binv_def fun_eq_iff)

lemma bread_ok:
  assumes B: "binv c" and d: "dev \<noteq> NODEV" and r: "bread dev blkno c = (r, c')"
  shows "binv c' \<and> view c' = view c \<and>
    (case r of Got i \<Rightarrow> got dev (ltop blkno) c' i \<and> b_data (bufs c' i) = view c dev (ltop blkno) | Sleeps \<Rightarrow> True | Stuck \<Rightarrow> False)"
proof -
  obtain r1 c1 where g: "getblk dev blkno c = (r1, c1)" by fastforce
  note G = getblk_ok [OF B d g]
  show ?thesis
  proof (cases r1)
    case (Got i)
    then have g1: "binv c1" "view c1 = view c" "got dev (ltop blkno) c1 i" using G by simp_all
    show ?thesis
    proof (cases "B_DONE \<in> bflags c1 i")
      case True
      then have e: "r = Got i" "c' = c1" using r g Got by (auto simp: bread_def)
      show ?thesis using g1 got_view [OF g1(1,3) d True] by (simp add: e)
    next
      case False
      let ?s = "start_read {B_READ} i c1"
      have S: "binv ?s" "view ?s = view c" using start_read_inv [OF g1(1,3) d False, of "{B_READ}"] g1(2) by simp_all
      have o: "B_ASYNC \<notin> bflags c1 i" using g1 owned_facts(5) [of c1 i] by (simp add: binv_def got_def)
      have e: "r = Sleeps" "c' = bsleep (W_io i) ?s" using r g Got False by (auto simp: bread_def iowait_def)
      show ?thesis using io_sleep_inv [OF S(1), of i] S(2) o by (simp add: e)
    qed
  qed (use G r g in \<open>auto simp: bread_def\<close>)
qed

end
