(* ===== verification/Cache_Flush.thy ===== *)
theory Cache_Flush
  imports Cache_Run
begin

text \<open>
  The scans of the buffer cache (\<open>bflush\<close>, \<open>bdflush\<close>, \<open>binval\<close>), its initial state, and the runs of
  the cache under any interleaving of its callers and of the completions of the drivers.
\<close>

section \<open>Flushing\<close>

lemma avail_next: "avail c (us @ i # vs) \<Longrightarrow> av_forw c (Buf i) = (case vs of [] \<Rightarrow> Avail | j # _ \<Rightarrow> Buf j)"
  using ring_at(2) [of "av_forw c" "av_back c" Avail "map Buf us" "Buf i" "map Buf vs"] by (auto simp: avail_def split: list.split)

lemma flush_loop_ok:
  assumes P: "\<And>b F. P (b\<lparr>b_flags := F\<rparr>) = P b"
  shows "binv c \<Longrightarrow> avail c (us @ vs) \<Longrightarrow> p = (case vs of [] \<Rightarrow> Avail | j # _ \<Rightarrow> Buf j) \<Longrightarrow>
    \<forall>i \<in> set us. \<not> (B_DELWRI \<in> bflags c i \<and> P (bufs c i)) \<Longrightarrow> length vs + length (us @ vs) * length (us @ vs) < n \<Longrightarrow>
    \<exists>c'. flush_loop n P p c = Some c' \<and> binv c' \<and> view c' = view c \<and> v_buf c' = v_buf c \<and>
      (\<forall>i < v_buf c. B_BUSY \<notin> bflags c' i \<longrightarrow> B_DELWRI \<in> bflags c' i \<longrightarrow> \<not> P (bufs c' i))"
proof (induction n arbitrary: c us vs p)
  case (Suc n)
  show ?case
  proof (cases vs)
    case Nil
    then have "flush_loop (Suc n) P p c = Some c" using Suc.prems(3) by simp
    moreover have "\<forall>i < v_buf c. B_BUSY \<notin> bflags c i \<longrightarrow> B_DELWRI \<in> bflags c i \<longrightarrow> \<not> P (bufs c i)"
      using Suc.prems(4) avail_in [OF Suc.prems(2)] Nil by auto
    ultimately show ?thesis using Suc.prems(1) by blast
  next
    case (Cons i ws)
    have i: "i < v_buf c" "B_BUSY \<notin> bflags c i" using avail_in [OF Suc.prems(2), of i] Cons by simp_all
    show ?thesis
    proof (cases "B_DELWRI \<in> bflags c i \<and> P (bufs c i)")
      case True
      have C: "core c" using Suc.prems(1) by (simp add: binv_def)
      have A: "avail (evict i c) ([] @ us @ ws)" using evict_avail [OF Suc.prems(2), of us i ws] Cons True by simp
      let ?m = "length (us @ ws)"
      have "length (us @ vs) = Suc ?m" using Cons by simp
      then have n: "?m + ?m * ?m < n" using Suc.prems(5) Cons by simp
      have "\<exists>c'. flush_loop n P (av_forw (evict i c) Avail) (evict i c) = Some c' \<and> binv c' \<and> view c' = view (evict i c) \<and>
          v_buf c' = v_buf (evict i c) \<and>
          (\<forall>j < v_buf (evict i c). B_BUSY \<notin> bflags c' j \<longrightarrow> B_DELWRI \<in> bflags c' j \<longrightarrow> \<not> P (bufs c' j))"
        by (rule Suc.IH [OF evict_inv [OF Suc.prems(1) i] A]) (use True n avail_first [OF A] in simp_all)
      moreover have "flush_loop (Suc n) P p c = flush_loop n P (av_forw (evict i c) Avail) (evict i c)"
        using Suc.prems(3) Cons True by (simp add: Let_def)
      moreover have "view (evict i c) = view c" using evict_core(2) [OF C i] True by (simp add: fun_eq_iff)
      ultimately show ?thesis using True by simp
    next
      case False
      have A: "avail c ((us @ [i]) @ ws)" using Suc.prems(2) Cons by simp
      have "length ws + length ((us @ [i]) @ ws) * length ((us @ [i]) @ ws) < n" using Suc.prems(5) Cons by simp
      moreover have "av_forw c (Buf i) = (case ws of [] \<Rightarrow> Avail | j # _ \<Rightarrow> Buf j)" by (rule avail_next) (use A in simp)
      moreover have "\<forall>j \<in> set (us @ [i]). \<not> (B_DELWRI \<in> bflags c j \<and> P (bufs c j))" using Suc.prems(4) False by auto
      ultimately have "\<exists>c'. flush_loop n P (av_forw c (Buf i)) c = Some c' \<and> binv c' \<and> view c' = view c \<and> v_buf c' = v_buf c \<and>
          (\<forall>i < v_buf c. B_BUSY \<notin> bflags c' i \<longrightarrow> B_DELWRI \<in> bflags c' i \<longrightarrow> \<not> P (bufs c' i))"
        by (intro Suc.IH [OF Suc.prems(1) A]) simp_all
      moreover have "flush_loop (Suc n) P p c = flush_loop n P (av_forw c (Buf i)) c"
        using Suc.prems(3) Cons False by auto
      ultimately show ?thesis by simp
    qed
  qed
qed simp

lemma flush_ok:
  assumes B: "binv c" and P: "\<And>b F. P (b\<lparr>b_flags := F\<rparr>) = P b"
  shows "\<exists>c'. flush_loop (flush_fuel c) P (av_forw c Avail) c = Some c' \<and> binv c' \<and> view c' = view c \<and> v_buf c' = v_buf c \<and>
    (\<forall>i < v_buf c. B_BUSY \<notin> bflags c' i \<longrightarrow> B_DELWRI \<in> bflags c' i \<longrightarrow> \<not> P (bufs c' i))"
proof -
  from B obtain L F where C: "core c" "chained c L" "avail c F" by (rule binvE)
  have "length F * length F \<le> v_buf c * v_buf c" using avail_length [OF C(3)] by (intro mult_le_mono)
  then have n: "length F + length ([] @ F) * length ([] @ F) < flush_fuel c" using avail_length [OF C(3)] by (simp add: flush_fuel_def)
  show ?thesis by (rule flush_loop_ok [of P c "[]" F, OF P B]) (use C n avail_first [OF C(3)] in simp_all)
qed

section \<open>Invalidation\<close>

definition marked :: "u16 \<Rightarrow> node set \<Rightarrow> bcache \<Rightarrow> bcache" where
  "marked dev S c = c\<lparr>bufs := (\<lambda>i. if Buf i \<in> S \<and> b_dev (bufs c i) = dev then bset {B_STALE, B_AGE} (bufs c i) else bufs c i)\<rparr>"

lemma marked_more: "marked dev T (marked dev S c) = marked dev (S \<union> T) c"
  by (rule bcache.equality) (auto simp: marked_def fun_eq_iff insert_commute)

lemma marked_fields [simp]:
  "v_buf (marked dev S c) = v_buf c" "v_hbuf (marked dev S c) = v_hbuf c" "io_queue (marked dev S c) = io_queue c"
  "media (marked dev S c) = media c" "basyncnt (marked dev S c) = basyncnt c" "sleepers (marked dev S c) = sleepers c"
  "b_forw (marked dev S c) = b_forw c" "b_back (marked dev S c) = b_back c"
  "b_dev (bufs (marked dev S c) i) = b_dev (bufs c i)" "b_blkno (bufs (marked dev S c) i) = b_blkno (bufs c i)"
  "b_data (bufs (marked dev S c) i) = b_data (bufs c i)"
  by (simp_all add: marked_def)

lemma mark_chain_ok:
  "dlinks (b_forw c) b (p # xs @ [dp]) \<Longrightarrow> dp \<notin> set (p # xs) \<Longrightarrow> length xs + 1 < n \<Longrightarrow>
   mark_chain n dev dp p c = Some (marked dev (set (p # xs)) c)"
proof (induction xs arbitrary: p n c)
  case Nil
  obtain m where n: "n = Suc (Suc m)" using Nil.prems(3) by (cases n; cases "n - 1") auto
  have "(case p of Buf i \<Rightarrow> if b_dev (bufs c i) = dev then upd i (bset {B_STALE, B_AGE}) c else c | _ \<Rightarrow> c) = marked dev {p} c"
    by (rule bcache.equality) (auto simp: marked_def upd_def fun_eq_iff split: node.split)
  then show ?case using Nil.prems by (simp add: n Let_def)
next
  case (Cons y ys)
  then obtain m where n: "n = Suc m" by (cases n) auto
  have m: "(case p of Buf i \<Rightarrow> if b_dev (bufs c i) = dev then upd i (bset {B_STALE, B_AGE}) c else c | _ \<Rightarrow> c) = marked dev {p} c"
    by (rule bcache.equality) (auto simp: marked_def upd_def fun_eq_iff split: node.split)
  have "mark_chain m dev dp y (marked dev {p} c) = Some (marked dev (set (y # ys)) (marked dev {p} c))"
    by (rule Cons.IH) (use Cons.prems n in auto)
  then show ?case using Cons.prems m by (auto simp: n Let_def marked_more insert_commute)
qed

lemma mark_ring:
  assumes R: "ring (b_forw c) (b_back c) dp xs" and n: "length xs < n"
  shows "mark_chain n dev dp (b_forw c dp) c = Some (marked dev (set xs) c)"
proof (cases xs)
  case Nil
  then have "mark_chain n dev dp (b_forw c dp) c = Some c" using R n ring_empty [OF R] by (cases n) auto
  moreover have "marked dev {} c = c" by (rule bcache.equality) (simp_all add: marked_def)
  ultimately show ?thesis using Nil by simp
next
  case (Cons x ys)
  have "dlinks (b_forw c) (b_back c) (x # ys @ [dp])" "dp \<notin> set (x # ys)" "b_forw c dp = x" using R Cons by (auto simp: ring_def)
  then show ?thesis using mark_chain_ok [of c "b_back c" x ys dp n dev] Cons n by simp
qed

lemma binval_from_ok:
  assumes C: "chained c L"
  shows "n \<le> v_hbuf c \<Longrightarrow> binval_from n dev (marked dev S c) = Some (marked dev (S \<union> (\<Union>h \<in> {v_hbuf c - n..<v_hbuf c}. set (L (Hd h)))) c)"
proof (induction n arbitrary: S)
  case (Suc n)
  let ?h = "Hd (v_hbuf c - Suc n)" let ?c = "marked dev S c"
  have h: "?h \<in> heads c" using Suc.prems by (simp add: heads_def)
  have R: "ring (b_forw ?c) (b_back ?c) ?h (L ?h)"
    using C by (simp, intro rings_ring [OF _ h]) (simp add: chained_def)
  have MC: "mark_chain (v_buf ?c + 1) dev ?h (b_forw ?c ?h) ?c = Some (marked dev (set (L ?h)) ?c)"
    by (rule mark_ring [OF R]) (use chained_length [OF C h] in simp)
  then have "binval_from (Suc n) dev ?c = binval_from n dev (marked dev (S \<union> set (L ?h)) c)"
    by (simp only: binval_from.simps Let_def marked_fields option.case marked_more)
  moreover have "{v_hbuf c - Suc n..<v_hbuf c} = insert (v_hbuf c - Suc n) {v_hbuf c - n..<v_hbuf c}" using Suc.prems by auto
  ultimately show ?case using Suc.IH [of "S \<union> set (L ?h)"] Suc.prems by (simp add: Un_assoc)
qed simp

text \<open>Nothing of a device is in use or waits to be written.\<close>

definition quiet :: "u16 \<Rightarrow> bcache \<Rightarrow> bool" where
  "quiet dev c \<longleftrightarrow> dev \<noteq> NODEV \<and> (\<forall>i < v_buf c. b_dev (bufs c i) = dev \<longrightarrow> B_BUSY \<notin> bflags c i \<and> B_DELWRI \<notin> bflags c i)"

lemma binval_marks:
  assumes B: "binv c" and d: "dev \<noteq> NODEV"
  shows "\<exists>S. binval dev c = Some (marked dev S c) \<and> S \<subseteq> Buf ` {..<v_buf c} \<and> (\<forall>i < v_buf c. b_dev (bufs c i) = dev \<longrightarrow> Buf i \<in> S)"
proof -
  from B obtain L F where C: "core c" "chained c L" "avail c F" by (rule binvE)
  let ?S = "\<Union>h \<in> {..<v_hbuf c}. set (L (Hd h))"
  have "marked dev {} c = c" by (rule bcache.equality) (simp_all add: marked_def)
  then have "binval dev c = Some (marked dev ?S c)"
    using binval_from_ok [OF C(2), of "v_hbuf c" dev "{}"] by (simp add: binval_def atLeast0LessThan)
  moreover have "?S \<subseteq> Buf ` {..<v_buf c}" using C(2) by (auto simp: chained_def heads_def)
  moreover have "Buf i \<in> ?S" if "i < v_buf c" "b_dev (bufs c i) = dev" for i
  proof -
    have "Buf i \<in> set (L (home c i))" using C(2) that(1) by (simp add: chained_def)
    moreover have "home c i \<noteq> Avail" using that(2) d by (simp add: home_def bhash_def)
    ultimately show ?thesis using home_head [OF C(2), of i] by (auto simp: heads_def)
  qed
  ultimately show ?thesis by blast
qed

lemma binval_ok:
  assumes B: "binv c" and q: "quiet dev c"
  shows "\<exists>c'. binval dev c = Some c' \<and> binv c' \<and> view c' = view c \<and> (\<forall>i < v_buf c. b_dev (bufs c i) = dev \<longrightarrow> B_STALE \<in> bflags c' i)"
proof -
  obtain S where S: "binval dev c = Some (marked dev S c)" "S \<subseteq> Buf ` {..<v_buf c}" "\<forall>i < v_buf c. b_dev (bufs c i) = dev \<longrightarrow> Buf i \<in> S"
    using binval_marks [OF B, of dev] q by (auto simp: quiet_def)
  from B obtain L F where C: "core c" "chained c L" "avail c F" by (rule binvE)
  let ?c = "marked dev S c"
  have Q: "B_BUSY \<notin> bflags c i" "B_DELWRI \<notin> bflags c i" "i \<notin> set (io_queue c)" if "i < v_buf c" "b_dev (bufs c i) = dev" for i
    using q that core_free [OF C(1) that(1)] by (auto simp: quiet_def)
  have fl: "y \<in> bflags ?c i \<longleftrightarrow> y \<in> bflags c i" if "y \<notin> {B_STALE, B_AGE}" for y i using that by (auto simp: marked_def)
  have st: "B_STALE \<in> bflags ?c i \<longleftrightarrow> B_STALE \<in> bflags c i \<or> Buf i \<in> S \<and> b_dev (bufs c i) = dev" for i by (auto simp: marked_def)
  have core: "core ?c" unfolding core_def
  proof (intro conjI allI impI ballI)
    fix i assume i: "i < v_buf ?c"
    show "buf_ok (i \<in> set (io_queue ?c)) (bufs ?c i)"
      using core_buf [OF C(1), of i] i Q [of i] by (auto simp: buf_ok_def fl st)
    show "b_data (bufs ?c i) = media ?c (b_dev (bufs ?c i)) (b_blkno (bufs ?c i))" if "clean (bufs ?c i)"
      using core_clean [OF C(1), of i] i that by (auto simp: clean_def fl st)
    show "\<not> same_block (bufs ?c i) (bufs ?c j)" if "j < v_buf ?c" "i \<noteq> j" "named (bufs ?c i)" "named (bufs ?c j)" for j
      using core_unique [OF C(1), of i j] i that by (auto simp: named_def st same_block_def)
  next
    have "awrites ?c = awrites c" by (auto simp: awrites_def fl)
    then show "basyncnt ?c = int (card (awrites ?c))" using core_async [OF C(1)] by simp
    fix w assume "w \<in> set (sleepers ?c)"
    then have "wait_ok c w" using core_wait [OF C(1)] by simp
    then show "wait_ok ?c w" by (cases w) (auto simp: fl, auto simp: marked_def)
  qed (use core_queue [OF C(1)] in auto)
  have "same_links c ?c" "same_avail c ?c" by (auto simp: same_links_def same_avail_def marked_def)
  then have inv: "binv ?c" by (rule same_inv [OF B core])
  have "dirty ?c = dirty c" by (auto simp: dirty_def fl fun_eq_iff)
  then have "view ?c = view c" unfolding fun_eq_iff view_def by (simp split: option.split)
  then show ?thesis using S inv by (auto simp: st)
qed

section \<open>The initial state\<close>

text \<open>What memory holds when \<open>binit\<close> runs: the counters are zero, nothing sleeps, no driver is at work.\<close>

definition cold :: "bcache \<Rightarrow> bool" where
  "cold c \<longleftrightarrow> unat (v_hmask c) < v_hbuf c \<and> v_buf c < 65536 \<and> av_count c = 0 \<and> \<not> av_wanted c \<and> basyncnt c = 0 \<and>
     io_queue c = [] \<and> sleepers c = []"

definition warm :: "nat \<Rightarrow> bcache \<Rightarrow> bool" where
  "warm n c \<longleftrightarrow> (\<exists>xs F. ring (b_forw c) (b_back c) Avail (map Buf xs) \<and> set xs = {..<n} \<and> avail (c\<lparr>v_buf := n\<rparr>) F) \<and>
     (\<forall>i < n. b_dev (bufs c i) = NODEV \<and> bflags c i = {}) \<and> basyncnt c = 0 \<and> io_queue c = [] \<and> sleepers c = []"

lemma binit_one_fields:
  "bufs (binit_one i c) = (bufs c)(i := released ((bufs c i)\<lparr>b_dev := NODEV, b_flags := {B_BUSY}, b_bcount := 0\<rparr>))"
  "v_buf (binit_one i c) = v_buf c" "v_hbuf (binit_one i c) = v_hbuf c" "v_hmask (binit_one i c) = v_hmask c"
  "b_forw (binit_one i c) = (b_forw c)(Buf i := b_forw c Avail, Avail := Buf i)"
  "b_back (binit_one i c) = (b_back c)(Buf i := Avail, b_forw c Avail := Buf i)"
  "basyncnt (binit_one i c) = basyncnt c" "io_queue (binit_one i c) = io_queue c" "av_count (binit_one i c) = av_count c + 1"
  by (simp_all add: binit_one_def Let_def upd_def)

lemma binit_one_sleepers: "sleepers c = [] \<Longrightarrow> sleepers (binit_one i c) = []"
  by (simp add: binit_one_def Let_def upd_def brelse_def bwakeup_def av_first_def av_last_def)

lemma binit_one_links:
  "av_forw (binit_one i c) = av_forw (av_last i c) \<and> av_back (binit_one i c) = av_back (av_last i c)"
  by (simp add: binit_one_def Let_def upd_def brelse_def bwakeup_def av_last_def)

lemma warm_Suc:
  assumes W: "warm n c" and n: "Suc n < 65536" shows "warm (Suc n) (binit_one n c)"
proof -
  obtain xs F where X: "ring (b_forw c) (b_back c) Avail (map Buf xs)" "set xs = {..<n}" and A: "avail (c\<lparr>v_buf := n\<rparr>) F"
    using W by (auto simp: warm_def)
  let ?c = "binit_one n c"
  have R: "ring (b_forw ?c) (b_back ?c) Avail (map Buf (n # xs))"
  proof -
    have "Buf n \<notin> set (Avail # map Buf xs)" using X(2) by auto
    from ring_front [OF X(1) this] have "ring ((b_forw c)(Buf n := b_forw c Avail, Avail := Buf n))
        ((b_back c)(b_forw c Avail := Buf n, Buf n := Avail)) Avail (Buf n # map Buf xs)" .
    moreover have "b_forw c Avail \<noteq> Buf n" using ring_first [OF X(1)] X(2) by (cases xs) auto
    ultimately show ?thesis by (simp add: binit_one_fields fun_upd_twist)
  qed
  let ?d = "c\<lparr>v_buf := Suc n, bufs := (bufs c)(n := (bufs c n)\<lparr>b_flags := {B_BUSY}\<rparr>)\<rparr>"
  have A0: "avail ?d F" using A n by (auto simp: avail_def less_Suc_eq)
  define e where "e = ?c\<lparr>v_buf := Suc n\<rparr>"
  have e: "av_forw e = av_forw ?c" "av_back e = av_back ?c" "bufs e = bufs ?c" "av_count e = av_count ?c" "v_buf e = Suc n"
    by (simp_all add: e_def)
  have l: "av_forw (av_last n ?d) = av_forw (av_last n c)" "av_back (av_last n ?d) = av_back (av_last n c)"
    by (simp_all add: av_last_def Let_def)
  have "avail e (n # F) \<or> avail e (F @ [n])"
  proof (rule avail_give [OF A0])
    show "av_forw e = av_forw (av_first n ?d) \<and> av_back e = av_back (av_first n ?d) \<or>
        av_forw e = av_forw (av_last n ?d) \<and> av_back e = av_back (av_last n ?d)"
      using binit_one_links [of n c] unfolding e l by blast
  qed (simp_all add: e binit_one_fields)
  then obtain G where G: "avail (?c\<lparr>v_buf := Suc n\<rparr>) G" unfolding e_def by blast
  have "set (n # xs) = {..<Suc n}" using X(2) by (simp add: lessThan_Suc)
  moreover have "\<forall>i < Suc n. b_dev (bufs ?c i) = NODEV \<and> bflags ?c i = {}"
  proof (intro allI impI)
    fix i assume "i < Suc n"
    then show "b_dev (bufs ?c i) = NODEV \<and> bflags ?c i = {}" using W by (cases "i = n") (simp_all add: binit_one_fields warm_def)
  qed
  moreover have "basyncnt ?c = 0 \<and> io_queue ?c = [] \<and> sleepers ?c = []" using W binit_one_sleepers by (simp add: binit_one_fields warm_def)
  ultimately show ?thesis unfolding warm_def using R G by blast
qed

lemma warm_fold:
  "warm 0 c \<Longrightarrow> n < 65536 \<Longrightarrow> warm n (fold binit_one [0..<n] c) \<and> v_buf (fold binit_one [0..<n] c) = v_buf c \<and>
     v_hbuf (fold binit_one [0..<n] c) = v_hbuf c \<and> v_hmask (fold binit_one [0..<n] c) = v_hmask c"
  by (induction n) (simp_all add: warm_Suc binit_one_fields)

lemma binit_heads:
  "fold binit_head hs c = c\<lparr>b_forw := (\<lambda>p. if p \<in> Hd ` set hs then p else b_forw c p), b_back := (\<lambda>p. if p \<in> Hd ` set hs then p else b_back c p)\<rparr>"
  by (induction hs arbitrary: c) (auto simp: binit_head_def fun_eq_iff)

lemma binit_inv: assumes K: "cold c" shows "binv (binit c)"
proof -
  let ?d = "c\<lparr>b_forw := (b_forw c)(Avail := Avail), b_back := (b_back c)(Avail := Avail),
                av_forw := (av_forw c)(Avail := Avail), av_back := (av_back c)(Avail := Avail)\<rparr>"
  let ?g = "fold binit_one [0..<v_buf c] ?d"
  have "warm 0 ?d" using K by (auto simp: warm_def cold_def avail_def ring_def)
  then have W: "warm (v_buf c) ?g" "v_buf ?g = v_buf c" "v_hbuf ?g = v_hbuf c" "v_hmask ?g = v_hmask c"
    using warm_fold [of ?d "v_buf c"] K by (simp_all add: cold_def)
  let ?c = "fold binit_head [0..<v_hbuf c] ?g"
  have e: "binit c = ?c" by (simp add: binit_def Let_def)
  obtain xs F where X: "ring (b_forw ?g) (b_back ?g) Avail (map Buf xs)" "set xs = {..<v_buf c}" and A: "avail (?g\<lparr>v_buf := v_buf c\<rparr>) F"
    using W(1) by (auto simp: warm_def)
  have b: "b_dev (bufs ?g i) = NODEV" "bflags ?g i = {}" if "i < v_buf c" for i using W(1) that by (auto simp: warm_def)
  have q: "basyncnt ?g = 0" "io_queue ?g = []" "sleepers ?g = []" using W(1) by (auto simp: warm_def)
  note H = binit_heads [of "[0..<v_hbuf c]" ?g]
  let ?L = "\<lambda>p. if p = Avail then map Buf xs else []"
  have av: "ring (b_forw ?c) (b_back ?c) Avail (map Buf xs)"
    by (rule ring_cong [THEN iffD2, OF _ X(1)]) (auto simp: H)
  have "rings (b_forw ?c) (b_back ?c) (heads ?c) ?L"
    unfolding rings_def using av by (auto simp: heads_def H W ring_def)
  moreover have "home ?c i = Avail" if "i < v_buf c" for i using b [OF that] by (simp add: home_def H)
  ultimately have "chained ?c ?L" using K X(2) by (auto simp: chained_def cold_def H W heads_def)
  moreover have "avail ?c F" using A by (simp add: avail_def H W)
  moreover have "core ?c" using q b by (auto simp: core_def buf_ok_def clean_def named_def awrites_def H W)
  ultimately show ?thesis unfolding e by (auto intro: binvI)
qed

end
