(* ===== verification/Cache_Transparent.thy ===== *)
theory Cache_Transparent
  imports Cache_Flush
begin

text \<open>
  The runs of the buffer cache: a step is a call of one of its routines up to the point where it
  sleeps or returns, or the completion of one request by a driver. Processes and drivers interleave
  freely; a process writes only a buffer it has, and gives up only such a buffer.
\<close>

text \<open>What a step may do to the contents of the blocks: nothing, or set those of one block.\<close>

datatype (plugins only: code) bop = Same | Put u16 u32 block

fun seen :: "bop \<Rightarrow> (u16 \<Rightarrow> u32 \<Rightarrow> block) \<Rightarrow> u16 \<Rightarrow> u32 \<Rightarrow> block" where
  "seen Same v = v"
| "seen (Put d k x) v = v(d := (v d)(k := x))"

text \<open>A buffer in the wait of a synchronous request: at the driver, or done.\<close>

definition awaited :: "bcache \<Rightarrow> nat \<Rightarrow> bool" where
  "awaited c i \<longleftrightarrow> (if i \<in> set (io_queue c) then B_ASYNC \<notin> bflags c i else owned c i \<and> B_DONE \<in> bflags c i)"

inductive bstep :: "bop \<Rightarrow> bcache \<Rightarrow> bcache \<Rightarrow> bool" where
  get: "dev \<noteq> NODEV \<Longrightarrow> bstep Same c (snd (getblk dev blkno c))"
| get_empty: "bstep Same c (snd (geteblk c))"
| read: "dev \<noteq> NODEV \<Longrightarrow> bstep Same c (snd (bread dev blkno c))"
| read_start: "dev \<noteq> NODEV \<Longrightarrow> bstep Same c (snd (bread_start dev blkno c))"
| ahead: "dev \<noteq> NODEV \<Longrightarrow> bstep Same c (snd (read_ahead dev blkno c))"
| wait: "awaited c i \<Longrightarrow> bstep Same c (snd (iowait i c))"
| wait_write: "awaited c i \<Longrightarrow> bstep Same c (snd (bwrite_wait i c))"
| release: "owned c i \<Longrightarrow> bstep Same c (brelse i c)"
| delay: "owned c i \<Longrightarrow> b_dev (bufs c i) \<noteq> NODEV \<Longrightarrow> B_ERROR \<notin> bflags c i \<Longrightarrow>
    bstep (Put (b_dev (bufs c i)) (b_blkno (bufs c i)) x) c (bdwrite i (fill i x c))"
| sync: "owned c i \<Longrightarrow> b_dev (bufs c i) \<noteq> NODEV \<Longrightarrow>
    bstep (Put (b_dev (bufs c i)) (b_blkno (bufs c i)) x) c (snd (bwrite i (fill i x c)))"
| async: "owned c i \<Longrightarrow> b_dev (bufs c i) \<noteq> NODEV \<Longrightarrow>
    bstep (Put (b_dev (bufs c i)) (b_blkno (bufs c i)) x) c (snd (bawrite i (fill i x c)))"
| ok: "i \<in> set (io_queue c) \<Longrightarrow> bstep Same c (io_ok i c)"
| fail: "i \<in> set (io_queue c) \<Longrightarrow>
    bstep (if B_READ \<in> bflags c i then Same else Put (b_dev (bufs c i)) (b_blkno (bufs c i)) x) c (io_fail i e x c)"
| flush: "bflush dev c = Some c' \<Longrightarrow> bstep Same c c'"
| dflush: "bdflush c = Some c' \<Longrightarrow> bstep Same c c'"
| dwait: "bstep Same c (snd (bdwait c))"
| inval: "quiet dev c \<Longrightarrow> binval dev c = Some c' \<Longrightarrow> bstep Same c c'"
| tick: "bstep Same c (c\<lparr>blbolt := blbolt c + 1\<rparr>)"

inductive breach :: "bcache \<Rightarrow> bool" where
  init: "cold c \<Longrightarrow> breach (binit c)"
| step: "breach c \<Longrightarrow> bstep op c c' \<Longrightarrow> breach c'"

section \<open>Each step\<close>

lemma iowait_ok:
  assumes B: "binv c" and a: "awaited c i" shows "binv (snd (iowait i c)) \<and> view (snd (iowait i c)) = view c"
proof (cases "B_DONE \<in> bflags c i")
  case True then show ?thesis using geterror_inv [OF B] by (simp add: iowait_def)
next
  case False
  then have "i \<in> set (io_queue c)" "B_ASYNC \<notin> bflags c i" using a by (auto simp: awaited_def split: if_splits)
  then show ?thesis using io_sleep_inv [OF B] False by (simp add: iowait_def)
qed

lemma release_ok: "binv c \<Longrightarrow> owned c i \<Longrightarrow> binv (brelse i c) \<and> view (brelse i c) = view c"
  using release_inv [of c i] release_core(2) [of c i] by (simp add: binv_def fun_eq_iff)

lemma wait_write_ok:
  assumes B: "binv c" and a: "awaited c i" shows "binv (snd (bwrite_wait i c)) \<and> view (snd (bwrite_wait i c)) = view c"
proof (cases "B_DONE \<in> bflags c i")
  case True
  have C: "core c" using B by (simp add: binv_def)
  have "owned c i" using a True queued_facts(3) [OF C, of i] by (auto simp: awaited_def split: if_splits)
  then have "owned (geterror i c) i" by (simp add: owned_def)
  then show ?thesis using geterror_inv [OF B, of i] release_ok [of "geterror i c" i] True by (simp add: bwrite_wait_def iowait_def)
next
  case False then show ?thesis using iowait_ok [OF B a] by (simp add: bwrite_wait_def iowait_def)
qed

lemma store_start_ok:
  assumes B: "binv c" and o: "owned c i" "b_dev (bufs c i) \<noteq> NODEV" and A: "A \<subseteq> {B_ASYNC}"
  shows "binv (store_start A i x c) \<and> view (store_start A i x c) = seen (Put (b_dev (bufs c i)) (b_blkno (bufs c i)) x) (view c)"
proof -
  have C: "core c" using B by (simp add: binv_def)
  show ?thesis using same_inv [OF B store_core(1) [OF C o A], of x] store_core(2) [OF C o A, of x] A by (auto simp: fun_eq_iff)
qed

lemma bwrite_store:
  assumes B: "binv c" and o: "owned c i" "b_dev (bufs c i) \<noteq> NODEV" and A: "A = {} \<or> A = {B_ASYNC}"
  shows "binv (snd (bwrite i (upd i (bset A) (fill i x c)))) \<and>
    view (snd (bwrite i (upd i (bset A) (fill i x c)))) = seen (Put (b_dev (bufs c i)) (b_blkno (bufs c i)) x) (view c)"
proof -
  let ?s = "store_start A i x c"
  have S: "binv ?s" "view ?s = seen (Put (b_dev (bufs c i)) (b_blkno (bufs c i)) x) (view c)"
    using store_start_ok [OF B o, of A x] A by auto
  have na: "B_ASYNC \<notin> bflags c i" using owned_facts(5) [of c i] B o by (simp add: binv_def)
  show ?thesis
  proof (cases "A = {}")
    case True
    have "awaited ?s i" using na True by (simp add: awaited_def store_fields)
    moreover have "snd (bwrite i (upd i (bset A) (fill i x c))) = snd (bwrite_wait i ?s)"
      using na True by (simp add: bwrite_def store_start_def upd_def fill_def)
    ultimately show ?thesis using wait_write_ok [OF S(1)] S(2) by simp
  next
    case False
    then have "snd (bwrite i (upd i (bset A) (fill i x c))) = ?s"
      using A by (simp add: bwrite_def store_start_def upd_def)
    then show ?thesis using S by simp
  qed
qed

lemma bset_none: "upd i (bset {}) c = c"
  by (simp add: upd_def)

lemma read_ahead_ok:
  assumes B: "binv c" and d: "dev \<noteq> NODEV" shows "binv (snd (read_ahead dev rablkno c)) \<and> view (snd (read_ahead dev rablkno c)) = view c"
proof -
  obtain r c1 where g: "getblk dev rablkno c = (r, c1)" by fastforce
  note G = getblk_ok [OF B d g]
  show ?thesis
  proof (cases r)
    case (Got i)
    then have g1: "binv c1" "view c1 = view c" "got dev (ltop rablkno) c1 i" using G by simp_all
    then have "binv (brelse i c1) \<and> view (brelse i c1) = view c" using release_ok [of c1 i] by (simp add: got_def)
    moreover have "binv (start_read {B_READ, B_ASYNC} i c1) \<and> view (start_read {B_READ, B_ASYNC} i c1) = view c" if "B_DONE \<notin> bflags c1 i"
      using start_read_inv [OF g1(1,3) d that, of "{B_READ, B_ASYNC}"] g1(2) by simp
    ultimately show ?thesis using B g Got by (simp add: read_ahead_def)
  qed (use B G g in \<open>simp_all add: read_ahead_def\<close>)
qed

lemma bstep_ok: "bstep op c c' \<Longrightarrow> binv c \<Longrightarrow> binv c' \<and> view c' = seen op (view c)"
proof (induction rule: bstep.induct)
  case (get dev c blkno)
  then show ?case using getblk_ok [of c dev blkno "fst (getblk dev blkno c)" "snd (getblk dev blkno c)"] by simp
next
  case (get_empty c)
  then show ?case using geteblk_ok [of c "fst (geteblk c)" "snd (geteblk c)"] by simp
next
  case (read dev c blkno)
  then show ?case using bread_ok [of c dev blkno "fst (bread dev blkno c)" "snd (bread dev blkno c)"] by simp
next
  case (read_start dev c blkno)
  then show ?case using bread_start_ok [of c dev blkno "fst (bread_start dev blkno c)" "snd (bread_start dev blkno c)"] by simp
next
  case (ahead dev c blkno) then show ?case using read_ahead_ok by simp
next
  case (wait c i) then show ?case using iowait_ok by simp
next
  case (wait_write c i) then show ?case using wait_write_ok by simp
next
  case (release c i) then show ?case using release_ok by simp
next
  case (delay c i x)
  then have C: "core c" by (simp add: binv_def)
  show ?case using delay_inv [OF delay(4,1,2,3)] bdwrite_core(2) [OF C delay(1,2,3), of x] by (simp add: fun_eq_iff)
next
  case (sync c i x) then show ?case using bwrite_store [of c i "{}" x] unfolding bset_none by simp
next
  case (async c i x)
  then show ?case using bwrite_store [of c i "{}" x] bwrite_store [of c i "{B_ASYNC}" x]
    unfolding bset_none bawrite_def by (simp split: if_splits)
next
  case (ok i c)
  then show ?case using io_inv(1) [of c i] io_ok_core(2) [of c i] by (simp add: binv_def fun_eq_iff)
next
  case (fail i c x e)
  then show ?case using io_inv(2) [of c i e x] io_fail_core(2) [of c i e x] by (auto simp: binv_def fun_eq_iff)
next
  case (flush dev c c') then show ?case using flush_ok [of c "\<lambda>b. dev = NODEV \<or> dev = b_dev b"] by (auto simp: bflush_def)
next
  case (dflush c c')
  then show ?case using flush_ok [of c "\<lambda>b. scast (v_autoup c * HZ) \<le>s blbolt c - b_start b"] by (auto simp: bdflush_def)
next
  case (dwait c)
  then have C: "core c" by (simp add: binv_def)
  show ?case using same_inv [OF dwait async_sleep_core(1) [OF C]] async_sleep_core(2) [OF C] dwait by (simp add: bdwait_def fun_eq_iff)
next
  case (inval dev c c') then show ?case using binval_ok [of c dev] by auto
next
  case (tick c)
  let ?c = "c\<lparr>blbolt := blbolt c + 1\<rparr>"
  have C: "core c" using tick by (simp add: binv_def)
  have "wait_ok ?c w" if "w \<in> set (sleepers ?c)" for w by (rule wait_same [OF core_wait [OF C, of w]]) (use that in simp_all)
  then have "core ?c" "view ?c d k = view c d k" for d k by (rule core_sleepers [OF C, rotated 5]; simp)+
  then show ?case using same_inv [OF tick, of ?c] by (simp add: same_links_def same_avail_def fun_eq_iff)
qed

lemma breach_binv: "breach c \<Longrightarrow> binv c"
  by (induction rule: breach.induct) (auto dest: bstep_ok binit_inv)

section \<open>A small cache\<close>

text \<open>Two buffers and two chains; the byte of block \<open>k\<close> is \<open>k\<close>.\<close>

definition demo_cold :: bcache where
  "demo_cold = \<lparr>v_buf = 2, v_hbuf = 2, v_hmask = 1, v_autoup = 10,
     bufs = (\<lambda>_. \<lparr>b_flags = {}, b_dev = 0, b_bcount = 0, b_data = (\<lambda>_. 0), b_blkno = 0, b_error = None, b_resid = 0, b_start = 0\<rparr>),
     b_forw = (\<lambda>p. p), b_back = (\<lambda>p. p), av_forw = (\<lambda>p. p), av_back = (\<lambda>p. p), av_count = 0, av_wanted = False,
     basyncnt = 0, basywait = False, blbolt = 0, io_queue = [], media = (\<lambda>d k j. ucast k), sleepers = [], u_error = None\<rparr>"

definition demo_got :: bcache where "demo_got = snd (getblk 1 5 (binit demo_cold))"
definition demo_put :: bcache where "demo_put = bdwrite 0 (fill 0 (\<lambda>_. 7) demo_got)"

text \<open>Another process waits for a block that is being read.\<close>

definition demo_wait :: bcache where "demo_wait = snd (bread 1 6 demo_put)"

lemma demo_got_reach: "breach demo_got"
proof -
  have "cold demo_cold" by (simp add: cold_def demo_cold_def)
  then show ?thesis unfolding demo_got_def by (intro breach.step [OF breach.init get]) simp_all
qed

lemma demo_delay: "bstep (Put 1 10 (\<lambda>_. 7)) demo_got demo_put"
proof -
  have f: "owned demo_got 0" "b_dev (bufs demo_got 0) = 1" "b_blkno (bufs demo_got 0) = 10" "B_ERROR \<notin> bflags demo_got 0" by code_simp+
  show ?thesis unfolding demo_put_def using delay [of demo_got 0 "\<lambda>_. 7"] f by simp
qed

lemma demo_put_reach: "breach demo_put"
  by (rule breach.step [OF demo_got_reach demo_delay])

lemma demo_wait_reach: "breach demo_wait"
  unfolding demo_wait_def by (rule breach.step [OF demo_put_reach read]) simp

lemma getblk_loop_sleeps: "getblk_loop n dev blk c = (Sleeps, c') \<Longrightarrow> sleepers c' \<noteq> []"
proof (induction n arbitrary: c)
  case (Suc n)
  then show ?case by (auto simp: bsleep_def split: option.splits node.splits if_splits)
qed simp

lemma getblk_sleeps: "getblk dev blkno c = (Sleeps, c') \<Longrightarrow> sleepers c' \<noteq> []"
  unfolding getblk_def by (rule getblk_loop_sleeps)

section \<open>Properties\<close>



text \<open>\<open>bread\<close> never loses its way in the lists; it returns a buffer of the block asked for, in the
  hands of the caller and with exactly what the cache holds of the block, or sleeps; and when the
  request it waits for is done the buffer holds the block, or the error is reported.\<close>

lemma bread_reads:
  assumes "breach c" "dev \<noteq> NODEV"
  shows "(case bread dev blkno c of
      (Got i, c') \<Rightarrow> owned c' i \<and> b_dev (bufs c' i) = dev \<and> b_blkno (bufs c' i) = ltop blkno \<and> b_data (bufs c' i) = view c dev (ltop blkno)
    | (Sleeps, c') \<Rightarrow> view c' = view c \<and> sleepers c' \<noteq> []
    | (Stuck, c') \<Rightarrow> False) \<and>
    (\<forall>i. owned c i \<and> B_DONE \<in> bflags c i \<and> b_dev (bufs c i) = dev \<longrightarrow>
      fst (iowait i c) = Got () \<and> (if B_ERROR \<in> bflags c i then u_error (snd (iowait i c)) \<noteq> None
        else b_data (bufs c i) = view c dev (b_blkno (bufs c i))))"
proof (intro conjI allI impI; (elim conjE)?)
  note B = breach_binv [OF assms(1)]
  obtain r c' where e: "bread dev blkno c = (r, c')" by fastforce
  have s: "sleepers c' \<noteq> []" if "r = Sleeps"
    using e that by (auto simp: bread_def iowait_def bsleep_def split: prod.splits bresult.splits if_splits dest: getblk_sleeps)
  show "case bread dev blkno c of
      (Got i, c') \<Rightarrow> owned c' i \<and> b_dev (bufs c' i) = dev \<and> b_blkno (bufs c' i) = ltop blkno \<and> b_data (bufs c' i) = view c dev (ltop blkno)
    | (Sleeps, c') \<Rightarrow> view c' = view c \<and> sleepers c' \<noteq> []
    | (Stuck, c') \<Rightarrow> False"
    using bread_ok [OF B assms(2) e] s by (simp add: e got_def split: bresult.splits)
next
  fix i assume o: "owned c i" "B_DONE \<in> bflags c i" "b_dev (bufs c i) = dev"
  have C: "core c" using breach_binv [OF assms(1)] by (simp add: binv_def)
  have "named (bufs c i)" using owned_facts(4) [OF C o(1)] o(3) assms(2) by (simp add: named_def)
  then show "fst (iowait i c) = Got ()" "if B_ERROR \<in> bflags c i then u_error (snd (iowait i c)) \<noteq> None
        else b_data (bufs c i) = view c dev (b_blkno (bufs c i))"
    using done_view [OF C owned_facts(1) [OF C o(1)] _ o(2)] o by (simp_all add: iowait_def geterror_def)
qed

text \<open>C13: No wakeup is lost. Whoever sleeps on a buffer waits for one that is busy and marked, whose
  release wakes him; in \<open>iowait\<close> for a request still at the driver, whose completion wakes him, error
  or not; for any buffer only while none is available, and the next one released wakes him; and in
  \<open>bdwait\<close> only while asynchronous writes are out, the last of which wakes him.\<close>

theorem cache_wakeups:
  assumes "breach c" "w \<in> set (sleepers c)"
  shows "case w of
      W_buf i \<Rightarrow> B_BUSY \<in> bflags c i \<and> w \<notin> set (sleepers (brelse i c))
    | W_io i \<Rightarrow> i \<in> set (io_queue c) \<and> w \<notin> set (sleepers (io_ok i c)) \<and> (\<forall>e x. w \<notin> set (sleepers (io_fail i e x c)))
    | W_free \<Rightarrow> (\<forall>i < v_buf c. B_BUSY \<in> bflags c i) \<and> (\<forall>i. w \<notin> set (sleepers (brelse i c)))
    | W_async \<Rightarrow> awrites c \<noteq> {} \<and> (\<forall>i. awrites c = {i} \<longrightarrow> w \<notin> set (sleepers (io_ok i c)) \<and> (\<forall>e x. w \<notin> set (sleepers (io_fail i e x c))))"
proof -
  have C: "core c" using breach_binv [OF assms(1)] by (simp add: binv_def)
  note w = core_wait [OF C assms(2)] and rel = brelse_sleepers [THEN subsetD]
  have io: "v \<notin> set (sleepers (iodone i c1))" if "v = W_io i" "B_ASYNC \<notin> bflags c1 i" for v i c1
    using that iodone_waits [of v i c1] by auto
  have as: "v \<notin> set (sleepers (iodone i c1))"
    if "v = W_async" "B_ASYNC \<in> bflags c1 i" "B_READ \<notin> bflags c1 i" "basyncnt c1 = 1" "basywait c1" for v i c1
    using that iodone_waits [of v i c1] by auto
  show ?thesis
  proof (cases w)
    case (W_buf i) then show ?thesis using w rel [of w i c] by auto
  next
    case (W_io i)
    then have i: "i \<in> set (io_queue c)" "B_ASYNC \<notin> bflags c i" using w by simp_all
    have "W_io i \<notin> set (sleepers (io_ok i c))" "W_io i \<notin> set (sleepers (io_fail i e x c))" for e x
      unfolding io_ok_def io_fail_def Let_def using i(2) by (intro io; simp add: upd_def)+
    then show ?thesis using W_io i(1) by simp
  next
    case W_free then show ?thesis using w rel [of w _ c] by auto
  next
    case W_async
    have n: "awrites c \<noteq> {}" using w W_async core_async [OF C] by auto
    have "W_async \<notin> set (sleepers (io_ok i c))" "W_async \<notin> set (sleepers (io_fail i e x c))" if a: "awrites c = {i}" for i e x
    proof -
      have "i \<in> awrites c" using a by simp
      then have "B_ASYNC \<in> bflags c i" "B_READ \<notin> bflags c i" "basyncnt c = 1" "basywait c"
        using core_async [OF C] a w W_async by (auto simp: awrites_def)
      then show "W_async \<notin> set (sleepers (io_ok i c))" "W_async \<notin> set (sleepers (io_fail i e x c))"
        unfolding io_ok_def io_fail_def Let_def by (intro as; simp add: upd_def)+
    qed
    then show ?thesis using n W_async by auto
  qed
qed

theorem cache_wakeups_witness: "W_io 1 \<in> set (sleepers demo_wait) \<and> W_io 1 \<notin> set (sleepers (io_ok 1 demo_wait))"
proof -
  have s: "W_io 1 \<in> set (sleepers demo_wait)" by code_simp
  then show ?thesis using cache_wakeups [OF demo_wait_reach s] by simp
qed

text \<open>C16: The lists of the cache are right in every state: no two buffers hold the same block; the
  search of its hash chain finds the buffer of every block; the available list is a ring of exactly
  the buffers that are not busy, each once, with their number in its header; and \<open>basyncnt\<close> counts the
  asynchronous writes at the drivers.\<close>

theorem cache_lists:
  assumes "breach c"
  shows "(\<forall>i < v_buf c. \<forall>j < v_buf c. named (bufs c i) \<and> named (bufs c j) \<and> same_block (bufs c i) (bufs c j) \<longrightarrow> i = j) \<and>
    (\<forall>i < v_buf c. named (bufs c i) \<longrightarrow> in_chain c (b_dev (bufs c i)) (b_blkno (bufs c i)) = Some (Some (Buf i))) \<and>
    (\<exists>F. ring (av_forw c) (av_back c) Avail (map Buf F) \<and> distinct F \<and> set F = {i. i < v_buf c \<and> B_BUSY \<notin> bflags c i} \<and>
      unat (av_count c) = length F) \<and>
    basyncnt c = int (card (awrites c))"
proof -
  obtain L F where C: "core c" "chained c L" "avail c F" using breach_binv [OF assms] by (rule binvE)
  have u: "i = j" if "i < v_buf c" "j < v_buf c" "named (bufs c i)" "named (bufs c j)" "same_block (bufs c i) (bufs c j)" for i j
    using core_unique [OF C(1) that(1,2)] that by blast
  have f: "in_chain c (b_dev (bufs c i)) (b_blkno (bufs c i)) = Some (Some (Buf i))" if i: "i < v_buf c" "named (bufs c i)" for i
  proof -
    have "is_block c (b_dev (bufs c i)) (b_blkno (bufs c i)) (Buf i)" using i(2) by (simp add: is_block_def named_def)
    then obtain j where j: "j < v_buf c" "in_chain c (b_dev (bufs c i)) (b_blkno (bufs c i)) = Some (Some (Buf j))"
        "is_block c (b_dev (bufs c i)) (b_blkno (bufs c i)) (Buf j)"
      using in_chain_ok [OF C(2), of "b_dev (bufs c i)" "b_blkno (bufs c i)"] i by (auto simp: named_def)
    have "j = i" by (rule u) (use i j in \<open>auto simp: is_block_def named_def same_block_def\<close>)
    then show ?thesis using j(2) by simp
  qed
  have "distinct F" using C(3) ring_distinct [of "av_forw c" "av_back c" Avail "map Buf F"] by (simp add: avail_def distinct_map)
  then show ?thesis using u f C(3) core_async [OF C(1)] unfolding avail_def by blast
qed

theorem cache_lists_witness: "in_chain demo_put 1 10 = Some (Some (Buf 0))"
proof -
  have "0 < v_buf demo_put" "named (bufs demo_put 0)" "b_dev (bufs demo_put 0) = 1" "b_blkno (bufs demo_put 0) = 10" by code_simp+
  then show ?thesis using cache_lists [OF demo_put_reach] by metis
qed

text \<open>\<open>bflush\<close> always comes back from its scan of the available list, and then no available buffer
  of the device (of any device for \<open>NODEV\<close>) is left marked for a delayed write.\<close>

lemma bflush_flushes:
  assumes "breach c"
  shows "\<exists>c'. bflush dev c = Some c' \<and>
    (\<forall>i < v_buf c. B_BUSY \<notin> bflags c' i \<and> B_DELWRI \<in> bflags c' i \<longrightarrow> dev \<noteq> NODEV \<and> b_dev (bufs c' i) \<noteq> dev)"
  using flush_ok [OF breach_binv [OF assms], of "\<lambda>b. dev = NODEV \<or> dev = b_dev b"] by (auto simp: bflush_def)

end
