(* ===== verification/Inode_Table.thy ===== *)
theory Inode_Table
  imports Ring Block_Map
begin

text \<open>
  The inode table, \<open>os/iget.c\<close>, with the locking of inodes in \<open>os/pipe.c\<close> and the allocation of inode
  numbers in \<open>os/alloc.c\<close>: the hash chains and the free list of the table, \<open>iget\<close>, \<open>iput\<close>, \<open>iflush\<close>,
  \<open>ialloc\<close> and \<open>ifree\<close>. An operation is modelled up to the point where it sleeps or returns. Each
  mounted device has its super block and its blocks in \<open>fss\<close>; the buffer cache is transparent.
\<close>

section \<open>The table\<close>

text \<open>The nodes of the lists: \<open>ifreelist\<close>, the headers \<open>hinode\<close> and the inodes.\<close>

datatype (plugins only: code) inod = Ifree | Ihead nat | Itab nat

record mount =
  m_flags :: u16
  m_dev :: u16
  m_inodp :: "nat option"
  m_mount :: "nat option"

record itab =
  v_inode :: nat
  inodes :: "nat \<Rightarrow> inode"
  i_forw :: "inod \<Rightarrow> inod"
  i_back :: "inod \<Rightarrow> inod"
  iav_forw :: "inod \<Rightarrow> inod"
  iav_back :: "inod \<Rightarrow> inod"
  mounts :: "mount list"
  fss :: "u16 \<Rightarrow> fs"
  isleepers :: "nat list"
  itime :: u32
  ierror :: "errno option"

abbreviation ROOTINO :: u16 where "ROOTINO \<equiv> 2"
abbreviation NHINO :: nat where "NHINO \<equiv> 128"

definition ihash :: "u16 \<Rightarrow> inod" where
  "ihash ino = Ihead (unat (ino AND 127))"

definition iupd :: "nat \<Rightarrow> (inode \<Rightarrow> inode) \<Rightarrow> itab \<Rightarrow> itab" where
  "iupd i g t = t\<lparr>inodes := (inodes t)(i := g (inodes t i))\<rparr>"

abbreviation has :: "byte \<Rightarrow> inode \<Rightarrow> bool" where "has fl ip \<equiv> i_flag ip AND fl \<noteq> 0"

text \<open>The outcome of a routine that may sleep. \<open>IStuck\<close> is a panic, a walk that never ends or a jump
  between mounted inodes that never ends.\<close>

datatype (plugins only: code) 'a ires = IGot 'a | IFail | ISleep | IStuck

section \<open>Locking\<close>

definition prele :: "nat \<Rightarrow> itab \<Rightarrow> itab" where
  "prele i t =
     (let t = iupd i (\<lambda>ip. ip\<lparr>i_flag := i_flag ip AND NOT ILOCK\<rparr>) t
      in if has IWANT (inodes t i)
         then (iupd i (\<lambda>ip. ip\<lparr>i_flag := i_flag ip AND NOT IWANT\<rparr>) t)\<lparr>isleepers := filter (\<lambda>j. j \<noteq> i) (isleepers t)\<rparr>
         else t)"

definition want :: "nat \<Rightarrow> itab \<Rightarrow> itab" where
  "want i t = (iupd i (\<lambda>ip. ip\<lparr>i_flag := i_flag ip OR IWANT\<rparr>) t)\<lparr>isleepers := i # isleepers t\<rparr>"

definition plock :: "nat \<Rightarrow> itab \<Rightarrow> unit ires \<times> itab" where
  "plock i t = (if has ILOCK (inodes t i) then (ISleep, want i t)
                else (IGot (), iupd i (\<lambda>ip. ip\<lparr>i_flag := i_flag ip OR ILOCK\<rparr>) t))"

section \<open>Inode numbers\<close>

definition ifree :: "u16 \<Rightarrow> fs \<Rightarrow> fs" where
  "ifree ino f =
     (let f = getfs f; fp = (sb f)\<lparr>s_tinode := s_tinode (sb f) + 1\<rparr>
      in if s_ilock fp \<noteq> 0 then f\<lparr>sb := fp\<rparr>
         else
           (let fp = fp\<lparr>s_fmod := 1\<rparr>
            in if of_nat NICINOD \<le>s s_ninode fp
               then f\<lparr>sb := (if ino < s_inode fp ! 0 then fp\<lparr>s_inode := (s_inode fp)[0 := ino]\<rparr> else fp)\<rparr>
               else f\<lparr>sb := fp\<lparr>s_inode := (s_inode fp)[unat (s_ninode fp) := ino], s_ninode := s_ninode fp + 1\<rparr>\<rparr>))"

section \<open>Writing back and giving up an inode\<close>

definition with_fs :: "u16 \<Rightarrow> fs \<Rightarrow> itab \<Rightarrow> itab" where
  "with_fs dev f t = t\<lparr>fss := (fss t)(dev := f)\<rparr>"

definition iupdat_tab :: "nat \<Rightarrow> itab \<Rightarrow> itab" where
  "iupdat_tab i t =
     (let ip = inodes t i
      in case iupdat (itime t) ip (fss t (i_dev ip)) of
           (e, ip', f) \<Rightarrow> (with_fs (i_dev ip) f (iupd i (\<lambda>_. ip') t))\<lparr>ierror := (if e = None then ierror t else e)\<rparr>)"

definition itrunc_tab :: "nat \<Rightarrow> itab \<Rightarrow> itab" where
  "itrunc_tab i t =
     (let ip = inodes t i
      in case itrunc (itime t) ip (fss t (i_dev ip)) of (ip', f) \<Rightarrow> with_fs (i_dev ip) f (iupd i (\<lambda>_. ip') t))"

definition ifree_tab :: "u16 \<Rightarrow> u16 \<Rightarrow> itab \<Rightarrow> itab" where
  "ifree_tab dev ino t = with_fs dev (ifree ino (fss t dev)) t"

text \<open>Linking an inode at the end of the free list, and unlinking it from the free list.\<close>

definition iav_last :: "nat \<Rightarrow> itab \<Rightarrow> itab" where
  "iav_last i t =
     (let b = iav_back t Ifree
      in t\<lparr>iav_forw := (iav_forw t)(b := Itab i, Itab i := Ifree), iav_back := (iav_back t)(Itab i := b, Ifree := Itab i)\<rparr>)"

definition iav_unlink :: "nat \<Rightarrow> itab \<Rightarrow> itab" where
  "iav_unlink i t =
     (let f = (iav_forw t)(iav_back t (Itab i) := iav_forw t (Itab i))
      in t\<lparr>iav_forw := f, iav_back := (iav_back t)(f (Itab i) := iav_back t (Itab i))\<rparr>)"

text \<open>The last reference of a file without links.\<close>

definition iremove :: "nat \<Rightarrow> itab \<Rightarrow> itab" where
  "iremove i t =
     (let t = itrunc_tab i t;
          t = iupd i (\<lambda>ip. ip\<lparr>i_mode := 0, i_flag := i_flag ip OR (IUPD OR ICHG)\<rparr>) t
      in ifree_tab (i_dev (inodes t i)) (i_number (inodes t i)) t)"

definition iput :: "nat \<Rightarrow> itab \<Rightarrow> itab" where
  "iput i t =
     (if i_count (inodes t i) = 1 then
        (let t = iupd i (\<lambda>ip. ip\<lparr>i_flag := i_flag ip OR ILOCK\<rparr>) t;
             t = (if i_nlink (inodes t i) \<le>s 0 then iremove i t else t);
             t = (if has (IACC OR IUPD OR ICHG) (inodes t i) then iupdat_tab i t else t);
             t = prele i t
         in iav_last i (iupd i (\<lambda>ip. ip\<lparr>i_flag := 0, i_count := 0\<rparr>) t))
      else prele i (iupd i (\<lambda>ip. ip\<lparr>i_count := i_count ip - 1\<rparr>) t))"

text \<open>\<open>iread\<close> with its error exit. \<open>bread\<close> sets \<open>u_error\<close> and does not clear it.\<close>

definition iread_tab :: "nat \<Rightarrow> itab \<Rightarrow> nat ires \<times> itab" where
  "iread_tab i t =
     (let ip = inodes t i; r = iread ip (fss t (i_dev ip));
          t = (if r = None then t\<lparr>ierror := Some EIO\<rparr> else t)
      in case r of
           Some ip' \<Rightarrow> if ierror t = None then (IGot i, iupd i (\<lambda>_. ip') t) else (IFail, iput i t)
         | None \<Rightarrow> (IFail, iput i t))"

section \<open>Getting an inode\<close>

definition is_inode :: "itab \<Rightarrow> u16 \<Rightarrow> u16 \<Rightarrow> inod \<Rightarrow> bool" where
  "is_inode t dev ino p \<longleftrightarrow> (case p of Itab i \<Rightarrow> ino = i_number (inodes t i) \<and> dev = i_dev (inodes t i) | _ \<Rightarrow> False)"

definition ifind :: "u16 \<Rightarrow> u16 \<Rightarrow> itab \<Rightarrow> inod option option" where
  "ifind dev ino t = (let hp = ihash ino in ring_find (v_inode t + 1) (i_forw t) hp (is_inode t dev ino) (i_forw t hp))"

text \<open>Moving an inode to the front of the hash chain of \<open>hp\<close>.\<close>

definition irechain :: "nat \<Rightarrow> inod \<Rightarrow> itab \<Rightarrow> itab" where
  "irechain i hp t =
     (let f = (i_forw t)(i_back t (Itab i) := i_forw t (Itab i));
          b = (i_back t)(f (Itab i) := i_back t (Itab i));
          n = f hp
      in t\<lparr>i_back := b(n := Itab i, Itab i := hp), i_forw := f(Itab i := n, hp := Itab i)\<rparr>)"

definition inew :: "u16 \<Rightarrow> u16 \<Rightarrow> itab \<Rightarrow> nat ires \<times> itab" where
  "inew dev ino t =
     (case iav_forw t Ifree of
        Itab i \<Rightarrow>
          iread_tab i
            (iupd i (\<lambda>ip. ip\<lparr>i_dev := dev, i_number := ino, i_flag := ILOCK, i_count := 1, i_lastr := 0\<rparr>)
              (irechain i (ihash ino) (iav_unlink i t)))
      | Ifree \<Rightarrow> (IFail, t\<lparr>ierror := Some ENFILE\<rparr>)
      | Ihead h \<Rightarrow> (IStuck, t))"

definition itake :: "nat \<Rightarrow> itab \<Rightarrow> itab" where
  "itake i t =
     (let t = (if i_count (inodes t i) = 0 then iav_unlink i t else t)
      in iupd i (\<lambda>ip. ip\<lparr>i_count := i_count ip + 1, i_flag := i_flag ip OR ILOCK\<rparr>) t)"

text \<open>The jumps between \<open>loop\<close>, without an inode, and \<open>found\<close>, with one; each crosses a mount.\<close>

fun iget_at :: "nat \<Rightarrow> nat option \<Rightarrow> u16 \<Rightarrow> u16 \<Rightarrow> itab \<Rightarrow> nat ires \<times> itab" where
  "iget_at 0 p dev ino t = (IStuck, t)"
| "iget_at (Suc n) None dev ino t =
     (case ifind dev ino t of
        Some (Some (Itab i)) \<Rightarrow> iget_at n (Some i) dev ino t
      | Some None \<Rightarrow> inew dev ino t
      | _ \<Rightarrow> (IStuck, t))"
| "iget_at (Suc n) (Some i) dev ino t =
     (if has ILOCK (inodes t i) then (ISleep, want i t)
      else if has IMOUNT (inodes t i) then
        (case List.find (\<lambda>m. m_inodp m = Some i) (mounts t) of
           None \<Rightarrow> (IStuck, t)
         | Some m \<Rightarrow> iget_at n (m_mount m) (m_dev m) ROOTINO t)
      else (IGot i, itake i t))"

definition iget :: "u16 \<Rightarrow> u16 \<Rightarrow> itab \<Rightarrow> nat ires \<times> itab" where
  "iget dev ino t = iget_at (2 * length (mounts t) + 2) None dev ino t"

section \<open>Initialisation and purging\<close>

definition inoinit_one :: "nat \<Rightarrow> itab \<Rightarrow> itab" where
  "inoinit_one i t =
     (let t = t\<lparr>i_forw := (i_forw t)(Itab i := Itab i), i_back := (i_back t)(Itab i := Itab i)\<rparr>;
          n = iav_forw t Ifree
      in t\<lparr>iav_back := (iav_back t)(n := Itab i, Itab i := Ifree), iav_forw := (iav_forw t)(Itab i := n, Ifree := Itab i)\<rparr>)"

definition inoinit_head :: "nat \<Rightarrow> itab \<Rightarrow> itab" where
  "inoinit_head h t = t\<lparr>i_forw := (i_forw t)(Ihead h := Ihead h), i_back := (i_back t)(Ihead h := Ihead h)\<rparr>"

definition inoinit :: "itab \<Rightarrow> itab" where
  "inoinit t =
     (let t = t\<lparr>iav_forw := (iav_forw t)(Ifree := Ifree), iav_back := (iav_back t)(Ifree := Ifree)\<rparr>;
          t = fold inoinit_head [0..<NHINO] t
      in fold inoinit_one [0..<v_inode t] t)"

text \<open>\<open>iflush\<close> from the inode \<open>v_inode - n\<close>.\<close>

fun iflush_from :: "nat \<Rightarrow> u16 \<Rightarrow> itab \<Rightarrow> bool \<times> itab" where
  "iflush_from 0 dev t = (True, t)"
| "iflush_from (Suc n) dev t =
     (let i = v_inode t - Suc n; ip = inodes t i
      in if i_dev ip = dev then
           (if i_count ip = 0 then
              (let f = (i_forw t)(i_back t (Itab i) := i_forw t (Itab i));
                   b = (i_back t)(f (Itab i) := i_back t (Itab i))
               in iflush_from n dev (t\<lparr>i_forw := f(Itab i := Itab i), i_back := b(Itab i := Itab i)\<rparr>))
            else (False, t))
         else iflush_from n dev t)"

definition iflush :: "u16 \<Rightarrow> itab \<Rightarrow> bool \<times> itab" where
  "iflush dev t = iflush_from (v_inode t) dev t"

section \<open>Allocating an inode\<close>

text \<open>\<open>FsINOS\<close>: where the search of the i-list begins.\<close>

definition inos :: "u16 \<Rightarrow> u16" where "inos x = (x AND NOT 15) + 1"

text \<open>The inodes of a block from the place \<open>16 - n\<close>, and the blocks from \<open>adr\<close>, \<open>n\<close> of them.\<close>

fun scan_block :: "block \<Rightarrow> nat \<Rightarrow> filsys \<Rightarrow> u16 \<Rightarrow> filsys \<times> u16" where
  "scan_block b 0 fp ino = (fp, ino)"
| "scan_block b (Suc n) fp ino =
     (if s_ninode fp \<le>s 0 then (fp, ino)
      else
        scan_block b n
          (if rd16 b (64 * (15 - n)) = 0
           then fp\<lparr>s_ninode := s_ninode fp - 1, s_inode := (s_inode fp)[unat (s_ninode fp - 1) := ino]\<rparr> else fp)
          (ino + 1))"

fun scan_ilist :: "nat \<Rightarrow> fs \<Rightarrow> u32 \<Rightarrow> errno option \<Rightarrow> filsys \<Rightarrow> u16 \<Rightarrow> errno option \<times> filsys" where
  "scan_ilist 0 f adr e fp ino = (e, fp)"
| "scan_ilist (Suc n) f adr e fp ino =
     (let e = (if io_err f adr then Some EIO else e)
      in if e \<noteq> None then scan_ilist n f (adr + 1) e fp (ino + 16)
         else (case scan_block (disk f adr) 16 fp ino of
                 (fp, ino) \<Rightarrow> if s_ninode fp \<le>s 0 then (e, fp) else scan_ilist n f (adr + 1) e fp ino))"

text \<open>The refill of the list of free inode numbers; the search stops at \<open>s_isize\<close>.\<close>

definition refill :: "fs \<Rightarrow> errno option \<Rightarrow> errno option \<times> filsys" where
  "refill f e =
     (let fp = (sb f)\<lparr>s_ilock := s_ilock (sb f) + 1, s_ninode := of_nat NICINOD\<rparr>;
          ino = inos (s_inode fp ! 0); adr = itod ino
      in case scan_ilist (unat (s_isize fp) - unat adr) f adr e fp ino of
           (e, fp) \<Rightarrow>
             (let fp = fp\<lparr>s_ilock := 0\<rparr>
              in (e, if 0 <s s_ninode fp then fp\<lparr>s_inode := ((s_inode fp)[unat (s_ninode fp - 1) := 0])[0 := 0]\<rparr> else fp)))"

text \<open>An inode that \<open>ialloc\<close> returns: \<open>uid\<close> and \<open>gid\<close> are those of the caller.\<close>

definition iclaim :: "nat \<Rightarrow> u16 \<Rightarrow> u16 \<Rightarrow> u16 \<Rightarrow> u16 \<Rightarrow> u16 \<Rightarrow> itab \<Rightarrow> itab" where
  "iclaim i dev mode nlink uid gid t =
     (let t = iupd i (\<lambda>ip. ip\<lparr>i_mode := mode, i_nlink := nlink, i_flag := i_flag ip OR (IACC OR IUPD OR ICHG OR ISYN),
                 i_uid := uid, i_gid := gid, i_size := 0, i_addr := replicate NADDR 0\<rparr>) t;
          f = fss t dev; fp = sb f
      in iupdat_tab i (with_fs dev (f\<lparr>sb := fp\<lparr>s_tinode := (if s_tinode fp \<noteq> 0 then s_tinode fp - 1 else s_tinode fp), s_fmod := 1\<rparr>\<rparr>) t))"

partial_function (option) ialloc_loop :: "u16 \<Rightarrow> u16 \<Rightarrow> u16 \<Rightarrow> u16 \<Rightarrow> u16 \<Rightarrow> itab \<Rightarrow> (nat ires \<times> itab) option" where
  "ialloc_loop dev mode nlink uid gid t =
     (let f = fss t dev; fp = sb f;
          ino = (if 0 <s s_ninode fp then s_inode fp ! unat (s_ninode fp - 1) else 0)
      in if s_ilock fp \<noteq> 0 then Some (ISleep, t)
         else
           (let t = (if 0 <s s_ninode fp then with_fs dev (f\<lparr>sb := fp\<lparr>s_ninode := s_ninode fp - 1\<rparr>\<rparr>) t else t)
            in if ino \<noteq> 0 then
                 (case iget dev ino t of
                    (IGot i, t) \<Rightarrow>
                      if i_mode (inodes t i) = 0 then Some (IGot i, iclaim i dev mode nlink uid gid t)
                      else ialloc_loop dev mode nlink uid gid (iput i (iupdat_tab i t))
                  | r \<Rightarrow> Some r)
               else
                 (case refill (fss t dev) (ierror t) of
                    (e, fp) \<Rightarrow>
                      (let t = (with_fs dev ((fss t dev)\<lparr>sb := fp\<rparr>) t)\<lparr>ierror := e\<rparr>
                       in if s_ninode fp \<noteq> of_nat NICINOD
                          then ialloc_loop dev mode nlink uid gid (with_fs dev ((fss t dev)\<lparr>sb := fp\<lparr>s_ninode := of_nat NICINOD\<rparr>\<rparr>) t)
                          else Some (IFail, (with_fs dev ((fss t dev)\<lparr>sb := fp\<lparr>s_ninode := 0, s_tinode := 0\<rparr>\<rparr>) t)\<lparr>ierror := Some ENOSPC\<rparr>)))))"

declare ialloc_loop.simps [code]

definition ialloc :: "u16 \<Rightarrow> u16 \<Rightarrow> u16 \<Rightarrow> u16 \<Rightarrow> u16 \<Rightarrow> itab \<Rightarrow> (nat ires \<times> itab) option" where
  "ialloc dev mode nlink uid gid t = ialloc_loop dev mode nlink uid gid (with_fs dev (getfs (fss t dev)) t)"

section \<open>Small tables\<close>

definition blank_inode :: inode where
  "blank_inode = \<lparr>i_flag = 0, i_count = 0, i_dev = 0, i_number = 0, i_mode = 0, i_nlink = 0, i_uid = 0, i_gid = 0, i_size = 0,
     i_addr = replicate NADDR 0, i_lastr = 0\<rparr>"

definition blank_tab :: "nat \<Rightarrow> fs \<Rightarrow> itab" where
  "blank_tab n f = \<lparr>v_inode = n, inodes = (\<lambda>_. blank_inode), i_forw = (\<lambda>p. p), i_back = (\<lambda>p. p), iav_forw = (\<lambda>p. p), iav_back = (\<lambda>p. p),
     mounts = [], fss = (\<lambda>_. f), isleepers = [], itime = 9, ierror = None\<rparr>"

text \<open>In such a table the initialisation has only to build the free list.\<close>

definition ready_tab :: "nat \<Rightarrow> fs \<Rightarrow> itab" where
  "ready_tab n f = fold inoinit_one [0..<n] (blank_tab n f)"

lemma head_idem: "i_forw t = (\<lambda>p. p) \<Longrightarrow> i_back t = (\<lambda>p. p) \<Longrightarrow> inoinit_head h t = t"
  by (rule itab.equality) (auto simp: inoinit_head_def fun_eq_iff)

lemma heads_idem: "i_forw t = (\<lambda>p. p) \<Longrightarrow> i_back t = (\<lambda>p. p) \<Longrightarrow> fold inoinit_head hs t = t"
  by (induction hs) (simp_all add: head_idem)

lemma ready_tab_init: "inoinit (blank_tab n f) = ready_tab n f"
proof -
  have "(blank_tab n f)\<lparr>iav_forw := (\<lambda>p. p)(Ifree := Ifree), iav_back := (\<lambda>p. p)(Ifree := Ifree)\<rparr> = blank_tab n f"
    by (rule itab.equality) (auto simp: blank_tab_def fun_eq_iff)
  then have "(blank_tab n f)\<lparr>iav_forw := (iav_forw (blank_tab n f))(Ifree := Ifree), iav_back := (iav_back (blank_tab n f))(Ifree := Ifree)\<rparr> = blank_tab n f"
    by (simp add: blank_tab_def)
  moreover have "i_forw (blank_tab n f) = (\<lambda>p. p)" "i_back (blank_tab n f) = (\<lambda>p. p)" "v_inode (blank_tab n f) = n" by (simp_all add: blank_tab_def)
  ultimately show ?thesis by (simp add: inoinit_def ready_tab_def heads_idem Let_def)
qed

text \<open>A table of one inode; on the disk, inode 5 is a file with one link and the block 30.\<close>

definition demo_disk_ip :: inode where
  "demo_disk_ip = blank_inode\<lparr>i_number := 5, i_mode := 0x81A4, i_nlink := 1, i_addr := 30 # replicate 12 0\<rparr>"

definition demo_inode_fs :: fs where
  "demo_inode_fs = demo_fs\<lparr>disk := (disk demo_fs)(itod 5 := put_dinode 0 demo_disk_ip (\<lambda>_. 0) (64 * itoo 5))\<rparr>"

definition one_tab :: itab where "one_tab = ready_tab 1 demo_inode_fs"

text \<open>After a read error the inode stays on its hash chain with the contents of the inode that was in
  its place: the next \<open>iget\<close> of the number, which reads nothing, returns these.\<close>

definition unreadable :: "itab \<Rightarrow> itab" where
  "unreadable t = t\<lparr>fss := (\<lambda>d. (fss t d)\<lparr>io_err := (\<lambda>b. b = itod 20)\<rparr>)\<rparr>"

lemma iget_error_stale:
  "let t = iput 0 (snd (iget 0 5 one_tab)); (r, t) = iget 0 20 (unreadable t); (r', t') = iget 0 20 (t\<lparr>ierror := None\<rparr>)
   in r = IFail \<and> r' = IGot 0 \<and> i_number (inodes t' 0) = 20 \<and> i_mode (inodes t' 0) = 0x81A4 \<and> i_addr (inodes t' 0) ! 0 = 30"
  by code_simp

text \<open>In a place whose last inode was removed, or never used, the error exit also gives the number, of an
  inode that may be in use, to the list of free ones.\<close>

lemma iget_error_frees:
  "let (r, t) = iget 0 20 (unreadable one_tab) in r = IFail \<and> s_ninode (sb (fss t 0)) = 1 \<and> s_inode (sb (fss t 0)) ! 0 = 20"
  by code_simp

text \<open>The search for free inodes begins behind the block of the number it starts from when that is the
  last of its block: with inode 16 free and the list empty, \<open>ialloc\<close> finds no inode from there.\<close>

definition full_block :: "nat \<Rightarrow> block" where
  "full_block n = (\<lambda>k. if k mod 64 = 0 \<and> k < 64 * n then 1 else 0)"

definition last_free_fs :: fs where
  "last_free_fs = demo_fs\<lparr>sb := (sb demo_fs)\<lparr>s_isize := 3, s_inode := 16 # replicate 99 0\<rparr>, disk := (\<lambda>b. if b = 2 then full_block 15 else (\<lambda>_. 0))\<rparr>"

lemma ialloc_skips:
  "map_option fst (ialloc 0 0x81A4 1 0 0 (ready_tab 1 last_free_fs)) = Some IFail"
  "rd16 (disk last_free_fs (itod 16)) (64 * itoo 16) = 0" "inos 16 = 17" "itod 16 = 2" "itod 17 = 3"
  by code_simp+

end
