(* ===== verification/Inode_Lists.thy ===== *)
theory Inode_Lists
  imports Inode_Table
begin

text \<open>
  The invariant of the inode table: its hash chains and its free list are rings that hold the right
  inodes, no two inodes on the chains have the same number on the same device, an inode with
  references is on its chain, one without is on the free list and not locked, and whoever sleeps on
  an inode sleeps on one that is locked and marked.
\<close>

section \<open>Flags\<close>

lemma has_bits: "x AND ILOCK = 0 \<longleftrightarrow> \<not> bit x 0" "x AND IWANT = 0 \<longleftrightarrow> \<not> bit x 4" "x AND IMOUNT = 0 \<longleftrightarrow> \<not> bit x 3"
  using and_exp_eq_0_iff_not_bit [of x 0] and_exp_eq_0_iff_not_bit [of x 4] and_exp_eq_0_iff_not_bit [of x 3]
  by (simp_all add: ILOCK_def IWANT_def IMOUNT_def)

lemma flag_nz [simp]: "ILOCK \<noteq> 0" "IWANT \<noteq> 0"
  by (simp_all add: ILOCK_def IWANT_def)

lemma flag_bits: "bit IMOUNT n \<longleftrightarrow> n = 3" "bit ILOCK n \<longleftrightarrow> n = 0" "bit IWANT n \<longleftrightarrow> n = 4" "bit IUPD n \<longleftrightarrow> n = 1" "bit IACC n \<longleftrightarrow> n = 2" "bit ICHG n \<longleftrightarrow> n = 6" "bit ISYN n \<longleftrightarrow> n = 7"
proof -
  have p: "bit (2 ^ k :: byte) n \<longleftrightarrow> n = k" if "k < 8" for k using that by (auto simp: bit_exp_iff)
  show "bit IMOUNT n \<longleftrightarrow> n = 3" "bit ILOCK n \<longleftrightarrow> n = 0" "bit IWANT n \<longleftrightarrow> n = 4" "bit IUPD n \<longleftrightarrow> n = 1" "bit IACC n \<longleftrightarrow> n = 2" "bit ICHG n \<longleftrightarrow> n = 6" "bit ISYN n \<longleftrightarrow> n = 7"
    using p [of 3] p [of 0] p [of 4] p [of 1] p [of 2] p [of 6] p [of 7] by (simp_all add: IMOUNT_def ILOCK_def IWANT_def IUPD_def IACC_def ICHG_def ISYN_def)
qed

lemmas flag_simps = has_bits flag_bits bit_or_iff bit_and_iff bit_not_iff

section \<open>The lists\<close>

definition ichained :: "itab \<Rightarrow> (inod \<Rightarrow> inod list) \<Rightarrow> nat set \<Rightarrow> bool" where
  "ichained t L off \<longleftrightarrow> off \<subseteq> {..<v_inode t} \<and>
     rings (i_forw t) (i_back t) (Ihead ` {..<NHINO} \<union> Itab ` off) L \<and> (\<forall>i \<in> off. L (Itab i) = []) \<and>
     (\<forall>h < NHINO. set (L (Ihead h)) \<subseteq> Itab ` {..<v_inode t}) \<and>
     (\<forall>i < v_inode t. i \<notin> off \<longrightarrow> Itab i \<in> set (L (ihash (i_number (inodes t i)))))"

definition ilisted :: "itab \<Rightarrow> nat list \<Rightarrow> bool" where
  "ilisted t F \<longleftrightarrow> ring (iav_forw t) (iav_back t) Ifree (map Itab F) \<and> set F = {i. i < v_inode t \<and> i_count (inodes t i) = 0}"

definition icore :: "itab \<Rightarrow> nat set \<Rightarrow> bool" where
  "icore t off \<longleftrightarrow>
     (\<forall>i < v_inode t. \<forall>j < v_inode t. i \<notin> off \<longrightarrow> j \<notin> off \<longrightarrow> i_dev (inodes t i) = i_dev (inodes t j) \<longrightarrow>
        i_number (inodes t i) = i_number (inodes t j) \<longrightarrow> i = j) \<and>
     (\<forall>i < v_inode t. i_count (inodes t i) \<noteq> 0 \<longrightarrow> i \<notin> off) \<and>
     (\<forall>i < v_inode t. i_count (inodes t i) = 0 \<longrightarrow> i_flag (inodes t i) = 0) \<and>
     (\<forall>i \<in> set (isleepers t). i < v_inode t \<and> has ILOCK (inodes t i) \<and> has IWANT (inodes t i))"

definition iinv :: "itab \<Rightarrow> bool" where
  "iinv t \<longleftrightarrow> (\<exists>L off F. ichained t L off \<and> ilisted t F \<and> icore t off)"

lemma iinvI: "ichained t L off \<Longrightarrow> ilisted t F \<Longrightarrow> icore t off \<Longrightarrow> iinv t"
  by (auto simp: iinv_def)

lemma iinvE:
  assumes "iinv t" obtains L off F where "ichained t L off" "ilisted t F" "icore t off"
  using assms by (auto simp: iinv_def)

lemma ihash_head: "ihash ino \<in> Ihead ` {..<NHINO}"
proof -
  have "unat (ino AND 127) \<le> unat (127 :: u16)" using word_and_le1 [of ino 127] by (simp only: word_le_nat_alt)
  then show ?thesis by (simp add: ihash_def)
qed

lemma ihash_in: "ihash ino \<in> Ihead ` {..<NHINO} \<union> Itab ` off"
  using ihash_head by blast

lemma rings_apart: "rings f b H L \<Longrightarrow> h \<in> H \<Longrightarrow> k \<in> H \<Longrightarrow> h \<noteq> k \<Longrightarrow> x \<in> set (h # L h) \<Longrightarrow> x \<in> set (k # L k) \<Longrightarrow> False"
  unfolding rings_def by blast

lemma ichainedD:
  assumes "ichained t L off"
  shows "rings (i_forw t) (i_back t) (Ihead ` {..<NHINO} \<union> Itab ` off) L" "i \<in> off \<Longrightarrow> L (Itab i) = []"
    "h \<in> Ihead ` {..<NHINO} \<Longrightarrow> set (L h) \<subseteq> Itab ` {..<v_inode t}" "off \<subseteq> {..<v_inode t}"
    "i < v_inode t \<Longrightarrow> i \<notin> off \<Longrightarrow> Itab i \<in> set (L (ihash (i_number (inodes t i))))"
  using assms unfolding ichained_def by blast+

lemma ichained_buf:
  assumes C: "ichained t L off" and m: "Itab i \<in> set (L (ihash ino))"
  shows "i < v_inode t" "i \<notin> off" "ihash (i_number (inodes t i)) = ihash ino"
proof -
  note R = ichainedD(1) [OF C]
  show i: "i < v_inode t" using ichainedD(3) [OF C ihash_head] m by blast
  show o: "i \<notin> off"
  proof
    assume "i \<in> off"
    then have k: "Itab i \<in> Ihead ` {..<NHINO} \<union> Itab ` off" by blast
    have "ihash ino \<noteq> Itab i" by (simp add: ihash_def)
    from rings_apart [OF R ihash_in k this, of "Itab i"] m show False by simp
  qed
  show "ihash (i_number (inodes t i)) = ihash ino"
    by (rule ccontr) (use rings_apart [OF R ihash_in ihash_in] ichainedD(5) [OF C i o] m in \<open>meson list.set_intros(2)\<close>)
qed

lemma ichained_ring: "ichained t L off \<Longrightarrow> ring (i_forw t) (i_back t) (ihash ino) (L (ihash ino))"
  by (rule rings_ring [OF ichainedD(1) ihash_in])

lemma ichained_length:
  assumes C: "ichained t L off" shows "length (L (ihash ino)) \<le> v_inode t"
proof -
  have "set (L (ihash ino)) \<subseteq> Itab ` {..<v_inode t}" by (rule ichainedD(3) [OF C ihash_head])
  then have "card (set (L (ihash ino))) \<le> card (Itab ` {..<v_inode t})" by (intro card_mono) auto
  also have "\<dots> \<le> v_inode t" using card_image_le [of "{..<v_inode t}" Itab] by simp
  finally show ?thesis using ring_distinct [OF ichained_ring [OF C]] by (simp add: distinct_card)
qed

lemma ifind_ok:
  assumes C: "ichained t L off"
  shows "(\<exists>i < v_inode t. i \<notin> off \<and> ifind dev ino t = Some (Some (Itab i)) \<and> i_dev (inodes t i) = dev \<and> i_number (inodes t i) = ino) \<or>
    ifind dev ino t = Some None \<and> (\<forall>i < v_inode t. i \<notin> off \<longrightarrow> \<not> (i_dev (inodes t i) = dev \<and> i_number (inodes t i) = ino))"
proof -
  let ?h = "ihash ino"
  have R: "ring (i_forw t) (i_back t) ?h (L ?h)" by (rule ichained_ring [OF C])
  have f: "ifind dev ino t = Some (List.find (is_inode t dev ino) (L ?h))"
    using ring_find_ok [OF R, of "v_inode t + 1"] ichained_length [OF C, of ino] by (simp add: ifind_def)
  show ?thesis
  proof (cases "List.find (is_inode t dev ino) (L ?h)")
    case None
    have "\<not> (i_dev (inodes t i) = dev \<and> i_number (inodes t i) = ino)" if "i < v_inode t" "i \<notin> off" for i
    proof
      assume b: "i_dev (inodes t i) = dev \<and> i_number (inodes t i) = ino"
      then have "Itab i \<in> set (L ?h)" using ichainedD(5) [OF C that] by simp
      then show False using None b by (auto simp: find_None_iff is_inode_def)
    qed
    then show ?thesis using f None by simp
  next
    case (Some p)
    then have p: "p \<in> set (L ?h)" "is_inode t dev ino p" by (auto simp: find_Some_iff)
    then obtain i where i: "p = Itab i" by (auto simp: is_inode_def split: inod.splits)
    then show ?thesis using f Some p ichained_buf [OF C, of i ino] by (auto simp: is_inode_def)
  qed
qed

lemma ifound:
  "ichained t L off \<Longrightarrow> ifind dev ino t = Some (Some (Itab i)) \<Longrightarrow>
   i < v_inode t \<and> i \<notin> off \<and> i_dev (inodes t i) = dev \<and> i_number (inodes t i) = ino"
  using ifind_ok [of t L off dev ino] by auto

lemma ichained_cong:
  assumes "i_forw t' = i_forw t" "i_back t' = i_back t" "v_inode t' = v_inode t"
    "\<And>i. i < v_inode t \<Longrightarrow> i_number (inodes t' i) = i_number (inodes t i)"
  shows "ichained t' L off = ichained t L off"
  using assms unfolding ichained_def by auto

lemma ilisted_cong:
  assumes "iav_forw t' = iav_forw t" "iav_back t' = iav_back t" "v_inode t' = v_inode t"
    "\<And>i. i < v_inode t \<Longrightarrow> i_count (inodes t' i) = 0 \<longleftrightarrow> i_count (inodes t i) = 0"
  shows "ilisted t' F = ilisted t F"
  using assms unfolding ilisted_def by auto

text \<open>Unlinking an inode from wherever it is.\<close>

lemma iunlinked:
  assumes C: "ichained t L off" and i: "i < v_inode t"
  defines "f \<equiv> (i_forw t)(i_back t (Itab i) := i_forw t (Itab i))"
  defines "b \<equiv> (i_back t)(i_forw t (Itab i) := i_back t (Itab i))"
  shows "\<exists>M. rings f b (Ihead ` {..<NHINO} \<union> Itab ` (off - {i})) M \<and> (\<forall>h. Itab i \<notin> set (M h)) \<and>
    (\<forall>h. set (M h) \<subseteq> set (L h)) \<and> (\<forall>h j. Itab j \<in> set (L h) \<longrightarrow> j \<noteq> i \<longrightarrow> h \<in> Ihead ` {..<NHINO} \<longrightarrow> Itab j \<in> set (M h)) \<and>
    f (Itab i) = i_forw t (Itab i)"
proof -
  let ?H = "Ihead ` {..<NHINO} \<union> Itab ` off"
  have R: "rings (i_forw t) (i_back t) ?H L" using C by (simp add: ichained_def)
  show ?thesis
  proof (cases "i \<in> off")
    case True
    then have r: "ring (i_forw t) (i_back t) (Itab i) []" using rings_ring [OF R, of "Itab i"] C by (auto simp: ichained_def)
    then have s: "i_forw t (Itab i) = Itab i" "i_back t (Itab i) = Itab i" using ring_first [OF r] by simp_all
    then have fb: "f = i_forw t" "b = i_back t" by (auto simp: f_def b_def)
    let ?M = "\<lambda>h. if h \<in> Ihead ` {..<NHINO} then L h else []"
    have same: "?M h = L h" if "h \<in> ?H" for h using that ichainedD(2) [OF C] by auto
    have "rings f b (Ihead ` {..<NHINO} \<union> Itab ` (off - {i})) ?M"
      unfolding rings_def fb
    proof (intro conjI ballI impI)
      fix h assume h: "h \<in> Ihead ` {..<NHINO} \<union> Itab ` (off - {i})"
      then have h': "h \<in> ?H" by blast
      show "ring (i_forw t) (i_back t) h (?M h)" unfolding same [OF h'] by (rule rings_ring [OF R h'])
      fix k assume "k \<in> Ihead ` {..<NHINO} \<union> Itab ` (off - {i})" and ne: "h \<noteq> k"
      then have k': "k \<in> ?H" by blast
      show "set (h # ?M h) \<inter> set (k # ?M k) = {}"
        unfolding same [OF h'] same [OF k'] using rings_apart [OF R h' k' ne] by blast
    qed
    moreover have "Itab i \<notin> set (?M h)" for h
    proof
      assume a: "Itab i \<in> set (?M h)"
      then have h: "h \<in> Ihead ` {..<NHINO}" "Itab i \<in> set (L h)" by (auto split: if_splits)
      then have "h \<in> ?H" "Itab i \<in> ?H" "h \<noteq> Itab i" using True by auto
      from rings_apart [OF R this, of "Itab i"] h(2) show False by simp
    qed
    ultimately show ?thesis using s by (intro exI [of _ ?M]) (auto simp: fb)
  next
    case False
    let ?h = "ihash (i_number (inodes t i))"
    have h: "?h \<in> ?H" by (rule ihash_in)
    obtain us vs where l: "L ?h = us @ Itab i # vs" using C i False unfolding ichained_def by (meson split_list)
    let ?M = "L(?h := us @ vs)"
    have M: "rings f b ?H ?M" unfolding f_def b_def by (rule rings_unlink [OF R h l])
    have ring: "ring (i_forw t) (i_back t) ?h (us @ Itab i # vs)" using rings_ring [OF R h] l by simp
    have dis: "distinct (?h # us @ Itab i # vs)" using ring by (simp add: ring_def)
    have "i_back t (Itab i) = last (?h # us)" by (rule ring_at(1) [OF ring])
    then have ne: "i_back t (Itab i) \<noteq> Itab i" using dis by (cases us rule: rev_cases) auto
    let ?N = "\<lambda>h. if h \<in> Ihead ` {..<NHINO} then ?M h else []"
    have N: "rings f b ?H ?N"
    proof -
      have "?N k = ?M k" if "k \<in> ?H" for k using that C h by (auto simp: ichained_def ihash_def)
      then show ?thesis using M unfolding rings_def by simp
    qed
    have no: "Itab i \<notin> set (?N k)" for k
    proof
      assume a: "Itab i \<in> set (?N k)"
      then have k: "k \<in> Ihead ` {..<NHINO}" by (auto split: if_splits)
      then obtain m where m: "k = Ihead m" "m < NHINO" by auto
      have "k = ?h"
      proof (rule ccontr)
        assume n: "k \<noteq> ?h"
        then have "Itab i \<in> set (L k)" "Itab i \<in> set (L ?h)" "k \<in> ?H" using a k l by simp_all
        then show False using rings_apart [OF R _ h n, of "Itab i"] by simp
      qed
      then show False using a k dis by simp
    qed
    have "off - {i} = off" using False by blast
    moreover have "Itab j \<in> set (?N k)" if "Itab j \<in> set (L k)" "j \<noteq> i" "k \<in> Ihead ` {..<NHINO}" for j k
      using that l by (cases "k = ?h") auto
    moreover have "set (?N k) \<subseteq> set (L k)" for k
    proof (cases "k = ?h")
      case True
      have "set (us @ vs) \<subseteq> set (L ?h)" unfolding l by auto
      then show ?thesis using True by (simp split: if_splits) blast
    qed auto
    ultimately show ?thesis using N no ne by (intro exI [of _ ?N]) (simp add: f_def)
  qed
qed

text \<open>Moving an inode to the front of the chain of another number.\<close>

lemma ichained_move:
  assumes C: "ichained t L off" and i: "i < v_inode t"
    and t': "i_forw t' = i_forw (irechain i (ihash ino) t)" "i_back t' = i_back (irechain i (ihash ino) t)" "v_inode t' = v_inode t"
      "i_number (inodes t' i) = ino" "\<And>j. j \<noteq> i \<Longrightarrow> i_number (inodes t' j) = i_number (inodes t j)"
  shows "\<exists>L'. ichained t' L' (off - {i})"
proof -
  define f where "f = (i_forw t)(i_back t (Itab i) := i_forw t (Itab i))"
  define b where "b = (i_back t)(i_forw t (Itab i) := i_back t (Itab i))"
  let ?H = "Ihead ` {..<NHINO} \<union> Itab ` (off - {i})" let ?h = "ihash ino"
  obtain M where M: "rings f b ?H M" "\<And>h. Itab i \<notin> set (M h)" "\<And>h. set (M h) \<subseteq> set (L h)"
      "\<And>h j. Itab j \<in> set (L h) \<Longrightarrow> j \<noteq> i \<Longrightarrow> h \<in> Ihead ` {..<NHINO} \<Longrightarrow> Itab j \<in> set (M h)" "f (Itab i) = i_forw t (Itab i)"
    using iunlinked [OF C i] unfolding f_def b_def by blast
  have h: "?h \<in> ?H" by (rule ihash_in)
  have "Itab i \<notin> ?H" by auto
  from rings_front [OF M(1) h this M(2)]
  have r: "rings (f(Itab i := f ?h, ?h := Itab i)) ((b(f ?h := Itab i))(Itab i := ?h)) ?H (M(?h := Itab i # M ?h))" .
  let ?L = "M(?h := Itab i # M ?h)"
  have lk: "i_forw t' = f(Itab i := f ?h, ?h := Itab i)" "i_back t' = (b(f ?h := Itab i))(Itab i := ?h)"
    unfolding t'(1,2) using M(5) by (simp_all add: irechain_def Let_def f_def b_def)
  have "ichained t' ?L (off - {i})" unfolding ichained_def t'(3) lk
  proof (intro conjI ballI allI impI)
    show "off - {i} \<subseteq> {..<v_inode t}" using ichainedD(4) [OF C] by blast
    show "?L (Itab j) = []" if "j \<in> off - {i}" for j
      using that ichainedD(2) [OF C, of j] M(3) [of "Itab j"] by (auto simp: ihash_def)
    show "set (?L (Ihead m)) \<subseteq> Itab ` {..<v_inode t}" if "m < NHINO" for m
      using M(3) [of "Ihead m"] ichainedD(3) [OF C, of "Ihead m"] that i by auto
    show "Itab j \<in> set (?L (ihash (i_number (inodes t' j))))" if "j < v_inode t" "j \<notin> off - {i}" for j
    proof (cases "j = i")
      case False
      then have "Itab j \<in> set (L (ihash (i_number (inodes t j))))" using ichainedD(5) [OF C] that by blast
      from M(4) [OF this False ihash_head] show ?thesis
        unfolding t'(5) [OF False] by (cases "ihash (i_number (inodes t j)) = ?h") simp_all
    qed (simp add: t'(4))
  qed (rule r)
  then show ?thesis by blast
qed

text \<open>Taking an inode off its chain.\<close>

lemma ichained_purge:
  assumes C: "ichained t L off" and i: "i < v_inode t"
    and t': "i_forw t' = ((i_forw t)(i_back t (Itab i) := i_forw t (Itab i)))(Itab i := Itab i)"
      "i_back t' = ((i_back t)(i_forw t (Itab i) := i_back t (Itab i)))(Itab i := Itab i)" "v_inode t' = v_inode t" "inodes t' = inodes t"
  shows "\<exists>L'. ichained t' L' (insert i off)"
proof -
  define f where "f = (i_forw t)(i_back t (Itab i) := i_forw t (Itab i))"
  define b where "b = (i_back t)(i_forw t (Itab i) := i_back t (Itab i))"
  let ?H = "Ihead ` {..<NHINO} \<union> Itab ` (off - {i})" let ?K = "Ihead ` {..<NHINO} \<union> Itab ` insert i off"
  obtain M where M: "rings f b ?H M" "\<And>h. Itab i \<notin> set (M h)" "\<And>h. set (M h) \<subseteq> set (L h)"
      "\<And>h j. Itab j \<in> set (L h) \<Longrightarrow> j \<noteq> i \<Longrightarrow> h \<in> Ihead ` {..<NHINO} \<Longrightarrow> Itab j \<in> set (M h)" "f (Itab i) = i_forw t (Itab i)"
    using iunlinked [OF C i] unfolding f_def b_def by blast
  let ?L = "M(Itab i := [])" let ?f = "f(Itab i := Itab i)" let ?b = "b(Itab i := Itab i)"
  have K: "k = Itab i \<or> k \<noteq> Itab i \<and> k \<in> ?H" if "k \<in> ?K" for k using that by blast
  have r: "rings ?f ?b ?K ?L" unfolding rings_def
  proof (intro conjI ballI impI)
    fix k assume k: "k \<in> ?K"
    show "ring ?f ?b k (?L k)"
    proof (cases "k = Itab i")
      case True then show ?thesis by (simp add: ring_def)
    next
      case False
      then have kH: "k \<in> ?H" using K [OF k] by blast
      have "ring ?f ?b k (M k) = ring f b k (M k)" by (rule ring_cong) (use False M(2) [of k] in auto)
      then show ?thesis using rings_ring [OF M(1) kH] False by simp
    qed
    fix l assume l: "l \<in> ?K" and ne: "k \<noteq> l"
    show "set (k # ?L k) \<inter> set (l # ?L l) = {}"
    proof (cases "k = Itab i \<or> l = Itab i")
      case True
      then show ?thesis using M(2) ne by auto
    next
      case False
      then have "k \<in> ?H" "l \<in> ?H" using K [OF k] K [OF l] by blast+
      then have "set (k # M k) \<inter> set (l # M l) = {}" using rings_apart [OF M(1) _ _ ne] by blast
      then show ?thesis using False by simp
    qed
  qed
  have "ichained t' ?L (insert i off)" unfolding ichained_def t'(3,4)
  proof (intro conjI ballI allI impI)
    show "insert i off \<subseteq> {..<v_inode t}" using ichainedD(4) [OF C] i by auto
    show "rings (i_forw t') (i_back t') ?K ?L" using r unfolding t'(1,2) f_def b_def .
    show "?L (Itab j) = []" if "j \<in> insert i off" for j
      using that ichainedD(2) [OF C, of j] M(3) [of "Itab j"] by auto
    show "set (?L (Ihead m)) \<subseteq> Itab ` {..<v_inode t}" if "m < NHINO" for m
      using M(3) [of "Ihead m"] ichainedD(3) [OF C, of "Ihead m"] that by auto
    show "Itab j \<in> set (?L (ihash (i_number (inodes t j))))" if "j < v_inode t" "j \<notin> insert i off" for j
      using M(4) [OF ichainedD(5) [OF C, of j] _ ihash_head] that by (auto simp: ihash_def)
  qed
  then show ?thesis by blast
qed

text \<open>The free list.\<close>

lemma ilisted_first: "ilisted t F \<Longrightarrow> iav_forw t Ifree = (case F of [] \<Rightarrow> Ifree | i # _ \<Rightarrow> Itab i)"
  using ring_first [of "iav_forw t" "iav_back t" Ifree "map Itab F"] by (auto simp: ilisted_def split: list.split)

lemma ilisted_in: "ilisted t F \<Longrightarrow> i \<in> set F \<longleftrightarrow> i < v_inode t \<and> i_count (inodes t i) = 0"
  by (auto simp: ilisted_def)

lemma ilisted_take:
  assumes A: "ilisted t F" and F: "F = us @ i # vs"
    and t': "iav_forw t' = iav_forw (iav_unlink i t)" "iav_back t' = iav_back (iav_unlink i t)" "v_inode t' = v_inode t"
      "i_count (inodes t' i) \<noteq> 0" "\<And>j. j \<noteq> i \<Longrightarrow> i_count (inodes t' j) = i_count (inodes t j)"
  shows "ilisted t' (us @ vs)"
proof -
  have R: "ring (iav_forw t) (iav_back t) Ifree (map Itab us @ Itab i # map Itab vs)" using A F by (simp add: ilisted_def)
  have d: "distinct (us @ i # vs)" using ring_distinct [OF R] by (auto simp: distinct_map)
  have "iav_back t (Itab i) = last (Ifree # map Itab us)" by (rule ring_at(1) [OF R])
  then have ne: "iav_back t (Itab i) \<noteq> Itab i" using d by (cases us rule: rev_cases) auto
  have r: "ring (iav_forw t') (iav_back t') Ifree (map Itab (us @ vs))"
    using ring_unlink [OF R] ne by (simp add: iav_unlink_def Let_def t')
  have "set (us @ vs) = set F - {i}" using d F by auto
  also have "\<dots> = {j. j < v_inode t' \<and> i_count (inodes t' j) = 0}"
  proof -
    have "j \<in> set F - {i} \<longleftrightarrow> j < v_inode t' \<and> i_count (inodes t' j) = 0" for j
      using ilisted_in [OF A, of j] t'(3,4) t'(5) [of j] by (cases "j = i") auto
    then show ?thesis by blast
  qed
  finally show ?thesis using r by (simp add: ilisted_def)
qed

lemma ilisted_give:
  assumes A: "ilisted t F" and i: "i < v_inode t" "i_count (inodes t i) \<noteq> 0"
    and t': "iav_forw t' = iav_forw (iav_last i t)" "iav_back t' = iav_back (iav_last i t)" "v_inode t' = v_inode t"
      "i_count (inodes t' i) = 0" "\<And>j. j \<noteq> i \<Longrightarrow> i_count (inodes t' j) = i_count (inodes t j)"
  shows "ilisted t' (F @ [i])"
proof -
  have R: "ring (iav_forw t) (iav_back t) Ifree (map Itab F)" and n: "Itab i \<notin> set (Ifree # map Itab F)"
    using A i by (auto simp: ilisted_def)
  have r: "ring (iav_forw t') (iav_back t') Ifree (map Itab (F @ [i]))"
    using ring_back [OF R n] by (simp add: iav_last_def Let_def t')
  have "j \<in> set (F @ [i]) \<longleftrightarrow> j < v_inode t' \<and> i_count (inodes t' j) = 0" for j
    using ilisted_in [OF A, of j] i t'(3,4) t'(5) [of j] by (cases "j = i") auto
  then show ?thesis using r unfolding ilisted_def by blast
qed

end
