(* ===== verification/Inode_Steps.thy ===== *)
theory Inode_Steps
  imports Inode_Lists
begin

text \<open>
  What the routines of the inode table change, that each of them preserves the invariant, and the
  runs of the table under any interleaving of its callers.
\<close>

section \<open>Changing one inode\<close>

lemma icore_upd:
  assumes C: "icore t off" and i: "i < v_inode t" "v_inode t' = v_inode t" "inodes t' = (inodes t)(i := ip)"
    and off: "\<And>j. j \<noteq> i \<Longrightarrow> j \<in> off' \<longleftrightarrow> j \<in> off"
    and key: "i \<notin> off' \<Longrightarrow> i \<notin> off \<and> i_dev ip = i_dev (inodes t i) \<and> i_number ip = i_number (inodes t i) \<or>
      (\<forall>j < v_inode t. j \<notin> off \<longrightarrow> j \<noteq> i \<longrightarrow> \<not> (i_dev (inodes t j) = i_dev ip \<and> i_number (inodes t j) = i_number ip))"
    and c: "i_count ip \<noteq> 0 \<Longrightarrow> i \<notin> off'" "i_count ip = 0 \<Longrightarrow> i_flag ip = 0"
    and s: "\<And>j. j \<in> set (isleepers t') \<Longrightarrow> if j = i then has ILOCK ip \<and> has IWANT ip else j \<in> set (isleepers t)"
  shows "icore t' off'"
proof -
  have u: "j = k" if "j < v_inode t" "k < v_inode t" "j \<notin> off" "k \<notin> off" "i_dev (inodes t j) = i_dev (inodes t k)" "i_number (inodes t j) = i_number (inodes t k)" for j k
    using C that unfolding icore_def by blast
  have one: "j = i" if j: "j < v_inode t" "j \<notin> off'" "i \<notin> off'" "i_dev (inodes t' j) = i_dev ip" "i_number (inodes t' j) = i_number ip" for j
  proof (rule ccontr)
    assume n: "j \<noteq> i"
    then have e: "j \<notin> off" "inodes t' j = inodes t j" using off j(2) i(3) by auto
    from key [OF j(3)] show False
    proof (elim disjE)
      assume "i \<notin> off \<and> i_dev ip = i_dev (inodes t i) \<and> i_number ip = i_number (inodes t i)"
      then show False using u [of j i] j e n i(1) by simp
    qed (use j e n in auto)
  qed
  have "j = k" if "j < v_inode t" "k < v_inode t" "j \<notin> off'" "k \<notin> off'" "i_dev (inodes t' j) = i_dev (inodes t' k)" "i_number (inodes t' j) = i_number (inodes t' k)" for j k
  proof (cases "k = i")
    case True
    show ?thesis unfolding True by (rule one) (use that True in \<open>simp_all add: i(3)\<close>)
  next
    case k: False
    show ?thesis
    proof (cases "j = i")
      case True
      have "k = i" by (rule one) (use that True in \<open>simp_all add: i(3)\<close>)
      then show ?thesis using k by simp
    next
      case False
      show ?thesis by (rule u) (use that off [OF False] off [OF k] False k in \<open>simp_all add: i(3)\<close>)
    qed
  qed
  moreover have "j \<notin> off'" if "j < v_inode t" "i_count (inodes t' j) \<noteq> 0" for j
    using c(1) C that off [of j] unfolding icore_def by (cases "j = i") (auto simp: i(3))
  moreover have "i_flag (inodes t' j) = 0" if "j < v_inode t" "i_count (inodes t' j) = 0" for j
    using c(2) C that unfolding icore_def by (cases "j = i") (auto simp: i(3))
  moreover have "j < v_inode t \<and> has ILOCK (inodes t' j) \<and> has IWANT (inodes t' j)" if "j \<in> set (isleepers t')" for j
    using s [OF that] C i(1) unfolding icore_def by (cases "j = i") (auto simp: i(3))
  ultimately show ?thesis unfolding icore_def i(2) by blast
qed

text \<open>\<open>t'\<close> differs from \<open>t\<close> in the file systems and in the inode \<open>i\<close>, which keeps its number and its
  references; the marks in \<open>B\<close> stay as they are.\<close>

definition touches :: "nat set \<Rightarrow> nat \<Rightarrow> itab \<Rightarrow> itab \<Rightarrow> bool" where
  "touches B i t t' \<longleftrightarrow>
     v_inode t' = v_inode t \<and> i_forw t' = i_forw t \<and> i_back t' = i_back t \<and> iav_forw t' = iav_forw t \<and> iav_back t' = iav_back t \<and>
     mounts t' = mounts t \<and> isleepers t' = isleepers t \<and> inodes t' = (inodes t)(i := inodes t' i) \<and>
     i_dev (inodes t' i) = i_dev (inodes t i) \<and> i_number (inodes t' i) = i_number (inodes t i) \<and> i_count (inodes t' i) = i_count (inodes t i) \<and>
     (\<forall>n \<in> B. bit (i_flag (inodes t' i)) n = bit (i_flag (inodes t i)) n)"

lemma touches_refl: "touches B i t t"
  by (simp add: touches_def)

lemma touches_trans: "touches B i t t' \<Longrightarrow> touches B i t' t'' \<Longrightarrow> touches B i t t''"
  unfolding touches_def by (metis fun_upd_upd)

lemma touches_mono: "touches B i t t' \<Longrightarrow> A \<subseteq> B \<Longrightarrow> touches A i t t'"
  unfolding touches_def by blast

lemma touches_iupd:
  "i_dev (g (inodes t i)) = i_dev (inodes t i) \<Longrightarrow> i_number (g (inodes t i)) = i_number (inodes t i) \<Longrightarrow>
   i_count (g (inodes t i)) = i_count (inodes t i) \<Longrightarrow> (\<And>n. n \<in> B \<Longrightarrow> bit (i_flag (g (inodes t i))) n = bit (i_flag (inodes t i)) n) \<Longrightarrow>
   touches B i t (iupd i g t)"
  by (simp add: touches_def iupd_def)

abbreviation marks :: "nat set" where "marks \<equiv> {0, 3, 4}"

lemma iupdat_keeps:
  assumes "iupdat now ip f = (e, ip', f')"
  shows "i_dev ip' = i_dev ip" "i_number ip' = i_number ip" "i_count ip' = i_count ip" "n \<in> marks \<Longrightarrow> bit (i_flag ip') n = bit (i_flag ip) n"
    "i_mode ip' = i_mode ip" "i_nlink ip' = i_nlink ip" "i_addr ip' = i_addr ip" "i_size ip' = i_size ip"
  using assms by (auto simp: iupdat_def Let_def flag_simps split: if_splits)

lemma itrunc_keeps:
  assumes "itrunc now ip f = (ip', f')"
  shows "i_dev ip' = i_dev ip" "i_number ip' = i_number ip" "i_count ip' = i_count ip" "n \<in> marks \<Longrightarrow> bit (i_flag ip') n = bit (i_flag ip) n"
proof -
  let ?ip = "ip\<lparr>i_size := 0, i_addr := replicate NADDR 0, i_flag := i_flag ip OR (IUPD OR ICHG OR ISYN)\<rparr>"
  obtain e jp g where u: "iupdat now ?ip f = (e, jp, g)" by (metis prod_cases3)
  have r: "ip' = ip \<or> ip' = jp" using assms u by (auto simp: itrunc_def Let_def split: if_splits)
  show "i_dev ip' = i_dev ip" "i_number ip' = i_number ip" "i_count ip' = i_count ip" using r iupdat_keeps(1-3) [OF u] by auto
  show "bit (i_flag ip') n = bit (i_flag ip) n" if "n \<in> marks"
    using r iupdat_keeps(4) [OF u that] that by (auto simp: flag_simps)
qed

lemma touches_iupdat: "touches marks i t (iupdat_tab i t)"
proof -
  obtain e jp g where u: "iupdat (itime t) (inodes t i) (fss t (i_dev (inodes t i))) = (e, jp, g)" by (metis prod_cases3)
  show ?thesis using iupdat_keeps [OF u] by (auto simp: touches_def iupdat_tab_def Let_def u with_fs_def iupd_def)
qed

lemma touches_itrunc: "touches marks i t (itrunc_tab i t)"
proof -
  obtain jp g where u: "itrunc (itime t) (inodes t i) (fss t (i_dev (inodes t i))) = (jp, g)" by fastforce
  show ?thesis using itrunc_keeps [OF u] by (auto simp: touches_def itrunc_tab_def Let_def u with_fs_def iupd_def)
qed

lemma touches_iremove: "touches marks i t (iremove i t)"
proof -
  let ?t = "itrunc_tab i t"
  have "touches marks i ?t (iupd i (\<lambda>ip. ip\<lparr>i_mode := 0, i_flag := i_flag ip OR (IUPD OR ICHG)\<rparr>) ?t)"
    by (rule touches_iupd) (auto simp: flag_simps)
  then have "touches marks i t (iupd i (\<lambda>ip. ip\<lparr>i_mode := 0, i_flag := i_flag ip OR (IUPD OR ICHG)\<rparr>) ?t)"
    by (rule touches_trans [OF touches_itrunc])
  then show ?thesis by (simp add: iremove_def Let_def ifree_tab_def with_fs_def touches_def)
qed

section \<open>Each routine\<close>

lemma touches_inv:
  assumes I: "iinv t" and i: "i < v_inode t" "i_count (inodes t i) \<noteq> 0" and T: "touches marks i t t'"
  shows "iinv t'"
proof -
  from I obtain L off F where C: "ichained t L off" "ilisted t F" "icore t off" by (rule iinvE)
  have u: "inodes t' j = inodes t j" if "j \<noteq> i" for j using T that unfolding touches_def by (metis fun_upd_apply)
  have k: "i_number (inodes t' j) = i_number (inodes t j)" "i_count (inodes t' j) = i_count (inodes t j)" for j
    using T u [of j] by (cases "j = i"; simp add: touches_def)+
  have "ichained t' L off = ichained t L off" by (rule ichained_cong) (use T k in \<open>simp_all add: touches_def\<close>)
  moreover have "ilisted t' F = ilisted t F" by (rule ilisted_cong) (use T k in \<open>simp_all add: touches_def\<close>)
  moreover have "icore t' off"
  proof (rule icore_upd [OF C(3) i(1), where ip = "inodes t' i"])
    show "inodes t' = (inodes t)(i := inodes t' i)" "v_inode t' = v_inode t" using T by (simp_all add: touches_def)
    show "i_count (inodes t' i) = 0 \<Longrightarrow> i_flag (inodes t' i) = 0" using T i(2) by (simp add: touches_def)
    show "i \<notin> off" using C(3) i by (simp add: icore_def)
    show "if j = i then has ILOCK (inodes t' i) \<and> has IWANT (inodes t' i) else j \<in> set (isleepers t)" if j: "j \<in> set (isleepers t')" for j
    proof (cases "j = i")
      case True
      have "i \<in> set (isleepers t)" using j True T by (simp add: touches_def)
      then have "has ILOCK (inodes t i)" "has IWANT (inodes t i)" using C(3) by (simp_all add: icore_def)
      then show ?thesis using True T by (simp add: touches_def has_bits)
    qed (use j T in \<open>simp add: touches_def\<close>)
    show "i \<notin> off \<and> i_dev (inodes t' i) = i_dev (inodes t i) \<and> i_number (inodes t' i) = i_number (inodes t i) \<or>
      (\<forall>j < v_inode t. j \<notin> off \<longrightarrow> j \<noteq> i \<longrightarrow> \<not> (i_dev (inodes t j) = i_dev (inodes t' i) \<and> i_number (inodes t j) = i_number (inodes t' i)))"
      using C(3) i T by (simp add: touches_def icore_def)
  qed simp
  ultimately show ?thesis using C by (auto intro: iinvI)
qed

lemma prele_fields [simp]:
  "v_inode (prele i t) = v_inode t" "i_forw (prele i t) = i_forw t" "i_back (prele i t) = i_back t" "iav_forw (prele i t) = iav_forw t"
  "iav_back (prele i t) = iav_back t" "mounts (prele i t) = mounts t" "fss (prele i t) = fss t" "ierror (prele i t) = ierror t"
  "inodes (prele i t) = (inodes t)(i := (inodes t i)\<lparr>i_flag := (i_flag (inodes t i) AND NOT ILOCK) AND NOT IWANT\<rparr>)"
  "isleepers (prele i t) = (if has IWANT (inodes t i) then filter (\<lambda>j. j \<noteq> i) (isleepers t) else isleepers t)"
proof -
  have w: "(i_flag (inodes t i) AND NOT ILOCK) AND IWANT \<noteq> 0 \<longleftrightarrow> has IWANT (inodes t i)"
    by (simp add: flag_simps)
  have n: "\<not> has IWANT (inodes t i) \<Longrightarrow> (i_flag (inodes t i) AND NOT ILOCK) AND NOT IWANT = i_flag (inodes t i) AND NOT ILOCK"
    by (rule bit_word_eqI) (auto simp: flag_simps)
  show "inodes (prele i t) = (inodes t)(i := (inodes t i)\<lparr>i_flag := (i_flag (inodes t i) AND NOT ILOCK) AND NOT IWANT\<rparr>)"
    "isleepers (prele i t) = (if has IWANT (inodes t i) then filter (\<lambda>j. j \<noteq> i) (isleepers t) else isleepers t)"
    using w n by (auto simp: prele_def Let_def iupd_def)
qed (simp_all add: prele_def Let_def iupd_def)

lemma iput_more:
  assumes I: "iinv t" and i: "i < v_inode t" "i_count (inodes t i) \<noteq> 0" "i_count (inodes t i) \<noteq> 1"
  shows "iinv (iput i t)"
proof -
  from I obtain L off F where C: "ichained t L off" "ilisted t F" "icore t off" by (rule iinvE)
  let ?t = "iput i t"
  have e: "?t = prele i (iupd i (\<lambda>ip. ip\<lparr>i_count := i_count ip - 1\<rparr>) t)" using i by (simp add: iput_def)
  let ?ip = "(inodes t i)\<lparr>i_count := i_count (inodes t i) - 1, i_flag := (i_flag (inodes t i) AND NOT ILOCK) AND NOT IWANT\<rparr>"
  have n: "inodes ?t = (inodes t)(i := ?ip)" by (simp add: e iupd_def)
  have nz: "i_count (inodes t i) - 1 \<noteq> 0" using i(3) by simp
  have "ichained ?t L off = ichained t L off" by (rule ichained_cong) (auto simp: n, auto simp: e iupd_def)
  moreover have "ilisted ?t F = ilisted t F" by (rule ilisted_cong) (use i nz in \<open>auto simp: n\<close>, auto simp: e iupd_def)
  moreover have "icore ?t off"
  proof (rule icore_upd [OF C(3) i(1) _ n])
    show "v_inode ?t = v_inode t" by (simp add: e iupd_def)
    show "if j = i then has ILOCK ?ip \<and> has IWANT ?ip else j \<in> set (isleepers t)" if "j \<in> set (isleepers ?t)" for j
      using that C(3) by (auto simp: e iupd_def icore_def split: if_splits)
  qed (use C(3) i nz in \<open>auto simp: icore_def\<close>)
  ultimately show ?thesis using C by (auto intro: iinvI)
qed

text \<open>The state in which the last reference is about to go.\<close>

definition iput_body :: "nat \<Rightarrow> itab \<Rightarrow> itab" where
  "iput_body i t =
     (let t = iupd i (\<lambda>ip. ip\<lparr>i_flag := i_flag ip OR ILOCK\<rparr>) t;
          t = (if i_nlink (inodes t i) \<le>s 0 then iremove i t else t)
      in if has (IACC OR IUPD OR ICHG) (inodes t i) then iupdat_tab i t else t)"

lemma iput_last_eq: "i_count (inodes t i) = 1 \<Longrightarrow>
    iput i t = iav_last i (iupd i (\<lambda>ip. ip\<lparr>i_flag := 0, i_count := 0\<rparr>) (prele i (iput_body i t)))"
  by (simp add: iput_def iput_body_def Let_def iupd_def)

lemma touches_body: "touches {3, 4} i t (iput_body i t)"
proof -
  let ?a = "iupd i (\<lambda>ip. ip\<lparr>i_flag := i_flag ip OR ILOCK\<rparr>) t"
  let ?b = "if i_nlink (inodes ?a i) \<le>s 0 then iremove i ?a else ?a"
  have "touches {3, 4} i t ?a" by (rule touches_iupd) (auto simp: flag_simps)
  moreover have "touches {3, 4} i ?a ?b" using touches_mono [OF touches_iremove, of "{3, 4}" i ?a] by (simp add: touches_refl)
  moreover have "touches {3, 4} i ?b (if has (IACC OR IUPD OR ICHG) (inodes ?b i) then iupdat_tab i ?b else ?b)"
    using touches_mono [OF touches_iupdat, of "{3, 4}" i ?b] by (simp add: touches_refl)
  ultimately show ?thesis unfolding iput_body_def Let_def by (blast intro: touches_trans)
qed

lemma iput_last:
  assumes I: "iinv t" and i: "i < v_inode t" "i_count (inodes t i) = 1"
  shows "iinv (iput i t)"
proof -
  from I obtain L off F where C: "ichained t L off" "ilisted t F" "icore t off" by (rule iinvE)
  let ?t = "iput i t" let ?b = "iput_body i t"
  note T = touches_body [of i t] and e = iput_last_eq [OF i(2)]
  have bi: "inodes ?b = (inodes t)(i := inodes ?b i)" using T by (simp add: touches_def)
  let ?ip = "(inodes ?b i)\<lparr>i_flag := 0, i_count := 0\<rparr>"
  have n: "inodes ?t = (inodes t)(i := ?ip)"
    unfolding e by (simp add: iav_last_def Let_def iupd_def) (metis bi fun_upd_upd)
  have num: "i_number ?ip = i_number (inodes t i)" "i_dev ?ip = i_dev (inodes t i)" using T by (simp_all add: touches_def)
  have lk: "v_inode ?t = v_inode t" "i_forw ?t = i_forw t" "i_back ?t = i_back t"
    using T by (simp_all add: e touches_def iav_last_def Let_def iupd_def)
  have av: "iav_forw ?t = iav_forw (iav_last i t)" "iav_back ?t = iav_back (iav_last i t)"
    using T by (simp_all add: e touches_def iav_last_def Let_def iupd_def)
  have "ichained ?t L off = ichained t L off" by (rule ichained_cong) (use num in \<open>auto simp: n lk\<close>)
  moreover have "ilisted ?t (F @ [i])" by (rule ilisted_give [OF C(2) i(1) _ av lk(1)]) (use i in \<open>auto simp: n\<close>)
  moreover have "icore ?t off"
  proof (rule icore_upd [OF C(3) i(1) lk(1) n])
    have sl: "isleepers ?t = (if has IWANT (inodes t i) then filter (\<lambda>j. j \<noteq> i) (isleepers t) else isleepers t)"
      using T by (simp add: e iav_last_def Let_def iupd_def touches_def has_bits)
    show "if j = i then has ILOCK ?ip \<and> has IWANT ?ip else j \<in> set (isleepers t)" if "j \<in> set (isleepers ?t)" for j
      using that C(3) by (auto simp: sl icore_def split: if_splits)
  qed (use num C(3) i in \<open>auto simp: icore_def\<close>)
  ultimately show ?thesis using C by (auto intro: iinvI)
qed

lemma iput_inv: "iinv t \<Longrightarrow> i < v_inode t \<Longrightarrow> i_count (inodes t i) \<noteq> 0 \<Longrightarrow> iinv (iput i t)"
  using iput_last iput_more by blast

text \<open>The error code, the clock and the file systems are no part of the invariant.\<close>

lemma same_table:
  assumes "v_inode t' = v_inode t" "i_forw t' = i_forw t" "i_back t' = i_back t" "iav_forw t' = iav_forw t" "iav_back t' = iav_back t"
    "isleepers t' = isleepers t" "inodes t' = inodes t" "iinv t"
  shows "iinv t'"
  using assms unfolding iinv_def ichained_def ilisted_def icore_def by simp

lemma iinv_fields [simp]: "iinv (t\<lparr>ierror := e\<rparr>) = iinv t" "iinv (with_fs dev f t) = iinv t" "iinv (t\<lparr>itime := x\<rparr>) = iinv t" "iinv (t\<lparr>fss := fs\<rparr>) = iinv t"
  by (rule iffI; erule same_table [rotated -1]; simp add: with_fs_def)+

text \<open>A step on one inode that has references before and after.\<close>

lemma held_inv:
  assumes I: "iinv t" and i: "i < v_inode t" "i_count (inodes t i) \<noteq> 0" and t': "v_inode t' = v_inode t" "i_forw t' = i_forw t" "i_back t' = i_back t"
      "iav_forw t' = iav_forw t" "iav_back t' = iav_back t" "inodes t' = (inodes t)(i := ip)"
    and ip: "i_dev ip = i_dev (inodes t i)" "i_number ip = i_number (inodes t i)" "i_count ip \<noteq> 0"
    and s: "\<And>j. j \<in> set (isleepers t') \<Longrightarrow> if j = i then has ILOCK ip \<and> has IWANT ip else j \<in> set (isleepers t)"
  shows "iinv t'"
proof -
  from I obtain L off F where C: "ichained t L off" "ilisted t F" "icore t off" by (rule iinvE)
  have "ichained t' L off = ichained t L off" by (rule ichained_cong) (use t' ip in auto)
  moreover have "ilisted t' F = ilisted t F" by (rule ilisted_cong) (use t' ip i in auto)
  moreover have "icore t' off"
    by (rule icore_upd [OF C(3) i(1) t'(1,6) _ _ _ _ s]) (use C(3) i ip in \<open>auto simp: icore_def\<close>)
  ultimately show ?thesis using C by (auto intro: iinvI)
qed

lemma iinvD:
  assumes "iinv t"
  shows "j \<in> set (isleepers t) \<Longrightarrow> j < v_inode t \<and> has ILOCK (inodes t j) \<and> has IWANT (inodes t j)"
    "j < v_inode t \<Longrightarrow> i_count (inodes t j) = 0 \<Longrightarrow> i_flag (inodes t j) = 0"
  using assms unfolding iinv_def icore_def by blast+

lemma locked_held: "iinv t \<Longrightarrow> i < v_inode t \<Longrightarrow> has ILOCK (inodes t i) \<Longrightarrow> i_count (inodes t i) \<noteq> 0"
  using iinvD(2) [of t i] by auto

lemma prele_inv:
  assumes I: "iinv t" and i: "i < v_inode t" "i_count (inodes t i) \<noteq> 0" shows "iinv (prele i t)"
proof (rule held_inv [OF I i, where ip = "(inodes t i)\<lparr>i_flag := (i_flag (inodes t i) AND NOT ILOCK) AND NOT IWANT\<rparr>"])
  fix j assume "j \<in> set (isleepers (prele i t))"
  then show "if j = i then has ILOCK ((inodes t i)\<lparr>i_flag := (i_flag (inodes t i) AND NOT ILOCK) AND NOT IWANT\<rparr>) \<and>
      has IWANT ((inodes t i)\<lparr>i_flag := (i_flag (inodes t i) AND NOT ILOCK) AND NOT IWANT\<rparr>) else j \<in> set (isleepers t)"
    using iinvD(1) [OF I, of j] by (auto split: if_splits)
qed (use i in simp_all)

lemma want_inv:
  assumes I: "iinv t" and i: "i < v_inode t" "has ILOCK (inodes t i)" shows "iinv (want i t)"
proof (rule held_inv [OF I i(1) locked_held [OF I i], where ip = "(inodes t i)\<lparr>i_flag := i_flag (inodes t i) OR IWANT\<rparr>"])
  show "if j = i then has ILOCK ((inodes t i)\<lparr>i_flag := i_flag (inodes t i) OR IWANT\<rparr>) \<and> has IWANT ((inodes t i)\<lparr>i_flag := i_flag (inodes t i) OR IWANT\<rparr>)
      else j \<in> set (isleepers t)" if "j \<in> set (isleepers (want i t))" for j
    using that i(2) by (auto simp: want_def iupd_def flag_simps split: if_splits)
qed (use locked_held [OF I i] in \<open>simp_all add: want_def iupd_def\<close>)

lemma plock_inv: "iinv t \<Longrightarrow> i < v_inode t \<Longrightarrow> i_count (inodes t i) \<noteq> 0 \<Longrightarrow> iinv (snd (plock i t))"
proof -
  assume I: "iinv t" and i: "i < v_inode t" "i_count (inodes t i) \<noteq> 0"
  show ?thesis
  proof (cases "has ILOCK (inodes t i)")
    case True then show ?thesis using want_inv [OF I i(1)] by (simp add: plock_def)
  next
    case False
    have "iinv (iupd i (\<lambda>ip. ip\<lparr>i_flag := i_flag ip OR ILOCK\<rparr>) t)"
    proof (rule held_inv [OF I i, where ip = "(inodes t i)\<lparr>i_flag := i_flag (inodes t i) OR ILOCK\<rparr>"])
      fix j assume "j \<in> set (isleepers (iupd i (\<lambda>ip. ip\<lparr>i_flag := i_flag ip OR ILOCK\<rparr>) t))"
      then have "j \<in> set (isleepers t)" by (simp add: iupd_def)
      then show "if j = i then has ILOCK ((inodes t i)\<lparr>i_flag := i_flag (inodes t i) OR ILOCK\<rparr>) \<and> has IWANT ((inodes t i)\<lparr>i_flag := i_flag (inodes t i) OR ILOCK\<rparr>)
          else j \<in> set (isleepers t)" using iinvD(1) [OF I, of j] False by auto
    qed (use i in \<open>simp_all add: iupd_def\<close>)
    then show ?thesis using False by (simp add: plock_def)
  qed
qed

text \<open>Two entries that differ in their marks and their count only.\<close>

definition same_ino :: "inode \<Rightarrow> inode \<Rightarrow> bool" where
  "same_ino ip jp \<longleftrightarrow> i_dev jp = i_dev ip \<and> i_number jp = i_number ip \<and> i_mode jp = i_mode ip \<and> i_nlink jp = i_nlink ip \<and> i_uid jp = i_uid ip \<and>
     i_gid jp = i_gid ip \<and> i_size jp = i_size ip \<and> i_addr jp = i_addr ip \<and> i_lastr jp = i_lastr ip"

lemma same_ino_refl [simp]: "same_ino ip ip"
  by (simp add: same_ino_def)

lemma same_ino_marks [simp]: "same_ino ip (jp\<lparr>i_flag := x\<rparr>) = same_ino ip jp" "same_ino ip (jp\<lparr>i_count := c\<rparr>) = same_ino ip jp"
  by (simp_all add: same_ino_def)

lemma same_ino_mode: "same_ino ip jp \<Longrightarrow> i_mode jp = i_mode ip"
  by (simp add: same_ino_def)

lemma same_ino_trans: "same_ino a b \<Longrightarrow> same_ino b c \<Longrightarrow> same_ino a c"
  by (simp add: same_ino_def)

lemma same_ino_eq: "same_ino ip jp \<Longrightarrow> i_count jp = i_count ip \<Longrightarrow> jp = ip\<lparr>i_flag := i_flag jp\<rparr>"
  by (simp add: same_ino_def)

text \<open>What \<open>iget\<close> and \<open>ialloc\<close> leave of the inodes with references: \<open>r\<close> is the one they return.\<close>

definition grows :: "nat option \<Rightarrow> itab \<Rightarrow> itab \<Rightarrow> bool" where
  "grows r t t' \<longleftrightarrow> v_inode t' = v_inode t \<and> mounts t' = mounts t \<and>
     (\<forall>j < v_inode t. i_count (inodes t' j) = i_count (inodes t j) + of_bool (r = Some j)) \<and>
     (\<forall>j < v_inode t. i_count (inodes t j) \<noteq> 0 \<longrightarrow> i_dev (inodes t' j) = i_dev (inodes t j) \<and> i_number (inodes t' j) = i_number (inodes t j) \<and>
        (i_mode (inodes t j) \<noteq> 0 \<longrightarrow> same_ino (inodes t j) (inodes t' j))) \<and>
     (\<forall>j < v_inode t. has IMOUNT (inodes t' j) \<longrightarrow> has IMOUNT (inodes t j))"

definition gotten :: "itab \<Rightarrow> nat ires \<Rightarrow> itab \<Rightarrow> bool" where
  "gotten t r t' \<longleftrightarrow> iinv t' \<and>
     (case r of IGot i \<Rightarrow> i < v_inode t \<and> i_count (inodes t' i) \<noteq> 0 \<and> has ILOCK (inodes t' i) \<and> grows (Some i) t t' | _ \<Rightarrow> grows None t t')"

definition low :: "itab \<Rightarrow> bool" where
  "low t \<longleftrightarrow> (\<forall>j < v_inode t. i_count (inodes t j) \<noteq> - 1)"

lemma itake_ok:
  assumes I: "iinv t" and i: "i < v_inode t" "\<not> has ILOCK (inodes t i)" "low t"
    and o: "i_count (inodes t i) \<noteq> 0 \<or> (\<exists>dev ino. ifind dev ino t = Some (Some (Itab i)))"
  shows "gotten t (IGot i) (itake i t)"
proof -
  from I obtain L off F where C: "ichained t L off" "ilisted t F" "icore t off" by (rule iinvE)
  let ?t = "itake i t" let ?ip = "(inodes t i)\<lparr>i_count := i_count (inodes t i) + 1, i_flag := i_flag (inodes t i) OR ILOCK\<rparr>"
  have n: "inodes ?t = (inodes t)(i := ?ip)" "v_inode ?t = v_inode t" "isleepers ?t = isleepers t" "mounts ?t = mounts t"
    "i_forw ?t = i_forw t" "i_back ?t = i_back t"
    by (simp_all add: itake_def Let_def iupd_def iav_unlink_def)
  have nz: "i_count (inodes t i) + 1 \<noteq> 0" using i(1,3) by (auto simp: low_def eq_neg_iff_add_eq_0)
  have G: "grows (Some i) t ?t" using n by (auto simp: grows_def flag_simps)
  have lk: "has ILOCK ?ip" by (simp add: flag_simps)
  have sl: "i \<notin> set (isleepers t)" using iinvD(1) [OF I, of i] i(2) by auto
  have "iinv ?t"
  proof (cases "i_count (inodes t i) = 0")
    case False
    show ?thesis
      by (rule held_inv [OF I i(1) False n(2,5,6) _ _ n(1)]) (use nz False sl in \<open>auto simp: n itake_def Let_def iupd_def\<close>)
  next
    case True
    then obtain us vs where F: "F = us @ i # vs" using ilisted_in [OF C(2), of i] i(1) split_list [of i F] by auto
    have "ilisted ?t (us @ vs)"
      by (rule ilisted_take [OF C(2) F]) (use True nz in \<open>auto simp: n, auto simp: itake_def Let_def iupd_def\<close>)
    moreover have "i \<notin> off" using o True ifound [OF C(1)] by blast
    then have "icore ?t off" by (intro icore_upd [OF C(3) i(1) n(2,1)]) (use nz sl in \<open>auto simp: n\<close>)
    moreover have "ichained ?t L off = ichained t L off" by (rule ichained_cong) (auto simp: n)
    ultimately show ?thesis using C by (auto intro: iinvI)
  qed
  then show ?thesis using G n nz lk i(1) by (simp add: gotten_def)
qed

text \<open>Giving the place of a free inode to another number.\<close>

definition iplace :: "nat \<Rightarrow> u16 \<Rightarrow> u16 \<Rightarrow> itab \<Rightarrow> itab" where
  "iplace i dev ino t =
     iupd i (\<lambda>ip. ip\<lparr>i_dev := dev, i_number := ino, i_flag := ILOCK, i_count := 1, i_lastr := 0\<rparr>) (irechain i (ihash ino) (iav_unlink i t))"

lemma iplace_fields [simp]:
  "inodes (iplace i dev ino t) = (inodes t)(i := (inodes t i)\<lparr>i_dev := dev, i_number := ino, i_flag := ILOCK, i_count := 1, i_lastr := 0\<rparr>)"
  "v_inode (iplace i dev ino t) = v_inode t" "isleepers (iplace i dev ino t) = isleepers t" "mounts (iplace i dev ino t) = mounts t"
  "fss (iplace i dev ino t) = fss t" "ierror (iplace i dev ino t) = ierror t" "itime (iplace i dev ino t) = itime t"
  by (simp_all add: iplace_def iupd_def irechain_def iav_unlink_def Let_def)

lemma iplace_inv:
  assumes C: "ichained t L off" "ilisted t (i # G)" "icore t off"
    and n: "\<forall>j < v_inode t. j \<notin> off \<longrightarrow> \<not> (i_dev (inodes t j) = dev \<and> i_number (inodes t j) = ino)"
  shows "iinv (iplace i dev ino t)" "i < v_inode t" "i_count (inodes t i) = 0" "i_flag (inodes t i) = 0" "i \<notin> set (isleepers t)"
proof -
  show i: "i < v_inode t" "i_count (inodes t i) = 0" using ilisted_in [OF C(2), of i] by simp_all
  then show f: "i_flag (inodes t i) = 0" using C(3) by (simp add: icore_def)
  then show sl: "i \<notin> set (isleepers t)" using C(3) by (auto simp: icore_def)
  let ?t = "iplace i dev ino t"
  have "\<exists>L'. ichained ?t L' (off - {i})"
    by (rule ichained_move [OF C(1) i(1)]) (auto simp: iplace_def iupd_def irechain_def iav_unlink_def Let_def)
  moreover have "ilisted ?t ([] @ G)"
    by (rule ilisted_take [OF C(2), of "[]" i G]) (auto simp: iplace_def iupd_def irechain_def iav_unlink_def Let_def)
  moreover have "icore ?t (off - {i})"
    by (rule icore_upd [OF C(3) i(1) _ iplace_fields(1)]) (use n sl in auto)
  ultimately show "iinv ?t" by (auto intro: iinvI)
qed

lemma grows_none: "v_inode t' = v_inode t \<Longrightarrow> mounts t' = mounts t \<Longrightarrow> (\<And>j. i_count (inodes t' j) = i_count (inodes t j)) \<Longrightarrow>
    (\<And>j. i_count (inodes t j) \<noteq> 0 \<Longrightarrow> same_ino (inodes t j) (inodes t' j)) \<Longrightarrow>
    (\<And>j. has IMOUNT (inodes t' j) \<Longrightarrow> has IMOUNT (inodes t j)) \<Longrightarrow> grows None t t'"
  by (auto simp: grows_def same_ino_def)

lemma iread_keeps:
  "iread ip f = Some ip' \<Longrightarrow> i_dev ip' = i_dev ip \<and> i_number ip' = i_number ip \<and> i_count ip' = i_count ip \<and> i_flag ip' = i_flag ip"
  by (auto simp: iread_def get_dinode_def split: if_splits)

text \<open>The last \<open>iput\<close> and any other.\<close>

lemma iput_effect:
  "v_inode (iput i t) = v_inode t \<and> mounts (iput i t) = mounts t \<and>
   (\<exists>ip. inodes (iput i t) = (inodes t)(i := ip) \<and> i_dev ip = i_dev (inodes t i) \<and> i_number ip = i_number (inodes t i) \<and>
      i_count ip = i_count (inodes t i) - 1 \<and> (i_count (inodes t i) \<noteq> 1 \<longrightarrow> same_ino (inodes t i) ip) \<and>
      (has IMOUNT ip \<longrightarrow> has IMOUNT (inodes t i)))"
proof (cases "i_count (inodes t i) = 1")
  case True
  note T = touches_body [of i t]
  have bi: "inodes (iput_body i t) = (inodes t)(i := inodes (iput_body i t) i)" using T by (simp add: touches_def)
  have "inodes (iput i t) = (inodes t)(i := (inodes (iput_body i t) i)\<lparr>i_flag := 0, i_count := 0\<rparr>)"
    unfolding iput_last_eq [OF True] by (simp add: iav_last_def Let_def iupd_def) (metis bi fun_upd_upd)
  then show ?thesis using T by (auto simp: iput_last_eq [OF True] touches_def iav_last_def Let_def iupd_def True)
next
  case False
  then show ?thesis by (auto simp: iput_def iupd_def flag_simps same_ino_def)
qed

lemma iread_ok:
  assumes I: "iinv (iplace i dev ino t)" and i: "i < v_inode t" "i_count (inodes t i) = 0"
    and e: "iread_tab i (iplace i dev ino t) = (r, t')"
  shows "gotten t r t'"
proof -
  let ?p = "iplace i dev ino t"
  let ?ip = "inodes ?p i" let ?r = "iread ?ip (fss t dev)"
  have d: "i_dev ?ip = dev" by simp
  have bad: "gotten t IFail (iput i p')" if p': "inodes p' = inodes ?p" "v_inode p' = v_inode t" "mounts p' = mounts t" "iinv p'" for p'
  proof -
    have c: "i_count (inodes p' i) \<noteq> 0" by (simp add: p')
    note ef = iput_effect [of i p']
    have nm: "ILOCK AND IMOUNT = 0" by (simp add: flag_simps)
    from ef obtain ip where ip: "inodes (iput i p') = (inodes p')(i := ip)" "i_count ip = 0" "has IMOUNT ip \<longrightarrow> has IMOUNT ?ip"
        "v_inode (iput i p') = v_inode t" "mounts (iput i p') = mounts t"
      using p' by auto
    have "\<not> has IMOUNT ip" using ip(3) nm by simp
    then have "grows None t (iput i p')"
      by (intro grows_none) (use ip p' i in \<open>auto split: if_splits\<close>)
    then show ?thesis using iput_inv [OF p'(4) _ c] i(1) p'(2) by (simp add: gotten_def)
  qed
  show ?thesis
  proof (cases ?r)
    case None
    then have "r = IFail" "t' = iput i (?p\<lparr>ierror := Some EIO\<rparr>)" using e by (simp_all add: iread_tab_def Let_def)
    then show ?thesis using bad [of "?p\<lparr>ierror := Some EIO\<rparr>"] I by simp
  next
    case (Some jp)
    note k = iread_keeps [OF Some]
    have rd: "iread ?ip (fss ?p (i_dev ?ip)) = Some jp" using Some by simp
    show ?thesis
    proof (cases "ierror t = None")
      case True
      then have r: "r = IGot i" "t' = iupd i (\<lambda>_. jp) ?p" using e rd by (simp_all add: iread_tab_def Let_def del: iplace_fields(1))
      have T: "touches marks i ?p t'" unfolding r by (rule touches_iupd) (use k in auto)
      have "iinv t'" by (rule touches_inv [OF I _ _ T]) (use i in auto)
      moreover have "ILOCK AND IMOUNT = 0" by (simp add: flag_simps)
      then have "grows (Some i) t t'" using k i by (auto simp: grows_def r iupd_def)
      ultimately show ?thesis using k i by (simp add: gotten_def r iupd_def)
    next
      case False
      then obtain y where "ierror t = Some y" by blast
      then have "r = IFail" "t' = iput i ?p" using e rd by (simp_all add: iread_tab_def Let_def del: iplace_fields(1))
      then show ?thesis using bad [of ?p] I by simp
    qed
  qed
qed

lemma inew_ok:
  assumes I: "iinv t" and n: "ifind dev ino t = Some None" and e: "inew dev ino t = (r, t')"
  shows "gotten t r t' \<and> r \<noteq> IStuck \<and> r \<noteq> ISleep"
proof -
  from I obtain L off F where C: "ichained t L off" "ilisted t F" "icore t off" by (rule iinvE)
  show ?thesis
  proof (cases F)
    case Nil
    then have "r = IFail" "t' = t\<lparr>ierror := Some ENFILE\<rparr>" using e ilisted_first [OF C(2)] by (simp_all add: inew_def)
    then show ?thesis using I by (simp add: gotten_def grows_def)
  next
    case (Cons i G)
    have nf: "\<forall>j < v_inode t. j \<notin> off \<longrightarrow> \<not> (i_dev (inodes t j) = dev \<and> i_number (inodes t j) = ino)" using ifind_ok [OF C(1), of dev ino] n by auto
    note P = iplace_inv [OF C(1) C(2) [unfolded Cons] C(3) nf]
    have e': "iread_tab i (iplace i dev ino t) = (r, t')" using e ilisted_first [OF C(2)] Cons by (simp add: inew_def iplace_def)
    then have "r \<noteq> IStuck \<and> r \<noteq> ISleep" by (auto simp: iread_tab_def Let_def split: option.splits if_splits)
    then show ?thesis using iread_ok [OF P(1-3) e'] by simp
  qed
qed

text \<open>The mounted devices: an entry for every inode that is mounted on, with the root inode held, and no
  root inode that leads back to itself.\<close>

definition mounts_ok :: "itab \<Rightarrow> bool" where
  "mounts_ok t \<longleftrightarrow>
     (\<forall>i < v_inode t. has IMOUNT (inodes t i) \<longrightarrow> (\<exists>m \<in> set (mounts t). m_inodp m = Some i)) \<and>
     (\<exists>rk. \<forall>m \<in> set (mounts t). \<forall>i. m_inodp m = Some i \<longrightarrow>
        (\<exists>j < v_inode t. m_mount m = Some j \<and> i_count (inodes t j) \<noteq> 0 \<and> rk j < (rk i :: nat)) \<and> rk i \<le> length (mounts t))"

lemma iget_found:
  assumes I: "iinv t" and lo: "low t"
    and m: "\<forall>i < v_inode t. has IMOUNT (inodes t i) \<longrightarrow> (\<exists>m \<in> set (mounts t). m_inodp m = Some i)"
    and rk: "\<forall>m \<in> set (mounts t). \<forall>i. m_inodp m = Some i \<longrightarrow>
        (\<exists>j < v_inode t. m_mount m = Some j \<and> i_count (inodes t j) \<noteq> 0 \<and> rk j < (rk i :: nat)) \<and> rk i \<le> length (mounts t)"
  shows "i < v_inode t \<Longrightarrow> i_count (inodes t i) \<noteq> 0 \<or> (\<exists>dev ino. ifind dev ino t = Some (Some (Itab i))) \<Longrightarrow>
    min (rk i) (length (mounts t)) < n \<Longrightarrow> (has IMOUNT (inodes t i) \<longrightarrow> rk i \<le> length (mounts t)) \<Longrightarrow>
    iget_at n (Some i) dev ino t = (r, t') \<Longrightarrow> gotten t r t' \<and> r \<noteq> IStuck"
proof (induction n arbitrary: i dev ino)
  case (Suc n)
  show ?case
  proof (cases "has ILOCK (inodes t i)")
    case True
    then have e: "r = ISleep" "t' = want i t" using Suc.prems(5) by simp_all
    have "has IMOUNT (inodes t' j) \<longleftrightarrow> has IMOUNT (inodes t j)" for j by (cases "j = i") (simp_all add: e want_def iupd_def flag_simps)
    then have "grows None t t'" by (intro grows_none) (auto simp: e want_def iupd_def)
    then show ?thesis using want_inv [OF I Suc.prems(1) True] by (simp add: e gotten_def)
  next
    case False
    show ?thesis
    proof (cases "has IMOUNT (inodes t i)")
      case True
      then obtain m0 where "m0 \<in> set (mounts t)" "m_inodp m0 = Some i" using m Suc.prems(1) by blast
      then obtain mm where f: "List.find (\<lambda>m. m_inodp m = Some i) (mounts t) = Some mm"
        by (cases "List.find (\<lambda>m. m_inodp m = Some i) (mounts t)") (auto simp: find_None_iff)
      then have mm: "mm \<in> set (mounts t)" "m_inodp mm = Some i" by (auto simp: find_Some_iff)
      then obtain j where j: "j < v_inode t" "m_mount mm = Some j" "i_count (inodes t j) \<noteq> 0" "rk j < rk i" "rk i \<le> length (mounts t)"
        using rk by blast
      have "iget_at n (Some j) (m_dev mm) ROOTINO t = (r, t')" using Suc.prems(5) False True f j(2) by simp
      moreover have "min (rk j) (length (mounts t)) < n" using Suc.prems(3) j(4,5) by simp
      ultimately show ?thesis using Suc.IH [OF j(1)] j(3-5) by auto
    next
      case nm: False
      then have e: "r = IGot i" "t' = itake i t" using Suc.prems(5) False by simp_all
      show ?thesis using itake_ok [OF I Suc.prems(1) False lo Suc.prems(2)] by (simp add: e)
    qed
  qed
qed simp

lemma iget_ok:
  assumes I: "iinv t" and lo: "low t" and m: "mounts_ok t" and e: "iget dev ino t = (r, t')"
  shows "gotten t r t' \<and> r \<noteq> IStuck"
proof -
  from I obtain L off F where C: "ichained t L off" "ilisted t F" "icore t off" by (rule iinvE)
  from m obtain rk :: "nat \<Rightarrow> nat" where M: "\<forall>i < v_inode t. has IMOUNT (inodes t i) \<longrightarrow> (\<exists>m \<in> set (mounts t). m_inodp m = Some i)"
      "\<forall>m \<in> set (mounts t). \<forall>i. m_inodp m = Some i \<longrightarrow>
        (\<exists>j < v_inode t. m_mount m = Some j \<and> i_count (inodes t j) \<noteq> 0 \<and> rk j < rk i) \<and> rk i \<le> length (mounts t)"
    unfolding mounts_ok_def by blast
  from ifind_ok [OF C(1), of dev ino] show ?thesis
  proof (elim disjE exE conjE)
    fix i assume i: "i < v_inode t" "ifind dev ino t = Some (Some (Itab i))"
    then have e': "iget_at (Suc (2 * length (mounts t))) (Some i) dev ino t = (r, t')" using e by (simp add: iget_def)
    show ?thesis by (rule iget_found [OF I lo M i(1) _ _ _ e']) (use M i in auto)
  next
    assume n: "ifind dev ino t = Some None"
    then have "inew dev ino t = (r, t')" using e by (simp add: iget_def)
    then show ?thesis using inew_ok [OF I n] by simp
  qed
qed

section \<open>Allocating an inode\<close>

lemma grows_refl: "v_inode t' = v_inode t \<Longrightarrow> mounts t' = mounts t \<Longrightarrow> inodes t' = inodes t \<Longrightarrow> grows None t t'"
  by (simp add: grows_def)

lemma grows_trans:
  assumes "grows None t t'" "grows r t' t''" shows "grows r t t''"
proof -
  have "same_ino (inodes t j) (inodes t'' j)" if "j < v_inode t" "i_count (inodes t j) \<noteq> 0" "i_mode (inodes t j) \<noteq> 0" for j
  proof -
    have a: "same_ino (inodes t j) (inodes t' j)" using assms(1) that by (simp add: grows_def)
    then have "i_mode (inodes t' j) \<noteq> 0" using that(3) by (simp add: same_ino_def)
    then have "same_ino (inodes t' j) (inodes t'' j)" using assms that by (simp add: grows_def)
    then show ?thesis by (rule same_ino_trans [OF a])
  qed
  then show ?thesis using assms by (simp add: grows_def)
qed

lemma low_grows: "low t \<Longrightarrow> grows None t t' \<Longrightarrow> low t'"
  by (simp add: low_def grows_def)

lemma mounts_ok_grows:
  assumes m: "mounts_ok t" and g: "grows None t t'" shows "mounts_ok t'"
proof -
  have v: "v_inode t' = v_inode t" "mounts t' = mounts t" "\<And>j. j < v_inode t \<Longrightarrow> i_count (inodes t' j) = i_count (inodes t j)"
    "\<And>j. j < v_inode t \<Longrightarrow> has IMOUNT (inodes t' j) \<Longrightarrow> has IMOUNT (inodes t j)" using g by (simp_all add: grows_def)
  from m obtain rk :: "nat \<Rightarrow> nat" where M: "\<forall>i < v_inode t. has IMOUNT (inodes t i) \<longrightarrow> (\<exists>m \<in> set (mounts t). m_inodp m = Some i)"
      "\<forall>m \<in> set (mounts t). \<forall>i. m_inodp m = Some i \<longrightarrow>
        (\<exists>j < v_inode t. m_mount m = Some j \<and> i_count (inodes t j) \<noteq> 0 \<and> rk j < rk i) \<and> rk i \<le> length (mounts t)"
    unfolding mounts_ok_def by blast
  show ?thesis unfolding mounts_ok_def v(1,2)
  proof (intro conjI exI [of _ rk])
    show "\<forall>i < v_inode t. has IMOUNT (inodes t' i) \<longrightarrow> (\<exists>m \<in> set (mounts t). m_inodp m = Some i)" using M(1) v(4) by blast
    show "\<forall>m \<in> set (mounts t). \<forall>i. m_inodp m = Some i \<longrightarrow>
        (\<exists>j < v_inode t. m_mount m = Some j \<and> i_count (inodes t' j) \<noteq> 0 \<and> rk j < rk i) \<and> rk i \<le> length (mounts t)"
      using M(2) v(3) by metis
  qed
qed

lemma iupdat_same:
  assumes "iupdat now ip f = (e, ip', f')" shows "same_ino ip ip'"
  using assms by (auto simp: iupdat_def Let_def same_ino_def split: if_splits)

lemma iupdat_tab_same: "same_ino (inodes t j) (inodes (iupdat_tab i t) j)"
proof -
  obtain e jp g where u: "iupdat (itime t) (inodes t i) (fss t (i_dev (inodes t i))) = (e, jp, g)" by (metis prod_cases3)
  show ?thesis using iupdat_same [OF u] by (simp add: iupdat_tab_def Let_def u with_fs_def iupd_def)
qed

lemma iupdat_tab_mode: "i_mode (inodes (iupdat_tab i t) i) = i_mode (inodes t i)"
  using iupdat_tab_same [of t i i] by (simp add: same_ino_def)

text \<open>An inode that turns out to be in use is given back.\<close>

lemma idiscard:
  assumes G: "gotten t (IGot i) t1"
  shows "iinv (iput i (iupdat_tab i t1))" "grows None t (iput i (iupdat_tab i t1))"
proof -
  let ?u = "iupdat_tab i t1"
  have g: "i < v_inode t" "i_count (inodes t1 i) \<noteq> 0" "iinv t1" "grows (Some i) t t1" using G by (simp_all add: gotten_def)
  note T = touches_iupdat [of i t1]
  have v: "v_inode t1 = v_inode t" "mounts t1 = mounts t" using g(4) by (simp_all add: grows_def)
  have U: "v_inode ?u = v_inode t" "mounts ?u = mounts t" "i_count (inodes ?u i) = i_count (inodes t1 i)" using T v by (simp_all add: touches_def)
  have "iinv ?u" by (rule touches_inv [OF g(3) _ g(2) T]) (simp add: v g(1))
  then show "iinv (iput i ?u)" by (rule iput_inv) (simp_all add: U g)
  from iput_effect [of i ?u] obtain ip where ip: "v_inode (iput i ?u) = v_inode t" "mounts (iput i ?u) = mounts t" "inodes (iput i ?u) = (inodes ?u)(i := ip)"
      "i_dev ip = i_dev (inodes ?u i)" "i_number ip = i_number (inodes ?u i)" "i_count ip = i_count (inodes ?u i) - 1"
      "i_count (inodes ?u i) \<noteq> 1 \<longrightarrow> same_ino (inodes ?u i) ip" "has IMOUNT ip \<longrightarrow> has IMOUNT (inodes ?u i)"
    using U by auto
  have o: "inodes (iput i ?u) j = inodes t1 j" if "j \<noteq> i" for j
    using that T unfolding ip(3) touches_def by (metis fun_upd_other)
  have mt: "has IMOUNT (inodes ?u i) \<longleftrightarrow> has IMOUNT (inodes t1 i)" using T by (simp add: touches_def has_bits)
  have id: "i_dev ip = i_dev (inodes t1 i)" "i_number ip = i_number (inodes t1 i)" "i_count ip = i_count (inodes t1 i) - 1"
    "i_count (inodes t1 i) \<noteq> 1 \<Longrightarrow> same_ino (inodes t1 i) ip" "has IMOUNT ip \<Longrightarrow> has IMOUNT (inodes t1 i)"
    using ip(4-8) T mt same_ino_trans [OF iupdat_tab_same] by (simp_all add: touches_def)
  show "grows None t (iput i ?u)" unfolding grows_def
  proof (intro conjI allI impI)
    fix j assume j: "j < v_inode t"
    show "i_count (inodes (iput i ?u) j) = i_count (inodes t j) + of_bool (None = Some j)"
      using g(4) j o [of j] id(3) by (cases "j = i") (simp_all add: grows_def ip(3))
    show "has IMOUNT (inodes (iput i ?u) j) \<Longrightarrow> has IMOUNT (inodes t j)"
      using g(4) j o [of j] id(5) by (cases "j = i") (simp_all add: grows_def ip(3))
    assume c: "i_count (inodes t j) \<noteq> 0"
    show "i_dev (inodes (iput i ?u) j) = i_dev (inodes t j)" "i_number (inodes (iput i ?u) j) = i_number (inodes t j)"
      using g(4) j c o [of j] id(1,2) by (cases "j = i"; simp add: grows_def ip(3))+
    assume m: "i_mode (inodes t j) \<noteq> 0"
    show "same_ino (inodes t j) (inodes (iput i ?u) j)"
      using g(4) j c m o [of j] id(4) same_ino_trans by (cases "j = i") (auto simp: grows_def ip(3))
  qed (simp_all add: ip)
qed

end
