(* ===== verification/Inode_Run.thy ===== *)
theory Inode_Run
  imports Inode_Steps
begin

text \<open>
  The inode table in use: allocation of inodes, the purge of a device and the initialisation keep the
  invariant, and so does every run of the routines of the table, interleaved in any order.
\<close>

section \<open>Allocation\<close>

lemma iclaim_ok:
  assumes G: "gotten t (IGot i) t1" and m: "i_mode (inodes t1 i) = 0"
  shows "gotten t (IGot i) (iclaim i dev mode nlink uid gid t1)"
proof -
  have g: "i < v_inode t" "i_count (inodes t1 i) \<noteq> 0" "has ILOCK (inodes t1 i)" "iinv t1" "grows (Some i) t t1" using G by (simp_all add: gotten_def)
  define g' :: "inode \<Rightarrow> inode" where "g' = (\<lambda>ip. ip\<lparr>i_mode := mode, i_nlink := nlink, i_flag := i_flag ip OR (IACC OR IUPD OR ICHG OR ISYN),
                 i_uid := uid, i_gid := gid, i_size := 0, i_addr := replicate NADDR 0\<rparr>)"
  have "touches marks i t1 (iupd i g' t1)" by (rule touches_iupd) (auto simp: g'_def flag_simps)
  moreover obtain f where c: "iclaim i dev mode nlink uid gid t1 = iupdat_tab i (with_fs dev f (iupd i g' t1))"
    unfolding iclaim_def g'_def Let_def by blast
  moreover have "touches marks i (iupd i g' t1) (with_fs dev f (iupd i g' t1))" by (simp add: touches_def with_fs_def)
  ultimately have T: "touches marks i t1 (iclaim i dev mode nlink uid gid t1)" using touches_iupdat touches_trans by metis
  let ?t = "iclaim i dev mode nlink uid gid t1"
  have o: "inodes ?t j = inodes t1 j" if "j \<noteq> i" for j using that T unfolding touches_def by (metis fun_upd_other)
  have v: "v_inode t1 = v_inode t" using g(5) by (simp add: grows_def)
  have "iinv ?t" by (rule touches_inv [OF g(4) _ g(2) T]) (simp add: v g(1))
  moreover have "has ILOCK (inodes ?t i)" "i_count (inodes ?t i) = i_count (inodes t1 i)" using T g(3) by (simp_all add: touches_def has_bits)
  moreover have "grows (Some i) t ?t" unfolding grows_def
  proof (intro conjI allI impI)
    show "v_inode ?t = v_inode t" "mounts ?t = mounts t" using T g(5) by (simp_all add: touches_def grows_def)
    fix j assume j: "j < v_inode t"
    show "i_count (inodes ?t j) = i_count (inodes t j) + of_bool (Some i = Some j)"
      using T g(5) j o [of j] by (cases "j = i") (simp_all add: grows_def touches_def)
    have mt: "has IMOUNT (inodes ?t i) \<longleftrightarrow> has IMOUNT (inodes t1 i)" using T by (simp add: touches_def has_bits)
    show "has IMOUNT (inodes ?t j) \<Longrightarrow> has IMOUNT (inodes t j)"
      using mt g(5) j o [of j] by (cases "j = i") (simp_all add: grows_def)
    assume c: "i_count (inodes t j) \<noteq> 0"
    show "i_dev (inodes ?t j) = i_dev (inodes t j)" "i_number (inodes ?t j) = i_number (inodes t j)"
      using T g(5) j c o [of j] by (cases "j = i"; simp add: grows_def touches_def)+
    assume z: "i_mode (inodes t j) \<noteq> 0"
    show "same_ino (inodes t j) (inodes ?t j)"
    proof (cases "j = i")
      case True
      then have "i_mode (inodes t1 i) = i_mode (inodes t i)" using g(5) j c z by (simp add: grows_def same_ino_def)
      then show ?thesis using m z True by simp
    next
      case False
      then show ?thesis using g(5) j c z o [of j] by (simp add: grows_def)
    qed
  qed
  ultimately show ?thesis using g(1,2) by (simp add: gotten_def)
qed

lemma iclaim_names:
  "i_dev (inodes (iclaim i dev mode nlink uid gid t) i) = i_dev (inodes t i)"
  "i_number (inodes (iclaim i dev mode nlink uid gid t) i) = i_number (inodes t i)"
  using touches_iupdat unfolding iclaim_def Let_def touches_def by (simp_all add: with_fs_def iupd_def)

definition allotted :: "itab \<Rightarrow> nat ires \<Rightarrow> itab \<Rightarrow> bool" where
  "allotted t r t' \<longleftrightarrow> gotten t r t' \<and> r \<noteq> IStuck \<and> (\<forall>i. r = IGot i \<longrightarrow> i_count (inodes t i) \<noteq> 0 \<longrightarrow> i_mode (inodes t i) = 0)"

lemma gotten_trans: "grows None t t1 \<Longrightarrow> gotten t1 r t' \<Longrightarrow> gotten t r t'"
proof -
  assume g: "grows None t t1" and G: "gotten t1 r t'"
  have v: "v_inode t1 = v_inode t" using g by (simp add: grows_def)
  show ?thesis using G grows_trans [OF g] unfolding gotten_def v by (simp split: ires.splits)
qed

lemma allotted_trans:
  assumes g: "grows None t t1" and A: "allotted t1 r t'" shows "allotted t r t'"
proof -
  have "i_mode (inodes t i) = 0" if "r = IGot i" "i_count (inodes t i) \<noteq> 0" for i
  proof -
    have "i < v_inode t" using A that(1) g by (simp add: allotted_def gotten_def grows_def)
    then have c: "i_count (inodes t1 i) \<noteq> 0" "i_mode (inodes t i) \<noteq> 0 \<longrightarrow> i_mode (inodes t1 i) = i_mode (inodes t i)"
      using g that(2) by (simp_all add: grows_def same_ino_def)
    then have "i_mode (inodes t1 i) = 0" using A that(1) by (simp add: allotted_def)
    then show ?thesis using c(2) by auto
  qed
  then show ?thesis using A gotten_trans [OF g] by (simp add: allotted_def)
qed

lemma ialloc_loop_ok:
  assumes "ialloc_loop dev mode nlink uid gid t = Some y"
  shows "iinv t \<longrightarrow> low t \<longrightarrow> mounts_ok t \<longrightarrow> allotted t (fst y) (snd y)"
proof (rule ialloc_loop.raw_induct [OF _ assms], intro impI, goal_cases)
  case (1 loop dev mode nlink uid gid t y)
  note IH = 1(1) [rule_format] and I = 1(3) and lo = 1(4) and mo = 1(5)
  obtain r t' where y: "y = (r, t')" by fastforce
  define fp where "fp = sb (fss t dev)"
  define ino where "ino = (if 0 <s s_ninode fp then s_inode fp ! unat (s_ninode fp - 1) else 0)"
  define t0 where "t0 = (if 0 <s s_ninode fp then with_fs dev ((fss t dev)\<lparr>sb := fp\<lparr>s_ninode := s_ninode fp - 1\<rparr>\<rparr>) t else t)"
  note e = 1(2) [unfolded y Let_def, folded fp_def, folded ino_def, folded t0_def]
  have g0: "grows None t t0" "iinv t0" using I by (auto simp: t0_def with_fs_def intro!: grows_refl)
  have c0: "low t0" "mounts_ok t0" using low_grows [OF lo g0(1)] mounts_ok_grows [OF mo g0(1)] by simp_all
  have again: "allotted t r t'" if "loop dev mode nlink uid gid s = Some (r, t')" "grows None t s" "iinv s" for s
    using allotted_trans [OF that(2) IH [OF that(1) that(3) low_grows [OF lo that(2)] mounts_ok_grows [OF mo that(2)]]] by (simp add: y)
  have "allotted t r t'"
  proof (cases "s_ilock fp \<noteq> 0")
    case True
    then have "r = ISleep" "t' = t" using e by simp_all
    then show ?thesis using I by (simp add: allotted_def gotten_def grows_refl)
  next
    case nl: False
    show ?thesis
    proof (cases "ino \<noteq> 0")
      case True
      obtain q s where q: "iget dev ino t0 = (q, s)" by fastforce
      have e': "(case (q, s) of (IGot i, t) \<Rightarrow>
           if i_mode (inodes t i) = 0 then Some (IGot i, iclaim i dev mode nlink uid gid t)
           else loop dev mode nlink uid gid (iput i (iupdat_tab i t)) | r \<Rightarrow> Some r) = Some (r, t')"
        using e nl True unfolding q [symmetric] by simp
      have G: "gotten t0 q s" "q \<noteq> IStuck" using iget_ok [OF g0(2) c0 q] by simp_all
      show ?thesis
      proof (cases q)
        case (IGot i)
        note G' = G(1) [unfolded IGot]
        show ?thesis
        proof (cases "i_mode (inodes s i) = 0")
          case True
          then have "r = IGot i" "t' = iclaim i dev mode nlink uid gid s" using e' IGot by simp_all
          moreover have "i_mode (inodes t0 i) = 0" if "i_count (inodes t0 i) \<noteq> 0"
            using G' that True by (auto simp: gotten_def grows_def same_ino_def)
          ultimately have "allotted t0 r t'" using iclaim_ok [OF G' True] by (simp add: allotted_def)
          then show ?thesis by (rule allotted_trans [OF g0(1)])
        next
          case False
          then have "loop dev mode nlink uid gid (iput i (iupdat_tab i s)) = Some (r, t')" using e' IGot by simp
          then show ?thesis by (rule again) (use idiscard [OF G'] grows_trans [OF g0(1)] in blast)+
        qed
      qed (use e' G allotted_trans [OF g0(1)] in \<open>auto simp: allotted_def\<close>)
    next
      case False
      obtain er fq where rf: "refill (fss t0 dev) (ierror t0) = (er, fq)" by fastforce
      define t1 where "t1 = (with_fs dev ((fss t0 dev)\<lparr>sb := fq\<rparr>) t0)\<lparr>ierror := er\<rparr>"
      have g1: "grows None t0 (with_fs dev f t1)" "iinv (with_fs dev f t1)" for f using g0(2) by (auto simp: t1_def with_fs_def intro!: grows_refl)
      have e': "(if s_ninode fq \<noteq> of_nat NICINOD
          then loop dev mode nlink uid gid (with_fs dev ((fss t1 dev)\<lparr>sb := fq\<lparr>s_ninode := of_nat NICINOD\<rparr>\<rparr>) t1)
          else Some (IFail, (with_fs dev ((fss t1 dev)\<lparr>sb := fq\<lparr>s_ninode := 0, s_tinode := 0\<rparr>\<rparr>) t1)\<lparr>ierror := Some ENOSPC\<rparr>)) = Some (r, t')"
        using e nl False unfolding t1_def by (simp add: rf)
      show ?thesis
      proof (cases "s_ninode fq \<noteq> of_nat NICINOD")
        case True
        then show ?thesis using e' by (intro again [OF _ grows_trans [OF g0(1) g1(1)] g1(2)]) simp
      next
        case False
        then have "r = IFail" "t' = (with_fs dev ((fss t1 dev)\<lparr>sb := fq\<lparr>s_ninode := 0, s_tinode := 0\<rparr>\<rparr>) t1)\<lparr>ierror := Some ENOSPC\<rparr>"
          using e' by simp_all
        then have "gotten t0 r t'" using g1 by (auto simp: gotten_def grows_def)
        then show ?thesis using allotted_trans [OF g0(1)] \<open>r = IFail\<close> by (simp add: allotted_def)
      qed
    qed
  qed
  then show ?case by (simp add: y)
qed

lemma ialloc_ok:
  assumes "iinv t" "low t" "mounts_ok t" "ialloc dev mode nlink uid gid t = Some (r, t')"
  shows "allotted t r t'"
proof -
  let ?t = "with_fs dev (getfs (fss t dev)) t"
  have g: "grows None t ?t" by (rule grows_refl) (simp_all add: with_fs_def)
  have "allotted ?t r t'"
    by (rule ialloc_loop_ok [where y = "(r, t')", simplified, rule_format]) (use assms low_grows [OF _ g] mounts_ok_grows [OF _ g] in \<open>simp_all add: ialloc_def\<close>)
  then show ?thesis by (rule allotted_trans [OF g])
qed

section \<open>Purging a device\<close>

lemma iflush_from_ok:
  "ichained t L off \<Longrightarrow> icore t off \<Longrightarrow> ilisted t F \<Longrightarrow> n \<le> v_inode t \<Longrightarrow> iflush_from n dev t = (ok, t') \<Longrightarrow>
   \<exists>L' off'. ichained t' L' off' \<and> icore t' off' \<and> ilisted t' F \<and> inodes t' = inodes t \<and> v_inode t' = v_inode t \<and> mounts t' = mounts t \<and> off \<subseteq> off' \<and>
     (ok \<longrightarrow> (\<forall>i < v_inode t. v_inode t - n \<le> i \<longrightarrow> i_dev (inodes t i) = dev \<longrightarrow> i \<in> off')) \<and>
     (ok \<longleftrightarrow> (\<forall>i < v_inode t. v_inode t - n \<le> i \<longrightarrow> i_dev (inodes t i) = dev \<longrightarrow> i_count (inodes t i) = 0))"
proof (induction n arbitrary: t L off)
  case 0
  then show ?case by (intro exI [of _ L] exI [of _ off]) auto
next
  case (Suc n)
  let ?i = "v_inode t - Suc n"
  have i: "?i < v_inode t" using Suc.prems(4) by simp
  have c: "v_inode t - Suc n \<le> j \<longleftrightarrow> j = ?i \<or> v_inode t - n \<le> j" for j using Suc.prems(4) by auto
  show ?case
  proof (cases "i_dev (inodes t ?i) = dev")
    case False
    then have "iflush_from n dev t = (ok, t')" using Suc.prems(5) by (simp add: Let_def)
    from Suc.IH [OF Suc.prems(1-3) _ this] show ?thesis using Suc.prems(4) False unfolding c by (metis Suc_leD)
  next
    case d: True
    show ?thesis
    proof (cases "i_count (inodes t ?i) = 0")
      case False
      then have "\<not> ok" "t' = t" using Suc.prems(5) d by (simp_all add: Let_def)
      then show ?thesis using Suc.prems(1-3) False d i by (intro exI [of _ L] exI [of _ off]) auto
    next
      case True
      let ?f = "(i_forw t)(i_back t (Itab ?i) := i_forw t (Itab ?i))"
      let ?b = "(i_back t)(?f (Itab ?i) := i_back t (Itab ?i))"
      let ?s = "t\<lparr>i_forw := ?f(Itab ?i := Itab ?i), i_back := ?b(Itab ?i := Itab ?i)\<rparr>"
      have e: "iflush_from n dev ?s = (ok, t')" using Suc.prems(5) d True by (simp add: Let_def)
      have fi: "?f (Itab ?i) = i_forw t (Itab ?i)" by simp
      have "\<exists>L'. ichained ?s L' (insert ?i off)" by (rule ichained_purge [OF Suc.prems(1) i]) (use fi in \<open>simp_all del: fun_upd_apply\<close>)
      then obtain M where M: "ichained ?s M (insert ?i off)" ..
      have "icore ?s (insert ?i off)" using Suc.prems(2) True unfolding icore_def by auto
      moreover have "ilisted ?s F" using Suc.prems(3) by (simp add: ilisted_def)
      ultimately obtain L' off' where R: "ichained t' L' off'" "icore t' off'" "ilisted t' F" "inodes t' = inodes t" "v_inode t' = v_inode t" "mounts t' = mounts t"
          "insert ?i off \<subseteq> off'" "ok \<longrightarrow> (\<forall>i < v_inode t. v_inode t - n \<le> i \<longrightarrow> i_dev (inodes t i) = dev \<longrightarrow> i \<in> off')"
          "ok \<longleftrightarrow> (\<forall>i < v_inode t. v_inode t - n \<le> i \<longrightarrow> i_dev (inodes t i) = dev \<longrightarrow> i_count (inodes t i) = 0)"
        using Suc.IH [OF M _ _ _ e] Suc.prems(4) by auto
      show ?thesis
        by (intro exI [of _ L'] exI [of _ off']) (use R(1-8) True in \<open>auto simp: c R(9)\<close>)
    qed
  qed
qed

lemma iflush_ok:
  assumes I: "iinv t" and e: "iflush dev t = (ok, t')"
  shows "iinv t'" "inodes t' = inodes t" "v_inode t' = v_inode t" "mounts t' = mounts t"
    "ok \<longleftrightarrow> (\<forall>i < v_inode t. i_dev (inodes t i) = dev \<longrightarrow> i_count (inodes t i) = 0)" "ok \<Longrightarrow> ifind dev ino t' = Some None"
proof -
  from I obtain L off F where C: "ichained t L off" "ilisted t F" "icore t off" by (rule iinvE)
  from iflush_from_ok [OF C(1,3,2) order_refl e [unfolded iflush_def]] obtain L' off' where
    R: "ichained t' L' off'" "icore t' off'" "ilisted t' F" "inodes t' = inodes t" "v_inode t' = v_inode t" "mounts t' = mounts t"
      "ok \<longrightarrow> (\<forall>i < v_inode t. i_dev (inodes t i) = dev \<longrightarrow> i \<in> off')"
      "ok \<longleftrightarrow> (\<forall>i < v_inode t. i_dev (inodes t i) = dev \<longrightarrow> i_count (inodes t i) = 0)" by auto
  show "iinv t'" "inodes t' = inodes t" "v_inode t' = v_inode t" "mounts t' = mounts t"
    "ok \<longleftrightarrow> (\<forall>i < v_inode t. i_dev (inodes t i) = dev \<longrightarrow> i_count (inodes t i) = 0)"
    using R by (auto intro: iinvI)
  show "ifind dev ino t' = Some None" if ok
    using ifind_ok [OF R(1), of dev ino] R(4,5,7) that by auto
qed

section \<open>Initialisation\<close>

lemma inoinit_heads:
  "let t' = fold inoinit_head [0..<m] t in
     i_forw t' = (\<lambda>p. if p \<in> Ihead ` {..<m} then p else i_forw t p) \<and> i_back t' = (\<lambda>p. if p \<in> Ihead ` {..<m} then p else i_back t p) \<and>
     iav_forw t' = iav_forw t \<and> iav_back t' = iav_back t \<and> v_inode t' = v_inode t \<and> inodes t' = inodes t \<and> mounts t' = mounts t \<and> isleepers t' = isleepers t"
proof (induction m)
  case (Suc m)
  then show ?case by (auto simp: Let_def inoinit_head_def fun_eq_iff lessThan_Suc)
qed simp

lemma inoinit_all:
  assumes "ring (iav_forw t) (iav_back t) Ifree []"
  shows "let t' = fold inoinit_one [0..<n] t in
     i_forw t' = (\<lambda>p. if p \<in> Itab ` {..<n} then p else i_forw t p) \<and> i_back t' = (\<lambda>p. if p \<in> Itab ` {..<n} then p else i_back t p) \<and>
     ring (iav_forw t') (iav_back t') Ifree (map Itab (rev [0..<n])) \<and>
     v_inode t' = v_inode t \<and> inodes t' = inodes t \<and> mounts t' = mounts t \<and> isleepers t' = isleepers t"
proof (induction n)
  case (Suc n)
  let ?s = "fold inoinit_one [0..<n] t"
  have R: "ring (iav_forw ?s) (iav_back ?s) Ifree (map Itab (rev [0..<n]))" using Suc by (simp add: Let_def)
  have n: "Itab n \<notin> set (Ifree # map Itab (rev [0..<n]))" by auto
  have "ring (iav_forw (inoinit_one n ?s)) (iav_back (inoinit_one n ?s)) Ifree (Itab n # map Itab (rev [0..<n]))"
    using ring_front [OF R n] by (simp add: inoinit_one_def Let_def fun_upd_twist)
  moreover have "i_forw (inoinit_one n ?s) = (i_forw ?s)(Itab n := Itab n)" "i_back (inoinit_one n ?s) = (i_back ?s)(Itab n := Itab n)"
    "v_inode (inoinit_one n ?s) = v_inode ?s" "inodes (inoinit_one n ?s) = inodes ?s" "mounts (inoinit_one n ?s) = mounts ?s"
    "isleepers (inoinit_one n ?s) = isleepers ?s"
    by (simp_all add: inoinit_one_def Let_def)
  moreover have "fold inoinit_one [0..<Suc n] t = inoinit_one n ?s" by simp
  moreover have "((\<lambda>p. if p \<in> Itab ` {..<n} then p else q p)(Itab n := Itab n)) = (\<lambda>p. if p \<in> Itab ` {..<Suc n} then p else q p)" for q
    by (auto simp: fun_eq_iff lessThan_Suc)
  ultimately show ?case using Suc unfolding Let_def by simp
qed (use assms in simp)

lemma inoinit_inv:
  assumes t: "\<forall>i < v_inode t. i_count (inodes t i) = 0 \<and> i_flag (inodes t i) = 0" "isleepers t = []"
  shows "iinv (inoinit t)" "inodes (inoinit t) = inodes t" "v_inode (inoinit t) = v_inode t" "mounts (inoinit t) = mounts t"
proof -
  let ?a = "t\<lparr>iav_forw := (iav_forw t)(Ifree := Ifree), iav_back := (iav_back t)(Ifree := Ifree)\<rparr>"
  let ?b = "fold inoinit_head [0..<NHINO] ?a" let ?t = "inoinit t"
  have F: "i_forw ?a = i_forw t" "i_back ?a = i_back t" "iav_forw ?a = (iav_forw t)(Ifree := Ifree)" "iav_back ?a = (iav_back t)(Ifree := Ifree)"
    "v_inode ?a = v_inode t" "inodes ?a = inodes t" "mounts ?a = mounts t" "isleepers ?a = isleepers t" by simp_all
  have A: "i_forw ?b = (\<lambda>p. if p \<in> Ihead ` {..<NHINO} then p else i_forw t p)" "i_back ?b = (\<lambda>p. if p \<in> Ihead ` {..<NHINO} then p else i_back t p)"
    "iav_forw ?b = (iav_forw t)(Ifree := Ifree)" "iav_back ?b = (iav_back t)(Ifree := Ifree)" "v_inode ?b = v_inode t" "inodes ?b = inodes t"
    "mounts ?b = mounts t" "isleepers ?b = isleepers t"
    using inoinit_heads [of NHINO ?a] unfolding Let_def F by blast+
  have e: "?t = fold inoinit_one [0..<v_inode t] ?b" unfolding inoinit_def Let_def A(5) ..
  have "ring (iav_forw ?b) (iav_back ?b) Ifree []" by (simp add: A ring_def)
  from inoinit_all [OF this, of "v_inode t"]
  have B: "i_forw ?t = (\<lambda>p. if p \<in> Itab ` {..<v_inode t} then p else i_forw ?b p)" "i_back ?t = (\<lambda>p. if p \<in> Itab ` {..<v_inode t} then p else i_back ?b p)"
     "ring (iav_forw ?t) (iav_back ?t) Ifree (map Itab (rev [0..<v_inode t]))" "isleepers ?t = []"
     "v_inode ?t = v_inode t" "inodes ?t = inodes t" "mounts ?t = mounts t"
    unfolding e Let_def A(5-8) t(2) by blast+
  have s: "i_forw ?t p = p" "i_back ?t p = p" if "p \<in> Ihead ` {..<NHINO} \<union> Itab ` {..<v_inode t}" for p
    using that by (auto simp: B(1,2) A(1,2))
  have "rings (i_forw ?t) (i_back ?t) (Ihead ` {..<NHINO} \<union> Itab ` {..<v_inode t}) (\<lambda>_. [])"
    unfolding rings_def using s by (auto simp: ring_def)
  then have "ichained ?t (\<lambda>_. []) {..<v_inode t}" by (simp add: ichained_def B(5))
  moreover have "ilisted ?t (rev [0..<v_inode t])" using B(3) t(1) by (auto simp: ilisted_def B(5,6))
  moreover have "icore ?t {..<v_inode t}" using t(1) by (auto simp: icore_def B(4-6))
  ultimately show "iinv ?t" by (rule iinvI)
  show "inodes ?t = inodes t" "v_inode ?t = v_inode t" "mounts ?t = mounts t" by (fact B)+
qed

end
