(* ===== verification/Inode_Numbers.thy ===== *)
theory Inode_Numbers
  imports Inode_Run
begin

text \<open>
  The numbers that \<open>ialloc\<close> hands out. What the kernel knows of a file, its mode and its links, stands in the table
  when an inode of the table has its number and on the disk when none has. The search of \<open>ialloc\<close> changes this of
  no file, whatever inodes it brings into the table, writes back and gives up.
\<close>

section \<open>An inode on the disk\<close>

lemma and_mask_15: "unat (x AND 15 :: u16) = unat x mod 16"
proof -
  have "x AND 15 = take_bit 4 x" by (simp add: take_bit_eq_mask mask_eq_exp_minus_1)
  then show ?thesis by (simp add: unsigned_take_bit_eq take_bit_eq_mod unat_mod)
qed

lemma rd16_wr24: "j + 1 < k \<or> k + 2 < j \<Longrightarrow> rd16 (wr24 b k x) j = rd16 b j"
  by (auto simp: rd16_def wr24_def)

lemma rd16_put_addrs: "j + 1 < k \<or> k + 3 * length xs \<le> j \<Longrightarrow> rd16 (put_addrs b k xs) j = rd16 b j"
  by (induction xs arbitrary: b k) (auto simp: rd16_wr24)

lemma put_dinode_reads:
  "rd16 (put_dinode now ip b n) n = i_mode ip" "rd16 (put_dinode now ip b n) (n + 2) = i_nlink ip"
  "length (i_addr ip) = NADDR \<Longrightarrow> j + 1 < n \<or> n + 64 \<le> j \<Longrightarrow> rd16 (put_dinode now ip b n) j = rd16 b j"
  by (auto simp: put_dinode_def Let_def rd16_wr32 rd16_put_addrs rd16_wr16 rd16_other)

lemma itod_itoo_inj:
  assumes "itod m = itod n" "itoo m = itoo n" shows "m = n"
proof -
  have u: "unat (ucast x :: u32) = unat x" for x :: u16
    using u16_lt [of x] by (simp add: unsigned_ucast_eq take_bit_nat_eq_self)
  have "unat (m + 31) div 16 = unat (n + 31) div 16"
    using arg_cong [OF assms(1), of unat] by (simp add: itod_def u drop_bit_eq_div unat_div)
  moreover have "unat (m + 31) mod 16 = unat (n + 31) mod 16"
    using assms(2) and_mask_15 by (simp add: itoo_def)
  ultimately have "unat (m + 31) = unat (n + 31)" by (metis div_mult_mod_eq)
  then have "m + 31 = n + 31" by (simp only: word_unat_eq_iff)
  then show ?thesis by simp
qed

text \<open>The mode and the links of a file on the disk.\<close>

definition disk_file :: "fs \<Rightarrow> u16 \<Rightarrow> u16 \<times> u16" where
  "disk_file f n = (rd16 (disk f (itod n)) (64 * itoo n), rd16 (disk f (itod n)) (64 * itoo n + 2))"

lemma disk_file_put:
  assumes "length (i_addr ip) = NADDR"
  shows "disk_file (f\<lparr>disk := (disk f)(itod m := put_dinode now ip (disk f (itod m)) (64 * itoo m))\<rparr>) n =
    (if n = m then (i_mode ip, i_nlink ip) else disk_file f n)"
proof (cases "itod n = itod m \<and> n \<noteq> m")
  case True
  then have "itoo n \<noteq> itoo m" using itod_itoo_inj by blast
  then have "64 * itoo n + 3 < 64 * itoo m \<or> 64 * itoo m + 64 \<le> 64 * itoo n" by linarith
  then have "rd16 (put_dinode now ip b (64 * itoo m)) (64 * itoo n) = rd16 b (64 * itoo n)"
    "rd16 (put_dinode now ip b (64 * itoo m)) (64 * itoo n + 2) = rd16 b (64 * itoo n + 2)" for b
    by (intro put_dinode_reads(3) [OF assms]; linarith)+
  then show ?thesis using True by (simp add: disk_file_def)
qed (auto simp: disk_file_def put_dinode_reads simp del: add_2_eq_Suc')

lemma disk_file_iupdat:
  assumes "iupdat now ip f = (e, ip', g)" "length (i_addr ip) = NADDR"
  shows "disk_file g n = disk_file f n \<or> n = i_number ip \<and> disk_file g n = (i_mode ip, i_nlink ip)"
proof -
  have d: "disk_file (getfs f) n = disk_file f n" by (simp add: getfs_def disk_file_def)
  show ?thesis using assms(1) disk_file_put [OF assms(2), of "getfs f" "i_number ip" now n] d
    by (auto simp: iupdat_def Let_def split: if_splits)
qed

section \<open>A file as the kernel knows it\<close>

definition the_file :: "itab \<Rightarrow> u16 \<Rightarrow> u16 \<Rightarrow> u16 \<times> u16" where
  "the_file t dev ino = (case ifind dev ino t of
     Some (Some (Itab i)) \<Rightarrow> (i_mode (inodes t i), i_nlink (inodes t i)) | _ \<Rightarrow> disk_file (fss t dev) ino)"

text \<open>The copies in the table that nobody refers to are those of the disk, as are those of the inodes in \<open>S\<close>.\<close>

definition known :: "itab \<Rightarrow> nat \<Rightarrow> bool" where
  "known t i \<longleftrightarrow> ifind (i_dev (inodes t i)) (i_number (inodes t i)) t = Some (Some (Itab i))"

definition synced :: "nat set \<Rightarrow> itab \<Rightarrow> bool" where
  "synced S t \<longleftrightarrow> (\<forall>i < v_inode t. length (i_addr (inodes t i)) = NADDR \<and>
     (known t i \<longrightarrow> i_count (inodes t i) = 0 \<or> i \<in> S \<longrightarrow>
        disk_file (fss t (i_dev (inodes t i))) (i_number (inodes t i)) = (i_mode (inodes t i), i_nlink (inodes t i))))"

lemma ifind_cong:
  assumes "i_forw t' = i_forw t" "v_inode t' = v_inode t"
    "\<And>i. i_dev (inodes t' i) = i_dev (inodes t i) \<and> i_number (inodes t' i) = i_number (inodes t i)"
  shows "ifind dev ino t' = ifind dev ino t"
proof -
  have "is_inode t' dev ino = is_inode t dev ino" by (simp add: is_inode_def assms(3) fun_eq_iff split: inod.split)
  then show ?thesis by (simp add: ifind_def assms(1,2))
qed

lemma ifind_cases:
  assumes "iinv t" obtains "ifind dev ino t = Some None"
    | i where "i < v_inode t" "ifind dev ino t = Some (Some (Itab i))" "i_dev (inodes t i) = dev" "i_number (inodes t i) = ino" "known t i"
proof -
  from assms obtain L off F where "ichained t L off" "ilisted t F" "icore t off" by (rule iinvE)
  from ifind_ok [OF this(1), of dev ino] show ?thesis using that by (auto simp: known_def)
qed

lemma ifind_iff:
  assumes "ichained t L off" "icore t off"
  shows "ifind dev ino t = Some (Some (Itab i)) \<longleftrightarrow> i < v_inode t \<and> i \<notin> off \<and> i_dev (inodes t i) = dev \<and> i_number (inodes t i) = ino"
proof
  assume r: "i < v_inode t \<and> i \<notin> off \<and> i_dev (inodes t i) = dev \<and> i_number (inodes t i) = ino"
  from ifind_ok [OF assms(1), of dev ino] show "ifind dev ino t = Some (Some (Itab i))"
    using r assms(2) unfolding icore_def by metis
qed (use ifound [OF assms(1)] in blast)

text \<open>Steps that change only marks, counts and the list of free inodes of the table.\<close>

definition quiet_step :: "itab \<Rightarrow> itab \<Rightarrow> bool" where
  "quiet_step t t' \<longleftrightarrow> i_forw t' = i_forw t \<and> v_inode t' = v_inode t \<and> (\<forall>i. same_ino (inodes t i) (inodes t' i)) \<and>
     (\<forall>d n. disk_file (fss t' d) n = disk_file (fss t d) n)"

lemma quiet_trans: "quiet_step t u \<Longrightarrow> quiet_step u v \<Longrightarrow> quiet_step t v"
  unfolding quiet_step_def using same_ino_trans [of "inodes t i" "inodes u i" "inodes v i" for i] by auto

lemma quiet_files:
  assumes "quiet_step t t'" shows "the_file t' dev ino = the_file t dev ino" "ifind dev ino t' = ifind dev ino t" "known t' i = known t i"
proof -
  have f: "ifind dev ino t' = ifind dev ino t" for dev ino
    by (rule ifind_cong) (use assms in \<open>simp_all add: quiet_step_def same_ino_def\<close>)
  then show "ifind dev ino t' = ifind dev ino t" "known t' i = known t i" using assms by (simp_all add: known_def quiet_step_def same_ino_def)
  show "the_file t' dev ino = the_file t dev ino"
    unfolding the_file_def f using assms by (auto simp: quiet_step_def same_ino_def split: option.split inod.split)
qed

lemma quiet_synced:
  assumes "quiet_step t t'" "synced S t"
    and "\<And>i. i < v_inode t \<Longrightarrow> i_count (inodes t' i) = 0 \<or> i \<in> S' \<Longrightarrow> i_count (inodes t i) = 0 \<or> i \<in> S \<or> \<not> known t i"
  shows "synced S' t'"
  unfolding synced_def
proof (intro allI impI)
  fix i assume "i < v_inode t'"
  then have i: "i < v_inode t" using assms(1) by (simp add: quiet_step_def)
  have s: "i_dev (inodes t' i) = i_dev (inodes t i)" "i_number (inodes t' i) = i_number (inodes t i)" "i_mode (inodes t' i) = i_mode (inodes t i)"
    "i_nlink (inodes t' i) = i_nlink (inodes t i)" "i_addr (inodes t' i) = i_addr (inodes t i)" "disk_file (fss t' d) n = disk_file (fss t d) n" for d n
    using assms(1) by (simp_all add: quiet_step_def same_ino_def)
  show "length (i_addr (inodes t' i)) = NADDR \<and> (known t' i \<longrightarrow> i_count (inodes t' i) = 0 \<or> i \<in> S' \<longrightarrow>
        disk_file (fss t' (i_dev (inodes t' i))) (i_number (inodes t' i)) = (i_mode (inodes t' i), i_nlink (inodes t' i)))"
    unfolding s quiet_files(3) [OF assms(1)] using assms(2) assms(3) [OF i] i unfolding synced_def by blast
qed

lemma quiet_super: "disk f = disk (fss t dev) \<Longrightarrow> quiet_step t (with_fs dev f t)" "quiet_step t (t\<lparr>ierror := e\<rparr>)"
  by (auto simp: quiet_step_def with_fs_def disk_file_def)

text \<open>Writing an inode back.\<close>

lemma iupdat_tab_fields: "v_inode (iupdat_tab i t) = v_inode t" "i_forw (iupdat_tab i t) = i_forw t"
    "i_count (inodes (iupdat_tab i t) j) = i_count (inodes t j)"
  using touches_iupdat [of i t] by (cases "j = i"; simp add: touches_def; metis fun_upd_other)+

lemma iupdat_tab_disk:
  assumes "length (i_addr (inodes t i)) = NADDR"
  shows "disk_file (fss (iupdat_tab i t) d) n = disk_file (fss t d) n \<or>
    d = i_dev (inodes t i) \<and> n = i_number (inodes t i) \<and> disk_file (fss (iupdat_tab i t) d) n = (i_mode (inodes t i), i_nlink (inodes t i))"
proof -
  obtain e jp g where u: "iupdat (itime t) (inodes t i) (fss t (i_dev (inodes t i))) = (e, jp, g)" by (metis prod_cases3)
  show ?thesis using disk_file_iupdat [OF u assms, of n] by (auto simp: iupdat_tab_def Let_def u with_fs_def iupd_def)
qed

lemma iupdat_tab_files:
  assumes "synced S t" "i < v_inode t" "known t i" "iinv t"
  shows "the_file (iupdat_tab i t) dev ino = the_file t dev ino" "synced S (iupdat_tab i t)" "known (iupdat_tab i t) j = known t j"
proof -
  let ?u = "iupdat_tab i t"
  have len: "length (i_addr (inodes t i)) = NADDR" using assms(1,2) by (simp add: synced_def)
  have s: "i_dev (inodes ?u j) = i_dev (inodes t j)" "i_number (inodes ?u j) = i_number (inodes t j)" "i_mode (inodes ?u j) = i_mode (inodes t j)"
    "i_nlink (inodes ?u j) = i_nlink (inodes t j)" "i_addr (inodes ?u j) = i_addr (inodes t j)" for j
    using iupdat_tab_same [of t j i] by (simp_all add: same_ino_def)
  have f: "ifind dev ino ?u = ifind dev ino t" for dev ino by (rule ifind_cong) (simp_all add: iupdat_tab_fields s)
  have k: "known ?u j = known t j" for j by (simp add: known_def f s)
  then show "known ?u j = known t j" .
  have other: "disk_file (fss ?u d) n = disk_file (fss t d) n" if "ifind d n t \<noteq> Some (Some (Itab i))" for d n
    using iupdat_tab_disk [OF len, of d n] assms(3) that by (auto simp: known_def)
  show "the_file ?u dev ino = the_file t dev ino"
    by (cases rule: ifind_cases [OF assms(4), of dev ino]) (simp_all add: the_file_def f s other)
  show "synced S ?u" unfolding synced_def iupdat_tab_fields k s
  proof (intro allI impI conjI)
    fix j assume j: "j < v_inode t"
    show "length (i_addr (inodes t j)) = NADDR" using assms(1) j by (simp add: synced_def)
    assume kj: "known t j" and c: "i_count (inodes t j) = 0 \<or> j \<in> S"
    then have d: "disk_file (fss t (i_dev (inodes t j))) (i_number (inodes t j)) = (i_mode (inodes t j), i_nlink (inodes t j))"
      using assms(1) j unfolding synced_def by blast
    show "disk_file (fss ?u (i_dev (inodes t j))) (i_number (inodes t j)) = (i_mode (inodes t j), i_nlink (inodes t j))"
    proof (cases "j = i")
      case True
      then show ?thesis using iupdat_tab_disk [OF len, of "i_dev (inodes t i)" "i_number (inodes t i)"] d by auto
    next
      case False
      then have "ifind (i_dev (inodes t j)) (i_number (inodes t j)) t \<noteq> Some (Some (Itab i))" using kj by (simp add: known_def)
      then show ?thesis using other d by simp
    qed
  qed
qed


text \<open>Taking a reference to an inode of the table.\<close>

lemma itake_quiet: "quiet_step t (itake i t)"
  by (auto simp: quiet_step_def itake_def iav_unlink_def iupd_def Let_def)

lemma itake_count: "i_count (inodes (itake i t) j) = i_count (inodes t j) + of_bool (j = i)"
  by (simp add: itake_def iav_unlink_def iupd_def Let_def)

text \<open>Bringing a file into the table: the inode in whose place it comes is one that nobody refers to.\<close>

lemma iplace_files:
  assumes I: "ichained t L off" "ilisted t (i # G)" "icore t off" and Y: "synced {} t" and n: "ifind dev ino t = Some None"
    and rd: "iread (inodes (iplace i dev ino t) i) (fss t dev) = Some ip"
  defines "u \<equiv> iupd i (\<lambda>_. ip) (iplace i dev ino t)"
  shows "the_file u d k = the_file t d k" "synced {i} u"
proof -
  have nf: "\<forall>j < v_inode t. j \<notin> off \<longrightarrow> \<not> (i_dev (inodes t j) = dev \<and> i_number (inodes t j) = ino)" using ifind_ok [OF I(1), of dev ino] n by auto
  note P = iplace_inv [OF I nf]
  let ?p = "iplace i dev ino t"
  have "\<exists>L'. ichained ?p L' (off - {i})"
    by (rule ichained_move [OF I(1) P(2)]) (auto simp: iplace_def iupd_def irechain_def iav_unlink_def Let_def)
  then obtain L' where C: "ichained ?p L' (off - {i})" by blast
  have K: "icore ?p (off - {i})" by (rule icore_upd [OF I(3) P(2) _ iplace_fields(1)]) (use nf P(5) in auto)
  have ip: "i_dev ip = dev" "i_number ip = ino" "i_count ip = 1" using iread_keeps [OF rd] by simp_all
  have ipd: "disk_file (fss t dev) ino = (i_mode ip, i_nlink ip)" "length (i_addr ip) = NADDR"
    using rd by (auto simp: iread_def get_dinode_def disk_file_def split: if_splits)
  have inj: "inodes u j = (if j = i then ip else inodes t j)" for j by (simp add: u_def iupd_def)
  have fields: "i_dev (inodes u j) = i_dev (inodes ?p j)" "i_number (inodes u j) = i_number (inodes ?p j)" for j
    by (simp_all add: inj ip)
  have fu: "ifind d k u = ifind d k ?p" for d k
    by (rule ifind_cong) (simp_all add: fields, simp_all add: u_def iupd_def)
  have fs: "fss u = fss t" "v_inode u = v_inode t" by (simp_all add: u_def iupd_def)
  have new: "ifind d k u = Some (Some (Itab j)) \<longleftrightarrow> (if j = i then d = dev \<and> k = ino else ifind d k t = Some (Some (Itab j)))" for d k j
    unfolding fu ifind_iff [OF C K] ifind_iff [OF I(1,3)] using P(2) by auto
  have none: "ifind d k u = Some None \<or> (\<exists>j. ifind d k u = Some (Some (Itab j)))" for d k
    using ifind_ok [OF C, of d k] unfolding fu by auto
  have old: "disk_file (fss t (i_dev (inodes t i))) (i_number (inodes t i)) = (i_mode (inodes t i), i_nlink (inodes t i))" if "known t i"
    using Y P(2,3) that by (simp add: synced_def)
  have kn: "known u j" if "j \<noteq> i" "known t j" for j using that new by (simp add: known_def inj)
  have kt: "known t j" if "j \<noteq> i" "known u j" for j using that new by (simp add: known_def inj)
  show "the_file u d k = the_file t d k"
  proof (cases rule: ifind_cases [OF iinvI [OF I], of d k, case_names none found])
    case none
    show ?thesis
    proof (cases "d = dev \<and> k = ino")
      case True
      then have "ifind d k u = Some (Some (Itab i))" using new by simp
      then show ?thesis using True none ipd by (simp add: the_file_def inj)
    next
      case False
      then have "ifind d k u = Some None" using \<open>ifind d k u = Some None \<or> _\<close> new none by (auto split: if_splits)
      then show ?thesis using none by (simp add: the_file_def fs)
    qed
  next
    case (found j)
    show ?thesis
    proof (cases "j = i")
      case True
      have ne: "\<not> (d = dev \<and> k = ino)" using found(2) n by auto
      then have "ifind d k u = Some None" using \<open>ifind d k u = Some None \<or> _\<close> new found(2) True by (auto split: if_splits)
      then show ?thesis using found True old by (simp add: the_file_def fs)
    next
      case False
      then have "ifind d k u = Some (Some (Itab j))" using new found(2) by simp
      then show ?thesis using found False by (simp add: the_file_def inj)
    qed
  qed
  show "synced {i} u" unfolding synced_def fs
  proof (intro allI impI)
    fix j assume j: "j < v_inode t"
    show "length (i_addr (inodes u j)) = NADDR \<and> (known u j \<longrightarrow> i_count (inodes u j) = 0 \<or> j \<in> {i} \<longrightarrow>
        disk_file (fss t (i_dev (inodes u j))) (i_number (inodes u j)) = (i_mode (inodes u j), i_nlink (inodes u j)))"
    proof (cases "j = i")
      case True
      then show ?thesis using ip ipd by (simp add: inj)
    next
      case False
      then show ?thesis using Y j kt by (simp add: inj synced_def)
    qed
  qed
qed

lemma icoreD:
  "icore t off \<Longrightarrow> i < v_inode t \<Longrightarrow> i_count (inodes t i) \<noteq> 0 \<Longrightarrow> i \<notin> off"
  "icore t off \<Longrightarrow> i < v_inode t \<Longrightarrow> j < v_inode t \<Longrightarrow> i \<notin> off \<Longrightarrow> j \<notin> off \<Longrightarrow> i_dev (inodes t i) = i_dev (inodes t j) \<Longrightarrow>
    i_number (inodes t i) = i_number (inodes t j) \<Longrightarrow> i = j"
  unfolding icore_def by blast+

text \<open>An inode with references is the one the search finds.\<close>

lemma held_found:
  assumes I: "iinv t" and i: "i < v_inode t" "i_count (inodes t i) \<noteq> 0"
  shows "ifind (i_dev (inodes t i)) (i_number (inodes t i)) t = Some (Some (Itab i))"
proof -
  from I obtain L off F where C: "ichained t L off" "ilisted t F" "icore t off" by (rule iinvE)
  have o: "i \<notin> off" by (rule icoreD(1) [OF C(3) i])
  from ifind_ok [OF C(1), of "i_dev (inodes t i)" "i_number (inodes t i)"] show ?thesis
  proof (elim disjE exE conjE)
    fix j assume j: "j < v_inode t" "j \<notin> off" "ifind (i_dev (inodes t i)) (i_number (inodes t i)) t = Some (Some (Itab j))"
      "i_dev (inodes t j) = i_dev (inodes t i)" "i_number (inodes t j) = i_number (inodes t i)"
    then show ?thesis using icoreD(2) [OF C(3) j(1) i(1) j(2) o] by simp
  qed (use i(1) o in blast)
qed

text \<open>What \<open>iget\<close> does when it returns an inode.\<close>

lemma iget_shape:
  "iget_at n p dev ino t = (IGot i, t') \<Longrightarrow> t' = itake i t \<or> (\<exists>d k. ifind d k t = Some None \<and> inew d k t = (IGot i, t'))"
  by (induction n p dev ino t rule: iget_at.induct) (auto split: option.splits inod.splits if_splits)

lemma gottenD:
  assumes "gotten t (IGot i) t'"
  shows "i < v_inode t" "v_inode t' = v_inode t" "i_count (inodes t' i) \<noteq> 0" "iinv t'" "i_count (inodes t' i) = i_count (inodes t i) + 1"
    "j < v_inode t \<Longrightarrow> i_count (inodes t j) \<noteq> 0 \<Longrightarrow> i_dev (inodes t' j) = i_dev (inodes t j) \<and> i_number (inodes t' j) = i_number (inodes t j)"
proof -
  have a: "i < v_inode t" "i_count (inodes t' i) \<noteq> 0" "iinv t'" "grows (Some i) t t'" using assms unfolding gotten_def ires.case by blast+
  have "i_count (inodes t' i) = i_count (inodes t i) + of_bool (Some i = Some i)" using a(1,4) unfolding grows_def by blast
  then show "i_count (inodes t' i) = i_count (inodes t i) + 1" by simp
  show "i < v_inode t" "i_count (inodes t' i) \<noteq> 0" "iinv t'" by (fact a)+
  show "v_inode t' = v_inode t" using a(4) by (simp add: grows_def)
  show "j < v_inode t \<Longrightarrow> i_count (inodes t j) \<noteq> 0 \<Longrightarrow> i_dev (inodes t' j) = i_dev (inodes t j) \<and> i_number (inodes t' j) = i_number (inodes t j)"
    using a(4) by (simp add: grows_def)
qed

lemma iget_files:
  assumes I: "iinv t" "low t" "mounts_ok t" and Y: "synced {} t" and e: "iget dev ino t = (IGot i, t')"
  shows "the_file t' d k = the_file t d k" "synced (if i_count (inodes t' i) = 1 then {i} else {}) t'" "known t' i"
proof -
  have G: "gotten t (IGot i) t'" using iget_ok [OF I e] by simp
  note g = gottenD [OF G]
  show "known t' i" unfolding known_def by (rule held_found [OF g(4)]) (simp add: g(1,2), rule g(3))
  have "the_file t' d k = the_file t d k \<and> synced (if i_count (inodes t' i) = 1 then {i} else {}) t'"
    using iget_shape [OF e [unfolded iget_def]]
  proof (elim disjE conjE exE)
    assume t': "t' = itake i t"
    have q: "quiet_step t t'" unfolding t' by (rule itake_quiet)
    have "synced (if i_count (inodes t' i) = 1 then {i} else {}) t'"
    proof (rule quiet_synced [OF q Y])
      fix j assume "j < v_inode t" and c: "i_count (inodes t' j) = 0 \<or> j \<in> (if i_count (inodes t' i) = 1 then {i} else {})"
      show "i_count (inodes t j) = 0 \<or> j \<in> {} \<or> \<not> known t j"
      proof (cases "j = i")
        case True
        then have "i_count (inodes t' i) = 1" using c g(3) by (auto split: if_splits)
        then show ?thesis using g(5) True by simp
      next
        case False
        then show ?thesis using c by (simp add: t' itake_count split: if_splits)
      qed
    qed
    then show ?thesis using quiet_files [OF q] by simp
  next
    fix d' k' assume n: "ifind d' k' t = Some None" "inew d' k' t = (IGot i, t')"
    from I(1) obtain L off F where C: "ichained t L off" "ilisted t F" "icore t off" by (rule iinvE)
    obtain j H where F: "F = j # H" and r: "iread_tab j (iplace j d' k' t) = (IGot i, t')"
      using n(2) ilisted_first [OF C(2)] by (cases F) (auto simp: inew_def iplace_def)
    then have j: "j = i" and rd: "\<exists>ip. iread (inodes (iplace j d' k' t) j) (fss (iplace j d' k' t) (i_dev (inodes (iplace j d' k' t) j))) = Some ip \<and>
        t' = iupd i (\<lambda>_. ip) (iplace j d' k' t)"
      by (auto simp: iread_tab_def Let_def split: option.splits if_splits)
    then obtain ip where ip: "iread (inodes (iplace i d' k' t) i) (fss t d') = Some ip" "t' = iupd i (\<lambda>_. ip) (iplace i d' k' t)"
      by auto
    note Z = iplace_files [OF C(1) C(2) [unfolded F j] C(3) Y n(1) ip(1), folded ip(2)]
    have "synced {} t'" using Z(2) by (simp add: synced_def)
    then show ?thesis using Z by simp
  qed
  then show "the_file t' d k = the_file t d k" "synced (if i_count (inodes t' i) = 1 then {i} else {}) t'" by simp_all
qed


lemma the_file_known: "known t i \<Longrightarrow> the_file t (i_dev (inodes t i)) (i_number (inodes t i)) = (i_mode (inodes t i), i_nlink (inodes t i))"
  by (simp add: the_file_def known_def)

section \<open>Giving back what turns out to be in use\<close>

text \<open>Every file has a link or a reference.\<close>

definition no_orphans :: "itab \<Rightarrow> bool" where
  "no_orphans t \<longleftrightarrow> (\<forall>dev ino. fst (the_file t dev ino) \<noteq> 0 \<longrightarrow> snd (the_file t dev ino) \<le>s 0 \<longrightarrow>
     (\<exists>i < v_inode t. i_count (inodes t i) \<noteq> 0 \<and> i_dev (inodes t i) = dev \<and> i_number (inodes t i) = ino))"

lemma iput_files:
  assumes I: "iinv t" and i: "i < v_inode t" "i_count (inodes t i) \<noteq> 0" and Y: "synced (if i_count (inodes t i) = 1 then {i} else {}) t"
    and l: "i_count (inodes t i) = 1 \<Longrightarrow> \<not> i_nlink (inodes t i) \<le>s 0"
  shows "the_file (iput i t) d k = the_file t d k" "synced {} (iput i t)"
proof -
  have "the_file (iput i t) d k = the_file t d k \<and> synced {} (iput i t)"
  proof (cases "i_count (inodes t i) = 1")
    case False
    have q: "quiet_step t (iput i t)" using False by (auto simp: quiet_step_def iput_def iupd_def)
    have "synced {} (iput i t)" by (rule quiet_synced [OF q Y]) (use False i in \<open>auto simp: iput_def iupd_def split: if_splits\<close>)
    then show ?thesis using quiet_files [OF q] by simp
  next
    case True
    let ?a = "iupd i (\<lambda>ip. ip\<lparr>i_flag := i_flag ip OR ILOCK\<rparr>) t"
    have b: "iput_body i t = (if has (IACC OR IUPD OR ICHG) (inodes ?a i) then iupdat_tab i ?a else ?a)"
      using l True by (simp add: iput_body_def Let_def iupd_def)
    have qa: "quiet_step t ?a" by (auto simp: quiet_step_def iupd_def)
    have Ya: "synced {i} ?a" by (rule quiet_synced [OF qa Y]) (use True in \<open>auto simp: iupd_def split: if_splits\<close>)
    have k: "known ?a i" using held_found [OF I i] quiet_files(3) [OF qa] by (simp add: known_def)
    have "touches {3, 4} i t ?a" by (rule touches_iupd) (auto simp: flag_simps)
    then have v: "v_inode ?a = v_inode t" by (simp add: touches_def)
    have Ia: "iinv ?a"
    proof (rule held_inv [OF I i, where ip = "(inodes t i)\<lparr>i_flag := i_flag (inodes t i) OR ILOCK\<rparr>"])
      fix j assume "j \<in> set (isleepers ?a)"
      then have "j \<in> set (isleepers t)" by (simp add: iupd_def)
      then show "if j = i then has ILOCK ((inodes t i)\<lparr>i_flag := i_flag (inodes t i) OR ILOCK\<rparr>) \<and> has IWANT ((inodes t i)\<lparr>i_flag := i_flag (inodes t i) OR ILOCK\<rparr>)
          else j \<in> set (isleepers t)" using iinvD(1) [OF I, of j] by (auto simp: flag_simps)
    qed (use i in \<open>simp_all add: iupd_def\<close>)
    have B: "the_file (iput_body i t) d k = the_file ?a d k \<and> synced {i} (iput_body i t)"
      unfolding b using iupdat_tab_files(1,2) [OF Ya _ k Ia] Ya i(1) v by simp
    have e: "iput i t = iav_last i (iupd i (\<lambda>ip. ip\<lparr>i_flag := 0, i_count := 0\<rparr>) (prele i (iput_body i t)))" by (rule iput_last_eq [OF True])
    have q: "quiet_step (iput_body i t) (iput i t)" unfolding e by (auto simp: quiet_step_def iav_last_def iupd_def Let_def)
    have "synced {} (iput i t)"
      by (rule quiet_synced [OF q conjunct2 [OF B]]) (auto simp: e iav_last_def iupd_def Let_def)
    then show ?thesis using B quiet_files [OF q] quiet_files [OF qa] by simp
  qed
  then show "the_file (iput i t) d k = the_file t d k" "synced {} (iput i t)" by simp_all
qed


text \<open>An inode with the only reference, which the search itself has taken, has links.\<close>

lemma sole_linked:
  assumes o: "no_orphans t" and g: "grows None t u" and u: "iinv u" and F: "\<And>d k. the_file u d k = the_file t d k"
    and G: "gotten u (IGot i) w" and W: "\<And>d k. the_file w d k = the_file u d k" "known w i"
    and m: "i_mode (inodes w i) \<noteq> 0" and c: "i_count (inodes w i) = 1"
  shows "\<not> i_nlink (inodes w i) \<le>s 0"
proof
  assume l: "i_nlink (inodes w i) \<le>s 0"
  let ?d = "i_dev (inodes w i)" let ?k = "i_number (inodes w i)"
  note D = gottenD [OF G]
  have "the_file t ?d ?k = (i_mode (inodes w i), i_nlink (inodes w i))" using the_file_known [OF W(2)] W(1) F by simp
  then obtain j where j: "j < v_inode t" "i_count (inodes t j) \<noteq> 0" "i_dev (inodes t j) = ?d" "i_number (inodes t j) = ?k"
    using o m l unfolding no_orphans_def by (metis fst_conv snd_conv)
  have ju: "j < v_inode u" "i_count (inodes u j) \<noteq> 0" "i_dev (inodes u j) = ?d" "i_number (inodes u j) = ?k"
    using g j by (simp_all add: grows_def)
  have key: "i_dev (inodes w j) = ?d" "i_number (inodes w j) = ?k" using D(6) [OF ju(1,2)] ju(3,4) by simp_all
  have cj: "i_count (inodes w j) \<noteq> 0"
  proof (cases "j = i")
    case False
    then have "i_count (inodes w j) = i_count (inodes u j)" using G ju(1) unfolding gotten_def ires.case grows_def by auto
    then show ?thesis using ju(2) by simp
  qed (use D(3) in simp)
  have "j < v_inode w" using ju(1) D(2) by simp
  then have "known w j" unfolding known_def by (intro held_found [OF D(4)] cj)
  then have "j = i" using W(2) key by (simp add: known_def)
  then show False using D(5) c ju(2) by simp
qed

section \<open>The search\<close>

lemma ialloc_loop_files:
  assumes "ialloc_loop dev mode nlink uid gid u = Some y"
  shows "iinv u \<longrightarrow> low u \<longrightarrow> mounts_ok u \<longrightarrow> grows None t u \<longrightarrow> synced {} u \<longrightarrow> (\<forall>d k. the_file u d k = the_file t d k) \<longrightarrow> no_orphans t \<longrightarrow>
     (\<forall>i. fst y = IGot i \<longrightarrow> fst (the_file t (i_dev (inodes (snd y) i)) (i_number (inodes (snd y) i))) = 0)"
proof (rule ialloc_loop.raw_induct [OF _ assms], intro impI, goal_cases)
  case (1 loop dev mode nlink uid gid u y)
  note IH = 1(1) [rule_format] and I = 1(3-5) and gr = 1(6) and Y = 1(7) and F = 1(8) [rule_format] and o = 1(9)
  obtain r t' where y: "y = (r, t')" by fastforce
  define fp where "fp = sb (fss u dev)"
  define ino where "ino = (if 0 <s s_ninode fp then s_inode fp ! unat (s_ninode fp - 1) else 0)"
  define t0 where "t0 = (if 0 <s s_ninode fp then with_fs dev ((fss u dev)\<lparr>sb := fp\<lparr>s_ninode := s_ninode fp - 1\<rparr>\<rparr>) u else u)"
  note e = 1(2) [unfolded y Let_def, folded fp_def, folded ino_def, folded t0_def]
  have g0: "grows None u t0" "iinv t0" using I by (auto simp: t0_def with_fs_def intro!: grows_refl)
  have c0: "low t0" "mounts_ok t0" using low_grows [OF I(2) g0(1)] mounts_ok_grows [OF I(3) g0(1)] by simp_all
  have q0: "quiet_step u t0" by (auto simp: t0_def quiet_super) (simp add: quiet_step_def)
  have F0: "the_file t0 d k = the_file t d k" for d k using quiet_files(1) [OF q0] F by simp
  have Y0: "synced {} t0" by (rule quiet_synced [OF q0 Y]) (simp add: t0_def with_fs_def split: if_splits)
  note gt0 = grows_trans [OF gr g0(1)]
  have again: ?case if L: "loop dev mode nlink uid gid s = Some (r, t')" and s: "grows None t0 s" "iinv s" "synced {} s" "\<And>d k. the_file s d k = the_file t0 d k" for s
  proof -
    have "low s" "mounts_ok s" using low_grows [OF c0(1) s(1)] mounts_ok_grows [OF c0(2) s(1)] by simp_all
    from IH [OF L s(2) this grows_trans [OF gt0 s(1)] s(3) _ o] show ?thesis using s(4) F0 by (simp add: y)
  qed
  show ?case
  proof (cases "s_ilock fp \<noteq> 0")
    case True
    then show ?thesis using e y by simp
  next
    case nl: False
    show ?thesis
    proof (cases "ino \<noteq> 0")
      case True
      obtain q s where q: "iget dev ino t0 = (q, s)" by fastforce
      have e': "(case (q, s) of (IGot i, t) \<Rightarrow>
           if i_mode (inodes t i) = 0 then Some (IGot i, iclaim i dev mode nlink uid gid t)
           else loop dev mode nlink uid gid (iput i (iupdat_tab i t)) | r \<Rightarrow> Some r) = Some (r, t')"
        using e nl True unfolding q [symmetric] by simp
      show ?thesis
      proof (cases q)
        case (IGot i)
        note Q = q [unfolded IGot]
        have G: "gotten t0 (IGot i) s" using iget_ok [OF g0(2) c0 Q] by simp
        note D = gottenD [OF G] and W = iget_files [OF g0(2) c0 Y0 Q]
        show ?thesis
        proof (cases "i_mode (inodes s i) = 0")
          case True
          then have r: "r = IGot i" "t' = iclaim i dev mode nlink uid gid s" using e' IGot by simp_all
          have "i_dev (inodes t' i) = i_dev (inodes s i)" "i_number (inodes t' i) = i_number (inodes s i)"
            unfolding r using iclaim_names [of i dev mode nlink uid gid s] by simp_all
          then show ?thesis using the_file_known [OF W(3)] W(1) F0 True by (simp add: y r(1))
        next
          case False
          let ?u = "iupdat_tab i s"
          have L: "loop dev mode nlink uid gid (iput i ?u) = Some (r, t')" using e' IGot False by simp
          have iv: "i < v_inode s" using D(1,2) by simp
          note U = iupdat_tab_files [OF W(2) iv W(3) D(4)]
          have ui: "iinv ?u" by (rule touches_inv [OF D(4) iv D(3) touches_iupdat])
          have l: "\<not> i_nlink (inodes ?u i) \<le>s 0" if "i_count (inodes ?u i) = 1"
            using sole_linked [OF o gt0 g0(2) F0 G W(1,3) False] that iupdat_tab_same [of s i i] by (simp add: iupdat_tab_fields same_ino_def)
          have Yu: "synced (if i_count (inodes ?u i) = 1 then {i} else {}) ?u" using U(2) by (simp add: iupdat_tab_fields)
          have cu: "i < v_inode ?u" "i_count (inodes ?u i) \<noteq> 0" using iv D(3) by (simp_all add: iupdat_tab_fields)
          note P = iput_files [OF ui cu Yu l]
          show ?thesis using again [OF L idiscard(2) [OF G] idiscard(1) [OF G] P(2)] P(1) U(1) W(1) by simp
        qed
      qed (use e' y in auto)
    next
      case False
      obtain er fq where rf: "refill (fss t0 dev) (ierror t0) = (er, fq)" by fastforce
      define t1 where "t1 = (with_fs dev ((fss t0 dev)\<lparr>sb := fq\<rparr>) t0)\<lparr>ierror := er\<rparr>"
      have e': "(if s_ninode fq \<noteq> of_nat NICINOD
          then loop dev mode nlink uid gid (with_fs dev ((fss t1 dev)\<lparr>sb := fq\<lparr>s_ninode := of_nat NICINOD\<rparr>\<rparr>) t1)
          else Some (IFail, (with_fs dev ((fss t1 dev)\<lparr>sb := fq\<lparr>s_ninode := 0, s_tinode := 0\<rparr>\<rparr>) t1)\<lparr>ierror := Some ENOSPC\<rparr>)) = Some (r, t')"
        using e nl False unfolding t1_def by (simp add: rf)
      let ?s = "with_fs dev ((fss t1 dev)\<lparr>sb := fq\<lparr>s_ninode := of_nat NICINOD\<rparr>\<rparr>) t1"
      show ?thesis
      proof (cases "s_ninode fq \<noteq> of_nat NICINOD")
        case True
        have gs: "grows None t0 ?s" "iinv ?s" using g0(2) by (auto simp: t1_def with_fs_def intro!: grows_refl)
        have qs: "quiet_step t0 ?s" by (auto simp: t1_def quiet_step_def with_fs_def disk_file_def)
        have "synced {} ?s" by (rule quiet_synced [OF qs Y0]) (simp add: t1_def with_fs_def)
        then show ?thesis using again [OF _ gs] quiet_files(1) [OF qs] e' True by simp
      next
        case False
        then show ?thesis using e' y by simp
      qed
    qed
  qed
qed

lemma ialloc_files:
  assumes "iinv t" "low t" "mounts_ok t" "synced {} t" "no_orphans t" "ialloc dev mode nlink uid gid t = Some (IGot i, t')"
  shows "fst (the_file t (i_dev (inodes t' i)) (i_number (inodes t' i))) = 0"
proof -
  let ?t = "with_fs dev (getfs (fss t dev)) t"
  have g: "grows None t ?t" by (rule grows_refl) (simp_all add: with_fs_def)
  have q: "quiet_step t ?t" by (rule quiet_super) (simp add: getfs_def)
  have "synced {} ?t" by (rule quiet_synced [OF q assms(4)]) (simp add: with_fs_def)
  then show ?thesis
    using ialloc_loop_files [of dev mode nlink uid gid ?t "(IGot i, t')" t] assms low_grows [OF _ g] mounts_ok_grows [OF _ g] g quiet_files(1) [OF q]
    by (simp add: ialloc_def)
qed


text \<open>The inode as it is handed out.\<close>

lemma iclaim_fields:
  "let ip = inodes (iclaim i dev mode nlink uid gid t) i in i_mode ip = mode \<and> i_nlink ip = nlink \<and> i_uid ip = uid \<and> i_gid ip = gid \<and>
     i_size ip = 0 \<and> i_addr ip = replicate NADDR 0"
proof -
  define g' :: "inode \<Rightarrow> inode" where "g' = (\<lambda>ip. ip\<lparr>i_mode := mode, i_nlink := nlink, i_flag := i_flag ip OR (IACC OR IUPD OR ICHG OR ISYN),
                 i_uid := uid, i_gid := gid, i_size := 0, i_addr := replicate NADDR 0\<rparr>)"
  obtain f where c: "iclaim i dev mode nlink uid gid t = iupdat_tab i (with_fs dev f (iupd i g' t))"
    unfolding iclaim_def g'_def Let_def by blast
  show ?thesis using iupdat_tab_same [of "with_fs dev f (iupd i g' t)" i i] unfolding c same_ino_def
    by (simp add: with_fs_def iupd_def g'_def Let_def)
qed

lemma ialloc_loop_claims:
  assumes "ialloc_loop dev mode nlink uid gid u = Some y"
  shows "\<forall>i. fst y = IGot i \<longrightarrow> (\<exists>v. snd y = iclaim i dev mode nlink uid gid v)"
proof (rule ialloc_loop.raw_induct [OF _ assms], goal_cases)
  case (1 loop dev mode nlink uid gid u y)
  from 1(2) show ?case
    by (auto simp: Let_def dest: 1(1) split: if_splits prod.splits ires.splits) (metis fst_conv ires.distinct(1,3,5))+
qed

lemma ialloc_claims:
  assumes "ialloc dev mode nlink uid gid t = Some (IGot i, t')"
  shows "i_mode (inodes t' i) = mode \<and> i_nlink (inodes t' i) = nlink \<and> i_uid (inodes t' i) = uid \<and> i_gid (inodes t' i) = gid \<and>
    i_size (inodes t' i) = 0 \<and> i_addr (inodes t' i) = replicate NADDR 0"
  using ialloc_loop_claims assms iclaim_fields unfolding ialloc_def Let_def by fastforce

end
