(* ===== verification/Inode_Use.thy ===== *)
theory Inode_Use
  imports Inode_Numbers File_Blocks
begin

text \<open>
  The inode table under any interleaving of its callers: the routines in any order, with the discipline
  that only an inode with references is put, locked, unlocked or changed and that a mounted device keeps
  its references.
\<close>

section \<open>Runs\<close>

inductive istep :: "itab \<Rightarrow> itab \<Rightarrow> bool" where
  get: "low t \<Longrightarrow> iget dev ino t = (r, t') \<Longrightarrow> istep t t'"
| alloc: "low t \<Longrightarrow> ialloc dev mode nlink uid gid t = Some (r, t') \<Longrightarrow> istep t t'"
| put: "i < v_inode t \<Longrightarrow> i_count (inodes t i) \<noteq> 0 \<Longrightarrow> mounts_ok (iput i t) \<Longrightarrow> istep t (iput i t)"
| lock: "i < v_inode t \<Longrightarrow> i_count (inodes t i) \<noteq> 0 \<Longrightarrow> plock i t = (r, t') \<Longrightarrow> istep t t'"
| unlock: "i < v_inode t \<Longrightarrow> i_count (inodes t i) \<noteq> 0 \<Longrightarrow> istep t (prele i t)"
| change: "i < v_inode t \<Longrightarrow> i_count (inodes t i) \<noteq> 0 \<Longrightarrow> touches marks i t t' \<Longrightarrow> istep t t'"
| flush: "iflush dev t = (ok, t') \<Longrightarrow> istep t t'"
| mnt: "i < v_inode t \<Longrightarrow> i_count (inodes t i) \<noteq> 0 \<Longrightarrow> touches {0, 4} i t t' \<Longrightarrow> mounts_ok (t'\<lparr>mounts := ms\<rparr>) \<Longrightarrow> istep t (t'\<lparr>mounts := ms\<rparr>)"
| other: "istep t (t\<lparr>fss := fs, itime := x, ierror := e\<rparr>)"

inductive ireach :: "itab \<Rightarrow> bool" where
  start: "\<forall>i < v_inode t. i_count (inodes t i) = 0 \<and> i_flag (inodes t i) = 0 \<Longrightarrow> isleepers t = [] \<Longrightarrow> mounts t = [] \<Longrightarrow> ireach (inoinit t)"
| step: "ireach t \<Longrightarrow> istep t t' \<Longrightarrow> ireach t'"

lemma mounts_ok_mono:
  assumes m: "mounts_ok t" and v: "v_inode t' = v_inode t" "mounts t' = mounts t"
    and c: "\<And>j. j < v_inode t \<Longrightarrow> i_count (inodes t j) \<noteq> 0 \<Longrightarrow> i_count (inodes t' j) \<noteq> 0"
    and f: "\<And>j. j < v_inode t \<Longrightarrow> has IMOUNT (inodes t' j) \<Longrightarrow> has IMOUNT (inodes t j)"
  shows "mounts_ok t'"
proof -
  from m obtain rk :: "nat \<Rightarrow> nat" where M: "\<forall>i < v_inode t. has IMOUNT (inodes t i) \<longrightarrow> (\<exists>m \<in> set (mounts t). m_inodp m = Some i)"
      "\<forall>m \<in> set (mounts t). \<forall>i. m_inodp m = Some i \<longrightarrow>
        (\<exists>j < v_inode t. m_mount m = Some j \<and> i_count (inodes t j) \<noteq> 0 \<and> rk j < rk i) \<and> rk i \<le> length (mounts t)"
    unfolding mounts_ok_def by blast
  show ?thesis unfolding mounts_ok_def v
    by (intro conjI exI [of _ rk]) (use M(1) f in blast, use M(2) c in blast)
qed

lemma touches_mounts:
  assumes m: "mounts_ok t" and T: "touches marks i t t'" shows "mounts_ok t'"
proof -
  have o: "inodes t' j = inodes t j" if "j \<noteq> i" for j using that T unfolding touches_def by (metis fun_upd_other)
  show ?thesis
  proof (rule mounts_ok_mono [OF m])
    fix j assume "j < v_inode t"
    show "i_count (inodes t j) \<noteq> 0 \<Longrightarrow> i_count (inodes t' j) \<noteq> 0" using o [of j] T by (cases "j = i") (simp_all add: touches_def)
    show "has IMOUNT (inodes t' j) \<Longrightarrow> has IMOUNT (inodes t j)" using o [of j] T by (cases "j = i") (simp_all add: touches_def has_bits)
  qed (use T in \<open>simp_all add: touches_def\<close>)
qed

lemma gotten_mounts:
  assumes m: "mounts_ok t" and G: "gotten t r t'" shows "mounts_ok t'"
proof (cases r)
  case (IGot i)
  have c: "i_count (inodes t' j) \<noteq> 0" if "j < v_inode t" "i_count (inodes t j) \<noteq> 0" for j
    using G that by (cases "j = i") (auto simp: gotten_def IGot grows_def)
  show ?thesis by (rule mounts_ok_mono [OF m _ _ c]) (use G in \<open>auto simp: gotten_def IGot grows_def\<close>)
qed (use mounts_ok_grows [OF m] G in \<open>auto simp: gotten_def\<close>)

lemma plock_mounts: "mounts_ok t \<Longrightarrow> mounts_ok (snd (plock i t))"
  by (erule mounts_ok_mono) (auto simp: plock_def want_def iupd_def flag_simps split: if_splits)

lemma prele_mounts: "mounts_ok t \<Longrightarrow> mounts_ok (prele i t)"
  by (erule mounts_ok_mono) (auto simp: flag_simps split: if_splits)

lemma mnt_inv:
  assumes I: "iinv t" and i: "i < v_inode t" "i_count (inodes t i) \<noteq> 0" and T: "touches {0, 4} i t t'"
  shows "iinv (t'\<lparr>mounts := ms\<rparr>)"
proof (rule held_inv [OF I i])
  fix j assume "j \<in> set (isleepers (t'\<lparr>mounts := ms\<rparr>))"
  then have "j \<in> set (isleepers t)" using T by (simp add: touches_def)
  then show "if j = i then has ILOCK (inodes t' i) \<and> has IWANT (inodes t' i) else j \<in> set (isleepers t)"
    using iinvD(1) [OF I] T by (auto simp: touches_def has_bits)
qed (use T i in \<open>simp_all add: touches_def\<close>)

lemma istep_ok: "istep t t' \<Longrightarrow> iinv t \<Longrightarrow> mounts_ok t \<Longrightarrow> iinv t' \<and> mounts_ok t'"
proof (induction rule: istep.induct)
  case (get t dev ino r t')
  then have G: "gotten t r t'" using iget_ok by blast
  show ?case using gotten_mounts [OF get(4) G] G by (simp add: gotten_def)
next
  case (alloc t dev mode nlink uid gid r t')
  then have G: "gotten t r t'" using ialloc_ok by (simp add: allotted_def)
  show ?case using gotten_mounts [OF alloc(4) G] G by (simp add: gotten_def)
next
  case (lock i t r t')
  then show ?case using plock_inv [OF lock(4,1,2)] plock_mounts [OF lock(5), of i] by simp
next
  case (flush dev t ok t')
  note F = iflush_ok [OF flush(2,1)]
  show ?case using F(1) by (intro conjI mounts_ok_mono [OF flush(3) F(3,4)]) (simp_all add: F(2))
next
  case (change i t t')
  show ?case using touches_inv [OF change(4,1,2,3)] touches_mounts [OF change(5,3)] by simp
next
  case (mnt i t t' ms)
  then show ?case using mnt_inv by blast
next
  case (other t e x fs)
  then have "iinv (t\<lparr>fss := fs, itime := x, ierror := e\<rparr>)" by (rule_tac same_table) simp_all
  then show ?case by (intro conjI mounts_ok_mono [OF other(2)]) simp_all
qed (simp_all add: iput_inv prele_inv prele_mounts)

lemma ireach_ok: "ireach t \<Longrightarrow> iinv t \<and> mounts_ok t"
proof (induction rule: ireach.induct)
  case (start t)
  note N = inoinit_inv [OF start(1,2)]
  have "mounts_ok (inoinit t)" using start(1,3) by (auto simp: mounts_ok_def N(2-4))
  then show ?case using N(1) by simp
qed (use istep_ok in blast)

section \<open>What \<open>iget\<close> answers\<close>

lemma inew_answers: "inew dev ino t = (r, t') \<Longrightarrow> r \<noteq> ISleep"
  by (auto simp: inew_def iread_tab_def Let_def split: inod.splits option.splits if_splits)

lemma iget_sleeps: "iget_at n p dev ino t = (ISleep, t') \<Longrightarrow> \<exists>i. has ILOCK (inodes t i) \<and> t' = want i t"
  by (induction n p dev ino t rule: iget_at.induct) (auto split: if_splits option.splits inod.splits dest: inew_answers)

lemma iupdat_tab_error: "ierror t \<noteq> None \<Longrightarrow> ierror (iupdat_tab i t) \<noteq> None"
  by (simp add: iupdat_tab_def Let_def split: prod.split)

lemma iput_error:
  assumes "ierror t \<noteq> None" shows "ierror (iput i t) \<noteq> None"
proof -
  have r: "ierror (iremove i t) = ierror t" for t
    by (simp add: iremove_def itrunc_tab_def ifree_tab_def with_fs_def iupd_def Let_def split: prod.split)
  have "ierror (iput_body i t) \<noteq> None"
    unfolding iput_body_def Let_def using assms by (auto simp: r iupd_def simp del: not_None_eq intro!: iupdat_tab_error)
  then have "ierror (iput i t) \<noteq> None" if "i_count (inodes t i) = 1"
    unfolding iput_last_eq [OF that] by (simp add: iav_last_def iupd_def Let_def)
  moreover have "ierror (iput i t) \<noteq> None" if "i_count (inodes t i) \<noteq> 1"
    using that assms by (simp add: iput_def iupd_def)
  ultimately show ?thesis by blast
qed

lemma iread_tab_fails: "iread_tab i t = (IFail, t') \<Longrightarrow> ierror t' \<noteq> None"
  by (auto simp: iread_tab_def Let_def simp del: not_None_eq intro!: iput_error split: option.splits if_splits)

lemma inew_fails: "inew dev ino t = (IFail, t') \<Longrightarrow> ierror t' \<noteq> None"
  by (auto simp: inew_def simp del: not_None_eq dest: iread_tab_fails split: inod.splits)

lemma iget_fails: "iget_at n p dev ino t = (IFail, t') \<Longrightarrow> ierror t' \<noteq> None"
  by (induction n p dev ino t rule: iget_at.induct) (auto simp del: not_None_eq split: if_splits option.splits inod.splits dest: inew_fails)

lemma inew_name: "inew dev ino t = (IGot i, t') \<Longrightarrow> i_dev (inodes t' i) = dev \<and> i_number (inodes t' i) = ino"
  by (auto simp: inew_def iread_tab_def Let_def iupd_def irechain_def iav_unlink_def dest!: iread_keeps split: inod.splits option.splits if_splits)

lemma iget_named:
  assumes I: "iinv t" and e: "iget dev ino t = (IGot i, t')"
    and m: "\<forall>k < v_inode t. i_dev (inodes t k) = dev \<longrightarrow> i_number (inodes t k) = ino \<longrightarrow> \<not> has IMOUNT (inodes t k)"
  shows "i_dev (inodes t' i) = dev \<and> i_number (inodes t' i) = ino"
proof -
  from I obtain L off F where C: "ichained t L off" "ilisted t F" "icore t off" by (rule iinvE)
  from ifind_ok [OF C(1), of dev ino] show ?thesis
  proof (elim disjE exE conjE)
    fix k assume k: "k < v_inode t" "ifind dev ino t = Some (Some (Itab k))" "i_dev (inodes t k) = dev" "i_number (inodes t k) = ino"
    then have "i = k" "t' = itake k t" using e m by (auto simp: iget_def split: if_splits)
    then show ?thesis using k by (simp add: itake_def iupd_def iav_unlink_def Let_def)
  next
    assume "ifind dev ino t = Some None"
    then have "inew dev ino t = (IGot i, t')" using e by (simp add: iget_def)
    then show ?thesis by (rule inew_name)
  qed
qed

section \<open>Removing a file\<close>

definition same_inos :: "fs \<Rightarrow> fs \<Rightarrow> bool" where
  "same_inos f g \<longleftrightarrow> s_ninode (sb g) = s_ninode (sb f) \<and> s_inode (sb g) = s_inode (sb f) \<and> s_ilock (sb g) = s_ilock (sb f)"

lemma same_inos_trans: "same_inos f g \<Longrightarrow> same_inos g h \<Longrightarrow> same_inos f h"
  by (simp add: same_inos_def)

lemma getfs_free: "fs_free f xs \<Longrightarrow> getfs f = f"
  by (rule getfs_ok) (simp_all add: fs_free_def)

lemma free_inos: "fs_free f xs \<Longrightarrow> same_inos f (free b f)"
  by (simp add: same_inos_def free_def getfs_free Let_def)

lemma frees_inos:
  "fs_free f xs \<Longrightarrow> distinct bs \<Longrightarrow> set bs \<inter> set xs = {} \<Longrightarrow> \<forall>b \<in> set bs. usable f b \<Longrightarrow> same_inos f (fold free bs f)"
proof (induction bs arbitrary: f xs)
  case (Cons b bs)
  then have b: "usable f b" "b \<notin> set xs" "b \<notin> set bs" by auto
  note F = free_ok [OF Cons.prems(1) b(1,2)]
  have "same_inos (free b f) (fold free bs (free b f))"
    by (rule Cons.IH [of _ "b # xs"]) (use F Cons.prems b in auto)
  then show ?case using same_inos_trans [OF free_inos [OF Cons.prems(1)]] by simp
qed (simp add: same_inos_def)

lemma iupdat_sb: "fs_free f xs \<Longrightarrow> iupdat now ip f = (e, ip', g) \<Longrightarrow> same_inos f g"
  by (auto simp: iupdat_def getfs_free Let_def same_inos_def split: if_splits)

lemma ifree_ok:
  assumes F: "fs_free f xs"
  shows "fs_free (ifree ino f) xs" "usable (ifree ino f) = usable f"
    "s_ilock (sb f) = 0 \<Longrightarrow> unat (s_ninode (sb f)) < NICINOD \<Longrightarrow>
       s_ninode (sb (ifree ino f)) = s_ninode (sb f) + 1 \<and> s_inode (sb (ifree ino f)) = (s_inode (sb f))[unat (s_ninode (sb f)) := ino]"
proof -
  have n: "unat (s_ninode (sb f)) \<le> NICINOD" using F by (simp add: fs_free_def)
  then have sl: "100 \<le>s s_ninode (sb f) \<longleftrightarrow> 100 \<le> unat (s_ninode (sb f))" by (simp add: sle_small16)
  have up: "unat (s_ninode (sb f) + 1) = unat (s_ninode (sb f)) + 1" using n by (simp add: unat_word_ariths)
  show u: "usable (ifree ino f) = usable f"
    by (auto simp: ifree_def getfs_free [OF F] Let_def usable_def badblock_def fun_eq_iff)
  have "disk (ifree ino f) = disk f" "s_free (sb (ifree ino f)) = s_free (sb f)" "s_nfree (sb (ifree ino f)) = s_nfree (sb f)"
    "unat (s_ninode (sb (ifree ino f))) \<le> NICINOD"
    using n up by (auto simp: ifree_def getfs_free [OF F] Let_def sl)
  then show "fs_free (ifree ino f) xs" using F u by (simp add: fs_free_def)
qed (use assms in \<open>auto simp: ifree_def getfs_free Let_def sle_small16\<close>)

lemma iupdat_tab_fs:
  assumes F: "fs_free (fss t (i_dev (inodes t i))) xs" and n: "\<not> usable (fss t (i_dev (inodes t i))) (itod (i_number (inodes t i)))"
  shows "fs_free (fss (iupdat_tab i t) (i_dev (inodes t i))) xs \<and> same_inos (fss t (i_dev (inodes t i))) (fss (iupdat_tab i t) (i_dev (inodes t i)))"
proof -
  obtain e jp g where u: "iupdat (itime t) (inodes t i) (fss t (i_dev (inodes t i))) = (e, jp, g)" by (metis prod_cases3)
  show ?thesis using iupdat_frame [OF F n u] iupdat_sb [OF F u] by (simp add: iupdat_tab_def Let_def u with_fs_def)
qed

lemma iremove_frees:
  assumes T: "tree_ok (i_addr (inodes t i)) f xs" and F: "fs_free f xs" and n: "\<not> usable f (itod (i_number (inodes t i)))"
    and m: "i_mode (inodes t i) AND IFMT = IFREG \<or> i_mode (inodes t i) AND IFMT = IFDIR" and f: "f = fss t (i_dev (inodes t i))"
  shows "\<exists>bs h. set bs = node (i_addr (inodes t i)) (disk f) ` places - {0} \<and> distinct bs \<and> fs_free h (rev bs @ xs) \<and> usable h = usable f \<and> same_inos f h \<and>
     fss (iremove i t) (i_dev (inodes t i)) = ifree (i_number (inodes t i)) h"
proof -
  obtain jp h where u: "itrunc (itime t) (inodes t i) f = (jp, h)" by fastforce
  from itrunc_fold [OF T F n m u] obtain bs e g where
    B: "iupdat (itime t) ((inodes t i)\<lparr>i_size := 0, i_addr := replicate NADDR 0, i_flag := i_flag (inodes t i) OR (IUPD OR ICHG OR ISYN)\<rparr>) f = (e, jp, g)"
      "h = fold free bs g" "fs_free g xs" "distinct bs" "set bs \<inter> set xs = {}" "\<forall>b \<in> set bs. usable g b"
      "set bs = node (i_addr (inodes t i)) (disk f) ` places - {0}" "\<forall>c. c \<noteq> itod (i_number (inodes t i)) \<longrightarrow> disk g c = disk f c"
    by (elim exE conjE) (rule that)
  have nu: "\<not> usable f (itod (i_number ((inodes t i)\<lparr>i_size := 0, i_addr := replicate NADDR 0, i_flag := i_flag (inodes t i) OR (IUPD OR ICHG OR ISYN)\<rparr>)))"
    using n by simp
  note P = blk.put_all [OF B(3,4,5,6), folded B(2)]
  have "usable h = usable f" using P iupdat_frame [OF F nu B(1)] by simp
  moreover have "same_inos f h" using same_inos_trans [OF iupdat_sb [OF F B(1)] frees_inos [OF B(3,4,5,6), folded B(2)]] .
  moreover have "fss (iremove i t) (i_dev (inodes t i)) = ifree (i_number (inodes t i)) h"
    using itrunc_keeps [OF u] unfolding f by (simp add: iremove_def itrunc_tab_def u [unfolded f] ifree_tab_def with_fs_def iupd_def Let_def)
  ultimately show ?thesis using conjunct1 [OF P] B(4,7) by blast
qed

text \<open>All of it: the last reference of a file without links.\<close>

lemma iput_frees:
  assumes c: "i_count (inodes t i) = 1" and l: "i_nlink (inodes t i) \<le>s 0"
    and T: "tree_ok (i_addr (inodes t i)) (fss t (i_dev (inodes t i))) xs" and F: "fs_free (fss t (i_dev (inodes t i))) xs"
    and n: "\<not> usable (fss t (i_dev (inodes t i))) (itod (i_number (inodes t i)))"
    and m: "i_mode (inodes t i) AND IFMT = IFREG \<or> i_mode (inodes t i) AND IFMT = IFDIR"
  shows "let f = fss t (i_dev (inodes t i)); t' = iput i t; f' = fss t' (i_dev (inodes t i)) in
     (\<exists>bs. set bs = node (i_addr (inodes t i)) (disk f) ` places - {0} \<and> distinct bs \<and> fs_free f' (rev bs @ xs)) \<and>
     i_count (inodes t' i) = 0 \<and> i_mode (inodes t' i) = 0 \<and>
     (s_ilock (sb f) = 0 \<longrightarrow> unat (s_ninode (sb f)) < NICINOD \<longrightarrow>
        s_ninode (sb f') = s_ninode (sb f) + 1 \<and> s_inode (sb f') = (s_inode (sb f))[unat (s_ninode (sb f)) := i_number (inodes t i)])"
proof -
  let ?d = "i_dev (inodes t i)" let ?ino = "i_number (inodes t i)" let ?f = "fss t ?d"
  let ?a = "iupd i (\<lambda>ip. ip\<lparr>i_flag := i_flag ip OR ILOCK\<rparr>) t"
  have a: "i_addr (inodes ?a i) = i_addr (inodes t i)" "i_number (inodes ?a i) = ?ino" "i_mode (inodes ?a i) = i_mode (inodes t i)"
    "i_dev (inodes ?a i) = ?d" "fss ?a = fss t" "i_nlink (inodes ?a i) = i_nlink (inodes t i)" by (simp_all add: iupd_def)
  from iremove_frees [of ?a i ?f xs, unfolded a, OF T F n m refl] obtain bs h where
    R: "set bs = node (i_addr (inodes t i)) (disk ?f) ` places - {0}" "distinct bs" "fs_free h (rev bs @ xs)" "usable h = usable ?f" "same_inos ?f h"
       "fss (iremove i ?a) ?d = ifree ?ino h" by blast
  let ?b = "iremove i ?a"
  have tb: "touches marks i ?a ?b" by (rule touches_iremove)
  then have bi: "i_dev (inodes ?b i) = ?d" "i_number (inodes ?b i) = ?ino" by (simp_all add: touches_def a)
  note Z = ifree_ok [OF R(3)]
  have body: "iput_body i t = (if has (IACC OR IUPD OR ICHG) (inodes ?b i) then iupdat_tab i ?b else ?b)"
    unfolding iput_body_def Let_def a(6) using l by simp
  have fb: "fs_free (fss ?b (i_dev (inodes ?b i))) (rev bs @ xs)" "\<not> usable (fss ?b (i_dev (inodes ?b i))) (itod (i_number (inodes ?b i)))"
    unfolding bi R(6) using Z(1,2) R(4) n by simp_all
  have U: "fs_free (fss (iput_body i t) ?d) (rev bs @ xs) \<and> same_inos (ifree ?ino h) (fss (iput_body i t) ?d)"
    using iupdat_tab_fs [OF fb] fb(1) unfolding body bi R(6) by (simp add: same_inos_def R(6))
  have f': "fss (iput i t) ?d = fss (iput_body i t) ?d" by (simp add: iput_last_eq [OF c] iav_last_def iupd_def Let_def)
  have "i_mode (inodes ?b i) = 0" by (simp add: iremove_def ifree_tab_def with_fs_def iupd_def Let_def)
  then have "i_mode (inodes (iput_body i t) i) = 0" unfolding body using iupdat_tab_mode [of i ?b] by simp
  then have "i_count (inodes (iput i t) i) = 0 \<and> i_mode (inodes (iput i t) i) = 0"
    by (simp add: iput_last_eq [OF c] iav_last_def iupd_def Let_def)
  then show ?thesis unfolding Let_def f' using U R(1,2,5) Z(3) by (auto simp: same_inos_def)
qed

text \<open>The entry goes to the end of the list of free entries, and the cleared mode to the disk.\<close>

lemma iput_last_effect:
  assumes c: "i_count (inodes t i) = 1"
  shows "i_flag (inodes (iput i t) i) = 0" "iav_forw (iput i t) = iav_forw (iav_last i t)" "iav_back (iput i t) = iav_back (iav_last i t)"
proof -
  note T = touches_body [of i t]
  show "i_flag (inodes (iput i t) i) = 0" by (simp add: iput_last_eq [OF c] iav_last_def iupd_def Let_def)
  show "iav_forw (iput i t) = iav_forw (iav_last i t)" "iav_back (iput i t) = iav_back (iav_last i t)"
    using T by (simp_all add: iput_last_eq [OF c] touches_def iav_last_def Let_def iupd_def)
qed

lemma iput_listed:
  assumes c: "i_count (inodes t i) = 1" and R: "ring (iav_forw t) (iav_back t) Ifree (map Itab F)" "i \<notin> set F"
  shows "ring (iav_forw (iput i t)) (iav_back (iput i t)) Ifree (map Itab (F @ [i]))"
proof -
  have "Itab i \<notin> set (Ifree # map Itab F)" using R(2) by auto
  then show ?thesis using ring_back [OF R(1)] by (simp add: iput_last_effect [OF c] iav_last_def Let_def)
qed

lemma iupdat_writes:
  assumes "iupdat now ip f = (e, ip', g)" "\<not> io_err g (itod (i_number ip))" "s_ronly (sb g) = 0"
  shows "disk_file g (i_number ip) = (i_mode ip, i_nlink ip)"
  using assms by (auto simp: iupdat_def Let_def disk_file_def put_dinode_reads simp del: add_2_eq_Suc' split: if_splits)

lemma iput_cleared:
  assumes c: "i_count (inodes t i) = 1" and l: "i_nlink (inodes t i) \<le>s 0"
  defines "f' \<equiv> fss (iput i t) (i_dev (inodes t i))"
  assumes r: "\<not> io_err f' (itod (i_number (inodes t i)))" "s_ronly (sb f') = 0"
  shows "fst (disk_file f' (i_number (inodes t i))) = 0"
proof -
  let ?b = "iremove i (iupd i (\<lambda>ip. ip\<lparr>i_flag := i_flag ip OR ILOCK\<rparr>) t)"
  have "touches marks i (iupd i (\<lambda>ip. ip\<lparr>i_flag := i_flag ip OR ILOCK\<rparr>) t) ?b" by (rule touches_iremove)
  then have bi: "i_dev (inodes ?b i) = i_dev (inodes t i)" "i_number (inodes ?b i) = i_number (inodes t i)" by (simp_all add: touches_def iupd_def)
  have m: "i_mode (inodes ?b i) = 0" by (simp add: iremove_def ifree_tab_def with_fs_def iupd_def Let_def)
  have "bit (i_flag (inodes ?b i)) 1" by (simp add: iremove_def ifree_tab_def with_fs_def iupd_def Let_def flag_simps)
  then have "bit (i_flag (inodes ?b i) AND (IACC OR IUPD OR ICHG)) 1" by (simp add: flag_simps)
  then have "has (IACC OR IUPD OR ICHG) (inodes ?b i)" by auto
  moreover have "i_nlink (inodes (iupd i (\<lambda>ip. ip\<lparr>i_flag := i_flag ip OR ILOCK\<rparr>) t) i) \<le>s 0" using l by (simp add: iupd_def)
  ultimately have body: "iput_body i t = iupdat_tab i ?b" unfolding iput_body_def Let_def by (simp only: if_True simp_thms)
  obtain e jp g where u: "iupdat (itime ?b) (inodes ?b i) (fss ?b (i_dev (inodes ?b i))) = (e, jp, g)" by (rule prod_cases3)
  have "fss (iupdat_tab i ?b) (i_dev (inodes ?b i)) = g" unfolding iupdat_tab_def Let_def u prod.case by (simp add: with_fs_def)
  moreover have "fss (iput i t) = fss (iput_body i t)" unfolding iput_last_eq [OF c] by (simp add: iav_last_def iupd_def Let_def)
  ultimately have "f' = g" unfolding f'_def by (simp only: body bi(1))
  then show ?thesis using iupdat_writes [OF u] r m by (simp add: bi)
qed

section \<open>Properties\<close>

lemma istep_names:
  assumes s: "istep t t'" and I: "iinv t" and m: "mounts_ok t" and i: "i < v_inode t" "i_count (inodes t i) \<noteq> 0"
  shows "i_dev (inodes t' i) = i_dev (inodes t i) \<and> i_number (inodes t' i) = i_number (inodes t i)"
proof -
  have g: ?thesis if "gotten t r t'" for r using that i by (cases r) (auto simp: gotten_def grows_def)
  have tch: ?thesis if "inodes t' = (inodes t)(j := inodes t' j)" "i_dev (inodes t' j) = i_dev (inodes t j)" "i_number (inodes t' j) = i_number (inodes t j)" for j
    using that by (cases "i = j") (simp, metis fun_upd_other)
  from s show ?thesis
  proof cases
    case (get dev ino r)
    show ?thesis by (rule g [of r]) (use iget_ok [OF I get(1) m get(2)] in blast)
  next
    case (alloc dev mode nlink uid gid r)
    show ?thesis by (rule g [of r]) (use ialloc_ok [OF I alloc(1) m alloc(2)] in \<open>simp add: allotted_def\<close>)
  next
    case (put j)
    show ?thesis unfolding put(1) using iput_effect [of j t] by auto
  next
    case (lock j r)
    show ?thesis using lock(3) by (auto simp: plock_def want_def iupd_def split: if_splits)
  next
    case (unlock j)
    show ?thesis by (simp add: unlock(1))
  next
    case (change j)
    show ?thesis by (rule tch [of j]) (use change(3) in \<open>simp_all add: touches_def\<close>)
  next
    case (flush dev ok)
    show ?thesis using iflush_ok(2) [OF I flush] by simp
  next
    case (mnt j s ms)
    show ?thesis by (rule tch [of j]) (use mnt(4) in \<open>simp_all add: mnt(1) touches_def\<close>)
  next
    case (other fs x e)
    show ?thesis by (simp add: other)
  qed
qed

lemma one_reach: "ireach one_tab"
proof -
  have "ireach (inoinit (blank_tab 1 demo_inode_fs))" by (rule ireach.start) (simp_all add: blank_tab_def blank_inode_def)
  then show ?thesis by (simp add: ready_tab_init one_tab_def)
qed

lemma one_low: "low one_tab"
proof -
  have "v_inode one_tab = 1" "i_count (inodes one_tab 0) = 0" by code_simp+
  then show ?thesis by (simp add: low_def)
qed

lemma got_reach: "ireach (snd (iget 0 5 one_tab))"
  by (rule ireach.step [OF one_reach]) (metis istep.get one_low prod.collapse)

lemma got_facts: "let (r, t) = iget 0 5 one_tab in
    r = IGot 0 \<and> v_inode t = 1 \<and> i_count (inodes t 0) = 1 \<and> i_dev (inodes t 0) = 0 \<and> i_number (inodes t 0) = 5 \<and> i_mode (inodes t 0) = 0x81A4"
  by code_simp

text \<open>C17: whatever its callers do, in whatever order, the inode table holds at most one inode for each
  number of a device and the search finds it; every search ends; an inode without references is
  unlocked and the free list starts with one whenever there is one; who waits, waits for a locked
  inode whose holder will see the mark.\<close>

theorem inode_table_sound:
  assumes "ireach t"
  shows "(\<forall>i < v_inode t. i_count (inodes t i) \<noteq> 0 \<longrightarrow> ifind (i_dev (inodes t i)) (i_number (inodes t i)) t = Some (Some (Itab i))) \<and>
    (\<forall>dev ino. \<exists>p. ifind dev ino t = Some p) \<and>
    (\<forall>i < v_inode t. i_count (inodes t i) = 0 \<longrightarrow> i_flag (inodes t i) = 0) \<and>
    (iav_forw t Ifree = Ifree \<longleftrightarrow> (\<forall>i < v_inode t. i_count (inodes t i) \<noteq> 0)) \<and>
    (\<forall>i. iav_forw t Ifree = Itab i \<longrightarrow> i < v_inode t \<and> i_count (inodes t i) = 0) \<and>
    (\<forall>i \<in> set (isleepers t). has ILOCK (inodes t i) \<and> has IWANT (inodes t i))"
proof -
  have I: "iinv t" using ireach_ok [OF assms] by simp
  from I obtain L off F where C: "ichained t L off" "ilisted t F" "icore t off" by (rule iinvE)
  have "iav_forw t Ifree = Ifree \<longleftrightarrow> F = []" "iav_forw t Ifree = Itab i \<longrightarrow> i \<in> set F" for i
    using ilisted_first [OF C(2)] by (auto split: list.splits)
  moreover have "F = [] \<longleftrightarrow> (\<forall>i < v_inode t. i_count (inodes t i) \<noteq> 0)" using ilisted_in [OF C(2)] by (cases F) auto
  moreover have "\<exists>p. ifind dev ino t = Some p" for dev ino using ifind_ok [OF C(1), of dev ino] by auto
  ultimately show ?thesis using held_found [OF I] iinvD [OF I] ilisted_in [OF C(2)] by auto
qed

theorem inode_table_sound_witness: "ifind 0 5 (snd (iget 0 5 one_tab)) = Some (Some (Itab 0))"
  using inode_table_sound [OF got_reach] got_facts by (simp add: case_prod_beta)

text \<open>C28: an inode with references stays the inode of its device and number through every step: \<open>iget\<close>
  and \<open>ialloc\<close> give its place to no other file.\<close>

theorem inode_pinned:
  assumes "ireach t" "istep t t'" "i < v_inode t" "i_count (inodes t i) \<noteq> 0"
  shows "i_dev (inodes t' i) = i_dev (inodes t i) \<and> i_number (inodes t' i) = i_number (inodes t i)"
  using istep_names [OF assms(2) _ _ assms(3,4)] ireach_ok [OF assms(1)] by simp

theorem inode_pinned_witness:
  "let t = snd (iget 0 5 one_tab) in i_number (inodes (snd (iget 0 20 t)) 0) = 5"
proof -
  let ?t = "snd (iget 0 5 one_tab)"
  have l: "low ?t" using got_facts by (simp add: low_def case_prod_beta)
  have "istep ?t (snd (iget 0 20 ?t))" by (metis istep.get l prod.collapse)
  from inode_pinned [OF got_reach this, of 0] show ?thesis using got_facts by (simp add: case_prod_beta Let_def)
qed

text \<open>C19: \<open>iget\<close> comes back from every table and every chain of mounts: with a locked inode that has one
  reference more, and is the one asked for unless that is mounted on, or with an error, or asleep on a
  locked inode after marking it; no other count changes. (\<open>low\<close>: no reference count is at its maximum.)\<close>

theorem iget_answers:
  assumes "ireach t" "low t" "iget dev ino t = (r, t')"
  shows "r \<noteq> IStuck \<and>
    (case r of
       IGot i \<Rightarrow> i < v_inode t \<and> has ILOCK (inodes t' i) \<and> i_count (inodes t' i) = i_count (inodes t i) + 1 \<and>
         ((\<forall>k < v_inode t. i_dev (inodes t k) = dev \<longrightarrow> i_number (inodes t k) = ino \<longrightarrow> \<not> has IMOUNT (inodes t k)) \<longrightarrow>
            i_dev (inodes t' i) = dev \<and> i_number (inodes t' i) = ino)
     | IFail \<Rightarrow> ierror t' \<noteq> None
     | ISleep \<Rightarrow> \<exists>i. has ILOCK (inodes t i) \<and> t' = want i t
     | IStuck \<Rightarrow> False) \<and>
    (\<forall>j < v_inode t. r \<noteq> IGot j \<longrightarrow> i_count (inodes t' j) = i_count (inodes t j))"
proof -
  have I: "iinv t" "mounts_ok t" using ireach_ok [OF assms(1)] by simp_all
  have G: "gotten t r t'" "r \<noteq> IStuck" using iget_ok [OF I(1) assms(2) I(2) assms(3)] by simp_all
  show ?thesis
  proof (cases r)
    case (IGot i)
    have n: "(\<forall>k < v_inode t. i_dev (inodes t k) = dev \<longrightarrow> i_number (inodes t k) = ino \<longrightarrow> \<not> has IMOUNT (inodes t k)) \<longrightarrow>
            i_dev (inodes t' i) = dev \<and> i_number (inodes t' i) = ino"
      using iget_named [OF I(1) assms(3) [unfolded IGot]] by blast
    show ?thesis using n G(1) unfolding IGot by (simp add: gotten_def grows_def)
  next
    case IFail
    have "ierror t' \<noteq> None" using iget_fails assms(3) unfolding IFail iget_def by blast
    then show ?thesis using G(1) unfolding IFail by (simp add: gotten_def grows_def)
  next
    case ISleep
    have "\<exists>i. has ILOCK (inodes t i) \<and> t' = want i t" using iget_sleeps assms(3) unfolding ISleep iget_def by blast
    then show ?thesis using G(1) unfolding ISleep by (simp add: gotten_def grows_def)
  qed (use G(2) in simp)
qed

theorem iget_answers_witness: "\<exists>i t'. iget 0 5 one_tab = (IGot i, t') \<and> i_count (inodes t' i) = 1 \<and> i_number (inodes t' i) = 5"
proof -
  obtain t' where e: "iget 0 5 one_tab = (IGot 0, t')" using got_facts by (cases "iget 0 5 one_tab") simp
  have "i_count (inodes one_tab 0) = 0" "i_flag (inodes one_tab 0) = 0" "v_inode one_tab = 1" by code_simp+
  then show ?thesis using iget_answers [OF one_reach one_low e] e by simp
qed

text \<open>C27: the last reference of a removed file gives back all of it: every block of the file, each once, to
  the free blocks of its device; its entry, with mode, marks and count cleared, to the end of the list of free
  entries of the table; its mode on the disk is cleared, unless that block cannot be written; and its
  number goes on the list of free numbers of the super block, when that is not locked and has room for it (otherwise
  the code drops it, and \<open>ialloc\<close> will find it again in the i-list).\<close>

theorem iput_removes:
  assumes "i_count (inodes t i) = 1" "i_nlink (inodes t i) \<le>s 0"
    and "tree_ok (i_addr (inodes t i)) (fss t (i_dev (inodes t i))) xs" "fs_free (fss t (i_dev (inodes t i))) xs"
    and "\<not> usable (fss t (i_dev (inodes t i))) (itod (i_number (inodes t i)))"
    and "i_mode (inodes t i) AND IFMT = IFREG \<or> i_mode (inodes t i) AND IFMT = IFDIR"
  shows "let f = fss t (i_dev (inodes t i)); t' = iput i t; f' = fss t' (i_dev (inodes t i)); ino = i_number (inodes t i) in
     (\<exists>bs. set bs = node (i_addr (inodes t i)) (disk f) ` places - {0} \<and> distinct bs \<and> fs_free f' (rev bs @ xs)) \<and>
     i_count (inodes t' i) = 0 \<and> i_mode (inodes t' i) = 0 \<and> i_flag (inodes t' i) = 0 \<and>
     (\<forall>F. ring (iav_forw t) (iav_back t) Ifree (map Itab F) \<longrightarrow> i \<notin> set F \<longrightarrow> ring (iav_forw t') (iav_back t') Ifree (map Itab (F @ [i]))) \<and>
     (\<not> io_err f' (itod ino) \<longrightarrow> s_ronly (sb f') = 0 \<longrightarrow> fst (disk_file f' ino) = 0) \<and>
     (s_ilock (sb f) = 0 \<longrightarrow> unat (s_ninode (sb f)) < NICINOD \<longrightarrow>
        s_ninode (sb f') = s_ninode (sb f) + 1 \<and> s_inode (sb f') = (s_inode (sb f))[unat (s_ninode (sb f)) := ino])"
  using iput_frees [OF assms] iput_last_effect(1) [OF assms(1)] iput_listed [OF assms(1)] iput_cleared [OF assms(1,2)]
  unfolding Let_def by blast

definition gone_tab :: itab where
  "gone_tab = one_tab\<lparr>inodes := (\<lambda>_. demo_ip\<lparr>i_count := 1, i_nlink := 0, i_dev := 0\<rparr>), fss := (\<lambda>_. demo_fs), iav_forw := (\<lambda>p. p), iav_back := (\<lambda>p. p)\<rparr>"

theorem iput_removes_witness:
  "(\<exists>bs. distinct bs \<and> fs_free (fss (iput 0 gone_tab) 0) (rev bs @ [20, 21])) \<and> s_ninode (sb (fss (iput 0 gone_tab) 0)) = 1 \<and>
   ring (iav_forw (iput 0 gone_tab)) (iav_back (iput 0 gone_tab)) Ifree [Itab 0]"
proof -
  have g: "inodes gone_tab 0 = demo_ip\<lparr>i_count := 1, i_nlink := 0, i_dev := 0\<rparr>" "fss gone_tab 0 = demo_fs" by (simp_all add: gone_tab_def)
  have T: "tree_ok (i_addr demo_ip) demo_fs [20, 21]" using demo_file_ok by (simp add: file_ok_def)
  have n: "\<not> usable demo_fs (itod (i_number demo_ip))" by code_simp
  have m: "i_mode demo_ip AND IFMT = IFREG \<or> i_mode demo_ip AND IFMT = IFDIR" by (simp add: demo_ip_def IFMT_def IFREG_def)
  have s: "s_ilock (sb demo_fs) = 0" "s_ninode (sb demo_fs) = 0" by code_simp+
  have r: "ring (iav_forw gone_tab) (iav_back gone_tab) Ifree (map Itab [])" by (simp add: ring_def gone_tab_def)
  let ?ip = "demo_ip\<lparr>i_count := 1, i_nlink := 0, i_dev := 0\<rparr>"
  have P: "i_count ?ip = 1" "i_nlink ?ip \<le>s 0" "tree_ok (i_addr ?ip) demo_fs [20, 21]" "fs_free demo_fs [20, 21]"
    "\<not> usable demo_fs (itod (i_number ?ip))" "i_mode ?ip AND IFMT = IFREG \<or> i_mode ?ip AND IFMT = IFDIR"
    using T n m demo_fs_free by simp_all
  have d: "i_dev ?ip = 0" by simp
  from iput_removes [of gone_tab 0 "[20, 21]", unfolded g d Let_def, OF P] show ?thesis using s r by (elim conjE) (erule allE [where x = "[]"], auto)
qed






end
