(* ===== verification/Read_Write.thy ===== *)
theory Read_Write
  imports File_Blocks
begin

text \<open>
  Reading and writing files, \<open>os/rdwri.c\<close>: \<open>readi\<close>, \<open>writei\<close> and \<open>iomove\<close> on every type of file, pipes
  included, through \<open>bmap\<close> and the blocks of the mounted devices. The buffer cache is transparent: the
  contents of a block are those the cache shows, delayed writes included.
\<close>

section \<open>The user structure and the devices\<close>

text \<open>The position of the transfer, as \<open>bmap\<close> sees it, and the memory at the other end: the segment of
  \<open>u_base\<close>, in which addresses wrap. \<open>u_ok\<close> is the answer of the assembly routine \<open>useracc\<close> for an
  address, a length and whether the access writes.\<close>

record usr =
  uu :: uio
  u_base :: u16
  u_segflg :: byte
  u_fmode :: u16
  u_err :: "errno option"
  umem :: "u16 \<Rightarrow> byte"
  u_ok :: "u16 \<Rightarrow> u16 \<Rightarrow> bool \<Rightarrow> bool"

text \<open>What drivers and buffers decide: what a read that failed leaves in the buffer, \<open>None\<close> when it leaves a
  residual count; the contents of a buffer that \<open>getblk\<close> returns unread; whether so few buffers are
  free that \<open>bawrite\<close> waits; and the character devices' entries in \<open>cdevsw\<close> and \<open>linesw\<close>, by device.\<close>

record drv =
  lost :: "u32 \<Rightarrow> block option"
  stale :: "u32 \<Rightarrow> block"
  few :: bool
  chr_read :: "u32 \<Rightarrow> usr \<Rightarrow> usr"
  chr_write :: "u32 \<Rightarrow> usr \<Rightarrow> usr"

definition FREAD :: u16 where "FREAD = 1"
definition FWRITE :: u16 where "FWRITE = 2"
definition FNDELAY :: u16 where "FNDELAY = 4"
definition FAPPEND :: u16 where "FAPPEND = 8"
definition FSYNC :: u16 where "FSYNC = 0x10"

abbreviation PIPSIZ :: nat where "PIPSIZ \<equiv> 5120"

section \<open>Pipes in the inode\<close>

text \<open>The shorts \<open>i_f\<close> that share the place of the addresses.\<close>

definition get_f :: "nat \<Rightarrow> inode \<Rightarrow> u16" where
  "get_f k ip = (let a = i_addr ip ! (k div 2) in if even k then ucast a else ucast (drop_bit 16 a))"

definition set_f :: "nat \<Rightarrow> u16 \<Rightarrow> inode \<Rightarrow> inode" where
  "set_f k x ip =
     (let a = i_addr ip ! (k div 2)
      in ip\<lparr>i_addr := (i_addr ip)[k div 2 := (if even k then (a AND 0xFFFF0000) OR ucast x else (a AND 0xFFFF) OR push_bit 16 (ucast x))]\<rparr>)"

abbreviation "i_frptr \<equiv> get_f 21"
abbreviation "i_fwptr \<equiv> get_f 22"
abbreviation "i_frcnt \<equiv> get_f 23"
abbreviation "i_fwcnt \<equiv> get_f 24"
abbreviation "i_fflag \<equiv> get_f 25"

definition IFIR :: u16 where "IFIR = 1"
definition IFIW :: u16 where "IFIW = 2"

text \<open>Wakeups and signals a call causes, and how it ends: \<open>RLoop\<close> when the passes of a long write to a
  pipe do not come to an end.\<close>

datatype rw_event = WakeReaders | WakeWriters | SigPipe | WakeInode
datatype rw_end = RDone | RSleep | RLoop

section \<open>iomove\<close>

definition moved :: "u16 \<Rightarrow> usr \<Rightarrow> usr" where
  "moved n us = us\<lparr>u_base := u_base us + n, uu := (uu us)\<lparr>u_offset := u_offset (uu us) + ucast n, u_count := u_count (uu us) - n\<rparr>\<rparr>"

definition copy_out :: "block \<Rightarrow> nat \<Rightarrow> u16 \<Rightarrow> u16 \<Rightarrow> (u16 \<Rightarrow> byte) \<Rightarrow> u16 \<Rightarrow> byte" where
  "copy_out b on n base m = (\<lambda>a. if unat (a - base) < unat n then b (on + unat (a - base)) else m a)"

definition copy_in :: "(u16 \<Rightarrow> byte) \<Rightarrow> u16 \<Rightarrow> nat \<Rightarrow> u16 \<Rightarrow> block \<Rightarrow> block" where
  "copy_in m base on n b = (\<lambda>k. if on \<le> k \<and> k < on + unat n then m (base + of_nat (k - on)) else b k)"

definition iomove_out :: "block \<Rightarrow> nat \<Rightarrow> u16 \<Rightarrow> usr \<Rightarrow> usr" where
  "iomove_out b on n us =
     (if n = 0 then us
      else if u_segflg us \<noteq> 1 \<and> \<not> u_ok us (u_base us) n True then us\<lparr>u_err := Some EFAULT\<rparr>
      else moved n (us\<lparr>umem := copy_out b on n (u_base us) (umem us)\<rparr>))"

definition iomove_in :: "nat \<Rightarrow> u16 \<Rightarrow> block \<Rightarrow> usr \<Rightarrow> block \<times> usr" where
  "iomove_in on n b us =
     (if n = 0 then (b, us)
      else if u_segflg us \<noteq> 1 \<and> \<not> u_ok us (u_base us) n False then (b, us\<lparr>u_err := Some EFAULT\<rparr>)
      else (copy_in (umem us) (u_base us) on n b, moved n us))"

section \<open>readi\<close>

definition reply_bn :: "bmap_reply \<Rightarrow> u32" where
  "reply_bn r = (case r of Blk b \<Rightarrow> b | _ \<Rightarrow> - 1)"

definition bmap_err :: "bmap_reply \<Rightarrow> usr \<Rightarrow> usr" where
  "bmap_err r us = (case r of Bad e \<Rightarrow> us\<lparr>u_err := Some e\<rparr> | _ \<Rightarrow> us)"

text \<open>What \<open>bread\<close> leaves: the contents of the buffer and whether there is a residual count.\<close>

definition bread_u :: "drv \<Rightarrow> fs \<Rightarrow> u32 \<Rightarrow> usr \<Rightarrow> block \<times> bool \<times> usr" where
  "bread_u dv f bn us =
     (if io_err f bn then
        (case lost dv bn of None \<Rightarrow> (stale dv bn, True, us\<lparr>u_err := Some EIO\<rparr>) | Some b \<Rightarrow> (b, False, us\<lparr>u_err := Some EIO\<rparr>))
      else (disk f bn, False, us))"

text \<open>When a pipe's block has been read to its end its delayed write is dropped: from then on the block has
  whatever contents (\<open>stale\<close>).\<close>

definition write_blk :: "u32 \<Rightarrow> block \<Rightarrow> fs \<Rightarrow> fs" where
  "write_blk bn b f = f\<lparr>disk := (disk f)(bn := b)\<rparr>"

definition read_put :: "drv \<Rightarrow> u32 \<Rightarrow> uio \<Rightarrow> u16 \<Rightarrow> (u16 \<Rightarrow> fs) \<Rightarrow> inode \<Rightarrow> usr \<Rightarrow> bool \<times> inode \<times> usr \<times> (u16 \<Rightarrow> fs)" where
  "read_put dv bn u n fss ip us =
     (let fifo = (i_mode ip AND IFMT = IFIFO);
          ip = (if fifo then ip\<lparr>i_size := i_size ip - ucast n\<rparr> else ip);
          us = (if fifo \<and> of_nat PIPSIZ \<le>s u_offset (uu us) then us\<lparr>uu := (uu us)\<lparr>u_offset := 0\<rparr>\<rparr> else us);
          fss = (if fifo \<and> u_pboff u + n = 1024 \<and> i_size ip <s of_nat PIPSIZ - 1024
                 then fss(u_pbdev u := write_blk bn (stale dv bn) (fss (u_pbdev u))) else fss)
      in (u_err us = None \<and> u_count (uu us) \<noteq> 0 \<and> n \<noteq> 0, ip\<lparr>i_flag := i_flag ip OR IACC\<rparr>, us, fss))"

text \<open>One round of the loop; the answer is whether there is another.\<close>

definition read_once :: "drv \<Rightarrow> (u16 \<times> u16) list \<Rightarrow> (u16 \<Rightarrow> fs) \<Rightarrow> inode \<Rightarrow> usr \<Rightarrow> bool \<times> inode \<times> usr \<times> (u16 \<Rightarrow> fs)" where
  "read_once dv mnt fss ip us =
     (case bmap mnt True ip (uu us) (fss (i_dev ip)) of
        (r, ip, u, _) \<Rightarrow>
          (let us = bmap_err r (us\<lparr>uu := u\<rparr>); bn = reply_bn r; n = u_pbsize u
           in if u_err us \<noteq> None then (False, ip, us, fss)
              else if n = 0 then (False, ip, us, fss)
              else if bn <s 0 \<and> i_mode ip AND IFMT \<noteq> IFREG then (False, ip, us, fss)
              else
                (case (if bn <s 0 then (\<lambda>_. 0, False, us) else bread_u dv (fss (u_pbdev u)) bn us) of
                   (b, resid, us) \<Rightarrow>
                     (let n = (if resid then 0 else n) in read_put dv bn u n fss ip (iomove_out b (unat (u_pboff u)) n us)))))"

text \<open>\<open>bmap\<close> keeps the position and answers no more bytes than asked for.\<close>

lemma bmap_part_fields:
  assumes "bmap_part mnt rf ip u = (r, bn, ra, ip', u')"
  shows "u_count u' = u_count u" "u_offset u' = u_offset u" "u_limit u' = u_limit u"
    "(\<forall>e. r \<noteq> Some (Bad e)) \<Longrightarrow> u_pbsize u' \<le> u_count u \<and> u_pbsize u' \<le> 1024 - bmap_off u \<and> u_pboff u' = bmap_off u"
    "\<not> rf \<Longrightarrow> (\<forall>e. r \<noteq> Some (Bad e)) \<Longrightarrow> u_pbsize u' = min (u_count u) (1024 - bmap_off u)"
    "i_mode ip' = i_mode ip" "i_size ip' = i_size ip" "i_dev ip' = i_dev ip" "i_number ip' = i_number ip" "i_flag ip' = i_flag ip"
    "i_addr ip' = i_addr ip" "i_nlink ip' = i_nlink ip"
    "i_mode ip AND IFMT \<noteq> IFBLK \<Longrightarrow> u_pbdev u' = i_dev ip"
proof -
  have rest: "bmap_rest ip u sz \<le> sz" for ip u sz
  proof (cases "bmap_rest ip u sz = sz")
    case False
    define rem where "rem = (let r = (if i_mode ip AND IFMT = IFIFO then i_size ip else i_size ip - u_offset u) in if r <s 0 then 0 else r)"
    have e: "bmap_rest ip u sz = (if rem <s ucast sz then ucast rem else sz)" by (simp add: bmap_rest_def rem_def Let_def)
    have nn: "0 \<le> sint rem" by (auto simp: rem_def Let_def word_sless_alt)
    have l: "rem <s ucast sz" "bmap_rest ip u sz = ucast rem" using e False by (auto split: if_splits)
    have us: "unat (ucast sz :: u32) = unat sz" using u16_lt [of sz] by (simp add: unsigned_ucast_eq take_bit_nat_eq_self)
    then have "sint (ucast sz :: u32) = int (unat sz)" using sint32 [of "ucast sz"] u16_lt [of sz] by simp
    moreover have "int (unat rem) = sint rem" using sless0_u32 [of rem] sint32 [of rem] nn by (auto simp: word_sless_alt)
    ultimately have "int (unat rem) < int (unat sz)" using l(1) unfolding word_sless_alt by (simp del: of_nat_unat)
    then have "unat rem < unat sz" by linarith
    then show ?thesis using l(2) u16_lt [of sz] by (simp add: word_le_nat_alt unsigned_ucast_eq take_bit_nat_eq_self)
  qed simp
  define sz where "sz = (if u_count u < 1024 - bmap_off u then u_count u else 1024 - bmap_off u)"
  have sz: "sz = min (u_count u) (1024 - bmap_off u)" by (auto simp: sz_def min_def)
  define dv where "dv = (if i_mode ip AND IFMT = IFBLK then bmap_dev mnt (ucast (i_addr ip ! 0)) else i_dev ip)"
  define jp where "jp = (if u_count u < 1024 - bmap_off u then ip else ip\<lparr>i_lastr := signed_drop_bit 10 (u_offset u)\<rparr>)"
  define v where "v = u\<lparr>u_rablock := 0, u_pbdev := dv, u_pboff := bmap_off u, u_pbsize := sz\<rparr>"
  have off: "bmap_off (u\<lparr>u_rablock := a, u_pbdev := d\<rparr>) = bmap_off u" for a d by (simp add: bmap_off_def)
  have J: "i_mode jp = i_mode ip" "i_size jp = i_size ip" "i_dev jp = i_dev ip" "i_number jp = i_number ip" "i_flag jp = i_flag ip"
    "i_addr jp = i_addr ip" "i_nlink jp = i_nlink ip" by (simp_all add: jp_def)
  have C: "(\<exists>e. r = Some (Bad e)) \<and> (ip' = ip \<and> u' = u\<lparr>u_rablock := 0, u_pbdev := dv\<rparr> \<or> ip' = jp \<and> u' = v) \<or>
    (\<forall>e. r \<noteq> Some (Bad e)) \<and> ip' = jp \<and> (u' = v \<or> (\<exists>x. u' = v\<lparr>u_rablock := x\<rparr>) \<or> rf \<and> u' = v\<lparr>u_pbsize := bmap_rest jp v sz\<rparr>)"
  proof (cases "signed_drop_bit 10 (u_offset u) <s 0")
    case True
    then have "bmap_part mnt rf ip u = (Some (Bad EFBIG), signed_drop_bit 10 (u_offset u), False, ip, u\<lparr>u_rablock := 0, u_pbdev := dv\<rparr>)"
      by (simp add: bmap_part_def Let_def dv_def)
    then show ?thesis using assms by auto
  next
    case nn: False
    let ?ra = "i_lastr ip + 1 = signed_drop_bit 10 (u_offset u) \<and> \<not> u_count u < 1024 - bmap_off u"
    have e: "bmap_part mnt rf ip u =
      (if i_mode ip AND IFMT = IFBLK then (Some (Blk (signed_drop_bit 10 (u_offset u))), signed_drop_bit 10 (u_offset u), ?ra, jp, if ?ra then v\<lparr>u_rablock := signed_drop_bit 10 (u_offset u) + 1\<rparr> else v)
       else if rf then (if bmap_rest jp v sz = 0 then Some Hole else None, signed_drop_bit 10 (u_offset u), ?ra \<and> i_mode ip AND IFMT \<noteq> IFIFO, jp, v\<lparr>u_pbsize := bmap_rest jp v sz\<rparr>)
       else if ptol (u_limit u) \<le>s signed_drop_bit 10 (u_offset u) then (Some (Bad EFBIG), signed_drop_bit 10 (u_offset u), ?ra, jp, v)
       else (None, signed_drop_bit 10 (u_offset u), ?ra, jp, v))"
      using nn by (simp only: bmap_part_def Let_def off dv_def jp_def v_def sz_def if_False if_True simp_thms)
        (simp add: if_distrib)
    show ?thesis using assms [symmetric] unfolding e by (auto split: if_splits)
  qed
  have b: "bmap_rest jp v sz \<le> min (u_count u) (1024 - bmap_off u)" using rest [of jp v sz] sz by simp
  have V: "u_count v = u_count u" "u_offset v = u_offset u" "u_limit v = u_limit u" "u_pbsize v = sz" "u_pboff v = bmap_off u" "u_pbdev v = dv"
    by (simp_all add: v_def)
  show "u_count u' = u_count u" "u_offset u' = u_offset u" "u_limit u' = u_limit u" using C V by auto
  show "(\<forall>e. r \<noteq> Some (Bad e)) \<Longrightarrow> u_pbsize u' \<le> u_count u \<and> u_pbsize u' \<le> 1024 - bmap_off u \<and> u_pboff u' = bmap_off u"
    using C V b sz by auto
  show "\<not> rf \<Longrightarrow> (\<forall>e. r \<noteq> Some (Bad e)) \<Longrightarrow> u_pbsize u' = min (u_count u) (1024 - bmap_off u)" using C V sz by auto
  show "i_mode ip' = i_mode ip" "i_size ip' = i_size ip" "i_dev ip' = i_dev ip" "i_number ip' = i_number ip" "i_flag ip' = i_flag ip"
    "i_addr ip' = i_addr ip" "i_nlink ip' = i_nlink ip" using C J by auto
  show "i_mode ip AND IFMT \<noteq> IFBLK \<Longrightarrow> u_pbdev u' = i_dev ip" using C V(6) by (auto simp: dv_def)
qed

lemma bmap_fields:
  assumes "bmap mnt rf ip u f = (r, ip', u', f')"
  shows "u_count u' = u_count u" "u_offset u' = u_offset u" "u_limit u' = u_limit u"
    "(\<forall>e. r \<noteq> Bad e) \<Longrightarrow> u_pbsize u' \<le> u_count u \<and> u_pbsize u' \<le> 1024 - bmap_off u \<and> u_pboff u' = bmap_off u"
    "\<not> rf \<Longrightarrow> (\<forall>e. r \<noteq> Bad e) \<Longrightarrow> u_pbsize u' = min (u_count u) (1024 - bmap_off u)"
    "i_mode ip' = i_mode ip" "i_size ip' = i_size ip" "i_dev ip' = i_dev ip" "i_number ip' = i_number ip" "i_nlink ip' = i_nlink ip"
    "i_mode ip AND IFMT \<noteq> IFBLK \<Longrightarrow> u_pbdev u' = i_dev ip"
proof -
  obtain q bn ra jp v where p: "bmap_part mnt rf ip u = (q, bn, ra, jp, v)" by (metis prod.collapse)
  note F = bmap_part_fields [OF p]
  have top: "i_mode b = i_mode a \<and> i_size b = i_size a \<and> i_dev b = i_dev a \<and> i_number b = i_number a \<and> i_nlink b = i_nlink a"
    if "bmap_top rf k a f = (s, b, g)" for k a s b g
    using that by (auto simp: bmap_top_def Let_def split: if_splits prod.splits bmap_reply.splits)
  have ra: "u' = v \<or> (\<exists>x. u' = v\<lparr>u_rablock := x\<rparr>)" and ip: "i_mode ip' = i_mode jp \<and> i_size ip' = i_size jp \<and> i_dev ip' = i_dev jp \<and> i_number ip' = i_number jp \<and> i_nlink ip' = i_nlink jp"
    using assms unfolding bmap_def p
    by (auto simp: bmap_direct_def bmap_indirect_def split: option.splits prod.splits if_splits bmap_reply.splits dest!: top)
  have q: "\<forall>e. q \<noteq> Some (Bad e)" if "\<forall>e. r \<noteq> Bad e"
    using assms that unfolding bmap_def p by auto
  show "u_count u' = u_count u" "u_offset u' = u_offset u" "u_limit u' = u_limit u" using ra F(1-3) by auto
  show "(\<forall>e. r \<noteq> Bad e) \<Longrightarrow> u_pbsize u' \<le> u_count u \<and> u_pbsize u' \<le> 1024 - bmap_off u \<and> u_pboff u' = bmap_off u"
    using ra F(4) [OF q] by auto
  show "\<not> rf \<Longrightarrow> (\<forall>e. r \<noteq> Bad e) \<Longrightarrow> u_pbsize u' = min (u_count u) (1024 - bmap_off u)" using ra F(5) [OF _ q] by auto
  show "i_mode ip' = i_mode ip" "i_size ip' = i_size ip" "i_dev ip' = i_dev ip" "i_number ip' = i_number ip" "i_nlink ip' = i_nlink ip" using ip F(6-9,12) by simp_all
  show "i_mode ip AND IFMT \<noteq> IFBLK \<Longrightarrow> u_pbdev u' = i_dev ip" using ra F(13) by auto
qed

lemma bmap_err_fields [simp]:
  "uu (bmap_err r us) = uu us" "u_base (bmap_err r us) = u_base us" "u_segflg (bmap_err r us) = u_segflg us" "u_fmode (bmap_err r us) = u_fmode us"
  "umem (bmap_err r us) = umem us" "u_ok (bmap_err r us) = u_ok us"
  by (cases r; simp add: bmap_err_def)+

lemma bmap_err_none: "u_err (bmap_err r us) = None \<longleftrightarrow> u_err us = None \<and> (\<forall>e. r \<noteq> Bad e)"
  by (cases r) (auto simp: bmap_err_def)

lemma count_down: "n \<noteq> 0 \<Longrightarrow> n \<le> c \<Longrightarrow> unat (c - n) < unat (c :: u16)"
  using unat_minus_small [of n c] by (simp add: word_le_nat_alt) (metis unat_eq_0_iff diff_less le_zero_eq not_gr_zero)

lemma read_put_us:
  assumes "read_put dv bn u n fss ip us = (go, ip', us', fss')"
  shows "go \<longleftrightarrow> u_err us = None \<and> u_count (uu us) \<noteq> 0 \<and> n \<noteq> 0" "u_count (uu us') = u_count (uu us)" "u_err us' = u_err us"
  using assms by (auto simp: read_put_def Let_def split: if_splits)

lemma read_once_count:
  assumes "read_once dv mnt fss ip us = (True, ip', us', fss')"
  shows "unat (u_count (uu us')) < unat (u_count (uu us))"
proof -
  obtain r jp u f where b: "bmap mnt True ip (uu us) (fss (i_dev ip)) = (r, jp, u, f)" by (metis prod.collapse)
  note F = bmap_fields [OF b]
  let ?us = "bmap_err r (us\<lparr>uu := u\<rparr>)" let ?bn = "reply_bn r"
  have e: "u_err ?us = None" "u_pbsize u \<noteq> 0"
    using assms by (simp_all add: read_once_def b Let_def split: if_splits)
  obtain c resid ws where d: "(if ?bn <s 0 then (\<lambda>_. 0, False, ?us) else bread_u dv (fss (u_pbdev u)) ?bn ?us) = (c, resid, ws)" by (metis prod.collapse)
  have ws: "uu ws = u" using d by (auto simp: bread_u_def split: if_splits option.splits)
  have n: "u_pbsize u \<le> u_count u" using F(1) F(4) e(1) by (simp add: bmap_err_none)
  let ?n = "if resid then 0 else u_pbsize u" let ?vs = "iomove_out c (unat (u_pboff u)) ?n ws"
  have "read_put dv ?bn u ?n fss jp ?vs = (True, ip', us', fss')"
    using assms e unfolding read_once_def b Let_def prod.case d by (simp split: if_splits)
  note P = read_put_us [OF this]
  have "u_count (uu us') = u_count u - u_pbsize u"
    using P e(2) by (auto simp: iomove_out_def moved_def ws split: if_splits)
  then show ?thesis using count_down [OF e(2) n] F(1) by simp
qed

function read_loop :: "drv \<Rightarrow> (u16 \<times> u16) list \<Rightarrow> (u16 \<Rightarrow> fs) \<Rightarrow> inode \<Rightarrow> usr \<Rightarrow> inode \<times> usr \<times> (u16 \<Rightarrow> fs)" where
  "read_loop dv mnt fss ip us =
     (case read_once dv mnt fss ip us of (go, ip, us, fss) \<Rightarrow> if go then read_loop dv mnt fss ip us else (ip, us, fss))"
  by pat_completeness auto
termination
  by (relation "measure (\<lambda>(dv, mnt, fss, ip, us). unat (u_count (uu us)))") (auto dest: read_once_count sym)

definition ip_prele :: "inode \<Rightarrow> inode" where
  "ip_prele ip = ip\<lparr>i_flag := (i_flag ip AND NOT ILOCK) AND NOT IWANT\<rparr>"

definition readi :: "drv \<Rightarrow> (u16 \<times> u16) list \<Rightarrow> (u16 \<Rightarrow> fs) \<Rightarrow> inode \<Rightarrow> usr \<Rightarrow> rw_end \<times> rw_event list \<times> inode \<times> usr \<times> (u16 \<Rightarrow> fs)" where
  "readi dv mnt fss ip us =
     (let ty = i_mode ip AND IFMT
      in if u_count (uu us) = 0 then (RDone, [], ip, us, fss)
         else if u_offset (uu us) <s 0 then (RDone, [], ip, us\<lparr>u_err := Some EINVAL\<rparr>, fss)
         else if ty = IFCHR then (RDone, [], ip\<lparr>i_flag := i_flag ip OR IACC\<rparr>, chr_read dv (i_addr ip ! 0) us, fss)
         else if ty = IFIFO then
           (if i_size ip = 0 then
              (if i_fwcnt ip = 0 \<or> u_fmode us AND FNDELAY \<noteq> 0 then (RDone, [], ip, us, fss)
               else (RSleep, [WakeInode], ip_prele (set_f 25 (i_fflag ip OR IFIR) ip), us, fss))
            else
              (case read_loop dv mnt fss ip (us\<lparr>uu := (uu us)\<lparr>u_offset := scast (i_frptr ip)\<rparr>\<rparr>) of
                 (ip, us, fss) \<Rightarrow>
                   (let ip = (if i_size ip \<noteq> 0 then set_f 21 (ucast (u_offset (uu us))) ip else set_f 21 0 (set_f 22 0 ip))
                    in if i_fflag ip AND IFIW \<noteq> 0 then (RDone, [WakeWriters], set_f 25 (i_fflag ip AND NOT IFIW) ip, us, fss)
                       else (RDone, [], ip, us, fss))))
         else if ty = IFBLK \<or> ty = IFREG \<or> ty = IFDIR then (case read_loop dv mnt fss ip us of r \<Rightarrow> (RDone, [], r))
         else (RDone, [], ip, us\<lparr>u_err := Some ENODEV\<rparr>, fss))"

section \<open>writei\<close>

text \<open>One round of the loop; the answer is whether the loop is left by its \<open>break\<close>.\<close>

text \<open>Getting the buffer, and what follows the transfer.\<close>

definition write_get :: "drv \<Rightarrow> u32 \<Rightarrow> uio \<Rightarrow> inode \<Rightarrow> usr \<Rightarrow> (u16 \<Rightarrow> fs) \<Rightarrow> block \<times> usr" where
  "write_get dv bn u ip us fss =
     (if u_pbsize u = 1024 \<or> i_mode ip AND IFMT = IFIFO \<and> u_pboff u = 0 \<and> i_size ip <s of_nat PIPSIZ - 1024 then (stale dv bn, us)
      else (case bread_u dv (fss (u_pbdev u)) bn us of (b, _, us) \<Rightarrow> (b, us)))"

definition write_put :: "drv \<Rightarrow> u32 \<Rightarrow> u16 \<Rightarrow> u16 \<Rightarrow> block \<Rightarrow> inode \<Rightarrow> usr \<Rightarrow> (u16 \<Rightarrow> fs) \<Rightarrow> inode \<times> usr \<times> (u16 \<Rightarrow> fs)" where
  "write_put dv bn dev n b ip us fss =
     (let ty = i_mode ip AND IFMT; bad = ((u_fmode us AND FSYNC \<noteq> 0 \<or> ty = IFBLK \<and> few dv) \<and> io_err (fss dev) bn);
          fss = (if u_err us \<noteq> None \<or> bad then fss else fss(dev := write_blk bn b (fss dev)));
          us = (if u_err us = None \<and> bad then us\<lparr>u_err := Some EIO\<rparr> else us);
          ip = (if ty = IFREG \<or> ty = IFDIR then (if i_size ip <s u_offset (uu us) then ip\<lparr>i_size := u_offset (uu us)\<rparr> else ip)
                else if ty = IFIFO then ip\<lparr>i_size := i_size ip + ucast n\<rparr> else ip);
          us = (if ty = IFIFO \<and> u_offset (uu us) = of_nat PIPSIZ then us\<lparr>uu := (uu us)\<lparr>u_offset := 0\<rparr>\<rparr> else us)
      in (ip\<lparr>i_flag := i_flag ip OR (IUPD OR ICHG)\<rparr>, us, fss))"

definition write_once :: "drv \<Rightarrow> (u16 \<times> u16) list \<Rightarrow> inode \<Rightarrow> usr \<Rightarrow> (u16 \<Rightarrow> fs) \<Rightarrow> bool \<times> inode \<times> usr \<times> (u16 \<Rightarrow> fs)" where
  "write_once dv mnt ip us fss =
     (case bmap mnt False ip (uu us) (fss (i_dev ip)) of
        (r, ip, u, f) \<Rightarrow>
          (let fss = fss(i_dev ip := f); us = bmap_err r (us\<lparr>uu := u\<rparr>); bn = reply_bn r; n = u_pbsize u
           in if u_err us \<noteq> None then (True, ip, us, fss)
              else
                (case write_get dv bn u ip us fss of
                   (b, us) \<Rightarrow> (case iomove_in (unat (u_pboff u)) n b us of (b, us) \<Rightarrow> (False, write_put dv bn (u_pbdev u) n b ip us fss)))))"

lemma write_get_uu: "write_get dv bn u ip us fss = (b, us') \<Longrightarrow> uu us' = uu us"
  by (auto simp: write_get_def bread_u_def split: if_splits option.splits)

lemma write_put_us:
  assumes "write_put dv bn dev n b ip us fss = (ip', us', fss')"
  shows "u_count (uu us') = u_count (uu us)" "u_err us' = None \<Longrightarrow> u_err us = None"
  using assms by (auto simp: write_put_def Let_def split: if_splits)

lemma write_once_count:
  assumes "write_once dv mnt ip us fss = (False, ip', us', fss')" "u_err us' = None" "u_count (uu us) \<noteq> 0"
  shows "unat (u_count (uu us')) < unat (u_count (uu us))"
proof -
  obtain r jp u f where b: "bmap mnt False ip (uu us) (fss (i_dev ip)) = (r, jp, u, f)" by (metis prod.collapse)
  note F = bmap_fields [OF b]
  let ?us = "bmap_err r (us\<lparr>uu := u\<rparr>)" let ?fss = "fss(i_dev jp := f)"
  have e: "u_err ?us = None" using assms(1) by (simp add: write_once_def b Let_def split: if_splits)
  have n: "u_pbsize u = min (u_count (uu us)) (1024 - bmap_off (uu us))" using F(5) e by (simp add: bmap_err_none)
  have nz: "u_pbsize u \<noteq> 0"
  proof -
    have "unat (1024 - bmap_off (uu us)) \<noteq> 0" unfolding bmap_sizes(1) by (simp add: not_le)
    then show ?thesis using n assms(3) by (auto simp: min_def)
  qed
  obtain c ws where d: "write_get dv (reply_bn r) u jp ?us ?fss = (c, ws)" by fastforce
  have ws: "uu ws = u" using write_get_uu [OF d] by simp
  obtain c' vs where v: "iomove_in (unat (u_pboff u)) (u_pbsize u) c ws = (c', vs)" by fastforce
  have "write_put dv (reply_bn r) (u_pbdev u) (u_pbsize u) c' jp vs ?fss = (ip', us', fss')"
    using assms(1) e unfolding write_once_def b Let_def prod.case d v by simp
  note P = write_put_us [OF this]
  have "u_count (uu us') = u_count u - u_pbsize u"
    using P assms(2) v nz by (auto simp: iomove_in_def moved_def ws split: if_splits)
  then show ?thesis using count_down [OF nz, of "u_count (uu us)"] F(1) n by simp
qed

function write_loop :: "drv \<Rightarrow> (u16 \<times> u16) list \<Rightarrow> inode \<Rightarrow> usr \<Rightarrow> (u16 \<Rightarrow> fs) \<Rightarrow> inode \<times> usr \<times> (u16 \<Rightarrow> fs)" where
  "write_loop dv mnt ip us fss =
     (if u_err us = None \<and> u_count (uu us) \<noteq> 0 then
        (case write_once dv mnt ip us fss of
           (brk, ip, us, fss) \<Rightarrow> if brk \<or> u_err us \<noteq> None then (ip, us, fss) else write_loop dv mnt ip us fss)
      else (ip, us, fss))"
  by pat_completeness auto
termination
  by (relation "measure (\<lambda>(dv, mnt, ip, us, fss). unat (u_count (uu us)))") (auto dest!: write_once_count [OF sym])

text \<open>The wait for room in a pipe: how much of the request is kept for the next pass, or why there is none.\<close>

datatype fifo_room = Room u16 usr | NoWait | Full

definition fifo_wait :: "inode \<Rightarrow> usr \<Rightarrow> fifo_room" where
  "fifo_wait ip us =
     (let c = u_count (uu us)
      in if of_nat PIPSIZ <s ucast c + i_size ip then
           (if i_frcnt ip = 0 then Room 0 us
            else if of_nat PIPSIZ < c \<and> i_size ip <s of_nat PIPSIZ then
              (let c' = ucast (of_nat PIPSIZ - i_size ip) in Room (c - c') (us\<lparr>uu := (uu us)\<lparr>u_count := c'\<rparr>\<rparr>))
            else if u_fmode us AND FNDELAY \<noteq> 0 then NoWait
            else Full)
         else Room 0 us)"

text \<open>The passes of a write to a pipe.\<close>

fun fifo_write :: "nat \<Rightarrow> drv \<Rightarrow> (u16 \<times> u16) list \<Rightarrow> inode \<Rightarrow> usr \<Rightarrow> (u16 \<Rightarrow> fs) \<Rightarrow> rw_end \<times> rw_event list \<times> inode \<times> usr \<times> (u16 \<Rightarrow> fs)" where
  "fifo_write 0 dv mnt ip us fss = (RLoop, [], ip, us, fss)"
| "fifo_write (Suc k) dv mnt ip us fss =
     (case fifo_wait ip us of
        NoWait \<Rightarrow> (RDone, [], ip, us, fss)
      | Full \<Rightarrow> (RSleep, [WakeInode], ip_prele (set_f 25 (i_fflag ip OR IFIW) ip), us, fss)
      | Room usave us \<Rightarrow>
          if i_frcnt ip = 0 then (RDone, [SigPipe], ip, us\<lparr>u_err := Some EPIPE\<rparr>, fss)
          else
            (case write_loop dv mnt ip (us\<lparr>uu := (uu us)\<lparr>u_offset := scast (i_fwptr ip)\<rparr>\<rparr>) fss of
               (ip, us, fss) \<Rightarrow>
                 (let ip = set_f 22 (ucast (u_offset (uu us))) ip; wake = (i_fflag ip AND IFIR \<noteq> 0);
                      ip = (if wake then set_f 25 (i_fflag ip AND NOT IFIR) ip else ip); ev = (if wake then [WakeReaders] else [])
                  in if u_err us = None \<and> usave \<noteq> 0
                     then (case fifo_write k dv mnt ip (us\<lparr>uu := (uu us)\<lparr>u_count := usave\<rparr>\<rparr>) fss of (e, evs, r) \<Rightarrow> (e, ev @ evs, r))
                     else (RDone, ev, ip, us, fss))))"

text \<open>After a pass that leaves something over the pipe is full, so the second pass ends the call.\<close>

definition writei :: "drv \<Rightarrow> (u16 \<times> u16) list \<Rightarrow> inode \<Rightarrow> usr \<Rightarrow> (u16 \<Rightarrow> fs) \<Rightarrow> rw_end \<times> rw_event list \<times> inode \<times> usr \<times> (u16 \<Rightarrow> fs)" where
  "writei dv mnt ip us fss =
     (let ty = i_mode ip AND IFMT
      in if u_offset (uu us) <s 0 then (RDone, [], ip, us\<lparr>u_err := Some EINVAL\<rparr>, fss)
         else if ty = IFCHR then (RDone, [], ip\<lparr>i_flag := i_flag ip OR (IUPD OR ICHG)\<rparr>, chr_write dv (i_addr ip ! 0) us, fss)
         else if ty = IFIFO then fifo_write 2 dv mnt ip us fss
         else if ty = IFBLK \<or> ty = IFREG \<or> ty = IFDIR then (case write_loop dv mnt ip us fss of r \<Rightarrow> (RDone, [], r))
         else (RDone, [], ip, us\<lparr>u_err := Some ENODEV\<rparr>, fss))"

end
