(* ===== verification/File_Contents.thy ===== *)
theory File_Contents
  imports Read_Write
begin

text \<open>
  What reading and writing do to the contents of a regular file, seen as the sequence of its bytes:
  \<open>writei\<close> replaces the bytes at the offset and leaves all others, \<open>readi\<close> delivers the bytes at the
  offset, zeros for holes. The blocks, the allocation and the indirect blocks no longer show.
\<close>

section \<open>The contents of a file\<close>

definition fbyte :: "u32 list \<Rightarrow> (u32 \<Rightarrow> block) \<Rightarrow> nat \<Rightarrow> byte" where
  "fbyte as d k = (let b = file_block as d (k div 1024) in if b = 0 then 0 else d b (k mod 1024))"

text \<open>Changing the contents of a block of the file does not move any block.\<close>

lemma leaf_nodes:
  assumes T: "tree_ok as f xs" and P: "P \<in> places" "leaf P" "node as (disk f) P = b" "b \<noteq> 0"
    and d: "\<And>c. c \<noteq> b \<Longrightarrow> d c = disk f c" and Q: "Q \<in> places"
  shows "node as d Q = node as (disk f) Q"
proof (cases Q)
  case (Pair t q)
  have "walk d (as ! t) q = walk (disk f) (as ! t) q"
  proof (rule walk_cong)
    fix r j v assume q: "q = r @ j # v" and nz: "walk (disk f) (as ! t) r \<noteq> 0"
    then have pl: "(t, r) \<in> places" using Q Pair places_prefix by blast
    have nl: "\<not> leaf (t, r)" using Q Pair q by (auto simp: leaf_def places_def)
    have "walk (disk f) (as ! t) r \<noteq> b"
    proof
      assume e: "walk (disk f) (as ! t) r = b"
      have "(t, r) = P" by (rule tree_okD(3) [OF T P(1) _ pl]) (use e P(3,4) in simp_all)
      then show False using nl P(2) by simp
    qed
    then show "rd32 (d (walk (disk f) (as ! t) r)) (4 * j) = rd32 (disk f (walk (disk f) (as ! t) r)) (4 * j)" by (simp add: d)
  qed
  then show ?thesis using Pair by simp
qed

lemma file_block_cong: "(\<And>Q. Q \<in> places \<Longrightarrow> node as d' Q = node as d Q) \<Longrightarrow> file_block as d' n = file_block as d n"
  by (auto simp: file_block_def place_leaf split: option.splits)

lemma write_blk_file:
  assumes F: "file_ok ip f xs" and b: "file_block (i_addr ip) (disk f) n = b" "b \<noteq> 0"
  shows "file_ok ip (write_blk b c f) xs" "file_block (i_addr ip) (disk (write_blk b c f)) m = file_block (i_addr ip) (disk f) m"
proof -
  have T: "tree_ok (i_addr ip) f xs" "fs_free f xs" using F by (simp_all add: file_ok_def)
  obtain P where P: "place n = Some P" using b by (auto simp: file_block_def split: option.splits)
  then have p: "P \<in> places" "leaf P" "node (i_addr ip) (disk f) P = b" using place_leaf b by (auto simp: file_block_def)
  have N: "node (i_addr ip) (disk (write_blk b c f)) Q = node (i_addr ip) (disk f) Q" if "Q \<in> places" for Q
    by (rule leaf_nodes [OF T(1) p b(2) _ that]) (simp add: write_blk_def)
  then show "file_block (i_addr ip) (disk (write_blk b c f)) m = file_block (i_addr ip) (disk f) m" by (rule file_block_cong)
  have u: "usable (write_blk b c f) = usable f" by (simp add: write_blk_def usable_def fun_eq_iff)
  have "b \<notin> set xs" using tree_okD(2) [OF T(1) p(1)] p(3) b(2) by simp
  then have "fs_free (write_blk b c f) xs" using fs_free_disk [OF T(2)] by (simp add: write_blk_def)
  moreover have "tree_ok (i_addr ip) (write_blk b c f) xs" using T(1) N u by (simp add: tree_ok_def)
  ultimately show "file_ok ip (write_blk b c f) xs" using F u by (simp add: file_ok_def small_dev_def)
qed

text \<open>After \<open>bmap\<close> for a write the contents are the same, whatever it answers.\<close>

lemma bmap_write_contents:
  assumes F: "file_ok ip f xs" and off: "\<not> u_offset u <s 0" and b: "bmap mnt False ip u f = (r, ip', u', f')"
  shows "\<exists>ys. file_ok ip' f' ys" "fbyte (i_addr ip') (disk f') k = fbyte (i_addr ip) (disk f) k"
    "case r of Blk c \<Rightarrow> c \<noteq> 0 \<and> file_block (i_addr ip') (disk f') (unat (u_offset u) div 1024) = c
     | Bad e \<Rightarrow> e = ENOSPC \<and> file_ok ip' f' [] \<and> file_block (i_addr ip') (disk f') (unat (u_offset u) div 1024) = 0 \<or>
         e = EFBIG \<and> ptol (u_limit u) \<le>s signed_drop_bit 10 (u_offset u) | Hole \<Rightarrow> False"
proof -
  have ty: "i_mode ip AND IFMT \<noteq> IFBLK" using F by (simp add: file_ok_def)
  have "(\<exists>ys. file_ok ip' f' ys) \<and> fbyte (i_addr ip') (disk f') k = fbyte (i_addr ip) (disk f) k \<and>
    (case r of Blk c \<Rightarrow> c \<noteq> 0 \<and> file_block (i_addr ip') (disk f') (unat (u_offset u) div 1024) = c
     | Bad e \<Rightarrow> e = ENOSPC \<and> file_ok ip' f' [] \<and> file_block (i_addr ip') (disk f') (unat (u_offset u) div 1024) = 0 \<or>
         e = EFBIG \<and> ptol (u_limit u) \<le>s signed_drop_bit 10 (u_offset u) | Hole \<Rightarrow> False)"
  proof (cases "ptol (u_limit u) \<le>s signed_drop_bit 10 (u_offset u)")
    case True
    obtain q bn ra jp v where p: "bmap_part mnt False ip u = (q, bn, ra, jp, v)" by (metis prod.collapse)
    have "q = Some (Bad EFBIG) \<and> i_addr jp = i_addr ip \<and> i_mode jp = i_mode ip"
      using p True ty by (auto simp: bmap_part_def Let_def split: if_splits)
    then have "r = Bad EFBIG" "f' = f" "i_addr ip' = i_addr ip" "i_mode ip' = i_mode ip" using b p by (auto simp: bmap_def)
    then show ?thesis using F True by (auto simp: file_ok_def)
  next
    case False
    from bmap_write_grown [OF F off False, of mnt] b obtain ys P where
      G: "i_mode ip' = i_mode ip" "place (unat (u_offset u) div 1024) = Some P" "grown (i_addr ip) f xs P (i_addr ip') f' ys"
         "case r of Blk b \<Rightarrow> b \<noteq> 0 \<and> node (i_addr ip') (disk f') P = b
          | Bad e \<Rightarrow> e = ENOSPC \<and> ys = [] \<and> node (i_addr ip') (disk f') P = 0 | Hole \<Rightarrow> False" by auto
    have T: "tree_ok (i_addr ip) f xs" "fs_free f xs" "small_dev f" using F by (simp_all add: file_ok_def)
    note L = grown_leaf [OF G(3) T(2,1) G(2)]
    have "file_ok ip' f' ys" using grownD(1-3) [OF G(3)] T(3) ty G(1) by (simp add: file_ok_def small_dev_def)
    moreover have "fbyte (i_addr ip') (disk f') k = fbyte (i_addr ip) (disk f) k"
    proof (cases "file_block (i_addr ip) (disk f) (k div 1024) = 0")
      case True
      then show ?thesis using L(1) [of "k div 1024"] L(3)
        by (cases "k div 1024 = unat (u_offset u) div 1024") (auto simp: fbyte_def Let_def)
    next
      case False
      then show ?thesis using L(2) [OF False] by (simp add: fbyte_def Let_def)
    qed
    ultimately show ?thesis using G(2,4) by (auto simp: file_block_def split: bmap_reply.splits)
  qed
  then show "\<exists>ys. file_ok ip' f' ys" "fbyte (i_addr ip') (disk f') k = fbyte (i_addr ip) (disk f) k"
    "case r of Blk c \<Rightarrow> c \<noteq> 0 \<and> file_block (i_addr ip') (disk f') (unat (u_offset u) div 1024) = c
     | Bad e \<Rightarrow> e = ENOSPC \<and> file_ok ip' f' [] \<and> file_block (i_addr ip') (disk f') (unat (u_offset u) div 1024) = 0 \<or>
         e = EFBIG \<and> ptol (u_limit u) \<le>s signed_drop_bit 10 (u_offset u) | Hole \<Rightarrow> False" by blast+
qed

section \<open>Writing\<close>

text \<open>\<open>c\<close> bytes have gone from the memory at \<open>u_base\<close> to the file at \<open>u_offset\<close>.\<close>

definition same_user :: "usr \<Rightarrow> usr \<Rightarrow> nat \<Rightarrow> bool" where
  "same_user us us' c \<longleftrightarrow> c \<le> unat (u_count (uu us)) \<and> u_count (uu us') = u_count (uu us) - of_nat c \<and>
     u_offset (uu us') = u_offset (uu us) + of_nat c \<and> u_base us' = u_base us + of_nat c \<and> u_limit (uu us') = u_limit (uu us) \<and>
     u_segflg us' = u_segflg us \<and> u_fmode us' = u_fmode us \<and> u_ok us' = u_ok us"

definition wrote :: "nat \<Rightarrow> inode \<Rightarrow> usr \<Rightarrow> (u16 \<Rightarrow> fs) \<Rightarrow> inode \<Rightarrow> usr \<Rightarrow> (u16 \<Rightarrow> fs) \<Rightarrow> bool" where
  "wrote c ip us fss ip' us' fss' \<longleftrightarrow> same_user us us' c \<and> umem us' = umem us \<and>
     i_dev ip' = i_dev ip \<and> i_mode ip' = i_mode ip \<and> i_number ip' = i_number ip \<and>
     (\<exists>ys. file_ok ip' (fss' (i_dev ip)) ys) \<and> (\<forall>e. e \<noteq> i_dev ip \<longrightarrow> fss' e = fss e) \<and>
     unat (i_size ip') = (if c = 0 then unat (i_size ip) else max (unat (i_size ip)) (unat (u_offset (uu us)) + c)) \<and>
     (\<forall>k. fbyte (i_addr ip') (disk (fss' (i_dev ip))) k =
        (if unat (u_offset (uu us)) \<le> k \<and> k < unat (u_offset (uu us)) + c then umem us (u_base us + of_nat (k - unat (u_offset (uu us))))
         else fbyte (i_addr ip) (disk (fss (i_dev ip))) k))"

text \<open>A transfer that fits into the first 2 GB of the file.\<close>

definition fits :: "usr \<Rightarrow> bool" where
  "fits us \<longleftrightarrow> unat (u_offset (uu us)) + unat (u_count (uu us)) < 2 ^ 31"

lemma same_user_offset:
  assumes "same_user us us' c" "fits us"
  shows "unat (u_offset (uu us')) = unat (u_offset (uu us)) + c" "unat (u_count (uu us')) = unat (u_count (uu us)) - c" "fits us'"
proof -
  have c: "c \<le> unat (u_count (uu us))" "c < 65536" using assms(1) u16_lt [of "u_count (uu us)"] by (simp_all add: same_user_def)
  then have n: "unat (of_nat c :: u32) = c" "unat (of_nat c :: u16) = c" by (simp_all add: unsigned_of_nat take_bit_nat_eq_self)
  have "unat (u_offset (uu us)) + unat (of_nat c :: u32) < 2 ^ LENGTH(32)" using assms(2) c n by (simp add: fits_def)
  then show o: "unat (u_offset (uu us')) = unat (u_offset (uu us)) + c"
    using assms(1) unat_plus_small [of "u_offset (uu us)" "of_nat c"] n by (simp add: same_user_def)
  have "(of_nat c :: u16) \<le> u_count (uu us)" using c n by (simp add: word_le_nat_alt)
  then show k: "unat (u_count (uu us')) = unat (u_count (uu us)) - c"
    using assms(1) unat_minus_small [of "of_nat c" "u_count (uu us)"] n by (simp add: same_user_def)
  show "fits us'" using o k assms(2) c by (simp add: fits_def)
qed

lemma same_user_trans:
  assumes A: "same_user us us1 c" and B: "same_user us1 us2 d" and f: "fits us" shows "same_user us us2 (c + d)"
proof -
  have "c \<le> unat (u_count (uu us))" using A by (simp add: same_user_def)
  moreover have "d \<le> unat (u_count (uu us)) - c" using B same_user_offset(2) [OF A f] by (simp add: same_user_def)
  ultimately show ?thesis using A B by (simp add: same_user_def)
qed

lemma wrote_trans:
  assumes A: "wrote c ip us fss ip1 us1 fss1" and B: "wrote d ip1 us1 fss1 ip2 us2 fss2" and f: "fits us"
  shows "wrote (c + d) ip us fss ip2 us2 fss2"
proof -
  have S: "same_user us us1 c" "same_user us1 us2 d" using A B by (simp_all add: wrote_def)
  note o1 = same_user_offset(1) [OF S(1) f]
  have i: "i_dev ip1 = i_dev ip" using A by (simp add: wrote_def)
  let ?o = "unat (u_offset (uu us))"
  have b1: "u_base us1 = u_base us + of_nat c" using S(1) by (simp add: same_user_def)
  have "fbyte (i_addr ip2) (disk (fss2 (i_dev ip))) k =
        (if ?o \<le> k \<and> k < ?o + (c + d) then umem us (u_base us + of_nat (k - ?o)) else fbyte (i_addr ip) (disk (fss (i_dev ip))) k)" for k
  proof -
    have fa: "fbyte (i_addr ip1) (disk (fss1 (i_dev ip))) k =
        (if ?o \<le> k \<and> k < ?o + c then umem us (u_base us + of_nat (k - ?o)) else fbyte (i_addr ip) (disk (fss (i_dev ip))) k)"
      using A by (simp add: wrote_def)
    have fb: "fbyte (i_addr ip2) (disk (fss2 (i_dev ip))) k =
        (if ?o + c \<le> k \<and> k < ?o + c + d then umem us1 (u_base us1 + of_nat (k - (?o + c))) else fbyte (i_addr ip1) (disk (fss1 (i_dev ip))) k)"
      using B unfolding wrote_def i o1 by blast
    have um: "umem us1 = umem us" using A by (simp add: wrote_def)
    show ?thesis
  proof (cases "?o + c \<le> k")
    case True
    then obtain j where j: "k = ?o + c + j" using le_iff_add [of "?o + c" k] by blast
    have "u_base us1 + of_nat (k - (?o + c)) = u_base us + of_nat (k - ?o)"
      unfolding b1 j by (simp add: add.assoc)
    then show ?thesis unfolding fb using fa um True by (simp del: of_nat_diff)
  next
    case False
    then show ?thesis unfolding fb using fa by (simp del: of_nat_diff)
  qed
  qed
  moreover have "unat (i_size ip2) = (if c + d = 0 then unat (i_size ip) else max (unat (i_size ip)) (?o + (c + d)))"
    using A B unfolding wrote_def o1 by (auto split: if_splits)
  ultimately show ?thesis
    using A B same_user_trans [OF S f] unfolding wrote_def i by simp
qed

lemma wrote_0:
  "i_dev ip' = i_dev ip \<Longrightarrow> i_mode ip' = i_mode ip \<Longrightarrow> i_number ip' = i_number ip \<Longrightarrow> i_size ip' = i_size ip \<Longrightarrow>
   \<exists>ys. file_ok ip' (fss' (i_dev ip)) ys \<Longrightarrow> (\<And>e. e \<noteq> i_dev ip \<Longrightarrow> fss' e = fss e) \<Longrightarrow>
   (\<And>k. fbyte (i_addr ip') (disk (fss' (i_dev ip))) k = fbyte (i_addr ip) (disk (fss (i_dev ip))) k) \<Longrightarrow>
   same_user us us' 0 \<Longrightarrow> umem us' = umem us \<Longrightarrow> wrote 0 ip us fss ip' us' fss'"
  by (auto simp: wrote_def)

lemma file_block_usable:
  assumes F: "file_ok ip f xs" and b: "file_block (i_addr ip) (disk f) n \<noteq> 0"
  shows "usable f (file_block (i_addr ip) (disk f) n)" "file_block (i_addr ip) (disk f) m = file_block (i_addr ip) (disk f) n \<Longrightarrow> m = n"
proof -
  have T: "tree_ok (i_addr ip) f xs" using F by (simp add: file_ok_def)
  obtain P where P: "place n = Some P" using b by (auto simp: file_block_def split: option.splits)
  then have p: "P \<in> places" "node (i_addr ip) (disk f) P \<noteq> 0" "file_block (i_addr ip) (disk f) n = node (i_addr ip) (disk f) P"
    using place_leaf b by (auto simp: file_block_def)
  show "usable f (file_block (i_addr ip) (disk f) n)" unfolding p(3) by (rule tree_okD(1) [OF T p(1,2)])
  assume e: "file_block (i_addr ip) (disk f) m = file_block (i_addr ip) (disk f) n"
  then obtain Q where Q: "place m = Some Q" "node (i_addr ip) (disk f) Q = node (i_addr ip) (disk f) P"
    using p(2,3) by (auto simp: file_block_def split: option.splits)
  have "Q = P" by (rule tree_okD(3) [OF T p(1,2) _ Q(2)]) (use place_leaf Q(1) in blast)
  then show "m = n" using place_inj P Q(1) by simp
qed

lemma write_blk_bytes:
  assumes F: "file_ok ip f xs" and b: "file_block (i_addr ip) (disk f) n = b" "b \<noteq> 0"
  shows "fbyte (i_addr ip) (disk (write_blk b c f)) k = (if k div 1024 = n then c (k mod 1024) else fbyte (i_addr ip) (disk f) k)"
proof -
  note W = write_blk_file(2) [OF F b, of c]
  have "file_block (i_addr ip) (disk f) (k div 1024) \<noteq> b" if "k div 1024 \<noteq> n"
    using file_block_usable(2) [OF F, of n "k div 1024"] b that by auto
  then show ?thesis using b by (auto simp: fbyte_def Let_def W) (simp_all add: write_blk_def)
qed

lemma unat_bmap_off: "unat (bmap_off u) = unat (u_offset u) mod 1024"
  by (simp add: bmap_off_def unsigned_ucast_eq unat_mask10 take_bit_nat_eq_self)

text \<open>The part of a block that a transfer of \<open>n\<close> bytes at \<open>j\<close> covers.\<close>

lemma block_part_parts:
  fixes p q r s n :: nat
  assumes "r < 1024" "s < 1024" "n \<le> 1024 - s"
  shows "1024 * p + s \<le> 1024 * q + r \<and> 1024 * q + r < 1024 * p + s + n \<longleftrightarrow> q = p \<and> s \<le> r \<and> r < s + n"
proof (cases q p rule: linorder_cases)
  case less
  then have "1024 * (q + 1) \<le> 1024 * p" by (intro mult_le_mono2) simp
  then show ?thesis using assms less by linarith
next
  case greater
  then have "1024 * (p + 1) \<le> 1024 * q" by (intro mult_le_mono2) simp
  then show ?thesis using assms greater by linarith
qed simp

lemma block_part:
  fixes k j n :: nat
  assumes "n \<le> 1024 - j mod 1024"
  shows "j \<le> k \<and> k < j + n \<longleftrightarrow> k div 1024 = j div 1024 \<and> j mod 1024 \<le> k mod 1024 \<and> k mod 1024 < j mod 1024 + n"
    "k div 1024 = j div 1024 \<Longrightarrow> k mod 1024 - j mod 1024 = k - j"
proof -
  have m: "k mod 1024 < 1024" "j mod 1024 < 1024" by simp_all
  show "j \<le> k \<and> k < j + n \<longleftrightarrow> k div 1024 = j div 1024 \<and> j mod 1024 \<le> k mod 1024 \<and> k mod 1024 < j mod 1024 + n"
    using block_part_parts [OF m assms, of "j div 1024" "k div 1024"] by (simp only: mult_div_mod_eq)
  assume e: "k div 1024 = j div 1024"
  have "k = 1024 * (j div 1024) + k mod 1024" using mult_div_mod_eq [of 1024 k] e by simp
  moreover have "j = 1024 * (j div 1024) + j mod 1024" by simp
  ultimately show "k mod 1024 - j mod 1024 = k - j" by linarith
qed

text \<open>Why a write ends early: no block is free and the file has none at the offset it has come to, or the
  offset is at or behind the caller's limit.\<close>

definition no_space :: "inode \<Rightarrow> usr \<Rightarrow> (u16 \<Rightarrow> fs) \<Rightarrow> bool" where
  "no_space ip us fss \<longleftrightarrow> file_ok ip (fss (i_dev ip)) [] \<and>
     file_block (i_addr ip) (disk (fss (i_dev ip))) (unat (u_offset (uu us)) div 1024) = 0"

definition at_limit :: "usr \<Rightarrow> bool" where
  "at_limit us \<longleftrightarrow> ptol (u_limit (uu us)) \<le>s signed_drop_bit 10 (u_offset (uu us))"

definition stopped :: "inode \<Rightarrow> usr \<Rightarrow> (u16 \<Rightarrow> fs) \<Rightarrow> bool" where
  "stopped ip us fss \<longleftrightarrow> u_count (uu us) \<noteq> 0 \<and>
     (u_err us = Some ENOSPC \<and> no_space ip us fss \<or> u_err us = Some EFBIG \<and> at_limit us)"

text \<open>One round of the loop of \<open>writei\<close>.\<close>

definition may_read :: "usr \<Rightarrow> bool" where "may_read us \<longleftrightarrow> u_segflg us = 1 \<or> (\<forall>a n. u_ok us a n False)"

lemma bmap_err_ok: "\<forall>e. r \<noteq> Bad e \<Longrightarrow> bmap_err r us = us"
  by (cases r) (simp_all add: bmap_err_def)

lemma write_once_ok:
  assumes F: "file_ok ip (fss (i_dev ip)) xs" and ty: "i_mode ip AND IFMT = IFREG \<or> i_mode ip AND IFMT = IFDIR"
    and off: "fits us" "\<not> i_size ip <s 0" and c: "u_err us = None" "u_count (uu us) \<noteq> 0" "may_read us"
    and e: "write_once dv mnt ip us fss = (brk, ip', us', fss')"
  shows "\<exists>n. wrote n ip us fss ip' us' fss' \<and> (if brk then stopped ip' us' fss' else u_err us' = None) \<and> \<not> i_size ip' <s 0"
proof -
  let ?d = "i_dev ip" let ?o = "unat (u_offset (uu us))"
  obtain r jp u f where b: "bmap mnt False ip (uu us) (fss ?d) = (r, jp, u, f)" by (metis prod.collapse)
  note B = bmap_fields [OF b]
  have ob: "?o < 2 ^ 31" "\<not> u_offset (uu us) <s 0" using off(1) by (simp_all add: fits_def sless0_u32)
  note C = bmap_write_contents [OF F ob(2) b]
  have ty': "i_mode ip AND IFMT \<noteq> IFBLK" "i_mode ip AND IFMT \<noteq> IFIFO" using ty by (auto simp: IFREG_def IFDIR_def IFBLK_def IFIFO_def)
  let ?fss = "fss(?d := f)"
  have dj: "i_dev jp = ?d" using B(8) .
  show ?thesis
  proof (cases "\<exists>x. r = Bad x")
    case True
    then obtain x where x: "r = Bad x" by blast
    then have r: "brk" "ip' = jp" "us' = us\<lparr>uu := u, u_err := Some x\<rparr>" "fss' = ?fss"
      using e by (simp_all add: write_once_def b Let_def bmap_err_def dj)
    have u0: "u_offset u = u_offset (uu us)" "u_limit u = u_limit (uu us)" "u_count u = u_count (uu us)" using B by simp_all
    have "wrote 0 ip us fss ip' us' fss'"
      by (rule wrote_0) (use r B C in \<open>auto simp: same_user_def\<close>)
    moreover have "stopped ip' us' fss'" using C(3) x dj r u0 c(2) by (auto simp: stopped_def no_space_def at_limit_def)
    ultimately show ?thesis using r B(7) off(2) by auto
  next
    case False
    then obtain bn where bn: "r = Blk bn" "bn \<noteq> 0" "file_block (i_addr jp) (disk f) (?o div 1024) = bn" using C(3) by (cases r) auto
    obtain ys where F': "file_ok jp f ys" using C(1) by blast
    let ?us = "us\<lparr>uu := u\<rparr>" and ?n = "u_pbsize u" and ?on = "unat (u_pboff u)"
    have n: "unat ?n = min (unat (u_count (uu us))) (1024 - ?o mod 1024)"
      using B(5) False by (simp add: min_def word_le_nat_alt bmap_sizes(1))
    have on: "?on = ?o mod 1024" using B(4) False by (simp add: unat_bmap_off)
    have dev: "u_pbdev u = ?d" using B(11) ty'(1) by simp
    have io: "\<not> io_err f bn" using file_block_usable(1) [OF F', of "?o div 1024"] bn by (simp add: usable_def)
    have nz: "?n \<noteq> 0" using n c(2) by (auto simp flip: unat_eq_0_iff)
    define b where "b = (if ?n = 1024 then stale dv bn else disk f bn)"
    have g: "write_get dv bn u jp ?us ?fss = (b, ?us)" "?n \<noteq> 1024 \<Longrightarrow> b = disk f bn"
      using io dev ty'(2) B(6) by (simp_all add: write_get_def bread_u_def b_def)
    let ?b = "copy_in (umem us) (u_base us) ?on ?n b"
    have v: "iomove_in ?on ?n b ?us = (?b, moved ?n ?us)" using nz c(3) by (auto simp: iomove_in_def may_read_def)
    have mv: "u_err (moved ?n ?us) = None" "u_offset (uu (moved ?n ?us)) = u_offset (uu us) + ucast ?n" using c(1) B(2) by (simp_all add: moved_def)
    let ?jp = "(if i_size jp <s u_offset (uu us) + ucast ?n then jp\<lparr>i_size := u_offset (uu us) + ucast ?n\<rparr> else jp)"
    have r: "\<not> brk" "us' = moved ?n ?us" "fss' = fss(?d := write_blk bn ?b f)" "ip' = ?jp\<lparr>i_flag := i_flag jp OR (IUPD OR ICHG)\<rparr>"
      using e ty ty' c(1) io dev mv B(6) unfolding write_once_def b Let_def prod.case bn(1) dj
      by (auto simp: bmap_err_def reply_bn_def g v write_put_def Let_def)
    have nc: "unat ?n \<le> unat (u_count (uu us))" using n by simp
    have S: "same_user us us' (unat ?n)"
      using B(1-3) nc by (simp add: same_user_def r(2) moved_def)
    have o': "unat (u_offset (uu us) + ucast ?n) = ?o + unat ?n"
      using same_user_offset(1) [OF S off(1)] by (simp add: r(2) mv(2))
    have small: "?o + unat ?n < 2 ^ 31" "unat (i_size jp) < 2 ^ 31" using off n B(7) by (simp_all add: fits_def sless0_u32)
    have cmp: "i_size jp <s u_offset (uu us) + ucast ?n \<longleftrightarrow> unat (i_size jp) < ?o + unat ?n"
      using sless_small32 [OF small(2)] small(1) o' by simp
    have sz: "unat (i_size ip') = max (unat (i_size ip)) (?o + unat ?n)" using cmp o' B(7) by (auto simp: r(4) max_def)
    have a: "i_addr ip' = i_addr jp" by (simp add: r(4))
    have fk: "file_ok ip' (write_blk bn ?b f) ys" using write_blk_file(1) [OF F' bn(3,2)] by (simp add: file_ok_def r(4))
    have "fbyte (i_addr ip') (disk (write_blk bn ?b f)) k = (if ?o \<le> k \<and> k < ?o + unat ?n then umem us (u_base us + of_nat (k - ?o))
         else fbyte (i_addr ip) (disk (fss ?d)) k)" for k
    proof -
      have p: "unat ?n \<le> 1024 - ?o mod 1024" using n by simp
      have old: "fbyte (i_addr jp) (disk f) k = fbyte (i_addr ip) (disk (fss ?d)) k" using C(2) .
      show ?thesis
      proof (cases "k div 1024 = ?o div 1024")
        case True
        have "?b (k mod 1024) = (if ?o \<le> k \<and> k < ?o + unat ?n then umem us (u_base us + of_nat (k - ?o)) else b (k mod 1024))"
          using block_part(1) [OF p, of k] block_part(2) [OF p True] True unfolding copy_in_def on by simp
        moreover have "b (k mod 1024) = fbyte (i_addr jp) (disk f) k" if "\<not> (?o \<le> k \<and> k < ?o + unat ?n)"
        proof -
          have "?n \<noteq> 1024"
          proof
            assume h: "?n = 1024"
            then have "?o mod 1024 = 0" using n by simp
            then show False using block_part(1) [OF p, of k] True that h by simp
          qed
          then show ?thesis using g(2) bn True by (simp add: fbyte_def)
        qed
        ultimately show ?thesis unfolding a write_blk_bytes [OF F' bn(3,2)] using True old by simp
      next
        case False
        then show ?thesis unfolding a write_blk_bytes [OF F' bn(3,2)] using block_part(1) [OF p, of k] old by auto
      qed
    qed
    then have "wrote (unat ?n) ip us fss ip' us' fss'"
      unfolding wrote_def using S sz fk nz B(6,8,9) by (auto simp: r(2-4) moved_def)
    moreover have "\<not> i_size ip' <s 0" using sz small off(2) by (simp add: sless0_u32)
    ultimately show ?thesis using r(1,2) mv(1) by auto
  qed
qed

lemma write_loop_ok:
  "file_ok ip (fss (i_dev ip)) xs \<Longrightarrow> i_mode ip AND IFMT = IFREG \<or> i_mode ip AND IFMT = IFDIR \<Longrightarrow> fits us \<Longrightarrow> \<not> i_size ip <s 0 \<Longrightarrow>
   u_err us = None \<Longrightarrow> may_read us \<Longrightarrow> write_loop dv mnt ip us fss = (ip', us', fss') \<Longrightarrow>
   \<exists>c. wrote c ip us fss ip' us' fss' \<and>
     (u_err us' = None \<and> c = unat (u_count (uu us)) \<or> stopped ip' us' fss')"
proof (induction dv mnt ip us fss arbitrary: xs rule: write_loop.induct)
  case (1 dv mnt ip us fss)
  show ?case
  proof (cases "u_count (uu us) = 0")
    case True
    then have "ip' = ip" "us' = us" "fss' = fss" using 1(8) by simp_all
    moreover have "wrote 0 ip us fss ip us fss" by (rule wrote_0) (use 1(2) in \<open>auto simp: same_user_def\<close>)
    ultimately show ?thesis using True 1(6) by auto
  next
    case nz: False
    obtain brk jp vs gs where w: "write_once dv mnt ip us fss = (brk, jp, vs, gs)" by (metis prod.collapse)
    from write_once_ok [OF 1(2-6) nz 1(7) w] obtain n where
      W: "wrote n ip us fss jp vs gs" "if brk then stopped jp vs gs else u_err vs = None" "\<not> i_size jp <s 0" by blast
    have S: "same_user us vs n" using W(1) by (simp add: wrote_def)
    show ?thesis
    proof (cases brk)
      case True
      then have "ip' = jp" "us' = vs" "fss' = gs" using 1(6,8) nz w by simp_all
      then show ?thesis using W True by auto
    next
      case False
      then have l: "write_loop dv mnt jp vs gs = (ip', us', fss')" and ev: "u_err vs = None" using 1(6,8) nz w W(2) by simp_all
      have d: "i_dev jp = i_dev ip" "i_mode jp = i_mode ip" using W(1) by (simp_all add: wrote_def)
      obtain ys where ys: "file_ok jp (gs (i_dev jp)) ys" using W(1) by (auto simp: wrote_def)
      have mr: "may_read vs" using 1(7) S by (simp add: may_read_def same_user_def)
      have "\<exists>c. wrote c jp vs gs ip' us' fss' \<and>
          (u_err us' = None \<and> c = unat (u_count (uu vs)) \<or> stopped ip' us' fss')"
        by (rule 1(1) [OF conjI [OF 1(6) nz] w [symmetric] refl refl _ ys])
          (use 1(3) False d same_user_offset(3) [OF S 1(4)] W(3) ev mr l in \<open>simp_all del: write_loop.simps\<close>)
      then obtain c where c: "wrote c jp vs gs ip' us' fss'"
          "u_err us' = None \<and> c = unat (u_count (uu vs)) \<or> stopped ip' us' fss'" by blast
      have "n \<le> unat (u_count (uu us))" using S by (simp add: same_user_def)
      then show ?thesis using wrote_trans [OF W(1) c(1) 1(4)] c(2) same_user_offset(2) [OF S 1(4)]
        by (intro exI [of _ "n + c"]) auto
    qed
  qed
qed

section \<open>Reading\<close>

text \<open>\<open>c\<close> bytes have been put into a memory at \<open>base\<close>, and a further \<open>d\<close> behind them.\<close>

definition filled :: "nat \<Rightarrow> (nat \<Rightarrow> byte) \<Rightarrow> u16 \<Rightarrow> (u16 \<Rightarrow> byte) \<Rightarrow> (u16 \<Rightarrow> byte) \<Rightarrow> bool" where
  "filled c g base m m' \<longleftrightarrow> (\<forall>a. m' a = (let j = unat (a - base) in if j < c then g j else m a))"

lemma filled_trans:
  assumes A: "filled c g base m m'" and B: "filled d (\<lambda>j. g (c + j)) (base + of_nat c) m' m''" and cd: "c + d < 65536"
  shows "filled (c + d) g base m m''"
  unfolding filled_def
proof
  fix a
  define x where "x = a - base"
  have n: "unat (of_nat c :: u16) = c" using cd by (simp add: unsigned_of_nat take_bit_nat_eq_self)
  have y: "a - (base + of_nat c) = x - of_nat c" by (simp add: x_def)
  have 1: "m' a = (if unat x < c then g (unat x) else m a)" using A by (simp add: filled_def x_def Let_def)
  have 2: "m'' a = (if unat (x - of_nat c) < d then g (c + unat (x - of_nat c)) else m' a)" using B by (simp add: filled_def y Let_def)
  show "m'' a = (let j = unat (a - base) in if j < c + d then g j else m a)"
  proof (cases "c \<le> unat x")
    case True
    then have "unat (x - of_nat c) = unat x - c" using n by (simp add: unat_minus_small word_le_nat_alt)
    then show ?thesis unfolding x_def [symmetric] Let_def 2 1 using True by auto
  next
    case False
    have "unat (x - of_nat c) = 65536 + unat x - c"
      using False n u16_lt [of x] cd by (simp add: unat_sub_if_size word_size word_le_nat_alt)
    then have "\<not> unat (x - of_nat c) < d" using cd by simp
    then show ?thesis unfolding x_def [symmetric] Let_def 2 1 using False by auto
  qed
qed

text \<open>\<open>c\<close> bytes have gone from the file at \<open>u_offset\<close> to the memory at \<open>u_base\<close>.\<close>

definition delivered :: "nat \<Rightarrow> (u16 \<Rightarrow> fs) \<Rightarrow> inode \<Rightarrow> usr \<Rightarrow> inode \<Rightarrow> usr \<Rightarrow> bool" where
  "delivered c fss ip us ip' us' \<longleftrightarrow> same_user us us' c \<and> u_err us' = u_err us \<and>
     i_dev ip' = i_dev ip \<and> i_mode ip' = i_mode ip \<and> i_number ip' = i_number ip \<and> i_size ip' = i_size ip \<and> i_addr ip' = i_addr ip \<and>
     filled c (\<lambda>j. fbyte (i_addr ip) (disk (fss (i_dev ip))) (unat (u_offset (uu us)) + j)) (u_base us) (umem us) (umem us')"

definition may_write :: "usr \<Rightarrow> bool" where "may_write us \<longleftrightarrow> u_segflg us = 1 \<or> (\<forall>a n. u_ok us a n True)"

lemma delivered_trans:
  assumes A: "delivered c fss ip us ip1 us1" and B: "delivered d fss ip1 us1 ip2 us2" and f: "fits us"
  shows "delivered (c + d) fss ip us ip2 us2"
proof -
  have S: "same_user us us1 c" "same_user us1 us2 d" using A B by (simp_all add: delivered_def)
  note o1 = same_user_offset(1) [OF S(1) f]
  note T = same_user_trans [OF S f]
  have cd: "c + d < 65536" using T u16_lt [of "u_count (uu us)"] by (simp add: same_user_def)
  have i: "i_dev ip1 = i_dev ip" "i_addr ip1 = i_addr ip" "u_base us1 = u_base us + of_nat c" using A S(1) by (simp_all add: delivered_def same_user_def)
  have "filled d (\<lambda>j. fbyte (i_addr ip) (disk (fss (i_dev ip))) (unat (u_offset (uu us)) + (c + j))) (u_base us + of_nat c) (umem us1) (umem us2)"
    using B unfolding delivered_def i o1 by (simp add: add.assoc)
  moreover have "filled c (\<lambda>j. fbyte (i_addr ip) (disk (fss (i_dev ip))) (unat (u_offset (uu us)) + j)) (u_base us) (umem us) (umem us1)"
    using A by (simp add: delivered_def)
  ultimately have "filled (c + d) (\<lambda>j. fbyte (i_addr ip) (disk (fss (i_dev ip))) (unat (u_offset (uu us)) + j)) (u_base us) (umem us) (umem us2)"
    by (rule filled_trans [OF _ _ cd, rotated])
  then show ?thesis using A B T unfolding delivered_def i by simp
qed

lemma delivered_0:
  "i_dev ip' = i_dev ip \<Longrightarrow> i_mode ip' = i_mode ip \<Longrightarrow> i_number ip' = i_number ip \<Longrightarrow> i_size ip' = i_size ip \<Longrightarrow> i_addr ip' = i_addr ip \<Longrightarrow>
   same_user us us' 0 \<Longrightarrow> umem us' = umem us \<Longrightarrow> u_err us' = u_err us \<Longrightarrow> delivered 0 fss ip us ip' us'"
  by (simp add: delivered_def filled_def)

definition left :: "inode \<Rightarrow> usr \<Rightarrow> nat" where
  "left ip us = min (unat (u_count (uu us))) (unat (i_size ip) - unat (u_offset (uu us)))"

lemma read_rest_reg:
  assumes "i_mode ip AND IFMT = IFREG" "unat (u_offset u) < 2 ^ 31" "unat (i_size ip) < 2 ^ 31"
  shows "read_rest ip u = unat (i_size ip) - unat (u_offset u)"
proof -
  have d: "read_rest ip u = (if i_size ip - u_offset u <s 0 then 0 else unat (i_size ip - u_offset u))"
    using assms(1) by (simp add: read_rest_def IFREG_def IFIFO_def Let_def)
  show ?thesis
  proof (cases "u_offset u \<le> i_size ip")
    case True
    then have "unat (i_size ip - u_offset u) = unat (i_size ip) - unat (u_offset u)" by (rule unat_minus_small)
    then show ?thesis using d assms(3) by (simp add: sless0_u32)
  next
    case False
    then have l: "unat (i_size ip) < unat (u_offset u)" by (simp add: word_le_nat_alt)
    then have "unat (i_size ip - u_offset u) = 2 ^ 32 + unat (i_size ip) - unat (u_offset u)"
      using False by (simp add: unat_sub_if_size word_size word_le_nat_alt)
    then have "i_size ip - u_offset u <s 0" using l assms(2) by (simp add: sless0_u32)
    then show ?thesis using d l by simp
  qed
qed

lemma usable_nonneg:
  assumes u: "usable f c" shows "\<not> c <s 0"
proof
  assume n: "c <s 0"
  have "badblock (sb f) c"
  proof (cases "ucast (s_isize (sb f)) <s (0 :: u32)")
    case True
    have "unat (ucast (s_isize (sb f)) :: u32) < 2 ^ 31"
      using u16_lt [of "s_isize (sb f)"] by (simp add: unsigned_ucast_eq take_bit_nat_eq_self)
    then show ?thesis using True by (simp add: sless0_u32)
  next
    case False
    then show ?thesis using n by (auto simp: badblock_def word_sless_alt)
  qed
  then show False using u by (simp add: usable_def)
qed

lemma read_once_ok:
  assumes F: "file_ok ip (fss (i_dev ip)) xs" and ty: "i_mode ip AND IFMT = IFREG" and off: "fits us" "\<not> i_size ip <s 0"
    and c: "u_err us = None" "may_write us" and e: "read_once dv mnt fss ip us = (go, ip', us', fss')"
  shows "fss' = fss \<and> (\<exists>n. delivered n fss ip us ip' us' \<and> (go \<or> n = left ip us) \<and> (go \<longrightarrow> n \<le> left ip us))"
proof -
  let ?d = "i_dev ip" let ?o = "unat (u_offset (uu us))" let ?f = "fss ?d"
  have ob: "?o < 2 ^ 31" "\<not> u_offset (uu us) <s 0" "unat (i_size ip) < 2 ^ 31" using off by (simp_all add: fits_def sless0_u32)
  from bmap_read_block [OF F ob(2), of mnt] obtain r jp u where
    b: "bmap mnt True ip (uu us) ?f = (r, jp, u, ?f)" "i_addr jp = i_addr ip"
    "unat (u_pbsize u) = min (unat (i_size ip) - ?o) (min (unat (u_count (uu us))) (1024 - ?o mod 1024))"
    "r = (if u_pbsize u = 0 \<or> file_block (i_addr ip) (disk ?f) (?o div 1024) = 0 then Hole else Blk (file_block (i_addr ip) (disk ?f) (?o div 1024)))"
    unfolding read_rest_reg [OF ty ob(1,3)] by blast
  note B = bmap_fields [OF b(1)]
  have ne: "\<forall>e. r \<noteq> Bad e" using b(4) by simp
  have ty': "i_mode ip AND IFMT \<noteq> IFBLK" "i_mode ip AND IFMT \<noteq> IFIFO" using ty by (auto simp: IFREG_def IFBLK_def IFIFO_def)
  let ?us = "us\<lparr>uu := u\<rparr>" let ?n = "u_pbsize u" let ?c = "file_block (i_addr ip) (disk ?f) (?o div 1024)"
  have on: "unat (u_pboff u) = ?o mod 1024" using B(4) [OF ne] by (simp add: unat_bmap_off)
  have nl: "unat ?n \<le> left ip us" "unat ?n \<le> unat (u_count (uu us))" "unat ?n \<le> 1024 - ?o mod 1024" using b(3) unfolding left_def by linarith+
  show ?thesis
  proof (cases "?n = 0")
    case True
    then have r: "\<not> go" "ip' = jp" "us' = ?us" "fss' = fss" using e c(1) ne by (simp_all add: read_once_def b(1) Let_def bmap_err_ok)
    have z: "left ip us = 0" using b(3) True by (auto simp: left_def min_def split: if_splits)
    have "delivered 0 fss ip us ip' us'" by (rule delivered_0) (use r b B in \<open>simp_all add: same_user_def\<close>)
    then show ?thesis using r z by auto
  next
    case nz: False
    define blk where "blk = (if ?c = 0 then (\<lambda>_. 0) else disk ?f ?c)"
    have dev: "u_pbdev u = ?d" using B(11) ty'(1) by simp
    have get: "(if reply_bn r <s 0 then (\<lambda>_. 0, False, ?us) else bread_u dv (fss (u_pbdev u)) (reply_bn r) ?us) = (blk, False, ?us)"
    proof (cases "?c = 0")
      case True
      then show ?thesis using b(4) by (simp add: reply_bn_def blk_def word_sless_alt)
    next
      case False
      then have u: "usable ?f ?c" by (rule file_block_usable(1) [OF F])
      have "\<not> ?c <s 0" by (rule usable_nonneg [OF u])
      then show ?thesis using b(4) False nz u by (simp add: reply_bn_def blk_def bread_u_def dev usable_def)
    qed
    have mv: "iomove_out blk (unat (u_pboff u)) ?n ?us = moved ?n (?us\<lparr>umem := copy_out blk (?o mod 1024) ?n (u_base us) (umem us)\<rparr>)"
      using nz c(2) on by (auto simp: iomove_out_def may_write_def)
    have r: "go = (u_count (uu us') \<noteq> 0)" "ip' = jp\<lparr>i_flag := i_flag jp OR IACC\<rparr>" "fss' = fss" "us' = moved ?n (?us\<lparr>umem := copy_out blk (?o mod 1024) ?n (u_base us) (umem us)\<rparr>)"
      using e c(1) nz ty ty'(2) B(6) unfolding read_once_def b(1) Let_def prod.case bmap_err_ok [OF ne] get
      by (auto simp: mv moved_def read_put_def Let_def)
    have S: "same_user us us' (unat ?n)" using B(1-3) nl(2) by (simp add: same_user_def r(4) moved_def)
    have "filled (unat ?n) (\<lambda>j. fbyte (i_addr ip) (disk ?f) (?o + j)) (u_base us) (umem us) (umem us')"
      unfolding filled_def
    proof
      fix a
      have "blk (?o mod 1024 + j) = fbyte (i_addr ip) (disk ?f) (?o + j)" if j: "j < unat ?n" for j
      proof -
        have k: "(?o + j) div 1024 = ?o div 1024" "(?o + j) mod 1024 - ?o mod 1024 = j" "?o mod 1024 \<le> (?o + j) mod 1024"
          using block_part(1) [OF nl(3), of "?o + j"] block_part(2) [OF nl(3), of "?o + j"] j by simp_all
        then have "(?o + j) mod 1024 = ?o mod 1024 + j" by linarith
        then show ?thesis by (simp add: fbyte_def Let_def k(1) blk_def)
      qed
      then show "umem us' a = (let j = unat (a - u_base us) in if j < unat ?n then fbyte (i_addr ip) (disk ?f) (?o + j) else umem us a)"
        by (simp add: r(4) moved_def copy_out_def Let_def)
    qed
    then have D: "delivered (unat ?n) fss ip us ip' us'" unfolding delivered_def using S c(1) b(2) B(6-9) by (simp add: r(2,4) moved_def)
    have "unat ?n = left ip us" if "\<not> go"
      using that r(1) same_user_offset(2) [OF S off(1)] nl by (simp add: left_def flip: unat_eq_0_iff)
    then show ?thesis using D nl(1) r(3) by blast
  qed
qed

lemma read_loop_ok:
  "file_ok ip (fss (i_dev ip)) xs \<Longrightarrow> i_mode ip AND IFMT = IFREG \<Longrightarrow> fits us \<Longrightarrow> \<not> i_size ip <s 0 \<Longrightarrow>
   u_err us = None \<Longrightarrow> may_write us \<Longrightarrow> read_loop dv mnt fss ip us = (ip', us', fss') \<Longrightarrow> fss' = fss \<and> delivered (left ip us) fss ip us ip' us'"
proof (induction dv mnt fss ip us rule: read_loop.induct)
  case (1 dv mnt fss ip us)
  obtain go jp vs gs where w: "read_once dv mnt fss ip us = (go, jp, vs, gs)" by (metis prod.collapse)
  from read_once_ok [OF 1(2-7) w] obtain n where
    gs: "gs = fss" and W: "delivered n fss ip us jp vs" "go \<or> n = left ip us" "go \<longrightarrow> n \<le> left ip us" by blast
  have S: "same_user us vs n" using W(1) by (simp add: delivered_def)
  have K: "i_dev jp = i_dev ip" "i_mode jp = i_mode ip" "i_size jp = i_size ip" "i_addr jp = i_addr ip" "u_err vs = None" using W(1) 1(6) by (simp_all add: delivered_def)
  show ?case
  proof (cases go)
    case True
    then have l: "read_loop dv mnt fss jp vs = (ip', us', fss')" using 1(8) w gs by simp
    have "fss' = fss \<and> delivered (left jp vs) fss jp vs ip' us'"
      by (rule 1(1) [OF w [symmetric] refl refl True, unfolded gs])
        (use 1(2-7) K l S same_user_offset(3) [OF S 1(4)] in \<open>simp_all add: file_ok_def may_write_def same_user_def del: read_loop.simps\<close>)
    moreover have "n + left jp vs = left ip us"
      using W(3) True same_user_offset(1,2) [OF S 1(4)] K(3) by (auto simp: left_def)
    ultimately show ?thesis using delivered_trans [OF W(1) _ 1(4)] by metis
  next
    case False
    then show ?thesis using 1(8) w W gs by simp
  qed
qed

section \<open>Properties\<close>

text \<open>A transfer of 2 bytes at offset 10, between the memory of the system and a file of one block.\<close>

definition demo_usr :: usr where
  "demo_usr = \<lparr>uu = demo_uio\<lparr>u_offset := 10, u_count := 2\<rparr>, u_base = 0x100, u_segflg = 1, u_fmode = 3, u_err = None, umem = (\<lambda>a. ucast a + 7), u_ok = (\<lambda>_ _ _. False)\<rparr>"

definition demo_drv :: drv where
  "demo_drv = \<lparr>lost = (\<lambda>_. None), stale = (\<lambda>_ _. 0), few = False, chr_read = (\<lambda>_ us. us), chr_write = (\<lambda>_ us. us)\<rparr>"

lemma demo_usr_ok: "fits demo_usr" "\<not> i_size demo_ip <s 0" "u_err demo_usr = None" "may_read demo_usr" "may_write demo_usr"
    "i_mode demo_ip AND IFMT = IFREG" "file_ok demo_ip ((\<lambda>_. demo_fs) (i_dev demo_ip)) [20, 21]"
  using demo_file_ok by (simp_all add: fits_def demo_usr_def demo_uio_def demo_ip_def may_read_def may_write_def IFMT_def IFREG_def word_sless_alt)

text \<open>C2: \<open>writei\<close> on a regular file or a directory, when the bytes of the caller are readable and the blocks of
  the file and the free list are on a readable medium (\<open>file_ok\<close>), comes back having replaced, at the offset,
  as many bytes as it took from the caller and nothing else, whatever blocks it allocated on the way. These are all
  it was given; or it stops with something left over, with \<open>ENOSPC\<close> where no block of the device is free and the
  file has none at the offset it has come to, or with \<open>EFBIG\<close> where the offset it has come to is at or behind the
  limit of the process. The size grows to the end of what was written. A block that cannot be read is
  outside: there the code counts bytes it did not store.\<close>

theorem writei_writes:
  assumes "file_ok ip (fss (i_dev ip)) xs" "i_mode ip AND IFMT = IFREG \<or> i_mode ip AND IFMT = IFDIR" "fits us" "\<not> i_size ip <s 0"
    and "u_err us = None" "may_read us"
  shows "\<exists>c ip' us' fss'. writei dv mnt ip us fss = (RDone, [], ip', us', fss') \<and> c \<le> unat (u_count (uu us)) \<and>
     u_count (uu us') = u_count (uu us) - of_nat c \<and> u_offset (uu us') = u_offset (uu us) + of_nat c \<and>
     (u_err us' = None \<and> c = unat (u_count (uu us)) \<or> stopped ip' us' fss') \<and>
     (\<forall>k. fbyte (i_addr ip') (disk (fss' (i_dev ip))) k =
        (if unat (u_offset (uu us)) \<le> k \<and> k < unat (u_offset (uu us)) + c then umem us (u_base us + of_nat (k - unat (u_offset (uu us))))
         else fbyte (i_addr ip) (disk (fss (i_dev ip))) k)) \<and>
     unat (i_size ip') = (if c = 0 then unat (i_size ip) else max (unat (i_size ip)) (unat (u_offset (uu us)) + c)) \<and>
     (\<exists>ys. file_ok ip' (fss' (i_dev ip)) ys) \<and> (\<forall>e. e \<noteq> i_dev ip \<longrightarrow> fss' e = fss e)"
proof -
  obtain ip' us' fss' where w: "write_loop dv mnt ip us fss = (ip', us', fss')" by (metis prod.collapse)
  from write_loop_ok [OF assms w] obtain c where c: "wrote c ip us fss ip' us' fss'"
    "u_err us' = None \<and> c = unat (u_count (uu us)) \<or> stopped ip' us' fss'" by blast
  have "\<not> u_offset (uu us) <s 0" using assms(3) by (simp add: fits_def sless0_u32)
  then have "writei dv mnt ip us fss = (RDone, [], ip', us', fss')"
    using assms(2) w by (auto simp: writei_def Let_def IFREG_def IFDIR_def IFCHR_def IFIFO_def simp del: write_loop.simps)
  then show ?thesis using c unfolding wrote_def same_user_def by blast
qed

theorem writei_writes_witness:
  "\<exists>ip' us' fss' ys. writei demo_drv [] demo_ip demo_usr (\<lambda>_. demo_fs) = (RDone, [], ip', us', fss') \<and> file_ok ip' (fss' 0) ys"
proof -
  have d: "i_dev demo_ip = 0" by (simp add: demo_ip_def)
  show ?thesis
    using writei_writes [OF demo_usr_ok(7) disjI1 [OF demo_usr_ok(6)] demo_usr_ok(1,2,3,4), of demo_drv "[]", unfolded d] by blast
qed

text \<open>\<open>readi\<close> on a regular file delivers the bytes of the file at the offset, as many as were asked for
  and are left before its end, zeros where the file has no block; it changes no other byte of the caller's
  memory and nothing of the file but the mark that it was read.\<close>

lemma readi_reads:
  assumes "file_ok ip (fss (i_dev ip)) xs" "i_mode ip AND IFMT = IFREG" "fits us" "\<not> i_size ip <s 0" "u_err us = None" "may_write us"
  shows "\<exists>ip' us'. readi dv mnt fss ip us = (RDone, [], ip', us', fss) \<and> u_err us' = None \<and>
    (let c = min (unat (u_count (uu us))) (unat (i_size ip) - unat (u_offset (uu us)))
     in u_count (uu us') = u_count (uu us) - of_nat c \<and> u_offset (uu us') = u_offset (uu us) + of_nat c \<and>
        (\<forall>a. umem us' a = (let j = unat (a - u_base us)
           in if j < c then fbyte (i_addr ip) (disk (fss (i_dev ip))) (unat (u_offset (uu us)) + j) else umem us a))) \<and>
    i_addr ip' = i_addr ip \<and> i_size ip' = i_size ip \<and> i_mode ip' = i_mode ip"
proof -
  obtain ip' us' fss' where w: "read_loop dv mnt fss ip us = (ip', us', fss')" by (metis prod.collapse)
  have D: "fss' = fss" "delivered (left ip us) fss ip us ip' us'" using read_loop_ok [OF assms w] by simp_all
  have o: "\<not> u_offset (uu us) <s 0" using assms(3) by (simp add: fits_def sless0_u32)
  show ?thesis
  proof (cases "u_count (uu us) = 0")
    case True
    then have "readi dv mnt fss ip us = (RDone, [], ip, us, fss)" by (simp add: readi_def)
    then show ?thesis using True assms(5) by simp
  next
    case False
    then have "readi dv mnt fss ip us = (RDone, [], ip', us', fss)"
      using assms(2) o w D(1) by (auto simp: readi_def Let_def IFREG_def IFCHR_def IFIFO_def simp del: read_loop.simps)
    then show ?thesis using D(2) assms(5) unfolding delivered_def same_user_def left_def filled_def by (simp add: Let_def)
  qed
qed

text \<open>C8: what was written is read back: after a \<open>writei\<close> without an error, a \<open>readi\<close> of the same length at the
  same offset, from any process, delivers exactly the bytes the writer had.\<close>

theorem write_read_roundtrip:
  assumes "file_ok ip (fss (i_dev ip)) xs" "i_mode ip AND IFMT = IFREG" "fits us" "\<not> i_size ip <s 0" "u_err us = None" "may_read us"
    and "writei dv mnt ip us fss = (e, ev, ip', us', fss')" "u_err us' = None"
    and "u_offset (uu vs) = u_offset (uu us)" "u_count (uu vs) = u_count (uu us)" "u_err vs = None" "may_write vs"
  shows "\<exists>ip'' vs'. readi dv mnt fss' ip' vs = (RDone, [], ip'', vs', fss') \<and> u_count (uu vs') = 0 \<and>
    (\<forall>j < unat (u_count (uu us)). umem vs' (u_base vs + of_nat j) = umem us (u_base us + of_nat j))"
proof -
  have o: "\<not> u_offset (uu us) <s 0" using assms(3) by (simp add: fits_def sless0_u32)
  then have w: "write_loop dv mnt ip us fss = (ip', us', fss')"
    using assms(2,7) by (auto simp: writei_def Let_def IFREG_def IFDIR_def IFCHR_def IFIFO_def simp del: write_loop.simps)
  let ?c = "unat (u_count (uu us))"
  have W: "wrote ?c ip us fss ip' us' fss'" using write_loop_ok [OF assms(1) disjI1 [OF assms(2)] assms(3-6) w] assms(8) by (auto simp: stopped_def)
  then have K: "i_dev ip' = i_dev ip" "i_mode ip' AND IFMT = IFREG" using assms(2) by (simp_all add: wrote_def)
  obtain ys where F: "file_ok ip' (fss' (i_dev ip')) ys" using W K by (auto simp: wrote_def)
  have f: "fits vs" using assms(3,9,10) by (simp add: fits_def)
  have sz: "unat (i_size ip') = (if ?c = 0 then unat (i_size ip) else max (unat (i_size ip)) (unat (u_offset (uu us)) + ?c))"
    using W by (simp add: wrote_def)
  then have s: "\<not> i_size ip' <s 0" using assms(3,4) by (auto simp: fits_def sless0_u32 max_def)
  obtain ip2 vs2 fs2 where r: "read_loop dv mnt fss' ip' vs = (ip2, vs2, fs2)" by (metis prod.collapse)
  have l: "left ip' vs = ?c" using sz assms(9,10) by (auto simp: left_def)
  have D: "fs2 = fss'" "delivered ?c fss' ip' vs ip2 vs2" using read_loop_ok [OF F K(2) f s assms(11,12) r] by (simp_all add: l)
  show ?thesis
  proof (cases "u_count (uu us) = 0")
    case True
    then show ?thesis using assms(10) by (simp add: readi_def)
  next
    case False
    then have "readi dv mnt fss' ip' vs = (RDone, [], ip2, vs2, fss')"
      using K(2) o r D(1) assms(9,10) by (auto simp: readi_def Let_def IFREG_def IFCHR_def IFIFO_def simp del: read_loop.simps)
    moreover have "u_count (uu vs2) = 0" using D(2) assms(10) by (simp add: delivered_def same_user_def)
    moreover have "umem vs2 (u_base vs + of_nat j) = umem us (u_base us + of_nat j)" if "j < ?c" for j
    proof -
      have "unat (of_nat j :: u16) = j" using that u16_lt [of "u_count (uu us)"] by (simp add: unsigned_of_nat take_bit_nat_eq_self)
      then show ?thesis using D(2) W that K(1) assms(9) by (simp add: delivered_def filled_def wrote_def Let_def)
    qed
    ultimately show ?thesis by blast
  qed
qed

lemma demo_written: "case writei demo_drv [] demo_ip demo_usr (\<lambda>_. demo_fs) of (e, ev, ip, us, fss) \<Rightarrow> u_err us = None"
  by code_simp

theorem write_read_roundtrip_witness:
  "case writei demo_drv [] demo_ip demo_usr (\<lambda>_. demo_fs) of (e, ev, ip, us, fss) \<Rightarrow>
     \<exists>ip' us'. readi demo_drv [] fss ip demo_usr = (RDone, [], ip', us', fss) \<and> umem us' 0x101 = 8"
proof -
  obtain e ev ip us fss where w: "writei demo_drv [] demo_ip demo_usr (\<lambda>_. demo_fs) = (e, ev, ip, us, fss)" by (metis prod.collapse)
  have "u_err us = None" using demo_written by (simp add: w)
  from write_read_roundtrip [OF demo_usr_ok(7,6,1,2,3,4) w this refl refl demo_usr_ok(3,5)] obtain ip' us' where
    r: "readi demo_drv [] fss ip demo_usr = (RDone, [], ip', us', fss)" "\<forall>j < 2. umem us' (u_base demo_usr + of_nat j) = umem demo_usr (u_base demo_usr + of_nat j)"
    by (auto simp: demo_usr_def demo_uio_def)
  have "u_base demo_usr + of_nat 1 = 0x101" "umem demo_usr 0x101 = 8" by code_simp+
  then have "umem us' 0x101 = 8" using r(2) [rule_format, of 1] by simp
  then show ?thesis using r(1) by (simp add: w)
qed

end
