(* ===== verification/Pipe_Queue.thy ===== *)
theory Pipe_Queue
  imports File_Contents
begin

text \<open>
  Pipes: a pipe's inode with its five blocks is a queue of at most 5120 bytes. The blocks are a ring
  through which the read and the write position go round; \<open>readi\<close> takes bytes from the front, \<open>writei\<close>
  puts bytes at the end.
\<close>

section \<open>The shorts in the inode\<close>

lemma bit_masks: "bit (0xFFFF :: u32) n \<longleftrightarrow> n < 16" "bit (0xFFFF0000 :: u32) n \<longleftrightarrow> n < 32 \<and> 16 \<le> n"
proof -
  have m: "(0xFFFF :: u32) = mask 16" by (simp add: mask_eq_exp_minus_1)
  show 1: "bit (0xFFFF :: u32) n \<longleftrightarrow> n < 16" by (subst m, subst bit_mask_iff) auto
  have c: "(0xFFFF0000 :: u32) = NOT 0xFFFF" by simp
  show "bit (0xFFFF0000 :: u32) n \<longleftrightarrow> n < 32 \<and> 16 \<le> n" by (subst c, subst bit_not_iff) (use 1 in auto)
qed

lemma bit_short: "bit (x :: u16) n \<Longrightarrow> n < 16"
  using bit_imp_le_length [of x n] by simp

lemma bit_get_f: "bit (get_f k ip) n \<longleftrightarrow> n < 16 \<and> bit (i_addr ip ! (k div 2)) (if even k then n else 16 + n)"
  by (auto simp: get_f_def Let_def bit_unsigned_iff bit_drop_bit_eq)

lemma bit_set_f:
  assumes "length (i_addr ip) = NADDR" "k < 26"
  shows "bit (i_addr (set_f k x ip) ! (k div 2)) m \<longleftrightarrow>
    (if even k \<and> m < 16 then bit x m else if odd k \<and> 16 \<le> m \<and> m < 32 then bit x (m - 16) else bit (i_addr ip ! (k div 2)) m)"
proof -
  let ?a = "i_addr ip ! (k div 2)"
  have k: "k div 2 < length (i_addr ip)" using assms by simp
  have lo: "bit ((?a AND 0xFFFF0000) OR ucast x) m \<longleftrightarrow> (if m < 16 then bit x m else bit ?a m)"
    unfolding bit_or_iff bit_and_iff bit_masks bit_unsigned_iff using bit_short [of x m] bit_imp_le_length [of ?a m] by auto
  have hi: "bit ((?a AND 0xFFFF) OR push_bit 16 (ucast x)) m \<longleftrightarrow> (if 16 \<le> m \<and> m < 32 then bit x (m - 16) else bit ?a m)"
    unfolding bit_or_iff bit_and_iff bit_masks bit_push_bit_iff bit_unsigned_iff using bit_short [of x "m - 16"] bit_imp_le_length [of ?a m] by auto
  show ?thesis using k lo hi by (simp add: set_f_def Let_def nth_list_update_eq)
qed

lemma get_set_same: "length (i_addr ip) = NADDR \<Longrightarrow> k < 26 \<Longrightarrow> get_f k (set_f k x ip) = x"
  by (rule bit_word_eqI) (auto simp: bit_get_f bit_set_f dest: bit_short)

lemma get_set_other: "length (i_addr ip) = NADDR \<Longrightarrow> k < 26 \<Longrightarrow> j \<noteq> k \<Longrightarrow> get_f j (set_f k x ip) = get_f j ip"
proof -
  assume l: "length (i_addr ip) = NADDR" "k < 26" and n: "j \<noteq> k"
  show ?thesis
  proof (cases "j div 2 = k div 2")
    case True
    then have p: "even j \<longleftrightarrow> odd k" using n by presburger
    show ?thesis by (rule bit_word_eqI) (use True p bit_set_f [OF l] in \<open>auto simp: bit_get_f\<close>)
  next
    case False
    then show ?thesis by (simp add: get_f_def set_f_def Let_def)
  qed
qed

lemma set_f_fields [simp]:
  "i_flag (set_f k x ip) = i_flag ip" "i_count (set_f k x ip) = i_count ip" "i_dev (set_f k x ip) = i_dev ip" "i_number (set_f k x ip) = i_number ip"
  "i_mode (set_f k x ip) = i_mode ip" "i_nlink (set_f k x ip) = i_nlink ip" "i_size (set_f k x ip) = i_size ip" "length (i_addr (set_f k x ip)) = length (i_addr ip)"
  "s \<noteq> k div 2 \<Longrightarrow> i_addr (set_f k x ip) ! s = i_addr ip ! s"
  by (simp_all add: set_f_def Let_def)

section \<open>Positions on the ring\<close>

lemma pos_block: "x mod 5120 div 1024 = x div 1024 mod 5" "x mod 5120 mod 1024 = x mod (1024 :: nat)"
proof -
  have "x mod (1024 * 5) = 1024 * (x div 1024 mod 5) + x mod 1024" by (rule mod_mult2_eq)
  then show "x mod 5120 div 1024 = x div 1024 mod 5" by simp
  show "x mod 5120 mod 1024 = x mod (1024 :: nat)" by (rule mod_mod_cancel) simp
qed

lemma pos_apart: "j < k \<Longrightarrow> k < j + 5120 \<Longrightarrow> (r + k) mod 5120 \<noteq> (r + j) mod (5120 :: nat)"
proof
  assume l: "j < k" "k < j + 5120" and "(r + k) mod 5120 = (r + j) mod 5120"
  then have "5120 dvd (r + k) - (r + j)" by (simp add: mod_eq_dvd_iff_nat)
  then have "5120 dvd k - j" by simp
  then have "5120 \<le> k - j" using l by (intro dvd_imp_le) simp_all
  then show False using l by simp
qed

section \<open>The queue of a pipe\<close>

text \<open>The byte at a position of the ring, and the bytes \<open>q\<close> from position \<open>r\<close>.\<close>

definition pblk :: "u32 list \<Rightarrow> nat \<Rightarrow> u32" where "pblk as x = as ! (x mod 5120 div 1024)"

definition pipe_at :: "inode \<Rightarrow> fs \<Rightarrow> u32 list \<Rightarrow> nat \<Rightarrow> byte list \<Rightarrow> bool" where
  "pipe_at ip f xs r q \<longleftrightarrow> i_mode ip AND IFMT = IFIFO \<and> length (i_addr ip) = NADDR \<and> fs_free f xs \<and> small_dev f \<and>
     (\<forall>s < 5. i_addr ip ! s \<noteq> 0 \<longrightarrow> usable f (i_addr ip ! s) \<and> i_addr ip ! s \<notin> set xs) \<and>
     (\<forall>s < 5. \<forall>t < 5. i_addr ip ! s \<noteq> 0 \<longrightarrow> i_addr ip ! s = i_addr ip ! t \<longrightarrow> s = t) \<and>
     length q \<le> 5120 \<and> i_size ip = of_nat (length q) \<and>
     (\<forall>j < length q. pblk (i_addr ip) (r + j) \<noteq> 0 \<and> q ! j = disk f (pblk (i_addr ip) (r + j)) ((r + j) mod 1024))"

lemma pipe_atD:
  assumes "pipe_at ip f xs r q"
  shows "i_mode ip AND IFMT = IFIFO" "length (i_addr ip) = NADDR" "fs_free f xs" "small_dev f" "length q \<le> 5120" "i_size ip = of_nat (length q)"
    "s < 5 \<Longrightarrow> i_addr ip ! s \<noteq> 0 \<Longrightarrow> usable f (i_addr ip ! s) \<and> i_addr ip ! s \<notin> set xs"
    "s < 5 \<Longrightarrow> t < 5 \<Longrightarrow> i_addr ip ! s \<noteq> 0 \<Longrightarrow> i_addr ip ! s = i_addr ip ! t \<Longrightarrow> s = t"
    "j < length q \<Longrightarrow> pblk (i_addr ip) (r + j) \<noteq> 0 \<and> q ! j = disk f (pblk (i_addr ip) (r + j)) ((r + j) mod 1024)"
  using assms unfolding pipe_at_def by blast+

lemma pipe_size: "pipe_at ip f xs r q \<Longrightarrow> unat (i_size ip) = length q"
  using pipe_atD(5,6) [of ip f xs r q] by (simp add: unsigned_of_nat take_bit_nat_eq_self)

lemma pipe_at_cong:
  "pipe_at ip f xs r q \<Longrightarrow> i_mode ip' = i_mode ip \<Longrightarrow> i_size ip' = i_size ip \<Longrightarrow> length (i_addr ip') = length (i_addr ip) \<Longrightarrow>
   (\<And>s. s < 5 \<Longrightarrow> i_addr ip' ! s = i_addr ip ! s) \<Longrightarrow> pipe_at ip' f xs r q"
  by (simp add: pipe_at_def pblk_def)

lemma pipe_at_mod: "pipe_at ip f xs (r mod 5120) q = pipe_at ip f xs r q"
proof -
  have "pblk as (r mod 5120 + j) = pblk as (r + j)" for as j by (simp add: pblk_def mod_simps)
  moreover have "(r mod 5120 + j) mod 1024 = (r + j) mod 1024" for j
    by (metis mod_add_left_eq pos_block(2))
  ultimately show ?thesis by (simp add: pipe_at_def)
qed


text \<open>Two positions of the ring in the same block.\<close>

lemma same_block:
  assumes "x mod 5120 div 1024 = y mod 5120 div 1024" "x mod 1024 = y mod 1024 + i" shows "x mod 5120 = (y + i) mod (5120 :: nat)"
proof -
  have "x mod 5120 = 1024 * (x mod 5120 div 1024) + x mod 1024" using mult_div_mod_eq [of 1024 "x mod 5120"] by (simp only: pos_block)
  moreover have "y mod 5120 = 1024 * (y mod 5120 div 1024) + y mod 1024" using mult_div_mod_eq [of 1024 "y mod 5120"] by (simp only: pos_block)
  ultimately have "x mod 5120 = y mod 5120 + i" using assms by linarith
  then have "x mod 5120 mod 5120 = (y mod 5120 + i) mod 5120" by simp
  then show ?thesis by (simp add: mod_simps)
qed

lemma next_pos:
  assumes "x mod 1024 + i < (1024 :: nat)"
  shows "(x + i) mod 5120 div 1024 = x mod 5120 div 1024" "(x + i) mod 1024 = x mod 1024 + i"
proof -
  show m: "(x + i) mod 1024 = x mod 1024 + i" using assms by (metis mod_add_left_eq mod_less)
  have "x + i = 1024 * (x div 1024) + (x mod 1024 + i)" using mult_div_mod_eq [of 1024 x] by linarith
  moreover have "x + i = 1024 * ((x + i) div 1024) + (x mod 1024 + i)" using mult_div_mod_eq [of 1024 "x + i"] m by linarith
  ultimately have "(x + i) div 1024 = x div 1024" by linarith
  then show "(x + i) mod 5120 div 1024 = x mod 5120 div 1024" by (simp only: pos_block)
qed

text \<open>Taking from the front, writing into a block that holds nothing of the queue, adding a block,
  and appending within a block.\<close>

lemma pipe_take:
  assumes P: "pipe_at ip f xs r q" and n: "n \<le> length q" shows "pipe_at (ip\<lparr>i_size := i_size ip - of_nat n\<rparr>) f xs (r + n) (drop n q)"
proof -
  have "(of_nat (length q) :: u32) - of_nat n = of_nat (length q - n)" using n by simp
  then show ?thesis using P n unfolding pipe_at_def by (auto simp: add.assoc)
qed

lemma pipe_blk:
  assumes P: "pipe_at ip f xs r q" and s: "s < 5" "i_addr ip ! s = b" "b \<noteq> 0"
    and c: "\<And>j. j < length q \<Longrightarrow> (r + j) mod 5120 div 1024 = s \<Longrightarrow> c ((r + j) mod 1024) = disk f b ((r + j) mod 1024)"
  shows "pipe_at ip (write_blk b c f) xs r q"
proof -
  let ?f = "write_blk b c f"
  have u: "usable ?f = usable f" by (simp add: write_blk_def usable_def fun_eq_iff)
  have "b \<notin> set xs" using pipe_atD(7) [OF P s(1)] s by simp
  then have f: "fs_free ?f xs" using fs_free_disk [OF pipe_atD(3) [OF P]] by (simp add: write_blk_def)
  have q: "pblk (i_addr ip) (r + j) \<noteq> 0 \<and> q ! j = disk ?f (pblk (i_addr ip) (r + j)) ((r + j) mod 1024)" if j: "j < length q" for j
  proof -
    note D = pipe_atD(9) [OF P j]
    show ?thesis
    proof (cases "pblk (i_addr ip) (r + j) = b")
      case True
      have "(r + j) mod 5120 div 1024 = s"
        by (rule pipe_atD(8) [OF P _ s(1), of "(r + j) mod 5120 div 1024"]) (use True s in \<open>simp_all add: pblk_def pos_block\<close>)
      then show ?thesis using D True c [OF j] by (simp add: write_blk_def)
    qed (use D in \<open>simp add: write_blk_def\<close>)
  qed
  show ?thesis unfolding pipe_at_def using pipe_atD(1,2,4-8) [OF P] f q u by (simp add: small_dev_def)
qed

lemma pipe_alloc:
  assumes P: "pipe_at ip f (b # ys) r q" and s: "s < 5" "i_addr ip ! s = 0"
    and t: "fs_free t ys" "usable t = usable f" "disk t = (disk f)(b := (\<lambda>_. 0))"
  shows "pipe_at (ip\<lparr>i_addr := (i_addr ip)[s := b]\<rparr>) t ys r q" "b \<noteq> 0"
proof -
  have bs: "b \<noteq> 0" "usable f b" "b \<notin> set ys" using pipe_atD(3) [OF P] by (auto simp: fs_free_def usable_def)
  then show "b \<noteq> 0" by simp
  have l: "length (i_addr ip) = NADDR" using pipe_atD(2) [OF P] .
  have no: "i_addr ip ! u \<noteq> b" if "u < 5" for u using pipe_atD(7) [OF P that] bs(1) by (cases "i_addr ip ! u = 0") auto
  have q: "pblk ((i_addr ip)[s := b]) (r + j) \<noteq> 0 \<and> q ! j = disk t (pblk ((i_addr ip)[s := b]) (r + j)) ((r + j) mod 1024)" if j: "j < length q" for j
  proof -
    note D = pipe_atD(9) [OF P j]
    have "(r + j) mod 5120 div 1024 \<noteq> s" using D s(2) by (auto simp: pblk_def)
    then have e: "pblk ((i_addr ip)[s := b]) (r + j) = pblk (i_addr ip) (r + j)" by (simp add: pblk_def)
    have "pblk (i_addr ip) (r + j) \<noteq> b" unfolding pblk_def by (rule no) (simp add: pos_block)
    then show ?thesis using D unfolding e by (simp add: t(3))
  qed
  have n: "(i_addr ip)[s := b] ! u = (if u = s then b else i_addr ip ! u)" if "u < 5" for u
    using that s(1) l by (simp add: nth_list_update)
  have u: "usable t ((i_addr ip)[s := b] ! u) \<and> (i_addr ip)[s := b] ! u \<notin> set ys" if "u < 5" "(i_addr ip)[s := b] ! u \<noteq> 0" for u
    using pipe_atD(7) [OF P that(1)] that(2) bs unfolding n [OF that(1)] t(2) by (auto split: if_splits)
  have d: "u = v" if "u < 5" "v < 5" "(i_addr ip)[s := b] ! u \<noteq> 0" "(i_addr ip)[s := b] ! u = (i_addr ip)[s := b] ! v" for u v
    using that(3,4) pipe_atD(8) [OF P that(1,2)] no [OF that(1)] no [OF that(2)] unfolding n [OF that(1)] n [OF that(2)] by (auto split: if_splits)
  have k: "pipe_at ip f (b # ys) r q \<Longrightarrow> small_dev t" using t(2) by (simp add: pipe_at_def small_dev_def)
  show "pipe_at (ip\<lparr>i_addr := (i_addr ip)[s := b]\<rparr>) t ys r q"
    unfolding pipe_at_def using pipe_atD(1,2,5,6) [OF P] t(1) q u d k [OF P] by simp
qed

lemma pipe_append:
  assumes P: "pipe_at ip f xs r q" and b: "pblk (i_addr ip) (r + length q) = b" "b \<noteq> 0"
    and n: "length q + n \<le> 5120" "(r + length q) mod 1024 + n \<le> 1024"
    and g: "\<And>i. i < n \<Longrightarrow> c ((r + length q) mod 1024 + i) = g i"
    and old: "\<And>k. k < (r + length q) mod 1024 \<or> (r + length q) mod 1024 + n \<le> k \<Longrightarrow>
      c k = disk f b k \<or> (r + length q) mod 1024 = 0 \<and> length q + 1024 \<le> 5120"
  shows "pipe_at (ip\<lparr>i_size := i_size ip + of_nat n\<rparr>) (write_blk b c f) xs r (q @ map g [0..<n])"
proof -
  let ?s = "(r + length q) mod 5120 div 1024" let ?on = "(r + length q) mod 1024" let ?f = "write_blk b c f"
  have s: "?s < 5" "i_addr ip ! ?s = b" using b(1) by (simp_all add: pos_block(1) pblk_def)
  have W: "pipe_at ip ?f xs r q"
  proof (rule pipe_blk [OF P s b(2)])
    fix j assume j: "j < length q" "(r + j) mod 5120 div 1024 = ?s"
    have apart: "(r + j) mod 1024 \<noteq> ?on + i" if "length q + i < 5120" for i
    proof
      assume "(r + j) mod 1024 = ?on + i"
      from same_block [OF j(2) this] have "(r + (length q + i)) mod 5120 = (r + j) mod 5120" by (simp add: add.assoc)
      then show False using pos_apart [of j "length q + i" r] j(1) that by simp
    qed
    have "(r + j) mod 1024 < ?on \<or> ?on + n \<le> (r + j) mod 1024"
    proof (rule ccontr)
      assume "\<not> ?thesis"
      then obtain i where "(r + j) mod 1024 = ?on + i" "i < n" using le_iff_add [of ?on "(r + j) mod 1024"] by auto
      then show False using apart [of i] n(1) by simp
    qed
    from old [OF this] show "c ((r + j) mod 1024) = disk f b ((r + j) mod 1024)"
    proof (elim disjE conjE)
      assume "?on = 0" "length q + 1024 \<le> 5120"
      moreover have "(r + j) mod 1024 < 1024" by simp
      ultimately have "(r + j) mod 1024 \<noteq> (r + j) mod 1024" using apart [of "(r + j) mod 1024"] by linarith
      then show ?thesis by simp
    qed
  qed
  have q: "pblk (i_addr ip) (r + j) \<noteq> 0 \<and> (q @ map g [0..<n]) ! j = disk ?f (pblk (i_addr ip) (r + j)) ((r + j) mod 1024)"
    if j: "j < length q + n" for j
  proof (cases "j < length q")
    case True
    then show ?thesis using pipe_atD(9) [OF W True] by (simp add: nth_append)
  next
    case False
    then obtain i where i: "j = length q + i" using le_iff_add [of "length q" j] by auto
    then have "i < n" using j by simp
    then have p: "(r + j) mod 5120 div 1024 = ?s" "(r + j) mod 1024 = ?on + i" using next_pos [of "r + length q" i] n(2) i by (simp_all add: add.assoc)
    then have "pblk (i_addr ip) (r + j) = b" using b(1) by (simp add: pblk_def)
    then show ?thesis using b(2) p(2) g [OF \<open>i < n\<close>] i \<open>i < n\<close> by (simp add: nth_append write_blk_def)
  qed
  have z: "i_size ip + of_nat n = of_nat (length (q @ map g [0..<n]))" using pipe_atD(6) [OF P] by simp
  show ?thesis unfolding pipe_at_def using pipe_atD(1-4,7,8) [OF W] n(1) q z by (simp del: of_nat_add)
qed


section \<open>Taking from a pipe\<close>

text \<open>What the user structure shows of a transfer of \<open>n\<close> bytes that began at position \<open>w\<close>.\<close>

definition ring_user :: "nat \<Rightarrow> nat \<Rightarrow> usr \<Rightarrow> usr \<Rightarrow> bool" where
  "ring_user n w us us' \<longleftrightarrow> n \<le> unat (u_count (uu us)) \<and> u_count (uu us') = u_count (uu us) - of_nat n \<and>
     u_offset (uu us') = of_nat ((w + n) mod 5120) \<and> u_base us' = u_base us + of_nat n \<and> u_limit (uu us') = u_limit (uu us) \<and>
     u_segflg us' = u_segflg us \<and> u_fmode us' = u_fmode us \<and> u_ok us' = u_ok us"

definition taken :: "nat \<Rightarrow> u32 list \<Rightarrow> nat \<Rightarrow> byte list \<Rightarrow> inode \<Rightarrow> usr \<Rightarrow> (u16 \<Rightarrow> fs) \<Rightarrow> inode \<Rightarrow> usr \<Rightarrow> (u16 \<Rightarrow> fs) \<Rightarrow> bool" where
  "taken n xs r q ip us fss ip' us' fss' \<longleftrightarrow> n \<le> length q \<and> ring_user n r us us' \<and> u_err us' = None \<and>
     pipe_at ip' (fss' (i_dev ip)) xs (r + n) (drop n q) \<and> (\<forall>e. e \<noteq> i_dev ip \<longrightarrow> fss' e = fss e) \<and>
     i_dev ip' = i_dev ip \<and> i_number ip' = i_number ip \<and> i_addr ip' = i_addr ip \<and>
     filled n (\<lambda>j. q ! j) (u_base us) (umem us) (umem us')"

lemma pipe_bmap_read:
  assumes P: "pipe_at ip f xs r q" and o: "unat (u_offset u) = r" "r < 5120"
  shows "\<exists>a ip' u'. bmap mnt True ip u f = (a, ip', u', f) \<and> i_addr ip' = i_addr ip \<and>
    unat (u_pbsize u') = min (length q) (min (unat (u_count u)) (1024 - r mod 1024)) \<and>
    (u_pbsize u' = 0 \<longrightarrow> a = Hole) \<and> (u_pbsize u' \<noteq> 0 \<longrightarrow> a = Blk (pblk (i_addr ip) r))"
proof -
  have ty: "i_mode ip AND IFMT = IFIFO" "i_mode ip AND IFMT \<noteq> IFBLK" using pipe_atD(1) [OF P] by (auto simp: IFIFO_def IFBLK_def)
  have nn: "\<not> u_offset u <s 0" using o by (simp add: sless0_u32)
  have l: "length q \<le> 5120" using pipe_atD(5) [OF P] .
  have rr: "read_rest ip u = length q" using ty(1) pipe_size [OF P] l by (simp add: read_rest_def sless0_u32)
  obtain ra ip1 u1 where p: "bmap_part mnt True ip u = (if u_pbsize u1 = 0 then Some Hole else None, signed_drop_bit 10 (u_offset u), ra, ip1, u1)"
    "i_addr ip1 = i_addr ip" "unat (u_pbsize u1) = min (read_rest ip u) (min (unat (u_count u)) (1024 - unat (u_offset u) mod 1024))"
    using bmap_part_read [OF nn ty(2)] .
  show ?thesis
  proof (cases "u_pbsize u1 = 0")
    case True
    then have "bmap mnt True ip u f = (Hole, ip1, u1, f)" using p(1) by (simp add: bmap_def)
    then show ?thesis using True p(2,3) rr o by simp
  next
    case nz: False
    have b: "unat (signed_drop_bit 10 (u_offset u)) = r div 1024" using unat_off_block [OF nn] o by simp
    have lt: "signed_drop_bit 10 (u_offset u) <s of_nat (NADDR - 3)" using b o by (subst sless_small32) simp_all
    have "unat (u_pbsize u1) \<noteq> 0" using nz by (simp add: unat_eq_0_iff)
    then have q: "0 < length q" using p(3) rr by simp
    have "pblk (i_addr ip) r \<noteq> 0" using pipe_atD(9) [OF P q] by simp
    moreover have "pblk (i_addr ip) r = i_addr ip ! (r div 1024)" using o by (simp add: pblk_def)
    ultimately have "\<exists>u'. bmap mnt True ip u f = (Blk (pblk (i_addr ip) r), ip1, u', f) \<and> u_pbsize u' = u_pbsize u1"
      using p(1,2) nz lt b by (auto simp: bmap_def bmap_direct_def bmap_top_read)
    then show ?thesis using nz p(2,3) rr o by auto
  qed
qed

text \<open>One round of the loop.\<close>

lemma read_once_pipe:
  assumes P: "pipe_at ip (fss (i_dev ip)) xs r q" and o: "u_offset (uu us) = of_nat r" "r < 5120"
    and c: "u_err us = None" "may_write us" and e: "read_once dv mnt fss ip us = (go, ip', us', fss')"
  shows "\<exists>n. taken n xs r q ip us fss ip' us' fss' \<and> (if go then 0 < n else n = min (length q) (unat (u_count (uu us))))"
proof -
  let ?d = "i_dev ip" let ?f = "fss ?d" let ?c = "pblk (i_addr ip) r"
  have uo: "unat (u_offset (uu us)) = r" using o by (simp add: unsigned_of_nat take_bit_nat_eq_self)
  from pipe_bmap_read [OF P uo o(2), of mnt] obtain a jp u where
    b: "bmap mnt True ip (uu us) ?f = (a, jp, u, ?f)" "i_addr jp = i_addr ip"
    "unat (u_pbsize u) = min (length q) (min (unat (u_count (uu us))) (1024 - r mod 1024))"
    "u_pbsize u = 0 \<longrightarrow> a = Hole" "u_pbsize u \<noteq> 0 \<longrightarrow> a = Blk ?c" by blast
  note B = bmap_fields [OF b(1)]
  have ne: "\<forall>e. a \<noteq> Bad e" using b(4,5) by (cases "u_pbsize u = 0") auto
  have ty: "i_mode ip AND IFMT = IFIFO" "i_mode ip AND IFMT \<noteq> IFBLK" using pipe_atD(1) [OF P] by (auto simp: IFIFO_def IFBLK_def)
  have ty': "i_mode jp AND IFMT = IFIFO" using ty B(6) by simp
  have J: "pipe_at jp ?f xs r q" by (rule pipe_at_cong [OF P]) (use b(2) B in simp_all)
  let ?us = "us\<lparr>uu := u\<rparr>" let ?n = "u_pbsize u" let ?m = "unat (u_pbsize u)" let ?on = "r mod 1024"
  have on: "unat (u_pboff u) = ?on" using B(4) [OF ne] uo by (simp add: unat_bmap_off)
  show ?thesis
  proof (cases "?n = 0")
    case True
    then have r: "\<not> go" "ip' = jp" "us' = ?us" "fss' = fss" using e c(1) ne by (simp_all add: read_once_def b(1) Let_def bmap_err_ok)
    have "?on < 1024" by simp
    then have z: "min (length q) (unat (u_count (uu us))) = 0" using b(3) True by (auto simp: min_def split: if_splits)
    have "taken 0 xs r q ip us fss ip' us' fss'"
      using J r B b(2) c(1) o by (simp add: taken_def ring_user_def filled_def)
    then show ?thesis using r(1) z by auto
  next
    case nz: False
    have m: "0 < ?m" using nz by (simp add: unat_gt_0)
    have m: "0 < ?m" "?m \<le> length q" "?m \<le> unat (u_count (uu us))" "?on + ?m \<le> 1024"
      using b(3) m mod_less_divisor [of 1024 r] by linarith+
    have q: "0 < length q" using m by linarith
    have cz: "?c \<noteq> 0" "i_addr ip ! (r div 1024) = ?c" using pipe_atD(9) [OF P q] o(2) by (simp_all add: pblk_def)
    have us: "usable ?f ?c" using pipe_atD(7) [OF P, of "r div 1024"] cz o(2) by simp
    have dev: "u_pbdev u = ?d" using B(11) ty(2) by simp
    let ?b = "disk ?f ?c"
    have get: "(if reply_bn a <s 0 then (\<lambda>_. 0, False, ?us) else bread_u dv (fss (u_pbdev u)) (reply_bn a) ?us) = (?b, False, ?us)" "\<not> reply_bn a <s 0"
      using b(5) nz us usable_nonneg [OF us] by (simp_all add: reply_bn_def bread_u_def dev usable_def)
    let ?ws = "moved ?n (?us\<lparr>umem := copy_out ?b ?on ?n (u_base us) (umem us)\<rparr>)"
    have mv: "iomove_out ?b (unat (u_pboff u)) ?n ?us = ?ws"
      using nz c(2) on by (auto simp: iomove_out_def may_write_def)
    have put: "read_put dv ?c u ?n fss jp ?ws = (go, ip', us', fss')"
      using e c(1) nz get b(5) unfolding read_once_def b(1) Let_def prod.case bmap_err_ok [OF ne]
      by (simp add: mv reply_bn_def)
    have nw: "ucast ?n = (of_nat ?m :: u32)" by simp
    have wo: "u_offset (uu ?ws) = of_nat (r + ?m)" using B(2) o nw by (simp add: moved_def)
    have "r div 1024 < 5" using o(2) by simp
    then have rm: "r + ?m \<le> 5120"
      using m(4) mult_div_mod_eq [of 1024 r] by linarith
    have u_rm: "unat (of_nat (r + ?m) :: u32) = r + ?m" using rm by (simp only: unsigned_of_nat take_bit_nat_eq_self) (simp add: take_bit_nat_eq_self)
    have full: "(of_nat PIPSIZ :: u32) \<le>s u_offset (uu ?ws) \<longleftrightarrow> r + ?m = 5120"
      using sless_small32 [of "u_offset (uu ?ws)" "of_nat PIPSIZ"] rm unfolding wo u_rm
      by (auto simp: signed.not_less [symmetric] u_rm simp del: of_nat_add)
    have off: "(if r + ?m = 5120 then 0 else of_nat (r + ?m)) = (of_nat ((r + ?m) mod 5120) :: u32)" using rm by (auto simp del: of_nat_add)
    let ?jp = "jp\<lparr>i_size := i_size jp - of_nat ?m\<rparr>"
    have T: "pipe_at ?jp ?f xs (r + ?m) (drop ?m q)" by (rule pipe_take [OF J m(2)])
    let ?drop = "u_pboff u + ?n = 1024 \<and> i_size ?jp <s of_nat PIPSIZ - 1024"
    have r: "go \<longleftrightarrow> u_count (uu us') \<noteq> 0" "ip' = ?jp\<lparr>i_flag := i_flag jp OR IACC\<rparr>"
        "us' = ?ws\<lparr>uu := (uu ?ws)\<lparr>u_offset := of_nat ((r + ?m) mod 5120)\<rparr>\<rparr>"
        "fss' = (if ?drop then fss(?d := write_blk ?c (stale dv ?c) ?f) else fss)"
proof -
      have "i_mode ?jp AND IFMT = IFIFO" using ty' by simp
      then show "go \<longleftrightarrow> u_count (uu us') \<noteq> 0" "ip' = ?jp\<lparr>i_flag := i_flag jp OR IACC\<rparr>"
        "us' = ?ws\<lparr>uu := (uu ?ws)\<lparr>u_offset := of_nat ((r + ?m) mod 5120)\<rparr>\<rparr>"
        "fss' = (if ?drop then fss(?d := write_blk ?c (stale dv ?c) ?f) else fss)"
        using put ty' nz full c(1) dev off [symmetric] wo unfolding read_put_def Let_def
        by (auto simp: moved_def simp del: of_nat_add)
    qed
    have S: "ring_user ?m r us us'"
      using m(3) B(1,3) by (simp add: ring_user_def r(3) moved_def)
    have W: "pipe_at ?jp (fss' ?d) xs (r + ?m) (drop ?m q)"
    proof (cases ?drop)
      case False
      show ?thesis using T unfolding r(4) if_not_P [OF False] .
    next
      case True
      have "unat (u_pboff u + ?n) = ?on + ?m" using unat_plus_small [of "u_pboff u" ?n] on m(4) by simp
      then have e1: "?on + ?m = 1024" using True by simp
      have e2: "length q - ?m < 4096"
        using True sless_small32 [of "i_size ?jp" "of_nat PIPSIZ - 1024"] pipe_size [OF T] pipe_atD(5) [OF P] by simp
      have "pipe_at ?jp (write_blk ?c (stale dv ?c) ?f) xs (r + ?m) (drop ?m q)"
      proof (rule pipe_blk [OF T _ _ cz(1)])
        show "r div 1024 < 5" "i_addr ?jp ! (r div 1024) = ?c" using o(2) cz(2) b(2) by simp_all
        fix j assume j: "j < length (drop ?m q)" "(r + ?m + j) mod 5120 div 1024 = r div 1024"
        define s where "s = r - ?on"
        have s: "s = 1024 * (r div 1024)" by (simp add: s_def minus_mod_eq_mult_div)
        have sm: "r + ?m = s + 1024" using e1 by (simp add: s_def)
        let ?i = "(r + ?m + j) mod 1024"
        have "(r + ?m + j) mod 5120 = (s + ?i) mod 5120" by (rule same_block) (use j(2) s o(2) in simp_all)
        then have "(s + (1024 + j)) mod 5120 = (s + ?i) mod 5120" using sm by (simp add: add.assoc)
        moreover have "?i < 1024" by simp
        then have "?i < 1024 + j" "1024 + j < ?i + 5120" using j(1) e2 by simp_all
        ultimately have False using pos_apart [of ?i "1024 + j" s] by simp
        then show "stale dv ?c ((r + ?m + j) mod 1024) = disk ?f ?c ((r + ?m + j) mod 1024)" by simp
      qed
      then show ?thesis unfolding r(4) if_P [OF True] by simp
    qed
    have "pipe_at ip' (fss' ?d) xs (r + ?m) (drop ?m q)" by (rule pipe_at_cong [OF W]) (simp_all add: r(2))
    moreover have "filled ?m (\<lambda>j. q ! j) (u_base us) (umem us) (umem us')"
      unfolding filled_def
    proof
      fix a
      have "?b (?on + j) = q ! j" if "j < ?m" for j
      proof -
        have "(r + j) mod 5120 div 1024 = r mod 5120 div 1024" "(r + j) mod 1024 = ?on + j" using next_pos [of r j] m(4) that by simp_all
        then show ?thesis using pipe_atD(9) [OF P, of j] that m(2) by (simp add: pblk_def)
      qed
      then show "umem us' a = (let j = unat (a - u_base us) in if j < ?m then q ! j else umem us a)"
        by (simp add: r(3) moved_def copy_out_def Let_def)
    qed
    ultimately have "taken ?m xs r q ip us fss ip' us' fss'"
      using S m(2) c(1) b(2) B(8,9) by (simp add: taken_def r(2-4) moved_def)
    moreover have "?m = min (length q) (unat (u_count (uu us)))" if "\<not> go"
    proof -
      have "u_count (uu us) - ?n = 0" using that r(1,3) B(1) by (simp add: moved_def)
      then have "?m = unat (u_count (uu us))" by simp
      then show ?thesis using m(2) by simp
    qed
    ultimately show ?thesis using m(1) by auto
  qed
qed


lemma ring_user_count:
  assumes "ring_user n w us us'" shows "unat (u_count (uu us')) = unat (u_count (uu us)) - n" "n < 65536"
proof -
  have n: "n \<le> unat (u_count (uu us))" using assms by (simp add: ring_user_def)
  then show "n < 65536" using u16_lt [of "u_count (uu us)"] by linarith
  then have u: "unat (of_nat n :: u16) = n" by (simp add: unsigned_of_nat take_bit_nat_eq_self)
  then show "unat (u_count (uu us')) = unat (u_count (uu us)) - n"
    using assms n unat_minus_small [of "of_nat n" "u_count (uu us)"] by (simp add: ring_user_def word_le_nat_alt)
qed

lemma ring_user_trans:
  assumes A: "ring_user n w us us1" and B: "ring_user d ((w + n) mod 5120) us1 us2" shows "ring_user (n + d) w us us2"
proof -
  have "d \<le> unat (u_count (uu us)) - n" "n \<le> unat (u_count (uu us))" using A B ring_user_count(1) [OF A] by (simp_all add: ring_user_def)
  moreover have "((w + n) mod 5120 + d) mod 5120 = (w + (n + d)) mod 5120" by (simp add: mod_simps add.assoc)
  ultimately show ?thesis using A B by (simp add: ring_user_def)
qed

lemma taken_trans:
  assumes A: "taken n xs r q ip us fss ip1 us1 fss1" and B: "taken d xs ((r + n) mod 5120) (drop n q) ip1 us1 fss1 ip2 us2 fss2"
  shows "taken (n + d) xs r q ip us fss ip2 us2 fss2"
proof -
  have S: "ring_user n r us us1" "ring_user d ((r + n) mod 5120) us1 us2" "n \<le> length q" "d \<le> length q - n" "i_dev ip1 = i_dev ip"
    using A B by (simp_all add: taken_def)
  note T = ring_user_trans [OF S(1,2)]
  have "pipe_at ip2 (fss2 (i_dev ip)) xs ((r + n) mod 5120 + d) (drop d (drop n q))" using B S(5) by (simp add: taken_def)
  then have "pipe_at ip2 (fss2 (i_dev ip)) xs (((r + n) mod 5120 + d) mod 5120) (drop d (drop n q))" by (simp only: pipe_at_mod)
  moreover have "((r + n) mod 5120 + d) mod 5120 = (r + (n + d)) mod 5120" by (simp add: mod_simps add.assoc)
  moreover have "drop d (drop n q) = drop (n + d) q" by (simp add: add.commute)
  ultimately have p: "pipe_at ip2 (fss2 (i_dev ip)) xs (r + (n + d)) (drop (n + d) q)" by (simp only: pipe_at_mod)
  have b: "u_base us1 = u_base us + of_nat n" using S(1) by (simp add: ring_user_def)
  have "filled d (\<lambda>j. q ! (n + j)) (u_base us + of_nat n) (umem us1) (umem us2)" "filled n (\<lambda>j. q ! j) (u_base us) (umem us) (umem us1)"
    using A B S(3) by (simp_all add: taken_def b)
  from filled_trans [OF this(2,1) ring_user_count(2) [OF T]] show ?thesis
    using A B T p S unfolding taken_def by simp
qed

lemma read_loop_pipe:
  "pipe_at ip (fss (i_dev ip)) xs r q \<Longrightarrow> u_offset (uu us) = of_nat r \<Longrightarrow> r < 5120 \<Longrightarrow> u_err us = None \<Longrightarrow> may_write us \<Longrightarrow>
   read_loop dv mnt fss ip us = (ip', us', fss') \<Longrightarrow> taken (min (length q) (unat (u_count (uu us)))) xs r q ip us fss ip' us' fss'"
proof (induction dv mnt fss ip us arbitrary: r q rule: read_loop.induct)
  case (1 dv mnt fss ip us)
  obtain go jp vs gs where w: "read_once dv mnt fss ip us = (go, jp, vs, gs)" by (metis prod.collapse)
  from read_once_pipe [OF 1(2-6) w] obtain n where
    W: "taken n xs r q ip us fss jp vs gs" "if go then 0 < n else n = min (length q) (unat (u_count (uu us)))" by blast
  have S: "ring_user n r us vs" "n \<le> length q" using W(1) by (simp_all add: taken_def)
  show ?case
  proof (cases go)
    case True
    then have l: "read_loop dv mnt gs jp vs = (ip', us', fss')" using 1(7) w by simp
    have P: "pipe_at jp (gs (i_dev jp)) xs ((r + n) mod 5120) (drop n q)" using W(1) by (simp add: taken_def pipe_at_mod)
    have K: "u_offset (uu vs) = of_nat ((r + n) mod 5120)" "u_err vs = None" "may_write vs"
      using W(1) S 1(6) by (simp_all add: taken_def ring_user_def may_write_def)
    have "taken (min (length (drop n q)) (unat (u_count (uu vs)))) xs ((r + n) mod 5120) (drop n q) jp vs gs ip' us' fss'"
      by (rule 1(1) [OF w [symmetric] refl refl True P K(1) _ K(2,3) l]) simp
    moreover have "n + min (length (drop n q)) (unat (u_count (uu vs))) = min (length q) (unat (u_count (uu us)))"
      using S unfolding ring_user_count(1) [OF S(1)] ring_user_def length_drop by linarith
    ultimately show ?thesis using taken_trans [OF W(1)] by metis
  next
    case False
    then show ?thesis using 1(7) w W by simp
  qed
qed

end
