(* ===== verification/Pipe_Use.thy ===== *)
theory Pipe_Use
  imports Pipe_Queue
begin

text \<open>
  Writing to a pipe, and the calls \<open>readi\<close> and \<open>writei\<close> on pipes as operations on the queue: what is taken
  and put, who sleeps and who is woken, and that a write of at most 5120 bytes is not divided.
\<close>

section \<open>Putting into a pipe\<close>

lemma pipe_bmap_write:
  assumes P: "pipe_at ip f xs r q" and o: "unat (u_offset u) = w" "w < 5120" and lim: "\<not> ptol (u_limit u) \<le>s 4"
  shows "\<exists>a ip' u' f'. bmap mnt False ip u f = (a, ip', u', f') \<and> (\<forall>s \<ge> 5. i_addr ip' ! s = i_addr ip ! s) \<and>
    (case a of Blk b \<Rightarrow> b \<noteq> 0 \<and> i_addr ip' ! (w div 1024) = b \<and> (\<exists>ys. pipe_at ip' f' ys r q)
     | Bad e \<Rightarrow> e = ENOSPC \<and> pipe_at ip' f' [] r q \<and> i_addr ip' ! (w div 1024) = 0 | Hole \<Rightarrow> False)"
proof -
  have ty: "i_mode ip AND IFMT \<noteq> IFBLK" using pipe_atD(1) [OF P] by (auto simp: IFIFO_def IFBLK_def)
  have nn: "\<not> u_offset u <s 0" using o by (simp add: sless0_u32)
  let ?s = "w div 1024"
  have s: "?s < 5" using o by simp
  have bn: "unat (signed_drop_bit 10 (u_offset u)) = ?s" using unat_off_block [OF nn] o by simp
  have l4: "signed_drop_bit 10 (u_offset u) \<le>s 4"
    using sless_small32 [of 4 "signed_drop_bit 10 (u_offset u)"] bn s by (simp add: signed.not_less [symmetric])
  then have lm: "\<not> ptol (u_limit u) \<le>s signed_drop_bit 10 (u_offset u)" using lim signed.order_trans by blast
  obtain ra jp v where p: "bmap_part mnt False ip u = (None, signed_drop_bit 10 (u_offset u), ra, jp, v)" "i_addr jp = i_addr ip" "i_mode jp = i_mode ip"
    using bmap_part_write [OF nn ty lm] .
  have lt: "signed_drop_bit 10 (u_offset u) <s of_nat (NADDR - 3)" using bn s by (subst sless_small32) simp_all
  have J: "pipe_at jp f xs r q" by (rule pipe_at_cong [OF P]) (use p bmap_part_fields(7) [OF p(1)] in simp_all)
  have e: "bmap mnt False ip u f = bmap_direct False ra ?s jp v f" using p lt bn by (simp add: bmap_def)
  show ?thesis
  proof (cases "i_addr jp ! ?s = 0")
    case False
    then have "\<exists>v'. bmap_direct False ra ?s jp v f = (Blk (i_addr jp ! ?s), jp, v', f)" by (auto simp: bmap_direct_def bmap_top_def Let_def)
    then show ?thesis using e False J p(2) by fastforce
  next
    case zero: True
    show ?thesis
    proof (cases xs)
      case Nil
      obtain t where t: "new_block f = (Bad ENOSPC, t)" "fs_free t []" "usable t = usable f" "disk t = disk f"
        using new_block_none pipe_atD(3) [OF J] Nil by blast
      have "bmap_direct False ra ?s jp v f = (Bad ENOSPC, jp, v, t)" using zero t(1) by (simp add: bmap_direct_def bmap_top_def Let_def)
      moreover have "pipe_at jp t [] r q" using J t(2-4) Nil by (simp add: pipe_at_def small_dev_def)
      ultimately show ?thesis using e p(2) zero by simp
    next
      case (Cons b ys)
      obtain t where t: "new_block f = (Blk b, t)" "fs_free t ys" "usable t = usable f" "disk t = (disk f)(b := (\<lambda>_. 0))"
        using new_block_some [of f b ys] pipe_atD(3,4) [OF J] Cons by blast
      let ?as = "(i_addr jp)[?s := b]" let ?jp = "jp\<lparr>i_addr := ?as, i_flag := i_flag jp OR (IUPD OR ICHG)\<rparr>"
      have "\<exists>v'. bmap_direct False ra ?s jp v f = (Blk b, ?jp, v', t)" using zero t(1) by (auto simp: bmap_direct_def bmap_top_def Let_def)
      moreover note A = pipe_alloc [OF J [unfolded Cons] s zero t(2-4)]
      moreover have "pipe_at ?jp t ys r q" by (rule pipe_at_cong [OF A(1)]) simp_all
      moreover have "?as ! ?s = b" using s pipe_atD(2) [OF J] by simp
      ultimately show ?thesis using e p(2) s by fastforce
    qed
  qed
qed

text \<open>No block is free, and the pipe has none for its next byte.\<close>

definition starved :: "nat \<Rightarrow> byte list \<Rightarrow> inode \<Rightarrow> fs \<Rightarrow> bool" where
  "starved r q ip f \<longleftrightarrow> pipe_at ip f [] r q \<and> i_addr ip ! ((r + length q) mod 5120 div 1024) = 0"

definition put :: "nat \<Rightarrow> nat \<Rightarrow> byte list \<Rightarrow> inode \<Rightarrow> usr \<Rightarrow> (u16 \<Rightarrow> fs) \<Rightarrow> inode \<Rightarrow> usr \<Rightarrow> (u16 \<Rightarrow> fs) \<Rightarrow> bool" where
  "put n r q ip us fss ip' us' fss' \<longleftrightarrow> ring_user n (r + length q) us us' \<and> umem us' = umem us \<and>
     (\<exists>ys. pipe_at ip' (fss' (i_dev ip)) ys r (q @ map (\<lambda>j. umem us (u_base us + of_nat j)) [0..<n])) \<and> (\<forall>e. e \<noteq> i_dev ip \<longrightarrow> fss' e = fss e) \<and>
     i_dev ip' = i_dev ip \<and> i_number ip' = i_number ip \<and> (\<forall>s \<ge> 5. i_addr ip' ! s = i_addr ip ! s)"

lemma write_once_pipe:
  assumes P: "pipe_at ip (fss (i_dev ip)) xs r q" and o: "u_offset (uu us) = of_nat ((r + length q) mod 5120)" and lim: "\<not> ptol (u_limit (uu us)) \<le>s 4"
    and room: "length q + unat (u_count (uu us)) \<le> 5120" "u_count (uu us) \<noteq> 0"
    and c: "u_err us = None" "may_read us" and e: "write_once dv mnt ip us fss = (brk, ip', us', fss')"
  shows "\<exists>n. put n r q ip us fss ip' us' fss' \<and> 
    (if brk then u_err us' = Some ENOSPC \<and> n < unat (u_count (uu us)) \<and>
       starved r (q @ map (\<lambda>j. umem us (u_base us + of_nat j)) [0..<n]) ip' (fss' (i_dev ip)) else u_err us' = None)"
proof -
  let ?d = "i_dev ip" let ?f = "fss ?d" let ?w = "(r + length q) mod 5120"
  have w: "?w < 5120" by simp
  have uo: "unat (u_offset (uu us)) = ?w" using o w by (simp add: unsigned_of_nat take_bit_nat_eq_self)
  from pipe_bmap_write [OF P uo w lim, of mnt] obtain a jp u f where
    b: "bmap mnt False ip (uu us) ?f = (a, jp, u, f)" "\<forall>s \<ge> 5. i_addr jp ! s = i_addr ip ! s"
    "case a of Blk b \<Rightarrow> b \<noteq> 0 \<and> i_addr jp ! (?w div 1024) = b \<and> (\<exists>ys. pipe_at jp f ys r q)
     | Bad e \<Rightarrow> e = ENOSPC \<and> pipe_at jp f [] r q \<and> i_addr jp ! (?w div 1024) = 0 | Hole \<Rightarrow> False" by blast
  note B = bmap_fields [OF b(1)]
  have ty: "i_mode ip AND IFMT = IFIFO" "i_mode ip AND IFMT \<noteq> IFBLK" using pipe_atD(1) [OF P] by (auto simp: IFIFO_def IFBLK_def)
  have ty': "i_mode jp AND IFMT = IFIFO" using ty B(6) by simp
  have dj: "i_dev jp = ?d" using B(8) .
  let ?fss = "fss(?d := f)"
  show ?thesis
  proof (cases a)
    case Hole
    then show ?thesis using b(3) by simp
  next
    case (Bad x)
    then have r: "brk" "ip' = jp" "us' = us\<lparr>uu := u, u_err := Some ENOSPC\<rparr>" "fss' = ?fss"
      using e b(3) by (simp_all add: write_once_def b(1) Let_def bmap_err_def dj)
    have "put 0 r q ip us fss ip' us' fss'" using b(2,3) Bad B(1-3,8,9) o by (auto simp: put_def r ring_user_def)
    moreover have "starved r q ip' (fss' ?d)" using b(3) Bad by (simp add: starved_def r)
    ultimately show ?thesis using r room(2) by (intro exI [of _ 0]) (auto simp: unat_gt_0)
  next
    case (Blk c)
    then obtain ys where bk: "c \<noteq> 0" "i_addr jp ! (?w div 1024) = c" "pipe_at jp f ys r q" using b(3) by auto
    note J = bk(3)
    let ?us = "us\<lparr>uu := u\<rparr>" and ?n = "u_pbsize u" and ?on = "?w mod 1024" let ?m = "unat ?n"
    have ne: "\<forall>e. a \<noteq> Bad e" using Blk by simp
    have m: "?m = min (unat (u_count (uu us))) (1024 - ?on)"
      using B(5) [OF _ ne] uo by (simp add: min_def word_le_nat_alt bmap_sizes(1))
    have on: "unat (u_pboff u) = ?on" using B(4) [OF ne] uo by (simp add: unat_bmap_off)
    have ml: "?m \<le> unat (u_count (uu us))" "?on + ?m \<le> 1024" using m mod_less_divisor [of 1024 ?w] by linarith+
    have "unat (u_count (uu us)) \<noteq> 0" using room(2) by (simp add: unat_eq_0_iff)
    then have mz: "0 < ?m" using m mod_less_divisor [of 1024 ?w] by linarith
    then have nz: "?n \<noteq> 0" by auto
    have dev: "u_pbdev u = ?d" using B(11) ty(2) by simp
    have io: "\<not> io_err f c" using pipe_atD(7) [OF J, of "?w div 1024"] bk w by (simp add: usable_def)
    let ?get = "?n = 1024 \<or> u_pboff u = 0 \<and> i_size jp <s of_nat PIPSIZ - 1024"
    define b0 where "b0 = (if ?get then stale dv c else disk f c)"
    have g: "write_get dv c u jp ?us ?fss = (b0, ?us)"
      using io dev ty' by (simp add: write_get_def bread_u_def b0_def)
    have old: "b0 k = disk f c k \<or> ?on = 0 \<and> length q + 1024 \<le> 5120" for k
    proof (cases ?get)
      case True
      then have "?on = 0 \<and> length q + 1024 \<le> 5120"
      proof
        assume "?n = 1024"
        then have "?m = 1024" by simp
        then show ?thesis using ml room(1) by linarith
      next
        assume h: "u_pboff u = 0 \<and> i_size jp <s of_nat PIPSIZ - 1024"
        then have "length q < 4096"
          using sless_small32 [of "i_size jp" "of_nat PIPSIZ - 1024"] pipe_size [OF J] pipe_atD(5) [OF P] by simp
        then show ?thesis using h on by simp
      qed
      then show ?thesis by simp
    next
      case False
      then have "b0 = disk f c" unfolding b0_def by (rule if_not_P)
      then show ?thesis by simp
    qed
    let ?b = "copy_in (umem us) (u_base us) ?on ?n b0"
    have v: "iomove_in (unat (u_pboff u)) ?n b0 ?us = (?b, moved ?n ?us)" using nz c(2) on by (auto simp: iomove_in_def may_read_def)
    have mv: "u_err (moved ?n ?us) = None" "u_offset (uu (moved ?n ?us)) = of_nat (?w + ?m)"
      using c(1) B(2) o by (simp_all add: moved_def)
    have "?w div 1024 < 5" by simp
    then have wm: "?w + ?m \<le> 5120" using ml(2) mult_div_mod_eq [of 1024 ?w] by linarith
    have u_wm: "unat (of_nat (?w + ?m) :: u32) = ?w + ?m" using wm by (simp only: unsigned_of_nat) (simp add: take_bit_nat_eq_self)
    have full: "u_offset (uu (moved ?n ?us)) = of_nat PIPSIZ \<longleftrightarrow> ?w + ?m = 5120"
      unfolding mv(2) using u_wm by (auto simp: word_unat_eq_iff simp del: of_nat_add)
    have off: "(if ?w + ?m = 5120 then 0 else of_nat (?w + ?m)) = (of_nat ((?w + ?m) mod 5120) :: u32)" using wm by (auto simp del: of_nat_add)
    let ?jp = "jp\<lparr>i_size := i_size jp + of_nat ?m\<rparr>"
    have r: "\<not> brk" "us' = (moved ?n ?us)\<lparr>uu := (uu (moved ?n ?us))\<lparr>u_offset := of_nat ((?w + ?m) mod 5120)\<rparr>\<rparr>"
        "fss' = fss(?d := write_blk c ?b f)" "ip' = ?jp\<lparr>i_flag := i_flag jp OR (IUPD OR ICHG)\<rparr>"
proof -
      have pt: "\<not> brk" "write_put dv c ?d ?n ?b jp (moved ?n ?us) ?fss = (ip', us', fss')"
        using e c(1) unfolding write_once_def b(1) Blk Let_def prod.case dj dev reply_bn_def bmap_err_def bmap_reply.case g v by simp_all
      then show "\<not> brk" by simp
      show "us' = (moved ?n ?us)\<lparr>uu := (uu (moved ?n ?us))\<lparr>u_offset := of_nat ((?w + ?m) mod 5120)\<rparr>\<rparr>"
        "fss' = fss(?d := write_blk c ?b f)" "ip' = ?jp\<lparr>i_flag := i_flag jp OR (IUPD OR ICHG)\<rparr>"
        using pt(2) ty' io mv(1) full off [symmetric] unfolding write_put_def Let_def
        by (auto simp: IFIFO_def IFREG_def IFDIR_def mv(2) simp del: of_nat_add)
    qed
    let ?g = "\<lambda>j. umem us (u_base us + of_nat j)"
    have wq: "(r + length q) mod 1024 = ?on" by (simp add: pos_block)
    have "pipe_at ?jp (write_blk c ?b f) ys r (q @ map ?g [0..<?m])"
    proof (rule pipe_append [OF J _ bk(1)])
      show "pblk (i_addr jp) (r + length q) = c" using bk(2) by (simp add: pblk_def)
      show "length q + ?m \<le> 5120" "(r + length q) mod 1024 + ?m \<le> 1024" using room(1) ml wq by simp_all
      show "?b ((r + length q) mod 1024 + i) = ?g i" if "i < ?m" for i using that by (simp add: copy_in_def wq)
      show "?b k = disk f c k \<or> (r + length q) mod 1024 = 0 \<and> length q + 1024 \<le> 5120"
        if "k < (r + length q) mod 1024 \<or> (r + length q) mod 1024 + ?m \<le> k" for k
        using that old [of k] unfolding wq copy_in_def by auto
    qed
    then have "pipe_at ip' (fss' ?d) ys r (q @ map ?g [0..<?m])" unfolding r(3) fun_upd_same
      by (rule pipe_at_cong) (simp_all add: r(4))
    moreover have "ring_user ?m (r + length q) us us'"
      using ml(1) B(1,3) by (simp add: ring_user_def r(2) moved_def mod_simps)
    ultimately have "put ?m r q ip us fss ip' us' fss'" unfolding put_def using b(2) dj B(9) by (auto simp: r(2-4) moved_def)
    then show ?thesis using r(1,2) mv(1) by auto
  qed
qed

lemma put_more:
  assumes "put n r q ip us fss ip1 us1 fss1"
  shows "(q @ map (\<lambda>j. umem us (u_base us + of_nat j)) [0..<n]) @ map (\<lambda>j. umem us1 (u_base us1 + of_nat j)) [0..<d] =
    q @ map (\<lambda>j. umem us (u_base us + of_nat j)) [0..<n + d]"
proof -
  have "u_base us1 = u_base us + of_nat n" "umem us1 = umem us" using assms by (simp_all add: put_def ring_user_def)
  then show ?thesis by (intro nth_equalityI) (auto simp: nth_append add.assoc)
qed

lemma put_trans:
  assumes A: "put n r q ip us fss ip1 us1 fss1" and B: "put d r (q @ map (\<lambda>j. umem us (u_base us + of_nat j)) [0..<n]) ip1 us1 fss1 ip2 us2 fss2"
  shows "put (n + d) r q ip us fss ip2 us2 fss2"
proof -
  let ?g = "\<lambda>j. umem us (u_base us + of_nat j)" let ?q = "q @ map ?g [0..<n]"
  have S: "ring_user n (r + length q) us us1" "i_dev ip1 = i_dev ip" "umem us1 = umem us" using A by (simp_all add: put_def)
  have "ring_user d (r + length q + n) us1 us2" using B by (simp add: put_def add.assoc)
  then have "ring_user d ((r + length q + n) mod 5120) us1 us2" by (simp add: ring_user_def mod_simps)
  note T = ring_user_trans [OF S(1) this]
  show ?thesis using put_more [OF A, of d] A B T S unfolding put_def by auto
qed

lemma put_0: "pipe_at ip (fss (i_dev ip)) xs r q \<Longrightarrow> u_offset (uu us) = of_nat ((r + length q) mod 5120) \<Longrightarrow> put 0 r q ip us fss ip us fss"
  by (auto simp: put_def ring_user_def)

lemma write_loop_pipe:
  "pipe_at ip (fss (i_dev ip)) xs r q \<Longrightarrow> u_offset (uu us) = of_nat ((r + length q) mod 5120) \<Longrightarrow> \<not> ptol (u_limit (uu us)) \<le>s 4 \<Longrightarrow>
   length q + unat (u_count (uu us)) \<le> 5120 \<Longrightarrow> u_err us = None \<Longrightarrow> may_read us \<Longrightarrow> write_loop dv mnt ip us fss = (ip', us', fss') \<Longrightarrow>
   \<exists>n. put n r q ip us fss ip' us' fss' \<and> (u_err us' = None \<and> n = unat (u_count (uu us)) \<or>
     u_err us' = Some ENOSPC \<and> n < unat (u_count (uu us)) \<and>
     starved r (q @ map (\<lambda>j. umem us (u_base us + of_nat j)) [0..<n]) ip' (fss' (i_dev ip)))"
proof (induction dv mnt ip us fss arbitrary: q xs rule: write_loop.induct)
  case (1 dv mnt ip us fss)
  show ?case
  proof (cases "u_count (uu us) = 0")
    case True
    then have "ip' = ip" "us' = us" "fss' = fss" using 1(8) by simp_all
    then show ?thesis using put_0 [of ip fss xs r q us, OF 1(2,3)] True 1(6) by auto
  next
    case nz: False
    obtain brk jp vs gs where w: "write_once dv mnt ip us fss = (brk, jp, vs, gs)" by (metis prod.collapse)
    from write_once_pipe [OF 1(2-5) nz 1(6,7) w] obtain n where
      W: "put n r q ip us fss jp vs gs" "if brk then u_err vs = Some ENOSPC \<and> n < unat (u_count (uu us)) \<and>
         starved r (q @ map (\<lambda>j. umem us (u_base us + of_nat j)) [0..<n]) jp (gs (i_dev ip)) else u_err vs = None" by blast
    have S: "ring_user n (r + length q) us vs" using W(1) by (simp add: put_def)
    note C = ring_user_count(1) [OF S]
    show ?thesis
    proof (cases brk)
      case True
      then have "ip' = jp" "us' = vs" "fss' = gs" using 1(6,8) nz w by simp_all
      then show ?thesis using W True by auto
    next
      case False
      then have l: "write_loop dv mnt jp vs gs = (ip', us', fss')" and ev: "u_err vs = None" using 1(6,8) nz w W(2) by simp_all
      let ?q = "q @ map (\<lambda>j. umem us (u_base us + of_nat j)) [0..<n]"
      have d: "i_dev jp = i_dev ip" using W(1) by (simp add: put_def)
      obtain ys where ys: "pipe_at jp (gs (i_dev jp)) ys r ?q" using W(1) by (auto simp: put_def)
      have U: "u_offset (uu vs) = of_nat ((r + length ?q) mod 5120)" "\<not> ptol (u_limit (uu vs)) \<le>s 4" "may_read vs" "n \<le> unat (u_count (uu us))"
        using S 1(4,7) by (simp_all add: ring_user_def may_read_def add.assoc)
      then have R: "length ?q + unat (u_count (uu vs)) \<le> 5120" using C 1(5) by simp
      have "\<exists>d. put d r ?q jp vs gs ip' us' fss' \<and> (u_err us' = None \<and> d = unat (u_count (uu vs)) \<or>
          u_err us' = Some ENOSPC \<and> d < unat (u_count (uu vs)) \<and>
          starved r (?q @ map (\<lambda>j. umem vs (u_base vs + of_nat j)) [0..<d]) ip' (fss' (i_dev jp)))"
        by (rule 1(1) [OF conjI [OF 1(6) nz] w [symmetric] refl refl _ ys U(1,2) R ev U(3) l]) (use False ev in simp)
      then obtain d where "put d r ?q jp vs gs ip' us' fss'" "u_err us' = None \<and> d = unat (u_count (uu vs)) \<or> u_err us' = Some ENOSPC \<and> d < unat (u_count (uu vs)) \<and>
          starved r (?q @ map (\<lambda>j. umem vs (u_base vs + of_nat j)) [0..<d]) ip' (fss' (i_dev ip))" using d by auto
      then show ?thesis using put_trans [OF W(1)] C U(4) unfolding put_more [OF W(1)] by (intro exI [of _ "n + d"]) auto
    qed
  qed
qed


section \<open>The calls\<close>

definition pipe_holds :: "inode \<Rightarrow> fs \<Rightarrow> u32 list \<Rightarrow> byte list \<Rightarrow> bool" where
  "pipe_holds ip f xs q \<longleftrightarrow> unat (i_frptr ip) < 5120 \<and> i_fwptr ip = of_nat ((unat (i_frptr ip) + length q) mod 5120) \<and>
     pipe_at ip f xs (unat (i_frptr ip)) q"

lemma pipe_holdsI:
  assumes "pipe_at ip f xs r q" "i_frptr ip = of_nat (r mod 5120)" "i_fwptr ip = of_nat ((r + length q) mod 5120)"
  shows "pipe_holds ip f xs q"
proof -
  have "r mod 5120 < 5120" by simp
  then have "unat (i_frptr ip) = r mod 5120" unfolding assms(2) by (simp only: unsigned_of_nat) (simp add: take_bit_nat_eq_self)
  then show ?thesis using assms(1,3) by (simp add: pipe_holds_def pipe_at_mod mod_simps)
qed

lemma get_f_cong: "i_addr ip' ! (k div 2) = i_addr ip ! (k div 2) \<Longrightarrow> get_f k ip' = get_f k ip"
  by (simp add: get_f_def)

lemma pipe_at_set: "pipe_at ip f xs r q \<Longrightarrow> 10 \<le> k \<Longrightarrow> pipe_at (set_f k x ip) f xs r q"
  by (erule pipe_at_cong) auto

lemma ip_prele_fields [simp]:
  "i_addr (ip_prele ip) = i_addr ip" "i_size (ip_prele ip) = i_size ip" "i_mode (ip_prele ip) = i_mode ip" "i_dev (ip_prele ip) = i_dev ip"
  "get_f k (ip_prele ip) = get_f k ip"
  by (simp_all add: ip_prele_def get_f_def)

lemma pipe_holds_cong:
  "pipe_holds ip f xs q \<Longrightarrow> i_frptr ip' = i_frptr ip \<Longrightarrow> i_fwptr ip' = i_fwptr ip \<Longrightarrow> i_mode ip' = i_mode ip \<Longrightarrow> i_size ip' = i_size ip \<Longrightarrow>
   length (i_addr ip') = length (i_addr ip) \<Longrightarrow> (\<And>s. s < 5 \<Longrightarrow> i_addr ip' ! s = i_addr ip ! s) \<Longrightarrow> pipe_holds ip' f xs q"
  by (auto simp: pipe_holds_def elim: pipe_at_cong)

lemma scast_pos: "unat (x :: u16) < 5120 \<Longrightarrow> scast x = (of_nat (unat x) :: u32)"
proof -
  assume "unat x < 5120"
  then have "sint x = int (unat x)" by (simp add: sint16)
  then show ?thesis unfolding scast_eq by simp
qed

lemma ucast_pos: "ucast (of_nat (n mod 5120) :: u32) = (of_nat (n mod 5120) :: u16)"
proof -
  have "n mod 5120 < 5120" by simp
  then show ?thesis by (intro word_unat_eq_iff [THEN iffD2]) (simp add: unsigned_ucast_eq unsigned_of_nat take_bit_nat_eq_self)
qed

lemma flag_on: "(x OR b) AND b = (b :: u16)"
  by (rule bit_word_eqI) (auto simp: bit_or_iff bit_and_iff)

lemma flag_off: "(x AND NOT b) AND b = (0 :: u16)"
  by (rule bit_word_eqI) (auto simp: bit_or_iff bit_and_iff bit_not_iff)

lemma flag_other:
  "(x OR IFIR) AND IFIW = x AND IFIW" "(x AND NOT IFIR) AND IFIW = x AND IFIW"
  "(x OR IFIW) AND IFIR = x AND IFIR" "(x AND NOT IFIW) AND IFIR = x AND IFIR"
  by (simp_all add: IFIR_def IFIW_def word_ao_dist and.assoc)

lemma pipe_type:
  assumes "pipe_holds ip f xs q"
  shows "i_mode ip AND IFMT = IFIFO" "i_size ip = 0 \<longleftrightarrow> q = []" "length (i_addr ip) = NADDR"
proof -
  have P: "pipe_at ip f xs (unat (i_frptr ip)) q" using assms by (simp add: pipe_holds_def)
  show "i_mode ip AND IFMT = IFIFO" "length (i_addr ip) = NADDR" by (fact pipe_atD(1,2) [OF P])+
  show "i_size ip = 0 \<longleftrightarrow> q = []" using pipe_size [OF P] by (metis length_0_conv unat_eq_0_iff)
qed

text \<open>What \<open>readi\<close> does to a queue.\<close>

lemma readi_pipe:
  assumes H: "pipe_holds ip (fss (i_dev ip)) xs q" and c: "u_count (uu us) \<noteq> 0" "\<not> u_offset (uu us) <s 0" "u_err us = None" "may_write us"
    and e: "readi dv mnt fss ip us = (e, ev, ip', us', fss')"
  defines "n \<equiv> min (length q) (unat (u_count (uu us)))"
  shows "n < 65536 \<and> u_base us' = u_base us + of_nat n \<and> u_count (uu us') = u_count (uu us) - of_nat n \<and> u_err us' = None \<and>
      filled n (\<lambda>j. q ! j) (u_base us) (umem us) (umem us') \<and> pipe_holds ip' (fss' (i_dev ip)) xs (drop n q)"
    "e = (if q = [] \<and> i_fwcnt ip \<noteq> 0 \<and> u_fmode us AND FNDELAY = 0 then RSleep else RDone)"
    "i_fflag ip' = (if e = RSleep then i_fflag ip OR IFIR else if q = [] then i_fflag ip else i_fflag ip AND NOT IFIW)"
    "WakeWriters \<in> set ev \<longleftrightarrow> q \<noteq> [] \<and> i_fflag ip AND IFIW \<noteq> 0" "WakeReaders \<notin> set ev"
    "i_frcnt ip' = i_frcnt ip" "i_fwcnt ip' = i_fwcnt ip" "i_dev ip' = i_dev ip"
proof -
  note ty = pipe_type [OF H]
  have P: "pipe_at ip (fss (i_dev ip)) xs (unat (i_frptr ip)) q" "unat (i_frptr ip) < 5120"
    and wp: "i_fwptr ip = of_nat ((unat (i_frptr ip) + length q) mod 5120)" using H by (simp_all add: pipe_holds_def)
  have "(n < 65536 \<and> u_base us' = u_base us + of_nat n \<and> u_count (uu us') = u_count (uu us) - of_nat n \<and> u_err us' = None \<and>
      filled n (\<lambda>j. q ! j) (u_base us) (umem us) (umem us') \<and> pipe_holds ip' (fss' (i_dev ip)) xs (drop n q)) \<and>
    e = (if q = [] \<and> i_fwcnt ip \<noteq> 0 \<and> u_fmode us AND FNDELAY = 0 then RSleep else RDone) \<and>
    i_fflag ip' = (if e = RSleep then i_fflag ip OR IFIR else if q = [] then i_fflag ip else i_fflag ip AND NOT IFIW) \<and>
    (WakeWriters \<in> set ev \<longleftrightarrow> q \<noteq> [] \<and> i_fflag ip AND IFIW \<noteq> 0) \<and> WakeReaders \<notin> set ev \<and>
    i_frcnt ip' = i_frcnt ip \<and> i_fwcnt ip' = i_fwcnt ip \<and> i_dev ip' = i_dev ip"
  proof (cases "q = []")
    case True
    let ?sl = "i_fwcnt ip \<noteq> 0 \<and> u_fmode us AND FNDELAY = 0"
    let ?jp = "ip_prele (set_f 25 (i_fflag ip OR IFIR) ip)"
    have r: "e = (if ?sl then RSleep else RDone)" "ev = (if ?sl then [WakeInode] else [])" "ip' = (if ?sl then ?jp else ip)" "us' = us" "fss' = fss"
      using e c(1,2) ty(1,2) True by (auto simp: readi_def Let_def IFIFO_def IFCHR_def split: if_splits)
    have "pipe_holds ?jp (fss (i_dev ip)) xs q"
      by (rule pipe_holds_cong [OF H]) (use ty(3) in \<open>simp_all add: get_set_other\<close>)
    then show ?thesis using r True H c(3) ty(3) by (auto simp: n_def filled_def get_set_same get_set_other)
  next
    case False
    let ?us = "us\<lparr>uu := (uu us)\<lparr>u_offset := scast (i_frptr ip)\<rparr>\<rparr>"
    obtain jp vs gs where l: "read_loop dv mnt fss ip ?us = (jp, vs, gs)" by (metis prod.collapse)
    have "taken (min (length q) (unat (u_count (uu ?us)))) xs (unat (i_frptr ip)) q ip ?us fss jp vs gs"
      by (rule read_loop_pipe [OF P(1) _ P(2) _ _ l]) (use c scast_pos [OF P(2)] in \<open>simp_all add: may_write_def\<close>)
    then have T: "taken n xs (unat (i_frptr ip)) q ip ?us fss jp vs gs" by (simp add: n_def)
    let ?r = "unat (i_frptr ip) + n"
    have n: "n \<le> length q" by (simp add: n_def)
    have A: "pipe_at jp (gs (i_dev ip)) xs ?r (drop n q)" "i_addr jp = i_addr ip" "i_dev jp = i_dev ip" "u_offset (uu vs) = of_nat (?r mod 5120)" "length (i_addr jp) = NADDR"
      using T ty(3) by (simp_all add: taken_def ring_user_def)
    have G: "get_f k jp = get_f k ip" for k by (rule get_f_cong) (simp add: A(2))
    define kp where "kp = (if i_size jp \<noteq> 0 then set_f 21 (ucast (u_offset (uu vs))) jp else set_f 21 0 (set_f 22 0 jp))"
    have K: "get_f k kp = get_f k ip" if "22 < k" for k using that A(5) G by (simp add: kp_def get_set_other)
    have kl: "length (i_addr kp) = NADDR" "i_dev kp = i_dev ip" using A(3,5) by (simp_all add: kp_def)
    have z: "i_size jp = 0 \<longleftrightarrow> drop n q = []" using pipe_size [OF A(1)] by (metis length_0_conv unat_eq_0_iff)
    have kh: "pipe_holds kp (gs (i_dev ip)) xs (drop n q)"
    proof (cases "drop n q = []")
      case True
      have "pipe_at kp (gs (i_dev ip)) xs ?r []" unfolding True [symmetric]
        using pipe_at_set [OF pipe_at_set [OF A(1)]] z True by (simp add: kp_def)
      then have "pipe_at kp (gs (i_dev ip)) xs 0 []" by (simp add: pipe_at_def)
      then show ?thesis unfolding True by (rule pipe_holdsI) (use z True A(5) in \<open>simp_all add: kp_def get_set_same get_set_other\<close>)
    next
      case False
      have "pipe_at kp (gs (i_dev ip)) xs ?r (drop n q)" using pipe_at_set [OF A(1)] z False by (simp add: kp_def)
      then show ?thesis
      proof (rule pipe_holdsI)
        show "i_frptr kp = of_nat (?r mod 5120)" using z False A(4,5) by (simp add: kp_def get_set_same ucast_pos)
        have "i_fwptr kp = i_fwptr ip" using z False A(5) G by (simp add: kp_def get_set_other)
        then show "i_fwptr kp = of_nat ((?r + length (drop n q)) mod 5120)" using wp n by simp
      qed
    qed
    have nz: "i_size ip \<noteq> 0" using ty(2) False by simp
    let ?wk = "i_fflag ip AND IFIW \<noteq> 0"
    have r: "e = RDone" "ev = (if ?wk then [WakeWriters] else [])" "ip' = (if ?wk then set_f 25 (i_fflag ip AND NOT IFIW) kp else kp)" "us' = vs" "fss' = gs"
      using e c(1,2) ty(1) nz l K [of 25] kp_def by (auto simp: readi_def Let_def IFIFO_def IFCHR_def simp del: read_loop.simps split: if_splits)
    have "pipe_holds (set_f 25 x kp) (gs (i_dev ip)) xs (drop n q)" for x
      by (rule pipe_holds_cong [OF kh]) (use kl in \<open>simp_all add: get_set_other\<close>)
    then have h: "pipe_holds ip' (fss' (i_dev ip)) xs (drop n q)" using r kh by simp
    have "i_fflag ip AND NOT IFIW = i_fflag ip" if "\<not> ?wk"
    proof -
      have "(i_fflag ip AND NOT IFIW) OR (i_fflag ip AND IFIW) = i_fflag ip" by (simp flip: bit.conj_disj_distrib)
      then show ?thesis using that by simp
    qed
    then have f: "i_fflag ip' = i_fflag ip AND NOT IFIW" using r kl K [of 25] by (simp add: get_set_same)
    have "n < 65536" using u16_lt [of "u_count (uu us)"] by (simp add: n_def)
    then show ?thesis using T h f r False kl K by (auto simp: taken_def ring_user_def get_set_other)
  qed
  then show "n < 65536 \<and> u_base us' = u_base us + of_nat n \<and> u_count (uu us') = u_count (uu us) - of_nat n \<and> u_err us' = None \<and>
      filled n (\<lambda>j. q ! j) (u_base us) (umem us) (umem us') \<and> pipe_holds ip' (fss' (i_dev ip)) xs (drop n q)"
    "e = (if q = [] \<and> i_fwcnt ip \<noteq> 0 \<and> u_fmode us AND FNDELAY = 0 then RSleep else RDone)"
    "i_fflag ip' = (if e = RSleep then i_fflag ip OR IFIR else if q = [] then i_fflag ip else i_fflag ip AND NOT IFIW)"
    "WakeWriters \<in> set ev \<longleftrightarrow> q \<noteq> [] \<and> i_fflag ip AND IFIW \<noteq> 0" "WakeReaders \<notin> set ev"
    "i_frcnt ip' = i_frcnt ip" "i_fwcnt ip' = i_fwcnt ip" "i_dev ip' = i_dev ip" by blast+
qed


text \<open>The waiting: whether there is room, and for how much.\<close>

lemma fifo_wait_room:
  assumes L: "unat (i_size ip) = L" "L \<le> 5120" and rd: "i_frcnt ip \<noteq> 0"
  shows "fifo_wait ip us =
    (if L + unat (u_count (uu us)) \<le> 5120 then Room 0 us
     else if 5120 < unat (u_count (uu us)) \<and> L < 5120
       then Room (u_count (uu us) - of_nat (5120 - L)) (us\<lparr>uu := (uu us)\<lparr>u_count := of_nat (5120 - L)\<rparr>\<rparr>)
     else if u_fmode us AND FNDELAY \<noteq> 0 then NoWait else Full)"
proof -
  let ?c = "u_count (uu us)"
  have c: "unat (ucast ?c :: u32) = unat ?c" "unat ?c < 65536" using u16_lt [of ?c] by (simp_all add: unsigned_ucast_eq take_bit_nat_eq_self)
  then have s: "unat (ucast ?c + i_size ip) = unat ?c + L" using unat_plus_small [of "ucast ?c :: u32" "i_size ip"] L by simp
  have full: "(of_nat PIPSIZ :: u32) <s ucast ?c + i_size ip \<longleftrightarrow> \<not> L + unat ?c \<le> 5120"
    using sless_small32 [of "of_nat PIPSIZ" "ucast ?c + i_size ip"] s c(2) L(2) by auto
  have lt: "i_size ip <s of_nat PIPSIZ \<longleftrightarrow> L < 5120" using sless_small32 [of "i_size ip" "of_nat PIPSIZ"] L by simp
  have big: "of_nat PIPSIZ < ?c \<longleftrightarrow> 5120 < unat ?c" by (simp add: word_less_nat_alt)
  have i: "i_size ip = of_nat L" unfolding L(1) [symmetric] by simp
  have "ucast (of_nat PIPSIZ - i_size ip) = (of_nat (5120 - L) :: u16)"
  proof -
    have "of_nat PIPSIZ - i_size ip = (of_nat (5120 - L) :: u32)" unfolding i using L(2) by simp
    moreover have "ucast (of_nat m :: u32) = (of_nat m :: u16)" if "m \<le> 5120" for m
      using that by (intro word_unat_eq_iff [THEN iffD2]) (simp add: unsigned_ucast_eq unsigned_of_nat take_bit_nat_eq_self)
    ultimately show ?thesis by simp
  qed
  then show ?thesis using rd unfolding fifo_wait_def Let_def full lt big by simp
qed

text \<open>The same for a pipe at rest: its write pointer says where the next byte goes.\<close>

definition pipe_starved :: "inode \<Rightarrow> fs \<Rightarrow> byte list \<Rightarrow> bool" where
  "pipe_starved ip f q \<longleftrightarrow> pipe_holds ip f [] q \<and> i_addr ip ! (unat (i_fwptr ip) div 1024) = 0"

lemma pipe_starvedI:
  assumes "starved r q ip f" "i_frptr jp = of_nat (r mod 5120)" "i_fwptr jp = of_nat ((r + length q) mod 5120)"
    and "pipe_at jp f [] r q" "\<And>s. s < 5 \<Longrightarrow> i_addr jp ! s = i_addr ip ! s"
  shows "pipe_starved jp f q"
proof -
  have "(r + length q) mod 5120 < 5120" by simp
  then have "unat (i_fwptr jp) = (r + length q) mod 5120" "(r + length q) mod 5120 div 1024 < 5"
    unfolding assms(3) by (simp_all only: unsigned_of_nat) (simp_all add: take_bit_nat_eq_self)
  then show ?thesis using pipe_holdsI [OF assms(4,2,3)] assms(1,5) by (simp add: pipe_starved_def starved_def)
qed

text \<open>One pass with room for all of it.\<close>

abbreviation memory :: "usr \<Rightarrow> nat \<Rightarrow> byte list" where
  "memory us n \<equiv> map (\<lambda>j. umem us (u_base us + of_nat j)) [0..<n]"

definition same_ends :: "inode \<Rightarrow> inode \<Rightarrow> bool" where
  "same_ends ip ip' \<longleftrightarrow> i_frcnt ip' = i_frcnt ip \<and> i_fwcnt ip' = i_fwcnt ip \<and> i_dev ip' = i_dev ip"

definition pass_end :: "inode \<Rightarrow> usr \<Rightarrow> inode" where
  "pass_end ip us =
     (let ip = set_f 22 (ucast (u_offset (uu us))) ip in if i_fflag ip AND IFIR \<noteq> 0 then set_f 25 (i_fflag ip AND NOT IFIR) ip else ip)"

lemma fifo_pass:
  assumes H: "pipe_holds ip (fss (i_dev ip)) xs q" and lim: "\<not> ptol (u_limit (uu us)) \<le>s 4"
    and room: "length q + unat (u_count (uu us)) \<le> 5120" and c: "u_err us = None" "may_read us"
    and l: "write_loop dv mnt ip (us\<lparr>uu := (uu us)\<lparr>u_offset := scast (i_fwptr ip)\<rparr>\<rparr>) fss = (jp, vs, gs)"
  shows "\<exists>n ys. pipe_holds (pass_end jp vs) (gs (i_dev ip)) ys (q @ memory us n) \<and> n \<le> unat (u_count (uu us)) \<and>
      (u_err vs = None \<and> n = unat (u_count (uu us)) \<or> u_err vs = Some ENOSPC \<and> n < unat (u_count (uu us)) \<and>
         pipe_starved (pass_end jp vs) (gs (i_dev ip)) (q @ memory us n)) \<and>
      u_base vs = u_base us + of_nat n \<and> u_count (uu vs) = u_count (uu us) - of_nat n \<and> umem vs = umem us \<and> u_fmode vs = u_fmode us"
    "i_fflag (set_f 22 (ucast (u_offset (uu vs))) jp) = i_fflag ip" "i_fflag (pass_end jp vs) = i_fflag ip AND NOT IFIR"
    "same_ends ip (pass_end jp vs)"
proof -
  let ?r = "unat (i_frptr ip)" let ?w = "(?r + length q) mod 5120" let ?us = "us\<lparr>uu := (uu us)\<lparr>u_offset := scast (i_fwptr ip)\<rparr>\<rparr>"
  have P: "pipe_at ip (fss (i_dev ip)) xs ?r q" and wp: "i_fwptr ip = of_nat ?w" and rl: "?r < 5120" using H by (simp_all add: pipe_holds_def)
  have "?w < 5120" by simp
  then have uw: "unat (i_fwptr ip) = ?w" unfolding wp by (simp only: unsigned_of_nat) (simp add: take_bit_nat_eq_self)
  then have "scast (i_fwptr ip) = (of_nat ?w :: u32)" using scast_pos [of "i_fwptr ip"] by simp
  then have "\<exists>n. put n ?r q ip ?us fss jp vs gs \<and> (u_err vs = None \<and> n = unat (u_count (uu ?us)) \<or>
      u_err vs = Some ENOSPC \<and> n < unat (u_count (uu ?us)) \<and>
      starved ?r (q @ map (\<lambda>j. umem ?us (u_base ?us + of_nat j)) [0..<n]) jp (gs (i_dev ip)))"
    by (intro write_loop_pipe [OF P _ _ _ _ _ l]) (use lim room c in \<open>simp_all add: may_read_def\<close>)
  then obtain n where n: "put n ?r q ip ?us fss jp vs gs" "u_err vs = None \<and> n = unat (u_count (uu us)) \<or>
      u_err vs = Some ENOSPC \<and> n < unat (u_count (uu us)) \<and> starved ?r (q @ memory us n) jp (gs (i_dev ip))" by auto
  then obtain ys where A: "pipe_at jp (gs (i_dev ip)) ys ?r (q @ memory us n)" by (auto simp: put_def)
  have al: "length (i_addr jp) = NADDR" using pipe_atD(2) [OF A] .
  have G: "get_f k jp = get_f k ip" if "10 \<le> k" for k by (rule get_f_cong) (use n(1) that in \<open>auto simp: put_def\<close>)
  show f: "i_fflag (set_f 22 (ucast (u_offset (uu vs))) jp) = i_fflag ip" using al G by (simp add: get_set_other)
  have "i_fflag ip AND NOT IFIR = i_fflag ip" if "i_fflag ip AND IFIR = 0"
  proof -
    have "(i_fflag ip AND NOT IFIR) OR (i_fflag ip AND IFIR) = i_fflag ip" by (simp flip: bit.conj_disj_distrib)
    then show ?thesis using that by simp
  qed
  then show ff: "i_fflag (pass_end jp vs) = i_fflag ip AND NOT IFIR" using f al by (simp add: pass_end_def Let_def get_set_same)
  have K: "get_f k (pass_end jp vs) = (if k = 22 then ucast (u_offset (uu vs)) else get_f k ip)" if "10 \<le> k" "k \<noteq> 25" for k
    using that G al by (simp add: pass_end_def Let_def get_set_same get_set_other)
  show "same_ends ip (pass_end jp vs)" using K n(1) by (simp add: same_ends_def pass_end_def Let_def put_def)
  have at: "pipe_at (pass_end jp vs) f zs ?r p" if "pipe_at jp f zs ?r p" for f zs p
    using that by (simp add: pass_end_def Let_def pipe_at_set)
  have ends: "i_frptr (pass_end jp vs) = of_nat (?r mod 5120)"
    "i_fwptr (pass_end jp vs) = of_nat ((?r + length (q @ memory us n)) mod 5120)"
    using K [of 21] K [of 22] rl n(1) by (simp_all add: put_def ring_user_def ucast_pos add.assoc)
  have "i_addr (pass_end jp vs) ! s = i_addr jp ! s" if "s < 5" for s using that by (simp add: pass_end_def Let_def)
  then have sv: "pipe_starved (pass_end jp vs) (gs (i_dev ip)) (q @ memory us n)" if "starved ?r (q @ memory us n) jp (gs (i_dev ip))"
    using that at by (intro pipe_starvedI [OF that ends]) (simp_all add: starved_def)
  have "pipe_holds (pass_end jp vs) (gs (i_dev ip)) ys (q @ memory us n)" by (rule pipe_holdsI [OF at [OF A] ends])
  then show "\<exists>n ys. pipe_holds (pass_end jp vs) (gs (i_dev ip)) ys (q @ memory us n) \<and> n \<le> unat (u_count (uu us)) \<and>
      (u_err vs = None \<and> n = unat (u_count (uu us)) \<or> u_err vs = Some ENOSPC \<and> n < unat (u_count (uu us)) \<and>
         pipe_starved (pass_end jp vs) (gs (i_dev ip)) (q @ memory us n)) \<and>
      u_base vs = u_base us + of_nat n \<and> u_count (uu vs) = u_count (uu us) - of_nat n \<and> umem vs = umem us \<and> u_fmode vs = u_fmode us"
    using n sv by (intro exI [of _ n] exI [of _ ys]) (auto simp: put_def ring_user_def)
qed


lemma fifo_write_pass:
  assumes "fifo_wait ip us = Room usave vs" "i_frcnt ip \<noteq> 0"
    and "write_loop dv mnt ip (vs\<lparr>uu := (uu vs)\<lparr>u_offset := scast (i_fwptr ip)\<rparr>\<rparr>) fss = (jp, ws, gs)"
    and "i_fflag (set_f 22 (ucast (u_offset (uu ws))) jp) = i_fflag ip"
  shows "fifo_write (Suc k) dv mnt ip us fss =
    (let ev = (if i_fflag ip AND IFIR \<noteq> 0 then [WakeReaders] else [])
     in if u_err ws = None \<and> usave \<noteq> 0
        then (case fifo_write k dv mnt (pass_end jp ws) (ws\<lparr>uu := (uu ws)\<lparr>u_count := usave\<rparr>\<rparr>) gs of (e, evs, r) \<Rightarrow> (e, ev @ evs, r))
        else (RDone, ev, pass_end jp ws, ws, gs))"
  using assms by (simp add: pass_end_def Let_def del: write_loop.simps)

lemma fifo_write_wait:
  assumes "fifo_wait ip us = (if nd then NoWait else Full)"
  shows "fifo_write (Suc k) dv mnt ip us fss =
    (if nd then (RDone, [], ip, us, fss) else (RSleep, [WakeInode], ip_prele (set_f 25 (i_fflag ip OR IFIW) ip), us, fss))"
  using assms by simp

text \<open>What \<open>writei\<close> does to a queue: \<open>n\<close> bytes are put.\<close>

definition accepts :: "byte list \<Rightarrow> nat \<Rightarrow> nat" where
  "accepts q c = (if length q + c \<le> 5120 then c else if 5120 < c \<and> length q < 5120 then 5120 - length q else 0)"

lemma writei_pipe:
  assumes H: "pipe_holds ip (fss (i_dev ip)) xs q" and rd: "i_frcnt ip \<noteq> 0" and lim: "\<not> ptol (u_limit (uu us)) \<le>s 4"
    and c: "\<not> u_offset (uu us) <s 0" "u_err us = None" "may_read us" and e: "writei dv mnt ip us fss = (e, ev, ip', us', fss')"
  shows "\<exists>n ys. n \<le> unat (u_count (uu us)) \<and> pipe_holds ip' (fss' (i_dev ip)) ys (q @ memory us n) \<and>
      u_base us' = u_base us + of_nat n \<and> (0 < n \<and> i_fflag ip AND IFIR \<noteq> 0 \<longrightarrow> WakeReaders \<in> set ev) \<and>
      (u_err us' = Some ENOSPC \<and> e = RDone \<and> n < accepts q (unat (u_count (uu us))) \<and> pipe_starved ip' (fss' (i_dev ip)) (q @ memory us n) \<or>
       u_err us' = None \<and> u_count (uu us') = u_count (uu us) - of_nat n \<and> n = accepts q (unat (u_count (uu us))) \<and>
       e = (if n = unat (u_count (uu us)) \<or> u_fmode us AND FNDELAY \<noteq> 0 then RDone else RSleep))"
    "i_fflag ip' AND IFIW = (if e = RSleep then IFIW else i_fflag ip AND IFIW)"
    "i_fflag ip' AND IFIR = (if WakeReaders \<in> set ev then 0 else i_fflag ip AND IFIR)"
    "WakeWriters \<notin> set ev" "same_ends ip ip'"
proof -
  note ty = pipe_type [OF H]
  let ?c = "unat (u_count (uu us))" let ?d = "i_dev ip"
  let ?goal = "\<lambda>ip' us' fss' ev e. (\<exists>n ys. n \<le> ?c \<and> pipe_holds ip' (fss' ?d) ys (q @ memory us n) \<and>
      u_base us' = u_base us + of_nat n \<and> (0 < n \<and> i_fflag ip AND IFIR \<noteq> 0 \<longrightarrow> WakeReaders \<in> set ev) \<and>
      (u_err us' = Some ENOSPC \<and> e = RDone \<and> n < accepts q ?c \<and> pipe_starved ip' (fss' ?d) (q @ memory us n) \<or>
       u_err us' = None \<and> u_count (uu us') = u_count (uu us) - of_nat n \<and> n = accepts q ?c \<and>
       e = (if n = ?c \<or> u_fmode us AND FNDELAY \<noteq> 0 then RDone else RSleep))) \<and>
    i_fflag ip' AND IFIW = (if e = RSleep then IFIW else i_fflag ip AND IFIW) \<and>
    i_fflag ip' AND IFIR = (if WakeReaders \<in> set ev then 0 else i_fflag ip AND IFIR) \<and> WakeWriters \<notin> set ev \<and> same_ends ip ip'"
  have P: "pipe_at ip (fss ?d) xs (unat (i_frptr ip)) q" using H by (simp add: pipe_holds_def)
  note L = pipe_size [OF P] pipe_atD(5) [OF P]
  note room = fifo_wait_room [OF L rd, of us]
  have w: "fifo_write (Suc (Suc 0)) dv mnt ip us fss = (e, ev, ip', us', fss')"
    using e c(1) ty(1) unfolding numeral_2_eq_2 [symmetric] by (simp add: writei_def Let_def IFIFO_def IFCHR_def)
  let ?ev = "if i_fflag ip AND IFIR \<noteq> 0 then [WakeReaders] else []"
  let ?full = "\<lambda>jp :: inode. ip_prele (set_f 25 (i_fflag jp OR IFIW) jp)"
  have FW: "pipe_holds (?full jp) g ys p \<and> i_fflag (?full jp) = i_fflag jp OR IFIW \<and> same_ends jp (?full jp)" if "pipe_holds jp g ys p" for jp g ys p
  proof -
    note l = pipe_type(3) [OF that]
    have "pipe_holds (?full jp) g ys p" by (rule pipe_holds_cong [OF that]) (use l in \<open>simp_all add: get_set_other\<close>)
    then show ?thesis using l by (simp add: get_set_same get_set_other same_ends_def)
  qed
  have ri: "(x AND NOT IFIR) AND IFIR = 0" "(x OR IFIW) AND IFIW = IFIW" for x by (simp_all add: flag_off flag_on)
  have "?goal ip' us' fss' ev e"
  proof -
    consider (all) "length q + ?c \<le> 5120" | (part) "5120 < ?c" "length q < 5120" | (none) "\<not> length q + ?c \<le> 5120" "\<not> (5120 < ?c \<and> length q < 5120)" by blast
    then show ?thesis
    proof cases
      case all
      obtain jp vs gs where l: "write_loop dv mnt ip (us\<lparr>uu := (uu us)\<lparr>u_offset := scast (i_fwptr ip)\<rparr>\<rparr>) fss = (jp, vs, gs)" by (metis prod.collapse)
      note F = fifo_pass [OF H lim all c(2,3) l]
      have fw: "fifo_wait ip us = Room 0 us" using room all by simp
      have r: "e = RDone" "ev = ?ev" "ip' = pass_end jp vs" "us' = vs" "fss' = gs"
        using w unfolding fifo_write_pass [OF fw rd l F(2)] by (auto simp: Let_def)
      from F(1) obtain n ys where n: "pipe_holds (pass_end jp vs) (gs ?d) ys (q @ memory us n)" "n \<le> ?c"
        "u_err vs = None \<and> n = ?c \<or> u_err vs = Some ENOSPC \<and> n < ?c \<and> pipe_starved (pass_end jp vs) (gs ?d) (q @ memory us n)" "u_base vs = u_base us + of_nat n" "u_count (uu vs) = u_count (uu us) - of_nat n" by blast
      show ?thesis unfolding r using n F(3,4) all
        by (intro conjI exI [of _ n] exI [of _ ys]) (auto simp: accepts_def flag_other flag_off)
    next
      case none
      show ?thesis
      proof (cases "u_fmode us AND FNDELAY = 0")
        case True
        have "fifo_wait ip us = Full" unfolding room using none True by simp
        then have r: "e = RSleep" "ev = [WakeInode]" "ip' = ?full ip" "us' = us" "fss' = fss" using w by simp_all
        show ?thesis unfolding r using FW [OF H] none c(2) True L(2)
          by (intro conjI exI [of _ 0] exI [of _ xs]) (auto simp: accepts_def flag_other flag_on)
      next
        case False
        have "fifo_wait ip us = NoWait" unfolding room using none False by simp
        then have r: "e = RDone" "ev = []" "ip' = ip" "us' = us" "fss' = fss" using w by simp_all
        show ?thesis unfolding r using H none c(2) False
          by (intro conjI exI [of _ 0] exI [of _ xs]) (auto simp: accepts_def same_ends_def)
      qed
    next
      case part
      let ?m = "5120 - length q" let ?us = "us\<lparr>uu := (uu us)\<lparr>u_count := of_nat ?m\<rparr>\<rparr>" let ?sv = "u_count (uu us) - of_nat ?m"
      have um: "unat (of_nat ?m :: u16) = ?m" by (simp only: unsigned_of_nat) (simp add: take_bit_nat_eq_self)
      have sv: "unat ?sv = ?c - ?m" using part um unat_minus_small [of "of_nat ?m" "u_count (uu us)"] by (simp add: word_le_nat_alt)
      obtain jp vs gs where l: "write_loop dv mnt ip (?us\<lparr>uu := (uu ?us)\<lparr>u_offset := scast (i_fwptr ip)\<rparr>\<rparr>) fss = (jp, vs, gs)" by (metis prod.collapse)
      have H': "pipe_holds ip (fss ?d) xs q" "\<not> ptol (u_limit (uu ?us)) \<le>s 4" "length q + unat (u_count (uu ?us)) \<le> 5120" "u_err ?us = None" "may_read ?us"
        using H lim c um part(2) by (simp_all add: may_read_def)
      note F = fifo_pass [OF H' l]
      have fw: "fifo_wait ip us = Room ?sv ?us" unfolding room using part by simp
      note W = w [unfolded fifo_write_pass [OF fw rd l F(2)] Let_def]
      from F(1) um obtain n ys where
        n: "pipe_holds (pass_end jp vs) (gs ?d) ys (q @ memory us n)" "n \<le> ?m" "u_err vs = None \<and> n = ?m \<or> u_err vs = Some ENOSPC \<and> n < ?m \<and> pipe_starved (pass_end jp vs) (gs ?d) (q @ memory us n)"
          "u_base vs = u_base us + of_nat n" "u_fmode vs = u_fmode us" by auto
      have nz: "?sv \<noteq> 0" using sv part by (simp flip: unat_eq_0_iff)
      show ?thesis
      proof (cases "u_err vs = None")
        case False
        then have r: "e = RDone" "ev = ?ev" "ip' = pass_end jp vs" "us' = vs" "fss' = gs" using W by auto
        show ?thesis unfolding r using n False F(3,4) part
          by (intro conjI exI [of _ n] exI [of _ ys]) (auto simp: accepts_def flag_other flag_off)
      next
        case True
        let ?ip = "pass_end jp vs" let ?vs = "vs\<lparr>uu := (uu vs)\<lparr>u_count := ?sv\<rparr>\<rparr>"
        have nm: "n = ?m" using n(3) True by simp
        note h = n(1)
        have Q: "pipe_at ?ip (gs ?d) ys (unat (i_frptr ?ip)) (q @ memory us n)" using h by (simp add: pipe_holds_def)
        have len: "length (q @ memory us n) = 5120" using nm part by simp
        have rd': "i_frcnt ?ip \<noteq> 0" using F(4) rd by (simp add: same_ends_def)
        have "u_err vs = None \<and> ?sv \<noteq> 0" using True nz by simp
        note W1 = W [unfolded if_P [OF this]]
        have wt: "fifo_wait ?ip ?vs = (if u_fmode us AND FNDELAY \<noteq> 0 then NoWait else Full)"
          using fifo_wait_room [OF pipe_size [OF Q] pipe_atD(5) [OF Q] rd', of ?vs] nz n(5) unfolding len by (simp add: unat_eq_0_iff)
        have r: "e = (if u_fmode us AND FNDELAY \<noteq> 0 then RDone else RSleep)" "us' = ?vs" "fss' = gs"
            "ev = ?ev @ (if u_fmode us AND FNDELAY \<noteq> 0 then [] else [WakeInode])" "ip' = (if u_fmode us AND FNDELAY \<noteq> 0 then ?ip else ?full ?ip)"
          using W1 unfolding fifo_write_wait [OF wt] by (auto split: if_splits)
        have acc: "n = accepts q ?c" "n < ?c" using nm part by (simp_all add: accepts_def)
        have E: "same_ends ip ?ip" "i_fflag ?ip = i_fflag ip AND NOT IFIR" by (fact F(3,4))+
        show ?thesis unfolding r using n FW [OF h] E True acc nm
          by (intro conjI exI [of _ n] exI [of _ ys]) (auto simp: flag_other ri same_ends_def)
      qed
    qed
  qed
  then show "\<exists>n ys. n \<le> unat (u_count (uu us)) \<and> pipe_holds ip' (fss' (i_dev ip)) ys (q @ memory us n) \<and>
      u_base us' = u_base us + of_nat n \<and> (0 < n \<and> i_fflag ip AND IFIR \<noteq> 0 \<longrightarrow> WakeReaders \<in> set ev) \<and>
      (u_err us' = Some ENOSPC \<and> e = RDone \<and> n < accepts q (unat (u_count (uu us))) \<and> pipe_starved ip' (fss' (i_dev ip)) (q @ memory us n) \<or>
       u_err us' = None \<and> u_count (uu us') = u_count (uu us) - of_nat n \<and> n = accepts q (unat (u_count (uu us))) \<and>
       e = (if n = unat (u_count (uu us)) \<or> u_fmode us AND FNDELAY \<noteq> 0 then RDone else RSleep))"
    "i_fflag ip' AND IFIW = (if e = RSleep then IFIW else i_fflag ip AND IFIW)"
    "i_fflag ip' AND IFIR = (if WakeReaders \<in> set ev then 0 else i_fflag ip AND IFIR)"
    "WakeWriters \<notin> set ev" "same_ends ip ip'" by blast+
qed


section \<open>Readers and writers of a pipe\<close>

text \<open>A pipe in use, with what has come out of it and what has gone into it, and whether a reader and a writer
  sleep on it. A sleeper that is woken goes back to the test before its sleep, which is a new call with
  what is left of its request.\<close>

record pipe_sys =
  p_ip :: inode
  p_fss :: "u16 \<Rightarrow> fs"
  got :: "byte list"
  sent :: "byte list"
  rsleep :: bool
  wsleep :: bool

datatype pipe_call = PRead usr | PWrite usr

definition pipe_step :: "drv \<Rightarrow> (u16 \<times> u16) list \<Rightarrow> pipe_call \<Rightarrow> pipe_sys \<Rightarrow> pipe_sys" where
  "pipe_step dv mnt cl s =
     (case cl of
        PRead us \<Rightarrow>
          (case readi dv mnt (p_fss s) (p_ip s) us of
             (e, ev, ip, vs, fss) \<Rightarrow>
               s\<lparr>p_ip := ip, p_fss := fss, got := got s @ map (\<lambda>j. umem vs (u_base us + of_nat j)) [0..<unat (u_base vs - u_base us)],
                 rsleep := (rsleep s \<or> e = RSleep), wsleep := (wsleep s \<and> WakeWriters \<notin> set ev)\<rparr>)
      | PWrite us \<Rightarrow>
          (case writei dv mnt (p_ip s) us (p_fss s) of
             (e, ev, ip, vs, fss) \<Rightarrow>
               s\<lparr>p_ip := ip, p_fss := fss, sent := sent s @ memory us (unat (u_base vs - u_base us)),
                 rsleep := (rsleep s \<and> WakeReaders \<notin> set ev), wsleep := (wsleep s \<or> e = RSleep)\<rparr>))"

text \<open>The calls considered: the address of the caller's buffer is valid (with a bad one the code changes the
  size without moving a byte) and the limit on the size of files is not below the five blocks of a
  pipe. A read of nothing and a negative offset are allowed: they change nothing.\<close>

definition sound_call :: "pipe_call \<Rightarrow> bool" where
  "sound_call cl \<longleftrightarrow>
     (case cl of
        PRead us \<Rightarrow> u_err us = None \<and> may_write us
      | PWrite us \<Rightarrow> u_err us = None \<and> may_read us \<and> \<not> ptol (u_limit (uu us)) \<le>s 4)"

definition pipe_inv :: "pipe_sys \<Rightarrow> bool" where
  "pipe_inv s \<longleftrightarrow> i_frcnt (p_ip s) \<noteq> 0 \<and>
     (\<exists>xs q. pipe_holds (p_ip s) (p_fss s (i_dev (p_ip s))) xs q \<and> sent s = got s @ q \<and>
        (rsleep s \<longrightarrow> q = [] \<and> i_fflag (p_ip s) AND IFIR \<noteq> 0) \<and> (wsleep s \<longrightarrow> q \<noteq> [] \<and> i_fflag (p_ip s) AND IFIW \<noteq> 0))"

lemma filled_take:
  assumes "filled n (\<lambda>j. q ! j) base m m'" "n \<le> length q" "n < 65536"
  shows "map (\<lambda>j. m' (base + of_nat j)) [0..<n] = take n q"
proof (rule nth_equalityI)
  fix i assume "i < length (map (\<lambda>j. m' (base + of_nat j)) [0..<n])"
  then have i: "i < n" by simp
  then have "unat (of_nat i :: u16) = i" using assms(3) by (simp add: unsigned_of_nat take_bit_nat_eq_self)
  then show "map (\<lambda>j. m' (base + of_nat j)) [0..<n] ! i = take n q ! i" using assms(1) i by (simp add: filled_def Let_def)
qed (use assms(2) in simp)

definition idle_call :: "pipe_call \<Rightarrow> bool" where
  "idle_call cl \<longleftrightarrow> (case cl of PRead us \<Rightarrow> u_count (uu us) = 0 \<or> u_offset (uu us) <s 0 | PWrite us \<Rightarrow> u_offset (uu us) <s 0)"

lemma pipe_idle: "idle_call cl \<Longrightarrow> pipe_step dv mnt cl s = s"
  by (cases cl) (auto simp: idle_call_def pipe_step_def readi_def writei_def Let_def)

lemma pipe_busy_inv:
  assumes I: "pipe_inv s" and c: "sound_call cl" "\<not> idle_call cl" shows "pipe_inv (pipe_step dv mnt cl s)"
proof -
  from I obtain xs q where q: "pipe_holds (p_ip s) (p_fss s (i_dev (p_ip s))) xs q" "sent s = got s @ q" "i_frcnt (p_ip s) \<noteq> 0"
    "rsleep s \<longrightarrow> q = [] \<and> i_fflag (p_ip s) AND IFIR \<noteq> 0" "wsleep s \<longrightarrow> q \<noteq> [] \<and> i_fflag (p_ip s) AND IFIW \<noteq> 0"
    by (auto simp: pipe_inv_def)
  show ?thesis
  proof (cases cl)
    case (PRead us)
    then have u: "u_count (uu us) \<noteq> 0" "\<not> u_offset (uu us) <s 0" "u_err us = None" "may_write us" using c by (simp_all add: sound_call_def idle_call_def)
    obtain e ev ip vs fss where r: "readi dv mnt (p_fss s) (p_ip s) us = (e, ev, ip, vs, fss)" by (metis prod.collapse)
    note R = readi_pipe [OF q(1) u r]
    let ?n = "min (length q) (unat (u_count (uu us)))"
    have n: "unat (u_base vs - u_base us) = ?n" "?n < 65536" using R(1) by (simp_all add: unsigned_of_nat take_bit_nat_eq_self)
    have t: "map (\<lambda>j. umem vs (u_base us + of_nat j)) [0..<?n] = take ?n q" using R(1) by (intro filled_take) auto
    have s': "pipe_step dv mnt cl s = s\<lparr>p_ip := ip, p_fss := fss, got := got s @ take ?n q,
      rsleep := (rsleep s \<or> e = RSleep), wsleep := (wsleep s \<and> WakeWriters \<notin> set ev)\<rparr>"
      unfolding pipe_step_def PRead pipe_call.case r prod.case n(1) t ..
    have sl: "e = RSleep \<Longrightarrow> q = []" using R(2) by (auto split: if_splits)
    have "IFIR \<noteq> 0" by (simp add: IFIR_def)
    then have fr: "rsleep s \<or> e = RSleep \<longrightarrow> q = [] \<and> i_fflag ip AND IFIR \<noteq> 0" using q(4) sl R(3) by (auto simp: flag_on)
    have fw: "\<not> (wsleep s \<and> WakeWriters \<notin> set ev)" using q(5) R(4) by blast
    have "pipe_holds ip (fss (i_dev ip)) xs (drop ?n q)" using R(1,8) by simp
    moreover have "sent s = (got s @ take ?n q) @ drop ?n q" using q(2) by simp
    moreover have "q = [] \<Longrightarrow> drop ?n q = []" by simp
    ultimately show ?thesis unfolding s' pipe_inv_def using R(6) q(3) fr fw
      by (intro conjI exI [of _ xs] exI [of _ "drop ?n q"]) auto
  next
    case (PWrite us)
    then have u: "\<not> u_offset (uu us) <s 0" "u_err us = None" "may_read us" "\<not> ptol (u_limit (uu us)) \<le>s 4" using c by (simp_all add: sound_call_def idle_call_def)
    obtain e ev ip vs fss where r: "writei dv mnt (p_ip s) us (p_fss s) = (e, ev, ip, vs, fss)" by (metis prod.collapse)
    note R = writei_pipe [OF q(1,3) u(4,1-3) r]
    from R(1) obtain n ys where n: "n \<le> unat (u_count (uu us))" "pipe_holds ip (fss (i_dev (p_ip s))) ys (q @ memory us n)" "u_base vs = u_base us + of_nat n"
      "0 < n \<and> i_fflag (p_ip s) AND IFIR \<noteq> 0 \<longrightarrow> WakeReaders \<in> set ev" "e = RSleep \<longrightarrow> n = accepts q (unat (u_count (uu us))) \<and> n \<noteq> unat (u_count (uu us))"
      by (auto split: if_splits)
    have m: "unat (u_base vs - u_base us) = n" using n(1,3) u16_lt [of "u_count (uu us)"] by (simp add: unsigned_of_nat take_bit_nat_eq_self)
    have s': "pipe_step dv mnt cl s = s\<lparr>p_ip := ip, p_fss := fss, sent := sent s @ memory us n,
      rsleep := (rsleep s \<and> WakeReaders \<notin> set ev), wsleep := (wsleep s \<or> e = RSleep)\<rparr>"
      unfolding pipe_step_def PWrite pipe_call.case r prod.case m ..
    have d: "i_dev ip = i_dev (p_ip s)" "i_frcnt ip = i_frcnt (p_ip s)" using R(5) by (simp_all add: same_ends_def)
    have ne: "q @ memory us n \<noteq> []" if "e = RSleep" using n(5) that by (auto simp: accepts_def split: if_splits)
    have fr: "rsleep s \<and> WakeReaders \<notin> set ev \<longrightarrow> q @ memory us n = [] \<and> i_fflag ip AND IFIR \<noteq> 0" using q(4) n(4) R(3) by auto
    have "IFIW \<noteq> 0" by (simp add: IFIW_def)
    then have fw: "wsleep s \<or> e = RSleep \<longrightarrow> q @ memory us n \<noteq> [] \<and> i_fflag ip AND IFIW \<noteq> 0" using q(5) R(2) ne by auto
    have "sent s @ memory us n = got s @ (q @ memory us n)" using q(2) by simp
    then show ?thesis unfolding s' pipe_inv_def using n(2) q(3) d fr fw by auto
  qed
qed

lemma pipe_step_inv: "pipe_inv s \<Longrightarrow> sound_call cl \<Longrightarrow> pipe_inv (pipe_step dv mnt cl s)"
  by (cases "idle_call cl") (simp_all add: pipe_idle pipe_busy_inv)

lemma pipe_run_inv: "pipe_inv s \<Longrightarrow> \<forall>cl \<in> set cs. sound_call cl \<Longrightarrow> pipe_inv (fold (pipe_step dv mnt) cs s)"
  by (induction cs arbitrary: s) (simp_all add: pipe_step_inv)

section \<open>Properties\<close>

text \<open>A pipe with 3 bytes in block 30, a reader and a writer.\<close>

definition demo_pipe :: inode where
  "demo_pipe = demo_ip\<lparr>i_mode := 0x1000, i_size := 3, i_addr := 30 # replicate 10 0 @ [0x10003, 1]\<rparr>"

lemma demo_pipe_holds: "pipe_holds demo_pipe ((\<lambda>_. demo_fs) (i_dev demo_pipe)) [20, 21] (map (disk demo_fs 30) [0..<3])"
proof -
  have u: "usable demo_fs 30" by (simp add: usable_def badblock_def demo_fs_def word_sless_alt word_sle_eq)
  have f: "i_frptr demo_pipe = 0" "i_fwptr demo_pipe = 3" by code_simp+
  have a: "i_addr demo_pipe ! s = (if s = 0 then 30 else 0)" if "s < 5" for s
    using that by (cases s) (simp_all add: demo_pipe_def nth_append)
  have g: "i_mode demo_pipe AND IFMT = IFIFO" "length (i_addr demo_pipe) = NADDR" "i_size demo_pipe = 3" by (simp_all add: demo_pipe_def IFMT_def IFIFO_def)
  have "pblk (i_addr demo_pipe) j = 30" if "j < 3" for j using that by (simp add: pblk_def a)
  then have "pipe_at demo_pipe demo_fs [20, 21] 0 (map (disk demo_fs 30) [0..<3])"
    unfolding pipe_at_def using demo_file_ok u g by (auto simp: a file_ok_def split: if_splits)
  then show ?thesis by (simp add: pipe_holds_def f)
qed

lemma demo_pipe_ends: "i_frcnt demo_pipe \<noteq> 0" "i_fwcnt demo_pipe \<noteq> 0" "i_dev demo_pipe = 0"
  by code_simp+

lemma demo_calls: "sound_call (PRead demo_usr)" "sound_call (PWrite demo_usr)" "u_count (uu demo_usr) \<noteq> 0" "\<not> u_offset (uu demo_usr) <s 0" "\<not> ptol (u_limit (uu demo_usr)) \<le>s 4"
proof -
  have l: "\<not> ptol (u_limit (uu demo_usr)) \<le>s 4" by code_simp
  then show "sound_call (PRead demo_usr)" "sound_call (PWrite demo_usr)" "u_count (uu demo_usr) \<noteq> 0" "\<not> u_offset (uu demo_usr) <s 0" "\<not> ptol (u_limit (uu demo_usr)) \<le>s 4"
    using demo_usr_ok(3-5) by (simp_all add: sound_call_def demo_usr_def demo_uio_def word_sless_alt)
qed

text \<open>C3: through any sequence of calls by any readers and writers of a pipe whose read end is open, the bytes
  come out of it in the order they went in, none lost and none twice, at most 5120 are in it, no reader sleeps
  while there is one, and no writer sleeps on an empty pipe: a reader and a writer never wait for each
  other. This is for calls with valid buffers and a limit on the size of files of at least the five blocks of a pipe
  (\<open>sound_call\<close>): with a bad address the code counts bytes it has not moved, and the order is lost.\<close>

theorem pipe_fifo:
  assumes "pipe_holds ip (fss (i_dev ip)) xs q" "i_frcnt ip \<noteq> 0" "\<forall>cl \<in> set cs. sound_call cl"
  shows "let s = fold (pipe_step dv mnt) cs \<lparr>p_ip = ip, p_fss = fss, got = [], sent = q, rsleep = False, wsleep = False\<rparr>
    in \<exists>rest. sent s = got s @ rest \<and> length rest \<le> 5120 \<and> (rsleep s \<longrightarrow> rest = []) \<and> (wsleep s \<longrightarrow> rest \<noteq> [])"
proof -
  let ?i = "\<lparr>p_ip = ip, p_fss = fss, got = [], sent = q, rsleep = False, wsleep = False\<rparr>"
  have "pipe_inv ?i" using assms(1,2) by (auto simp: pipe_inv_def)
  then have "pipe_inv (fold (pipe_step dv mnt) cs ?i)" by (rule pipe_run_inv) (rule assms(3))
  moreover have "length p \<le> 5120" if "pipe_holds jp f ys p" for jp f ys p using that pipe_atD(5) by (auto simp: pipe_holds_def)
  ultimately have "\<exists>rest. sent s = got s @ rest \<and> length rest \<le> 5120 \<and> (rsleep s \<longrightarrow> rest = []) \<and> (wsleep s \<longrightarrow> rest \<noteq> [])"
    if "s = fold (pipe_step dv mnt) cs ?i" for s using that unfolding pipe_inv_def by blast
  then show ?thesis by (simp only: Let_def)
qed

theorem pipe_fifo_witness:
  "let s = fold (pipe_step demo_drv []) [PWrite demo_usr, PRead demo_usr] \<lparr>p_ip = demo_pipe, p_fss = (\<lambda>_. demo_fs), got = [],
      sent = map (disk demo_fs 30) [0..<3], rsleep = False, wsleep = False\<rparr>
   in \<exists>rest. sent s = got s @ rest \<and> length rest \<le> 5120 \<and> (rsleep s \<longrightarrow> rest = []) \<and> (wsleep s \<longrightarrow> rest \<noteq> [])"
  by (rule pipe_fifo [OF demo_pipe_holds demo_pipe_ends(1)]) (simp add: demo_calls)





end
