(* ===== verification/Open_Files.thy ===== *)
theory Open_Files
  imports Pipe_Use Inode_Use
begin

text \<open>
  Open files, \<open>os/fio.c\<close>, with \<open>os/pipe.c\<close> and the calls of \<open>os/sys2.c\<close> and \<open>os/sys3.c\<close> on descriptors: the
  table of open files with its free list, the descriptors of the processes, opening and closing, pipes,
  \<open>dup\<close>, \<open>seek\<close>, and \<open>rdwr\<close> with \<open>readi\<close> and \<open>writei\<close>. The inodes are those of the inode table. The drivers of the
  devices are parameters.
\<close>

section \<open>The table of open files\<close>

text \<open>The pointer in an entry is to its inode or to the next free entry.\<close>

datatype fup = Uinode nat | Unext "nat option"

record file_ent =
  f_flag :: byte
  f_count :: u16
  f_up :: fup
  f_offset :: u32

record ofs =
  ftab :: "nat \<Rightarrow> file_ent"
  v_file :: nat
  ffreelist :: "nat option"
  u_ofile :: "nat \<Rightarrow> nat \<Rightarrow> nat option"
  u_pofile :: "nat \<Rightarrow> nat \<Rightarrow> byte"
  tab :: itab

abbreviation NOFILE :: nat where "NOFILE \<equiv> 20"

text \<open>The two readings of the pointer; each is used only on entries of its kind.\<close>

definition f_inode :: "file_ent \<Rightarrow> nat" where "f_inode f = (case f_up f of Uinode i \<Rightarrow> i | Unext _ \<Rightarrow> 0)"
definition f_next :: "file_ent \<Rightarrow> nat option" where "f_next f = (case f_up f of Unext n \<Rightarrow> n | Uinode _ \<Rightarrow> None)"

definition fupd :: "nat \<Rightarrow> (file_ent \<Rightarrow> file_ent) \<Rightarrow> ofs \<Rightarrow> ofs" where
  "fupd fp g s = s\<lparr>ftab := (ftab s)(fp := g (ftab s fp))\<rparr>"

definition set_ofile :: "nat \<Rightarrow> nat \<Rightarrow> nat option \<Rightarrow> ofs \<Rightarrow> ofs" where
  "set_ofile p d v s = s\<lparr>u_ofile := (u_ofile s)(p := (u_ofile s p)(d := v))\<rparr>"

definition of_error :: "errno \<Rightarrow> ofs \<Rightarrow> ofs" where
  "of_error e s = s\<lparr>tab := (tab s)\<lparr>ierror := Some e\<rparr>\<rparr>"

definition on_tab :: "(itab \<Rightarrow> itab) \<Rightarrow> ofs \<Rightarrow> ofs" where
  "on_tab g s = s\<lparr>tab := g (tab s)\<rparr>"

definition finit :: "ofs \<Rightarrow> ofs" where
  "finit s = fold (\<lambda>k. fupd k (\<lambda>f. f\<lparr>f_up := Unext (Some (k + 1))\<rparr>)) [0..<v_file s - 1] (s\<lparr>ffreelist := Some 0\<rparr>)"

definition getf :: "nat \<Rightarrow> u16 \<Rightarrow> ofs \<Rightarrow> nat option \<times> ofs" where
  "getf p f s =
     (if 0 \<le>s f \<and> f <s of_nat NOFILE then
        (case u_ofile s p (unat f) of Some fp \<Rightarrow> (Some fp, s) | None \<Rightarrow> (None, of_error EBADF s))
      else (None, of_error EBADF s))"

definition ufalloc :: "nat \<Rightarrow> nat \<Rightarrow> ofs \<Rightarrow> nat option \<times> ofs" where
  "ufalloc p i s =
     (case List.find (\<lambda>d. u_ofile s p d = None) [i..<NOFILE] of
        Some d \<Rightarrow> (Some d, s\<lparr>u_pofile := (u_pofile s)(p := (u_pofile s p)(d := 0))\<rparr>)
      | None \<Rightarrow> (None, of_error EMFILE s))"

text \<open>The entry and its descriptor, which the code leaves in \<open>u_rval1\<close>.\<close>

definition falloc :: "nat \<Rightarrow> nat \<Rightarrow> byte \<Rightarrow> ofs \<Rightarrow> (nat \<times> nat) option \<times> ofs" where
  "falloc p ip flag s =
     (case ufalloc p 0 s of
        (None, s) \<Rightarrow> (None, s)
      | (Some d, s) \<Rightarrow>
          (case ffreelist s of
             None \<Rightarrow> (None, of_error ENFILE s)
           | Some fp \<Rightarrow>
               (Some (fp, d),
                fupd fp (\<lambda>f. f\<lparr>f_count := f_count f + 1, f_up := Uinode ip, f_flag := flag, f_offset := 0\<rparr>)
                  (set_ofile p d (Some fp) (s\<lparr>ffreelist := f_next (ftab s fp)\<rparr>)))))"

definition free_file :: "nat \<Rightarrow> ofs \<Rightarrow> ofs" where
  "free_file fp s = (fupd fp (\<lambda>f. f\<lparr>f_count := 0, f_up := Unext (ffreelist s)\<rparr>) s)\<lparr>ffreelist := Some fp\<rparr>"

definition dup :: "nat \<Rightarrow> u16 \<Rightarrow> ofs \<Rightarrow> nat option \<times> ofs" where
  "dup p f s =
     (case getf p f s of
        (None, s) \<Rightarrow> (None, s)
      | (Some fp, s) \<Rightarrow>
          (case ufalloc p 0 s of
             (None, s) \<Rightarrow> (None, s)
           | (Some d, s) \<Rightarrow> (Some d, fupd fp (\<lambda>f. f\<lparr>f_count := f_count f + 1\<rparr>) (set_ofile p d (Some fp) s))))"

text \<open>\<open>fcntl\<close> with \<open>F_DUPFD\<close>, and its calls on the flags.\<close>

definition dupfd :: "nat \<Rightarrow> u16 \<Rightarrow> u16 \<Rightarrow> ofs \<Rightarrow> nat option \<times> ofs" where
  "dupfd p f i s =
     (case getf p f s of
        (None, s) \<Rightarrow> (None, s)
      | (Some fp, s) \<Rightarrow>
          if i <s 0 \<or> of_nat NOFILE <s i then (None, of_error EINVAL s)
          else
            (case ufalloc p (unat i) s of
               (None, s) \<Rightarrow> (None, s)
             | (Some d, s) \<Rightarrow> (Some d, fupd fp (\<lambda>f. f\<lparr>f_count := f_count f + 1\<rparr>) (set_ofile p d (Some fp) s))))"

definition setfl :: "nat \<Rightarrow> u16 \<Rightarrow> u16 \<Rightarrow> ofs \<Rightarrow> ofs" where
  "setfl p f arg s =
     (case getf p f s of
        (None, s) \<Rightarrow> s
      | (Some fp, s) \<Rightarrow> fupd fp (\<lambda>f. f\<lparr>f_flag := ucast ((scast (f_flag f) AND (FREAD OR FWRITE)) OR ((arg + 1) AND NOT (FREAD OR FWRITE)))\<rparr>) s)"

text \<open>The part of \<open>newproc\<close> on the files: the child \<open>c\<close> gets the descriptors of \<open>p\<close>.\<close>

definition share :: "nat option \<Rightarrow> ofs \<Rightarrow> ofs" where
  "share v s = (case v of None \<Rightarrow> s | Some fp \<Rightarrow> fupd fp (\<lambda>f. f\<lparr>f_count := f_count f + 1\<rparr>) s)"

definition newproc_files :: "nat \<Rightarrow> nat \<Rightarrow> ofs \<Rightarrow> ofs" where
  "newproc_files p c s =
     (let s = fold (\<lambda>d s. share (u_ofile s p d) s) [0..<NOFILE] s
      in s\<lparr>u_ofile := (u_ofile s)(c := u_ofile s p), u_pofile := (u_pofile s)(c := u_pofile s p)\<rparr>)"

section \<open>Opening and closing pipes\<close>

text \<open>\<open>WakeReaders\<close> and \<open>WakeWriters\<close> are the wakeups on \<open>i_frcnt\<close> and \<open>i_fwcnt\<close>; an opening reader that waits for a
  writer sleeps on the latter, an opening writer on the former.\<close>

definition openp :: "u16 \<Rightarrow> inode \<Rightarrow> errno option \<times> rw_event list \<times> inode" where
  "openp mode ip =
     (case (if mode AND FREAD \<noteq> 0 then (if i_frcnt ip = 0 then [WakeReaders] else [], set_f 23 (i_frcnt ip + 1) ip) else ([], ip)) of
        (ev, ip) \<Rightarrow>
          if mode AND FWRITE \<noteq> 0 then
            (if mode AND FNDELAY \<noteq> 0 \<and> i_frcnt ip = 0 then (Some ENXIO, ev, ip)
             else (None, ev @ (if i_fwcnt ip = 0 then [WakeWriters] else []), set_f 24 (i_fwcnt ip + 1) ip))
          else (None, ev, ip))"

text \<open>Whether an opener that has been counted waits (again).\<close>

definition openp_waits :: "u16 \<Rightarrow> inode \<Rightarrow> bool" where
  "openp_waits mode ip =
     (if mode AND FREAD \<noteq> 0 \<and> i_fwcnt ip = 0 then mode AND FNDELAY = 0 \<and> i_size ip = 0
      else mode AND FWRITE \<noteq> 0 \<and> i_frcnt ip = 0)"

text \<open>The blocks of the pipe, from the last address to the first.\<close>

definition closep_block :: "nat \<Rightarrow> inode \<times> fs \<Rightarrow> inode \<times> fs" where
  "closep_block i = (\<lambda>(ip, f). if i_addr ip ! i = 0 then (ip, f) else (ip\<lparr>i_addr := (i_addr ip)[i := 0]\<rparr>, free (i_addr ip ! i) f))"

definition closep :: "u16 \<Rightarrow> inode \<Rightarrow> fs \<Rightarrow> rw_event list \<times> inode \<times> fs" where
  "closep mode ip f =
     (case (if mode AND FREAD \<noteq> 0 then
              (let ip = set_f 23 (i_frcnt ip - 1) ip
               in if i_frcnt ip = 0 \<and> i_fflag ip AND IFIW \<noteq> 0 then ([WakeWriters], set_f 25 (i_fflag ip AND NOT IFIW) ip) else ([], ip))
            else ([], ip)) of
        (ev, ip) \<Rightarrow>
          (case (if mode AND FWRITE \<noteq> 0 then
                   (let ip = set_f 24 (i_fwcnt ip - 1) ip
                    in if i_fwcnt ip = 0 \<and> i_fflag ip AND IFIR \<noteq> 0 then (ev @ [WakeReaders], set_f 25 (i_fflag ip AND NOT IFIR) ip) else (ev, ip))
                 else (ev, ip)) of
             (ev, ip) \<Rightarrow>
               if i_frcnt ip = 0 \<and> i_fwcnt ip = 0 then
                 (case fold closep_block (rev [0..<10]) (ip, f) of
                    (ip, f) \<Rightarrow> (ev, set_f 22 0 (set_f 21 0 (ip\<lparr>i_size := 0, i_flag := i_flag ip OR (IUPD OR ICHG)\<rparr>)), f))
               else (ev, ip, f)))"

definition closep_tab :: "u16 \<Rightarrow> nat \<Rightarrow> itab \<Rightarrow> rw_event list \<times> itab" where
  "closep_tab mode i t =
     (let dev = i_dev (inodes t i)
      in case closep mode (inodes t i) (fss t dev) of (ev, ip, f) \<Rightarrow> (ev, with_fs dev f (iupd i (\<lambda>_. ip) t)))"

section \<open>Closing\<close>

text \<open>What a close does outside the tables: record locks are dropped, sleepers woken, and the close routine of
  a device is called; for a block device between \<open>bflush\<close> and \<open>binval\<close>.\<close>

datatype file_event = Clean_locks nat | Pipe_event rw_event | Chr_close u16 byte | Blk_close u16 byte

definition i_rdev :: "inode \<Rightarrow> u32" where "i_rdev ip = i_addr ip ! 0"

definition still_open :: "u16 \<Rightarrow> u16 \<Rightarrow> ofs \<Rightarrow> bool" where
  "still_open fmt dev s =
     list_ex (\<lambda>k. f_count (ftab s k) \<noteq> 0 \<and>
        (let tip = inodes (tab s) (f_inode (ftab s k)) in i_rdev tip = scast dev \<and> i_mode tip AND IFMT = fmt)) [0..<v_file s]"

text \<open>The last close of an entry, from the lock of its inode.\<close>

definition closef_last :: "nat \<Rightarrow> ofs \<Rightarrow> unit ires \<times> file_event list \<times> ofs" where
  "closef_last fp s =
     (let i = f_inode (ftab s fp)
      in case plock i (tab s) of
           (IGot _, t) \<Rightarrow>
             (let flag = f_flag (ftab s fp); dev = ucast (i_rdev (inodes t i)); fmt = i_mode (inodes t i) AND IFMT;
                  s = free_file fp (s\<lparr>tab := t\<rparr>)
              in if fmt = IFIFO then (case closep_tab (scast flag) i (tab s) of (ev, t) \<Rightarrow> (IGot (), map Pipe_event ev, s\<lparr>tab := iput i t\<rparr>))
                 else if fmt = IFCHR \<or> fmt = IFBLK then
                   (if still_open fmt dev s \<or> fmt = IFBLK \<and> list_ex (\<lambda>m. m_flags m = 1 \<and> m_dev m = dev) (mounts t)
                    then (IGot (), [], on_tab (iput i) s)
                    else if fmt = IFBLK then (IGot (), [Blk_close dev flag], on_tab (iput i) s)
                    else (IGot (), [Chr_close dev flag], on_tab (iput i) (on_tab (prele i) s)))
                 else (IGot (), [], on_tab (iput i) s))
         | (_, t) \<Rightarrow> (ISleep, [], s\<lparr>tab := t\<rparr>))"

definition closef :: "nat \<Rightarrow> ofs \<Rightarrow> unit ires \<times> file_event list \<times> ofs" where
  "closef fp s =
     (if 1 < f_count (ftab s fp) then (IGot (), [Clean_locks fp], fupd fp (\<lambda>f. f\<lparr>f_count := f_count f - 1\<rparr>) s)
      else (case closef_last fp s of (r, ev, s) \<Rightarrow> (r, Clean_locks fp # ev, s)))"

definition close_fd :: "nat \<Rightarrow> u16 \<Rightarrow> ofs \<Rightarrow> unit ires \<times> file_event list \<times> ofs" where
  "close_fd p f s =
     (case getf p f s of
        (None, s) \<Rightarrow> (IFail, [], s)
      | (Some fp, s) \<Rightarrow> closef fp (set_ofile p (unat f) None s))"

section \<open>Opening\<close>

text \<open>The switches of the drivers: their sizes and their open routines, which may refuse a device.\<close>

record devsw =
  cdevcnt :: nat
  bdevcnt :: nat
  cdev_open :: "u16 \<Rightarrow> u16 \<Rightarrow> errno option"
  bdev_open :: "u16 \<Rightarrow> u16 \<Rightarrow> errno option"

definition openi :: "devsw \<Rightarrow> u16 \<Rightarrow> inode \<Rightarrow> errno option \<times> rw_event list \<times> inode" where
  "openi sw flag ip =
     (let ty = i_mode ip AND IFMT; dev = ucast (i_rdev ip) :: u16
      in if ty = IFCHR then (if cdevcnt sw \<le> unat (drop_bit 8 dev) then Some ENXIO else cdev_open sw dev flag, [], ip)
         else if ty = IFBLK then (if bdevcnt sw \<le> unat (drop_bit 8 dev AND 31) then Some ENXIO else bdev_open sw dev flag, [], ip)
         else if ty = IFIFO then openp flag ip
         else (None, [], ip))"

definition FTRUNC :: u16 where "FTRUNC = 0x200"
definition FMASK :: u16 where "FMASK = 0xFF"

text \<open>The last part of \<open>copen\<close>, after the check of access, whose error it finds in \<open>u_error\<close>: the entry, the call of
  the device, and what is taken back when that fails.\<close>

definition copen_dev :: "devsw \<Rightarrow> nat \<Rightarrow> u16 \<Rightarrow> ofs \<Rightarrow> rw_event list \<times> ofs" where
  "copen_dev sw i mode s =
     (let s = (if mode AND FTRUNC \<noteq> 0 then on_tab (itrunc_tab i) s else s);
          s = on_tab (prele i) s
      in case openi sw mode (inodes (tab s) i) of
           (e, ev, ip) \<Rightarrow>
             (let s = on_tab (iupd i (\<lambda>_. ip)) s in (ev, case e of None \<Rightarrow> s | Some x \<Rightarrow> of_error x s)))"

definition copen_undo :: "nat \<Rightarrow> nat \<Rightarrow> nat \<Rightarrow> nat \<Rightarrow> ofs \<Rightarrow> ofs" where
  "copen_undo p fp d i s =
     (let s = fupd fp (\<lambda>f. f\<lparr>f_count := f_count f - 1\<rparr>) (set_ofile p d None s);
          s = (if f_count (ftab s fp) \<le>s 0 then (fupd fp (\<lambda>f. f\<lparr>f_up := Unext (ffreelist s)\<rparr>) s)\<lparr>ffreelist := Some fp\<rparr> else s)
      in on_tab (iput i) s)"

definition copen_end :: "devsw \<Rightarrow> nat \<Rightarrow> nat \<Rightarrow> u16 \<Rightarrow> ofs \<Rightarrow> (nat \<times> nat) option \<times> rw_event list \<times> ofs" where
  "copen_end sw p i mode s =
     (case (if ierror (tab s) \<noteq> None then (None, s) else falloc p i (ucast (mode AND FMASK)) s) of
        (None, s) \<Rightarrow> (None, [], on_tab (iput i) s)
      | (Some (fp, d), s) \<Rightarrow>
          (case copen_dev sw i mode s of
             (ev, s) \<Rightarrow> if ierror (tab s) = None then (Some (fp, d), ev, s) else (None, ev, copen_undo p fp d i s)))"

definition pipe :: "u16 \<Rightarrow> u16 \<Rightarrow> u16 \<Rightarrow> nat \<Rightarrow> ofs \<Rightarrow> ((nat \<times> nat) ires \<times> ofs) option" where
  "pipe pipedev uid gid p s =
     (case ialloc pipedev IFIFO 0 uid gid (tab s) of
        None \<Rightarrow> None
      | Some (IGot i, t) \<Rightarrow>
          Some
            (case falloc p i (ucast FREAD) (s\<lparr>tab := t\<rparr>) of
               (None, s) \<Rightarrow> (IFail, on_tab (iput i) s)
             | (Some (rfile, r), s) \<Rightarrow>
                 (case falloc p i (ucast FWRITE) s of
                    (None, s) \<Rightarrow> (IFail, on_tab (iput i) (set_ofile p r None (free_file rfile s)))
                  | (Some (wfile, w), s) \<Rightarrow> (IGot (r, w), on_tab (prele i \<circ> iupd i (\<lambda>ip. set_f 24 1 (set_f 23 1 (ip\<lparr>i_count := 2\<rparr>)))) s)))
      | Some (r, t) \<Rightarrow> Some (case r of ISleep \<Rightarrow> ISleep | IStuck \<Rightarrow> IStuck | _ \<Rightarrow> IFail, s\<lparr>tab := t\<rparr>))"

section \<open>Reading, writing and seeking\<close>

definition mount_devs :: "itab \<Rightarrow> (u16 \<times> u16) list" where
  "mount_devs t = map (\<lambda>m. (m_flags m, m_dev m)) (mounts t)"

text \<open>\<open>rdwr\<close>: \<open>us\<close> is the user structure of the caller with its memory. The answer is the number of bytes moved.
  When the call sleeps, on the lock of the inode or on the pipe, the offset has not been advanced.\<close>

definition rdwr_end :: "nat \<Rightarrow> nat \<Rightarrow> bool \<Rightarrow> u16 \<Rightarrow> usr \<Rightarrow> ofs \<Rightarrow> u16 \<times> ofs" where
  "rdwr_end fp i wr count us s =
     (let ty = i_mode (inodes (tab s) i) AND IFMT;
          s = (if ty = IFREG \<and> u_fmode us AND FSYNC \<noteq> 0 \<and> wr
               then on_tab (iupdat_tab i \<circ> iupd i (\<lambda>ip. ip\<lparr>i_flag := i_flag ip OR ISYN\<rparr>)) s else s);
          s = (if ty = IFREG \<or> ty = IFDIR \<or> ty = IFIFO then on_tab (prele i) s else s);
          n = count - u_count (uu us)
      in (n, fupd fp (\<lambda>f. f\<lparr>f_offset := f_offset f + ucast n\<rparr>) s))"

text \<open>Where the transfer starts, and the transfer on the locked inode.\<close>

definition rdwr_start :: "nat \<Rightarrow> nat \<Rightarrow> bool \<Rightarrow> u16 \<Rightarrow> ofs \<Rightarrow> ofs" where
  "rdwr_start fp i wr fmode s =
     (let ip = inodes (tab s) i; ty = i_mode ip AND IFMT
      in if ty = IFIFO then fupd fp (\<lambda>f. f\<lparr>f_offset := 0\<rparr>) s
         else if (ty = IFREG \<or> ty = IFDIR) \<and> fmode AND FAPPEND \<noteq> 0 \<and> wr then fupd fp (\<lambda>f. f\<lparr>f_offset := i_size ip\<rparr>) s
         else s)"

definition rdwr_move :: "drv \<Rightarrow> nat \<Rightarrow> nat \<Rightarrow> bool \<Rightarrow> usr \<Rightarrow> itab \<Rightarrow> rw_end \<times> rw_event list \<times> usr \<times> itab" where
  "rdwr_move dv fp i wr us t =
     (case (if wr then writei dv (mount_devs t) (inodes t i) us (fss t) else readi dv (mount_devs t) (fss t) (inodes t i) us) of
        (e, ev, ip, us, fs) \<Rightarrow> (e, ev, us, (iupd i (\<lambda>_. ip) t)\<lparr>fss := fs, ierror := (if u_err us = None then ierror t else u_err us)\<rparr>))"

definition rdwr_locked :: "drv \<Rightarrow> nat \<Rightarrow> nat \<Rightarrow> bool \<Rightarrow> u16 \<Rightarrow> usr \<Rightarrow> ofs \<Rightarrow> u16 ires \<times> rw_event list \<times> usr \<times> ofs" where
  "rdwr_locked dv fp i wr count us s =
     (let s = rdwr_start fp i wr (u_fmode us) s
      in case rdwr_move dv fp i wr (us\<lparr>uu := (uu us)\<lparr>u_offset := f_offset (ftab s fp)\<rparr>\<rparr>) (tab s) of
           (RDone, ev, us, t) \<Rightarrow> (case rdwr_end fp i wr count us (s\<lparr>tab := t\<rparr>) of (n, s) \<Rightarrow> (IGot n, ev, us, s))
         | (RSleep, ev, us, t) \<Rightarrow> (ISleep, ev, us, s\<lparr>tab := t\<rparr>)
         | (RLoop, ev, us, t) \<Rightarrow> (IStuck, ev, us, s\<lparr>tab := t\<rparr>))"

definition rdwr :: "drv \<Rightarrow> bool \<Rightarrow> nat \<Rightarrow> u16 \<Rightarrow> u16 \<Rightarrow> u16 \<Rightarrow> usr \<Rightarrow> ofs \<Rightarrow> u16 ires \<times> rw_event list \<times> usr \<times> ofs" where
  "rdwr dv wr p fdes cbuf count us s =
     (case getf p fdes s of
        (None, s) \<Rightarrow> (IFail, [], us\<lparr>u_err := Some EBADF\<rparr>, s)
      | (Some fp, s) \<Rightarrow>
          if scast (f_flag (ftab s fp)) AND (if wr then FWRITE else FREAD) = 0 then (IFail, [], us\<lparr>u_err := Some EBADF\<rparr>, of_error EBADF s)
          else
            (let us = us\<lparr>u_base := cbuf, uu := (uu us)\<lparr>u_count := count\<rparr>, u_segflg := 0, u_fmode := scast (f_flag (ftab s fp))\<rparr>;
                 i = f_inode (ftab s fp); ty = i_mode (inodes (tab s) i) AND IFMT
             in case (if ty = IFREG \<or> ty = IFDIR \<or> ty = IFIFO then plock i (tab s) else (IGot (), tab s)) of
                  (IGot _, t) \<Rightarrow> rdwr_locked dv fp i wr count us (s\<lparr>tab := t\<rparr>)
                | (_, t) \<Rightarrow> (ISleep, [], us, s\<lparr>tab := t\<rparr>)))"

definition seek :: "nat \<Rightarrow> u16 \<Rightarrow> u32 \<Rightarrow> u16 \<Rightarrow> ofs \<Rightarrow> u32 option \<times> ofs" where
  "seek p fdes off sbase s =
     (case getf p fdes s of
        (None, s) \<Rightarrow> (None, s)
      | (Some fp, s) \<Rightarrow>
          (let ip = inodes (tab s) (f_inode (ftab s fp))
           in if i_mode ip AND IFMT = IFIFO then (None, of_error ESPIPE s)
              else if sbase \<noteq> 0 \<and> sbase \<noteq> 1 \<and> sbase \<noteq> 2 then (None, of_error EINVAL s)
              else
                (let off = (if sbase = 1 then off + f_offset (ftab s fp) else if sbase = 2 then off + i_size ip else off)
                 in if off <s 0 then (None, of_error EINVAL s)
                    else (Some off, fupd fp (\<lambda>f. f\<lparr>f_offset := off\<rparr>) s))))"

end
