(* ===== verification/Open_Runs.thy ===== *)
theory Open_Runs
  imports Open_Files Chain
begin

text \<open>
  The references of the table of open files: the count of an entry is the number of descriptors of all
  processes that lead to it, the free list holds the entries without, and an inode has a reference for
  each open entry beside those that others hold.
\<close>

section \<open>Counting\<close>

definition refset :: "ofs \<Rightarrow> nat \<Rightarrow> (nat \<times> nat) set" where
  "refset s k = {x. u_ofile s (fst x) (snd x) = Some k}"

abbreviation refs :: "ofs \<Rightarrow> nat \<Rightarrow> nat" where "refs s k \<equiv> card (refset s k)"

definition userset :: "ofs \<Rightarrow> nat \<Rightarrow> nat set" where
  "userset s i = {k. k < v_file s \<and> f_count (ftab s k) \<noteq> 0 \<and> f_up (ftab s k) = Uinode i}"

abbreviation users :: "ofs \<Rightarrow> nat \<Rightarrow> nat" where "users s i \<equiv> card (userset s i)"

text \<open>\<open>cl\<close> are the entries whose last close sleeps on the inode: their descriptor is gone, their count is 1.\<close>

definition files_ok :: "nat \<Rightarrow> ofs \<Rightarrow> nat list \<Rightarrow> bool" where
  "files_ok np s cl \<longleftrightarrow> np * NOFILE < 32768 \<and>
     (\<exists>xs. chain (\<lambda>k. f_next (ftab s k)) (ffreelist s) xs \<and> set xs = {k. k < v_file s \<and> f_count (ftab s k) = 0}) \<and>
     (\<forall>k < v_file s. f_count (ftab s k) \<noteq> 0 \<longrightarrow> (\<exists>i < v_inode (tab s). f_up (ftab s k) = Uinode i)) \<and>
     (\<forall>k < v_file s. unat (f_count (ftab s k)) = refs s k + count_list cl k) \<and>
     (\<forall>k \<in> set cl. k < v_file s \<and> f_count (ftab s k) = 1) \<and>
     (\<forall>p d k. u_ofile s p d = Some k \<longrightarrow> p < np \<and> d < NOFILE \<and> k < v_file s)"

lemma files_okD:
  assumes "files_ok np s cl"
  shows "np * NOFILE < 32768" "\<exists>xs. chain (\<lambda>k. f_next (ftab s k)) (ffreelist s) xs \<and> set xs = {k. k < v_file s \<and> f_count (ftab s k) = 0}"
    "k < v_file s \<Longrightarrow> f_count (ftab s k) \<noteq> 0 \<Longrightarrow> \<exists>i < v_inode (tab s). f_up (ftab s k) = Uinode i"
    "k < v_file s \<Longrightarrow> unat (f_count (ftab s k)) = refs s k + count_list cl k"
    "k \<in> set cl \<Longrightarrow> k < v_file s \<and> f_count (ftab s k) = 1"
    "u_ofile s p d = Some k \<Longrightarrow> p < np \<and> d < NOFILE \<and> k < v_file s"
  using assms unfolding files_ok_def by blast+

lemma refset_finite: "files_ok np s cl \<Longrightarrow> finite (refset s k)" "files_ok np s cl \<Longrightarrow> refs s k \<le> np * NOFILE"
proof -
  assume F: "files_ok np s cl"
  have sub: "refset s k \<subseteq> {..<np} \<times> {..<NOFILE}" using files_okD(6) [OF F] by (auto simp: refset_def)
  then show "finite (refset s k)" by (rule finite_subset) simp
  have "refs s k \<le> card ({..<np} \<times> {..<NOFILE})" by (rule card_mono [OF _ sub]) simp
  then show "refs s k \<le> np * NOFILE" by simp
qed

lemma held_count:
  assumes F: "files_ok np s cl" and o: "u_ofile s p d = Some k"
  shows "k < v_file s" "f_count (ftab s k) \<noteq> 0" "k \<notin> set cl" "count_list cl k = 0" "unat (f_count (ftab s k)) = refs s k"
proof -
  show k: "k < v_file s" using files_okD(6) [OF F o] by simp
  have "(p, d) \<in> refset s k" using o by (simp add: refset_def)
  then have "0 < refs s k" using refset_finite(1) [OF F] by (metis card_gt_0_iff empty_iff)
  then have r: "1 \<le> refs s k" by simp
  show "k \<notin> set cl"
  proof
    assume c: "k \<in> set cl"
    then have "1 \<le> count_list cl k" using count_list_0_iff [of cl k] by linarith
    moreover have "unat (f_count (ftab s k)) = 1" using files_okD(5) [OF F c] by simp
    ultimately show False using files_okD(4) [OF F k] r by simp
  qed
  then show c: "count_list cl k = 0" by (simp add: count_list_0_iff)
  show u: "unat (f_count (ftab s k)) = refs s k" using files_okD(4) [OF F k] c by simp
  then show "f_count (ftab s k) \<noteq> 0" using r by auto
qed

text \<open>A descriptor added and one removed.\<close>

lemma refset_set:
  "u_ofile s p d = None \<Longrightarrow> refset (set_ofile p d (Some n) s) k = (if k = n then insert (p, d) (refset s k) else refset s k)"
  "u_ofile s p d = Some n \<Longrightarrow> refset (set_ofile p d None s) k = (if k = n then refset s k - {(p, d)} else refset s k)"
  by (auto simp: refset_def set_ofile_def split: if_splits)

lemma in_refset: "(p, d) \<in> refset s k \<longleftrightarrow> u_ofile s p d = Some k"
  by (simp add: refset_def)

lemma refs_set:
  assumes F: "files_ok np s cl"
  shows "u_ofile s p d = None \<Longrightarrow> refs (set_ofile p d (Some n) s) k = (if k = n then refs s k + 1 else refs s k)"
    "u_ofile s p d = Some n \<Longrightarrow> refs (set_ofile p d None s) k = (if k = n then refs s k - 1 else refs s k)"
  using refset_finite(1) [OF F, of k] by (auto simp: refset_set in_refset)

lemma fupd_fields [simp]:
  "v_file (fupd k g s) = v_file s" "ffreelist (fupd k g s) = ffreelist s" "u_ofile (fupd k g s) = u_ofile s" "tab (fupd k g s) = tab s"
  "ftab (fupd k g s) = (ftab s)(k := g (ftab s k))" "refset (fupd k g s) = refset s"
  by (simp_all add: fupd_def refset_def fun_eq_iff)

lemma f_next_fields [simp]: "f_next (f\<lparr>f_count := c\<rparr>) = f_next f" "f_next (f\<lparr>f_up := Unext n\<rparr>) = n"
  by (simp_all add: f_next_def)

lemma set_ofile_fields [simp]:
  "v_file (set_ofile p d v s) = v_file s" "ffreelist (set_ofile p d v s) = ffreelist s" "tab (set_ofile p d v s) = tab s" "ftab (set_ofile p d v s) = ftab s"
  by (simp_all add: set_ofile_def)

lemma files_cong:
  "files_ok np s cl \<Longrightarrow> ftab s' = ftab s \<Longrightarrow> v_file s' = v_file s \<Longrightarrow> ffreelist s' = ffreelist s \<Longrightarrow> u_ofile s' = u_ofile s \<Longrightarrow>
   v_inode (tab s') = v_inode (tab s) \<Longrightarrow> files_ok np s' cl"
  by (simp add: files_ok_def refset_def)

lemma userset_cong: "ftab s' = ftab s \<Longrightarrow> v_file s' = v_file s \<Longrightarrow> userset s' i = userset s i"
  by (simp add: userset_def)

text \<open>One more descriptor for an open entry.\<close>

lemma files_share:
  assumes F: "files_ok np s cl" and n: "u_ofile s p d = None" "p < np" "d < NOFILE" and o: "u_ofile s q e = Some k"
  defines "s' \<equiv> fupd k (\<lambda>f. f\<lparr>f_count := f_count f + 1\<rparr>) (set_ofile p d (Some k) s)"
  shows "files_ok np s' cl" "userset s' i = userset s i"
proof -
  note H = held_count [OF F o]
  have b: "refs s k \<le> np * NOFILE" "np * NOFILE < 32768" using refset_finite(2) [OF F] files_okD(1) [OF F] by simp_all
  have u: "unat (f_count (ftab s k) + 1) = unat (f_count (ftab s k)) + 1" using unat_plus_small [of "f_count (ftab s k)" 1] H(5) b by simp
  then have nz: "f_count (ftab s k) + 1 \<noteq> 0" by (metis unat_eq_0_iff add_is_0 zero_neq_one)
  obtain xs where xs: "chain (\<lambda>k. f_next (ftab s k)) (ffreelist s) xs" "set xs = {k. k < v_file s \<and> f_count (ftab s k) = 0}" using files_okD(2) [OF F] by blast
  have "(\<lambda>j. f_next (ftab s' j)) = (\<lambda>j. f_next (ftab s j))" by (simp add: s'_def fun_eq_iff)
  then have "chain (\<lambda>j. f_next (ftab s' j)) (ffreelist s') xs" using xs(1) by (simp add: s'_def)
  moreover have "set xs = {j. j < v_file s' \<and> f_count (ftab s' j) = 0}" using xs(2) H(2) nz by (auto simp: s'_def)
  moreover have "unat (f_count (ftab s' j)) = refs s' j + count_list cl j" if "j < v_file s'" for j
    using that files_okD(4) [OF F, of j] files_okD(4) [OF F H(1)] refs_set(1) [OF F n(1), of k j] u by (simp add: s'_def)
  moreover have "u_ofile s' a c = Some j \<Longrightarrow> a < np \<and> c < NOFILE \<and> j < v_file s'" for a c j
    using files_okD(6) [OF F, of a c j] n H(1) by (auto simp: s'_def set_ofile_def split: if_splits)
  ultimately show "files_ok np s' cl"
    unfolding files_ok_def using files_okD(1,3,5) [OF F] H(2,3) by (auto simp: s'_def)
  show "userset s' i = userset s i" using H(2) nz by (auto simp: userset_def s'_def)
qed

text \<open>A new entry.\<close>

lemma files_new:
  fixes fl :: byte
  assumes F: "files_ok np s cl" and n: "u_ofile s p d = None" "p < np" "d < NOFILE" and k: "ffreelist s = Some k" and i: "i < v_inode (tab s)"
  defines "s' \<equiv> fupd k (\<lambda>f. f\<lparr>f_count := f_count f + 1, f_up := Uinode i, f_flag := fl, f_offset := 0\<rparr>)
    (set_ofile p d (Some k) (s\<lparr>ffreelist := f_next (ftab s k)\<rparr>))"
  shows "files_ok np s' cl" "userset s' j = (if j = i then insert k (userset s j) else userset s j)" "k \<notin> userset s i"
    "k < v_file s" "f_count (ftab s k) = 0"
proof -
  obtain xs where xs: "chain (\<lambda>k. f_next (ftab s k)) (ffreelist s) xs" "set xs = {k. k < v_file s \<and> f_count (ftab s k) = 0}" using files_okD(2) [OF F] by blast
  then obtain ys where ys: "xs = k # ys" "chain (\<lambda>k. f_next (ftab s k)) (f_next (ftab s k)) ys" using k by (auto simp: chain_Some)
  have d: "k \<notin> set ys" using chain_distinct [OF xs(1)] ys(1) by simp
  show k0: "k < v_file s" "f_count (ftab s k) = 0" using xs(2) ys(1) by auto
  have r: "refs s k = 0" "count_list cl k = 0" using files_okD(4) [OF F k0(1)] k0(2) by simp_all
  then have kc: "k \<notin> set cl" by (simp add: count_list_0_iff)
  have "chain (\<lambda>j. f_next (ftab s' j)) (ffreelist s') ys \<longleftrightarrow> chain (\<lambda>j. f_next (ftab s j)) (ffreelist s') ys"
    by (rule path_cong) (use d in \<open>auto simp: s'_def\<close>)
  then have "chain (\<lambda>j. f_next (ftab s' j)) (ffreelist s') ys" using ys(2) by (simp add: s'_def)
  moreover have "set ys = {j. j < v_file s' \<and> f_count (ftab s' j) = 0}"
  proof -
    have "set ys = set xs - {k}" using ys(1) d by simp
    also have "\<dots> = {j. j < v_file s' \<and> f_count (ftab s' j) = 0}" using xs(2) k0 by (auto simp: s'_def)
    finally show ?thesis .
  qed
  moreover have "unat (f_count (ftab s' j)) = refs s' j + count_list cl j" if "j < v_file s'" for j
  proof -
    have "refset s' j = refset (set_ofile p d (Some k) s) j" by (simp add: s'_def refset_def set_ofile_def)
    then show ?thesis using that files_okD(4) [OF F, of j] refs_set(1) [OF F n(1), of k j] r k0 by (auto simp: s'_def)
  qed
  moreover have "u_ofile s' a c = Some j \<Longrightarrow> a < np \<and> c < NOFILE \<and> j < v_file s'" for a c j
    using files_okD(6) [OF F, of a c j] n k0(1) by (auto simp: s'_def set_ofile_def split: if_splits)
  moreover have "\<exists>m < v_inode (tab s'). f_up (ftab s' j) = Uinode m" if "j < v_file s'" "f_count (ftab s' j) \<noteq> 0" for j
    using that files_okD(3) [OF F, of j] i by (cases "j = k") (auto simp: s'_def)
  moreover have "j < v_file s' \<and> f_count (ftab s' j) = 1" if "j \<in> set cl" for j
    using files_okD(5) [OF F that] kc that by (auto simp: s'_def)
  ultimately show "files_ok np s' cl" unfolding files_ok_def using files_okD(1) [OF F] by blast
  show "k \<notin> userset s i" using k0 by (simp add: userset_def)
  show "userset s' j = (if j = i then insert k (userset s j) else userset s j)" using k0 by (auto simp: userset_def s'_def split: if_splits)
qed

text \<open>A descriptor less, for an entry with others, and the last one.\<close>

lemma files_unshare:
  assumes F: "files_ok np s cl" and o: "u_ofile s p d = Some k" "1 < f_count (ftab s k)"
  defines "s' \<equiv> fupd k (\<lambda>f. f\<lparr>f_count := f_count f - 1\<rparr>) (set_ofile p d None s)"
  shows "files_ok np s' cl" "userset s' i = userset s i"
proof -
  note H = held_count [OF F o(1)]
  have l: "1 < unat (f_count (ftab s k))" using o(2) by (simp add: word_less_nat_alt)
  then have u: "unat (f_count (ftab s k) - 1) = unat (f_count (ftab s k)) - 1" using unat_minus_small [of 1 "f_count (ftab s k)"] by (simp add: word_le_nat_alt)
  then have nz: "f_count (ftab s k) - 1 \<noteq> 0" using l by (metis unat_eq_0_iff zero_less_diff less_numeral_extra(3))
  obtain xs where xs: "chain (\<lambda>k. f_next (ftab s k)) (ffreelist s) xs" "set xs = {k. k < v_file s \<and> f_count (ftab s k) = 0}" using files_okD(2) [OF F] by blast
  have "(\<lambda>j. f_next (ftab s' j)) = (\<lambda>j. f_next (ftab s j))" by (simp add: s'_def fun_eq_iff)
  then have "chain (\<lambda>j. f_next (ftab s' j)) (ffreelist s') xs" using xs(1) by (simp add: s'_def)
  moreover have "set xs = {j. j < v_file s' \<and> f_count (ftab s' j) = 0}" using xs(2) H(2) nz by (auto simp: s'_def)
  moreover have "unat (f_count (ftab s' j)) = refs s' j + count_list cl j" if "j < v_file s'" for j
    using that files_okD(4) [OF F, of j] refs_set(2) [OF F o(1), of j] u H(4,5) by (simp add: s'_def)
  moreover have "u_ofile s' a c = Some j \<Longrightarrow> a < np \<and> c < NOFILE \<and> j < v_file s'" for a c j
    using files_okD(6) [OF F, of a c j] by (auto simp: s'_def set_ofile_def split: if_splits)
  ultimately show "files_ok np s' cl"
    unfolding files_ok_def using files_okD(1,3,5) [OF F] H(2,3) by (auto simp: s'_def)
  show "userset s' i = userset s i" using H(2) nz by (auto simp: userset_def s'_def)
qed

lemma files_last:
  assumes F: "files_ok np s cl" and o: "u_ofile s p d = Some k" "\<not> 1 < f_count (ftab s k)"
  shows "files_ok np (set_ofile p d None s) (k # cl)" "userset (set_ofile p d None s) i = userset s i"
proof -
  note H = held_count [OF F o(1)]
  have c1: "f_count (ftab s k) = 1"
  proof -
    have "unat (f_count (ftab s k)) \<noteq> 0" using H(2) by (simp add: unat_eq_0_iff)
    moreover have "\<not> 1 < unat (f_count (ftab s k))" using o(2) by (simp add: word_less_nat_alt)
    ultimately have "unat (f_count (ftab s k)) = 1" by linarith
    then show ?thesis by (simp add: word_unat_eq_iff)
  qed
  let ?s = "set_ofile p d None s"
  have "unat (f_count (ftab ?s j)) = refs ?s j + count_list (k # cl) j" if "j < v_file s" for j
    using files_okD(4) [OF F that] refs_set(2) [OF F o(1), of j] H(4,5) c1 by simp
  moreover have "u_ofile ?s a c = Some j \<Longrightarrow> a < np \<and> c < NOFILE \<and> j < v_file s" for a c j
    using files_okD(6) [OF F, of a c j] by (auto simp: set_ofile_def split: if_splits)
  ultimately show "files_ok np ?s (k # cl)"
    unfolding files_ok_def using files_okD(1-3,5) [OF F] H(1) c1 by auto
  show "userset ?s i = userset s i" by (rule userset_cong) simp_all
qed

text \<open>The entry goes back to the free list.\<close>

lemma files_free:
  assumes F: "files_ok np s cl" and k: "k \<in> set cl"
  shows "files_ok np (free_file k s) (remove1 k cl)" "userset (free_file k s) i = userset s i - {k}"
    "\<exists>i < v_inode (tab s). f_up (ftab s k) = Uinode i \<and> k \<in> userset s i \<and> (\<forall>j. j \<noteq> i \<longrightarrow> k \<notin> userset s j)"
proof -
  have c: "k < v_file s" "f_count (ftab s k) = 1" using files_okD(5) [OF F k] by simp_all
  have kc: "1 \<le> count_list cl k" using k count_list_0_iff [of cl k] by linarith
  then have r: "refs s k = 0" "count_list cl k = 1" using files_okD(4) [OF F c(1)] c(2) by simp_all
  have cnt: "count_list (remove1 k cl) j = (if j = k then 0 else count_list cl j)" for j
    using r(2) by (induction cl) auto
  have "k \<notin> set (remove1 k cl)" using cnt [of k] count_list_0_iff [of "remove1 k cl" k] by simp
  then have sub: "set (remove1 k cl) \<subseteq> set cl - {k}" using set_remove1_subset [of k cl] by blast
  let ?s = "free_file k s"
  obtain xs where xs: "chain (\<lambda>k. f_next (ftab s k)) (ffreelist s) xs" "set xs = {k. k < v_file s \<and> f_count (ftab s k) = 0}" using files_okD(2) [OF F] by blast
  have "k \<notin> set xs" using xs(2) c by simp
  then have "chain (\<lambda>j. f_next (ftab ?s j)) (ffreelist s) xs \<longleftrightarrow> chain (\<lambda>j. f_next (ftab s j)) (ffreelist s) xs"
    by (intro path_cong) (auto simp: free_file_def)
  then have "chain (\<lambda>j. f_next (ftab ?s j)) (f_next (ftab ?s k)) xs" using xs(1) by (simp add: free_file_def)
  then have "chain (\<lambda>j. f_next (ftab ?s j)) (ffreelist ?s) (k # xs)" by (simp add: free_file_def)
  moreover have "set (k # xs) = {j. j < v_file ?s \<and> f_count (ftab ?s j) = 0}" using xs(2) c by (auto simp: free_file_def)
  moreover have "unat (f_count (ftab ?s j)) = refs ?s j + count_list (remove1 k cl) j" if "j < v_file ?s" for j
  proof -
    have "refset ?s j = refset s j" by (simp add: free_file_def refset_def)
    then show ?thesis using that files_okD(4) [OF F, of j] r cnt [of j] by (simp add: free_file_def)
  qed
  moreover have "\<exists>m < v_inode (tab ?s). f_up (ftab ?s j) = Uinode m" if "j < v_file ?s" "f_count (ftab ?s j) \<noteq> 0" for j
    using that files_okD(3) [OF F, of j] by (cases "j = k") (auto simp: free_file_def)
  moreover have "j < v_file ?s \<and> f_count (ftab ?s j) = 1" if "j \<in> set (remove1 k cl)" for j
    using files_okD(5) [OF F, of j] that sub by (auto simp: free_file_def)
  moreover have "u_ofile ?s a b = Some j \<Longrightarrow> a < np \<and> b < NOFILE \<and> j < v_file ?s" for a b j
    using files_okD(6) [OF F, of a b j] by (auto simp: free_file_def)
  ultimately show "files_ok np ?s (remove1 k cl)" unfolding files_ok_def using files_okD(1) [OF F] by blast
  show "userset ?s i = userset s i - {k}" by (auto simp: userset_def free_file_def split: if_splits)
  show "\<exists>i < v_inode (tab s). f_up (ftab s k) = Uinode i \<and> k \<in> userset s i \<and> (\<forall>j. j \<noteq> i \<longrightarrow> k \<notin> userset s j)"
    using files_okD(3) [OF F c(1)] c by (auto simp: userset_def)
qed


section \<open>The references of the inodes\<close>

text \<open>\<open>h\<close>: the references of each inode that are held elsewhere.\<close>

definition sound :: "nat \<Rightarrow> ofs \<Rightarrow> (nat \<Rightarrow> nat) \<Rightarrow> nat list \<Rightarrow> bool" where
  "sound np s h cl \<longleftrightarrow> files_ok np s cl \<and> (\<forall>i < v_inode (tab s). unat (i_count (inodes (tab s) i)) = users s i + h i)"

definition same_counts :: "itab \<Rightarrow> itab \<Rightarrow> bool" where
  "same_counts t t' \<longleftrightarrow> v_inode t' = v_inode t \<and> (\<forall>j < v_inode t. i_count (inodes t' j) = i_count (inodes t j))"

lemma same_counts_trans: "same_counts t t' \<Longrightarrow> same_counts t' t'' \<Longrightarrow> same_counts t t''"
  by (simp add: same_counts_def)

lemma same_counts_simps [simp]:
  "same_counts t t" "same_counts t (prele i t)" "same_counts t (t\<lparr>ierror := e\<rparr>)" "same_counts t (want i t)" "same_counts t (with_fs dev f t)"
  by (simp_all add: same_counts_def want_def iupd_def with_fs_def)

lemma same_counts_iupd: "i_count (g (inodes t i)) = i_count (inodes t i) \<Longrightarrow> same_counts t (iupd i g t)"
  by (simp add: same_counts_def iupd_def)

lemma same_counts_touches: "touches B i t t' \<Longrightarrow> same_counts t t'"
  unfolding same_counts_def touches_def by (metis fun_upd_apply)

lemma plock_counts: "plock i t = (r, t') \<Longrightarrow> same_counts t t'"
  by (auto simp: plock_def intro: same_counts_iupd split: if_splits)

lemma userset_finite [simp]: "finite (userset s i)"
  by (simp add: userset_def)

lemma on_tab_fields [simp]:
  "ftab (on_tab g s) = ftab s" "v_file (on_tab g s) = v_file s" "ffreelist (on_tab g s) = ffreelist s" "u_ofile (on_tab g s) = u_ofile s" "tab (on_tab g s) = g (tab s)"
  by (simp_all add: on_tab_def)

lemma of_error_fields [simp]:
  "ftab (of_error e s) = ftab s" "v_file (of_error e s) = v_file s" "ffreelist (of_error e s) = ffreelist s" "u_ofile (of_error e s) = u_ofile s"
  "tab (of_error e s) = (tab s)\<lparr>ierror := Some e\<rparr>"
  by (simp_all add: of_error_def)

text \<open>Steps that leave the entries and all counts as they are.\<close>

lemma sound_cong:
  assumes "sound np s h cl" "ftab s' = ftab s" "v_file s' = v_file s" "ffreelist s' = ffreelist s" "u_ofile s' = u_ofile s" "same_counts (tab s) (tab s')"
  shows "sound np s' h cl"
  using assms files_cong [of np s cl s'] userset_cong [of s' s] by (simp add: sound_def same_counts_def)

lemma sound_iput:
  assumes F: "files_ok np s cl" and i: "i < v_inode (tab s)" "i_count (inodes (tab s) i) \<noteq> 0"
    and c: "\<forall>j < v_inode (tab s). unat (i_count (inodes (tab s) j)) = users s j + h j + of_bool (j = i)"
  shows "sound np (on_tab (iput i) s) h cl"
proof -
  obtain ip where E: "v_inode (iput i (tab s)) = v_inode (tab s)" "inodes (iput i (tab s)) = (inodes (tab s))(i := ip)" "i_count ip = i_count (inodes (tab s) i) - 1"
    using iput_effect [of i "tab s"] by blast
  have "1 \<le> i_count (inodes (tab s) i)" using i(2) by (simp add: word_le_nat_alt Suc_le_eq unat_gt_0)
  then have u: "unat (i_count ip) = unat (i_count (inodes (tab s) i)) - 1" using E(3) unat_minus_small [of 1 "i_count (inodes (tab s) i)"] by (simp del: One_nat_def)
  have "files_ok np (on_tab (iput i) s) cl" by (rule files_cong [OF F]) (simp_all add: E(1))
  moreover have "users (on_tab (iput i) s) j = users s j" for j by (simp add: userset_cong [of "on_tab (iput i) s" s])
  ultimately show ?thesis using c u by (auto simp: sound_def E)
qed

lemma sound_put:
  assumes S: "sound np s h cl" and i: "i < v_inode (tab s)" "0 < h i" shows "sound np (on_tab (iput i) s) (h(i := h i - 1)) cl"
proof -
  have F: "files_ok np s cl" and C: "\<forall>j < v_inode (tab s). unat (i_count (inodes (tab s) j)) = users s j + h j" using S by (simp_all add: sound_def)
  have "unat (i_count (inodes (tab s) i)) \<noteq> 0" using C i by simp
  then have "i_count (inodes (tab s) i) \<noteq> 0" by auto
  then show ?thesis by (rule sound_iput [OF F i(1)]) (use C i in auto)
qed

lemma getf_cases:
  "getf p f s = (r, s') \<Longrightarrow> (r = None \<and> s' = of_error EBADF s) \<or> (s' = s \<and> (\<exists>k. r = Some k \<and> u_ofile s p (unat f) = Some k))"
  by (auto simp: getf_def split: if_splits option.splits)

lemma ufalloc_cases:
  assumes "ufalloc p i s = (r, s')"
  shows "ftab s' = ftab s \<and> v_file s' = v_file s \<and> ffreelist s' = ffreelist s \<and> u_ofile s' = u_ofile s \<and> same_counts (tab s) (tab s') \<and>
    (\<forall>d. r = Some d \<longrightarrow> u_ofile s p d = None \<and> d < NOFILE \<and> tab s' = tab s)"
proof (cases "List.find (\<lambda>d. u_ofile s p d = None) [i..<NOFILE]")
  case None
  then show ?thesis using assms by (auto simp: ufalloc_def)
next
  case (Some d)
  then have d: "u_ofile s p d = None" "d < NOFILE" by (auto simp: find_Some_iff)
  have "r = Some d" "s' = s\<lparr>u_pofile := (u_pofile s)(p := (u_pofile s p)(d := 0))\<rparr>" using assms Some by (simp_all add: ufalloc_def)
  then show ?thesis using d by simp
qed

lemma falloc_ok:
  assumes F: "files_ok np s cl" and p: "p < np" and i: "i < v_inode (tab s)" and e: "falloc p i fl s = (r, s')"
  shows "files_ok np s' cl" "same_counts (tab s) (tab s')"
    "r = None \<Longrightarrow> userset s' j = userset s j"
    "r = Some (k, d) \<Longrightarrow> userset s' j = (if j = i then insert k (userset s j) else userset s j) \<and> k \<notin> userset s i \<and> k \<notin> userset s j \<and>
       u_ofile s p d = None \<and> u_ofile s' p d = Some k \<and> f_count (ftab s' k) = 1 \<and> tab s' = tab s"
proof -
  obtain v t where u: "ufalloc p 0 s = (v, t)" by fastforce
  note U = ufalloc_cases [OF u]
  have T: "files_ok np t cl" by (rule files_cong [OF F]) (use U in \<open>simp_all add: same_counts_def\<close>)
  have ut: "userset t j = userset s j" for j by (rule userset_cong) (use U in simp_all)
  have "files_ok np s' cl \<and> same_counts (tab s) (tab s') \<and> (r = None \<longrightarrow> userset s' j = userset s j) \<and>
    (r = Some (k, d) \<longrightarrow> userset s' j = (if j = i then insert k (userset s j) else userset s j) \<and> k \<notin> userset s i \<and> k \<notin> userset s j \<and>
       u_ofile s p d = None \<and> u_ofile s' p d = Some k \<and> f_count (ftab s' k) = 1 \<and> tab s' = tab s)"
  proof (cases v)
    case None
    then show ?thesis using e u T U ut by (simp add: falloc_def)
  next
    case (Some e')
    then have n: "u_ofile t p e' = None" "e' < NOFILE" using U by simp_all
    have it: "i < v_inode (tab t)" using i U by (simp add: same_counts_def)
    show ?thesis
    proof (cases "ffreelist t")
      case None
      then have r: "r = None" "s' = of_error ENFILE t" using e u Some by (simp_all add: falloc_def)
      have "files_ok np s' cl" by (rule files_cong [OF T]) (simp_all add: r)
      moreover have "userset s' j = userset t j" by (rule userset_cong) (simp_all add: r)
      ultimately show ?thesis using r U ut by (auto simp: intro: same_counts_trans)
    next
      case (Some k')
      note N = files_new [OF T n(1) p n(2) Some it]
      have r: "r = Some (k', e')" "s' = fupd k' (\<lambda>f. f\<lparr>f_count := f_count f + 1, f_up := Uinode i, f_flag := fl, f_offset := 0\<rparr>)
          (set_ofile p e' (Some k') (t\<lparr>ffreelist := f_next (ftab t k')\<rparr>))"
        using e u Some \<open>v = Some e'\<close> by (simp_all add: falloc_def)
      have tt: "tab s' = tab t" "tab t = tab s" using U \<open>v = Some e'\<close> by (simp_all add: r(2))
      have "u_ofile s' p e' = Some k'" "f_count (ftab s' k') = 1" using N(5) by (simp_all add: r(2) set_ofile_def)
      moreover have "files_ok np s' cl" "userset s' j = (if j = i then insert k' (userset t j) else userset t j)"
        unfolding r(2) by (fact N(1), fact N(2))
      moreover have "k' \<notin> userset t m" for m using N(5) by (simp add: userset_def)
      ultimately show ?thesis using r(1) tt U ut n(1) by auto
    qed
  qed
  then show "files_ok np s' cl" "same_counts (tab s) (tab s')" "r = None \<Longrightarrow> userset s' j = userset s j"
    "r = Some (k, d) \<Longrightarrow> userset s' j = (if j = i then insert k (userset s j) else userset s j) \<and> k \<notin> userset s i \<and> k \<notin> userset s j \<and>
       u_ofile s p d = None \<and> u_ofile s' p d = Some k \<and> f_count (ftab s' k) = 1 \<and> tab s' = tab s" by blast+
qed

text \<open>Giving up an entry that has just been made.\<close>

lemma files_undo:
  assumes F: "files_ok np s cl" and o: "u_ofile s p d = Some k" "f_count (ftab s k) = 1"
  shows "files_ok np (free_file k (set_ofile p d None s)) cl" "userset (free_file k (set_ofile p d None s)) i = userset s i - {k}"
proof -
  have L: "files_ok np (set_ofile p d None s) (k # cl)" "userset (set_ofile p d None s) i = userset s i"
    using files_last [OF F o(1)] o(2) by simp_all
  show "files_ok np (free_file k (set_ofile p d None s)) cl" "userset (free_file k (set_ofile p d None s)) i = userset s i - {k}"
    using files_free(1,2) [OF L(1), of k] L(2) by simp_all
qed

lemma openp_count: "openp m ip = (e, ev, ip') \<Longrightarrow> i_count ip' = i_count ip"
  by (auto simp: openp_def split: if_splits prod.splits)

lemma openi_count: "openi sw m ip = (e, ev, ip') \<Longrightarrow> i_count ip' = i_count ip"
  by (auto simp: openi_def Let_def openp_count split: if_splits)

lemma copen_dev_keeps:
  assumes "copen_dev sw i m s = (ev, s')"
  shows "ftab s' = ftab s" "v_file s' = v_file s" "ffreelist s' = ffreelist s" "u_ofile s' = u_ofile s" "same_counts (tab s) (tab s')"
proof -
  let ?s1 = "if m AND FTRUNC \<noteq> 0 then on_tab (itrunc_tab i) s else s" let ?s2 = "on_tab (prele i) ?s1"
  obtain er e2 ip where op: "openi sw m (inodes (tab ?s2) i) = (er, e2, ip)" by (metis prod.collapse)
  let ?s3 = "on_tab (iupd i (\<lambda>_. ip)) ?s2"
  have s': "s' = (case er of None \<Rightarrow> ?s3 | Some x \<Rightarrow> of_error x ?s3)" using assms op by (simp add: copen_dev_def Let_def)
  have "same_counts (tab s) (tab ?s1)" using same_counts_touches [OF touches_itrunc] by simp
  then have c2: "same_counts (tab s) (tab ?s2)" by (rule same_counts_trans) simp
  have "same_counts (tab s) (tab ?s3)"
    using same_counts_trans [OF c2 same_counts_iupd [of "\<lambda>_. ip" "tab ?s2" i]] openi_count [OF op] by simp
  then show "same_counts (tab s) (tab s')" unfolding s' by (cases er) (simp, erule same_counts_trans, simp)
  show "ftab s' = ftab s" "v_file s' = v_file s" "ffreelist s' = ffreelist s" "u_ofile s' = u_ofile s" unfolding s' by (cases er; simp)+
qed

lemma copen_undo_eq:
  assumes "f_count (ftab s k) = 1" shows "copen_undo p k d i s = on_tab (iput i) (free_file k (set_ofile p d None s))"
  using assms by (simp add: copen_undo_def free_file_def fupd_def Let_def)

lemma copen_end_ok:
  assumes S: "sound np s h cl" and p: "p < np" and i: "i < v_inode (tab s)" "0 < h i" and e: "copen_end sw p i m s = (r, ev, s')"
  shows "sound np s' (h(i := h i - 1)) cl"
proof -
  have F: "files_ok np s cl" and C: "\<forall>j < v_inode (tab s). unat (i_count (inodes (tab s) j)) = users s j + h j" using S by (simp_all add: sound_def)
  let ?h = "h(i := h i - 1)"
  have "unat (i_count (inodes (tab s) i)) \<noteq> 0" using C i by simp
  then have nz: "i_count (inodes (tab s) i) \<noteq> 0" by auto
  show ?thesis
  proof (cases "ierror (tab s) = None")
    case False
    then have "s' = on_tab (iput i) s" using e by (simp add: copen_end_def)
    then show ?thesis using sound_put [OF S i] by simp
  next
    case noerr: True
    obtain v t where f: "falloc p i (ucast (m AND FMASK)) s = (v, t)" by fastforce
    note A = falloc_ok [OF F p i(1) f]
    have vt: "v_inode (tab t) = v_inode (tab s)" "\<And>j. j < v_inode (tab s) \<Longrightarrow> i_count (inodes (tab t) j) = i_count (inodes (tab s) j)"
      using A(2) by (simp_all add: same_counts_def)
    show ?thesis
    proof (cases v)
      case None
      then have s': "s' = on_tab (iput i) t" using e f noerr by (simp add: copen_end_def)
      show ?thesis unfolding s'
      proof (rule sound_iput [OF A(1)])
        show "i < v_inode (tab t)" "i_count (inodes (tab t) i) \<noteq> 0" using i nz vt by simp_all
        show "\<forall>j < v_inode (tab t). unat (i_count (inodes (tab t) j)) = users t j + ?h j + of_bool (j = i)"
          using C vt i(2) A(3) None by simp
      qed
    next
      case (Some kd)
      obtain k d where kd: "kd = (k, d)" by fastforce
      note G = A(4) [of k d, unfolded Some kd, OF refl]
      obtain e2 w where w: "copen_dev sw i m t = (e2, w)" by fastforce
      note K = copen_dev_keeps [OF w]
      have Fw: "files_ok np w cl" by (rule files_cong [OF A(1) K(1-4)]) (use K(5) in \<open>simp add: same_counts_def\<close>)
      have uw: "userset w j = userset t j" for j by (rule userset_cong [OF K(1,2)])
      have vw: "v_inode (tab w) = v_inode (tab s)" "\<And>j. j < v_inode (tab s) \<Longrightarrow> i_count (inodes (tab w) j) = i_count (inodes (tab s) j)"
        using K(5) vt by (simp_all add: same_counts_def)
      show ?thesis
      proof (cases "ierror (tab w) = None")
        case True
        then have "s' = w" using e f noerr Some kd w by (simp add: copen_end_def)
        moreover have "users w j = users s j + of_bool (j = i)" for j using A(4) [of k d j] Some kd uw by simp
        ultimately show ?thesis using Fw C vw i(2) by (auto simp: sound_def)
      next
        case False
        let ?z = "free_file k (set_ofile p d None w)"
        have ok: "u_ofile w p d = Some k" "f_count (ftab w k) = 1" using G K by simp_all
        note Z = files_undo [OF Fw ok]
        have s': "s' = on_tab (iput i) ?z" using e f noerr Some kd w False copen_undo_eq [OF ok(2)] by (simp add: copen_end_def)
        have tz: "tab ?z = tab w" by (simp add: free_file_def)
        have uz: "users ?z j = users s j" for j
        proof -
          have "userset ?z j = userset s j"
            using Z(2) [of j] uw [of j] A(4) [of k d j] Some kd by (cases "j = i") auto
          then show ?thesis by simp
        qed
        show ?thesis unfolding s'
        proof (rule sound_iput [OF Z(1)])
          show "i < v_inode (tab ?z)" "i_count (inodes (tab ?z) i) \<noteq> 0" unfolding tz using i vw nz by simp_all
          show "\<forall>j < v_inode (tab ?z). unat (i_count (inodes (tab ?z) j)) = users ?z j + ?h j + of_bool (j = i)"
            unfolding tz vw(1) uz using C vw(2) i(2) by simp
        qed
      qed
    qed
  qed
qed

section \<open>Descriptors\<close>

lemma dup_ok:
  assumes S: "sound np s h cl" and p: "p < np" and u: "ufalloc p i s = (v, t)" and o: "u_ofile s q f = Some k"
  shows "sound np (case v of None \<Rightarrow> t | Some d \<Rightarrow> fupd k (\<lambda>f. f\<lparr>f_count := f_count f + 1\<rparr>) (set_ofile p d (Some k) t)) h cl"
proof -
  note U = ufalloc_cases [OF u]
  have T: "sound np t h cl" by (rule sound_cong [OF S]) (use U in simp_all)
  show ?thesis
  proof (cases v)
    case (Some d)
    have Ft: "files_ok np t cl" using T by (simp add: sound_def)
    have ot: "u_ofile t q f = Some k" "u_ofile t p d = None" "d < NOFILE" using o U Some by simp_all
    note H = files_share [OF Ft ot(2) p ot(3) ot(1)]
    show ?thesis using H T by (simp add: sound_def Some)
  qed (use T in simp)
qed

lemma dup_sound: "sound np s h cl \<Longrightarrow> p < np \<Longrightarrow> dup p f s = (r, s') \<Longrightarrow> sound np s' h cl"
proof -
  assume S: "sound np s h cl" and p: "p < np" and e: "dup p f s = (r, s')"
  obtain v t where g: "getf p f s = (v, t)" by fastforce
  from getf_cases [OF g] show ?thesis
  proof (elim disjE conjE exE)
    assume "v = None" "t = of_error EBADF s"
    then have "s' = of_error EBADF s" using e g by (simp add: dup_def)
    then show ?thesis using sound_cong [OF S, of s'] by simp
  next
    fix k assume k: "t = s" "v = Some k" "u_ofile s p (unat f) = Some k"
    obtain w x where u: "ufalloc p 0 s = (w, x)" by fastforce
    have "s' = (case w of None \<Rightarrow> x | Some d \<Rightarrow> fupd k (\<lambda>f. f\<lparr>f_count := f_count f + 1\<rparr>) (set_ofile p d (Some k) x))"
      using e g k u by (cases w) (auto simp: dup_def)
    then show ?thesis using dup_ok [OF S p u k(3)] by simp
  qed
qed

lemma dupfd_sound: "sound np s h cl \<Longrightarrow> p < np \<Longrightarrow> dupfd p f i s = (r, s') \<Longrightarrow> sound np s' h cl"
proof -
  assume S: "sound np s h cl" and p: "p < np" and e: "dupfd p f i s = (r, s')"
  obtain v t where g: "getf p f s = (v, t)" by fastforce
  from getf_cases [OF g] show ?thesis
  proof (elim disjE conjE exE)
    assume "v = None" "t = of_error EBADF s"
    then have "s' = of_error EBADF s" using e g by (simp add: dupfd_def)
    then show ?thesis using sound_cong [OF S, of s'] by simp
  next
    fix k assume k: "t = s" "v = Some k" "u_ofile s p (unat f) = Some k"
    show ?thesis
    proof (cases "i <s 0 \<or> of_nat NOFILE <s i")
      case True
      then have "s' = of_error EINVAL s" using e g k by (simp add: dupfd_def)
      then show ?thesis using sound_cong [OF S, of s'] by simp
    next
      case False
      obtain w x where u: "ufalloc p (unat i) s = (w, x)" by fastforce
      have "s' = (case w of None \<Rightarrow> x | Some d \<Rightarrow> fupd k (\<lambda>f. f\<lparr>f_count := f_count f + 1\<rparr>) (set_ofile p d (Some k) x))"
        using e g k u False by (cases w) (auto simp: dupfd_def)
      then show ?thesis using dup_ok [OF S p u k(3)] by simp
    qed
  qed
qed

text \<open>The child's descriptors, one after the other.\<close>

definition give :: "nat \<Rightarrow> nat \<Rightarrow> nat \<Rightarrow> ofs \<Rightarrow> ofs" where
  "give p c d s = (case u_ofile s p d of None \<Rightarrow> s | Some k \<Rightarrow> fupd k (\<lambda>f. f\<lparr>f_count := f_count f + 1\<rparr>) (set_ofile c d (Some k) s))"

lemma give_sound:
  assumes S: "sound np s h cl" and c: "c < np" "d < NOFILE" "u_ofile s c d = None" shows "sound np (give p c d s) h cl"
proof (cases "u_ofile s p d")
  case (Some k)
  have F: "files_ok np s cl" using S by (simp add: sound_def)
  show ?thesis using files_share [OF F c(3,1,2) Some] S by (simp add: give_def sound_def Some)
qed (use S in \<open>simp add: give_def\<close>)

lemma gives:
  assumes S: "sound np s h cl" and c: "c < np" "p \<noteq> c" "\<forall>d. u_ofile s c d = None"
  shows "n \<le> NOFILE \<Longrightarrow> sound np (fold (give p c) [0..<n] s) h cl \<and>
    fold (give p c) [0..<n] s = (fold (\<lambda>d s. share (u_ofile s p d) s) [0..<n] s)\<lparr>u_ofile := (u_ofile s)(c := (\<lambda>d. if d < n then u_ofile s p d else None))\<rparr> \<and>
    u_ofile (fold (\<lambda>d s. share (u_ofile s p d) s) [0..<n] s) = u_ofile s"
proof (induction n)
  case 0
  have "(u_ofile s)(c := (\<lambda>d. None)) = u_ofile s" using c(3) by (auto simp: fun_eq_iff)
  then show ?case using S by simp
next
  case (Suc n)
  define g where "g = fold (give p c) [0..<n] s"
  define v where "v = fold (\<lambda>d s. share (u_ofile s p d) s) [0..<n] s"
  have n: "n \<le> NOFILE" using Suc.prems by simp
  note J = Suc.IH [OF n, folded g_def v_def]
  note I = conjunct1 [OF J] conjunct1 [OF conjunct2 [OF J]] conjunct2 [OF conjunct2 [OF J]]
  have e: "fold (give p c) [0..<Suc n] s = give p c n g" "fold (\<lambda>d s. share (u_ofile s p d) s) [0..<Suc n] s = share (u_ofile v p n) v"
    by (simp_all add: g_def v_def)
  have ug: "u_ofile g = (u_ofile s)(c := (\<lambda>d. if d < n then u_ofile s p d else None))" unfolding I(2) by simp
  have "sound np (give p c n g) h cl" by (rule give_sound [OF I(1) c(1)]) (use Suc.prems ug in simp_all)
  moreover have "give p c n g = (share (u_ofile v p n) v)\<lparr>u_ofile := (u_ofile s)(c := (\<lambda>d. if d < Suc n then u_ofile s p d else None))\<rparr>"
  proof (cases "u_ofile s p n")
    case None
    have "(\<lambda>d. if d < n then u_ofile s p d else None) = (\<lambda>d. if d < Suc n then u_ofile s p d else None)" using None by (auto simp: fun_eq_iff less_Suc_eq)
    then show ?thesis using None I(2,3) c(2) ug by (simp add: give_def share_def)
  next
    case (Some k)
    have "(\<lambda>d. if d < n then u_ofile s p d else None)(n := Some k) = (\<lambda>d. if d < Suc n then u_ofile s p d else None)" using Some by (auto simp: fun_eq_iff less_Suc_eq)
    then show ?thesis using Some I(2,3) c(2) ug by (simp add: give_def share_def set_ofile_def fupd_def)
  qed
  moreover have "u_ofile (share x t) = u_ofile t" for x t by (cases x) (simp_all add: share_def)
  ultimately show ?case unfolding e using I(3) by metis
qed

lemma newproc_sound:
  assumes S: "sound np s h cl" and c: "c < np" "p \<noteq> c" "\<forall>d. u_ofile s c d = None" shows "sound np (newproc_files p c s) h cl"
proof -
  let ?f = "fold (\<lambda>d s. share (u_ofile s p d) s) [0..<NOFILE] s"
  have F: "files_ok np s cl" using S by (simp add: sound_def)
  note J = gives [OF assms order_refl]
  have G: "sound np (?f\<lparr>u_ofile := (u_ofile s)(c := (\<lambda>d. if d < NOFILE then u_ofile s p d else None))\<rparr>) h cl"
    using conjunct1 [OF J] unfolding conjunct1 [OF conjunct2 [OF J]] .
  have "(\<lambda>d. if d < NOFILE then u_ofile s p d else None) = u_ofile s p"
  proof
    fix d show "(if d < NOFILE then u_ofile s p d else None) = u_ofile s p d"
      using files_okD(6) [OF F, of p d] by (cases "u_ofile s p d") auto
  qed
  then show ?thesis using sound_cong [OF G, of "newproc_files p c s"] conjunct2 [OF conjunct2 [OF J]] by (simp add: newproc_files_def Let_def)
qed

section \<open>Closing\<close>

lemma closep_block_count: "i_count (fst (fold closep_block xs (ip, f))) = i_count ip"
  by (induction xs arbitrary: ip f) (auto simp: closep_block_def)

lemma closep_count: "closep m ip f = (ev, ip', f') \<Longrightarrow> i_count ip' = i_count ip"
proof -
  assume e: "closep m ip f = (ev, ip', f')"
  have b: "fold closep_block xs (jp, g) = (kp, g') \<Longrightarrow> i_count kp = i_count jp" for xs jp g kp g'
    using closep_block_count [of xs jp g] by simp
  show ?thesis using e unfolding closep_def Let_def
    by (auto simp: set_f_def Let_def dest!: b split: if_splits prod.splits)
qed

lemma closep_tab_counts: "closep_tab m i t = (ev, t') \<Longrightarrow> same_counts t t'"
  by (auto simp: closep_tab_def Let_def same_counts_def with_fs_def iupd_def closep_count split: prod.splits)

lemma closef_last_ok:
  assumes S: "sound np s h cl" and k: "k \<in> set cl" and e: "closef_last k s = (r, ev, s')"
  shows "sound np s' h (if r = ISleep then cl else remove1 k cl)"
proof -
  have F: "files_ok np s cl" and C: "\<forall>j < v_inode (tab s). unat (i_count (inodes (tab s) j)) = users s j + h j" using S by (simp_all add: sound_def)
  note Z = files_free [OF F k]
  then obtain i where i: "i < v_inode (tab s)" "f_up (ftab s k) = Uinode i" "k \<in> userset s i" "\<forall>j. j \<noteq> i \<longrightarrow> k \<notin> userset s j" by blast
  have fi: "f_inode (ftab s k) = i" using i(2) by (simp add: f_inode_def)
  obtain r1 t where pl: "plock i (tab s) = (r1, t)" by fastforce
  note sc = plock_counts [OF pl]
  show ?thesis
  proof (cases "r1 = IGot ()")
    case False
    then have r: "r = ISleep" "s' = s\<lparr>tab := t\<rparr>" using e fi pl by (simp_all add: closef_last_def Let_def split: ires.splits)
    show ?thesis using sound_cong [OF S, of s'] r sc by simp
  next
    case True
    let ?s = "free_file k (s\<lparr>tab := t\<rparr>)"
    have fs: "ftab ?s = ftab (free_file k s)" "v_file ?s = v_file (free_file k s)" "ffreelist ?s = ffreelist (free_file k s)" "u_ofile ?s = u_ofile (free_file k s)" "tab ?s = t"
      by (simp_all add: free_file_def fupd_def)
    have vt: "v_inode t = v_inode (tab s)" "\<And>j. j < v_inode t \<Longrightarrow> i_count (inodes t j) = i_count (inodes (tab s) j)" using sc by (simp_all add: same_counts_def)
    have main: "sound np (on_tab (iput i) (?s\<lparr>tab := t'\<rparr>)) h (remove1 k cl)" if t': "same_counts t t'" for t'
    proof -
      let ?y = "?s\<lparr>tab := t'\<rparr>"
      have vv: "v_inode t' = v_inode (tab s)" "\<And>j. j < v_inode (tab s) \<Longrightarrow> i_count (inodes t' j) = i_count (inodes (tab s) j)" using t' vt by (simp_all add: same_counts_def)
      have Fy: "files_ok np ?y (remove1 k cl)" by (rule files_cong [OF Z(1)]) (use vv fs in \<open>simp_all add: free_file_def\<close>)
      have uy: "users ?y j + of_bool (j = i) = users s j" for j
      proof -
        have "userset ?y j = userset s j - {k}" using Z(2) [of j] userset_cong [of ?y "free_file k s" j] fs by simp
        then show ?thesis using i(3,4) card_Suc_Diff1 [OF userset_finite i(3)] by (cases "j = i") simp_all
      qed
      have "0 < users s i" using i(3) card_gt_0_iff [of "userset s i"] by auto
      moreover have "unat (i_count (inodes (tab s) i)) = users s i + h i" using C i(1) by blast
      ultimately have "unat (i_count (inodes (tab s) i)) \<noteq> 0" by linarith
      then have nz: "i_count (inodes (tab s) i) \<noteq> 0" by auto
      show ?thesis
      proof (rule sound_iput [OF Fy])
        show "i < v_inode (tab ?y)" "i_count (inodes (tab ?y) i) \<noteq> 0" using i(1) nz vv by simp_all
        show "\<forall>j < v_inode (tab ?y). unat (i_count (inodes (tab ?y) j)) = users ?y j + h j + of_bool (j = i)"
          using C vv uy by (auto simp: algebra_simps)
      qed
    qed
    let ?fl = "f_flag (ftab s k)"
    obtain e2 t2 where cp: "closep_tab (scast ?fl) i t = (e2, t2)" by fastforce
    have "\<exists>t'. same_counts t t' \<and> r = IGot () \<and> s' = on_tab (iput i) (?s\<lparr>tab := t'\<rparr>)"
    proof -
      have a: "on_tab (iput i) ?s = on_tab (iput i) (?s\<lparr>tab := t\<rparr>)" using fs by (simp add: on_tab_def)
      have b: "on_tab (iput i) (on_tab (prele i) ?s) = on_tab (iput i) (?s\<lparr>tab := prele i t\<rparr>)" using fs by (simp add: on_tab_def)
      have c: "?s\<lparr>tab := iput i t2\<rparr> = on_tab (iput i) (?s\<lparr>tab := t2\<rparr>)" by (simp add: on_tab_def)
      have "same_counts t t2" by (rule closep_tab_counts [OF cp])
      then show ?thesis using e True unfolding closef_last_def Let_def fi pl
        by (auto simp: fs(5) cp a b c split: if_splits intro: exI [of _ t] exI [of _ t2] exI [of _ "prele i t"])
    qed
    then show ?thesis using main by auto
  qed
qed

lemma closef_ok:
  assumes S: "sound np s h cl" and o: "u_ofile s p d = Some k" and e: "closef k (set_ofile p d None s) = (r, ev, s')"
  shows "sound np s' h (if r = ISleep then k # cl else cl)"
proof -
  have F: "files_ok np s cl" and C: "\<forall>j < v_inode (tab s). unat (i_count (inodes (tab s) j)) = users s j + h j" using S by (simp_all add: sound_def)
  show ?thesis
  proof (cases "1 < f_count (ftab s k)")
    case True
    then have r: "r = IGot ()" "s' = fupd k (\<lambda>f. f\<lparr>f_count := f_count f - 1\<rparr>) (set_ofile p d None s)" using e by (simp_all add: closef_def)
    have "files_ok np s' cl" "userset s' j = userset s j" for j unfolding r(2) by (fact files_unshare [OF F o True])+
    then show ?thesis using C r by (simp add: sound_def)
  next
    case False
    note L = files_last [OF F o False]
    have S': "sound np (set_ofile p d None s) h (k # cl)" using L C by (simp add: sound_def)
    obtain ev' where "closef_last k (set_ofile p d None s) = (r, ev', s')" using e False by (auto simp: closef_def split: prod.splits)
    from closef_last_ok [OF S' _ this] show ?thesis by (cases "r = ISleep") simp_all
  qed
qed

end
