(* ===== verification/Open_Use.thy ===== *)
theory Open_Use
  imports Open_Runs
begin

text \<open>
  The table of open files in use: all calls keep the counts; reading, writing and seeking through a
  descriptor; the last close of a pipe.
\<close>

section \<open>Transfers keep the references of an inode\<close>

lemma bmap_part_icount: "bmap_part mnt rf ip u = (q, bn, ra, jp, v) \<Longrightarrow> i_count jp = i_count ip"
proof -
  have p: "fst (snd (snd (snd (if c then x else y)))) = (if c then fst (snd (snd (snd x))) else fst (snd (snd (snd y))))" for c x y by simp
  have i: "i_count (if c then a else b) = (if c then i_count a else i_count b)" for c a b by simp
  have "i_count (fst (snd (snd (snd (bmap_part mnt rf ip u))))) = i_count ip"
    unfolding bmap_part_def Let_def by (simp only: p i fst_conv snd_conv if_cancel) simp
  then show "bmap_part mnt rf ip u = (q, bn, ra, jp, v) \<Longrightarrow> i_count jp = i_count ip" by simp
qed

lemma bmap_top_icount: "bmap_top rf k ip f = (r, jp, g) \<Longrightarrow> i_count jp = i_count ip"
  by (auto simp: bmap_top_def Let_def split: if_splits prod.splits bmap_reply.splits)

lemma bmap_icount:
  assumes "bmap mnt rf ip u f = (r, ip', u', f')" shows "i_count ip' = i_count ip"
proof -
  obtain q bn ra jp v where p: "bmap_part mnt rf ip u = (q, bn, ra, jp, v)" by (metis prod.collapse)
  have D: "i_count b = i_count jp" if "bmap_direct rf ra j jp v f = (x, b, w, g)" for j b x w g
  proof -
    obtain y c k where t: "bmap_top rf j jp f = (y, c, k)" by (metis prod.collapse)
    show ?thesis using that bmap_top_icount [OF t] unfolding bmap_direct_def t by (cases y) auto
  qed
  have I: "i_count b = i_count jp" if "bmap_indirect rf ra j bm jp v f = (x, b, w, g)" for j bm b x w g
  proof -
    obtain y c k where t: "bmap_top rf (NADDR - j) jp f = (y, c, k)" by (metis prod.collapse)
    show ?thesis
    proof (cases y)
      case (Blk nb)
      obtain z ap m l where w: "bmap_walk rf bm (4 - j) nb (0, 0) k = (z, (ap, m), l)" by (metis prod.collapse)
      show ?thesis using that bmap_top_icount [OF t] unfolding bmap_indirect_def t Blk using w by (cases z) simp_all
    qed (use that bmap_top_icount [OF t] in \<open>simp_all add: bmap_indirect_def t\<close>)
  qed
  have "i_count ip' = i_count jp"
  proof (cases q)
    case None
    show ?thesis using assms D I unfolding bmap_def p None by (simp split: if_splits option.splits prod.splits)
  qed (use assms in \<open>simp add: bmap_def p\<close>)
  then show ?thesis using bmap_part_icount [OF p] by simp
qed

lemma read_put_icount: "read_put dv bn u n fz ip us = (go, ip', us', fz') \<Longrightarrow> i_count ip' = i_count ip"
  by (cases "i_mode ip AND IFMT = IFIFO") (auto simp: read_put_def Let_def)

lemma read_once_icount:
  assumes "read_once dv mnt fz ip us = (go, ip', us', fz')" shows "i_count ip' = i_count ip"
proof -
  obtain r jp u f where b: "bmap mnt True ip (uu us) (fz (i_dev ip)) = (r, jp, u, f)" by (metis prod.collapse)
  show ?thesis using assms bmap_icount [OF b] unfolding read_once_def b Let_def
    by (auto dest: read_put_icount split: if_splits prod.splits)
qed

lemma read_loop_icount: "read_loop dv mnt fz ip us = (ip', us', fz') \<Longrightarrow> i_count ip' = i_count ip"
proof (induction dv mnt fz ip us rule: read_loop.induct)
  case (1 dv mnt fz ip us)
  obtain go jp vs gs where w: "read_once dv mnt fz ip us = (go, jp, vs, gs)" by (metis prod.collapse)
  show ?case using 1(1) [OF w [symmetric] refl refl] 1(2) w read_once_icount [OF w] by (cases go) simp_all
qed

lemma set_f_icount [simp]: "i_count (ip_prele ip) = i_count ip"
  by (simp add: ip_prele_def)

lemma readi_icount: "readi dv mnt fz ip us = (e, ev, ip', us', fz') \<Longrightarrow> i_count ip' = i_count ip"
  by (auto simp: readi_def Let_def read_loop_icount simp del: read_loop.simps split: if_splits prod.splits)

lemma write_put_icount: "write_put dv bn dev n b ip us fz = (ip', us', fz') \<Longrightarrow> i_count ip' = i_count ip"
  by (auto simp: write_put_def Let_def split: if_splits)

lemma write_once_icount:
  assumes "write_once dv mnt ip us fz = (brk, ip', us', fz')" shows "i_count ip' = i_count ip"
proof -
  obtain r jp u f where b: "bmap mnt False ip (uu us) (fz (i_dev ip)) = (r, jp, u, f)" by (metis prod.collapse)
  show ?thesis using assms bmap_icount [OF b] unfolding write_once_def b Let_def
    by (auto dest: write_put_icount split: if_splits prod.splits)
qed

lemma write_loop_icount: "write_loop dv mnt ip us fz = (ip', us', fz') \<Longrightarrow> i_count ip' = i_count ip"
proof (induction dv mnt ip us fz rule: write_loop.induct)
  case (1 dv mnt ip us fz)
  show ?case
  proof (cases "u_err us = None \<and> u_count (uu us) \<noteq> 0")
    case True
    obtain brk jp vs gs where w: "write_once dv mnt ip us fz = (brk, jp, vs, gs)" by (metis prod.collapse)
    show ?thesis
    proof (cases "brk \<or> u_err vs \<noteq> None")
      case False
      then have l: "write_loop dv mnt jp vs gs = (ip', us', fz')" using 1(2) w True by simp
      from 1(1) [OF True w [symmetric] refl refl False l] show ?thesis using write_once_icount [OF w] by simp
    qed (use 1(2) w True write_once_icount [OF w] in auto)
  qed (use 1(2) in auto)
qed

lemma fifo_write_icount: "fifo_write k dv mnt ip us fz = (e, ev, ip', us', fz') \<Longrightarrow> i_count ip' = i_count ip"
proof (induction k arbitrary: ip us fz e ev ip' us' fz')
  case (Suc k)
  show ?case
  proof (cases "fifo_wait ip us")
    case (Room usave vs)
    show ?thesis
    proof (cases "i_frcnt ip = 0")
      case False
      obtain jp ws gs where l: "write_loop dv mnt ip (vs\<lparr>uu := (uu vs)\<lparr>u_offset := scast (i_fwptr ip)\<rparr>\<rparr>) fz = (jp, ws, gs)" by (metis prod.collapse)
      have c: "i_count (pass_end jp ws) = i_count ip" using write_loop_icount [OF l] by (simp add: pass_end_def Let_def)
      have "fifo_write (Suc k) dv mnt ip us fz =
        (let ev = (if i_fflag (set_f 22 (ucast (u_offset (uu ws))) jp) AND IFIR \<noteq> 0 then [WakeReaders] else [])
         in if u_err ws = None \<and> usave \<noteq> 0
            then (case fifo_write k dv mnt (pass_end jp ws) (ws\<lparr>uu := (uu ws)\<lparr>u_count := usave\<rparr>\<rparr>) gs of (e, evs, r) \<Rightarrow> (e, ev @ evs, r))
            else (RDone, ev, pass_end jp ws, ws, gs))"
        using Room False l by (simp add: pass_end_def Let_def del: write_loop.simps)
      then show ?thesis using Suc.prems c Suc.IH by (auto simp: Let_def split: if_splits prod.splits)
    qed (use Suc.prems Room in auto)
  qed (use Suc.prems in auto)
qed simp

lemma writei_icount: "writei dv mnt ip us fz = (e, ev, ip', us', fz') \<Longrightarrow> i_count ip' = i_count ip"
  unfolding writei_def Let_def by (auto dest: write_loop_icount fifo_write_icount simp del: write_loop.simps fifo_write.simps split: if_splits)

section \<open>The calls keep the counts\<close>

lemma sound_entry:
  assumes S: "sound np s h cl" and g: "\<And>f. f_count (g f) = f_count f \<and> f_up (g f) = f_up f" shows "sound np (fupd k g s) h cl"
proof -
  let ?s = "fupd k g s"
  have n: "f_next (g f) = f_next f" for f by (simp add: f_next_def g)
  have c: "f_count (ftab ?s j) = f_count (ftab s j)" "f_up (ftab ?s j) = f_up (ftab s j)" "f_next (ftab ?s j) = f_next (ftab s j)" for j by (simp_all add: g n)
  have "files_ok np ?s cl" using S by (simp add: sound_def files_ok_def c del: fupd_fields(5))
  moreover have "userset ?s i = userset s i" for i by (simp add: userset_def c del: fupd_fields(5))
  ultimately show ?thesis using S by (simp add: sound_def)
qed

lemma getf_sound: "sound np s h cl \<Longrightarrow> getf p f s = (r, s') \<Longrightarrow> sound np s' h cl"
  using getf_cases [of p f s r s'] sound_cong [of np s h cl s'] by auto

lemma setfl_sound: "sound np s h cl \<Longrightarrow> sound np (setfl p f arg s) h cl"
proof -
  assume S: "sound np s h cl"
  obtain r t where g: "getf p f s = (r, t)" by fastforce
  show ?thesis using getf_sound [OF S g] getf_cases [OF g] by (cases r) (auto simp: setfl_def g intro!: sound_entry)
qed

lemma seek_sound:
  assumes S: "sound np s h cl" and e: "seek p f off b s = (r, s')" shows "sound np s' h cl"
proof -
  obtain v t where g: "getf p f s = (v, t)" by fastforce
  have T: "sound np t h cl" by (rule getf_sound [OF S g])
  have "sound np (of_error x t) h cl" for x by (rule sound_cong [OF T]) simp_all
  moreover have "sound np (fupd k (\<lambda>f. f\<lparr>f_offset := x\<rparr>) t) h cl" for k x by (rule sound_entry [OF T]) simp
  ultimately show ?thesis using e T by (auto simp: seek_def g Let_def split: option.splits if_splits)
qed

lemma rdwr_end_sound:
  assumes S: "sound np s h cl" and e: "rdwr_end fp i wr c us s = (n, s')" shows "sound np s' h cl"
proof -
  define ty where "ty = i_mode (inodes (tab s) i) AND IFMT"
  define s1 where "s1 = (if ty = IFREG \<and> u_fmode us AND FSYNC \<noteq> 0 \<and> wr then on_tab (iupdat_tab i \<circ> iupd i (\<lambda>ip. ip\<lparr>i_flag := i_flag ip OR ISYN\<rparr>)) s else s)"
  define s2 where "s2 = (if ty = IFREG \<or> ty = IFDIR \<or> ty = IFIFO then on_tab (prele i) s1 else s1)"
  have "same_counts t (iupdat_tab i (iupd i (\<lambda>ip. ip\<lparr>i_flag := i_flag ip OR ISYN\<rparr>) t))" for t
    by (rule same_counts_trans [OF same_counts_iupd same_counts_touches [OF touches_iupdat]]) simp
  then have "sound np s1 h cl" by (intro sound_cong [OF S]) (simp_all add: s1_def)
  then have "sound np s2 h cl" by (rule sound_cong) (simp_all add: s2_def)
  moreover have "s' = fupd fp (\<lambda>f. f\<lparr>f_offset := f_offset f + ucast (c - u_count (uu us))\<rparr>) s2"
    using e by (auto simp: rdwr_end_def Let_def s1_def s2_def ty_def simp del: fupd_fields)
  ultimately show ?thesis by (simp add: sound_entry del: fupd_fields)
qed

lemma rdwr_move_counts: "rdwr_move dv fp i wr us t = (e, ev, us', t') \<Longrightarrow> same_counts t t'"
proof -
  assume e: "rdwr_move dv fp i wr us t = (e, ev, us', t')"
  obtain k x ip xs fz where m: "(if wr then writei dv (mount_devs t) (inodes t i) us (fss t) else readi dv (mount_devs t) (fss t) (inodes t i) us) = (k, x, ip, xs, fz)"
    by (metis prod.collapse)
  have "i_count ip = i_count (inodes t i)" using m writei_icount readi_icount by (auto split: if_splits)
  then show ?thesis using e unfolding rdwr_move_def m by (auto simp: same_counts_def iupd_def)
qed

lemma rdwr_locked_sound:
  assumes S: "sound np s h cl" and e: "rdwr_locked dv fp i wr n us s = (r, ev, us', s')" shows "sound np s' h cl"
proof -
  define w where "w = rdwr_start fp i wr (u_fmode us) s"
  have W: "sound np w h cl" using S by (simp add: w_def rdwr_start_def Let_def sound_entry del: fupd_fields(5))
  obtain k x vs t where m: "rdwr_move dv fp i wr (us\<lparr>uu := (uu us)\<lparr>u_offset := f_offset (ftab w fp)\<rparr>\<rparr>) (tab w) = (k, x, vs, t)" by (metis prod.collapse)
  have Y: "sound np (w\<lparr>tab := t\<rparr>) h cl" by (rule sound_cong [OF W]) (simp_all add: rdwr_move_counts [OF m])
  have "s' = w\<lparr>tab := t\<rparr> \<or> (\<exists>m. rdwr_end fp i wr n vs (w\<lparr>tab := t\<rparr>) = (m, s'))"
    using e unfolding rdwr_locked_def Let_def w_def [symmetric] m by (cases k) (auto split: prod.splits)
  then show ?thesis using Y rdwr_end_sound [OF Y] by blast
qed

lemma rdwr_sound:
  assumes S: "sound np s h cl" and e: "rdwr dv wr p fd buf n us s = (r, ev, us', s')" shows "sound np s' h cl"
proof -
  obtain v t where g: "getf p fd s = (v, t)" by fastforce
  have T: "sound np t h cl" by (rule getf_sound [OF S g])
  have E: "sound np (of_error x t) h cl" for x by (rule sound_cong [OF T]) simp_all
  show ?thesis
  proof (cases v)
    case (Some fp)
    define i where "i = f_inode (ftab t fp)"
    define ty where "ty = i_mode (inodes (tab t) i) AND IFMT"
    obtain q tt where l: "(if ty = IFREG \<or> ty = IFDIR \<or> ty = IFIFO then plock i (tab t) else (IGot (), tab t)) = (q, tt)" by fastforce
    have c: "same_counts (tab t) tt" using l plock_counts by (auto split: if_splits)
    have L: "sound np (t\<lparr>tab := tt\<rparr>) h cl" by (rule sound_cong [OF T]) (simp_all add: c)
    have "(\<exists>x. s' = of_error x t) \<or> s' = t\<lparr>tab := tt\<rparr> \<or> (\<exists>vs. rdwr_locked dv fp i wr n vs (t\<lparr>tab := tt\<rparr>) = (r, ev, us', s'))"
      using e unfolding rdwr_def g Some Let_def prod.case option.case i_def [symmetric] ty_def [symmetric] l by (cases q) (auto split: if_splits)
    then show ?thesis using E L rdwr_locked_sound [OF L] by blast
  qed (use e T in \<open>simp add: rdwr_def g\<close>)
qed

end
