(* ===== verification/Open_Calls.thy ===== *)
theory Open_Calls
  imports Open_Use
begin

text \<open>
  Any sequence of the calls on files by any processes, with sleeping and waking, forks and exits, and the
  other holders of inodes: what the table of open files promises them.
\<close>

section \<open>Making a pipe\<close>

lemma falloc_sound:
  assumes S: "sound np s h cl" and p: "p < np" and i: "i < v_inode (tab s)" and e: "falloc p i fl s = (r, s')"
  shows "r = None \<Longrightarrow> sound np s' h cl" "r = Some (k, d) \<Longrightarrow> 0 < h i \<Longrightarrow> sound np s' (h(i := h i - 1)) cl"
proof -
  have F: "files_ok np s cl" and C: "\<forall>j < v_inode (tab s). unat (i_count (inodes (tab s) j)) = users s j + h j" using S by (simp_all add: sound_def)
  note A = falloc_ok [OF F p i e]
  have v: "v_inode (tab s') = v_inode (tab s)" "\<And>j. j < v_inode (tab s) \<Longrightarrow> i_count (inodes (tab s') j) = i_count (inodes (tab s) j)"
    using A(2) by (simp_all add: same_counts_def)
  show "r = None \<Longrightarrow> sound np s' h cl" using A(1,3) C v by (simp add: sound_def)
  assume r: "r = Some (k, d)" and h: "0 < h i"
  have "users s' j = users s j + of_bool (j = i)" for j using A(4) [OF r, of j] by simp
  then show "sound np s' (h(i := h i - 1)) cl" using A(1) C v h by (auto simp: sound_def)
qed

text \<open>The second reference of the inode of a pipe is for its other end.\<close>

lemma pipe_second:
  assumes S: "sound np s h cl" and p: "p < np" and i: "i < v_inode (tab s)" and c: "users s i = 1" "h i = 0" and e: "falloc p i fl s = (Some (k, d), s')"
  shows "sound np (on_tab (prele i \<circ> iupd i (\<lambda>ip. set_f 24 1 (set_f 23 1 (ip\<lparr>i_count := 2\<rparr>)))) s') h cl"
proof -
  have F: "files_ok np s cl" and C: "\<forall>j < v_inode (tab s). unat (i_count (inodes (tab s) j)) = users s j + h j" using S by (simp_all add: sound_def)
  note A = falloc_ok [OF F p i e]
  let ?s = "on_tab (prele i \<circ> iupd i (\<lambda>ip. set_f 24 1 (set_f 23 1 (ip\<lparr>i_count := 2\<rparr>)))) s'"
  have t: "tab s' = tab s" using A(4) [OF refl] by simp
  have u: "users s' j = users s j + of_bool (j = i)" for j using A(4) [OF refl, of j] by simp
  have v: "v_inode (tab ?s) = v_inode (tab s)" by (simp add: t iupd_def)
  have n: "i_count (inodes (tab ?s) j) = (if j = i then 2 else i_count (inodes (tab s) j))" for j by (simp add: t iupd_def)
  have "files_ok np ?s cl" by (rule files_cong [OF A(1)]) (use v t in simp_all)
  moreover have "users ?s j = users s' j" for j by (simp add: userset_cong [of ?s s'])
  ultimately show ?thesis unfolding sound_def v n using C u c by auto
qed

lemma falloc_none:
  assumes "falloc p i fl s = (None, s')"
  shows "ftab s' = ftab s" "v_file s' = v_file s" "u_ofile s' = u_ofile s"
proof -
  obtain v t where u: "ufalloc p 0 s = (v, t)" by fastforce
  have "s' = t \<or> s' = of_error ENFILE t" using assms u by (auto simp: falloc_def split: option.splits)
  then show "ftab s' = ftab s" "v_file s' = v_file s" "u_ofile s' = u_ofile s" using ufalloc_cases [OF u] by auto
qed

lemma files_drop:
  assumes S: "sound np s h cl" and o: "u_ofile s p d = Some k" "f_count (ftab s k) = 1" and i: "i < v_inode (tab s)" "userset s i = {k}" "h i = 0"
  shows "sound np (on_tab (iput i) (set_ofile p d None (free_file k s))) h cl"
proof -
  let ?s = "free_file k (set_ofile p d None s)"
  have e: "set_ofile p d None (free_file k s) = ?s" by (simp add: set_ofile_def free_file_def fupd_def)
  have F: "files_ok np s cl" and C: "\<forall>j < v_inode (tab s). unat (i_count (inodes (tab s) j)) = users s j + h j" using S by (simp_all add: sound_def)
  note U = files_undo [OF F o]
  have t: "tab ?s = tab s" by (simp add: free_file_def)
  have "unat (i_count (inodes (tab s) i)) = 1" using C i by simp
  then have nz: "i_count (inodes (tab s) i) \<noteq> 0" by auto
  have "k \<in> userset s i" unfolding i(2) by simp
  then have "k \<notin> userset s j" if "j \<noteq> i" for j using that by (simp add: userset_def)
  then have u: "users s j = users ?s j + of_bool (j = i)" for j using U(2) [of j] i(2) by (cases "j = i") simp_all
  show ?thesis unfolding e
  proof (rule sound_iput [OF U(1)])
    show "i < v_inode (tab ?s)" "i_count (inodes (tab ?s) i) \<noteq> 0" unfolding t by (fact i(1), fact nz)
    show "\<forall>j < v_inode (tab ?s). unat (i_count (inodes (tab ?s) j)) = users ?s j + h j + of_bool (j = i)"
    proof (intro allI impI)
      fix j assume "j < v_inode (tab ?s)"
      then have "unat (i_count (inodes (tab s) j)) = users s j + h j" using C unfolding t by blast
      then show "unat (i_count (inodes (tab ?s) j)) = users ?s j + h j + of_bool (j = i)" unfolding t u [of j] by linarith
    qed
  qed
qed

definition modes_known :: "itab \<Rightarrow> bool" where
  "modes_known t \<longleftrightarrow> (\<forall>j < v_inode t. i_count (inodes t j) \<noteq> 0 \<longrightarrow> i_mode (inodes t j) \<noteq> 0)"

lemma pipe_sound:
  assumes S: "sound np s h cl" and p: "p < np" and I: "iinv (tab s)" "low (tab s)" "mounts_ok (tab s)" "modes_known (tab s)"
    and e: "pipe dev uid gid p s = Some (r, s')"
  shows "sound np s' h cl"
proof -
  have F: "files_ok np s cl" and C: "\<forall>j < v_inode (tab s). unat (i_count (inodes (tab s) j)) = users s j + h j" using S by (simp_all add: sound_def)
  obtain q t where a: "ialloc dev IFIFO 0 uid gid (tab s) = Some (q, t)" using e by (cases "ialloc dev IFIFO 0 uid gid (tab s)") (auto simp: pipe_def)
  note A = ialloc_ok [OF I(1-3) a]
  let ?s = "s\<lparr>tab := t\<rparr>"
  have us: "userset ?s j = userset s j" for j by (simp add: userset_def)
  show ?thesis
  proof (cases "\<exists>i. q = IGot i")
    case False
    then have s': "s' = ?s" using e a by (cases q) (simp_all add: pipe_def)
    have "grows None (tab s) t" using A False by (cases q) (auto simp: allotted_def gotten_def)
    then have "same_counts (tab s) t" by (simp add: grows_def same_counts_def)
    then show ?thesis unfolding s' by (intro sound_cong [OF S]) simp_all
  next
    case True
    then obtain i where q: "q = IGot i" by blast
    have G: "i < v_inode (tab s)" "grows (Some i) (tab s) t" "i_count (inodes (tab s) i) \<noteq> 0 \<longrightarrow> i_mode (inodes (tab s) i) = 0"
      using A q by (simp_all add: allotted_def gotten_def)
    have z: "i_count (inodes (tab s) i) = 0" using G I(4) by (auto simp: modes_known_def)
    have v: "v_inode t = v_inode (tab s)" "\<And>j. j < v_inode (tab s) \<Longrightarrow> i_count (inodes t j) = i_count (inodes (tab s) j) + of_bool (j = i)"
      using G(2) by (auto simp: grows_def)
    have h: "users s i = 0" "h i = 0" using C G(1) z by (metis add_is_0 unat_0)+
    have T: "sound np ?s (h(i := 1)) cl"
    proof -
      have "files_ok np ?s cl" by (rule files_cong [OF F]) (simp_all add: v)
      moreover have "unat (i_count (inodes t j)) = users s j + (h(i := 1)) j" if "j < v_inode (tab s)" for j
        using that C v(2) h z by simp
      ultimately show ?thesis by (simp add: sound_def v us)
    qed
    have it: "i < v_inode (tab ?s)" using G v by simp
    have drop: "sound np (on_tab (iput i) w) h cl" if "sound np w (h(i := 1)) cl" "v_inode (tab w) = v_inode (tab s)" for w
    proof -
      have "(h(i := 1))(i := (h(i := 1)) i - 1) = h" using h(2) by (auto simp: fun_eq_iff)
      then show ?thesis using sound_put [OF that(1), of i] G(1) that(2) by simp
    qed
    obtain a1 s1 where f1: "falloc p i (ucast FREAD) ?s = (a1, s1)" by fastforce
    have T1: "files_ok np ?s cl" using T by (simp add: sound_def)
    note A1 = falloc_ok [OF T1 p it f1]
    have v1: "v_inode (tab s1) = v_inode (tab s)" using A1(2) v by (simp add: same_counts_def)
    show ?thesis
    proof (cases a1)
      case None
      then have s': "s' = on_tab (iput i) s1" using e a q f1 by (simp add: pipe_def)
      show ?thesis unfolding s' by (rule drop [OF _ v1]) (rule falloc_sound(1) [OF T p it f1 None])
    next
      case (Some kr)
      obtain k d where kr: "kr = (k, d)" by fastforce
      note B = A1(4) [of k d, unfolded Some kr, OF refl]
      have h0: "(h(i := 1))(i := (h(i := 1)) i - 1) = h" using h(2) by (auto simp: fun_eq_iff)
      have S1: "sound np s1 h cl" using falloc_sound(2) [OF T p it f1, of k d] Some kr h0 by simp
      have u1: "users s1 i = 1" using B [of i] h(1) us by simp
      obtain a2 s2 where f2: "falloc p i (ucast FWRITE) s1 = (a2, s2)" by fastforce
      have i1: "i < v_inode (tab s1)" using G(1) v1 by simp
      have F1: "files_ok np s1 cl" using S1 by (simp add: sound_def)
      note A2 = falloc_ok [OF F1 p i1 f2]
      show ?thesis
      proof (cases a2)
        case (Some kw)
        obtain m w where kw: "kw = (m, w)" by fastforce
        have s': "s' = on_tab (prele i \<circ> iupd i (\<lambda>ip. set_f 24 1 (set_f 23 1 (ip\<lparr>i_count := 2\<rparr>)))) s2"
          using e a q f1 \<open>a1 = Some kr\<close> kr f2 Some kw by (simp add: pipe_def)
        show ?thesis unfolding s' by (rule pipe_second [OF S1 p i1 u1 h(2) f2 [unfolded Some kw]])
      next
        case None
        have s': "s' = on_tab (iput i) (set_ofile p d None (free_file k s2))"
          using e a q f1 Some kr f2 None by (simp add: pipe_def)
        have S2: "sound np s2 h cl" by (rule falloc_sound(1) [OF S1 p i1 f2 None])
        note N = falloc_none [OF f2 [unfolded None]]
        have "userset s2 i = {k}" using userset_cong [OF N(1,2), of i] B [of i] us h(1) by simp
        moreover have "i < v_inode (tab s2)" using A2(2) i1 by (simp add: same_counts_def)
        ultimately show ?thesis unfolding s' by (intro files_drop [OF S2]) (use N B h(2) in simp_all)
      qed
    qed
  qed
qed

section \<open>Runs\<close>

text \<open>\<open>h\<close>: the references of the inodes that others hold, \<open>namei\<close> for the caller of \<open>copen\<close>, directories of the
  processes, mounts; \<open>cl\<close>: the entries whose last close sleeps. Closing one descriptor is also a step of
  \<open>exec\<close> and \<open>exit\<close>.\<close>

inductive ofreach :: "nat \<Rightarrow> ofs \<Rightarrow> (nat \<Rightarrow> nat) \<Rightarrow> nat list \<Rightarrow> bool" for np :: nat where
  start: "np * NOFILE < 32768 \<Longrightarrow> 0 < v_file s \<Longrightarrow> \<forall>k < v_file s. f_count (ftab s k) = 0 \<Longrightarrow> f_up (ftab s (v_file s - 1)) = Unext None \<Longrightarrow>
    u_ofile s = (\<lambda>_ _. None) \<Longrightarrow> \<forall>i < v_inode (tab s). h i = unat (i_count (inodes (tab s) i)) \<Longrightarrow> ofreach np (finit s) h []"
| others: "ofreach np s h cl \<Longrightarrow> v_inode t = v_inode (tab s) \<Longrightarrow>
    \<forall>j < v_inode t. unat (i_count (inodes t j)) + h j = unat (i_count (inodes (tab s) j)) + h' j \<Longrightarrow> ofreach np (s\<lparr>tab := t\<rparr>) h' cl"
| opened: "ofreach np s h cl \<Longrightarrow> p < np \<Longrightarrow> i < v_inode (tab s) \<Longrightarrow> 0 < h i \<Longrightarrow> copen_end sw p i m s = (r, ev, s') \<Longrightarrow> ofreach np s' (h(i := h i - 1)) cl"
| piped: "ofreach np s h cl \<Longrightarrow> p < np \<Longrightarrow> iinv (tab s) \<Longrightarrow> low (tab s) \<Longrightarrow> mounts_ok (tab s) \<Longrightarrow> modes_known (tab s) \<Longrightarrow>
    pipe dev uid gid p s = Some (q, s') \<Longrightarrow> ofreach np s' h cl"
| dupped: "ofreach np s h cl \<Longrightarrow> p < np \<Longrightarrow> dup p f s = (v, s') \<Longrightarrow> ofreach np s' h cl"
| dupfded: "ofreach np s h cl \<Longrightarrow> p < np \<Longrightarrow> dupfd p f n s = (v, s') \<Longrightarrow> ofreach np s' h cl"
| forked: "ofreach np s h cl \<Longrightarrow> c < np \<Longrightarrow> p \<noteq> c \<Longrightarrow> u_ofile s c = (\<lambda>_. None) \<Longrightarrow> ofreach np (newproc_files p c s) h cl"
| closed: "ofreach np s h cl \<Longrightarrow> u_ofile s p d = Some k \<Longrightarrow> closef k (set_ofile p d None s) = (w, es, s') \<Longrightarrow>
    ofreach np s' h (if w = ISleep then k # cl else cl)"
| woken: "ofreach np s h cl \<Longrightarrow> k \<in> set cl \<Longrightarrow> closef_last k s = (w, es, s') \<Longrightarrow> ofreach np s' h (if w = ISleep then cl else remove1 k cl)"
| moved: "ofreach np s h cl \<Longrightarrow> rdwr dv wr p f buf n us s = (x, ev, us', s') \<Longrightarrow> ofreach np s' h cl"
| sought: "ofreach np s h cl \<Longrightarrow> seek p f off b s = (y, s') \<Longrightarrow> ofreach np s' h cl"
| flagged: "ofreach np s h cl \<Longrightarrow> ofreach np (setfl p f arg s) h cl"

lemma finit_fields:
  "v_file (finit s) = v_file s \<and> ffreelist (finit s) = Some 0 \<and> u_ofile (finit s) = u_ofile s \<and> tab (finit s) = tab s \<and>
   (\<forall>k. ftab (finit s) k = (if k < v_file s - 1 then (ftab s k)\<lparr>f_up := Unext (Some (k + 1))\<rparr> else ftab s k))"
proof -
  have "v_file (fold g [0..<n] s) = v_file s \<and> ffreelist (fold g [0..<n] s) = ffreelist s \<and> u_ofile (fold g [0..<n] s) = u_ofile s \<and> tab (fold g [0..<n] s) = tab s \<and>
     (\<forall>k. ftab (fold g [0..<n] s) k = (if k < n then (ftab s k)\<lparr>f_up := Unext (Some (k + 1))\<rparr> else ftab s k))"
    if "g = (\<lambda>k. fupd k (\<lambda>f. f\<lparr>f_up := Unext (Some (k + 1))\<rparr>))" for g s and n
    by (induction n) (auto simp: that less_Suc_eq)
  from this [OF refl] show ?thesis by (simp add: finit_def)
qed

lemma finit_sound:
  assumes n: "np * NOFILE < 32768" "0 < v_file s" and s: "\<forall>k < v_file s. f_count (ftab s k) = 0" "f_up (ftab s (v_file s - 1)) = Unext None" "u_ofile s = (\<lambda>_ _. None)"
    and h: "\<forall>i < v_inode (tab s). h i = unat (i_count (inodes (tab s) i))"
  shows "sound np (finit s) h []"
proof -
  let ?s = "finit s" let ?nx = "\<lambda>k. f_next (ftab ?s k)" let ?n = "v_file s - 1"
  note N = finit_fields [of s]
  have c: "f_count (ftab ?s k) = 0" if "k < v_file s" for k using N s(1) that by simp
  have "path ?nx (Some 0) [0..<?n] (Some ?n)" by (rule path_count) (simp_all add: N)
  then have "chain ?nx (ffreelist ?s) ([0..<?n] @ [?n])" using s(2) N by (simp add: path_append f_next_def)
  moreover have "[0..<v_file s] = [0..<?n] @ [?n]" using n(2) by (metis Suc_diff_1 le0 upt_Suc_append)
  ultimately have "chain ?nx (ffreelist ?s) [0..<v_file s]" by simp
  moreover have "set [0..<v_file s] = {k. k < v_file ?s \<and> f_count (ftab ?s k) = 0}" using c conjunct1 [OF N] by auto
  moreover have e: "refset ?s k = {}" "userset ?s i = {}" for k i using N s(3) c by (auto simp: refset_def userset_def)
  moreover have v: "v_file ?s = v_file s" "u_ofile ?s = (\<lambda>_ _. None)" using N s(3) by simp_all
  moreover have "unat (f_count (ftab ?s k)) = card (refset ?s k) + count_list [] k" if "k < v_file ?s" for k
    unfolding e using c that v(1) by simp
  ultimately have "files_ok np ?s []" unfolding files_ok_def
    by (intro conjI exI [of _ "[0..<v_file s]"] n(1)) (use c in simp_all)
  then show ?thesis using h N e(2) by (simp add: sound_def)
qed

lemma others_sound:
  assumes S: "sound np s h cl" and v: "v_inode t = v_inode (tab s)"
    and t: "\<forall>j < v_inode t. unat (i_count (inodes t j)) + h j = unat (i_count (inodes (tab s) j)) + h' j"
  shows "sound np (s\<lparr>tab := t\<rparr>) h' cl"
proof -
  have F: "files_ok np s cl" and C: "\<forall>j < v_inode (tab s). unat (i_count (inodes (tab s) j)) = users s j + h j" using S by (simp_all add: sound_def)
  have "files_ok np (s\<lparr>tab := t\<rparr>) cl" by (rule files_cong [OF F]) (simp_all add: v)
  moreover have "userset (s\<lparr>tab := t\<rparr>) j = userset s j" for j by (rule userset_cong) simp_all
  moreover have "unat (i_count (inodes t j)) = users s j + h' j" if "j < v_inode (tab s)" for j
  proof -
    have "unat (i_count (inodes t j)) + h j = unat (i_count (inodes (tab s) j)) + h' j" "unat (i_count (inodes (tab s) j)) = users s j + h j"
      using that t v C by simp_all
    then show ?thesis by linarith
  qed
  ultimately show ?thesis by (simp add: sound_def v)
qed

lemma ofreach_sound: "ofreach np s h cl \<Longrightarrow> sound np s h cl"
proof (induction rule: ofreach.induct)
  case (start s h)
  then show ?case by (rule finit_sound)
next
  case (others s h cl t h')
  show ?case by (rule others_sound [OF others(4,2,3)])
next
  case (opened s h cl p i sw m r ev s')
  show ?case by (rule copen_end_ok [OF opened(6,2-5)])
next
  case (piped s h cl p dev uid gid q s')
  show ?case by (rule pipe_sound [OF piped(8,2-7)])
next
  case (dupped s h cl p f v s')
  show ?case by (rule dup_sound [OF dupped(4,2,3)])
next
  case (dupfded s h cl p f n v s')
  show ?case by (rule dupfd_sound [OF dupfded(4,2,3)])
next
  case (forked s h cl c p)
  show ?case by (rule newproc_sound [OF forked(5,2,3)]) (simp add: forked(4))
next
  case (closed s h cl p d k w es s')
  show ?case by (rule closef_ok [OF closed(4,2,3)])
next
  case (woken s h cl k w es s')
  show ?case by (rule closef_last_ok [OF woken(4,2,3)])
next
  case (moved s h cl dv wr p f buf n us x ev us' s')
  show ?case by (rule rdwr_sound [OF moved(3,2)])
next
  case (sought s h cl p f off b y s')
  show ?case by (rule seek_sound [OF sought(3,2)])
next
  case (flagged s h cl p f arg)
  show ?case by (rule setfl_sound [OF flagged(2)])
qed

section \<open>A run\<close>

definition demo_sw :: devsw where
  "demo_sw = \<lparr>cdevcnt = 0, bdevcnt = 0, cdev_open = (\<lambda>_ _. None), bdev_open = (\<lambda>_ _. None)\<rparr>"

definition demo_files :: ofs where
  "demo_files = finit \<lparr>ftab = (\<lambda>_. \<lparr>f_flag = 0, f_count = 0, f_up = Unext None, f_offset = 0\<rparr>), v_file = 2, ffreelist = None,
     u_ofile = (\<lambda>_ _. None), u_pofile = (\<lambda>_ _. 0), tab = (blank_tab 1 demo_fs)\<lparr>inodes := (\<lambda>_. demo_disk_ip\<lparr>i_count := 2\<rparr>)\<rparr>\<rparr>"

text \<open>A file is opened, the descriptor duplicated, and both are closed.\<close>

definition demo_open :: ofs where "demo_open = snd (snd (copen_end demo_sw 0 0 3 demo_files))"
definition demo_dup :: ofs where "demo_dup = snd (dup 0 0 demo_open)"
definition demo_one :: ofs where "demo_one = snd (snd (closef 0 (set_ofile 0 0 None demo_dup)))"
definition demo_done :: ofs where "demo_done = snd (snd (closef 0 (set_ofile 0 1 None demo_one)))"

lemma demo_facts:
  "v_inode (tab demo_files) = 1" "i_count (inodes (tab demo_files) 0) = 2" "u_ofile demo_dup 0 0 = Some 0" "f_count (ftab demo_dup 0) = 2"
  "u_ofile demo_one 0 1 = Some 0" "fst (closef 0 (set_ofile 0 0 None demo_dup)) = IGot ()" "fst (closef 0 (set_ofile 0 1 None demo_one)) = IGot ()"
  "v_file demo_done = 2" "f_count (ftab demo_done 0) = 0" "f_count (ftab demo_done 1) = 0"
  by code_simp+

lemma demo_reach: "ofreach 2 demo_files (\<lambda>_. 2) []"
  unfolding demo_files_def by (rule ofreach.start) (use demo_facts(2) in \<open>simp_all add: blank_tab_def\<close>)

lemma demo_dup_reach: "ofreach 2 demo_dup ((\<lambda>_. 2)(0 := 2 - 1)) []"
proof -
  have "ofreach 2 demo_open ((\<lambda>_. 2)(0 := 2 - 1)) []"
    unfolding demo_open_def by (rule ofreach.opened [OF demo_reach, of 0 0]) (use demo_facts in \<open>simp_all add: prod_eq_iff\<close>)
  then show ?thesis unfolding demo_dup_def by (rule ofreach.dupped [of _ _ _ _ 0]) (simp_all add: prod_eq_iff)
qed

lemma demo_done_reach: "ofreach 2 demo_done ((\<lambda>_. 2)(0 := 2 - 1)) []"
proof -
  have c: "closef k s = (fst (closef k s), fst (snd (closef k s)), snd (snd (closef k s)))" for k s by simp
  have "ofreach 2 demo_one ((\<lambda>_. 2)(0 := 2 - 1)) []"
    using ofreach.closed [OF demo_dup_reach demo_facts(3) c] demo_facts(6) by (simp add: demo_one_def)
  from ofreach.closed [OF this demo_facts(5) c] show ?thesis using demo_facts(7) by (simp add: demo_done_def)
qed

lemma demo_done_ofile: "u_ofile demo_done = (\<lambda>_ _. None)"
proof (intro ext)
  fix p d
  have F: "files_ok 2 demo_done []" using ofreach_sound [OF demo_done_reach] by (simp add: sound_def)
  show "u_ofile demo_done p d = None"
  proof (cases "u_ofile demo_done p d")
    case (Some k)
    from held_count(1,2) [OF F this] show ?thesis using demo_facts(8-10) by (auto simp: less_2_cases_iff)
  qed
qed

section \<open>What the table promises\<close>

lemma files_lowest:
  assumes "falloc p i fl s = (Some (k, d), s')"
  shows "u_ofile s p d = None" "\<forall>e < d. u_ofile s p e \<noteq> None" "u_ofile s' = (u_ofile s)(p := (u_ofile s p)(d := Some k))" "ffreelist s = Some k"
proof -
  obtain x where f: "List.find (\<lambda>d. u_ofile s p d = None) [0..<NOFILE] = Some x"
    using assms by (cases "List.find (\<lambda>d. u_ofile s p d = None) [0..<NOFILE]") (auto simp: falloc_def ufalloc_def)
  then have x: "x = d" "ffreelist s = Some k" "u_ofile s' = (u_ofile s)(p := (u_ofile s p)(d := Some k))"
    using assms by (auto simp: falloc_def ufalloc_def set_ofile_def split: option.splits)
  from f obtain m where "m < NOFILE" "x = m" "u_ofile s p m = None" "\<forall>j < m. u_ofile s p j \<noteq> None" by (auto simp: find_Some_iff)
  then show "u_ofile s p d = None" "\<forall>e < d. u_ofile s p e \<noteq> None" "u_ofile s' = (u_ofile s)(p := (u_ofile s p)(d := Some k))" "ffreelist s = Some k"
    using x by simp_all
qed

text \<open>C4: whatever calls the processes make, in whatever order, with closes that sleep, forks and exits: a
  descriptor leads to an entry of the table that is open on an inode with references, and the count of the
  entry is the number of descriptors, of all processes, that lead to it.\<close>

theorem open_files_sound:
  assumes "ofreach np s h cl" "u_ofile s p d = Some k"
  shows "k < v_file s \<and> (\<exists>i < v_inode (tab s). f_up (ftab s k) = Uinode i \<and> i_count (inodes (tab s) i) \<noteq> 0) \<and>
    0 < unat (f_count (ftab s k)) \<and> unat (f_count (ftab s k)) = card {x. u_ofile s (fst x) (snd x) = Some k}"
proof -
  have F: "files_ok np s cl" and C: "\<forall>i < v_inode (tab s). unat (i_count (inodes (tab s) i)) = users s i + h i"
    using ofreach_sound [OF assms(1)] by (simp_all add: sound_def)
  note H = held_count [OF F assms(2)]
  obtain i where i: "i < v_inode (tab s)" "f_up (ftab s k) = Uinode i" using files_okD(3) [OF F H(1,2)] by blast
  have "k \<in> userset s i" using H(1,2) i(2) by (simp add: userset_def)
  then have "0 < users s i" using card_gt_0_iff [of "userset s i"] by auto
  moreover have "unat (i_count (inodes (tab s) i)) = users s i + h i" using C i(1) by blast
  ultimately have "unat (i_count (inodes (tab s) i)) \<noteq> 0" by linarith
  then have "i_count (inodes (tab s) i) \<noteq> 0" by auto
  moreover have "0 < unat (f_count (ftab s k))" using H(2) by (simp add: unat_gt_0)
  ultimately show ?thesis using H(1,5) i unfolding refset_def by blast
qed

theorem open_files_sound_witness: "card {x. u_ofile demo_dup (fst x) (snd x) = Some 0} = 2"
  using open_files_sound [OF demo_dup_reach demo_facts(3)] demo_facts(4) by simp

text \<open>C20: \<open>falloc\<close> never takes an entry that is in use: no descriptor leads to it and no close waits on it; it
  is put into the lowest free descriptor of the process, and no other descriptor changes.\<close>

theorem falloc_fresh:
  assumes "ofreach np s h cl" "falloc p i fl s = (Some (k, d), s')"
  shows "(\<forall>q e. u_ofile s q e \<noteq> Some k) \<and> k \<notin> set cl \<and> u_ofile s p d = None \<and> (\<forall>e < d. u_ofile s p e \<noteq> None) \<and>
    u_ofile s' = (u_ofile s)(p := (u_ofile s p)(d := Some k))"
proof -
  have F: "files_ok np s cl" using ofreach_sound [OF assms(1)] by (simp add: sound_def)
  note L = files_lowest [OF assms(2)]
  obtain xs where xs: "chain (\<lambda>k. f_next (ftab s k)) (ffreelist s) xs" "set xs = {k. k < v_file s \<and> f_count (ftab s k) = 0}" using files_okD(2) [OF F] by blast
  have "k \<in> set xs" using xs(1) L(4) by (auto simp: chain_Some)
  then have z: "f_count (ftab s k) = 0" unfolding xs(2) by simp
  then have "u_ofile s q e \<noteq> Some k" for q e using held_count(2) [OF F, of q e k] by auto
  moreover have "k \<notin> set cl" using files_okD(5) [OF F, of k] z by auto
  ultimately show ?thesis using L by simp
qed

theorem falloc_fresh_witness: "fst (falloc 1 0 1 demo_dup) = Some (1, 0) \<and> (\<forall>q e. u_ofile demo_dup q e \<noteq> Some 1)"
proof -
  have f: "fst (falloc 1 0 1 demo_dup) = Some (1, 0)" by code_simp
  then have "falloc 1 0 1 demo_dup = (Some (1, 0), snd (falloc 1 0 1 demo_dup))" by (metis prod.collapse)
  from falloc_fresh [OF demo_dup_reach this] show ?thesis using f by simp
qed

text \<open>C24: nothing leaks: when the last descriptor of every process is gone and no close sleeps, every entry
  of the table is on the free list and the inodes have only the references that others hold.\<close>

theorem files_no_leak:
  assumes "ofreach np s h []" "u_ofile s = (\<lambda>_ _. None)"
  shows "(\<exists>xs. chain (\<lambda>k. f_next (ftab s k)) (ffreelist s) xs \<and> set xs = {..<v_file s}) \<and>
    (\<forall>i < v_inode (tab s). unat (i_count (inodes (tab s) i)) = h i)"
proof -
  have F: "files_ok np s []" and C: "\<forall>i < v_inode (tab s). unat (i_count (inodes (tab s) i)) = users s i + h i"
    using ofreach_sound [OF assms(1)] by (simp_all add: sound_def)
  have "unat (f_count (ftab s k)) = 0" if "k < v_file s" for k using files_okD(4) [OF F that] assms(2) by (simp add: refset_def)
  then have z: "f_count (ftab s k) = 0" if "k < v_file s" for k using that by (simp add: unat_eq_0_iff)
  then have "{k. k < v_file s \<and> f_count (ftab s k) = 0} = {..<v_file s}" "userset s i = {}" for i by (auto simp: userset_def)
  then show ?thesis using files_okD(2) [OF F] C by simp
qed

theorem files_no_leak_witness: "\<exists>xs. chain (\<lambda>k. f_next (ftab demo_done k)) (ffreelist demo_done) xs \<and> set xs = {..<2}"
  using files_no_leak [OF demo_done_reach demo_done_ofile] demo_facts(8) by simp

end
