(* ===== verification/Open_Data.thy ===== *)
theory Open_Data
  imports Open_Calls
begin

text \<open>
  What moves through a descriptor: reading at the offset of the open file, appending, and the end of a pipe.
\<close>

section \<open>The last close of a pipe\<close>

lemma closep_blocks:
  assumes "fs_free f xs" "distinct ks" "\<forall>k \<in> set ks. k < length (i_addr ip)"
    and "\<forall>k \<in> set ks. i_addr ip ! k \<noteq> 0 \<longrightarrow> usable f (i_addr ip ! k) \<and> i_addr ip ! k \<notin> set xs"
    and "\<forall>k \<in> set ks. \<forall>l \<in> set ks. i_addr ip ! k \<noteq> 0 \<longrightarrow> i_addr ip ! k = i_addr ip ! l \<longrightarrow> k = l"
  shows "\<exists>bs as g. fold closep_block ks (ip, f) = (ip\<lparr>i_addr := as\<rparr>, g) \<and> length as = length (i_addr ip) \<and>
    (\<forall>j < length as. as ! j = (if j \<in> set ks then 0 else i_addr ip ! j)) \<and>
    fs_free g (bs @ xs) \<and> distinct bs \<and> set bs = (!) (i_addr ip) ` set ks - {0} \<and> usable g = usable f"
  using assms
proof (induction ks arbitrary: ip f xs)
  case Nil
  show ?case by (rule exI [of _ "[]"], rule exI [of _ "i_addr ip"], rule exI [of _ f]) (simp add: Nil(1))
next
  case (Cons k ks)
  show ?case
  proof (cases "i_addr ip ! k = 0")
    case True
    then have e: "fold closep_block (k # ks) (ip, f) = fold closep_block ks (ip, f)" by (simp add: closep_block_def)
    have "\<exists>bs as g. fold closep_block ks (ip, f) = (ip\<lparr>i_addr := as\<rparr>, g) \<and> length as = length (i_addr ip) \<and>
       (\<forall>j < length as. as ! j = (if j \<in> set ks then 0 else i_addr ip ! j)) \<and> fs_free g (bs @ xs) \<and> distinct bs \<and>
       set bs = (!) (i_addr ip) ` set ks - {0} \<and> usable g = usable f"
      by (rule Cons.IH) (use Cons.prems in simp_all)
    then obtain bs as g where G: "fold closep_block ks (ip, f) = (ip\<lparr>i_addr := as\<rparr>, g)" "length as = length (i_addr ip)"
      "\<forall>j < length as. as ! j = (if j \<in> set ks then 0 else i_addr ip ! j)" "fs_free g (bs @ xs)" "distinct bs"
      "set bs = (!) (i_addr ip) ` set ks - {0}" "usable g = usable f" by blast
    show ?thesis unfolding e
    proof (rule exI [of _ bs], rule exI [of _ as], rule exI [of _ g], intro conjI)
      show "\<forall>j < length as. as ! j = (if j \<in> set (k # ks) then 0 else i_addr ip ! j)" using G(3) True by simp
      show "set bs = (!) (i_addr ip) ` set (k # ks) - {0}" using G(6) True by simp
    qed (use G in simp_all)
  next
    case False
    let ?b = "i_addr ip ! k" let ?ip = "ip\<lparr>i_addr := (i_addr ip)[k := 0]\<rparr>" let ?f = "free ?b f"
    have b: "usable f ?b" "?b \<notin> set xs" using Cons.prems(4) False by simp_all
    note F = free_ok [OF Cons.prems(1) b]
    have e: "fold closep_block (k # ks) (ip, f) = fold closep_block ks (?ip, ?f)" using False by (simp add: closep_block_def)
    have n: "i_addr ?ip ! l = i_addr ip ! l" if "l \<in> set ks" for l
    proof -
      have "l \<noteq> k" using that Cons.prems(2) by auto
      then show ?thesis by simp
    qed
    have kb: "i_addr ip ! l \<noteq> ?b" if "l \<in> set ks" for l using that Cons.prems(2,5) False by (metis distinct.simps(2) list.set_intros)
    have "\<exists>bs as g. fold closep_block ks (?ip, ?f) = (?ip\<lparr>i_addr := as\<rparr>, g) \<and> length as = length (i_addr ?ip) \<and>
       (\<forall>j < length as. as ! j = (if j \<in> set ks then 0 else i_addr ?ip ! j)) \<and> fs_free g (bs @ (?b # xs)) \<and> distinct bs \<and>
       set bs = (!) (i_addr ?ip) ` set ks - {0} \<and> usable g = usable ?f"
    proof (rule Cons.IH)
      show "fs_free ?f (?b # xs)" using F by blast
      show "distinct ks" "\<forall>l \<in> set ks. l < length (i_addr ?ip)" using Cons.prems by simp_all
      show "\<forall>l \<in> set ks. i_addr ?ip ! l \<noteq> 0 \<longrightarrow> usable ?f (i_addr ?ip ! l) \<and> i_addr ?ip ! l \<notin> set (?b # xs)"
        using Cons.prems(4) F kb n by simp
      show "\<forall>l \<in> set ks. \<forall>m \<in> set ks. i_addr ?ip ! l \<noteq> 0 \<longrightarrow> i_addr ?ip ! l = i_addr ?ip ! m \<longrightarrow> l = m"
        using Cons.prems(5) n by simp
    qed
    then obtain bs as g where G: "fold closep_block ks (?ip, ?f) = (?ip\<lparr>i_addr := as\<rparr>, g)" "length as = length (i_addr ?ip)"
      "\<forall>j < length as. as ! j = (if j \<in> set ks then 0 else i_addr ?ip ! j)" "fs_free g (bs @ (?b # xs))" "distinct bs"
      "set bs = (!) (i_addr ?ip) ` set ks - {0}" "usable g = usable ?f" by blast
    have i: "(!) (i_addr ?ip) ` set ks = (!) (i_addr ip) ` set ks" using n by (intro image_cong) simp_all
    show ?thesis unfolding e
    proof (rule exI [of _ "bs @ [?b]"], rule exI [of _ as], rule exI [of _ g], intro conjI)
      show "fold closep_block ks (?ip, ?f) = (ip\<lparr>i_addr := as\<rparr>, g)" using G(1) by simp
      show "\<forall>j < length as. as ! j = (if j \<in> set (k # ks) then 0 else i_addr ip ! j)" using G(2,3) by (auto simp: nth_list_update)
      have "?b \<notin> set bs" unfolding G(6) i using kb by (metis DiffD1 imageE)
      then show "distinct (bs @ [?b])" using G(5) by simp
      show "set (bs @ [?b]) = (!) (i_addr ip) ` set (k # ks) - {0}" using G(6) False unfolding i by auto
    qed (use G F in simp_all)
  qed
qed

lemma closep_last:
  assumes P: "pipe_at ip f xs r q" and z: "\<forall>s < 10. 5 \<le> s \<longrightarrow> i_addr ip ! s = 0"
  shows "\<exists>bs jp g. fold closep_block (rev [0..<10]) (ip, f) = (jp, g) \<and> i_mode jp = i_mode ip \<and> length (i_addr jp) = NADDR \<and> (\<forall>s < NADDR. i_addr jp ! s = (if s < 10 then 0 else i_addr ip ! s)) \<and>
    fs_free g (bs @ xs) \<and> distinct bs \<and> set bs = (!) (i_addr ip) ` {..<5} - {0} \<and> small_dev g"
proof -
  note D = pipe_atD [OF P]
  have "i_addr ip ! s \<noteq> 0 \<Longrightarrow> s < 5" if "s < 10" for s using z that by (metis not_le)
  then obtain bs as g where G: "fold closep_block (rev [0..<10]) (ip, f) = (ip\<lparr>i_addr := as\<rparr>, g)" "length as = length (i_addr ip)"
    "\<forall>j < length as. as ! j = (if j \<in> set (rev [0..<10]) then 0 else i_addr ip ! j)" "fs_free g (bs @ xs)" "distinct bs"
    "set bs = (!) (i_addr ip) ` set (rev [0..<10]) - {0}" "usable g = usable f"
    using closep_blocks [OF D(3), of "rev [0..<10]" ip] D(2,7,8) by (auto simp del: upt_Suc)
  have "set bs = (!) (i_addr ip) ` {..<5} - {0}"
  proof -
    have "set (rev [0..<10]) = {..<5} \<union> {5..<10 :: nat}" by auto
    moreover have "(!) (i_addr ip) ` {5..<10} \<subseteq> {0}" using z by auto
    ultimately show ?thesis using G(6) by (simp only: image_Un) blast
  qed
  moreover have "small_dev g" using D(4) G(7) by (simp add: small_dev_def)
  moreover have "\<forall>s < NADDR. as ! s = (if s < 10 then 0 else i_addr ip ! s)" using G(2,3) D(2) by simp
  ultimately show ?thesis using G(1,2,4,5) D(2) by (intro exI [of _ bs] exI [of _ "ip\<lparr>i_addr := as\<rparr>"] exI [of _ g]) simp
qed

lemma pair_snd: "snd x = y \<Longrightarrow> \<exists>a. x = (a, y)"
  by (cases x) simp

text \<open>C21: when the last of the processes that have a pipe open closes it, the pipe is empty and its blocks,
  each once and no others, are back on the list of free blocks.\<close>

theorem pipe_last_close:
  assumes "pipe_holds ip f xs q" "\<forall>s < 10. 5 \<le> s \<longrightarrow> i_addr ip ! s = 0"
    and "i_frcnt ip = (if m AND FREAD \<noteq> 0 then 1 else 0)" "i_fwcnt ip = (if m AND FWRITE \<noteq> 0 then 1 else 0)"
    and "closep m ip f = (ev, ip', f')"
  shows "\<exists>bs. distinct bs \<and> set bs = (!) (i_addr ip) ` {..<5} - {0} \<and> fs_free f' (bs @ xs) \<and> pipe_holds ip' f' (bs @ xs) [] \<and> i_frcnt ip' = 0 \<and> i_fwcnt ip' = 0"
proof -
  have P: "pipe_at ip f xs (unat (i_frptr ip)) q" using assms(1) by (simp add: pipe_holds_def)
  have l: "length (i_addr ip) = NADDR" using pipe_atD(2) [OF P] .
  define ip1 where "ip1 = (if m AND FREAD \<noteq> 0 then (let jp = set_f 23 (i_frcnt ip - 1) ip
    in if i_frcnt jp = 0 \<and> i_fflag jp AND IFIW \<noteq> 0 then set_f 25 (i_fflag jp AND NOT IFIW) jp else jp) else ip)"
  define ip2 where "ip2 = (if m AND FWRITE \<noteq> 0 then (let jp = set_f 24 (i_fwcnt ip1 - 1) ip1
    in if i_fwcnt jp = 0 \<and> i_fflag jp AND IFIR \<noteq> 0 then set_f 25 (i_fflag jp AND NOT IFIR) jp else jp) else ip1)"
  have l1: "length (i_addr ip1) = NADDR" "i_mode ip1 = i_mode ip" "i_frcnt ip1 = 0" "i_fwcnt ip1 = i_fwcnt ip" "\<forall>s < 10. i_addr ip1 ! s = i_addr ip ! s" "i_size ip1 = i_size ip"
    using assms(3) l by (auto simp: ip1_def Let_def get_set_same get_set_other)
  have l2: "length (i_addr ip2) = NADDR" "i_mode ip2 = i_mode ip" "i_frcnt ip2 = 0" "i_fwcnt ip2 = 0" "\<forall>s < 10. i_addr ip2 ! s = i_addr ip ! s" "i_size ip2 = i_size ip"
    using assms(4) l1 by (auto simp: ip2_def Let_def get_set_same get_set_other)
  have A: "pipe_at ip2 f xs (unat (i_frptr ip)) q" by (rule pipe_at_cong [OF P]) (use l l2 in simp_all)
  have z: "\<forall>s < 10. 5 \<le> s \<longrightarrow> i_addr ip2 ! s = 0" using assms(2) l2(5) by simp
  from closep_last [OF A z] obtain bs jp g where B: "fold closep_block (rev [0..<10]) (ip2, f) = (jp, g)" "i_mode jp = i_mode ip2" "length (i_addr jp) = NADDR"
    "\<forall>s < NADDR. i_addr jp ! s = (if s < 10 then 0 else i_addr ip2 ! s)" "fs_free g (bs @ xs)" "distinct bs" "set bs = (!) (i_addr ip2) ` {..<5} - {0}" "small_dev g" by blast
  define e where "e = set_f 22 0 (set_f 21 0 (jp\<lparr>i_size := 0, i_flag := i_flag jp OR (IUPD OR ICHG)\<rparr>))"
  let ?r = "if m AND FREAD \<noteq> 0 then (let ip = set_f 23 (i_frcnt ip - 1) ip
    in if i_frcnt ip = 0 \<and> i_fflag ip AND IFIW \<noteq> 0 then ([WakeWriters], set_f 25 (i_fflag ip AND NOT IFIW) ip) else ([], ip)) else ([], ip)"
  let ?w = "\<lambda>ev. if m AND FWRITE \<noteq> 0 then (let ip = set_f 24 (i_fwcnt ip1 - 1) ip1
    in if i_fwcnt ip = 0 \<and> i_fflag ip AND IFIR \<noteq> 0 then (ev @ [WakeReaders], set_f 25 (i_fflag ip AND NOT IFIR) ip) else (ev, ip)) else (ev, ip1)"
  have "snd ?r = ip1" by (simp add: ip1_def Let_def)
  from pair_snd [OF this] obtain ev1 where r: "?r = (ev1, ip1)" ..
  have "snd (?w ev1) = ip2" by (simp add: ip2_def Let_def)
  from pair_snd [OF this] obtain ev2 where w: "?w ev1 = (ev2, ip2)" ..
  have "closep m ip f = (ev2, e, g)"
    unfolding closep_def r prod.case w using l2(3,4) B(1) by (simp add: e_def)
  then have e: "ip' = e" "f' = g" using assms(5) by auto
  have n: "get_f k jp = get_f k ip2" if "20 \<le> k" "k < 26" for k
  proof (rule get_f_cong)
    have "k div 2 < NADDR" "\<not> k div 2 < 10" using that by auto
    then show "i_addr jp ! (k div 2) = i_addr ip2 ! (k div 2)" using B(4) by simp
  qed
  have "(!) (i_addr ip2) ` {..<5} = (!) (i_addr ip) ` {..<5}" using l2(5) by (intro image_cong) simp_all
  moreover have "pipe_holds e g (bs @ xs) []"
  proof (rule pipe_holdsI [where r = 0])
    show "pipe_at e g (bs @ xs) 0 []" unfolding pipe_at_def e_def using B pipe_atD(1) [OF P] l2(2) by simp
  qed (use B(3) in \<open>simp_all add: e_def get_set_same get_set_other\<close>)
  moreover have "i_frcnt e = 0" "i_fwcnt e = 0"
  proof -
    have k: "length (i_addr (jp\<lparr>i_size := 0, i_flag := i_flag jp OR (IUPD OR ICHG)\<rparr>)) = NADDR" using B(3) by simp
    have "get_f k e = get_f k jp" if "k \<in> {23, 24}" for k
      using that B(3) by (auto simp: e_def get_set_other) (simp_all add: get_f_def)
    then show "i_frcnt e = 0" "i_fwcnt e = 0" using n l2(3,4) by simp_all
  qed
  ultimately show ?thesis unfolding e using B(5-7) by (intro exI [of _ bs]) simp
qed

theorem pipe_last_close_witness: "\<exists>bs. set bs = {30} \<and> fs_free (snd (snd (closep 3 demo_pipe demo_fs))) (bs @ [20, 21])"
proof -
  obtain ev ip f where c: "closep 3 demo_pipe demo_fs = (ev, ip, f)" by (metis prod.collapse)
  have a: "i_addr demo_pipe ! s = (if s = 0 then 30 else 0)" if "s < 10" for s using that by (cases s) (simp_all add: demo_pipe_def nth_append)
  then have i: "(!) (i_addr demo_pipe) ` {..<5} - {0} = {30}" by (auto simp: image_iff intro!: bexI [of _ 0])
  have m: "(3 :: u16) AND FREAD \<noteq> 0" "(3 :: u16) AND FWRITE \<noteq> 0" "i_frcnt demo_pipe = 1" "i_fwcnt demo_pipe = 1" by code_simp+
  have "pipe_holds demo_pipe demo_fs [20, 21] (map (disk demo_fs 30) [0..<3])" using demo_pipe_holds by simp
  from pipe_last_close [OF this _ _ _ c] show ?thesis using a m i c by auto
qed

section \<open>Reading and writing at the offset\<close>













end
