(* ===== verification/Spec2Isabelle.thy ===== *)
theory Spec2Isabelle
  imports Semaphore Message_Queue Shared_Memory Clist Lock_Calls Callout File_Blocks Cache_Transparent Inode_Use Pipe_Use Open_Data
begin

text \<open>
  The kernel of Microport System V/AT (UNIX System V Release 2 for the iAPX 286),
  \<open>att.rel.2/uts/iAPX286\<close> and \<open>att.rel.2/uts/sys\<close> under \<open>src/\<close>. File names below are relative to the first.

  \<^bold>\<open>The parts and how they meet.\<close> A process enters the kernel by a call. Calls on files go through its
  descriptors to the table of open files (\<open>os/fio.c\<close>), from there to an inode of the inode table
  (\<open>os/iget.c\<close>), and through \<open>readi\<close> and \<open>writei\<close> (\<open>os/rdwri.c\<close>) and \<open>bmap\<close> (\<open>os/subr.c\<close>) to blocks that
  \<open>os/alloc.c\<close> hands out and the buffer cache (\<open>io/bio.c\<close>) keeps. Beside the files stand the facilities of
  interprocess communication (\<open>os/ipc.c\<close>, \<open>sem.c\<close>, \<open>msg.c\<close>, \<open>shm.c\<close>), record locks (\<open>os/flock.c\<close>), the resource
  maps that several of them allocate from (\<open>os/malloc.c\<close>), the callout table of the clock (\<open>os/clock.c\<close>) and the
  character lists of the terminal drivers (\<open>io/clist.c\<close>).

  \<^bold>\<open>Foundations.\<close>
  \<^item> \<open>Kernel_Base\<close>: the machine types (\<open>short\<close> and \<open>int\<close> are 16 bits, \<open>long\<close> 32; \<open>+\<close> wraps, \<open><s\<close> compares signed
    values), the error codes, credentials, results with errors.
  \<^item> \<open>Chain\<close>: singly linked chains through index-valued pointers, as a relation and as a walk; \<open>Ring\<close>: doubly
    linked rings with heads, for the buffer cache and the inode table.

  \<^bold>\<open>Tables and allocators.\<close>
  \<^item> \<open>Resource_Map\<close> (\<open>os/malloc.c\<close>): the sorted list of free pieces. \<open>malloc\<close> and \<open>mfree\<close> against the set of free
    units; the contract \<open>space_map\<close> and its interpretation.
  \<^item> \<open>Clist\<close> (\<open>io/clist.c\<close>): byte queues in chains of blocks. The contract \<open>byte_queues\<close>: each queue is a FIFO,
    blocks are neither shared nor lost.
  \<^item> \<open>Callout\<close> (\<open>os/clock.c\<close>): the table of differences against a set of requests with absolute times, contract
    \<open>timer_service\<close>.

  \<^bold>\<open>Interprocess communication and locks.\<close>
  \<^item> \<open>Ipc_Perm\<close> (\<open>os/ipc.c\<close>), \<open>Semaphore\<close> (\<open>os/sem.c\<close>), \<open>Message_Queue\<close> (\<open>os/msg.c\<close>), \<open>Shared_Memory\<close> (\<open>os/shm.c\<close>): all
    operations; the invariants of the tables over any sequence of calls, \<open>semop\<close> all or nothing with the undo
    structures that \<open>exit\<close> applies, queues of messages as lists, attach counts against attach tables.
  \<^item> \<open>Lock_Table\<close>, \<open>Lock_Regions\<close>, \<open>Record_Lock\<close> (\<open>os/flock.c\<close>): the lists of locks of each file, the splitting and
    merging of regions, the search for deadlocks; what a process holds of each file as a set of bytes.

  \<^bold>\<open>Files.\<close>
  \<^item> \<open>Disk_Blocks\<close> (\<open>alloc\<close>, \<open>free\<close> of \<open>os/alloc.c\<close>): the list of free blocks in the super block and on the disk as a
    stack, contract \<open>block_pool\<close>. \<open>Block_Map\<close>, \<open>File_Blocks\<close> (\<open>bmap\<close> of \<open>os/subr.c\<close>; \<open>itrunc\<close>, \<open>iread\<close>, \<open>iupdat\<close> of
    \<open>os/iget.c\<close>): the block of an offset through three levels of indirect blocks, truncation, the inode on the disk.
  \<^item> \<open>Buffer_Cache\<close> (\<open>io/bio.c\<close>), with its invariant, steps and runs in \<open>Cache_Invariant\<close>, \<open>Cache_Core\<close>, \<open>Cache_Steps\<close>,
    \<open>Cache_Run\<close>, \<open>Cache_Flush\<close>, \<open>Cache_Transparent\<close>: under any interleaving of callers and drivers the cache shows
    the blocks as last written, and no sleeper is forgotten.
  \<^item> \<open>Inode_Table\<close> (\<open>os/iget.c\<close>, \<open>ialloc\<close> and \<open>ifree\<close> of \<open>os/alloc.c\<close>, \<open>plock\<close> and \<open>prele\<close> of \<open>os/pipe.c\<close>), with
    \<open>Inode_Lists\<close>, \<open>Inode_Steps\<close>, \<open>Inode_Run\<close>, \<open>Inode_Use\<close>: one inode for each number, references pin it, \<open>iget\<close>
    and \<open>ialloc\<close> come back.
  \<^item> \<open>Read_Write\<close> (\<open>os/rdwri.c\<close>); \<open>File_Contents\<close>: a regular file as a sequence of bytes; \<open>Pipe_Queue\<close>, \<open>Pipe_Use\<close>: a
    pipe as a queue of at most 5120 bytes, with its sleepers.
  \<^item> \<open>Open_Files\<close> (\<open>os/fio.c\<close>, \<open>os/pipe.c\<close>, \<open>rdwr\<close>, \<open>copen\<close>, \<open>close\<close> and \<open>seek\<close> of \<open>os/sys2.c\<close>, \<open>dup\<close> and \<open>fcntl\<close> of
    \<open>os/sys3.c\<close>, the files in \<open>newproc\<close> of \<open>os/slp.c\<close>); \<open>Open_Runs\<close>, \<open>Open_Use\<close>, \<open>Open_Calls\<close>: reference counts of entries and
    inodes over any sequence of calls; \<open>Open_Data\<close>: what moves through a descriptor, and the end of a pipe.

  \<^bold>\<open>How the model stands to the code.\<close> Tables are functions from indices, pointers into them are indices or, for
  rings, a datatype of their nodes; records have the fields of the structures that the code of the component uses.
  A routine is a function from state to result and state. Where a routine can sleep it is modelled up to the sleep, as
  a result of its own (\<open>ISleep\<close>, \<open>RSleep\<close>, a channel), and the woken caller enters it again at the test that the code repeats; the
  step relations and reachable states then allow every other step in between. Wakeups, panics, messages and calls of
  drivers are events or counters where a property depends on them. Interrupt priority levels are left out: a step is
  not interrupted, and the completion of a request by a driver is a step of its own. Reads or writes outside a table and
  loops that need not end give \<open>None\<close>; that they do not occur is part of the theorems.

  The theories of the file components see the blocks of a device directly: \<open>Cache_Transparent\<close> shows that this is
  what the cache provides; a block whose read failed, and what is then in the buffer, are parameters (\<open>io_err\<close>, \<open>lost\<close>,
  \<open>stale\<close>). Drivers of devices, their open routines and the switch tables are parameters (\<open>drv\<close>, \<open>devsw\<close>).

  \<^bold>\<open>Bounds.\<close> \<open>ring_find\<close> follows at most one more link than the table has entries, which is the length of the longest
  ring. \<open>iget\<close> has two steps for each mounted device and two more: crossing a mount leads to an inode of higher rank in
  the order of mounts. \<open>bflush\<close> has the square of the number of buffers: each restart of its scan has written one buffer. A
  write to a pipe takes at most two passes, since a first pass that leaves something over has filled the pipe. The loops
  of \<open>readi\<close> and \<open>writei\<close> end because each round lowers \<open>u_count\<close> or stops. \<open>getcbp\<close>, \<open>putcbp\<close>, \<open>msg_purge\<close>,
  the lock adjustment and the search for deadlocks are partial functions, shown to return on every state that the calls can reach;
  \<open>ialloc\<close>, which the code repeats while the numbers it takes turn out to be in use, is one whose theorem is about the calls that return.

  \<^bold>\<open>Not modelled.\<close> Within the components: dispatchers, statistics and accounting; \<open>areadi\<close>; \<open>swap\<close> and \<open>physio\<close>; the contents of
  shared segments; \<open>update\<close>; the search of path names, and with it the first part of \<open>copen\<close>, \<open>access\<close> and \<open>maknode\<close>. Whole parts: processes,
  signals, swapping and memory management, which rest on the segmentation hardware and assembly; traps and machine support;
  character, disk and communication drivers; the 80287 emulator, boot code and configuration; the commands, the libraries and
  the enhancements of release 2.3 for the IBM AT, which are separate programs or variants of these parts.
\<close>

end
